(* ===== verification/AsgPrelude.thy ===== *)
theory AsgPrelude
  imports Main "HOL-Library.Word"
begin

text \<open>
  Shared vocabulary of the development.  C integers are modelled by \<^typ>\<open>int\<close>; wherever the
  code converts between widths or signedness (an assignment to a \<open>uint32_t\<close>, a comparison that
  mixes signed and unsigned operands, a store into a packet) the conversion is written out with
  \<open>to_u16\<close>, \<open>to_u32\<close>, \<open>to_s32\<close> and their kin.  Memory (packet payloads) is a function from byte
  addresses to bytes, with little-endian loads and stores as on the x86 target of the module.
  The theory also holds the generic lemmas on loads, stores and bounded search loops that the
  component theories share.
\<close>

named_theorems cint \<open>definitions of the C integer conversions\<close>

type_synonym byte = "8 word"
type_synonym mem = "nat \<Rightarrow> byte"
type_synonym chunk = "byte list"

section \<open>Integer conversions\<close>

definition to_u16 :: "int \<Rightarrow> int" where
  "to_u16 x = x mod 65536"

definition to_u32 :: "int \<Rightarrow> int" where
  "to_u32 x = x mod 4294967296"

definition to_u64 :: "int \<Rightarrow> int" where
  "to_u64 x = x mod 18446744073709551616"

definition to_s32 :: "int \<Rightarrow> int" where
  "to_s32 x = (let u = x mod 4294967296 in if u < 2147483648 then u else u - 4294967296)"

definition to_s64 :: "int \<Rightarrow> int" where
  "to_s64 x = (let u = x mod 18446744073709551616
     in if u < 9223372036854775808 then u else u - 18446744073709551616)"

definition is_s32 :: "int \<Rightarrow> bool" where
  "is_s32 x \<longleftrightarrow> - 2147483648 \<le> x \<and> x < 2147483648"

definition is_u32 :: "int \<Rightarrow> bool" where
  "is_u32 x \<longleftrightarrow> 0 \<le> x \<and> x < 4294967296"

text \<open>C division truncates towards zero.\<close>

definition c_div :: "int \<Rightarrow> int \<Rightarrow> int" where
  "c_div a b = sgn a * sgn b * (\<bar>a\<bar> div \<bar>b\<bar>)"

lemmas [cint] = to_u16_def to_u32_def to_u64_def to_s32_def to_s64_def is_s32_def is_u32_def

lemma to_u16_id [simp]: "0 \<le> x \<Longrightarrow> x < 65536 \<Longrightarrow> to_u16 x = x"
  by (simp add: to_u16_def)

lemma to_u32_id [simp]: "0 \<le> x \<Longrightarrow> x < 4294967296 \<Longrightarrow> to_u32 x = x"
  by (simp add: to_u32_def)

lemma to_u64_id [simp]: "0 \<le> x \<Longrightarrow> x < 18446744073709551616 \<Longrightarrow> to_u64 x = x"
  by (simp add: to_u64_def)

lemma to_s32_id [simp]: "- 2147483648 \<le> x \<Longrightarrow> x < 2147483648 \<Longrightarrow> to_s32 x = x"
proof (cases "0 \<le> x")
  case True
  then show "x < 2147483648 \<Longrightarrow> ?thesis" by (simp add: to_s32_def)
next
  case False
  assume b: "- 2147483648 \<le> x" "x < 2147483648"
  have "x mod 4294967296 = (x + 4294967296) mod 4294967296" by simp
  also have "\<dots> = x + 4294967296" using False b by (intro mod_pos_pos_trivial) auto
  finally show ?thesis using False b by (simp add: to_s32_def)
qed

lemma to_u32_range: "0 \<le> to_u32 x" "to_u32 x < 4294967296"
  by (simp_all add: to_u32_def)

lemma to_s32_range: "- 2147483648 \<le> to_s32 x" "to_s32 x < 2147483648"
proof -
  have "0 \<le> x mod 4294967296" and "x mod 4294967296 < 4294967296" by simp_all
  then show "- 2147483648 \<le> to_s32 x" and "to_s32 x < 2147483648"
    unfolding to_s32_def Let_def by presburger+
qed

lemma is_u32_to_u32 [simp]: "is_u32 (to_u32 x)"
  by (simp add: is_u32_def to_u32_range)

lemma is_s32_to_s32 [simp]: "is_s32 (to_s32 x)"
  by (simp add: is_s32_def to_s32_range)

lemma to_s32_idem [simp]: "to_s32 (to_s32 x) = to_s32 x"
  by (simp add: to_s32_range)

lemma to_u32_idem [simp]: "to_u32 (to_u32 x) = to_u32 x"
  by (simp add: to_u32_range)

lemma to_s32_mod [simp]: "to_s32 (x mod 4294967296) = to_s32 x"
  by (simp add: to_s32_def)

lemma to_u32_mod [simp]: "to_u32 (x mod 4294967296) = to_u32 x"
  by (simp add: to_u32_def)

lemma to_u32_to_s32 [simp]: "to_u32 (to_s32 x) = to_u32 x"
  by (simp add: to_u32_def to_s32_def Let_def)

lemma to_s32_to_u32 [simp]: "to_s32 (to_u32 x) = to_s32 x"
  by (simp add: to_u32_def)

section \<open>Byte memory: little-endian loads and stores\<close>

primrec ld_le :: "nat \<Rightarrow> mem \<Rightarrow> nat \<Rightarrow> int" where
  "ld_le 0 m a = 0"
| "ld_le (Suc n) m a = uint (m a) + 256 * ld_le n m (Suc a)"

primrec st_le :: "nat \<Rightarrow> mem \<Rightarrow> nat \<Rightarrow> int \<Rightarrow> mem" where
  "st_le 0 m a v = m"
| "st_le (Suc n) m a v = st_le n (m(a := word_of_int v)) (Suc a) (v div 256)"

definition ld_u16 :: "mem \<Rightarrow> nat \<Rightarrow> int" where "ld_u16 m a = ld_le 2 m a"
definition ld_u32 :: "mem \<Rightarrow> nat \<Rightarrow> int" where "ld_u32 m a = ld_le 4 m a"
definition ld_s32 :: "mem \<Rightarrow> nat \<Rightarrow> int" where "ld_s32 m a = to_s32 (ld_le 4 m a)"
definition ld_u64 :: "mem \<Rightarrow> nat \<Rightarrow> int" where "ld_u64 m a = ld_le 8 m a"

definition st_u16 :: "mem \<Rightarrow> nat \<Rightarrow> int \<Rightarrow> mem" where "st_u16 m a v = st_le 2 m a v"
definition st_u32 :: "mem \<Rightarrow> nat \<Rightarrow> int \<Rightarrow> mem" where "st_u32 m a v = st_le 4 m a v"
definition st_u64 :: "mem \<Rightarrow> nat \<Rightarrow> int \<Rightarrow> mem" where "st_u64 m a v = st_le 8 m a v"

text \<open>\<open>memcpy\<close> of a byte list into memory, and reading \<open>n\<close> bytes out of it.\<close>

primrec st_bytes :: "mem \<Rightarrow> nat \<Rightarrow> byte list \<Rightarrow> mem" where
  "st_bytes m a [] = m"
| "st_bytes m a (b # bs) = st_bytes (m(a := b)) (Suc a) bs"

definition ld_bytes :: "nat \<Rightarrow> mem \<Rightarrow> nat \<Rightarrow> byte list" where
  "ld_bytes n m a = map m [a..<a + n]"

lemma uint_word_of_int_byte [simp]: "uint (word_of_int v :: byte) = v mod 256"
  by (simp add: uint_word_of_int)

lemma st_le_other: "x < a \<or> a + n \<le> x \<Longrightarrow> st_le n m a v x = m x"
  by (induction n arbitrary: m a v) auto

lemma st_bytes_other: "x < a \<or> a + length bs \<le> x \<Longrightarrow> st_bytes m a bs x = m x"
  by (induction bs arbitrary: m a) auto

lemma ld_le_cong: "(\<And>x. a \<le> x \<Longrightarrow> x < a + n \<Longrightarrow> m x = m' x) \<Longrightarrow> ld_le n m a = ld_le n m' a"
  by (induction n arbitrary: a) auto

lemma ld_le_zero [simp]: "ld_le n (\<lambda>_. 0) a = 0"
  by (induction n arbitrary: a) simp_all

lemma ld_le_st_le_other:
  "b + k \<le> a \<or> a + n \<le> b \<Longrightarrow> ld_le k (st_le n m a v) b = ld_le k m b"
  by (rule ld_le_cong) (auto intro: st_le_other)

lemma ld_le_st_bytes_other:
  "b + k \<le> a \<or> a + length bs \<le> b \<Longrightarrow> ld_le k (st_bytes m a bs) b = ld_le k m b"
  by (rule ld_le_cong) (auto intro: st_bytes_other)

lemma mod_256_split: "(v::int) mod 256 + 256 * (v div 256 mod b) = v mod (256 * b)" if "0 \<le> b"
proof -
  have "v mod (256 * b) = 256 * (v div 256 mod b) + v mod 256"
    by (rule zmod_zmult2_eq) (use that in simp)
  then show ?thesis by simp
qed

lemma ld_le_st_le: "ld_le n (st_le n m a v) a = v mod 256 ^ n"
proof (induction n arbitrary: m a v)
  case 0
  then show ?case by simp
next
  case (Suc n)
  have "st_le n (m(a := word_of_int v)) (Suc a) (v div 256) a = word_of_int v"
    by (simp add: st_le_other)
  then show ?case by (simp add: Suc.IH mod_256_split)
qed

lemma ld_bytes_st_le_other:
  "b + k \<le> a \<or> a + n \<le> b \<Longrightarrow> ld_bytes k (st_le n m a v) b = ld_bytes k m b"
  by (auto simp: ld_bytes_def intro: st_le_other)

lemma ld_bytes_st_bytes_other:
  "b + k \<le> a \<or> a + length bs \<le> b \<Longrightarrow> ld_bytes k (st_bytes m a bs) b = ld_bytes k m b"
  by (auto simp: ld_bytes_def intro: st_bytes_other)

lemma st_bytes_nth: "i < length bs \<Longrightarrow> st_bytes m a bs (a + i) = bs ! i"
proof (induction bs arbitrary: m a i)
  case (Cons b bs)
  show ?case
  proof (cases i)
    case 0
    then show ?thesis by (simp add: st_bytes_other)
  next
    case (Suc j)
    with Cons.prems have "j < length bs" by simp
    then have "st_bytes (m(a := b)) (Suc a) bs (Suc a + j) = bs ! j" by (rule Cons.IH)
    with Suc show ?thesis by (simp only: st_bytes.simps add_Suc add_Suc_right nth_Cons_Suc)
  qed
qed simp

lemma ld_bytes_st_bytes [simp]: "ld_bytes (length bs) (st_bytes m a bs) a = bs"
  by (rule nth_equalityI) (simp_all add: ld_bytes_def st_bytes_nth)

lemma length_ld_bytes [simp]: "length (ld_bytes n m a) = n"
  by (simp add: ld_bytes_def)

lemmas ld_defs = ld_u16_def ld_u32_def ld_s32_def ld_u64_def
lemmas st_defs = st_u16_def st_u32_def st_u64_def

lemma ld_st_same [simp]:
  "ld_u16 (st_u16 m a v) a = to_u16 v"
  "ld_u32 (st_u32 m a v) a = to_u32 v"
  "ld_s32 (st_u32 m a v) a = to_s32 v"
  "ld_u64 (st_u64 m a v) a = to_u64 v"
  by (simp_all add: ld_defs st_defs ld_le_st_le to_u16_def to_u32_def to_u64_def)

lemma ld_st_other [simp]:
  "b + 2 \<le> a \<or> a + 2 \<le> b \<Longrightarrow> ld_u16 (st_u16 m a v) b = ld_u16 m b"
  "b + 2 \<le> a \<or> a + 4 \<le> b \<Longrightarrow> ld_u16 (st_u32 m a v) b = ld_u16 m b"
  "b + 2 \<le> a \<or> a + 8 \<le> b \<Longrightarrow> ld_u16 (st_u64 m a v) b = ld_u16 m b"
  "b + 4 \<le> a \<or> a + 2 \<le> b \<Longrightarrow> ld_u32 (st_u16 m a v) b = ld_u32 m b"
  "b + 4 \<le> a \<or> a + 4 \<le> b \<Longrightarrow> ld_u32 (st_u32 m a v) b = ld_u32 m b"
  "b + 4 \<le> a \<or> a + 2 \<le> b \<Longrightarrow> ld_s32 (st_u16 m a v) b = ld_s32 m b"
  "b + 4 \<le> a \<or> a + 4 \<le> b \<Longrightarrow> ld_s32 (st_u32 m a v) b = ld_s32 m b"
  "b + 8 \<le> a \<or> a + 2 \<le> b \<Longrightarrow> ld_u64 (st_u16 m a v) b = ld_u64 m b"
  "b + 8 \<le> a \<or> a + 8 \<le> b \<Longrightarrow> ld_u64 (st_u64 m a v) b = ld_u64 m b"
  by (simp_all add: ld_defs st_defs ld_le_st_le_other)

lemma ld_st_bytes_other [simp]:
  "b + 2 \<le> a \<or> a + length bs \<le> b \<Longrightarrow> ld_u16 (st_bytes m a bs) b = ld_u16 m b"
  "b + 4 \<le> a \<or> a + length bs \<le> b \<Longrightarrow> ld_u32 (st_bytes m a bs) b = ld_u32 m b"
  "b + 4 \<le> a \<or> a + length bs \<le> b \<Longrightarrow> ld_s32 (st_bytes m a bs) b = ld_s32 m b"
  by (simp_all add: ld_defs ld_le_st_bytes_other)

lemma ld_bytes_st_other [simp]:
  "b + k \<le> a \<or> a + 2 \<le> b \<Longrightarrow> ld_bytes k (st_u16 m a v) b = ld_bytes k m b"
  "b + k \<le> a \<or> a + 4 \<le> b \<Longrightarrow> ld_bytes k (st_u32 m a v) b = ld_bytes k m b"
  by (simp_all add: st_defs ld_bytes_st_le_other)

text \<open>Two memories agree outside an address range: the frame condition of every packet writer.\<close>

definition same_outside :: "nat \<Rightarrow> nat \<Rightarrow> mem \<Rightarrow> mem \<Rightarrow> bool" where
  "same_outside lo hi m m' \<longleftrightarrow> (\<forall>x. x < lo \<or> hi \<le> x \<longrightarrow> m' x = m x)"

lemma same_outsideI: "(\<And>x. x < lo \<or> hi \<le> x \<Longrightarrow> m' x = m x) \<Longrightarrow> same_outside lo hi m m'"
  by (simp add: same_outside_def)

lemma same_outside_refl [simp]: "same_outside lo hi m m"
  by (simp add: same_outside_def)

lemma same_outside_st_u16: "lo \<le> a \<Longrightarrow> a + 2 \<le> hi \<Longrightarrow> same_outside lo hi m m' \<Longrightarrow>
    same_outside lo hi m (st_u16 m' a v)"
  by (auto simp: same_outside_def st_defs st_le_other)

lemma same_outside_st_u32: "lo \<le> a \<Longrightarrow> a + 4 \<le> hi \<Longrightarrow> same_outside lo hi m m' \<Longrightarrow>
    same_outside lo hi m (st_u32 m' a v)"
  by (auto simp: same_outside_def st_defs st_le_other)

lemma same_outside_st_u64: "lo \<le> a \<Longrightarrow> a + 8 \<le> hi \<Longrightarrow> same_outside lo hi m m' \<Longrightarrow>
    same_outside lo hi m (st_u64 m' a v)"
  by (auto simp: same_outside_def st_defs st_le_other)

lemma same_outside_st_bytes: "lo \<le> a \<Longrightarrow> a + length bs \<le> hi \<Longrightarrow> same_outside lo hi m m' \<Longrightarrow>
    same_outside lo hi m (st_bytes m' a bs)"
  by (auto simp: same_outside_def st_bytes_other)

lemmas same_outside_st =
  same_outside_st_u16 same_outside_st_u32 same_outside_st_u64 same_outside_st_bytes

lemma same_outside_ld_u16:
  "same_outside lo hi m m' \<Longrightarrow> b + 2 \<le> lo \<or> hi \<le> b \<Longrightarrow> ld_u16 m' b = ld_u16 m b"
  unfolding ld_u16_def by (rule ld_le_cong) (auto simp: same_outside_def)

end
