(* ===== verification/AsgQueue.thy ===== *)
theory AsgQueue
  imports AsgPrelude
begin

text \<open>
  The contract that the FIFO containers of the code share (the command ring buffers, the
  asynchronous packet queues, the retransmission request lists): an abstraction to a list, a
  well-formedness predicate and a capacity.  Clients prove their facts once, inside the locale.
\<close>

locale fifo =
  fixes enq :: "'a \<Rightarrow> 'q \<Rightarrow> 'q"
    and deq :: "'q \<Rightarrow> 'a option \<times> 'q"
    and elems :: "'q \<Rightarrow> 'a list"
    and ok :: "'q \<Rightarrow> bool"
    and room :: "'q \<Rightarrow> nat \<Rightarrow> bool"
  assumes enq_ok: "ok q \<Longrightarrow> room q (Suc n) \<Longrightarrow> ok (enq x q)"
    and enq_elems: "ok q \<Longrightarrow> room q (Suc n) \<Longrightarrow> elems (enq x q) = elems q @ [x]"
    and enq_room: "ok q \<Longrightarrow> room q (Suc n) \<Longrightarrow> room (enq x q) n"
    and deq_Nil: "ok q \<Longrightarrow> elems q = [] \<Longrightarrow> deq q = (None, q)"
    and deq_Cons: "ok q \<Longrightarrow> elems q = x # xs \<Longrightarrow>
        fst (deq q) = Some x \<and> elems (snd (deq q)) = xs \<and> ok (snd (deq q))"
begin

primrec enq_all :: "'a list \<Rightarrow> 'q \<Rightarrow> 'q" where
  "enq_all [] q = q"
| "enq_all (x # xs) q = enq_all xs (enq x q)"

primrec drain :: "nat \<Rightarrow> 'q \<Rightarrow> 'a list \<times> 'q" where
  "drain 0 q = ([], q)"
| "drain (Suc n) q =
     (case deq q of (None, q') \<Rightarrow> ([], q')
      | (Some x, q') \<Rightarrow> (let (ys, q'') = drain n q' in (x # ys, q'')))"

lemma enq_all_spec:
  "ok q \<Longrightarrow> room q (length xs) \<Longrightarrow> ok (enq_all xs q) \<and> elems (enq_all xs q) = elems q @ xs"
proof (induction xs arbitrary: q)
  case (Cons x xs)
  then have r: "room q (Suc (length xs))" by simp
  from Cons.prems r have "ok (enq x q)" and "elems (enq x q) = elems q @ [x]"
    and "room (enq x q) (length xs)"
    by (simp_all add: enq_ok enq_elems enq_room)
  with Cons.IH [of "enq x q"] show ?case by simp
qed simp

lemma drain_spec:
  "ok q \<Longrightarrow> fst (drain n q) = take n (elems q) \<and> elems (snd (drain n q)) = drop n (elems q)
     \<and> ok (snd (drain n q))"
proof (induction n arbitrary: q)
  case (Suc n)
  show ?case
  proof (cases "elems q")
    case Nil
    with Suc.prems show ?thesis by (simp add: deq_Nil)
  next
    case (Cons x xs)
    obtain r q' where d: "deq q = (r, q')" by fastforce
    with deq_Cons [OF Suc.prems Cons] have "r = Some x" "elems q' = xs" "ok q'" by auto
    with Suc.IH [of q'] d Cons show ?thesis by (auto simp: split_beta Let_def)
  qed
qed simp

text \<open>First in, first out: what goes in comes out, in order, and nothing else does.\<close>

lemma drain_enq_all:
  assumes "ok q" and "elems q = []" and "room q (length xs)"
  shows "fst (drain (length xs) (enq_all xs q)) = xs"
    and "elems (snd (drain (length xs) (enq_all xs q))) = []"
  using drain_spec [of "enq_all xs q" "length xs"] enq_all_spec [OF assms(1,3)] assms(2)
  by simp_all

end

text \<open>A container that also accepts elements at its front.\<close>

locale deque = fifo enq deq elems ok room
  for enq :: "'a \<Rightarrow> 'q \<Rightarrow> 'q" and deq :: "'q \<Rightarrow> 'a option \<times> 'q"
    and elems :: "'q \<Rightarrow> 'a list" and ok :: "'q \<Rightarrow> bool" and room :: "'q \<Rightarrow> nat \<Rightarrow> bool" +
  fixes push :: "'a \<Rightarrow> 'q \<Rightarrow> 'q"
  assumes push_ok: "ok q \<Longrightarrow> room q (Suc n) \<Longrightarrow> ok (push x q)"
    and push_elems: "ok q \<Longrightarrow> room q (Suc n) \<Longrightarrow> elems (push x q) = x # elems q"
begin

lemma push_overtakes:
  assumes "ok q" and "room q (Suc n)"
  shows "fst (deq (push x q)) = Some x" and "elems (snd (deq (push x q))) = elems q"
  using deq_Cons [OF push_ok [OF assms] push_elems [OF assms]] by simp_all

end

text \<open>A list of outstanding requests: asking twice for the same element is asking once, requests
  are served in the order in which they were first made.\<close>

locale request_list =
  fixes req :: "'a \<Rightarrow> 'q \<Rightarrow> 'q"
    and serve :: "'q \<Rightarrow> 'a option \<times> 'q"
    and pending :: "'q \<Rightarrow> 'a list"
    and ok :: "'q \<Rightarrow> bool"
  assumes ok_distinct: "ok q \<Longrightarrow> distinct (pending q)"
    and req_ok: "ok q \<Longrightarrow> ok (req x q)"
    and req_pending: "ok q \<Longrightarrow> pending (req x q) = (if x \<in> set (pending q) then pending q else pending q @ [x])"
    and serve_Nil: "ok q \<Longrightarrow> pending q = [] \<Longrightarrow> serve q = (None, q)"
    and serve_Cons: "ok q \<Longrightarrow> pending q = x # xs \<Longrightarrow>
        fst (serve q) = Some x \<and> pending (snd (serve q)) = xs \<and> ok (snd (serve q))"
begin

primrec serve_all :: "nat \<Rightarrow> 'q \<Rightarrow> 'a list \<times> 'q" where
  "serve_all 0 q = ([], q)"
| "serve_all (Suc n) q =
     (case serve q of (None, q') \<Rightarrow> ([], q')
      | (Some x, q') \<Rightarrow> (let (ys, q'') = serve_all n q' in (x # ys, q'')))"

lemma fold_req: "ok q \<Longrightarrow> ok (fold req xs q) \<and>
    pending (fold req xs q) = pending q @ rev (remdups (rev (filter (\<lambda>x. x \<notin> set (pending q)) xs)))"
proof (induction xs rule: rev_induct)
  case (snoc x xs)
  then have "ok (fold req xs q)" and p: "pending (fold req xs q) =
      pending q @ rev (remdups (rev (filter (\<lambda>x. x \<notin> set (pending q)) xs)))" by simp_all
  from req_ok [OF this(1), of x] req_pending [OF this(1), of x] show ?case
    by (auto simp: p)
qed simp

lemma serve_all_spec: "ok q \<Longrightarrow> fst (serve_all n q) = take n (pending q)
     \<and> pending (snd (serve_all n q)) = drop n (pending q) \<and> ok (snd (serve_all n q))"
proof (induction n arbitrary: q)
  case (Suc n)
  show ?case
  proof (cases "pending q")
    case Nil
    with Suc.prems show ?thesis by (simp add: serve_Nil)
  next
    case (Cons x xs)
    obtain r q' where d: "serve q = (r, q')" by fastforce
    with serve_Cons [OF Suc.prems Cons] have "r = Some x" "pending q' = xs" "ok q'" by auto
    with Suc.IH [of q'] d Cons show ?thesis by (auto simp: split_beta Let_def)
  qed
qed simp

text \<open>A request is served once: after the round that serves everything pending, exactly the
  requested elements have been handed out, none of them twice.\<close>

lemma requests_served:
  assumes "ok q" and "pending q = []"
  shows "set (fst (serve_all (length (pending (fold req xs q))) (fold req xs q))) = set xs"
    and "distinct (fst (serve_all (length (pending (fold req xs q))) (fold req xs q)))"
    and "pending (snd (serve_all (length (pending (fold req xs q))) (fold req xs q))) = []"
  using serve_all_spec [of "fold req xs q"] fold_req [OF assms(1), of xs] assms(2)
    ok_distinct [of "fold req xs q"] by simp_all

end

end
