(* ===== verification/AsgRing.thy ===== *)
theory AsgRing
  imports AsgQueue
begin

text \<open>
  \<open>core/ringbuffer.c\<close> and \<open>core/ringbuffer.h\<close>: the command ring buffer between the consensus
  protocol and the application.  A null pointer argument is \<^term>\<open>None\<close>.  The first part holds the
  operations, the second the refinement to a queue (the interpretation \<open>rb\<close> of \<open>fifo\<close>), the third
  what happens at the capacity limit.
\<close>

definition ASG_CHUNK_SIZE :: nat where "ASG_CHUNK_SIZE = 8"
definition ASG_RING_BUF_SIZE_LIMIT :: int where "ASG_RING_BUF_SIZE_LIMIT = 1000000"

record asg_ring_buf =
  read_idx :: int
  write_idx :: int
  rb_turn :: int
  rb_size :: int
  ring :: "int \<Rightarrow> chunk"

text \<open>\<open>sizeof(struct asg_ring_buf)\<close>: four \<open>int\<close>s and the chunk array.\<close>

definition sizeof_asg_ring_buf :: int where
  "sizeof_asg_ring_buf = 4 * 4 + ASG_RING_BUF_SIZE_LIMIT * int ASG_CHUNK_SIZE"

definition validation_key :: "byte list" where
  "validation_key = [0x39, 0x3e, 0x52, 0x00, 0x00, 0x00, 0x00]"

definition get_start_of_obj_key :: "chunk \<Rightarrow> byte list \<times> nat" where
  "get_start_of_obj_key noc = (drop 1 noc, ASG_CHUNK_SIZE - 1)"

definition validate_header_key :: "chunk \<Rightarrow> bool" where
  "validate_header_key noc =
     (let (key_in_header, sz) = get_start_of_obj_key noc
      in take (ASG_CHUNK_SIZE - 1) key_in_header = validation_key)"

definition setup_asg_ring_buf :: "asg_ring_buf \<Rightarrow> int \<Rightarrow> asg_ring_buf" where
  "setup_asg_ring_buf buf max_elements =
     buf\<lparr>rb_size := max_elements, read_idx := 0, write_idx := 0, rb_turn := 0\<rparr>"

definition append_rb :: "asg_ring_buf option \<Rightarrow> chunk \<Rightarrow> int \<times> asg_ring_buf option" where
  "append_rb bufp data =
     (case bufp of
        None \<Rightarrow> (-1, None)
      | Some buf \<Rightarrow>
          if write_idx buf < 0 \<or> write_idx buf \<ge> ASG_RING_BUF_SIZE_LIMIT then (-1, Some buf)
          else
            let buf1 = buf\<lparr>ring := (ring buf)(write_idx buf := data)\<rparr>;
                buf2 = buf1\<lparr>write_idx := write_idx buf1 + 1\<rparr>
            in (0, Some (if write_idx buf2 = rb_size buf2
                         then buf2\<lparr>write_idx := 0, rb_turn := 1\<rparr> else buf2)))"

definition get_num_of_chunks :: "chunk \<Rightarrow> int" where
  "get_num_of_chunks noc = uint (hd noc)"

definition is_rb_empty :: "asg_ring_buf option \<Rightarrow> bool" where
  "is_rb_empty bufp =
     (case bufp of None \<Rightarrow> True | Some buf \<Rightarrow> read_idx buf = write_idx buf)"

definition check_entry :: "asg_ring_buf \<Rightarrow> int" where
  "check_entry buf =
     (if is_rb_empty (Some buf) then -1
      else if \<not> validate_header_key (ring buf (read_idx buf)) then 1
      else
        let num_of_chunks = get_num_of_chunks (ring buf (read_idx buf))
        in if rb_turn buf \<noteq> 0
           then (if num_of_chunks + read_idx buf \<ge> write_idx buf + rb_size buf then 1 else 0)
           else (if num_of_chunks + read_idx buf \<ge> write_idx buf then 1 else 0))"

text \<open>\<open>read_rb\<close> returns its status, the buffer and the chunk written to the destination; a
  missing destination is the flag \<open>dest = False\<close>.\<close>

definition read_rb :: "asg_ring_buf option \<Rightarrow> bool \<Rightarrow> int \<times> asg_ring_buf option \<times> chunk option" where
  "read_rb bufp dest =
     (case bufp of
        None \<Rightarrow> (-1, None, None)
      | Some buf \<Rightarrow>
          if is_rb_empty (Some buf) then (-1, Some buf, None)
          else if \<not> dest then (-1, Some buf, None)
          else
            let c = ring buf (read_idx buf);
                buf1 = buf\<lparr>read_idx := read_idx buf + 1\<rparr>
            in (0, Some (if read_idx buf1 = rb_size buf1
                         then buf1\<lparr>read_idx := 0, rb_turn := 0\<rparr> else buf1), Some c))"

section \<open>Refinement to a queue\<close>

text \<open>Well-formed buffers.  A buffer whose \<open>size\<close> is within the array wraps around; one whose
  \<open>size\<close> is larger (which is what \<open>consensus_init\<close> sets up) never reaches its turning point.\<close>

definition rb_ok :: "asg_ring_buf \<Rightarrow> bool" where
  "rb_ok b \<longleftrightarrow> 0 \<le> read_idx b \<and> 0 \<le> write_idx b \<and>
     (if rb_size b \<le> ASG_RING_BUF_SIZE_LIMIT
      then read_idx b < rb_size b \<and> write_idx b < rb_size b
           \<and> (if rb_turn b = 0 then read_idx b \<le> write_idx b else write_idx b < read_idx b)
      else rb_turn b = 0 \<and> read_idx b \<le> write_idx b \<and> write_idx b \<le> ASG_RING_BUF_SIZE_LIMIT)"

definition rb_list :: "asg_ring_buf \<Rightarrow> chunk list" where
  "rb_list b = map (ring b)
     (if rb_turn b = 0 then [read_idx b..write_idx b - 1]
      else [read_idx b..rb_size b - 1] @ [0..write_idx b - 1])"

text \<open>One slot stays free: a buffer with every slot used would look empty.\<close>

definition rb_room :: "asg_ring_buf \<Rightarrow> nat \<Rightarrow> bool" where
  "rb_room b n \<longleftrightarrow>
     (if rb_size b \<le> ASG_RING_BUF_SIZE_LIMIT then int (length (rb_list b)) + int n < rb_size b
      else write_idx b + int n \<le> ASG_RING_BUF_SIZE_LIMIT)"

lemma rb_length: "rb_ok b \<Longrightarrow> int (length (rb_list b)) =
    (if rb_turn b = 0 then write_idx b - read_idx b else rb_size b - read_idx b + write_idx b)"
  by (auto simp: rb_ok_def rb_list_def split: if_splits)

lemma rb_empty_iff: "rb_ok b \<Longrightarrow> is_rb_empty (Some b) \<longleftrightarrow> rb_list b = []"
  by (auto simp: rb_ok_def rb_list_def is_rb_empty_def split: if_splits)

lemma append_rb_oversized:
  assumes ok: "rb_ok b" and big: "rb_size b > ASG_RING_BUF_SIZE_LIMIT" and room: "rb_room b (Suc n)"
  shows "\<exists>b'. append_rb (Some b) d = (0, Some b') \<and> rb_ok b' \<and> rb_list b' = rb_list b @ [d]
           \<and> rb_size b' = rb_size b \<and> rb_room b' n"
proof -
  have "[read_idx b..write_idx b] = [read_idx b..write_idx b - 1] @ [write_idx b]"
    by (rule upto_rec2) (use ok big in \<open>simp add: rb_ok_def\<close>)
  then show ?thesis
    using ok big room by (auto simp: append_rb_def Let_def rb_ok_def rb_list_def rb_room_def)
qed

lemma append_rb_wf:
  assumes ok: "rb_ok b" and room: "rb_room b (Suc n)"
  shows "\<exists>b'. append_rb (Some b) d = (0, Some b') \<and> rb_ok b' \<and> rb_list b' = rb_list b @ [d]
           \<and> rb_size b' = rb_size b \<and> rb_room b' n"
proof (cases "rb_size b \<le> ASG_RING_BUF_SIZE_LIMIT")
  case False
  then show ?thesis using append_rb_oversized [OF ok _ room] by simp
next
  case sz: True
  have lim: "0 \<le> write_idx b" "write_idx b < ASG_RING_BUF_SIZE_LIMIT"
    using ok sz by (auto simp: rb_ok_def)
  have len: "(if rb_turn b = 0 then write_idx b - read_idx b
      else rb_size b - read_idx b + write_idx b) + 1 < rb_size b"
    using room sz rb_length [OF ok] by (simp add: rb_room_def)
  have snoc: "i \<le> write_idx b \<Longrightarrow> [i..write_idx b] = [i..write_idx b - 1] @ [write_idx b]" for i
    by (rule upto_rec2)
  have wrap: "write_idx b + 1 = rb_size b \<Longrightarrow> i \<le> write_idx b \<Longrightarrow>
      [i..rb_size b - 1] = [i..write_idx b - 1] @ [write_idx b]" for i
    using snoc [of i] by (metis add_diff_cancel_right')
  have "\<exists>b'. append_rb (Some b) d = (0, Some b') \<and> rb_ok b' \<and> rb_list b' = rb_list b @ [d]
           \<and> rb_size b' = rb_size b"
  proof (cases "rb_turn b = 0")
    case True
    then show ?thesis
      using ok sz lim len snoc [of "read_idx b"]
      by (auto simp: wrap append_rb_def Let_def rb_ok_def rb_list_def)
  next
    case False
    then show ?thesis
      using ok sz lim len snoc [of 0]
      by (auto simp: append_rb_def Let_def rb_ok_def rb_list_def)
  qed
  then show ?thesis using room sz by (auto simp: rb_room_def)
qed

lemma read_rb_empty: "rb_ok b \<Longrightarrow> rb_list b = [] \<Longrightarrow> read_rb (Some b) True = (-1, Some b, None)"
  by (simp add: read_rb_def rb_empty_iff)

lemma read_rb_wf:
  assumes ok: "rb_ok b" and ne: "rb_list b = x # xs"
  shows "\<exists>b'. read_rb (Some b) True = (0, Some b', Some x) \<and> rb_ok b' \<and> rb_list b' = xs
           \<and> rb_size b' = rb_size b"
proof -
  have nempty: "\<not> is_rb_empty (Some b)" using rb_empty_iff [OF ok] ne by simp
  have cons: "i < j \<Longrightarrow> [i..j - 1] = i # [i + 1..j - 1]" for i j :: int
    by (simp add: upto_rec1)
  show ?thesis
  proof (cases "rb_turn b = 0")
    case True
    with ok nempty have lt: "read_idx b < write_idx b"
      by (auto simp: rb_ok_def is_rb_empty_def split: if_splits)
    then show ?thesis
      using ok ne True nempty cons [OF lt]
      by (auto simp: read_rb_def Let_def rb_ok_def rb_list_def split: if_splits)
  next
    case False
    with ok have lt: "read_idx b < rb_size b" by (auto simp: rb_ok_def split: if_splits)
    show ?thesis
      using ok ne False nempty cons [OF lt]
      by (auto simp: read_rb_def Let_def rb_ok_def rb_list_def split: if_splits)
  qed
qed

definition rb_enq :: "chunk \<Rightarrow> asg_ring_buf \<Rightarrow> asg_ring_buf" where
  "rb_enq d b = the (snd (append_rb (Some b) d))"

definition rb_deq :: "asg_ring_buf \<Rightarrow> chunk option \<times> asg_ring_buf" where
  "rb_deq b = (let (_, b', c) = read_rb (Some b) True in (c, the b'))"

lemma rb_enq_wf: "rb_ok b \<Longrightarrow> rb_room b (Suc n) \<Longrightarrow>
    rb_ok (rb_enq d b) \<and> rb_list (rb_enq d b) = rb_list b @ [d] \<and> rb_room (rb_enq d b) n"
  using append_rb_wf [of b n d] by (auto simp: rb_enq_def)

interpretation rb: fifo rb_enq rb_deq rb_list rb_ok rb_room
proof
  fix q :: asg_ring_buf and n x
  assume q: "rb_ok q" "rb_room q (Suc n)"
  note w = rb_enq_wf [OF q, of x]
  show "rb_ok (rb_enq x q)" and "rb_list (rb_enq x q) = rb_list q @ [x]" using w by simp_all
  show "rb_room (rb_enq x q) n" using w by simp
next
  fix q :: asg_ring_buf
  assume "rb_ok q" "rb_list q = []"
  then show "rb_deq q = (None, q)" by (simp add: rb_deq_def read_rb_empty)
next
  fix q :: asg_ring_buf and x xs
  assume q: "rb_ok q" "rb_list q = x # xs"
  show "fst (rb_deq q) = Some x \<and> rb_list (snd (rb_deq q)) = xs \<and> rb_ok (snd (rb_deq q))"
    using read_rb_wf [OF q] by (auto simp: rb_deq_def)
qed

lemma setup_rb_ok: "0 < n \<Longrightarrow> rb_ok (setup_asg_ring_buf b n)"
  by (simp add: setup_asg_ring_buf_def rb_ok_def ASG_RING_BUF_SIZE_LIMIT_def)

lemma setup_rb_list [simp]: "rb_list (setup_asg_ring_buf b n) = []"
  by (simp add: setup_asg_ring_buf_def rb_list_def)

text \<open>C12: The command ring buffer between the consensus protocol and the application is a FIFO queue:
  as long as the buffer has room, the commands appended are read in the order of the appends, each
  once, and the buffer is empty afterwards.\<close>

theorem ring_fifo:
  assumes "rb_ok b" and "rb_list b = []" and "rb_room b (length xs)"
  shows "fst (rb.drain (length xs) (rb.enq_all xs b)) = xs
     \<and> rb_list (snd (rb.drain (length xs) (rb.enq_all xs b))) = []"
  using rb.drain_enq_all [OF assms] by blast

theorem ring_fifo_witness:
  "fst (rb.drain (length [[1], [2, 3 :: byte]]) (rb.enq_all [[1], [2, 3]]
     \<lparr>read_idx = 3, write_idx = 3, rb_turn = 0, rb_size = 4, ring = (\<lambda>_. [])\<rparr>)) = [[1], [2, 3 :: byte]]
   \<and> rb_list (snd (rb.drain (length [[1], [2, 3 :: byte]]) (rb.enq_all [[1], [2, 3]]
     \<lparr>read_idx = 3, write_idx = 3, rb_turn = 0, rb_size = 4, ring = (\<lambda>_. [])\<rparr>))) = []"
  by (rule ring_fifo) (simp_all add: rb_ok_def rb_list_def rb_room_def ASG_RING_BUF_SIZE_LIMIT_def)

section \<open>A complete object is a complete prefix of the queue\<close>

lemma hd_rb_list:
  assumes "rb_ok b" and "rb_list b \<noteq> []"
  shows "hd (rb_list b) = ring b (read_idx b)"
proof (cases "rb_turn b = 0")
  case True
  with assms have "read_idx b \<le> write_idx b - 1" by (auto simp: rb_list_def)
  then show ?thesis using True by (simp add: rb_list_def upto_rec1)
next
  case False
  with assms have "read_idx b \<le> rb_size b - 1" by (auto simp: rb_ok_def split: if_splits)
  then show ?thesis using False by (simp add: rb_list_def upto_rec1)
qed

text \<open>\<open>check_entry\<close> decides whether the application may read: nothing buffered, a complete object
  at the front (a valid header and more buffered chunks than the header announces), or an error.\<close>

theorem check_entry_queue:
  assumes "rb_ok b"
  shows "check_entry b =
     (if rb_list b = [] then -1
      else if validate_header_key (hd (rb_list b))
              \<and> get_num_of_chunks (hd (rb_list b)) < int (length (rb_list b)) then 0 else 1)"
  using assms rb_length [OF assms] hd_rb_list [OF assms] rb_empty_iff [OF assms]
  by (auto simp: check_entry_def Let_def)

theorem check_entry_queue_witness:
  "check_entry \<lparr>read_idx = 0, write_idx = 2, rb_turn = 0, rb_size = 4,
       ring = (\<lambda>_. [1, 0x39, 0x3e, 0x52, 0, 0, 0, 0])\<rparr> = 0"
  using check_entry_queue [of "\<lparr>read_idx = 0, write_idx = 2, rb_turn = 0, rb_size = 4,
       ring = (\<lambda>_. [1, 0x39, 0x3e, 0x52, 0, 0, 0, 0])\<rparr>"]
  by (simp add: rb_ok_def rb_list_def ASG_RING_BUF_SIZE_LIMIT_def upto.simps validate_header_key_def
      get_start_of_obj_key_def ASG_CHUNK_SIZE_def validation_key_def get_num_of_chunks_def numeral_eq_Suc)

section \<open>The capacity limit\<close>

text \<open>Filling the last free slot of a ring buffer makes it look empty: all its commands are lost to
  the reader, and the append reports success.\<close>

theorem append_rb_last_slot:
  assumes "rb_ok b" and "rb_size b \<le> ASG_RING_BUF_SIZE_LIMIT"
    and "int (length (rb_list b)) + 1 = rb_size b"
  shows "\<exists>b'. append_rb (Some b) d = (0, Some b') \<and> is_rb_empty (Some b')"
  using assms rb_length [OF assms(1)]
  by (auto simp: append_rb_def rb_ok_def is_rb_empty_def Let_def split: if_splits)

theorem append_rb_last_slot_witness:
  "\<exists>b'. append_rb (Some \<lparr>read_idx = 0, write_idx = 1, rb_turn = 0, rb_size = 2, ring = (\<lambda>_. [7])\<rparr>) [8] = (0, Some b')
     \<and> is_rb_empty (Some b')"
  by (rule append_rb_last_slot) (simp_all add: rb_ok_def rb_list_def ASG_RING_BUF_SIZE_LIMIT_def)

text \<open>A run of reads and writes on one buffer, counting the writes that succeed.\<close>

datatype rb_op = Rb_append chunk | Rb_read

fun rb_run :: "rb_op list \<Rightarrow> asg_ring_buf \<Rightarrow> nat \<times> asg_ring_buf" where
  "rb_run [] b = (0, b)"
| "rb_run (Rb_append d # ops) b =
     (let (r, b') = append_rb (Some b) d; (n, b'') = rb_run ops (the b')
      in ((if r = 0 then Suc n else n), b''))"
| "rb_run (Rb_read # ops) b =
     (let (_, b', _) = read_rb (Some b) True in rb_run ops (the b'))"

definition rb_appends :: "rb_op list \<Rightarrow> nat" where
  "rb_appends ops = length (filter (\<lambda>x. x \<noteq> Rb_read) ops)"

text \<open>C13: A ring buffer whose size exceeds the array -- \<open>consensus_init\<close> sets it to the size of the
  structure in bytes -- never wraps around: whatever the reader does, the number of appends it
  accepts over its life is limited to the slots behind its write index.\<close>

theorem rb_run_oversized:
  assumes "rb_size b > ASG_RING_BUF_SIZE_LIMIT" and "0 \<le> write_idx b"
    and "write_idx b \<le> ASG_RING_BUF_SIZE_LIMIT"
  shows "fst (rb_run ops b) = min (rb_appends ops) (nat (ASG_RING_BUF_SIZE_LIMIT - write_idx b))"
  using assms
proof (induction ops b rule: rb_run.induct)
  case (1 b)
  then show ?case by (simp add: rb_appends_def)
next
  case (2 d ops b)
  show ?case
  proof (cases "write_idx b = ASG_RING_BUF_SIZE_LIMIT")
    case True
    then have "append_rb (Some b) d = (-1, Some b)" by (simp add: append_rb_def)
    with 2 True show ?thesis by (simp add: split_beta Let_def)
  next
    case False
    define b' where "b' = b\<lparr>ring := (ring b)(write_idx b := d), write_idx := write_idx b + 1\<rparr>"
    have a: "append_rb (Some b) d = (0, Some b')"
      using 2(2-4) False by (simp add: append_rb_def b'_def Let_def)
    have "fst (rb_run ops b') = min (rb_appends ops) (nat (ASG_RING_BUF_SIZE_LIMIT - write_idx b'))"
      using "2.IH" [of "(0, Some b')" 0 "Some b'"] 2(2-4) False a
      by (simp add: b'_def)
    then show ?thesis
      using a 2(3,4) False by (simp add: b'_def rb_appends_def split_beta Let_def)
  qed
next
  case (3 ops b)
  obtain r b' c where rd: "read_rb (Some b) True = (r, Some b', c)"
    and keep: "rb_size b' = rb_size b" "write_idx b' = write_idx b"
    using that by (cases "is_rb_empty (Some b)") (auto simp: read_rb_def Let_def split: if_splits)
  from "3.IH" [OF rd [symmetric] refl refl] 3(2-4) keep
  have "fst (rb_run ops b') = min (rb_appends ops) (nat (ASG_RING_BUF_SIZE_LIMIT - write_idx b))"
    by simp
  with rd show ?case by (simp add: rb_appends_def)
qed

theorem rb_run_oversized_witness:
  "fst (rb_run [Rb_append [1], Rb_read, Rb_append [2]]
      \<lparr>read_idx = 999999, write_idx = 999999, rb_turn = 0, rb_size = sizeof_asg_ring_buf, ring = (\<lambda>_. [])\<rparr>) = 1"
  using rb_run_oversized [of "\<lparr>read_idx = 999999, write_idx = 999999, rb_turn = 0, rb_size = sizeof_asg_ring_buf,
      ring = (\<lambda>_. [])\<rparr>" "[Rb_append [1], Rb_read, Rb_append [2]]"]
  by (simp add: sizeof_asg_ring_buf_def ASG_RING_BUF_SIZE_LIMIT_def ASG_CHUNK_SIZE_def rb_appends_def)

end
