(* ===== verification/AsgLogger.thy ===== *)
theory AsgLogger
  imports AsgPrelude
begin

text \<open>
  \<open>core/logger.c\<close> and \<open>core/logger.h\<close>: the event loggers of the protocol instances and the
  iterative heartbeat metrics.  The event array is a function from slots to events; slots at and
  beyond \<open>LOGGER_EVENT_LIMIT\<close> are memory the code did not allocate.  The build modelled is the
  one without \<open>EVAL_ONLY_STORE_TIMESTAMPS\<close>.
\<close>

definition LOGGER_EVENT_LIMIT :: int where "LOGGER_EVENT_LIMIT = 100000"
definition ENOMEM :: int where "ENOMEM = 12"
definition EINVAL :: int where "EINVAL = 22"

datatype le_event_type =
    FOLLOWER_TIMEOUT | CANDIDATE_TIMEOUT
  | FOLLOWER_ACCEPT_NEW_LEADER | CANDIDATE_ACCEPT_NEW_LEADER | LEADER_ACCEPT_NEW_LEADER
  | FOLLOWER_BECOME_CANDIDATE | CANDIDATE_BECOME_LEADER
  | START_CONSENSUS | VOTE_FOR_CANDIDATE | CANDIDATE_ACCEPT_VOTE
  | REPLY_APPEND_SUCCESS | REPLY_APPEND_FAIL
  | CONSENSUS_REQUEST | GOT_CONSENSUS_ON_VALUE | START_LOG_REP | INGRESS_PACKET

fun event_code :: "le_event_type \<Rightarrow> int" where
  "event_code FOLLOWER_TIMEOUT = 0"
| "event_code CANDIDATE_TIMEOUT = 1"
| "event_code FOLLOWER_ACCEPT_NEW_LEADER = 2"
| "event_code CANDIDATE_ACCEPT_NEW_LEADER = 3"
| "event_code LEADER_ACCEPT_NEW_LEADER = 4"
| "event_code FOLLOWER_BECOME_CANDIDATE = 5"
| "event_code CANDIDATE_BECOME_LEADER = 6"
| "event_code START_CONSENSUS = 7"
| "event_code VOTE_FOR_CANDIDATE = 8"
| "event_code CANDIDATE_ACCEPT_VOTE = 9"
| "event_code REPLY_APPEND_SUCCESS = 10"
| "event_code REPLY_APPEND_FAIL = 11"
| "event_code CONSENSUS_REQUEST = 12"
| "event_code GOT_CONSENSUS_ON_VALUE = 13"
| "event_code START_LOG_REP = 14"
| "event_code INGRESS_PACKET = 15"

record logger_event =
  ev_timestamp :: int
  ev_type :: int

datatype logger_state = LOGGER_RUNNING | LOGGER_READY | LOGGER_UNINIT | LOGGER_LOG_FULL

record asgard_logger =
  lg_instance_id :: int
  lg_state :: logger_state
  lg_ifindex :: int
  lg_accept_user_ts :: int
  lg_name :: string
  lg_current_entries :: int
  lg_events :: "int \<Rightarrow> logger_event"
  lg_applied :: int
  lg_first_ts :: int
  lg_last_ts :: int

definition logger_state_transition_to :: "asgard_logger \<Rightarrow> logger_state \<Rightarrow> asgard_logger" where
  "logger_state_transition_to slog st = slog\<lparr>lg_state := st\<rparr>"

text \<open>\<open>init_logger\<close>: allocation is taken to succeed; \<open>applied\<close> and the two timestamps are left as
  they are.\<close>

definition init_logger ::
  "asgard_logger \<Rightarrow> int \<Rightarrow> int \<Rightarrow> string \<Rightarrow> int \<Rightarrow> int \<times> asgard_logger" where
  "init_logger slog instance_id ifindex name accept_user_ts =
     (let s = slog\<lparr>lg_instance_id := to_u16 instance_id, lg_ifindex := ifindex,
                   lg_accept_user_ts := accept_user_ts, lg_name := take 32 name,
                   lg_current_entries := 0\<rparr>
      in (0, logger_state_transition_to s LOGGER_READY))"

definition write_log :: "asgard_logger \<Rightarrow> int \<Rightarrow> int \<Rightarrow> int \<times> asgard_logger" where
  "write_log slog ty tcs =
     (if lg_state slog \<noteq> LOGGER_RUNNING then (0, slog)
      else if lg_current_entries slog > LOGGER_EVENT_LIMIT
      then (- ENOMEM, logger_state_transition_to slog LOGGER_LOG_FULL)
      else (0, slog\<lparr>lg_events := (lg_events slog)(lg_current_entries slog :=
                       \<lparr>ev_timestamp = tcs, ev_type = ty\<rparr>),
                    lg_current_entries := lg_current_entries slog + 1\<rparr>))"

definition log_event :: "le_event_type \<Rightarrow> int \<Rightarrow> asgard_logger \<Rightarrow> asgard_logger" where
  "log_event ev tcs slog = snd (write_log slog (event_code ev) tcs)"

text \<open>The events a logger holds, oldest first.\<close>

definition logged :: "asgard_logger \<Rightarrow> logger_event list" where
  "logged slog = map (lg_events slog) [0..lg_current_entries slog - 1]"

text \<open>A running logger below its limit appends the event at the end of what it holds.\<close>

theorem write_log_append:
  assumes "lg_state slog = LOGGER_RUNNING" and "0 \<le> lg_current_entries slog"
    and "lg_current_entries slog < LOGGER_EVENT_LIMIT"
  shows "logged (snd (write_log slog ty tcs)) = logged slog @ [\<lparr>ev_timestamp = tcs, ev_type = ty\<rparr>]"
proof -
  have "[0..lg_current_entries slog] = [0..lg_current_entries slog - 1] @ [lg_current_entries slog]"
    by (rule upto_rec2) (use assms in simp)
  then show ?thesis using assms by (simp add: write_log_def logged_def)
qed

theorem write_log_append_witness:
  "logged (snd (write_log \<lparr>lg_instance_id = 1, lg_state = LOGGER_RUNNING, lg_ifindex = 0, lg_accept_user_ts = 0,
      lg_name = [], lg_current_entries = 1, lg_events = (\<lambda>_. \<lparr>ev_timestamp = 5, ev_type = 1\<rparr>), lg_applied = 0,
      lg_first_ts = 0, lg_last_ts = 0\<rparr> 3 9)) =
     [\<lparr>ev_timestamp = 5, ev_type = 1\<rparr>, \<lparr>ev_timestamp = 9, ev_type = 3\<rparr>]"
  by (subst write_log_append) (simp_all add: LOGGER_EVENT_LIMIT_def logged_def)

text \<open>The guard of \<open>write_log\<close> is \<open>>\<close>, not \<open>>=\<close>: a full logger still takes one event, in the
  slot one past the end of its allocation, and stays running.\<close>

theorem write_log_limit:
  assumes "lg_state slog = LOGGER_RUNNING" and "lg_current_entries slog = LOGGER_EVENT_LIMIT"
  shows "fst (write_log slog ty tcs) = 0 \<and> lg_state (snd (write_log slog ty tcs)) = LOGGER_RUNNING
     \<and> lg_events (snd (write_log slog ty tcs)) LOGGER_EVENT_LIMIT = \<lparr>ev_timestamp = tcs, ev_type = ty\<rparr>"
  using assms by (simp add: write_log_def)

theorem write_log_limit_witness:
  "lg_events (snd (write_log \<lparr>lg_instance_id = 1, lg_state = LOGGER_RUNNING, lg_ifindex = 0, lg_accept_user_ts = 0,
      lg_name = [], lg_current_entries = LOGGER_EVENT_LIMIT, lg_events = (\<lambda>_. \<lparr>ev_timestamp = 5, ev_type = 1\<rparr>),
      lg_applied = 0, lg_first_ts = 0, lg_last_ts = 0\<rparr> 3 9)) LOGGER_EVENT_LIMIT =
     \<lparr>ev_timestamp = 9, ev_type = 3\<rparr>"
  by (subst write_log_limit) simp_all

section \<open>Heartbeat metrics\<close>

record ingress_hb_metrics =
  avg_jitter :: int
  max_jitter :: int
  min_jitter :: int
  hb_counter :: int
  max_latency :: int
  min_latency :: int
  avg_latency :: int
  hb_last_ts :: int
  last_delta :: int

definition calc_avg :: "int \<Rightarrow> int \<Rightarrow> int \<Rightarrow> int" where
  "calc_avg avg new_val n = (if n \<le> 0 then 0 else avg + c_div (new_val - avg) n)"

text \<open>The metric part of \<open>write_in_hb_to_log\<close>, after its guards.\<close>

definition hb_metrics_step :: "int \<Rightarrow> int \<Rightarrow> ingress_hb_metrics \<Rightarrow> ingress_hb_metrics" where
  "hb_metrics_step hbi tcs m0 =
     (let m = m0\<lparr>hb_counter := to_u64 (hb_counter m0 + 1)\<rparr>;
          m' = (if hb_last_ts m \<noteq> 0 then
             (let delta = to_s64 (tcs - hb_last_ts m);
                  n = to_s64 (hb_counter m - 1);
                  m1 = m\<lparr>last_delta := delta, avg_latency := calc_avg (avg_latency m) delta n\<rparr>;
                  m2 = (if max_latency m1 < delta then m1\<lparr>max_latency := delta\<rparr> else m1);
                  m3 = (if min_latency m2 > delta then m2\<lparr>min_latency := delta\<rparr> else m2);
                  jitter = to_s64 (hbi - delta);
                  m4 = m3\<lparr>avg_jitter := calc_avg (avg_jitter m3) jitter n\<rparr>;
                  m5 = (if max_jitter m4 < jitter then m4\<lparr>max_jitter := jitter\<rparr> else m4)
              in if min_jitter m5 > jitter then m5\<lparr>min_jitter := jitter\<rparr> else m5)
             else m)
      in m'\<lparr>hb_last_ts := tcs\<rparr>)"

text \<open>The initial metrics of \<open>init_asgard_device\<close>: \<open>ULONG_MAX\<close> stored into an \<open>int64_t\<close>.\<close>

definition hb_metrics_init :: "ingress_hb_metrics \<Rightarrow> ingress_hb_metrics" where
  "hb_metrics_init m = m\<lparr>hb_counter := 0, hb_last_ts := 0, avg_latency := 0, max_latency := 0,
     min_latency := to_s64 18446744073709551615, avg_jitter := 0,
     min_jitter := to_s64 18446744073709551615, max_jitter := 0\<rparr>"

lemma c_div_bounds:
  assumes "0 < n"
  shows "0 \<le> d \<Longrightarrow> 0 \<le> c_div d n \<and> c_div d n \<le> d" and "d \<le> 0 \<Longrightarrow> d \<le> c_div d n \<and> c_div d n \<le> 0"
proof -
  have le: "0 \<le> x \<Longrightarrow> x div n \<le> x" for x :: int
  proof -
    assume x: "0 \<le> x"
    have "x div n \<le> x div 1" using assms x by (intro zdiv_mono2) auto
    then show ?thesis by simp
  qed
  have nn: "0 \<le> x \<Longrightarrow> 0 \<le> x div n" for x :: int
    using assms by (simp add: pos_imp_zdiv_nonneg_iff)
  show "0 \<le> d \<Longrightarrow> 0 \<le> c_div d n \<and> c_div d n \<le> d"
    using assms le [of d] nn [of d] by (cases "d = 0") (auto simp: c_div_def)
  show "d \<le> 0 \<Longrightarrow> d \<le> c_div d n \<and> c_div d n \<le> 0"
    using assms le [of "- d"] nn [of "- d"] by (cases "d = 0") (auto simp: c_div_def)
qed

text \<open>The iterative average of the heartbeat metrics stays between the old average and the new
  value, in the integer arithmetic of C.\<close>

theorem calc_avg_between:
  assumes "0 < n"
  shows "min avg x \<le> calc_avg avg x n \<and> calc_avg avg x n \<le> max avg x"
  using c_div_bounds [OF assms, of "x - avg"] assms by (cases "avg \<le> x") (simp_all add: calc_avg_def)

theorem calc_avg_between_witness: "min 10 (-5) \<le> calc_avg 10 (-5) 4 \<and> calc_avg 10 (-5) 4 \<le> max 10 (-5)"
  by (rule calc_avg_between) simp

text \<open>The minimum starts as \<open>ULONG_MAX\<close> converted to a signed number: it never leaves -1.\<close>

lemma min_latency_stuck:
  assumes "min_latency m = -1" and "hb_last_ts m \<le> tcs" and "0 \<le> hb_last_ts m"
    and "tcs < 9223372036854775808"
  shows "min_latency (hb_metrics_step hbi tcs m) = -1"
proof -
  have "to_s64 (tcs - hb_last_ts m) = tcs - hb_last_ts m"
    using assms(2-4) by (simp add: to_s64_def Let_def)
  then show ?thesis using assms by (simp add: hb_metrics_step_def Let_def)
qed

end
