(* ===== verification/AsgWire.thy ===== *)
theory AsgWire
  imports AsgPrelude
begin

text \<open>
  \<open>core/payload.h\<close>, the space reservation of \<open>core/payload.c\<close> and the message writers
  \<open>set_le_opcode\<close> (\<open>consensus.c\<close>) and \<open>set_le_opcode_ad\<close> (\<open>pacemaker.c\<close>): the layout of an ASGARD
  payload.  A payload is the protocol counter and the bytes of \<open>proto_data\<close>; a pointer into it is
  an offset.  Addresses at and beyond 1416 lie outside the array.
\<close>

definition ASGARD_HEADER_BYTES :: int where "ASGARD_HEADER_BYTES = 82"
definition MAX_ASGARD_PAYLOAD_BYTES :: int where
  "MAX_ASGARD_PAYLOAD_BYTES = 1500 - ASGARD_HEADER_BYTES"
definition AE_ENTRY_SIZE :: int where "AE_ENTRY_SIZE = 8"
definition ASGARD_PROTO_CON_AE_BASE_SZ :: int where "ASGARD_PROTO_CON_AE_BASE_SZ = 20"
definition MAX_AE_ENTRIES_PER_PKT :: int where "MAX_AE_ENTRIES_PER_PKT = 100"
definition ASGARD_PROTO_CON_PAYLOAD_SZ :: int where "ASGARD_PROTO_CON_PAYLOAD_SZ = 22"

lemmas size_defs = ASGARD_HEADER_BYTES_def MAX_ASGARD_PAYLOAD_BYTES_def AE_ENTRY_SIZE_def
  ASGARD_PROTO_CON_AE_BASE_SZ_def MAX_AE_ENTRIES_PER_PKT_def ASGARD_PROTO_CON_PAYLOAD_SZ_def

record asgard_payload =
  protocols_included :: int
  proto_data :: mem

definition empty_payload :: asgard_payload where
  "empty_payload = \<lparr>protocols_included = 0, proto_data = (\<lambda>_. 0)\<rparr>"

datatype le_opcode = NOOP | NOMI | VOTE | LEAD | APPEND | APPEND_REPLY | ALIVE | ADVERTISE

fun opcode_num :: "le_opcode \<Rightarrow> int" where
  "opcode_num NOOP = 0"
| "opcode_num NOMI = 1"
| "opcode_num VOTE = 2"
| "opcode_num LEAD = 3"
| "opcode_num APPEND = 4"
| "opcode_num APPEND_REPLY = 5"
| "opcode_num ALIVE = 6"
| "opcode_num ADVERTISE = 7"

text \<open>The \<open>switch\<close> of the packet handlers: which case label an opcode byte selects.\<close>

definition opcode_of :: "int \<Rightarrow> le_opcode option" where
  "opcode_of n = find (\<lambda>op. opcode_num op = n)
     [NOOP, NOMI, VOTE, LEAD, APPEND, APPEND_REPLY, ALIVE, ADVERTISE]"

lemma opcode_of_num [simp]: "opcode_of (opcode_num op) = Some op"
  by (cases op) (simp_all add: opcode_of_def)

lemma opcode_num_range: "0 \<le> opcode_num op" "opcode_num op \<le> 7"
  by (cases op; simp)+

text \<open>Opcodes are ordered by their value on the wire.\<close>

instantiation le_opcode :: linorder
begin

definition less_eq_le_opcode :: "le_opcode \<Rightarrow> le_opcode \<Rightarrow> bool" where
  "less_eq_le_opcode a b \<longleftrightarrow> opcode_num a \<le> opcode_num b"

definition less_le_opcode :: "le_opcode \<Rightarrow> le_opcode \<Rightarrow> bool" where
  "less_le_opcode a b \<longleftrightarrow> opcode_num a < opcode_num b"

instance
proof
  fix a b c :: le_opcode
  show "a \<le> b \<Longrightarrow> b \<le> a \<Longrightarrow> a = b"
    by (cases a; cases b) (simp_all add: less_eq_le_opcode_def)
qed (auto simp: less_eq_le_opcode_def less_le_opcode_def)

end

lemma opcode_bounds: "NOOP \<le> op" "op \<le> ADVERTISE"
  by (cases op; simp add: less_eq_le_opcode_def)+

section \<open>Field accessors\<close>

definition GET_PROTO_TYPE_VAL :: "mem \<Rightarrow> nat \<Rightarrow> int" where
  "GET_PROTO_TYPE_VAL m p = ld_u16 m p"
definition GET_PROTO_OFFSET_VAL :: "mem \<Rightarrow> nat \<Rightarrow> int" where
  "GET_PROTO_OFFSET_VAL m p = ld_u16 m (p + 2)"
definition GET_CON_PROTO_OPCODE_VAL :: "mem \<Rightarrow> nat \<Rightarrow> int" where
  "GET_CON_PROTO_OPCODE_VAL m p = ld_u16 m (p + 2 + 2)"
definition GET_CON_PROTO_PARAM1_VAL :: "mem \<Rightarrow> nat \<Rightarrow> int" where
  "GET_CON_PROTO_PARAM1_VAL m p = ld_u32 m (p + 2 + 2 + 2)"
definition GET_CON_PROTO_PARAM2_VAL :: "mem \<Rightarrow> nat \<Rightarrow> int" where
  "GET_CON_PROTO_PARAM2_VAL m p = ld_s32 m (p + 2 + 2 + 2 + 4)"
definition GET_CON_PROTO_PARAM3_VAL :: "mem \<Rightarrow> nat \<Rightarrow> int" where
  "GET_CON_PROTO_PARAM3_VAL m p = ld_s32 m (p + 2 + 2 + 2 + 4 + 4)"
definition GET_CON_PROTO_PARAM4_VAL :: "mem \<Rightarrow> nat \<Rightarrow> int" where
  "GET_CON_PROTO_PARAM4_VAL m p = ld_s32 m (p + 2 + 2 + 2 + 4 + 4 + 4)"

definition GET_CON_AE_TERM_VAL :: "mem \<Rightarrow> nat \<Rightarrow> int" where
  "GET_CON_AE_TERM_VAL m p = ld_u32 m (p + 4 + 2)"
definition GET_CON_AE_LEADER_ID_VAL :: "mem \<Rightarrow> nat \<Rightarrow> int" where
  "GET_CON_AE_LEADER_ID_VAL m p = ld_u32 m (p + 6 + 4)"
definition GET_CON_AE_PREV_LOG_IDX_VAL :: "mem \<Rightarrow> nat \<Rightarrow> int" where
  "GET_CON_AE_PREV_LOG_IDX_VAL m p = ld_s32 m (p + 10 + 4)"
definition GET_CON_AE_PREV_LOG_TERM_VAL :: "mem \<Rightarrow> nat \<Rightarrow> int" where
  "GET_CON_AE_PREV_LOG_TERM_VAL m p = ld_u32 m (p + 14 + 4)"
definition GET_CON_AE_PREV_LEADER_COMMIT_IDX_VAL :: "mem \<Rightarrow> nat \<Rightarrow> int" where
  "GET_CON_AE_PREV_LEADER_COMMIT_IDX_VAL m p = ld_s32 m (p + 18 + 4)"
definition GET_CON_AE_NUM_ENTRIES_VAL :: "mem \<Rightarrow> nat \<Rightarrow> int" where
  "GET_CON_AE_NUM_ENTRIES_VAL m p = ld_u32 m (p + 22 + 4)"
definition CON_PROTO_ENTRIES_START :: "nat \<Rightarrow> nat" where
  "CON_PROTO_ENTRIES_START p = p + 26 + 4"

lemmas get_defs = GET_PROTO_TYPE_VAL_def GET_PROTO_OFFSET_VAL_def GET_CON_PROTO_OPCODE_VAL_def
  GET_CON_PROTO_PARAM1_VAL_def GET_CON_PROTO_PARAM2_VAL_def GET_CON_PROTO_PARAM3_VAL_def
  GET_CON_PROTO_PARAM4_VAL_def GET_CON_AE_TERM_VAL_def GET_CON_AE_LEADER_ID_VAL_def
  GET_CON_AE_PREV_LOG_IDX_VAL_def GET_CON_AE_PREV_LOG_TERM_VAL_def
  GET_CON_AE_PREV_LEADER_COMMIT_IDX_VAL_def GET_CON_AE_NUM_ENTRIES_VAL_def
  CON_PROTO_ENTRIES_START_def

section \<open>Message writers\<close>

definition set_le_opcode :: "mem \<Rightarrow> nat \<Rightarrow> le_opcode \<Rightarrow> int \<Rightarrow> int \<Rightarrow> int \<Rightarrow> int \<Rightarrow> mem" where
  "set_le_opcode m pkt opco p1 p2 p3 p4 =
     (let m = st_u16 m (pkt + 2 + 2) (opcode_num opco);
          m = st_u32 m (pkt + 2 + 2 + 2) (to_u32 p1);
          m = st_u32 m (pkt + 2 + 2 + 2 + 4) (to_s32 p2);
          m = st_u32 m (pkt + 2 + 2 + 2 + 4 + 4) (to_s32 p3);
          m = st_u32 m (pkt + 2 + 2 + 2 + 4 + 4 + 4) (to_s32 p4)
      in m)"

definition set_le_opcode_ad :: "mem \<Rightarrow> nat \<Rightarrow> le_opcode \<Rightarrow> int \<Rightarrow> int \<Rightarrow> byte list \<Rightarrow> mem" where
  "set_le_opcode_ad m pkt opco cluster_id self_ip self_mac =
     (let m = st_u16 m (pkt + 2 + 2) (opcode_num opco);
          m = st_u32 m (pkt + 2 + 2 + 2) (to_u32 cluster_id);
          m = st_u32 m (pkt + 2 + 2 + 2 + 4) (to_s32 self_ip);
          m = st_bytes m (pkt + 2 + 2 + 2 + 4 + 4) (take 6 self_mac)
      in m)"

lemma set_le_opcode_fields:
  "GET_CON_PROTO_OPCODE_VAL (set_le_opcode m pkt opco p1 p2 p3 p4) pkt = opcode_num opco"
  "GET_CON_PROTO_PARAM1_VAL (set_le_opcode m pkt opco p1 p2 p3 p4) pkt = to_u32 p1"
  "GET_CON_PROTO_PARAM2_VAL (set_le_opcode m pkt opco p1 p2 p3 p4) pkt = to_s32 p2"
  "GET_CON_PROTO_PARAM3_VAL (set_le_opcode m pkt opco p1 p2 p3 p4) pkt = to_s32 p3"
  "GET_CON_PROTO_PARAM4_VAL (set_le_opcode m pkt opco p1 p2 p3 p4) pkt = to_s32 p4"
  using opcode_num_range [of opco]
  by (simp_all add: set_le_opcode_def get_defs Let_def)

lemma set_le_opcode_frame:
  "same_outside (pkt + 4) (pkt + 22) m (set_le_opcode m pkt opco p1 p2 p3 p4)"
  unfolding set_le_opcode_def Let_def by (intro same_outside_st) simp_all

section \<open>Space reservation\<close>

text \<open>The loop of \<open>asgard_reserve_proto\<close>: the offset it stops at, and whether it found the
  instance there (the jump to \<open>reuse\<close>).\<close>

fun find_proto :: "nat \<Rightarrow> int \<Rightarrow> mem \<Rightarrow> nat \<Rightarrow> nat \<times> bool" where
  "find_proto 0 instance_id m cur = (cur, False)"
| "find_proto (Suc n) instance_id m cur =
     (if instance_id = GET_PROTO_TYPE_VAL m cur then (cur, True)
      else find_proto n instance_id m (cur + nat (GET_PROTO_OFFSET_VAL m cur)))"

text \<open>The result is the offset of the reserved area with the updated payload, or \<open>None\<close> for a
  null pointer, with the payload as it was.\<close>

definition asgard_reserve_proto ::
  "int \<Rightarrow> asgard_payload option \<Rightarrow> int \<Rightarrow> (nat \<times> asgard_payload) option" where
  "asgard_reserve_proto instance_id spayp proto_size =
     (case spayp of
        None \<Rightarrow> None
      | Some spay \<Rightarrow>
          let (cur_proto, reuse) =
                find_proto (nat (protocols_included spay)) instance_id (proto_data spay) 0;
              spay1 = (if reuse then spay
                       else spay\<lparr>protocols_included := to_u16 (protocols_included spay + 1)\<rparr>)
          in if \<not> reuse \<and> int cur_proto + proto_size > MAX_ASGARD_PAYLOAD_BYTES then None
             else Some (cur_proto, spay1\<lparr>proto_data :=
                    st_u16 (st_u16 (proto_data spay1) cur_proto instance_id)
                      (cur_proto + 2) proto_size\<rparr>))"

text \<open>The sub-payloads of a payload in order: instance, start, size.\<close>

fun sub_protos :: "nat \<Rightarrow> mem \<Rightarrow> nat \<Rightarrow> (int \<times> nat \<times> nat) list" where
  "sub_protos 0 m cur = []"
| "sub_protos (Suc n) m cur =
     (let sz = nat (GET_PROTO_OFFSET_VAL m cur)
      in (GET_PROTO_TYPE_VAL m cur, cur, sz) # sub_protos n m (cur + sz))"

definition payload_protos :: "asgard_payload \<Rightarrow> (int \<times> nat \<times> nat) list" where
  "payload_protos p = sub_protos (nat (protocols_included p)) (proto_data p) 0"

definition protos_end :: "(int \<times> nat \<times> nat) list \<Rightarrow> nat" where
  "protos_end ps = sum_list (map (\<lambda>(_, _, sz). sz) ps)"

text \<open>A payload as the writers leave it: distinct instances, each area at least its header, the
  areas within the payload limit.\<close>

definition payload_wf :: "asgard_payload \<Rightarrow> bool" where
  "payload_wf p \<longleftrightarrow> 0 \<le> protocols_included p
     \<and> distinct (map fst (payload_protos p))
     \<and> (\<forall>(i, off, sz) \<in> set (payload_protos p). 4 \<le> sz)
     \<and> int (protos_end (payload_protos p)) \<le> MAX_ASGARD_PAYLOAD_BYTES"

lemma find_proto_absent:
  "i \<notin> set (map fst (sub_protos n m cur)) \<Longrightarrow>
     find_proto n i m cur = (cur + protos_end (sub_protos n m cur), False)"
  by (induction n i m cur rule: find_proto.induct) (auto simp: Let_def protos_end_def)

lemma find_proto_present:
  "i \<in> set (map fst (sub_protos n m cur)) \<Longrightarrow>
     \<exists>off sz. (i, off, sz) \<in> set (sub_protos n m cur) \<and> find_proto n i m cur = (off, True)"
  by (induction n i m cur rule: find_proto.induct) (auto simp: Let_def)

lemma sub_protos_cong:
  assumes "\<And>x. cur \<le> x \<Longrightarrow> x < cur + protos_end (sub_protos n m cur) \<Longrightarrow> m' x = m x"
    and "\<forall>(i, off, sz) \<in> set (sub_protos n m cur). 4 \<le> sz"
  shows "sub_protos n m' cur = sub_protos n m cur"
  using assms
proof (induction n arbitrary: cur)
  case (Suc n)
  let ?sz = "nat (GET_PROTO_OFFSET_VAL m cur)"
  have sz: "4 \<le> ?sz" using Suc.prems(2) by (auto simp: Let_def)
  have e: "protos_end (sub_protos (Suc n) m cur) = ?sz + protos_end (sub_protos n m (cur + ?sz))"
    by (simp add: Let_def protos_end_def)
  have t: "GET_PROTO_TYPE_VAL m' cur = GET_PROTO_TYPE_VAL m cur"
    and ofs: "GET_PROTO_OFFSET_VAL m' cur = GET_PROTO_OFFSET_VAL m cur"
    unfolding GET_PROTO_TYPE_VAL_def GET_PROTO_OFFSET_VAL_def ld_u16_def
    by (rule ld_le_cong, rule Suc.prems(1), use e sz in simp_all)+
  have "sub_protos n m' (cur + ?sz) = sub_protos n m (cur + ?sz)"
    by (rule Suc.IH) (use Suc.prems e in \<open>auto simp: Let_def\<close>)
  with t ofs show ?case by (simp add: Let_def)
qed simp

lemma sub_protos_Suc:
  "sub_protos (Suc n) m cur = sub_protos n m cur @
     (let e = cur + protos_end (sub_protos n m cur)
      in [(GET_PROTO_TYPE_VAL m e, e, nat (GET_PROTO_OFFSET_VAL m e))])"
proof (induction n arbitrary: cur)
  case (Suc n)
  show ?case
    by (subst sub_protos.simps(2), subst Suc.IH) (simp add: Let_def protos_end_def add.assoc)
qed (simp add: Let_def protos_end_def)

text \<open>An instance that has no area in a payload gets one right behind the others, if it fits; the
  payload stays well-formed and the areas of the other instances keep their place and size.\<close>

theorem reserve_fresh:
  assumes wf: "payload_wf p" and new: "i \<notin> set (map fst (payload_protos p))"
    and i: "0 \<le> i" "i < 65536" and sz: "4 \<le> sz" "sz < 65536"
    and cnt: "protocols_included p < 65535"
    and fits: "int (protos_end (payload_protos p)) + sz \<le> MAX_ASGARD_PAYLOAD_BYTES"
  shows "\<exists>p'. asgard_reserve_proto i (Some p) sz = Some (protos_end (payload_protos p), p')
    \<and> payload_protos p' = payload_protos p @ [(i, protos_end (payload_protos p), nat sz)]
    \<and> payload_wf p'"
proof -
  define n e where ne: "n = nat (protocols_included p)" "e = protos_end (payload_protos p)"
  define m where m: "m = st_u16 (st_u16 (proto_data p) e i) (e + 2) sz"
  let ?p' = "p\<lparr>protocols_included := protocols_included p + 1, proto_data := m\<rparr>"
  have pos: "0 \<le> protocols_included p" using wf by (simp add: payload_wf_def)
  have f: "find_proto n i (proto_data p) 0 = (e, False)"
    using find_proto_absent [of i n "proto_data p" 0] new by (simp add: payload_protos_def ne)
  have r: "asgard_reserve_proto i (Some p) sz = Some (e, ?p')"
    using f fits pos cnt by (simp add: asgard_reserve_proto_def Let_def ne m)
  have keep: "sub_protos n m 0 = payload_protos p"
    unfolding payload_protos_def ne(1)
    by (rule sub_protos_cong)
      (use wf in \<open>auto simp: m ne payload_wf_def payload_protos_def st_u16_def st_le_other\<close>)
  have hdr: "GET_PROTO_TYPE_VAL m e = i" "GET_PROTO_OFFSET_VAL m e = sz"
    using i sz by (simp_all add: m get_defs)
  have "nat (protocols_included ?p') = Suc n" using pos by (simp add: ne)
  then have pp: "payload_protos ?p' = payload_protos p @ [(i, e, nat sz)]"
    by (simp add: payload_protos_def [of ?p'] sub_protos_Suc keep hdr Let_def ne [symmetric]
        del: sub_protos.simps)
  have "payload_wf ?p'"
    using wf new sz fits pos by (auto simp: payload_wf_def pp protos_end_def ne)
  with r pp show ?thesis unfolding ne by blast
qed

theorem reserve_fresh_witness:
  "\<exists>p'. asgard_reserve_proto 1 (Some empty_payload) 22 = Some (protos_end (payload_protos empty_payload), p')
    \<and> payload_protos p' = payload_protos empty_payload @ [(1, protos_end (payload_protos empty_payload), nat 22)]
    \<and> payload_wf p'"
  by (rule reserve_fresh)
    (simp_all add: payload_wf_def payload_protos_def empty_payload_def protos_end_def size_defs)

lemma reserve_full:
  assumes "i \<notin> set (map fst (payload_protos p))"
    and "int (protos_end (payload_protos p)) + sz > MAX_ASGARD_PAYLOAD_BYTES"
  shows "asgard_reserve_proto i (Some p) sz = None"
  using find_proto_absent [of i "nat (protocols_included p)" "proto_data p" 0] assms
  by (simp add: asgard_reserve_proto_def payload_protos_def)

lemma reserve_reuse:
  assumes "i \<in> set (map fst (payload_protos p))"
  shows "\<exists>off osz. (i, off, osz) \<in> set (payload_protos p)
    \<and> asgard_reserve_proto i (Some p) sz = Some (off, p\<lparr>proto_data :=
         st_u16 (st_u16 (proto_data p) off i) (off + 2) sz\<rparr>)"
  using find_proto_present [of i "nat (protocols_included p)" "proto_data p" 0] assms
  by (fastforce simp: asgard_reserve_proto_def payload_protos_def)

text \<open>A reservation that does not fit is refused; an instance that has an area already gets the same
  area again and its header is overwritten with the new size, whatever lies behind it.\<close>

theorem reserve_full_or_reused:
  "(i \<notin> set (map fst (payload_protos p)) \<and> int (protos_end (payload_protos p)) + sz > MAX_ASGARD_PAYLOAD_BYTES
      \<longrightarrow> asgard_reserve_proto i (Some p) sz = None)
   \<and> (i \<in> set (map fst (payload_protos p)) \<longrightarrow>
      (\<exists>off osz. (i, off, osz) \<in> set (payload_protos p)
         \<and> asgard_reserve_proto i (Some p) sz = Some (off, p\<lparr>proto_data :=
             st_u16 (st_u16 (proto_data p) off i) (off + 2) sz\<rparr>)))"
  using reserve_full [of i p sz] reserve_reuse [of i p sz] by blast

theorem reserve_full_or_reused_witness:
  "asgard_reserve_proto 2 (Some empty_payload) 1500 = None
   \<and> (\<exists>off osz. (0, off, osz) \<in> set (payload_protos (empty_payload\<lparr>protocols_included := 1\<rparr>))
       \<and> asgard_reserve_proto 0 (Some (empty_payload\<lparr>protocols_included := 1\<rparr>)) 22 =
           Some (off, empty_payload\<lparr>protocols_included := 1, proto_data :=
             st_u16 (st_u16 (\<lambda>_. 0) off 0) (off + 2) 22\<rparr>))"
  using reserve_full_or_reused [of 2 empty_payload 1500]
    reserve_full_or_reused [of 0 "empty_payload\<lparr>protocols_included := 1\<rparr>" 22]
  by (simp add: payload_protos_def empty_payload_def protos_end_def size_defs get_defs ld_u16_def)

lemma reserve_empty:
  assumes "sz \<le> MAX_ASGARD_PAYLOAD_BYTES"
  shows "asgard_reserve_proto i (Some (p\<lparr>protocols_included := 0\<rparr>)) sz
    = Some (0, p\<lparr>protocols_included := 1, proto_data := st_u16 (st_u16 (proto_data p) 0 i) 2 sz\<rparr>)"
  using assms by (simp add: asgard_reserve_proto_def numeral_2_eq_2)

lemma reserve_first:
  "sz \<le> MAX_ASGARD_PAYLOAD_BYTES \<Longrightarrow> asgard_reserve_proto i (Some empty_payload) sz
     = Some (0, \<lparr>protocols_included = 1, proto_data = st_u16 (st_u16 (\<lambda>_. 0) 0 i) 2 sz\<rparr>)"
  using reserve_empty [of sz i empty_payload] by (simp add: empty_payload_def)

end
