(* ===== verification/AsgDevice.thy ===== *)
theory AsgDevice
  imports AsgRing AsgLogger AsgWire
begin

text \<open>
  \<open>core/libasraft.h\<close>, \<open>core/membership.h\<close>, \<open>core/replication.h\<close> and \<open>core/pingpong.h\<close>: the state of
  an ASGARD node.  The C structures become records; the pointers between them disappear: the
  \<open>asgard_device\<close> record contains its pacemaker, its cluster information, its queues and the private
  data of its consensus and ping-pong instances (the code supports one consensus instance per
  device, \<open>sdev->consensus_priv\<close>).  Arrays are functions on their indices.  Locks are not
  modelled: every handler is one atomic step.  \<open>clock\<close> is what \<open>ASGARD_TIMESTAMP\<close> returns during
  the current step; \<open>tx_log\<close> records the buffers handed to the network card; \<open>leader_wq\<close> is the
  work queue \<open>asgard_leader_wq\<close>.
\<close>

definition MAX_REMOTE_SOURCES :: int where "MAX_REMOTE_SOURCES = 16"
definition MAX_PROTO_INSTANCES :: int where "MAX_PROTO_INSTANCES = 8"
definition CLUSTER_SIZE :: nat where "CLUSTER_SIZE = 3"
definition MAX_CONSENSUS_LOG :: int where "MAX_CONSENSUS_LOG = 400000"
definition MAX_CLUSTER_MEMBER :: int where "MAX_CLUSTER_MEMBER = 512"
definition EPERM :: int where "EPERM = 1"
definition EPROTO :: int where "EPROTO = 71"

datatype asgard_protocol_type =
  ASGARD_PROTO_ECHO | ASGARD_PROTO_FD | ASGARD_PROTO_CONSENSUS | ASGARD_PROTO_PP

datatype pmstate = ASGARD_PM_UNINIT | ASGARD_PM_READY | ASGARD_PM_EMITTING | ASGARD_PM_FAILED
datatype w_state = WARMED_UP | WARMING_UP
datatype node_state = FOLLOWER | CANDIDATE | LEADER | NODE_UNINIT
datatype le_state = LE_RUNNING | LE_READY | LE_UNINIT
datatype pingpong_state = PP_UNINIT | PP_READY | PP_RUNNING | PP_STOPPED | PP_FULL

section \<open>Packets and queues\<close>

text \<open>A socket buffer: the addresses \<open>asgard_reserve_skb\<close> wrote into its headers, the UDP
  destination port and the ASGARD payload at its tail.\<close>

record skb =
  skb_dst_ip :: int
  skb_dst_mac :: "byte list"
  skb_dport :: int
  skb_data :: asgard_payload

record asgard_async_pkt =
  ap_port :: int
  ap_dst_ip :: int
  ap_payload :: asgard_payload
  ap_skb :: skb

record asgard_async_queue =
  doorbell :: int
  async_pkts :: "asgard_async_pkt list"

section \<open>Pacemaker targets\<close>

record asgard_pm_target_info =
  fire :: int
  t_cluster_id :: int
  pkt_tx_counter :: int
  pkt_rx_counter :: int
  scheduled_log_replications :: int
  received_log_replications :: int
  lhb_ts :: int
  chb_ts :: int
  alive :: int
  resp_factor :: int
  cur_waiting_interval :: int
  dst_ip :: int
  dst_port :: int
  dst_mac :: "byte list option"
  pkt_payload :: asgard_payload
  pkt_skb :: skb
  hb_payload :: asgard_payload
  hb_skb :: skb
  aapriv :: asgard_async_queue

record pminfo =
  pm_state :: pmstate
  pm_cluster_id :: int
  num_of_targets :: nat
  hbi :: int
  waiting_window :: int
  pm_targets :: "nat \<Rightarrow> asgard_pm_target_info"
  pm_errors :: int
  multicast_pkt_payload :: "asgard_payload option"
  oos_payload :: asgard_payload
  oos_port :: int
  oos_skb :: skb
  oos_fire :: int

section \<open>Consensus data\<close>

record sm_log_entry =
  e_valid :: int
  e_term :: int
  e_data :: chunk

record state_machine_cmd_log =
  num_retransmissions :: "nat \<Rightarrow> int"
  unstable_commits :: int
  next_index :: "nat \<Rightarrow> int"
  match_index :: "nat \<Rightarrow> int"
  retrans_list :: "nat \<Rightarrow> int list"
  retrans_entries :: "nat \<Rightarrow> int"
  last_applied :: int
  last_idx :: int
  commit_idx :: int
  stable_idx :: int
  next_retrans_req_idx :: int
  max_entries :: int
  log_lock :: int
  log_entries :: "int \<Rightarrow> sm_log_entry option"
  log_turn :: int

record consensus_priv =
  instance_id :: int
  ins_logger :: asgard_logger
  nstate :: node_state
  le_state :: le_state
  candidate_counter :: int
  leader_id :: int
  node_id :: int
  verbosity :: int
  con_term :: int
  accu_rand :: int
  voted :: int
  max_entries_per_pkt :: int
  votes :: int
  sm_log :: state_machine_cmd_log
  throughput_logger :: asgard_logger
  txbuf :: "asg_ring_buf option"
  rxbuf :: "asg_ring_buf option"

section \<open>Ping-pong data\<close>

record ping_round_trip =
  rt_n :: int
  rt_ts1 :: int
  rt_ts4 :: int

record ping_pong_round_trip =
  received_pongs :: int
  scheduled_pings :: int
  round_trip_data :: "int \<Rightarrow> ping_round_trip"

record pingpong_priv =
  pp_state :: pingpong_state
  pp_instance_id :: int
  pp_verbosity :: int
  targets_rt_meta :: "nat \<Rightarrow> ping_pong_round_trip"

section \<open>Cluster information and the device\<close>

record cluster_member_info =
  m_state :: int
  global_cluster_id :: int
  hb_metrics :: ingress_hb_metrics

record cluster_info =
  ci_node_state :: int
  last_update_timestamp :: int
  overall_cluster_member :: int
  active_cluster_member :: int
  dead_cluster_member :: int
  cluster_joins :: int
  cluster_dropouts :: int
  member_info :: "nat \<Rightarrow> cluster_member_info"

record proto_instance =
  pi_instance_id :: int
  proto_type :: asgard_protocol_type

record leader_work =
  lw_target_id :: nat
  lw_next_index :: int
  lw_retrans :: int

record multicast =
  mc_enable :: int
  mc_dst_ip :: int
  mc_dst_mac :: "byte list"
  mc_aapriv :: asgard_async_queue
  mc_nextIdx :: int

record asgard_device =
  hb_interval :: int
  tx_counter :: int
  hold_fire :: int
  cur_leader_lid :: int
  is_leader :: int
  tx_port :: int
  verbose :: int
  warmup_state :: w_state
  pm :: pminfo
  instance_id_mapping :: "nat \<Rightarrow> int"
  num_of_proto_instances :: nat
  protos :: "nat \<Rightarrow> proto_instance option"
  con :: consensus_priv
  has_con :: bool
  pp :: pingpong_priv
  ci :: cluster_info
  ingress_states :: "nat \<Rightarrow> logger_state"
  mc :: multicast
  self_ip :: int
  self_mac :: "byte list option"
  asgard_wq_lock :: int
  leader_wq :: "leader_work list"
  tx_log :: "skb list"
  clock :: int
  ndev_up :: bool
  txq_stopped :: bool

section \<open>Access paths\<close>

text \<open>The updates the handlers share, written as the code's paths \<open>priv->sm_log.x\<close>,
  \<open>sdev->pminfo.pm_targets[i].x\<close>.\<close>

definition upd_con :: "(consensus_priv \<Rightarrow> consensus_priv) \<Rightarrow> asgard_device \<Rightarrow> asgard_device" where
  "upd_con f d = d\<lparr>con := f (con d)\<rparr>"

definition upd_log ::
  "(state_machine_cmd_log \<Rightarrow> state_machine_cmd_log) \<Rightarrow> asgard_device \<Rightarrow> asgard_device" where
  "upd_log f = upd_con (\<lambda>p. p\<lparr>sm_log := f (sm_log p)\<rparr>)"

definition upd_pm :: "(pminfo \<Rightarrow> pminfo) \<Rightarrow> asgard_device \<Rightarrow> asgard_device" where
  "upd_pm f d = d\<lparr>pm := f (pm d)\<rparr>"

definition upd_target ::
  "nat \<Rightarrow> (asgard_pm_target_info \<Rightarrow> asgard_pm_target_info) \<Rightarrow> asgard_device \<Rightarrow> asgard_device" where
  "upd_target i f = upd_pm (\<lambda>p. p\<lparr>pm_targets := (pm_targets p)(i := f (pm_targets p i))\<rparr>)"

abbreviation target :: "asgard_device \<Rightarrow> nat \<Rightarrow> asgard_pm_target_info" where
  "target d i \<equiv> pm_targets (pm d) i"

abbreviation the_log :: "asgard_device \<Rightarrow> state_machine_cmd_log" where
  "the_log d \<equiv> sm_log (con d)"

abbreviation targets :: "asgard_device \<Rightarrow> nat" where
  "targets d \<equiv> num_of_targets (pm d)"

definition con_log_event :: "le_event_type \<Rightarrow> asgard_device \<Rightarrow> asgard_device" where
  "con_log_event ev d = upd_con (\<lambda>p. p\<lparr>ins_logger := log_event ev (clock d) (ins_logger p)\<rparr>) d"

named_theorems upd \<open>definitions of the update paths\<close>

lemmas [upd] = upd_con_def upd_log_def upd_pm_def upd_target_def con_log_event_def

text \<open>A loop over the targets \<open>0, \<dots>, num_of_targets - 1\<close>.\<close>

definition for_targets ::
  "(nat \<Rightarrow> asgard_device \<Rightarrow> asgard_device) \<Rightarrow> asgard_device \<Rightarrow> asgard_device" where
  "for_targets f d = fold f [0..<targets d] d"

lemma for_targets_inv:
  assumes "P d" and "\<And>i d. P d \<Longrightarrow> P (f i d)"
  shows "P (for_targets f d)"
proof -
  have "P (fold f xs d)" for xs
    using assms(1) by (induction xs arbitrary: d) (auto intro: assms(2))
  then show ?thesis by (simp add: for_targets_def)
qed

lemma for_targets_frame:
  assumes "\<And>i d. g (f i d) = g d"
  shows "g (for_targets f d) = g d"
  by (rule for_targets_inv [where P = "\<lambda>x. g x = g d"]) (simp_all add: assms)

lemma target_upd_target [simp]:
  "target (upd_target i f d) j = (if j = i then f (target d i) else target d j)"
  by (simp add: upd)

lemma con_upd_con [simp]: "con (upd_con f d) = f (con d)"
  by (simp add: upd)

lemma con_upd_log [simp]: "con (upd_log f d) = (con d)\<lparr>sm_log := f (the_log d)\<rparr>"
  by (simp add: upd)

lemma con_upd_pm [simp]: "con (upd_pm f d) = con d" "con (upd_target i g d) = con d"
  by (simp_all add: upd)

lemma pm_upd_con [simp]: "pm (upd_con f d) = pm d" "pm (upd_log g d) = pm d"
    "pm (con_log_event ev d) = pm d"
  by (simp_all add: upd)

lemma pm_upd_pm [simp]: "pm (upd_pm f d) = f (pm d)"
  by (simp add: upd)

lemma targets_upd_target [simp]: "targets (upd_target i f d) = targets d"
  by (simp add: upd)

text \<open>The result of a loop that updates the \<open>i\<close>-th target in its \<open>i\<close>-th iteration only.\<close>

lemma for_targets_pointwise:
  assumes tgt: "\<And>i d j. target (f i d) j = (if j = i then g d i (target d i) else target d j)"
    and env: "\<And>i d j. g (f i d) j = g d j"
  shows "target (for_targets f d) j = (if j < targets d then g d j (target d j) else target d j)"
proof -
  have genv: "g (fold f [0..<n] d) i = g d i" for n i
    by (induction n) (simp_all add: env)
  have "target (fold f [0..<n] d) j = (if j < n then g d j (target d j) else target d j)" for n
    by (induction n) (auto simp: tgt genv less_Suc_eq)
  then show ?thesis by (simp add: for_targets_def)
qed

end
