(* ===== verification/AsgSample.thy ===== *)
theory AsgSample
  imports AsgDevice
begin

text \<open>
  Concrete states of a node with two registered peers, as the program reaches them after start-up:
  the inputs at which the witnesses evaluate the properties.
\<close>

definition sample_skb :: skb where
  "sample_skb = \<lparr>skb_dst_ip = 0, skb_dst_mac = [], skb_dport = 3319, skb_data = empty_payload\<rparr>"

definition sample_target :: "int \<Rightarrow> asgard_pm_target_info" where
  "sample_target cid = \<lparr>fire = 0, t_cluster_id = cid, pkt_tx_counter = 0, pkt_rx_counter = 0,
     scheduled_log_replications = 0, received_log_replications = 0, lhb_ts = 0, chb_ts = 1, alive = 1,
     resp_factor = 2, cur_waiting_interval = 2, dst_ip = cid, dst_port = 3319,
     dst_mac = Some [0, 0, 0, 0, 0, word_of_int cid], pkt_payload = empty_payload, pkt_skb = sample_skb,
     hb_payload = empty_payload, hb_skb = sample_skb, aapriv = \<lparr>doorbell = 0, async_pkts = []\<rparr>\<rparr>"

definition sample_pm :: pminfo where
  "sample_pm = \<lparr>pm_state = ASGARD_PM_EMITTING, pm_cluster_id = 1, num_of_targets = 2, hbi = 1000,
     waiting_window = 100, pm_targets = (\<lambda>i. sample_target (int i + 2)), pm_errors = 0,
     multicast_pkt_payload = Some empty_payload, oos_payload = empty_payload, oos_port = 3321,
     oos_skb = sample_skb, oos_fire = 0\<rparr>"

text \<open>A log with the entries \<open>0, \<dots>, L\<close> of term 1, replicated nowhere yet.\<close>

definition sample_log :: "int \<Rightarrow> state_machine_cmd_log" where
  "sample_log L = \<lparr>num_retransmissions = (\<lambda>_. 0), unstable_commits = 0, next_index = (\<lambda>_. 0),
     match_index = (\<lambda>_. -1), retrans_list = (\<lambda>_. []), retrans_entries = (\<lambda>_. 0), last_applied = -1,
     last_idx = L, commit_idx = -1, stable_idx = L, next_retrans_req_idx = -2,
     max_entries = MAX_CONSENSUS_LOG, log_lock = 0,
     log_entries = (\<lambda>b. if 0 \<le> b \<and> b < MAX_CONSENSUS_LOG
       then Some \<lparr>e_valid = (if b \<le> L then 1 else 0), e_term = 1,
                  e_data = replicate ASG_CHUNK_SIZE (word_of_int b)\<rparr> else None),
     log_turn = 0\<rparr>"

definition sample_logger :: asgard_logger where
  "sample_logger = \<lparr>lg_instance_id = 1, lg_state = LOGGER_READY, lg_ifindex = 0, lg_accept_user_ts = 0,
     lg_name = ''consensus_le'', lg_current_entries = 0,
     lg_events = (\<lambda>_. \<lparr>ev_timestamp = 0, ev_type = 0\<rparr>), lg_applied = 0, lg_first_ts = 0, lg_last_ts = 0\<rparr>"

definition sample_ring :: "int \<Rightarrow> asg_ring_buf" where
  "sample_ring n = \<lparr>read_idx = 0, write_idx = 0, rb_turn = 0, rb_size = n, ring = (\<lambda>_. [])\<rparr>"

definition sample_con :: "node_state \<Rightarrow> int \<Rightarrow> consensus_priv" where
  "sample_con st L = \<lparr>instance_id = 1, ins_logger = sample_logger, nstate = st, le_state = LE_RUNNING,
     candidate_counter = 0, leader_id = 1, node_id = 1, verbosity = 0, con_term = 1, accu_rand = 0,
     voted = 0, max_entries_per_pkt = 100, votes = 0, sm_log = sample_log L,
     throughput_logger = sample_logger, txbuf = Some (sample_ring sizeof_asg_ring_buf),
     rxbuf = Some (sample_ring sizeof_asg_ring_buf)\<rparr>"

definition sample_ci :: "int \<Rightarrow> cluster_info" where
  "sample_ci code = \<lparr>ci_node_state = code, last_update_timestamp = 0, overall_cluster_member = 3,
     active_cluster_member = 0, dead_cluster_member = 0, cluster_joins = 0, cluster_dropouts = 0,
     member_info = (\<lambda>i. \<lparr>m_state = 0, global_cluster_id = int i + 2,
       hb_metrics = \<lparr>avg_jitter = 0, max_jitter = 0, min_jitter = -1, hb_counter = 0, max_latency = 0,
         min_latency = -1, avg_latency = 0, hb_last_ts = 0, last_delta = 0\<rparr>\<rparr>)\<rparr>"

text \<open>The node with cluster id 1 in role \<open>st\<close> with a log up to \<open>L\<close>.\<close>

definition sample_node :: "node_state \<Rightarrow> int \<Rightarrow> asgard_device" where
  "sample_node st L = \<lparr>hb_interval = 0, tx_counter = 0, hold_fire = 0, cur_leader_lid = -1,
     is_leader = (if st = LEADER then 1 else 0), tx_port = 3319, verbose = 0, warmup_state = WARMED_UP,
     pm = sample_pm, instance_id_mapping = (\<lambda>i. if i = 1 then 0 else -1), num_of_proto_instances = 1,
     protos = (\<lambda>i. if i = 0 then Some \<lparr>pi_instance_id = 1, proto_type = ASGARD_PROTO_CONSENSUS\<rparr> else None),
     con = sample_con st L, has_con = True,
     pp = \<lparr>pp_state = PP_UNINIT, pp_instance_id = 0, pp_verbosity = 0, targets_rt_meta =
       (\<lambda>_. \<lparr>received_pongs = 0, scheduled_pings = 0,
            round_trip_data = (\<lambda>_. \<lparr>rt_n = 0, rt_ts1 = 0, rt_ts4 = 0\<rparr>)\<rparr>)\<rparr>,
  ci = sample_ci (case st of NODE_UNINIT \<Rightarrow> 0 | FOLLOWER \<Rightarrow> 1 | CANDIDATE
     \<Rightarrow> 2 | LEADER \<Rightarrow> 3),
     ingress_states = (\<lambda>_. LOGGER_RUNNING),
     mc = \<lparr>mc_enable = 0, mc_dst_ip = 0, mc_dst_mac = [], mc_aapriv = \<lparr>doorbell = 0, async_pkts = []\<rparr>,
       mc_nextIdx = 0\<rparr>,
     self_ip = 1, self_mac = Some [0, 0, 0, 0, 0, 1], asgard_wq_lock = 0, leader_wq = [], tx_log = [],
     clock = 1000, ndev_up = True, txq_stopped = False\<rparr>"

named_theorems sample \<open>the fields of the sample states\<close>

lemma sample_skb_fields [sample]:
  "skb_dst_ip sample_skb = 0"
  "skb_dst_mac sample_skb = ([])"
  "skb_dport sample_skb = 3319"
  "skb_data sample_skb = empty_payload"
  by (simp_all add: sample_skb_def)

lemma sample_target_fields [sample]:
  "fire (sample_target cid) = 0"
  "t_cluster_id (sample_target cid) = cid"
  "pkt_tx_counter (sample_target cid) = 0"
  "pkt_rx_counter (sample_target cid) = 0"
  "scheduled_log_replications (sample_target cid) = 0"
  "received_log_replications (sample_target cid) = 0"
  "lhb_ts (sample_target cid) = 0"
  "chb_ts (sample_target cid) = 1"
  "alive (sample_target cid) = 1"
  "resp_factor (sample_target cid) = 2"
  "cur_waiting_interval (sample_target cid) = 2"
  "dst_ip (sample_target cid) = cid"
  "dst_port (sample_target cid) = 3319"
  "dst_mac (sample_target cid) = (Some [0, 0, 0, 0, 0, word_of_int cid])"
  "pkt_payload (sample_target cid) = empty_payload"
  "pkt_skb (sample_target cid) = sample_skb"
  "hb_payload (sample_target cid) = empty_payload"
  "hb_skb (sample_target cid) = sample_skb"
  "aapriv (sample_target cid) = (\<lparr>doorbell = 0, async_pkts = []\<rparr>)"
  by (simp_all add: sample_target_def)

lemma sample_pm_fields [sample]:
  "pm_state sample_pm = ASGARD_PM_EMITTING"
  "pm_cluster_id sample_pm = 1"
  "num_of_targets sample_pm = 2"
  "hbi sample_pm = 1000"
  "waiting_window sample_pm = 100"
  "pm_targets sample_pm = (\<lambda>i. sample_target (int i + 2))"
  "pm_errors sample_pm = 0"
  "multicast_pkt_payload sample_pm = (Some empty_payload)"
  "oos_payload sample_pm = empty_payload"
  "oos_port sample_pm = 3321"
  "oos_skb sample_pm = sample_skb"
  "oos_fire sample_pm = 0"
  by (simp_all add: sample_pm_def)

lemma sample_log_fields [sample]:
  "num_retransmissions (sample_log L) = (\<lambda>_. 0)"
  "unstable_commits (sample_log L) = 0"
  "next_index (sample_log L) = (\<lambda>_. 0)"
  "match_index (sample_log L) = (\<lambda>_. -1)"
  "retrans_list (sample_log L) = (\<lambda>_. [])"
  "retrans_entries (sample_log L) = (\<lambda>_. 0)"
  "last_applied (sample_log L) = -1"
  "last_idx (sample_log L) = L"
  "commit_idx (sample_log L) = -1"
  "stable_idx (sample_log L) = L"
  "next_retrans_req_idx (sample_log L) = -2"
  "max_entries (sample_log L) = MAX_CONSENSUS_LOG"
  "log_lock (sample_log L) = 0"
  "log_entries (sample_log L) = (\<lambda>b. if 0 \<le> b \<and> b < MAX_CONSENSUS_LOG then Some
     \<lparr>e_valid = (if b \<le> L then 1 else 0), e_term = 1, e_data = replicate ASG_CHUNK_SIZE
     (word_of_int b)\<rparr> else None)"
  "log_turn (sample_log L) = 0"
  by (simp_all add: sample_log_def)

lemma sample_logger_fields [sample]:
  "lg_instance_id sample_logger = 1"
  "lg_state sample_logger = LOGGER_READY"
  "lg_ifindex sample_logger = 0"
  "lg_accept_user_ts sample_logger = 0"
  "lg_name sample_logger = (''consensus_le'')"
  "lg_current_entries sample_logger = 0"
  "lg_events sample_logger = (\<lambda>_. \<lparr>ev_timestamp = 0, ev_type = 0\<rparr>)"
  "lg_applied sample_logger = 0"
  "lg_first_ts sample_logger = 0"
  "lg_last_ts sample_logger = 0"
  by (simp_all add: sample_logger_def)

lemma sample_ring_fields [sample]:
  "read_idx (sample_ring n) = 0"
  "write_idx (sample_ring n) = 0"
  "rb_turn (sample_ring n) = 0"
  "rb_size (sample_ring n) = n"
  "ring (sample_ring n) = (\<lambda>_. [])"
  by (simp_all add: sample_ring_def)

lemma sample_con_fields [sample]:
  "instance_id (sample_con st L) = 1"
  "ins_logger (sample_con st L) = sample_logger"
  "nstate (sample_con st L) = st"
  "le_state (sample_con st L) = LE_RUNNING"
  "candidate_counter (sample_con st L) = 0"
  "leader_id (sample_con st L) = 1"
  "node_id (sample_con st L) = 1"
  "verbosity (sample_con st L) = 0"
  "con_term (sample_con st L) = 1"
  "accu_rand (sample_con st L) = 0"
  "voted (sample_con st L) = 0"
  "max_entries_per_pkt (sample_con st L) = 100"
  "votes (sample_con st L) = 0"
  "sm_log (sample_con st L) = (sample_log L)"
  "throughput_logger (sample_con st L) = sample_logger"
  "txbuf (sample_con st L) = (Some (sample_ring sizeof_asg_ring_buf))"
  "rxbuf (sample_con st L) = (Some (sample_ring sizeof_asg_ring_buf))"
  by (simp_all add: sample_con_def)

lemma sample_ci_fields [sample]:
  "ci_node_state (sample_ci code) = code"
  "last_update_timestamp (sample_ci code) = 0"
  "overall_cluster_member (sample_ci code) = 3"
  "active_cluster_member (sample_ci code) = 0"
  "dead_cluster_member (sample_ci code) = 0"
  "cluster_joins (sample_ci code) = 0"
  "cluster_dropouts (sample_ci code) = 0"
  "member_info (sample_ci code) = (\<lambda>i. \<lparr>m_state = 0, global_cluster_id = int i + 2,
     hb_metrics = \<lparr>avg_jitter = 0, max_jitter = 0, min_jitter = -1, hb_counter = 0, max_latency =
     0, min_latency = -1, avg_latency = 0, hb_last_ts = 0, last_delta = 0\<rparr>\<rparr>)"
  by (simp_all add: sample_ci_def)

lemma sample_node_fields [sample]:
  "hb_interval (sample_node st L) = 0"
  "tx_counter (sample_node st L) = 0"
  "hold_fire (sample_node st L) = 0"
  "cur_leader_lid (sample_node st L) = -1"
  "is_leader (sample_node st L) = ((if st = LEADER then 1 else 0))"
  "tx_port (sample_node st L) = 3319"
  "verbose (sample_node st L) = 0"
  "warmup_state (sample_node st L) = WARMED_UP"
  "pm (sample_node st L) = sample_pm"
  "instance_id_mapping (sample_node st L) = (\<lambda>i. if i = 1 then 0 else -1)"
  "num_of_proto_instances (sample_node st L) = 1"
  "protos (sample_node st L) = (\<lambda>i. if i = 0 then Some \<lparr>pi_instance_id = 1, proto_type
     = ASGARD_PROTO_CONSENSUS\<rparr> else None)"
  "con (sample_node st L) = (sample_con st L)"
  "has_con (sample_node st L) = True"
  "pp (sample_node st L) = (\<lparr>pp_state = PP_UNINIT, pp_instance_id = 0, pp_verbosity = 0,
     targets_rt_meta = (\<lambda>_. \<lparr>received_pongs = 0, scheduled_pings = 0, round_trip_data =
     (\<lambda>_. \<lparr>rt_n = 0, rt_ts1 = 0, rt_ts4 = 0\<rparr>)\<rparr>)\<rparr>)"
  "ci (sample_node st L) = (sample_ci (case st of NODE_UNINIT \<Rightarrow> 0 | FOLLOWER \<Rightarrow>
     1 | CANDIDATE \<Rightarrow> 2 | LEADER \<Rightarrow> 3))"
  "ingress_states (sample_node st L) = (\<lambda>_. LOGGER_RUNNING)"
  "mc (sample_node st L) = (\<lparr>mc_enable = 0, mc_dst_ip = 0, mc_dst_mac = [], mc_aapriv =
     \<lparr>doorbell = 0, async_pkts = []\<rparr>, mc_nextIdx = 0\<rparr>)"
  "self_ip (sample_node st L) = 1"
  "self_mac (sample_node st L) = (Some [0, 0, 0, 0, 0, 1])"
  "asgard_wq_lock (sample_node st L) = 0"
  "leader_wq (sample_node st L) = ([])"
  "tx_log (sample_node st L) = ([])"
  "clock (sample_node st L) = 1000"
  "ndev_up (sample_node st L) = True"
  "txq_stopped (sample_node st L) = False"
  by (simp_all add: sample_node_def)

end
