(* ===== verification/AsgKVStore.thy ===== *)
theory AsgKVStore
  imports AsgSample
begin

text \<open>
  \<open>core/kvstore.c\<close>: the replicated command log.  Consensus indices grow without bound and are
  mapped to buffer slots modulo \<open>max_entries\<close>; \<open>stable_idx\<close> is the last index without a gap
  before it, \<open>commit_idx\<close> the last index known to be committed and \<open>last_applied\<close> the last one
  handed to the application through the rx ring buffer.  A pointer of the entries array is an
  option; the code dereferences it unchecked where the model uses \<open>the\<close>.
\<close>

definition get_last_idx_safe :: "consensus_priv \<Rightarrow> int \<times> consensus_priv" where
  "get_last_idx_safe priv =
     (let log = sm_log priv;
          priv' = (if last_idx log < -1 then priv\<lparr>sm_log := log\<lparr>last_idx := -1\<rparr>\<rparr> else priv)
      in (last_idx (sm_log priv'), priv'))"

definition consensus_idx_to_buffer_idx :: "state_machine_cmd_log \<Rightarrow> int \<Rightarrow> int" where
  "consensus_idx_to_buffer_idx log dividend =
     (let divisor = to_u32 (max_entries log);
          remainder = to_u32 dividend mod divisor
      in if remainder < 0 \<or> remainder > to_u32 (max_entries log) then -1 else to_s32 remainder)"

definition get_prev_log_term :: "consensus_priv \<Rightarrow> int \<Rightarrow> int" where
  "get_prev_log_term cur_priv con_idx =
     (if con_idx = -1 then con_term cur_priv
      else if con_idx < -1 then -1
      else
        let idx = consensus_idx_to_buffer_idx (sm_log cur_priv) con_idx
        in if idx < 0 then -1
           else if idx > last_idx (sm_log cur_priv) then -1
           else if idx > MAX_CONSENSUS_LOG then -1
           else (case log_entries (sm_log cur_priv) idx of
                   None \<Rightarrow> -1
                 | Some e \<Rightarrow> to_s32 (e_term e)))"

definition entry_at :: "state_machine_cmd_log \<Rightarrow> int \<Rightarrow> sm_log_entry" where
  "entry_at log b = the (log_entries log b)"

definition set_entry :: "int \<Rightarrow> sm_log_entry \<Rightarrow> state_machine_cmd_log \<Rightarrow> state_machine_cmd_log" where
  "set_entry b e log = log\<lparr>log_entries := (log_entries log)(b := Some e)\<rparr>"

definition append_command ::
  "int \<Rightarrow> consensus_priv \<Rightarrow> chunk \<Rightarrow> int \<Rightarrow> int \<Rightarrow> int \<times> consensus_priv" where
  "append_command now priv dataChunk trm log_idx =
     (if commit_idx (sm_log priv) > log_idx then (- EPROTO, priv)
      else
        let buf_logidx = consensus_idx_to_buffer_idx (sm_log priv) log_idx
        in if buf_logidx < 0 then (- EINVAL, priv)
           else
             let e = entry_at (sm_log priv) buf_logidx;
                 log1 = set_entry buf_logidx
                          (e\<lparr>e_data := dataChunk, e_term := to_u32 trm, e_valid := 1\<rparr>) (sm_log priv);
                 log2 = (if last_idx log1 < log_idx then log1\<lparr>last_idx := log_idx\<rparr> else log1);
                 priv1 = priv\<lparr>sm_log := log2\<rparr>
             in (0, if log_idx = 0
                    then priv1\<lparr>ins_logger := log_event START_LOG_REP now (ins_logger priv1)\<rparr>
                    else priv1))"

function stable_loop :: "state_machine_cmd_log \<Rightarrow> int \<Rightarrow> state_machine_cmd_log" where
  "stable_loop log i =
     (if i \<le> last_idx log then
        let cur_buf_idx = consensus_idx_to_buffer_idx log i
        in if cur_buf_idx = -1 then log
           else if e_valid (entry_at log cur_buf_idx) = 0 then log
           else stable_loop (log\<lparr>stable_idx := i\<rparr>) (i + 1)
      else log)"
  by pat_completeness auto
termination
  by (relation "measure (\<lambda>(log, i). nat (last_idx log + 1 - i))") auto

declare stable_loop.simps [simp del]

definition update_stable_idx :: "consensus_priv \<Rightarrow> consensus_priv" where
  "update_stable_idx priv = priv\<lparr>sm_log := stable_loop (sm_log priv) (stable_idx (sm_log priv) + 1)\<rparr>"

definition get_rx_buffer :: "consensus_priv \<Rightarrow> asg_ring_buf option" where
  "get_rx_buffer priv = rxbuf priv"

definition get_tx_buffer :: "consensus_priv \<Rightarrow> asg_ring_buf option" where
  "get_tx_buffer priv = txbuf priv"

text \<open>The loop of \<open>apply_log_to_sm\<close>, its body first.  \<open>rx_buf\<close> is the pointer fetched before the
  loop, so the appended buffer is the one in \<open>rxbuf\<close>.\<close>

definition apply_one :: "consensus_priv \<Rightarrow> int \<Rightarrow> int \<times> consensus_priv" where
  "apply_one priv i =
     (let buf_idx = consensus_idx_to_buffer_idx (sm_log priv) i
      in if buf_idx = -1 then (-1, priv)
         else
           let (err, rx) = append_rb (rxbuf priv) (e_data (entry_at (sm_log priv) buf_idx));
               priv1 = priv\<lparr>rxbuf := rx\<rparr>
           in if err \<noteq> 0 then (-1, priv1)
              else
                let log = sm_log priv1;
                    log1 = set_entry buf_idx ((entry_at log buf_idx)\<lparr>e_valid := 0\<rparr>) log
                in (0, priv1\<lparr>sm_log := log1\<lparr>last_applied := last_applied log1 + 1\<rparr>\<rparr>))"

lemma apply_one_frame:
  "commit_idx (sm_log (snd (apply_one p i))) = commit_idx (sm_log p)"
  "stable_idx (sm_log (snd (apply_one p i))) = stable_idx (sm_log p)"
  "last_idx (sm_log (snd (apply_one p i))) = last_idx (sm_log p)"
  "max_entries (sm_log (snd (apply_one p i))) = max_entries (sm_log p)"
  "con_term (snd (apply_one p i)) = con_term p"
  by (simp_all add: apply_one_def Let_def set_entry_def split_beta)

function apply_loop :: "consensus_priv \<Rightarrow> int \<Rightarrow> int \<times> consensus_priv" where
  "apply_loop priv i =
     (if i \<le> commit_idx (sm_log priv) then
        if fst (apply_one priv i) \<noteq> 0 then apply_one priv i
        else apply_loop (snd (apply_one priv i)) (i + 1)
      else (0, priv))"
  by pat_completeness auto
termination
  by (relation "measure (\<lambda>(priv, i). nat (commit_idx (sm_log priv) + 1 - i))")
    (auto simp: apply_one_frame)

declare apply_loop.simps [simp del]

definition apply_log_to_sm :: "int \<Rightarrow> consensus_priv \<Rightarrow> int \<times> consensus_priv" where
  "apply_log_to_sm now priv =
     (let log = sm_log priv;
          applying = commit_idx log - (if last_applied log = -1 then 0 else last_applied log);
          tl1 = snd (write_log (throughput_logger priv) applying now);
          tl2 = (if lg_first_ts tl1 = 0 then tl1\<lparr>lg_first_ts := now\<rparr> else tl1);
          tl3 = tl2\<lparr>lg_last_ts := now, lg_applied := lg_applied tl2 + applying\<rparr>;
          priv1 = priv\<lparr>throughput_logger := tl3\<rparr>
      in case get_rx_buffer priv1 of
           None \<Rightarrow> (-1, priv1)
         | Some _ \<Rightarrow> apply_loop priv1 (last_applied log + 1))"

text \<open>\<open>commit_log\<close> always returns 0; \<open>multicast\<close> is \<open>sdev->multicast.enable\<close>.\<close>

definition commit_log_priv :: "int \<Rightarrow> int \<Rightarrow> consensus_priv \<Rightarrow> int \<Rightarrow> consensus_priv" where
  "commit_log_priv multicast now priv cidx =
     (if cidx > commit_idx (sm_log priv) then
        if multicast = 0 \<and> cidx > stable_idx (sm_log priv) then priv
        else
          let (err, priv1) =
                apply_log_to_sm now (priv\<lparr>sm_log := (sm_log priv)\<lparr>commit_idx := cidx\<rparr>\<rparr>)
          in if err = 0
             then priv1\<lparr>ins_logger := log_event GOT_CONSENSUS_ON_VALUE now (ins_logger priv1)\<rparr>
             else priv1
      else priv)"

definition commit_log :: "asgard_device \<Rightarrow> int \<Rightarrow> asgard_device" where
  "commit_log d cidx = upd_con (\<lambda>p. commit_log_priv (mc_enable (mc d)) (clock d) p cidx) d"

section \<open>The index mapping\<close>

text \<open>The entries array as \<open>consensus_init\<close> leaves it: every slot allocated.\<close>

definition entries_ok :: "state_machine_cmd_log \<Rightarrow> bool" where
  "entries_ok log \<longleftrightarrow> max_entries log = MAX_CONSENSUS_LOG
     \<and> (\<forall>b. 0 \<le> b \<and> b < MAX_CONSENSUS_LOG \<longrightarrow> log_entries log b \<noteq> None)"

lemma con2buf: "max_entries log = MAX_CONSENSUS_LOG \<Longrightarrow>
    consensus_idx_to_buffer_idx log i = to_u32 i mod 400000"
  by (simp add: consensus_idx_to_buffer_idx_def MAX_CONSENSUS_LOG_def Let_def not_less)

lemma con2buf_range:
  assumes "max_entries log = MAX_CONSENSUS_LOG"
  shows "0 \<le> consensus_idx_to_buffer_idx log i" "consensus_idx_to_buffer_idx log i < MAX_CONSENSUS_LOG"
  using con2buf [OF assms] by (simp_all add: MAX_CONSENSUS_LOG_def)

lemma con2buf_nonneg:
  assumes "max_entries log = MAX_CONSENSUS_LOG" and "0 \<le> i" and "i < 2147483648"
  shows "consensus_idx_to_buffer_idx log i = i mod MAX_CONSENSUS_LOG"
  using con2buf [OF assms(1)] assms(2,3) by (simp add: MAX_CONSENSUS_LOG_def)

lemma con2buf_inj_window:
  assumes "max_entries log = MAX_CONSENSUS_LOG" and "0 \<le> i" "i < j" "j < i + MAX_CONSENSUS_LOG"
    and "j < 2147483648"
  shows "consensus_idx_to_buffer_idx log i \<noteq> consensus_idx_to_buffer_idx log j"
proof
  assume "consensus_idx_to_buffer_idx log i = consensus_idx_to_buffer_idx log j"
  then have "j mod MAX_CONSENSUS_LOG = i mod MAX_CONSENSUS_LOG"
    using assms con2buf_nonneg [OF assms(1)] by simp
  then have "MAX_CONSENSUS_LOG dvd j - i" by (simp add: mod_eq_dvd_iff)
  moreover have "0 < j - i" "j - i < MAX_CONSENSUS_LOG" using assms by simp_all
  ultimately show False using zdvd_imp_le by fastforce
qed

lemma con2buf_cong: "max_entries log' = max_entries log \<Longrightarrow>
    consensus_idx_to_buffer_idx log' i = consensus_idx_to_buffer_idx log i"
  by (simp add: consensus_idx_to_buffer_idx_def)

text \<open>The entry a consensus index denotes.\<close>

definition log_at :: "state_machine_cmd_log \<Rightarrow> int \<Rightarrow> sm_log_entry" where
  "log_at log i = entry_at log (consensus_idx_to_buffer_idx log i)"

section \<open>The stable index\<close>

lemma stable_loop_frame:
  "log_entries (stable_loop log i) = log_entries log \<and> last_idx (stable_loop log i) = last_idx log
   \<and> commit_idx (stable_loop log i) = commit_idx log \<and> last_applied (stable_loop log i) = last_applied log
   \<and> max_entries (stable_loop log i) = max_entries log"
proof (induction log i rule: stable_loop.induct)
  case (1 log i)
  show ?case
    by (subst (1 2 3 4 5) stable_loop.simps) (use "1.IH" in \<open>auto simp: Let_def\<close>)
qed

lemma log_at_stable_upd [simp]: "log_at (log\<lparr>stable_idx := s\<rparr>) i = log_at log i"
  by (simp add: log_at_def entry_at_def consensus_idx_to_buffer_idx_def)

lemma stable_loop_stop:
  assumes "max_entries log = MAX_CONSENSUS_LOG"
    and "last_idx log < i \<or> e_valid (log_at log i) = 0"
  shows "stable_loop log i = log"
  using assms by (subst stable_loop.simps) (auto simp: Let_def log_at_def)

lemma stable_loop_step:
  assumes "max_entries log = MAX_CONSENSUS_LOG" and "i \<le> last_idx log"
    and "e_valid (log_at log i) \<noteq> 0"
  shows "stable_loop log i = stable_loop (log\<lparr>stable_idx := i\<rparr>) (i + 1)"
  using assms con2buf_range [OF assms(1), of i]
  by (subst stable_loop.simps) (simp add: Let_def log_at_def)

lemma stable_loop_spec:
  assumes "max_entries log = MAX_CONSENSUS_LOG" and "stable_idx log = i - 1"
  shows "i - 1 \<le> stable_idx (stable_loop log i)
     \<and> stable_idx (stable_loop log i) \<le> max (i - 1) (last_idx log)
     \<and> (\<forall>j. i \<le> j \<and> j \<le> stable_idx (stable_loop log i) \<longrightarrow> e_valid (log_at log j) \<noteq> 0)
     \<and> (stable_idx (stable_loop log i) < last_idx log \<longrightarrow>
          e_valid (log_at log (stable_idx (stable_loop log i) + 1)) = 0)"
  using assms
proof (induction "nat (last_idx log + 1 - i)" arbitrary: log i rule: less_induct)
  case less
  show ?case
  proof (cases "i \<le> last_idx log \<and> e_valid (log_at log i) \<noteq> 0")
    case True
    let ?log' = "log\<lparr>stable_idx := i\<rparr>"
    have step: "stable_loop log i = stable_loop ?log' (i + 1)"
      using True less.prems by (intro stable_loop_step) auto
    note IH = less.hyps [of ?log' "i + 1"]
    have split: "i \<le> j \<and> j \<le> s \<longleftrightarrow> j = i \<and> i \<le> s \<or> i + 1 \<le> j \<and> j \<le> s" for j s by auto
    show ?thesis unfolding step split using IH True less.prems by auto
  next
    case False
    then have "stable_loop log i = log"
      using less.prems by (intro stable_loop_stop) auto
    then show ?thesis using False less.prems by auto
  qed
qed

section \<open>Appending\<close>

lemma append_command_eq:
  assumes m: "max_entries (sm_log p) = MAX_CONSENSUS_LOG" and le: "commit_idx (sm_log p) \<le> i"
    and i: "0 \<le> i" "i < 2147483648"
  shows "append_command now p data trm i =
    (let l = (sm_log p)\<lparr>log_entries := (log_entries (sm_log p))
               (i mod MAX_CONSENSUS_LOG \<mapsto> \<lparr>e_valid = 1, e_term = to_u32 trm, e_data = data\<rparr>)\<rparr>;
         l' = (if last_idx l < i then l\<lparr>last_idx := i\<rparr> else l)
     in (0, if i = 0 then p\<lparr>sm_log := l', ins_logger := log_event START_LOG_REP now (ins_logger p)\<rparr>
            else p\<lparr>sm_log := l'\<rparr>))"
proof -
  have b: "consensus_idx_to_buffer_idx (sm_log p) i = i mod MAX_CONSENSUS_LOG"
    by (rule con2buf_nonneg [OF m i])
  have nn: "\<not> i mod MAX_CONSENSUS_LOG < 0" by (simp add: MAX_CONSENSUS_LOG_def)
  have e: "e\<lparr>e_data := data, e_term := to_u32 trm, e_valid := 1\<rparr>
      = \<lparr>e_valid = 1, e_term = to_u32 trm, e_data = data\<rparr>" for e :: sm_log_entry
    by (cases e) simp
  show ?thesis
    unfolding append_command_def Let_def b set_entry_def e using le nn by simp
qed

lemma append_command_ok:
  assumes ok: "entries_ok (sm_log p)" and le: "commit_idx (sm_log p) \<le> i"
    and i: "0 \<le> i" "i < 2147483648"
  shows "fst (append_command now p data trm i) = 0"
    and "log_entries (sm_log (snd (append_command now p data trm i))) =
       (log_entries (sm_log p))(i mod MAX_CONSENSUS_LOG \<mapsto>
          \<lparr>e_valid = 1, e_term = to_u32 trm, e_data = data\<rparr>)"
    and "last_idx (sm_log (snd (append_command now p data trm i))) = max (last_idx (sm_log p)) i"
    and "entries_ok (sm_log (snd (append_command now p data trm i)))"
  using append_command_eq [OF _ le i, of now data trm] ok
  by (auto simp: entries_ok_def Let_def)

lemma append_command_frame:
  "commit_idx (sm_log (snd (append_command now p data trm i))) = commit_idx (sm_log p)"
  "stable_idx (sm_log (snd (append_command now p data trm i))) = stable_idx (sm_log p)"
  "last_applied (sm_log (snd (append_command now p data trm i))) = last_applied (sm_log p)"
  "max_entries (sm_log (snd (append_command now p data trm i))) = max_entries (sm_log p)"
  "next_retrans_req_idx (sm_log (snd (append_command now p data trm i))) =
     next_retrans_req_idx (sm_log p)"
  "con_term (snd (append_command now p data trm i)) = con_term p"
  "rxbuf (snd (append_command now p data trm i)) = rxbuf p"
  by (simp_all add: append_command_def Let_def set_entry_def)

lemma append_command_last_mono:
  "last_idx (sm_log p) \<le> last_idx (sm_log (snd (append_command now p data trm i)))"
  by (simp add: append_command_def Let_def set_entry_def)

lemma append_command_entries_ok:
  "entries_ok (sm_log p) \<Longrightarrow> entries_ok (sm_log (snd (append_command now p data trm i)))"
  by (auto simp: append_command_def Let_def set_entry_def entries_ok_def)

lemma append_command_committed:
  "i < commit_idx (sm_log p) \<Longrightarrow> append_command now p data trm i = (- EPROTO, p)"
  by (simp add: append_command_def)

section \<open>Committing and applying\<close>

text \<open>The commands at the consensus indices \<open>i, \<dots>, j\<close>, in order.\<close>

definition log_data :: "state_machine_cmd_log \<Rightarrow> int \<Rightarrow> int \<Rightarrow> chunk list" where
  "log_data log i j = map (\<lambda>k. e_data (log_at log k)) [i..j]"

lemma log_data_cong:
  assumes "\<And>b. e_data (entry_at log' b) = e_data (entry_at log b)" and "max_entries log' = max_entries log"
  shows "log_data log' i j = log_data log i j"
  using assms by (simp add: log_data_def log_at_def con2buf_cong [OF assms(2)])

lemma apply_one_ok:
  assumes m: "max_entries (sm_log p) = MAX_CONSENSUS_LOG" and rx: "rxbuf p = Some rx" "rb_ok rx"
    and room: "rb_room rx (Suc n)"
  shows "\<exists>p' rx'. apply_one p i = (0, p') \<and> rxbuf p' = Some rx' \<and> rb_ok rx' \<and> rb_room rx' n
     \<and> rb_list rx' = rb_list rx @ [e_data (log_at (sm_log p) i)]
     \<and> last_applied (sm_log p') = last_applied (sm_log p) + 1
     \<and> (\<forall>j k. log_data (sm_log p') j k = log_data (sm_log p) j k)"
proof -
  let ?b = "consensus_idx_to_buffer_idx (sm_log p) i"
  have nb: "?b \<noteq> -1" using con2buf_range [OF m, of i] by simp
  obtain rx1 where a: "append_rb (rxbuf p) (e_data (entry_at (sm_log p) ?b)) = (0, Some rx1)"
    and rx1: "rb_ok rx1" "rb_list rx1 = rb_list rx @ [e_data (entry_at (sm_log p) ?b)]" "rb_room rx1 n"
    using append_rb_wf [OF rx(2) room] rx(1) by metis
  let ?l = "set_entry ?b ((entry_at (sm_log p) ?b)\<lparr>e_valid := 0\<rparr>) (sm_log p)"
  let ?p' = "p\<lparr>rxbuf := Some rx1, sm_log := ?l\<lparr>last_applied := last_applied ?l + 1\<rparr>\<rparr>"
  have one: "apply_one p i = (0, ?p')" using nb a by (simp add: apply_one_def Let_def)
  have "e_data (entry_at (sm_log ?p') b') = e_data (entry_at (sm_log p) b')" for b'
    by (simp add: set_entry_def entry_at_def)
  then have "log_data (sm_log ?p') j k = log_data (sm_log p) j k" for j k
    by (rule log_data_cong) (simp add: set_entry_def)
  with one rx1 show ?thesis by (simp add: log_at_def set_entry_def)
qed

lemma apply_loop_spec:
  assumes "max_entries (sm_log p) = MAX_CONSENSUS_LOG" and "last_applied (sm_log p) = i - 1"
    and "rxbuf p = Some rx" and "rb_ok rx"
    and "rb_room rx (nat (commit_idx (sm_log p) + 1 - i))"
  shows "\<exists>p' rx'. apply_loop p i = (0, p') \<and> rxbuf p' = Some rx' \<and> rb_ok rx'
     \<and> rb_list rx' = rb_list rx @ log_data (sm_log p) i (commit_idx (sm_log p))
     \<and> last_applied (sm_log p') = max (i - 1) (commit_idx (sm_log p))
     \<and> commit_idx (sm_log p') = commit_idx (sm_log p) \<and> stable_idx (sm_log p') = stable_idx (sm_log p)
     \<and> last_idx (sm_log p') = last_idx (sm_log p)"
  using assms
proof (induction "nat (commit_idx (sm_log p) + 1 - i)" arbitrary: p i rx)
  case 0
  then show ?case by (subst apply_loop.simps) (simp add: log_data_def)
next
  case (Suc n)
  let ?c = "commit_idx (sm_log p)"
  have le: "i \<le> ?c" and n: "n = nat (?c + 1 - (i + 1))" using Suc.hyps(2) by simp_all
  obtain p1 rx1 where one: "apply_one p i = (0, p1)" and p1: "rxbuf p1 = Some rx1" "rb_ok rx1"
    "rb_room rx1 n" "rb_list rx1 = rb_list rx @ [e_data (log_at (sm_log p) i)]"
    "last_applied (sm_log p1) = i" "\<And>j k. log_data (sm_log p1) j k = log_data (sm_log p) j k"
    using apply_one_ok [OF Suc.prems(1,3,4), of n i] Suc.prems(2,5) Suc.hyps(2) by auto
  have fr: "commit_idx (sm_log p1) = ?c" "stable_idx (sm_log p1) = stable_idx (sm_log p)"
    "last_idx (sm_log p1) = last_idx (sm_log p)" "max_entries (sm_log p1) = MAX_CONSENSUS_LOG"
    using apply_one_frame [of p i] one Suc.prems(1) by simp_all
  have step: "apply_loop p i = apply_loop p1 (i + 1)"
    using le one by (subst apply_loop.simps) simp
  have data: "log_data (sm_log p) i ?c = e_data (log_at (sm_log p) i) # log_data (sm_log p) (i + 1) ?c"
    using le by (simp add: log_data_def upto_rec1)
  have "\<exists>p' rx'. apply_loop p1 (i + 1) = (0, p') \<and> rxbuf p' = Some rx' \<and> rb_ok rx'
     \<and> rb_list rx' = rb_list rx1 @ log_data (sm_log p1) (i + 1) (commit_idx (sm_log p1))
     \<and> last_applied (sm_log p') = max (i + 1 - 1) (commit_idx (sm_log p1))
     \<and> commit_idx (sm_log p') = commit_idx (sm_log p1) \<and> stable_idx (sm_log p') = stable_idx (sm_log p1)
     \<and> last_idx (sm_log p') = last_idx (sm_log p1)"
    by (rule Suc.hyps(1)) (use p1 fr n in simp_all)
  then show ?case unfolding step data using p1 fr le by simp
qed

text \<open>The index chain every follower maintains.\<close>

definition log_chain :: "state_machine_cmd_log \<Rightarrow> bool" where
  "log_chain log \<longleftrightarrow> -1 \<le> last_applied log \<and> last_applied log \<le> commit_idx log
     \<and> commit_idx log \<le> stable_idx log \<and> stable_idx log \<le> last_idx log"

lemma log_at_commit_upd [simp]: "log_at (log\<lparr>commit_idx := c\<rparr>) i = log_at log i"
  by (simp add: log_at_def entry_at_def consensus_idx_to_buffer_idx_def)

lemma log_data_commit_upd [simp]: "log_data (log\<lparr>commit_idx := c\<rparr>) i j = log_data log i j"
  by (simp add: log_data_def)

lemma apply_log_to_sm_spec:
  assumes "max_entries (sm_log p) = MAX_CONSENSUS_LOG" and "rxbuf p = Some rx" and "rb_ok rx"
    and "rb_room rx (nat (commit_idx (sm_log p) - last_applied (sm_log p)))"
  shows "\<exists>p' rx'. apply_log_to_sm now p = (0, p') \<and> rxbuf p' = Some rx' \<and> rb_ok rx'
     \<and> rb_list rx' = rb_list rx @
         log_data (sm_log p) (last_applied (sm_log p) + 1) (commit_idx (sm_log p))
     \<and> last_applied (sm_log p') = max (last_applied (sm_log p)) (commit_idx (sm_log p))
     \<and> commit_idx (sm_log p') = commit_idx (sm_log p) \<and> stable_idx (sm_log p') = stable_idx (sm_log p)
     \<and> last_idx (sm_log p') = last_idx (sm_log p)"
proof -
  obtain t where "apply_log_to_sm now p =
      apply_loop (p\<lparr>throughput_logger := t\<rparr>) (last_applied (sm_log p) + 1)"
    using assms(2) by (simp add: apply_log_to_sm_def get_rx_buffer_def Let_def)
  then show ?thesis
    using apply_loop_spec [of "p\<lparr>throughput_logger := t\<rparr>" "last_applied (sm_log p) + 1" rx] assms
    by (simp add: algebra_simps)
qed

text \<open>C6: Committing up to an index that is stable delivers exactly the commands after the last applied
  one, in log order, each once, to the application's ring buffer, and moves the commit and the
  applied index there.\<close>

theorem commit_delivers:
  assumes "max_entries (sm_log p) = MAX_CONSENSUS_LOG" and "rxbuf p = Some rx" and "rb_ok rx"
    and chain: "log_chain (sm_log p)" and c: "commit_idx (sm_log p) < c" "c \<le> stable_idx (sm_log p)"
    and "rb_room rx (nat (c - last_applied (sm_log p)))"
  shows "\<exists>rx'. rxbuf (commit_log_priv 0 now p c) = Some rx' \<and> rb_ok rx'
     \<and> rb_list rx' = rb_list rx @ log_data (sm_log p) (last_applied (sm_log p) + 1) c
     \<and> last_applied (sm_log (commit_log_priv 0 now p c)) = c
     \<and> commit_idx (sm_log (commit_log_priv 0 now p c)) = c
     \<and> log_chain (sm_log (commit_log_priv 0 now p c))"
proof -
  let ?p = "p\<lparr>sm_log := (sm_log p)\<lparr>commit_idx := c\<rparr>\<rparr>"
  obtain p' rx' where a: "apply_log_to_sm now ?p = (0, p')" "rxbuf p' = Some rx'" "rb_ok rx'"
    "rb_list rx' = rb_list rx @ log_data (sm_log p) (last_applied (sm_log p) + 1) c"
    "last_applied (sm_log p') = max (last_applied (sm_log p)) c"
    "commit_idx (sm_log p') = c" "stable_idx (sm_log p') = stable_idx (sm_log p)"
    "last_idx (sm_log p') = last_idx (sm_log p)"
    using apply_log_to_sm_spec [of ?p rx now] assms by auto
  then have "commit_log_priv 0 now p c =
      p'\<lparr>ins_logger := log_event GOT_CONSENSUS_ON_VALUE now (ins_logger p')\<rparr>"
    using c by (simp add: commit_log_priv_def)
  with a chain c show ?thesis by (simp add: log_chain_def)
qed

theorem commit_delivers_witness:
  "\<exists>rx'. rxbuf (commit_log_priv 0 5 (sample_con FOLLOWER 1) 1) = Some rx' \<and> rb_ok rx'
     \<and> rb_list rx' = [replicate 8 0, replicate 8 1]
     \<and> last_applied (sm_log (commit_log_priv 0 5 (sample_con FOLLOWER 1) 1)) = 1
     \<and> commit_idx (sm_log (commit_log_priv 0 5 (sample_con FOLLOWER 1) 1)) = 1
     \<and> log_chain (sm_log (commit_log_priv 0 5 (sample_con FOLLOWER 1) 1))"
proof -
  let ?p = "sample_con FOLLOWER 1" and ?rx = "sample_ring sizeof_asg_ring_buf"
  have "log_data (sm_log ?p) (last_applied (sm_log ?p) + 1) 1 = [replicate 8 0, replicate 8 1]"
    by (simp add: sample log_data_def log_at_def entry_at_def con2buf upto.simps ASG_CHUNK_SIZE_def
        MAX_CONSENSUS_LOG_def consensus_idx_to_buffer_idx_def)
  moreover have "rb_list ?rx = []" by (simp add: sample rb_list_def)
  ultimately show ?thesis
    using commit_delivers [of ?p ?rx 1 5]
    by (simp add: sample log_chain_def rb_ok_def rb_room_def sizeof_asg_ring_buf_def
        ASG_RING_BUF_SIZE_LIMIT_def ASG_CHUNK_SIZE_def)
qed

text \<open>Whatever the ring buffer does, committing keeps the chain.\<close>

lemma apply_one_applied:
  "last_applied (sm_log (snd (apply_one p i))) =
     (if fst (apply_one p i) = 0 then last_applied (sm_log p) + 1 else last_applied (sm_log p))"
  "entries_ok (sm_log p) \<Longrightarrow> entries_ok (sm_log (snd (apply_one p i)))"
  by (auto simp: apply_one_def Let_def set_entry_def entries_ok_def split_beta)

lemma apply_loop_chain:
  assumes "last_applied (sm_log p) = i - 1" and "i - 1 \<le> commit_idx (sm_log p)"
  shows "i - 1 \<le> last_applied (sm_log (snd (apply_loop p i)))
     \<and> last_applied (sm_log (snd (apply_loop p i))) \<le> commit_idx (sm_log p)
     \<and> commit_idx (sm_log (snd (apply_loop p i))) = commit_idx (sm_log p)
     \<and> stable_idx (sm_log (snd (apply_loop p i))) = stable_idx (sm_log p)
     \<and> last_idx (sm_log (snd (apply_loop p i))) = last_idx (sm_log p)
     \<and> max_entries (sm_log (snd (apply_loop p i))) = max_entries (sm_log p)
     \<and> (entries_ok (sm_log p) \<longrightarrow> entries_ok (sm_log (snd (apply_loop p i))))
     \<and> con_term (snd (apply_loop p i)) = con_term p"
  using assms
proof (induction "nat (commit_idx (sm_log p) + 1 - i)" arbitrary: p i)
  case 0
  then show ?case by (subst (1 2 3 4 5 6 7 8) apply_loop.simps) simp
next
  case (Suc n)
  let ?p1 = "snd (apply_one p i)"
  have le: "i \<le> commit_idx (sm_log p)" using Suc.hyps(2) by simp
  show ?case
  proof (cases "fst (apply_one p i) = 0")
    case False
    then have "apply_loop p i = apply_one p i" using le by (subst apply_loop.simps) simp
    then show ?thesis using Suc.prems False apply_one_frame [of p i] apply_one_applied [of p i] by simp
  next
    case True
    then have step: "apply_loop p i = apply_loop ?p1 (i + 1)"
      using le by (subst apply_loop.simps) simp
    note fr = apply_one_frame [of p i] apply_one_applied [of p i]
    have "n = nat (commit_idx (sm_log ?p1) + 1 - (i + 1))" and "last_applied (sm_log ?p1) = i + 1 - 1"
      and "i + 1 - 1 \<le> commit_idx (sm_log ?p1)"
      using Suc.hyps(2) Suc.prems True le fr by simp_all
    from Suc.hyps(1) [OF this] show ?thesis unfolding step using fr by simp
  qed
qed

lemma apply_log_chain:
  assumes "last_applied (sm_log p) \<le> commit_idx (sm_log p)"
  shows "last_applied (sm_log p) \<le> last_applied (sm_log (snd (apply_log_to_sm now p)))
     \<and> last_applied (sm_log (snd (apply_log_to_sm now p))) \<le> commit_idx (sm_log p)
     \<and> commit_idx (sm_log (snd (apply_log_to_sm now p))) = commit_idx (sm_log p)
     \<and> stable_idx (sm_log (snd (apply_log_to_sm now p))) = stable_idx (sm_log p)
     \<and> last_idx (sm_log (snd (apply_log_to_sm now p))) = last_idx (sm_log p)
     \<and> max_entries (sm_log (snd (apply_log_to_sm now p))) = max_entries (sm_log p)
     \<and> (entries_ok (sm_log p) \<longrightarrow> entries_ok (sm_log (snd (apply_log_to_sm now p))))
     \<and> con_term (snd (apply_log_to_sm now p)) = con_term p"
proof (cases "rxbuf p")
  case None
  then show ?thesis using assms by (simp add: apply_log_to_sm_def get_rx_buffer_def Let_def)
next
  case (Some rx)
  then obtain t where "apply_log_to_sm now p =
      apply_loop (p\<lparr>throughput_logger := t\<rparr>) (last_applied (sm_log p) + 1)"
    by (simp add: apply_log_to_sm_def get_rx_buffer_def Let_def)
  then show ?thesis
    using apply_loop_chain [of "p\<lparr>throughput_logger := t\<rparr>" "last_applied (sm_log p) + 1"] assms
    by (simp add: Let_def)
qed

lemma commit_log_priv_chain:
  assumes "log_chain (sm_log p)"
  shows "log_chain (sm_log (commit_log_priv 0 now p c))"
    and "commit_idx (sm_log p) \<le> commit_idx (sm_log (commit_log_priv 0 now p c))"
    and "last_applied (sm_log p) \<le> last_applied (sm_log (commit_log_priv 0 now p c))"
    and "con_term (commit_log_priv 0 now p c) = con_term p"
    and "entries_ok (sm_log p) \<Longrightarrow> entries_ok (sm_log (commit_log_priv 0 now p c))"
  using assms apply_log_chain [of "p\<lparr>sm_log := (sm_log p)\<lparr>commit_idx := c\<rparr>\<rparr>" now]
  by (auto simp: commit_log_priv_def log_chain_def split_beta Let_def entries_ok_def)

end
