(* ===== verification/AsgPktQueue.thy ===== *)
theory AsgPktQueue
  imports AsgSample
begin

text \<open>
  \<open>core/pktqueue.c\<close> and \<open>asgard_reserve_skb\<close> of \<open>lkm/asgard-net.c\<close>: the queue of asynchronous
  packets of a target, with its doorbell counter.  The intrusive list is the list of its packets.
\<close>

definition asgard_reserve_skb :: "int \<Rightarrow> byte list \<Rightarrow> skb" where
  "asgard_reserve_skb ip mac =
     \<lparr>skb_dst_ip = ip, skb_dst_mac = mac, skb_dport = 3319, skb_data = empty_payload\<rparr>"

definition ring_aa_doorbell :: "asgard_async_queue \<Rightarrow> asgard_async_queue" where
  "ring_aa_doorbell q = q\<lparr>doorbell := doorbell q + 1\<rparr>"

definition enqueue_async_pkt ::
  "asgard_async_queue option \<Rightarrow> asgard_async_pkt option \<Rightarrow> int \<times> asgard_async_queue option" where
  "enqueue_async_pkt qp ap =
     (case (qp, ap) of
        (Some q, Some a) \<Rightarrow> (0, Some (q\<lparr>async_pkts := async_pkts q @ [a]\<rparr>))
      | _ \<Rightarrow> (-1, qp))"

definition push_front_async_pkt ::
  "asgard_async_queue \<Rightarrow> asgard_async_pkt \<Rightarrow> int \<times> asgard_async_queue" where
  "push_front_async_pkt q a = (0, q\<lparr>async_pkts := a # async_pkts q\<rparr>)"

definition dequeue_async_pkt ::
  "asgard_async_queue \<Rightarrow> asgard_async_pkt option \<times> asgard_async_queue" where
  "dequeue_async_pkt q =
     (case async_pkts q of
        [] \<Rightarrow> (None, q)
      | a # as \<Rightarrow> (Some a, q\<lparr>async_pkts := as\<rparr>))"

definition create_async_pkt :: "int \<Rightarrow> int \<Rightarrow> byte list option \<Rightarrow> asgard_async_pkt" where
  "create_async_pkt ip port mac =
     \<lparr>ap_port = port, ap_dst_ip = ip, ap_payload = empty_payload,
      ap_skb = asgard_reserve_skb ip (the mac)\<rparr>"

definition init_asgard_async_queue ::
  "asgard_async_queue option \<Rightarrow> int \<times> asgard_async_queue option" where
  "init_asgard_async_queue qp =
     (case qp of None \<Rightarrow> (-1, None)
      | Some q \<Rightarrow> (0, Some (q\<lparr>doorbell := 0, async_pkts := []\<rparr>)))"

text \<open>\<open>async_clear_queue\<close> (\<open>replication.c\<close>).\<close>

definition async_clear_queue :: "asgard_async_queue option \<Rightarrow> asgard_async_queue option" where
  "async_clear_queue qp =
     (case qp of None \<Rightarrow> None
      | Some q \<Rightarrow> if doorbell q \<le> 0 then Some q else Some (q\<lparr>async_pkts := []\<rparr>))"

section \<open>The queue contract\<close>

definition aq_enq :: "asgard_async_pkt \<Rightarrow> asgard_async_queue \<Rightarrow> asgard_async_queue" where
  "aq_enq a q = the (snd (enqueue_async_pkt (Some q) (Some a)))"

definition aq_push :: "asgard_async_pkt \<Rightarrow> asgard_async_queue \<Rightarrow> asgard_async_queue" where
  "aq_push a q = snd (push_front_async_pkt q a)"

definition aq_ok :: "asgard_async_queue \<Rightarrow> bool" where
  "aq_ok q \<longleftrightarrow> True"

definition aq_room :: "asgard_async_queue \<Rightarrow> nat \<Rightarrow> bool" where
  "aq_room q n \<longleftrightarrow> True"

interpretation aq: deque aq_enq dequeue_async_pkt async_pkts aq_ok aq_room aq_push
  by unfold_locales
    (auto simp: aq_enq_def aq_push_def aq_ok_def aq_room_def enqueue_async_pkt_def
      push_front_async_pkt_def dequeue_async_pkt_def)

text \<open>Every queued packet rings the bell once: the doorbell counts the queued packets.\<close>

definition bell_ok :: "asgard_async_queue \<Rightarrow> bool" where
  "bell_ok q \<longleftrightarrow> doorbell q = int (length (async_pkts q))"

lemma bell_ok_enqueue: "bell_ok q \<Longrightarrow> bell_ok (ring_aa_doorbell (aq_enq a q))"
  by (simp add: bell_ok_def ring_aa_doorbell_def aq_enq_def enqueue_async_pkt_def)

lemma bell_ok_push: "bell_ok q \<Longrightarrow> bell_ok (ring_aa_doorbell (aq_push a q))"
  by (simp add: bell_ok_def ring_aa_doorbell_def aq_push_def push_front_async_pkt_def)

lemma bell_ok_dequeue:
  assumes "bell_ok q" and "doorbell q > 0"
  shows "\<exists>a q'. dequeue_async_pkt q = (Some a, q') \<and> bell_ok (q'\<lparr>doorbell := doorbell q' - 1\<rparr>)"
  using assms by (cases "async_pkts q") (auto simp: bell_ok_def dequeue_async_pkt_def)

lemma clear_breaks_bell:
  assumes "bell_ok q" and "async_pkts q \<noteq> []"
  shows "\<exists>q'. async_clear_queue (Some q) = Some q' \<and> async_pkts q' = [] \<and> doorbell q' = doorbell q
     \<and> \<not> bell_ok q'"
  using assms by (auto simp: async_clear_queue_def bell_ok_def)

end
