(* ===== verification/AsgPayload.thy ===== *)
theory AsgPayload
  imports AsgKVStore AsgPktQueue
begin

text \<open>
  \<open>core/payload.c\<close>: the construction of append-entries messages (\<open>set_ae_data\<close>,
  \<open>setup_append_msg\<close>, \<open>setup_append_multicast_msg\<close>), and the index queries of
  \<open>core/replication.c\<close> it uses.  The \<open>next_lock\<close> critical section is one atomic step.
\<close>

definition check_target_id :: "asgard_device \<Rightarrow> int \<Rightarrow> bool" where
  "check_target_id d target_id =
     (if target_id < 0 then False
      else if target_id > int (targets d) then False
      else True)"

definition get_match_idx :: "asgard_device \<Rightarrow> int \<Rightarrow> int" where
  "get_match_idx d target_id =
     (if check_target_id d target_id then match_index (the_log d) (nat target_id) else -1)"

definition get_next_idx :: "asgard_device \<Rightarrow> int \<Rightarrow> int" where
  "get_next_idx d target_id =
     (if check_target_id d target_id then
        let nidx = next_index (the_log d) (nat target_id)
        in if nidx > last_idx (the_log d) then -2 else nidx
      else -2)"

text \<open>The copy loop of \<open>set_ae_data\<close>: \<open>n\<close> iterations from index \<open>i\<close>, writing at \<open>cur\<close>.\<close>

fun ae_copy :: "nat \<Rightarrow> state_machine_cmd_log \<Rightarrow> int \<Rightarrow> mem \<Rightarrow> nat \<Rightarrow> mem" where
  "ae_copy 0 log i m cur = m"
| "ae_copy (Suc n) log i m cur =
     (let buf_idx = consensus_idx_to_buffer_idx log i
      in if buf_idx < 0 then m
         else (case log_entries log buf_idx of
                 None \<Rightarrow> m
               | Some e \<Rightarrow> ae_copy n log (i + 1) (st_bytes m cur (take ASG_CHUNK_SIZE (e_data e)))
                             (cur + ASG_CHUNK_SIZE)))"

definition set_ae_data ::
  "mem \<Rightarrow> nat \<Rightarrow> int \<Rightarrow> int \<Rightarrow> int \<Rightarrow> int \<Rightarrow> int \<Rightarrow> state_machine_cmd_log \<Rightarrow> int \<Rightarrow> mem" where
  "set_ae_data m pkt in_term in_leader_id first_idx in_prevLogTerm in_leaderCommitIdx log num_of_entries =
     (let m = st_u16 m (pkt + 2 + 2) (opcode_num APPEND);
          m = st_u32 m (pkt + 4 + 2) (to_u32 in_term);
          m = st_u32 m (pkt + 6 + 4) (to_u32 in_leader_id);
          m = st_u32 m (pkt + 10 + 4) (to_s32 (first_idx - 1));
          m = st_u32 m (pkt + 14 + 4) (to_u32 in_prevLogTerm);
          m = st_u32 m (pkt + 22 + 4) (to_u32 num_of_entries);
          m = st_u32 m (pkt + 18 + 4) (to_s32 in_leaderCommitIdx)
      in if num_of_entries = 0 then m
         else if first_idx > last_idx log then st_u32 m (pkt + 22 + 4) 0
         else if first_idx + (num_of_entries - 1) > last_idx log then st_u32 m (pkt + 22 + 4) 0
         else ae_copy (nat num_of_entries) log first_idx m (CON_PROTO_ENTRIES_START pkt))"

text \<open>\<open>setup_append_msg\<close> returns its status, the device and the message payload.\<close>

definition setup_append_msg ::
  "asgard_device \<Rightarrow> asgard_payload \<Rightarrow> int \<Rightarrow> int \<Rightarrow> int \<Rightarrow> int \<Rightarrow> int \<times> asgard_device \<times> asgard_payload" where
  "setup_append_msg d0 spay inst target_id next_index0 retrans =
     (let (local_last_idx, priv) = get_last_idx_safe (con d0);
          d = d0\<lparr>con := priv\<rparr>;
          nidx = (if retrans = 0 then get_next_idx d target_id else next_index0)
      in if retrans = 0 \<and> nidx = -2 then (-2, d, spay)
         else if nidx = -1 then (-1, d, spay)
         else
           let prev_log_term = get_prev_log_term (con d) (nidx - 1)
           in if prev_log_term < 0 then (-1, d, spay)
              else
                let leader_commit_idx = commit_idx (the_log d)
                in if local_last_idx \<ge> nidx then
                     let (num_entries, more) =
                           (if max_entries_per_pkt (con d) < local_last_idx - nidx + 1
                            then (max_entries_per_pkt (con d), 1)
                            else (local_last_idx - nidx + 1, 0 :: int))
                     in if num_entries \<le> 0 then (-1, d, spay)
                        else
                          let d1 = (if retrans = 0
                                then upd_log (\<lambda>l. l\<lparr>next_index := (next_index l)
                                       (nat target_id := next_index l (nat target_id) + num_entries)\<rparr>) d
                                else d)
                          in (case asgard_reserve_proto (to_u16 inst) (Some spay)
                                     (to_u16 (ASGARD_PROTO_CON_AE_BASE_SZ + num_entries * AE_ENTRY_SIZE)) of
                                None \<Rightarrow> (-1, d1, spay)
                              | Some (off, spay1) \<Rightarrow>
                                  (more, d1, spay1\<lparr>proto_data := set_ae_data (proto_data spay1) off
                                     (con_term (con d1)) (node_id (con d1)) nidx prev_log_term
                                     leader_commit_idx (the_log d1) num_entries\<rparr>))
                   else (-2, d, spay))"

definition setup_append_multicast_msg ::
  "asgard_device \<Rightarrow> asgard_payload \<Rightarrow> int \<times> asgard_device \<times> asgard_payload" where
  "setup_append_multicast_msg d0 spay =
     (let (local_last_idx, priv) = get_last_idx_safe (con d0);
          d = d0\<lparr>con := priv\<rparr>
      in if mc_nextIdx (mc d) = -1 then (-1, d, spay)
         else
           let prev_log_term = get_prev_log_term (con d) (mc_nextIdx (mc d) - 1)
           in if prev_log_term < 0 then (-1, d, spay)
              else
                let nidx = mc_nextIdx (mc d)
                in if local_last_idx \<ge> nidx then
                     let (num_entries, more) =
                           (if max_entries_per_pkt (con d) < local_last_idx - nidx + 1
                            then (max_entries_per_pkt (con d), 1)
                            else (local_last_idx - nidx + 1, 0 :: int))
                     in if num_entries \<le> 0 then (-1, d, spay)
                        else
                          (case asgard_reserve_proto (to_u16 (instance_id (con d))) (Some spay)
                                  (to_u16 (ASGARD_PROTO_CON_AE_BASE_SZ + num_entries * AE_ENTRY_SIZE)) of
                             None \<Rightarrow> (-1, d, spay)
                           | Some (off, spay1) \<Rightarrow>
                               let leader_commit_idx = nidx + num_entries - 1;
                                   spay2 = spay1\<lparr>proto_data := set_ae_data (proto_data spay1) off
                                     (con_term (con d)) (node_id (con d)) nidx prev_log_term
                                     leader_commit_idx (the_log d) num_entries\<rparr>;
                                   d1 = d\<lparr>mc := (mc d)\<lparr>mc_nextIdx := mc_nextIdx (mc d) + num_entries\<rparr>\<rparr>;
                                   d2 = upd_log (\<lambda>l. l\<lparr>commit_idx := commit_idx l + (num_entries - 1)\<rparr>) d1
                               in (more, d2, spay2))
                   else (-2, d, spay))"

section \<open>The append-entries message\<close>

text \<open>Well-formed logs hold eight-byte commands.\<close>

definition chunks_ok :: "state_machine_cmd_log \<Rightarrow> bool" where
  "chunks_ok log \<longleftrightarrow> entries_ok log \<and>
     (\<forall>b. 0 \<le> b \<and> b < MAX_CONSENSUS_LOG \<longrightarrow> length (e_data (entry_at log b)) = ASG_CHUNK_SIZE)"

lemma chunks_ok_log_at: "chunks_ok log \<Longrightarrow> length (e_data (log_at log i)) = ASG_CHUNK_SIZE"
  using con2buf_range [of log i] by (simp add: chunks_ok_def entries_ok_def log_at_def)

lemma ae_copy_step:
  assumes "chunks_ok log"
  shows "ae_copy (Suc n) log i m cur =
    ae_copy n log (i + 1) (st_bytes m cur (e_data (log_at log i))) (cur + ASG_CHUNK_SIZE)"
proof -
  have m: "max_entries log = MAX_CONSENSUS_LOG" and
    e: "0 \<le> b \<Longrightarrow> b < MAX_CONSENSUS_LOG \<Longrightarrow> log_entries log b = Some (entry_at log b)" for b
    using assms by (auto simp: chunks_ok_def entries_ok_def entry_at_def)
  show ?thesis
    using con2buf_range [OF m, of i] e [of "consensus_idx_to_buffer_idx log i"]
      chunks_ok_log_at [OF assms, of i]
    by (simp add: Let_def log_at_def)
qed

lemma ae_copy_frame:
  "chunks_ok log \<Longrightarrow> x < cur \<or> cur + n * ASG_CHUNK_SIZE \<le> x \<Longrightarrow> ae_copy n log i m cur x = m x"
  by (induction n arbitrary: i m cur)
    (auto simp: ae_copy_step chunks_ok_log_at st_bytes_other simp del: ae_copy.simps(2))

lemma ae_copy_data:
  "chunks_ok log \<Longrightarrow> k < n \<Longrightarrow>
     ld_bytes ASG_CHUNK_SIZE (ae_copy n log i m cur) (cur + k * ASG_CHUNK_SIZE)
       = e_data (log_at log (i + int k))"
proof (induction n arbitrary: i m cur k)
  case (Suc n)
  let ?d = "e_data (log_at log i)"
  let ?m1 = "st_bytes m cur ?d"
  have len: "length ?d = ASG_CHUNK_SIZE" by (rule chunks_ok_log_at [OF Suc.prems(1)])
  note step = ae_copy_step [OF Suc.prems(1)]
  show ?case
  proof (cases k)
    case 0
    have "ld_bytes (length ?d) (ae_copy n log (i + 1) ?m1 (cur + ASG_CHUNK_SIZE)) cur
        = ld_bytes (length ?d) ?m1 cur"
      unfolding ld_bytes_def
      by (rule map_cong) (auto simp: len intro: ae_copy_frame [OF Suc.prems(1)])
    also have "\<dots> = ?d" by simp
    finally show ?thesis using 0 step len by (simp del: ae_copy.simps)
  next
    case (Suc k')
    then have "k' < n" using \<open>k < Suc n\<close> by simp
    from Suc.IH [OF Suc.prems(1) this, of "i + 1" ?m1 "cur + ASG_CHUNK_SIZE"]
    show ?thesis using Suc step by (simp add: algebra_simps del: ae_copy.simps)
  qed
qed simp

lemma ld_ae_copy:
  assumes "chunks_ok log" and "b + 4 \<le> cur"
  shows "ld_u32 (ae_copy n log i m cur) b = ld_u32 m b"
    and "ld_s32 (ae_copy n log i m cur) b = ld_s32 m b"
    and "ld_u16 (ae_copy n log i m cur) b = ld_u16 m b"
proof -
  have "k \<le> 4 \<Longrightarrow> ld_le k (ae_copy n log i m cur) b = ld_le k m b" for k
    by (rule ld_le_cong, rule ae_copy_frame [OF assms(1)]) (use assms(2) in auto)
  then show "ld_u32 (ae_copy n log i m cur) b = ld_u32 m b"
    "ld_s32 (ae_copy n log i m cur) b = ld_s32 m b" "ld_u16 (ae_copy n log i m cur) b = ld_u16 m b"
    by (simp_all add: ld_defs)
qed

text \<open>What the receiver reads out of a message built by \<open>set_ae_data\<close>.\<close>

lemma set_ae_data_fields:
  assumes log: "chunks_ok log" and n: "0 < n" "n < 4294967296"
    and i: "0 \<le> i" "i + (n - 1) \<le> last_idx log" "last_idx log < 2147483648"
    and m': "m' = set_ae_data m pkt trm lid i ptrm lci log n"
  shows "GET_CON_PROTO_OPCODE_VAL m' pkt = opcode_num APPEND"
    and "GET_CON_AE_TERM_VAL m' pkt = to_u32 trm"
    and "GET_CON_AE_LEADER_ID_VAL m' pkt = to_u32 lid"
    and "GET_CON_AE_PREV_LOG_IDX_VAL m' pkt = i - 1"
    and "GET_CON_AE_PREV_LOG_TERM_VAL m' pkt = to_u32 ptrm"
    and "GET_CON_AE_PREV_LEADER_COMMIT_IDX_VAL m' pkt = to_s32 lci"
    and "GET_CON_AE_NUM_ENTRIES_VAL m' pkt = n"
    and "GET_PROTO_OFFSET_VAL m' pkt = GET_PROTO_OFFSET_VAL m pkt"
    and "k < nat n \<Longrightarrow> ld_bytes ASG_CHUNK_SIZE m' (CON_PROTO_ENTRIES_START pkt + k * ASG_CHUNK_SIZE)
           = e_data (log_at log (i + int k))"
  using ae_copy_data [OF log, of k "nat n" i _ "CON_PROTO_ENTRIES_START pkt"] n i
  by (simp_all add: m' set_ae_data_def Let_def get_defs ld_ae_copy [OF log])

text \<open>The area reserved for a message of \<open>n\<close> entries ends ten bytes before the entries do: the
  last entry always lies outside its area.\<close>

lemma ae_area_short:
  assumes "0 < n"
  shows "int pkt + (ASGARD_PROTO_CON_AE_BASE_SZ + n * AE_ENTRY_SIZE) + 2 =
     int (CON_PROTO_ENTRIES_START pkt) + (n - 1) * int ASG_CHUNK_SIZE"
  by (simp add: size_defs CON_PROTO_ENTRIES_START_def ASG_CHUNK_SIZE_def)

section \<open>The replication window\<close>

lemma get_last_idx_safe_id: "-1 \<le> last_idx (sm_log p) \<Longrightarrow> get_last_idx_safe p = (last_idx (sm_log p), p)"
  by (simp add: get_last_idx_safe_def Let_def)

definition ae_count :: "asgard_device \<Rightarrow> int \<Rightarrow> int" where
  "ae_count d i = min (max_entries_per_pkt (con d)) (last_idx (the_log d) - i + 1)"

lemma setup_append_msg_cases:
  assumes last: "-1 \<le> last_idx (the_log d)"
    and nidx: "nidx = (if retrans = 0 then get_next_idx d t else nx)"
    and pre: "0 \<le> nidx" "nidx \<le> last_idx (the_log d)" "0 < max_entries_per_pkt (con d)"
      "max_entries_per_pkt (con d) \<le> MAX_AE_ENTRIES_PER_PKT"
      "0 \<le> get_prev_log_term (con d) (nidx - 1)"
  shows "setup_append_msg d (empty_payload) inst t nx retrans =
    (if nidx + ae_count d nidx \<le> last_idx (the_log d) then 1 else 0,
     if retrans = 0 then upd_log (\<lambda>l. l\<lparr>next_index := (next_index l)
        (nat t := next_index l (nat t) + ae_count d nidx)\<rparr>) d else d,
     \<lparr>protocols_included = 1, proto_data =
        set_ae_data (st_u16 (st_u16 (\<lambda>_. 0) 0 (to_u16 inst)) 2
            (ASGARD_PROTO_CON_AE_BASE_SZ + ae_count d nidx * AE_ENTRY_SIZE)) 0
          (con_term (con d)) (node_id (con d)) nidx (get_prev_log_term (con d) (nidx - 1))
          (commit_idx (the_log d)) (the_log d) (ae_count d nidx)\<rparr>)"
proof -
  have c: "0 < ae_count d nidx" "ae_count d nidx \<le> 100"
    using pre by (auto simp: ae_count_def size_defs)
  have res: "asgard_reserve_proto (to_u16 inst) (Some empty_payload)
      (to_u16 (ASGARD_PROTO_CON_AE_BASE_SZ + ae_count d nidx * AE_ENTRY_SIZE)) =
     Some (0, \<lparr>protocols_included = 1, proto_data = st_u16 (st_u16 (\<lambda>_. 0) 0 (to_u16 inst)) 2
       (ASGARD_PROTO_CON_AE_BASE_SZ + ae_count d nidx * AE_ENTRY_SIZE)\<rparr>)"
    using c by (simp add: asgard_reserve_proto_def empty_payload_def size_defs numeral_2_eq_2)
  have more: "(if max_entries_per_pkt (con d) < last_idx (the_log d) - nidx + 1
        then (max_entries_per_pkt (con d), 1) else (last_idx (the_log d) - nidx + 1, 0 :: int))
      = (ae_count d nidx, if nidx + ae_count d nidx \<le> last_idx (the_log d) then 1 else 0)"
    by (auto simp: ae_count_def)
  have con1: "con_term (con d') = con_term (con d)" "node_id (con d') = node_id (con d)"
    if "d' = upd_log (\<lambda>l. l\<lparr>next_index := f l\<rparr>) d" for d' f
    using that by simp_all
  have lg: "set_ae_data m pkt a b i p c (l\<lparr>next_index := f\<rparr>) n = set_ae_data m pkt a b i p c l n"
    for m pkt a b i p c l f n
  proof -
    have "ae_copy k (l\<lparr>next_index := f\<rparr>) i m cur = ae_copy k l i m cur" for k i m cur
      by (induction k arbitrary: i m cur)
        (auto simp: Let_def consensus_idx_to_buffer_idx_def split: option.splits)
    then show ?thesis by (simp add: set_ae_data_def Let_def)
  qed
  have conid: "d\<lparr>con := con d\<rparr> = d" by simp
  have ge: "(nidx \<le> last_idx (the_log d)) = True" "(nidx = -1) = False" "(nidx = -2) = False"
    "(get_prev_log_term (con d) (nidx - 1) < 0) = False" "(ae_count d nidx \<le> 0) = False"
    using pre c by simp_all
  note unf = setup_append_msg_def get_last_idx_safe_id [OF last] Let_def prod.case conid
  show ?thesis
  proof (cases "retrans = 0")
    case True
    with nidx have g: "get_next_idx d t = nidx" by simp
    have r: "(retrans = 0) = True" using True by simp
    show ?thesis unfolding unf r g if_True if_False simp_thms ge more prod.case res
      by (simp add: lg)
  next
    case False
    with nidx have g: "nx = nidx" by simp
    have r: "(retrans = 0) = False" using False by simp
    show ?thesis unfolding unf r g if_True if_False simp_thms ge more prod.case res
      by simp
  qed
qed

end
