(* ===== verification/AsgReplication.thy ===== *)
theory AsgReplication
  imports AsgPayload
begin

text \<open>
  \<open>core/replication.c\<close> and \<open>check_pending_log_rep_for_multicast\<close> (\<open>consensus.c\<close>): the scheduling of
  log replication.  A check of a target (\<open>check_pending_log_rep_for_target\<close>) puts a work item into
  the work queue; the work handler (\<open>prepare_log_replication\<close>) builds the message, queues the packet
  for the pacemaker and checks the target again.  An intrusive list of retransmission requests is
  the list of the requested indices.
\<close>

section \<open>Retransmission requests of a follower\<close>

text \<open>The scan of \<open>update_next_retransmission_request_idx\<close> from index \<open>i\<close> with the two result
  variables \<open>first_re_idx\<close> and \<open>cur_idx\<close>; \<open>None\<close> is the early return on a conversion error.  The
  fuel is the number of indices left (\<open>retrans_scan_fuel\<close>: more changes nothing).\<close>

fun retrans_scan :: "nat \<Rightarrow> consensus_priv \<Rightarrow> int \<Rightarrow> int \<Rightarrow> int \<Rightarrow> (int \<times> int) option" where
  "retrans_scan 0 priv i first_re cur = Some (first_re, cur)"
| "retrans_scan (Suc n) priv i first_re cur =
     (if \<not> i < last_idx (sm_log priv) then Some (first_re, cur)
      else if next_retrans_req_idx (sm_log priv) = i
      then retrans_scan n priv (i + (max_entries_per_pkt priv - 1) + 1) first_re cur
      else
        let cur_buf_idx = consensus_idx_to_buffer_idx (sm_log priv) i
        in if cur_buf_idx = -1 then None
           else if log_entries (sm_log priv) cur_buf_idx = None
           then (let first' = (if first_re = -2 then i else first_re)
                 in if next_retrans_req_idx (sm_log priv) = -2 then Some (first', i)
                    else if i > next_retrans_req_idx (sm_log priv) then Some (first', i)
                    else retrans_scan n priv (i + 1) first' i)
           else retrans_scan n priv (i + 1) first_re cur)"

definition update_next_retransmission_request_idx :: "consensus_priv \<Rightarrow> consensus_priv" where
  "update_next_retransmission_request_idx priv =
     (let log = sm_log priv
      in if last_idx log = -1 then priv
         else (case retrans_scan (nat (last_idx log - (stable_idx log + 1))) priv
                      (stable_idx log + 1) (-2) (-2) of
                 None \<Rightarrow> priv
               | Some (first_re, cur) \<Rightarrow>
                   priv\<lparr>sm_log := log\<lparr>next_retrans_req_idx :=
                     (if next_retrans_req_idx log < cur then cur else first_re)\<rparr>\<rparr>))"

section \<open>Preparing packets\<close>

text \<open>\<open>get_payload_ptr\<close> (\<open>lkm/asgard-net.c\<close>) is the payload inside the packet's socket buffer.\<close>

definition get_payload_ptr :: "asgard_async_pkt \<Rightarrow> asgard_payload" where
  "get_payload_ptr a = skb_data (ap_skb a)"

definition do_prepare_log_replication_multicast :: "asgard_device \<Rightarrow> int \<times> asgard_device" where
  "do_prepare_log_replication_multicast d =
     (if is_leader d = 0 then (-1, d)
      else
        let apkt = create_async_pkt (mc_dst_ip (mc d)) 0 (Some (mc_dst_mac (mc d)));
            (ret, d1, spay) = setup_append_multicast_msg d (get_payload_ptr apkt)
        in if ret < 0 then (ret, d1)
           else
             let a = apkt\<lparr>ap_skb := (ap_skb apkt)\<lparr>skb_data := spay\<rparr>\<rparr>;
                 q = aq_enq a (mc_aapriv (mc d1))
             in (ret, d1\<lparr>mc := (mc d1)\<lparr>mc_aapriv := ring_aa_doorbell q\<rparr>\<rparr>))"

text \<open>One iteration of the loop of \<open>do_prepare_log_replication\<close> over the protocol instances.\<close>

definition prepare_instance ::
  "nat \<Rightarrow> int \<Rightarrow> int \<Rightarrow> nat \<Rightarrow> int \<times> asgard_device \<Rightarrow> int \<times> asgard_device" where
  "prepare_instance target_id next_index0 retrans j = (\<lambda>(more, d).
     (case protos d j of
        None \<Rightarrow> (more, d)
      | Some ins \<Rightarrow>
          if proto_type ins \<noteq> ASGARD_PROTO_CONSENSUS then (more, d)
          else if nstate (con d) \<noteq> LEADER then (more, d)
          else
            let t = target d target_id;
                apkt = create_async_pkt (dst_ip t) (dst_port t) (dst_mac t);
                (ret, d1, spay) = setup_append_msg d (ap_payload apkt) (pi_instance_id ins)
                                    (int target_id) next_index0 retrans
            in if ret < 0 then (more, d1)
               else
                 let a = apkt\<lparr>ap_payload := spay\<rparr>;
                     d2 = upd_target target_id (\<lambda>t. t\<lparr>scheduled_log_replications :=
                            scheduled_log_replications t + 1\<rparr>) d1;
                     d3 = upd_target target_id (\<lambda>t. t\<lparr>aapriv := ring_aa_doorbell
                            (if retrans \<noteq> 0 then aq_push a (aapriv t) else aq_enq a (aapriv t))\<rparr>) d2
                 in (more + ret, d3)))"

definition do_prepare_log_replication ::
  "asgard_device \<Rightarrow> nat \<Rightarrow> int \<Rightarrow> int \<Rightarrow> int \<times> asgard_device" where
  "do_prepare_log_replication d target_id next_index0 retrans =
     (if is_leader d = 0 then (-1, d)
      else if alive (target d target_id) = 0 then (-1, d)
      else fold (prepare_instance target_id next_index0 retrans) [0..<num_of_proto_instances d] (0, d))"

text \<open>The \<open>do while (more > 0)\<close> loop of \<open>schedule_log_rep\<close>.\<close>

lemma get_prev_log_term_neg: "i < -1 \<Longrightarrow> get_prev_log_term p i = -1"
  by (simp add: get_prev_log_term_def)

lemma multicast_more:
  assumes run: "do_prepare_log_replication_multicast d = (m, d1)" and m: "m > 0"
  shows "nat (last_idx (the_log d1) + 1 - mc_nextIdx (mc d1)) <
         nat (last_idx (the_log d) + 1 - mc_nextIdx (mc d))"
proof -
  have ge: "0 \<le> mc_nextIdx (mc d)" if "\<not> get_prev_log_term p (mc_nextIdx (mc d) - 1) < 0"
    "mc_nextIdx (mc d) \<noteq> -1" for p
    using that get_prev_log_term_neg [of "mc_nextIdx (mc d) - 1" p] by linarith
  show ?thesis
    using run m
    by (auto simp: do_prepare_log_replication_multicast_def setup_append_multicast_msg_def Let_def
        get_last_idx_safe_def upd dest!: ge split: if_splits option.splits)
qed

function multicast_rep_loop :: "asgard_device \<Rightarrow> asgard_device" where
  "multicast_rep_loop d =
     (let (ret, d1) = do_prepare_log_replication_multicast d
      in if ret > 0 then multicast_rep_loop d1 else d1)"
  by auto
termination
  by (relation "measure (\<lambda>d. nat (last_idx (the_log d) + 1 - mc_nextIdx (mc d)))")
    (simp, metis in_measure multicast_more)

declare multicast_rep_loop.simps [simp del]

definition schedule_log_rep :: "asgard_device \<Rightarrow> nat \<Rightarrow> int \<Rightarrow> int \<Rightarrow> int \<Rightarrow> asgard_device" where
  "schedule_log_rep d target_id next_index0 retrans multicast_enabled =
     (if is_leader d = 0 then d
      else if pm_state (pm d) \<noteq> ASGARD_PM_EMITTING then d
      else if multicast_enabled > 0 then multicast_rep_loop d
      else d\<lparr>leader_wq := leader_wq d @
             [\<lparr>lw_target_id = target_id, lw_next_index = next_index0, lw_retrans = retrans\<rparr>]\<rparr>)"

text \<open>The result is the next index, the value of \<open>retrans\<close> and the device.\<close>

definition get_next_idx_for_target :: "asgard_device \<Rightarrow> nat \<Rightarrow> int \<times> int \<times> asgard_device" where
  "get_next_idx_for_target d target_id =
     (if retrans_entries (the_log d) target_id > 0 then
        (case retrans_list (the_log d) target_id of
           [] \<Rightarrow> (-1, 0, d)
         | req # reqs \<Rightarrow>
             (req, 1, upd_log (\<lambda>l. l\<lparr>
                retrans_entries := (retrans_entries l)(target_id := retrans_entries l target_id - 1),
                retrans_list := (retrans_list l)(target_id := reqs)\<rparr>) d))
      else (get_next_idx d (int target_id), 0, d))"

definition has_consensus :: "asgard_device \<Rightarrow> bool" where
  "has_consensus d = list_ex (\<lambda>j. case protos d j of None \<Rightarrow> False
     | Some ins \<Rightarrow> proto_type ins = ASGARD_PROTO_CONSENSUS) [0..<num_of_proto_instances d]"

definition check_pending_log_rep_for_target :: "nat \<Rightarrow> asgard_device \<Rightarrow> asgard_device" where
  "check_pending_log_rep_for_target target_id d =
     (if \<not> has_consensus d then d
      else if is_leader d = 0 then d
      else if pm_state (pm d) \<noteq> ASGARD_PM_EMITTING then d
      else
        let (nidx, retrans, d1) = get_next_idx_for_target d target_id
        in if nidx < 0 then d1
           else if nidx = get_match_idx d1 (int target_id) then d1
           else schedule_log_rep d1 target_id nidx retrans 0)"

definition check_pending_log_rep_for_multicast :: "asgard_device \<Rightarrow> asgard_device" where
  "check_pending_log_rep_for_multicast d =
     (if is_leader d = 0 then d
      else if pm_state (pm d) \<noteq> ASGARD_PM_EMITTING then d
      else if mc_nextIdx (mc d) < 0 then d
      else schedule_log_rep d 0 (mc_nextIdx (mc d)) 0 1)"

definition check_pending_log_rep :: "asgard_device \<Rightarrow> asgard_device" where
  "check_pending_log_rep d =
     (if is_leader d = 0 then d
      else if pm_state (pm d) \<noteq> ASGARD_PM_EMITTING then d
      else if mc_enable (mc d) \<noteq> 0 then check_pending_log_rep_for_multicast d
      else for_targets check_pending_log_rep_for_target d)"

text \<open>The handler of a work item, and one step of the work queue.\<close>

definition prepare_log_replication :: "leader_work \<Rightarrow> asgard_device \<Rightarrow> asgard_device" where
  "prepare_log_replication aw d =
     (let (ret, d1) = do_prepare_log_replication d (lw_target_id aw) (lw_next_index aw) (lw_retrans aw)
      in if ret < 0 then d1
         else if retrans_list (the_log d1) (lw_target_id aw) \<noteq> [] \<or> ret \<noteq> 0
         then check_pending_log_rep_for_target (lw_target_id aw) d1
         else d1)"

definition run_leader_work :: "asgard_device \<Rightarrow> asgard_device" where
  "run_leader_work d =
     (case leader_wq d of [] \<Rightarrow> d
      | aw # rest \<Rightarrow> prepare_log_replication aw (d\<lparr>leader_wq := rest\<rparr>))"

section \<open>The retransmission scan\<close>

lemma retrans_scan_fuel:
  "1 \<le> max_entries_per_pkt p \<Longrightarrow> nat (last_idx (sm_log p) - i) \<le> n \<Longrightarrow> n \<le> n' \<Longrightarrow>
     retrans_scan n' p i f c = retrans_scan n p i f c"
proof (induction n arbitrary: n' i f c)
  case 0
  then show ?case by (cases n') simp_all
next
  case (Suc n)
  then obtain k where n': "n' = Suc k" "n \<le> k" by (cases n') auto
  have IH: "retrans_scan k p j f c = retrans_scan n p j f c" if "i < j" "i < last_idx (sm_log p)" for j f c
    using Suc.IH [OF Suc.prems(1) _ n'(2), of j f c] Suc.prems(2) that by simp
  show ?case unfolding n'(1) using Suc.prems(1) by (simp add: IH Let_def)
qed

definition slot_missing :: "state_machine_cmd_log \<Rightarrow> int \<Rightarrow> bool" where
  "slot_missing log i \<longleftrightarrow> log_entries log (consensus_idx_to_buffer_idx log i) = None"

lemma retrans_scan_first:
  assumes "max_entries (sm_log p) = MAX_CONSENSUS_LOG" and "next_retrans_req_idx (sm_log p) = -2"
    and "0 \<le> i" and "nat (last_idx (sm_log p) - i) \<le> n"
  shows "retrans_scan n p i (-2) (-2) =
    Some (case find (slot_missing (sm_log p)) [i..last_idx (sm_log p) - 1] of
            Some j \<Rightarrow> (j, j) | None \<Rightarrow> (-2, -2))"
  using assms(3,4)
proof (induction n arbitrary: i)
  case 0
  then show ?case by simp
next
  case (Suc n)
  have nb: "consensus_idx_to_buffer_idx (sm_log p) i \<noteq> -1"
    using con2buf_range [OF assms(1), of i] by simp
  show ?case
  proof (cases "i < last_idx (sm_log p)")
    case True
    then have up: "[i..last_idx (sm_log p) - 1] = i # [i + 1..last_idx (sm_log p) - 1]"
      by (simp add: upto_rec1)
    show ?thesis using True nb Suc assms(2) by (simp add: up slot_missing_def Let_def)
  qed simp
qed

lemma update_next_retrans_first:
  assumes "max_entries (sm_log p) = MAX_CONSENSUS_LOG" and "next_retrans_req_idx (sm_log p) = -2"
    and "-1 \<le> stable_idx (sm_log p)"
  shows "next_retrans_req_idx (sm_log (update_next_retransmission_request_idx p)) =
    (case find (slot_missing (sm_log p)) [stable_idx (sm_log p) + 1..last_idx (sm_log p) - 1] of
       Some j \<Rightarrow> j | None \<Rightarrow> -2)"
proof (cases "find (slot_missing (sm_log p)) [stable_idx (sm_log p) + 1..last_idx (sm_log p) - 1]")
  case None
  then show ?thesis
    using assms retrans_scan_first [OF assms(1,2), of "stable_idx (sm_log p) + 1"]
    by (simp add: update_next_retransmission_request_idx_def Let_def)
next
  case (Some j)
  then have "stable_idx (sm_log p) + 1 \<le> j" "j < last_idx (sm_log p)"
    by (auto simp: find_Some_iff)
  then show ?thesis
    using Some assms retrans_scan_first [OF assms(1,2), of "stable_idx (sm_log p) + 1"]
    by (simp add: update_next_retransmission_request_idx_def Let_def)
qed

text \<open>Once every slot is allocated, as \<open>consensus_init\<close> does, no gap is ever found.\<close>

lemma update_next_retrans_never:
  assumes "entries_ok (sm_log p)" and "next_retrans_req_idx (sm_log p) = -2"
  shows "update_next_retransmission_request_idx p = p"
proof -
  have m: "max_entries (sm_log p) = MAX_CONSENSUS_LOG" using assms(1) by (simp add: entries_ok_def)
  have e: "log_entries (sm_log p) (consensus_idx_to_buffer_idx (sm_log p) i) \<noteq> None"
    "consensus_idx_to_buffer_idx (sm_log p) i \<noteq> -1" for i
    using assms(1) con2buf_range [OF m, of i] by (auto simp: entries_ok_def)
  have "retrans_scan n p i (-2) (-2) = Some (-2, -2)" for n i
    by (induction n arbitrary: i) (simp_all add: Let_def assms(2) e del: not_None_eq)
  then show ?thesis
    using assms(2) by (simp add: update_next_retransmission_request_idx_def Let_def)
qed

lemma update_next_retrans_frame:
  "sm_log (update_next_retransmission_request_idx p) =
     (sm_log p)\<lparr>next_retrans_req_idx := next_retrans_req_idx (sm_log (update_next_retransmission_request_idx p))\<rparr>"
  "con_term (update_next_retransmission_request_idx p) = con_term p"
  "rxbuf (update_next_retransmission_request_idx p) = rxbuf p"
  "nstate (update_next_retransmission_request_idx p) = nstate p"
  by (simp_all add: update_next_retransmission_request_idx_def Let_def split: option.splits prod.splits)

section \<open>Packets and doorbells\<close>

text \<open>The queues of a device: every queued packet has rung its bell.\<close>

definition bells_ok :: "asgard_device \<Rightarrow> bool" where
  "bells_ok d \<longleftrightarrow> (\<forall>i. bell_ok (aapriv (target d i))) \<and> bell_ok (mc_aapriv (mc d))"

lemma bells_ok_cong: "pm d' = pm d \<Longrightarrow> mc_aapriv (mc d') = mc_aapriv (mc d) \<Longrightarrow> bells_ok d' = bells_ok d"
  by (simp add: bells_ok_def)

lemma setup_append_msg_frame:
  assumes "\<And>p d. g (d\<lparr>con := p\<rparr>) = g d"
  shows "g (fst (snd (setup_append_msg d spay inst t nx rt))) = g d"
  unfolding setup_append_msg_def upd Let_def
  by (simp add: assms split: prod.split option.split)

lemma setup_append_msg_result:
  assumes "\<And>p d. g (d\<lparr>con := p\<rparr>) = g d" and "setup_append_msg d spay inst t nx rt = (r, d', spay')"
  shows "g d' = g d"
  using setup_append_msg_frame [of g d spay inst t nx rt] assms by simp

lemma setup_append_multicast_msg_frame:
  assumes "\<And>p d. g (d\<lparr>con := p\<rparr>) = g d" and "\<And>n d. g (d\<lparr>mc := (mc d)\<lparr>mc_nextIdx := n\<rparr>\<rparr>) = g d"
  shows "g (fst (snd (setup_append_multicast_msg d spay))) = g d"
  unfolding setup_append_multicast_msg_def upd Let_def
  by (simp add: assms split: prod.split option.split)

lemmas setup_append_msg_queues =
  setup_append_msg_frame [of pm] setup_append_msg_frame [of mc] setup_append_msg_frame [of is_leader]

lemmas setup_append_multicast_msg_queues =
  setup_append_multicast_msg_frame [of pm] setup_append_multicast_msg_frame [of "\<lambda>d. mc_aapriv (mc d)"]

lemma bells_ok_multicast:
  "bells_ok d \<Longrightarrow> bells_ok (snd (do_prepare_log_replication_multicast d))"
  by (auto simp: do_prepare_log_replication_multicast_def Let_def split_beta bells_ok_def
      setup_append_multicast_msg_queues bell_ok_enqueue)

lemma bells_ok_multicast_rep: "bells_ok d \<Longrightarrow> bells_ok (multicast_rep_loop d)"
proof (induction d rule: multicast_rep_loop.induct)
  case (1 d)
  obtain r d1 where r: "do_prepare_log_replication_multicast d = (r, d1)" by force
  then have "bells_ok d1" using bells_ok_multicast [OF 1(2)] by simp
  then show ?case using 1(1) [OF r [symmetric] refl] r
    by (subst multicast_rep_loop.simps) simp
qed

lemma bells_ok_prepare_instance:
  "bells_ok (snd x) \<Longrightarrow> bells_ok (snd (prepare_instance t nx rt j x))"
  using setup_append_msg_queues
  by (auto simp: prepare_instance_def Let_def split_beta bells_ok_def bell_ok_enqueue bell_ok_push upd
      split: option.splits)

lemma bells_ok_prepare:
  assumes "bells_ok d"
  shows "bells_ok (snd (do_prepare_log_replication d t nx rt))"
proof -
  have "bells_ok (snd (fold (prepare_instance t nx rt) js x))" if "bells_ok (snd x)" for js x
    using that by (induction js arbitrary: x) (simp_all add: bells_ok_prepare_instance)
  then show ?thesis using assms by (simp add: do_prepare_log_replication_def)
qed

lemma get_next_idx_for_target_queues:
  "pm (snd (snd (get_next_idx_for_target d t))) = pm d"
  "mc (snd (snd (get_next_idx_for_target d t))) = mc d"
  by (simp_all add: get_next_idx_for_target_def upd split: list.splits)

lemma bells_ok_schedule: "bells_ok d \<Longrightarrow> bells_ok (schedule_log_rep d t nx rt m)"
  by (simp add: schedule_log_rep_def bells_ok_multicast_rep) (simp add: bells_ok_def)

lemma bells_ok_check_target:
  assumes "bells_ok d"
  shows "bells_ok (check_pending_log_rep_for_target t d)"
proof -
  have "bells_ok (snd (snd (get_next_idx_for_target d t)))"
    using assms by (simp add: bells_ok_def get_next_idx_for_target_queues)
  then show ?thesis
    using assms by (simp add: check_pending_log_rep_for_target_def Let_def split_beta bells_ok_schedule)
qed

lemma bells_ok_check_pending: "bells_ok d \<Longrightarrow> bells_ok (check_pending_log_rep d)"
  by (simp add: check_pending_log_rep_def check_pending_log_rep_for_multicast_def bells_ok_schedule
      for_targets_inv [where P = bells_ok] bells_ok_check_target)

lemma bells_ok_work:
  assumes "bells_ok d"
  shows "bells_ok (run_leader_work d)"
proof (cases "leader_wq d")
  case (Cons aw rest)
  let ?d = "d\<lparr>leader_wq := rest\<rparr>"
  have "bells_ok ?d" using assms bells_ok_cong [of ?d d] by simp
  from bells_ok_prepare [OF this] show ?thesis
    using Cons
    by (simp add: run_leader_work_def prepare_log_replication_def split_beta bells_ok_check_target Let_def)
qed (use assms in \<open>simp add: run_leader_work_def\<close>)

section \<open>Draining the log to a target\<close>

text \<open>The commands of an append message, as its receiver reads them.\<close>

definition ae_cmds :: "mem \<Rightarrow> nat \<Rightarrow> chunk list" where
  "ae_cmds m p = map (\<lambda>k. ld_bytes ASG_CHUNK_SIZE m (CON_PROTO_ENTRIES_START p + k * ASG_CHUNK_SIZE))
     [0..<nat (GET_CON_AE_NUM_ENTRIES_VAL m p)]"

lemma set_ae_data_cmds:
  assumes "chunks_ok log" and n: "0 < n" "n < 4294967296"
    and i: "0 \<le> i" "i + (n - 1) \<le> last_idx log" "last_idx log < 2147483648"
  shows "ae_cmds (set_ae_data m pkt trm lid i ptrm lci log n) pkt = log_data log i (i + n - 1)"
proof -
  note f = set_ae_data_fields [OF assms refl]
  have up: "[i..i + n - 1] = map (\<lambda>k. i + int k) [0..<nat n]"
    using n by (intro nth_equalityI) (auto simp: nth_upto)
  show ?thesis
    unfolding ae_cmds_def log_data_def up f(7) map_map
    by (intro map_cong refl) (simp add: f(9))
qed

text \<open>The device has exactly one consensus instance, with the identifier \<open>inst\<close>.\<close>

definition con_only :: "asgard_device \<Rightarrow> int \<Rightarrow> bool" where
  "con_only d inst \<longleftrightarrow> (\<exists>j < num_of_proto_instances d.
     protos d j = Some \<lparr>pi_instance_id = inst, proto_type = ASGARD_PROTO_CONSENSUS\<rparr>
     \<and> (\<forall>k < num_of_proto_instances d. k \<noteq> j \<longrightarrow>
          (case protos d k of None \<Rightarrow> True | Some ins \<Rightarrow> proto_type ins \<noteq> ASGARD_PROTO_CONSENSUS)))"

lemma fold_ident: "(\<And>x s. x \<in> set xs \<Longrightarrow> f x s = s) \<Longrightarrow> fold f xs s = s"
  by (induction xs arbitrary: s) simp_all

lemma upt_split: "j < n \<Longrightarrow> [0..<n] = [0..<j] @ j # [Suc j..<n]"
  using upt_add_eq_append [of 0 j "n - j"] by (simp add: upt_conv_Cons)

lemma prepare_fold:
  assumes "con_only d inst"
    and fr: "\<And>j. protos (snd (prepare_instance t nx rt j (0, d))) = protos d"
  obtains j where "protos d j = Some \<lparr>pi_instance_id = inst, proto_type = ASGARD_PROTO_CONSENSUS\<rparr>"
    and "fold (prepare_instance t nx rt) [0..<num_of_proto_instances d] (0, d) =
      prepare_instance t nx rt j (0, d)"
proof -
  obtain j where j: "j < num_of_proto_instances d"
    "protos d j = Some \<lparr>pi_instance_id = inst, proto_type = ASGARD_PROTO_CONSENSUS\<rparr>"
    and others: "\<And>k. k < num_of_proto_instances d \<Longrightarrow> k \<noteq> j \<Longrightarrow>
      (case protos d k of None \<Rightarrow> True | Some ins \<Rightarrow> proto_type ins \<noteq> ASGARD_PROTO_CONSENSUS)"
    using assms(1) by (auto simp: con_only_def)
  have skip: "prepare_instance t nx rt k s = s"
    if "k < num_of_proto_instances d" "k \<noteq> j" "protos (snd s) = protos d" for k s
    using others [OF that(1,2)] that(3)
    by (cases s) (auto simp: prepare_instance_def split: option.splits)
  have skips: "fold (prepare_instance t nx rt) ks s = s"
    if "set ks \<subseteq> {k. k < num_of_proto_instances d \<and> k \<noteq> j}" "protos (snd s) = protos d" for ks s
    using that by (induction ks) (simp_all add: skip)
  have "fold (prepare_instance t nx rt) [0..<num_of_proto_instances d] (0, d) =
      prepare_instance t nx rt j (0, d)"
    using j(1) fr by (simp add: upt_split [OF j(1)] skips subset_iff)
  with j(2) show thesis by (rule that)
qed

lemma prepare_instance_protos: "protos (snd (prepare_instance t nx rt j (m, d))) = protos d"
  unfolding prepare_instance_def upd Let_def
  by (auto dest!: setup_append_msg_result [where g = protos, simplified] split: prod.split option.split)

text \<open>A leader with log entries left for target \<open>t\<close>, the next of them at index \<open>k\<close>, no retransmission
  pending, and a log that has not wrapped around its buffer.\<close>

definition sending :: "asgard_device \<Rightarrow> nat \<Rightarrow> int \<Rightarrow> bool" where
  "sending d t k \<longleftrightarrow> is_leader d \<noteq> 0 \<and> pm_state (pm d) = ASGARD_PM_EMITTING \<and> nstate (con d) = LEADER
     \<and> alive (target d t) \<noteq> 0 \<and> t < targets d \<and> (\<exists>inst. con_only d inst)
     \<and> next_index (the_log d) t = k \<and> 0 \<le> k \<and> match_index (the_log d) t < k
     \<and> retrans_entries (the_log d) t = 0 \<and> retrans_list (the_log d) t = []
     \<and> chunks_ok (the_log d) \<and> -1 \<le> last_idx (the_log d) \<and> last_idx (the_log d) < MAX_CONSENSUS_LOG
     \<and> (\<forall>b. 0 \<le> b \<longrightarrow> b \<le> last_idx (the_log d) \<longrightarrow>
          e_term (entry_at (the_log d) b) \<le> 2147483647 \<and> 0 \<le> e_term (entry_at (the_log d) b))
     \<and> 0 \<le> con_term (con d)
     \<and> 1 \<le> max_entries_per_pkt (con d) \<and> max_entries_per_pkt (con d) \<le> MAX_AE_ENTRIES_PER_PKT"

lemma sending_prev_term:
  assumes "sending d t k" and "k \<le> last_idx (the_log d)"
  shows "0 \<le> get_prev_log_term (con d) (k - 1)"
proof (cases "k = 0")
  case False
  let ?l = "the_log d"
  have k: "0 \<le> k - 1" "k - 1 < MAX_CONSENSUS_LOG" "k - 1 \<le> last_idx ?l"
    using assms False by (auto simp: sending_def)
  have m: "max_entries ?l = MAX_CONSENSUS_LOG" and e: "log_entries ?l (k - 1) = Some (entry_at ?l (k - 1))"
    using assms k by (auto simp: sending_def chunks_ok_def entries_ok_def entry_at_def)
  have "consensus_idx_to_buffer_idx ?l (k - 1) = k - 1"
    using con2buf_nonneg [OF m, of "k - 1"] k by (simp add: MAX_CONSENSUS_LOG_def)
  moreover have "0 \<le> e_term (entry_at ?l (k - 1))" "e_term (entry_at ?l (k - 1)) \<le> 2147483647"
    using assms k by (simp_all add: sending_def)
  then have "0 \<le> to_s32 (e_term (entry_at ?l (k - 1)))" by (simp add: cint)
  ultimately show ?thesis using e k by (simp add: get_prev_log_term_def)
qed (use assms in \<open>simp add: get_prev_log_term_def sending_def\<close>)

lemma check_pending_sending:
  assumes "sending d t k"
  shows "check_pending_log_rep_for_target t d =
    (if k \<le> last_idx (the_log d)
     then d\<lparr>leader_wq := leader_wq d @ [\<lparr>lw_target_id = t, lw_next_index = k, lw_retrans = 0\<rparr>]\<rparr> else d)"
proof -
  have "has_consensus d"
    using assms by (auto simp: sending_def con_only_def has_consensus_def list_ex_iff split: option.splits)
  then show ?thesis
    using assms
    by (auto simp: check_pending_log_rep_for_target_def get_next_idx_for_target_def get_next_idx_def
        get_match_idx_def check_target_id_def schedule_log_rep_def sending_def)
qed

text \<open>The payload of the packet with the window from \<open>k\<close> on.\<close>

definition append_payload :: "asgard_device \<Rightarrow> int \<Rightarrow> int \<Rightarrow> asgard_payload" where
  "append_payload d inst k = \<lparr>protocols_included = 1, proto_data =
        set_ae_data (st_u16 (st_u16 (\<lambda>_. 0) 0 (to_u16 inst)) 2
            (ASGARD_PROTO_CON_AE_BASE_SZ + ae_count d k * AE_ENTRY_SIZE)) 0
          (con_term (con d)) (node_id (con d)) k (get_prev_log_term (con d) (k - 1))
          (commit_idx (the_log d)) (the_log d) (ae_count d k)\<rparr>"

text \<open>One work item: one packet with the next window of the log, and the check of the rest.\<close>

lemma work_step:
  assumes snd: "sending d t k" and k: "k \<le> last_idx (the_log d)"
    and wq: "leader_wq d = \<lparr>lw_target_id = t, lw_next_index = x, lw_retrans = 0\<rparr> # rest"
  defines "c \<equiv> ae_count d k"
  shows "\<exists>a inst. sending (run_leader_work d) t (k + c) \<and> ap_payload a = append_payload d inst k
     \<and> con_term (con (run_leader_work d)) = con_term (con d)
     \<and> (\<forall>j. log_at (the_log (run_leader_work d)) j = log_at (the_log d) j)
     \<and> async_pkts (aapriv (target (run_leader_work d) t)) = async_pkts (aapriv (target d t)) @ [a]
     \<and> ae_cmds (proto_data (ap_payload a)) 0 = log_data (the_log d) k (k + c - 1)
     \<and> leader_wq (run_leader_work d) = rest @
         (if k + c \<le> last_idx (the_log d)
          then [\<lparr>lw_target_id = t, lw_next_index = k + c, lw_retrans = 0\<rparr>] else [])
     \<and> last_idx (the_log (run_leader_work d)) = last_idx (the_log d)"
proof -
  let ?d = "d\<lparr>leader_wq := rest\<rparr>"
  let ?l = "the_log d"
  have pre: "-1 \<le> last_idx ?l" "0 \<le> k" "0 < max_entries_per_pkt (con d)" "chunks_ok ?l"
    "max_entries_per_pkt (con d) \<le> MAX_AE_ENTRIES_PER_PKT" "t < targets d" "next_index ?l t = k"
    "last_idx ?l < MAX_CONSENSUS_LOG"
    using snd by (auto simp: sending_def)
  have nidx: "get_next_idx ?d (int t) = k" "get_next_idx d (int t) = k"
    using pre k by (simp_all add: get_next_idx_def check_target_id_def)
  have c: "0 < c" "c \<le> last_idx ?l - k + 1" "c < 4294967296"
    using pre k by (auto simp: c_def ae_count_def size_defs)
  obtain inst where only: "con_only ?d inst" using snd by (auto simp: sending_def con_only_def)
  define pay where "pay = append_payload d inst k"
  define d1 where "d1 = upd_log (\<lambda>l. l\<lparr>next_index := (next_index l)(t := next_index l t + c)\<rparr>) ?d"
  have msg: "setup_append_msg ?d empty_payload inst (int t) x 0 =
      (if k + c \<le> last_idx ?l then 1 else 0, d1, pay)"
    using setup_append_msg_cases [of ?d k 0 "int t" x inst] pre k nidx sending_prev_term [OF snd k]
    by (simp add: pay_def append_payload_def d1_def c_def ae_count_def)
  obtain j where j: "protos ?d j = Some \<lparr>pi_instance_id = inst, proto_type = ASGARD_PROTO_CONSENSUS\<rparr>"
    and fold1: "fold (prepare_instance t x 0) [0..<num_of_proto_instances ?d] (0, ?d) =
      prepare_instance t x 0 j (0, ?d)"
    using prepare_fold [OF only prepare_instance_protos, where t = t] by metis
  define a where "a = (create_async_pkt (dst_ip (target d t)) (dst_port (target d t)) (dst_mac (target d t)))
    \<lparr>ap_payload := pay\<rparr>"
  define d2 where "d2 = upd_target t (\<lambda>t. t\<lparr>aapriv := ring_aa_doorbell (aq_enq a (aapriv t))\<rparr>)
     (upd_target t (\<lambda>t. t\<lparr>scheduled_log_replications := scheduled_log_replications t + 1\<rparr>) d1)"
  have prep: "do_prepare_log_replication ?d t x 0 = (if k + c \<le> last_idx ?l then 1 else 0, d2)"
    using snd msg j unfolding do_prepare_log_replication_def fold1
    by (simp add: sending_def prepare_instance_def create_async_pkt_def d2_def a_def upd Let_def
        cong: if_cong)
  have log1: "the_log d2 = ?l\<lparr>next_index := (next_index ?l)(t := k + c)\<rparr>"
    using pre by (simp add: d2_def d1_def upd)
  have ent: "entry_at (the_log d2) b = entry_at ?l b" for b by (simp add: log1 entry_at_def)
  have at2: "log_at (the_log d2) j = log_at ?l j" for j
    by (simp add: log1 log_at_def entry_at_def consensus_idx_to_buffer_idx_def)
  have pay: "ap_payload a = append_payload d inst k" by (simp add: a_def pay_def)
  have ok: "chunks_ok (the_log d2)"
    using pre(4) by (simp add: log1 chunks_ok_def entries_ok_def entry_at_def)
  have only2: "con_only d2 i = con_only d i" for i by (simp add: d2_def d1_def upd con_only_def)
  have fr: "is_leader d2 = is_leader d" "pm_state (pm d2) = pm_state (pm d)" "targets d2 = targets d"
    "nstate (con d2) = nstate (con d)" "alive (target d2 t) = alive (target d t)"
    "con_term (con d2) = con_term (con d)" "max_entries_per_pkt (con d2) = max_entries_per_pkt (con d)"
    by (simp_all add: d2_def d1_def upd)
  have snd2: "sending d2 t (k + c)"
    using snd c(1) ok unfolding sending_def ent only2 fr by (simp add: log1)
  have q: "async_pkts (aapriv (target d2 t)) = async_pkts (aapriv (target d t)) @ [a]"
    by (simp add: d2_def d1_def upd ring_aa_doorbell_def aq_enq_def enqueue_async_pkt_def)
  have cmds: "ae_cmds (proto_data (ap_payload a)) 0 = log_data ?l k (k + c - 1)"
    using set_ae_data_cmds [OF pre(4) c(1,3) pre(2)] c(2) pre(8)
    by (simp add: a_def pay_def append_payload_def c_def MAX_CONSENSUS_LOG_def)
  have wq2: "leader_wq d2 = rest" by (simp add: d2_def d1_def upd)
  have last2: "last_idx (the_log d2) = last_idx ?l" by (simp add: log1)
  have run: "run_leader_work d = (if k + c \<le> last_idx ?l then check_pending_log_rep_for_target t d2 else d2)"
    using wq prep snd2 by (simp add: run_leader_work_def prepare_log_replication_def sending_def)
  show ?thesis
  proof (cases "k + c \<le> last_idx ?l")
    case True
    let ?e = "d2\<lparr>leader_wq := rest @ [\<lparr>lw_target_id = t, lw_next_index = k + c, lw_retrans = 0\<rparr>]\<rparr>"
    have run: "run_leader_work d = ?e"
      using run True check_pending_sending [OF snd2] wq2 last2 by simp
    have "sending ?e t (k + c)" using snd2 by (simp add: sending_def con_only_def)
    then show ?thesis unfolding run using True q cmds last2 at2 pay fr(6) by auto
  next
    case False
    then have run: "run_leader_work d = d2" using run by simp
    show ?thesis unfolding run using False q cmds last2 at2 pay fr(6) snd2 wq2 by auto
  qed
qed

text \<open>Running the work queue to its end sends every command once and in order.\<close>

lemma log_data_append:
  "i \<le> j + 1 \<Longrightarrow> j \<le> k \<Longrightarrow> log_data log i k = log_data log i j @ log_data log (j + 1) k"
  using upto_split1 [of i "j + 1" k] by (cases "j = k") (auto simp: log_data_def)

definition queued_cmds :: "asgard_device \<Rightarrow> nat \<Rightarrow> chunk list" where
  "queued_cmds d t = concat (map (\<lambda>a. ae_cmds (proto_data (ap_payload a)) 0) (async_pkts (aapriv (target d t))))"

lemma drain_log:
  assumes "sending d t k" and "k \<le> last_idx (the_log d)"
    and "leader_wq d = [\<lparr>lw_target_id = t, lw_next_index = x, lw_retrans = 0\<rparr>]"
  shows "\<exists>n d'. d' = (run_leader_work ^^ n) d \<and> leader_wq d' = []
     \<and> next_index (the_log d') t = last_idx (the_log d) + 1
     \<and> queued_cmds d' t = queued_cmds d t @ log_data (the_log d) k (last_idx (the_log d))"
  using assms
proof (induction "nat (last_idx (the_log d) + 1 - k)" arbitrary: d k x rule: less_induct)
  case less
  let ?c = "ae_count d k" and ?L = "last_idx (the_log d)"
  let ?d1 = "run_leader_work d"
  have c: "0 < ?c" "?c \<le> ?L - k + 1" using less.prems by (auto simp: ae_count_def sending_def)
  obtain a where a: "sending ?d1 t (k + ?c)"
    "async_pkts (aapriv (target ?d1 t)) = async_pkts (aapriv (target d t)) @ [a]"
    "ae_cmds (proto_data (ap_payload a)) 0 = log_data (the_log d) k (k + ?c - 1)"
    "leader_wq ?d1 = [] @ (if k + ?c \<le> ?L
          then [\<lparr>lw_target_id = t, lw_next_index = k + ?c, lw_retrans = 0\<rparr>] else [])"
    "last_idx (the_log ?d1) = ?L" "\<And>j. log_at (the_log ?d1) j = log_at (the_log d) j"
    using work_step [OF less.prems] by blast
  have data: "log_data (the_log ?d1) i j = log_data (the_log d) i j" for i j
    using a(6) by (simp add: log_data_def)
  have q: "queued_cmds ?d1 t = queued_cmds d t @ log_data (the_log d) k (k + ?c - 1)"
    using a(2,3) by (simp add: queued_cmds_def)
  have split: "log_data (the_log d) k ?L =
      log_data (the_log d) k (k + ?c - 1) @ log_data (the_log d) (k + ?c) ?L"
    using log_data_append [of k "k + ?c - 1" ?L "the_log d"] c by simp
  show ?case
  proof (cases "k + ?c \<le> ?L")
    case True
    have "nat (last_idx (the_log ?d1) + 1 - (k + ?c)) < nat (?L + 1 - k)" using c a(5) by simp
    from less.hyps [OF this a(1)] True a(4,5) data
    obtain n d' where d': "d' = (run_leader_work ^^ n) ?d1" "leader_wq d' = []"
      "next_index (the_log d') t = ?L + 1"
      "queued_cmds d' t = queued_cmds ?d1 t @ log_data (the_log d) (k + ?c) ?L" by auto
    then have "d' = (run_leader_work ^^ Suc n) d" by (simp add: funpow_swap1)
    moreover have "queued_cmds d' t = queued_cmds d t @ log_data (the_log d) k ?L"
      using d'(4) q split by simp
    ultimately show ?thesis using d'(2,3) by blast
  next
    case False
    then have e: "k + ?c = ?L + 1" using c by simp
    have "log_data (the_log d) (k + ?c) ?L = []" unfolding e by (simp add: log_data_def)
    then have "queued_cmds ?d1 t = queued_cmds d t @ log_data (the_log d) k ?L"
      unfolding q split by simp
    moreover have "next_index (the_log ?d1) t = ?L + 1" using a(1) e unfolding sending_def by simp
    moreover have "leader_wq ?d1 = []" using False a(4) by simp
    moreover have "?d1 = (run_leader_work ^^ 1) d" by simp
    ultimately show ?thesis by blast
  qed
qed

end
