(* ===== verification/AsgPingPong.thy ===== *)
theory AsgPingPong
  imports AsgPktQueue
begin

text \<open>
  \<open>core/pingpong.c\<close> and \<open>core/pingpong.h\<close>: the ping-pong protocol that measures round-trip times.
  A ping is put into a payload by \<open>setup_ping_msg\<close> (called for every heartbeat), answered by the
  \<open>PING\<close> case of \<open>pingpong_post_payload\<close> and its answer recorded by \<open>handle_pong\<close>.  The round data
  of a target is a function on round numbers; the three targets \<open>CLUSTER_SIZE\<close> allocates are not
  checked by the code, whose guards compare with the number of targets.
\<close>

definition ASGARD_PROTO_PP_PAYLOAD_SZ :: int where "ASGARD_PROTO_PP_PAYLOAD_SZ = 30"
definition MAX_PING_PONG_ROUND_TRIPS :: int where "MAX_PING_PONG_ROUND_TRIPS = 256"
definition PING :: int where "PING = 10"
definition PONG :: int where "PONG = 11"

definition GET_PP_PROTO_OPCODE_VAL :: "mem \<Rightarrow> nat \<Rightarrow> int" where
  "GET_PP_PROTO_OPCODE_VAL m p = ld_u16 m (p + 2 + 2)"
definition GET_PP_N_VAL :: "mem \<Rightarrow> nat \<Rightarrow> int" where
  "GET_PP_N_VAL m p = ld_u64 m (p + 2 + 2 + 2)"
definition GET_PP_T1_VAL :: "mem \<Rightarrow> nat \<Rightarrow> int" where
  "GET_PP_T1_VAL m p = ld_u64 m (p + 2 + 2 + 2 + 8)"
definition GET_PP_T2_VAL :: "mem \<Rightarrow> nat \<Rightarrow> int" where
  "GET_PP_T2_VAL m p = ld_u64 m (p + 2 + 2 + 2 + 8 + 8)"

lemmas pp_defs = ASGARD_PROTO_PP_PAYLOAD_SZ_def MAX_PING_PONG_ROUND_TRIPS_def PING_def PONG_def
  GET_PP_PROTO_OPCODE_VAL_def GET_PP_N_VAL_def GET_PP_T1_VAL_def GET_PP_T2_VAL_def

definition set_pp_opcode :: "mem \<Rightarrow> nat \<Rightarrow> int \<Rightarrow> int \<Rightarrow> int \<Rightarrow> int \<Rightarrow> mem" where
  "set_pp_opcode m pkt opco rid t1 t2 =
     (let m = st_u16 m (pkt + 2 + 2) (to_u16 opco);
          m = st_u64 m (pkt + 2 + 2 + 2) (to_u64 rid);
          m = st_u64 m (pkt + 2 + 2 + 2 + 8) (to_u64 t1);
          m = st_u64 m (pkt + 2 + 2 + 2 + 8 + 8) (to_u64 t2)
      in m)"

text \<open>A message reserved in the out-of-schedule payload of a target; a full packet drops it.\<close>

definition setup_pp_msg ::
  "int \<Rightarrow> asgard_device \<Rightarrow> int \<Rightarrow> nat \<Rightarrow> int \<Rightarrow> int \<Rightarrow> int \<Rightarrow> asgard_device" where
  "setup_pp_msg inst d opcode target_id rid t1 t2 =
     (case asgard_reserve_proto (to_u16 inst) (Some (pkt_payload (target d target_id)))
             (to_u16 ASGARD_PROTO_PP_PAYLOAD_SZ) of
        None \<Rightarrow> d
      | Some (off, spay) \<Rightarrow>
          upd_target target_id (\<lambda>t. t\<lparr>pkt_payload :=
            spay\<lparr>proto_data := set_pp_opcode (proto_data spay) off opcode rid t1 t2\<rparr>\<rparr>) d)"

definition pingpong_state_transition_to :: "pingpong_state \<Rightarrow> asgard_device \<Rightarrow> asgard_device" where
  "pingpong_state_transition_to st d = d\<lparr>pp := (pp d)\<lparr>pp_state := st\<rparr>\<rparr>"

definition upd_trip ::
  "nat \<Rightarrow> (ping_pong_round_trip \<Rightarrow> ping_pong_round_trip) \<Rightarrow> asgard_device \<Rightarrow> asgard_device" where
  "upd_trip i f d =
     d\<lparr>pp := (pp d)\<lparr>targets_rt_meta := (targets_rt_meta (pp d))(i := f (targets_rt_meta (pp d) i))\<rparr>\<rparr>"

text \<open>The loop of \<open>pingpong_init\<close> over the \<open>CLUSTER_SIZE\<close> targets.\<close>

definition pingpong_init :: "int \<Rightarrow> asgard_device \<Rightarrow> int \<times> asgard_device" where
  "pingpong_init verbosity0 d =
     (let d1 = d\<lparr>pp := (pp d)\<lparr>pp_verbosity := verbosity0\<rparr>\<rparr>;
          d2 = fold (\<lambda>i. upd_trip i (\<lambda>t. t\<lparr>received_pongs := 0, scheduled_pings := 0\<rparr>))
                 [0..<CLUSTER_SIZE] d1
      in (0, pingpong_state_transition_to PP_READY d2))"

definition pingpong_start :: "asgard_device \<Rightarrow> int \<times> asgard_device" where
  "pingpong_start d = (0, pingpong_state_transition_to PP_RUNNING d)"

definition pingpong_stop :: "asgard_device \<Rightarrow> int \<times> asgard_device" where
  "pingpong_stop d = (0, pingpong_state_transition_to PP_STOPPED d)"

definition handle_pong :: "asgard_device \<Rightarrow> int \<Rightarrow> int \<Rightarrow> int \<Rightarrow> int \<Rightarrow> asgard_device" where
  "handle_pong d remote_lid round_id t1 ots =
     (if remote_lid < 0 \<or> remote_lid > int (targets d) then d
      else if round_id < 0 \<or> round_id > MAX_PING_PONG_ROUND_TRIPS then d
      else upd_trip (nat remote_lid)
             (\<lambda>t. t\<lparr>round_trip_data := (round_trip_data t)(round_id :=
                       (round_trip_data t round_id)\<lparr>rt_ts4 := ots, rt_n := round_id\<rparr>),
                    received_pongs := received_pongs t + 1\<rparr>) d)"

definition pingpong_post_payload ::
  "int \<Rightarrow> asgard_device \<Rightarrow> int \<Rightarrow> mem \<Rightarrow> nat \<Rightarrow> int \<Rightarrow> asgard_device" where
  "pingpong_post_payload inst d remote_lid payload p ots =
     (if pp_state (pp d) \<noteq> PP_RUNNING then d
      else
        let opcode = GET_PP_PROTO_OPCODE_VAL payload p;
            pp_id = to_u16 (GET_PP_N_VAL payload p);
            pp_t1 = to_u16 (GET_PP_T1_VAL payload p)
        in if opcode = PING then setup_pp_msg inst d PONG (nat remote_lid) pp_id pp_t1 0
           else if opcode = PONG then handle_pong d remote_lid pp_id pp_t1 ots
           else d)"

definition add_ts1_to_local_store :: "asgard_device \<Rightarrow> int \<Rightarrow> int \<Rightarrow> asgard_device" where
  "add_ts1_to_local_store d target_lid ts1 =
     (if target_lid < 0 \<or> target_lid > int (targets d) then d
      else
        let trip = targets_rt_meta (pp d) (nat target_lid)
        in if scheduled_pings trip \<ge> MAX_PING_PONG_ROUND_TRIPS then d
           else upd_trip (nat target_lid)
                  (\<lambda>t. t\<lparr>round_trip_data := (round_trip_data t)(scheduled_pings t :=
                     (round_trip_data t (scheduled_pings t))\<lparr>rt_ts1 := ts1\<rparr>)\<rparr>) d)"

definition setup_ping_msg ::
  "asgard_device \<Rightarrow> asgard_payload \<Rightarrow> int \<Rightarrow> int \<Rightarrow> int \<times> asgard_device \<times> asgard_payload" where
  "setup_ping_msg d spay inst target_lid =
     (if pp_state (pp d) \<noteq> PP_RUNNING then (0, d, spay)
      else if target_lid < 0 \<or> target_lid > int (targets d) then (-1, d, spay)
      else
        let trip = targets_rt_meta (pp d) (nat target_lid)
        in if scheduled_pings trip \<ge> MAX_PING_PONG_ROUND_TRIPS
           then (0, pingpong_state_transition_to PP_STOPPED d, spay)
           else (case asgard_reserve_proto (to_u16 inst) (Some spay)
                        (to_u16 ASGARD_PROTO_PP_PAYLOAD_SZ) of
                   None \<Rightarrow> (-1, d, spay)
                 | Some (off, spay1) \<Rightarrow>
                     let ts1 = clock d;
                         spay2 = spay1\<lparr>proto_data :=
                           set_pp_opcode (proto_data spay1) off PING (scheduled_pings trip) ts1 0\<rparr>;
                         d1 = add_ts1_to_local_store d target_lid ts1;
                         d2 = upd_trip (nat target_lid)
                                (\<lambda>t. t\<lparr>scheduled_pings := scheduled_pings t + 1\<rparr>) d1
                     in (0, d2, spay2)))"

section \<open>Frames and message fields\<close>

lemma upd_trip_frame [simp]:
  "pm (upd_trip i f d) = pm d" "con (upd_trip i f d) = con d" "pp_state (pp (upd_trip i f d)) = pp_state (pp d)"
  "targets_rt_meta (pp (upd_trip i f d)) = (targets_rt_meta (pp d))(i := f (targets_rt_meta (pp d) i))"
  "clock (upd_trip i f d) = clock d" "is_leader (upd_trip i f d) = is_leader d"
  "ci (upd_trip i f d) = ci d" "cur_leader_lid (upd_trip i f d) = cur_leader_lid d"
  by (simp_all add: upd_trip_def)

lemma to_u_idem [simp]: "to_u16 (to_u16 x) = to_u16 x" "to_u64 (to_u64 x) = to_u64 x"
  by (simp_all add: cint)

lemma set_pp_opcode_fields:
  "GET_PP_PROTO_OPCODE_VAL (set_pp_opcode m pkt opco rid t1 t2) pkt = to_u16 opco"
  "GET_PP_N_VAL (set_pp_opcode m pkt opco rid t1 t2) pkt = to_u64 rid"
  "GET_PP_T1_VAL (set_pp_opcode m pkt opco rid t1 t2) pkt = to_u64 t1"
  "GET_PP_T2_VAL (set_pp_opcode m pkt opco rid t1 t2) pkt = to_u64 t2"
  by (simp_all add: set_pp_opcode_def pp_defs Let_def)

lemma set_pp_opcode_frame:
  "same_outside (pkt + 4) (pkt + 30) m (set_pp_opcode m pkt opco rid t1 t2)"
  unfolding set_pp_opcode_def Let_def by (intro same_outside_st) simp_all

lemma setup_ping_msg_con:
  "con (fst (snd (setup_ping_msg d spay inst t))) = con d"
  "pm (fst (snd (setup_ping_msg d spay inst t))) = pm d"
  "is_leader (fst (snd (setup_ping_msg d spay inst t))) = is_leader d"
  "ci (fst (snd (setup_ping_msg d spay inst t))) = ci d"
  "cur_leader_lid (fst (snd (setup_ping_msg d spay inst t))) = cur_leader_lid d"
  by (auto simp: setup_ping_msg_def Let_def add_ts1_to_local_store_def
      pingpong_state_transition_to_def split: option.splits)

section \<open>Rounds\<close>

text \<open>Rounds of a target are numbered consecutively from 0 and never exceed the array.\<close>

definition pings_ok :: "asgard_device \<Rightarrow> bool" where
  "pings_ok d \<longleftrightarrow> (\<forall>i. 0 \<le> scheduled_pings (targets_rt_meta (pp d) i)
     \<and> scheduled_pings (targets_rt_meta (pp d) i) \<le> MAX_PING_PONG_ROUND_TRIPS)"

lemma setup_ping_msg_pings_ok:
  "pings_ok d \<Longrightarrow> pings_ok (fst (snd (setup_ping_msg d spay inst t)))"
  by (auto simp: setup_ping_msg_def pings_ok_def Let_def add_ts1_to_local_store_def
      pingpong_state_transition_to_def split: option.splits)

lemma post_payload_pings_ok:
  "pings_ok d \<Longrightarrow> pings_ok (pingpong_post_payload inst d lid m p ots)"
  by (auto simp: pingpong_post_payload_def pings_ok_def Let_def handle_pong_def setup_pp_msg_def upd
      split: option.splits)

text \<open>A running instance answers every ping with a pong that carries the ping's number and its
  first time stamp, both truncated to 16 bits.\<close>

theorem ping_answer:
  assumes run: "pp_state (pp d) = PP_RUNNING"
    and op: "GET_PP_PROTO_OPCODE_VAL m p = PING"
    and res: "asgard_reserve_proto (to_u16 inst) (Some (pkt_payload (target d lid))) 30 = Some (off, spay)"
  shows "\<exists>m'. proto_data (pkt_payload (target (pingpong_post_payload inst d (int lid) m p ots) lid)) = m'
    \<and> GET_PP_PROTO_OPCODE_VAL m' off = PONG
    \<and> GET_PP_N_VAL m' off = GET_PP_N_VAL m p mod 65536
    \<and> GET_PP_T1_VAL m' off = GET_PP_T1_VAL m p mod 65536"
proof -
  have u: "to_u64 (to_u16 x) = x mod 65536" for x
    by (simp add: cint pos_mod_bound [of 65536 x] pos_mod_sign [of 65536 x])
  have res': "asgard_reserve_proto (to_u16 inst) (Some (pkt_payload (target d lid)))
      (to_u16 ASGARD_PROTO_PP_PAYLOAD_SZ) = Some (off, spay)"
    using res by (simp add: pp_defs)
  have "to_u16 PONG = PONG" "PONG \<noteq> PING" "to_u16 x = x mod 65536" for x
    by (simp_all add: pp_defs cint)
  then show ?thesis
    using run op res'
    by (simp add: pingpong_post_payload_def setup_pp_msg_def Let_def set_pp_opcode_fields u)
qed

theorem ping_answer_witness:
  "\<exists>m'. proto_data (pkt_payload (target (pingpong_post_payload 2 (snd (pingpong_start (sample_node FOLLOWER 0)))
        (int 0) (set_pp_opcode (\<lambda>_. 0) 0 PING 70000 5 0) 0 3) 0)) = m'
    \<and> GET_PP_PROTO_OPCODE_VAL m' 0 = PONG \<and> GET_PP_N_VAL m' 0 = 4464 \<and> GET_PP_T1_VAL m' 0 = 5"
proof -
  let ?d = "snd (pingpong_start (sample_node FOLLOWER 0))"
  have d: "pp_state (pp ?d) = PP_RUNNING" "pkt_payload (target ?d 0) = empty_payload"
    by (simp_all add: pingpong_start_def pingpong_state_transition_to_def sample)
  have f: "GET_PP_PROTO_OPCODE_VAL (set_pp_opcode (\<lambda>_. 0) 0 PING 70000 5 0) 0 = PING"
    "GET_PP_N_VAL (set_pp_opcode (\<lambda>_. 0) 0 PING 70000 5 0) 0 = 70000"
    "GET_PP_T1_VAL (set_pp_opcode (\<lambda>_. 0) 0 PING 70000 5 0) 0 = 5"
    by (simp_all only: set_pp_opcode_fields) (simp_all add: pp_defs cint)
  have r: "asgard_reserve_proto (to_u16 2) (Some (pkt_payload (target ?d 0))) 30 =
      Some (0, \<lparr>protocols_included = 1, proto_data = st_u16 (st_u16 (\<lambda>_. 0) 0 (to_u16 2)) 2 30\<rparr>)"
    unfolding d(2) by (rule reserve_first) (simp add: size_defs)
  show ?thesis using ping_answer [OF d(1) f(1) r, of 3] by (simp add: f)
qed

text \<open>The pong that answers a ping completes its round: the entry of the round then holds the time
  the ping was written and the time the pong arrived.\<close>

theorem ping_round_recorded:
  assumes run: "pp_state (pp d) = PP_RUNNING" and lid: "lid \<le> targets d"
    and sched: "scheduled_pings (targets_rt_meta (pp d) lid) = r" "0 \<le> r" "r < MAX_PING_PONG_ROUND_TRIPS"
    and res: "asgard_reserve_proto (to_u16 inst) (Some spay0) 30 = Some (off, spay1)"
    and send: "setup_ping_msg d spay0 inst (int lid) = (c, d1, spay)"
    and pong: "GET_PP_PROTO_OPCODE_VAL m p = PONG"
      "GET_PP_N_VAL m p = GET_PP_N_VAL (proto_data spay) off mod 65536"
  shows "rt_ts1 (round_trip_data (targets_rt_meta (pp (pingpong_post_payload inst d1 (int lid) m p ots)) lid) r) = clock d
    \<and> rt_ts4 (round_trip_data (targets_rt_meta (pp (pingpong_post_payload inst d1 (int lid) m p ots)) lid) r) = ots
    \<and> scheduled_pings (targets_rt_meta (pp (pingpong_post_payload inst d1 (int lid) m p ots)) lid) = r + 1"
proof -
  have r: "to_u64 r = r" "to_u16 r = r" "r mod 65536 = r"
    using sched(2,3) by (simp_all add: cint MAX_PING_PONG_ROUND_TRIPS_def)
  have res': "asgard_reserve_proto (to_u16 inst) (Some spay0) (to_u16 ASGARD_PROTO_PP_PAYLOAD_SZ)
      = Some (off, spay1)"
    using res by (simp add: pp_defs)
  have d1: "d1 = upd_trip lid (\<lambda>t. t\<lparr>scheduled_pings := scheduled_pings t + 1\<rparr>)
       (upd_trip lid (\<lambda>t. t\<lparr>round_trip_data := (round_trip_data t)(scheduled_pings t :=
          (round_trip_data t (scheduled_pings t))\<lparr>rt_ts1 := clock d\<rparr>)\<rparr>) d)"
    and n: "GET_PP_N_VAL (proto_data spay) off = r"
    using send run lid sched(2,3) res' r unfolding sched(1) [symmetric]
    by (auto simp: setup_ping_msg_def add_ts1_to_local_store_def Let_def set_pp_opcode_fields)
  have "pp_state (pp d1) = PP_RUNNING" "targets d1 = targets d" using run by (simp_all add: d1)
  then have post: "pingpong_post_payload inst d1 (int lid) m p ots = handle_pong d1 (int lid) r (to_u16 (GET_PP_T1_VAL m p)) ots"
    using pong n r by (simp add: pingpong_post_payload_def Let_def) (simp add: pp_defs)
  show ?thesis
    unfolding post using lid sched by (simp add: handle_pong_def d1)
qed

theorem ping_round_recorded_witness:
  "case setup_ping_msg (snd (pingpong_start (sample_node FOLLOWER 0))) empty_payload 2 (int 0) of (c, d1, spay) \<Rightarrow>
     rt_ts1 (round_trip_data (targets_rt_meta (pp (pingpong_post_payload 2 d1 (int 0)
       (set_pp_opcode (\<lambda>_. 0) 0 PONG 0 0 0) 0 1700)) 0) 0) = 1000
   \<and> rt_ts4 (round_trip_data (targets_rt_meta (pp (pingpong_post_payload 2 d1 (int 0)
       (set_pp_opcode (\<lambda>_. 0) 0 PONG 0 0 0) 0 1700)) 0) 0) = 1700"
proof -
  let ?d = "snd (pingpong_start (sample_node FOLLOWER 0))" and ?m = "set_pp_opcode (\<lambda>_. 0) 0 PONG 0 0 0"
  obtain c d1 spay where send: "setup_ping_msg ?d empty_payload 2 (int 0) = (c, d1, spay)"
    by (rule prod_cases3)
  have d: "pp_state (pp ?d) = PP_RUNNING" "0 \<le> targets ?d" "scheduled_pings (targets_rt_meta (pp ?d) 0) = 0"
    "clock ?d = 1000"
    by (simp_all add: pingpong_start_def pingpong_state_transition_to_def sample)
  have r: "asgard_reserve_proto (to_u16 2) (Some empty_payload) 30 =
      Some (0, \<lparr>protocols_included = 1, proto_data = st_u16 (st_u16 (\<lambda>_. 0) 0 (to_u16 2)) 2 30\<rparr>)"
    by (rule reserve_first) (simp add: size_defs)
  have f: "GET_PP_PROTO_OPCODE_VAL ?m 0 = PONG" "GET_PP_N_VAL ?m 0 = 0"
    by (simp_all only: set_pp_opcode_fields) (simp_all add: pp_defs cint)
  have r': "asgard_reserve_proto (to_u16 2) (Some empty_payload) (to_u16 ASGARD_PROTO_PP_PAYLOAD_SZ) =
      Some (0, \<lparr>protocols_included = 1, proto_data = st_u16 (st_u16 (\<lambda>_. 0) 0 (to_u16 2)) 2 30\<rparr>)"
    using r by (simp add: pp_defs)
  have "GET_PP_N_VAL (proto_data spay) 0 = 0"
    using send d(1,3) unfolding setup_ping_msg_def r' Let_def
    by (auto simp: set_pp_opcode_fields MAX_PING_PONG_ROUND_TRIPS_def to_u64_def)
  then have n: "GET_PP_N_VAL ?m 0 = GET_PP_N_VAL (proto_data spay) 0 mod 65536" by (simp add: f)
  show ?thesis
    unfolding send prod.case d(4) [symmetric]
    using ping_round_recorded [OF d(1,2,3) _ _ r send f(1) n, of 1700] by (simp add: MAX_PING_PONG_ROUND_TRIPS_def)
qed

end
