(* ===== verification/AsgMembership.thy ===== *)
theory AsgMembership
  imports AsgPktQueue
begin

text \<open>
  \<open>core/membership.c\<close>: the registration of peers as pacemaker targets and the cluster information
  shown to user space (\<open>check_warmup_state\<close>, which starts the protocols, is in the pacemaker
  theory).  The heartbeat metrics of \<open>write_in_hb_to_log\<close> (\<open>core/logger.c\<close>) live in the same
  structure and are updated here.
\<close>

definition peer_is_registered :: "pminfo \<Rightarrow> int \<Rightarrow> bool" where
  "peer_is_registered spminfo cid =
     list_ex (\<lambda>i. t_cluster_id (pm_targets spminfo i) = cid) [0..<num_of_targets spminfo]"

definition get_local_index_by_cluster_id :: "asgard_device \<Rightarrow> int \<Rightarrow> int" where
  "get_local_index_by_cluster_id d cluster_id =
     (case find (\<lambda>i. t_cluster_id (target d i) = cluster_id) [0..<targets d] of
        Some i \<Rightarrow> int i | None \<Rightarrow> -1)"

definition update_self_state :: "node_state \<Rightarrow> cluster_info \<Rightarrow> cluster_info" where
  "update_self_state st c = c\<lparr>ci_node_state :=
     (case st of FOLLOWER \<Rightarrow> 1 | CANDIDATE \<Rightarrow> 2 | LEADER \<Rightarrow> 3 | NODE_UNINIT \<Rightarrow> 0)\<rparr>"

definition add_cluster_member :: "cluster_info \<Rightarrow> int \<Rightarrow> int \<Rightarrow> int \<Rightarrow> cluster_info" where
  "add_cluster_member c cluster_id local_id init_state =
     (if local_id > MAX_CLUSTER_MEMBER then c
      else c\<lparr>member_info := (member_info c)(nat local_id :=
               (member_info c (nat local_id))\<lparr>m_state := init_state, global_cluster_id := cluster_id\<rparr>),
             overall_cluster_member := overall_cluster_member c + 1\<rparr>)"

definition update_cluster_member :: "int \<Rightarrow> cluster_info \<Rightarrow> int \<Rightarrow> int \<Rightarrow> cluster_info" where
  "update_cluster_member now c local_id st =
     (if local_id > MAX_CLUSTER_MEMBER then c
      else if local_id < 0 then c
      else
        let prev_state = m_state (member_info c (nat local_id));
            c1 = (if st \<noteq> prev_state then
               (let c1 = (if st = 0 \<and> prev_state \<noteq> 2
                          then c\<lparr>dead_cluster_member := dead_cluster_member c + 1,
                                 cluster_dropouts := cluster_dropouts c + 1\<rparr>
                          else c);
                    c2 = (if st = 1
                          then (let c1' = (if prev_state = 2 then c1
                                  else c1\<lparr>dead_cluster_member := dead_cluster_member c1 - 1\<rparr>)
                                in c1'\<lparr>active_cluster_member := active_cluster_member c1' + 1,
                                       cluster_joins := cluster_joins c1' + 1\<rparr>)
                          else c1)
                in c2\<lparr>member_info := (member_info c2)(nat local_id :=
                        (member_info c2 (nat local_id))\<lparr>m_state := st\<rparr>)\<rparr>)
               else c)
        in c1\<lparr>last_update_timestamp := now\<rparr>)"

definition write_in_hb_to_log :: "asgard_device \<Rightarrow> int \<Rightarrow> int \<Rightarrow> int \<times> asgard_device" where
  "write_in_hb_to_log d tcs nd =
     (if nd < 0 \<or> nd \<ge> int CLUSTER_SIZE then (- EINVAL, d)
      else if ingress_states d (nat nd) \<noteq> LOGGER_RUNNING then (0, d)
      else
        let c = ci d; m = member_info c (nat nd)
        in (0, d\<lparr>ci := c\<lparr>member_info := (member_info c)(nat nd :=
                  m\<lparr>hb_metrics := hb_metrics_step (hbi (pm d)) tcs (hb_metrics m)\<rparr>)\<rparr>\<rparr>))"

definition htonl :: "int \<Rightarrow> int" where
  "htonl x = (let u = to_u32 x in
     (u mod 256) * 16777216 + (u div 256 mod 256) * 65536 + (u div 65536 mod 256) * 256
       + u div 16777216)"

definition htons :: "int \<Rightarrow> int" where
  "htons x = (let u = to_u16 x in (u mod 256) * 256 + u div 256)"

definition register_peer_by_ip :: "asgard_device \<Rightarrow> int \<Rightarrow> int \<Rightarrow> int \<Rightarrow> int \<times> asgard_device" where
  "register_peer_by_ip d local_id ip cluster_id =
     (if to_u32 cluster_id = pm_cluster_id (pm d) then (- EINVAL, d\<lparr>self_ip := to_u32 ip\<rparr>)
      else if local_id \<ge> MAX_REMOTE_SOURCES then (- EINVAL, d)
      else
        let d1 = d\<lparr>ci := add_cluster_member (ci d) cluster_id local_id 2\<rparr>;
            d2 = upd_target (nat local_id) (\<lambda>t. t\<lparr>alive := 0, dst_ip := htonl ip,
                   dst_port := htons (tx_port d1), t_cluster_id := cluster_id,
                   lhb_ts := 0, chb_ts := 0, resp_factor := 8, cur_waiting_interval := 4,
                   pkt_tx_counter := 0, pkt_rx_counter := 0, fire := 0,
                   scheduled_log_replications := 0, received_log_replications := 0,
                   pkt_payload := empty_payload, hb_payload := empty_payload,
                   aapriv := \<lparr>doorbell = 0, async_pkts = []\<rparr>\<rparr>) d1
        in (0, upd_pm (\<lambda>p. p\<lparr>num_of_targets := num_of_targets p + 1\<rparr>) d2))"

text \<open>The result 0 is failure here, 1 success.\<close>

definition register_peer :: "asgard_device \<Rightarrow> int \<Rightarrow> byte list \<Rightarrow> int \<Rightarrow> int \<times> asgard_device" where
  "register_peer d ip mac cluster_id =
     (let local_id = int (targets d);
          (r, d1) = register_peer_by_ip d local_id ip cluster_id
      in if r \<noteq> 0 then (0, d1)
         else (1, upd_target (nat local_id) (\<lambda>t. t\<lparr>dst_mac := Some (take 6 mac),
                     pkt_skb := asgard_reserve_skb ip mac, hb_skb := asgard_reserve_skb ip mac\<rparr>) d1))"

section \<open>Registration\<close>

lemma register_peer_ok:
  assumes "to_u32 cid \<noteq> pm_cluster_id (pm d)" and "int (targets d) < MAX_REMOTE_SOURCES"
  shows "fst (register_peer d ip mac cid) = 1"
    and "targets (snd (register_peer d ip mac cid)) = Suc (targets d)"
    and "t_cluster_id (target (snd (register_peer d ip mac cid)) (targets d)) = cid"
    and "alive (target (snd (register_peer d ip mac cid)) (targets d)) = 0"
    and "j \<noteq> targets d \<Longrightarrow> target (snd (register_peer d ip mac cid)) j = target d j"
  using assms by (simp_all add: register_peer_def register_peer_by_ip_def Let_def upd)

lemma register_peer_refused:
  assumes "to_u32 cid = pm_cluster_id (pm d) \<or> int (targets d) \<ge> MAX_REMOTE_SOURCES"
  shows "fst (register_peer d ip mac cid) = 0" and "pm (snd (register_peer d ip mac cid)) = pm d"
  using assms by (auto simp: register_peer_def register_peer_by_ip_def Let_def EINVAL_def)

lemma peer_is_registered_iff:
  "peer_is_registered p cid \<longleftrightarrow> (\<exists>i < num_of_targets p. t_cluster_id (pm_targets p i) = cid)"
  by (auto simp: peer_is_registered_def list_ex_iff)

lemma register_peer_registered:
  assumes "to_u32 cid \<noteq> pm_cluster_id (pm d)" and "int (targets d) < MAX_REMOTE_SOURCES"
  shows "peer_is_registered (pm (snd (register_peer d ip mac cid))) c \<longleftrightarrow>
           c = cid \<or> peer_is_registered (pm d) c"
  using register_peer_ok [OF assms, where ip = ip and mac = mac]
  by (auto simp: peer_is_registered_iff less_Suc_eq)

text \<open>Registering a peer with another cluster id than the node's, while there is room, adds one
  target at the end -- unseen, with the peer's id -- and leaves the other targets alone; otherwise the
  pacemaker state is unchanged and 0 is returned.\<close>

theorem register_peer_exact:
  "if to_u32 cid \<noteq> pm_cluster_id (pm d) \<and> int (targets d) < MAX_REMOTE_SOURCES
   then fst (register_peer d ip mac cid) = 1
     \<and> targets (snd (register_peer d ip mac cid)) = Suc (targets d)
     \<and> t_cluster_id (target (snd (register_peer d ip mac cid)) (targets d)) = cid
     \<and> alive (target (snd (register_peer d ip mac cid)) (targets d)) = 0
     \<and> (\<forall>j. j \<noteq> targets d \<longrightarrow> target (snd (register_peer d ip mac cid)) j = target d j)
     \<and> (\<forall>c. peer_is_registered (pm (snd (register_peer d ip mac cid))) c =
            (c = cid \<or> peer_is_registered (pm d) c))
   else fst (register_peer d ip mac cid) = 0 \<and> pm (snd (register_peer d ip mac cid)) = pm d"
proof (cases "to_u32 cid \<noteq> pm_cluster_id (pm d) \<and> int (targets d) < MAX_REMOTE_SOURCES")
  case True
  then show ?thesis
    using register_peer_ok [of cid d, where ip = ip and mac = mac]
      register_peer_registered [of cid d, where ip = ip and mac = mac] by simp
next
  case False
  then have "to_u32 cid = pm_cluster_id (pm d) \<or> int (targets d) \<ge> MAX_REMOTE_SOURCES" by auto
  from register_peer_refused [OF this] show ?thesis using False by simp
qed

theorem register_peer_exact_witness:
  "fst (register_peer (sample_node FOLLOWER 0) 9 [0, 0, 0, 0, 0, 9] 4) = 1
   \<and> targets (snd (register_peer (sample_node FOLLOWER 0) 9 [0, 0, 0, 0, 0, 9] 4)) = 3
   \<and> fst (register_peer (sample_node FOLLOWER 0) 9 [0, 0, 0, 0, 0, 9] 1) = 0"
  using register_peer_exact [of 4 "sample_node FOLLOWER 0" 9 "[0, 0, 0, 0, 0, 9]"]
    register_peer_exact [of 1 "sample_node FOLLOWER 0" 9 "[0, 0, 0, 0, 0, 9]"]
  by (simp add: sample MAX_REMOTE_SOURCES_def)

section \<open>Member counters\<close>

text \<open>Members by state, among the registered ones.\<close>

definition members_in :: "int \<Rightarrow> nat \<Rightarrow> cluster_info \<Rightarrow> nat" where
  "members_in st n c = length (filter (\<lambda>i. m_state (member_info c i) = st) [0..<n])"

definition member_states_ok :: "nat \<Rightarrow> cluster_info \<Rightarrow> bool" where
  "member_states_ok n c \<longleftrightarrow> (\<forall>i < n. m_state (member_info c i) \<in> {0, 1, 2})"

lemma count_change:
  assumes "i < n" and that: "\<And>j. j \<noteq> i \<Longrightarrow> P j = Q j"
  shows "length (filter P [0..<n]) + (if Q i then 1 else 0) =
     length (filter Q [0..<n]) + (if P i then 1 else 0)"
  using assms(1)
proof (induction n)
  case (Suc n)
  show ?case
  proof (cases "i = n")
    case True
    have "P j = Q j" if "j < n" for j using True that assms(2) by simp
    then have "filter P [0..<n] = filter Q [0..<n]" by (intro filter_cong) auto
    with True show ?thesis by simp
  next
    case False
    with Suc have "i < n" by simp
    with Suc.IH False assms(2) [of n] show ?thesis by auto
  qed
qed simp

lemma members_in_update:
  assumes "i < n" and "int i \<le> MAX_CLUSTER_MEMBER"
  shows "int (members_in s n (update_cluster_member now c (int i) st)) =
     int (members_in s n c) + (if st = s then 1 else 0)
       - (if m_state (member_info c i) = s then 1 else 0)"
proof -
  let ?c' = "update_cluster_member now c (int i) st"
  have st: "m_state (member_info ?c' j) = (if j = i then st else m_state (member_info c j))" for j
    using assms(2) by (auto simp: update_cluster_member_def Let_def)
  define P where "P j \<longleftrightarrow> m_state (member_info ?c' j) = s" for j
  define Q where "Q j \<longleftrightarrow> m_state (member_info c j) = s" for j
  have "length (filter P [0..<n]) + (if Q i then 1 else 0) =
      length (filter Q [0..<n]) + (if P i then 1 else 0)"
    by (rule count_change [OF assms(1)]) (simp add: P_def Q_def st)
  moreover have "P i \<longleftrightarrow> st = s" "Q i \<longleftrightarrow> m_state (member_info c i) = s"
    by (simp_all add: P_def Q_def st)
  moreover have "members_in s n ?c' = length (filter P [0..<n])"
    "members_in s n c = length (filter Q [0..<n])"
    by (simp_all add: members_in_def P_def [abs_def] Q_def [abs_def])
  ultimately show ?thesis by (simp split: if_splits)
qed

text \<open>The counters of the dead members and of the drop-outs are right as long as no member that
  was never seen is reported dead.\<close>

lemma dead_counter_update:
  assumes "i < n" "int i \<le> MAX_CLUSTER_MEMBER" and "member_states_ok n c" and "st \<in> {0, 1}"
    and "\<not> (st = 0 \<and> m_state (member_info c i) = 2)"
    and "dead_cluster_member c = int (members_in 0 n c)"
  shows "dead_cluster_member (update_cluster_member now c (int i) st) =
     int (members_in 0 n (update_cluster_member now c (int i) st))"
proof -
  have "m_state (member_info c i) \<in> {0, 1, 2}" using assms(1,3) by (simp add: member_states_ok_def)
  then show ?thesis
    using assms members_in_update [OF assms(1,2), of 0 now c st]
    by (auto simp: update_cluster_member_def Let_def)
qed

text \<open>The difference of the join and the drop-out counters is the number of members shown as
  alive, and stays so with every reported change.\<close>

theorem joins_minus_dropouts:
  assumes "i < n" "int i \<le> MAX_CLUSTER_MEMBER" and "member_states_ok n c" and "st \<in> {0, 1}"
    and "cluster_joins c - cluster_dropouts c = int (members_in 1 n c)"
  shows "cluster_joins (update_cluster_member now c (int i) st)
      - cluster_dropouts (update_cluster_member now c (int i) st) =
     int (members_in 1 n (update_cluster_member now c (int i) st))"
proof -
  have "m_state (member_info c i) \<in> {0, 1, 2}" using assms(1,3) by (simp add: member_states_ok_def)
  then show ?thesis
    using assms members_in_update [OF assms(1,2), of 1 now c st]
    by (auto simp: update_cluster_member_def Let_def)
qed

theorem joins_minus_dropouts_witness:
  "cluster_joins (update_cluster_member 7 (sample_ci 1) (int 1) 1)
      - cluster_dropouts (update_cluster_member 7 (sample_ci 1) (int 1) 1) =
     int (members_in 1 2 (update_cluster_member 7 (sample_ci 1) (int 1) 1))"
  by (rule joins_minus_dropouts)
    (simp_all add: sample MAX_CLUSTER_MEMBER_def member_states_ok_def members_in_def numeral_2_eq_2)

text \<open>A member reported dead before it was ever seen is not counted as dead, but its later arrival
  is subtracted.\<close>

lemma dead_counter_underflow:
  assumes "0 \<le> i" "i \<le> MAX_CLUSTER_MEMBER" and "m_state (member_info c (nat i)) = 2"
  shows "dead_cluster_member (update_cluster_member t (update_cluster_member now c i 0) i 1) =
    dead_cluster_member c - 1"
  using assms by (simp add: update_cluster_member_def Let_def)

lemma active_counter_never_falls:
  "active_cluster_member c \<le> active_cluster_member (update_cluster_member now c i st)"
  by (simp add: update_cluster_member_def Let_def)

lemma active_counter_drop:
  assumes "0 \<le> i" "i \<le> MAX_CLUSTER_MEMBER" and "m_state (member_info c (nat i)) = 1"
  shows "active_cluster_member (update_cluster_member now c i 0) = active_cluster_member c"
    and "m_state (member_info (update_cluster_member now c i 0) (nat i)) = 0"
  using assms by (simp_all add: update_cluster_member_def Let_def)

end
