(* ===== verification/AsgHeartbeat.thy ===== *)
theory AsgHeartbeat
  imports AsgPingPong AsgMembership AsgKVStore
begin

text \<open>
  The upper half of \<open>core/pacemaker.c\<close>: what goes into a heartbeat (\<open>pre_hb_setup\<close> and the message
  builders it calls) and \<open>asgard_pm_stop\<close>, which the election code calls.  A payload pointer that
  is passed down is an argument and a component of the result.
\<close>

definition pm_state_transition_to :: "pmstate \<Rightarrow> asgard_device \<Rightarrow> asgard_device" where
  "pm_state_transition_to st = upd_pm (\<lambda>p. p\<lparr>pm_state := st\<rparr>)"

definition setup_cluster_join_advertisement ::
  "asgard_payload \<Rightarrow> int \<Rightarrow> int \<Rightarrow> byte list \<Rightarrow> int \<times> asgard_payload" where
  "setup_cluster_join_advertisement spay advertise_id ip mac =
     (case asgard_reserve_proto 1 (Some spay) (to_u16 ASGARD_PROTO_CON_PAYLOAD_SZ) of
        None \<Rightarrow> (-1, spay)
      | Some (off, spay1) \<Rightarrow>
          (0, spay1\<lparr>proto_data := set_le_opcode_ad (proto_data spay1) off ADVERTISE advertise_id ip mac\<rparr>))"

definition setup_alive_msg ::
  "asgard_device \<Rightarrow> asgard_payload \<Rightarrow> int \<Rightarrow> int \<times> asgard_payload" where
  "setup_alive_msg d spay inst =
     (case asgard_reserve_proto (to_u16 inst) (Some spay) (to_u16 ASGARD_PROTO_CON_PAYLOAD_SZ) of
        None \<Rightarrow> (-1, spay)
      | Some (off, spay1) \<Rightarrow>
          (0, spay1\<lparr>proto_data := set_le_opcode (proto_data spay1) off ALIVE (con_term (con d))
                 (commit_idx (the_log d)) (stable_idx (the_log d)) (hb_interval d)\<rparr>))"

text \<open>One iteration of the loop of \<open>pre_hb_setup\<close> over the protocol instances.\<close>

definition pre_hb_proto ::
  "int \<Rightarrow> nat \<Rightarrow> asgard_device \<times> asgard_payload \<Rightarrow> asgard_device \<times> asgard_payload" where
  "pre_hb_proto target_lid j = (\<lambda>(d, spay).
     (let ins = the (protos d j)
      in if proto_type ins = ASGARD_PROTO_CONSENSUS \<and> is_leader d \<noteq> 0
         then (d, snd (setup_alive_msg d spay (pi_instance_id ins)))
         else if proto_type ins = ASGARD_PROTO_PP
         then snd (setup_ping_msg d spay (pi_instance_id ins) target_lid)
         else (d, spay)))"

definition pre_hb_setup ::
  "asgard_device \<Rightarrow> asgard_payload \<Rightarrow> int \<Rightarrow> asgard_device \<times> asgard_payload" where
  "pre_hb_setup d spay target_lid =
     (if warmup_state d = WARMING_UP then
        (case self_mac d of
           None \<Rightarrow> (d, spay)
         | Some mac \<Rightarrow>
             (d, snd (setup_cluster_join_advertisement spay (pm_cluster_id (pm d)) (self_ip d) mac)))
      else fold (pre_hb_proto target_lid) [0..<num_of_proto_instances d] (d, spay))"

text \<open>The calls \<open>pre_hb_setup(sdev, pm_targets[i].pkt_data.payload, i)\<close> and
  \<open>pre_hb_setup(sdev, pm_targets[i].hb_pkt_data.payload, i)\<close>.\<close>

definition pre_hb_pkt :: "nat \<Rightarrow> asgard_device \<Rightarrow> asgard_device" where
  "pre_hb_pkt i d = (let (d1, spay) = pre_hb_setup d (pkt_payload (target d i)) (int i)
     in upd_target i (\<lambda>t. t\<lparr>pkt_payload := spay\<rparr>) d1)"

definition pre_hb_hb :: "nat \<Rightarrow> asgard_device \<Rightarrow> asgard_device" where
  "pre_hb_hb i d = (let (d1, spay) = pre_hb_setup d (hb_payload (target d i)) (int i)
     in upd_target i (\<lambda>t. t\<lparr>hb_payload := spay\<rparr>) d1)"

text \<open>The loop of \<open>asgard_pm_stop\<close> runs while \<open>i > num_of_targets\<close>, from \<open>i = 0\<close>: it never runs.\<close>

definition asgard_pm_stop :: "asgard_device \<Rightarrow> int \<times> asgard_device" where
  "asgard_pm_stop d =
     (let d1 = pm_state_transition_to ASGARD_PM_READY d
      in (0, fold (\<lambda>i d. d\<lparr>ci := update_cluster_member (clock d) (ci d) (int i) 0\<rparr>)
               (takeWhile (\<lambda>i. i > targets d1) [0..<targets d1]) d1))"

definition invalidate_proto_data :: "asgard_payload \<Rightarrow> asgard_payload" where
  "invalidate_proto_data spay = spay\<lparr>protocols_included := 0\<rparr>"

section \<open>Lemmas\<close>

text \<open>Stopping the pacemaker changes no member state.\<close>

lemma asgard_pm_stop_eq: "asgard_pm_stop d = (0, pm_state_transition_to ASGARD_PM_READY d)"
proof -
  have "takeWhile (\<lambda>i. i > n) [0..<n] = []" for n :: nat
    by (cases n) (simp_all add: upt_rec takeWhile_eq_Nil_iff)
  then show ?thesis by (simp add: asgard_pm_stop_def Let_def)
qed

lemma pm_state_transition_frame [simp]:
  "con (pm_state_transition_to st d) = con d" "ci (pm_state_transition_to st d) = ci d"
  "targets (pm_state_transition_to st d) = targets d" "clock (pm_state_transition_to st d) = clock d"
  "target (pm_state_transition_to st d) i = target d i"
  "pm_state (pm (pm_state_transition_to st d)) = st"
  by (simp_all add: pm_state_transition_to_def upd)

lemma pre_hb_proto_frame:
  "con (fst (pre_hb_proto t j x)) = con (fst x)" "pm (fst (pre_hb_proto t j x)) = pm (fst x)"
  "is_leader (fst (pre_hb_proto t j x)) = is_leader (fst x)" "ci (fst (pre_hb_proto t j x)) = ci (fst x)"
  "cur_leader_lid (fst (pre_hb_proto t j x)) = cur_leader_lid (fst x)"
  by (simp_all add: pre_hb_proto_def setup_ping_msg_con Let_def split_beta)

lemma pre_hb_fold_frame:
  assumes "\<And>j x. g (fst (pre_hb_proto t j x)) = g (fst x)"
  shows "g (fst (fold (pre_hb_proto t) js x)) = g (fst x)"
  by (induction js arbitrary: x) (simp_all add: assms)

lemma pre_hb_setup_frame:
  assumes "\<And>j x. g (fst (pre_hb_proto t j x)) = g (fst x)"
  shows "g (fst (pre_hb_setup d spay t)) = g d"
  by (simp add: pre_hb_setup_def pre_hb_fold_frame [of g, OF assms] split: option.splits)

lemma pre_hb_pkt_frame:
  "con (pre_hb_pkt i d) = con d" "is_leader (pre_hb_pkt i d) = is_leader d"
  "targets (pre_hb_pkt i d) = targets d" "pm_state (pm (pre_hb_pkt i d)) = pm_state (pm d)"
  "ci (pre_hb_pkt i d) = ci d" "cur_leader_lid (pre_hb_pkt i d) = cur_leader_lid d"
  "alive (target (pre_hb_pkt i d) j) = alive (target d j)"
  by (simp_all add: pre_hb_pkt_def Let_def split_beta upd
      pre_hb_setup_frame [of con, OF pre_hb_proto_frame(1)]
      pre_hb_setup_frame [of pm, OF pre_hb_proto_frame(2)]
      pre_hb_setup_frame [of is_leader, OF pre_hb_proto_frame(3)]
      pre_hb_setup_frame [of ci, OF pre_hb_proto_frame(4)]
      pre_hb_setup_frame [of cur_leader_lid, OF pre_hb_proto_frame(5)])

lemma pre_hb_hb_frame:
  "con (pre_hb_hb i d) = con d" "is_leader (pre_hb_hb i d) = is_leader d"
  "targets (pre_hb_hb i d) = targets d" "pm_state (pm (pre_hb_hb i d)) = pm_state (pm d)"
  "ci (pre_hb_hb i d) = ci d" "cur_leader_lid (pre_hb_hb i d) = cur_leader_lid d"
  "alive (target (pre_hb_hb i d) j) = alive (target d j)"
  by (simp_all add: pre_hb_hb_def Let_def split_beta upd
      pre_hb_setup_frame [of con, OF pre_hb_proto_frame(1)]
      pre_hb_setup_frame [of pm, OF pre_hb_proto_frame(2)]
      pre_hb_setup_frame [of is_leader, OF pre_hb_proto_frame(3)]
      pre_hb_setup_frame [of ci, OF pre_hb_proto_frame(4)]
      pre_hb_setup_frame [of cur_leader_lid, OF pre_hb_proto_frame(5)])

text \<open>What a receiver reads from the heartbeat a leader sends into a free payload.\<close>

lemma setup_alive_msg_fields:
  assumes "asgard_reserve_proto (to_u16 inst) (Some spay) 22 = Some (off, spay1)"
    and "setup_alive_msg d spay inst = (r, spay')"
  shows "r = 0" and "GET_CON_PROTO_OPCODE_VAL (proto_data spay') off = opcode_num ALIVE"
    and "GET_CON_PROTO_PARAM1_VAL (proto_data spay') off = to_u32 (con_term (con d))"
    and "GET_CON_PROTO_PARAM2_VAL (proto_data spay') off = to_s32 (commit_idx (the_log d))"
    and "GET_CON_PROTO_PARAM3_VAL (proto_data spay') off = to_s32 (stable_idx (the_log d))"
  using assms by (auto simp: setup_alive_msg_def ASGARD_PROTO_CON_PAYLOAD_SZ_def set_le_opcode_fields)

end
