(* ===== verification/AsgConsensus.thy ===== *)
theory AsgConsensus
  imports AsgReplication AsgHeartbeat
begin

text \<open>
  The part of \<open>core/consensus.c\<close> the three roles share: election messages, the decision about a
  nomination, and the handling of an append message by its receiver.  Comparisons are written with
  the conversions of C: a comparison of a signed with an unsigned operand is unsigned.  The
  instance a handler works for is the device's consensus instance.
\<close>

section \<open>Election messages\<close>

definition nstate_string :: "node_state \<Rightarrow> string" where
  "nstate_string st = (case st of FOLLOWER \<Rightarrow> ''Follower'' | CANDIDATE \<Rightarrow> ''Candidate''
     | LEADER \<Rightarrow> ''Leader'' | _ \<Rightarrow> ''Unknown State '')"

definition le_state_name :: "le_state \<Rightarrow> string" where
  "le_state_name st = (case st of LE_RUNNING \<Rightarrow> ''RUNNING'' | LE_READY \<Rightarrow> ''READY'' | LE_UNINIT \<Rightarrow> ''UNINIT'')"

definition opcode_string :: "le_opcode \<Rightarrow> string" where
  "opcode_string op = (case op of VOTE \<Rightarrow> ''Vote'' | NOMI \<Rightarrow> ''Nomination'' | NOOP \<Rightarrow> ''Noop''
     | APPEND \<Rightarrow> ''Append'' | APPEND_REPLY \<Rightarrow> ''Append Reply'' | ALIVE \<Rightarrow> ''Alive''
     | _ \<Rightarrow> ''Unknown State '')"

text \<open>A message put into the out-of-schedule payload of a target; a full payload drops it.\<close>

definition put_le_msg ::
  "asgard_device \<Rightarrow> le_opcode \<Rightarrow> nat \<Rightarrow> int \<Rightarrow> int \<Rightarrow> int \<Rightarrow> int \<Rightarrow> asgard_device option" where
  "put_le_msg d opcode target_id p1 p2 p3 p4 =
     (case asgard_reserve_proto (to_u16 (instance_id (con d))) (Some (pkt_payload (target d target_id)))
             (to_u16 ASGARD_PROTO_CON_PAYLOAD_SZ) of
        None \<Rightarrow> None
      | Some (off, spay) \<Rightarrow>
          Some (upd_target target_id (\<lambda>t. t\<lparr>pkt_payload :=
            spay\<lparr>proto_data := set_le_opcode (proto_data spay) off opcode p1 p2 p3 p4\<rparr>\<rparr>) d))"

definition setup_le_msg ::
  "asgard_device \<Rightarrow> le_opcode \<Rightarrow> nat \<Rightarrow> int \<Rightarrow> int \<Rightarrow> int \<Rightarrow> int \<Rightarrow> asgard_device" where
  "setup_le_msg d opcode target_id p1 p2 p3 p4 =
     (case put_le_msg d opcode target_id p1 p2 p3 p4 of None \<Rightarrow> d | Some d1 \<Rightarrow> d1)"

definition setup_le_broadcast_msg :: "le_opcode \<Rightarrow> asgard_device \<Rightarrow> int \<times> asgard_device" where
  "setup_le_broadcast_msg opcode d =
     (let trm = con_term (con d);
          candidate_id = node_id (con d);
          last_log_idx = stable_idx (the_log d);
          buf_stable_idx = consensus_idx_to_buffer_idx (the_log d) (last_applied (the_log d))
      in if last_applied (the_log d) \<noteq> -1 \<and> buf_stable_idx = -1 then (-1, d)
         else
           let last_log_term = (if last_applied (the_log d) = -1 then trm
                 else to_s32 (e_term (entry_at (the_log d) buf_stable_idx)))
           in (0, for_targets (\<lambda>i d. setup_le_msg d opcode i trm candidate_id last_log_idx last_log_term) d))"

definition le_state_transition_to :: "le_state \<Rightarrow> asgard_device \<Rightarrow> asgard_device" where
  "le_state_transition_to st = upd_con (\<lambda>p. p\<lparr>le_state := st\<rparr>)"

section \<open>Nominations\<close>

text \<open>\<open>param1\<close>, \<open>param3\<close> and \<open>param4\<close> are unsigned; the caller treats every result but 0 as a
  granted vote.\<close>

definition check_handle_nomination ::
  "asgard_device \<Rightarrow> int \<Rightarrow> int \<Rightarrow> int \<Rightarrow> int \<Rightarrow> int \<times> asgard_device" where
  "check_handle_nomination d0 param1 param3 param4 rcluster_id =
     (let d = (if pm_cluster_id (pm d0) < to_u32 rcluster_id \<and> to_u32 (con_term (con d0)) < param1
               then upd_con (\<lambda>p. p\<lparr>con_term := to_s32 param1\<rparr>) d0 else d0);
          priv = con d;
          lid = cur_leader_lid d
      in if to_u32 (con_term priv) < param1 then
           if voted priv = param1 then (0, d)
           else if 0 \<le> lid \<and> lid < int (targets d) \<and> alive (target d (nat lid)) \<noteq> 0
                   \<and> leader_id priv < to_u32 rcluster_id
           then (0, d)
           else if last_idx (sm_log priv) = -1 then (1, d)
           else
             let buf_lastidx = to_u32 (consensus_idx_to_buffer_idx (sm_log priv) (last_idx (sm_log priv)))
             in if buf_lastidx = to_u32 (-1) then (-1, d)
                else (case log_entries (sm_log priv) buf_lastidx of
                        None \<Rightarrow> (0, d)
                      | Some e \<Rightarrow>
                          if param3 \<ge> to_u32 (last_idx (sm_log priv)) \<and> e_term e = param4 then (1, d)
                          else (0, d))
         else (0, d))"

definition reply_vote :: "asgard_device \<Rightarrow> nat \<Rightarrow> int \<Rightarrow> int \<Rightarrow> asgard_device" where
  "reply_vote d remote_lid param1 param2 =
     (let d1 = setup_le_msg d VOTE remote_lid param1 param2 0 0;
          d2 = upd_con (\<lambda>p. p\<lparr>voted := to_u32 param1\<rparr>) d1;
          d3 = upd_target remote_lid (\<lambda>t. t\<lparr>fire := 1\<rparr>) d2
      in con_log_event VOTE_FOR_CANDIDATE d3)"

section \<open>Append messages\<close>

definition reply_append :: "asgard_device \<Rightarrow> nat \<Rightarrow> int \<Rightarrow> int \<Rightarrow> int \<Rightarrow> asgard_device" where
  "reply_append d remote_lid param1 append_success logged_idx =
     (case put_le_msg d APPEND_REPLY remote_lid param1 append_success logged_idx (stable_idx (the_log d)) of
        None \<Rightarrow> d
      | Some d1 \<Rightarrow> con_log_event (if append_success \<noteq> 0 then REPLY_APPEND_SUCCESS else REPLY_APPEND_FAIL) d1)"

definition check_prev_log_match :: "consensus_priv \<Rightarrow> int \<Rightarrow> int \<Rightarrow> int" where
  "check_prev_log_match priv prev_log_term prev_log_idx =
     (if prev_log_idx = to_u32 (-1) then 0
      else
        let buf_prevlogidx = to_u32 (consensus_idx_to_buffer_idx (sm_log priv) (to_s32 prev_log_idx))
        in if buf_prevlogidx < 0 then to_u32 (-1)
           else if prev_log_idx > to_u32 (last_idx (sm_log priv)) then 1
           else (case log_entries (sm_log priv) buf_prevlogidx of
                   None \<Rightarrow> 1
                 | Some e \<Rightarrow> if e_term e \<noteq> prev_log_term then 1 else 0))"

text \<open>The loop of \<open>append_commands\<close>: \<open>n\<close> iterations from index \<open>i\<close>, reading at \<open>cur_ptr\<close>.\<close>

fun append_loop :: "int \<Rightarrow> nat \<Rightarrow> mem \<Rightarrow> nat \<Rightarrow> int \<Rightarrow> consensus_priv \<Rightarrow> int \<times> consensus_priv" where
  "append_loop now 0 m cur_ptr i priv = (0, priv)"
| "append_loop now (Suc n) m cur_ptr i priv =
     (let (err, priv1) = append_command now priv (ld_bytes ASG_CHUNK_SIZE m cur_ptr) (con_term priv) i
      in if err \<noteq> 0 then (err, priv1)
         else append_loop now n m (cur_ptr + ASG_CHUNK_SIZE) (i + 1) priv1)"

definition append_commands ::
  "int \<Rightarrow> consensus_priv \<Rightarrow> mem \<Rightarrow> nat \<Rightarrow> int \<Rightarrow> int \<Rightarrow> int \<Rightarrow> bool \<Rightarrow> int \<times> consensus_priv" where
  "append_commands now priv m pkt num_entries pkt_size start_log_idx unstable =
     (let new_last = to_s32 (start_log_idx + num_entries - 1)
      in if to_s32 (num_entries * AE_ENTRY_SIZE + ASGARD_PROTO_CON_AE_BASE_SZ) > pkt_size
         then (- EINVAL, priv)
         else
           let (err, priv1) = append_loop now (nat (new_last - start_log_idx + 1)) m
                                (CON_PROTO_ENTRIES_START pkt) start_log_idx priv
           in if err \<noteq> 0 then (err, priv1)
              else (0, if \<not> unstable then update_stable_idx priv1 else priv1))"

definition append_reply_fire :: "asgard_device \<Rightarrow> nat \<Rightarrow> int \<Rightarrow> int \<Rightarrow> asgard_device" where
  "append_reply_fire d remote_lid success logged_idx =
     upd_target remote_lid (\<lambda>t. t\<lparr>fire := 1\<rparr>)
       (reply_append d remote_lid (con_term (con d)) success logged_idx)"

definition handle_append_rpc :: "asgard_device \<Rightarrow> mem \<Rightarrow> nat \<Rightarrow> nat \<Rightarrow> int \<Rightarrow> asgard_device" where
  "handle_append_rpc d0 m pkt remote_lid rcluster_id =
     (let num_entries = GET_CON_AE_NUM_ENTRIES_VAL m pkt;
          d = upd_target remote_lid (\<lambda>t. t\<lparr>received_log_replications := received_log_replications t + 1\<rparr>) d0;
          pkt_size = GET_PROTO_OFFSET_VAL m pkt;
          prev_log_term = GET_CON_AE_PREV_LOG_TERM_VAL m pkt;
          prev_log_idx = GET_CON_AE_PREV_LOG_IDX_VAL m pkt;
          priv = con d;
          unstable = (prev_log_idx > stable_idx (sm_log priv) \<and> prev_log_term = to_u32 (con_term priv)
                      \<and> leader_id priv = to_u32 rcluster_id);
          start_idx = to_s32 (prev_log_idx + 1)
      in if num_entries = 0 then d
         else if prev_log_idx < stable_idx (sm_log priv) then d
         else if check_prev_log_match priv prev_log_term (to_u32 (stable_idx (sm_log priv))) \<noteq> 0
         then append_reply_fire d remote_lid 0 (stable_idx (sm_log priv))
         else
           let (err, priv1) = append_commands (clock d) priv m pkt (to_s32 num_entries) pkt_size start_idx unstable
           in if err \<noteq> 0 then append_reply_fire (d\<lparr>con := priv1\<rparr>) remote_lid 0 (stable_idx (sm_log priv1))
              else
                let priv2 = update_next_retransmission_request_idx priv1;
                    priv3 = (if unstable then priv2\<lparr>sm_log := (sm_log priv2)\<lparr>unstable_commits :=
                               unstable_commits (sm_log priv2) + 1\<rparr>\<rparr> else priv2);
                    d1 = d\<lparr>con := priv3\<rparr>
                in if next_retrans_req_idx (sm_log priv3) \<noteq> -2
                   then append_reply_fire d1 remote_lid 2 (next_retrans_req_idx (sm_log priv3))
                   else if mc_enable (mc d1) \<noteq> 0 then d1
                   else append_reply_fire d1 remote_lid 1 (stable_idx (sm_log priv3)))"

section \<open>State of the instance\<close>

definition set_all_targets_dead :: "asgard_device \<Rightarrow> asgard_device" where
  "set_all_targets_dead d = for_targets (\<lambda>i. upd_target i (\<lambda>t. t\<lparr>alive := 0\<rparr>)) d"

definition consensus_is_alive :: "asgard_device \<Rightarrow> bool" where
  "consensus_is_alive d = (if \<not> has_con d then False else if le_state (con d) \<noteq> LE_RUNNING then False else True)"

end
