(* ===== verification/AsgAppend.thy ===== *)
theory AsgAppend
  imports AsgConsensus
begin

text \<open>
  The append path of a follower (\<open>append_commands\<close>, \<open>_handle_append_rpc\<close>): what it leaves in the
  log, what it answers, and the invariants of the log it keeps whatever message arrives.
\<close>

section \<open>One command\<close>

lemma append_command_at:
  assumes ok: "chunks_ok (sm_log p)" and i: "commit_idx (sm_log p) \<le> i" "0 \<le> i" "i < 2147483648"
    and len: "length data = ASG_CHUNK_SIZE"
    and p'_def: "p' = snd (append_command now p data trm i)"
  shows "chunks_ok (sm_log p')"
    and "log_at (sm_log p') i = \<lparr>e_valid = 1, e_term = to_u32 trm, e_data = data\<rparr>"
    and "consensus_idx_to_buffer_idx (sm_log p) j \<noteq> consensus_idx_to_buffer_idx (sm_log p) i \<Longrightarrow>
       log_at (sm_log p') j = log_at (sm_log p) j"
proof -
  have eok: "entries_ok (sm_log p)" using ok by (simp add: chunks_ok_def)
  then have m: "max_entries (sm_log p) = MAX_CONSENSUS_LOG" by (simp add: entries_ok_def)
  note a = append_command_ok [OF eok i, of now data trm, folded p'_def]
  have m': "max_entries (sm_log p') = MAX_CONSENSUS_LOG" using a(4) by (simp add: entries_ok_def)
  have b: "consensus_idx_to_buffer_idx (sm_log p') j = consensus_idx_to_buffer_idx (sm_log p) j" for j
    by (rule con2buf_cong) (simp add: m m')
  have bi: "consensus_idx_to_buffer_idx (sm_log p) i = i mod MAX_CONSENSUS_LOG"
    by (rule con2buf_nonneg [OF m i(2,3)])
  have e: "entry_at (sm_log p') c = (if c = i mod MAX_CONSENSUS_LOG
      then \<lparr>e_valid = 1, e_term = to_u32 trm, e_data = data\<rparr> else entry_at (sm_log p) c)" for c
    by (simp add: entry_at_def a(2))
  show "chunks_ok (sm_log p')" using a(4) ok len by (simp add: chunks_ok_def e)
  show "log_at (sm_log p') i = \<lparr>e_valid = 1, e_term = to_u32 trm, e_data = data\<rparr>"
    by (simp add: log_at_def b e bi)
  show "consensus_idx_to_buffer_idx (sm_log p) j \<noteq> consensus_idx_to_buffer_idx (sm_log p) i \<Longrightarrow>
      log_at (sm_log p') j = log_at (sm_log p) j"
    by (simp add: log_at_def b e bi)
qed

section \<open>A message\<close>

text \<open>What the loop changes nothing of.\<close>

definition log_ends :: "consensus_priv \<Rightarrow> int \<times> int \<times> int \<times> int \<times> int \<times> int \<times> node_state \<times> int \<times> asg_ring_buf option \<times> int" where
  "log_ends p = (commit_idx (sm_log p), stable_idx (sm_log p), last_applied (sm_log p),
     max_entries (sm_log p), next_retrans_req_idx (sm_log p), con_term p, nstate p, instance_id p, rxbuf p, leader_id p)"

lemma log_ends_append_command: "log_ends (snd (append_command now p data trm i)) = log_ends p"
proof -
  have "nstate (snd (append_command now p data trm i)) = nstate p"
    "instance_id (snd (append_command now p data trm i)) = instance_id p"
    "leader_id (snd (append_command now p data trm i)) = leader_id p"
    by (simp_all add: append_command_def Let_def)
  then show ?thesis by (simp add: log_ends_def append_command_frame)
qed

lemma log_ends_append_loop: "log_ends (snd (append_loop now n m cur i p)) = log_ends p"
proof (induction now n m cur i p rule: append_loop.induct)
  case (2 now n m cur i p)
  show ?case
    using 2 log_ends_append_command [of now p "ld_bytes ASG_CHUNK_SIZE m cur" "con_term p" i]
    by (auto simp: Let_def split: prod.splits)
qed simp

lemma append_loop_last_mono:
  "last_idx (sm_log p) \<le> last_idx (sm_log (snd (append_loop now n m cur i p)))"
proof (induction now n m cur i p rule: append_loop.induct)
  case (2 now n m cur i p)
  show ?case
    using 2 append_command_last_mono [of p now "ld_bytes ASG_CHUNK_SIZE m cur" "con_term p" i]
    by (force simp: Let_def split: prod.splits)
qed simp

lemma append_loop_entries_ok:
  "entries_ok (sm_log p) \<Longrightarrow> entries_ok (sm_log (snd (append_loop now n m cur i p)))"
proof (induction now n m cur i p rule: append_loop.induct)
  case (2 now n m cur i p)
  show ?case
    using 2 append_command_entries_ok [of p now "ld_bytes ASG_CHUNK_SIZE m cur" "con_term p" i]
    by (auto simp: Let_def split: prod.splits)
qed simp

lemma append_loop_spec:
  assumes "chunks_ok (sm_log p)" and "commit_idx (sm_log p) \<le> i" "0 \<le> i" "i + int n \<le> 2147483648"
    and "int n \<le> MAX_CONSENSUS_LOG"
  shows "\<exists>p'. append_loop now n m cur i p = (0, p') \<and> chunks_ok (sm_log p')
     \<and> last_idx (sm_log p') = (if n = 0 then last_idx (sm_log p) else max (last_idx (sm_log p)) (i + int n - 1))
     \<and> (\<forall>k < n. log_at (sm_log p') (i + int k) = \<lparr>e_valid = 1, e_term = to_u32 (con_term p),
           e_data = ld_bytes ASG_CHUNK_SIZE m (cur + k * ASG_CHUNK_SIZE)\<rparr>)
     \<and> (\<forall>j. 0 \<le> j \<and> i + int n - MAX_CONSENSUS_LOG \<le> j \<and> j < i \<longrightarrow> log_at (sm_log p') j = log_at (sm_log p) j)"
  using assms
proof (induction n arbitrary: i cur p)
  case (Suc n)
  let ?p1 = "snd (append_command now p (ld_bytes ASG_CHUNK_SIZE m cur) (con_term p) i)"
  have i: "i < 2147483648" using Suc.prems(4) by simp
  have len: "length (ld_bytes ASG_CHUNK_SIZE m cur) = ASG_CHUNK_SIZE" by (simp add: ld_bytes_def)
  have mx: "max_entries (sm_log p) = MAX_CONSENSUS_LOG"
    using Suc.prems(1) by (simp add: chunks_ok_def entries_ok_def)
  note at = append_command_at [OF Suc.prems(1,2,3) i len refl, where now = now and trm = "con_term p"]
  have ok: "fst (append_command now p (ld_bytes ASG_CHUNK_SIZE m cur) (con_term p) i) = 0"
    and last1: "last_idx (sm_log ?p1) = max (last_idx (sm_log p)) i"
    using append_command_ok [OF _ Suc.prems(2,3) i] Suc.prems(1) by (simp_all add: chunks_ok_def)
  have step: "append_loop now (Suc n) m cur i p = append_loop now n m (cur + ASG_CHUNK_SIZE) (i + 1) ?p1"
    using ok by (simp add: Let_def split_beta)
  have win: "log_at (sm_log ?p1) j = log_at (sm_log p) j"
    if "0 \<le> j" "i + int (Suc n) - MAX_CONSENSUS_LOG \<le> j" "j < i" for j
    using con2buf_inj_window [OF mx, of j i] that i by (intro at(3)) simp
  obtain p' where p': "append_loop now n m (cur + ASG_CHUNK_SIZE) (i + 1) ?p1 = (0, p')"
    "chunks_ok (sm_log p')"
    "last_idx (sm_log p') = (if n = 0 then last_idx (sm_log ?p1) else max (last_idx (sm_log ?p1)) (i + 1 + int n - 1))"
    "\<And>k. k < n \<Longrightarrow> log_at (sm_log p') (i + 1 + int k) = \<lparr>e_valid = 1, e_term = to_u32 (con_term p),
           e_data = ld_bytes ASG_CHUNK_SIZE m (cur + ASG_CHUNK_SIZE + k * ASG_CHUNK_SIZE)\<rparr>"
    "\<And>j. 0 \<le> j \<and> i + 1 + int n - MAX_CONSENSUS_LOG \<le> j \<and> j < i + 1 \<longrightarrow>
        log_at (sm_log p') j = log_at (sm_log ?p1) j"
    using Suc.IH [OF at(1), of "i + 1" "cur + ASG_CHUNK_SIZE"] Suc.prems
    by (auto simp: append_command_frame)
  have "log_at (sm_log p') (i + int k) = \<lparr>e_valid = 1, e_term = to_u32 (con_term p),
           e_data = ld_bytes ASG_CHUNK_SIZE m (cur + k * ASG_CHUNK_SIZE)\<rparr>" if "k < Suc n" for k
  proof (cases k)
    case 0
    then show ?thesis using p'(5) [of i] at(2) Suc.prems(3,5) by simp
  next
    case (Suc k')
    then show ?thesis using p'(4) [of k'] that by (simp add: algebra_simps)
  qed
  then show ?case unfolding step using p' win last1 by (auto simp: algebra_simps)
qed simp

section \<open>The stable append\<close>

lemma update_stable_frame:
  "sm_log (update_stable_idx p) = (sm_log p)\<lparr>stable_idx := stable_idx (sm_log (update_stable_idx p))\<rparr>"
  "con_term (update_stable_idx p) = con_term p" "rxbuf (update_stable_idx p) = rxbuf p"
  "nstate (update_stable_idx p) = nstate p" "instance_id (update_stable_idx p) = instance_id p"
  "leader_id (update_stable_idx p) = leader_id p"
proof -
  have "stable_loop l i = l\<lparr>stable_idx := stable_idx (stable_loop l i)\<rparr>" for l i
  proof (induction l i rule: stable_loop.induct)
    case (1 l i)
    show ?case
      by (subst (1 2) stable_loop.simps) (use "1.IH" in \<open>auto simp: Let_def\<close>)
  qed
  then show "sm_log (update_stable_idx p) = (sm_log p)\<lparr>stable_idx := stable_idx (sm_log (update_stable_idx p))\<rparr>"
    by (simp add: update_stable_idx_def)
qed (simp_all add: update_stable_idx_def)

lemma chunks_ok_stable [simp]: "chunks_ok (l\<lparr>stable_idx := s\<rparr>) = chunks_ok l"
  by (simp add: chunks_ok_def entries_ok_def entry_at_def)

lemma log_data_stable [simp]: "log_data (l\<lparr>stable_idx := s\<rparr>) i j = log_data l i j"
  by (simp add: log_data_def)

text \<open>A message of \<open>n\<close> commands that continues the log without a gap.\<close>

lemma append_commands_stable:
  assumes ok: "chunks_ok (sm_log p)" and n: "0 < n" "n \<le> MAX_CONSENSUS_LOG"
    and num: "GET_CON_AE_NUM_ENTRIES_VAL m pkt = n" "n * AE_ENTRY_SIZE + ASGARD_PROTO_CON_AE_BASE_SZ \<le> sz"
    and st: "stable_idx (sm_log p) = last_idx (sm_log p)" "-1 \<le> last_idx (sm_log p)"
    and c: "commit_idx (sm_log p) \<le> last_idx (sm_log p)"
    and lim: "last_idx (sm_log p) + n < 2147483648"
  shows "\<exists>p'. append_commands now p m pkt n sz (last_idx (sm_log p) + 1) False = (0, p')
     \<and> chunks_ok (sm_log p') \<and> last_idx (sm_log p') = last_idx (sm_log p) + n
     \<and> stable_idx (sm_log p') = last_idx (sm_log p) + n
     \<and> log_data (sm_log p') (last_idx (sm_log p) + 1) (last_idx (sm_log p) + n) = ae_cmds m pkt
     \<and> (\<forall>j. 0 \<le> j \<and> last_idx (sm_log p) + 1 + n - MAX_CONSENSUS_LOG \<le> j \<and> j \<le> last_idx (sm_log p) \<longrightarrow>
          log_at (sm_log p') j = log_at (sm_log p) j)
     \<and> commit_idx (sm_log p') = commit_idx (sm_log p)
     \<and> last_applied (sm_log p') = last_applied (sm_log p)
     \<and> next_retrans_req_idx (sm_log p') = next_retrans_req_idx (sm_log p)
     \<and> (\<forall>j. last_idx (sm_log p) + 1 \<le> j \<and> j \<le> last_idx (sm_log p) + n \<longrightarrow>
          e_term (log_at (sm_log p') j) = to_u32 (con_term p))
     \<and> instance_id p' = instance_id p \<and> con_term p' = con_term p \<and> leader_id p' = leader_id p"
proof -
  let ?L = "last_idx (sm_log p)"
  obtain p1 where p1: "append_loop now (nat n) m (CON_PROTO_ENTRIES_START pkt) (?L + 1) p = (0, p1)"
    "chunks_ok (sm_log p1)" "last_idx (sm_log p1) = ?L + n"
    "\<And>k. k < nat n \<Longrightarrow> log_at (sm_log p1) (?L + 1 + int k) = \<lparr>e_valid = 1, e_term = to_u32 (con_term p),
       e_data = ld_bytes ASG_CHUNK_SIZE m (CON_PROTO_ENTRIES_START pkt + k * ASG_CHUNK_SIZE)\<rparr>"
    "\<And>j. 0 \<le> j \<Longrightarrow> ?L + 1 + n - MAX_CONSENSUS_LOG \<le> j \<Longrightarrow> j < ?L + 1 \<Longrightarrow> log_at (sm_log p1) j = log_at (sm_log p) j"
    using append_loop_spec [OF ok, of "?L + 1" "nat n" now m "CON_PROTO_ENTRIES_START pkt"] n st c lim
    by auto
  have ends: "log_ends p1 = log_ends p"
    using log_ends_append_loop [of now "nat n" m "CON_PROTO_ENTRIES_START pkt" "?L + 1" p] p1(1) by simp
  let ?p' = "update_stable_idx p1"
  have mx: "max_entries (sm_log p1) = MAX_CONSENSUS_LOG" using p1(2) by (simp add: chunks_ok_def entries_ok_def)
  have valid: "e_valid (log_at (sm_log p1) j) = 1" if "?L + 1 \<le> j" "j \<le> ?L + n" for j
    using p1(4) [of "nat (j - (?L + 1))"] that by simp
  have s1: "stable_idx (sm_log p1) = ?L" using ends st by (simp add: log_ends_def)
  have sp: "stable_idx (sm_log ?p') = ?L + n"
  proof (rule ccontr)
    let ?s = "stable_idx (stable_loop (sm_log p1) (?L + 1))"
    assume "stable_idx (sm_log ?p') \<noteq> ?L + n"
    then have "?s \<noteq> ?L + n" using s1 by (simp add: update_stable_idx_def)
    moreover have "?L \<le> ?s" "?s \<le> ?L + n" "?s < ?L + n \<longrightarrow> e_valid (log_at (sm_log p1) (?s + 1)) = 0"
      using stable_loop_spec [OF mx, of "?L + 1"] s1 p1(3) n by simp_all
    ultimately show False using valid [of "?s + 1"] by simp
  qed
  have nl: "to_s32 (?L + n) = ?L + n" "to_s32 (n * AE_ENTRY_SIZE + ASGARD_PROTO_CON_AE_BASE_SZ) =
      n * AE_ENTRY_SIZE + ASGARD_PROTO_CON_AE_BASE_SZ"
    using n st lim by (simp_all add: cint size_defs MAX_CONSENSUS_LOG_def)
  have run: "append_commands now p m pkt n sz (?L + 1) False = (0, ?p')"
    using num p1(1) by (simp add: append_commands_def nl Let_def)
  have "log_data (sm_log p1) (?L + 1) (?L + n) = ae_cmds m pkt"
  proof -
    have up: "[?L + 1..?L + n] = map (\<lambda>k. ?L + 1 + int k) [0..<nat n]"
      using n by (intro nth_equalityI) (auto simp: nth_upto)
    show ?thesis unfolding ae_cmds_def log_data_def up num map_map
      by (intro map_cong refl) (simp add: p1(4))
  qed
  moreover have fr: "sm_log ?p' = (sm_log p1)\<lparr>stable_idx := ?L + n\<rparr>"
    using update_stable_frame(1) [of p1] unfolding sp .
  moreover have "e_term (log_at (sm_log p1) j) = to_u32 (con_term p)" if "?L + 1 \<le> j" "j \<le> ?L + n" for j
    using p1(4) [of "nat (j - (?L + 1))"] that by simp
  ultimately show ?thesis
    using p1(2,3,5) ends
    by (intro exI [of _ ?p'] conjI) (simp_all add: run fr log_ends_def update_stable_frame(2,5,6))
qed

section \<open>The reply\<close>

lemma put_le_msg_frame:
  assumes "\<And>p d. g (upd_target t (\<lambda>t. t\<lparr>pkt_payload := p\<rparr>) d) = g d" and "put_le_msg d op t p1 p2 p3 p4 = Some d'"
  shows "g d' = g d"
  using assms by (auto simp: put_le_msg_def split: option.splits)

lemma put_le_msg_con:
  assumes "put_le_msg d op t p1 p2 p3 p4 = Some d'"
  shows "con d' = con d" "targets d' = targets d" "is_leader d' = is_leader d" "mc d' = mc d"
    "ci d' = ci d" "clock d' = clock d" "cur_leader_lid d' = cur_leader_lid d"
    "pm_state (pm d') = pm_state (pm d)" "alive (target d' j) = alive (target d j)"
    "fire (target d' j) = fire (target d j)"
  using assms by (auto simp: put_le_msg_def upd split: option.splits)

lemma put_le_msg_payload:
  assumes "asgard_reserve_proto (to_u16 (instance_id (con d))) (Some (pkt_payload (target d t))) 22 = Some (off, spay)"
  shows "\<exists>d'. put_le_msg d op t p1 p2 p3 p4 = Some d'
     \<and> proto_data (pkt_payload (target d' t)) = set_le_opcode (proto_data spay) off op p1 p2 p3 p4"
  using assms by (simp add: put_le_msg_def ASGARD_PROTO_CON_PAYLOAD_SZ_def)

lemma con_reply:
  "sm_log (con (append_reply_fire d t s i)) = the_log d"
  "con_term (con (append_reply_fire d t s i)) = con_term (con d)"
  "nstate (con (append_reply_fire d t s i)) = nstate (con d)"
  "rxbuf (con (append_reply_fire d t s i)) = rxbuf (con d)"
  "voted (con (append_reply_fire d t s i)) = voted (con d)"
  "is_leader (append_reply_fire d t s i) = is_leader d"
  "ci (append_reply_fire d t s i) = ci d"
  by (simp_all add: append_reply_fire_def reply_append_def put_le_msg_def upd split: option.split)

lemma reply_fields:
  assumes "asgard_reserve_proto (to_u16 (instance_id (con d))) (Some (pkt_payload (target d t))) 22 = Some (off, spay)"
    and m': "m' = proto_data (pkt_payload (target (append_reply_fire d t s i) t))"
  shows "GET_CON_PROTO_OPCODE_VAL m' off = opcode_num APPEND_REPLY"
    and "GET_CON_PROTO_PARAM1_VAL m' off = to_u32 (con_term (con d))"
    and "GET_CON_PROTO_PARAM2_VAL m' off = to_s32 s"
    and "GET_CON_PROTO_PARAM3_VAL m' off = to_s32 i"
    and "GET_CON_PROTO_PARAM4_VAL m' off = to_s32 (stable_idx (the_log d))"
    and "fire (target (append_reply_fire d t s i) t) = 1"
proof -
  obtain d1 where "put_le_msg d APPEND_REPLY t (con_term (con d)) s i (stable_idx (the_log d)) = Some d1"
    "proto_data (pkt_payload (target d1 t)) =
       set_le_opcode (proto_data spay) off APPEND_REPLY (con_term (con d)) s i (stable_idx (the_log d))"
    using put_le_msg_payload [OF assms(1)] by blast
  then have "m' = set_le_opcode (proto_data spay) off APPEND_REPLY (con_term (con d)) s i (stable_idx (the_log d))"
    unfolding m' by (simp add: append_reply_fire_def reply_append_def upd)
  then show "GET_CON_PROTO_OPCODE_VAL m' off = opcode_num APPEND_REPLY"
    "GET_CON_PROTO_PARAM1_VAL m' off = to_u32 (con_term (con d))"
    "GET_CON_PROTO_PARAM2_VAL m' off = to_s32 s" "GET_CON_PROTO_PARAM3_VAL m' off = to_s32 i"
    "GET_CON_PROTO_PARAM4_VAL m' off = to_s32 (stable_idx (the_log d))"
    by (simp_all only: set_le_opcode_fields)
  show "fire (target (append_reply_fire d t s i) t) = 1" by (simp add: append_reply_fire_def)
qed

section \<open>The handler\<close>

text \<open>Whatever the message holds, the handler keeps the log invariants, moves the last and the
  stable index only forward and leaves the commit index, the applied index and the term alone.\<close>

lemma append_commands_bounds:
  assumes ok: "entries_ok (sm_log p)"
    and run: "append_commands now p m pkt n sz st u = (err, p')"
  shows "entries_ok (sm_log p') \<and> stable_idx (sm_log p') \<le> max (stable_idx (sm_log p)) (last_idx (sm_log p'))
     \<and> commit_idx (sm_log p') = commit_idx (sm_log p) \<and> last_applied (sm_log p') = last_applied (sm_log p)
     \<and> last_idx (sm_log p) \<le> last_idx (sm_log p') \<and> stable_idx (sm_log p) \<le> stable_idx (sm_log p')
     \<and> next_retrans_req_idx (sm_log p') = next_retrans_req_idx (sm_log p)
     \<and> con_term p' = con_term p \<and> nstate p' = nstate p \<and> rxbuf p' = rxbuf p"
proof -
  obtain k where "(err, p') = (- EINVAL, p) \<or>
    (\<exists>p1 e. append_loop now k m (CON_PROTO_ENTRIES_START pkt) st p = (e, p1)
       \<and> (p' = p1 \<or> p' = update_stable_idx p1))"
    using run by (auto simp: append_commands_def Let_def split: prod.splits if_splits)
  then consider "p' = p" | e p1 where "append_loop now k m (CON_PROTO_ENTRIES_START pkt) st p = (e, p1)"
    "p' = p1 \<or> p' = update_stable_idx p1" by auto
  then show ?thesis
  proof cases
    case 2
    have e1: "log_ends p1 = log_ends p" "last_idx (sm_log p) \<le> last_idx (sm_log p1)" "entries_ok (sm_log p1)"
      using log_ends_append_loop [of now k m "CON_PROTO_ENTRIES_START pkt" st p]
        append_loop_last_mono [of p now k m "CON_PROTO_ENTRIES_START pkt" st]
        append_loop_entries_ok [OF ok, of now k m "CON_PROTO_ENTRIES_START pkt" st] 2(1) by simp_all
    have mx: "max_entries (sm_log p1) = MAX_CONSENSUS_LOG" using e1(3) by (simp add: entries_ok_def)
    have st: "stable_idx (sm_log p1) \<le> stable_idx (sm_log (update_stable_idx p1))"
      "stable_idx (sm_log (update_stable_idx p1)) \<le> max (stable_idx (sm_log p1)) (last_idx (sm_log p1))"
      using stable_loop_spec [OF mx, of "stable_idx (sm_log p1) + 1"] by (simp_all add: update_stable_idx_def)
    obtain s where s: "sm_log (update_stable_idx p1) = (sm_log p1)\<lparr>stable_idx := s\<rparr>"
      using update_stable_frame(1) [of p1] by blast
    show ?thesis
      using 2(2) e1 st s
      by (elim disjE) (auto simp: log_ends_def update_stable_frame(2,3,4) entries_ok_def)
  qed (use ok in simp)
qed

lemma handle_append_cases:
  assumes d': "d' = handle_append_rpc d m pkt lid cid"
  obtains "the_log d' = the_log d" "con_term (con d') = con_term (con d)" "nstate (con d') = nstate (con d)"
  | n st u err p1 r uc where
    "append_commands (clock d) (con d) m pkt n (GET_PROTO_OFFSET_VAL m pkt) st u = (err, p1)"
    "n = to_s32 (GET_CON_AE_NUM_ENTRIES_VAL m pkt)" "st = to_s32 (GET_CON_AE_PREV_LOG_IDX_VAL m pkt + 1)"
    "stable_idx (the_log d) \<le> GET_CON_AE_PREV_LOG_IDX_VAL m pkt"
    "the_log d' = (sm_log p1)\<lparr>next_retrans_req_idx := r, unstable_commits := uc\<rparr>"
    "con_term (con d') = con_term p1" "nstate (con d') = nstate p1"
proof -
  define n where "n = to_s32 (GET_CON_AE_NUM_ENTRIES_VAL m pkt)"
  define st where "st = to_s32 (GET_CON_AE_PREV_LOG_IDX_VAL m pkt + 1)"
  define u where "u = (GET_CON_AE_PREV_LOG_IDX_VAL m pkt > stable_idx (the_log d)
    \<and> GET_CON_AE_PREV_LOG_TERM_VAL m pkt = to_u32 (con_term (con d)) \<and> leader_id (con d) = to_u32 cid)"
  obtain err p1 where run: "append_commands (clock d) (con d) m pkt n (GET_PROTO_OFFSET_VAL m pkt) st u = (err, p1)"
    by force
  have same: "\<exists>r uc. l = l\<lparr>next_retrans_req_idx := r, unstable_commits := uc\<rparr>" for l
    by (rule exI [of _ "next_retrans_req_idx l"], rule exI [of _ "unstable_commits l"]) simp
  obtain r where r: "sm_log (update_next_retransmission_request_idx p1) = (sm_log p1)\<lparr>next_retrans_req_idx := r\<rparr>"
    using update_next_retrans_frame(1) [of p1] by blast
  have same_r: "\<exists>r' uc. l\<lparr>next_retrans_req_idx := r\<rparr> = l\<lparr>next_retrans_req_idx := r', unstable_commits := uc\<rparr>" for l r
    by (rule exI [of _ r], rule exI [of _ "unstable_commits l"]) simp
  note fr = update_next_retrans_frame(2,4)
  have clk: "clock (upd_target lid f d) = clock d" for f by (simp add: upd)
  consider "the_log d' = the_log d \<and> con_term (con d') = con_term (con d) \<and> nstate (con d') = nstate (con d)"
    | "stable_idx (the_log d) \<le> GET_CON_AE_PREV_LOG_IDX_VAL m pkt"
      "\<exists>r uc. the_log d' = (sm_log p1)\<lparr>next_retrans_req_idx := r, unstable_commits := uc\<rparr>"
      "con_term (con d') = con_term p1" "nstate (con d') = nstate p1"
  proof (cases "GET_CON_AE_NUM_ENTRIES_VAL m pkt = 0 \<or> GET_CON_AE_PREV_LOG_IDX_VAL m pkt < stable_idx (the_log d)
      \<or> check_prev_log_match (con d) (GET_CON_AE_PREV_LOG_TERM_VAL m pkt) (to_u32 (stable_idx (the_log d))) \<noteq> 0")
    case True
    then show ?thesis by (intro that(1)) (auto simp: d' handle_append_rpc_def Let_def con_reply)
  next
    case False
    then have le: "stable_idx (the_log d) \<le> GET_CON_AE_PREV_LOG_IDX_VAL m pkt" by simp
    show ?thesis
    proof (cases "err = 0")
      case err0: True
      show ?thesis
        using False run err0 le
        by (intro that(2)) (auto simp: d' handle_append_rpc_def Let_def con_reply clk fr r same_r
            simp flip: n_def st_def u_def)
    next
      case err1: False
      show ?thesis
        using False run err1 le
        by (intro that(2)) (auto simp: d' handle_append_rpc_def Let_def con_reply clk same
            simp flip: n_def st_def u_def)
    qed
  qed
  then show thesis
  proof cases
    case 1
    then show thesis by (intro that(1)) simp_all
  next
    case 2
    then show thesis using that(2) [OF run n_def st_def] by blast
  qed
qed

lemma handle_append_inv:
  assumes ok: "entries_ok (the_log d)" and ch: "log_chain (the_log d)"
    and d': "d' = handle_append_rpc d m pkt lid cid"
  shows "entries_ok (the_log d') \<and> log_chain (the_log d') \<and> commit_idx (the_log d') = commit_idx (the_log d)
     \<and> last_applied (the_log d') = last_applied (the_log d)
     \<and> last_idx (the_log d) \<le> last_idx (the_log d') \<and> stable_idx (the_log d) \<le> stable_idx (the_log d')
     \<and> con_term (con d') = con_term (con d) \<and> nstate (con d') = nstate (con d)"
  using d'
proof (cases rule: handle_append_cases)
  case 1
  then show ?thesis using ok ch by simp
next
  case (2 n st u err p1 r uc)
  show ?thesis
    using append_commands_bounds [OF ok 2(1)] ch 2(5,6,7)
    by (auto simp: log_chain_def entries_ok_def le_max_iff_disj)
qed


lemma sample_chunks_ok: "chunks_ok (sample_log L)"
  by (simp add: chunks_ok_def entries_ok_def entry_at_def sample)

text \<open>The one-entry append message after index 1.\<close>

definition sample_append :: mem where
  "sample_append = st_u32 (st_u32 (st_u32 (st_u16 (\<lambda>_. 0) 2 28) 14 1) 18 1) 26 1"


text \<open>A follower with a gapless log up to \<open>L\<close>, nothing to request, that follows the leader \<open>cid\<close>.\<close>

definition accepting :: "asgard_device \<Rightarrow> int \<Rightarrow> int \<Rightarrow> bool" where
  "accepting d cid L \<longleftrightarrow> chunks_ok (the_log d) \<and> log_chain (the_log d)
     \<and> stable_idx (the_log d) = L \<and> last_idx (the_log d) = L
     \<and> next_retrans_req_idx (the_log d) = -2 \<and> mc_enable (mc d) = 0 \<and> leader_id (con d) = to_u32 cid"

text \<open>The message \<open>m\<close> at \<open>pkt\<close> holds the \<open>n\<close> commands after index \<open>L\<close>, which has the term the
  follower knows.\<close>

definition continues :: "asgard_device \<Rightarrow> int \<Rightarrow> int \<Rightarrow> mem \<Rightarrow> nat \<Rightarrow> bool" where
  "continues d L n m pkt \<longleftrightarrow> n = GET_CON_AE_NUM_ENTRIES_VAL m pkt \<and> 0 < n \<and> n \<le> MAX_AE_ENTRIES_PER_PKT
     \<and> L + n < 2147483648
     \<and> GET_PROTO_OFFSET_VAL m pkt = ASGARD_PROTO_CON_AE_BASE_SZ + n * AE_ENTRY_SIZE
     \<and> GET_CON_AE_PREV_LOG_IDX_VAL m pkt = L
     \<and> (L = -1 \<or> e_term (log_at (the_log d) L) = GET_CON_AE_PREV_LOG_TERM_VAL m pkt)"

lemma handle_append_run:
  assumes acc: "accepting d cid L" and msg: "continues d L n m pkt"
    and d': "d' = handle_append_rpc d m pkt lid cid"
  obtains p' where "d' = append_reply_fire ((upd_target lid (\<lambda>t. t\<lparr>received_log_replications :=
       received_log_replications t + 1\<rparr>) d)\<lparr>con := p'\<rparr>) lid 1 (L + n)"
    and "chunks_ok (sm_log p')" "last_idx (sm_log p') = L + n" "stable_idx (sm_log p') = L + n"
    "log_chain (sm_log p')" "next_retrans_req_idx (sm_log p') = -2"
    "log_data (sm_log p') (L + 1) (L + n) = ae_cmds m pkt"
    "\<And>j. 0 \<le> j \<Longrightarrow> L + 1 + n - MAX_CONSENSUS_LOG \<le> j \<Longrightarrow> j \<le> L \<Longrightarrow>
       log_at (sm_log p') j = log_at (the_log d) j"
    "\<And>j. L + 1 \<le> j \<Longrightarrow> j \<le> L + n \<Longrightarrow> e_term (log_at (sm_log p') j) = to_u32 (con_term (con d))"
    "instance_id p' = instance_id (con d)" "con_term p' = con_term (con d)"
    "leader_id p' = leader_id (con d)" "commit_idx (sm_log p') = commit_idx (the_log d)"
proof -
  let ?d = "upd_target lid (\<lambda>t. t\<lparr>received_log_replications := received_log_replications t + 1\<rparr>) d"
  let ?l = "the_log d"
  have ok: "chunks_ok ?l" and ch: "log_chain ?l" and gap: "stable_idx ?l = last_idx ?l"
    and nr: "next_retrans_req_idx ?l = -2" and mcast: "mc_enable (mc d) = 0" and L: "L = last_idx ?l"
    using acc by (simp_all add: accepting_def)
  have n: "n = GET_CON_AE_NUM_ENTRIES_VAL m pkt" "0 < n" "n \<le> MAX_AE_ENTRIES_PER_PKT"
    and Ln: "L + n < 2147483648"
    and sz: "GET_PROTO_OFFSET_VAL m pkt = ASGARD_PROTO_CON_AE_BASE_SZ + n * AE_ENTRY_SIZE"
    and prev: "GET_CON_AE_PREV_LOG_IDX_VAL m pkt = L"
      "L = -1 \<or> e_term (log_at ?l L) = GET_CON_AE_PREV_LOG_TERM_VAL m pkt"
    using msg by (simp_all add: continues_def)
  have mx: "max_entries ?l = MAX_CONSENSUS_LOG" and L0: "-1 \<le> L"
    using ok ch L by (auto simp: chunks_ok_def entries_ok_def log_chain_def)
  have match: "check_prev_log_match (con d) (GET_CON_AE_PREV_LOG_TERM_VAL m pkt) (to_u32 (stable_idx ?l)) = 0"
  proof (cases "L = -1")
    case False
    then have L1: "0 \<le> L" "L < 2147483648" using L0 Ln n by simp_all
    have u: "to_u32 L = L" "to_s32 L = L" using L1 by (simp_all add: cint)
    have b: "consensus_idx_to_buffer_idx ?l L = L mod MAX_CONSENSUS_LOG" "0 \<le> L mod MAX_CONSENSUS_LOG"
      "L mod MAX_CONSENSUS_LOG < MAX_CONSENSUS_LOG"
      using con2buf_nonneg [OF mx L1] by (simp_all add: MAX_CONSENSUS_LOG_def)
    have "to_u32 (L mod MAX_CONSENSUS_LOG) = L mod MAX_CONSENSUS_LOG"
      using b(2,3) by (simp add: cint MAX_CONSENSUS_LOG_def)
    moreover have "log_entries ?l (L mod MAX_CONSENSUS_LOG) = Some (log_at ?l L)"
      using ok b by (auto simp: chunks_ok_def entries_ok_def log_at_def entry_at_def)
    moreover have "L \<noteq> to_u32 (-1)" using L1 by (simp add: cint)
    ultimately show ?thesis
      using prev(2) False b unfolding gap L [symmetric]
      by (simp add: check_prev_log_match_def u Let_def flip: L)
  qed (use gap L in \<open>simp add: check_prev_log_match_def\<close>)
  have pre: "n \<le> MAX_CONSENSUS_LOG" "-1 \<le> last_idx ?l" "commit_idx ?l \<le> last_idx ?l"
    "last_idx ?l + n < 2147483648"
    "n * AE_ENTRY_SIZE + ASGARD_PROTO_CON_AE_BASE_SZ \<le> ASGARD_PROTO_CON_AE_BASE_SZ + n * AE_ENTRY_SIZE"
    using n(3) ch [unfolded log_chain_def gap, folded L] Ln L0 unfolding L [symmetric]
    by (simp_all add: size_defs MAX_CONSENSUS_LOG_def log_chain_def)
  obtain p' where p': "append_commands (clock d) (con d) m pkt n (ASGARD_PROTO_CON_AE_BASE_SZ + n * AE_ENTRY_SIZE)
        (L + 1) False = (0, p')" "chunks_ok (sm_log p')" "last_idx (sm_log p') = L + n"
      "stable_idx (sm_log p') = L + n" "log_data (sm_log p') (L + 1) (L + n) = ae_cmds m pkt"
      "next_retrans_req_idx (sm_log p') = -2" "instance_id p' = instance_id (con d)"
      "\<And>j. 0 \<le> j \<Longrightarrow> L + 1 + n - MAX_CONSENSUS_LOG \<le> j \<Longrightarrow> j \<le> L \<Longrightarrow>
         log_at (sm_log p') j = log_at (the_log d) j"
      "\<And>j. L + 1 \<le> j \<Longrightarrow> j \<le> L + n \<Longrightarrow> e_term (log_at (sm_log p') j) = to_u32 (con_term (con d))"
      "con_term p' = con_term (con d)" "leader_id p' = leader_id (con d)"
      "commit_idx (sm_log p') = commit_idx (the_log d)" "last_applied (sm_log p') = last_applied (the_log d)"
    using append_commands_stable [OF ok n(2) pre(1) n(1) [symmetric] pre(5) gap pre(2,3,4), folded L, of "clock d"]
    unfolding nr by blast
  have chain: "log_chain (sm_log p')"
    using p'(3,4,12,13) ch n(2) gap L by (simp add: log_chain_def)
  have upd_p: "update_next_retransmission_request_idx p' = p'"
    using p'(2,6) by (intro update_next_retrans_never) (simp_all add: chunks_ok_def)
  have conv: "to_s32 n = n" "to_s32 (L + 1) = L + 1"
    using n Ln L0 by (simp_all add: cint size_defs)
  have dd: "clock ?d = clock d" "mc ?d = mc d" by (simp_all add: upd)
  have sL: "stable_idx ?l = L" using gap L by simp
  have "d' = append_reply_fire (?d\<lparr>con := p'\<rparr>) lid 1 (L + n)"
    unfolding d' handle_append_rpc_def Let_def con_upd_pm sL prev(1) n(1) [symmetric] conv dd sz
    using n(2) match [unfolded sL] mcast p'(1,4,6) upd_p by (simp add: dd)
  from that [OF this p'(2,3,4) chain p'(6,5,8,9,7,10,11,12)] show thesis by blast
qed

text \<open>The log after the message, and that the follower accepts the next one.\<close>

lemma handle_append_log:
  assumes acc: "accepting d cid L" and msg: "continues d L n m pkt"
    and d': "d' = handle_append_rpc d m pkt lid cid"
  shows "accepting d' cid (L + n) \<and> log_data (the_log d') (L + 1) (L + n) = ae_cmds m pkt
     \<and> (\<forall>j. 0 \<le> j \<and> L + 1 + n - MAX_CONSENSUS_LOG \<le> j \<and> j \<le> L \<longrightarrow> log_at (the_log d') j = log_at (the_log d) j)
     \<and> (\<forall>j. L + 1 \<le> j \<and> j \<le> L + n \<longrightarrow> e_term (log_at (the_log d') j) = to_u32 (con_term (con d)))
     \<and> con_term (con d') = con_term (con d) \<and> commit_idx (the_log d') = commit_idx (the_log d)"
proof -
  obtain p' where run: "d' = append_reply_fire ((upd_target lid (\<lambda>t. t\<lparr>received_log_replications :=
       received_log_replications t + 1\<rparr>) d)\<lparr>con := p'\<rparr>) lid 1 (L + n)"
    and p': "chunks_ok (sm_log p')" "last_idx (sm_log p') = L + n" "stable_idx (sm_log p') = L + n"
    "log_chain (sm_log p')" "next_retrans_req_idx (sm_log p') = -2"
    "log_data (sm_log p') (L + 1) (L + n) = ae_cmds m pkt"
    "\<And>j. 0 \<le> j \<Longrightarrow> L + 1 + n - MAX_CONSENSUS_LOG \<le> j \<Longrightarrow> j \<le> L \<Longrightarrow>
       log_at (sm_log p') j = log_at (the_log d) j"
    "\<And>j. L + 1 \<le> j \<Longrightarrow> j \<le> L + n \<Longrightarrow> e_term (log_at (sm_log p') j) = to_u32 (con_term (con d))"
    "con_term p' = con_term (con d)" "leader_id p' = leader_id (con d)"
    "commit_idx (sm_log p') = commit_idx (the_log d)"
    by (rule handle_append_run [OF assms]) blast
  have "mc_enable (mc d') = mc_enable (mc d)"
    unfolding run append_reply_fire_def reply_append_def put_le_msg_def by (simp add: upd split: option.split)
  moreover have "leader_id (con d') = leader_id p'"
    unfolding run append_reply_fire_def reply_append_def put_le_msg_def by (simp add: upd split: option.split)
  ultimately show ?thesis using p' acc unfolding accepting_def by (simp add: run con_reply)
qed

text \<open>The message that continues a gapless log: its commands become the log's tail, and the answer
  reports success with the new stable index.\<close>

lemma handle_append_stable:
  assumes acc: "accepting d cid L" and msg: "continues d L n m pkt"
    and room: "asgard_reserve_proto (to_u16 (instance_id (con d))) (Some (pkt_payload (target d lid))) 22 = Some (off, spay)"
    and d': "d' = handle_append_rpc d m pkt lid cid"
    and m': "m' = proto_data (pkt_payload (target d' lid))"
  shows "GET_CON_PROTO_OPCODE_VAL m' off = opcode_num APPEND_REPLY
     \<and> GET_CON_PROTO_PARAM1_VAL m' off = to_u32 (con_term (con d))
     \<and> GET_CON_PROTO_PARAM2_VAL m' off = 1 \<and> GET_CON_PROTO_PARAM4_VAL m' off = L + n
     \<and> fire (target d' lid) = 1"
proof -
  obtain p' where run: "d' = append_reply_fire ((upd_target lid (\<lambda>t. t\<lparr>received_log_replications :=
       received_log_replications t + 1\<rparr>) d)\<lparr>con := p'\<rparr>) lid 1 (L + n)"
    and p': "stable_idx (sm_log p') = L + n" "instance_id p' = instance_id (con d)"
      "con_term p' = con_term (con d)"
    by (rule handle_append_run [OF acc msg d']) blast
  let ?e = "(upd_target lid (\<lambda>t. t\<lparr>received_log_replications := received_log_replications t + 1\<rparr>) d)\<lparr>con := p'\<rparr>"
  have room': "asgard_reserve_proto (to_u16 (instance_id (con ?e))) (Some (pkt_payload (target ?e lid))) 22 = Some (off, spay)"
    using room p'(2) by (simp add: upd)
  note f = reply_fields [OF room' m' [unfolded run]]
  have "-1 \<le> L" "L + n < 2147483648" "0 < n"
    using acc msg by (simp_all add: accepting_def continues_def log_chain_def)
  then have bnd: "to_s32 (L + n) = L + n" "to_s32 1 = 1" by simp_all
  show ?thesis using p'(1,3) f(1,2,3,5) f(6) [folded run] by (simp add: bnd)
qed

end
