(* ===== verification/AsgRoles.thy ===== *)
theory AsgRoles
  imports AsgAppend
begin

text \<open>
  The three roles of a consensus node: \<open>core/leader.c\<close>, \<open>core/candidate.c\<close>, \<open>core/follower.c\<close>, the
  transitions between them and the life cycle of the instance (\<open>core/consensus.c\<close>).  A handler
  takes the device, the sender's local id \<open>remote_lid\<close> and cluster id, and the sub-payload at
  offset \<open>pkt\<close> of \<open>m\<close>.  The opcode is read as one byte.
\<close>

section \<open>Follower\<close>

definition start_follower :: "asgard_device \<Rightarrow> int \<times> asgard_device" where
  "start_follower d =
     (let (err, d1) = setup_le_broadcast_msg NOOP d
      in if err \<noteq> 0 then (err, d1)
         else
           let d2 = d1\<lparr>tx_port := 3319, is_leader := 0\<rparr>;
               d3 = upd_log (\<lambda>l. l\<lparr>unstable_commits := 0, log_turn := 0\<rparr>) d2
           in (0, upd_con (\<lambda>p. p\<lparr>votes := 0, nstate := FOLLOWER, candidate_counter := 0\<rparr>) d3))"

definition stop_follower :: "asgard_device \<Rightarrow> int \<times> asgard_device" where
  "stop_follower d = (0, d)"

section \<open>Candidate\<close>

definition setup_nomination :: "asgard_device \<Rightarrow> asgard_device" where
  "setup_nomination d =
     (let d1 = upd_con (\<lambda>p. p\<lparr>con_term := to_s32 (con_term p + 1)\<rparr>) d;
          d2 = snd (setup_le_broadcast_msg NOMI d1);
          d3 = d2\<lparr>hold_fire := 1\<rparr>;
          d4 = for_targets (\<lambda>i. upd_target i (\<lambda>t. t\<lparr>fire := 1\<rparr>)) d3
      in d4\<lparr>hold_fire := 0\<rparr>)"

definition start_candidate :: "asgard_device \<Rightarrow> int \<times> asgard_device" where
  "start_candidate d =
     (if targets d < 2 \<and> warmup_state d = WARMED_UP then (-1, d)
      else
        let d1 = upd_con (\<lambda>p. p\<lparr>votes := 0, nstate := CANDIDATE, candidate_counter := 0\<rparr>) d;
            d2 = d1\<lparr>is_leader := 0, tx_port := 3319\<rparr>
        in (0, setup_nomination d2))"

definition stop_candidate :: "asgard_device \<Rightarrow> int \<times> asgard_device" where
  "stop_candidate d = (0, d)"

section \<open>Leader\<close>

definition initialize_indices :: "asgard_device \<Rightarrow> asgard_device" where
  "initialize_indices d = for_targets (\<lambda>i d.
     pre_hb_pkt i (upd_log (\<lambda>l. l\<lparr>
       next_index := (next_index l)(i := stable_idx l + 1),
       match_index := (match_index l)(i := -1),
       num_retransmissions := (num_retransmissions l)(i := 0),
       retrans_list := (retrans_list l)(i := []),
       retrans_entries := (retrans_entries l)(i := 0)\<rparr>) d)) d"

definition is_potential_commit_idx :: "asgard_device \<Rightarrow> int \<Rightarrow> bool" where
  "is_potential_commit_idx d N =
     (length (filter (\<lambda>i. alive (target d i) = 0 \<or> match_index (the_log d) i \<ge> N) [0..<targets d])
        \<ge> targets d)"

text \<open>The first loop of \<open>update_commit_idx\<close>; \<open>None\<close> is one of its early returns.\<close>

fun commit_scan :: "asgard_device \<Rightarrow> nat list \<Rightarrow> int \<Rightarrow> int option" where
  "commit_scan d [] N = Some N"
| "commit_scan d (i # is) N =
     (let current_N = match_index (the_log d) i
      in if current_N = -1 then None
         else if current_N > last_idx (the_log d) then None
         else
           let b = consensus_idx_to_buffer_idx (the_log d) current_N
           in if b < 0 then None
              else (case log_entries (the_log d) b of
                      None \<Rightarrow> None
                    | Some e \<Rightarrow> commit_scan d is
                        (if e_term e = to_u32 (con_term (con d)) \<and> is_potential_commit_idx d current_N
                            \<and> current_N > N then current_N else N)))"

text \<open>The second loop: the entries of the given indices are marked invalid.\<close>

fun invalidate :: "int list \<Rightarrow> state_machine_cmd_log \<Rightarrow> state_machine_cmd_log" where
  "invalidate [] log = log"
| "invalidate (i # is) log =
     (let b = consensus_idx_to_buffer_idx log i
      in if b < 0 then log
         else invalidate is (set_entry b ((entry_at log b)\<lparr>e_valid := 0\<rparr>) log))"

definition update_commit_idx :: "asgard_device \<Rightarrow> asgard_device" where
  "update_commit_idx d =
     (if mc_enable (mc d) \<noteq> 0 then d
      else (case commit_scan d [0..<targets d] (-1) of
              None \<Rightarrow> d
            | Some N \<Rightarrow>
                let prev_commit_idx = commit_idx (the_log d);
                    d1 = (if commit_idx (the_log d) < N
                          then upd_log (\<lambda>l. l\<lparr>commit_idx := N, last_applied := N\<rparr>) d else d)
                in if last_applied (the_log d1) = last_idx (the_log d1) then d1
                   else upd_log (invalidate [prev_commit_idx..commit_idx (the_log d1) - 1]) d1))"

definition queue_retransmission :: "nat \<Rightarrow> int \<Rightarrow> asgard_device \<Rightarrow> asgard_device" where
  "queue_retransmission remote_lid retrans_idx d =
     (if retrans_idx \<in> set (retrans_list (the_log d) remote_lid) then d
      else upd_log (\<lambda>l. l\<lparr>
             retrans_list := (retrans_list l)(remote_lid := retrans_list l remote_lid @ [retrans_idx]),
             num_retransmissions := (num_retransmissions l)(remote_lid := num_retransmissions l remote_lid + 1),
             retrans_entries := (retrans_entries l)(remote_lid := retrans_entries l remote_lid + 1)\<rparr>) d)"

definition clean_request_transmission_lists :: "asgard_device \<Rightarrow> asgard_device" where
  "clean_request_transmission_lists d = for_targets (\<lambda>i. upd_log (\<lambda>l. l\<lparr>
     retrans_entries := (retrans_entries l)(i := retrans_entries l i - int (length (retrans_list l i))),
     retrans_list := (retrans_list l)(i := [])\<rparr>)) d"

definition stop_leader :: "asgard_device \<Rightarrow> int \<times> asgard_device" where
  "stop_leader d = (0, clean_request_transmission_lists (d\<lparr>is_leader := 0\<rparr>))"

definition start_leader :: "asgard_device \<Rightarrow> int \<times> asgard_device" where
  "start_leader d =
     (let d1 = initialize_indices d;
          d2 = upd_con (\<lambda>p. p\<lparr>candidate_counter := 0\<rparr>) (d1\<lparr>is_leader := 1, tx_port := 3320\<rparr>);
          d3 = for_targets pre_hb_pkt d2
      in (0, check_pending_log_rep d3))"

section \<open>Transitions\<close>

definition stop_role :: "asgard_device \<Rightarrow> int \<times> asgard_device" where
  "stop_role d =
     (case nstate (con d) of
        FOLLOWER \<Rightarrow> stop_follower d
      | CANDIDATE \<Rightarrow> stop_candidate d
      | LEADER \<Rightarrow> stop_leader d
      | NODE_UNINIT \<Rightarrow> (0, d))"

definition node_transition :: "node_state \<Rightarrow> asgard_device \<Rightarrow> int \<times> asgard_device" where
  "node_transition st d =
     (let (err, d1) = stop_role (upd_con (\<lambda>p. p\<lparr>votes := 0\<rparr>) d)
      in if err \<noteq> 0 then (err, d1)
         else
           let (err, d2) =
                 (case st of
                    FOLLOWER \<Rightarrow> start_follower d1
                  | CANDIDATE \<Rightarrow>
                      (let (e, d2) = start_candidate d1
                       in (e, if e \<noteq> 0 then snd (asgard_pm_stop d2) else d2))
                  | LEADER \<Rightarrow>
                      (let (e, d2) = start_leader d1
                       in (e, con_log_event CANDIDATE_BECOME_LEADER d2))
                  | NODE_UNINIT \<Rightarrow> (- EINVAL, d1))
           in if err \<noteq> 0 then (err, d2)
              else
                let d3 = upd_con (\<lambda>p. p\<lparr>nstate := st\<rparr>) d2
                in (0, d3\<lparr>ci := update_self_state st (ci d3)\<rparr>))"

definition accept_leader :: "asgard_device \<Rightarrow> nat \<Rightarrow> int \<Rightarrow> int \<Rightarrow> asgard_device" where
  "accept_leader d remote_lid cluster_id trm =
     (let d1 = upd_con (\<lambda>p. p\<lparr>con_term := trm, leader_id := to_u32 cluster_id\<rparr>) d
      in snd (node_transition FOLLOWER (d1\<lparr>cur_leader_lid := int remote_lid\<rparr>)))"

section \<open>Packet handlers\<close>

definition pkt_opcode :: "mem \<Rightarrow> nat \<Rightarrow> le_opcode option" where
  "pkt_opcode m pkt = opcode_of (GET_CON_PROTO_OPCODE_VAL m pkt mod 256)"

definition nominate ::
  "asgard_device \<Rightarrow> mem \<Rightarrow> nat \<Rightarrow> int \<Rightarrow> int \<times> asgard_device" where
  "nominate d m pkt rcluster_id =
     check_handle_nomination d (to_u32 (to_s32 (GET_CON_PROTO_PARAM1_VAL m pkt)))
       (to_u32 (GET_CON_PROTO_PARAM3_VAL m pkt)) (to_u32 (GET_CON_PROTO_PARAM4_VAL m pkt)) rcluster_id"

definition follower_process_pkt ::
  "asgard_device \<Rightarrow> nat \<Rightarrow> int \<Rightarrow> mem \<Rightarrow> nat \<Rightarrow> asgard_device" where
  "follower_process_pkt d remote_lid rcluster_id m pkt =
     (let param1 = to_s32 (GET_CON_PROTO_PARAM1_VAL m pkt);
          param2 = GET_CON_PROTO_PARAM2_VAL m pkt
      in case pkt_opcode m pkt of
           Some NOMI \<Rightarrow>
             (let (granted, d1) = nominate d m pkt rcluster_id
              in if granted \<noteq> 0 then reply_vote d1 remote_lid param1 param2 else d1)
         | Some ALIVE \<Rightarrow>
             (let d1 = (if param1 > con_term (con d)
                        then con_log_event FOLLOWER_ACCEPT_NEW_LEADER
                               (accept_leader d remote_lid rcluster_id param1)
                        else d)
              in if param1 = con_term (con d1) \<and> param2 \<noteq> -1 then commit_log d1 param2 else d1)
         | Some APPEND \<Rightarrow>
             if leader_id (con d) \<noteq> to_u32 rcluster_id then d
             else if param1 > con_term (con d) then
               handle_append_rpc (accept_leader d remote_lid rcluster_id param1) m pkt remote_lid rcluster_id
             else if param1 = con_term (con d) then
               commit_log (handle_append_rpc d m pkt remote_lid rcluster_id)
                 (GET_CON_AE_PREV_LEADER_COMMIT_IDX_VAL m pkt)
             else d
         | _ \<Rightarrow> d)"

definition accept_vote :: "asgard_device \<Rightarrow> asgard_device" where
  "accept_vote d =
     (let d1 = con_log_event CANDIDATE_ACCEPT_VOTE (upd_con (\<lambda>p. p\<lparr>votes := votes p + 1\<rparr>) d)
      in if votes (con d1) = int (targets d1) then
           let d2 = snd (node_transition LEADER d1)
           in (upd_con (\<lambda>p. p\<lparr>accu_rand := 0\<rparr>) d2)\<lparr>cur_leader_lid := -1\<rparr>
         else upd_con (\<lambda>p. p\<lparr>candidate_counter := 0\<rparr>) d1)"

definition candidate_process_pkt ::
  "asgard_device \<Rightarrow> nat \<Rightarrow> int \<Rightarrow> mem \<Rightarrow> nat \<Rightarrow> asgard_device" where
  "candidate_process_pkt d remote_lid rcluster_id m pkt =
     (let param1 = to_s32 (GET_CON_PROTO_PARAM1_VAL m pkt);
          param2 = GET_CON_PROTO_PARAM2_VAL m pkt
      in case pkt_opcode m pkt of
           Some VOTE \<Rightarrow> accept_vote d
         | Some NOMI \<Rightarrow>
             (let (granted, d1) = nominate d m pkt rcluster_id
              in if granted \<noteq> 0
                 then reply_vote (snd (node_transition FOLLOWER d1)) remote_lid param1 param2 else d1)
         | Some ALIVE \<Rightarrow>
             if param1 \<ge> con_term (con d)
             then con_log_event CANDIDATE_ACCEPT_NEW_LEADER
                    (accept_leader d remote_lid rcluster_id param1)
             else d
         | Some APPEND \<Rightarrow>
             if leader_id (con d) \<noteq> to_u32 rcluster_id then d
             else if param1 \<ge> con_term (con d)
             then handle_append_rpc d m pkt remote_lid rcluster_id
             else d
         | _ \<Rightarrow> d)"

definition leader_process_pkt ::
  "asgard_device \<Rightarrow> nat \<Rightarrow> int \<Rightarrow> mem \<Rightarrow> nat \<Rightarrow> asgard_device" where
  "leader_process_pkt d remote_lid rcluster_id m pkt =
     (let param1 = to_s32 (GET_CON_PROTO_PARAM1_VAL m pkt);
          param2 = GET_CON_PROTO_PARAM2_VAL m pkt;
          param3 = GET_CON_PROTO_PARAM3_VAL m pkt;
          param4 = GET_CON_PROTO_PARAM4_VAL m pkt
      in case pkt_opcode m pkt of
           Some APPEND_REPLY \<Rightarrow>
             if param2 = 1 then
               (if last_idx (the_log d) < param4 then d
                else update_commit_idx
                  (upd_log (\<lambda>l. l\<lparr>match_index := (match_index l)(remote_lid := param4)\<rparr>) d))
             else if param2 = 2 then
               (if last_idx (the_log d) < param4 then d
                else if last_idx (the_log d) < param3 then d
                else check_pending_log_rep (queue_retransmission remote_lid param3 d))
             else if param2 = 0 then
               (if last_idx (the_log d) < param3 then d
                else upd_log (\<lambda>l. l\<lparr>next_index := (next_index l)(remote_lid := to_s32 (param3 + 1))\<rparr>) d)
             else d
         | Some ALIVE \<Rightarrow>
             if param1 > con_term (con d)
             then con_log_event FOLLOWER_ACCEPT_NEW_LEADER
                    (accept_leader d remote_lid rcluster_id param1)
             else d
         | _ \<Rightarrow> d)"

section \<open>The instance\<close>

definition consensus_start :: "asgard_device \<Rightarrow> int \<times> asgard_device" where
  "consensus_start d =
     (if consensus_is_alive d then (0, d)
      else
        let d1 = le_state_transition_to LE_RUNNING d;
            d2 = upd_con (\<lambda>p. p\<lparr>ins_logger := logger_state_transition_to (ins_logger p) LOGGER_RUNNING\<rparr>) d1
        in node_transition FOLLOWER d2)"

definition consensus_stop :: "asgard_device \<Rightarrow> int \<times> asgard_device" where
  "consensus_stop d =
     (if \<not> consensus_is_alive d then (0, d)
      else (0, set_all_targets_dead (le_state_transition_to LE_READY (snd (stop_role d)))))"

text \<open>Freed memory is gone: the entries and the two ring buffers become \<open>None\<close>.\<close>

definition consensus_clean :: "asgard_device \<Rightarrow> int \<times> asgard_device" where
  "consensus_clean d =
     (let d1 = le_state_transition_to LE_READY d
      in if consensus_is_alive d1 then (0, d1)
         else
           let d2 = le_state_transition_to LE_UNINIT d1;
               d3 = upd_log (\<lambda>l. l\<lparr>log_entries := (\<lambda>_. None)\<rparr>) d2
           in (0, upd_con (\<lambda>p. p\<lparr>rxbuf := None, txbuf := None\<rparr>) d3))"

definition consensus_post_payload ::
  "asgard_device \<Rightarrow> nat \<Rightarrow> int \<Rightarrow> mem \<Rightarrow> nat \<Rightarrow> int \<Rightarrow> asgard_device" where
  "consensus_post_payload d remote_lid rcluster_id m pkt pts =
     (if \<not> consensus_is_alive d then d
      else
        let d1 = (if pkt_opcode m pkt = Some ALIVE then snd (write_in_hb_to_log d pts (int remote_lid)) else d)
        in case nstate (con d1) of
             FOLLOWER \<Rightarrow> follower_process_pkt d1 remote_lid rcluster_id m pkt
           | CANDIDATE \<Rightarrow> candidate_process_pkt d1 remote_lid rcluster_id m pkt
           | LEADER \<Rightarrow> leader_process_pkt d1 remote_lid rcluster_id m pkt
           | NODE_UNINIT \<Rightarrow> d1)"

text \<open>\<open>consensus_init\<close>: \<open>fresh\<close> is the content of the allocated log entries, \<open>rx0\<close> and \<open>tx0\<close> the
  buffers of the character devices; both ring buffers are given the size of the structure in
  bytes.  The user loggers \<open>user_a\<close> to \<open>user_d\<close> and the proc files are not modelled.\<close>

definition consensus_init ::
  "int \<Rightarrow> int \<Rightarrow> (int \<Rightarrow> sm_log_entry) \<Rightarrow> asg_ring_buf \<Rightarrow> asg_ring_buf \<Rightarrow> asgard_device \<Rightarrow> int \<times> asgard_device" where
  "consensus_init verbosity0 ifindex fresh rx0 tx0 d =
     (let inst = instance_id (con d);
          d1 = upd_con (\<lambda>p. p\<lparr>voted := to_u32 (-1), con_term := 0, le_state := LE_READY,
                 verbosity := verbosity0\<rparr>) d;
          d2 = upd_log (\<lambda>l. l\<lparr>last_idx := -1, commit_idx := -1, stable_idx := -1,
                 next_retrans_req_idx := -2, last_applied := -1, max_entries := MAX_CONSENSUS_LOG,
                 log_lock := 0,
                 log_entries := (\<lambda>b. if 0 \<le> b \<and> b < MAX_CONSENSUS_LOG
                   then Some ((fresh b)\<lparr>e_valid := 0\<rparr>) else None)\<rparr>) d1;
          d3 = d2\<lparr>has_con := True, cur_leader_lid := -1\<rparr>;
          d4 = upd_con (\<lambda>p. p\<lparr>ins_logger := snd (init_logger (ins_logger p) inst ifindex ''consensus_le'' 0)\<rparr>) d3;
          d5 = d4\<lparr>ingress_states := (\<lambda>i. if i < CLUSTER_SIZE then LOGGER_RUNNING else ingress_states d4 i)\<rparr>;
          d6 = upd_con (\<lambda>p. p\<lparr>throughput_logger :=
                 (snd (init_logger (throughput_logger p) inst ifindex ''consensus_throughput'' 0))
                   \<lparr>lg_state := LOGGER_RUNNING, lg_first_ts := 0, lg_applied := 0, lg_last_ts := 0\<rparr>\<rparr>) d5
      in (0, upd_con (\<lambda>p. p\<lparr>txbuf := Some (setup_asg_ring_buf tx0 sizeof_asg_ring_buf),
                rxbuf := Some (setup_asg_ring_buf rx0 sizeof_asg_ring_buf)\<rparr>) d6))"

end
