(* ===== verification/AsgElection.thy ===== *)
theory AsgElection
  imports AsgRoles
begin

text \<open>
  Leader election: the effect of a role transition, the conditions under which a vote is granted
  and counted, and the monotonicity of the term.
\<close>

section \<open>Frames\<close>

text \<open>Two devices that agree on everything the election code reads, apart from payloads, logs
  and counters.\<close>

lemma upd_frame:
  "ci (upd_log f d) = ci d" "is_leader (upd_log f d) = is_leader d" "clock (upd_log f d) = clock d"
  "ci (upd_con h d) = ci d" "is_leader (upd_con h d) = is_leader d" "clock (upd_con h d) = clock d"
  "ci (con_log_event ev d) = ci d" "is_leader (con_log_event ev d) = is_leader d"
  "cur_leader_lid (upd_con h d) = cur_leader_lid d" "cur_leader_lid (con_log_event ev d) = cur_leader_lid d"
  by (simp_all add: upd)

lemma setup_le_msg_frame:
  "con (setup_le_msg d op t p1 p2 p3 p4) = con d" "targets (setup_le_msg d op t p1 p2 p3 p4) = targets d"
  "is_leader (setup_le_msg d op t p1 p2 p3 p4) = is_leader d" "mc (setup_le_msg d op t p1 p2 p3 p4) = mc d"
  "ci (setup_le_msg d op t p1 p2 p3 p4) = ci d" "clock (setup_le_msg d op t p1 p2 p3 p4) = clock d"
  "cur_leader_lid (setup_le_msg d op t p1 p2 p3 p4) = cur_leader_lid d"
  "warmup_state (setup_le_msg d op t p1 p2 p3 p4) = warmup_state d"
  "pm_state (pm (setup_le_msg d op t p1 p2 p3 p4)) = pm_state (pm d)"
  "pm_cluster_id (pm (setup_le_msg d op t p1 p2 p3 p4)) = pm_cluster_id (pm d)"
  "alive (target (setup_le_msg d op t p1 p2 p3 p4) j) = alive (target d j)"
  "fire (target (setup_le_msg d op t p1 p2 p3 p4) j) = fire (target d j)"
  "has_con (setup_le_msg d op t p1 p2 p3 p4) = has_con d"
  by (simp_all add: setup_le_msg_def put_le_msg_def upd split: option.split)

lemma broadcast_frame:
  "con (snd (setup_le_broadcast_msg op d)) = con d"
  "targets (snd (setup_le_broadcast_msg op d)) = targets d"
  "ci (snd (setup_le_broadcast_msg op d)) = ci d"
  "clock (snd (setup_le_broadcast_msg op d)) = clock d"
  "cur_leader_lid (snd (setup_le_broadcast_msg op d)) = cur_leader_lid d"
  "pm_state (pm (snd (setup_le_broadcast_msg op d))) = pm_state (pm d)"
  "pm_cluster_id (pm (snd (setup_le_broadcast_msg op d))) = pm_cluster_id (pm d)"
  "alive (target (snd (setup_le_broadcast_msg op d)) j) = alive (target d j)"
  "has_con (snd (setup_le_broadcast_msg op d)) = has_con d"
  by (simp_all add: setup_le_broadcast_msg_def Let_def setup_le_msg_frame
      for_targets_frame [of con] for_targets_frame [of ci] for_targets_frame [of clock]
      for_targets_frame [of cur_leader_lid] for_targets_frame [of has_con]
      for_targets_frame [of "\<lambda>d. targets d"] for_targets_frame [of "\<lambda>d. pm_state (pm d)"]
      for_targets_frame [of "\<lambda>d. pm_cluster_id (pm d)"] for_targets_frame [of "\<lambda>d. alive (target d j)"])

text \<open>The broadcast succeeds on every initialised log.\<close>

lemma broadcast_ok:
  "max_entries (the_log d) = MAX_CONSENSUS_LOG \<Longrightarrow> fst (setup_le_broadcast_msg op d) = 0"
  using con2buf_range [of "the_log d" "last_applied (the_log d)"]
  by (simp add: setup_le_broadcast_msg_def Let_def)

section \<open>Role transitions\<close>

text \<open>The part of the state a role transition decides.\<close>

definition role_view :: "asgard_device \<Rightarrow> node_state \<times> bool \<times> int \<times> int" where
  "role_view d = (nstate (con d), is_leader d \<noteq> 0, ci_node_state (ci d), votes (con d))"

lemma stop_role_frame:
  "fst (stop_role d) = 0"
  "con_term (con (snd (stop_role d))) = con_term (con d)" "voted (con (snd (stop_role d))) = voted (con d)"
  "votes (con (snd (stop_role d))) = votes (con d)"
  "max_entries (the_log (snd (stop_role d))) = max_entries (the_log d)"
  "targets (snd (stop_role d)) = targets d" "warmup_state (snd (stop_role d)) = warmup_state d"
  "ci (snd (stop_role d)) = ci d"
  by (simp_all add: stop_role_def stop_follower_def stop_candidate_def stop_leader_def
      clean_request_transmission_lists_def upd
      for_targets_frame [of "\<lambda>d. con_term (con d)"] for_targets_frame [of "\<lambda>d. voted (con d)"]
      for_targets_frame [of "\<lambda>d. votes (con d)"] for_targets_frame [of ci]
      for_targets_frame [of "\<lambda>d. max_entries (the_log d)"] for_targets_frame [of "\<lambda>d. targets d"]
      for_targets_frame [of warmup_state] split: node_state.split)

text \<open>Replication touches index fields of the log, the multicast state and the work queue only: an
  observation \<open>g\<close> of nothing else is the same after it.\<close>

definition same_store :: "state_machine_cmd_log \<Rightarrow> state_machine_cmd_log \<Rightarrow> bool" where
  "same_store l l' \<longleftrightarrow> max_entries l' = max_entries l \<and> log_entries l' = log_entries l
     \<and> stable_idx l' = stable_idx l"

definition blind_to_log :: "(asgard_device \<Rightarrow> 'b) \<Rightarrow> bool" where
  "blind_to_log g \<longleftrightarrow>
     (\<forall>d l. same_store (the_log d) l \<longrightarrow> g (d\<lparr>con := (con d)\<lparr>sm_log := l\<rparr>\<rparr>) = g d)
     \<and> (\<forall>d x. g (d\<lparr>mc := x\<rparr>) = g d) \<and> (\<forall>d w. g (d\<lparr>leader_wq := w\<rparr>) = g d)"

lemma get_last_idx_safe_store:
  "\<exists>i l. get_last_idx_safe p = (i, p\<lparr>sm_log := l\<rparr>) \<and> same_store (sm_log p) l"
  by (auto simp: get_last_idx_safe_def Let_def same_store_def intro: exI [of _ "sm_log p"])

lemma blind_multicast_msg:
  assumes "blind_to_log g"
  shows "g (fst (snd (setup_append_multicast_msg d spay))) = g d"
proof -
  have g: "same_store (the_log d) l \<Longrightarrow> g (d\<lparr>con := (con d)\<lparr>sm_log := l\<rparr>\<rparr>) = g d"
    "g (d\<lparr>mc := x\<rparr>) = g d" for d l x
    using assms by (simp_all add: blind_to_log_def)
  have g2: "g (d\<lparr>mc := x, con := (con d)\<lparr>sm_log := l\<rparr>\<rparr>) = g d" if "same_store (the_log d) l" for d l x
    using g(1) [where d = "d\<lparr>mc := x\<rparr>" and l = l] g(2) that by simp
  obtain i l where l: "get_last_idx_safe (con d) = (i, (con d)\<lparr>sm_log := l\<rparr>)" "same_store (the_log d) l"
    using get_last_idx_safe_store by blast
  then have "same_store (the_log d) (l\<lparr>commit_idx := x\<rparr>)" for x by (simp add: same_store_def)
  with l show ?thesis
    unfolding setup_append_multicast_msg_def upd Let_def
    by (simp add: g g2 split: prod.split option.split)
qed

lemma blind_multicast:
  assumes "blind_to_log g"
  shows "g (snd (do_prepare_log_replication_multicast d)) = g d"
proof -
  have g: "g (d\<lparr>mc := x\<rparr>) = g d" for d x using assms by (simp add: blind_to_log_def)
  note m = blind_multicast_msg [OF assms, of d "get_payload_ptr (create_async_pkt (mc_dst_ip (mc d)) 0 (Some (mc_dst_mac (mc d))))"]
  show ?thesis
    using m by (simp add: do_prepare_log_replication_multicast_def Let_def g split_beta)
qed

lemma blind_multicast_loop:
  assumes "blind_to_log g"
  shows "g (multicast_rep_loop d) = g d"
proof (induction d rule: multicast_rep_loop.induct)
  case (1 d)
  obtain r d1 where r: "do_prepare_log_replication_multicast d = (r, d1)" by force
  have "g d1 = g d" using blind_multicast [OF assms, of d] r by simp
  then show ?case using 1 [OF r [symmetric] refl] r by (subst multicast_rep_loop.simps) simp
qed

lemma blind_schedule: "blind_to_log g \<Longrightarrow> g (schedule_log_rep d t nx rt m) = g d"
  by (simp add: schedule_log_rep_def blind_multicast_loop) (simp add: blind_to_log_def)

lemma blind_check_target:
  assumes "blind_to_log g"
  shows "g (check_pending_log_rep_for_target t d) = g d"
proof -
  have "g (snd (snd (get_next_idx_for_target d t))) = g d"
    using assms by (simp add: get_next_idx_for_target_def blind_to_log_def same_store_def upd split: list.split)
  then show ?thesis
    by (simp add: check_pending_log_rep_for_target_def Let_def split_beta blind_schedule [OF assms])
qed

lemma blind_check_pending:
  assumes "blind_to_log g"
  shows "g (check_pending_log_rep d) = g d"
  using assms
  by (simp add: check_pending_log_rep_def check_pending_log_rep_for_multicast_def blind_schedule
      blind_check_target for_targets_frame)

lemma blind_role_facts [simp]:
  "blind_to_log (\<lambda>d. con_term (con d))" "blind_to_log (\<lambda>d. voted (con d))" "blind_to_log (\<lambda>d. votes (con d))"
  "blind_to_log (\<lambda>d. nstate (con d))" "blind_to_log is_leader" "blind_to_log ci"
  "blind_to_log (\<lambda>d. targets d)" "blind_to_log clock" "blind_to_log (\<lambda>d. le_state (con d))"
  "blind_to_log role_view" "blind_to_log (\<lambda>d. max_entries (the_log d))"
  by (simp_all add: blind_to_log_def role_view_def same_store_def)

lemmas check_pending_facts =
  blind_check_pending [OF blind_role_facts(1)] blind_check_pending [OF blind_role_facts(2)]
  blind_check_pending [OF blind_role_facts(3)] blind_check_pending [OF blind_role_facts(4)]
  blind_check_pending [OF blind_role_facts(5)] blind_check_pending [OF blind_role_facts(6)]
  blind_check_pending [OF blind_role_facts(7)]

section \<open>Starting a role\<close>

lemma initialize_indices_facts:
  "con_term (con (initialize_indices d)) = con_term (con d)"
  "voted (con (initialize_indices d)) = voted (con d)" "votes (con (initialize_indices d)) = votes (con d)"
  "ci (initialize_indices d) = ci d" "targets (initialize_indices d) = targets d"
  by (simp_all add: initialize_indices_def pre_hb_pkt_frame
      for_targets_frame [of "\<lambda>d. con_term (con d)"] for_targets_frame [of "\<lambda>d. voted (con d)"]
      for_targets_frame [of "\<lambda>d. votes (con d)"] for_targets_frame [of ci]
      for_targets_frame [of "\<lambda>d. targets d"] upd_frame)

lemma start_leader_facts:
  "fst (start_leader d) = 0" "is_leader (snd (start_leader d)) = 1"
  "con_term (con (snd (start_leader d))) = con_term (con d)"
  "voted (con (snd (start_leader d))) = voted (con d)" "votes (con (snd (start_leader d))) = votes (con d)"
  "ci (snd (start_leader d)) = ci d" "targets (snd (start_leader d)) = targets d"
  by (simp_all add: start_leader_def Let_def check_pending_facts pre_hb_pkt_frame initialize_indices_facts
      for_targets_frame [of "\<lambda>d. con_term (con d)"] for_targets_frame [of "\<lambda>d. voted (con d)"]
      for_targets_frame [of "\<lambda>d. votes (con d)"] for_targets_frame [of ci] for_targets_frame [of is_leader]
      for_targets_frame [of "\<lambda>d. targets d"] upd_frame)

lemma start_follower_facts:
  assumes "max_entries (the_log d) = MAX_CONSENSUS_LOG"
  shows "fst (start_follower d) = 0" "is_leader (snd (start_follower d)) = 0"
    "con_term (con (snd (start_follower d))) = con_term (con d)"
    "voted (con (snd (start_follower d))) = voted (con d)" "votes (con (snd (start_follower d))) = 0"
    "ci (snd (start_follower d)) = ci d" "targets (snd (start_follower d)) = targets d"
  using broadcast_ok [OF assms, of NOOP] broadcast_frame [of NOOP d]
  by (auto simp: start_follower_def Let_def upd split: prod.split)

lemma setup_nomination_facts:
  "con (setup_nomination d) = (con d)\<lparr>con_term := to_s32 (con_term (con d) + 1)\<rparr>"
  "ci (setup_nomination d) = ci d" "targets (setup_nomination d) = targets d"
  "hold_fire (setup_nomination d) = 0" "clock (setup_nomination d) = clock d"
  using broadcast_frame [of NOMI "upd_con (\<lambda>p. p\<lparr>con_term := to_s32 (con_term p + 1)\<rparr>) d"]
  by (simp_all add: setup_nomination_def Let_def upd
      for_targets_frame [of con] for_targets_frame [of ci] for_targets_frame [of clock]
      for_targets_frame [of "\<lambda>d. targets d"])

lemma start_candidate_facts:
  assumes "\<not> (targets d < 2 \<and> warmup_state d = WARMED_UP)"
  shows "fst (start_candidate d) = 0" "is_leader (snd (start_candidate d)) = 0"
    "con_term (con (snd (start_candidate d))) = to_s32 (con_term (con d) + 1)"
    "voted (con (snd (start_candidate d))) = voted (con d)" "votes (con (snd (start_candidate d))) = 0"
    "ci (snd (start_candidate d)) = ci d" "targets (snd (start_candidate d)) = targets d"
proof -
  have l: "is_leader (setup_nomination e) = is_leader e" for e
    using broadcast_frame [of NOMI]
    by (simp add: setup_nomination_def Let_def setup_le_broadcast_msg_def
        for_targets_frame [of is_leader] setup_le_msg_frame upd)
  show "fst (start_candidate d) = 0" "is_leader (snd (start_candidate d)) = 0"
    "con_term (con (snd (start_candidate d))) = to_s32 (con_term (con d) + 1)"
    "voted (con (snd (start_candidate d))) = voted (con d)" "votes (con (snd (start_candidate d))) = 0"
    "ci (snd (start_candidate d)) = ci d" "targets (snd (start_candidate d)) = targets d"
    unfolding start_candidate_def if_not_P [OF assms]
    by (simp_all add: Let_def setup_nomination_facts l upd)
qed

section \<open>A transition decides the role\<close>

text \<open>What user space is shown for a role.\<close>

definition state_code :: "node_state \<Rightarrow> int" where
  "state_code st = ci_node_state (update_self_state st undefined)"

lemma state_code_simps [simp]:
  "state_code FOLLOWER = 1" "state_code CANDIDATE = 2" "state_code LEADER = 3" "state_code NODE_UNINIT = 0"
  by (simp_all add: state_code_def update_self_state_def)

lemma update_self_state_code: "ci_node_state (update_self_state st c) = state_code st"
  by (simp add: update_self_state_def state_code_def)

lemma stop_role_0: "stop_role d = (0, snd (stop_role d))"
  using stop_role_frame(1) [of d] by (simp add: prod_eq_iff)

lemma transition_step:
  assumes "st \<noteq> NODE_UNINIT"
    and "(case st of FOLLOWER \<Rightarrow> start_follower d1 | CANDIDATE \<Rightarrow> start_candidate d1
            | LEADER \<Rightarrow> start_leader d1 | NODE_UNINIT \<Rightarrow> (- EINVAL, d1)) = (0, d2)"
    and "d1 = snd (stop_role (upd_con (\<lambda>p. p\<lparr>votes := 0\<rparr>) d))"
  shows "\<exists>d3. node_transition st d = (0, d3\<lparr>ci := update_self_state st (ci d2)\<rparr>)
     \<and> con d3 = (con d3)\<lparr>nstate := st\<rparr> \<and> con_term (con d3) = con_term (con d2)
     \<and> voted (con d3) = voted (con d2) \<and> votes (con d3) = votes (con d2)
     \<and> is_leader d3 = is_leader d2 \<and> targets d3 = targets d2"
proof -
  let ?d2 = "if st = LEADER then con_log_event CANDIDATE_BECOME_LEADER d2 else d2"
  have "node_transition st d =
      (0, (upd_con (\<lambda>p. p\<lparr>nstate := st\<rparr>) ?d2)\<lparr>ci := update_self_state st (ci ?d2)\<rparr>)"
    using assms stop_role_0 [of "upd_con (\<lambda>p. p\<lparr>votes := 0\<rparr>) d"]
    by (cases st) (auto simp: node_transition_def Let_def upd_frame split: prod.splits)
  then show ?thesis by (intro exI [of _ "upd_con (\<lambda>p. p\<lparr>nstate := st\<rparr>) ?d2"]) (simp add: upd)
qed

lemma node_transition_ok:
  assumes mx: "max_entries (the_log d) = MAX_CONSENSUS_LOG" and st: "st \<noteq> NODE_UNINIT"
    and cand: "st = CANDIDATE \<Longrightarrow> 2 \<le> targets d \<or> warmup_state d = WARMING_UP"
  shows "fst (node_transition st d) = 0"
    and "role_view (snd (node_transition st d)) = (st, st = LEADER, state_code st, 0)"
    and "con_term (con (snd (node_transition st d))) =
       (if st = CANDIDATE then to_s32 (con_term (con d) + 1) else con_term (con d))"
    and "voted (con (snd (node_transition st d))) = voted (con d)"
    and "targets (snd (node_transition st d)) = targets d"
proof -
  let ?d1 = "snd (stop_role (upd_con (\<lambda>p. p\<lparr>votes := 0\<rparr>) d))"
  have d1: "max_entries (the_log ?d1) = MAX_CONSENSUS_LOG" "con_term (con ?d1) = con_term (con d)"
    "voted (con ?d1) = voted (con d)" "votes (con ?d1) = 0" "targets ?d1 = targets d"
    "warmup_state ?d1 = warmup_state d"
    using mx by (simp_all add: stop_role_frame) (simp add: upd)
  have c1: "\<not> (targets ?d1 < 2 \<and> warmup_state ?d1 = WARMED_UP)" if "st = CANDIDATE"
    using cand [OF that] d1(5,6) by auto
  obtain d2 where d2: "(case st of FOLLOWER \<Rightarrow> start_follower ?d1 | CANDIDATE \<Rightarrow> start_candidate ?d1
            | LEADER \<Rightarrow> start_leader ?d1 | NODE_UNINIT \<Rightarrow> (- EINVAL, ?d1)) = (0, d2)"
    and f: "(is_leader d2 \<noteq> 0) = (st = LEADER)" "votes (con d2) = 0" "voted (con d2) = voted (con d)"
      "con_term (con d2) = (if st = CANDIDATE then to_s32 (con_term (con d) + 1) else con_term (con d))"
      "targets d2 = targets d"
  proof (cases st)
    case FOLLOWER
    then show thesis
      using that [of "snd (start_follower ?d1)"] start_follower_facts [OF d1(1)] d1
      by (simp add: prod_eq_iff)
  next
    case CANDIDATE
    then show thesis
      using that [of "snd (start_candidate ?d1)"] start_candidate_facts [OF c1] d1 by (simp add: prod_eq_iff)
  next
    case LEADER
    then show thesis
      using that [of "snd (start_leader ?d1)"] start_leader_facts [of ?d1] d1 by (simp add: prod_eq_iff)
  qed (use st in simp)
  obtain d3 where d3: "node_transition st d = (0, d3\<lparr>ci := update_self_state st (ci d2)\<rparr>)"
    "con d3 = (con d3)\<lparr>nstate := st\<rparr>" "con_term (con d3) = con_term (con d2)"
    "voted (con d3) = voted (con d2)" "votes (con d3) = votes (con d2)"
    "is_leader d3 = is_leader d2" "targets d3 = targets d2"
    using transition_step [OF st d2 refl] by blast
  have ns: "nstate (con d3) = st" using d3(2) by (metis consensus_priv.select_convs(3) consensus_priv.surjective consensus_priv.update_convs(3))
  show "fst (node_transition st d) = 0"
    and "role_view (snd (node_transition st d)) = (st, st = LEADER, state_code st, 0)"
    and "con_term (con (snd (node_transition st d))) =
       (if st = CANDIDATE then to_s32 (con_term (con d) + 1) else con_term (con d))"
    and "voted (con (snd (node_transition st d))) = voted (con d)"
    and "targets (snd (node_transition st d)) = targets d"
    using d3 f ns by (simp_all add: role_view_def update_self_state_code)
qed

section \<open>Granting votes\<close>

lemma nomination_iff:
  assumes ok: "entries_ok (the_log d)" and last: "-1 \<le> last_idx (the_log d)"
    and trm: "0 \<le> con_term (con d)" and p1: "0 \<le> p1" "p1 < 2147483648"
  shows "fst (check_handle_nomination d p1 p3 p4 rcid) \<noteq> 0 \<longleftrightarrow>
      to_u32 (con_term (con d)) < p1 \<and> to_u32 rcid \<le> pm_cluster_id (pm d) \<and> voted (con d) \<noteq> p1
    \<and> \<not> (0 \<le> cur_leader_lid d \<and> cur_leader_lid d < int (targets d)
          \<and> alive (target d (nat (cur_leader_lid d))) \<noteq> 0 \<and> leader_id (con d) < to_u32 rcid)
    \<and> (last_idx (the_log d) = -1 \<or>
        to_u32 (last_idx (the_log d)) \<le> p3 \<and> e_term (log_at (the_log d) (last_idx (the_log d))) = p4)"
    (is "?l \<longleftrightarrow> ?r")
proof -
  let ?log = "the_log d"
  let ?b = "consensus_idx_to_buffer_idx ?log (last_idx ?log)"
  have mx: "max_entries ?log = MAX_CONSENSUS_LOG" using ok by (simp add: entries_ok_def)
  have b: "to_u32 ?b = ?b" "?b \<noteq> to_u32 (-1)"
    using con2buf_range [OF mx, of "last_idx ?log"] by (simp_all add: MAX_CONSENSUS_LOG_def cint)
  have e: "log_entries ?log ?b = Some (log_at ?log (last_idx ?log))"
    using ok con2buf_range [OF mx, of "last_idx ?log"] by (auto simp: entries_ok_def log_at_def entry_at_def)
  have s: "to_s32 p1 = p1" "to_u32 p1 = p1" using p1 by simp_all
  show ?thesis
  proof (cases "pm_cluster_id (pm d) < to_u32 rcid")
    case True
    then have "fst (check_handle_nomination d p1 p3 p4 rcid) = 0"
      by (simp add: check_handle_nomination_def Let_def s)
    then show ?thesis using True by simp
  next
    case False
    then show ?thesis
      by (simp add: check_handle_nomination_def Let_def b e not_less split: if_split)
  qed
qed

text \<open>C8: When a nomination is granted: a term above the receiver's, a candidate with a lower cluster
  id than the receiver, no vote in that term remembered, no better live leader, and a log at least
  as long with the same term in the receiver's last entry.\<close>

theorem vote_granted_iff:
  assumes ok: "entries_ok (the_log d)" and last: "-1 \<le> last_idx (the_log d)"
    and trm: "0 \<le> con_term (con d)" and p1: "0 \<le> p1" "p1 < 2147483648"
  shows "fst (check_handle_nomination d p1 p3 p4 rcid) \<noteq> 0 \<longleftrightarrow>
      to_u32 (con_term (con d)) < p1 \<and> to_u32 rcid \<le> pm_cluster_id (pm d) \<and> voted (con d) \<noteq> p1
    \<and> \<not> (0 \<le> cur_leader_lid d \<and> cur_leader_lid d < int (targets d)
          \<and> alive (target d (nat (cur_leader_lid d))) \<noteq> 0 \<and> leader_id (con d) < to_u32 rcid)
    \<and> (last_idx (the_log d) = -1 \<or>
        to_u32 (last_idx (the_log d)) \<le> p3 \<and> e_term (log_at (the_log d) (last_idx (the_log d))) = p4)"
  by (rule nomination_iff [OF assms])

theorem vote_granted_iff_witness:
  "fst (check_handle_nomination (sample_node FOLLOWER 1) 5 1 1 0) \<noteq> 0
   \<and> fst (check_handle_nomination (sample_node FOLLOWER 1) 5 0 1 0) = 0
   \<and> fst (check_handle_nomination (sample_node FOLLOWER 1) 5 1 1 2) = 0"
  using vote_granted_iff [of "sample_node FOLLOWER 1" 5 1 1 0] vote_granted_iff [of "sample_node FOLLOWER 1" 5 0 1 0]
    vote_granted_iff [of "sample_node FOLLOWER 1" 5 1 1 2]
  by (simp add: sample entries_ok_def log_at_def entry_at_def con2buf MAX_CONSENSUS_LOG_def)

lemma no_second_vote:
  assumes "0 \<le> p1" and "p1 < 2147483648"
  shows "fst (check_handle_nomination (reply_vote d lid p1 x) p1 p3 p4 rcid) = 0"
  using assms by (simp add: check_handle_nomination_def reply_vote_def Let_def upd)

lemma reply_vote_facts:
  "con_term (con (reply_vote d lid p x)) = con_term (con d)" "voted (con (reply_vote d lid p x)) = to_u32 p"
  "nstate (con (reply_vote d lid p x)) = nstate (con d)" "leader_id (con (reply_vote d lid p x)) = leader_id (con d)"
  "the_log (reply_vote d lid p x) = the_log d" "votes (con (reply_vote d lid p x)) = votes (con d)"
  "is_leader (reply_vote d lid p x) = is_leader d" "ci (reply_vote d lid p x) = ci d"
  "cur_leader_lid (reply_vote d lid p x) = cur_leader_lid d" "targets (reply_vote d lid p x) = targets d"
  "pm_cluster_id (pm (reply_vote d lid p x)) = pm_cluster_id (pm d)"
  "alive (target (reply_vote d lid p x) j) = alive (target d j)"
  by (simp_all add: reply_vote_def Let_def setup_le_msg_frame upd)

text \<open>A nomination message handled by a follower with an empty log and no leader.\<close>

lemma follower_grants:
  assumes "pkt_opcode m pkt = Some NOMI" and p: "to_s32 (GET_CON_PROTO_PARAM1_VAL m pkt) = p"
    and "entries_ok (the_log d)" and "last_idx (the_log d) = -1" and "cur_leader_lid d = -1"
    and "0 \<le> con_term (con d)" "con_term (con d) < p" "p < 2147483648"
    and "to_u32 cid \<le> pm_cluster_id (pm d)" and "voted (con d) \<noteq> p"
  shows "follower_process_pkt d lid cid m pkt = reply_vote d lid p (GET_CON_PROTO_PARAM2_VAL m pkt)"
proof -
  have "fst (nominate d m pkt cid) \<noteq> 0" using assms by (simp add: nominate_def nomination_iff p)
  moreover have "snd (nominate d m pkt cid) = d"
    using assms(9) by (simp add: nominate_def check_handle_nomination_def Let_def split: if_split option.split)
  ultimately show ?thesis using assms(1) p by (simp add: follower_process_pkt_def Let_def split_beta)
qed

text \<open>C9: A node votes for two candidates of one term. A follower with an empty log and no leader gets
  three nomination messages: of candidate \<open>a\<close> for a term \<open>p\<close>, of some candidate for another term
  \<open>q\<close> above its own, and of a second candidate \<open>c\<close> for \<open>p\<close> again. The packet handler answers each of
  them with a vote, the first and the last to different candidates for the same term: the vote is
  remembered for the last term only, and granting one leaves the node's term as it was.\<close>

theorem second_vote_later:
  assumes "pkt_opcode m1 pkt1 = Some NOMI" "to_s32 (GET_CON_PROTO_PARAM1_VAL m1 pkt1) = p"
    and "pkt_opcode m2 pkt2 = Some NOMI" "to_s32 (GET_CON_PROTO_PARAM1_VAL m2 pkt2) = q"
    and "pkt_opcode m3 pkt3 = Some NOMI" "to_s32 (GET_CON_PROTO_PARAM1_VAL m3 pkt3) = p"
    and "entries_ok (the_log d)" and "last_idx (the_log d) = -1" and "cur_leader_lid d = -1"
    and "0 \<le> con_term (con d)" "con_term (con d) < p" "p < 2147483648"
    and "con_term (con d) < q" "q < 2147483648" "q \<noteq> p" and "voted (con d) \<noteq> p"
    and "to_u32 a \<le> pm_cluster_id (pm d)" "to_u32 b \<le> pm_cluster_id (pm d)" "to_u32 c \<le> pm_cluster_id (pm d)"
    and "a \<noteq> c" and "i \<noteq> k"
    and d1: "d1 = follower_process_pkt d i a m1 pkt1" and d2: "d2 = follower_process_pkt d1 j b m2 pkt2"
    and d3: "d3 = follower_process_pkt d2 k c m3 pkt3"
  shows "d1 = reply_vote d i p (GET_CON_PROTO_PARAM2_VAL m1 pkt1)
    \<and> d2 = reply_vote d1 j q (GET_CON_PROTO_PARAM2_VAL m2 pkt2)
    \<and> d3 = reply_vote d2 k p (GET_CON_PROTO_PARAM2_VAL m3 pkt3)
    \<and> fire (target d1 i) = 1 \<and> fire (target d3 k) = 1 \<and> con_term (con d3) = con_term (con d)"
proof -
  have u: "to_u32 p = p" "to_u32 q = q" using assms(10-14) by simp_all
  have 1: "d1 = reply_vote d i p (GET_CON_PROTO_PARAM2_VAL m1 pkt1)"
    unfolding d1 using assms by (intro follower_grants)
  have 2: "d2 = reply_vote d1 j q (GET_CON_PROTO_PARAM2_VAL m2 pkt2)"
    unfolding d2 by (intro follower_grants) (use assms(1-19) in \<open>simp_all add: 1 reply_vote_facts u\<close>)
  have 3: "d3 = reply_vote d2 k p (GET_CON_PROTO_PARAM2_VAL m3 pkt3)"
    unfolding d3 by (intro follower_grants) (use assms(1-19) in \<open>simp_all add: 1 2 reply_vote_facts u\<close>)
  have f: "fire (target (reply_vote e l x y) l) = 1" for e l x y by (simp add: reply_vote_def Let_def upd)
  from 1 2 3 show ?thesis by (simp add: f reply_vote_facts)
qed

theorem second_vote_later_witness:
  "let d1 = follower_process_pkt (sample_node FOLLOWER (-1)) 0 0 (set_le_opcode (\<lambda>_. 0) 0 NOMI 5 0 0 0) 0;
       d2 = follower_process_pkt d1 0 0 (set_le_opcode (\<lambda>_. 0) 0 NOMI 6 0 0 0) 0;
       d3 = follower_process_pkt d2 1 1 (set_le_opcode (\<lambda>_. 0) 0 NOMI 5 0 0 0) 0
   in d1 = reply_vote (sample_node FOLLOWER (-1)) 0 5 0 \<and> d3 = reply_vote d2 1 5 0"
proof -
  have m: "pkt_opcode (set_le_opcode (\<lambda>_. 0) 0 NOMI x 0 0 0) 0 = Some NOMI"
    "GET_CON_PROTO_PARAM1_VAL (set_le_opcode (\<lambda>_. 0) 0 NOMI x 0 0 0) 0 = to_u32 x"
    "GET_CON_PROTO_PARAM2_VAL (set_le_opcode (\<lambda>_. 0) 0 NOMI x 0 0 0) 0 = 0" for x
    using set_le_opcode_fields [of "\<lambda>_. 0" 0 NOMI x 0 0 0] by (simp_all add: pkt_opcode_def opcode_of_def)
  have n: "entries_ok (the_log (sample_node FOLLOWER (-1)))" "last_idx (the_log (sample_node FOLLOWER (-1))) = -1"
    "cur_leader_lid (sample_node FOLLOWER (-1)) = -1" "con_term (con (sample_node FOLLOWER (-1))) = 1"
    "voted (con (sample_node FOLLOWER (-1))) \<noteq> 5" "1 \<le> pm_cluster_id (pm (sample_node FOLLOWER (-1)))"
    by (simp_all add: sample entries_ok_def)
  have t: "to_s32 (GET_CON_PROTO_PARAM1_VAL (set_le_opcode (\<lambda>_. 0) 0 NOMI 5 0 0 0) 0) = 5"
    "to_s32 (GET_CON_PROTO_PARAM1_VAL (set_le_opcode (\<lambda>_. 0) 0 NOMI 6 0 0 0) 0) = 6"
    by (simp_all add: m)
  note v = second_vote_later [OF m(1) t(1) m(1) t(2) m(1) t(1) n(1-3) _ _ _ _ _ _ n(5) _ _ _ _ _ refl refl refl,
      where i = 0 and k = 1 and j = 0 and a = 0 and b = 0 and c = 1, unfolded m(3) n(4)]
  from n(6) show ?thesis unfolding Let_def by (intro conjI v [THEN conjunct1] v [THEN conjunct2, THEN conjunct2, THEN conjunct1]) simp_all
qed

section \<open>Counting votes\<close>

lemma accept_vote_below:
  assumes "votes (con d) + 1 \<noteq> int (targets d)"
  shows "nstate (con (accept_vote d)) = nstate (con d)" "votes (con (accept_vote d)) = votes (con d) + 1"
    "targets (accept_vote d) = targets d" "is_leader (accept_vote d) = is_leader d"
    "con_term (con (accept_vote d)) = con_term (con d)" "the_log (accept_vote d) = the_log d"
    "ci (accept_vote d) = ci d"
  using assms by (simp_all add: accept_vote_def Let_def upd)

lemma accept_vote_last:
  assumes "votes (con d) + 1 = int (targets d)" and "max_entries (the_log d) = MAX_CONSENSUS_LOG"
  shows "role_view (accept_vote d) = (LEADER, True, 3, 0)" "cur_leader_lid (accept_vote d) = -1"
    "con_term (con (accept_vote d)) = con_term (con d)"
proof -
  let ?d = "con_log_event CANDIDATE_ACCEPT_VOTE (upd_con (\<lambda>p. p\<lparr>votes := votes p + 1\<rparr>) d)"
  have d: "max_entries (the_log ?d) = MAX_CONSENSUS_LOG" "votes (con ?d) = int (targets ?d)"
    "con_term (con ?d) = con_term (con d)"
    using assms by (simp_all add: upd)
  note t = node_transition_ok [OF d(1), of LEADER]
  have run: "accept_vote d = (upd_con (\<lambda>p. p\<lparr>accu_rand := 0\<rparr>) (snd (node_transition LEADER ?d)))\<lparr>cur_leader_lid := -1\<rparr>"
    using d(2) by (simp add: accept_vote_def Let_def)
  show "role_view (accept_vote d) = (LEADER, True, 3, 0)" "cur_leader_lid (accept_vote d) = -1"
    "con_term (con (accept_vote d)) = con_term (con d)"
    using t d(3) unfolding run by (simp_all add: role_view_def upd)
qed

text \<open>C7: A candidate becomes leader with the vote number \<open>num_of_targets\<close>, not before: every other
  registered node has to answer, and every answer counts, whoever sent it.\<close>

theorem election_votes:
  assumes "nstate (con d) = CANDIDATE" and "votes (con d) = 0" and "is_leader d = 0"
    and "max_entries (the_log d) = MAX_CONSENSUS_LOG"
    and "0 < targets d"
  shows "(\<forall>k < targets d. nstate (con ((accept_vote ^^ k) d)) = CANDIDATE \<and> is_leader ((accept_vote ^^ k) d) = 0
           \<and> con_term (con ((accept_vote ^^ k) d)) = con_term (con d))
    \<and> role_view ((accept_vote ^^ targets d) d) = (LEADER, True, 3, 0)
    \<and> con_term (con ((accept_vote ^^ targets d) d)) = con_term (con d)"
proof -
  have *: "nstate (con ((accept_vote ^^ k) d)) = CANDIDATE
           \<and> votes (con ((accept_vote ^^ k) d)) = int k \<and> targets ((accept_vote ^^ k) d) = targets d
           \<and> is_leader ((accept_vote ^^ k) d) = 0 \<and> the_log ((accept_vote ^^ k) d) = the_log d
           \<and> con_term (con ((accept_vote ^^ k) d)) = con_term (con d)" if "k < targets d" for k
    using that assms by (induction k) (auto simp: accept_vote_below)
  obtain n where n: "targets d = Suc n" using assms(5) by (cases "targets d") auto
  then have "role_view ((accept_vote ^^ targets d) d) = (LEADER, True, 3, 0)
           \<and> con_term (con ((accept_vote ^^ targets d) d)) = con_term (con d)"
    using * [of n] assms(4) accept_vote_last [of "(accept_vote ^^ n) d"] by simp
  with * show ?thesis by blast
qed

theorem election_votes_witness:
  "nstate (con (accept_vote (sample_node CANDIDATE 0))) = CANDIDATE
    \<and> role_view ((accept_vote ^^ 2) (sample_node CANDIDATE 0)) = (LEADER, True, 3, 0)
    \<and> con_term (con ((accept_vote ^^ 2) (sample_node CANDIDATE 0))) = 1"
proof -
  have d: "nstate (con (sample_node CANDIDATE 0)) = CANDIDATE" "votes (con (sample_node CANDIDATE 0)) = 0"
    "is_leader (sample_node CANDIDATE 0) = 0" "max_entries (the_log (sample_node CANDIDATE 0)) = MAX_CONSENSUS_LOG"
    "0 < targets (sample_node CANDIDATE 0)" "targets (sample_node CANDIDATE 0) = 2"
    "con_term (con (sample_node CANDIDATE 0)) = 1"
    by (simp_all add: sample)
  from election_votes [OF d(1-5)] show ?thesis unfolding d(6,7)
    by (auto dest: spec [of _ 1])
qed

end
