(* ===== verification/AsgPacemaker.thy ===== *)
theory AsgPacemaker
  imports AsgElection
begin

text \<open>
  \<open>core/pacemaker.c\<close> from \<open>get_lowest_alive_id\<close> on, with \<open>check_warmup_state\<close> (\<open>membership.c\<close>): the
  failure detector, the emission of packets and one turn of the pacemaker loop.  The kernel build
  is modelled; sending a buffer appends it to \<open>tx_log\<close> unless the network device is down or its
  queue stopped.
\<close>

section \<open>Leader watch\<close>

definition get_lowest_alive_id :: "asgard_device \<Rightarrow> int" where
  "get_lowest_alive_id d = fold (\<lambda>i cur_low.
       if alive (target d i) \<noteq> 0 \<and> cur_low > to_u32 (t_cluster_id (target d i))
       then to_u32 (t_cluster_id (target d i)) else cur_low)
     [0..<targets d] (pm_cluster_id (pm d))"

definition update_leader :: "asgard_device \<Rightarrow> asgard_device" where
  "update_leader d =
     (let leader_lid = cur_leader_lid d;
          self_id = pm_cluster_id (pm d);
          lowest_follower_id = get_lowest_alive_id d
      in if \<not> has_con d then d
         else if warmup_state d = WARMING_UP then d
         else if leader_lid = -1 \<or> alive (target d (nat leader_lid)) = 0 then
           (if lowest_follower_id = self_id then
              (if nstate (con d) = CANDIDATE \<and> candidate_counter (con d) < 50
               then upd_con (\<lambda>p. p\<lparr>candidate_counter := candidate_counter p + 1\<rparr>) d
               else con_log_event FOLLOWER_BECOME_CANDIDATE (snd (node_transition CANDIDATE d)))
            else d)
         else d)"

definition update_aliveness_states :: "nat \<Rightarrow> asgard_device \<Rightarrow> asgard_device" where
  "update_aliveness_states i d =
     (let t = target d i
      in if cur_waiting_interval t \<noteq> 0
         then upd_target i (\<lambda>t. t\<lparr>cur_waiting_interval := cur_waiting_interval t - 1\<rparr>) d
         else if lhb_ts t = chb_ts t then
           (let d1 = upd_target i (\<lambda>t. t\<lparr>alive := 0\<rparr>) d;
                d2 = d1\<lparr>ci := update_cluster_member (clock d1) (ci d1) (int i) 0\<rparr>
            in upd_target i (\<lambda>t. t\<lparr>cur_waiting_interval := resp_factor t\<rparr>) d2)
         else upd_target i (\<lambda>t. t\<lparr>lhb_ts := chb_ts t, cur_waiting_interval := resp_factor t\<rparr>) d)"

definition start_proto :: "nat \<Rightarrow> asgard_device \<Rightarrow> asgard_device" where
  "start_proto i d =
     (case protos d i of
        None \<Rightarrow> d
      | Some ins \<Rightarrow>
          (case proto_type ins of
             ASGARD_PROTO_CONSENSUS \<Rightarrow> snd (consensus_start d)
           | ASGARD_PROTO_PP \<Rightarrow> snd (pingpong_start d)
           | _ \<Rightarrow> d))"

definition stop_proto :: "nat \<Rightarrow> asgard_device \<Rightarrow> asgard_device" where
  "stop_proto i d =
     (case protos d i of
        None \<Rightarrow> d
      | Some ins \<Rightarrow>
          (case proto_type ins of
             ASGARD_PROTO_CONSENSUS \<Rightarrow> snd (consensus_stop d)
           | ASGARD_PROTO_PP \<Rightarrow> snd (pingpong_stop d)
           | _ \<Rightarrow> d))"

definition check_warmup_state :: "asgard_device \<Rightarrow> int \<times> asgard_device" where
  "check_warmup_state d =
     (if warmup_state d = WARMING_UP then
        if targets d < 2 then (1, d)
        else if length (filter (\<lambda>i. alive (target d i) \<noteq> 0) [0..<targets d]) < 2 then (1, d)
        else
          let d1 = fold start_proto [0..<num_of_proto_instances d] d;
              d2 = d1\<lparr>warmup_state := WARMED_UP\<rparr>
          in (0, update_leader d2)
      else (0, d))"

section \<open>The loop's conditions\<close>

definition pacemaker_is_alive :: "asgard_device \<Rightarrow> bool" where
  "pacemaker_is_alive d \<longleftrightarrow> pm_state (pm d) = ASGARD_PM_EMITTING"

definition scheduled_tx :: "int \<Rightarrow> int \<Rightarrow> int \<Rightarrow> bool" where
  "scheduled_tx prev_time cur_time interval \<longleftrightarrow> to_u64 (cur_time - prev_time) \<ge> interval"

definition check_async_window :: "int \<Rightarrow> int \<Rightarrow> int \<Rightarrow> int \<Rightarrow> bool" where
  "check_async_window prev_time cur_time interval sync_window \<longleftrightarrow>
     to_u64 (cur_time - prev_time) \<le> to_u64 (interval - sync_window)"

definition out_of_schedule_tx :: "asgard_device \<Rightarrow> bool" where
  "out_of_schedule_tx d =
     (if hold_fire d \<noteq> 0 then False else list_ex (\<lambda>i. fire (target d i) \<noteq> 0) [0..<targets d])"

definition check_async_door :: "asgard_device \<Rightarrow> bool" where
  "check_async_door d =
     (if mc_enable (mc d) \<noteq> 0 then doorbell (mc_aapriv (mc d)) \<noteq> 0
      else list_ex (\<lambda>i. doorbell (aapriv (target d i)) \<noteq> 0) [0..<targets d])"

definition out_of_schedule_multi_tx :: "asgard_device \<Rightarrow> bool" where
  "out_of_schedule_multi_tx d =
     (if hold_fire d \<noteq> 0 then False
      else if mc_enable (mc d) = 0 then False
      else oos_fire (pm d) \<noteq> 0)"

section \<open>Emission\<close>

definition asgard_update_skb_udp_port :: "int \<Rightarrow> skb \<Rightarrow> skb" where
  "asgard_update_skb_udp_port udp_port b = b\<lparr>skb_dport := to_u16 udp_port\<rparr>"

text \<open>The payload is copied into the buffer and cleared: the result is both.\<close>

definition asgard_update_skb_payload :: "skb \<Rightarrow> asgard_payload \<Rightarrow> skb \<times> asgard_payload" where
  "asgard_update_skb_payload b payload = (b\<lparr>skb_data := payload\<rparr>, empty_payload)"

definition asgard_send_skb :: "skb \<Rightarrow> asgard_device \<Rightarrow> asgard_device" where
  "asgard_send_skb b d =
     (if \<not> ndev_up d then upd_pm (\<lambda>p. p\<lparr>pm_errors := pm_errors p + 1\<rparr>) d
      else
        let d1 = upd_pm (\<lambda>p. p\<lparr>pm_errors := 0\<rparr>) d
        in if txq_stopped d1 then d1 else d1\<lparr>tx_log := tx_log d1 @ [b]\<rparr>)"

definition emit_async_unicast_one :: "nat \<Rightarrow> asgard_device \<Rightarrow> asgard_device" where
  "emit_async_unicast_one i d =
     (if doorbell (aapriv (target d i)) > 0 then
        let (cur_apkt, q) = dequeue_async_pkt (aapriv (target d i));
            d1 = upd_target i (\<lambda>t. t\<lparr>aapriv := q\<lparr>doorbell := doorbell q - 1\<rparr>\<rparr>) d
        in (case cur_apkt of
              None \<Rightarrow> d1
            | Some a \<Rightarrow>
                let b = fst (asgard_update_skb_payload
                          (asgard_update_skb_udp_port (tx_port d1) (ap_skb a)) (ap_payload a));
                    d2 = asgard_send_skb b d1;
                    d3 = d2\<lparr>tx_counter := tx_counter d2 + 1\<rparr>
                in upd_target i (\<lambda>t. t\<lparr>pkt_tx_counter := pkt_tx_counter t + 1\<rparr>) d3)
      else d)"

definition emit_async_unicast_pkts :: "asgard_device \<Rightarrow> int \<times> asgard_device" where
  "emit_async_unicast_pkts d = (0, for_targets emit_async_unicast_one d)"

definition emit_async_multicast_pkt :: "asgard_device \<Rightarrow> int \<times> asgard_device" where
  "emit_async_multicast_pkt d =
     (if doorbell (mc_aapriv (mc d)) > 0 then
        let (cur_apkt, q) = dequeue_async_pkt (mc_aapriv (mc d));
            d1 = d\<lparr>mc := (mc d)\<lparr>mc_aapriv := q\<lparr>doorbell := doorbell q - 1\<rparr>\<rparr>\<rparr>
        in (case cur_apkt of
              None \<Rightarrow> (-1, d1)
            | Some a \<Rightarrow>
                let b = fst (asgard_update_skb_payload
                          (asgard_update_skb_udp_port (tx_port d1) (ap_skb a)) (ap_payload a));
                    d2 = asgard_send_skb b d1
                in (0, d2\<lparr>tx_counter := tx_counter d2 + 1\<rparr>))
      else (0, d))"

definition emit_pkts_non_scheduled_multi :: "asgard_device \<Rightarrow> int \<times> asgard_device" where
  "emit_pkts_non_scheduled_multi d =
     (let (b, p) = asgard_update_skb_payload
            (asgard_update_skb_udp_port (oos_port (pm d)) (oos_skb (pm d))) (oos_payload (pm d));
          d1 = asgard_send_skb b (upd_pm (\<lambda>q. q\<lparr>oos_skb := b, oos_payload := p\<rparr>) d);
          d2 = d1\<lparr>tx_counter := tx_counter d1 + 1\<rparr>
      in (0, upd_pm (\<lambda>q. q\<lparr>oos_payload := empty_payload, oos_fire := 0\<rparr>) d2))"

definition emit_async_pkts :: "asgard_device \<Rightarrow> int \<times> asgard_device" where
  "emit_async_pkts d =
     (if mc_enable (mc d) \<noteq> 0 then emit_async_multicast_pkt d else emit_async_unicast_pkts d)"

definition send_oos_one :: "nat \<Rightarrow> asgard_device \<Rightarrow> asgard_device" where
  "send_oos_one i d =
     (let t = target d i;
          (b, p) = asgard_update_skb_payload
                     (asgard_update_skb_udp_port (tx_port d) (pkt_skb t)) (pkt_payload t);
          d1 = asgard_send_skb b (upd_target i (\<lambda>t. t\<lparr>pkt_skb := b, pkt_payload := p\<rparr>) d);
          d2 = d1\<lparr>tx_counter := tx_counter d1 + 1\<rparr>
      in upd_target i (\<lambda>t. t\<lparr>pkt_tx_counter := pkt_tx_counter t + 1\<rparr>) d2)"

definition asgard_send_oos_pkts :: "(nat \<Rightarrow> int) \<Rightarrow> asgard_device \<Rightarrow> asgard_device" where
  "asgard_send_oos_pkts target_fire d =
     (if targets d = 0 then d
      else for_targets (\<lambda>i d. if target_fire i = 0 then d else send_oos_one i d) d)"

definition emit_pkts_non_scheduled :: "asgard_device \<Rightarrow> int \<times> asgard_device" where
  "emit_pkts_non_scheduled d =
     (let target_fire = (\<lambda>i. fire (target d i));
          d1 = asgard_send_oos_pkts target_fire d
      in (0, for_targets (\<lambda>i d. if target_fire i = 0 then d
               else upd_target i (\<lambda>t. t\<lparr>pkt_payload := empty_payload, fire := 0\<rparr>) d) d1))"

definition emit_scheduled_one :: "nat \<Rightarrow> asgard_device \<Rightarrow> asgard_device" where
  "emit_scheduled_one i d =
     (let t = target d i;
          (b, p) = asgard_update_skb_payload
                     (asgard_update_skb_udp_port (tx_port d) (hb_skb t)) (hb_payload t)
      in asgard_send_skb b (upd_target i (\<lambda>t. t\<lparr>hb_skb := b, hb_payload := p\<rparr>) d))"

definition emit_pkts_scheduled :: "asgard_device \<Rightarrow> int \<times> asgard_device" where
  "emit_pkts_scheduled d = (0, for_targets emit_scheduled_one d)"

section \<open>The pacemaker loop\<close>

definition asgard_setup_hb_skbs :: "asgard_device \<Rightarrow> asgard_device" where
  "asgard_setup_hb_skbs d =
     (if mc_enable (mc d) \<noteq> 0
      then upd_pm (\<lambda>p. p\<lparr>oos_skb := asgard_reserve_skb (mc_dst_ip (mc d)) (mc_dst_mac (mc d)),
             oos_port := 3321\<rparr>) d
      else d)"

definition prepare_pm_loop :: "asgard_device \<Rightarrow> int \<times> asgard_device" where
  "prepare_pm_loop d0 =
     (let d1 = pm_state_transition_to ASGARD_PM_EMITTING (asgard_setup_hb_skbs d0);
          d = d1\<lparr>warmup_state := WARMING_UP\<rparr>
      in if \<not> has_con d then (1, d)
         else if multicast_pkt_payload (pm d) = None then (1, d)
         else (0, d))"

definition postwork_pm_loop :: "asgard_device \<Rightarrow> asgard_device" where
  "postwork_pm_loop d =
     pm_state_transition_to ASGARD_PM_READY (fold stop_proto [0..<num_of_proto_instances d] d)"

text \<open>The work after a scheduled emission: the next heartbeats, the failure detector, the leader
  watch and the replication check.\<close>

definition scheduled_work :: "asgard_device \<Rightarrow> asgard_device" where
  "scheduled_work d =
     (let d1 = d\<lparr>hb_interval := hb_interval d + 1\<rparr>;
          d2 = snd (emit_pkts_scheduled d1);
          d3 = for_targets pre_hb_hb d2;
          d4 = for_targets update_aliveness_states d3;
          d5 = (if has_con d4 \<and> nstate (con d4) \<noteq> LEADER then update_leader d4 else d4)
      in check_pending_log_rep d5)"

text \<open>One turn of the loop at time \<open>clock d\<close>: to go on with a \<open>prev_time\<close>, to leave the loop, or
  to return from \<open>do_pacemaker\<close> with a value.\<close>

datatype pm_turn = PM_CONTINUE int | PM_LEAVE | PM_RETURN int

definition emit_result :: "int \<Rightarrow> int \<times> asgard_device \<Rightarrow> pm_turn \<times> asgard_device" where
  "emit_result prev_time = (\<lambda>(err, d).
     (if err \<noteq> 0 then (PM_RETURN (-1), snd (asgard_pm_stop d)) else (PM_CONTINUE prev_time, d)))"

definition pacemaker_turn :: "int \<Rightarrow> int \<Rightarrow> asgard_device \<Rightarrow> pm_turn \<times> asgard_device" where
  "pacemaker_turn interval prev_time d =
     (let cur_time = clock d
      in if \<not> pacemaker_is_alive d then (PM_LEAVE, d)
         else if pm_errors (pm d) > 1000 then (PM_LEAVE, pm_state_transition_to ASGARD_PM_FAILED d)
         else if scheduled_tx prev_time cur_time interval then (PM_CONTINUE cur_time, scheduled_work d)
         else if \<not> check_async_window prev_time cur_time interval (waiting_window (pm d))
         then (PM_CONTINUE prev_time, d)
         else if out_of_schedule_tx d then emit_result prev_time (emit_pkts_non_scheduled d)
         else if out_of_schedule_multi_tx d then emit_result prev_time (emit_pkts_non_scheduled_multi d)
         else if check_async_door d then emit_result prev_time (emit_async_pkts d)
         else (PM_CONTINUE prev_time, d))"

text \<open>\<open>do_pacemaker\<close> up to the first turn: \<open>None\<close> when it returns -1.\<close>

definition pacemaker_enter :: "asgard_device \<Rightarrow> int option \<times> asgard_device" where
  "pacemaker_enter d =
     (if hbi (pm d) \<le> 0 then (None, pm_state_transition_to ASGARD_PM_FAILED d)
      else
        let (err, d1) = prepare_pm_loop (upd_pm (\<lambda>p. p\<lparr>pm_errors := 0\<rparr>) d)
        in if err \<noteq> 0 then (None, pm_state_transition_to ASGARD_PM_FAILED d1)
           else (Some (clock d1), d1))"

definition init_pacemaker :: "asgard_device \<Rightarrow> asgard_device" where
  "init_pacemaker = pm_state_transition_to ASGARD_PM_READY \<circ>
     upd_pm (\<lambda>p. p\<lparr>hbi := 0, num_of_targets := 0, waiting_window := 10000000,
       pm_cluster_id := to_u32 (-1), multicast_pkt_payload := Some empty_payload,
       oos_payload := empty_payload\<rparr>)"

text \<open>\<open>ndev\<close> says whether the device has a network device.\<close>

definition validate_pm :: "asgard_device \<Rightarrow> bool \<Rightarrow> int" where
  "validate_pm d ndev =
     (if pm_state (pm d) \<noteq> ASGARD_PM_READY then - EPERM
      else if \<not> ndev then - EINVAL
      else if self_mac d = None then - EINVAL
      else 0)"

definition asgard_reset_remote_host_counter :: "asgard_device \<Rightarrow> asgard_device" where
  "asgard_reset_remote_host_counter = upd_pm (\<lambda>p. p\<lparr>num_of_targets := 0\<rparr>)"

definition asgard_pm_reset :: "asgard_device \<Rightarrow> int \<times> asgard_device" where
  "asgard_pm_reset d =
     (if pm_state (pm d) = ASGARD_PM_EMITTING then (- EPERM, d)
      else (0, asgard_reset_remote_host_counter d))"

section \<open>The failure detector\<close>

text \<open>A scheduled turn checks a target only when its waiting interval has run down; then the
  target dies exactly if no heartbeat came in since the last check.\<close>

lemma update_aliveness_target:
  "target (update_aliveness_states i d) j =
     (if j = i then
        (let t = target d i
         in if cur_waiting_interval t \<noteq> 0
            then t\<lparr>cur_waiting_interval := cur_waiting_interval t - 1\<rparr>
            else if lhb_ts t = chb_ts t then t\<lparr>alive := 0, cur_waiting_interval := resp_factor t\<rparr>
            else t\<lparr>lhb_ts := chb_ts t, cur_waiting_interval := resp_factor t\<rparr>)
      else target d j)"
  by (simp add: update_aliveness_states_def Let_def upd)

text \<open>The failure detector of one target: \<open>n\<close> scheduled turns without a packet from it.\<close>

lemma silent_turns:
  "cur_waiting_interval (target d i) = int n \<Longrightarrow>
     target ((update_aliveness_states i ^^ n) d) i = (target d i)\<lparr>cur_waiting_interval := 0\<rparr>"
proof (induction n arbitrary: d)
  case (Suc n)
  have "cur_waiting_interval (target (update_aliveness_states i d) i) = int n"
    using Suc.prems by (simp add: update_aliveness_target Let_def)
  from Suc.IH [OF this] Suc.prems show ?case
    by (simp add: funpow_swap1 update_aliveness_target Let_def del: funpow.simps)
      (simp add: funpow_Suc_right update_aliveness_target Let_def del: funpow.simps)
qed simp

text \<open>C10: A target that stays silent is declared dead within \<open>cur_waiting_interval + resp_factor + 2\<close>
  scheduled turns.\<close>

theorem crash_detected:
  assumes "0 \<le> cur_waiting_interval (target d i)" and "0 \<le> resp_factor (target d i)"
  shows "\<exists>n \<le> nat (cur_waiting_interval (target d i)) + nat (resp_factor (target d i)) + 2.
     alive (target ((update_aliveness_states i ^^ n) d) i) = 0"
proof -
  let ?u = "update_aliveness_states i" and ?t = "target d i"
  let ?w = "nat (cur_waiting_interval ?t)" and ?r = "nat (resp_factor ?t)"
  have d1: "target ((?u ^^ ?w) d) i = ?t\<lparr>cur_waiting_interval := 0\<rparr>"
    using assms by (intro silent_turns) simp
  have dead: "alive (target (?u e) i) = 0"
    if "cur_waiting_interval (target e i) = 0" "lhb_ts (target e i) = chb_ts (target e i)" for e
    using that by (simp add: update_aliveness_target Let_def)
  show ?thesis
  proof (cases "lhb_ts ?t = chb_ts ?t")
    case True
    then have "alive (target (?u ((?u ^^ ?w) d)) i) = 0" by (intro dead) (simp_all add: d1)
    then show ?thesis by (intro exI [of _ "Suc ?w"]) simp
  next
    case False
    define e where "e = ?u ((?u ^^ ?w) d)"
    have e: "target e i = ?t\<lparr>lhb_ts := chb_ts ?t, cur_waiting_interval := resp_factor ?t\<rparr>"
      using False by (simp add: e_def update_aliveness_target d1 Let_def)
    have "target ((?u ^^ ?r) e) i = (target e i)\<lparr>cur_waiting_interval := 0\<rparr>"
      using assms e by (intro silent_turns) simp
    then have "alive (target (?u ((?u ^^ ?r) e)) i) = 0" by (intro dead) (simp_all add: e)
    moreover have "?u ((?u ^^ ?r) e) = (?u ^^ (Suc ?r + Suc ?w)) d"
      unfolding e_def funpow_add comp_apply by simp
    ultimately show ?thesis by (intro exI [of _ "Suc ?r + Suc ?w"]) simp
  qed
qed

theorem crash_detected_witness:
  "\<exists>n \<le> 6. alive (target ((update_aliveness_states 0 ^^ n) (sample_node FOLLOWER 0)) 0) = 0"
  using crash_detected [of "sample_node FOLLOWER 0" 0] by (simp add: sample)

text \<open>Accuracy: a turn declares a live target dead only if no packet of it came in since the check
  before, and nothing but that turn sets \<open>lhb_ts\<close>.\<close>

lemma declared_dead:
  assumes "alive (target d i) \<noteq> 0" and "alive (target (update_aliveness_states i d) i) = 0"
  shows "lhb_ts (target d i) = chb_ts (target d i) \<and> cur_waiting_interval (target d i) = 0"
  using assms by (auto simp: update_aliveness_target Let_def split: if_splits)

section \<open>The leader watch\<close>

lemma fold_min:
  fixes f :: "nat \<Rightarrow> int"
  shows "fold (\<lambda>i c. if P i \<and> c > f i then f i else c) xs c = Min (insert c (f ` {i \<in> set xs. P i}))"
proof (induction xs arbitrary: c)
  case (Cons x xs)
  let ?S = "f ` {i \<in> set xs. P i}"
  have fin: "finite ?S" by simp
  have S: "f ` {i \<in> set (x # xs). P i} = (if P x then insert (f x) ?S else ?S)" by auto
  have m: "Min (insert (min c (f x)) ?S) = Min (insert c (insert (f x) ?S))"
  proof (cases "?S = {}")
    case True
    show ?thesis unfolding True by simp
  next
    case False
    show ?thesis
      using Min_insert [OF fin False] Min_insert [of "insert (f x) ?S" c] fin by (simp add: min.assoc)
  qed
  show ?case
  proof (cases "P x")
    case True
    have e: "(if P x \<and> c > f x then f x else c) = min c (f x)" using True by (simp add: min_def)
    show ?thesis unfolding fold_Cons comp_apply Cons.IH e S using True m by simp
  next
    case False
    then show ?thesis unfolding S by (simp add: Cons.IH)
  qed
qed simp

lemma get_lowest_alive_id_min:
  "get_lowest_alive_id d = Min (insert (pm_cluster_id (pm d))
     {to_u32 (t_cluster_id (target d i)) |i. i < targets d \<and> alive (target d i) \<noteq> 0})"
proof -
  have "{to_u32 (t_cluster_id (target d i)) |i. i < targets d \<and> alive (target d i) \<noteq> 0} =
      (\<lambda>i. to_u32 (t_cluster_id (target d i))) ` {i \<in> set [0..<targets d]. alive (target d i) \<noteq> 0}" by auto
  then show ?thesis by (simp only: get_lowest_alive_id_def fold_min)
qed

text \<open>Of two different nodes that see each other alive, at most one takes itself for the node with
  the lowest id, which is the condition for standing for election.\<close>

theorem lowest_unique:
  assumes "i < targets d" "alive (target d i) \<noteq> 0" "to_u32 (t_cluster_id (target d i)) = pm_cluster_id (pm e)"
    and "j < targets e" "alive (target e j) \<noteq> 0" "to_u32 (t_cluster_id (target e j)) = pm_cluster_id (pm d)"
    and "pm_cluster_id (pm d) \<noteq> pm_cluster_id (pm e)"
  shows "\<not> (get_lowest_alive_id d = pm_cluster_id (pm d) \<and> get_lowest_alive_id e = pm_cluster_id (pm e))"
proof -
  have le: "get_lowest_alive_id c \<le> to_u32 (t_cluster_id (target c k))"
    if "k < targets c" "alive (target c k) \<noteq> 0" for c k
    unfolding get_lowest_alive_id_min using that by (intro Min_le) auto
  show ?thesis using le [OF assms(1,2)] le [OF assms(4,5)] assms(3,6,7) by auto
qed

theorem lowest_unique_witness:
  "\<not> (get_lowest_alive_id (sample_node FOLLOWER 0) = 1
      \<and> get_lowest_alive_id (upd_pm (\<lambda>p. p\<lparr>pm_cluster_id := 2, pm_targets := \<lambda>_. sample_target 1\<rparr>)
            (sample_node FOLLOWER 0)) = 2)"
  using lowest_unique [of 0 "sample_node FOLLOWER 0" "upd_pm (\<lambda>p. p\<lparr>pm_cluster_id := 2,
    pm_targets := \<lambda>_. sample_target 1\<rparr>) (sample_node FOLLOWER 0)" 0]
  by (simp add: sample)

text \<open>A node stands for election exactly when its leader is unknown or dead and no live node has a
  lower id; as a candidate it waits fifty turns before it tries again.\<close>

lemma update_leader_stands:
  assumes "has_con d" and "warmup_state d = WARMED_UP" and "2 \<le> targets d"
    and mx: "max_entries (the_log d) = MAX_CONSENSUS_LOG"
    and "nstate (con d) = CANDIDATE \<Longrightarrow> 50 \<le> candidate_counter (con d)"
    and "cur_leader_lid d = -1 \<or> alive (target d (nat (cur_leader_lid d))) = 0"
    and "get_lowest_alive_id d = pm_cluster_id (pm d)"
  shows "role_view (update_leader d) = (CANDIDATE, False, 2, 0)"
    and "con_term (con (update_leader d)) = to_s32 (con_term (con d) + 1)"
proof -
  have "update_leader d = con_log_event FOLLOWER_BECOME_CANDIDATE (snd (node_transition CANDIDATE d))"
    using assms by (auto simp: update_leader_def Let_def)
  then show "role_view (update_leader d) = (CANDIDATE, False, 2, 0)"
    "con_term (con (update_leader d)) = to_s32 (con_term (con d) + 1)"
    using node_transition_ok [OF mx, of CANDIDATE] assms(3) by (simp_all add: role_view_def upd)
qed

lemma update_leader_keeps:
  assumes "\<not> (cur_leader_lid d = -1 \<or> alive (target d (nat (cur_leader_lid d))) = 0)
      \<or> get_lowest_alive_id d \<noteq> pm_cluster_id (pm d) \<or> warmup_state d = WARMING_UP"
  shows "update_leader d = d"
  using assms by (auto simp: update_leader_def Let_def)

section \<open>What is put on the wire\<close>

definition net_up :: "asgard_device \<Rightarrow> bool" where
  "net_up d \<longleftrightarrow> ndev_up d \<and> \<not> txq_stopped d"

lemma asgard_send_skb_up:
  assumes "net_up d"
  shows "tx_log (asgard_send_skb b d) = tx_log d @ [b]"
  using assms by (simp add: asgard_send_skb_def net_up_def upd)

lemma asgard_send_skb_frame:
  "target (asgard_send_skb b d) j = target d j" "targets (asgard_send_skb b d) = targets d"
  "tx_port (asgard_send_skb b d) = tx_port d" "net_up (asgard_send_skb b d) = net_up d"
  "con (asgard_send_skb b d) = con d" "ci (asgard_send_skb b d) = ci d" "mc (asgard_send_skb b d) = mc d"
  "clock (asgard_send_skb b d) = clock d" "is_leader (asgard_send_skb b d) = is_leader d"
  "has_con (asgard_send_skb b d) = has_con d" "warmup_state (asgard_send_skb b d) = warmup_state d"
  "cur_leader_lid (asgard_send_skb b d) = cur_leader_lid d"
  "pm_state (pm (asgard_send_skb b d)) = pm_state (pm d)"
  by (simp_all add: asgard_send_skb_def Let_def net_up_def upd)

lemma upd_target_net:
  "net_up (upd_target i f d) = net_up d" "tx_log (upd_target i f d) = tx_log d"
  "tx_port (upd_target i f d) = tx_port d" "tx_counter (upd_target i f d) = tx_counter d"
  by (simp_all add: net_up_def upd)

text \<open>A loop that sends the buffers \<open>out i t port\<close> for the target \<open>t\<close> with index \<open>i\<close>.\<close>

lemma emission_loop:
  assumes send: "\<And>i d. net_up d \<Longrightarrow> tx_log (f i d) = tx_log d @ out i (target d i) (tx_port d)"
    and tgt: "\<And>i d j. target (f i d) j = (if j = i then g i (tx_port d) (target d i) else target d j)"
    and fr: "\<And>i d. net_up (f i d) = net_up d" "\<And>i d. tx_port (f i d) = tx_port d"
    and up: "net_up d"
  shows "tx_log (for_targets f d) = tx_log d @ concat (map (\<lambda>i. out i (target d i) (tx_port d)) [0..<targets d])"
    and "target (for_targets f d) j = (if j < targets d then g j (tx_port d) (target d j) else target d j)"
proof -
  have "net_up (fold f [0..<n] d) \<and> tx_port (fold f [0..<n] d) = tx_port d
     \<and> tx_log (fold f [0..<n] d) = tx_log d @ concat (map (\<lambda>i. out i (target d i) (tx_port d)) [0..<n])
     \<and> (\<forall>j. target (fold f [0..<n] d) j = (if j < n then g j (tx_port d) (target d j) else target d j))" for n
  proof (induction n)
    case (Suc n)
    have nn: "\<not> n < n" by simp
    show ?case using Suc by (simp add: fr tgt send less_Suc_eq)
  qed (simp add: up)
  then show "tx_log (for_targets f d) = tx_log d @ concat (map (\<lambda>i. out i (target d i) (tx_port d)) [0..<targets d])"
    "target (for_targets f d) j = (if j < targets d then g j (tx_port d) (target d j) else target d j)"
    by (simp_all add: for_targets_def)
qed

lemma concat_singletons: "concat (map (\<lambda>i. [h i]) xs) = map h xs"
  by (induction xs) simp_all

text \<open>A scheduled emission sends every target its heartbeat, with the payload prepared for it, in
  target order and nothing else, and empties the payloads.\<close>

theorem heartbeats_sent:
  assumes "net_up d"
  shows "tx_log (snd (emit_pkts_scheduled d)) = tx_log d @ map (\<lambda>i. (hb_skb (target d i))
           \<lparr>skb_dport := to_u16 (tx_port d), skb_data := hb_payload (target d i)\<rparr>) [0..<targets d]
     \<and> (\<forall>j < targets d. hb_payload (target (snd (emit_pkts_scheduled d)) j) = empty_payload)"
proof (intro conjI allI impI)
  let ?b = "\<lambda>t port. (hb_skb t)\<lparr>skb_dport := to_u16 port, skb_data := hb_payload t\<rparr>"
  let ?g = "\<lambda>i port t. t\<lparr>hb_skb := ?b t port, hb_payload := empty_payload\<rparr>"
  have one: "emit_scheduled_one i d = asgard_send_skb (?b (target d i) (tx_port d))
      (upd_target i (\<lambda>t. t\<lparr>hb_skb := ?b (target d i) (tx_port d), hb_payload := empty_payload\<rparr>) d)" for i d
    by (simp add: emit_scheduled_one_def Let_def asgard_update_skb_payload_def asgard_update_skb_udp_port_def)
  have fr: "net_up (emit_scheduled_one i d) = net_up d" "tx_port (emit_scheduled_one i d) = tx_port d" for i d
    by (simp_all add: one asgard_send_skb_frame upd_target_net)
  have snd: "tx_log (emit_scheduled_one i d) = tx_log d @ [?b (target d i) (tx_port d)]" if "net_up d" for i d
    using that by (simp add: one asgard_send_skb_up upd_target_net)
  have tgt: "target (emit_scheduled_one i d) j = (if j = i then ?g i (tx_port d) (target d i) else target d j)" for i d j
    by (simp add: one asgard_send_skb_frame)
  note loop = emission_loop [where f = emit_scheduled_one and g = ?g and out = "\<lambda>i t port. [?b t port]",
      OF snd tgt fr assms]
  show "tx_log (snd (emit_pkts_scheduled d)) = tx_log d @ map (\<lambda>i. ?b (target d i) (tx_port d)) [0..<targets d]"
    using loop(1) by (simp add: emit_pkts_scheduled_def concat_singletons)
  show "hb_payload (target (snd (emit_pkts_scheduled d)) j) = empty_payload" if "j < targets d" for j
    using loop(2) [of j] that by (simp add: emit_pkts_scheduled_def)
qed

theorem heartbeats_sent_witness:
  "tx_log (snd (emit_pkts_scheduled (sample_node LEADER 0))) =
     [sample_skb\<lparr>skb_dport := 3319, skb_data := empty_payload\<rparr>, sample_skb\<lparr>skb_dport := 3319, skb_data := empty_payload\<rparr>]"
  using heartbeats_sent [of "sample_node LEADER 0"] by (simp add: sample net_up_def numeral_2_eq_2)

text \<open>The urgent packets: the payloads of exactly the targets that are to be fired at, whose mark and
  payload are cleared.\<close>

lemma concat_optional: "concat (map (\<lambda>i. if P i then [h i] else []) xs) = map h (filter P xs)"
  by (induction xs) simp_all

lemma urgent_sent:
  assumes "net_up d"
  shows "tx_log (snd (emit_pkts_non_scheduled d)) = tx_log d @ map (\<lambda>i. (pkt_skb (target d i))
           \<lparr>skb_dport := to_u16 (tx_port d), skb_data := pkt_payload (target d i)\<rparr>)
             (filter (\<lambda>i. fire (target d i) \<noteq> 0) [0..<targets d])"
    and "j < targets d \<Longrightarrow> fire (target (snd (emit_pkts_non_scheduled d)) j) = 0"
    and "j < targets d \<Longrightarrow> pkt_payload (target (snd (emit_pkts_non_scheduled d)) j) =
           (if fire (target d j) \<noteq> 0 then empty_payload else pkt_payload (target d j))"
proof -
  let ?b = "\<lambda>t port. (pkt_skb t)\<lparr>skb_dport := to_u16 port, skb_data := pkt_payload t\<rparr>"
  define F where "F = (\<lambda>i. fire (target d i))"
  let ?f = "\<lambda>i d. if F i = 0 then d else send_oos_one i d"
  let ?g = "\<lambda>i port t. if F i = 0 then t else t\<lparr>pkt_skb := ?b t port, pkt_payload := empty_payload,
      pkt_tx_counter := pkt_tx_counter t + 1\<rparr>"
  have one: "send_oos_one i d = upd_target i (\<lambda>t. t\<lparr>pkt_tx_counter := pkt_tx_counter t + 1\<rparr>)
      ((asgard_send_skb (?b (target d i) (tx_port d))
        (upd_target i (\<lambda>t. t\<lparr>pkt_skb := ?b (target d i) (tx_port d), pkt_payload := empty_payload\<rparr>) d))
      \<lparr>tx_counter := tx_counter (asgard_send_skb (?b (target d i) (tx_port d))
        (upd_target i (\<lambda>t. t\<lparr>pkt_skb := ?b (target d i) (tx_port d), pkt_payload := empty_payload\<rparr>) d)) + 1\<rparr>)" for i d
    by (simp add: send_oos_one_def Let_def asgard_update_skb_payload_def asgard_update_skb_udp_port_def)
  have cnt: "net_up (e\<lparr>tx_counter := c\<rparr>) = net_up e" for e c by (simp add: net_up_def)
  have fr: "net_up (?f i d) = net_up d" "tx_port (?f i d) = tx_port d" for i d
    by (simp_all add: one asgard_send_skb_frame upd_target_net cnt)
  have snd: "tx_log (?f i d) = tx_log d @ (if F i \<noteq> 0 then [?b (target d i) (tx_port d)] else [])"
    if "net_up d" for i d
    using that by (simp add: one asgard_send_skb_up upd_target_net)
  have tgt: "target (?f i d) j = (if j = i then ?g i (tx_port d) (target d i) else target d j)" for i d j
    by (simp add: one asgard_send_skb_frame)
  note loop = emission_loop [where f = ?f and g = ?g and out = "\<lambda>i t port. if F i \<noteq> 0 then [?b t port] else []",
      OF snd tgt fr assms]
  have oos: "asgard_send_oos_pkts F d = for_targets ?f d"
    by (simp add: asgard_send_oos_pkts_def for_targets_def)
  define d1 where "d1 = for_targets ?f d"
  let ?c = "\<lambda>i d. if F i = 0 then d else upd_target i (\<lambda>t. t\<lparr>pkt_payload := empty_payload, fire := 0\<rparr>) d"
  have run: "snd (emit_pkts_non_scheduled d) = for_targets ?c d1"
    by (simp add: emit_pkts_non_scheduled_def Let_def d1_def oos [unfolded F_def] F_def)
  have n1: "targets d1 = targets d"
    unfolding d1_def by (rule for_targets_frame) (simp add: one asgard_send_skb_frame)
  have "tx_log (for_targets ?c d1) = tx_log d1" by (rule for_targets_frame) (simp add: upd_target_net)
  then show "tx_log (snd (emit_pkts_non_scheduled d)) = tx_log d @ map (\<lambda>i. ?b (target d i) (tx_port d))
      (filter (\<lambda>i. fire (target d i) \<noteq> 0) [0..<targets d])"
    unfolding run using loop(1) by (simp add: d1_def concat_optional F_def)
  have c: "target (for_targets ?c d1) j = (if j < targets d1
      then (if F j = 0 then target d1 j else (target d1 j)\<lparr>pkt_payload := empty_payload, fire := 0\<rparr>) else target d1 j)" for j
    by (rule for_targets_pointwise [where g = "\<lambda>d j t. if F j = 0 then t else t\<lparr>pkt_payload := empty_payload, fire := 0\<rparr>"]) auto
  show "j < targets d \<Longrightarrow> fire (target (snd (emit_pkts_non_scheduled d)) j) = 0"
    unfolding run c n1 using loop(2) [of j] by (simp add: d1_def F_def)
  show "j < targets d \<Longrightarrow> pkt_payload (target (snd (emit_pkts_non_scheduled d)) j) =
      (if fire (target d j) \<noteq> 0 then empty_payload else pkt_payload (target d j))"
    unfolding run c n1 using loop(2) [of j] by (simp add: d1_def F_def)
qed

text \<open>An asynchronous emission sends each target with queued packets the oldest of them, takes it off
  the queue and keeps the doorbells in step with the queues.\<close>

theorem queued_sent:
  assumes "net_up d" and "\<And>i. bell_ok (aapriv (target d i))"
  shows "tx_log (snd (emit_async_unicast_pkts d)) = tx_log d @ map (\<lambda>i. (ap_skb (hd (async_pkts (aapriv (target d i)))))
           \<lparr>skb_dport := to_u16 (tx_port d), skb_data := ap_payload (hd (async_pkts (aapriv (target d i))))\<rparr>)
             (filter (\<lambda>i. async_pkts (aapriv (target d i)) \<noteq> []) [0..<targets d])
     \<and> (\<forall>j < targets d. async_pkts (aapriv (target (snd (emit_async_unicast_pkts d)) j)) =
           tl (async_pkts (aapriv (target d j))))
     \<and> (\<forall>j. bell_ok (aapriv (target (snd (emit_async_unicast_pkts d)) j)))"
proof (intro conjI allI impI)
  let ?b = "\<lambda>t port. (ap_skb (hd (async_pkts (aapriv t))))
      \<lparr>skb_dport := to_u16 port, skb_data := ap_payload (hd (async_pkts (aapriv t)))\<rparr>"
  let ?rung = "\<lambda>t. doorbell (aapriv t) > 0" and ?full = "\<lambda>t. async_pkts (aapriv t) \<noteq> []"
  let ?g = "\<lambda>i port t. if ?rung t then
      (if ?full t
       then t\<lparr>aapriv := (aapriv t)\<lparr>doorbell := doorbell (aapriv t) - 1, async_pkts := tl (async_pkts (aapriv t))\<rparr>,
              pkt_tx_counter := pkt_tx_counter t + 1\<rparr>
       else t\<lparr>aapriv := (aapriv t)\<lparr>doorbell := doorbell (aapriv t) - 1\<rparr>\<rparr>) else t"
  let ?out = "\<lambda>i t port. if ?rung t \<and> ?full t then [?b t port] else []"
  have cnt: "net_up (e\<lparr>tx_counter := c\<rparr>) = net_up e" for e c by (simp add: net_up_def)
  have fr: "net_up (emit_async_unicast_one i d) = net_up d"
    "tx_port (emit_async_unicast_one i d) = tx_port d" for i d
    by (simp_all add: emit_async_unicast_one_def Let_def dequeue_async_pkt_def asgard_send_skb_frame
        upd_target_net cnt split: list.split)
  have snd: "tx_log (emit_async_unicast_one i d) = tx_log d @ ?out i (target d i) (tx_port d)" if "net_up d" for i d
    using that by (simp add: emit_async_unicast_one_def Let_def dequeue_async_pkt_def asgard_send_skb_up
        upd_target_net asgard_update_skb_payload_def asgard_update_skb_udp_port_def split: list.split)
  have tgt: "target (emit_async_unicast_one i d) j =
      (if j = i then ?g i (tx_port d) (target d i) else target d j)" for i d j
    by (simp add: emit_async_unicast_one_def Let_def dequeue_async_pkt_def asgard_send_skb_frame
        split: list.split)
  note loop = emission_loop [where f = emit_async_unicast_one and g = ?g and out = ?out, OF snd tgt fr assms(1)]
  have bell: "?rung (target d i) = ?full (target d i)" for i using assms(2) [of i] by (auto simp: bell_ok_def)
  show "tx_log (snd (emit_async_unicast_pkts d)) = tx_log d @ map (\<lambda>i. ?b (target d i) (tx_port d))
      (filter (\<lambda>i. ?full (target d i)) [0..<targets d])"
    using loop(1) by (simp add: emit_async_unicast_pkts_def concat_optional bell)
  show "async_pkts (aapriv (target (snd (emit_async_unicast_pkts d)) j)) =
      tl (async_pkts (aapriv (target d j)))" if "j < targets d" for j
    using loop(2) [of j] bell [of j] that by (simp add: emit_async_unicast_pkts_def)
  show "bell_ok (aapriv (target (snd (emit_async_unicast_pkts d)) j))" for j
    using loop(2) [of j] assms(2) [of j]
    by (cases "async_pkts (aapriv (target d j))") (auto simp: emit_async_unicast_pkts_def bell_ok_def)
qed

theorem queued_sent_witness:
  "tx_log (snd (emit_async_unicast_pkts (upd_target 1 (\<lambda>t. t\<lparr>aapriv := \<lparr>doorbell = 1, async_pkts =
      [\<lparr>ap_port = 0, ap_dst_ip = 0, ap_payload = empty_payload, ap_skb = sample_skb\<rparr>]\<rparr>\<rparr>) (sample_node LEADER 0)))) =
     [sample_skb\<lparr>skb_dport := 3319, skb_data := empty_payload\<rparr>]"
  using queued_sent [of "upd_target 1 (\<lambda>t. t\<lparr>aapriv := \<lparr>doorbell = 1, async_pkts =
      [\<lparr>ap_port = 0, ap_dst_ip = 0, ap_payload = empty_payload, ap_skb = sample_skb\<rparr>]\<rparr>\<rparr>) (sample_node LEADER 0)"]
  by (simp add: sample upd net_up_def bell_ok_def numeral_2_eq_2)

section \<open>Turns\<close>

text \<open>Within the waiting window before the next heartbeat nothing is sent, whatever is pending.\<close>

lemma quiet_before_heartbeat:
  assumes "pacemaker_is_alive d" and "pm_errors (pm d) \<le> 1000"
    and "0 \<le> waiting_window (pm d)" "waiting_window (pm d) \<le> interval" "interval < 2 ^ 64"
    and "prev \<le> clock d" "clock d - prev < interval" "interval - waiting_window (pm d) < clock d - prev"
  shows "pacemaker_turn interval prev d = (PM_CONTINUE prev, d)"
  using assms by (simp add: pacemaker_turn_def Let_def scheduled_tx_def check_async_window_def)

lemma heartbeat_due:
  assumes "pacemaker_is_alive d" and "pm_errors (pm d) \<le> 1000"
    and "interval \<le> clock d - prev" "0 \<le> interval" "clock d - prev < 2 ^ 64"
  shows "pacemaker_turn interval prev d = (PM_CONTINUE (clock d), scheduled_work d)"
  using assms by (simp add: pacemaker_turn_def Let_def scheduled_tx_def)

end
