(* ===== verification/AsgPktHandler.thy ===== *)
theory AsgPktHandler
  imports AsgPacemaker
begin

text \<open>
  \<open>core/pkthandler.c\<close>: from the received frame to the protocol instances, in the kernel build.  The
  receive path queues a work item for every packet of a registered peer; its handler hands the
  sub-payloads to the instances.  \<open>mac_set\<close> is the value of the uninitialised pointer
  \<open>cluster_mac_ad\<close> as a truth value.
\<close>

record pkt_work =
  pw_remote_lid :: nat
  pw_rcluster_id :: int
  pw_instances :: int
  pw_bcnt :: int
  pw_ots :: int
  pw_post_ts :: int
  pw_data :: mem

definition get_proto_instance :: "asgard_device \<Rightarrow> int \<Rightarrow> proto_instance option" where
  "get_proto_instance d proto_id =
     (if num_of_proto_instances d = 0 then None
      else if proto_id < 0 \<or> proto_id > int (num_of_proto_instances d) then None
      else
        let idx = instance_id_mapping d (nat proto_id)
        in if idx < 0 \<or> idx \<ge> int (num_of_proto_instances d) then None else protos d (nat idx))"

text \<open>\<open>ctrl_ops.post_payload\<close> of an instance, for the sub-payload at offset \<open>p\<close>.\<close>

definition post_payload ::
  "proto_instance \<Rightarrow> asgard_device \<Rightarrow> nat \<Rightarrow> int \<Rightarrow> mem \<Rightarrow> nat \<Rightarrow> int \<Rightarrow> int \<Rightarrow> asgard_device" where
  "post_payload ins d remote_lid cluster_id m p ots pts =
     (case proto_type ins of
        ASGARD_PROTO_CONSENSUS \<Rightarrow> consensus_post_payload d remote_lid cluster_id m p pts
      | ASGARD_PROTO_PP \<Rightarrow> pingpong_post_payload (pi_instance_id ins) d (int remote_lid) m p ots
      | _ \<Rightarrow> d)"

text \<open>The loop of \<open>handle_sub_payloads\<close>: \<open>n\<close> iterations left, \<open>cur\<close> the offset of the current
  sub-payload; the instance is handed \<open>payload\<close>, the start of all of them.\<close>

fun sub_loop ::
  "nat \<Rightarrow> nat \<Rightarrow> int \<Rightarrow> mem \<Rightarrow> nat \<Rightarrow> int \<Rightarrow> int \<Rightarrow> int \<Rightarrow> asgard_device \<Rightarrow> asgard_device" where
  "sub_loop 0 cur cur_bcnt m remote_lid cluster_id ots pts d = d"
| "sub_loop (Suc n) cur cur_bcnt m remote_lid cluster_id ots pts d =
     (if cur_bcnt \<le> 0 then d
      else
        let cur_proto_id = GET_PROTO_TYPE_VAL m cur;
            cur_offset = GET_PROTO_OFFSET_VAL m cur;
            d1 = (case get_proto_instance d cur_proto_id of
                    None \<Rightarrow> d
                  | Some ins \<Rightarrow> post_payload ins d remote_lid cluster_id m 0 ots pts)
        in sub_loop n (cur + nat cur_offset) (to_u32 (cur_bcnt - cur_offset)) m
             remote_lid cluster_id ots pts d1)"

definition handle_sub_payloads ::
  "asgard_device \<Rightarrow> nat \<Rightarrow> int \<Rightarrow> mem \<Rightarrow> int \<Rightarrow> int \<Rightarrow> int \<Rightarrow> int \<Rightarrow> asgard_device" where
  "handle_sub_payloads d remote_lid cluster_id payload instances bcnt ots pts =
     (if instances > 4 then d
      else sub_loop (nat instances) 0 bcnt payload remote_lid cluster_id ots pts d)"

definition extract_cluster_id_from_ad :: "mem \<Rightarrow> nat \<Rightarrow> int" where
  "extract_cluster_id_from_ad m p =
     (if GET_CON_PROTO_OPCODE_VAL m p \<noteq> opcode_num ADVERTISE then -1
      else to_s32 (GET_CON_PROTO_PARAM1_VAL m p))"

definition extract_cluster_ip_from_ad :: "mem \<Rightarrow> nat \<Rightarrow> int" where
  "extract_cluster_ip_from_ad m p =
     (if GET_CON_PROTO_OPCODE_VAL m p \<noteq> opcode_num ADVERTISE then 0
      else to_u32 (GET_CON_PROTO_PARAM2_VAL m p))"

definition compare_mac :: "byte list \<Rightarrow> byte list \<Rightarrow> int" where
  "compare_mac m1 m2 = (if list_ex (\<lambda>i. m1 ! i \<noteq> m2 ! i) (rev [0..<6]) then -1 else 0)"

definition get_cluster_ids_by_ip :: "asgard_device \<Rightarrow> int \<Rightarrow> int \<times> int" where
  "get_cluster_ids_by_ip d remote_ip =
     (case find (\<lambda>i. dst_ip (target d i) = remote_ip) [0..<targets d] of
        None \<Rightarrow> (-1, -1)
      | Some i \<Rightarrow> (int i, t_cluster_id (target d i)))"

definition get_cluster_ids_by_mac :: "asgard_device \<Rightarrow> byte list \<Rightarrow> int \<times> int" where
  "get_cluster_ids_by_mac d remote_mac =
     (case find (\<lambda>i. case dst_mac (target d i) of None \<Rightarrow> False
                   | Some mac \<Rightarrow> compare_mac mac remote_mac = 0) [0..<targets d] of
        None \<Rightarrow> (-1, -1)
      | Some i \<Rightarrow> (int i, t_cluster_id (target d i)))"

definition pkt_process_handler :: "pkt_work \<Rightarrow> asgard_device \<Rightarrow> asgard_device" where
  "pkt_process_handler aw d =
     (if asgard_wq_lock d \<noteq> 0 then d
      else handle_sub_payloads d (pw_remote_lid aw) (pw_rcluster_id aw) (pw_data aw)
             (pw_instances aw) (pw_bcnt aw) (pw_ots aw) (pw_post_ts aw))"

text \<open>The opcode test of the unregistered case reads the bytes 4 and 5 of the payload structure,
  that is bytes 2 and 3 of \<open>proto_data\<close>.\<close>

definition do_post_payload ::
  "bool \<Rightarrow> asgard_device \<Rightarrow> int \<Rightarrow> int \<Rightarrow> asgard_payload \<Rightarrow> int \<Rightarrow> int \<Rightarrow> pkt_work option \<times> asgard_device" where
  "do_post_payload mac_set d remote_lid rcluster_id user_data cqe_bcnt ots =
     (let post_ts = clock d
      in if remote_lid = -1 then
           (if ld_u16 (proto_data user_data) 2 = opcode_num ADVERTISE then
              let cluster_id_ad = extract_cluster_id_from_ad (proto_data user_data) 0
              in if peer_is_registered (pm d) cluster_id_ad then (None, d)
                 else
                   let cluster_ip_ad = extract_cluster_ip_from_ad (proto_data user_data) 0
                   in if cluster_id_ad < 0 \<or> cluster_ip_ad = 0 \<or> \<not> mac_set then (None, d)
                      else (None, snd (register_peer_by_ip d (int (targets d)) cluster_ip_ad cluster_id_ad))
            else (None, d))
         else
           let lid = nat remote_lid;
               d1 = upd_target lid (\<lambda>t. t\<lparr>chb_ts := post_ts, alive := 1\<rparr>) d;
               d2 = d1\<lparr>ci := update_cluster_member post_ts (ci d1) remote_lid 1\<rparr>;
               (cold, d3) = check_warmup_state d2
           in if cold \<noteq> 0 then (None, d3)
              else if asgard_wq_lock d3 \<noteq> 0 then (None, d3)
              else (Some \<lparr>pw_remote_lid = lid, pw_rcluster_id = rcluster_id,
                          pw_instances = protocols_included user_data, pw_bcnt = cqe_bcnt,
                          pw_ots = ots, pw_post_ts = post_ts, pw_data = proto_data user_data\<rparr>, d3))"

text \<open>The received frame: Ethernet header of 14 bytes, IP header of 20, UDP header of 8.\<close>

definition asgard_post_payload ::
  "bool \<Rightarrow> asgard_device \<Rightarrow> mem \<Rightarrow> nat \<Rightarrow> int \<Rightarrow> int \<Rightarrow> pkt_work option \<times> asgard_device" where
  "asgard_post_payload mac_set d payload headroom cqe_bcnt ots =
     (let remote_mac = ld_bytes 6 payload (headroom + 6);
          user = headroom + 14 + 20 + 8;
          user_data = \<lparr>protocols_included = ld_u16 payload user,
                       proto_data = (\<lambda>i. payload (user + 2 + i))\<rparr>
      in if pm_state (pm d) \<noteq> ASGARD_PM_EMITTING then (None, d)
         else
           let (remote_lid, rcluster_id) = get_cluster_ids_by_mac d remote_mac
           in do_post_payload mac_set d remote_lid rcluster_id user_data cqe_bcnt ots)"

section \<open>Lookup\<close>

lemma compare_mac_eq:
  "length m1 = 6 \<Longrightarrow> length m2 = 6 \<Longrightarrow> compare_mac m1 m2 = 0 \<longleftrightarrow> m1 = m2"
  by (auto simp: compare_mac_def list_ex_iff list_eq_iff_nth_eq)

text \<open>The lookup finds the first target with the sender's address, and nothing else.\<close>

lemma ids_by_mac_found:
  assumes "length mac = 6" and "\<And>i a. i < targets d \<Longrightarrow> dst_mac (target d i) = Some a \<Longrightarrow> length a = 6"
    and "get_cluster_ids_by_mac d mac = (lid, cid)"
  shows "(lid = -1 \<and> cid = -1 \<and> (\<forall>i < targets d. dst_mac (target d i) \<noteq> Some mac))
    \<or> (0 \<le> lid \<and> lid < int (targets d) \<and> dst_mac (target d (nat lid)) = Some mac
        \<and> cid = t_cluster_id (target d (nat lid)) \<and> (\<forall>i < nat lid. dst_mac (target d i) \<noteq> Some mac))"
proof -
  let ?P = "\<lambda>i. case dst_mac (target d i) of None \<Rightarrow> False | Some m \<Rightarrow> compare_mac m mac = 0"
  have P: "?P i \<longleftrightarrow> dst_mac (target d i) = Some mac" if "i < targets d" for i
    using assms(2) [OF that] by (auto simp: compare_mac_eq assms(1) split: option.split)
  have "find ?P [0..<targets d] = find (\<lambda>i. dst_mac (target d i) = Some mac) [0..<targets d]"
    using P by (intro find_cong) simp_all
  then have ids: "(lid, cid) = (case find (\<lambda>i. dst_mac (target d i) = Some mac) [0..<targets d] of
      None \<Rightarrow> (-1, -1) | Some i \<Rightarrow> (int i, t_cluster_id (target d i)))"
    using assms(3) by (simp add: get_cluster_ids_by_mac_def)
  show ?thesis
  proof (cases "find (\<lambda>i. dst_mac (target d i) = Some mac) [0..<targets d]")
    case None
    then have "\<forall>i < targets d. dst_mac (target d i) \<noteq> Some mac" by (simp add: find_None_iff)
    then show ?thesis using ids None by simp
  next
    case (Some k)
    then have "k < targets d" "dst_mac (target d k) = Some mac" "\<forall>j < k. dst_mac (target d j) \<noteq> Some mac"
      by (auto simp: find_Some_iff)
    then show ?thesis using ids Some by simp
  qed
qed

section \<open>Dispatch\<close>

text \<open>A payload with one sub-payload reaches its instance.\<close>

lemma single_sub_payload:
  assumes "get_proto_instance d (GET_PROTO_TYPE_VAL m 0) = Some ins" and "0 < bcnt"
  shows "handle_sub_payloads d lid cid m 1 bcnt ots pts = post_payload ins d lid cid m 0 ots pts"
  using assms by (simp add: handle_sub_payloads_def Let_def)

text \<open>With two of them, the second instance is handed the first sub-payload again: its own bytes
  are read by nobody.\<close>

lemma second_sub_payload_lost:
  assumes "get_proto_instance d (GET_PROTO_TYPE_VAL m 0) = Some ins1" and "0 < bcnt"
    and "d1 = post_payload ins1 d lid cid m 0 ots pts"
    and "get_proto_instance d1 (GET_PROTO_TYPE_VAL m (nat (GET_PROTO_OFFSET_VAL m 0))) = Some ins2"
    and "0 < to_u32 (bcnt - GET_PROTO_OFFSET_VAL m 0)"
  shows "handle_sub_payloads d lid cid m 2 bcnt ots pts = post_payload ins2 d1 lid cid m 0 ots pts"
  using assms by (simp add: handle_sub_payloads_def Let_def numeral_2_eq_2)

text \<open>An advertisement as \<open>setup_cluster_join_advertisement\<close> writes it registers nobody.\<close>

theorem advertisement_ignored:
  assumes "setup_cluster_join_advertisement empty_payload adv ip mac = (r, spay)"
  shows "do_post_payload ms d (-1) c spay bcnt ots = (None, d)"
proof -
  have e: "asgard_reserve_proto 1 (Some empty_payload) 22 =
      Some (0, \<lparr>protocols_included = 1, proto_data = st_u16 (st_u16 (\<lambda>_. 0) 0 1) 2 22\<rparr>)"
    by (simp add: asgard_reserve_proto_def empty_payload_def size_defs numeral_2_eq_2)
  then have "proto_data spay = set_le_opcode_ad (st_u16 (st_u16 (\<lambda>_. 0) 0 1) 2 22) 0 ADVERTISE adv ip mac"
    using assms by (auto simp: setup_cluster_join_advertisement_def size_defs)
  moreover have "ld_u16 (set_le_opcode_ad m 0 ADVERTISE adv ip mac) 2 = ld_u16 m 2" for m
    by (simp add: set_le_opcode_ad_def Let_def)
  ultimately have "ld_u16 (proto_data spay) 2 = 22" by simp
  then show ?thesis by (simp add: do_post_payload_def)
qed

theorem advertisement_ignored_witness:
  "do_post_payload True (sample_node FOLLOWER 0) (-1) (-1)
     (snd (setup_cluster_join_advertisement empty_payload 7 9 [0, 0, 0, 0, 0, 7])) 64 0 = (None, sample_node FOLLOWER 0)"
  by (rule advertisement_ignored [OF prod.collapse [symmetric]])

text \<open>Every packet of a registered peer is a sign of life.\<close>

lemma packet_revives:
  assumes "targets d < 2 \<or> warmup_state d = WARMED_UP"
  shows "alive (target (snd (do_post_payload ms d (int lid) c spay bcnt ots)) lid) = 1"
    and "chb_ts (target (snd (do_post_payload ms d (int lid) c spay bcnt ots)) lid) = clock d"
  using assms by (auto simp: do_post_payload_def Let_def check_warmup_state_def upd)

end
