(* ===== verification/AsgProto.thy ===== *)
theory AsgProto
  imports AsgPktHandler
begin

text \<open>
  \<open>core/proto.c\<close> and \<open>core/libasraft.c\<close>: the registration of protocol instances and the
  initialisation of a device; \<open>core/consensus.c\<close> and \<open>core/pingpong.c\<close>: the constructors of the two
  protocols that exist.  \<open>lkm/consensus-request-gen.c\<close>: the commands a leader generates for tests;
  the random values are an argument.
\<close>

definition protocol_type_of :: "int \<Rightarrow> asgard_protocol_type option" where
  "protocol_type_of n =
     (if n = 0 then Some ASGARD_PROTO_ECHO else if n = 1 then Some ASGARD_PROTO_FD
      else if n = 2 then Some ASGARD_PROTO_CONSENSUS else if n = 3 then Some ASGARD_PROTO_PP else None)"

definition asgard_get_protocol_name :: "asgard_protocol_type option \<Rightarrow> string" where
  "asgard_get_protocol_name t =
     (case t of Some ASGARD_PROTO_FD \<Rightarrow> ''Failure Detector'' | Some ASGARD_PROTO_ECHO \<Rightarrow> ''Echo''
      | Some ASGARD_PROTO_CONSENSUS \<Rightarrow> ''Consensus'' | Some ASGARD_PROTO_PP \<Rightarrow> ''Ping Ping''
      | None \<Rightarrow> ''Unknown Protocol!'')"

text \<open>The constructors: the instance with its identifier still to be set, and the device with the
  new private data.\<close>

definition get_consensus_proto_instance :: "asgard_device \<Rightarrow> proto_instance \<times> asgard_device" where
  "get_consensus_proto_instance d =
     (\<lparr>pi_instance_id = 0, proto_type = ASGARD_PROTO_CONSENSUS\<rparr>,
      upd_con (\<lambda>p. p\<lparr>le_state := LE_UNINIT, nstate := NODE_UNINIT,
        max_entries_per_pkt := MAX_AE_ENTRIES_PER_PKT\<rparr>) d)"

definition get_pp_proto_instance :: "asgard_device \<Rightarrow> proto_instance \<times> asgard_device" where
  "get_pp_proto_instance d =
     (\<lparr>pi_instance_id = 0, proto_type = ASGARD_PROTO_PP\<rparr>, pingpong_state_transition_to PP_UNINIT d)"

definition generate_protocol_instance :: "asgard_device \<Rightarrow> int \<Rightarrow> proto_instance option \<times> asgard_device" where
  "generate_protocol_instance d protocol_id =
     (case protocol_type_of protocol_id of
        Some ASGARD_PROTO_CONSENSUS \<Rightarrow>
          (let (ins, d1) = get_consensus_proto_instance d in (Some ins, d1))
      | Some ASGARD_PROTO_PP \<Rightarrow>
          (let (ins, d1) = get_pp_proto_instance d in (Some ins, d1))
      | _ \<Rightarrow> (None, d))"

text \<open>\<open>init_ins\<close> is \<open>ctrl_ops.init\<close> of the new instance, \<open>init_proto\<close> below for the code's.\<close>

definition init_proto ::
  "int \<Rightarrow> (int \<Rightarrow> sm_log_entry) \<Rightarrow> asg_ring_buf \<Rightarrow> asg_ring_buf \<Rightarrow> proto_instance \<Rightarrow> int \<Rightarrow> asgard_device
     \<Rightarrow> int \<times> asgard_device" where
  "init_proto ifindex fresh rx0 tx0 ins verbosity0 d =
     (case proto_type ins of
        ASGARD_PROTO_CONSENSUS \<Rightarrow> consensus_init verbosity0 ifindex fresh rx0 tx0 d
      | ASGARD_PROTO_PP \<Rightarrow> pingpong_init verbosity0 d
      | _ \<Rightarrow> (0, d))"

definition set_instance_id :: "int \<Rightarrow> proto_instance \<Rightarrow> asgard_device \<Rightarrow> asgard_device" where
  "set_instance_id inst ins d =
     (case proto_type ins of
        ASGARD_PROTO_CONSENSUS \<Rightarrow> upd_con (\<lambda>p. p\<lparr>instance_id := inst\<rparr>) d
      | ASGARD_PROTO_PP \<Rightarrow> d\<lparr>pp := (pp d)\<lparr>pp_instance_id := inst\<rparr>\<rparr>
      | _ \<Rightarrow> d)"

definition register_protocol_instance ::
  "(proto_instance \<Rightarrow> int \<Rightarrow> asgard_device \<Rightarrow> int \<times> asgard_device) \<Rightarrow>
   asgard_device \<Rightarrow> int \<Rightarrow> int \<Rightarrow> int \<Rightarrow> int \<times> asgard_device" where
  "register_protocol_instance init_ins d inst protocol_id verbosity0 =
     (let idx = num_of_proto_instances d
      in if int idx \<ge> MAX_PROTO_INSTANCES then (- EPERM, d)
         else if instance_id_mapping d (nat inst) \<noteq> -1 then (- EINVAL, d)
         else
           let (gen, d1) = generate_protocol_instance d protocol_id
           in (case gen of
                 None \<Rightarrow> (- ENOMEM, d1\<lparr>protos := (protos d1)(idx := None)\<rparr>)
               | Some ins0 \<Rightarrow>
                   let ins = ins0\<lparr>pi_instance_id := inst\<rparr>;
                       d2 = set_instance_id inst ins
                              (d1\<lparr>protos := (protos d1)(idx := Some ins),
                                 instance_id_mapping := (instance_id_mapping d1)(nat inst := int idx)\<rparr>);
                       (err, d3) = init_ins ins verbosity0 d2
                   in if err \<noteq> 0 then (err, d3)
                      else (0, d3\<lparr>num_of_proto_instances := num_of_proto_instances d3 + 1\<rparr>)))"

text \<open>\<open>init_asgard_device\<close> for a device with address \<open>ip\<close> and \<open>mac\<close>; \<open>ci0\<close> is the zeroed cluster
  page, \<open>cycles\<close> the value of \<open>CYCLES_PER_1MS\<close>.\<close>

definition init_asgard_device ::
  "int \<Rightarrow> byte list \<Rightarrow> int \<Rightarrow> cluster_info \<Rightarrow> asgard_device \<Rightarrow> int \<times> asgard_device" where
  "init_asgard_device ip mac cycles ci0 d =
     (let d1 = d\<lparr>hold_fire := 0, tx_counter := 0, hb_interval := 0, verbose := 0,
                 num_of_proto_instances := 0, tx_port := 3319, cur_leader_lid := -1, is_leader := 0,
                 has_con := False\<rparr>;
          d2 = upd_pm (\<lambda>p. p\<lparr>num_of_targets := 0, waiting_window := 100000\<rparr>) d1;
          d3 = d2\<lparr>mc := (mc d2)\<lparr>mc_dst_ip := 232 * 16777216 + 43 * 65536 + 211 * 256 + 234,
                 mc_dst_mac := [1, 0, 94, 43, 211, 234], mc_enable := 0, mc_nextIdx := 0,
                 mc_aapriv := \<lparr>doorbell = 0, async_pkts = []\<rparr>\<rparr>\<rparr>
      in if ip = 0 then (- EINVAL, d3\<lparr>self_ip := ip\<rparr>)
         else
           let d4 = d3\<lparr>self_ip := ip, self_mac := Some (take 6 mac)\<rparr>;
               d5 = upd_pm (\<lambda>p. p\<lparr>multicast_pkt_payload := Some empty_payload,
                      oos_payload := empty_payload, hbi := cycles\<rparr>) d4;
               d6 = d5\<lparr>leader_wq := [], instance_id_mapping := (\<lambda>i. if int i < MAX_PROTO_INSTANCES then -1
                      else instance_id_mapping d5 i), num_of_proto_instances := 0\<rparr>;
               c = ci0\<lparr>overall_cluster_member := 1,
                     member_info := (\<lambda>i. if int i < MAX_CLUSTER_MEMBER
                       then (member_info ci0 i)\<lparr>hb_metrics := hb_metrics_init (hb_metrics (member_info ci0 i))\<rparr>
                       else member_info ci0 i)\<rparr>
           in (0, d6\<lparr>ci := c\<rparr>))"

section \<open>Registration\<close>

text \<open>The identifier mapping: registered identifiers point to different slots that hold instances
  with these identifiers.\<close>

definition mapping_ok :: "asgard_device \<Rightarrow> bool" where
  "mapping_ok d \<longleftrightarrow> int (num_of_proto_instances d) \<le> MAX_PROTO_INSTANCES
     \<and> (\<forall>i. instance_id_mapping d i = -1 \<or>
          (0 \<le> instance_id_mapping d i \<and> instance_id_mapping d i < int (num_of_proto_instances d)
           \<and> (\<exists>ins. protos d (nat (instance_id_mapping d i)) = Some ins \<and> pi_instance_id ins = int i)))"

lemma generate_frame:
  "protos (snd (generate_protocol_instance d k)) = protos d"
  "instance_id_mapping (snd (generate_protocol_instance d k)) = instance_id_mapping d"
  "num_of_proto_instances (snd (generate_protocol_instance d k)) = num_of_proto_instances d"
  by (simp_all add: generate_protocol_instance_def get_consensus_proto_instance_def
      get_pp_proto_instance_def pingpong_state_transition_to_def upd
      split: option.split asgard_protocol_type.split)

lemma upd_trips_frame:
  "protos (fold (\<lambda>i. upd_trip i h) xs d) = protos d"
  "instance_id_mapping (fold (\<lambda>i. upd_trip i h) xs d) = instance_id_mapping d"
  "num_of_proto_instances (fold (\<lambda>i. upd_trip i h) xs d) = num_of_proto_instances d"
  by (induction xs arbitrary: d) (simp_all add: upd_trip_def)

lemma init_proto_frame:
  "fst (init_proto ix fr rx tx ins v d) = 0"
  "protos (snd (init_proto ix fr rx tx ins v d)) = protos d"
  "instance_id_mapping (snd (init_proto ix fr rx tx ins v d)) = instance_id_mapping d"
  "num_of_proto_instances (snd (init_proto ix fr rx tx ins v d)) = num_of_proto_instances d"
  by (simp_all add: init_proto_def consensus_init_def pingpong_init_def Let_def upd_trips_frame
      pingpong_state_transition_to_def upd split: asgard_protocol_type.split)

lemma set_instance_id_frame:
  "protos (set_instance_id k ins d) = protos d"
  "instance_id_mapping (set_instance_id k ins d) = instance_id_mapping d"
  "num_of_proto_instances (set_instance_id k ins d) = num_of_proto_instances d"
  by (simp_all add: set_instance_id_def upd split: asgard_protocol_type.split)

text \<open>Registering a consensus or ping-pong instance under a free identifier keeps the identifier
  mapping consistent and makes the instance reachable under its identifier, unless the identifier is
  larger than the number of instances, which the lookup refuses.\<close>

theorem register_protocol_ok:
  assumes ok: "mapping_ok d" and inst: "0 \<le> inst" "instance_id_mapping d (nat inst) = -1"
    and room: "int (num_of_proto_instances d) < MAX_PROTO_INSTANCES" and kind: "k = 2 \<or> k = 3"
    and r: "(r, d') = register_protocol_instance (init_proto ix fr rx tx) d inst k v"
  shows "r = 0 \<and> mapping_ok d' \<and> num_of_proto_instances d' = Suc (num_of_proto_instances d)
     \<and> instance_id_mapping d' (nat inst) = int (num_of_proto_instances d)
     \<and> get_proto_instance d' inst = (if inst \<le> int (Suc (num_of_proto_instances d))
          then Some \<lparr>pi_instance_id = inst,
                 proto_type = (if k = 2 then ASGARD_PROTO_CONSENSUS else ASGARD_PROTO_PP)\<rparr>
          else None)"
proof -
  let ?n = "num_of_proto_instances d"
  let ?ins = "\<lparr>pi_instance_id = inst, proto_type = (if k = 2 then ASGARD_PROTO_CONSENSUS else ASGARD_PROTO_PP)\<rparr>"
  obtain ins0 d1 where gen: "generate_protocol_instance d k = (Some ins0, d1)"
    and ins0: "ins0\<lparr>pi_instance_id := inst\<rparr> = ?ins"
    using kind by (auto simp: generate_protocol_instance_def protocol_type_of_def
        get_consensus_proto_instance_def get_pp_proto_instance_def)
  note g = generate_frame [of d k, unfolded gen snd_conv]
  let ?d2 = "set_instance_id inst ?ins (d1\<lparr>protos := (protos d1)(?n := Some ?ins),
      instance_id_mapping := (instance_id_mapping d1)(nat inst := int ?n)\<rparr>)"
  obtain d3 where i: "init_proto ix fr rx tx ?ins v ?d2 = (0, d3)"
    using init_proto_frame(1) [of ix fr rx tx ?ins v ?d2] by (metis prod.collapse)
  note f = init_proto_frame(2,3,4) [of ix fr rx tx ?ins v ?d2, unfolded i snd_conv set_instance_id_frame]
  have run: "r = 0" "d' = d3\<lparr>num_of_proto_instances := Suc ?n\<rparr>"
    using r room inst gen i f(3) g(3) unfolding register_protocol_instance_def
    by (simp_all add: Let_def ins0)
  have p: "protos d' = (protos d)(?n := Some ?ins)"
    "instance_id_mapping d' = (instance_id_mapping d)(nat inst := int ?n)"
    "num_of_proto_instances d' = Suc ?n"
    using f g by (simp_all add: run)
  have "mapping_ok d'"
    unfolding mapping_ok_def p
  proof (intro conjI allI)
    show "int (Suc ?n) \<le> MAX_PROTO_INSTANCES" using room by simp
    fix i
    let ?m = "((instance_id_mapping d)(nat inst := int ?n)) i"
    show "?m = -1 \<or> (0 \<le> ?m \<and> ?m < int (Suc ?n)
       \<and> (\<exists>ins. ((protos d)(?n := Some ?ins)) (nat ?m) = Some ins \<and> pi_instance_id ins = int i))"
    proof (cases "i = nat inst")
      case False
      then show ?thesis using ok [unfolded mapping_ok_def, THEN conjunct2, rule_format, of i] by auto
    qed (use inst in simp)
  qed
  then show ?thesis using p inst run(1) by (simp add: get_proto_instance_def Let_def)
qed

definition sample_register :: asgard_device where
  "sample_register = snd (register_protocol_instance
     (init_proto 0 (\<lambda>_. \<lparr>e_valid = 0, e_term = 0, e_data = []\<rparr>) (sample_ring 8) (sample_ring 8))
     (sample_node FOLLOWER 0) 2 3 0)"

theorem register_protocol_ok_witness:
  "mapping_ok sample_register
   \<and> get_proto_instance sample_register 2 = Some \<lparr>pi_instance_id = 2, proto_type = ASGARD_PROTO_PP\<rparr>"
proof -
  have "mapping_ok (sample_node FOLLOWER 0)"
    by (auto simp: mapping_ok_def sample MAX_PROTO_INSTANCES_def)
  from register_protocol_ok [OF this _ _ _ _ prod.collapse, of 2 3 0
      "\<lambda>_. \<lparr>e_valid = 0, e_term = 0, e_data = []\<rparr>" "sample_ring 8" "sample_ring 8" 0]
  show ?thesis by (simp add: sample MAX_PROTO_INSTANCES_def sample_register_def)
qed

lemma register_protocol_refused:
  assumes "MAX_PROTO_INSTANCES \<le> int (num_of_proto_instances d) \<or> instance_id_mapping d (nat inst) \<noteq> -1"
  shows "snd (register_protocol_instance f d inst k v) = d"
    and "fst (register_protocol_instance f d inst k v) < 0"
  using assms by (auto simp: register_protocol_instance_def Let_def EPERM_def EINVAL_def)

text \<open>A fresh device and the state after registering the consensus protocol.\<close>

lemma init_device_mapping: "ip \<noteq> 0 \<Longrightarrow> \<forall>i. int i < MAX_PROTO_INSTANCES \<or> instance_id_mapping d i = -1 \<Longrightarrow>
    mapping_ok (snd (init_asgard_device ip mac cyc c d))"
  by (auto simp: init_asgard_device_def Let_def mapping_ok_def upd MAX_PROTO_INSTANCES_def)

lemma consensus_init_log:
  assumes "\<And>b. length (e_data (fresh b)) = ASG_CHUNK_SIZE"
  shows "chunks_ok (the_log (snd (consensus_init v ix fresh rx tx d)))"
    and "log_chain (the_log (snd (consensus_init v ix fresh rx tx d)))"
    and "con_term (con (snd (consensus_init v ix fresh rx tx d))) = 0"
    and "last_idx (the_log (snd (consensus_init v ix fresh rx tx d))) = -1"
  using assms
  by (simp_all add: consensus_init_def Let_def chunks_ok_def entries_ok_def log_chain_def entry_at_def upd)

end
