(* ===== verification/AsgInvariant.thy ===== *)
theory AsgInvariant
  imports AsgProto
begin

text \<open>
  A running node as a transition system: frames arrive, work items run, the pacemaker turns, time
  passes.  The node's invariant -- an allocated log with ordered indices, one role, the role shown to
  user space -- is kept by every step, whatever the frames hold.
\<close>

section \<open>The invariant\<close>

text \<open>\<open>lo\<close> holds lower bounds for the commit index and the last index: keeping the invariant for every
  \<open>lo\<close> says that neither ever falls.\<close>

definition log_ok :: "int \<times> int \<Rightarrow> state_machine_cmd_log \<Rightarrow> bool" where
  "log_ok lo l \<longleftrightarrow> entries_ok l \<and> -1 \<le> last_applied l \<and> last_applied l \<le> commit_idx l
     \<and> commit_idx l \<le> last_idx l \<and> -1 \<le> stable_idx l \<and> stable_idx l \<le> last_idx l
     \<and> fst lo \<le> commit_idx l \<and> snd lo \<le> last_idx l"

definition node_inv :: "int \<times> int \<Rightarrow> asgard_device \<Rightarrow> bool" where
  "node_inv lo d \<longleftrightarrow> log_ok lo (the_log d) \<and> mc_enable (mc d) = 0
     \<and> (is_leader d \<noteq> 0 \<longrightarrow> nstate (con d) = LEADER)
     \<and> ci_node_state (ci d) = state_code (nstate (con d))"

text \<open>The state the invariant reads.\<close>

definition core_view :: "asgard_device \<Rightarrow> state_machine_cmd_log \<times> int \<times> bool \<times> node_state \<times> int" where
  "core_view d = (the_log d, mc_enable (mc d), is_leader d \<noteq> 0, nstate (con d), ci_node_state (ci d))"

lemma node_inv_cong: "core_view d' = core_view d \<Longrightarrow> node_inv lo d' = node_inv lo d"
  by (simp add: node_inv_def core_view_def)

lemma node_inv_view: "core_view d' = core_view d \<Longrightarrow> node_inv lo d \<Longrightarrow> node_inv lo d'"
  using node_inv_cong by blast

lemma log_ok_entries: "log_ok lo l \<Longrightarrow> entries_ok l" by (simp add: log_ok_def)

lemma node_inv_max: "node_inv lo d \<Longrightarrow> max_entries (the_log d) = MAX_CONSENSUS_LOG"
  by (simp add: node_inv_def log_ok_def entries_ok_def)

text \<open>Index fields outside the invariant may change freely.\<close>

lemma log_ok_fields [simp]:
  "log_ok lo (l\<lparr>next_index := a\<rparr>) = log_ok lo l" "log_ok lo (l\<lparr>match_index := b\<rparr>) = log_ok lo l"
  "log_ok lo (l\<lparr>retrans_entries := c, retrans_list := e\<rparr>) = log_ok lo l"
  "log_ok lo (l\<lparr>retrans_list := e, retrans_entries := c\<rparr>) = log_ok lo l"
  "log_ok lo (l\<lparr>retrans_list := e, num_retransmissions := n, retrans_entries := c\<rparr>) = log_ok lo l"
  "log_ok lo (l\<lparr>unstable_commits := u, log_turn := t\<rparr>) = log_ok lo l"
  "log_ok lo (l\<lparr>next_retrans_req_idx := r, unstable_commits := u\<rparr>) = log_ok lo l"
  "log_ok lo (l\<lparr>next_index := a, match_index := b, num_retransmissions := n\<rparr>) = log_ok lo l"
  "log_ok lo (l\<lparr>next_index := a, match_index := b, num_retransmissions := n, retrans_list := e, retrans_entries := c\<rparr>)
     = log_ok lo l"
  by (simp_all add: log_ok_def entries_ok_def)

lemma node_inv_upd_log: "(\<And>l. log_ok lo l \<Longrightarrow> log_ok lo (f l)) \<Longrightarrow> node_inv lo d \<Longrightarrow> node_inv lo (upd_log f d)"
  by (simp add: node_inv_def upd)

section \<open>Steps that the invariant does not see\<close>

lemma core_view_upd_target [simp]: "core_view (upd_target i f d) = core_view d"
  by (simp add: core_view_def upd)

lemma core_view_event [simp]: "core_view (con_log_event ev d) = core_view d"
  by (simp add: core_view_def upd)

lemma core_view_le_msg [simp]: "core_view (setup_le_msg d op t a b c e) = core_view d"
  by (simp add: core_view_def setup_le_msg_frame)

lemma core_view_reply [simp]: "core_view (append_reply_fire d t s i) = core_view d"
  by (simp add: core_view_def append_reply_fire_def reply_append_def put_le_msg_def upd split: option.split)

lemma core_view_vote [simp]: "core_view (reply_vote d lid p x) = core_view d"
  by (simp add: core_view_def reply_vote_def Let_def setup_le_msg_frame upd)

lemma update_cluster_member_code [simp]:
  "ci_node_state (update_cluster_member now c lid st) = ci_node_state c"
  by (simp add: update_cluster_member_def Let_def)

lemma core_view_aliveness [simp]: "core_view (update_aliveness_states i d) = core_view d"
  by (simp add: core_view_def update_aliveness_states_def Let_def upd)

lemma core_view_hb_log [simp]: "core_view (snd (write_in_hb_to_log d tcs nd)) = core_view d"
  by (simp add: core_view_def write_in_hb_to_log_def Let_def)

lemma pre_hb_mc: "mc (pre_hb_hb i d) = mc d" "mc (pre_hb_pkt i d) = mc d"
proof -
  have "mc (fst (pre_hb_proto t j x)) = mc (fst x)" for t j x
    by (auto simp: pre_hb_proto_def setup_ping_msg_def add_ts1_to_local_store_def Let_def upd_trip_def
        pingpong_state_transition_to_def split_beta split: option.splits)
  from pre_hb_setup_frame [of mc, OF this]
  show "mc (pre_hb_hb i d) = mc d" "mc (pre_hb_pkt i d) = mc d"
    by (simp_all add: pre_hb_hb_def pre_hb_pkt_def Let_def split_beta upd)
qed

lemma core_view_pre_hb [simp]: "core_view (pre_hb_hb i d) = core_view d" "core_view (pre_hb_pkt i d) = core_view d"
  by (simp_all add: core_view_def pre_hb_hb_frame pre_hb_pkt_frame pre_hb_mc)

lemma core_view_send [simp]: "core_view (asgard_send_skb b d) = core_view d"
  by (simp add: core_view_def asgard_send_skb_frame)

lemma core_view_counter [simp]: "core_view (d\<lparr>tx_counter := n\<rparr>) = core_view d"
  "core_view (d\<lparr>hb_interval := n\<rparr>) = core_view d" "core_view (d\<lparr>clock := n\<rparr>) = core_view d"
  "core_view (d\<lparr>warmup_state := w\<rparr>) = core_view d" "core_view (d\<lparr>leader_wq := q\<rparr>) = core_view d"
  "core_view (d\<lparr>cur_leader_lid := n\<rparr>) = core_view d" "core_view (d\<lparr>pp := x\<rparr>) = core_view d"
  "core_view (d\<lparr>mc := (mc d)\<lparr>mc_aapriv := y\<rparr>\<rparr>) = core_view d" "core_view (upd_pm f d) = core_view d"
  "core_view (pm_state_transition_to st d) = core_view d" "core_view (upd_trip i h d) = core_view d"
  by (simp_all add: core_view_def upd pm_state_transition_to_def upd_trip_def)

lemma core_view_emission:
  "core_view (snd (emit_pkts_scheduled d)) = core_view d"
  "core_view (snd (emit_pkts_non_scheduled d)) = core_view d"
  "core_view (snd (emit_pkts_non_scheduled_multi d)) = core_view d"
  "core_view (snd (emit_async_pkts d)) = core_view d"
  by (simp_all add: emit_pkts_scheduled_def emit_scheduled_one_def emit_pkts_non_scheduled_def
      asgard_send_oos_pkts_def send_oos_one_def emit_pkts_non_scheduled_multi_def emit_async_pkts_def
      emit_async_multicast_pkt_def emit_async_unicast_pkts_def emit_async_unicast_one_def Let_def split_beta
      for_targets_frame [of core_view] split: option.split)

lemma core_view_pingpong [simp]:
  "core_view (pingpong_post_payload inst d lid m p ots) = core_view d"
  "core_view (snd (pingpong_start d)) = core_view d" "core_view (snd (pingpong_stop d)) = core_view d"
  by (simp_all add: pingpong_post_payload_def setup_pp_msg_def handle_pong_def Let_def
      pingpong_start_def pingpong_stop_def pingpong_state_transition_to_def split: option.split)

lemma core_view_register [simp]: "core_view (snd (register_peer_by_ip d lid ip cid)) = core_view d"
  by (simp add: register_peer_by_ip_def Let_def core_view_def add_cluster_member_def upd)

section \<open>Steps that change the log\<close>

lemma priv_frame:
  "nstate (snd (apply_one p i)) = nstate p"
  "con_term (snd (apply_loop p i)) = con_term p" "nstate (snd (apply_loop p i)) = nstate p"
proof -
  have one: "nstate (snd (apply_one q j)) = nstate q" for q j
    by (simp add: apply_one_def Let_def split_beta)
  have "con_term (snd (apply_loop p i)) = con_term p \<and> nstate (snd (apply_loop p i)) = nstate p"
  proof (induction p i rule: apply_loop.induct)
    case (1 p i)
    show ?case
      by (subst (1 2) apply_loop.simps) (use "1.IH" in \<open>auto simp: one apply_one_frame split_beta\<close>)
  qed
  then show "nstate (snd (apply_one p i)) = nstate p"
    "con_term (snd (apply_loop p i)) = con_term p" "nstate (snd (apply_loop p i)) = nstate p"
    by (simp_all add: one)
qed

lemma commit_priv_frame:
  "con_term (commit_log_priv m now p c) = con_term p" "nstate (commit_log_priv m now p c) = nstate p"
proof -
  have "con_term (snd (apply_log_to_sm now q)) = con_term q \<and> nstate (snd (apply_log_to_sm now q)) = nstate q" for q
    by (simp add: apply_log_to_sm_def get_rx_buffer_def Let_def priv_frame split: option.split)
  then show "con_term (commit_log_priv m now p c) = con_term p" "nstate (commit_log_priv m now p c) = nstate p"
    by (simp_all add: commit_log_priv_def split_beta)
qed

lemma commit_priv_log_ok:
  assumes ok: "log_ok lo (sm_log p)"
  shows "log_ok lo (sm_log (commit_log_priv 0 now p c))"
    and "commit_idx (sm_log p) \<le> commit_idx (sm_log (commit_log_priv 0 now p c))"
proof -
  note ap = apply_log_chain [of "p\<lparr>sm_log := (sm_log p)\<lparr>commit_idx := c\<rparr>\<rparr>" now]
  show "log_ok lo (sm_log (commit_log_priv 0 now p c))"
    "commit_idx (sm_log p) \<le> commit_idx (sm_log (commit_log_priv 0 now p c))"
    using ap ok by (auto simp: commit_log_priv_def log_ok_def split_beta entries_ok_def)
qed

lemma node_inv_commit: "node_inv lo d \<Longrightarrow> node_inv lo (commit_log d c)"
  using commit_priv_log_ok [of lo "con d" "clock d" c]
  by (simp add: node_inv_def commit_log_def upd_con_def commit_priv_frame)

lemma handle_append_frame:
  "is_leader (handle_append_rpc d m pkt lid cid) = is_leader d"
  "ci (handle_append_rpc d m pkt lid cid) = ci d" "mc (handle_append_rpc d m pkt lid cid) = mc d"
proof -
  have mc: "mc (append_reply_fire e t s i) = mc e" for e t s i
    by (simp add: append_reply_fire_def reply_append_def put_le_msg_def upd split: option.split)
  show "is_leader (handle_append_rpc d m pkt lid cid) = is_leader d"
    "ci (handle_append_rpc d m pkt lid cid) = ci d" "mc (handle_append_rpc d m pkt lid cid) = mc d"
    by (simp_all add: handle_append_rpc_def Let_def con_reply mc split_beta) (simp_all add: upd)
qed

lemma node_inv_append:
  assumes inv: "node_inv lo d" and d': "d' = handle_append_rpc d m pkt lid cid"
  shows "node_inv lo d'"
  using d'
proof (cases rule: handle_append_cases)
  case 1
  then show ?thesis using inv by (simp add: node_inv_def d' handle_append_frame)
next
  case (2 n st u err p1 r uc)
  have "entries_ok (the_log d)" using inv by (simp add: node_inv_def log_ok_def)
  from append_commands_bounds [OF this 2(1)] have "log_ok lo (sm_log p1)" "nstate p1 = nstate (con d)"
    using inv by (auto simp: node_inv_def log_ok_def le_max_iff_disj)
  then show ?thesis using inv 2(5,7) by (simp add: node_inv_def d' handle_append_frame)
qed

lemma commit_scan_bound: "commit_scan d is N = Some N' \<Longrightarrow> N \<le> last_idx (the_log d) \<Longrightarrow> N' \<le> last_idx (the_log d)"
  by (induction d "is" N rule: commit_scan.induct) (auto simp: Let_def split: if_splits option.splits)

lemma invalidate_frame:
  "commit_idx (invalidate is l) = commit_idx l \<and> last_idx (invalidate is l) = last_idx l
   \<and> stable_idx (invalidate is l) = stable_idx l \<and> last_applied (invalidate is l) = last_applied l
   \<and> max_entries (invalidate is l) = max_entries l \<and> match_index (invalidate is l) = match_index l
   \<and> (entries_ok l \<longrightarrow> entries_ok (invalidate is l))"
proof (induction "is" l rule: invalidate.induct)
  case (2 i "is" l)
  have "entries_ok l \<longrightarrow> entries_ok (set_entry b e l)" for b e by (auto simp: entries_ok_def set_entry_def)
  with 2 show ?case by (auto simp: Let_def set_entry_def)
qed simp

lemma log_ok_invalidate: "log_ok lo l \<Longrightarrow> log_ok lo (invalidate is l)"
  using invalidate_frame [of "is" l] by (simp add: log_ok_def)

lemma node_inv_update_commit:
  assumes "node_inv lo d"
  shows "node_inv lo (update_commit_idx d)"
proof (cases "commit_scan d [0..<targets d] (-1)")
  case (Some N)
  have ok: "log_ok lo (the_log d)" using assms by (simp add: node_inv_def)
  have N: "N \<le> last_idx (the_log d)" using commit_scan_bound [OF Some] ok by (simp add: log_ok_def)
  let ?d1 = "if commit_idx (the_log d) < N
     then upd_log (\<lambda>l. l\<lparr>commit_idx := N, last_applied := N\<rparr>) d else d"
  have "node_inv lo ?d1" using assms N by (auto simp: node_inv_def log_ok_def entries_ok_def upd)
  then show ?thesis
    using Some assms unfolding update_commit_idx_def Let_def
    by (simp add: node_inv_upd_log log_ok_invalidate)
qed (use assms in \<open>simp add: update_commit_idx_def\<close>)

section \<open>Replication steps\<close>

lemma safe_last: "log_ok lo (the_log d) \<Longrightarrow> get_last_idx_safe (con d) = (last_idx (the_log d), con d)"
  by (rule get_last_idx_safe_id) (simp add: log_ok_def)

lemma node_inv_setup_append:
  assumes "node_inv lo d"
  shows "node_inv lo (fst (snd (setup_append_msg d spay inst t nx rt)))"
proof -
  have ok: "log_ok lo (the_log d)" using assms by (simp add: node_inv_def)
  have "node_inv lo (upd_log (\<lambda>l. l\<lparr>next_index := f l\<rparr>) d)" for f
    by (rule node_inv_upd_log [OF _ assms]) simp
  then show ?thesis
    unfolding setup_append_msg_def safe_last [OF ok] Let_def
    by (simp add: assms split: prod.split option.split)
qed

lemma node_inv_prepare:
  assumes "node_inv lo d"
  shows "node_inv lo (snd (do_prepare_log_replication d t nx rt))"
proof -
  have one: "node_inv lo (snd (prepare_instance t nx rt j x))" if "node_inv lo (snd x)" for j x
    using that node_inv_setup_append [OF that]
    by (auto simp: prepare_instance_def Let_def split_beta node_inv_cong [of "upd_target a f c" c for a f c]
        split: option.split)
  have "node_inv lo (snd (fold (prepare_instance t nx rt) js x))" if "node_inv lo (snd x)" for js x
    using that by (induction js arbitrary: x) (simp_all add: one)
  then show ?thesis using assms by (simp add: do_prepare_log_replication_def)
qed

lemma node_inv_check_target:
  assumes "node_inv lo d"
  shows "node_inv lo (check_pending_log_rep_for_target t d)"
proof -
  have n: "node_inv lo (snd (snd (get_next_idx_for_target d t)))"
    using assms by (auto simp: get_next_idx_for_target_def intro!: node_inv_upd_log split: list.split)
  have "node_inv lo (schedule_log_rep e t x y 0)" if "node_inv lo e" for e x y
    using that node_inv_cong [of "e\<lparr>leader_wq := w\<rparr>" e for w] by (simp add: schedule_log_rep_def)
  then show ?thesis
    using assms n by (simp add: check_pending_log_rep_for_target_def Let_def split_beta)
qed

lemma node_inv_check_pending:
  assumes "node_inv lo d"
  shows "node_inv lo (check_pending_log_rep d)"
  using assms for_targets_inv [of "node_inv lo" d check_pending_log_rep_for_target, OF assms node_inv_check_target]
  by (simp add: check_pending_log_rep_def node_inv_def)

lemma node_inv_leader_work:
  assumes "node_inv lo d"
  shows "node_inv lo (run_leader_work d)"
proof (cases "leader_wq d")
  case (Cons aw rest)
  have "node_inv lo (d\<lparr>leader_wq := rest\<rparr>)" using assms node_inv_cong [of "d\<lparr>leader_wq := rest\<rparr>" d] by simp
  from node_inv_prepare [OF this] show ?thesis
    using Cons by (simp add: run_leader_work_def prepare_log_replication_def split_beta Let_def node_inv_check_target)
qed (use assms in \<open>simp add: run_leader_work_def\<close>)

section \<open>Role changes\<close>

text \<open>The part of the invariant about the log alone.\<close>

definition log_inv :: "int \<times> int \<Rightarrow> asgard_device \<Rightarrow> bool" where
  "log_inv lo d \<longleftrightarrow> log_ok lo (the_log d) \<and> mc_enable (mc d) = 0"

lemma log_inv_view: "core_view d' = core_view d \<Longrightarrow> log_inv lo d' = log_inv lo d"
  by (simp add: log_inv_def core_view_def)

lemma log_inv_upd_log: "(\<And>l. log_ok lo l \<Longrightarrow> log_ok lo (f l)) \<Longrightarrow> log_inv lo d \<Longrightarrow> log_inv lo (upd_log f d)"
  by (simp add: log_inv_def upd)

lemma log_inv_set [simp]: "log_inv lo (d\<lparr>is_leader := x\<rparr>) = log_inv lo d" "log_inv lo (d\<lparr>tx_port := x\<rparr>) = log_inv lo d"
  "log_inv lo (d\<lparr>hold_fire := x\<rparr>) = log_inv lo d" "log_inv lo (d\<lparr>ci := c\<rparr>) = log_inv lo d"
  "log_inv lo (d\<lparr>cur_leader_lid := n\<rparr>) = log_inv lo d"
  by (simp_all add: log_inv_def)

lemma log_inv_upd_con: "(\<And>p. sm_log (f p) = sm_log p) \<Longrightarrow> log_inv lo (upd_con f d) = log_inv lo d"
  by (simp add: log_inv_def upd)

lemma log_inv_event [simp]: "log_inv lo (con_log_event ev d) = log_inv lo d"
  by (rule log_inv_view) simp

lemma core_view_broadcast: "core_view (snd (setup_le_broadcast_msg op d)) = core_view d"
  by (simp add: setup_le_broadcast_msg_def Let_def for_targets_frame [of core_view])

lemma log_inv_broadcast: "log_inv lo (snd (setup_le_broadcast_msg op d)) = log_inv lo d"
  by (rule log_inv_view) (rule core_view_broadcast)

lemma log_inv_stop_role: "log_inv lo d \<Longrightarrow> log_inv lo (snd (stop_role d))"
  unfolding stop_role_def stop_follower_def stop_candidate_def stop_leader_def
    clean_request_transmission_lists_def
  by (auto intro!: for_targets_inv [where P = "log_inv lo"] log_inv_upd_log split: node_state.split)

lemma log_inv_check_pending:
  assumes "log_inv lo d"
  shows "log_inv lo (check_pending_log_rep d)"
proof -
  have t: "log_inv lo (check_pending_log_rep_for_target t e)" if "log_inv lo e" for t e
  proof -
    have n: "log_inv lo (snd (snd (get_next_idx_for_target e t)))"
      using that by (auto simp: get_next_idx_for_target_def intro!: log_inv_upd_log split: list.split)
    have "log_inv lo (schedule_log_rep e' t x y 0)" if "log_inv lo e'" for e' x y
      using that by (simp add: schedule_log_rep_def log_inv_def)
    then show ?thesis
      using that n by (simp add: check_pending_log_rep_for_target_def Let_def split_beta)
  qed
  show ?thesis
    using assms for_targets_inv [of "log_inv lo" d check_pending_log_rep_for_target, OF assms t]
    by (simp add: check_pending_log_rep_def log_inv_def)
qed

lemma log_inv_start_follower: "log_inv lo d \<Longrightarrow> log_inv lo (snd (start_follower d))"
  using log_inv_broadcast [of lo NOOP d]
  by (auto simp: start_follower_def Let_def log_inv_upd_con intro!: log_inv_upd_log split: prod.split)

lemma log_inv_start_candidate: "log_inv lo d \<Longrightarrow> log_inv lo (snd (start_candidate d))"
proof -
  have nom: "log_inv lo (setup_nomination e) = log_inv lo e" for e
    by (simp add: setup_nomination_def Let_def log_inv_broadcast log_inv_upd_con
        for_targets_frame [of "log_inv lo"] log_inv_view [of "upd_target i f c" c for i f c])
  show "log_inv lo d \<Longrightarrow> log_inv lo (snd (start_candidate d))"
    by (simp add: start_candidate_def Let_def nom log_inv_upd_con)
qed

lemma log_inv_start_leader: "log_inv lo d \<Longrightarrow> log_inv lo (snd (start_leader d))"
proof -
  have "log_inv lo (initialize_indices e)" if "log_inv lo e" for e
    unfolding initialize_indices_def
    by (rule for_targets_inv [where P = "log_inv lo"], rule that)
      (auto simp: log_inv_view [of "pre_hb_pkt i c" c for i c] intro!: log_inv_upd_log)
  then show "log_inv lo d \<Longrightarrow> log_inv lo (snd (start_leader d))"
    by (simp add: start_leader_def Let_def log_inv_upd_con log_inv_check_pending
        for_targets_frame [of "log_inv lo"] log_inv_view [of "pre_hb_pkt i c" c for i c])
qed

lemma log_inv_transition:
  assumes "log_inv lo d"
  shows "log_inv lo (snd (node_transition st d))"
proof -
  have d1: "log_inv lo (snd (stop_role (upd_con (\<lambda>p. p\<lparr>votes := 0\<rparr>) d)))"
    using assms by (simp add: log_inv_stop_role log_inv_upd_con)
  have pm: "log_inv lo (snd (asgard_pm_stop e)) = log_inv lo e" for e
    by (simp add: asgard_pm_stop_eq log_inv_view [of "pm_state_transition_to s e" e for s])
  note starts = log_inv_start_follower [OF d1] log_inv_start_candidate [OF d1] log_inv_start_leader [OF d1]
  show ?thesis
    using starts d1
    by (cases st) (auto simp: node_transition_def Let_def split_beta pm log_inv_upd_con)
qed

lemma role_of_view: "role_view d = (st, st = LEADER, state_code st, v) \<Longrightarrow> log_inv lo d \<Longrightarrow> node_inv lo d"
  by (auto simp: role_view_def node_inv_def log_inv_def)

lemma node_inv_log: "node_inv lo d \<Longrightarrow> log_inv lo d" by (simp add: node_inv_def log_inv_def)

lemma log_inv_max: "log_inv lo d \<Longrightarrow> max_entries (the_log d) = MAX_CONSENSUS_LOG"
  by (simp add: log_inv_def log_ok_def entries_ok_def)

text \<open>Every transition restores the invariant from the log part; a refused candidature keeps it.\<close>

lemma node_inv_transition:
  assumes "log_inv lo d" and "st = FOLLOWER \<or> st = LEADER"
  shows "node_inv lo (snd (node_transition st d))"
proof -
  have st: "st \<noteq> NODE_UNINIT" "st = CANDIDATE \<Longrightarrow> 2 \<le> targets d \<or> warmup_state d = WARMING_UP"
    using assms(2) by auto
  from node_transition_ok(2) [OF log_inv_max [OF assms(1)] st] log_inv_transition [OF assms(1)]
  show ?thesis by (rule role_of_view)
qed

lemma node_inv_stop_role: "node_inv lo d \<Longrightarrow> node_inv lo (snd (stop_role d))"
  using log_inv_stop_role [OF node_inv_log, of lo d]
  by (auto simp: stop_role_def stop_follower_def stop_candidate_def stop_leader_def node_inv_def log_inv_def
      clean_request_transmission_lists_def for_targets_frame [of is_leader] upd_frame
      for_targets_frame [of ci] for_targets_frame [of "\<lambda>d. nstate (con d)"] split: node_state.splits)

lemma node_inv_candidature:
  assumes "node_inv lo d"
  shows "node_inv lo (snd (node_transition CANDIDATE d))"
proof (cases "2 \<le> targets d \<or> warmup_state d = WARMING_UP")
  case True
  from node_transition_ok(2) [OF node_inv_max [OF assms], of CANDIDATE] True
    log_inv_transition [OF node_inv_log [OF assms]]
  show ?thesis by (intro role_of_view [of _ CANDIDATE]) simp_all
next
  case False
  let ?d0 = "upd_con (\<lambda>p. p\<lparr>votes := 0\<rparr>) d"
  let ?d1 = "snd (stop_role ?d0)"
  have "node_inv lo ?d0" using assms by (simp add: node_inv_def upd)
  then have d1: "node_inv lo ?d1" by (rule node_inv_stop_role)
  have "targets ?d1 < 2 \<and> warmup_state ?d1 = WARMED_UP"
    using False by (cases "warmup_state d") (simp_all add: stop_role_frame upd)
  then have "snd (node_transition CANDIDATE d) = pm_state_transition_to ASGARD_PM_READY ?d1"
    unfolding node_transition_def Let_def by (subst stop_role_0) (simp add: start_candidate_def asgard_pm_stop_eq)
  then show ?thesis using d1 node_inv_cong [of "pm_state_transition_to s c" c for s c] by simp
qed

end
