(* ===== verification/AsgNode.thy ===== *)
theory AsgNode
  imports AsgInvariant
begin

text \<open>
  The node as a transition system: the receive path, the work queues, the pacemaker and the clock
  act in any order.  The invariant of \<open>AsgInvariant\<close> is kept by every handler of the
  code, so it holds in every reachable state, and the commit index and the last index never fall.
\<close>

section \<open>Handlers keep the invariant\<close>

lemma core_view_term: "(\<And>p. sm_log (f p) = sm_log p \<and> nstate (f p) = nstate p) \<Longrightarrow>
    core_view (upd_con f d) = core_view d"
  by (simp add: core_view_def upd)

lemma core_view_nomination [simp]: "core_view (snd (check_handle_nomination d p1 p3 p4 rc)) = core_view d"
  by (simp add: check_handle_nomination_def Let_def core_view_term split: option.split)

lemma core_view_nominate [simp]: "core_view (snd (nominate d m pkt rc)) = core_view d"
  by (simp add: nominate_def)

lemma log_inv_con_view: "(\<And>p. sm_log (f p) = sm_log p) \<Longrightarrow> log_inv lo d \<Longrightarrow> log_inv lo (upd_con f d)"
  by (simp add: log_inv_upd_con)

lemma node_inv_accept_leader:
  assumes "node_inv lo d"
  shows "node_inv lo (accept_leader d lid cid trm)"
  unfolding accept_leader_def Let_def
  by (rule node_inv_transition) (simp_all add: log_inv_upd_con node_inv_log [OF assms])

lemma node_inv_event: "node_inv lo d \<Longrightarrow> node_inv lo (con_log_event ev d)"
  by (rule node_inv_view [OF core_view_event])

lemma node_inv_accept_vote:
  assumes "node_inv lo d"
  shows "node_inv lo (accept_vote d)"
proof -
  let ?d1 = "con_log_event CANDIDATE_ACCEPT_VOTE (upd_con (\<lambda>p. p\<lparr>votes := votes p + 1\<rparr>) d)"
  have d1: "node_inv lo ?d1"
    by (rule node_inv_view [OF _ assms]) (simp add: core_view_term)
  have t: "node_inv lo (snd (node_transition LEADER ?d1))"
    by (rule node_inv_transition [OF node_inv_log [OF d1]]) simp
  have "node_inv lo ((upd_con (\<lambda>p. p\<lparr>accu_rand := 0\<rparr>) (snd (node_transition LEADER ?d1)))\<lparr>cur_leader_lid := -1\<rparr>)"
    by (rule node_inv_view [OF _ t]) (simp add: core_view_term)
  moreover have "node_inv lo (upd_con (\<lambda>p. p\<lparr>candidate_counter := 0\<rparr>) ?d1)"
    by (rule node_inv_view [OF _ d1]) (simp add: core_view_term)
  ultimately show ?thesis unfolding accept_vote_def Let_def by (simp only: if_split simp_thms)
qed

lemmas node_inv_handlers =
  node_inv_accept_leader node_inv_event node_inv_accept_vote node_inv_commit
  node_inv_append [OF _ refl] node_inv_update_commit node_inv_check_pending

lemma node_inv_nominate: "node_inv lo d \<Longrightarrow> node_inv lo (snd (nominate d m pkt rc))"
  by (rule node_inv_view [OF core_view_nominate])

lemma node_inv_reply_vote: "node_inv lo d \<Longrightarrow> node_inv lo (reply_vote d lid p x)"
  by (rule node_inv_view [OF core_view_vote])

lemma node_inv_follower_pkt:
  assumes "node_inv lo d"
  shows "node_inv lo (follower_process_pkt d lid cid m pkt)"
  using assms
  by (simp add: follower_process_pkt_def Let_def node_inv_handlers node_inv_nominate node_inv_reply_vote
      split: option.split le_opcode.split prod.split)
    (metis node_inv_nominate node_inv_reply_vote snd_conv)

lemma node_inv_candidate_pkt:
  assumes "node_inv lo d"
  shows "node_inv lo (candidate_process_pkt d lid cid m pkt)"
proof -
  have "node_inv lo (snd (node_transition FOLLOWER (snd (nominate d m pkt cid))))"
    by (rule node_inv_transition [OF node_inv_log [OF node_inv_nominate [OF assms]]]) simp
  then show ?thesis
    using assms node_inv_nominate [OF assms, of m pkt cid]
    by (auto simp: candidate_process_pkt_def Let_def node_inv_handlers node_inv_reply_vote
        split: option.split le_opcode.split prod.split)
qed

lemma node_inv_queue_retransmission:
  "node_inv lo d \<Longrightarrow> node_inv lo (queue_retransmission lid i d)"
  by (simp add: queue_retransmission_def node_inv_def log_ok_def entries_ok_def upd)

lemma node_inv_leader_pkt:
  assumes "node_inv lo d"
  shows "node_inv lo (leader_process_pkt d lid cid m pkt)"
  using assms
  by (auto simp: leader_process_pkt_def Let_def node_inv_handlers node_inv_queue_retransmission
      intro!: node_inv_update_commit node_inv_upd_log split: option.split le_opcode.split)

lemma node_inv_consensus_payload:
  assumes "node_inv lo d"
  shows "node_inv lo (consensus_post_payload d lid cid m pkt pts)"
proof -
  have "node_inv lo (snd (write_in_hb_to_log d pts (int lid)))"
    by (rule node_inv_view [OF core_view_hb_log assms])
  then show ?thesis
    using assms unfolding consensus_post_payload_def Let_def
    by (simp add: node_inv_follower_pkt node_inv_candidate_pkt node_inv_leader_pkt split: node_state.split)
qed

lemma node_inv_start:
  assumes "node_inv lo d"
  shows "node_inv lo (snd (consensus_start d))"
  using assms unfolding consensus_start_def Let_def
  by (auto intro!: node_inv_transition log_inv_con_view simp: le_state_transition_to_def node_inv_log)

lemma node_inv_stop:
  assumes "node_inv lo d"
  shows "node_inv lo (snd (consensus_stop d))"
proof -
  have "core_view (set_all_targets_dead (le_state_transition_to LE_READY c)) = core_view c" for c
    by (simp add: set_all_targets_dead_def for_targets_frame [of core_view] le_state_transition_to_def core_view_term)
  from node_inv_view [OF this node_inv_stop_role [OF assms]] assms show ?thesis
    by (simp add: consensus_stop_def)
qed

lemma node_inv_start_proto: "node_inv lo d \<Longrightarrow> node_inv lo (start_proto i d)"
  by (simp add: start_proto_def node_inv_start node_inv_cong [of "snd (pingpong_start d)" d]
      split: option.split asgard_protocol_type.split)

lemma node_inv_stop_proto: "node_inv lo d \<Longrightarrow> node_inv lo (stop_proto i d)"
  by (simp add: stop_proto_def node_inv_stop node_inv_cong [of "snd (pingpong_stop d)" d]
      split: option.split asgard_protocol_type.split)

lemma fold_inv: "P d \<Longrightarrow> (\<And>i d. P d \<Longrightarrow> P (f i d)) \<Longrightarrow> P (fold f xs d)"
  by (induction xs arbitrary: d) auto

lemma node_inv_update_leader:
  assumes "node_inv lo d"
  shows "node_inv lo (update_leader d)"
  using assms node_inv_candidature [OF assms]
  by (simp add: update_leader_def Let_def node_inv_event
      node_inv_cong [of "upd_con (\<lambda>p. p\<lparr>candidate_counter := c p\<rparr>) d" d for c] core_view_term)

lemma node_inv_warmup:
  assumes "node_inv lo d"
  shows "node_inv lo (snd (check_warmup_state d))"
proof -
  have "node_inv lo (fold start_proto xs d)" for xs
    by (rule fold_inv [of "node_inv lo", OF assms]) (rule node_inv_start_proto)
  then have "node_inv lo ((fold start_proto xs d)\<lparr>warmup_state := WARMED_UP\<rparr>)" for xs
    by (rule node_inv_view [rotated]) simp
  with assms show ?thesis by (simp add: check_warmup_state_def Let_def node_inv_update_leader)
qed

section \<open>The pacemaker and the receive path\<close>

lemma node_inv_scheduled_work:
  assumes "node_inv lo d"
  shows "node_inv lo (scheduled_work d)"
proof -
  let ?d4 = "for_targets update_aliveness_states (for_targets pre_hb_hb
      (snd (emit_pkts_scheduled (d\<lparr>hb_interval := hb_interval d + 1\<rparr>))))"
  have "core_view ?d4 = core_view d"
    by (simp add: for_targets_frame [of core_view] core_view_emission)
  from node_inv_view [OF this assms] show ?thesis
    by (simp add: scheduled_work_def Let_def node_inv_check_pending node_inv_update_leader)
qed

lemma node_inv_turn:
  assumes "node_inv lo d"
  shows "node_inv lo (snd (pacemaker_turn iv prev d))"
proof -
  have e: "core_view (snd (emit_result prev r)) = core_view (snd r)" for r
    by (cases r) (simp add: emit_result_def asgard_pm_stop_eq)
  show ?thesis
    using assms node_inv_scheduled_work [OF assms]
    by (simp add: pacemaker_turn_def Let_def node_inv_cong [OF trans [OF e], OF core_view_emission(2)]
        node_inv_cong [OF trans [OF e], OF core_view_emission(3)]
        node_inv_cong [OF trans [OF e], OF core_view_emission(4)]
        node_inv_cong [of "pm_state_transition_to s d" d for s])
qed

lemma node_inv_post: "node_inv lo d \<Longrightarrow> node_inv lo (post_payload ins d lid cid m p ots pts)"
  by (simp add: post_payload_def node_inv_consensus_payload
      node_inv_cong [of "pingpong_post_payload i d l m p ots" d for i l] split: asgard_protocol_type.split)

lemma node_inv_sub_loop:
  "node_inv lo d \<Longrightarrow> node_inv lo (sub_loop n cur b m lid cid ots pts d)"
proof (induction n arbitrary: cur b d)
  case (Suc n)
  have "node_inv lo (case get_proto_instance d k of None \<Rightarrow> d | Some ins \<Rightarrow> post_payload ins d lid cid m 0 ots pts)" for k
    using Suc.prems by (simp add: node_inv_post split: option.split)
  with Suc show ?case by (simp add: Let_def)
qed simp

lemma node_inv_packet_work: "node_inv lo d \<Longrightarrow> node_inv lo (pkt_process_handler aw d)"
  by (simp add: pkt_process_handler_def handle_sub_payloads_def node_inv_sub_loop)

lemma node_inv_do_post:
  assumes "node_inv lo d"
  shows "node_inv lo (snd (do_post_payload ms d rl rc u b ots))"
proof -
  have ci: "node_inv lo (e\<lparr>ci := update_cluster_member now (ci e) l s\<rparr>)" if "node_inv lo e" for e now l s
    using that by (simp add: node_inv_def)
  have "node_inv lo (upd_target l f d)" for l f by (rule node_inv_view [OF core_view_upd_target assms])
  from node_inv_warmup [OF ci [OF this]]
  show ?thesis
    using assms by (auto simp: do_post_payload_def Let_def split_beta
        node_inv_cong [of "snd (register_peer_by_ip d l ip cid)" d for l ip cid])
qed

lemma node_inv_receive:
  "node_inv lo d \<Longrightarrow> node_inv lo (snd (asgard_post_payload ms d frame hr b ots))"
  by (simp add: asgard_post_payload_def Let_def split_beta node_inv_do_post)

section \<open>The transition system\<close>

text \<open>A node with its queue of packet work items.  A frame is received and may leave a work item; a
  worker takes any queued item; the leader's work queue is served in order; the pacemaker takes a
  turn, with an interval and the time of its last beat; time passes.\<close>

type_synonym node = "asgard_device \<times> pkt_work list"

inductive node_step :: "node \<Rightarrow> node \<Rightarrow> bool" where
  receive: "asgard_post_payload ms d frame hr bcnt ots = (w, d') \<Longrightarrow>
     node_step (d, ws) (d', ws @ (case w of None \<Rightarrow> [] | Some aw \<Rightarrow> [aw]))"
| packet_work: "node_step (d, ws1 @ aw # ws2) (pkt_process_handler aw d, ws1 @ ws2)"
| leader_work: "node_step (d, ws) (run_leader_work d, ws)"
| pacemaker: "pacemaker_turn iv prev d = (r, d') \<Longrightarrow> node_step (d, ws) (d', ws)"
| tick: "clock d \<le> t \<Longrightarrow> node_step (d, ws) (d\<lparr>clock := t\<rparr>, ws)"

inductive_cases node_step_elim: "node_step (d, ws) (d', ws')"
lemmas node_step_cases [consumes 1, case_names receive packet_work leader_work pacemaker tick] = node_step_elim
inductive_simps node_step_simps: "node_step (d, ws) y"

inductive node_reach :: "node \<Rightarrow> node \<Rightarrow> bool" for s where
  reach_refl: "node_reach s s"
| reach_step: "node_reach s x \<Longrightarrow> node_step x y \<Longrightarrow> node_reach s y"

lemma node_step_inv:
  assumes "node_step (d, ws) (d', ws')" and inv: "node_inv lo d"
  shows "node_inv lo d'"
  using assms(1)
proof (cases rule: node_step_cases)
  case (receive ms frame hr bcnt ots w)
  then show ?thesis using node_inv_receive [OF inv] by (metis snd_conv)
next
  case (packet_work ws1 aw ws2)
  then show ?thesis using node_inv_packet_work [OF inv] by simp
next
  case leader_work
  then show ?thesis using node_inv_leader_work [OF inv] by simp
next
  case (pacemaker iv prev r)
  then show ?thesis using node_inv_turn [OF inv] by (metis snd_conv)
next
  case (tick t)
  then show ?thesis using inv node_inv_cong [of "d\<lparr>clock := t\<rparr>" d] by simp
qed

lemma node_reach_inv: "node_reach s x \<Longrightarrow> node_inv lo (fst s) \<Longrightarrow> node_inv lo (fst x)"
proof (induction rule: node_reach.induct)
  case (reach_step x y)
  then show ?case using node_step_inv [of "fst x" "snd x" "fst y" "snd y" lo] by simp
qed simp

text \<open>C2: In every state a node reaches from an initialised one, by receiving frames of any content,
  running its work items in any order, turning its pacemaker and letting time pass, the indices of
  its log are ordered, neither the commit nor the last index has fallen, only a leader has the leader
  flag, and the role shown to user space is the node's role.\<close>

theorem reachable_node:
  assumes "node_reach s x" and "node_inv lo (fst s)"
  shows "-1 \<le> last_applied (the_log (fst x)) \<and> last_applied (the_log (fst x)) \<le> commit_idx (the_log (fst x))
     \<and> commit_idx (the_log (fst x)) \<le> last_idx (the_log (fst x))
     \<and> commit_idx (the_log (fst s)) \<le> commit_idx (the_log (fst x))
     \<and> last_idx (the_log (fst s)) \<le> last_idx (the_log (fst x))
     \<and> (is_leader (fst x) \<noteq> 0 \<longrightarrow> nstate (con (fst x)) = LEADER)
     \<and> ci_node_state (ci (fst x)) = state_code (nstate (con (fst x)))"
proof -
  have "node_inv (commit_idx (the_log (fst s)), last_idx (the_log (fst s))) (fst s)"
    using assms(2) by (simp add: node_inv_def log_ok_def)
  from node_reach_inv [OF assms(1) this] show ?thesis by (simp add: node_inv_def log_ok_def)
qed

theorem reachable_node_witness:
  "last_idx (the_log (sample_node LEADER 4)) \<le> last_idx (the_log (run_leader_work (sample_node LEADER 4)))
   \<and> ci_node_state (ci (run_leader_work (sample_node LEADER 4)))
       = state_code (nstate (con (run_leader_work (sample_node LEADER 4))))"
proof -
  let ?d = "sample_node LEADER 4"
  have "node_reach (?d, []) (run_leader_work ?d, [])"
    by (rule reach_step [OF reach_refl leader_work])
  moreover have "node_inv (-1, 0) ?d"
    by (simp add: node_inv_def log_ok_def entries_ok_def sample)
  ultimately show ?thesis using reachable_node [of "(?d, [])" "(run_leader_work ?d, [])"] by simp
qed

end
