(* ===== verification/AsgCommit.thy ===== *)
theory AsgCommit
  imports AsgNode
begin

text \<open>
  What a leader commits (\<open>update_commit_idx\<close> and \<open>is_potential_commit_idx\<close> of \<open>core/leader.c\<close>) and
  how it serves requests for retransmission (\<open>queue_retransmission\<close>, \<open>get_next_idx_for_target\<close>).
\<close>

section \<open>Commit\<close>

lemma potential_commit_all:
  "is_potential_commit_idx d N \<longleftrightarrow> (\<forall>i < targets d. alive (target d i) \<noteq> 0 \<longrightarrow> N \<le> match_index (the_log d) i)"
proof -
  let ?P = "\<lambda>i. alive (target d i) = 0 \<or> match_index (the_log d) i \<ge> N"
  have "length (filter ?P [0..<n]) \<ge> n \<longleftrightarrow> (\<forall>i < n. ?P i)" for n
  proof (induction n)
    case (Suc n)
    have "length (filter ?P [0..<n]) \<le> n" using length_filter_le [of ?P "[0..<n]"] by simp
    with Suc show ?case by (auto simp: less_Suc_eq)
  qed simp
  then show ?thesis by (auto simp: is_potential_commit_idx_def)
qed

text \<open>A match index that may be committed: it is in the log with the current term, and every living
  target has it.\<close>

definition committable :: "asgard_device \<Rightarrow> int \<Rightarrow> bool" where
  "committable d N \<longleftrightarrow> e_term (log_at (the_log d) N) = to_u32 (con_term (con d))
     \<and> is_potential_commit_idx d N"

lemma log_entries_at: "entries_ok l \<Longrightarrow> log_entries l (consensus_idx_to_buffer_idx l N) = Some (log_at l N)"
  using con2buf_range [of l N] by (auto simp: entries_ok_def log_at_def entry_at_def)

lemma commit_scan_blocked:
  "entries_ok (the_log d) \<Longrightarrow>
   commit_scan d is N = None \<longleftrightarrow>
     (\<exists>i \<in> set is. match_index (the_log d) i = -1 \<or> last_idx (the_log d) < match_index (the_log d) i)"
proof (induction d "is" N rule: commit_scan.induct)
  case (2 d i "is" N)
  note b = con2buf_range [of "the_log d" "match_index (the_log d) i"]
  have mx: "max_entries (the_log d) = MAX_CONSENSUS_LOG" using 2(2) by (simp add: entries_ok_def)
  show ?case
    using 2 b [OF mx] log_entries_at [OF 2(2), of "match_index (the_log d) i"] by (auto simp: Let_def)
qed simp

lemma commit_scan_max:
  assumes "entries_ok (the_log d)" and "commit_scan d is N = Some N'"
  shows "N' = fold (\<lambda>i N. if committable d (match_index (the_log d) i) \<and> N < match_index (the_log d) i
                         then match_index (the_log d) i else N) is N"
  using assms
proof (induction d "is" N rule: commit_scan.induct)
  case (2 d i "is" N)
  let ?k = "match_index (the_log d) i"
  have mx: "max_entries (the_log d) = MAX_CONSENSUS_LOG" using 2(2) by (simp add: entries_ok_def)
  have g: "?k \<noteq> -1" "\<not> last_idx (the_log d) < ?k"
    using 2(3) by (auto simp: Let_def split: if_splits)
  let ?M = "if e_term (log_at (the_log d) ?k) = to_u32 (con_term (con d)) \<and> is_potential_commit_idx d ?k
            \<and> ?k > N then ?k else N"
  have run: "commit_scan d (i # is) N = commit_scan d is ?M"
    using g con2buf_range [OF mx, of ?k] log_entries_at [OF 2(2), of ?k] by (simp add: Let_def)
  have "N' = fold (\<lambda>i N. if committable d (match_index (the_log d) i) \<and> N < match_index (the_log d) i
                         then match_index (the_log d) i else N) is ?M"
    using "2.IH" [OF refl g refl _ log_entries_at [OF 2(2)] 2(2)] con2buf_range [OF mx, of ?k] 2(3) run by simp
  then show ?case by (simp add: committable_def conj_assoc)
qed simp

lemma fold_pick_max:
  fixes N :: int
  shows "(let R = fold (\<lambda>i N. if P (f i) \<and> N < f i then f i else N) xs N
     in N \<le> R \<and> (R = N \<or> R \<in> f ` set xs \<and> P R) \<and> (\<forall>i \<in> set xs. P (f i) \<longrightarrow> f i \<le> R))"
proof (induction xs arbitrary: N)
  case (Cons x xs)
  show ?case using Cons [of "if P (f x) \<and> N < f x then f x else N"]
    by (auto simp: Let_def split: if_splits)
qed (simp add: Let_def)

text \<open>The new commit index: the largest committable match index above the old one, if every target
  has a match index inside the log, otherwise the old one.\<close>

lemma commit_idx_after:
  assumes ok: "entries_ok (the_log d)" and mc: "mc_enable (mc d) = 0"
  shows "commit_idx (the_log (update_commit_idx d)) =
     (case commit_scan d [0..<targets d] (-1) of None \<Rightarrow> commit_idx (the_log d)
      | Some N \<Rightarrow> max N (commit_idx (the_log d)))"
  using mc
  by (auto simp: update_commit_idx_def Let_def invalidate_frame upd max_def split: option.split)

text \<open>C5: When the leader raises its commit index, the new index is in the log with an entry of the
  current term, and every living target has acknowledged it.\<close>

theorem committed_everywhere:
  assumes ok: "entries_ok (the_log d)" and mc: "mc_enable (mc d) = 0" and "-1 \<le> commit_idx (the_log d)"
    and new: "commit_idx (the_log (update_commit_idx d)) \<noteq> commit_idx (the_log d)"
  shows "commit_idx (the_log d) < commit_idx (the_log (update_commit_idx d))
     \<and> commit_idx (the_log (update_commit_idx d)) \<le> last_idx (the_log d)
     \<and> e_term (log_at (the_log d) (commit_idx (the_log (update_commit_idx d)))) = to_u32 (con_term (con d))
     \<and> (\<forall>i < targets d. alive (target d i) \<noteq> 0 \<longrightarrow>
          commit_idx (the_log (update_commit_idx d)) \<le> match_index (the_log d) i)"
proof -
  let ?c = "commit_idx (the_log (update_commit_idx d))"
  obtain N where N: "commit_scan d [0..<targets d] (-1) = Some N" "?c = N" "commit_idx (the_log d) < N"
    using new commit_idx_after [OF ok mc] by (auto split: option.splits simp: max_def split: if_splits)
  have mi: "i < targets d \<Longrightarrow> match_index (the_log d) i \<le> last_idx (the_log d)" for i
    using N(1) commit_scan_blocked [OF ok, of "[0..<targets d]" "-1"] by force
  from fold_pick_max [of "committable d" "match_index (the_log d)" "[0..<targets d]" "-1"]
    commit_scan_max [OF ok N(1)] N(2,3) assms(3)
  have "N \<in> match_index (the_log d) ` {0..<targets d} \<and> committable d N" by (auto simp: Let_def)
  then show ?thesis using N mi by (auto simp: committable_def potential_commit_all)
qed

lemma commits_when_replicated:
  assumes ok: "entries_ok (the_log d)" and mc: "mc_enable (mc d) = 0"
    and m: "\<And>j. j < targets d \<Longrightarrow> 0 \<le> match_index (the_log d) j \<and> match_index (the_log d) j \<le> last_idx (the_log d)"
    and i: "i < targets d" "committable d (match_index (the_log d) i)"
  shows "match_index (the_log d) i \<le> commit_idx (the_log (update_commit_idx d))"
proof -
  have "commit_scan d [0..<targets d] (-1) \<noteq> None"
    using commit_scan_blocked [OF ok, of "[0..<targets d]" "-1"] m by force
  then obtain N where N: "commit_scan d [0..<targets d] (-1) = Some N" by auto
  from fold_pick_max [of "committable d" "match_index (the_log d)" "[0..<targets d]" "-1"]
    commit_scan_max [OF ok N] i
  have "match_index (the_log d) i \<le> N" by (auto simp: Let_def)
  then show ?thesis using commit_idx_after [OF ok mc] N by simp
qed

theorem committed_everywhere_witness:
  "commit_idx (the_log (update_commit_idx (upd_log (\<lambda>l. l\<lparr>match_index := (\<lambda>i. int i + 1)\<rparr>) (sample_node LEADER 4)))) = 1"
proof -
  let ?d = "upd_log (\<lambda>l. l\<lparr>match_index := (\<lambda>i. int i + 1)\<rparr>) (sample_node LEADER 4)"
  have ok: "entries_ok (the_log ?d)" "mc_enable (mc ?d) = 0" "-1 \<le> commit_idx (the_log ?d)"
    by (simp_all add: sample entries_ok_def upd)
  have t: "targets ?d = 2" "\<And>i. alive (target ?d i) = 1" "match_index (the_log ?d) = (\<lambda>i. int i + 1)"
    "commit_idx (the_log ?d) = -1"
    by (simp_all add: sample upd)
  have "committable ?d (match_index (the_log ?d) 0)"
    by (simp add: committable_def potential_commit_all t sample upd log_at_def entry_at_def con2buf MAX_CONSENSUS_LOG_def)
  then have commits: "match_index (the_log ?d) 0 \<le> commit_idx (the_log (update_commit_idx ?d))"
    by (intro commits_when_replicated [OF ok(1,2)]) (simp_all add: t sample upd)
  show ?thesis
    using committed_everywhere [OF ok] commits t by (auto dest: spec [of _ 0])
qed

text \<open>C14: A target that has acknowledged nothing yet blocks every commit, even when it is dead.\<close>

theorem silent_target_blocks_commit:
  assumes "entries_ok (the_log d)" and "i < targets d" and "match_index (the_log d) i = -1"
  shows "update_commit_idx d = d"
proof -
  have "commit_scan d [0..<targets d] (-1) = None"
    using commit_scan_blocked [OF assms(1), of "[0..<targets d]" "-1"] assms(2,3) by force
  then show ?thesis by (simp add: update_commit_idx_def)
qed

theorem silent_target_blocks_commit_witness:
  "update_commit_idx (upd_target 1 (\<lambda>t. t\<lparr>alive := 0\<rparr>) (sample_node LEADER 4))
     = upd_target 1 (\<lambda>t. t\<lparr>alive := 0\<rparr>) (sample_node LEADER 4)"
  by (rule silent_target_blocks_commit [of _ 1]) (simp_all add: sample entries_ok_def upd)

section \<open>The reply of a follower\<close>

lemma queue_retransmission_match:
  "match_index (the_log (queue_retransmission t i d)) = match_index (the_log d)"
  by (simp add: queue_retransmission_def upd)

text \<open>A successful reply sets the sender's match index and may commit; a reply about an index the
  leader does not have is dropped.\<close>

lemma success_reply:
  assumes "pkt_opcode m pkt = Some APPEND_REPLY" and "GET_CON_PROTO_PARAM2_VAL m pkt = 1"
    and "GET_CON_PROTO_PARAM4_VAL m pkt \<le> last_idx (the_log d)"
  shows "leader_process_pkt d lid cid m pkt = update_commit_idx
    (upd_log (\<lambda>l. l\<lparr>match_index := (match_index l)(lid := GET_CON_PROTO_PARAM4_VAL m pkt)\<rparr>) d)"
  using assms by (simp add: leader_process_pkt_def Let_def)

section \<open>Retransmission requests\<close>

definition serve_retransmission :: "nat \<Rightarrow> asgard_device \<Rightarrow> int option \<times> asgard_device" where
  "serve_retransmission t d =
     (let (idx, retrans, d') = get_next_idx_for_target d t
      in (if retrans = 1 then Some idx else None, d'))"

definition retrans_ok :: "nat \<Rightarrow> asgard_device \<Rightarrow> bool" where
  "retrans_ok t d \<longleftrightarrow> distinct (retrans_list (the_log d) t)
     \<and> retrans_entries (the_log d) t = int (length (retrans_list (the_log d) t))"

interpretation rt: request_list "queue_retransmission t" "serve_retransmission t"
    "\<lambda>d. retrans_list (the_log d) t" "retrans_ok t" for t
proof unfold_locales
  fix d x
  assume ok: "retrans_ok t d"
  then show "distinct (retrans_list (the_log d) t)" by (simp add: retrans_ok_def)
  from ok show "retrans_ok t (queue_retransmission t x d)"
    by (auto simp: retrans_ok_def queue_retransmission_def upd)
  from ok show "retrans_list (the_log (queue_retransmission t x d)) t =
      (if x \<in> set (retrans_list (the_log d) t) then retrans_list (the_log d) t
       else retrans_list (the_log d) t @ [x])"
    by (simp add: queue_retransmission_def upd)
  from ok show "serve_retransmission t d = (None, d)" if "retrans_list (the_log d) t = []"
    using that by (simp add: serve_retransmission_def get_next_idx_for_target_def retrans_ok_def)
  from ok show "fst (serve_retransmission t d) = Some x \<and> retrans_list (the_log (snd (serve_retransmission t d))) t = xs
      \<and> retrans_ok t (snd (serve_retransmission t d))" if "retrans_list (the_log d) t = x # xs" for xs
    using that by (auto simp: serve_retransmission_def get_next_idx_for_target_def retrans_ok_def upd)
qed

text \<open>C11: The indices a target asks to have sent again are served in the order of the requests, each
  once however often it was asked for, and none is forgotten.\<close>

theorem retransmissions_served:
  assumes "retrans_ok t d" and "retrans_list (the_log d) t = []"
  shows "set (fst (rt.serve_all t (length (retrans_list (the_log (fold (queue_retransmission t) xs d)) t))
             (fold (queue_retransmission t) xs d))) = set xs
     \<and> distinct (fst (rt.serve_all t (length (retrans_list (the_log (fold (queue_retransmission t) xs d)) t))
             (fold (queue_retransmission t) xs d)))
     \<and> fst (rt.serve_all t (length (retrans_list (the_log (fold (queue_retransmission t) xs d)) t))
             (fold (queue_retransmission t) xs d)) = rev (remdups (rev xs))"
  using rt.requests_served [OF assms, of xs] rt.fold_req [OF assms(1), of xs]
    rt.serve_all_spec [of t "fold (queue_retransmission t) xs d"] assms(2) by simp

theorem retransmissions_served_witness:
  "fst (rt.serve_all 1 (length (retrans_list (the_log (fold (queue_retransmission 1) [7, 5, 7] (sample_node LEADER 9))) 1))
       (fold (queue_retransmission 1) [7, 5, 7] (sample_node LEADER 9))) = [7, 5]"
  using retransmissions_served [of 1 "sample_node LEADER 9" "[7, 5, 7]"] by (simp add: retrans_ok_def sample)

lemma retrans_ok_clean: "t < targets d \<Longrightarrow> retrans_ok t d \<Longrightarrow> retrans_ok t (clean_request_transmission_lists d)"
proof -
  assume t: "t < targets d" and ok: "retrans_ok t d"
  have "retrans_list (the_log e) t = [] \<and> retrans_entries (the_log e) t = 0 \<or> retrans_ok t e \<Longrightarrow>
    retrans_list (the_log e') t = [] \<and> retrans_entries (the_log e') t = 0 \<or> retrans_ok t e'"
    if "e' = upd_log (\<lambda>l. l\<lparr>
     retrans_entries := (retrans_entries l)(i := retrans_entries l i - int (length (retrans_list l i))),
     retrans_list := (retrans_list l)(i := [])\<rparr>) e" for e e' i
    unfolding that by (auto simp: retrans_ok_def)
  then have "retrans_ok t (clean_request_transmission_lists d)
    \<or> (retrans_list (the_log (clean_request_transmission_lists d)) t = []
       \<and> retrans_entries (the_log (clean_request_transmission_lists d)) t = 0)"
    unfolding clean_request_transmission_lists_def
    by (intro for_targets_inv [where P = "\<lambda>e. retrans_ok t e \<or> (retrans_list (the_log e) t = [] \<and> retrans_entries (the_log e) t = 0)"])
      (use ok in \<open>auto simp: retrans_ok_def\<close>)
  then show ?thesis by (auto simp: retrans_ok_def)
qed

end
