(* ===== verification/AsgReplicate.thy ===== *)
theory AsgReplicate
  imports AsgCommit
begin

text \<open>
  Replication from end to end: the packets a leader queues for a target, handled in order by that
  target as \<open>follower_process_pkt\<close> does, make the target's log a copy of the leader's, and its
  answers let the leader commit.
\<close>

section \<open>What committing leaves of the log\<close>

definition same_commands :: "consensus_priv \<Rightarrow> consensus_priv \<Rightarrow> bool" where
  "same_commands p p' \<longleftrightarrow> (\<forall>b. e_data (entry_at (sm_log p') b) = e_data (entry_at (sm_log p) b)
       \<and> e_term (entry_at (sm_log p') b) = e_term (entry_at (sm_log p) b))
     \<and> max_entries (sm_log p') = max_entries (sm_log p) \<and> stable_idx (sm_log p') = stable_idx (sm_log p)
     \<and> last_idx (sm_log p') = last_idx (sm_log p)
     \<and> next_retrans_req_idx (sm_log p') = next_retrans_req_idx (sm_log p)
     \<and> leader_id p' = leader_id p \<and> con_term p' = con_term p
     \<and> (entries_ok (sm_log p) \<longrightarrow> entries_ok (sm_log p'))"

lemma same_commands_refl [simp]: "same_commands p p"
  by (simp add: same_commands_def)

lemma same_commands_trans [trans]: "same_commands p q \<Longrightarrow> same_commands q r \<Longrightarrow> same_commands p r"
  by (simp add: same_commands_def)

lemma same_commands_apply_one: "same_commands p (snd (apply_one p i))"
  by (auto simp: same_commands_def apply_one_def Let_def split_beta set_entry_def entry_at_def entries_ok_def)

lemma same_commands_apply_loop: "same_commands p (snd (apply_loop p i))"
proof (induction p i rule: apply_loop.induct)
  case (1 p i)
  show ?case
    by (subst apply_loop.simps)
      (use 1 same_commands_apply_one [of p i] same_commands_trans [OF same_commands_apply_one [of p i]] in auto)
qed

lemma same_commands_commit: "same_commands p (commit_log_priv b now p c)"
proof -
  have fields: "same_commands q (q\<lparr>sm_log := (sm_log q)\<lparr>commit_idx := c\<rparr>\<rparr>)"
    "same_commands q (q\<lparr>throughput_logger := t\<rparr>)" for q c t
    by (simp_all add: same_commands_def entry_at_def entries_ok_def)
  have logged: "same_commands q (r\<lparr>ins_logger := l\<rparr>) = same_commands q r" for q r l
    by (simp add: same_commands_def)
  have "same_commands q (snd (apply_log_to_sm now q))" for q
  proof (cases "rxbuf q")
    case (Some rx)
    then obtain t where "apply_log_to_sm now q =
        apply_loop (q\<lparr>throughput_logger := t\<rparr>) (last_applied (sm_log q) + 1)"
      by (simp add: apply_log_to_sm_def get_rx_buffer_def Let_def)
    then show ?thesis using same_commands_trans [OF fields(2) same_commands_apply_loop] by simp
  qed (simp add: apply_log_to_sm_def get_rx_buffer_def Let_def fields)
  from same_commands_trans [OF fields(1) this] show ?thesis
    by (auto simp: commit_log_priv_def split_beta logged)
qed

lemma same_commands_at:
  assumes "same_commands p p'"
  shows "e_data (log_at (sm_log p') j) = e_data (log_at (sm_log p) j)"
    and "e_term (log_at (sm_log p') j) = e_term (log_at (sm_log p) j)"
    and "log_data (sm_log p') i j = log_data (sm_log p) i j"
    and "chunks_ok (sm_log p) \<Longrightarrow> chunks_ok (sm_log p')"
proof -
  have b: "consensus_idx_to_buffer_idx (sm_log p') k = consensus_idx_to_buffer_idx (sm_log p) k" for k
    using assms by (intro con2buf_cong) (simp add: same_commands_def)
  show "e_data (log_at (sm_log p') j) = e_data (log_at (sm_log p) j)"
    "e_term (log_at (sm_log p') j) = e_term (log_at (sm_log p) j)"
    "log_data (sm_log p') i j = log_data (sm_log p) i j"
    using assms by (simp_all add: same_commands_def log_at_def log_data_def b)
  show "chunks_ok (sm_log p) \<Longrightarrow> chunks_ok (sm_log p')"
    using assms by (simp add: same_commands_def chunks_ok_def)
qed

lemma accepting_commit:
  assumes "accepting d cid L"
  shows "accepting (commit_log d c) cid L"
proof -
  let ?p' = "commit_log_priv (mc_enable (mc d)) (clock d) (con d) c"
  note s = same_commands_commit [of "con d" "mc_enable (mc d)" "clock d" c]
  have "log_chain (sm_log ?p')"
    using commit_log_priv_chain(1) [of "con d" "clock d" c] assms by (simp add: accepting_def)
  with s assms same_commands_at(4) [OF s] show ?thesis
    by (simp add: accepting_def commit_log_def same_commands_def) (simp add: upd)
qed

section \<open>One packet\<close>

text \<open>A follower with a copy of the leader's log up to \<open>k - 1\<close>, in the leader's term.\<close>

definition copy_upto :: "asgard_device \<Rightarrow> asgard_device \<Rightarrow> int \<Rightarrow> int \<Rightarrow> bool" where
  "copy_upto ldr f cid k \<longleftrightarrow> accepting f cid (k - 1) \<and> con_term (con f) = con_term (con ldr)
     \<and> log_data (the_log f) 0 (k - 1) = log_data (the_log ldr) 0 (k - 1)
     \<and> (k = 0 \<or> e_term (log_at (the_log f) (k - 1)) = e_term (log_at (the_log ldr) (k - 1)))"

text \<open>Every entry from \<open>k\<close> on was appended in the leader's current term.\<close>

definition in_term_from :: "asgard_device \<Rightarrow> int \<Rightarrow> bool" where
  "in_term_from d k \<longleftrightarrow> (\<forall>j. k \<le> j \<and> j \<le> last_idx (the_log d) \<longrightarrow>
     e_term (log_at (the_log d) j) = to_u32 (con_term (con d)))"

lemma prev_term_at:
  assumes "sending d t k" and "k \<le> last_idx (the_log d)" and "0 < k"
  shows "to_u32 (get_prev_log_term (con d) (k - 1)) = e_term (log_at (the_log d) (k - 1))"
proof -
  let ?l = "the_log d"
  have k: "0 \<le> k - 1" "k - 1 < MAX_CONSENSUS_LOG" "k - 1 \<le> last_idx ?l"
    using assms by (auto simp: sending_def)
  have m: "max_entries ?l = MAX_CONSENSUS_LOG" and e: "log_entries ?l (k - 1) = Some (entry_at ?l (k - 1))"
    using assms k by (auto simp: sending_def chunks_ok_def entries_ok_def entry_at_def)
  have b: "consensus_idx_to_buffer_idx ?l (k - 1) = k - 1"
    using con2buf_nonneg [OF m, of "k - 1"] k by (simp add: MAX_CONSENSUS_LOG_def)
  have "0 \<le> e_term (entry_at ?l (k - 1))" "e_term (entry_at ?l (k - 1)) \<le> 2147483647"
    using assms k by (simp_all add: sending_def)
  then have "to_u32 (to_s32 (e_term (entry_at ?l (k - 1)))) = e_term (entry_at ?l (k - 1))"
    by (simp add: cint)
  moreover have "get_prev_log_term (con d) (k - 1) = to_s32 (e_term (entry_at ?l (k - 1)))"
    using e k assms(3) by (simp add: get_prev_log_term_def b)
  ultimately show ?thesis by (simp add: log_at_def b)
qed

lemma payload_continues:
  assumes snd: "sending ldr t k" and k: "k \<le> last_idx (the_log ldr)" and copy: "copy_upto ldr f cid k"
  shows "continues f (k - 1) (ae_count ldr k) (proto_data (append_payload ldr inst k)) 0"
    and "ae_cmds (proto_data (append_payload ldr inst k)) 0 =
           log_data (the_log ldr) k (k + ae_count ldr k - 1)"
    and "pkt_opcode (proto_data (append_payload ldr inst k)) 0 = Some APPEND"
    and "to_s32 (GET_CON_PROTO_PARAM1_VAL (proto_data (append_payload ldr inst k)) 0) =
           to_s32 (con_term (con ldr))"
proof -
  let ?c = "ae_count ldr k" and ?l = "the_log ldr"
  have pre: "chunks_ok ?l" "0 \<le> k" "0 < max_entries_per_pkt (con ldr)"
    "max_entries_per_pkt (con ldr) \<le> MAX_AE_ENTRIES_PER_PKT" "last_idx ?l < MAX_CONSENSUS_LOG"
    using snd by (auto simp: sending_def)
  have c: "0 < ?c" "?c < 4294967296" "k + (?c - 1) \<le> last_idx ?l" "?c \<le> MAX_AE_ENTRIES_PER_PKT"
    using pre k by (auto simp: ae_count_def size_defs)
  have last: "last_idx ?l < 2147483648" using pre(5) by (simp add: MAX_CONSENSUS_LOG_def)
  note f = set_ae_data_fields [OF pre(1) c(1,2) pre(2) c(3) last refl]
  have off: "GET_PROTO_OFFSET_VAL (st_u16 (st_u16 (\<lambda>_. 0) 0 (to_u16 inst)) 2 v) 0 = v"
    if "0 \<le> v" "v < 65536" for v
    using that by (simp add: get_defs numeral_2_eq_2)
  have trm: "k = 0 \<or> e_term (log_at (the_log f) (k - 1)) = to_u32 (get_prev_log_term (con ldr) (k - 1))"
    using copy prev_term_at [OF snd k] pre(2) by (cases "k = 0") (simp_all add: copy_upto_def)
  have param1: "GET_CON_PROTO_PARAM1_VAL m q = GET_CON_AE_TERM_VAL m q" for m q
    by (simp add: get_defs eval_nat_numeral)
  show "continues f (k - 1) ?c (proto_data (append_payload ldr inst k)) 0"
    using c last pre(2) trm by (auto simp: continues_def append_payload_def f off size_defs)
  show "ae_cmds (proto_data (append_payload ldr inst k)) 0 = log_data ?l k (k + ?c - 1)"
    using set_ae_data_cmds [OF pre(1) c(1,2) pre(2) c(3) last] by (simp add: append_payload_def)
  show "pkt_opcode (proto_data (append_payload ldr inst k)) 0 = Some APPEND"
    by (simp add: pkt_opcode_def append_payload_def f(1)) (simp add: opcode_of_def)
  show "to_s32 (GET_CON_PROTO_PARAM1_VAL (proto_data (append_payload ldr inst k)) 0) = to_s32 (con_term (con ldr))"
    using f(2) by (simp add: append_payload_def param1)
qed

lemma follower_append:
  assumes "pkt_opcode m pkt = Some APPEND" and "leader_id (con f) = to_u32 cid"
    and "to_s32 (GET_CON_PROTO_PARAM1_VAL m pkt) = con_term (con f)"
  shows "follower_process_pkt f lid cid m pkt = commit_log (handle_append_rpc f m pkt lid cid)
           (GET_CON_AE_PREV_LEADER_COMMIT_IDX_VAL m pkt)"
  using assms by (simp add: follower_process_pkt_def Let_def)

text \<open>Whatever the terms of the leader's entries: a packet brings the commands, and every entry it
  brings gets the term of the leader, not the term it has in the leader's log.\<close>

lemma stamped_step:
  assumes snd: "sending ldr t k" and k: "k \<le> last_idx (the_log ldr)" and copy: "copy_upto ldr f cid k"
    and trm: "is_s32 (con_term (con ldr))"
    and f': "f' = follower_process_pkt f lid cid (proto_data (append_payload ldr inst k)) 0"
  shows "accepting f' cid (k + ae_count ldr k - 1)"
    and "log_data (the_log f') 0 (k + ae_count ldr k - 1) = log_data (the_log ldr) 0 (k + ae_count ldr k - 1)"
    and "\<And>j. k \<le> j \<Longrightarrow> j < k + ae_count ldr k \<Longrightarrow>
           e_term (log_at (the_log f') j) = to_u32 (con_term (con ldr))"
    and "\<And>j. 0 \<le> j \<Longrightarrow> j < k \<Longrightarrow> e_term (log_at (the_log f') j) = e_term (log_at (the_log f) j)"
    and "con_term (con f') = con_term (con ldr)"
proof -
  let ?c = "ae_count ldr k" and ?m = "proto_data (append_payload ldr inst k)"
  let ?f1 = "handle_append_rpc f ?m 0 lid cid"
  note p = payload_continues [OF snd k copy, of inst]
  have acc: "accepting f cid (k - 1)" and ct: "con_term (con f) = con_term (con ldr)"
    using copy by (simp_all add: copy_upto_def)
  have c: "0 < ?c" "k + ?c - 1 \<le> last_idx (the_log ldr)" "0 \<le> k" "last_idx (the_log ldr) < MAX_CONSENSUS_LOG"
    using snd k by (auto simp: ae_count_def sending_def)
  from handle_append_log [OF acc p(1) refl, of lid]
  have f1: "accepting ?f1 cid (k + ?c - 1)" "log_data (the_log ?f1) k (k + ?c - 1) = ae_cmds ?m 0"
    "\<And>j. 0 \<le> j \<Longrightarrow> k + ?c - MAX_CONSENSUS_LOG \<le> j \<Longrightarrow> j < k \<Longrightarrow> log_at (the_log ?f1) j = log_at (the_log f) j"
    "\<And>j. k \<le> j \<Longrightarrow> j < k + ?c \<Longrightarrow> e_term (log_at (the_log ?f1) j) = to_u32 (con_term (con f))"
    "con_term (con ?f1) = con_term (con f)"
    by (simp_all add: algebra_simps)
  have run: "f' = commit_log ?f1 (GET_CON_AE_PREV_LEADER_COMMIT_IDX_VAL ?m 0)"
    unfolding f' using acc trm p(3,4) ct
    by (intro follower_append) (simp_all add: accepting_def is_s32_def)
  show "accepting f' cid (k + ?c - 1)" unfolding run by (rule accepting_commit [OF f1(1)])
  have same: "same_commands (con ?f1) (con f')"
    unfolding run commit_log_def by (simp add: same_commands_commit)
  note at = same_commands_at [OF same]
  have low: "log_data (the_log ?f1) 0 (k - 1) = log_data (the_log f) 0 (k - 1)"
    unfolding log_data_def using f1(3) c(2,4) by (intro map_cong) auto
  have "log_data (the_log ?f1) 0 (k + ?c - 1) =
      log_data (the_log ?f1) 0 (k - 1) @ log_data (the_log ?f1) k (k + ?c - 1)"
    using log_data_append [of 0 "k - 1" "k + ?c - 1" "the_log ?f1"] c by simp
  also have "\<dots> = log_data (the_log ldr) 0 (k - 1) @ log_data (the_log ldr) k (k + ?c - 1)"
    using low f1(2) p(2) copy by (simp add: copy_upto_def)
  also have "\<dots> = log_data (the_log ldr) 0 (k + ?c - 1)"
    using log_data_append [of 0 "k - 1" "k + ?c - 1" "the_log ldr"] c by simp
  finally show "log_data (the_log f') 0 (k + ?c - 1) = log_data (the_log ldr) 0 (k + ?c - 1)"
    by (simp add: at(3))
  show "e_term (log_at (the_log f') j) = to_u32 (con_term (con ldr))" if "k \<le> j" "j < k + ?c" for j
    using f1(4) [OF that] at(2) ct by simp
  show "e_term (log_at (the_log f') j) = e_term (log_at (the_log f) j)" if "0 \<le> j" "j < k" for j
    using f1(3) [of j] that at(2) c by simp
  show "con_term (con f') = con_term (con ldr)" using same f1(5) ct by (simp add: same_commands_def)
qed

lemma copy_step:
  assumes snd: "sending ldr t k" and k: "k \<le> last_idx (the_log ldr)" and copy: "copy_upto ldr f cid k"
    and trm: "in_term_from ldr k" "is_s32 (con_term (con ldr))"
    and f': "f' = follower_process_pkt f lid cid (proto_data (append_payload ldr inst k)) 0"
  shows "copy_upto ldr f' cid (k + ae_count ldr k)"
proof -
  have c: "0 < ae_count ldr k" "k + ae_count ldr k - 1 \<le> last_idx (the_log ldr)"
    using snd k by (auto simp: ae_count_def sending_def)
  note s = stamped_step [OF snd k copy trm(2) f']
  have "e_term (log_at (the_log f') (k + ae_count ldr k - 1)) = e_term (log_at (the_log ldr) (k + ae_count ldr k - 1))"
    using s(3) [of "k + ae_count ldr k - 1"] trm(1) c by (simp add: in_term_from_def)
  with s(1,2,5) show ?thesis by (simp add: copy_upto_def)
qed

section \<open>The whole log\<close>

text \<open>The target handles the packets in the order they were queued.\<close>

definition deliver :: "nat \<Rightarrow> int \<Rightarrow> asgard_async_pkt list \<Rightarrow> asgard_device \<Rightarrow> asgard_device" where
  "deliver lid cid pkts f = fold (\<lambda>a f. follower_process_pkt f lid cid (proto_data (ap_payload a)) 0) pkts f"

lemma copy_upto_cong:
  assumes "\<And>j. log_at (the_log d') j = log_at (the_log d) j" and "con_term (con d') = con_term (con d)"
  shows "copy_upto d' f cid k = copy_upto d f cid k"
  using assms by (simp add: copy_upto_def log_data_def)

text \<open>The terms of the entries, besides the commands: from \<open>k0\<close> up to \<open>k - 1\<close> they are the leader's.\<close>

definition terms_copied :: "asgard_device \<Rightarrow> asgard_device \<Rightarrow> int \<Rightarrow> int \<Rightarrow> bool" where
  "terms_copied ldr f k0 k \<longleftrightarrow> (\<forall>j. k0 \<le> j \<and> j < k \<longrightarrow>
     e_term (log_at (the_log f) j) = e_term (log_at (the_log ldr) j))"

lemma terms_copied_cong:
  assumes "\<And>j. log_at (the_log d') j = log_at (the_log d) j"
  shows "terms_copied d' f k0 k = terms_copied d f k0 k"
  using assms by (simp add: terms_copied_def)

lemma terms_step:
  assumes snd: "sending ldr t k" and k: "k \<le> last_idx (the_log ldr)" and copy: "copy_upto ldr f cid k"
    and trm: "in_term_from ldr k" "is_s32 (con_term (con ldr))"
    and f': "f' = follower_process_pkt f lid cid (proto_data (append_payload ldr inst k)) 0"
    and old: "terms_copied ldr f k0 k" and k0: "0 \<le> k0"
  shows "terms_copied ldr f' k0 (k + ae_count ldr k)"
  unfolding terms_copied_def
proof (intro allI impI)
  fix j
  assume j: "k0 \<le> j \<and> j < k + ae_count ldr k"
  have c: "k + ae_count ldr k - 1 \<le> last_idx (the_log ldr)" using snd k by (auto simp: ae_count_def sending_def)
  note s = stamped_step [OF snd k copy trm(2) f']
  show "e_term (log_at (the_log f') j) = e_term (log_at (the_log ldr) j)"
  proof (cases "j < k")
    case True
    with s(4) [of j] old j k0 show ?thesis by (simp add: terms_copied_def)
  next
    case False
    with s(3) [of j] trm(1) j c show ?thesis by (simp add: in_term_from_def)
  qed
qed

lemma run_work:
  assumes "sending ldr t k" and "k \<le> last_idx (the_log ldr)"
    and "leader_wq ldr = [\<lparr>lw_target_id = t, lw_next_index = x, lw_retrans = 0\<rparr>]"
    and "is_s32 (con_term (con ldr))" and "0 \<le> k0"
  shows "\<exists>n a inst pkts. async_pkts (aapriv (target ((run_leader_work ^^ n) ldr) t)) =
           async_pkts (aapriv (target ldr t)) @ a # pkts
     \<and> ap_payload a = append_payload ldr inst k
     \<and> leader_wq ((run_leader_work ^^ n) ldr) = []
     \<and> (\<forall>f. in_term_from ldr k \<longrightarrow> copy_upto ldr f cid k \<longrightarrow> terms_copied ldr f k0 k \<longrightarrow>
           copy_upto ldr (deliver lid cid (a # pkts) f) cid (last_idx (the_log ldr) + 1)
         \<and> terms_copied ldr (deliver lid cid (a # pkts) f) k0 (last_idx (the_log ldr) + 1))"
  using assms
proof (induction "nat (last_idx (the_log ldr) + 1 - k)" arbitrary: ldr k x rule: less_induct)
  case less
  let ?c = "ae_count ldr k" and ?L = "last_idx (the_log ldr)" and ?d1 = "run_leader_work ldr"
  have c: "0 < ?c" "?c \<le> ?L - k + 1" using less.prems by (auto simp: ae_count_def sending_def)
  obtain a inst where a: "sending ?d1 t (k + ?c)" "ap_payload a = append_payload ldr inst k"
    "con_term (con ?d1) = con_term (con ldr)" "\<And>j. log_at (the_log ?d1) j = log_at (the_log ldr) j"
    "async_pkts (aapriv (target ?d1 t)) = async_pkts (aapriv (target ldr t)) @ [a]"
    "leader_wq ?d1 = [] @ (if k + ?c \<le> ?L
          then [\<lparr>lw_target_id = t, lw_next_index = k + ?c, lw_retrans = 0\<rparr>] else [])"
    "last_idx (the_log ?d1) = ?L"
    using work_step [OF less.prems(1-3)] by blast
  let ?f1 = "\<lambda>f. follower_process_pkt f lid cid (proto_data (ap_payload a)) 0"
  have f1: "copy_upto ldr (?f1 f) cid (k + ?c)" "terms_copied ldr (?f1 f) k0 (k + ?c)"
    if "in_term_from ldr k" "copy_upto ldr f cid k" "terms_copied ldr f k0 k" for f
    using copy_step [OF less.prems(1,2) that(2,1) less.prems(4) refl, of lid inst]
      terms_step [OF less.prems(1,2) that(2,1) less.prems(4) refl that(3) less.prems(5), of lid inst]
    by (simp_all add: a(2))
  show ?case
  proof (cases "k + ?c \<le> ?L")
    case False
    then have e: "k + ?c = ?L + 1" using c by simp
    show ?thesis
      by (intro exI [of _ 1] exI [of _ a] exI [of _ inst] exI [of _ "[]"])
        (use a(2,5,6) f1 False e in \<open>simp add: deliver_def\<close>)
  next
    case True
    have less1: "nat (last_idx (the_log ?d1) + 1 - (k + ?c)) < nat (?L + 1 - k)" using c a(7) by simp
    have term1: "in_term_from ?d1 (k + ?c)" if "in_term_from ldr k"
      using that c a(3,4,7) by (auto simp: in_term_from_def)
    have s32: "is_s32 (con_term (con ?d1))" using less.prems(4) a(3) by simp
    have last1: "k + ?c \<le> last_idx (the_log ?d1)" using True a(7) by simp
    have wq1: "leader_wq ?d1 = [\<lparr>lw_target_id = t, lw_next_index = k + ?c, lw_retrans = 0\<rparr>]"
      using True a(6) by simp
    note cong = copy_upto_cong [OF a(4,3)] terms_copied_cong [OF a(4)]
    obtain n b pkts where n: "async_pkts (aapriv (target ((run_leader_work ^^ n) ?d1) t)) =
           async_pkts (aapriv (target ?d1 t)) @ b # pkts"
      "leader_wq ((run_leader_work ^^ n) ?d1) = []"
      "\<And>f. in_term_from ?d1 (k + ?c) \<Longrightarrow> copy_upto ?d1 f cid (k + ?c) \<Longrightarrow> terms_copied ?d1 f k0 (k + ?c) \<Longrightarrow>
         copy_upto ?d1 (deliver lid cid (b # pkts) f) cid (last_idx (the_log ?d1) + 1)
         \<and> terms_copied ?d1 (deliver lid cid (b # pkts) f) k0 (last_idx (the_log ?d1) + 1)"
      using less.hyps [OF less1 a(1) last1 wq1 s32 less.prems(5)] by blast
    have q: "async_pkts (aapriv (target ((run_leader_work ^^ Suc n) ldr) t)) =
        async_pkts (aapriv (target ldr t)) @ a # b # pkts"
      "leader_wq ((run_leader_work ^^ Suc n) ldr) = []"
      using n(1,2) a(5) by (simp_all add: funpow_swap1)
    have "copy_upto ldr (deliver lid cid (a # b # pkts) f) cid (?L + 1)
        \<and> terms_copied ldr (deliver lid cid (a # b # pkts) f) k0 (?L + 1)"
      if "in_term_from ldr k" "copy_upto ldr f cid k" "terms_copied ldr f k0 k" for f
      using n(3) [of "?f1 f"] term1 that f1 [OF that] by (simp add: cong a(7) deliver_def)
    with q a(2) show ?thesis by blast
  qed
qed


lemma sample_sending: "sending (sample_node LEADER 250) 0 0"
  by (auto simp: sending_def con_only_def sample sample_chunks_ok [unfolded sample] entry_at_def
      MAX_CONSENSUS_LOG_def MAX_AE_ENTRIES_PER_PKT_def chunks_ok_def entries_ok_def)

lemma sample_copy: "copy_upto (sample_node LEADER 250) (sample_node FOLLOWER (-1)) 1 0"
  by (simp add: copy_upto_def accepting_def sample chunks_ok_def entries_ok_def entry_at_def log_chain_def log_data_def)

lemma sample_in_term: "in_term_from (sample_node LEADER 250) 0"
  by (auto simp: in_term_from_def log_at_def entry_at_def sample con2buf MAX_CONSENSUS_LOG_def)


section \<open>The answer\<close>

text \<open>The answer to a packet carries the index of its last command; the leader that handles it
  records this index, and commits it when every target has acknowledged it.\<close>

lemma update_commit_match: "match_index (the_log (update_commit_idx d)) = match_index (the_log d)"
  by (simp add: update_commit_idx_def Let_def invalidate_frame upd split: option.split)

lemma answer_fields:
  assumes snd: "sending ldr t k" and k: "k \<le> last_idx (the_log ldr)" and copy: "copy_upto ldr f cid k"
    and trm: "is_s32 (con_term (con ldr))"
    and room: "asgard_reserve_proto (to_u16 (instance_id (con f))) (Some (pkt_payload (target f lid))) 22 = Some (off, spay)"
    and f': "f' = follower_process_pkt f lid cid (proto_data (append_payload ldr inst k)) 0"
    and m': "m' = proto_data (pkt_payload (target f' lid))"
  shows "pkt_opcode m' off = Some APPEND_REPLY" "GET_CON_PROTO_PARAM2_VAL m' off = 1"
    "GET_CON_PROTO_PARAM4_VAL m' off = k + ae_count ldr k - 1" "fire (target f' lid) = 1"
proof -
  let ?m = "proto_data (append_payload ldr inst k)"
  let ?f1 = "handle_append_rpc f ?m 0 lid cid"
  note p = payload_continues [OF snd k copy, of inst]
  have acc: "accepting f cid (k - 1)" and ct: "con_term (con f) = con_term (con ldr)"
    using copy by (simp_all add: copy_upto_def)
  have run: "f' = commit_log ?f1 (GET_CON_AE_PREV_LEADER_COMMIT_IDX_VAL ?m 0)"
    unfolding f' using acc trm p(3,4) ct
    by (intro follower_append) (simp_all add: accepting_def is_s32_def)
  have tgt: "target f' lid = target ?f1 lid" unfolding run commit_log_def by simp
  from handle_append_stable [OF acc p(1) room refl refl]
  have "GET_CON_PROTO_OPCODE_VAL m' off = opcode_num APPEND_REPLY" "GET_CON_PROTO_PARAM2_VAL m' off = 1"
    "GET_CON_PROTO_PARAM4_VAL m' off = k + ae_count ldr k - 1" "fire (target f' lid) = 1"
    unfolding m' tgt by simp_all
  then show "pkt_opcode m' off = Some APPEND_REPLY" "GET_CON_PROTO_PARAM2_VAL m' off = 1"
    "GET_CON_PROTO_PARAM4_VAL m' off = k + ae_count ldr k - 1" "fire (target f' lid) = 1"
    by (simp_all add: pkt_opcode_def) (simp add: opcode_of_def)
qed

text \<open>C3: The answer a follower writes for a packet makes the leader record the index of the packet's
  last command for this target, and commit that index once every other target has acknowledged it.\<close>

theorem answer_commits:
  assumes "sending ldr t k" and "k \<le> last_idx (the_log ldr)" and "copy_upto ldr f cid k"
    and "is_s32 (con_term (con ldr))"
    and "asgard_reserve_proto (to_u16 (instance_id (con f))) (Some (pkt_payload (target f lid))) 22 = Some (off, spay)"
    and f': "f' = follower_process_pkt f lid cid (proto_data (append_payload ldr inst k)) 0"
    and m': "m' = proto_data (pkt_payload (target f' lid))"
    and ldr': "ldr' = leader_process_pkt ldr t fcid m' off"
    and mc: "mc_enable (mc ldr) = 0" and trm: "in_term_from ldr k"
    and rest: "\<And>j. j < targets ldr \<Longrightarrow> j \<noteq> t \<Longrightarrow> k + ae_count ldr k - 1 \<le> match_index (the_log ldr) j
         \<and> match_index (the_log ldr) j \<le> last_idx (the_log ldr)"
  shows "match_index (the_log ldr') t = k + ae_count ldr k - 1
     \<and> k + ae_count ldr k - 1 \<le> commit_idx (the_log ldr')"
proof (intro conjI)
  let ?N = "k + ae_count ldr k - 1"
  have c: "0 < ae_count ldr k" "?N \<le> last_idx (the_log ldr)" "0 \<le> k" "t < targets ldr"
    "entries_ok (the_log ldr)"
    using assms(1,2) by (auto simp: ae_count_def sending_def chunks_ok_def)
  note ans = answer_fields [OF assms(1-7)]
  let ?d = "upd_log (\<lambda>l. l\<lparr>match_index := (match_index l)(t := ?N)\<rparr>) ldr"
  have run: "ldr' = update_commit_idx ?d"
    using success_reply [OF ans(1,2)] ans(3) c(2) unfolding ldr' by simp
  then show "match_index (the_log ldr') t = k + ae_count ldr k - 1" by (simp add: update_commit_match)
  have d: "entries_ok (the_log ?d)" "mc_enable (mc ?d) = 0"
    using c(5) mc by (simp_all add: entries_ok_def) (simp add: upd)
  have at: "log_at (the_log ?d) j = log_at (the_log ldr) j"
    "log_at (the_log ldr\<lparr>match_index := g\<rparr>) j = log_at (the_log ldr) j" for j g
    by (simp_all add: log_at_def entry_at_def consensus_idx_to_buffer_idx_def)
  have "committable ?d ?N"
    using trm c rest by (auto simp: committable_def potential_commit_all at in_term_from_def)
  then have "match_index (the_log ?d) t \<le> commit_idx (the_log (update_commit_idx ?d))"
    using c rest by (intro commits_when_replicated [OF d]) fastforce+
  then show "k + ae_count ldr k - 1 \<le> commit_idx (the_log ldr')" by (simp add: run)
qed

theorem answer_commits_witness:
  "\<exists>ldr'. match_index (the_log ldr') 0 = 99 \<and> 99 \<le> commit_idx (the_log ldr')
     \<and> ldr' = leader_process_pkt (upd_log (\<lambda>l. l\<lparr>match_index := (\<lambda>i. if i = 1 then 120 else -1)\<rparr>) (sample_node LEADER 250)) 0 2
         (proto_data (pkt_payload (target (follower_process_pkt (sample_node FOLLOWER (-1)) 0 1 (proto_data (append_payload
           (upd_log (\<lambda>l. l\<lparr>match_index := (\<lambda>i. if i = 1 then 120 else -1)\<rparr>) (sample_node LEADER 250)) 1 0)) 0) 0))) 0"
proof -
  let ?l = "upd_log (\<lambda>l. l\<lparr>match_index := (\<lambda>i. if i = 1 then 120 else -1)\<rparr>) (sample_node LEADER 250)"
  have at: "entry_at (the_log ?l) b = entry_at (sample_log 250) b" for b by (simp add: entry_at_def sample)
  have snd: "sending ?l 0 0"
    using sample_sending by (simp add: sending_def con_only_def at chunks_ok_def entries_ok_def sample upd entry_at_def)
  have la: "log_at (l\<lparr>match_index := g\<rparr>) j = log_at l j" for l g j
    by (simp add: log_at_def entry_at_def consensus_idx_to_buffer_idx_def)
  have copy: "copy_upto ?l (sample_node FOLLOWER (-1)) 1 0" and trm: "in_term_from ?l 0"
    using sample_copy sample_in_term by (simp_all add: copy_upto_def in_term_from_def log_data_def la)
  have f: "last_idx (the_log ?l) = 250" "is_s32 (con_term (con ?l))" "mc_enable (mc ?l) = 0" "targets ?l = 2"
    "ae_count ?l 0 = 100" "match_index (the_log ?l) = (\<lambda>i. if i = 1 then 120 else -1)"
    by (simp_all add: sample is_s32_def upd ae_count_def)
  have room: "asgard_reserve_proto (to_u16 (instance_id (con (sample_node FOLLOWER (-1)))))
      (Some (pkt_payload (target (sample_node FOLLOWER (-1)) 0))) 22 =
      Some (0, \<lparr>protocols_included = 1, proto_data = st_u16 (st_u16 (\<lambda>_. 0) 0 (to_u16 1)) 2 22\<rparr>)"
    using reserve_first [of 22 "to_u16 1"] by (simp add: sample size_defs)
  show ?thesis
    using answer_commits [OF snd _ copy f(2) room refl refl refl f(3) trm, of 2 1] f by auto
qed

end
