(* ===== verification/JsPrelude.thy ===== *)
theory JsPrelude
  imports Main "HOL-Library.Sublist" "HOL-Library.Multiset"
begin

text \<open>
  Vocabulary of the JavaScript part (the documentation front end under \<open>docs/_static\<close>).  A
  JavaScript string is the list of its UTF-16 code units; the literal \<open>"abc"\<close> of the source is
  written \<open>u ''abc''\<close>.  \<open>undefined\<close> is \<open>None\<close>.  An object used as a dictionary is an association
  list in the enumeration order of its keys.  The theory holds the string and array primitives
  the scripts call (\<open>substr\<close>, \<open>slice\<close>, \<open>indexOf\<close>, \<open>split\<close>, \<open>join\<close>, \<open>splice\<close>) and their lemmas.
  Case conversion covers the Basic Latin and Latin-1 letters and leaves other units alone.
\<close>

type_synonym ustr = "int list"

definition u :: "string \<Rightarrow> ustr" where
  "u s = map of_char s"

named_theorems ulit \<open>evaluation of string literals\<close>

lemma u_Nil [simp, ulit]: "u [] = []"
  by (simp add: u_def)

lemma u_Cons [ulit]: "u (c # s) = of_char c # u s"
  by (simp add: u_def)

lemma u_eq [simp]: "u s = u t \<longleftrightarrow> s = t"
  unfolding u_def by (rule inj_map_eq_map) (simp add: inj_on_def)

lemma length_u [simp]: "length (u s) = length s"
  by (simp add: u_def)

section \<open>Strings\<close>

definition to_lower_unit :: "int \<Rightarrow> int" where
  "to_lower_unit c = (if 65 \<le> c \<and> c \<le> 90 \<or> 192 \<le> c \<and> c \<le> 222 \<and> c \<noteq> 215 then c + 32 else c)"

definition to_upper_unit :: "int \<Rightarrow> int" where
  "to_upper_unit c = (if 97 \<le> c \<and> c \<le> 122 \<or> 224 \<le> c \<and> c \<le> 254 \<and> c \<noteq> 247 then c - 32 else c)"

definition to_lower :: "ustr \<Rightarrow> ustr" where
  "to_lower s = map to_lower_unit s"

definition to_upper :: "ustr \<Rightarrow> ustr" where
  "to_upper s = map to_upper_unit s"

lemma length_to_lower [simp]: "length (to_lower s) = length s"
  by (simp add: to_lower_def)

lemma length_to_upper [simp]: "length (to_upper s) = length s"
  by (simp add: to_upper_def)

text \<open>\<open>s.slice(i, j)\<close> and \<open>s.substring(i, j)\<close> for \<open>0 \<le> i \<le> j\<close>; \<open>s.substr(i)\<close> is \<open>drop i\<close>.\<close>

definition substring :: "'a list \<Rightarrow> nat \<Rightarrow> nat \<Rightarrow> 'a list" where
  "substring s i j = take (j - i) (drop i s)"

lemma substring_same [simp]: "substring s i i = []"
  by (simp add: substring_def)

lemma substring_Suc: "i \<le> j \<Longrightarrow> j < length s \<Longrightarrow> substring s i (Suc j) = substring s i j @ [s ! j]"
  by (simp add: substring_def Suc_diff_le take_Suc_conv_app_nth)

lemma substring_append: "i \<le> j \<Longrightarrow> j \<le> k \<Longrightarrow> substring s i j @ substring s j k = substring s i k"
  unfolding substring_def using take_add [of "j - i" "k - j" "drop i s"] by simp

lemma substring_full [simp]: "substring s 0 (length s) = s"
  by (simp add: substring_def)

lemma length_substring [simp]: "length (substring s i j) = min (j - i) (length s - i)"
  by (simp add: substring_def min.commute)

text \<open>Negative indices of \<open>slice\<close> count from the end, as in JavaScript.\<close>

definition slice_idx :: "nat \<Rightarrow> int \<Rightarrow> nat" where
  "slice_idx n i = (if i < 0 then nat (max 0 (int n + i)) else min n (nat i))"

definition slice :: "'a list \<Rightarrow> int \<Rightarrow> int \<Rightarrow> 'a list" where
  "slice xs i j = substring xs (slice_idx (length xs) i) (slice_idx (length xs) j)"

definition starts_with :: "'a list \<Rightarrow> 'a list \<Rightarrow> bool" where
  "starts_with p s \<longleftrightarrow> take (length p) s = p"

lemma starts_with_prefix: "starts_with p s \<longleftrightarrow> prefix p s"
  by (auto simp: starts_with_def prefix_def) (metis append_take_drop_id)

definition ends_with :: "'a list \<Rightarrow> 'a list \<Rightarrow> bool" where
  "ends_with p s \<longleftrightarrow> length p \<le> length s \<and> drop (length s - length p) s = p"

text \<open>\<open>indexOf\<close> on strings: the first position at which the needle occurs, \<open>-1\<close> when there is
  none.\<close>

fun find_str :: "'a list \<Rightarrow> 'a list \<Rightarrow> nat option" where
  "find_str p [] = (if p = [] then Some 0 else None)"
| "find_str p (x # s) = (if starts_with p (x # s) then Some 0 else map_option Suc (find_str p s))"

definition index_of :: "'a list \<Rightarrow> 'a list \<Rightarrow> int" where
  "index_of s p = (case find_str p s of None \<Rightarrow> -1 | Some i \<Rightarrow> int i)"

definition includes_str :: "'a list \<Rightarrow> 'a list \<Rightarrow> bool" where
  "includes_str s p \<longleftrightarrow> find_str p s \<noteq> None"

lemma find_str_Some:
  "find_str p s = Some i \<Longrightarrow> i + length p \<le> length s \<and> take (length p) (drop i s) = p"
proof (induction p s arbitrary: i rule: find_str.induct)
  case (2 p x s)
  show ?case
  proof (cases "starts_with p (x # s)")
    case True
    then have "prefix p (x # s)" by (simp add: starts_with_prefix)
    then have "length p \<le> length (x # s)" by (rule prefix_length_le)
    with True 2 show ?thesis by (auto simp: starts_with_def)
  next
    case False
    with 2 show ?thesis by auto
  qed
qed (auto split: if_splits)

lemma find_str_least:
  "find_str p s = Some i \<Longrightarrow> j < i \<Longrightarrow> take (length p) (drop j s) \<noteq> p"
proof (induction p s arbitrary: i j rule: find_str.induct)
  case (2 p x s)
  then show ?case
    by (cases j) (auto simp: starts_with_def split: if_splits)
qed (auto split: if_splits)

lemma find_str_None_iff: "find_str p s = None \<longleftrightarrow> (\<nexists>a b. s = a @ p @ b)"
proof (induction p s rule: find_str.induct)
  case (2 p x s)
  have "(\<exists>a b. x # s = a @ p @ b) \<longleftrightarrow> prefix p (x # s) \<or> (\<exists>a b. s = a @ p @ b)"
    (is "?l \<longleftrightarrow> ?r")
  proof
    assume ?l
    then obtain a b where e: "x # s = a @ p @ b" by blast
    then show ?r by (cases a) (auto intro: prefixI)
  next
    assume ?r
    then show ?l
    proof
      assume "prefix p (x # s)"
      then obtain b where "x # s = [] @ p @ b" by (auto simp: prefix_def)
      then show ?l by blast
    next
      assume "\<exists>a b. s = a @ p @ b"
      then obtain a b where "x # s = (x # a) @ p @ b" by auto
      then show ?l by blast
    qed
  qed
  with 2 show ?case by (auto simp: starts_with_prefix)
qed auto

lemma find_str_split:
  assumes "find_str p s = Some i"
  shows "s = take i s @ p @ drop (i + length p) s"
  using find_str_Some [OF assms]
  by (metis append_take_drop_id drop_drop add.commute)

text \<open>\<open>split\<close> with a non-empty string separator, \<open>join\<close>, and a replacement of every occurrence of
  one code unit (the regular expression \<open>/c/g\<close>).\<close>

function split_str :: "'a list \<Rightarrow> 'a list \<Rightarrow> 'a list list" where
  "split_str p s = (if p = [] then [s] else case find_str p s of None \<Rightarrow> [s]
     | Some i \<Rightarrow> take i s # split_str p (drop (i + length p) s))"
  by pat_completeness auto
termination
proof (relation "measure (\<lambda>(p, s). length s)", simp)
  fix p s :: "'a list" and i
  assume "p \<noteq> []" "find_str p s = Some i"
  with find_str_Some [of p s i] show "((p, drop (i + length p) s), p, s) \<in> measure (\<lambda>(p, s). length s)"
    by (cases p) auto
qed

declare split_str.simps [simp del]

fun join :: "'a list \<Rightarrow> 'a list list \<Rightarrow> 'a list" where
  "join d [] = []"
| "join d [x] = x"
| "join d (x # y # xs) = x @ d @ join d (y # xs)"

lemma join_Cons: "xs \<noteq> [] \<Longrightarrow> join d (x # xs) = x @ d @ join d xs"
  by (cases xs) auto

lemma split_str_not_Nil [simp]: "split_str p s \<noteq> []"
  by (subst split_str.simps) (auto split: option.split)

text \<open>Joining what \<open>split\<close> returns gives the string back.\<close>

lemma join_split: "join p (split_str p s) = s"
proof (induction p s rule: split_str.induct)
  case (1 p s)
  show ?case
  proof (cases "p = [] \<or> find_str p s = None")
    case True
    then show ?thesis by (subst split_str.simps) auto
  next
    case False
    then obtain i where i: "find_str p s = Some i" and p: "p \<noteq> []" by blast
    have "split_str p s = take i s # split_str p (drop (i + length p) s)"
      using i p by (subst split_str.simps) simp
    with 1 [OF p i] show ?thesis
      using find_str_split [OF i] by (simp add: join_Cons)
  qed
qed

definition replace_unit :: "int \<Rightarrow> ustr \<Rightarrow> ustr \<Rightarrow> ustr" where
  "replace_unit c r s = concat (map (\<lambda>d. if d = c then r else [d]) s)"

lemma find_str_unit: "find_str [c] s = None \<longleftrightarrow> c \<notin> set s"
  by (induction s) (auto simp: starts_with_def)

lemma find_str_unit_first: "c \<notin> set a \<Longrightarrow> find_str [c] (a @ c # b) = Some (length a)"
  by (induction a) (auto simp: starts_with_def)

lemma split_str_unit:
  "c \<notin> set s \<Longrightarrow> split_str [c] s = [s]"
  "c \<notin> set a \<Longrightarrow> split_str [c] (a @ c # s) = a # split_str [c] s"
   by (subst split_str.simps, use find_str_unit [of c s] in simp)
     (subst split_str.simps, simp add: find_str_unit_first)

lemma replace_unit_none: "c \<notin> set s \<Longrightarrow> replace_unit c r s = s"
  by (induction s) (auto simp: replace_unit_def)

section \<open>Decimal numerals\<close>

text \<open>\<open>String(n)\<close> for an integral number of the exactly representable range.\<close>

fun dec_nat :: "nat \<Rightarrow> ustr" where
  "dec_nat n = (if n < 10 then [48 + int n] else dec_nat (n div 10) @ [48 + int (n mod 10)])"

declare dec_nat.simps [simp del]

definition dec_int :: "int \<Rightarrow> ustr" where
  "dec_int n = (if n < 0 then 45 # dec_nat (nat (- n)) else dec_nat (nat n))"

definition undec :: "ustr \<Rightarrow> nat" where
  "undec s = foldl (\<lambda>n c. 10 * n + nat (c - 48)) 0 s"

lemma undec_dec_nat [simp]: "undec (dec_nat n) = n"
proof (induction n rule: dec_nat.induct)
  case (1 n)
  then show ?case
    by (subst dec_nat.simps) (auto simp: undec_def)
qed

lemma dec_nat_inj: "dec_nat m = dec_nat n \<longleftrightarrow> m = n"
  by (metis undec_dec_nat)

section \<open>Arrays\<close>

text \<open>\<open>xs.indexOf(x)\<close>, and a store at an index, which extends the array when it is the length.\<close>

fun arr_index :: "'a \<Rightarrow> 'a list \<Rightarrow> nat option" where
  "arr_index x [] = None"
| "arr_index x (y # ys) = (if x = y then Some 0 else map_option Suc (arr_index x ys))"

lemma arr_index_None [simp]: "arr_index x xs = None \<longleftrightarrow> x \<notin> set xs"
  by (induction xs) auto

definition splice :: "nat \<Rightarrow> nat \<Rightarrow> 'a list \<Rightarrow> 'a list" where
  "splice i n xs = take i xs @ drop (i + n) xs"

section \<open>Sorting\<close>

text \<open>\<open>Array.prototype.sort\<close> is stable.\<close>

fun insert_by :: "('a \<Rightarrow> 'a \<Rightarrow> int) \<Rightarrow> 'a \<Rightarrow> 'a list \<Rightarrow> 'a list" where
  "insert_by c x [] = [x]"
| "insert_by c x (y # ys) = (if c x y \<le> 0 then x # y # ys else y # insert_by c x ys)"

definition sort_by :: "('a \<Rightarrow> 'a \<Rightarrow> int) \<Rightarrow> 'a list \<Rightarrow> 'a list" where
  "sort_by c xs = foldr (insert_by c) xs []"

definition cmp_ok :: "('a \<Rightarrow> 'a \<Rightarrow> int) \<Rightarrow> bool" where
  "cmp_ok c \<longleftrightarrow> (\<forall>x y. c x y \<le> 0 \<or> c y x \<le> 0) \<and> (\<forall>x y z. c x y \<le> 0 \<longrightarrow> c y z \<le> 0 \<longrightarrow> c x z \<le> 0)"

lemma mset_insert_by [simp]: "mset (insert_by c x ys) = add_mset x (mset ys)"
  by (induction ys) auto

lemma mset_sort_by: "mset (sort_by c xs) = mset xs"
  by (induction xs) (simp_all add: sort_by_def)

lemma set_insert_by: "set (insert_by c x ys) = insert x (set ys)"
  by (induction ys) auto

lemma sorted_insert_by:
  "cmp_ok c \<Longrightarrow> sorted_wrt (\<lambda>a b. c a b \<le> 0) ys \<Longrightarrow> sorted_wrt (\<lambda>a b. c a b \<le> 0) (insert_by c x ys)"
proof (induction ys)
  case (Cons y ys)
  show ?case
  proof (cases "c x y \<le> 0")
    case True
    with Cons.prems show ?thesis by (auto simp: cmp_ok_def)
  next
    case False
    then have "c y x \<le> 0" using Cons.prems(1) by (auto simp: cmp_ok_def)
    with Cons False show ?thesis by (auto simp: set_insert_by)
  qed
qed simp

lemma sorted_sort_by: "cmp_ok c \<Longrightarrow> sorted_wrt (\<lambda>a b. c a b \<le> 0) (sort_by c xs)"
  by (induction xs) (simp_all add: sort_by_def sorted_insert_by)

section \<open>Dictionaries\<close>

text \<open>A property store keeps the place of an existing key and appends a new one.\<close>

type_synonym 'a dict = "(ustr \<times> 'a) list"

fun dput :: "'k \<Rightarrow> 'a \<Rightarrow> ('k \<times> 'a) list \<Rightarrow> ('k \<times> 'a) list" where
  "dput k v [] = [(k, v)]"
| "dput k v ((j, w) # d) = (if j = k then (k, v) # d else (j, w) # dput k v d)"

definition ddel :: "'k \<Rightarrow> ('k \<times> 'a) list \<Rightarrow> ('k \<times> 'a) list" where
  "ddel k d = filter (\<lambda>p. fst p \<noteq> k) d"

abbreviation dget :: "('k \<times> 'a) list \<Rightarrow> 'k \<Rightarrow> 'a option" where
  "dget \<equiv> map_of"

lemma dget_dput [simp]: "dget (dput k v d) j = (if j = k then Some v else dget d j)"
  by (induction k v d rule: dput.induct) auto

lemma keys_dput: "map fst (dput k v d) = (if k \<in> fst ` set d then map fst d else map fst d @ [k])"
  by (induction k v d rule: dput.induct) (auto simp: image_iff)

lemma set_keys_dput [simp]: "fst ` set (dput k v d) = insert k (fst ` set d)"
  by (induction k v d rule: dput.induct) auto

lemma distinct_dput [simp]: "distinct (map fst d) \<Longrightarrow> distinct (map fst (dput k v d))"
  by (auto simp: keys_dput)

lemma dget_ddel [simp]: "dget (ddel k d) j = (if j = k then None else dget d j)"
  by (induction d) (auto simp: ddel_def)

lemma dput_new: "k \<notin> fst ` set d \<Longrightarrow> dput k v d = d @ [(k, v)]"
  by (induction k v d rule: dput.induct) auto

end
