(* ===== verification/JsRegExp.thy ===== *)
theory JsRegExp
  imports JsPrelude
begin

text \<open>
  Regular expressions as ECMAScript defines them: a backtracking matcher that tries the
  alternatives in their textual order, with greedy and lazy quantifiers, capture groups, back
  references, anchors and look-ahead.  A matcher maps a state (position and captures) to the list
  of the states it can reach, in the order of preference; \<open>exec\<close> takes the first of the first
  position that has one.  Iterations of a quantifier that consume nothing are not repeated, as
  the language prescribes, so the length of the input bounds every repetition.
\<close>

datatype re =
    Eps
  | Cls "int \<Rightarrow> bool"
  | Seq re re
  | Alt re re
  | Star bool re
  | Grp nat re
  | Bref nat
  | Bol
  | Eol
  | Look bool re

type_synonym caps = "nat \<Rightarrow> ustr option"
type_synonym rstate = "nat \<times> caps"

fun rep :: "nat \<Rightarrow> bool \<Rightarrow> (rstate \<Rightarrow> rstate list) \<Rightarrow> rstate \<Rightarrow> rstate list" where
  "rep 0 g f st = [st]"
| "rep (Suc n) g f st =
     (let more = concat (map (rep n g f) (filter (\<lambda>st'. fst st < fst st') (f st)))
      in if g then more @ [st] else st # more)"

fun rm :: "ustr \<Rightarrow> re \<Rightarrow> rstate \<Rightarrow> rstate list" where
  "rm s Eps st = [st]"
| "rm s (Cls p) st = (if fst st < length s \<and> p (s ! fst st) then [(Suc (fst st), snd st)] else [])"
| "rm s (Seq a b) st = concat (map (rm s b) (rm s a st))"
| "rm s (Alt a b) st = rm s a st @ rm s b st"
| "rm s (Star g r) st = rep (length s - fst st) g (rm s r) st"
| "rm s (Grp k r) st =
     map (\<lambda>st'. (fst st', (snd st')(k := Some (substring s (fst st) (fst st'))))) (rm s r st)"
| "rm s (Bref k) st = (case snd st k of None \<Rightarrow> [st]
     | Some w \<Rightarrow> if starts_with w (drop (fst st) s) then [(fst st + length w, snd st)] else [])"
| "rm s Bol st = (if fst st = 0 then [st] else [])"
| "rm s Eol st = (if fst st = length s then [st] else [])"
| "rm s (Look pos r) st = (if (rm s r st \<noteq> []) = pos then [st] else [])"

definition no_caps :: caps where
  "no_caps = (\<lambda>_. None)"

text \<open>\<open>re.exec(s)\<close> from a position: start and end of the match and the captures; capture 0 is the
  whole match.\<close>

fun exec_from :: "nat \<Rightarrow> re \<Rightarrow> ustr \<Rightarrow> nat \<Rightarrow> (nat \<times> nat \<times> caps) option" where
  "exec_from 0 r s i = None"
| "exec_from (Suc n) r s i = (case rm s (Grp 0 r) (i, no_caps) of
     st # _ \<Rightarrow> Some (i, fst st, snd st) | [] \<Rightarrow> exec_from n r s (Suc i))"

definition exec :: "re \<Rightarrow> ustr \<Rightarrow> (nat \<times> nat \<times> caps) option" where
  "exec r s = exec_from (Suc (length s)) r s 0"

definition test :: "re \<Rightarrow> ustr \<Rightarrow> bool" where
  "test r s \<longleftrightarrow> exec r s \<noteq> None"

definition cap :: "caps \<Rightarrow> nat \<Rightarrow> ustr" where
  "cap c k = (case c k of None \<Rightarrow> [] | Some w \<Rightarrow> w)"

text \<open>\<open>s.replace(re, f)\<close> without and with the global flag.  With it, the search goes on behind the
  match, one unit further when the match is empty.\<close>

definition replace1 :: "re \<Rightarrow> (caps \<Rightarrow> ustr) \<Rightarrow> ustr \<Rightarrow> ustr" where
  "replace1 r f s = (case exec r s of None \<Rightarrow> s
     | Some (i, j, c) \<Rightarrow> take i s @ f c @ drop j s)"

fun exec_all :: "nat \<Rightarrow> re \<Rightarrow> ustr \<Rightarrow> nat \<Rightarrow> (nat \<times> nat \<times> caps) list" where
  "exec_all 0 r s i = []"
| "exec_all (Suc n) r s i = (case exec_from (Suc (length s) - i) r s i of None \<Rightarrow> []
     | Some (a, b, c) \<Rightarrow> (a, b, c) # exec_all n r s (if a = b then Suc b else b))"

fun weave :: "ustr \<Rightarrow> (caps \<Rightarrow> ustr) \<Rightarrow> nat \<Rightarrow> (nat \<times> nat \<times> caps) list \<Rightarrow> ustr" where
  "weave s f i [] = drop i s"
| "weave s f i ((a, b, c) # ms) = substring s i a @ f c @ weave s f b ms"

definition replace_all :: "re \<Rightarrow> (caps \<Rightarrow> ustr) \<Rightarrow> ustr \<Rightarrow> ustr" where
  "replace_all r f s = weave s f 0 (exec_all (Suc (length s)) r s 0)"

text \<open>Notation of the sources: literals, classes, \<open>.\<close>, \<open>+\<close>, \<open>?\<close>.\<close>

definition lit :: "ustr \<Rightarrow> re" where
  "lit w = foldr (\<lambda>c r. Seq (Cls ((=) c)) r) w Eps"

definition one_of :: "ustr \<Rightarrow> re" where
  "one_of w = Cls (\<lambda>c. c \<in> set w)"

definition none_of :: "ustr \<Rightarrow> re" where
  "none_of w = Cls (\<lambda>c. c \<notin> set w)"

definition line_end :: "int \<Rightarrow> bool" where
  "line_end c \<longleftrightarrow> c = 10 \<or> c = 13 \<or> c = 8232 \<or> c = 8233"

definition Dot :: re where
  "Dot = Cls (\<lambda>c. \<not> line_end c)"

definition Plus :: "bool \<Rightarrow> re \<Rightarrow> re" where
  "Plus g r = Seq r (Star g r)"

definition Opt :: "re \<Rightarrow> re" where
  "Opt r = Alt r Eps"

definition alts :: "ustr list \<Rightarrow> re" where
  "alts ws = foldr (\<lambda>w r. Alt (lit w) r) ws (Cls (\<lambda>_. False))"

definition seqs :: "re list \<Rightarrow> re" where
  "seqs rs = foldr Seq rs Eps"

text \<open>\<open>\\s\<close>: the white space and line terminators of the language.\<close>

definition is_space :: "int \<Rightarrow> bool" where
  "is_space c \<longleftrightarrow> 9 \<le> c \<and> c \<le> 13 \<or> c = 32 \<or> c = 160 \<or> c = 5760 \<or> 8192 \<le> c \<and> c \<le> 8202
     \<or> line_end c \<or> c = 8239 \<or> c = 8287 \<or> c = 12288 \<or> c = 65279"

section \<open>Lemmas\<close>

lemma rep_inv:
  "\<lbrakk>st' \<in> set (rep n g f st); P st; \<forall>a b. P a \<longrightarrow> b \<in> set (f a) \<longrightarrow> P b\<rbrakk> \<Longrightarrow> P st'"
proof (induction n g f st rule: rep.induct)
  case (2 n g f st)
  show ?case
  proof (cases "st' = st")
    case False
    with 2(2) obtain st'' where st'': "st'' \<in> set (f st)" "fst st < fst st''"
      "st' \<in> set (rep n g f st'')"
      by (auto simp: Let_def split: if_splits)
    moreover have "P st''" using 2(3,4) st''(1) by blast
    moreover have "st'' \<in> set (filter (\<lambda>st'. fst st < fst st') (f st))" using st'' by simp
    ultimately show ?thesis using 2(1) [OF _ st''(3) _ 2(4)] by blast
  qed (rule ssubst, assumption, rule 2(3))
next
  case (1 g f st)
  then have "st' = st" by simp
  then show ?case by (rule ssubst) (rule 1(2))
qed

text \<open>A matcher moves forward and stays inside the input.\<close>

lemma rm_mono:
  "st' \<in> set (rm s r st) \<Longrightarrow> fst st \<le> length s \<Longrightarrow> fst st \<le> fst st' \<and> fst st' \<le> length s"
proof (induction s r st arbitrary: st' rule: rm.induct)
  case (3 s a b st)
  then obtain st'' where st'': "st'' \<in> set (rm s a st)" "st' \<in> set (rm s b st'')" by auto
  from 3(1) [OF st''(1) 3(4)] have m: "fst st \<le> fst st''" "fst st'' \<le> length s" by simp_all
  from 3(2) [OF st'' m(2)] m show ?case by simp
next
  case (5 s g r st)
  have "st' \<in> set (rep (length s - fst st) g (rm s r) st)" using 5(2) by simp
  then show ?case
  proof (rule rep_inv)
    show "\<forall>a b. fst st \<le> fst a \<and> fst a \<le> length s \<longrightarrow> b \<in> set (rm s r a) \<longrightarrow>
        fst st \<le> fst b \<and> fst b \<le> length s"
      using 5(1) by (meson order_trans)
  qed (use 5(3) in simp)
next
  case (7 s k st)
  show ?case
  proof (cases "snd st k")
    case (Some w)
    with 7(1) have w: "starts_with w (drop (fst st) s)" "st' = (fst st + length w, snd st)"
      by (auto split: if_splits)
    then have "length w \<le> length (drop (fst st) s)"
      by (simp only: starts_with_prefix) (rule prefix_length_le)
    with w 7(2) show ?thesis by simp
  qed (use 7 in simp)
qed (auto split: if_splits)

text \<open>A matcher leaves alone the captures of the groups it does not contain.\<close>

fun grps :: "re \<Rightarrow> nat set" where
  "grps (Seq a b) = grps a \<union> grps b"
| "grps (Alt a b) = grps a \<union> grps b"
| "grps (Star g r) = grps r"
| "grps (Grp k r) = insert k (grps r)"
| "grps _ = {}"

lemma rm_caps: "st' \<in> set (rm s r st) \<Longrightarrow> k \<notin> grps r \<Longrightarrow> snd st' k = snd st k"
proof (induction s r st arbitrary: st' rule: rm.induct)
  case (3 s a b st)
  then obtain st'' where "st'' \<in> set (rm s a st)" "st' \<in> set (rm s b st'')" by auto
  with 3 show ?case by simp
next
  case (5 s g r st)
  have "st' \<in> set (rep (length s - fst st) g (rm s r) st)" using 5(2) by simp
  then show ?case
  proof (rule rep_inv)
    show "\<forall>a b. snd a k = snd st k \<longrightarrow> b \<in> set (rm s r a) \<longrightarrow> snd b k = snd st k"
      using 5(1,3) by simp
  qed simp
qed (auto split: if_splits option.splits)

lemma rm_seqs_Nil [simp]: "rm s (seqs []) st = [st]"
  by (simp add: seqs_def)

lemma rm_seqs_Cons [simp]: "rm s (seqs (r # rs)) st = concat (map (rm s (seqs rs)) (rm s r st))"
  by (simp add: seqs_def)

lemma rm_lit: "rm s (lit w) st =
    (if fst st \<le> length s \<and> starts_with w (drop (fst st) s) \<or> w = [] then [(fst st + length w, snd st)] else [])"
proof (induction w arbitrary: st)
  case (Cons c w)
  have e: "lit (c # w) = Seq (Cls ((=) c)) (lit w)" by (simp add: lit_def)
  show ?case
  proof (cases "fst st < length s")
    case True
    then have d: "drop (fst st) s = s ! fst st # drop (Suc (fst st)) s" by (simp add: Cons_nth_drop_Suc)
    with True show ?thesis by (auto simp: e Cons.IH d starts_with_def)
  qed (auto simp: e starts_with_def)
qed (simp add: lit_def)

lemma in_rm_lit: "st' \<in> set (rm s (lit w) st) \<Longrightarrow> st' = (fst st + length w, snd st)"
  by (auto simp: rm_lit split: if_splits)

lemma in_rm_alts:
  "st' \<in> set (rm s (alts ws) st) \<Longrightarrow> \<exists>w \<in> set ws. st' \<in> set (rm s (lit w) st)"
  by (induction ws) (auto simp: alts_def)

lemma in_rm_Plus:
  assumes "st' \<in> set (rm s (Plus g r) st)" "fst st \<le> length s"
    and "\<And>a b. b \<in> set (rm s r a) \<Longrightarrow> fst a < fst b"
  shows "fst st < fst st'"
proof -
  from assms(1) obtain st'' where st'': "st'' \<in> set (rm s r st)" "st' \<in> set (rm s (Star g r) st'')"
    by (auto simp: Plus_def)
  from rm_mono [OF st''(1) assms(2)] have "fst st'' \<le> length s" by simp
  from rm_mono [OF st''(2) this] assms(3) [OF st''(1)] show ?thesis by simp
qed

lemma exec_from_Some:
  "exec_from n r s i = Some (a, b, c) \<Longrightarrow> i \<le> a \<and> (b, c) \<in> set (rm s (Grp 0 r) (a, no_caps))
     \<and> a < i + n"
proof (induction n arbitrary: i)
  case (Suc n)
  show ?case
  proof (cases "rm s (Grp 0 r) (i, no_caps)")
    case Nil
    with Suc.prems have "exec_from n r s (Suc i) = Some (a, b, c)" by simp
    from Suc.IH [OF this] show ?thesis by auto
  next
    case (Cons st sts)
    with Suc.prems have "a = i" "b = fst st" "c = snd st" by auto
    moreover have "st \<in> set (rm s (Grp 0 r) (i, no_caps))" unfolding Cons by simp
    ultimately show ?thesis by (auto simp del: rm.simps)
  qed
qed simp

lemma exec_Some:
  assumes "exec r s = Some (a, b, c)"
  shows "(b, c) \<in> set (rm s (Grp 0 r) (a, no_caps)) \<and> a \<le> b \<and> b \<le> length s"
proof -
  from exec_from_Some [OF assms [unfolded exec_def]]
  have m: "(b, c) \<in> set (rm s (Grp 0 r) (a, no_caps))" and "a \<le> length s" by auto
  with rm_mono [OF m] show ?thesis by simp
qed

lemma exec_from_None_iff:
  "exec_from n r s i = None \<longleftrightarrow> (\<forall>k. i \<le> k \<and> k < i + n \<longrightarrow> rm s (Grp 0 r) (k, no_caps) = [])"
proof (induction n arbitrary: i)
  case (Suc n)
  have k: "i \<le> k \<and> k < i + Suc n \<longleftrightarrow> k = i \<or> Suc i \<le> k \<and> k < Suc i + n" for k
    by linarith
  have e: "(\<forall>k. i \<le> k \<and> k < i + Suc n \<longrightarrow> P k) \<longleftrightarrow> P i \<and> (\<forall>k. Suc i \<le> k \<and> k < Suc i + n \<longrightarrow> P k)" for P
    unfolding k by blast
  have "exec_from (Suc n) r s i = None \<longleftrightarrow>
      rm s (Grp 0 r) (i, no_caps) = [] \<and> exec_from n r s (Suc i) = None"
    by (simp add: list.case_eq_if del: rm.simps)
  then show ?case unfolding e Suc.IH .
qed (auto simp: not_less)

lemma exec_None_iff:
  "exec r s = None \<longleftrightarrow> (\<forall>k \<le> length s. rm s (Grp 0 r) (k, no_caps) = [])"
  unfolding exec_def exec_from_None_iff by (auto simp: less_Suc_eq_le)

lemma replace_all_none: "exec_from (Suc (length s)) r s 0 = None \<Longrightarrow> replace_all r f s = s"
  by (simp add: replace_all_def)

text \<open>A pattern that starts with \<open>^(.+?)\<close>: the first capture is a non-empty prefix.\<close>

lemma stem_prefix_match:
  assumes e: "exec (seqs (Bol # Grp 1 (Plus False Dot) # rs)) w = Some (a, b, c)"
    and g: "1 \<notin> grps (seqs rs)"
  obtains j c' where "0 < j" "j \<le> length w" "a = 0" "cap c 1 = take j w"
    "(b, c') \<in> set (rm w (seqs rs) (j, no_caps(1 := Some (take j w))))"
    "c = c'(0 := Some (take b w))"
proof -
  from exec_Some [OF e] obtain st c' where a: "a = 0"
    and st: "st \<in> set (rm w (Plus False Dot) (0, no_caps))"
    and m: "(b, c') \<in> set (rm w (seqs rs) (fst st, (snd st)(1 := Some (take (fst st) w))))"
    and c: "c = c'(0 := Some (take b w))"
    by (force simp: substring_def split: if_splits)
  have s: "snd st = no_caps"
  proof
    fix k
    have "grps (Plus False Dot) = {}" by (simp add: Plus_def Dot_def)
    then show "snd st k = no_caps k" using rm_caps [OF st, of k] by simp
  qed
  have "0 < fst st"
    using in_rm_Plus [OF st] by (auto simp: Dot_def split: if_splits)
  moreover have "fst st \<le> length w" using rm_mono [OF st] by simp
  moreover have "cap c 1 = take (fst st) w"
    using rm_caps [OF m g] by (simp add: c cap_def)
  ultimately show ?thesis using that a m c s by simp
qed

lemma in_rm_lit_Eol:
  assumes "st' \<in> set (rm s (lit w) st)" "fst st' = length s" "fst st \<le> length s"
  shows "drop (fst st) s = w"
  using assms by (auto simp: rm_lit starts_with_def split: if_splits)

end
