(* ===== verification/JsStemmer.thy ===== *)
theory JsStemmer
  imports JsRegExp
begin

text \<open>
  The language data of the search page (\<open>language_data.js\<close>): the stop words, the Porter stemmer
  \<open>Stemmer.stemWord\<close>, one definition per step, written with the regular expressions of the
  source, the table of splitting characters and \<open>splitQuery\<close>.  The lemmas show that a stemming
  step keeps the first unit of the word and never lengthens it, and that \<open>splitQuery\<close> returns
  the maximal runs of units that are not splitting characters.
\<close>

definition stopwords :: "ustr list" where
  "stopwords = [
    u ''a'', u ''and'', u ''are'', u ''as'', u ''at'', u ''be'', u ''but'', u ''by'', u ''for'',
    u ''if'', u ''in'', u ''into'', u ''is'', u ''it'', u ''near'', u ''no'', u ''not'',
    u ''of'', u ''on'', u ''or'', u ''such'', u ''that'', u ''the'', u ''their'', u ''then'',
    u ''there'', u ''these'', u ''they'', u ''this'', u ''to'', u ''was'', u ''will'',
    u ''with'']"

section \<open>The stemmer\<close>

definition step2list :: "ustr dict" where
  "step2list = [
    (u ''ational'', u ''ate''), (u ''tional'', u ''tion''), (u ''enci'', u ''ence''),
    (u ''anci'', u ''ance''), (u ''izer'', u ''ize''), (u ''bli'', u ''ble''),
    (u ''alli'', u ''al''), (u ''entli'', u ''ent''), (u ''eli'', u ''e''),
    (u ''ousli'', u ''ous''), (u ''ization'', u ''ize''), (u ''ation'', u ''ate''),
    (u ''ator'', u ''ate''), (u ''alism'', u ''al''), (u ''iveness'', u ''ive''),
    (u ''fulness'', u ''ful''), (u ''ousness'', u ''ous''), (u ''aliti'', u ''al''),
    (u ''iviti'', u ''ive''), (u ''biliti'', u ''ble''), (u ''logi'', u ''log'')]"

definition step3list :: "ustr dict" where
  "step3list = [
    (u ''icate'', u ''ic''), (u ''ative'', u ''''), (u ''alize'', u ''al''),
    (u ''iciti'', u ''ic''), (u ''ical'', u ''ic''), (u ''ful'', u ''''), (u ''ness'', u '''')]"

definition re_c :: re where
  "re_c = none_of (u ''aeiou'')"

definition re_v :: re where
  "re_v = one_of (u ''aeiouy'')"

definition re_C :: re where
  "re_C = Seq re_c (Star True (none_of (u ''aeiouy'')))"

definition re_V :: re where
  "re_V = Seq re_v (Star True (one_of (u ''aeiou'')))"

definition mgr0 :: re where
  "mgr0 = seqs [Bol, Opt (Grp 1 re_C), re_V, re_C]"

definition meq1 :: re where
  "meq1 = seqs [Bol, Opt (Grp 1 re_C), re_V, re_C, Opt (Grp 2 re_V), Eol]"

definition mgr1 :: re where
  "mgr1 = seqs [Bol, Opt (Grp 1 re_C), re_V, re_C, re_V, re_C]"

definition s_v :: re where
  "s_v = seqs [Bol, Opt (Grp 1 re_C), re_v]"

text \<open>The pattern \<open>(.+?)\<close> that every step starts with, the pattern of a consonant-vowel-consonant
  ending, and \<open>w.replace(/.$/, "")\<close>.\<close>

definition stem_grp :: re where
  "stem_grp = Grp 1 (Plus False Dot)"

definition cvc :: re where
  "cvc = seqs [Bol, re_C, re_v, none_of (u ''aeiouwxy''), Eol]"

definition chop :: "ustr \<Rightarrow> ustr" where
  "chop w = replace1 (seqs [Dot, Eol]) (\<lambda>_. []) w"

definition step1a :: "ustr \<Rightarrow> ustr" where
  "step1a w =
    (let re = seqs [Bol, stem_grp, Grp 2 (alts [u ''ss'', u ''i'']), lit (u ''es''), Eol];
         re2 = seqs [Bol, stem_grp, Grp 2 (none_of (u ''s'')), lit (u ''s''), Eol]
     in if test re w then replace1 re (\<lambda>c. cap c 1 @ cap c 2) w
        else if test re2 w then replace1 re2 (\<lambda>c. cap c 1 @ cap c 2) w
        else w)"

definition step1b :: "ustr \<Rightarrow> ustr" where
  "step1b w =
    (case exec (seqs [Bol, stem_grp, lit (u ''eed''), Eol]) w of
       Some (_, _, fp) \<Rightarrow> if test mgr0 (cap fp 1) then chop w else w
     | None \<Rightarrow>
       (case exec (seqs [Bol, stem_grp, Grp 2 (alts [u ''ed'', u ''ing'']), Eol]) w of
          None \<Rightarrow> w
        | Some (_, _, fp) \<Rightarrow>
            let stem = cap fp 1 in
            if test s_v stem then
              if test (seqs [Grp 1 (alts [u ''at'', u ''bl'', u ''iz'']), Eol]) stem
              then stem @ u ''e''
              else if test (seqs [Grp 1 (none_of (u ''aeiouylsz'')), Bref 1, Eol]) stem
              then chop stem
              else if test cvc stem then stem @ u ''e'' else stem
            else w))"

definition step1c :: "ustr \<Rightarrow> ustr" where
  "step1c w =
    (case exec (seqs [Bol, stem_grp, lit (u ''y''), Eol]) w of
       None \<Rightarrow> w
     | Some (_, _, fp) \<Rightarrow> if test s_v (cap fp 1) then cap fp 1 @ u ''i'' else w)"

text \<open>A stored suffix is always a key of its table; \<open>undefined\<close> would be appended as a string.\<close>

definition suffix_of :: "ustr dict \<Rightarrow> ustr \<Rightarrow> ustr" where
  "suffix_of d s = (case dget d s of Some r \<Rightarrow> r | None \<Rightarrow> u ''undefined'')"

definition step2 :: "ustr \<Rightarrow> ustr" where
  "step2 w =
    (case exec (seqs [Bol, stem_grp, Grp 2 (alts [
      u ''ational'', u ''tional'', u ''enci'', u ''anci'', u ''izer'', u ''bli'', u ''alli'',
      u ''entli'', u ''eli'', u ''ousli'', u ''ization'', u ''ation'', u ''ator'', u ''alism'',
      u ''iveness'', u ''fulness'', u ''ousness'', u ''aliti'', u ''iviti'', u ''biliti'',
      u ''logi'']), Eol]) w of
       None \<Rightarrow> w
     | Some (_, _, fp) \<Rightarrow>
         if test mgr0 (cap fp 1) then cap fp 1 @ suffix_of step2list (cap fp 2) else w)"

definition step3 :: "ustr \<Rightarrow> ustr" where
  "step3 w =
    (case exec (seqs [Bol, stem_grp, Grp 2 (alts [
      u ''icate'', u ''ative'', u ''alize'', u ''iciti'', u ''ical'', u ''ful'', u ''ness'']), Eol]) w of
       None \<Rightarrow> w
     | Some (_, _, fp) \<Rightarrow>
         if test mgr0 (cap fp 1) then cap fp 1 @ suffix_of step3list (cap fp 2) else w)"

definition step4 :: "ustr \<Rightarrow> ustr" where
  "step4 w =
    (case exec (seqs [Bol, stem_grp, Grp 2 (alts [
      u ''al'', u ''ance'', u ''ence'', u ''er'', u ''ic'', u ''able'', u ''ible'', u ''ant'',
      u ''ement'', u ''ment'', u ''ent'', u ''ou'', u ''ism'', u ''ate'', u ''iti'', u ''ous'',
      u ''ive'', u ''ize'']), Eol]) w of
       Some (_, _, fp) \<Rightarrow> if test mgr1 (cap fp 1) then cap fp 1 else w
     | None \<Rightarrow>
       (case exec (seqs [Bol, stem_grp, Grp 2 (alts [u ''s'', u ''t'']), Grp 3 (lit (u ''ion'')), Eol]) w of
          None \<Rightarrow> w
        | Some (_, _, fp) \<Rightarrow>
            let stem = cap fp 1 @ cap fp 2 in if test mgr1 stem then stem else w))"

definition step5 :: "ustr \<Rightarrow> ustr" where
  "step5 w =
    (let w1 = (case exec (seqs [Bol, stem_grp, lit (u ''e''), Eol]) w of
                 None \<Rightarrow> w
               | Some (_, _, fp) \<Rightarrow>
                   let stem = cap fp 1 in
                   if test mgr1 stem \<or> test meq1 stem \<and> \<not> test cvc stem then stem else w)
     in if test (seqs [lit (u ''ll''), Eol]) w1 \<and> test mgr1 w1 then chop w1 else w1)"

definition stemWord :: "ustr \<Rightarrow> ustr" where
  "stemWord w =
    (if length w < 3 then w
     else let firstch = take 1 w;
              w1 = (if firstch = u ''y'' then to_upper firstch @ drop 1 w else w);
              w2 = step5 (step4 (step3 (step2 (step1c (step1b (step1a w1))))))
          in if firstch = u ''y'' then to_lower firstch @ drop 1 w2 else w2)"

section \<open>Splitting characters\<close>

definition split_singles :: "int list" where
  "split_singles = [
    96, 180, 187, 191, 215, 247, 749, 885, 903, 907, 909, 930, 1014, 1648, 1748, 1809, 2416,
    2473, 2481, 2526, 2601, 2609, 2612, 2615, 2653, 2702, 2706, 2729, 2737, 2740, 2857, 2865,
    2868, 2910, 2928, 2948, 2961, 2971, 2973, 3085, 3089, 3113, 3124, 3213, 3217, 3241, 3252,
    3295, 3341, 3345, 3369, 3506, 3516, 3633, 3715, 3721, 3736, 3744, 3748, 3750, 3756, 3761,
    3781, 3912, 4239, 4347, 4681, 4695, 4697, 4745, 4785, 4799, 4801, 4823, 4881, 5760, 5901,
    5997, 6313, 7405, 8024, 8026, 8028, 8030, 8117, 8125, 8133, 8181, 8468, 8485, 8487, 8489,
    8494, 8527, 11311, 11359, 11687, 11695, 11703, 11711, 11719, 11727, 11735, 12448, 12539,
    43010, 43014, 43019, 43587, 43696, 43713, 64286, 64297, 64311, 64317, 64319, 64322, 64325,
    65141]"

definition split_ranges :: "(int \<times> int) list" where
  "split_ranges = [
    (0, 47), (58, 64), (91, 94), (123, 169), (171, 177), (182, 184), (706, 709), (722, 735),
    (741, 747), (751, 879), (888, 889), (894, 901), (1154, 1161), (1318, 1328), (1367, 1368),
    (1370, 1376), (1416, 1487), (1515, 1519), (1523, 1568), (1611, 1631), (1642, 1645),
    (1750, 1764), (1767, 1773), (1789, 1790), (1792, 1807), (1840, 1868), (1958, 1968),
    (1970, 1983), (2027, 2035), (2038, 2041), (2043, 2047), (2070, 2073), (2075, 2083),
    (2085, 2087), (2089, 2307), (2362, 2364), (2366, 2383), (2385, 2391), (2402, 2405),
    (2419, 2424), (2432, 2436), (2445, 2446), (2449, 2450), (2483, 2485), (2490, 2492),
    (2494, 2509), (2511, 2523), (2530, 2533), (2546, 2547), (2554, 2564), (2571, 2574),
    (2577, 2578), (2618, 2648), (2655, 2661), (2672, 2673), (2677, 2692), (2746, 2748),
    (2750, 2767), (2769, 2783), (2786, 2789), (2800, 2820), (2829, 2830), (2833, 2834),
    (2874, 2876), (2878, 2907), (2914, 2917), (2930, 2946), (2955, 2957), (2966, 2968),
    (2976, 2978), (2981, 2983), (2987, 2989), (3002, 3023), (3025, 3045), (3059, 3076),
    (3130, 3132), (3134, 3159), (3162, 3167), (3170, 3173), (3184, 3191), (3199, 3204),
    (3258, 3260), (3262, 3293), (3298, 3301), (3312, 3332), (3386, 3388), (3390, 3423),
    (3426, 3429), (3446, 3449), (3456, 3460), (3479, 3481), (3518, 3519), (3527, 3584),
    (3636, 3647), (3655, 3663), (3674, 3712), (3717, 3718), (3723, 3724), (3726, 3731),
    (3752, 3753), (3764, 3772), (3774, 3775), (3783, 3791), (3802, 3803), (3806, 3839),
    (3841, 3871), (3892, 3903), (3949, 3975), (3980, 4095), (4139, 4158), (4170, 4175),
    (4182, 4185), (4190, 4192), (4194, 4196), (4199, 4205), (4209, 4212), (4226, 4237),
    (4250, 4255), (4294, 4303), (4349, 4351), (4686, 4687), (4702, 4703), (4750, 4751),
    (4790, 4791), (4806, 4807), (4886, 4887), (4955, 4968), (4989, 4991), (5008, 5023),
    (5109, 5120), (5741, 5742), (5787, 5791), (5867, 5869), (5873, 5887), (5906, 5919),
    (5938, 5951), (5970, 5983), (6001, 6015), (6068, 6102), (6104, 6107), (6109, 6111),
    (6122, 6127), (6138, 6159), (6170, 6175), (6264, 6271), (6315, 6319), (6390, 6399),
    (6429, 6469), (6510, 6511), (6517, 6527), (6572, 6592), (6600, 6607), (6619, 6655),
    (6679, 6687), (6741, 6783), (6794, 6799), (6810, 6822), (6824, 6916), (6964, 6980),
    (6988, 6991), (7002, 7042), (7073, 7085), (7098, 7167), (7204, 7231), (7242, 7244),
    (7294, 7400), (7410, 7423), (7616, 7679), (7958, 7959), (7966, 7967), (8006, 8007),
    (8014, 8015), (8062, 8063), (8127, 8129), (8141, 8143), (8148, 8149), (8156, 8159),
    (8173, 8177), (8189, 8303), (8306, 8307), (8314, 8318), (8330, 8335), (8341, 8449),
    (8451, 8454), (8456, 8457), (8470, 8472), (8478, 8483), (8506, 8507), (8512, 8516),
    (8522, 8525), (8586, 9311), (9372, 9449), (9472, 10101), (10132, 11263), (11493, 11498),
    (11503, 11516), (11518, 11519), (11558, 11567), (11622, 11630), (11632, 11647),
    (11671, 11679), (11743, 11822), (11824, 12292), (12296, 12320), (12330, 12336),
    (12342, 12343), (12349, 12352), (12439, 12444), (12544, 12548), (12590, 12592),
    (12687, 12689), (12694, 12703), (12728, 12783), (12800, 12831), (12842, 12880),
    (12896, 12927), (12938, 12976), (12992, 13311), (19894, 19967), (40908, 40959),
    (42125, 42191), (42238, 42239), (42509, 42511), (42540, 42559), (42592, 42593),
    (42607, 42622), (42648, 42655), (42736, 42774), (42784, 42785), (42889, 42890),
    (42893, 43002), (43043, 43055), (43062, 43071), (43124, 43137), (43188, 43215),
    (43226, 43249), (43256, 43258), (43260, 43263), (43302, 43311), (43335, 43359),
    (43389, 43395), (43443, 43470), (43482, 43519), (43561, 43583), (43596, 43599),
    (43610, 43615), (43639, 43641), (43643, 43647), (43698, 43700), (43703, 43704),
    (43710, 43711), (43715, 43738), (43742, 43967), (44003, 44015), (44026, 44031),
    (55204, 55215), (55239, 55242), (55292, 55295), (57344, 63743), (64046, 64047),
    (64110, 64111), (64218, 64255), (64263, 64274), (64280, 64284), (64434, 64466),
    (64830, 64847), (64912, 64913), (64968, 65007), (65020, 65135), (65277, 65295),
    (65306, 65312), (65339, 65344), (65371, 65381), (65471, 65473), (65480, 65481),
    (65488, 65489), (65496, 65497)]"

text \<open>The table is filled by two loops; an index that was never stored reads as \<open>undefined\<close>.\<close>

fun mark_singles :: "int list \<Rightarrow> (int \<Rightarrow> bool) \<Rightarrow> (int \<Rightarrow> bool)" where
  "mark_singles [] r = r"
| "mark_singles (i # is) r = mark_singles is (r(i := True))"

fun mark_range :: "int list \<Rightarrow> (int \<Rightarrow> bool) \<Rightarrow> (int \<Rightarrow> bool)" where
  "mark_range [] r = r"
| "mark_range (j # js) r = mark_range js (r(j := True))"

fun mark_ranges :: "(int \<times> int) list \<Rightarrow> (int \<Rightarrow> bool) \<Rightarrow> (int \<Rightarrow> bool)" where
  "mark_ranges [] r = r"
| "mark_ranges ((start, end) # rs) r = mark_ranges rs (mark_range [start..end] r)"

definition splitChars :: "int \<Rightarrow> bool" where
  "splitChars = mark_ranges split_ranges (mark_singles split_singles (\<lambda>_. False))"

text \<open>\<open>splitQuery\<close>: the loop over the indices, with the start of the current word and the words
  found.\<close>

fun split_loop :: "ustr \<Rightarrow> nat list \<Rightarrow> nat option \<Rightarrow> ustr list \<Rightarrow> nat option \<times> ustr list" where
  "split_loop q [] start result = (start, result)"
| "split_loop q (i # is) start result =
    (if splitChars (q ! i) then
       (case start of Some s \<Rightarrow> split_loop q is None (result @ [substring q s i])
        | None \<Rightarrow> split_loop q is None result)
     else (case start of None \<Rightarrow> split_loop q is (Some i) result
        | Some s \<Rightarrow> split_loop q is (Some s) result))"

definition splitQuery :: "ustr \<Rightarrow> ustr list" where
  "splitQuery q = (case split_loop q [0..<length q] None [] of
     (None, result) \<Rightarrow> result | (Some s, result) \<Rightarrow> result @ [drop s q])"

section \<open>Properties of the stemmer\<close>

text \<open>What every step does to a non-empty word.\<close>

definition shrinks :: "ustr \<Rightarrow> ustr \<Rightarrow> bool" where
  "shrinks w w' \<longleftrightarrow> w' \<noteq> [] \<and> hd w' = hd w \<and> length w' \<le> length w"

lemma shrinks_refl [simp]: "w \<noteq> [] \<Longrightarrow> shrinks w w"
  by (simp add: shrinks_def)

lemma shrinks_trans: "shrinks a b \<Longrightarrow> shrinks b c \<Longrightarrow> shrinks a c"
  by (auto simp: shrinks_def)

lemma shrinks_stem: "0 < j \<Longrightarrow> w \<noteq> [] \<Longrightarrow> j + length s \<le> length w \<Longrightarrow> shrinks w (take j w @ s)"
  by (cases w; cases j) (auto simp: shrinks_def)

lemma chop_eq: "w \<noteq> [] \<Longrightarrow> chop w = w \<or> chop w = butlast w"
proof (cases "exec (seqs [Dot, Eol]) w")
  case None
  then show ?thesis by (simp add: chop_def replace1_def)
next
  case (Some m)
  obtain a b c where m: "m = (a, b, c)" by (cases m)
  from exec_Some [OF Some [unfolded m]] have "b = length w \<and> a = length w - 1 \<and> a < b"
    by (auto simp: Dot_def split: if_splits)
  then show ?thesis
    using Some by (simp add: m chop_def replace1_def butlast_conv_take)
qed

lemma shrinks_chop: "2 \<le> length w \<Longrightarrow> shrinks w (chop w)"
  using chop_eq [of w] by (cases w) (auto simp: shrinks_def split: if_splits)

text \<open>A word that matches \<open>^(.+?)(alternatives)$\<close> is the stem followed by one of them.\<close>

lemma stem_alts_match:
  assumes "exec (seqs [Bol, stem_grp, Grp 2 (alts ws), Eol]) w = Some (a, b, c)"
  obtains j where "0 < j" "cap c 1 = take j w" "cap c 2 \<in> set ws" "j + length (cap c 2) = length w"
    "cap c 2 = drop j w"
proof -
  have "1 \<notin> grps (seqs [Grp 2 (alts ws), Eol])"
  proof -
    have "grps (lit x) = {}" for x by (induction x) (simp_all add: lit_def)
    then have "grps (alts ws) = {}" by (induction ws) (simp_all add: alts_def)
    then show ?thesis by (simp add: seqs_def)
  qed
  from stem_prefix_match [OF assms [unfolded stem_grp_def] this] obtain j c' where j: "0 < j"
    "j \<le> length w" "cap c 1 = take j w"
    and m: "(b, c') \<in> set (rm w (seqs [Grp 2 (alts ws), Eol]) (j, no_caps(1 := Some (take j w))))"
    and c: "c = c'(0 := Some (take b w))" by metis
  from m obtain st where st: "st \<in> set (rm w (alts ws) (j, no_caps(1 := Some (take j w))))"
    and f: "fst st = length w" and c': "c' = (snd st)(2 := Some (substring w j (fst st)))"
    by (auto split: if_splits)
  from in_rm_alts [OF st] obtain s where s: "s \<in> set ws"
    "st \<in> set (rm w (lit s) (j, no_caps(1 := Some (take j w))))" by blast
  from in_rm_lit_Eol [OF s(2) f] j have d: "drop j w = s" by simp
  have "cap c 2 = s" by (simp add: c c' cap_def f substring_def d [symmetric])
  moreover have "length s = length w - j" using d by (metis length_drop)
  then have "j + length s = length w" using j(2) by linarith
  ultimately show ?thesis using that j s d by simp
qed

lemma stem_lit_match:
  assumes "exec (seqs [Bol, stem_grp, lit s, Eol]) w = Some (a, b, c)"
  obtains j where "0 < j" "cap c 1 = take j w" "j + length s = length w"
proof -
  have "grps (lit x) = {}" for x by (induction x) (simp_all add: lit_def)
  then have g: "1 \<notin> grps (seqs [lit s, Eol])" by (simp add: seqs_def)
  from stem_prefix_match [OF assms [unfolded stem_grp_def] g] obtain j c' where j: "0 < j"
    "j \<le> length w" "cap c 1 = take j w"
    and m: "(b, c') \<in> set (rm w (seqs [lit s, Eol]) (j, no_caps(1 := Some (take j w))))" by metis
  from m obtain st where st: "st \<in> set (rm w (lit s) (j, no_caps(1 := Some (take j w))))"
    and f: "fst st = length w" by (auto split: if_splits)
  from in_rm_lit [OF st] f have "j + length s = length w" by simp
  with that j show ?thesis by blast
qed

lemma stem_two_match:
  assumes e: "exec (seqs [Bol, stem_grp, Grp 2 x, y, Eol]) w = Some (a, b, c)"
    and g: "1 \<notin> grps x" "1 \<notin> grps y" "2 \<notin> grps y"
  obtains k where "0 < k" "k \<le> length w" "a = 0" "b = length w" "cap c 1 @ cap c 2 = take k w"
proof -
  from g have g1: "1 \<notin> grps (seqs [Grp 2 x, y, Eol])" by (simp add: seqs_def)
  from stem_prefix_match [OF e [unfolded stem_grp_def] g1] obtain j c' where j: "0 < j"
    "j \<le> length w" "cap c 1 = take j w" "a = 0"
    and m: "(b, c') \<in> set (rm w (seqs [Grp 2 x, y, Eol]) (j, no_caps(1 := Some (take j w))))"
    and c: "c = c'(0 := Some (take b w))" by metis
  from m obtain st where st: "st \<in> set (rm w x (j, no_caps(1 := Some (take j w))))"
    and y: "(b, c') \<in> set (rm w y (fst st, (snd st)(2 := Some (substring w j (fst st)))))"
    and b: "b = length w" by (auto split: if_splits)
  from rm_mono [OF st] j have k: "j \<le> fst st" "fst st \<le> length w" by simp_all
  have "cap c 2 = substring w j (fst st)" using rm_caps [OF y g(3)] by (simp add: c cap_def)
  then have "cap c 1 @ cap c 2 = take (fst st) w"
    using j k substring_append [of 0 j "fst st" w] by (simp add: substring_def)
  moreover have "0 < fst st" using j(1) k(1) by linarith
  ultimately show ?thesis using that k(2) j(4) b by blast
qed

lemma grps_none_of [simp]: "grps (none_of x) = {}"
  by (simp add: none_of_def)

lemma shrinks_if:
  "(b \<Longrightarrow> shrinks w x) \<Longrightarrow> (\<not> b \<Longrightarrow> shrinks w y) \<Longrightarrow> shrinks w (if b then x else y)"
  by simp

lemma shrinks_opt:
  assumes "m = None \<Longrightarrow> shrinks w x" "\<And>a b c. m = Some (a, b, c) \<Longrightarrow> shrinks w (f c)"
  shows "shrinks w (case m of None \<Rightarrow> x | Some (a, b, c) \<Rightarrow> f c)"
  using assms by (cases m) auto

lemma grps_lit [simp]: "grps (lit x) = {}"
  by (induction x) (simp_all add: lit_def)

lemma grps_alts [simp]: "grps (alts ws) = {}"
  by (induction ws) (simp_all add: alts_def)

lemma shrinks_take: "0 < k \<Longrightarrow> w \<noteq> [] \<Longrightarrow> shrinks w (take k w)"
  by (cases w; cases k) (auto simp: shrinks_def)

lemma shrinks_step1a: "w \<noteq> [] \<Longrightarrow> shrinks w (step1a w)"
proof -
  assume w: "w \<noteq> []"
  have r: "shrinks w (replace1 (seqs [Bol, stem_grp, Grp 2 x, y, Eol]) (\<lambda>c. cap c 1 @ cap c 2) w)"
    if "1 \<notin> grps x" "1 \<notin> grps y" "2 \<notin> grps y" for x y
  proof (cases "exec (seqs [Bol, stem_grp, Grp 2 x, y, Eol]) w")
    case (Some m)
    obtain a b c where m: "m = (a, b, c)" by (cases m)
    from stem_two_match [OF Some [unfolded m] that] obtain k where "0 < k" "a = 0" "b = length w"
      "cap c 1 @ cap c 2 = take k w" by metis
    then show ?thesis using Some w by (simp add: replace1_def m shrinks_take)
  qed (simp add: replace1_def w)
  show ?thesis
    unfolding step1a_def Let_def
    by (intro shrinks_if r shrinks_refl w) simp_all
qed

lemma shrinks_step1b: "w \<noteq> [] \<Longrightarrow> shrinks w (step1b w)"
proof -
  assume w: "w \<noteq> []"
  have c: "shrinks w (chop w)" if "exec (seqs [Bol, stem_grp, lit (u ''eed''), Eol]) w = Some (a, b, c)" for a b c
    by (rule shrinks_chop, rule stem_lit_match [OF that]) simp
  have d: "shrinks w (take j w @ u ''e'') \<and> shrinks w (take j w) \<and>
      (test (seqs [Grp 1 (none_of (u ''aeiouylsz'')), Bref 1, Eol]) (take j w) \<longrightarrow> shrinks w (chop (take j w)))"
    if e: "exec (seqs [Bol, stem_grp, Grp 2 (alts [u ''ed'', u ''ing'']), Eol]) w = Some (a, b, c)"
      and j: "cap c 1 = take j w" "0 < j" "j + 2 \<le> length w" for a b c j
  proof -
    have "shrinks w (chop (take j w))"
      if t: "test (seqs [Grp 1 (none_of (u ''aeiouylsz'')), Bref 1, Eol]) (take j w)"
    proof -
      from t obtain a b c where
        "exec (seqs [Grp 1 (none_of (u ''aeiouylsz'')), Bref 1, Eol]) (take j w) = Some (a, b, c)"
        by (auto simp: test_def)
      from exec_Some [OF this] have "2 \<le> length (take j w)"
        by (auto simp: none_of_def substring_def split: if_splits)
      then have "shrinks (take j w) (chop (take j w))" by (rule shrinks_chop)
      then show ?thesis using shrinks_trans [OF shrinks_take [OF j(2) w]] by blast
    qed
    with j w shrinks_stem [of j w "u ''e''"] show ?thesis by (simp add: shrinks_take)
  qed
  have s: "\<exists>j. cap c 1 = take j w \<and> 0 < j \<and> j + 2 \<le> length w"
    if "exec (seqs [Bol, stem_grp, Grp 2 (alts [u ''ed'', u ''ing'']), Eol]) w = Some (a, b, c)" for a b c
  proof (rule stem_alts_match [OF that])
    fix j assume j: "0 < j" "cap c 1 = take j w" "cap c 2 \<in> set [u ''ed'', u ''ing'']"
      "j + length (cap c 2) = length w"
    from j(3) have "2 \<le> length (cap c 2)" by auto
    with j show ?thesis by (intro exI [of _ j]) linarith
  qed
  show ?thesis
  proof (cases "exec (seqs [Bol, stem_grp, lit (u ''eed''), Eol]) w")
    case (Some m)
    with w c [of "fst m" "fst (snd m)" "snd (snd m)"] show ?thesis
      by (simp add: step1b_def split: prod.split)
  next
    case None
    show ?thesis
    proof (cases "exec (seqs [Bol, stem_grp, Grp 2 (alts [u ''ed'', u ''ing'']), Eol]) w")
      case (Some m)
      obtain a b x where m: "m = (a, b, x)" by (cases m)
      from s [OF Some [unfolded m]] obtain j where j: "cap x 1 = take j w" "0 < j" "j + 2 \<le> length w"
        by blast
      from d [OF Some [unfolded m] j] show ?thesis
        using w by (simp only: step1b_def None Some m option.case prod.case Let_def j(1))
          (intro shrinks_if shrinks_refl; blast)
    qed (simp add: step1b_def None w)
  qed
qed

lemma shrinks_step1c: "w \<noteq> [] \<Longrightarrow> shrinks w (step1c w)"
proof -
  assume w: "w \<noteq> []"
  have "shrinks w (cap c 1 @ u ''i'')"
    if "exec (seqs [Bol, stem_grp, lit (u ''y''), Eol]) w = Some (a, b, c)" for a b c
    by (rule stem_lit_match [OF that]) (use w shrinks_stem [of _ w "u ''i''"] in simp)
  then show ?thesis
    unfolding step1c_def using w by (auto split: option.splits prod.splits)
qed

lemma shrinks_suffix:
  assumes "\<forall>s \<in> set ws. length (suffix_of d s) \<le> length s" "w \<noteq> []"
    and "exec (seqs [Bol, stem_grp, Grp 2 (alts ws), Eol]) w = Some (a, b, c)"
  shows "shrinks w (cap c 1 @ suffix_of d (cap c 2))"
  by (rule stem_alts_match [OF assms(3)])
    (use assms(1,2) shrinks_stem [of _ w "suffix_of d (cap c 2)"] in fastforce)

lemma shrinks_case:
  assumes "\<forall>s \<in> set ws. length (suffix_of d s) \<le> length s" "w \<noteq> []"
  shows "shrinks w (case exec (seqs [Bol, stem_grp, Grp 2 (alts ws), Eol]) w of None \<Rightarrow> w
     | Some (_, _, fp) \<Rightarrow> if test r (cap fp 1) then cap fp 1 @ suffix_of d (cap fp 2) else w)"
  by (intro shrinks_opt shrinks_if shrinks_refl assms(2) shrinks_suffix [OF assms])

lemma shrinks_step2: "w \<noteq> [] \<Longrightarrow> shrinks w (step2 w)"
  unfolding step2_def
  by (rule shrinks_case) (simp_all add: suffix_of_def step2list_def ulit)

lemma shrinks_step3: "w \<noteq> [] \<Longrightarrow> shrinks w (step3 w)"
  unfolding step3_def
  by (rule shrinks_case) (simp_all add: suffix_of_def step3list_def ulit)

lemma shrinks_step4: "w \<noteq> [] \<Longrightarrow> shrinks w (step4 w)"
proof -
  assume w: "w \<noteq> []"
  have 1: "shrinks w (cap c 1)"
    if "exec (seqs [Bol, stem_grp, Grp 2 (alts ws), Eol]) w = Some (a, b, c)" for a b c ws
    by (rule stem_alts_match [OF that]) (use w shrinks_take in simp)
  have 2: "shrinks w (cap c 1 @ cap c 2)"
    if "exec (seqs [Bol, stem_grp, Grp 2 (alts [u ''s'', u ''t'']), Grp 3 (lit (u ''ion'')), Eol]) w
      = Some (a, b, c)" for a b c
    by (rule stem_two_match [OF that]) (use w shrinks_take in auto)
  show ?thesis
    unfolding step4_def Let_def using w
    by (intro shrinks_opt shrinks_if shrinks_refl w) ((rule 1 2, assumption)+)
qed

lemma shrinks_step5: "w \<noteq> [] \<Longrightarrow> shrinks w (step5 w)"
proof -
  assume w: "w \<noteq> []"
  define w1 where "w1 = (case exec (seqs [Bol, stem_grp, lit (u ''e''), Eol]) w of
                 None \<Rightarrow> w
               | Some (_, _, fp) \<Rightarrow>
                   let stem = cap fp 1 in
                   if test mgr1 stem \<or> test meq1 stem \<and> \<not> test cvc stem then stem else w)"
  have "shrinks w (cap c 1)" if "exec (seqs [Bol, stem_grp, lit (u ''e''), Eol]) w = Some (a, b, c)" for a b c
    by (rule stem_lit_match [OF that]) (use w shrinks_take in simp)
  then have 1: "shrinks w w1"
    unfolding w1_def Let_def by (intro shrinks_opt shrinks_if shrinks_refl w)
  have "shrinks w1 (chop w1)" if t: "test (seqs [lit (u ''ll''), Eol]) w1"
  proof (rule shrinks_chop)
    from t obtain a b c where "exec (seqs [lit (u ''ll''), Eol]) w1 = Some (a, b, c)"
      by (auto simp: test_def)
    from exec_Some [OF this] obtain st where
      "st \<in> set (rm w1 (lit (u ''ll'')) (a, no_caps))" "fst st = length w1"
      by (auto split: if_splits)
    from in_rm_lit [OF this(1)] this(2) show "2 \<le> length w1" by simp
  qed
  then have "shrinks w1 (if test (seqs [lit (u ''ll''), Eol]) w1 \<and> test mgr1 w1 then chop w1 else w1)"
    using 1 by (intro shrinks_if shrinks_refl) (simp_all add: shrinks_def)
  from shrinks_trans [OF 1 this] show ?thesis
    unfolding step5_def w1_def by (simp only: Let_def)
qed

lemma shrinks_steps:
  assumes "w \<noteq> []"
  shows "shrinks w (step5 (step4 (step3 (step2 (step1c (step1b (step1a w)))))))"
proof -
  note t = shrinks_trans [of w]
  have n: "shrinks w x \<Longrightarrow> x \<noteq> []" for x by (simp add: shrinks_def)
  note a = shrinks_step1a [OF assms]
  note b = t [OF a shrinks_step1b [OF n [OF a]]]
  note c = t [OF b shrinks_step1c [OF n [OF b]]]
  note d = t [OF c shrinks_step2 [OF n [OF c]]]
  note e = t [OF d shrinks_step3 [OF n [OF d]]]
  note f = t [OF e shrinks_step4 [OF n [OF e]]]
  show ?thesis by (rule t [OF f shrinks_step5 [OF n [OF f]]])
qed

lemma stemWord_keeps:
  "(length w < 3 \<longrightarrow> stemWord w = w) \<and>
   (w \<noteq> [] \<longrightarrow> stemWord w \<noteq> [] \<and> length (stemWord w) \<le> length w \<and> hd (stemWord w) = hd w)"
proof (cases "length w < 3")
  case False
  then obtain x xs where w: "w = x # xs" by (cases w) auto
  show ?thesis
  proof (cases "take 1 w = u ''y''")
    case True
    let ?w = "to_upper (take 1 w) @ drop 1 w"
    have "?w \<noteq> []" using w by (simp add: to_upper_def)
    from shrinks_steps [OF this] obtain y ys where
      y: "step5 (step4 (step3 (step2 (step1c (step1b (step1a ?w)))))) = y # ys" "length ys \<le> length xs"
      by (auto simp: shrinks_def neq_Nil_conv w to_upper_def)
    have e: "stemWord w = to_lower (take 1 w) @ ys"
      using False True y by (simp add: stemWord_def Let_def)
    have "to_lower (take 1 w) = take 1 w"
      using True w by (simp add: to_lower_def to_lower_unit_def ulit)
    then show ?thesis using False e y(2) w by simp
  next
    case False2: False
    then have "stemWord w = step5 (step4 (step3 (step2 (step1c (step1b (step1a w))))))"
      using False by (simp add: stemWord_def Let_def)
    then show ?thesis using shrinks_steps [of w] False w by (auto simp: shrinks_def)
  qed
qed (auto simp: stemWord_def)

text \<open>Stemming a word of at least three units returns a non-empty word that is not longer and
  starts with the same unit; shorter words are returned as they are.\<close>

theorem stemWord_bounds:
  "(length w < 3 \<longrightarrow> stemWord w = w) \<and>
   (w \<noteq> [] \<longrightarrow> stemWord w \<noteq> [] \<and> length (stemWord w) \<le> length w \<and> hd (stemWord w) = hd w)"
  by (rule stemWord_keeps)

theorem stemWord_bounds_witness:
  "stemWord (u ''hopping'') = u ''hop'' \<and> length (stemWord (u ''hopping'')) \<le> 7"
proof -
  have "length (stemWord (u ''hopping'')) \<le> length (u ''hopping'')"
    using stemWord_bounds [of "u ''hopping''"] by (simp add: ulit)
  moreover have "stemWord (u ''hopping'') = u ''hop''" by code_simp
  ultimately show ?thesis by simp
qed

section \<open>Properties of the splitter\<close>

lemma mark_range_eq: "mark_range js r c \<longleftrightarrow> c \<in> set js \<or> r c"
  by (induction js arbitrary: r) auto

lemma mark_singles_eq: "mark_singles is r c \<longleftrightarrow> c \<in> set is \<or> r c"
  by (induction "is" arbitrary: r) auto

lemma mark_ranges_eq: "mark_ranges rs r c \<longleftrightarrow> (\<exists>(a, b) \<in> set rs. a \<le> c \<and> c \<le> b) \<or> r c"
proof (induction rs r rule: mark_ranges.induct)
  case (2 a b rs r)
  show ?case unfolding mark_ranges.simps 2 mark_range_eq by auto
qed simp

lemma takeWhile_sorted:
  assumes "sorted (map f xs)" "\<And>x. P x \<Longrightarrow> f x \<le> (c :: int)"
  shows "list_ex P (takeWhile (\<lambda>x. f x \<le> (c :: int)) xs) \<longleftrightarrow> list_ex P xs"
  using assms
proof (induction xs)
  case (Cons x xs)
  show ?case
  proof (cases "f x \<le> c")
    case False
    have "\<not> P y" if "y \<in> set (x # xs)" for y
    proof
      assume "P y"
      then have "f y \<le> c" using Cons.prems(2) by blast
      moreover have "f x \<le> f y" using that Cons.prems(1) by auto
      ultimately show False using False by linarith
    qed
    then show ?thesis using False by (auto simp: list_ex_iff)
  qed (use Cons in simp)
qed simp

lemma splitChars_eq:
  "splitChars c \<longleftrightarrow> list_ex (\<lambda>(a, b). a \<le> c \<and> c \<le> b) split_ranges \<or> c \<in> set split_singles"
  by (auto simp: splitChars_def mark_ranges_eq mark_singles_eq list_ex_iff)

lemma splitChars_code [code]:
  "splitChars c \<longleftrightarrow>
     list_ex (\<lambda>(a, b). a \<le> c \<and> c \<le> b) (takeWhile (\<lambda>r. fst r \<le> c) split_ranges)
     \<or> list_ex ((=) c) (takeWhile (\<lambda>s. s \<le> c) split_singles)"
proof -
  have "sorted (map fst split_ranges)" "sorted (map (\<lambda>s. s) split_singles)"
    by (simp_all only: split_ranges_def split_singles_def list.map fst_conv sorted2 sorted1) simp_all
  then have a: "list_ex (\<lambda>(a, b). a \<le> c \<and> c \<le> b) (takeWhile (\<lambda>r. fst r \<le> c) split_ranges)
      \<longleftrightarrow> list_ex (\<lambda>(a, b). a \<le> c \<and> c \<le> b) split_ranges"
    and b: "list_ex ((=) c) (takeWhile (\<lambda>s. s \<le> c) split_singles) \<longleftrightarrow> list_ex ((=) c) split_singles"
    by (intro takeWhile_sorted; auto)+
  show ?thesis unfolding a b splitChars_eq by (auto simp: list_ex_iff)
qed

lemma splitChars_range: "(a, b) \<in> set split_ranges \<Longrightarrow> a \<le> c \<Longrightarrow> c \<le> b \<Longrightarrow> splitChars c"
  by (auto simp: splitChars_eq list_ex_iff)

lemma splitChars_single: "c \<in> set split_singles \<Longrightarrow> splitChars c"
  by (simp add: splitChars_eq)

text \<open>White space splits.\<close>

lemma splitChars_space: "is_space c \<Longrightarrow> splitChars c"
proof -
  assume "is_space c"
  then consider "0 \<le> c \<and> c \<le> 47" | "123 \<le> c \<and> c \<le> 169" | "c = 5760" | "8189 \<le> c \<and> c \<le> 8303"
    | "11824 \<le> c \<and> c \<le> 12292" | "65277 \<le> c \<and> c \<le> 65295"
    unfolding is_space_def line_end_def by linarith
  moreover have "{(0, 47), (123, 169), (8189, 8303), (11824, 12292), (65277, 65295)} \<subseteq> set split_ranges"
    by code_simp
  moreover have "5760 \<in> set split_singles" by code_simp
  ultimately show ?thesis
    by cases (auto intro: splitChars_range splitChars_single)
qed

text \<open>The reference: skip the splitting characters, take the run of the others, repeat.\<close>

function words :: "('a \<Rightarrow> bool) \<Rightarrow> 'a list \<Rightarrow> 'a list list" where
  "words p s = (case dropWhile p s of [] \<Rightarrow> []
     | s' \<Rightarrow> takeWhile (\<lambda>c. \<not> p c) s' # words p (dropWhile (\<lambda>c. \<not> p c) s'))"
  by pat_completeness auto
termination
proof (relation "measure (\<lambda>(p, s). length s)", simp)
  fix p :: "'a \<Rightarrow> bool" and s x xs
  assume e: "dropWhile p s = x # xs"
  then have "\<not> p x" using hd_dropWhile [of p s] by simp
  moreover have "length (x # xs) \<le> length s" using e length_dropWhile_le [of p s] by simp
  moreover have "length (dropWhile (\<lambda>c. \<not> p c) xs) \<le> length xs" by (rule length_dropWhile_le)
  ultimately show "((p, dropWhile (\<lambda>c. \<not> p c) (x # xs)), p, s) \<in> measure (\<lambda>(p, s). length s)"
    by simp
qed

declare words.simps [simp del]

lemma words_Nil [simp]: "words p [] = []"
  by (simp add: words.simps)

lemma words_skip [simp]: "p c \<Longrightarrow> words p (c # s) = words p s"
  by (simp add: words.simps [of p "c # s"] words.simps [of p s])

lemma words_run:
  "r \<noteq> [] \<Longrightarrow> \<forall>c \<in> set r. \<not> p c \<Longrightarrow> words p (r @ c # s) = (if p c then r # words p s else words p ((r @ [c]) @ s))"
proof (cases r)
  case (Cons x xs)
  assume r: "\<forall>c \<in> set r. \<not> p c"
  have n: "words p (x # ys) = takeWhile (\<lambda>c. \<not> p c) (x # ys) # words p (dropWhile (\<lambda>c. \<not> p c) (x # ys))" for ys
    using r by (subst words.simps) (simp add: Cons)
  show ?thesis
  proof (cases "p c")
    case True
    then show ?thesis using r by (simp add: Cons n)
  qed (simp add: Cons)
qed simp

lemma words_last: "r \<noteq> [] \<Longrightarrow> \<forall>c \<in> set r. \<not> p c \<Longrightarrow> words p r = [r]"
  by (subst words.simps) (auto simp: neq_Nil_conv takeWhile_eq_all_conv [THEN iffD2]
      dropWhile_eq_Nil_conv [THEN iffD2])

lemma split_loop_words:
  assumes "i \<le> length q"
    and "case start of None \<Rightarrow> True
         | Some s \<Rightarrow> s < i \<and> (\<forall>c \<in> set (substring q s i). \<not> splitChars c)"
  shows "(case split_loop q [i..<length q] start res of
       (None, r) \<Rightarrow> r | (Some s, r) \<Rightarrow> r @ [drop s q])
     = res @ words splitChars ((case start of None \<Rightarrow> [] | Some s \<Rightarrow> substring q s i) @ drop i q)"
  using assms
proof (induction "length q - i" arbitrary: i start res)
  case 0
  then show ?case
    by (cases start) (auto simp: substring_def words_last)
next
  case (Suc n)
  then have i: "i < length q" by simp
  then have u: "[i..<length q] = i # [Suc i..<length q]" and d: "drop i q = q ! i # drop (Suc i) q"
    by (simp_all add: upt_conv_Cons Cons_nth_drop_Suc)
  have n: "n = length q - Suc i" using Suc.hyps by simp
  show ?case
  proof (cases start)
    case None
    show ?thesis
    proof (cases "splitChars (q ! i)")
      case True
      then show ?thesis using Suc.hyps(1) [OF n, of None res] i None by (simp add: u d)
    next
      case False
      then show ?thesis
        using Suc.hyps(1) [OF n, of "Some i" res] i None by (simp add: u d substring_Suc)
    qed
  next
    case (Some s)
    with Suc.prems have s: "s < i" "\<forall>c \<in> set (substring q s i). \<not> splitChars c" by simp_all
    have r: "substring q s i \<noteq> []" using s i by (simp add: substring_def)
    have e: "substring q s (Suc i) = substring q s i @ [q ! i]" using s i by (simp add: substring_Suc)
    show ?thesis
    proof (cases "splitChars (q ! i)")
      case True
      then show ?thesis
        using Suc.hyps(1) [OF n, of None "res @ [substring q s i]"] i
        by (simp add: Some u d words_run [OF r s(2)])
    next
      case False
      then show ?thesis
        using Suc.hyps(1) [OF n, of "Some s" res] i s by (simp add: Some u d e)
    qed
  qed
qed

lemma splitQuery_words_lib: "splitQuery q = words splitChars q"
  unfolding splitQuery_def using split_loop_words [of 0 q None "[]"] by simp

text \<open>\<open>splitQuery\<close> returns, in order, the maximal runs of units that are not splitting
  characters.\<close>

theorem splitQuery_words: "splitQuery q = words splitChars q"
  by (rule splitQuery_words_lib)

lemma words_no_split: "w \<in> set (words p s) \<Longrightarrow> w \<noteq> [] \<and> (\<forall>c \<in> set w. \<not> p c)"
proof (induction p s rule: words.induct)
  case (1 p s)
  show ?case
  proof (cases "dropWhile p s")
    case (Cons x xs)
    then have "\<not> p x" using hd_dropWhile [of p s] by simp
    have "words p s = takeWhile (\<lambda>c. \<not> p c) (x # xs) # words p (dropWhile (\<lambda>c. \<not> p c) (x # xs))"
      by (subst words.simps) (simp add: Cons)
    with 1(2) have "w = takeWhile (\<lambda>c. \<not> p c) (x # xs) \<or> w \<in> set (words p (dropWhile (\<lambda>c. \<not> p c) (x # xs)))"
      by simp
    then show ?thesis
    proof
      assume e: "w = takeWhile (\<lambda>c. \<not> p c) (x # xs)"
      have "\<forall>c \<in> set w. \<not> p c" unfolding e by (metis set_takeWhileD)
      moreover have "w \<noteq> []" using calculation by (simp add: e \<open>\<not> p x\<close>)
      ultimately show ?thesis by blast
    qed (rule 1(1) [OF Cons])
  next
    case Nil
    then have "words p s = []" by (subst words.simps) (simp only: list.case)
    with 1(2) show ?thesis by simp
  qed
qed

lemma splitQuery_word:
  assumes "w \<in> set (splitQuery q)"
  shows "w \<noteq> [] \<and> (\<forall>c \<in> set w. \<not> splitChars c)"
  by (rule words_no_split) (use assms in \<open>simp add: splitQuery_words_lib\<close>)

text \<open>The minus sign is a splitting character, so no word of a query contains one.\<close>

lemma splitQuery_no_minus: "w \<in> set (splitQuery q) \<Longrightarrow> 45 \<notin> set w"
proof -
  assume "w \<in> set (splitQuery q)"
  moreover have "splitChars 45" by (simp add: splitChars_eq split_ranges_def)
  ultimately show ?thesis using splitQuery_word by blast
qed

end
