(* ===== verification/JsUri.thy ===== *)
theory JsUri
  imports JsPrelude
begin

text \<open>
  The library functions \<open>encodeURIComponent\<close> and \<open>decodeURIComponent\<close>, on which the passing of search
  terms between the pages rests: UTF-16 units to code points, code points to UTF-8 bytes, bytes to
  percent escapes, and back.  \<open>None\<close> is the \<open>URIError\<close> both functions throw on malformed input.  The
  last lemma is their round trip.
\<close>

section \<open>Surrogates\<close>

definition is_high :: "int \<Rightarrow> bool" where
  "is_high c \<longleftrightarrow> 55296 \<le> c \<and> c \<le> 56319"

definition is_low :: "int \<Rightarrow> bool" where
  "is_low c \<longleftrightarrow> 56320 \<le> c \<and> c \<le> 57343"

fun to_points :: "ustr \<Rightarrow> int list option" where
  "to_points [] = Some []"
| "to_points (c # s) =
    (if is_low c then None
     else if is_high c then
       (case s of d # t \<Rightarrow>
          if is_low d
          then map_option ((#) ((c - 55296) * 1024 + (d - 56320) + 65536)) (to_points t)
          else None
        | [] \<Rightarrow> None)
     else map_option ((#) c) (to_points s))"

definition of_point :: "int \<Rightarrow> ustr" where
  "of_point p = (if p < 65536 then [p]
     else [(p - 65536) div 1024 + 55296, (p - 65536) mod 1024 + 56320])"

section \<open>UTF-8\<close>

definition utf8 :: "int \<Rightarrow> int list" where
  "utf8 p =
    (if p < 128 then [p]
     else if p < 2048 then [192 + p div 64, 128 + p mod 64]
     else if p < 65536 then [224 + p div 4096, 128 + p div 64 mod 64, 128 + p mod 64]
     else [240 + p div 262144, 128 + p div 4096 mod 64, 128 + p div 64 mod 64, 128 + p mod 64])"

definition is_cont :: "int \<Rightarrow> bool" where
  "is_cont b \<longleftrightarrow> 128 \<le> b \<and> b < 192"

text \<open>The code point of a sequence of bytes that starts with a byte of at least 128, when it is
  well formed: no overlong form, no surrogate, nothing above \<open>0x10FFFF\<close>.\<close>

definition utf8_point :: "int list \<Rightarrow> int option" where
  "utf8_point bs = (case bs of
     [a, b] \<Rightarrow>
       let p = (a - 192) * 64 + (b - 128) in
       if 192 \<le> a \<and> a < 224 \<and> is_cont b \<and> 128 \<le> p then Some p else None
   | [a, b, c] \<Rightarrow>
       let p = ((a - 224) * 64 + (b - 128)) * 64 + (c - 128) in
       if 224 \<le> a \<and> a < 240 \<and> is_cont b \<and> is_cont c \<and> 2048 \<le> p \<and> \<not> (55296 \<le> p \<and> p \<le> 57343)
       then Some p else None
   | [a, b, c, d] \<Rightarrow>
       let p = (((a - 240) * 64 + (b - 128)) * 64 + (c - 128)) * 64 + (d - 128) in
       if 240 \<le> a \<and> a < 248 \<and> is_cont b \<and> is_cont c \<and> is_cont d \<and> 65536 \<le> p \<and> p \<le> 1114111
       then Some p else None
   | _ \<Rightarrow> None)"

definition utf8_len :: "int \<Rightarrow> nat" where
  "utf8_len a = (if a < 192 then 0 else if a < 224 then 2 else if a < 240 then 3
     else if a < 248 then 4 else 0)"

section \<open>Percent escapes\<close>

definition hex :: "int \<Rightarrow> int" where
  "hex d = (if d < 10 then 48 + d else 55 + d)"

definition unhex :: "int \<Rightarrow> int option" where
  "unhex c = (if 48 \<le> c \<and> c \<le> 57 then Some (c - 48)
     else if 65 \<le> c \<and> c \<le> 70 then Some (c - 55)
     else if 97 \<le> c \<and> c \<le> 102 then Some (c - 87) else None)"

definition pct :: "int \<Rightarrow> ustr" where
  "pct b = [37, hex (b div 16), hex (b mod 16)]"

fun unpct :: "ustr \<Rightarrow> (int \<times> ustr) option" where
  "unpct (c # x # y # s) =
    (if c = 37 then
       case unhex x of None \<Rightarrow> None
       | Some a \<Rightarrow> (case unhex y of None \<Rightarrow> None | Some b \<Rightarrow> Some (16 * a + b, s))
     else None)"
| "unpct _ = None"

fun unpcts :: "nat \<Rightarrow> ustr \<Rightarrow> (int list \<times> ustr) option" where
  "unpcts 0 s = Some ([], s)"
| "unpcts (Suc n) s = (case unpct s of None \<Rightarrow> None
     | Some (b, t) \<Rightarrow> map_option (\<lambda>(bs, r). (b # bs, r)) (unpcts n t))"

text \<open>The units that are left alone: letters, digits and \<open>- _ . ! ~ * ' ( )\<close>.\<close>

definition uri_plain :: "int \<Rightarrow> bool" where
  "uri_plain c \<longleftrightarrow> 65 \<le> c \<and> c \<le> 90 \<or> 97 \<le> c \<and> c \<le> 122 \<or> 48 \<le> c \<and> c \<le> 57
     \<or> c \<in> {45, 95, 46, 33, 126, 42, 39, 40, 41}"

definition enc_point :: "int \<Rightarrow> ustr" where
  "enc_point p = (if uri_plain p then [p] else concat (map pct (utf8 p)))"

definition encodeURIComponent :: "ustr \<Rightarrow> ustr option" where
  "encodeURIComponent s = map_option (\<lambda>ps. concat (map enc_point ps)) (to_points s)"

lemma unpct_length: "unpct s = Some (b, t) \<Longrightarrow> length t < length s"
  by (induction s rule: unpct.induct) (auto split: if_splits option.splits)

lemma unpcts_length: "unpcts n s = Some (bs, t) \<Longrightarrow> length t \<le> length s"
proof (induction n arbitrary: s bs)
  case (Suc n)
  then obtain b t' bs' where "unpct s = Some (b, t')" "unpcts n t' = Some (bs', t)"
    by (auto split: option.splits)
  with Suc.IH unpct_length show ?case by fastforce
qed simp

function decodeURIComponent :: "ustr \<Rightarrow> ustr option" where
  "decodeURIComponent s = (case s of [] \<Rightarrow> Some []
     | c # t \<Rightarrow>
         if c \<noteq> 37 then map_option ((#) c) (decodeURIComponent t)
         else (case unpct s of None \<Rightarrow> None
           | Some (a, r) \<Rightarrow>
               if a < 128 then map_option ((#) a) (decodeURIComponent r)
               else (case unpcts (utf8_len a) s of None \<Rightarrow> None
                 | Some (bs, r') \<Rightarrow>
                     (case utf8_point bs of None \<Rightarrow> None
                      | Some p \<Rightarrow> if length r' < length s
                          then map_option ((@) (of_point p)) (decodeURIComponent r')
                          else None))))"
  by pat_completeness auto
termination
  by (relation "measure length") (auto dest: unpct_length)

declare decodeURIComponent.simps [simp del]

section \<open>Round trip\<close>

lemma unhex_hex [simp]: "0 \<le> d \<Longrightarrow> d < 16 \<Longrightarrow> unhex (hex d) = Some d"
  by (simp add: unhex_def hex_def)

lemma unpct_pct [simp]: "0 \<le> b \<Longrightarrow> b < 256 \<Longrightarrow> unpct (pct b @ s) = Some (b, s)"
  by (simp add: pct_def)

lemma unpcts_pct:
  "\<forall>b \<in> set bs. 0 \<le> b \<and> b < 256 \<Longrightarrow> unpcts (length bs) (concat (map pct bs) @ s) = Some (bs, s)"
  by (induction bs) simp_all

lemma surrogate_pair:
  assumes "is_high c" "is_low d"
  shows "of_point ((c - 55296) * 1024 + (d - 56320) + 65536) = [c, d]"
    and "65536 \<le> (c - 55296) * 1024 + (d - 56320) + 65536"
    and "(c - 55296) * 1024 + (d - 56320) + 65536 \<le> 1114111"
proof -
  define x y where "x = c - 55296" and "y = d - 56320"
  then have r: "0 \<le> x" "x \<le> 1023" "0 \<le> y" "y < 1024" using assms by (auto simp: is_high_def is_low_def)
  then have e: "(x * 1024 + y) div 1024 = x" "(x * 1024 + y) mod 1024 = y" by simp_all
  show "of_point ((c - 55296) * 1024 + (d - 56320) + 65536) = [c, d]"
    unfolding x_def [symmetric] y_def [symmetric] of_point_def using r e
    by (simp add: x_def y_def)
  show "65536 \<le> (c - 55296) * 1024 + (d - 56320) + 65536"
    "(c - 55296) * 1024 + (d - 56320) + 65536 \<le> 1114111"
    unfolding x_def [symmetric] y_def [symmetric] using r by linarith+
qed

text \<open>The three shapes of a string that has code points.\<close>

lemma to_points_cases:
  assumes "to_points (c # s) = Some ps"
  obtains (plain) qs where "\<not> is_high c" "\<not> is_low c" "to_points s = Some qs" "ps = c # qs"
  | (pair) d t qs where "is_high c" "is_low d" "s = d # t" "to_points t = Some qs"
      "ps = ((c - 55296) * 1024 + (d - 56320) + 65536) # qs"
  using assms by (auto split: if_splits list.splits)

lemma to_points_range:
  "to_points s = Some ps \<Longrightarrow> \<forall>c \<in> set s. 0 \<le> c \<and> c < 65536 \<Longrightarrow>
     \<forall>p \<in> set ps. 0 \<le> p \<and> p \<le> 1114111 \<and> \<not> (55296 \<le> p \<and> p \<le> 57343)"
proof (induction s arbitrary: ps rule: to_points.induct)
  case (2 c s)
  from 2(3) show ?case
  proof (cases rule: to_points_cases)
    case (plain qs)
    with 2(2) [of qs] 2(4) show ?thesis by (auto simp: is_high_def is_low_def)
  next
    case (pair d t qs)
    moreover have "\<not> is_low c" using pair(1) by (auto simp: is_high_def is_low_def)
    ultimately show ?thesis
      using 2(1) [of d t qs] 2(4) surrogate_pair(2,3) [OF pair(1,2)] by simp
  qed
qed simp

lemma of_points: "to_points s = Some ps \<Longrightarrow> \<forall>c \<in> set s. 0 \<le> c \<and> c < 65536 \<Longrightarrow> concat (map of_point ps) = s"
proof (induction s arbitrary: ps rule: to_points.induct)
  case (2 c s)
  from 2(3) show ?case
  proof (cases rule: to_points_cases)
    case (plain qs)
    with 2(2) [of qs] 2(4) show ?thesis by (simp add: of_point_def)
  next
    case (pair d t qs)
    moreover have "\<not> is_low c" using pair(1) by (auto simp: is_high_def is_low_def)
    ultimately show ?thesis
      using 2(1) [of d t qs] 2(4) surrogate_pair(1) [OF pair(1,2)] by simp
  qed
qed simp

lemma utf8_range: "0 \<le> p \<Longrightarrow> p \<le> 1114111 \<Longrightarrow> \<forall>b \<in> set (utf8 p). 0 \<le> b \<and> b < 256"
  by (auto simp: utf8_def)

lemma utf8_len_cases:
  "192 \<le> a \<Longrightarrow> a < 224 \<Longrightarrow> utf8_len a = 2"
  "224 \<le> a \<Longrightarrow> a < 240 \<Longrightarrow> utf8_len a = 3"
  "240 \<le> a \<Longrightarrow> a < 248 \<Longrightarrow> utf8_len a = 4"
  by (simp_all add: utf8_len_def)

lemma utf8_head:
  assumes "128 \<le> p" "p \<le> 1114111"
  shows "\<exists>b bs. utf8 p = b # bs \<and> 128 \<le> b \<and> length (utf8 p) = utf8_len b"
proof -
  consider "p < 2048" | "2048 \<le> p" "p < 65536" | "65536 \<le> p" by linarith
  then show ?thesis
  proof cases
    case 1
    then have "192 + p div 64 < 224" "192 \<le> 192 + p div 64" using assms by linarith+
    then have "utf8_len (192 + p div 64) = 2" "128 \<le> 192 + p div 64"
      by (simp only: utf8_len_cases, linarith)
    with 1 assms show ?thesis by (simp add: utf8_def)
  next
    case 2
    then have "224 + p div 4096 < 240" "224 \<le> 224 + p div 4096" by linarith+
    then have "utf8_len (224 + p div 4096) = 3" "128 \<le> 224 + p div 4096"
      by (simp only: utf8_len_cases, linarith)
    with 2 assms show ?thesis by (simp add: utf8_def)
  next
    case 3
    then have "240 + p div 262144 < 248" "240 \<le> 240 + p div 262144" using assms by linarith+
    then have "utf8_len (240 + p div 262144) = 4" "128 \<le> 240 + p div 262144"
      by (simp only: utf8_len_cases, linarith)
    with 3 assms show ?thesis by (simp add: utf8_def)
  qed
qed

lemma utf8_point_forms:
  "\<lbrakk>0 \<le> x; x < 32; 0 \<le> y; y < 64; 128 \<le> x * 64 + y\<rbrakk>
     \<Longrightarrow> utf8_point [192 + x, 128 + y] = Some (x * 64 + y)"
  "\<lbrakk>0 \<le> x; x < 16; 0 \<le> y; y < 64; 0 \<le> z; z < 64; 2048 \<le> (x * 64 + y) * 64 + z;
     \<not> (55296 \<le> (x * 64 + y) * 64 + z \<and> (x * 64 + y) * 64 + z \<le> 57343)\<rbrakk>
     \<Longrightarrow> utf8_point [224 + x, 128 + y, 128 + z] = Some ((x * 64 + y) * 64 + z)"
  "\<lbrakk>0 \<le> x; x < 8; 0 \<le> y; y < 64; 0 \<le> z; z < 64; 0 \<le> w; w < 64;
     65536 \<le> ((x * 64 + y) * 64 + z) * 64 + w; ((x * 64 + y) * 64 + z) * 64 + w \<le> 1114111\<rbrakk>
     \<Longrightarrow> utf8_point [240 + x, 128 + y, 128 + z, 128 + w] = Some (((x * 64 + y) * 64 + z) * 64 + w)"
  by (simp_all only: utf8_point_def is_cont_def Let_def list.case add_diff_cancel_left')
    simp_all

lemma utf8_point_utf8:
  assumes p: "128 \<le> p" "p \<le> 1114111" "\<not> (55296 \<le> p \<and> p \<le> 57343)"
  shows "utf8_point (utf8 p) = Some p"
proof -
  have d: "p div 64 div 64 = p div 4096" "p div 4096 div 64 = p div 262144"
    using zdiv_zmult2_eq [of 64 p 64] zdiv_zmult2_eq [of 64 p 4096] by simp_all
  have a: "p div 64 * 64 + p mod 64 = p" by simp
  have b: "p div 4096 * 64 + p div 64 mod 64 = p div 64" using d(1) div_mult_mod_eq [of "p div 64" 64] by simp
  have c: "p div 262144 * 64 + p div 4096 mod 64 = p div 4096"
    using d(2) div_mult_mod_eq [of "p div 4096" 64] by simp
  have m: "0 \<le> q mod 64" "q mod 64 < 64" for q :: int by simp_all
  consider "p < 2048" | "2048 \<le> p" "p < 65536" | "65536 \<le> p" by linarith
  then show ?thesis
  proof cases
    case 1
    have "0 \<le> p div 64" "p div 64 < 32" using 1 p by linarith+
    from utf8_point_forms(1) [OF this m [of p], unfolded a, OF p(1)] 1 p(1) show ?thesis
      by (simp add: utf8_def)
  next
    case 2
    have "0 \<le> p div 4096" "p div 4096 < 16" using 2 p by linarith+
    from utf8_point_forms(2) [OF this m [of "p div 64"] m [of p], unfolded a b, unfolded a, OF 2(1) p(3)]
    show ?thesis using 2 by (simp add: utf8_def)
  next
    case 3
    have "0 \<le> p div 262144" "p div 262144 < 8" using 3 p by linarith+
    from utf8_point_forms(3) [OF this m [of "p div 4096"] m [of "p div 64"] m [of p],
        unfolded c b a, OF 3 p(2)]
    show ?thesis using 3 by (simp add: utf8_def)
  qed
qed

lemma decode_enc_point:
  assumes "0 \<le> p" "p \<le> 1114111" "\<not> (55296 \<le> p \<and> p \<le> 57343)"
  shows "decodeURIComponent (enc_point p @ s) = map_option ((@) (of_point p)) (decodeURIComponent s)"
proof (cases "uri_plain p")
  case True
  then have "p \<noteq> 37" "p < 65536" by (auto simp: uri_plain_def)
  with True show ?thesis
    by (simp add: enc_point_def decodeURIComponent.simps [of "p # s"] of_point_def append_Cons [abs_def])
next
  case False
  show ?thesis
  proof (cases "p < 128")
    case True
    then have "enc_point p @ s = pct p @ s" using False by (simp add: enc_point_def utf8_def)
    moreover have "decodeURIComponent (pct p @ s) = map_option ((#) p) (decodeURIComponent s)"
      using True assms unpct_pct [of p s] by (subst decodeURIComponent.simps) (simp add: pct_def)
    ultimately show ?thesis using True by (simp add: of_point_def append_Cons [abs_def])
  next
    case p: False
    let ?bs = "utf8 p" and ?t = "concat (map pct (utf8 p)) @ s"
    have t: "enc_point p @ s = ?t" using False by (simp add: enc_point_def)
    obtain b bs where bs: "?bs = b # bs" "128 \<le> b" "length ?bs = utf8_len b"
      using utf8_head [of p] p assms by auto
    have r: "\<forall>b \<in> set ?bs. 0 \<le> b \<and> b < 256" using assms by (intro utf8_range)
    have u: "unpcts (utf8_len b) ?t = Some (?bs, s)" using unpcts_pct [OF r, of s] unfolding bs(3) .
    have v: "unpct ?t = Some (b, concat (map pct bs) @ s)" using r by (simp add: bs)
    have w: "utf8_point ?bs = Some p" by (rule utf8_point_utf8) (use p assms in auto)
    have l: "length s < length ?t" by (simp add: bs pct_def)
    obtain x where x: "?t = 37 # x" by (simp add: bs pct_def)
    show ?thesis unfolding t
      using u [unfolded x] v [unfolded x] l [unfolded x] w bs(2)
      by (subst x, subst decodeURIComponent.simps) simp
  qed
qed

lemma decode_encode:
  assumes e: "encodeURIComponent s = Some e" and r: "\<forall>c \<in> set s. 0 \<le> c \<and> c < 65536"
  shows "decodeURIComponent e = Some s"
proof -
  from e obtain ps where ps: "to_points s = Some ps" and e: "e = concat (map enc_point ps)"
    by (auto simp: encodeURIComponent_def)
  have d: "decodeURIComponent (concat (map enc_point ps)) = Some (concat (map of_point ps))"
    if "\<forall>p \<in> set ps. 0 \<le> p \<and> p \<le> 1114111 \<and> \<not> (55296 \<le> p \<and> p \<le> 57343)" for ps
    using that
  proof (induction ps)
    case (Cons p ps)
    then have "decodeURIComponent (enc_point p @ concat (map enc_point ps))
        = map_option ((@) (of_point p)) (decodeURIComponent (concat (map enc_point ps)))"
      by (intro decode_enc_point) auto
    with Cons show ?case by simp
  qed (simp add: decodeURIComponent.simps)
  show ?thesis unfolding e d [OF to_points_range [OF ps r]] of_points [OF ps r] ..
qed

text \<open>An encoded string contains no separator of a query string.\<close>

lemma hex_plain: "0 \<le> d \<Longrightarrow> d < 16 \<Longrightarrow> uri_plain (hex d)"
  by (auto simp: hex_def uri_plain_def)

lemma enc_units:
  assumes e: "encodeURIComponent s = Some e" and r: "\<forall>c \<in> set s. 0 \<le> c \<and> c < 65536"
    and c: "c \<in> set e"
  shows "c = 37 \<or> uri_plain c"
proof -
  from e obtain ps where ps: "to_points s = Some ps" and e: "e = concat (map enc_point ps)"
    by (auto simp: encodeURIComponent_def)
  from c obtain p where p: "p \<in> set ps" "c \<in> set (enc_point p)" by (auto simp: e)
  have "0 \<le> p" "p \<le> 1114111" using to_points_range [OF ps r] p(1) by auto
  then have u: "\<forall>b \<in> set (utf8 p). 0 \<le> b \<and> b < 256" by (rule utf8_range)
  have h: "c = 37 \<or> uri_plain c" if b: "b \<in> set (utf8 p)" "c \<in> set (pct b)" for b
  proof -
    have "0 \<le> b div 16" "b div 16 < 16" "0 \<le> b mod 16" "b mod 16 < 16" using u b(1) by auto
    from hex_plain [OF this(1,2)] hex_plain [OF this(3,4)] b(2) show ?thesis unfolding pct_def by auto
  qed
  show ?thesis
  proof (cases "uri_plain p")
    case True
    with p(2) show ?thesis by (simp add: enc_point_def)
  next
    case False
    with p(2) h show ?thesis by (auto simp: enc_point_def)
  qed
qed

end
