(* ===== verification/JsDoctools.thy ===== *)
theory JsDoctools
  imports JsRegExp JsUri
begin

text \<open>
  \<open>doctools.js\<close> and \<open>documentation_options.js\<close>: decoding of the query string, translations, the
  highlighting of search words in a document tree, the toggle buttons of the index, keyboard
  navigation and URLs.  A document is a tree of text nodes and elements with tag and classes; a
  thrown exception is \<open>None\<close>.  The browser's layout (the box of an SVG element) and the injection
  of header links are left out.
\<close>

section \<open>Options\<close>

record doc_options =
  URL_ROOT :: ustr
  VERSION :: ustr
  LANGUAGE :: ustr
  COLLAPSE_INDEX :: bool
  BUILDER :: ustr
  FILE_SUFFIX :: ustr
  LINK_SUFFIX :: ustr
  HAS_SOURCE :: bool
  SOURCELINK_SUFFIX :: ustr
  NAVIGATION_WITH_KEYS :: bool

definition DOCUMENTATION_OPTIONS :: "ustr \<Rightarrow> doc_options" where
  "DOCUMENTATION_OPTIONS url_root =
    \<lparr> URL_ROOT = url_root, VERSION = u '''', LANGUAGE = u ''None'', COLLAPSE_INDEX = False,
      BUILDER = u ''html'', FILE_SUFFIX = u ''.html'', LINK_SUFFIX = u ''.html'', HAS_SOURCE = True,
      SOURCELINK_SUFFIX = u ''.txt'', NAVIGATION_WITH_KEYS = False \<rparr>"

section \<open>Query strings\<close>

text \<open>\<open>urldecode\<close> returns a falsy argument (\<open>undefined\<close> or the empty string) as it is.\<close>

definition urldecode :: "ustr option \<Rightarrow> ustr option option" where
  "urldecode x = (case x of None \<Rightarrow> Some None
     | Some s \<Rightarrow> if s = [] then Some (Some s)
                 else map_option Some (decodeURIComponent (replace_unit 43 [32] s)))"

definition urlencode :: "ustr \<Rightarrow> ustr option" where
  "urlencode = encodeURIComponent"

text \<open>The names that \<open>in\<close> finds in an empty object literal; their values are no arrays, so that
  pushing onto them throws.\<close>

definition inherited_names :: "ustr list" where
  "inherited_names = [u ''constructor'', u ''__defineGetter__'', u ''__defineSetter__'',
     u ''hasOwnProperty'', u ''__lookupGetter__'', u ''__lookupSetter__'', u ''isPrototypeOf'',
     u ''propertyIsEnumerable'', u ''toString'', u ''valueOf'', u ''__proto__'', u ''toLocaleString'']"

definition put_param :: "ustr \<Rightarrow> ustr option \<Rightarrow> ustr option list dict \<Rightarrow> ustr option list dict option" where
  "put_param key val result =
    (case dget result key of
       Some vs \<Rightarrow> Some (dput key (vs @ [val]) result)
     | None \<Rightarrow> if key \<in> set inherited_names then None else Some (dput key [val] result))"

fun params_loop :: "ustr list \<Rightarrow> ustr option list dict \<Rightarrow> ustr option list dict option" where
  "params_loop [] result = Some result"
| "params_loop (part # parts) result =
    (let tmp = take 2 (split_str (u ''='') part)
     in case urldecode (Some (hd tmp)) of None \<Rightarrow> None
        | Some key \<Rightarrow>
            (case urldecode (if length tmp < 2 then None else Some (tmp ! 1)) of None \<Rightarrow> None
             | Some val \<Rightarrow>
                 (case put_param (case key of Some k \<Rightarrow> k | None \<Rightarrow> u ''undefined'') val result of
                    None \<Rightarrow> None | Some r \<Rightarrow> params_loop parts r)))"

definition getQueryParameters :: "ustr \<Rightarrow> ustr option list dict option" where
  "getQueryParameters s =
    params_loop (split_str (u ''&'') (drop (nat (index_of s (u ''?'') + 1)) s)) []"

section \<open>Highlighting\<close>

datatype dom = Txt ustr | Elt ustr "ustr list" "dom list"

fun text_of :: "dom \<Rightarrow> ustr" where
  "text_of (Txt v) = v"
| "text_of (Elt tag cs ns) = concat (map text_of ns)"

definition texts_of :: "dom list \<Rightarrow> ustr" where
  "texts_of ns = concat (map text_of ns)"

fun dom_depth :: "dom \<Rightarrow> nat" where
  "dom_depth (Txt v) = 0"
| "dom_depth (Elt tag cs ns) = Suc (foldr max (map dom_depth ns) 0)"

text \<open>Whether \<open>closest("body, svg, foreignObject")\<close> is an SVG, on the way down.\<close>

definition in_svg :: "ustr \<Rightarrow> bool \<Rightarrow> bool" where
  "in_svg tag ctx = (if tag = u ''svg'' then True
     else if tag = u ''body'' \<or> tag = u ''foreignObject'' then False else ctx)"

text \<open>A text node with a match is split in three: the text before, the marked text, the text
  behind.  The result is the node itself, the siblings inserted behind it, and the number of
  \<open>rect\<close> elements its parent is given.\<close>

definition highlight_text :: "ustr \<Rightarrow> ustr \<Rightarrow> bool \<Rightarrow> ustr list \<Rightarrow> ustr \<Rightarrow> dom \<times> dom list \<times> nat" where
  "highlight_text text cls svg pcls val =
    (case find_str text (to_lower val) of
       None \<Rightarrow> (Txt val, [], 0)
     | Some pos \<Rightarrow>
         if cls \<in> set pcls \<or> u ''nohighlight'' \<in> set pcls then (Txt val, [], 0)
         else
           let mid = Txt (substring val pos (pos + length text));
               span = (if svg then Elt (u ''tspan'') [] [mid] else Elt (u ''span'') [cls] [mid])
           in (Txt (take pos val), [span, Txt (drop (pos + length text) val)], if svg then 1 else 0))"

definition rect :: "ustr \<Rightarrow> dom" where
  "rect cls = Elt (u ''rect'') [cls] []"

text \<open>\<open>jQuery.each\<close> takes the number of children once and indexes the live list: the children
  inserted on the way are visited, and as many at the end are not.  The \<open>rect\<close> elements are placed
  before the parents after the walk and are not visited.  The first argument bounds the depth of
  the recursion.\<close>

fun highlight :: "nat \<Rightarrow> ustr \<Rightarrow> ustr \<Rightarrow> bool \<Rightarrow> ustr list \<Rightarrow> dom \<Rightarrow> dom list \<times> dom \<times> dom list \<times> nat"
and highlight_children :: "nat \<Rightarrow> ustr \<Rightarrow> ustr \<Rightarrow> bool \<Rightarrow> ustr list \<Rightarrow> nat \<Rightarrow> dom list \<Rightarrow> dom list \<times> nat"
where
  "highlight d text cls svg pcls (Txt val) =
    (case highlight_text text cls svg pcls val of (n, extra, k) \<Rightarrow> ([], n, extra, k))"
| "highlight 0 text cls svg pcls (Elt tag cs ns) = ([], Elt tag cs ns, [], 0)"
| "highlight (Suc d) text cls svg pcls (Elt tag cs ns) =
    (if tag \<in> {u ''button'', u ''select'', u ''textarea''} then ([], Elt tag cs ns, [], 0)
     else case highlight_children d text cls (in_svg tag svg) cs (length ns) ns of
       (ms, k) \<Rightarrow> (replicate k (rect cls), Elt tag cs ms, [], 0))"
| "highlight_children d text cls svg pcls 0 ns = (ns, 0)"
| "highlight_children d text cls svg pcls (Suc n) [] = ([], 0)"
| "highlight_children d text cls svg pcls (Suc n) (c # ns) =
    (case highlight d text cls svg pcls c of (pre, c', extra, k) \<Rightarrow>
     case highlight_children d text cls svg pcls n (extra @ ns) of (ms, k') \<Rightarrow>
       (pre @ c' # ms, k + k'))"

definition highlight_fuel :: "dom \<Rightarrow> nat" where
  "highlight_fuel n = dom_depth n + 2"

definition highlightText :: "ustr \<Rightarrow> ustr \<Rightarrow> dom list \<Rightarrow> dom list" where
  "highlightText text cls ns = concat (map (\<lambda>n.
     case highlight (highlight_fuel n) text cls False [] n of (pre, n', extra, k) \<Rightarrow> pre @ n' # extra) ns)"

text \<open>\<open>s.split(/\\s+/)\<close>\<close>

function split_runs :: "('a \<Rightarrow> bool) \<Rightarrow> 'a list \<Rightarrow> 'a list list" where
  "split_runs p s = takeWhile (\<lambda>c. \<not> p c) s #
     (case dropWhile (\<lambda>c. \<not> p c) s of [] \<Rightarrow> [] | c # t \<Rightarrow> split_runs p (dropWhile p t))"
  by pat_completeness auto
termination
proof (relation "measure (\<lambda>(p, s). length s)", simp)
  fix p :: "'a \<Rightarrow> bool" and s c t
  assume e: "dropWhile (\<lambda>c. \<not> p c) s = c # t"
  have "length (dropWhile p t) \<le> length t" by (rule length_dropWhile_le)
  moreover have "length (c # t) \<le> length s" using e length_dropWhile_le [of "\<lambda>c. \<not> p c" s] by simp
  ultimately show "((p, dropWhile p t), p, s) \<in> measure (\<lambda>(p, s). length s)" by simp
qed

declare split_runs.simps [simp del]

definition highlight_terms :: "ustr \<Rightarrow> ustr list option" where
  "highlight_terms search =
    (case getQueryParameters search of None \<Rightarrow> None
     | Some params \<Rightarrow>
         (case dget params (u ''highlight'') of
            Some (Some v # _) \<Rightarrow> Some (split_runs is_space v)
          | Some _ \<Rightarrow> None
          | None \<Rightarrow> Some []))"

definition highlightSearchWords :: "ustr \<Rightarrow> dom list \<Rightarrow> dom list option" where
  "highlightSearchWords search body =
    map_option (foldl (\<lambda>b t. highlightText (to_lower t) (u ''highlighted'') b) body)
      (highlight_terms search)"

section \<open>Browser detection\<close>

definition word_dot :: re where
  "word_dot = Cls (\<lambda>c. 48 \<le> c \<and> c \<le> 57 \<or> 65 \<le> c \<and> c \<le> 90 \<or> 97 \<le> c \<and> c \<le> 122 \<or> c = 95 \<or> c = 46)"

definition ua_named :: "ustr \<Rightarrow> re" where
  "ua_named name = seqs [Grp 1 (lit name), one_of (u '' /''), Grp 2 (Plus True word_dot)]"

definition ua_opera :: re where
  "ua_opera = seqs [Grp 1 (lit (u ''opera'')), Alt (Seq (Star True Dot) (lit (u ''version''))) Eps,
     one_of (u '' /''), Grp 2 (Plus True word_dot)]"

definition ua_msie :: re where
  "ua_msie = seqs [Grp 1 (lit (u ''msie'')), lit (u '' ''), Grp 2 (Plus True word_dot)]"

definition ua_mozilla :: re where
  "ua_mozilla = seqs [Grp 1 (lit (u ''mozilla'')),
     Alt (seqs [Star False Dot, lit (u '' rv:''), Grp 2 (Plus True word_dot)]) Eps]"

definition uaMatch :: "ustr \<Rightarrow> ustr \<times> ustr" where
  "uaMatch ua0 =
    (let ua = to_lower ua0;
         m = List.find (\<lambda>r. test r ua)
               ([ua_named (u ''chrome''), ua_named (u ''webkit''), ua_opera, ua_msie]
                @ (if index_of ua (u ''compatible'') < 0 then [ua_mozilla] else []))
     in case m of None \<Rightarrow> (u '''', u ''0'')
        | Some r \<Rightarrow> (case exec r ua of None \<Rightarrow> (u '''', u ''0'')
            | Some (_, _, c) \<Rightarrow> (cap c 1, if cap c 2 = [] then u ''0'' else cap c 2)))"

section \<open>Translations\<close>

datatype translation = TStr ustr | TArr "ustr list"

record documentation =
  TRANSLATIONS :: "translation dict"
  PLURAL_EXPR :: "int \<Rightarrow> int"
  LOCALE :: ustr

definition Documentation :: documentation where
  "Documentation = \<lparr> TRANSLATIONS = [], PLURAL_EXPR = (\<lambda>n. if n = 1 then 0 else 1), LOCALE = u ''unknown'' \<rparr>"

definition gettext :: "documentation \<Rightarrow> ustr \<Rightarrow> ustr option" where
  "gettext d s = (case dget (TRANSLATIONS d) s of
     None \<Rightarrow> Some s | Some (TStr t) \<Rightarrow> Some t | Some (TArr (t # _)) \<Rightarrow> Some t | Some (TArr []) \<Rightarrow> None)"

text \<open>\<open>ngettext\<close> calls \<open>Documentation.PLURALEXPR\<close>, which no code defines: with a translation present it
  throws.\<close>

definition ngettext :: "documentation \<Rightarrow> ustr \<Rightarrow> ustr \<Rightarrow> int \<Rightarrow> ustr option" where
  "ngettext d singular plural n = (case dget (TRANSLATIONS d) singular of
     None \<Rightarrow> Some (if n = 1 then singular else plural) | Some _ \<Rightarrow> None)"

record catalog =
  messages :: "translation dict"
  plural_expr :: "int \<Rightarrow> int"
  locale_of :: ustr

definition addTranslations :: "catalog \<Rightarrow> documentation \<Rightarrow> documentation" where
  "addTranslations c d = d
    \<lparr> TRANSLATIONS := foldl (\<lambda>t (k, v). dput k v t) (TRANSLATIONS d) (messages c),
      PLURAL_EXPR := plural_expr c, LOCALE := locale_of c \<rparr>"

section \<open>Index buttons\<close>

record toggler =
  img_src :: ustr
  img_id :: ustr

text \<open>A click toggles the rows of the button's group and swaps the image.\<close>

definition click_toggler :: "toggler \<Rightarrow> (ustr \<Rightarrow> bool) \<Rightarrow> toggler \<times> (ustr \<Rightarrow> bool)" where
  "click_toggler t shown =
    (let src = img_src t; idnum = drop 7 (img_id t);
         minus = drop (length src - 9) src = u ''minus.png''
     in (t \<lparr> img_src := if minus then take (length src - 9) src @ u ''plus.png''
                        else take (length src - 8) src @ u ''minus.png'' \<rparr>,
         shown(idnum := \<not> shown idnum)))"

fun click_all :: "toggler list \<Rightarrow> (ustr \<Rightarrow> bool) \<Rightarrow> toggler list \<times> (ustr \<Rightarrow> bool)" where
  "click_all [] shown = ([], shown)"
| "click_all (t # ts) shown = (case click_toggler t shown of (t', shown') \<Rightarrow>
     case click_all ts shown' of (ts', shown'') \<Rightarrow> (t' # ts', shown''))"

definition initIndexTable :: "doc_options \<Rightarrow> toggler list \<Rightarrow> (ustr \<Rightarrow> bool) \<Rightarrow> toggler list \<times> (ustr \<Rightarrow> bool)" where
  "initIndexTable opts ts shown = (if COLLAPSE_INDEX opts then click_all ts shown else (ts, shown))"

fun remove_class :: "ustr \<Rightarrow> dom \<Rightarrow> dom" where
  "remove_class cls (Txt v) = Txt v"
| "remove_class cls (Elt tag cs ns) =
    Elt tag (if tag = u ''span'' \<and> cls \<in> set cs then removeAll cls cs else cs) (map (remove_class cls) ns)"

definition hideSearchWords :: "dom list \<Rightarrow> dom list" where
  "hideSearchWords ns = map (remove_class (u ''highlighted'')) ns"

section \<open>URLs and keys\<close>

definition makeURL :: "doc_options \<Rightarrow> ustr \<Rightarrow> ustr" where
  "makeURL opts rel = URL_ROOT opts @ u ''/'' @ rel"

text \<open>The comparison \<open>this === '..'\<close> in a callback of \<open>$.each\<close> compares a string object with a
  primitive string, which is false for all of them.\<close>

definition boxed_equals :: "ustr \<Rightarrow> ustr \<Rightarrow> bool" where
  "boxed_equals this other = False"

fun last_index_of :: "nat \<Rightarrow> ustr \<Rightarrow> int" where
  "last_index_of 0 s = -1"
| "last_index_of (Suc n) s = (if n < length s \<and> s ! n = 47 then int n else last_index_of n s)"

definition js_substring :: "'a list \<Rightarrow> int \<Rightarrow> int \<Rightarrow> 'a list" where
  "js_substring s a b =
    (let x = nat (max 0 (min a (int (length s)))); y = nat (max 0 (min b (int (length s))))
     in substring s (min x y) (max x y))"

definition getCurrentURL :: "doc_options \<Rightarrow> ustr \<Rightarrow> ustr" where
  "getCurrentURL opts path =
    (let parts = foldl (\<lambda>ps this. if boxed_equals this (u ''..'') then butlast ps else ps)
           (split_str (u ''/'') path) (split_str (u ''/'') (URL_ROOT opts));
         url = join (u ''/'') parts
     in js_substring path (last_index_of (length url) url + 1) (int (length path) - 1))"

record key_event =
  keyCode :: int
  altKey :: bool
  ctrlKey :: bool
  metaKey :: bool
  shiftKey :: bool

text \<open>The target of a navigation, if any.  \<open>case 37\<close> has no \<open>break\<close>: without a previous page the
  next one is taken.\<close>

definition on_keydown :: "ustr \<Rightarrow> ustr \<Rightarrow> ustr \<Rightarrow> key_event \<Rightarrow> ustr option" where
  "on_keydown active prevHref nextHref e =
    (if active \<notin> {u ''TEXTAREA'', u ''INPUT'', u ''SELECT'', u ''BUTTON''}
        \<and> \<not> altKey e \<and> \<not> ctrlKey e \<and> \<not> metaKey e \<and> \<not> shiftKey e
     then if keyCode e = 37 \<and> prevHref \<noteq> [] then Some prevHref
          else if (keyCode e = 37 \<or> keyCode e = 39) \<and> nextHref \<noteq> [] then Some nextHref
          else None
     else None)"

section \<open>Properties of the highlighting\<close>

lemma highlight_text_texts:
  "highlight_text text cls svg pcls val = (n, extra, k) \<Longrightarrow> texts_of (n # extra) = val"
  by (auto simp: highlight_text_def texts_of_def substring_def Let_def drop_drop add.commute
      split: option.splits if_splits dest!: find_str_Some)
    (metis append_take_drop_id drop_drop add.commute)+

lemma texts_of_Nil [simp]: "texts_of [] = []"
  by (simp add: texts_of_def)

lemma texts_of_Cons [simp]: "texts_of (n # ns) = text_of n @ texts_of ns"
  by (simp add: texts_of_def)

lemma texts_of_append [simp]: "texts_of (xs @ ys) = texts_of xs @ texts_of ys"
  by (simp add: texts_of_def)

lemma texts_of_rects [simp]: "texts_of (replicate k (rect cls)) = []"
  by (induction k) (simp_all add: rect_def)

lemma text_of_Elt [simp]: "text_of (Elt tag cs ns) = texts_of ns"
  by (simp add: texts_of_def)

declare text_of.simps(2) [simp del]

lemma highlight_texts:
  "highlight d text cls svg pcls n = (pre, n', extra, k) \<Longrightarrow> texts_of (pre @ n' # extra) = text_of n"
  "highlight_children d text cls svg pcls m ns = (ms, k) \<Longrightarrow> texts_of ms = texts_of ns"
proof (induction d "text" cls svg pcls n and d "text" cls svg pcls m ns
    arbitrary: pre n' extra k and ms k rule: highlight_highlight_children.induct)
  case (1 d t cls svg pcls val)
  then show ?case using highlight_text_texts [of t cls svg pcls val] by (auto split: prod.splits)
next
  case (3 d t cls svg pcls tag cs ns)
  then show ?case by (auto split: if_splits prod.splits)
next
  case (6 d t cls svg pcls n c ns)
  obtain pre c' extra k1 where h: "highlight d t cls svg pcls c = (pre, c', extra, k1)"
    by (metis prod.exhaust)
  obtain ms' k2 where c: "highlight_children d t cls svg pcls n (extra @ ns) = (ms', k2)"
    by (metis prod.exhaust)
  have "texts_of (pre @ c' # extra) = text_of c" by (rule 6(1) [OF h])
  moreover have "texts_of ms' = texts_of (extra @ ns)" by (rule 6(2) [OF h [symmetric] refl refl c])
  moreover have "ms = pre @ c' # ms'" using 6(3) h c by simp
  ultimately show ?case by simp
qed auto

text \<open>The spans the walk inserts are leaves for it: any positive depth is enough for them, and for
  the rest the depth of the tree plus one.\<close>

definition mark_node :: "dom \<Rightarrow> bool" where
  "mark_node n \<longleftrightarrow> (\<exists>tag cs v. n = Elt tag cs [Txt v] \<and> tag \<in> {u ''span'', u ''tspan''})"

definition deep_enough :: "nat \<Rightarrow> dom \<Rightarrow> bool" where
  "deep_enough d n \<longleftrightarrow> dom_depth n < d \<or> mark_node n \<and> 0 < d \<or> (\<exists>v. n = Txt v)"

lemma highlight_text_extra:
  "highlight_text t cls svg pcls val = (n, extra, k) \<Longrightarrow> 0 < d \<Longrightarrow> \<forall>x \<in> set extra. deep_enough d x"
  by (auto simp: highlight_text_def deep_enough_def mark_node_def Let_def split: option.splits if_splits)

lemma highlight_extra:
  "highlight d t cls svg pcls c = (pre, n, extra, k) \<Longrightarrow> 0 < d' \<Longrightarrow> \<forall>x \<in> set extra. deep_enough d' x"
proof (cases c)
  case (Txt v)
  assume "highlight d t cls svg pcls c = (pre, n, extra, k)" "0 < d'"
  then show ?thesis using highlight_text_extra [of t cls svg pcls v] by (auto simp: Txt split: prod.splits)
next
  case (Elt tag cs ns)
  assume "highlight d t cls svg pcls c = (pre, n, extra, k)"
  then show ?thesis by (cases d) (auto simp: Elt split: if_splits prod.splits)
qed

lemma dom_depth_child: "c \<in> set ns \<Longrightarrow> dom_depth c < dom_depth (Elt tag cs ns)"
  by (induction ns) auto

lemma highlight_children_stable:
  assumes "\<And>c. deep_enough d c \<Longrightarrow> highlight d' t cls svg pcls c = highlight d t cls svg pcls c"
    and "\<forall>c \<in> set ns. deep_enough d c" "0 < d"
  shows "highlight_children d' t cls svg pcls n ns = highlight_children d t cls svg pcls n ns"
  using assms(2)
proof (induction n arbitrary: ns)
  case (Suc n)
  show ?case
  proof (cases ns)
    case (Cons c ns')
    obtain pre c' extra k where h: "highlight d t cls svg pcls c = (pre, c', extra, k)"
      by (metis prod.exhaust)
    have "\<forall>x \<in> set (extra @ ns'). deep_enough d x"
      using highlight_extra [OF h assms(3)] Suc.prems by (auto simp: Cons)
    from Suc.IH [OF this] show ?thesis using assms(1) [of c] Suc.prems h by (simp add: Cons)
  qed simp
qed simp

lemma highlight_children_texts_stable:
  "highlight_children d t cls svg pcls n [Txt v] = highlight_children d' t cls svg pcls n [Txt v]" if "n \<le> 1"
  using that by (cases n) (auto split: prod.splits)

lemma highlight_stable_aux:
  "deep_enough d n \<Longrightarrow> highlight (Suc d) t cls svg pcls n = highlight d t cls svg pcls n"
proof (induction d arbitrary: n svg pcls)
  case 0
  then obtain v where "n = Txt v" by (auto simp: deep_enough_def)
  then show ?case by simp
next
  case (Suc d)
  show ?case
  proof (cases n)
    case (Elt tag cs ns)
    consider "dom_depth n < Suc d" | "mark_node n" using Suc.prems Elt by (auto simp: deep_enough_def)
    then have "highlight_children (Suc d) t cls (in_svg tag svg) cs (length ns) ns
        = highlight_children d t cls (in_svg tag svg) cs (length ns) ns"
    proof cases
      case 1
      then have "\<forall>c \<in> set ns. dom_depth c < d" using dom_depth_child [of _ ns tag cs] Elt by fastforce
      moreover have "0 < d" using 1 Elt by simp
      ultimately show ?thesis by (intro highlight_children_stable Suc.IH) (simp_all add: deep_enough_def)
    next
      case 2
      then obtain v where "ns = [Txt v]" by (auto simp: mark_node_def Elt)
      then show ?thesis by (simp add: highlight_children_texts_stable)
    qed
    then show ?thesis by (simp add: Elt)
  qed simp
qed

text \<open>The recursion of \<open>highlightText\<close> ends: the depth the model allows is enough, every larger
  one gives the same result.\<close>

theorem highlight_terminates:
  "highlight (highlight_fuel n + k) t cls svg pcls n = highlight (highlight_fuel n) t cls svg pcls n"
proof (induction k)
  case (Suc k)
  have "deep_enough (highlight_fuel n + k) n" by (simp add: deep_enough_def highlight_fuel_def)
  from highlight_stable_aux [OF this] Suc show ?case by simp
qed simp

text \<open>Highlighting changes the mark-up only: the text of the document stays the same.\<close>

theorem highlightText_text: "texts_of (highlightText t cls ns) = texts_of ns"
proof (induction ns)
  case (Cons n ns)
  obtain pre n' extra k where h: "highlight (highlight_fuel n) t cls False [] n = (pre, n', extra, k)"
    by (metis prod.exhaust)
  from highlight_texts(1) [OF h] Cons show ?case by (simp add: highlightText_def h)
qed (simp add: highlightText_def)

text \<open>A match in an earlier text node keeps the last children of an element from being visited: the
  second \<open>foo\<close> below is not marked.\<close>

lemma highlight_skips:
  "highlightText (u ''foo'') (u ''hl'') [Elt (u ''p'') [] [Txt (u ''foo''), Elt (u ''em'') [] [Txt (u ''x'')], Txt (u ''foo'')]]
   = [Elt (u ''p'') [] [Txt [], Elt (u ''span'') [u ''hl''] [Txt (u ''foo'')], Txt [],
        Elt (u ''em'') [] [Txt (u ''x'')], Txt (u ''foo'')]]"
  by code_simp

section \<open>Passing the search terms\<close>

lemma split_runs_word:
  "\<forall>c \<in> set w. \<not> p c \<Longrightarrow> split_runs p w = [w]"
  by (subst split_runs.simps) (simp add: takeWhile_eq_all_conv [THEN iffD2] dropWhile_eq_Nil_conv [THEN iffD2])

lemma split_runs_sep:
  assumes "\<forall>c \<in> set w. \<not> p c" "p d" "s \<noteq> []" "\<not> p (hd s)"
  shows "split_runs p (w @ d # s) = w # split_runs p s"
proof -
  have "takeWhile (\<lambda>c. \<not> p c) (w @ d # s) = w" "dropWhile (\<lambda>c. \<not> p c) (w @ d # s) = d # s"
    using assms by (simp_all add: takeWhile_append dropWhile_append)
  moreover have "dropWhile p s = s" using assms(3,4) by (cases s) auto
  ultimately show ?thesis by (subst split_runs.simps) simp
qed

lemma split_runs_join:
  assumes "\<forall>w \<in> set ws. w \<noteq> [] \<and> (\<forall>c \<in> set w. \<not> p c)" "p d" "ws \<noteq> []"
  shows "split_runs p (join [d] ws) = ws"
  using assms
proof (induction "[d]" ws rule: join.induct)
  case (3 x y xs)
  have "join [d] (y # xs) \<noteq> [] \<and> \<not> p (hd (join [d] (y # xs)))"
    using 3(2) by (cases xs) auto
  with 3 split_runs_sep [of x p d "join [d] (y # xs)"] show ?case by simp
qed (simp_all add: split_runs_word)

lemma query_param:
  assumes e: "urlencode v = Some e" and r: "\<forall>c \<in> set v. 0 \<le> c \<and> c < 65536"
  shows "getQueryParameters (u ''?highlight='' @ e) = Some [(u ''highlight'', [Some v])]"
proof -
  have n: "38 \<notin> set e" "61 \<notin> set e" "43 \<notin> set e"
    using enc_units [OF e [unfolded urlencode_def] r, of 38] enc_units [OF e [unfolded urlencode_def] r, of 61]
      enc_units [OF e [unfolded urlencode_def] r, of 43] by (auto simp: uri_plain_def)
  have d: "urldecode (Some e) = Some (Some v)"
    using decode_encode [OF e [unfolded urlencode_def] r] n(3)
    by (auto simp: urldecode_def replace_unit_none decodeURIComponent.simps [of "[]"])
  have q: "index_of (u ''?highlight='' @ e) (u ''?'') = 0"
    by (simp add: ulit index_of_def starts_with_def)
  have h: "urldecode (Some (u ''highlight'')) = Some (Some (u ''highlight''))" by code_simp
  have s: "split_str (u ''&'') (u ''highlight='' @ e) = [u ''highlight='' @ e]"
    using split_str_unit(1) [of 38 "u ''highlight='' @ e"] n by (simp add: ulit)
  have t: "split_str (u ''='') (u ''highlight='' @ e) = [u ''highlight'', e]"
    using split_str_unit(2) [of 61 "u ''highlight''" e] split_str_unit(1) [of 61 e] n by (simp add: ulit)
  have i: "u ''highlight'' \<notin> set inherited_names" by code_simp
  have x: "drop 1 (u ''?highlight='' @ e) = u ''highlight='' @ e" by (simp add: ulit)
  show ?thesis
    unfolding getQueryParameters_def q
    using x by (simp add: s t d h i put_param_def)
qed

lemma highlight_terms_join:
  assumes "ws \<noteq> []" "\<forall>w \<in> set ws. w \<noteq> [] \<and> (\<forall>c \<in> set w. \<not> is_space c \<and> 0 \<le> c \<and> c < 65536)"
    and "urlencode (join (u '' '') ws) = Some e"
  shows "highlight_terms (u ''?highlight='' @ e) = Some ws"
proof -
  have j: "set (join (u '' '') ws) \<subseteq> insert 32 (\<Union> (set ` set ws))" for ws
    by (induction "u '' ''" ws rule: join.induct) (auto simp: ulit)
  have r: "\<forall>c \<in> set (join (u '' '') ws). 0 \<le> c \<and> c < 65536"
    using j [of ws] assms(2) by fastforce
  have "split_runs is_space (join [32] ws) = ws"
    by (rule split_runs_join) (use assms in \<open>auto simp: is_space_def\<close>)
  then have "split_runs is_space (join (u '' '') ws) = ws" by (simp add: ulit)
  then show ?thesis
    by (simp add: highlight_terms_def query_param [OF assms(3) r])
qed

text \<open>The terms the search page puts into the links of its results are the terms the target page
  highlights: encoding the joined words, passing them in the query string, decoding and splitting
  returns the words, for any non-empty list of words without white space.\<close>

theorem highlight_terms_roundtrip:
  assumes "ws \<noteq> []" "\<forall>w \<in> set ws. w \<noteq> [] \<and> (\<forall>c \<in> set w. \<not> is_space c \<and> 0 \<le> c \<and> c < 65536)"
    and "urlencode (join (u '' '') ws) = Some e"
  shows "highlight_terms (u ''?highlight='' @ e) = Some ws"
  by (rule highlight_terms_join [OF assms])

theorem highlight_terms_roundtrip_witness:
  "highlight_terms (u ''?highlight='' @ u ''log%20match'') = Some [u ''log'', u ''match'']"
proof -
  have "urlencode (join (u '' '') [u ''log'', u ''match'']) = Some (u ''log%20match'')" by code_simp
  moreover have "\<forall>w \<in> set [u ''log'', u ''match'']. w \<noteq> [] \<and> (\<forall>c \<in> set w. \<not> is_space c \<and> 0 \<le> c \<and> c < 65536)"
    by code_simp
  ultimately show ?thesis
    using highlight_terms_roundtrip [of "[u ''log'', u ''match'']" "u ''log%20match''"] by simp
qed

section \<open>Other properties\<close>

text \<open>Clicking a toggle button twice restores its image and its rows.\<close>

lemma click_toggler_twice:
  assumes "\<exists>p. img_src t = p @ u ''minus.png'' \<or> img_src t = p @ u ''plus.png''"
  shows "(case click_toggler t shown of (t', s') \<Rightarrow> click_toggler t' s') = (t, shown)"
proof -
  from assms obtain p where p: "img_src t = p @ u ''minus.png'' \<or> img_src t = p @ u ''plus.png''" by blast
  have "drop (length p - 1) (p @ u ''plus.png'') \<noteq> u ''minus.png''"
    by (cases p rule: rev_cases) (auto simp: ulit)
  with p show ?thesis by (auto simp: click_toggler_def Let_def)
qed

lemma keys_fall_through:
  "on_keydown active [] next e = (if keyCode e = 37 then on_keydown active [] next (e \<lparr> keyCode := 39 \<rparr>)
     else on_keydown active [] next e)"
  by (simp add: on_keydown_def)

lemma getCurrentURL_drops_last:
  "getCurrentURL (DOCUMENTATION_OPTIONS (u ''../'')) (u ''/docs/api/index.html'') = u ''index.htm''"
  by code_simp

lemma uaMatch_examples:
  "uaMatch (u ''Mozilla/5.0 Chrome/88.0 Safari'') = (u ''chrome'', u ''88.0'') \<and>
   uaMatch (u ''Mozilla/5.0 (X11; rv:86.0)'') = (u ''mozilla'', u ''86.0'')"
  by code_simp

end
