(* ===== verification/JsSearch.thy ===== *)
theory JsSearch
  imports JsStemmer JsDoctools "HOL-Library.Multiset" "HOL-Library.List_Lexorder"
begin

text \<open>
  \<open>searchtools.js\<close>: the scorer, the hand-over between a query and the loading of the index, the
  classification of the query words, the searches for objects and for terms, the order of the
  results, their links and summaries.  The index is a generated file: its dictionaries are fields
  of a record, its arrays (\<open>docnames\<close>, \<open>filenames\<close>, \<open>titles\<close>, \<open>objnames\<close>) functions from numbers.
  Dictionary reads see the keys of the index only.
\<close>

section \<open>Scorer\<close>

record scorer =
  objNameMatch :: int
  objPartialMatch :: int
  objPrio :: "(nat \<times> int) list"
  objPrioDefault :: int
  title_score :: int
  partialTitle :: int
  term_score :: int
  partialTerm :: int

definition Scorer :: scorer where
  "Scorer = \<lparr> objNameMatch = 11, objPartialMatch = 6, objPrio = [(0, 15), (1, 5), (2, -5)],
     objPrioDefault = 0, title_score = 15, partialTitle = 7, term_score = 5, partialTerm = 2 \<rparr>"

section \<open>The index\<close>

datatype files = One nat | Many "nat list"

record obj_match =
  o_file :: nat
  o_type :: nat
  o_prio :: nat
  o_anchor :: ustr

record index =
  docnames :: "nat \<Rightarrow> ustr"
  filenames :: "nat \<Rightarrow> ustr"
  titles :: "nat \<Rightarrow> ustr"
  terms :: "files dict"
  titleterms :: "files dict"
  objects :: "obj_match dict dict"
  objnames :: "nat \<Rightarrow> ustr \<times> ustr \<times> ustr"

section \<open>Loading the index\<close>

text \<open>The queries that were run are recorded in order.  \<open>_pulse_status\<close> drives the progress dots;
  \<open>pulse_timer\<close> tells whether the timer of \<open>pulse\<close> is set.\<close>

record search_state =
  idx :: "index option"
  queued_query :: "ustr option"
  pulse_status :: int
  pulse_timer :: bool
  ran :: "ustr list"

definition Search0 :: search_state where
  "Search0 = \<lparr> idx = None, queued_query = None, pulse_status = -1, pulse_timer = False, ran = [] \<rparr>"

definition run_query :: "ustr \<Rightarrow> search_state \<Rightarrow> search_state" where
  "run_query q st = st \<lparr> ran := ran st @ [q] \<rparr>"

definition setIndex :: "index \<Rightarrow> search_state \<Rightarrow> search_state" where
  "setIndex i st =
    (let st1 = st \<lparr> idx := Some i \<rparr>
     in case queued_query st1 of None \<Rightarrow> st1 | Some q \<Rightarrow> run_query q (st1 \<lparr> queued_query := None \<rparr>))"

definition hasIndex :: "search_state \<Rightarrow> bool" where
  "hasIndex st \<longleftrightarrow> idx st \<noteq> None"

definition deferQuery :: "ustr \<Rightarrow> search_state \<Rightarrow> search_state" where
  "deferQuery q st = st \<lparr> queued_query := Some q \<rparr>"

definition stopPulse :: "search_state \<Rightarrow> search_state" where
  "stopPulse st = st \<lparr> pulse_status := 0 \<rparr>"

text \<open>JavaScript's \<open>%\<close> takes the sign of the dividend.\<close>

definition js_mod :: "int \<Rightarrow> int \<Rightarrow> int" where
  "js_mod a b = sgn a * (\<bar>a\<bar> mod \<bar>b\<bar>)"

definition pulse :: "search_state \<Rightarrow> search_state" where
  "pulse st = (let s = js_mod (pulse_status st + 1) 4
     in st \<lparr> pulse_status := s, pulse_timer := (s > -1) \<rparr>)"

definition startPulse :: "search_state \<Rightarrow> search_state" where
  "startPulse st = (if pulse_status st \<ge> 0 then st else pulse st)"

definition performSearch :: "ustr \<Rightarrow> search_state \<Rightarrow> search_state" where
  "performSearch q st =
    (let st1 = startPulse st
     in if hasIndex st1 then run_query q st1 else deferQuery q st1)"

section \<open>Classification of the query\<close>

record query_words =
  searchterms :: "ustr list"
  excluded :: "ustr list"
  hlterms :: "ustr list"
  objectterms :: "ustr list"

definition push_new :: "'a \<Rightarrow> 'a list \<Rightarrow> 'a list" where
  "push_new w ws = (if w \<in> set ws then ws else ws @ [w])"

definition classify_word :: "ustr \<Rightarrow> query_words \<Rightarrow> query_words" where
  "classify_word w qw =
    (let qw1 = (if w \<noteq> [] then qw \<lparr> objectterms := objectterms qw @ [to_lower w] \<rparr> else qw)
     in if arr_index (to_lower w) stopwords \<noteq> None \<or> w = [] then qw1
        else
          let word0 = stemWord (to_lower w);
              word = (if length word0 < 3 \<and> 3 \<le> length w then w else word0)
          in if word \<noteq> [] \<and> hd word = 45
             then qw1 \<lparr> excluded := push_new (drop 1 word) (excluded qw1) \<rparr>
             else qw1 \<lparr> hlterms := hlterms qw1 @ [to_lower w],
                        searchterms := push_new word (searchterms qw1) \<rparr>)"

definition classify :: "ustr \<Rightarrow> query_words" where
  "classify q = fold classify_word (splitQuery q)
     \<lparr> searchterms = [], excluded = [], hlterms = [], objectterms = [] \<rparr>"

definition highlightstring :: "query_words \<Rightarrow> ustr option" where
  "highlightstring qw = map_option (\<lambda>e. u ''?highlight='' @ e) (urlencode (join (u '' '') (hlterms qw)))"

section \<open>Object search\<close>

record result =
  r_doc :: ustr
  r_title :: ustr
  r_anchor :: ustr
  r_descr :: "ustr option"
  r_score :: int
  r_file :: ustr

definition all_found :: "ustr list \<Rightarrow> ustr \<Rightarrow> bool" where
  "all_found others haystack \<longleftrightarrow> list_all (includes_str haystack) others"

definition object_score :: "ustr \<Rightarrow> ustr \<Rightarrow> ustr list \<Rightarrow> int" where
  "object_score object full parts =
    (if full = object \<or> last parts = object then objNameMatch Scorer
     else if includes_str (last parts) object then objPartialMatch Scorer else 0)"

definition prio_score :: "nat \<Rightarrow> int" where
  "prio_score p = (case dget (objPrio Scorer) p of Some s \<Rightarrow> s | None \<Rightarrow> objPrioDefault Scorer)"

definition object_result :: "index \<Rightarrow> (ustr \<Rightarrow> ustr) \<Rightarrow> ustr \<Rightarrow> ustr list \<Rightarrow> ustr \<Rightarrow> ustr \<times> obj_match \<Rightarrow> result list" where
  "object_result ix tr object others pre nm =
    (let name = fst nm; match = snd nm;
         fullname = (if pre \<noteq> [] then pre @ u ''.'' else []) @ name;
         fullnameLower = to_lower fullname
     in if includes_str fullnameLower object then
          let parts = split_str (u ''.'') fullnameLower;
              (_, typ, objname) = objnames ix (o_type match);
              title = titles ix (o_file match);
              haystack = to_lower (pre @ u '' '' @ name @ u '' '' @ objname @ u '' '' @ title)
          in if others \<noteq> [] \<and> \<not> all_found others haystack then []
             else [\<lparr> r_doc = docnames ix (o_file match), r_title = fullname,
                     r_anchor = u ''#'' @ (if o_anchor match = [] then fullname
                        else if o_anchor match = u ''-'' then typ @ u ''-'' @ fullname
                        else o_anchor match),
                     r_descr = Some (objname @ tr (u '', in '') @ title),
                     r_score = object_score object fullnameLower parts + prio_score (o_prio match),
                     r_file = filenames ix (o_file match) \<rparr>]
        else [])"

definition performObjectSearch :: "index \<Rightarrow> (ustr \<Rightarrow> ustr) \<Rightarrow> ustr \<Rightarrow> ustr list \<Rightarrow> result list" where
  "performObjectSearch ix tr object others =
    concat (map (\<lambda>(pre, names). concat (map (object_result ix tr object others pre) names)) (objects ix))"

section \<open>Term search\<close>

text \<open>\<open>escapeRegExp\<close> puts a backslash before every syntax character; \<open>literal_pattern\<close> reads a pattern
  that consists of escaped syntax characters and plain ones.\<close>

definition syntax_chars :: ustr where
  "syntax_chars = u ''.*+-?^${}()|[]'' @ [92]"

definition escapeRegExp :: "ustr \<Rightarrow> ustr" where
  "escapeRegExp s = concat (map (\<lambda>c. if c \<in> set syntax_chars then [92, c] else [c]) s)"

fun literal_pattern :: "ustr \<Rightarrow> ustr option" where
  "literal_pattern [] = Some []"
| "literal_pattern (c # s) =
    (if c = 92 then
       (case s of d # t \<Rightarrow> if d \<in> set syntax_chars then map_option ((#) d) (literal_pattern t) else None
        | [] \<Rightarrow> None)
     else if c \<in> set syntax_chars then None
     else map_option ((#) c) (literal_pattern s))"

definition match_pattern :: "ustr \<Rightarrow> ustr \<Rightarrow> bool" where
  "match_pattern pat s = (case literal_pattern pat of None \<Rightarrow> False | Some w \<Rightarrow> includes_str s w)"

type_synonym hit = "files option \<times> int"

text \<open>\<open>!x\<close> holds of \<open>undefined\<close> and of the number 0.\<close>

definition falsy :: "files option \<Rightarrow> bool" where
  "falsy f \<longleftrightarrow> f = None \<or> f = Some (One 0)"

definition hits :: "files dict \<Rightarrow> files dict \<Rightarrow> ustr \<Rightarrow> hit list" where
  "hits ts tts word =
    [(dget ts word, term_score Scorer), (dget tts word, title_score Scorer)] @
    (if length word > 2 then
       let pat = escapeRegExp word in
       map (\<lambda>(w, f). (Some f, partialTerm Scorer))
         (filter (\<lambda>(w, f). match_pattern pat w \<and> falsy (dget ts word)) ts) @
       map (\<lambda>(w, f). (Some f, partialTitle Scorer))
         (filter (\<lambda>(w, f). match_pattern pat w \<and> falsy (dget tts word)) tts)
     else [])"

fun file_list :: "files \<Rightarrow> nat list" where
  "file_list (One n) = [n]"
| "file_list (Many ns) = ns"

definition hit_files :: "hit list \<Rightarrow> nat list" where
  "hit_files hs = concat (map (\<lambda>h. case fst h of None \<Rightarrow> [] | Some f \<Rightarrow> file_list f) hs)"

type_synonym score_map = "nat \<Rightarrow> (ustr \<times> int) list"

definition set_scores :: "ustr \<Rightarrow> hit list \<Rightarrow> score_map \<Rightarrow> score_map" where
  "set_scores word hs m =
    fold (\<lambda>h m. case fst h of None \<Rightarrow> m
       | Some f \<Rightarrow> fold (\<lambda>n m. m(n := dput word (snd h) (m n))) (file_list f) m) hs m"

text \<open>The mapping from files to the words they matched: a word the list already has resets it.\<close>

definition map_file :: "ustr \<Rightarrow> nat \<Rightarrow> (nat \<times> ustr list) list \<Rightarrow> (nat \<times> ustr list) list" where
  "map_file word n fm =
    (case dget fm n of
       Some ws \<Rightarrow> if arr_index word ws = None then dput n (ws @ [word]) fm else dput n [word] fm
     | None \<Rightarrow> dput n [word] fm)"

fun terms_loop :: "files dict \<Rightarrow> files dict \<Rightarrow> ustr list \<Rightarrow> (nat \<times> ustr list) list \<Rightarrow> score_map
    \<Rightarrow> (nat \<times> ustr list) list \<times> score_map" where
  "terms_loop ts tts [] fm sm = (fm, sm)"
| "terms_loop ts tts (word # wds) fm sm =
    (let hs = hits ts tts word
     in if list_all (\<lambda>h. fst h = None) hs then (fm, sm)
        else terms_loop ts tts wds (fold (map_file word) (hit_files hs) fm) (set_scores word hs sm))"

text \<open>The key of a \<open>for-in\<close> loop is a string, the entries of the index are numbers: \<open>==\<close> converts (an
  array of one number becomes its numeral), the strict comparison in \<open>_.contains\<close> does not.\<close>

datatype prim = PNum nat | PStr ustr

definition excludes :: "files option \<Rightarrow> nat \<Rightarrow> bool" where
  "excludes f n = (case f of None \<Rightarrow> False
     | Some (One m) \<Rightarrow> m = n
     | Some (Many ms) \<Rightarrow> ms = [n] \<or> PStr (dec_nat n) \<in> set (map PNum ms))"

definition valid_file :: "files dict \<Rightarrow> files dict \<Rightarrow> ustr list \<Rightarrow> nat \<Rightarrow> bool" where
  "valid_file ts tts ex n \<longleftrightarrow> \<not> list_ex (\<lambda>w. excludes (dget ts w) n \<or> excludes (dget tts w) n) ex"

definition file_score :: "score_map \<Rightarrow> nat \<Rightarrow> ustr list \<Rightarrow> int" where
  "file_score sm n ws = Max (set (map (\<lambda>w. case dget (sm n) w of Some s \<Rightarrow> s | None \<Rightarrow> 0) ws))"

definition enough_words :: "ustr list \<Rightarrow> ustr list \<Rightarrow> bool" where
  "enough_words sts ws \<longleftrightarrow> length ws = length sts \<or> length ws = length (filter (\<lambda>t. length t > 2) sts)"

definition found_files :: "ustr list \<Rightarrow> ustr list \<Rightarrow> files dict \<Rightarrow> files dict \<Rightarrow> (nat \<times> int) list" where
  "found_files sts ex ts tts =
    (case terms_loop ts tts sts [] (\<lambda>_. []) of (fm, sm) \<Rightarrow>
      map (\<lambda>n. (n, file_score sm n (the (dget fm n))))
        (filter (\<lambda>n. enough_words sts (the (dget fm n)) \<and> valid_file ts tts ex n)
          (sort (map fst fm))))"

definition performTermsSearch :: "index \<Rightarrow> ustr list \<Rightarrow> ustr list \<Rightarrow> files dict \<Rightarrow> files dict \<Rightarrow> result list" where
  "performTermsSearch ix sts ex ts tts =
    map (\<lambda>(n, score). \<lparr> r_doc = docnames ix n, r_title = titles ix n, r_anchor = [], r_descr = None,
           r_score = score, r_file = filenames ix n \<rparr>)
      (found_files sts ex ts tts)"

section \<open>The query\<close>

fun lex_less :: "ustr \<Rightarrow> ustr \<Rightarrow> bool" where
  "lex_less [] [] = False"
| "lex_less [] (y # ys) = True"
| "lex_less (x # xs) [] = False"
| "lex_less (x # xs) (y # ys) = (x < y \<or> x = y \<and> lex_less xs ys)"

definition compare_results :: "result \<Rightarrow> result \<Rightarrow> int" where
  "compare_results a b =
    (if r_score a > r_score b then 1 else if r_score a < r_score b then -1
     else let left = to_lower (r_title a); right = to_lower (r_title b)
          in if lex_less right left then -1 else if lex_less left right then 1 else 0)"

text \<open>All object searches, each with the other words, then the term search.\<close>

fun object_searches :: "index \<Rightarrow> (ustr \<Rightarrow> ustr) \<Rightarrow> ustr list \<Rightarrow> ustr list \<Rightarrow> result list" where
  "object_searches ix tr before [] = []"
| "object_searches ix tr before (w # ws) =
    performObjectSearch ix tr w (before @ ws) @ object_searches ix tr (before @ [w]) ws"

definition query_results :: "index \<Rightarrow> (ustr \<Rightarrow> ustr) \<Rightarrow> ustr \<Rightarrow> result list" where
  "query_results ix tr q =
    (let qw = classify q
     in sort_by compare_results
          (object_searches ix tr [] (objectterms qw)
           @ performTermsSearch ix (searchterms qw) (excluded qw) (terms ix) (titleterms ix)))"

section \<open>Display\<close>

text \<open>Request and link of an item.\<close>

definition item_urls :: "doc_options \<Rightarrow> ustr \<Rightarrow> ustr \<times> ustr" where
  "item_urls opts doc =
    (if BUILDER opts = u ''dirhtml'' then
       let dirname = doc @ u ''/'';
           dirname1 = (if ends_with (u ''/index/'') dirname then take (length dirname - 6) dirname
                       else if dirname = u ''index/'' then [] else dirname);
           requestUrl = URL_ROOT opts @ dirname1
       in (requestUrl, requestUrl)
     else (URL_ROOT opts @ doc @ FILE_SUFFIX opts, doc @ LINK_SUFFIX opts))"

datatype summary = NoSummary | Descr ustr | Source ustr

text \<open>One turn of \<open>displayNextItem\<close> takes the last result; the page source is asked from the server
  (\<open>fetch\<close>; \<open>None\<close> when there is no response text).\<close>

definition display_item :: "doc_options \<Rightarrow> ustr \<Rightarrow> (ustr \<Rightarrow> ustr option) \<Rightarrow> result \<Rightarrow> ustr \<times> ustr \<times> summary" where
  "display_item opts hl fetch item =
    (case item_urls opts (r_doc item) of (requestUrl, linkUrl) \<Rightarrow>
      (linkUrl @ hl @ r_anchor item, r_title item,
       case r_descr item of
         Some d \<Rightarrow> if d \<noteq> [] then Descr d else NoSummary
       | None \<Rightarrow>
           if HAS_SOURCE opts then
             (case fetch requestUrl of Some t \<Rightarrow> if t \<noteq> [] then Source t else NoSummary | None \<Rightarrow> NoSummary)
           else NoSummary))"

function displayItems :: "doc_options \<Rightarrow> ustr \<Rightarrow> (ustr \<Rightarrow> ustr option) \<Rightarrow> result list
    \<Rightarrow> (ustr \<times> ustr \<times> summary) list" where
  "displayItems opts hl fetch results =
    (if results = [] then []
     else display_item opts hl fetch (last results) # displayItems opts hl fetch (butlast results))"
  by pat_completeness auto
termination
  by (relation "measure (\<lambda>(opts, hl, fetch, rs). length rs)") auto

declare displayItems.simps [simp del]

definition finished_status :: "(ustr \<Rightarrow> ustr) \<Rightarrow> nat \<Rightarrow> ustr" where
  "finished_status tr n =
    (if n = 0 then tr (u ''Your search did not match any documents. Please make sure that all words are spelled correctly and that you'' @ [39] @ u ''ve selected enough categories.'')
     else let s = tr (u ''Search finished, found %s page(s) matching the search query.'')
          in case find_str (u ''%s'') s of None \<Rightarrow> s
             | Some i \<Rightarrow> take i s @ dec_nat n @ drop (i + 2) s)"

section \<open>Summaries\<close>

definition trim :: "ustr \<Rightarrow> ustr" where
  "trim s = rev (dropWhile is_space (rev (dropWhile is_space s)))"

definition summary_start :: "ustr \<Rightarrow> ustr list \<Rightarrow> nat" where
  "summary_start text keywords =
    fold (\<lambda>k start. case find_str (to_lower k) (to_lower text) of Some i \<Rightarrow> i | None \<Rightarrow> start) keywords 0 - 120"

definition excerpt :: "ustr \<Rightarrow> ustr list \<Rightarrow> ustr" where
  "excerpt text keywords =
    (let start = summary_start text keywords
     in (if start > 0 then u ''...'' else []) @ trim (take 240 (drop start text))
        @ (if int start + 240 - int (length text) \<noteq> 0 then u ''...'' else []))"

definition makeSearchSummary :: "(ustr \<Rightarrow> ustr) \<Rightarrow> ustr \<Rightarrow> ustr list \<Rightarrow> ustr list \<Rightarrow> dom list" where
  "makeSearchSummary htmlToText htmlText keywords hlwords =
    foldl (\<lambda>rv w. highlightText w (u ''highlighted'') rv)
      [Elt (u ''div'') [u ''context''] [Txt (excerpt (htmlToText htmlText) keywords)]] hlwords"

section \<open>Handing the query to the index\<close>

text \<open>What can happen on the search page after it has been opened: a search, the arrival of the index,
  the timer of the pulse, the end of the display.\<close>

inductive search_step :: "search_state \<Rightarrow> search_state \<Rightarrow> bool" where
  perform: "search_step st (performSearch q st)"
| index_loaded: "search_step st (setIndex i st)"
| timer: "pulse_timer st \<Longrightarrow> search_step st (pulse st)"
| finished: "search_step st (stopPulse st)"

inductive search_reach :: "search_state \<Rightarrow> bool" where
  opened: "search_reach Search0"
| step: "search_reach st \<Longrightarrow> search_step st st' \<Longrightarrow> search_reach st'"

inductive_cases search_stepE: "search_step st st'"

lemmas search_defs = performSearch_def startPulse_def pulse_def setIndex_def run_query_def deferQuery_def
  stopPulse_def hasIndex_def Let_def

lemma js_mod_next:
  assumes "-1 \<le> s"
  shows "0 \<le> js_mod (s + 1) 4" "js_mod (s + 1) 4 \<le> 3" "-1 \<le> js_mod (s + 1) 4" "-1 < js_mod (s + 1) 4"
proof -
  have "js_mod (s + 1) 4 = (s + 1) mod 4"
    using assms by (cases "s = -1") (simp_all add: js_mod_def)
  moreover have "0 \<le> (s + 1) mod 4" "(s + 1) mod 4 < 4" by simp_all
  ultimately show "0 \<le> js_mod (s + 1) 4" "js_mod (s + 1) 4 \<le> 3" "-1 \<le> js_mod (s + 1) 4" "-1 < js_mod (s + 1) 4"
    by linarith+
qed

lemma search_inv:
  "search_reach st \<Longrightarrow> (idx st \<noteq> None \<longrightarrow> queued_query st = None) \<and> -1 \<le> pulse_status st \<and> pulse_status st \<le> 3"
proof (induction rule: search_reach.induct)
  case (step st st')
  from step(2) show ?case
  proof (cases rule: search_step.cases)
    case (perform q)
    with step(3) show ?thesis by (auto simp: search_defs js_mod_next)
  next
    case (index_loaded i)
    with step(3) show ?thesis by (auto simp: search_defs split: option.splits)
  next
    case timer
    with step(3) show ?thesis by (auto simp: search_defs js_mod_next)
  next
    case finished
    with step(3) show ?thesis by (auto simp: search_defs)
  qed
qed (simp add: Search0_def)

text \<open>C19: A search is run exactly once, at once when the index is there and otherwise when it arrives;
  a search that was waiting is replaced by a later one.\<close>

theorem query_runs_once:
  assumes "search_reach st"
  shows "(idx st \<noteq> None \<longrightarrow> ran (performSearch q st) = ran st @ [q] \<and>
            ran (setIndex i (performSearch q st)) = ran st @ [q]) \<and>
         (idx st = None \<longrightarrow> ran (performSearch q st) = ran st \<and>
            ran (setIndex i (performSearch q st)) = ran st @ [q] \<and>
            ran (setIndex j (setIndex i (performSearch q st))) = ran st @ [q] \<and>
            ran (setIndex i (performSearch q (performSearch p st))) = ran st @ [q])"
  using search_inv [OF assms] by (auto simp: search_defs)

theorem query_runs_once_witness:
  "\<forall>i. ran (setIndex i (performSearch (u ''log'') Search0)) = [u ''log'']"
  using query_runs_once [OF opened, of "u ''log''"] by (simp add: Search0_def)

text \<open>\<open>stopPulse\<close> stores 0, on which \<open>pulse\<close> goes on: once started, the timer of the progress dots is
  set for ever.\<close>

theorem pulse_never_stops:
  assumes "search_reach st" "pulse_timer st" "search_step st st'"
  shows "pulse_timer st'"
proof -
  have p: "-1 \<le> pulse_status st" using search_inv [OF assms(1)] by simp
  show ?thesis using assms(3)
  proof (cases rule: search_step.cases)
    case (perform q)
    have "-1 < js_mod (pulse_status st + 1) 4" by (rule js_mod_next [OF p])
    then have "pulse_timer (startPulse st)" using assms(2) by (simp add: startPulse_def pulse_def Let_def)
    then show ?thesis by (simp add: perform performSearch_def run_query_def deferQuery_def Let_def)
  next
    case (index_loaded i)
    then show ?thesis using assms(2) by (simp add: search_defs split: option.split)
  next
    case timer
    have "-1 < js_mod (pulse_status st + 1) 4" by (rule js_mod_next [OF p])
    then show ?thesis unfolding timer(1) pulse_def Let_def by simp
  next
    case finished
    then show ?thesis using assms(2) by (simp add: stopPulse_def)
  qed
qed

theorem pulse_never_stops_witness:
  "pulse_timer (pulse (stopPulse (performSearch (u ''log'') Search0)))"
proof -
  have a: "search_reach (stopPulse (performSearch (u ''log'') Search0))"
    by (rule search_reach.step [OF search_reach.step [OF opened perform] finished])
  have b: "pulse_timer (stopPulse (performSearch (u ''log'') Search0))"
    by (simp add: search_defs Search0_def js_mod_def)
  show ?thesis by (rule pulse_never_stops [OF a b timer [OF b]])
qed

section \<open>Order of the results\<close>

lemma lex_less_eq: "lex_less xs ys \<longleftrightarrow> xs < ys"
  by (induction xs ys rule: lex_less.induct) auto

lemma compare_results_le:
  "compare_results a b \<le> 0 \<longleftrightarrow>
     r_score a < r_score b \<or> r_score a = r_score b \<and> to_lower (r_title b) \<le> to_lower (r_title a)"
  by (auto simp: compare_results_def Let_def lex_less_eq)

lemma compare_results_ok: "cmp_ok compare_results"
  unfolding cmp_ok_def compare_results_le by force

lemma displayItems_eq: "displayItems opts hl fetch rs = map (display_item opts hl fetch) (rev rs)"
proof (induction rs rule: rev_induct)
  case (snoc r rs)
  then show ?case by (subst displayItems.simps) simp
qed (simp add: displayItems.simps)

text \<open>Every result found is displayed exactly once, in the order of falling scores and, among equal
  scores, of the titles.\<close>

theorem display_order:
  "\<exists>rs. displayItems opts hl fetch (query_results ix tr q) = map (display_item opts hl fetch) rs \<and>
     mset rs = mset (object_searches ix tr [] (objectterms (classify q))) +
       mset (performTermsSearch ix (searchterms (classify q)) (excluded (classify q)) (terms ix) (titleterms ix)) \<and>
     sorted_wrt (\<lambda>a b. r_score b < r_score a \<or>
       r_score a = r_score b \<and> to_lower (r_title a) \<le> to_lower (r_title b)) rs"
proof -
  let ?rs = "query_results ix tr q"
  have "sorted_wrt (\<lambda>a b. compare_results a b \<le> 0) ?rs"
    unfolding query_results_def Let_def by (rule sorted_sort_by [OF compare_results_ok])
  then have "sorted_wrt (\<lambda>a b. compare_results b a \<le> 0) (rev ?rs)" by (simp add: sorted_wrt_rev)
  then have "sorted_wrt (\<lambda>a b. r_score b < r_score a \<or>
       r_score a = r_score b \<and> to_lower (r_title a) \<le> to_lower (r_title b)) (rev ?rs)"
    by (simp add: compare_results_le eq_commute)
  moreover have "mset (rev ?rs) = mset (object_searches ix tr [] (objectterms (classify q))) +
       mset (performTermsSearch ix (searchterms (classify q)) (excluded (classify q)) (terms ix) (titleterms ix))"
    by (simp add: query_results_def Let_def mset_sort_by)
  ultimately show ?thesis using displayItems_eq [of opts hl fetch ?rs] by blast
qed

section \<open>Literal patterns\<close>

lemma literal_pattern_append:
  "c \<in> set syntax_chars \<Longrightarrow> literal_pattern (92 # c # s) = map_option ((#) c) (literal_pattern s)"
  "c \<notin> set syntax_chars \<Longrightarrow> literal_pattern (c # s) = map_option ((#) c) (literal_pattern s)"
  by (simp_all add: syntax_chars_def)

lemma literal_escape: "literal_pattern (escapeRegExp s) = Some s"
proof (induction s)
  case (Cons c s)
  have "escapeRegExp (c # s) = (if c \<in> set syntax_chars then [92, c] else [c]) @ escapeRegExp s"
    by (simp add: escapeRegExp_def)
  with Cons show ?case
    by (cases "c \<in> set syntax_chars") (simp_all add: literal_pattern_append del: literal_pattern.simps(2))
qed (simp add: escapeRegExp_def)

lemma match_escaped: "match_pattern (escapeRegExp w) s \<longleftrightarrow> includes_str s w"
  by (simp add: match_pattern_def literal_escape)

text \<open>The pattern \<open>escapeRegExp\<close> builds from a word is read back as that word, so that a match is
  an occurrence of the word.\<close>

theorem escape_pattern_roundtrip:
  "literal_pattern (escapeRegExp w) = Some w \<and>
   (match_pattern (escapeRegExp w) s \<longleftrightarrow> (\<exists>a b. s = a @ w @ b))"
  using find_str_None_iff [of w s] by (simp add: match_escaped literal_escape includes_str_def)

section \<open>The term search\<close>

lemma dget_map_file:
  "dget (map_file w n fm) m =
     (if m = n then Some (case dget fm n of Some ws \<Rightarrow> if w \<in> set ws then [w] else ws @ [w] | None \<Rightarrow> [w])
      else dget fm m)"
  by (auto simp: map_file_def split: option.split)

text \<open>What the mapping holds of a file after some words: words it matched, none twice, and no more of
  them than words were looked up.\<close>

definition map_ok :: "files dict \<Rightarrow> files dict \<Rightarrow> ustr list \<Rightarrow> (nat \<times> ustr list) list \<Rightarrow> bool" where
  "map_ok ts tts dn fm \<longleftrightarrow> distinct (map fst fm) \<and> (\<forall>n ws. dget fm n = Some ws \<longrightarrow> distinct ws \<and>
     (\<forall>w \<in> set ws. w \<in> set dn \<and> n \<in> set (hit_files (hits ts tts w))))"

lemma map_file_keys: "distinct (map fst fm) \<Longrightarrow> distinct (map fst (map_file w n fm))"
  by (simp add: map_file_def split: option.split)

lemma map_ok_step:
  assumes "map_ok ts tts dn fm" "n \<in> set (hit_files (hits ts tts w))" "w \<in> set dn"
  shows "map_ok ts tts dn (map_file w n fm)"
  using assms map_file_keys [of fm w n] by (auto simp: map_ok_def dget_map_file split: option.splits)

lemma map_ok_fold:
  assumes "map_ok ts tts dn fm" "w \<in> set dn" "set ns \<subseteq> set (hit_files (hits ts tts w))"
  shows "map_ok ts tts dn (fold (map_file w) ns fm)"
  using assms by (induction ns arbitrary: fm) (auto intro: map_ok_step)

lemma map_ok_mono: "map_ok ts tts d fm \<Longrightarrow> set d \<subseteq> set d' \<Longrightarrow> map_ok ts tts d' fm"
  by (auto simp: map_ok_def)

lemma terms_loop_ok:
  "map_ok ts tts dn fm \<Longrightarrow> map_ok ts tts (dn @ ws) (fst (terms_loop ts tts ws fm sm))"
proof (induction ts tts ws fm sm arbitrary: dn rule: terms_loop.induct)
  case (2 ts tts word wds fm sm)
  show ?case
  proof (cases "list_all (\<lambda>h. fst h = None) (hits ts tts word)")
    case True
    then show ?thesis using 2(2) by (auto simp: Let_def intro: map_ok_mono)
  next
    case False
    have "map_ok ts tts (dn @ [word]) (fold (map_file word) (hit_files (hits ts tts word)) fm)"
      by (rule map_ok_fold) (use 2(2) in \<open>auto intro: map_ok_mono\<close>)
    from 2(1) [OF refl False this] False show ?thesis by (simp add: Let_def)
  qed
qed simp

lemma map_ok_Nil [simp]: "map_ok ts tts d []"
  by (simp add: map_ok_def)

lemma distinct_full:
  assumes "distinct ws" "set ws \<subseteq> set sts" "distinct sts" "length ws = length sts"
  shows "set ws = set sts"
  using assms by (metis card_subset_eq distinct_card List.finite_set)



lemma fold_map_file_other: "n \<notin> set ns \<Longrightarrow> dget (fold (map_file w) ns fm) n = dget fm n"
  by (induction ns arbitrary: fm) (auto simp: dget_map_file)

lemma fold_map_file_once:
  assumes "distinct ns" "n \<in> set ns" "w \<notin> set (case dget fm n of Some ws \<Rightarrow> ws | None \<Rightarrow> [])"
  shows "dget (fold (map_file w) ns fm) n = Some ((case dget fm n of Some ws \<Rightarrow> ws | None \<Rightarrow> []) @ [w])"
  using assms
proof (induction ns arbitrary: fm)
  case (Cons m ns)
  show ?case
  proof (cases "m = n")
    case True
    with Cons.prems show ?thesis by (auto simp: fold_map_file_other dget_map_file split: option.splits)
  next
    case False
    with Cons.prems have "n \<in> set ns" "distinct ns" by auto
    moreover have "dget (map_file w m fm) n = dget fm n" using False by (simp add: dget_map_file)
    ultimately show ?thesis using Cons.IH [of "map_file w m fm"] Cons.prems(3) by simp
  qed
qed simp

lemma hit_files_None: "list_all (\<lambda>h. fst h = None) hs \<Longrightarrow> hit_files hs = []"
  by (induction hs) (auto simp: hit_files_def)

lemma terms_loop_all:
  assumes "\<forall>w \<in> set ws. n \<in> set (hit_files (hits ts tts w)) \<and> distinct (hit_files (hits ts tts w))"
    and "distinct (dn @ ws)" "dget fm n = (if dn = [] then None else Some dn)"
  shows "dget (fst (terms_loop ts tts ws fm sm)) n = (if dn @ ws = [] then None else Some (dn @ ws))"
  using assms
proof (induction ts tts ws fm sm arbitrary: dn rule: terms_loop.induct)
  case (2 ts tts word wds fm sm)
  then have h: "n \<in> set (hit_files (hits ts tts word))" "distinct (hit_files (hits ts tts word))" by simp_all
  then have a: "\<not> list_all (\<lambda>h. fst h = None) (hits ts tts word)" using hit_files_None by fastforce
  have "dget (fold (map_file word) (hit_files (hits ts tts word)) fm) n = Some (dn @ [word])"
    using fold_map_file_once [OF h(2,1), of word fm] 2(3,4) by (auto split: if_splits)
  with 2(1) [OF refl a, of "dn @ [word]"] 2(2,3) a show ?case by (simp add: Let_def)
qed simp



text \<open>A word that occurs in the text and in the title of a file throws away what was found before: the
  file that matches both words best is not in the results.\<close>

theorem title_match_lost:
  "found_files [u ''log'', u ''match''] [] [(u ''log'', One 7), (u ''match'', One 7)] [(u ''match'', One 7)] = []
   \<and> found_files [u ''log'', u ''match''] [] [(u ''log'', One 7), (u ''match'', One 7)] [] = [(7, 5)]"
  by code_simp

section \<open>The words of the query\<close>

lemma stem_hd: "w \<noteq> [] \<Longrightarrow> stemWord w \<noteq> [] \<and> hd (stemWord w) = hd w"
  using stemWord_keeps [of w] by blast

lemma classify_word_excluded:
  assumes "45 \<notin> set w" "excluded qw = []"
  shows "excluded (classify_word w qw) = []"
proof -
  have l: "to_lower_unit c = 45 \<longleftrightarrow> c = 45" for c by (auto simp: to_lower_unit_def)
  have "hd (stemWord (to_lower w)) \<noteq> 45 \<and> hd w \<noteq> 45" if "w \<noteq> []"
  proof -
    have "to_lower w \<noteq> []" using that by (simp add: to_lower_def)
    then have "hd (stemWord (to_lower w)) = hd (to_lower w)" using stem_hd by blast
    also have "\<dots> = to_lower_unit (hd w)" using that by (simp add: to_lower_def hd_map)
    finally show ?thesis using l that assms(1) by (metis hd_in_set)
  qed
  then show ?thesis using assms(2) by (auto simp: classify_word_def Let_def)
qed

lemma classify_word_hl:
  "hlterms (classify_word w qw) = hlterms qw \<or> hlterms (classify_word w qw) = hlterms qw @ [to_lower w]"
  by (simp add: classify_word_def Let_def)

lemma classify_word_terms:
  "searchterms (classify_word w qw) = searchterms qw \<or>
   (\<exists>t. searchterms (classify_word w qw) = push_new t (searchterms qw))"
  by (simp add: classify_word_def Let_def) blast

lemma classify_word_objects:
  "hlterms (classify_word w qw) = hlterms qw \<and> set (objectterms qw) \<subseteq> set (objectterms (classify_word w qw)) \<or>
   hlterms (classify_word w qw) = hlterms qw @ [to_lower w] \<and>
     set (objectterms (classify_word w qw)) = insert (to_lower w) (set (objectterms qw))"
  by (simp add: classify_word_def Let_def) blast

lemma fold_classify:
  assumes "\<forall>w \<in> set ws. w \<noteq> [] \<and> (\<forall>c \<in> set w. \<not> splitChars c)" "excluded qw = []"
    and "distinct (searchterms qw)" "\<forall>t \<in> set (hlterms qw). t \<noteq> [] \<and> (\<forall>c \<in> set t. \<not> is_space c)"
    and "set (hlterms qw) \<subseteq> set (objectterms qw)"
  shows "excluded (fold classify_word ws qw) = [] \<and> distinct (searchterms (fold classify_word ws qw)) \<and>
    (\<forall>t \<in> set (hlterms (fold classify_word ws qw)). t \<noteq> [] \<and> (\<forall>c \<in> set t. \<not> is_space c)) \<and>
    set (hlterms (fold classify_word ws qw)) \<subseteq> set (objectterms (fold classify_word ws qw))"
  using assms
proof (induction ws arbitrary: qw)
  case (Cons w ws)
  note s = splitChars_space
  have m: "splitChars 45" by code_simp
  have w: "w \<noteq> []" "45 \<notin> set w" "\<forall>c \<in> set w. \<not> is_space c" using Cons.prems(1) s m by auto
  have l: "is_space (to_lower_unit c) \<Longrightarrow> is_space c" for c
  proof -
    have "is_space d \<Longrightarrow> \<not> (97 \<le> d \<and> d \<le> 122) \<and> \<not> (224 \<le> d \<and> d \<le> 254)" for d
      unfolding is_space_def line_end_def by linarith
    from this [of "c + 32"] show "is_space (to_lower_unit c) \<Longrightarrow> is_space c"
      by (cases "65 \<le> c \<and> c \<le> 90 \<or> 192 \<le> c \<and> c \<le> 222 \<and> c \<noteq> 215") (auto simp: to_lower_unit_def)
  qed
  have e: "excluded (classify_word w qw) = []" by (rule classify_word_excluded [OF w(2) Cons.prems(2)])
  have d: "distinct (searchterms (classify_word w qw))"
    using Cons.prems(3) classify_word_terms [of w qw] by (auto simp: push_new_def)
  have h: "\<forall>t \<in> set (hlterms (classify_word w qw)). t \<noteq> [] \<and> (\<forall>c \<in> set t. \<not> is_space c)"
  proof -
    have "to_lower w \<noteq> []" using w(1) by (simp add: to_lower_def)
    moreover have "\<forall>c \<in> set (to_lower w). \<not> is_space c" using w(3) l by (auto simp: to_lower_def)
    ultimately have "\<forall>t \<in> set (hlterms qw @ [to_lower w]). t \<noteq> [] \<and> (\<forall>c \<in> set t. \<not> is_space c)"
      using Cons.prems(4) by simp
    then show ?thesis using classify_word_hl [of w qw] Cons.prems(4) by metis
  qed
  have o: "set (hlterms (classify_word w qw)) \<subseteq> set (objectterms (classify_word w qw))"
    using Cons.prems(5) classify_word_objects [of w qw] by (elim disjE) auto
  from Cons.IH [OF _ e d h o] Cons.prems(1) show ?case by simp
qed simp

lemma classify_ok:
  "excluded (classify q) = [] \<and> distinct (searchterms (classify q)) \<and>
   (\<forall>t \<in> set (hlterms (classify q)). t \<noteq> [] \<and> (\<forall>c \<in> set t. \<not> is_space c)) \<and>
   set (hlterms (classify q)) \<subseteq> set (objectterms (classify q))"
  unfolding classify_def by (rule fold_classify) (auto dest: splitQuery_word)

text \<open>The search terms of a query are different from each other, and none is ever excluded: the
  splitter takes the minus sign away before the test for it.\<close>

theorem no_excluded_terms: "excluded (classify q) = [] \<and> distinct (searchterms (classify q))"
  using classify_ok by blast

text \<open>The page a result links to highlights exactly the words of the query: the link carries the
  words, and decoding its query string returns them.\<close>

theorem result_link_terms:
  assumes "hlterms (classify q) \<noteq> []" "highlightstring (classify q) = Some h"
    and "\<forall>t \<in> set (hlterms (classify q)). \<forall>c \<in> set t. 0 \<le> c \<and> c < 65536"
  shows "highlight_terms h = Some (hlterms (classify q))"
proof -
  from assms(2) obtain e where e: "urlencode (join (u '' '') (hlterms (classify q))) = Some e"
    and h: "h = u ''?highlight='' @ e" by (auto simp: highlightstring_def)
  show ?thesis unfolding h
    by (rule highlight_terms_join [OF assms(1) _ e]) (use classify_ok [of q] assms(3) in blast)
qed

theorem result_link_terms_witness:
  "highlight_terms (u ''?highlight='' @ u ''leader%20election'') = Some [u ''leader'', u ''election'']"
proof -
  have c: "hlterms (classify (u ''Leader election'')) = [u ''leader'', u ''election'']" by code_simp
  have h: "highlightstring (classify (u ''Leader election'')) = Some (u ''?highlight='' @ u ''leader%20election'')"
    by code_simp
  have "\<forall>t \<in> set [u ''leader'', u ''election'']. \<forall>c \<in> set t. 0 \<le> c \<and> c < 65536" by code_simp
  then show ?thesis using result_link_terms [OF _ h] by (simp add: c)
qed

end
