(* ===== verification/UsObject.thy ===== *)
theory UsObject
  imports JsPrelude Complex_Main
begin

text \<open>
  The object model behind Underscore (\<open>underscore-1.12.0.js\<close>, lines 47 to 760) and its functions on
  single values: type tests, keys, matching, assignment, paths and iteratees.  A value is a
  primitive or a reference into the heap, a list of objects; an object has a class (the name
  \<open>Object.prototype.toString\<close> reports), a primitive value (for wrappers, dates and regular
  expressions), elements (arrays, arguments, typed arrays, buffers), own enumerable properties in
  their order, a prototype, and, for an instance of \<open>_\<close>, the wrapped value.  Numbers are the
  integers, both zeros, both infinities and \<open>NaN\<close>.  Getters, symbols as keys and the separate
  enumeration of integer-like keys are left out.
\<close>

datatype jnum = NaN | PInf | NInf | NZero | Fin int

datatype val = Undef | Null | Bool bool | Num jnum | Str ustr | Sym nat | Ref nat

record obj =
  cls :: ustr
  prim :: val
  elems :: "val list"
  elem_bytes :: nat
  buffer :: "nat \<times> nat"
  props :: "val dict"
  proto :: "nat option"
  wrapped :: "val option"

type_synonym heap = "obj list"

definition new_obj :: obj where
  "new_obj = \<lparr> cls = u ''Object'', prim = Undef, elems = [], elem_bytes = 0, buffer = (0, 0),
     props = [], proto = None, wrapped = None \<rparr>"

definition new_array :: "val list \<Rightarrow> obj" where
  "new_array xs = new_obj \<lparr> cls := u ''Array'', elems := xs \<rparr>"

definition obj_at :: "heap \<Rightarrow> nat \<Rightarrow> obj" where
  "obj_at h r = (if r < length h then h ! r else new_obj)"

section \<open>The language\<close>

definition typeof :: "heap \<Rightarrow> val \<Rightarrow> ustr" where
  "typeof h v = (case v of Undef \<Rightarrow> u ''undefined'' | Null \<Rightarrow> u ''object'' | Bool _ \<Rightarrow> u ''boolean''
     | Num _ \<Rightarrow> u ''number'' | Str _ \<Rightarrow> u ''string'' | Sym _ \<Rightarrow> u ''symbol''
     | Ref r \<Rightarrow> if cls (obj_at h r) = u ''Function'' then u ''function'' else u ''object'')"

definition toString_tag :: "heap \<Rightarrow> val \<Rightarrow> ustr" where
  "toString_tag h v = (case v of Undef \<Rightarrow> u ''Undefined'' | Null \<Rightarrow> u ''Null'' | Bool _ \<Rightarrow> u ''Boolean''
     | Num _ \<Rightarrow> u ''Number'' | Str _ \<Rightarrow> u ''String'' | Sym _ \<Rightarrow> u ''Symbol'' | Ref r \<Rightarrow> cls (obj_at h r))"

text \<open>Strict equality: \<open>NaN\<close> differs from itself, the zeros are the same.\<close>

definition num_seq :: "jnum \<Rightarrow> jnum \<Rightarrow> bool" where
  "num_seq a b \<longleftrightarrow> a \<noteq> NaN \<and> b \<noteq> NaN \<and> (a = b \<or> {a, b} = {NZero, Fin 0})"

definition strict_eq :: "val \<Rightarrow> val \<Rightarrow> bool" where
  "strict_eq a b = (case (a, b) of (Num m, Num n) \<Rightarrow> num_seq m n | _ \<Rightarrow> a = b)"

definition loose_null :: "val \<Rightarrow> bool" where
  "loose_null v \<longleftrightarrow> v = Undef \<or> v = Null"

definition truthy :: "val \<Rightarrow> bool" where
  "truthy v = (case v of Undef \<Rightarrow> False | Null \<Rightarrow> False | Bool b \<Rightarrow> b
     | Num n \<Rightarrow> n \<noteq> NaN \<and> n \<noteq> NZero \<and> n \<noteq> Fin 0 | Str s \<Rightarrow> s \<noteq> [] | Sym _ \<Rightarrow> True | Ref _ \<Rightarrow> True)"

definition has_elems :: "obj \<Rightarrow> bool" where
  "has_elems x \<longleftrightarrow> cls x = u ''Array'' \<or> cls x = u ''Arguments'' \<or> elem_bytes x > 0"

definition own_keys :: "obj \<Rightarrow> ustr list" where
  "own_keys x = (if has_elems x then map dec_nat [0..<length (elems x)] else []) @ map fst (props x)"

definition own_get :: "obj \<Rightarrow> ustr \<Rightarrow> val option" where
  "own_get x k =
    (if has_elems x then
       (case List.find (\<lambda>i. dec_nat i = k) [0..<length (elems x)] of
          Some i \<Rightarrow> Some (elems x ! i)
        | None \<Rightarrow> if k = u ''length'' then Some (Num (Fin (int (length (elems x))))) else dget (props x) k)
     else dget (props x) k)"

text \<open>Reading through the chain of prototypes; the number of objects bounds its length.\<close>

fun chain_get :: "nat \<Rightarrow> heap \<Rightarrow> nat \<Rightarrow> ustr \<Rightarrow> val option" where
  "chain_get 0 h r k = None"
| "chain_get (Suc n) h r k = (case own_get (obj_at h r) k of Some v \<Rightarrow> Some v
     | None \<Rightarrow> (case proto (obj_at h r) of None \<Rightarrow> None | Some p \<Rightarrow> chain_get n h p k))"

definition get_prop :: "heap \<Rightarrow> val \<Rightarrow> ustr \<Rightarrow> val" where
  "get_prop h v k = (case v of
     Ref r \<Rightarrow> (case chain_get (Suc (length h)) h r k of Some x \<Rightarrow> x | None \<Rightarrow> Undef)
   | Str s \<Rightarrow> if k = u ''length'' then Num (Fin (int (length s))) else Undef
   | _ \<Rightarrow> Undef)"

definition in_op :: "heap \<Rightarrow> ustr \<Rightarrow> val \<Rightarrow> bool" where
  "in_op h k v = (case v of Ref r \<Rightarrow> chain_get (Suc (length h)) h r k \<noteq> None | _ \<Rightarrow> False)"

fun proto_chain :: "nat \<Rightarrow> heap \<Rightarrow> nat \<Rightarrow> nat list" where
  "proto_chain 0 h r = []"
| "proto_chain (Suc n) h r = (case proto (obj_at h r) of None \<Rightarrow> [] | Some p \<Rightarrow> p # proto_chain n h p)"

definition instance_of :: "heap \<Rightarrow> val \<Rightarrow> val \<Rightarrow> bool" where
  "instance_of h v c = (case (v, get_prop h c (u ''prototype'')) of
     (Ref r, Ref p) \<Rightarrow> p \<in> set (proto_chain (length h) h r) | _ \<Rightarrow> False)"

section \<open>Rest arguments\<close>

text \<open>What \<open>restArguments(func, startIndex)\<close> passes on: the leading arguments, missing ones
  \<open>undefined\<close>, and the array of the others.\<close>

definition rest_start :: "nat option \<Rightarrow> nat \<Rightarrow> nat" where
  "rest_start startIndex func_length = (case startIndex of None \<Rightarrow> func_length - 1 | Some i \<Rightarrow> i)"

definition restArguments :: "nat \<Rightarrow> val list \<Rightarrow> val list \<times> val list" where
  "restArguments startIndex args =
    (map (\<lambda>i. if i < length args then args ! i else Undef) [0..<startIndex], drop startIndex args)"

section \<open>Type tests\<close>

definition isObject :: "heap \<Rightarrow> val \<Rightarrow> bool" where
  "isObject h obj = (let type = typeof h obj
     in type = u ''function'' \<or> type = u ''object'' \<and> truthy obj)"

definition isNull :: "val \<Rightarrow> bool" where
  "isNull obj = strict_eq obj Null"

definition isUndefined :: "val \<Rightarrow> bool" where
  "isUndefined obj = strict_eq obj Undef"

definition isBoolean :: "heap \<Rightarrow> val \<Rightarrow> bool" where
  "isBoolean h obj \<longleftrightarrow> strict_eq obj (Bool True) \<or> strict_eq obj (Bool False) \<or> toString_tag h obj = u ''Boolean''"

definition isElement :: "heap \<Rightarrow> val \<Rightarrow> bool" where
  "isElement h obj \<longleftrightarrow> truthy obj \<and> strict_eq (get_prop h obj (u ''nodeType'')) (Num (Fin 1))"

definition tagTester :: "ustr \<Rightarrow> heap \<Rightarrow> val \<Rightarrow> bool" where
  "tagTester name h obj \<longleftrightarrow> toString_tag h obj = name"

definition isString :: "heap \<Rightarrow> val \<Rightarrow> bool" where "isString = tagTester (u ''String'')"
definition isNumber :: "heap \<Rightarrow> val \<Rightarrow> bool" where "isNumber = tagTester (u ''Number'')"
definition isDate :: "heap \<Rightarrow> val \<Rightarrow> bool" where "isDate = tagTester (u ''Date'')"
definition isRegExp :: "heap \<Rightarrow> val \<Rightarrow> bool" where "isRegExp = tagTester (u ''RegExp'')"
definition isError :: "heap \<Rightarrow> val \<Rightarrow> bool" where "isError = tagTester (u ''Error'')"
definition isSymbol :: "heap \<Rightarrow> val \<Rightarrow> bool" where "isSymbol = tagTester (u ''Symbol'')"
definition isArrayBuffer :: "heap \<Rightarrow> val \<Rightarrow> bool" where "isArrayBuffer = tagTester (u ''ArrayBuffer'')"
definition isFunction :: "heap \<Rightarrow> val \<Rightarrow> bool" where "isFunction = tagTester (u ''Function'')"
definition isDataView :: "heap \<Rightarrow> val \<Rightarrow> bool" where "isDataView = tagTester (u ''DataView'')"
definition isArray :: "heap \<Rightarrow> val \<Rightarrow> bool" where "isArray = tagTester (u ''Array'')"
definition isArguments :: "heap \<Rightarrow> val \<Rightarrow> bool" where "isArguments = tagTester (u ''Arguments'')"

definition us_has :: "heap \<Rightarrow> val \<Rightarrow> ustr \<Rightarrow> bool" where
  "us_has h obj key = (case obj of Ref r \<Rightarrow> own_get (obj_at h r) key \<noteq> None | _ \<Rightarrow> False)"

definition prim_of :: "heap \<Rightarrow> val \<Rightarrow> val" where
  "prim_of h v = (case v of Ref r \<Rightarrow> prim (obj_at h r) | _ \<Rightarrow> v)"

definition us_isNaN :: "heap \<Rightarrow> val \<Rightarrow> bool" where
  "us_isNaN h obj \<longleftrightarrow> isNumber h obj \<and> prim_of h obj = Num NaN"

definition getLength :: "heap \<Rightarrow> val \<Rightarrow> val" where
  "getLength h obj = (if loose_null obj then Undef else get_prop h obj (u ''length''))"

definition MAX_ARRAY_INDEX :: int where
  "MAX_ARRAY_INDEX = 2 ^ 53 - 1"

definition createSizePropertyCheck :: "val \<Rightarrow> bool" where
  "createSizePropertyCheck sizeProperty = (case sizeProperty of
     Num (Fin n) \<Rightarrow> 0 \<le> n \<and> n \<le> MAX_ARRAY_INDEX | Num NZero \<Rightarrow> True | _ \<Rightarrow> False)"

definition isArrayLike :: "heap \<Rightarrow> val \<Rightarrow> bool" where
  "isArrayLike h obj = createSizePropertyCheck (getLength h obj)"

definition isTypedArray :: "heap \<Rightarrow> val \<Rightarrow> bool" where
  "isTypedArray h obj = (case obj of Ref r \<Rightarrow> elem_bytes (obj_at h r) > 0 | _ \<Rightarrow> False)"

section \<open>Keys\<close>

definition us_keys :: "heap \<Rightarrow> val \<Rightarrow> ustr list" where
  "us_keys h obj = (if \<not> isObject h obj then []
     else case obj of Ref r \<Rightarrow> own_keys (obj_at h r) | _ \<Rightarrow> [])"

text \<open>The \<open>for-in\<close> loop: own keys, then those of the prototypes that are not shadowed.\<close>

fun chain_keys :: "nat \<Rightarrow> heap \<Rightarrow> nat \<Rightarrow> ustr list \<Rightarrow> ustr list" where
  "chain_keys 0 h r seen = []"
| "chain_keys (Suc n) h r seen =
    (let ks = filter (\<lambda>k. k \<notin> set seen) (own_keys (obj_at h r))
     in ks @ (case proto (obj_at h r) of None \<Rightarrow> [] | Some p \<Rightarrow> chain_keys n h p (seen @ ks)))"

definition allKeys :: "heap \<Rightarrow> val \<Rightarrow> ustr list" where
  "allKeys h obj = (if \<not> isObject h obj then []
     else case obj of Ref r \<Rightarrow> chain_keys (Suc (length h)) h r [] | _ \<Rightarrow> [])"

definition isEmpty :: "heap \<Rightarrow> val \<Rightarrow> bool" where
  "isEmpty h obj =
    (if loose_null obj then True
     else let len = getLength h obj in
       if (\<exists>n. len = Num n) \<and> (isArray h obj \<or> isString h obj \<or> isArguments h obj)
       then strict_eq len (Num (Fin 0))
       else us_keys h obj = [])"

definition isMatch :: "heap \<Rightarrow> val \<Rightarrow> val \<Rightarrow> bool" where
  "isMatch h object attrs =
    (let ks = us_keys h attrs
     in if loose_null object then ks = []
        else list_all (\<lambda>key. strict_eq (get_prop h attrs key) (get_prop h object key) \<and> in_op h key object) ks)"

definition us_values :: "heap \<Rightarrow> val \<Rightarrow> val list" where
  "us_values h obj = map (get_prop h obj) (us_keys h obj)"

definition us_pairs :: "heap \<Rightarrow> val \<Rightarrow> (ustr \<times> val) list" where
  "us_pairs h obj = map (\<lambda>k. (k, get_prop h obj k)) (us_keys h obj)"

text \<open>\<open>functions\<close>: the sorted names of the methods.\<close>

definition us_functions :: "(ustr list \<Rightarrow> ustr list) \<Rightarrow> heap \<Rightarrow> val \<Rightarrow> ustr list" where
  "us_functions sort_names h obj = sort_names (filter (\<lambda>k. isFunction h (get_prop h obj k)) (allKeys h obj))"

section \<open>Assignment\<close>

text \<open>A store to a named property; frozen objects and setters are left out.\<close>

definition put_prop :: "heap \<Rightarrow> nat \<Rightarrow> ustr \<Rightarrow> val \<Rightarrow> heap" where
  "put_prop h r k v = h[r := (obj_at h r) \<lparr> props := dput k v (props (obj_at h r)) \<rparr>]"

fun assign_keys :: "bool \<Rightarrow> nat \<Rightarrow> val \<Rightarrow> ustr list \<Rightarrow> heap \<Rightarrow> heap" where
  "assign_keys defaults r source [] h = h"
| "assign_keys defaults r source (key # keys) h =
    assign_keys defaults r source keys
      (if \<not> defaults \<or> strict_eq (get_prop h (Ref r) key) Undef
       then put_prop h r key (get_prop h source key) else h)"

fun assign_sources :: "(heap \<Rightarrow> val \<Rightarrow> ustr list) \<Rightarrow> bool \<Rightarrow> nat \<Rightarrow> val list \<Rightarrow> heap \<Rightarrow> heap" where
  "assign_sources keysFunc defaults r [] h = h"
| "assign_sources keysFunc defaults r (s # ss) h =
    assign_sources keysFunc defaults r ss (assign_keys defaults r s (keysFunc h s) h)"

text \<open>\<open>Object(v)\<close>: a new object for \<open>null\<close> and \<open>undefined\<close>, a wrapper for another primitive.\<close>

definition to_object :: "heap \<Rightarrow> val \<Rightarrow> heap \<times> val" where
  "to_object h v = (case v of Ref r \<Rightarrow> (h, v)
     | _ \<Rightarrow> (h @ [new_obj \<lparr> cls := (if loose_null v then u ''Object'' else toString_tag h v),
          prim := (if loose_null v then Undef else v) \<rparr>], Ref (length h)))"

text \<open>\<open>createAssigner(keysFunc, defaults)(obj, ...sources)\<close>.  Stores to a primitive have no effect.\<close>

definition createAssigner :: "(heap \<Rightarrow> val \<Rightarrow> ustr list) \<Rightarrow> bool \<Rightarrow> heap \<Rightarrow> val \<Rightarrow> val list \<Rightarrow> heap \<times> val" where
  "createAssigner keysFunc defaults h obj sources =
    (case (if defaults then to_object h obj else (h, obj)) of (h', obj') \<Rightarrow>
       (case obj' of Ref r \<Rightarrow> (assign_sources keysFunc defaults r sources h', obj') | _ \<Rightarrow> (h', obj')))"

definition us_extend :: "heap \<Rightarrow> val \<Rightarrow> val list \<Rightarrow> heap \<times> val" where
  "us_extend = createAssigner allKeys False"

definition extendOwn :: "heap \<Rightarrow> val \<Rightarrow> val list \<Rightarrow> heap \<times> val" where
  "extendOwn = createAssigner us_keys False"

definition us_defaults :: "heap \<Rightarrow> val \<Rightarrow> val list \<Rightarrow> heap \<times> val" where
  "us_defaults = createAssigner allKeys True"

definition alloc :: "heap \<Rightarrow> obj \<Rightarrow> heap \<times> val" where
  "alloc h x = (h @ [x], Ref (length h))"

definition baseCreate :: "heap \<Rightarrow> val \<Rightarrow> heap \<times> val" where
  "baseCreate h prototype = (case prototype of
     Ref p \<Rightarrow> alloc h (new_obj \<lparr> proto := Some p \<rparr>) | _ \<Rightarrow> alloc h new_obj)"

definition us_create :: "heap \<Rightarrow> val \<Rightarrow> val \<Rightarrow> heap \<times> val" where
  "us_create h prototype ps =
    (case baseCreate h prototype of (h', result) \<Rightarrow>
       if truthy ps then extendOwn h' result [ps] else (h', result))"

definition us_clone :: "heap \<Rightarrow> val \<Rightarrow> heap \<times> val" where
  "us_clone h obj =
    (if \<not> isObject h obj then (h, obj)
     else if isArray h obj then (case obj of Ref r \<Rightarrow> alloc h (new_array (elems (obj_at h r))) | _ \<Rightarrow> (h, obj))
     else (case alloc h new_obj of (h', new) \<Rightarrow> us_extend h' new [obj]))"

text \<open>\<open>invert\<close>, on objects whose values are strings.\<close>

definition us_invert :: "ustr dict \<Rightarrow> ustr dict" where
  "us_invert obj = fold (\<lambda>(k, v) result. dput v k result) obj []"

section \<open>Paths and iteratees\<close>

definition toPath :: "ustr + ustr list \<Rightarrow> ustr list" where
  "toPath path = (case path of Inr ks \<Rightarrow> ks | Inl k \<Rightarrow> [k])"

fun deep_loop :: "heap \<Rightarrow> val \<Rightarrow> ustr list \<Rightarrow> val" where
  "deep_loop h obj [] = obj"
| "deep_loop h obj (k # ks) = (if loose_null obj then Undef else deep_loop h (get_prop h obj k) ks)"

definition deepGet :: "heap \<Rightarrow> val \<Rightarrow> ustr list \<Rightarrow> val" where
  "deepGet h obj path = (if path = [] then Undef else deep_loop h obj path)"

definition us_get :: "heap \<Rightarrow> val \<Rightarrow> ustr + ustr list \<Rightarrow> val \<Rightarrow> val" where
  "us_get h object path defaultValue =
    (let value = deepGet h object (toPath path) in if isUndefined value then defaultValue else value)"

fun has_loop :: "heap \<Rightarrow> val \<Rightarrow> ustr list \<Rightarrow> bool" where
  "has_loop h obj [] = True"
| "has_loop h obj (k # ks) = (us_has h obj k \<and> has_loop h (get_prop h obj k) ks)"

definition us_has_path :: "heap \<Rightarrow> val \<Rightarrow> ustr + ustr list \<Rightarrow> bool" where
  "us_has_path h obj path = (has_loop h obj (toPath path) \<and> toPath path \<noteq> [])"

text \<open>\<open>matcher\<close> copies the attributes when it is made, so that later changes do not show.\<close>

definition us_matcher :: "heap \<Rightarrow> val \<Rightarrow> heap \<times> (heap \<Rightarrow> val \<Rightarrow> bool)" where
  "us_matcher h attrs =
    (case alloc h new_obj of (h1, new) \<Rightarrow>
     case extendOwn h1 new [attrs] of (h2, copy) \<Rightarrow> (h2, \<lambda>h obj. isMatch h obj copy))"

definition us_property :: "ustr + ustr list \<Rightarrow> heap \<Rightarrow> val \<Rightarrow> val" where
  "us_property path = (\<lambda>h obj. deepGet h obj (toPath path))"

text \<open>\<open>optimizeCb\<close>: without a context the function itself; with one, a wrapper that passes on the first
  arguments only.\<close>

definition optimizeCb :: "(val list \<Rightarrow> val) \<Rightarrow> bool \<Rightarrow> nat option \<Rightarrow> val list \<Rightarrow> val" where
  "optimizeCb func has_context argCount =
    (if \<not> has_context then func
     else (case (case argCount of None \<Rightarrow> 3 | Some n \<Rightarrow> n) of n \<Rightarrow>
       if n = 1 \<or> n = 3 \<or> n = 4 then (\<lambda>args. func (take n args)) else func))"

datatype iteratee = ItNone | ItFun "val list \<Rightarrow> val" | ItAttrs val | ItPath "ustr + ustr list"

definition baseIteratee :: "heap \<Rightarrow> iteratee \<Rightarrow> heap \<times> (heap \<Rightarrow> val list \<Rightarrow> val)" where
  "baseIteratee h value = (case value of
     ItNone \<Rightarrow> (h, \<lambda>_ args. (case args of v # _ \<Rightarrow> v | [] \<Rightarrow> Undef))
   | ItFun f \<Rightarrow> (h, \<lambda>_. f)
   | ItAttrs a \<Rightarrow> (case us_matcher h a of (h', m) \<Rightarrow>
       (h', \<lambda>h args. Bool (m h (case args of v # _ \<Rightarrow> v | [] \<Rightarrow> Undef))))
   | ItPath p \<Rightarrow> (h, \<lambda>h args. us_property p h (case args of v # _ \<Rightarrow> v | [] \<Rightarrow> Undef)))"

definition us_propertyOf :: "heap \<Rightarrow> val \<Rightarrow> ustr + ustr list \<Rightarrow> val" where
  "us_propertyOf h obj path = (if loose_null obj then Undef else us_get h obj path Undef)"

section \<open>Numbers\<close>

text \<open>\<open>random(min, max)\<close>, with the value \<open>r\<close> of \<open>Math.random()\<close>, and \<open>times\<close>.\<close>

definition us_random :: "rat \<Rightarrow> int \<Rightarrow> int option \<Rightarrow> int" where
  "us_random r mn mx =
    (let (lo, hi) = (case mx of None \<Rightarrow> (0, mn) | Some m \<Rightarrow> (mn, m))
     in lo + \<lfloor>r * of_int (hi - lo + 1)\<rfloor>)"

definition us_times :: "int \<Rightarrow> (nat \<Rightarrow> 'a) \<Rightarrow> 'a list" where
  "us_times n f = map f [0..<nat (max 0 n)]"

section \<open>Lemmas\<close>

lemma random_range:
  assumes "0 \<le> r" "r < 1" "lo \<le> hi"
  shows "lo \<le> us_random r lo (Some hi) \<and> us_random r lo (Some hi) \<le> hi"
proof -
  define w where "w = hi - lo + 1"
  have p: "0 < (of_int w :: rat)" using assms(3) by (simp add: w_def)
  have "0 \<le> r * of_int w" using assms(1) p by simp
  moreover have "r * of_int w < of_int w" using assms(2) p by simp
  ultimately have "0 \<le> \<lfloor>r * of_int w\<rfloor>" "\<lfloor>r * of_int w\<rfloor> < w"
    by (simp_all add: floor_less_iff)
  then show ?thesis unfolding us_random_def option.case prod.case Let_def w_def [symmetric]
    by (simp add: w_def)
qed

text \<open>Stores and reads.\<close>

lemma length_put_prop [simp]: "length (put_prop h r k v) = length h"
  by (simp add: put_prop_def)

lemma obj_at_put:
  "obj_at (put_prop h r k v) s =
     (if s = r \<and> r < length h then (obj_at h r) \<lparr> props := dput k v (props (obj_at h r)) \<rparr> else obj_at h s)"
  by (auto simp: put_prop_def obj_at_def)

text \<open>A plain object: no elements, so that its properties are all it has.\<close>

definition plain :: "heap \<Rightarrow> nat \<Rightarrow> bool" where
  "plain h r \<longleftrightarrow> r < length h \<and> \<not> has_elems (obj_at h r)"

lemma plain_put [simp]: "plain (put_prop h r k v) s \<longleftrightarrow> plain h s"
  by (auto simp: plain_def obj_at_put has_elems_def)

lemma own_get_put:
  "plain h r \<Longrightarrow> own_get (obj_at (put_prop h r k v) s) j =
     (if s = r \<and> j = k then Some v else own_get (obj_at h s) j)"
  by (auto simp: plain_def obj_at_put own_get_def has_elems_def)

lemma get_put_same: "plain h r \<Longrightarrow> get_prop (put_prop h r k v) (Ref r) k = v"
  using own_get_put [of h r k v r k] by (simp add: get_prop_def)

lemma chain_get_put_other:
  "plain h r \<Longrightarrow> j \<noteq> k \<Longrightarrow> chain_get n (put_prop h r k v) s j = chain_get n h s j"
proof (induction n arbitrary: s)
  case (Suc n)
  have "proto (obj_at (put_prop h r k v) s) = proto (obj_at h s)" by (simp add: obj_at_put)
  with Suc show ?case by (simp add: own_get_put split: option.split)
qed simp

lemma get_put_other: "plain h r \<Longrightarrow> j \<noteq> k \<Longrightarrow> get_prop (put_prop h r k v) x j = get_prop h x j"
  by (cases x) (simp_all add: get_prop_def chain_get_put_other del: chain_get.simps)

lemma plain_assign [simp]: "plain (assign_keys d r s ks h) p \<longleftrightarrow> plain h p"
  by (induction d r s ks h rule: assign_keys.induct) auto

lemma assign_other:
  "plain h r \<Longrightarrow> j \<notin> set ks \<Longrightarrow> get_prop (assign_keys d r s ks h) x j = get_prop h x j"
  by (induction d r s ks h rule: assign_keys.induct) (auto simp: get_put_other)

lemma assign_key:
  assumes "plain h r" "distinct ks" "k \<in> set ks"
  shows "get_prop (assign_keys d r s ks h) (Ref r) k =
    (if \<not> d \<or> strict_eq (get_prop h (Ref r) k) Undef then get_prop h s k else get_prop h (Ref r) k)"
  using assms
proof (induction d r s ks h rule: assign_keys.induct)
  case (2 d r s key keys h)
  let ?h = "if \<not> d \<or> strict_eq (get_prop h (Ref r) key) Undef then put_prop h r key (get_prop h s key) else h"
  have p: "plain ?h r" using 2(2) by simp
  show ?case
  proof (cases "k = key")
    case True
    then have "k \<notin> set keys" using 2(3) by simp
    with 2(2) True show ?thesis
      using assign_other [OF p, of k keys d s "Ref r"] by (simp add: get_put_same)
  next
    case False
    with 2 have "get_prop (assign_keys d r s keys ?h) (Ref r) k =
      (if \<not> d \<or> strict_eq (get_prop ?h (Ref r) k) Undef then get_prop ?h s k else get_prop ?h (Ref r) k)"
      using p by simp
    moreover have e: "get_prop ?h x k = get_prop h x k" for x using 2(2) False by (simp add: get_put_other)
    ultimately show ?thesis by (simp only: assign_keys.simps e)
  qed
qed simp

text \<open>The assigners give the target every listed property of the source (\<open>defaults\<close>: only the ones
  it lacks) and leave its other properties alone.\<close>

theorem createAssigner_props:
  assumes "plain h r" "distinct (keysFunc h s)"
  shows "get_prop (fst (createAssigner keysFunc d h (Ref r) [s])) (Ref r) k =
    (if k \<in> set (keysFunc h s) \<and> (\<not> d \<or> strict_eq (get_prop h (Ref r) k) Undef)
     then get_prop h s k else get_prop h (Ref r) k)"
  using assign_key [OF assms, of k d s] assign_other [OF assms(1), of k "keysFunc h s" d s "Ref r"]
  by (cases "k \<in> set (keysFunc h s)"; cases d) (simp_all add: createAssigner_def to_object_def)

theorem createAssigner_props_witness:
  "get_prop (fst (us_defaults [new_obj \<lparr> props := [(u ''a'', Num (Fin 1))] \<rparr>,
      new_obj \<lparr> props := [(u ''a'', Num (Fin 2)), (u ''b'', Num (Fin 3))] \<rparr>] (Ref 0) [Ref 1])) (Ref 0) (u ''b'')
   = Num (Fin 3)"
proof -
  let ?h = "[new_obj \<lparr> props := [(u ''a'', Num (Fin 1))] \<rparr>,
      new_obj \<lparr> props := [(u ''a'', Num (Fin 2)), (u ''b'', Num (Fin 3))] \<rparr>]"
  have a: "plain ?h 0" by code_simp
  have b: "distinct (allKeys ?h (Ref 1))" by code_simp
  have c: "u ''b'' \<in> set (allKeys ?h (Ref 1)) \<and> get_prop ?h (Ref 0) (u ''b'') = Undef \<and>
      get_prop ?h (Ref 1) (u ''b'') = Num (Fin 3)" by code_simp
  show ?thesis
    unfolding us_defaults_def createAssigner_props [of _ _ allKeys, OF a b] using c by (simp add: strict_eq_def)
qed

end
