(* ===== verification/UsEqual.thy ===== *)
theory UsEqual
  imports UsObject
begin

text \<open>
  \<open>isEqual\<close> of Underscore: the mutually recursive \<open>eq\<close> and \<open>deepEq\<close> on the heap of objects, with the
  two stacks that make the comparison of cyclic structures end.  Reading \<open>constructor\<close> of an
  unwrapped \<open>null\<close> throws.  The recursion is bounded by a depth; the lemmas show that the number
  of objects is a sufficient bound, on cyclic heaps too, and that on data without cycles the
  result is equality of the trees the two values stand for.
\<close>

datatype eqres = Yes | No | Throws | OutOfFuel

definition of_b :: "bool \<Rightarrow> eqres" where
  "of_b b = (if b then Yes else No)"

definition is_zero :: "jnum \<Rightarrow> bool" where
  "is_zero n \<longleftrightarrow> n = NZero \<or> n = Fin 0"

definition to_num :: "val \<Rightarrow> jnum" where
  "to_num v = (case v of Num n \<Rightarrow> n | Bool b \<Rightarrow> Fin (if b then 1 else 0) | _ \<Rightarrow> NaN)"

definition unwrap :: "heap \<Rightarrow> val \<Rightarrow> val" where
  "unwrap h a = (case a of Ref r \<Rightarrow> (case wrapped (obj_at h r) of Some w \<Rightarrow> w | None \<Rightarrow> a) | _ \<Rightarrow> a)"

definition elems_of :: "heap \<Rightarrow> val \<Rightarrow> val list" where
  "elems_of h a = (case a of Ref r \<Rightarrow> elems (obj_at h r) | _ \<Rightarrow> [])"

definition byteLength :: "heap \<Rightarrow> val \<Rightarrow> nat" where
  "byteLength h a = (case a of Ref r \<Rightarrow> length (elems (obj_at h r)) * elem_bytes (obj_at h r) | _ \<Rightarrow> 0)"

definition same_buffer :: "heap \<Rightarrow> val \<Rightarrow> val \<Rightarrow> bool" where
  "same_buffer h a b = (case (a, b) of (Ref r, Ref s) \<Rightarrow> buffer (obj_at h r) = buffer (obj_at h s) | _ \<Rightarrow> False)"

text \<open>The comparison by value of the classes that have one; \<open>None\<close> for the others.\<close>

definition eq_by_class :: "heap \<Rightarrow> ustr \<Rightarrow> val \<Rightarrow> val \<Rightarrow> bool option" where
  "eq_by_class h className a b =
    (if className = u ''RegExp'' \<or> className = u ''String'' then Some (prim_of h a = prim_of h b)
     else if className = u ''Number'' then
       let x = to_num (prim_of h a); y = to_num (prim_of h b)
       in Some (if x = NaN then y = NaN else if is_zero x then x = y else num_seq x y)
     else if className = u ''Date'' \<or> className = u ''Boolean''
     then Some (num_seq (to_num (prim_of h a)) (to_num (prim_of h b)))
     else if className = u ''Symbol'' then Some (prim_of h a = prim_of h b)
     else None)"

definition different_constructors :: "heap \<Rightarrow> val \<Rightarrow> val \<Rightarrow> bool" where
  "different_constructors h a b =
    (let aCtor = get_prop h a (u ''constructor''); bCtor = get_prop h b (u ''constructor'')
     in \<not> strict_eq aCtor bCtor
        \<and> \<not> (isFunction h aCtor \<and> instance_of h aCtor aCtor \<and> isFunction h bCtor \<and> instance_of h bCtor bCtor)
        \<and> in_op h (u ''constructor'') a \<and> in_op h (u ''constructor'') b)"

definition key_pairs :: "heap \<Rightarrow> val \<Rightarrow> val \<Rightarrow> (val \<times> val option) list" where
  "key_pairs h a b = map (\<lambda>key. (get_prop h a key, if us_has h b key then Some (get_prop h b key) else None))
     (rev (us_keys h a))"

definition elem_pairs :: "val list \<Rightarrow> val list \<Rightarrow> (val \<times> val option) list" where
  "elem_pairs xs ys = rev (zip xs (map Some ys))"

function (sequential)
    eq :: "nat \<Rightarrow> heap \<Rightarrow> val \<Rightarrow> val \<Rightarrow> (val \<times> val) list \<Rightarrow> eqres"
and deepEq :: "nat \<Rightarrow> heap \<Rightarrow> val \<Rightarrow> val \<Rightarrow> (val \<times> val) list \<Rightarrow> eqres"
and eq_pairs :: "nat \<Rightarrow> heap \<Rightarrow> (val \<times> val option) list \<Rightarrow> (val \<times> val) list \<Rightarrow> eqres"
where
  "eq n h a b st =
    (if strict_eq a b then of_b (case (a, b) of (Num x, Num y) \<Rightarrow> \<not> is_zero x \<or> x = y | _ \<Rightarrow> True)
     else if loose_null a \<or> loose_null b then No
     else if a = Num NaN then of_b (b = Num NaN)
     else if typeof h a \<noteq> u ''function'' \<and> typeof h a \<noteq> u ''object'' \<and> typeof h b \<noteq> u ''object'' then No
     else deepEq n h a b st)"
| "deepEq 0 h a b st = OutOfFuel"
| "deepEq (Suc n) h a0 b0 st =
    (let a = unwrap h a0; b = unwrap h b0; className = toString_tag h a
     in if className \<noteq> toString_tag h b then No
        else case eq_by_class h className a b of Some r \<Rightarrow> of_b r
        | None \<Rightarrow>
          if className = u ''ArrayBuffer'' \<or> className = u ''DataView''
          then (if length (elems_of h a) \<noteq> length (elems_of h b) then No
                else eq_pairs n h (elem_pairs (elems_of h a) (elems_of h b)) st)
          else if className \<noteq> u ''Array'' \<and> isTypedArray h a \<and> byteLength h a \<noteq> byteLength h b then No
          else if className \<noteq> u ''Array'' \<and> isTypedArray h a \<and> same_buffer h a b then Yes
          else
            let areArrays = (className = u ''Array'' \<or> isTypedArray h a)
            in if \<not> areArrays \<and> (typeof h a \<noteq> u ''object'' \<or> typeof h b \<noteq> u ''object'') then No
               else if \<not> areArrays \<and> (a = Null \<or> b = Null) then Throws
               else if \<not> areArrays \<and> different_constructors h a b then No
               else case List.find (\<lambda>p. fst p = a) st of
                 Some p \<Rightarrow> of_b (snd p = b)
               | None \<Rightarrow>
                   if areArrays then
                     (if length (elems_of h a) \<noteq> length (elems_of h b) then No
                      else eq_pairs n h (elem_pairs (elems_of h a) (elems_of h b)) ((a, b) # st))
                   else
                     (if length (us_keys h b) \<noteq> length (us_keys h a) then No
                      else eq_pairs n h (key_pairs h a b) ((a, b) # st)))"
| "eq_pairs n h [] st = Yes"
| "eq_pairs n h ((x, None) # ps) st = No"
| "eq_pairs n h ((x, Some y) # ps) st =
    (case eq n h x y st of Yes \<Rightarrow> eq_pairs n h ps st | r \<Rightarrow> r)"
  by pat_completeness auto
termination
  by (relation "measures [\<lambda>x. case x of Inl (n, _) \<Rightarrow> n | Inr (Inl (n, _)) \<Rightarrow> n | Inr (Inr (n, _)) \<Rightarrow> n,
        \<lambda>x. case x of Inl _ \<Rightarrow> 1 | Inr (Inl _) \<Rightarrow> 0 | Inr (Inr (n, h, ps, st)) \<Rightarrow> 2 + length ps]") auto

declare eq.simps [simp del] deepEq.simps [simp del]

definition isEqual :: "heap \<Rightarrow> val \<Rightarrow> val \<Rightarrow> eqres" where
  "isEqual h a b = eq (length h + 2) h a b []"

section \<open>Termination\<close>

text \<open>A buffer holds numbers.\<close>

definition buffers_ok :: "heap \<Rightarrow> bool" where
  "buffers_ok h \<longleftrightarrow> (\<forall>x \<in> set h. cls x = u ''ArrayBuffer'' \<or> cls x = u ''DataView'' \<longrightarrow>
     (\<forall>e \<in> set (elems x). \<exists>n. e = Num n))"

text \<open>The stack of the visited objects: different objects of the heap.\<close>

definition stack_ok :: "heap \<Rightarrow> (val \<times> val) list \<Rightarrow> bool" where
  "stack_ok h st \<longleftrightarrow> distinct (map fst st) \<and> fst ` set st \<subseteq> Ref ` {..<length h}"

lemma stack_ok_length: "stack_ok h st \<Longrightarrow> length st \<le> length h"
proof -
  assume s: "stack_ok h st"
  then have "length st = card (fst ` set st)" by (metis stack_ok_def distinct_card length_map set_map)
  also have "\<dots> \<le> card (Ref ` {..<length h})" using s by (intro card_mono) (auto simp: stack_ok_def)
  also have "\<dots> = length h" by (simp add: card_image inj_on_def)
  finally show ?thesis .
qed

lemma stack_ok_push:
  "stack_ok h st \<Longrightarrow> List.find (\<lambda>p. fst p = Ref r) st = None \<Longrightarrow> r < length h \<Longrightarrow> stack_ok h ((Ref r, b) # st)"
  by (auto simp: stack_ok_def find_None_iff)

lemma eq_deep: "deepEq n h a b st \<noteq> OutOfFuel \<Longrightarrow> eq n h a b st \<noteq> OutOfFuel"
  by (simp add: eq.simps of_b_def)

lemma eq_pairs_fuel:
  "(\<And>x y. (x, Some y) \<in> set ps \<Longrightarrow> eq n h x y st \<noteq> OutOfFuel) \<Longrightarrow> eq_pairs n h ps st \<noteq> OutOfFuel"
proof (induction ps)
  case (Cons p ps)
  obtain x y where p: "p = (x, y)" by (cases p)
  show ?case
  proof (cases y)
    case (Some z)
    have "eq n h x z st \<noteq> OutOfFuel" by (rule Cons.prems) (simp add: p Some)
    moreover have "eq_pairs n h ps st \<noteq> OutOfFuel" by (rule Cons.IH, rule Cons.prems) simp
    ultimately show ?thesis by (simp add: p Some split: eqres.split)
  qed (simp add: p)
qed simp

lemma fuel_if: "(c \<Longrightarrow> x \<noteq> OutOfFuel) \<Longrightarrow> (\<not> c \<Longrightarrow> y \<noteq> OutOfFuel) \<Longrightarrow> (if c then x else y) \<noteq> OutOfFuel"
  by simp

lemma fuel_opt:
  "(m = None \<Longrightarrow> x \<noteq> OutOfFuel) \<Longrightarrow> (\<And>r. m = Some r \<Longrightarrow> f r \<noteq> OutOfFuel) \<Longrightarrow>
     (case m of None \<Rightarrow> x | Some r \<Rightarrow> f r) \<noteq> OutOfFuel"
  by (cases m) auto

lemma fuel_of_b: "of_b c \<noteq> OutOfFuel"
  by (simp add: of_b_def)

lemma eq_nums: "eq n h (Num x) (Num y) st \<noteq> OutOfFuel"
  by (simp add: eq.simps of_b_def typeof_def loose_null_def)

lemma deepEq_fuel:
  assumes "buffers_ok h"
  shows "stack_ok h st \<Longrightarrow> length h < n + length st \<Longrightarrow> deepEq n h a b st \<noteq> OutOfFuel"
proof (induction n arbitrary: a b st)
  case 0
  then show ?case using stack_ok_length by fastforce
next
  case (Suc n a0 b0)
  define a b where "a = unwrap h a0" and "b = unwrap h b0"
  have rec: "eq_pairs n h ps ((a, c) # st) \<noteq> OutOfFuel"
    if "List.find (\<lambda>p. fst p = a) st = None" "a = Ref r" "r < length h" for ps c r
  proof (rule eq_pairs_fuel, rule eq_deep, rule Suc.IH)
    show s: "stack_ok h ((a, c) # st)" using Suc.prems(1) that by (simp add: stack_ok_push)
    show "length h < n + length ((a, c) # st)" using Suc.prems(2) by simp
  qed
  have buf: "eq_pairs n h (elem_pairs (elems_of h a) (elems_of h b)) st \<noteq> OutOfFuel"
    if c: "toString_tag h a = u ''ArrayBuffer'' \<or> toString_tag h a = u ''DataView''" "toString_tag h b = toString_tag h a"
  proof (rule eq_pairs_fuel)
    have e: "\<exists>m. e = Num m" if m: "e \<in> set (elems_of h x)" and c: "toString_tag h x = u ''ArrayBuffer'' \<or> toString_tag h x = u ''DataView''" for e x
    proof -
      obtain r where r: "x = Ref r" "e \<in> set (elems (obj_at h r))"
        using m by (cases x) (auto simp: elems_of_def)
      have l: "r < length h"
      proof (rule ccontr)
        assume "\<not> r < length h"
        with r(2) show False by (simp add: obj_at_def new_obj_def)
      qed
      then have "obj_at h r \<in> set h" by (simp add: obj_at_def)
      moreover have "cls (obj_at h r) = u ''ArrayBuffer'' \<or> cls (obj_at h r) = u ''DataView''"
        using c by (simp add: r(1) toString_tag_def)
      ultimately show ?thesis using assms r(2) unfolding buffers_ok_def by blast
    qed
    fix x y assume "(x, Some y) \<in> set (elem_pairs (elems_of h a) (elems_of h b))"
    then have "x \<in> set (elems_of h a)" "y \<in> set (elems_of h b)"
      by (auto simp: elem_pairs_def dest: set_zip_leftD set_zip_rightD)
    then obtain i j where "x = Num i" "y = Num j" using e c by metis
    then show "eq n h x y st \<noteq> OutOfFuel" by (simp add: eq_nums)
  qed
  have dang: "key_pairs h a b = [] \<and> toString_tag h a \<noteq> u ''Array'' \<and> \<not> isTypedArray h a"
    if "a = Ref r" "\<not> r < length h" for r
    using that by (auto simp: key_pairs_def us_keys_def own_keys_def obj_at_def new_obj_def toString_tag_def
        isTypedArray_def has_elems_def)
  have obj: "\<exists>r. a = Ref r"
    if "eq_by_class h (toString_tag h a) a b = None"
      "\<not> (\<not> (toString_tag h a = u ''Array'' \<or> isTypedArray h a) \<and> (typeof h a \<noteq> u ''object'' \<or> typeof h b \<noteq> u ''object''))"
      "\<not> (\<not> (toString_tag h a = u ''Array'' \<or> isTypedArray h a) \<and> (a = Null \<or> b = Null))"
    using that
    by (cases a) (simp_all add: eq_by_class_def toString_tag_def typeof_def isTypedArray_def Let_def)
  show ?case
    unfolding deepEq.simps Let_def a_def [symmetric] b_def [symmetric]
  proof (intro fuel_if fuel_opt fuel_of_b eqres.distinct)
    assume "toString_tag h a = u ''ArrayBuffer'' \<or> toString_tag h a = u ''DataView''"
      "\<not> toString_tag h a \<noteq> toString_tag h b"
    then show "eq_pairs n h (elem_pairs (elems_of h a) (elems_of h b)) st \<noteq> OutOfFuel"
      by (intro buf) simp_all
  next
    assume c: "eq_by_class h (toString_tag h a) a b = None"
      "\<not> (\<not> (toString_tag h a = u ''Array'' \<or> isTypedArray h a) \<and> (typeof h a \<noteq> u ''object'' \<or> typeof h b \<noteq> u ''object''))"
      "\<not> (\<not> (toString_tag h a = u ''Array'' \<or> isTypedArray h a) \<and> (a = Null \<or> b = Null))"
      and f: "List.find (\<lambda>p. fst p = a) st = None"
    from obj [OF c] obtain r where r: "a = Ref r" by blast
    {
      assume "toString_tag h a = u ''Array'' \<or> isTypedArray h a"
      then have "r < length h" using dang [OF r] by blast
      then show "eq_pairs n h (elem_pairs (elems_of h a) (elems_of h b)) ((a, b) # st) \<noteq> OutOfFuel"
        by (rule rec [OF f r])
    next
      show "eq_pairs n h (key_pairs h a b) ((a, b) # st) \<noteq> OutOfFuel"
      proof (cases "r < length h")
        case True
        then show ?thesis by (rule rec [OF f r])
      next
        case False
        then show ?thesis using dang [OF r] by simp
      qed
    }
  qed
qed

text \<open>C15: \<open>isEqual\<close> ends on every heap, cyclic or not: a depth of one more than the number of objects
  is enough.\<close>

theorem isEqual_terminates: "buffers_ok h \<Longrightarrow> isEqual h a b \<noteq> OutOfFuel"
  unfolding isEqual_def by (rule eq_deep, rule deepEq_fuel) (simp_all add: stack_ok_def)

text \<open>Two arrays that contain themselves.\<close>

theorem isEqual_terminates_witness:
  "isEqual [new_array [Ref 0, Num NaN], new_array [Ref 1, Num NaN]] (Ref 0) (Ref 1) = Yes \<and>
   isEqual [new_array [Ref 0, Num NaN], new_array [Ref 1, Num NaN]] (Ref 0) (Ref 1) \<noteq> OutOfFuel"
proof -
  have "buffers_ok [new_array [Ref 0, Num NaN], new_array [Ref 1, Num NaN]]"
    by (simp add: buffers_ok_def new_array_def)
  from isEqual_terminates [OF this] show ?thesis by code_simp
qed

section \<open>Equality of data\<close>

text \<open>The tree a value without cycles stands for: primitives, arrays, and objects of one constructor
  with different keys.\<close>

datatype json = JPrim val | JArr "json list" | JObj "(ustr \<times> json) list"

inductive den :: "heap \<Rightarrow> nat \<Rightarrow> val \<Rightarrow> json \<Rightarrow> bool" for h c where
  prim: "(\<And>r. v \<noteq> Ref r) \<Longrightarrow> den h c v (JPrim v)"
| arr: "cls (obj_at h r) = u ''Array'' \<Longrightarrow> elem_bytes (obj_at h r) = 0 \<Longrightarrow> wrapped (obj_at h r) = None \<Longrightarrow>
    list_all2 (den h c) (elems (obj_at h r)) ts \<Longrightarrow> den h c (Ref r) (JArr ts)"
| data_obj: "cls (obj_at h r) = u ''Object'' \<Longrightarrow> elem_bytes (obj_at h r) = 0 \<Longrightarrow> wrapped (obj_at h r) = None \<Longrightarrow>
    get_prop h (Ref r) (u ''constructor'') = Ref c \<Longrightarrow> distinct (map fst (props (obj_at h r))) \<Longrightarrow>
    map fst kts = map fst (props (obj_at h r)) \<Longrightarrow>
    list_all2 (den h c) (map snd (props (obj_at h r))) (map snd kts) \<Longrightarrow> den h c (Ref r) (JObj kts)"

inductive_cases den_primE: "den h c v (JPrim w)"
inductive_cases den_refE: "den h c (Ref r) t"

text \<open>Equality of trees, with the properties of an object in any order.\<close>

function jeq :: "json \<Rightarrow> json \<Rightarrow> bool" where
  "jeq s t = (case (s, t) of
     (JPrim a, JPrim b) \<Rightarrow> a = b
   | (JArr xs, JArr ys) \<Rightarrow> length xs = length ys \<and> (\<forall>p \<in> set (zip xs ys). jeq (fst p) (snd p))
   | (JObj xs, JObj ys) \<Rightarrow> length xs = length ys \<and>
       (\<forall>p \<in> set xs. case dget ys (fst p) of None \<Rightarrow> False | Some y \<Rightarrow> jeq (snd p) y)
   | _ \<Rightarrow> False)"
  by pat_completeness auto
termination
proof (relation "measure (size \<circ> fst)", simp, goal_cases)
  case (1 s t a b xs ys p)
  then have "fst p \<in> set xs" by (metis set_zip_leftD prod.collapse)
  then have "size (fst p) < Suc (size_list size xs)" by (induction xs) auto
  with 1 show ?case by auto
next
  case (2 s t a b xs ys p y)
  then have "p \<in> set xs" by simp
  then have "size (snd p) < Suc (size_list (size_prod (\<lambda>_. 0) size) xs)" by (induction xs) (auto split: prod.splits)
  with 2 show ?case by auto
qed

declare jeq.simps [simp del]

lemma list_all2_fun: "list_all2 (\<lambda>x y. \<forall>t. R x t \<longrightarrow> y = t) xs ys \<Longrightarrow> list_all2 R xs zs \<Longrightarrow> ys = zs"
proof (induction xs arbitrary: ys zs)
  case (Cons x xs)
  then show ?case by (cases ys; cases zs) auto
qed simp

lemma den_fun: "den h c v s \<Longrightarrow> den h c v t \<Longrightarrow> s = t"
proof (induction arbitrary: t rule: den.induct)
  case (prim v)
  from prim(2) show ?case by (cases rule: den.cases) (use prim(1) in auto)
next
  case (arr r ts)
  have "list_all2 (\<lambda>x y. \<forall>t. den h c x t \<longrightarrow> y = t) (elems (obj_at h r)) ts"
    using arr(4) by (rule list_all2_mono) simp
  note f = list_all2_fun [OF this]
  from arr(5) show ?case by (cases rule: den_refE) (use arr(1) f in auto)
next
  case (data_obj r kts)
  have "list_all2 (\<lambda>x y. \<forall>t. den h c x t \<longrightarrow> y = t) (map snd (props (obj_at h r))) (map snd kts)"
    using data_obj(7) by (rule list_all2_mono) simp
  note f = list_all2_fun [OF this]
  from data_obj(8) show ?case
  proof (cases rule: den.cases)
    case (data_obj kts')
    with f [of "map snd kts'"] \<open>map fst kts = map fst (props (obj_at h r))\<close> have "kts = kts'"
      by (metis zip_map_fst_snd)
    then show ?thesis using data_obj by simp
  qed (use data_obj(1) in auto)
qed

text \<open>Everything below a value is smaller, so that a value is not met again below itself.\<close>

definition stack_den :: "heap \<Rightarrow> nat \<Rightarrow> (val \<times> val) list \<Rightarrow> json \<Rightarrow> bool" where
  "stack_den h c st s \<longleftrightarrow> (\<forall>p \<in> set st. \<exists>t. den h c (fst p) t \<and> size s < size t)"

lemma stack_den_find: "stack_den h c st s \<Longrightarrow> den h c a s \<Longrightarrow> List.find (\<lambda>p. fst p = a) st = None"
  unfolding stack_den_def find_None_iff using den_fun by fastforce

lemma stack_den_push: "stack_den h c st s \<Longrightarrow> den h c a s \<Longrightarrow> size x < size s \<Longrightarrow> stack_den h c ((a, b) # st) x"
  unfolding stack_den_def by fastforce

definition fuel_or :: "eqres \<Rightarrow> bool \<Rightarrow> bool" where
  "fuel_or r b \<longleftrightarrow> r = OutOfFuel \<or> r = of_b b"

lemma eq_pairs_fuel_or:
  assumes "\<And>x y. (x, Some y) \<in> set ps \<Longrightarrow> fuel_or (eq n h x y st) (P x y)"
  shows "fuel_or (eq_pairs n h ps st) (\<forall>p \<in> set ps. case snd p of None \<Rightarrow> False | Some y \<Rightarrow> P (fst p) y)"
  using assms
proof (induction ps)
  case (Cons p ps)
  obtain x y where p: "p = (x, y)" by (cases p)
  have "fuel_or (eq_pairs n h ps st) (\<forall>p \<in> set ps. case snd p of None \<Rightarrow> False | Some y \<Rightarrow> P (fst p) y)"
    by (rule Cons.IH, rule Cons.prems) simp
  moreover have "fuel_or (eq n h x z st) (P x z)" if "y = Some z" for z
    by (rule Cons.prems) (simp add: p that)
  ultimately show ?case
    by (cases y) (auto simp: p fuel_or_def of_b_def split: if_splits)
qed (simp add: fuel_or_def of_b_def)

lemma den_tag:
  "den h c (Ref r) t \<Longrightarrow> cls (obj_at h r) = u ''Array'' \<or> cls (obj_at h r) = u ''Object''"
  by (auto elim: den.cases)

lemma jeq_prim: "jeq (JPrim a) (JPrim b) \<longleftrightarrow> a = b"
  by (simp add: jeq.simps)

lemma list_all2_right: "list_all2 R xs ys \<Longrightarrow> \<forall>y \<in> set ys. \<exists>x \<in> set xs. R x y"
  by (induction rule: list_all2_induct) auto

lemma jeq_refl: "den h c v t \<Longrightarrow> jeq t t"
proof (induction rule: den.induct)
  case (arr r ts)
  then have "\<forall>t \<in> set ts. jeq t t" using list_all2_right by fastforce
  then show ?case by (subst jeq.simps) (auto simp: in_set_zip)
next
  case (data_obj r kts)
  then have d: "distinct (map fst kts)" by simp
  from list_all2_right [OF data_obj(7)] have j: "\<forall>t \<in> set (map snd kts). jeq t t" by blast
  have "\<forall>p \<in> set kts. dget kts (fst p) = Some (snd p)"
    using map_of_is_SomeI [OF d] by auto
  with j show ?case by (subst jeq.simps) auto
qed (simp add: jeq_prim)

lemma eq_den:
  assumes d: "den h c a s" "den h c b t"
    and deep: "(\<exists>r. a = Ref r) \<or> (\<exists>r. b = Ref r) \<Longrightarrow> fuel_or (deepEq n h a b st) (jeq s t)"
  shows "fuel_or (eq n h a b st) (jeq s t)"
proof (cases "strict_eq a b")
  case True
  then consider x y where "a = Num x" "b = Num y" "num_seq x y" | "a = b" "\<forall>x. a \<noteq> Num x"
    by (cases a; cases b) (auto simp: strict_eq_def)
  then show ?thesis
  proof cases
    case 1
    then have "s = JPrim a" "t = JPrim b" using d by (auto elim: den.cases)
    moreover have "\<not> is_zero x \<Longrightarrow> x = y" using 1(3) by (auto simp: num_seq_def is_zero_def)
    then have "eq n h a b st = of_b (x = y)" using True by (cases "is_zero x") (auto simp: eq.simps 1 of_b_def)
    ultimately show ?thesis by (simp add: fuel_or_def jeq_prim 1)
  next
    case 2
    then have "s = t" using den_fun d by blast
    then have "jeq s t" using jeq_refl [OF d(1)] by simp
    moreover have "eq n h a b st = Yes" using True 2 by (cases b) (simp_all add: eq.simps of_b_def)
    ultimately show ?thesis by (simp add: fuel_or_def of_b_def)
  qed
next
  case False
  show ?thesis
  proof (cases "(\<exists>r. a = Ref r) \<or> (\<exists>r. b = Ref r)")
    case True
    note dp = deep [OF True]
    have nj: "\<not> jeq s t" if "\<not> (\<exists>r. a = Ref r) \<or> \<not> (\<exists>r. b = Ref r)"
      using that True d by (auto elim!: den.cases simp: jeq.simps)
    show ?thesis
    proof (cases "loose_null a \<or> loose_null b")
      case True
      then have "\<not> jeq s t" by (intro nj) (auto simp: loose_null_def)
      then show ?thesis using True False by (simp add: eq.simps fuel_or_def of_b_def)
    next
      case nl: False
      show ?thesis
      proof (cases "a = Num NaN")
        case True
        then have "\<not> jeq s t" "b \<noteq> Num NaN" using nj \<open>(\<exists>r. a = Ref r) \<or> (\<exists>r. b = Ref r)\<close> by auto
        then show ?thesis using True False nl by (simp add: eq.simps fuel_or_def of_b_def)
      next
        case nn: False
        have "typeof h (Ref r) = u ''function'' \<or> typeof h (Ref r) = u ''object''" for r
          by (simp add: typeof_def)
        moreover have "typeof h b = u ''object''" if "b = Ref r" for r
          using den_tag [OF d(2) [unfolded that]] by (auto simp: that typeof_def)
        ultimately have "eq n h a b st = deepEq n h a b st"
          using True False nl nn by (auto simp: eq.simps)
        with dp show ?thesis by simp
      qed
    qed
  next
    case prims: False
    then have j: "s = JPrim a" "t = JPrim b" using d by (auto elim: den.cases)
    have t: "typeof h a \<noteq> u ''function''" "typeof h b \<noteq> u ''object'' \<or> b = Null"
      "typeof h a \<noteq> u ''object'' \<or> a = Null"
      using prims by (cases a; cases b; simp add: typeof_def)+
    have "eq n h a b st = of_b (a = b)"
      using False t by (auto simp: eq.simps of_b_def strict_eq_def loose_null_def num_seq_def split: val.splits)
    then show ?thesis by (simp add: j jeq_prim fuel_or_def)
  qed
qed

text \<open>The elements and the properties of two values of data.\<close>

lemma size_elem: "x \<in> set xs \<Longrightarrow> size x < size (JArr xs)"
  by (induction xs) auto

lemma size_value: "p \<in> set xs \<Longrightarrow> size (snd p) < size (JObj xs)"
  by (induction xs) (auto split: prod.splits)

lemma own_get_prop: "\<not> has_elems (obj_at h r) \<Longrightarrow> dget (props (obj_at h r)) k = Some v \<Longrightarrow> get_prop h (Ref r) k = v"
  by (simp add: get_prop_def own_get_def)

lemma jeq_arr:
  "jeq (JArr xs) (JArr ys) \<longleftrightarrow> length xs = length ys \<and> (\<forall>p \<in> set (zip xs ys). jeq (fst p) (snd p))"
  by (simp add: jeq.simps [of "JArr xs"])

lemma jeq_obj:
  "jeq (JObj xs) (JObj ys) \<longleftrightarrow> length xs = length ys \<and>
     (\<forall>p \<in> set xs. case dget ys (fst p) of None \<Rightarrow> False | Some y \<Rightarrow> jeq (snd p) y)"
  by (simp add: jeq.simps [of "JObj xs"])

lemma zip_all:
  "length xs = length ys \<Longrightarrow> (\<forall>p \<in> set (zip xs ys). P (fst p) (snd p)) \<longleftrightarrow> (\<forall>i < length xs. P (xs ! i) (ys ! i))"
  by (auto simp: set_zip)

lemma elem_pairs_all:
  "length xs = length ys \<Longrightarrow>
     (\<forall>p \<in> set (elem_pairs xs ys). case snd p of None \<Rightarrow> False | Some y \<Rightarrow> P (fst p) y)
     \<longleftrightarrow> (\<forall>i < length xs. P (xs ! i) (ys ! i))"
proof -
  assume l: "length xs = length ys"
  then have "set (elem_pairs xs ys) = (\<lambda>i. (xs ! i, Some (ys ! i))) ` {..<length xs}"
    by (auto simp: elem_pairs_def set_zip)
  then show ?thesis by auto
qed

definition same_den :: "heap \<Rightarrow> nat \<Rightarrow> val \<Rightarrow> val \<Rightarrow> bool" where
  "same_den h c x y \<longleftrightarrow> (\<exists>s t. den h c x s \<and> den h c y t \<and> jeq s t)"

lemma same_den_eq: "den h c x s \<Longrightarrow> den h c y t \<Longrightarrow> same_den h c x y \<longleftrightarrow> jeq s t"
  unfolding same_den_def using den_fun by blast

lemma rel_dget:
  "map fst ps = map fst qs \<Longrightarrow> list_all2 R (map snd ps) (map snd qs) \<Longrightarrow> rel_option R (dget ps k) (dget qs k)"
proof (induction ps arbitrary: qs)
  case (Cons p ps)
  then show ?case by (cases p; cases qs) auto
qed simp

lemma den_props:
  assumes "den h c (Ref r) (JObj kts)"
  shows "us_keys h (Ref r) = map fst kts"
    and "distinct (map fst kts)"
    and "us_has h (Ref r) k \<longleftrightarrow> dget kts k \<noteq> None"
    and "dget kts k = Some t \<Longrightarrow> den h c (get_prop h (Ref r) k) t"
proof -
  from assms have o: "cls (obj_at h r) = u ''Object''" "elem_bytes (obj_at h r) = 0"
    "distinct (map fst (props (obj_at h r)))" "map fst kts = map fst (props (obj_at h r))"
    "list_all2 (den h c) (map snd (props (obj_at h r))) (map snd kts)"
    by (auto elim: den.cases)
  have n: "\<not> has_elems (obj_at h r)" using o by (simp add: has_elems_def)
  have r: "rel_option (den h c) (dget (props (obj_at h r)) k) (dget kts k)"
    by (rule rel_dget) (use o in simp_all)
  show "us_keys h (Ref r) = map fst kts" "distinct (map fst kts)"
    using o n by (simp_all add: us_keys_def isObject_def typeof_def truthy_def own_keys_def)
  show "us_has h (Ref r) k \<longleftrightarrow> dget kts k \<noteq> None"
    using r n by (cases "dget kts k"; cases "dget (props (obj_at h r)) k") (simp_all add: us_has_def own_get_def)
  show "den h c (get_prop h (Ref r) k) t" if "dget kts k = Some t"
    using r that own_get_prop [OF n] by (cases "dget (props (obj_at h r)) k") auto
qed

lemma deepEq_den:
  "den h c a s \<Longrightarrow> den h c b t \<Longrightarrow> stack_den h c st s \<Longrightarrow> (\<exists>r. a = Ref r) \<or> (\<exists>r. b = Ref r) \<Longrightarrow>
     fuel_or (deepEq n h a b st) (jeq s t)"
proof (induction n arbitrary: a b s t st)
  case 0
  then show ?case by (simp add: deepEq.simps fuel_or_def)
next
  case (Suc n)
  have rec: "fuel_or (eq n h x y ((a, b) # st)) (jeq x' y')"
    if "den h c x x'" "den h c y y'" "size x' < size s" for x y x' y'
    by (rule eq_den [OF that(1,2)], rule Suc.IH [OF that(1,2) stack_den_push [OF Suc.prems(3,1) that(3)]])
  have w: "unwrap h x = x" if "den h c x z" for x z
    using that by (cases rule: den.cases) (simp_all add: unwrap_def split: val.split)
  note find = stack_den_find [OF Suc.prems(3,1)]
  consider (arrs) r xs q ys where "a = Ref r" "b = Ref q" "s = JArr xs" "t = JArr ys"
    | (objs) r xs q ys where "a = Ref r" "b = Ref q" "s = JObj xs" "t = JObj ys"
    | (mixed) "toString_tag h a \<noteq> toString_tag h b" "\<not> jeq s t"
    using Suc.prems(1,2,4)
    by (elim den.cases) (auto simp: toString_tag_def jeq.simps split: val.splits)
  then show ?case
  proof cases
    case arrs
    then have tags: "toString_tag h a = u ''Array''" "toString_tag h b = u ''Array''"
      and xs: "list_all2 (den h c) (elems_of h a) xs" and ys: "list_all2 (den h c) (elems_of h b) ys"
      and nt: "\<not> isTypedArray h a"
      using Suc.prems(1,2) by (auto elim!: den.cases simp: toString_tag_def elems_of_def isTypedArray_def)
    have e: "eq_by_class h (u ''Array'') a b = None" by (simp add: eq_by_class_def Let_def)
    show ?thesis
    proof (cases "length xs = length ys")
      case False
      then have "deepEq (Suc n) h a b st = No"
        using xs ys tags w [OF Suc.prems(1)] w [OF Suc.prems(2)] e find nt
        by (simp add: deepEq.simps Let_def list_all2_lengthD)
      with False show ?thesis by (simp add: fuel_or_def of_b_def jeq.simps arrs)
    next
      case True
      then have "deepEq (Suc n) h a b st
          = eq_pairs n h (elem_pairs (elems_of h a) (elems_of h b)) ((a, b) # st)"
        using xs ys tags w [OF Suc.prems(1)] w [OF Suc.prems(2)] e find nt
        by (simp add: deepEq.simps Let_def list_all2_lengthD)
      moreover have "fuel_or (eq n h x y ((a, b) # st)) (same_den h c x y)"
        if p: "(x, Some y) \<in> set (elem_pairs (elems_of h a) (elems_of h b))" for x y
      proof -
        from p obtain i where i: "i < length xs" "x = elems_of h a ! i" "y = elems_of h b ! i"
          using xs ys by (auto simp: elem_pairs_def in_set_zip list_all2_lengthD)
        with xs ys True have dn: "den h c x (xs ! i)" "den h c y (ys ! i)" by (auto simp: list_all2_conv_all_nth)
        have "size (xs ! i) < size s" unfolding arrs by (rule size_elem) (simp add: i)
        from rec [OF dn this] show ?thesis by (simp only: same_den_eq [OF dn])
      qed
      note eq_pairs_fuel_or [of "elem_pairs (elems_of h a) (elems_of h b)", OF this]
      moreover have "(\<forall>p \<in> set (elem_pairs (elems_of h a) (elems_of h b)).
          case snd p of None \<Rightarrow> False | Some y \<Rightarrow> same_den h c (fst p) y) \<longleftrightarrow> jeq s t"
      proof -
        have "same_den h c (elems_of h a ! i) (elems_of h b ! i) \<longleftrightarrow> jeq (xs ! i) (ys ! i)" if "i < length xs" for i
          using that xs ys True by (intro same_den_eq) (auto simp: list_all2_conv_all_nth)
        moreover have "length (elems_of h a) = length xs" "length (elems_of h b) = length ys"
          using xs ys by (simp_all add: list_all2_lengthD)
        ultimately show ?thesis using True unfolding arrs jeq_arr by (simp add: elem_pairs_all zip_all)
      qed
      ultimately show ?thesis by simp
    qed
  next
    case mixed
    then have "deepEq (Suc n) h a b st = No"
      using w [OF Suc.prems(1)] w [OF Suc.prems(2)] by (simp add: deepEq.simps Let_def)
    with mixed show ?thesis by (simp add: fuel_or_def of_b_def)
  next
    case objs
    then have tags: "toString_tag h a = u ''Object''" "toString_tag h b = u ''Object''"
      and nt: "\<not> isTypedArray h a" and ty: "typeof h a = u ''object''" "typeof h b = u ''object''"
      and ct: "get_prop h a (u ''constructor'') = Ref c" "get_prop h b (u ''constructor'') = Ref c"
      using Suc.prems(1,2) by (auto elim!: den.cases simp: toString_tag_def isTypedArray_def typeof_def)
    have e: "eq_by_class h (u ''Object'') a b = None" by (simp add: eq_by_class_def Let_def)
    have d: "\<not> different_constructors h a b" by (simp add: different_constructors_def ct strict_eq_def)
    note pa = den_props [OF Suc.prems(1) [unfolded objs]] and pb = den_props [OF Suc.prems(2) [unfolded objs]]
    have k: "us_keys h a = map fst xs" "us_keys h b = map fst ys" using pa pb objs by simp_all
    show ?thesis
    proof (cases "length xs = length ys")
      case False
      then have "deepEq (Suc n) h a b st = No"
        using tags w [OF Suc.prems(1)] w [OF Suc.prems(2)] e find nt ty d objs k
        by (simp add: deepEq.simps Let_def)
      with False show ?thesis by (simp add: fuel_or_def of_b_def jeq.simps objs)
    next
      case True
      then have "deepEq (Suc n) h a b st = eq_pairs n h (key_pairs h a b) ((a, b) # st)"
        using tags w [OF Suc.prems(1)] w [OF Suc.prems(2)] e find nt ty d objs k
        by (simp add: deepEq.simps Let_def)
      moreover have "fuel_or (eq n h x y ((a, b) # st)) (same_den h c x y)"
        if p: "(x, Some y) \<in> set (key_pairs h a b)" for x y
      proof -
        from p obtain kt where i: "kt \<in> set xs" "x = get_prop h a (fst kt)" "us_has h b (fst kt)" "y = get_prop h b (fst kt)"
          by (auto simp: key_pairs_def k split: if_splits)
        have k1: "dget xs (fst kt) = Some (snd kt)" using map_of_is_SomeI [OF pa(2), of "fst kt" "snd kt"] i(1) by simp
        have t1: "den h c x (snd kt)" using pa(4) [OF k1] by (simp add: i(2) objs)
        obtain t2 where k2: "dget ys (fst kt) = Some t2" using pb(3) i(3) objs by auto
        have t2: "den h c y t2" using pb(4) [OF k2] by (simp add: i(4) objs)
        have "size (snd kt) < size s" unfolding objs by (rule size_value [OF i(1)])
        from rec [OF t1 t2 this] show ?thesis by (simp only: same_den_eq [OF t1 t2])
      qed
      note eq_pairs_fuel_or [of "key_pairs h a b", OF this]
      moreover have "(\<forall>p \<in> set (key_pairs h a b).
          case snd p of None \<Rightarrow> False | Some y \<Rightarrow> same_den h c (fst p) y) \<longleftrightarrow> jeq s t"
      proof -
        have "(case (if us_has h b (fst p) then Some (get_prop h b (fst p)) else None) of
             None \<Rightarrow> False | Some y \<Rightarrow> same_den h c (get_prop h a (fst p)) y) \<longleftrightarrow>
           (case dget ys (fst p) of None \<Rightarrow> False | Some y \<Rightarrow> jeq (snd p) y)" if "p \<in> set xs" for p
        proof (cases "dget ys (fst p)")
          case None
          then show ?thesis using pb(3) objs by simp
        next
          case (Some t2)
          have "dget xs (fst p) = Some (snd p)" using map_of_is_SomeI [OF pa(2), of "fst p" "snd p"] that by simp
          from same_den_eq [OF pa(4) [OF this] pb(4) [OF Some]] show ?thesis
            using pb(3) [of "fst p"] Some objs by simp
        qed
        moreover have "set (key_pairs h a b) = (\<lambda>p. (get_prop h a (fst p),
            if us_has h b (fst p) then Some (get_prop h b (fst p)) else None)) ` set xs"
          by (simp add: key_pairs_def k image_image)
        ultimately show ?thesis using True unfolding objs(3,4) jeq_obj
          by (simp only: ball_simps snd_conv fst_conv simp_thms cong: ball_cong)
      qed
      ultimately show ?thesis by simp
    qed
  qed
qed

text \<open>C16: On data without cycles \<open>isEqual\<close> decides equality of the trees: arrays element by element,
  objects as mappings, numbers with \<open>NaN\<close> equal to itself and the two zeros different.\<close>

theorem isEqual_data:
  assumes "buffers_ok h" "den h c a s" "den h c b t"
  shows "isEqual h a b = of_b (jeq s t)"
proof -
  have "fuel_or (eq (length h + 2) h a b []) (jeq s t)"
    by (rule eq_den [OF assms(2,3)], rule deepEq_den [OF assms(2,3)]) (simp_all add: stack_den_def)
  moreover have "eq (length h + 2) h a b [] \<noteq> OutOfFuel"
    by (rule eq_deep, rule deepEq_fuel [OF assms(1)]) (simp_all add: stack_ok_def)
  ultimately show ?thesis by (simp add: isEqual_def fuel_or_def)
qed

text \<open>Two objects with the same prototype and the same properties in another order.\<close>

definition eq_heap :: heap where
  "eq_heap = [new_obj \<lparr> props := [(u ''a'', Num NZero), (u ''b'', Ref 4)], proto := Some 2 \<rparr>,
     new_obj \<lparr> props := [(u ''b'', Ref 5), (u ''a'', Num NZero)], proto := Some 2 \<rparr>,
     new_obj \<lparr> props := [(u ''constructor'', Ref 3)] \<rparr>, new_obj \<lparr> cls := u ''Function'' \<rparr>,
     new_array [Num (Fin 1)], new_array [Num (Fin 1)]]"

theorem isEqual_data_witness:
  "isEqual eq_heap (Ref 0) (Ref 1) = Yes \<and>
   isEqual eq_heap (Ref 0) (Ref 1) = of_b (jeq (JObj [(u ''a'', JPrim (Num NZero)), (u ''b'', JArr [JPrim (Num (Fin 1))])])
     (JObj [(u ''b'', JArr [JPrim (Num (Fin 1))]), (u ''a'', JPrim (Num NZero))]))"
proof -
  have b: "buffers_ok eq_heap" by (simp add: buffers_ok_def eq_heap_def new_array_def new_obj_def)
  have o: "obj_at eq_heap 0 = new_obj \<lparr> props := [(u ''a'', Num NZero), (u ''b'', Ref 4)], proto := Some 2 \<rparr>"
    "obj_at eq_heap 1 = new_obj \<lparr> props := [(u ''b'', Ref 5), (u ''a'', Num NZero)], proto := Some 2 \<rparr>"
    "obj_at eq_heap 4 = new_array [Num (Fin 1)]" "obj_at eq_heap 5 = new_array [Num (Fin 1)]"
    by (simp_all add: eq_heap_def obj_at_def)
  have p: "den eq_heap 3 (Num n) (JPrim (Num n))" for n by (rule den.prim) simp
  have arr: "den eq_heap 3 (Ref 4) (JArr [JPrim (Num (Fin 1))])" "den eq_heap 3 (Ref 5) (JArr [JPrim (Num (Fin 1))])"
    by (rule den.arr; simp add: o new_array_def new_obj_def p)+
  have "get_prop eq_heap (Ref 0) (u ''constructor'') = Ref 3" "get_prop eq_heap (Ref 1) (u ''constructor'') = Ref 3"
    by code_simp+
  then have "den eq_heap 3 (Ref 0) (JObj [(u ''a'', JPrim (Num NZero)), (u ''b'', JArr [JPrim (Num (Fin 1))])])"
    "den eq_heap 3 (Ref 1) (JObj [(u ''b'', JArr [JPrim (Num (Fin 1))]), (u ''a'', JPrim (Num NZero))])"
    using arr p by (auto intro!: den.data_obj simp: o o(2) [unfolded One_nat_def] new_obj_def)
  from isEqual_data [OF b this] show ?thesis by code_simp
qed

end
