(* ===== verification/UsCollection.thy ===== *)
theory UsCollection
  imports UsObject
begin

text \<open>
  The collection functions of Underscore (lines 1217 to 1660).  A collection is an array, an object
  used as a dictionary, or \<open>null\<close>/\<open>undefined\<close>; an iteratee gets the value, its index or name, and
  the collection.  Loops run over the indices as in the source; \<open>each\<close> threads the state its
  callback changes, and the functions built on it say what their callback does to their result.
  Callbacks do not change the collection they run over.  Functions that compare with \<open>===\<close> take
  the values of the object model.
\<close>

datatype key = KIdx nat | KName ustr

datatype 'a coll = ArrC "'a list" | ObjC "'a dict" | NilC

definition coll_keys :: "'a coll \<Rightarrow> key list" where
  "coll_keys obj = (case obj of ArrC xs \<Rightarrow> map KIdx [0..<length xs] | ObjC d \<Rightarrow> map (KName \<circ> fst) d | NilC \<Rightarrow> [])"

definition coll_at :: "'a coll \<Rightarrow> nat \<Rightarrow> 'a" where
  "coll_at obj i = (case obj of ArrC xs \<Rightarrow> xs ! i | ObjC d \<Rightarrow> snd (d ! i) | NilC \<Rightarrow> undefined)"

definition coll_values :: "'a coll \<Rightarrow> 'a list" where
  "coll_values obj = (case obj of ArrC xs \<Rightarrow> xs | ObjC d \<Rightarrow> map snd d | NilC \<Rightarrow> [])"

definition is_array_like :: "'a coll \<Rightarrow> bool" where
  "is_array_like obj \<longleftrightarrow> (case obj of ArrC _ \<Rightarrow> True | _ \<Rightarrow> False)"

type_synonym ('a, 'b) iter = "'a \<Rightarrow> key \<Rightarrow> 'a coll \<Rightarrow> 'b"

definition us_each :: "'a coll \<Rightarrow> ('a, 's \<Rightarrow> 's) iter \<Rightarrow> 's \<Rightarrow> 's" where
  "us_each obj f s = fold (\<lambda>i. f (coll_at obj i) (coll_keys obj ! i) obj) [0..<length (coll_keys obj)] s"

definition us_map :: "'a coll \<Rightarrow> ('a, 'b) iter \<Rightarrow> 'b list" where
  "us_map obj f = map (\<lambda>index. f (coll_at obj index) (coll_keys obj ! index) obj) [0..<length (coll_keys obj)]"

definition us_mapObject :: "'a dict \<Rightarrow> ('a, 'b) iter \<Rightarrow> 'b dict" where
  "us_mapObject d f = fold (\<lambda>(k, v) results. dput k (f v (KName k) (ObjC d)) results) d []"

section \<open>Reduction\<close>

text \<open>\<open>createReduce\<close>: the indices in the direction \<open>dir\<close>; without an initial value the first element
  takes its place.  Reducing an empty collection without one gives \<open>undefined\<close>.\<close>

definition reduce_indices :: "int \<Rightarrow> nat \<Rightarrow> nat list" where
  "reduce_indices dir n = (if dir > 0 then [0..<n] else rev [0..<n])"

definition createReduce :: "int \<Rightarrow> 'a coll \<Rightarrow> ('a \<Rightarrow> 'a \<Rightarrow> key \<Rightarrow> 'a coll \<Rightarrow> 'a) \<Rightarrow> 'a option \<Rightarrow> 'a option" where
  "createReduce dir obj f memo =
    (let is = reduce_indices dir (length (coll_keys obj));
         step = (\<lambda>i m. f m (coll_at obj i) (coll_keys obj ! i) obj)
     in case memo of Some m \<Rightarrow> Some (fold step is m)
        | None \<Rightarrow> (case is of [] \<Rightarrow> None | i # is' \<Rightarrow> Some (fold step is' (coll_at obj i))))"

definition us_reduce where "us_reduce = createReduce 1"
definition us_reduceRight where "us_reduceRight = createReduce (-1)"

section \<open>Predicates\<close>

definition us_filter :: "'a coll \<Rightarrow> ('a, bool) iter \<Rightarrow> 'a list" where
  "us_filter obj p = us_each obj (\<lambda>v i l results. if p v i l then results @ [v] else results) []"

definition us_negate :: "('a, bool) iter \<Rightarrow> ('a, bool) iter" where
  "us_negate p = (\<lambda>v i l. \<not> p v i l)"

definition us_reject :: "'a coll \<Rightarrow> ('a, bool) iter \<Rightarrow> 'a list" where
  "us_reject obj p = us_filter obj (us_negate p)"

fun every_loop :: "'a coll \<Rightarrow> ('a, bool) iter \<Rightarrow> nat list \<Rightarrow> bool" where
  "every_loop obj p [] = True"
| "every_loop obj p (i # is) =
    (if \<not> p (coll_at obj i) (coll_keys obj ! i) obj then False else every_loop obj p is)"

definition us_every :: "'a coll \<Rightarrow> ('a, bool) iter \<Rightarrow> bool" where
  "us_every obj p = every_loop obj p [0..<length (coll_keys obj)]"

fun some_loop :: "'a coll \<Rightarrow> ('a, bool) iter \<Rightarrow> nat list \<Rightarrow> bool" where
  "some_loop obj p [] = False"
| "some_loop obj p (i # is) =
    (if p (coll_at obj i) (coll_keys obj ! i) obj then True else some_loop obj p is)"

definition us_some :: "'a coll \<Rightarrow> ('a, bool) iter \<Rightarrow> bool" where
  "us_some obj p = some_loop obj p [0..<length (coll_keys obj)]"

fun find_loop :: "('a \<Rightarrow> bool) \<Rightarrow> (nat \<Rightarrow> 'a) \<Rightarrow> nat list \<Rightarrow> nat option" where
  "find_loop p get [] = None"
| "find_loop p get (i # is) = (if p (get i) then Some i else find_loop p get is)"

definition us_findKey :: "'a dict \<Rightarrow> ('a, bool) iter \<Rightarrow> ustr option" where
  "us_findKey d p = map_option (\<lambda>i. fst (d ! i))
     (find_loop (\<lambda>kv. p (snd kv) (KName (fst kv)) (ObjC d)) ((!) d) [0..<length d])"

definition createPredicateIndexFinder :: "int \<Rightarrow> 'a list \<Rightarrow> ('a, bool) iter \<Rightarrow> int" where
  "createPredicateIndexFinder dir xs p =
    (case find_loop (\<lambda>i. p (xs ! i) (KIdx i) (ArrC xs)) id (reduce_indices dir (length xs)) of
       Some i \<Rightarrow> int i | None \<Rightarrow> -1)"

definition us_findIndex :: "'a list \<Rightarrow> ('a, bool) iter \<Rightarrow> int" where
  "us_findIndex = createPredicateIndexFinder 1"

definition us_findLastIndex :: "'a list \<Rightarrow> ('a, bool) iter \<Rightarrow> int" where
  "us_findLastIndex = createPredicateIndexFinder (-1)"

definition us_find :: "'a coll \<Rightarrow> ('a, bool) iter \<Rightarrow> 'a option" where
  "us_find obj p = (case obj of
     ArrC xs \<Rightarrow> (let key = us_findIndex xs p in if key \<noteq> -1 then Some (xs ! nat key) else None)
   | ObjC d \<Rightarrow> (case us_findKey d p of Some k \<Rightarrow> dget d k | None \<Rightarrow> None)
   | NilC \<Rightarrow> None)"

section \<open>Search\<close>

text \<open>The binary search of \<open>sortedIndex\<close>.\<close>

function sorted_loop :: "('a \<Rightarrow> 'b::linorder) \<Rightarrow> 'a list \<Rightarrow> 'b \<Rightarrow> nat \<Rightarrow> nat \<Rightarrow> nat" where
  "sorted_loop f xs v low high =
    (if low < high then
       let mid = (low + high) div 2
       in if f (xs ! mid) < v then sorted_loop f xs v (mid + 1) high else sorted_loop f xs v low mid
     else low)"
  by pat_completeness auto
termination
  by (relation "measure (\<lambda>(f, xs, v, low, high). high - low)") auto

declare sorted_loop.simps [simp del]

definition us_sortedIndex :: "'a list \<Rightarrow> 'a \<Rightarrow> ('a \<Rightarrow> 'b::linorder) \<Rightarrow> nat" where
  "us_sortedIndex xs obj f = sorted_loop f xs (f obj) 0 (length xs)"

text \<open>\<open>createIndexFinder\<close>.  The argument \<open>idx\<close> is a number, a flag that the array is sorted (which uses
  the binary search when there is one), or missing.\<close>

datatype idx_arg = NoIdx | IdxNum int | IdxSorted

definition index_bounds :: "int \<Rightarrow> nat \<Rightarrow> idx_arg \<Rightarrow> int \<times> int" where
  "index_bounds dir n idx = (case idx of
     IdxNum k \<Rightarrow> if dir > 0 then (if k \<ge> 0 then k else max (k + int n) 0, int n)
                 else (0, if k \<ge> 0 then min (k + 1) (int n) else k + int n + 1)
   | _ \<Rightarrow> (0, int n))"

definition is_nan_val :: "val \<Rightarrow> bool" where
  "is_nan_val v \<longleftrightarrow> \<not> strict_eq v v"

definition createIndexFinder :: "int \<Rightarrow> (val list \<Rightarrow> val \<Rightarrow> nat) option \<Rightarrow> val list \<Rightarrow> val \<Rightarrow> idx_arg \<Rightarrow> int" where
  "createIndexFinder dir sortedIdx xs item idx =
    (case (sortedIdx, idx, xs) of
       (Some f, IdxSorted, _ # _) \<Rightarrow>
         (let k = f xs item in if k < length xs \<and> strict_eq (xs ! k) item then int k else -1)
     | _ \<Rightarrow>
       (case index_bounds dir (length xs) idx of (i, len) \<Rightarrow>
          (let len1 = (if is_nan_val item then int (slice_idx (length xs) len) else len);
               is = (if dir > 0 then map nat [i..len1 - 1] else rev (map nat [0..len1 - 1]));
               test = (\<lambda>k. if is_nan_val item then is_nan_val (xs ! k) else strict_eq (xs ! k) item)
           in (case find_loop (\<lambda>k. k < length xs \<and> test k) id is of Some k \<Rightarrow> int k | None \<Rightarrow> -1))))"

definition us_indexOf :: "val list \<Rightarrow> val \<Rightarrow> idx_arg \<Rightarrow> int" where
  "us_indexOf = createIndexFinder 1 None"

definition us_lastIndexOf :: "val list \<Rightarrow> val \<Rightarrow> idx_arg \<Rightarrow> int" where
  "us_lastIndexOf = createIndexFinder (-1) None"

definition us_contains :: "val coll \<Rightarrow> val \<Rightarrow> int option \<Rightarrow> bool" where
  "us_contains obj item fromIndex =
    (us_indexOf (coll_values obj) item (IdxNum (case fromIndex of Some n \<Rightarrow> n | None \<Rightarrow> 0)) \<ge> 0)"

definition us_pluck :: "heap \<Rightarrow> val coll \<Rightarrow> ustr + ustr list \<Rightarrow> val list" where
  "us_pluck h obj key = us_map obj (\<lambda>v _ _. us_property key h v)"

definition us_where :: "heap \<Rightarrow> val coll \<Rightarrow> val \<Rightarrow> val list" where
  "us_where h obj attrs = us_filter obj (\<lambda>v _ _. isMatch h v attrs)"

definition us_findWhere :: "heap \<Rightarrow> val coll \<Rightarrow> val \<Rightarrow> val option" where
  "us_findWhere h obj attrs = us_find obj (\<lambda>v _ _. isMatch h v attrs)"

section \<open>Extremes\<close>

text \<open>The order of numbers; \<open>NaN\<close> compares with nothing.\<close>

definition num_less :: "jnum \<Rightarrow> jnum \<Rightarrow> bool" where
  "num_less a b = (case (a, b) of
     (NaN, _) \<Rightarrow> False | (_, NaN) \<Rightarrow> False
   | (NInf, y) \<Rightarrow> y \<noteq> NInf | (_, NInf) \<Rightarrow> False
   | (_, PInf) \<Rightarrow> a \<noteq> PInf | (PInf, _) \<Rightarrow> False
   | (NZero, Fin y) \<Rightarrow> 0 < y | (Fin x, NZero) \<Rightarrow> x < 0 | (NZero, NZero) \<Rightarrow> False
   | (Fin x, Fin y) \<Rightarrow> x < y)"

text \<open>\<open>max\<close> and \<open>min\<close> of a collection of numbers (\<open>None\<close> for \<open>null\<close> and \<open>undefined\<close>), without an iteratee
  and with one.\<close>

definition us_max :: "jnum option coll \<Rightarrow> jnum" where
  "us_max obj = fold (\<lambda>value result. case value of
     Some v \<Rightarrow> if num_less result v then v else result | None \<Rightarrow> result) (coll_values obj) NInf"

definition us_min :: "jnum option coll \<Rightarrow> jnum" where
  "us_min obj = fold (\<lambda>value result. case value of
     Some v \<Rightarrow> if num_less v result then v else result | None \<Rightarrow> result) (coll_values obj) PInf"

text \<open>The result of the other form is an element or, before any was taken, an infinity (\<open>None\<close>).\<close>

definition us_max_by :: "'a coll \<Rightarrow> ('a, jnum) iter \<Rightarrow> 'a option" where
  "us_max_by obj f = fst (us_each obj (\<lambda>v i l (result, lastComputed).
     let computed = f v i l
     in if num_less lastComputed computed \<or> computed = NInf \<and> result = None
        then (Some v, computed) else (result, lastComputed)) (None, NInf))"

definition us_min_by :: "'a coll \<Rightarrow> ('a, jnum) iter \<Rightarrow> 'a option" where
  "us_min_by obj f = fst (us_each obj (\<lambda>v i l (result, lastComputed).
     let computed = f v i l
     in if num_less computed lastComputed \<or> computed = PInf \<and> result = None
        then (Some v, computed) else (result, lastComputed)) (None, PInf))"

section \<open>Samples and sorting\<close>

text \<open>The swap loop of \<open>sample\<close>; \<open>r index\<close> is the value of \<open>Math.random()\<close> in the turn.\<close>

definition swap :: "nat \<Rightarrow> nat \<Rightarrow> 'a list \<Rightarrow> 'a list" where
  "swap i j xs = xs[i := xs ! j, j := xs ! i]"

fun sample_loop :: "(nat \<Rightarrow> rat) \<Rightarrow> nat list \<Rightarrow> 'a list \<Rightarrow> 'a list" where
  "sample_loop r [] xs = xs"
| "sample_loop r (index # is) xs =
    sample_loop r is (swap index (nat (us_random (r index) (int index) (Some (int (length xs) - 1)))) xs)"

definition us_sample :: "(nat \<Rightarrow> rat) \<Rightarrow> 'a coll \<Rightarrow> int option \<Rightarrow> 'a list" where
  "us_sample r obj n =
    (let xs = coll_values obj;
         k = (case n of None \<Rightarrow> length xs | Some m \<Rightarrow> nat (max (min m (int (length xs))) 0))
     in take k (sample_loop r [0..<k] xs))"

definition us_sample_one :: "rat \<Rightarrow> 'a coll \<Rightarrow> 'a option" where
  "us_sample_one r obj = (let xs = coll_values obj; i = us_random r (int (length xs) - 1) None
     in if 0 \<le> i \<and> i < int (length xs) then Some (xs ! nat i) else None)"

definition us_shuffle :: "(nat \<Rightarrow> rat) \<Rightarrow> 'a coll \<Rightarrow> 'a list" where
  "us_shuffle r obj = us_sample r obj None"

text \<open>\<open>sortBy\<close>: criteria are ordered values or \<open>undefined\<close>, which goes last; equal criteria keep the
  order of the collection.\<close>

record ('a, 'b) sort_item =
  s_value :: 'a
  s_index :: nat
  s_criteria :: "'b option"

definition compare_items :: "('a, 'b::linorder) sort_item \<Rightarrow> ('a, 'b) sort_item \<Rightarrow> int" where
  "compare_items left right =
    (let a = s_criteria left; b = s_criteria right
     in if a \<noteq> b \<and> (a = None \<or> (\<exists>x y. a = Some x \<and> b = Some y \<and> x > y)) then 1
        else if a \<noteq> b \<and> (b = None \<or> (\<exists>x y. a = Some x \<and> b = Some y \<and> x < y)) then -1
        else int (s_index left) - int (s_index right))"

definition us_sortBy :: "'a coll \<Rightarrow> ('a, 'b::linorder option) iter \<Rightarrow> 'a list" where
  "us_sortBy obj f =
    (let items = map (\<lambda>i. \<lparr> s_value = coll_at obj i, s_index = i,
           s_criteria = f (coll_at obj i) (coll_keys obj ! i) obj \<rparr>) [0..<length (coll_keys obj)]
     in map s_value (sort_by compare_items items))"

section \<open>Groups\<close>

definition us_group :: "('r \<Rightarrow> 'a \<Rightarrow> 'k \<Rightarrow> 'r) \<Rightarrow> 'r \<Rightarrow> 'a coll \<Rightarrow> ('a, 'k) iter \<Rightarrow> 'r" where
  "us_group behavior result0 obj f = us_each obj (\<lambda>value index l result. behavior result value (f value index l)) result0"

definition us_groupBy :: "'a coll \<Rightarrow> ('a, ustr) iter \<Rightarrow> 'a list dict" where
  "us_groupBy = us_group (\<lambda>result value key. case dget result key of
     Some vs \<Rightarrow> dput key (vs @ [value]) result | None \<Rightarrow> dput key [value] result) []"

definition us_indexBy :: "'a coll \<Rightarrow> ('a, ustr) iter \<Rightarrow> 'a dict" where
  "us_indexBy = us_group (\<lambda>result value key. dput key value result) []"

definition us_countBy :: "'a coll \<Rightarrow> ('a, ustr) iter \<Rightarrow> nat dict" where
  "us_countBy = us_group (\<lambda>result value key. case dget result key of
     Some n \<Rightarrow> dput key (n + 1) result | None \<Rightarrow> dput key 1 result) []"

definition us_partition :: "'a coll \<Rightarrow> ('a, bool) iter \<Rightarrow> 'a list \<times> 'a list" where
  "us_partition = us_group (\<lambda>(yes, no) value pass.
     if pass then (yes @ [value], no) else (yes, no @ [value])) ([], [])"

definition us_toArray :: "'a coll \<Rightarrow> 'a list" where
  "us_toArray obj = (case obj of NilC \<Rightarrow> [] | ArrC xs \<Rightarrow> xs | ObjC d \<Rightarrow> coll_values obj)"

text \<open>A string is taken apart by code points: a surrogate pair stays together.\<close>

fun code_points :: "ustr \<Rightarrow> ustr list" where
  "code_points [] = []"
| "code_points (c # d # s) =
    (if 55296 \<le> c \<and> c \<le> 56319 \<and> 56320 \<le> d \<and> d \<le> 57343 then [c, d] # code_points s
     else [c] # code_points (d # s))"
| "code_points [c] = [[c]]"

definition us_size :: "'a coll \<Rightarrow> nat" where
  "us_size obj = (case obj of NilC \<Rightarrow> 0 | ArrC xs \<Rightarrow> length xs | ObjC d \<Rightarrow> length d)"

section \<open>Lemmas on the loops\<close>

lemma length_coll_keys [simp]: "length (coll_keys obj) = length (coll_values obj)"
  by (simp add: coll_keys_def coll_values_def split: coll.split)

lemma coll_at_values [simp]: "i < length (coll_values obj) \<Longrightarrow> coll_at obj i = coll_values obj ! i"
  by (simp add: coll_at_def coll_values_def split: coll.splits)

lemma fold_upt_append:
  "fold f [0..<n] s = (if n = 0 then s else f (n - 1) (fold f [0..<n - 1] s))"
  by (cases n) auto

text \<open>\<open>filter\<close> through \<open>each\<close> keeps the values that pass, in their order.\<close>

lemma us_filter_eq:
  "us_filter obj (\<lambda>v i l. p v) = filter p (coll_values obj)"
proof -
  have "fold (\<lambda>i r. if p (coll_at obj i) then r @ [coll_at obj i] else r) [0..<n] [] =
      filter p (take n (coll_values obj))" if "n \<le> length (coll_values obj)" for n
    using that by (induction n) (auto simp: take_Suc_conv_app_nth)
  from this [of "length (coll_values obj)"] show ?thesis
    by (simp add: us_filter_def us_each_def)
qed

lemma us_map_eq: "us_map obj (\<lambda>v i l. f v) = map f (coll_values obj)"
  by (rule nth_equalityI) (simp_all add: us_map_def)

lemma us_every_eq: "us_every obj (\<lambda>v i l. p v) \<longleftrightarrow> list_all p (coll_values obj)"
proof -
  have "every_loop obj (\<lambda>v i l. p v) is \<longleftrightarrow> list_all (\<lambda>i. p (coll_at obj i)) is" for "is"
    by (induction "is") auto
  then show ?thesis by (auto simp: us_every_def list_all_length list_all_iff)
qed

lemma us_some_eq: "us_some obj (\<lambda>v i l. p v) \<longleftrightarrow> list_ex p (coll_values obj)"
proof -
  have "some_loop obj (\<lambda>v i l. p v) is \<longleftrightarrow> list_ex (\<lambda>i. p (coll_at obj i)) is" for "is"
    by (induction "is") auto
  then show ?thesis by (auto simp: us_some_def list_ex_length list_ex_iff)
qed

section \<open>Binary search\<close>

lemma sorted_loop_inv:
  assumes "sorted (map f xs)" "high \<le> length xs" "low \<le> high"
    and "\<forall>i < low. f (xs ! i) < v" "\<forall>i. high \<le> i \<and> i < length xs \<longrightarrow> v \<le> f (xs ! i)"
  shows "sorted_loop f xs v low high \<le> length xs \<and>
    (\<forall>i < sorted_loop f xs v low high. f (xs ! i) < v) \<and>
    (\<forall>i. sorted_loop f xs v low high \<le> i \<and> i < length xs \<longrightarrow> v \<le> f (xs ! i))"
  using assms
proof (induction f xs v low high rule: sorted_loop.induct)
  case (1 f xs v low high)
  show ?case
  proof (cases "low < high")
    case True
    define mid where "mid = (low + high) div 2"
    have m: "low \<le> mid" "mid < high" using True by (auto simp: mid_def)
    have le: "f (xs ! i) \<le> f (xs ! j)" if "i \<le> j" "j < length xs" for i j
      using sorted_nth_mono [OF 1(3), of i j] that by simp
    have e: "sorted_loop f xs v low high =
        (if f (xs ! mid) < v then sorted_loop f xs v (mid + 1) high else sorted_loop f xs v low mid)"
      using True by (subst sorted_loop.simps) (simp add: Let_def mid_def)
    show ?thesis
    proof (cases "f (xs ! mid) < v")
      case lt: True
      have "\<forall>i < mid + 1. f (xs ! i) < v"
      proof (intro allI impI)
        fix i assume "i < mid + 1"
        with le [of i mid] m 1(4) have "f (xs ! i) \<le> f (xs ! mid)" by simp
        with lt show "f (xs ! i) < v" by simp
      qed
      from 1(1) [OF True mid_def lt 1(3,4) _ this 1(7)] m show ?thesis unfolding e using lt by simp
    next
      case ge: False
      have "\<forall>i. mid \<le> i \<and> i < length xs \<longrightarrow> v \<le> f (xs ! i)"
      proof (intro allI impI)
        fix i assume "mid \<le> i \<and> i < length xs"
        with le [of mid i] have "f (xs ! mid) \<le> f (xs ! i)" by simp
        with ge show "v \<le> f (xs ! i)" by simp
      qed
      from 1(2) [OF True mid_def ge 1(3) _ m(1) 1(6) this] 1(4) m show ?thesis unfolding e using ge by simp
    qed
  next
    case False
    then have "sorted_loop f xs v low high = low" by (simp add: sorted_loop.simps)
    with False 1(4-7) show ?thesis by simp
  qed
qed

text \<open>The binary search of \<open>sortedIndex\<close> ends and returns the smallest index at which the value can
  be inserted so that the array stays sorted.\<close>

theorem sortedIndex_correct:
  assumes "sorted (map f xs)"
  shows "us_sortedIndex xs x f \<le> length xs \<and>
    (\<forall>i < us_sortedIndex xs x f. f (xs ! i) < f x) \<and>
    (\<forall>i. us_sortedIndex xs x f \<le> i \<and> i < length xs \<longrightarrow> f x \<le> f (xs ! i))"
  unfolding us_sortedIndex_def by (rule sorted_loop_inv) (use assms in auto)

theorem sortedIndex_correct_witness:
  "us_sortedIndex [1, 3, 3, 8] (3 :: int) id = 1 \<and> us_sortedIndex [1, 3, 3, 8] (3 :: int) id \<le> 4"
proof -
  have "us_sortedIndex [1, 3, 3, 8] (3 :: int) id \<le> length [1, 3, 3, 8 :: int]"
    using sortedIndex_correct [of id "[1, 3, 3, 8 :: int]" 3] by simp
  moreover have "us_sortedIndex [1, 3, 3, 8] (3 :: int) id = 1" by code_simp
  ultimately show ?thesis by simp
qed

section \<open>Shuffling\<close>

lemma length_sample_loop [simp]: "length (sample_loop r is xs) = length xs"
  by (induction r "is" xs rule: sample_loop.induct) (simp_all add: swap_def)

lemma mset_sample_loop:
  assumes "\<forall>i. 0 \<le> r i \<and> r i < 1" "\<forall>i \<in> set is. i < length xs"
  shows "mset (sample_loop r is xs) = mset xs"
  using assms(2)
proof (induction "is" arbitrary: xs)
  case (Cons i "is")
  let ?j = "nat (us_random (r i) (int i) (Some (int (length xs) - 1)))"
  have "int i \<le> int (length xs) - 1" using Cons.prems by simp
  from random_range [OF _ _ this, of "r i"] assms(1)
  have "us_random (r i) (int i) (Some (int (length xs) - 1)) < int (length xs)" by simp
  then have "?j < length xs" using Cons.prems by (auto simp: nat_less_iff)
  then have "mset (swap i ?j xs) = mset xs" using Cons.prems by (simp add: swap_def mset_swap)
  moreover have "length (swap i ?j xs) = length xs" by (simp add: swap_def)
  ultimately show ?case using Cons by simp
qed simp

text \<open>\<open>shuffle\<close> returns a permutation of the values, whatever numbers \<open>Math.random\<close> returns.\<close>

theorem shuffle_permutation:
  assumes "\<forall>i. 0 \<le> r i \<and> r i < 1"
  shows "mset (us_shuffle r obj) = mset (coll_values obj)"
  using mset_sample_loop [OF assms, of "[0..<length (coll_values obj)]" "coll_values obj"]
  by (simp add: us_shuffle_def us_sample_def Let_def)

theorem shuffle_permutation_witness:
  "mset (us_shuffle (\<lambda>i. 1 / 2) (ArrC [1, 2, 3 :: nat])) = {#1, 2, 3#}"
  using shuffle_permutation [of "\<lambda>i. 1 / 2" "ArrC [1, 2, 3 :: nat]"] by (simp add: coll_values_def)

section \<open>Stable sorting\<close>

definition crit_le :: "'b::linorder option \<Rightarrow> 'b option \<Rightarrow> bool" where
  "crit_le a b \<longleftrightarrow> b = None \<or> (\<exists>x y. a = Some x \<and> b = Some y \<and> x \<le> y)"

lemma compare_items_le:
  "compare_items a b \<le> 0 \<longleftrightarrow>
     (if s_criteria a = s_criteria b then s_index a \<le> s_index b else crit_le (s_criteria a) (s_criteria b))"
  by (cases "s_criteria a"; cases "s_criteria b") (auto simp: compare_items_def crit_le_def Let_def)

lemma compare_items_ok: "cmp_ok (compare_items :: ('a, 'b::linorder) sort_item \<Rightarrow> _)"
proof -
  have "compare_items a b \<le> 0 \<or> compare_items b a \<le> 0" for a b :: "('a, 'b) sort_item"
    unfolding compare_items_le by (cases "s_criteria a"; cases "s_criteria b") (auto simp: crit_le_def)
  moreover have "compare_items a c \<le> 0" if "compare_items a b \<le> 0" "compare_items b c \<le> 0"
    for a b c :: "('a, 'b) sort_item"
    using that unfolding compare_items_le
    by (cases "s_criteria a"; cases "s_criteria b"; cases "s_criteria c")
      (auto simp: crit_le_def split: if_splits)
  ultimately show ?thesis unfolding cmp_ok_def by blast
qed

definition sort_items :: "'a list \<Rightarrow> ('a \<Rightarrow> 'b option) \<Rightarrow> ('a, 'b::linorder) sort_item list" where
  "sort_items xs c = map (\<lambda>i. \<lparr> s_value = xs ! i, s_index = i, s_criteria = c (xs ! i) \<rparr>) [0..<length xs]"

lemma us_sortBy_items:
  "us_sortBy obj (\<lambda>v i l. c v) = map s_value (sort_by compare_items (sort_items (coll_values obj) c))"
proof -
  have "map (\<lambda>i. \<lparr> s_value = coll_at obj i, s_index = i, s_criteria = c (coll_at obj i) \<rparr>)
      [0..<length (coll_keys obj)] = sort_items (coll_values obj) c"
    by (simp add: sort_items_def)
  then show ?thesis by (simp add: us_sortBy_def)
qed

lemma sort_by_same:
  fixes c :: "'a \<Rightarrow> 'b::linorder option"
  assumes ys: "ys = sort_by compare_items (sort_items xs c)"
  shows "filter (\<lambda>t. s_criteria t = k) ys = filter (\<lambda>t. s_criteria t = k) (sort_items xs c)"
proof -
  let ?f = "filter (\<lambda>t. s_criteria t = k)"
  let ?mk = "\<lambda>i. \<lparr> s_value = xs ! i, s_index = i, s_criteria = c (xs ! i) \<rparr>"
  have m: "mset ys = mset (sort_items xs c)" by (simp add: ys mset_sort_by)
  then have sm: "mset (map s_index (?f ys)) = mset (map s_index (?f (sort_items xs c)))" by simp
  have i: "map s_index (sort_items xs c) = [0..<length xs]" by (simp add: sort_items_def comp_def)
  have "sorted_wrt (\<lambda>a b. compare_items a b \<le> 0) (?f ys)"
    unfolding ys by (intro sorted_wrt_filter sorted_sort_by compare_items_ok)
  then have "sorted_wrt (\<lambda>a b. s_index a \<le> s_index b) (?f ys)"
    by (rule sorted_wrt_mono_rel [rotated]) (auto simp: compare_items_le)
  then have s1: "sorted (map s_index (?f ys))" by (simp add: sorted_map)
  have s2: "sorted (map s_index (?f (sort_items xs c)))"
    by (rule sorted_filter) (simp add: i)
  have e: "map s_index (?f ys) = map s_index (?f (sort_items xs c))"
    using properties_for_sort [OF sm s1] sorted_sort_id [OF s2] by simp
  have mk: "map ?mk (map s_index l) = l" if "set l \<subseteq> set (sort_items xs c)" for l
    using that by (induction l) (auto simp: sort_items_def)
  have "set ys = set (sort_items xs c)" using m by (metis set_mset_mset)
  then have "set (?f ys) \<subseteq> set (sort_items xs c)" "set (?f (sort_items xs c)) \<subseteq> set (sort_items xs c)"
    by auto
  from mk [OF this(1)] mk [OF this(2)] e show ?thesis by metis
qed

lemma map_value_filter:
  "\<forall>t \<in> set l. s_criteria t = c (s_value t) \<Longrightarrow>
     filter (\<lambda>v. c v = k) (map s_value l) = map s_value (filter (\<lambda>t. s_criteria t = k) l)"
  by (induction l) auto

text \<open>\<open>sortBy\<close> returns the values ordered by their criteria, \<open>undefined\<close> last, and keeps the order
  of the collection among values of the same criterion.\<close>

theorem sortBy_stable:
  "sorted_wrt (\<lambda>a b. crit_le (c a) (c b)) (us_sortBy obj (\<lambda>v i l. c v)) \<and>
   mset (us_sortBy obj (\<lambda>v i l. c v)) = mset (coll_values obj) \<and>
   filter (\<lambda>v. c v = k) (us_sortBy obj (\<lambda>v i l. c v)) = filter (\<lambda>v. c v = k) (coll_values obj)"
proof -
  let ?xs = "coll_values obj"
  define ys where "ys = sort_by compare_items (sort_items ?xs c)"
  have r: "us_sortBy obj (\<lambda>v i l. c v) = map s_value ys" by (simp add: us_sortBy_items ys_def)
  have m: "mset ys = mset (sort_items ?xs c)" by (simp add: ys_def mset_sort_by)
  have v: "map s_value (sort_items ?xs c) = ?xs" by (simp add: sort_items_def comp_def map_nth)
  have t: "\<forall>t \<in> set ys. s_criteria t = c (s_value t)" "\<forall>t \<in> set (sort_items ?xs c). s_criteria t = c (s_value t)"
    using mset_eq_setD [OF m] by (auto simp: sort_items_def)
  have "sorted_wrt (\<lambda>a b. compare_items a b \<le> 0) ys"
    unfolding ys_def by (rule sorted_sort_by [OF compare_items_ok])
  then have "sorted_wrt (\<lambda>a b. crit_le (s_criteria a) (s_criteria b)) ys"
  proof (rule sorted_wrt_mono_rel [rotated])
    fix a b :: "('a, 'b) sort_item"
    assume "compare_items a b \<le> 0"
    then show "crit_le (s_criteria a) (s_criteria b)"
      unfolding compare_items_le by (cases "s_criteria b") (auto simp: crit_le_def split: if_splits)
  qed
  then have "sorted_wrt (\<lambda>a b. crit_le (c (s_value a)) (c (s_value b))) ys"
    by (rule sorted_wrt_mono_rel [rotated]) (simp add: t(1))
  then have "sorted_wrt (\<lambda>a b. crit_le (c a) (c b)) (map s_value ys)" by (simp add: sorted_wrt_map)
  moreover have "mset (map s_value ys) = mset ?xs" using arg_cong [OF m, of "image_mset s_value"] v
    by (metis mset_map)
  moreover have "filter (\<lambda>v. c v = k) (map s_value ys) = filter (\<lambda>v. c v = k) (map s_value (sort_items ?xs c))"
    unfolding map_value_filter [OF t(1)] map_value_filter [OF t(2)]
    by (simp only: sort_by_same [OF ys_def])
  ultimately show ?thesis by (simp only: r v)
qed

section \<open>Groups\<close>

lemma us_group_fold:
  "us_group b r0 obj (\<lambda>v i l. f v) = fold (\<lambda>v r. b r v (f v)) (coll_values obj) r0"
proof -
  have "fold (\<lambda>i r. b r (coll_at obj i) (f (coll_at obj i))) [0..<n] r0 =
      fold (\<lambda>v r. b r v (f v)) (take n (coll_values obj)) r0" if "n \<le> length (coll_values obj)" for n
    using that by (induction n) (auto simp: take_Suc_conv_app_nth)
  from this [of "length (coll_values obj)"] show ?thesis by (simp add: us_group_def us_each_def)
qed

text \<open>\<open>groupBy\<close> has one group for every key that occurs, which holds the values with that key in
  their order; \<open>countBy\<close> counts them.\<close>

theorem groupBy_groups:
  "dget (us_groupBy obj (\<lambda>v i l. f v)) k =
     (if filter (\<lambda>v. f v = k) (coll_values obj) = [] then None else Some (filter (\<lambda>v. f v = k) (coll_values obj))) \<and>
   dget (us_countBy obj (\<lambda>v i l. f v)) k =
     (if filter (\<lambda>v. f v = k) (coll_values obj) = [] then None
      else Some (length (filter (\<lambda>v. f v = k) (coll_values obj))))"
proof -
  let ?g = "\<lambda>v result. case dget result (f v) of Some vs \<Rightarrow> dput (f v) (vs @ [v]) result | None \<Rightarrow> dput (f v) [v] result"
  let ?n = "\<lambda>v result. case dget result (f v) of Some n \<Rightarrow> dput (f v) (n + 1) result | None \<Rightarrow> dput (f v) (1 :: nat) result"
  have "dget (fold ?g xs []) k = (if filter (\<lambda>v. f v = k) xs = [] then None else Some (filter (\<lambda>v. f v = k) xs))" for xs
  proof (induction xs rule: rev_induct)
    case (snoc x xs)
    then show ?case by (cases "dget (fold ?g xs []) (f x)") (auto split: if_splits)
  qed simp
  moreover have "dget (fold ?n xs []) k =
      (if filter (\<lambda>v. f v = k) xs = [] then None else Some (length (filter (\<lambda>v. f v = k) xs)))" for xs
  proof (induction xs rule: rev_induct)
    case (snoc x xs)
    then show ?case by (cases "dget (fold ?n xs []) (f x)") (auto split: if_splits)
  qed simp
  ultimately show ?thesis unfolding us_groupBy_def us_countBy_def us_group_fold by simp
qed

lemma partition_eq: "us_partition obj (\<lambda>v i l. p v) = (filter p (coll_values obj), filter (\<lambda>v. \<not> p v) (coll_values obj))"
proof -
  have "fold (\<lambda>v r. case r of (yes, no) \<Rightarrow> if p v then (yes @ [v], no) else (yes, no @ [v])) xs ([], [])
      = (filter p xs, filter (\<lambda>v. \<not> p v) xs)" for xs
    by (induction xs rule: rev_induct) auto
  moreover have "(\<lambda>v r. (case r of (yes, no) \<Rightarrow> \<lambda>value pass.
      if pass then (yes @ [value], no) else (yes, no @ [value])) v (p v)) =
      (\<lambda>v r. case r of (yes, no) \<Rightarrow> if p v then (yes @ [v], no) else (yes, no @ [v]))"
    by (intro ext) (auto split: prod.split)
  ultimately show ?thesis unfolding us_partition_def us_group_fold by simp
qed

section \<open>Membership\<close>

definition same_val :: "val \<Rightarrow> val \<Rightarrow> bool" where
  "same_val x item \<longleftrightarrow> (if is_nan_val item then is_nan_val x else strict_eq x item)"

lemma find_loop_None: "find_loop p g is = None \<longleftrightarrow> (\<forall>i \<in> set is. \<not> p (g i))"
  by (induction p g "is" rule: find_loop.induct) auto

text \<open>\<open>contains\<close> finds an item that is equal, \<open>NaN\<close> included.\<close>

lemma contains_iff: "us_contains obj item None \<longleftrightarrow> (\<exists>x \<in> set (coll_values obj). same_val x item)"
proof -
  let ?xs = "coll_values obj"
  have s: "slice_idx (length ?xs) (int (length ?xs)) = length ?xs" by (simp add: slice_idx_def)
  have n: "set (map nat [0..int (length ?xs) - 1]) = {..<length ?xs}"
    by (auto simp: image_iff) (metis atLeastAtMost_iff nat_int of_nat_0_le_iff of_nat_less_iff zle_diff1_eq)
  have "us_contains obj item None \<longleftrightarrow>
      find_loop (\<lambda>k. k < length ?xs \<and> (if is_nan_val item then is_nan_val (?xs ! k) else strict_eq (?xs ! k) item)) id
        (map nat [0..int (length ?xs) - 1]) \<noteq> None"
    by (simp add: us_contains_def us_indexOf_def createIndexFinder_def index_bounds_def Let_def s split: option.split)
  also have "\<dots> \<longleftrightarrow> (\<exists>k < length ?xs. same_val (?xs ! k) item)"
    unfolding find_loop_None n by (auto simp: same_val_def)
  finally show ?thesis unfolding Bex_def in_set_conv_nth by blast
qed

end
