(* ===== verification/UsArray.thy ===== *)
theory UsArray
  imports UsCollection
begin

text \<open>
  The array functions of Underscore (\<open>flatten\<close>, lines 1015 to 1039, and lines 1606 to 1838) and its
  chaining.  Arrays nest: a \<open>nested\<close> value is an item or an array.  Functions that compare items with
  \<open>===\<close> take the comparison \<open>eqv\<close> of the items, since \<open>contains\<close> also identifies \<open>NaN\<close> with itself.
\<close>

datatype 'a nested = Item 'a | Arr "'a nested list"

section \<open>Flattening\<close>

text \<open>\<open>None\<close> is an unbounded depth; the output grows while the input is read.\<close>

function flatten_out :: "'a nested list \<Rightarrow> int option \<Rightarrow> bool \<Rightarrow> 'a nested list \<Rightarrow> 'a nested list" where
  "flatten_out input depth strict out =
    (if (case depth of Some d \<Rightarrow> d \<le> 0 | None \<Rightarrow> False) then out @ input
     else (case input of [] \<Rightarrow> out
       | v # rest \<Rightarrow>
         flatten_out rest depth strict
           (case v of
              Arr ws \<Rightarrow>
                (case depth of
                   None \<Rightarrow> flatten_out ws None strict out
                 | Some d \<Rightarrow> if d > 1 then flatten_out ws (Some (d - 1)) strict out else out @ ws)
            | Item x \<Rightarrow> if strict then out else out @ [v])))"
  by pat_completeness auto
termination
  by (relation "measure (\<lambda>(input, _). size_list size input)") (auto split: nested.splits)

declare flatten_out.simps [simp del]

text \<open>The argument of \<open>flatten\<close>: missing and \<open>false\<close> are an unbounded depth, \<open>true\<close> is one.\<close>

datatype depth_arg = DNone | DBool bool | DNum int

definition depth_of :: "depth_arg \<Rightarrow> int option" where
  "depth_of a = (case a of DNone \<Rightarrow> None | DBool b \<Rightarrow> if b then Some 1 else None | DNum n \<Rightarrow> Some n)"

definition us_flatten_in :: "'a nested list \<Rightarrow> depth_arg \<Rightarrow> bool \<Rightarrow> 'a nested list" where
  "us_flatten_in input depth strict = flatten_out input (depth_of depth) strict []"

definition us_flatten :: "'a nested list \<Rightarrow> depth_arg \<Rightarrow> 'a nested list" where
  "us_flatten xs depth = us_flatten_in xs depth False"

section \<open>Parts of objects and arrays\<close>

definition us_pick_by :: "'a dict \<Rightarrow> (ustr \<times> 'a) list \<Rightarrow> ('a \<Rightarrow> ustr \<Rightarrow> bool) \<Rightarrow> 'a dict" where
  "us_pick_by d kvs iteratee =
    fold (\<lambda>(key, v) result. if iteratee v key then dput key v result else result) kvs []"

text \<open>\<open>pick\<close> with names (those in the object) and with a predicate; \<open>omit\<close> negates.\<close>

definition us_pick :: "'a dict \<Rightarrow> ustr list + ('a \<Rightarrow> ustr \<Rightarrow> bool) \<Rightarrow> 'a dict" where
  "us_pick obj keys = (case keys of
     Inr iteratee \<Rightarrow> us_pick_by obj obj iteratee
   | Inl ks \<Rightarrow> us_pick_by obj (concat (map (\<lambda>k. case dget obj k of Some v \<Rightarrow> [(k, v)] | None \<Rightarrow> []) ks)) (\<lambda>_ _. True))"

definition us_omit :: "'a dict \<Rightarrow> ustr list + ('a \<Rightarrow> ustr \<Rightarrow> bool) \<Rightarrow> 'a dict" where
  "us_omit obj keys = us_pick obj (Inr (case keys of
     Inr iteratee \<Rightarrow> (\<lambda>v k. \<not> iteratee v k) | Inl ks \<Rightarrow> (\<lambda>v k. k \<notin> set ks)))"

text \<open>A missing count, or a call through \<open>map\<close> (the guard), is \<open>None\<close>.\<close>

definition us_initial :: "'a list \<Rightarrow> int option \<Rightarrow> 'a list" where
  "us_initial xs n = slice xs 0 (max 0 (int (length xs) - (case n of None \<Rightarrow> 1 | Some k \<Rightarrow> k)))"

definition us_first_n :: "'a list \<Rightarrow> int \<Rightarrow> 'a list" where
  "us_first_n xs n = (if length xs < 1 then [] else us_initial xs (Some (int (length xs) - n)))"

definition us_first :: "'a list \<Rightarrow> 'a option" where
  "us_first xs = (if length xs < 1 then None else Some (xs ! 0))"

definition us_rest :: "'a list \<Rightarrow> int option \<Rightarrow> 'a list" where
  "us_rest xs n = slice xs (case n of None \<Rightarrow> 1 | Some k \<Rightarrow> k) (int (length xs))"

definition us_last_n :: "'a list \<Rightarrow> int \<Rightarrow> 'a list" where
  "us_last_n xs n = (if length xs < 1 then [] else us_rest xs (Some (max 0 (int (length xs) - n))))"

definition us_last :: "'a list \<Rightarrow> 'a option" where
  "us_last xs = (if length xs < 1 then None else Some (xs ! (length xs - 1)))"

definition us_compact :: "val list \<Rightarrow> val list" where
  "us_compact xs = us_filter (ArrC xs) (\<lambda>v _ _. truthy v)"

section \<open>Sets\<close>

definition contains_by :: "('a \<Rightarrow> 'a \<Rightarrow> bool) \<Rightarrow> 'a list \<Rightarrow> 'a \<Rightarrow> bool" where
  "contains_by eqv xs item = list_ex (\<lambda>x. eqv x item) xs"

definition items :: "'a nested list \<Rightarrow> 'a list" where
  "items vs = concat (map (\<lambda>v. case v of Item x \<Rightarrow> [x] | Arr _ \<Rightarrow> []) vs)"

text \<open>Flattening of an argument list of arrays, one level and strict, keeps the items of the arrays.\<close>

definition flat_args :: "'a list list \<Rightarrow> 'a list" where
  "flat_args xss = items (us_flatten_in (map (\<lambda>xs. Arr (map Item xs)) xss) (DBool True) True)"

definition us_difference :: "('a \<Rightarrow> 'a \<Rightarrow> bool) \<Rightarrow> 'a list \<Rightarrow> 'a list list \<Rightarrow> 'a list" where
  "us_difference eqv xs rest = us_filter (ArrC xs) (\<lambda>value _ _. \<not> contains_by eqv (flat_args rest) value)"

definition us_without :: "('a \<Rightarrow> 'a \<Rightarrow> bool) \<Rightarrow> 'a list \<Rightarrow> 'a list \<Rightarrow> 'a list" where
  "us_without eqv xs otherArrays = us_difference eqv xs [otherArrays]"

fun uniq_plain :: "('a \<Rightarrow> 'a \<Rightarrow> bool) \<Rightarrow> 'a list \<Rightarrow> 'a list \<Rightarrow> 'a list" where
  "uniq_plain eqv result [] = result"
| "uniq_plain eqv result (v # vs) =
    uniq_plain eqv (if \<not> contains_by eqv result v then result @ [v] else result) vs"

fun uniq_sorted :: "('a \<Rightarrow> 'a \<Rightarrow> bool) \<Rightarrow> 'a option \<Rightarrow> 'a list \<Rightarrow> 'a list \<Rightarrow> 'a list" where
  "uniq_sorted eqs seen result [] = result"
| "uniq_sorted eqs seen result (v # vs) =
    uniq_sorted eqs (Some v)
      (case seen of None \<Rightarrow> result @ [v] | Some s \<Rightarrow> if \<not> eqs s v then result @ [v] else result) vs"

fun uniq_by :: "('b \<Rightarrow> 'b \<Rightarrow> bool) \<Rightarrow> ('a \<Rightarrow> 'b) \<Rightarrow> 'b list \<Rightarrow> 'a list \<Rightarrow> 'a list \<Rightarrow> 'a list" where
  "uniq_by eqv f seen result [] = result"
| "uniq_by eqv f seen result (v # vs) =
    (if \<not> contains_by eqv seen (f v) then uniq_by eqv f (seen @ [f v]) (result @ [v]) vs
     else uniq_by eqv f seen result vs)"

text \<open>\<open>uniq\<close> without an iteratee; the sorted form compares neighbours with \<open>===\<close> (\<open>eqs\<close>).\<close>

definition us_uniq :: "('a \<Rightarrow> 'a \<Rightarrow> bool) \<Rightarrow> ('a \<Rightarrow> 'a \<Rightarrow> bool) \<Rightarrow> 'a list \<Rightarrow> bool \<Rightarrow> 'a list" where
  "us_uniq eqs eqv xs isSorted = (if isSorted then uniq_sorted eqs None [] xs else uniq_plain eqv [] xs)"

definition us_uniq_by :: "('b \<Rightarrow> 'b \<Rightarrow> bool) \<Rightarrow> ('a \<Rightarrow> 'b) \<Rightarrow> 'a list \<Rightarrow> 'a list" where
  "us_uniq_by eqv f xs = uniq_by eqv f [] [] xs"

definition us_union :: "('a \<Rightarrow> 'a \<Rightarrow> bool) \<Rightarrow> 'a list list \<Rightarrow> 'a list" where
  "us_union eqv arrays = us_uniq eqv eqv (flat_args arrays) False"

fun intersection_loop :: "('a \<Rightarrow> 'a \<Rightarrow> bool) \<Rightarrow> 'a list list \<Rightarrow> 'a list \<Rightarrow> 'a list \<Rightarrow> 'a list" where
  "intersection_loop eqv others result [] = result"
| "intersection_loop eqv others result (item # rest) =
    (if contains_by eqv result item then intersection_loop eqv others result rest
     else if list_all (\<lambda>ys. contains_by eqv ys item) others
     then intersection_loop eqv others (result @ [item]) rest
     else intersection_loop eqv others result rest)"

definition us_intersection :: "('a \<Rightarrow> 'a \<Rightarrow> bool) \<Rightarrow> 'a list \<Rightarrow> 'a list list \<Rightarrow> 'a list" where
  "us_intersection eqv xs others = intersection_loop eqv others [] xs"

section \<open>Tuples, objects and ranges\<close>

definition us_unzip :: "'a list list \<Rightarrow> 'a option list list" where
  "us_unzip xss = map (\<lambda>index. map (\<lambda>xs. if index < length xs then Some (xs ! index) else None) xss)
     [0..<foldr (\<lambda>xs n. max (length xs) n) xss 0]"

definition us_zip :: "'a list list \<Rightarrow> 'a option list list" where
  "us_zip = us_unzip"

text \<open>\<open>object\<close> from a list of pairs and from two lists; a missing value is \<open>undefined\<close>.\<close>

definition us_object_pairs :: "(ustr \<times> 'a) list \<Rightarrow> 'a dict" where
  "us_object_pairs ps = fold (\<lambda>(k, v) result. dput k v result) ps []"

definition us_object :: "ustr list \<Rightarrow> 'a list \<Rightarrow> 'a option dict" where
  "us_object ks vs = fold (\<lambda>i result. dput (ks ! i) (if i < length vs then Some (vs ! i) else None) result)
     [0..<length ks] []"

definition ceil_div :: "int \<Rightarrow> int \<Rightarrow> int" where
  "ceil_div a b = - ((- a) div b)"

text \<open>\<open>range\<close>: a missing \<open>stop\<close> is \<open>None\<close>, a missing step is zero.\<close>

definition us_range :: "int \<Rightarrow> int option \<Rightarrow> int \<Rightarrow> int list" where
  "us_range start stop step =
    (let (start, stop) = (case stop of None \<Rightarrow> (0, start) | Some s \<Rightarrow> (start, s));
         step = (if step = 0 then (if stop < start then -1 else 1) else step);
         len = max (ceil_div (stop - start) step) 0
     in map (\<lambda>idx. start + int idx * step) [0..<nat len])"

function chunk_loop :: "'a list \<Rightarrow> nat \<Rightarrow> nat \<Rightarrow> 'a list list" where
  "chunk_loop xs n i =
    (if i < length xs \<and> 0 < n then slice xs (int i) (int (i + n)) # chunk_loop xs n (i + n) else [])"
  by pat_completeness auto
termination
  by (relation "measure (\<lambda>(xs, n, i). length xs - i)") auto

declare chunk_loop.simps [simp del]

definition us_chunk :: "'a list \<Rightarrow> int option \<Rightarrow> 'a list list" where
  "us_chunk xs n = (case n of None \<Rightarrow> []
     | Some c \<Rightarrow> if c < 1 then [] else chunk_loop xs (nat c) 0)"

section \<open>Chaining\<close>

text \<open>A wrapped value and its \<open>_chain\<close> flag; a method of the wrapper applies the function to the wrapped
  value and wraps the result again when the wrapper chains.\<close>

record 'a wrapper =
  w_wrapped :: 'a
  w_chain :: bool

definition us_wrap_value :: "'a \<Rightarrow> 'a wrapper" where
  "us_wrap_value x = \<lparr> w_wrapped = x, w_chain = False \<rparr>"

definition us_chain :: "'a \<Rightarrow> 'a wrapper" where
  "us_chain x = (us_wrap_value x) \<lparr> w_chain := True \<rparr>"

definition us_value :: "'a wrapper \<Rightarrow> 'a" where
  "us_value w = w_wrapped w"

definition chainResult :: "'a wrapper \<Rightarrow> 'b \<Rightarrow> 'b + 'b wrapper" where
  "chainResult instance x = (if w_chain instance then Inr (us_chain x) else Inl x)"

definition mixin_method :: "('a \<Rightarrow> 'c list \<Rightarrow> 'b) \<Rightarrow> 'a wrapper \<Rightarrow> 'c list \<Rightarrow> 'b + 'b wrapper" where
  "mixin_method func w args = chainResult w (func (w_wrapped w) args)"

text \<open>The mutators of arrays: a missing array is left alone; what is wrapped again is the array.\<close>

definition mutator_method :: "('a list \<Rightarrow> 'c list \<Rightarrow> 'a list) \<Rightarrow> 'a list option wrapper \<Rightarrow> 'c list \<Rightarrow>
    'a list option + 'a list option wrapper" where
  "mutator_method method w args = chainResult w (map_option (\<lambda>xs. method xs args) (w_wrapped w))"

definition accessor_method :: "('a list \<Rightarrow> 'c list \<Rightarrow> 'b) \<Rightarrow> 'a list option wrapper \<Rightarrow> 'c list \<Rightarrow>
    'b option + 'b option wrapper" where
  "accessor_method method w args = chainResult w (map_option (\<lambda>xs. method xs args) (w_wrapped w))"


section \<open>Lemmas\<close>

fun leaves :: "'a nested \<Rightarrow> 'a list" where
  "leaves (Item x) = [x]"
| "leaves (Arr vs) = concat (map leaves vs)"

lemma flatten_unbounded:
  "flatten_out input None False out = out @ map Item (concat (map leaves input))"
proof (induction "size_list size input" arbitrary: input out rule: less_induct)
  case less
  show ?case
  proof (cases input)
    case Nil
    then show ?thesis by (simp add: flatten_out.simps)
  next
    case (Cons v rest)
    have rest: "flatten_out rest None False o' = o' @ map Item (concat (map leaves rest))" for o'
      by (rule less) (simp add: Cons)
    have "flatten_out input None False out =
        flatten_out rest None False (case v of Arr ws \<Rightarrow> flatten_out ws None False out | Item x \<Rightarrow> out @ [v])"
      unfolding Cons by (subst flatten_out.simps) (simp cong: nested.case_cong)
    also have "(case v of Arr ws \<Rightarrow> flatten_out ws None False out | Item x \<Rightarrow> out @ [v]) = out @ map Item (leaves v)"
    proof (cases v)
      case (Arr ws)
      have "flatten_out ws None False out = out @ map Item (concat (map leaves ws))"
        by (rule less) (simp add: Cons Arr)
      with Arr show ?thesis by simp
    qed simp
    finally show ?thesis by (simp add: rest Cons)
  qed
qed

text \<open>One level: arrays are replaced by their members; the strict form drops the other values.\<close>

lemma flatten_one_level:
  "flatten_out input (Some 1) strict out =
     out @ concat (map (\<lambda>v. case v of Arr ws \<Rightarrow> ws | Item x \<Rightarrow> if strict then [] else [v]) input)"
proof (induction input arbitrary: out)
  case (Cons v input)
  then show ?case by (subst flatten_out.simps) (simp split: nested.split)
qed (simp add: flatten_out.simps)

lemma items_Item [simp]: "items (map Item xs) = xs"
  by (induction xs) (auto simp: items_def)

lemma items_append [simp]: "items (vs @ ws) = items vs @ items ws"
  by (simp add: items_def)

lemma flat_args_concat [simp]: "flat_args xss = concat xss"
proof -
  have "items (concat (map (\<lambda>v. case v of Arr ws \<Rightarrow> ws | Item x \<Rightarrow> []) (map (\<lambda>xs. Arr (map Item xs)) xss))) = concat xss"
    by (induction xss) (auto simp: items_def [of "[]"])
  moreover have "(\<lambda>v. case v of Item x \<Rightarrow> if True then [] else [v] | Arr ws \<Rightarrow> ws) =
      (\<lambda>v :: 'a nested. case v of Arr ws \<Rightarrow> ws | Item x \<Rightarrow> [])"
    by (intro ext) (simp split: nested.split)
  ultimately show ?thesis by (simp only: flat_args_def us_flatten_in_def depth_of_def flatten_one_level
      depth_arg.case if_True append_Nil)
qed

lemma contains_by_eq [simp]: "contains_by (=) xs x \<longleftrightarrow> x \<in> set xs"
  by (auto simp: contains_by_def list_ex_iff)

text \<open>\<open>flatten\<close> without a depth returns the leaves of a nested array in their order; with depth one
  it opens one level.\<close>

theorem flatten_leaves:
  "us_flatten vs DNone = map Item (concat (map leaves vs)) \<and>
   us_flatten vs (DBool False) = us_flatten vs DNone \<and>
   us_flatten vs (DBool True) = concat (map (\<lambda>v. case v of Arr ws \<Rightarrow> ws | Item x \<Rightarrow> [v]) vs) \<and>
   us_flatten vs (DNum 1) = us_flatten vs (DBool True)"
proof -
  have "(\<lambda>v. case v of Arr ws \<Rightarrow> ws | Item x \<Rightarrow> if False then [] else [v]) =
      (\<lambda>v :: 'a nested. case v of Arr ws \<Rightarrow> ws | Item x \<Rightarrow> [v])"
    by (intro ext) (simp split: nested.split)
  then show ?thesis
    by (simp only: us_flatten_def us_flatten_in_def depth_of_def flatten_unbounded flatten_one_level
        depth_arg.case if_True if_False append_Nil simp_thms)
qed

section \<open>Sets\<close>

lemma uniq_plain_eq:
  "distinct res \<Longrightarrow> uniq_plain (=) res xs = res @ filter (\<lambda>x. x \<notin> set res) (uniq_plain (=) [] xs)
     \<and> distinct (uniq_plain (=) res xs) \<and> set (uniq_plain (=) res xs) = set res \<union> set xs"
proof (induction xs arbitrary: res)
  case (Cons x xs)
  have n: "uniq_plain (=) [] (x # xs) = [x] @ filter (\<lambda>y. y \<notin> {x}) (uniq_plain (=) [] xs)"
    using Cons.IH [of "[x]"] by simp
  show ?case
  proof (cases "x \<in> set res")
    case True
    have "filter (\<lambda>y. y \<notin> set res) (filter (\<lambda>y. y \<noteq> x) ys) = filter (\<lambda>y. y \<notin> set res) ys" for ys
      using True by (induction ys) auto
    then have f: "filter (\<lambda>y. y \<notin> set res) (uniq_plain (=) [] (x # xs)) = filter (\<lambda>y. y \<notin> set res) (uniq_plain (=) [] xs)"
      unfolding n using True by simp
    have e: "uniq_plain (=) res (x # xs) = uniq_plain (=) res xs" using True by simp
    have "set res \<union> set (x # xs) = set res \<union> set xs" using True by auto
    then show ?thesis unfolding e f using Cons.IH [OF Cons.prems] by metis
  next
    case False
    have "filter (\<lambda>y. y \<notin> set (res @ [x])) ys = filter (\<lambda>y. y \<notin> set res) (filter (\<lambda>y. y \<noteq> x) ys)" for ys
      by (induction ys) auto
    then have f: "filter (\<lambda>y. y \<notin> set res) (uniq_plain (=) [] (x # xs)) = x # filter (\<lambda>y. y \<notin> set (res @ [x])) (uniq_plain (=) [] xs)"
      unfolding n using False by simp
    have "distinct (res @ [x])" using Cons.prems False by simp
    note IH = Cons.IH [OF this]
    have e: "uniq_plain (=) res (x # xs) = uniq_plain (=) (res @ [x]) xs" using False by simp
    have s: "set (res @ [x]) \<union> set xs = set res \<union> set (x # xs)" by auto
    have "uniq_plain (=) (res @ [x]) xs = res @ x # filter (\<lambda>y. y \<notin> set (res @ [x])) (uniq_plain (=) [] xs)"
      using IH by (metis append.assoc append_Cons append_Nil)
    then show ?thesis unfolding e f using IH s by metis
  qed
qed simp

lemma uniq_props: "distinct (us_uniq eqs (=) xs False) \<and> set (us_uniq eqs (=) xs False) = set xs"
  using uniq_plain_eq [of "[]" xs] by (simp add: us_uniq_def)

lemma intersection_loop_props:
  "distinct res \<Longrightarrow> distinct (intersection_loop (=) others res xs) \<and>
   set (intersection_loop (=) others res xs) = set res \<union> {x \<in> set xs. \<forall>ys \<in> set others. x \<in> set ys}"
proof (induction xs arbitrary: res)
  case (Cons x xs)
  show ?case
  proof (cases "x \<in> set res")
    case True
    with Cons show ?thesis by auto
  next
    case False
    show ?thesis
    proof (cases "\<forall>ys \<in> set others. x \<in> set ys")
      case in_all: True
      then have "list_all (\<lambda>ys. contains_by (=) ys x) others" by (simp add: list_all_iff)
      with False in_all Cons.IH [of "res @ [x]"] Cons.prems show ?thesis by auto
    next
      case not_all: False
      then have "\<not> list_all (\<lambda>ys. contains_by (=) ys x) others" by (simp add: list_all_iff)
      moreover have "{y \<in> set (x # xs). \<forall>ys \<in> set others. y \<in> set ys} = {y \<in> set xs. \<forall>ys \<in> set others. y \<in> set ys}"
        using not_all by auto
      ultimately show ?thesis using False Cons.IH [OF Cons.prems] by simp
    qed
  qed
qed simp

lemma difference_eq: "us_difference (=) xs yss = filter (\<lambda>x. \<forall>ys \<in> set yss. x \<notin> set ys) xs"
proof -
  have "us_difference (=) xs yss = filter (\<lambda>x. x \<notin> set (concat yss)) xs"
    by (simp add: us_difference_def us_filter_eq coll_values_def)
  then show ?thesis by simp
qed

text \<open>On arrays as sets, \<open>union\<close>, \<open>intersection\<close> and \<open>difference\<close> are the operations of the same
  names, and no value is in the result of the first two twice.\<close>

theorem set_operations:
  "distinct (us_union (=) xss) \<and> set (us_union (=) xss) = (\<Union>xs \<in> set xss. set xs) \<and>
   distinct (us_intersection (=) xs yss) \<and>
   set (us_intersection (=) xs yss) = set xs \<inter> (\<Inter>ys \<in> set yss. set ys) \<and>
   set (us_difference (=) xs yss) = set xs - (\<Union>ys \<in> set yss. set ys)"
  using uniq_props [of "(=)" "concat xss"] intersection_loop_props [of "[]" yss xs]
  by (auto simp: us_union_def us_intersection_def difference_eq)

section \<open>Chunks\<close>

lemma slice_nat: "i \<le> j \<Longrightarrow> slice xs (int i) (int j) = take (j - i) (drop i xs)"
proof -
  assume ij: "i \<le> j"
  have "slice_idx (length xs) (int k) = min (length xs) k" for k by (simp add: slice_idx_def)
  then show ?thesis using ij
    by (cases "i \<le> length xs"; cases "j \<le> length xs") (simp_all add: slice_def substring_def)
qed

lemma chunk_loop_props:
  "0 < n \<Longrightarrow> concat (chunk_loop xs n i) = drop i xs \<and>
     (\<forall>c \<in> set (chunk_loop xs n i). c \<noteq> [] \<and> length c \<le> n) \<and>
     (\<forall>c \<in> set (butlast (chunk_loop xs n i)). length c = n)"
proof (induction xs n i rule: chunk_loop.induct)
  case (1 xs n i)
  show ?case
  proof (cases "i < length xs")
    case True
    then have e: "chunk_loop xs n i = take n (drop i xs) # chunk_loop xs n (i + n)"
      using 1(2) by (subst chunk_loop.simps) (simp add: slice_nat del: of_nat_add)
    have IH: "concat (chunk_loop xs n (i + n)) = drop (i + n) xs"
      "\<forall>c \<in> set (chunk_loop xs n (i + n)). c \<noteq> [] \<and> length c \<le> n"
      "\<forall>c \<in> set (butlast (chunk_loop xs n (i + n))). length c = n"
      using 1(1) True 1(2) by auto
    have "concat (chunk_loop xs n i) = drop i xs"
      unfolding e using IH(1) append_take_drop_id [of n "drop i xs"] by (simp add: add.commute)
    moreover have "\<forall>c \<in> set (chunk_loop xs n i). c \<noteq> [] \<and> length c \<le> n"
      unfolding e using IH(2) True 1(2) by simp
    moreover have "\<forall>c \<in> set (butlast (chunk_loop xs n i)). length c = n"
    proof (cases "i + n < length xs")
      case True
      then have "length (take n (drop i xs)) = n" by simp
      with IH(3) show ?thesis unfolding e by simp
    next
      case False
      then have "chunk_loop xs n (i + n) = []" by (subst chunk_loop.simps) simp
      then show ?thesis unfolding e by simp
    qed
    ultimately show ?thesis by blast
  next
    case False
    then have "chunk_loop xs n i = []" by (subst chunk_loop.simps) simp
    with False show ?thesis by simp
  qed
qed

text \<open>\<open>chunk\<close> splits an array into consecutive parts: together they are the array, none is empty, and
  all but the last have the size asked for.\<close>

theorem chunk_parts:
  assumes "1 \<le> n"
  shows "concat (us_chunk xs (Some n)) = xs \<and>
    (\<forall>c \<in> set (us_chunk xs (Some n)). c \<noteq> [] \<and> int (length c) \<le> n) \<and>
    (\<forall>c \<in> set (butlast (us_chunk xs (Some n))). int (length c) = n)"
  using chunk_loop_props [of "nat n" xs 0] assms by (auto simp: us_chunk_def)

theorem chunk_parts_witness:
  "us_chunk [1, 2, 3, 4, 5 :: nat] (Some 2) = [[1, 2], [3, 4], [5]] \<and>
   concat (us_chunk [1, 2, 3, 4, 5 :: nat] (Some 2)) = [1, 2, 3, 4, 5]"
proof -
  have "us_chunk [1, 2, 3, 4, 5 :: nat] (Some 2) = [[1, 2], [3, 4], [5]]" by code_simp
  with chunk_parts [of 2 "[1, 2, 3, 4, 5 :: nat]"] show ?thesis by simp
qed

section \<open>Objects and ranges\<close>

lemma object_pairs: "distinct (map fst d) \<Longrightarrow> us_object_pairs d = d"
proof (induction d rule: rev_induct)
  case (snoc p d)
  obtain k v where p: "p = (k, v)" by (cases p)
  from snoc have "us_object_pairs d = d" "k \<notin> fst ` set d" by (auto simp: p)
  then show ?case by (simp add: us_object_pairs_def p dput_new)
qed (simp add: us_object_pairs_def)

lemma le_div_iff: "0 < (m :: int) \<Longrightarrow> k \<le> a div m \<longleftrightarrow> k * m \<le> a"
proof
  assume m: "0 < m" and "k \<le> a div m"
  then have "k * m \<le> a div m * m" by (simp add: mult_right_mono)
  also have "\<dots> \<le> a" using m pos_mod_sign [of m a] div_mult_mod_eq [of a m] by linarith
  finally show "k * m \<le> a" .
next
  assume m: "0 < m" and "k * m \<le> a"
  then have "k * m div m \<le> a div m" by (intro zdiv_mono1)
  with m show "k \<le> a div m" by simp
qed

text \<open>The elements of a range are the values from \<open>start\<close> in steps that are before \<open>stop\<close>.\<close>

lemma range_up:
  assumes "0 < step"
  shows "x \<in> set (us_range start (Some stop) step) \<longleftrightarrow> (\<exists>k. 0 \<le> k \<and> x = start + k * step \<and> x < stop)"
proof -
  have c: "idx < ceil_div a step \<longleftrightarrow> idx * step < a" for idx a
  proof -
    have "idx < ceil_div a step \<longleftrightarrow> (- a) div step < - idx" by (auto simp: ceil_div_def)
    also have "\<dots> \<longleftrightarrow> \<not> - idx \<le> (- a) div step" by linarith
    also have "- idx \<le> (- a) div step \<longleftrightarrow> - idx * step \<le> - a" by (rule le_div_iff [OF assms])
    finally show ?thesis by linarith
  qed
  have "x \<in> set (us_range start (Some stop) step) \<longleftrightarrow>
      (\<exists>k. 0 \<le> k \<and> k < ceil_div (stop - start) step \<and> x = start + k * step)"
  proof
    assume "x \<in> set (us_range start (Some stop) step)"
    then have "x \<in> (\<lambda>idx. start + int idx * step) ` {..<nat (max (ceil_div (stop - start) step) 0)}"
      using assms by (simp add: us_range_def Let_def lessThan_atLeast0)
    then obtain n where n: "n < nat (max (ceil_div (stop - start) step) 0)" "x = start + int n * step" by blast
    then show "\<exists>k. 0 \<le> k \<and> k < ceil_div (stop - start) step \<and> x = start + k * step"
      by (intro exI [of _ "int n"]) auto
  next
    assume "\<exists>k. 0 \<le> k \<and> k < ceil_div (stop - start) step \<and> x = start + k * step"
    then obtain k where "0 \<le> k" "k < ceil_div (stop - start) step" "x = start + k * step" by blast
    then show "x \<in> set (us_range start (Some stop) step)"
      using assms by (auto simp: us_range_def Let_def image_iff intro!: bexI [of _ "nat k"])
  qed
  moreover have "k < ceil_div (stop - start) step \<and> x = start + k * step \<longleftrightarrow> x = start + k * step \<and> x < stop" for k
    unfolding c by (metis add.commute less_diff_eq)
  ultimately show ?thesis by simp
qed

end
