(* ===== verification/UsFunction.thy ===== *)
theory UsFunction
  imports UsArray
begin

text \<open>
  The function utilities of Underscore (lines 935 to 1214): properties that may be methods, unique
  ids, partial application and binding, \<open>memoize\<close>, timers, \<open>throttle\<close>, \<open>debounce\<close>, and the
  functions that count their calls.  A function of the program is a function of its arguments, with
  the heap threaded where it matters; the variables a closure shares between its calls are a state
  record.  Time is an integer read from the clock; a timer is kept as the earliest time it can fire.
  The wrapped functions do not call their own wrappers.
\<close>

section \<open>Properties and ids\<close>

text \<open>\<open>call f x\<close> is the value a function value \<open>f\<close> returns with \<open>x\<close> as \<open>this\<close>.\<close>

fun result_loop :: "heap \<Rightarrow> (val \<Rightarrow> val \<Rightarrow> val) \<Rightarrow> val \<Rightarrow> val \<Rightarrow> ustr list \<Rightarrow> val" where
  "result_loop h call fallback obj [] = obj"
| "result_loop h call fallback obj (k # ks) =
    (let prop = (if loose_null obj then Undef else get_prop h obj k)
     in if strict_eq prop Undef then (if isFunction h fallback then call fallback obj else fallback)
        else result_loop h call fallback (if isFunction h prop then call prop obj else prop) ks)"

definition us_result :: "heap \<Rightarrow> (val \<Rightarrow> val \<Rightarrow> val) \<Rightarrow> val \<Rightarrow> ustr + ustr list \<Rightarrow> val \<Rightarrow> val" where
  "us_result h call obj path fallback =
    (if toPath path = [] then (if isFunction h fallback then call fallback obj else fallback)
     else result_loop h call fallback obj (toPath path))"

definition uniqueId :: "nat \<Rightarrow> ustr \<Rightarrow> nat \<times> ustr" where
  "uniqueId idCounter pre =
    (let idCounter' = idCounter + 1; i = dec_nat idCounter'
     in (idCounter', if pre \<noteq> [] then pre @ i else i))"

section \<open>Binding\<close>

type_synonym jsfun = "heap \<Rightarrow> val \<Rightarrow> val list \<Rightarrow> heap \<times> val"

text \<open>\<open>constructing\<close>: the bound function is called with \<open>new\<close>.\<close>

definition executeBound :: "heap \<Rightarrow> jsfun \<Rightarrow> val \<Rightarrow> bool \<Rightarrow> val \<Rightarrow> val list \<Rightarrow> heap \<times> val" where
  "executeBound h sourceFunc prototype constructing context args =
    (if \<not> constructing then sourceFunc h context args
     else case baseCreate h prototype of (h1, self) \<Rightarrow>
       (case sourceFunc h1 self args of (h2, res) \<Rightarrow> if isObject h2 res then (h2, res) else (h2, self)))"

text \<open>The arguments of \<open>partial\<close>; a placeholder is \<open>None\<close> and takes the next argument of the call.\<close>

fun partial_args :: "val option list \<Rightarrow> val list \<Rightarrow> val list" where
  "partial_args [] args = args"
| "partial_args (Some a # bs) args = a # partial_args bs args"
| "partial_args (None # bs) [] = Undef # partial_args bs []"
| "partial_args (None # bs) (a # args) = a # partial_args bs args"

definition us_partial :: "jsfun \<Rightarrow> val \<Rightarrow> val option list \<Rightarrow> heap \<Rightarrow> bool \<Rightarrow> val \<Rightarrow> val list \<Rightarrow> heap \<times> val" where
  "us_partial func prototype boundArgs h constructing self args =
    executeBound h func prototype constructing self (partial_args boundArgs args)"

datatype us_error = TypeError | EvalError

definition us_bind :: "jsfun option \<Rightarrow> val \<Rightarrow> val \<Rightarrow> val list \<Rightarrow> us_error + (heap \<Rightarrow> bool \<Rightarrow> val list \<Rightarrow> heap \<times> val)" where
  "us_bind func prototype context args = (case func of None \<Rightarrow> Inl TypeError
     | Some f \<Rightarrow> Inr (\<lambda>h constructing callArgs. executeBound h f prototype constructing context (args @ callArgs)))"

text \<open>\<open>bindAll\<close> binds from the last name to the first; \<open>bind\<close> is what \<open>bind(obj[key], obj)\<close> returns for
  the method, \<open>None\<close> when it throws.\<close>

fun bind_keys :: "('f option \<Rightarrow> us_error + 'f) \<Rightarrow> 'f dict \<Rightarrow> ustr list \<Rightarrow> us_error + 'f dict" where
  "bind_keys bind obj [] = Inr obj"
| "bind_keys bind obj (key # keys) = (case bind (dget obj key) of
     Inl e \<Rightarrow> Inl e | Inr f \<Rightarrow> bind_keys bind (dput key f obj) keys)"

definition us_bindAll :: "('f option \<Rightarrow> us_error + 'f) \<Rightarrow> 'f dict \<Rightarrow> ustr nested list \<Rightarrow> us_error + 'f dict" where
  "us_bindAll bind obj keys =
    (let ks = items (us_flatten_in keys (DBool False) False)
     in if length ks < 1 then Inl EvalError else bind_keys bind obj (rev ks))"

section \<open>Memoization and timers\<close>

text \<open>The cache of a memoized function, and the calls of the original function so far.\<close>

record ('a, 'b) memo =
  m_cache :: "'b dict"
  m_calls :: "'a list"

definition us_memoize :: "('a \<Rightarrow> 'b) \<Rightarrow> ('a \<Rightarrow> ustr) \<Rightarrow> ('a, 'b) memo \<Rightarrow> 'a \<Rightarrow> ('a, 'b) memo \<times> 'b" where
  "us_memoize func hasher st args =
    (let address = hasher args;
         st' = (if dget (m_cache st) address = None
                then st \<lparr> m_cache := dput address (func args) (m_cache st), m_calls := m_calls st @ [args] \<rparr>
                else st)
     in (st', the (dget (m_cache st') address)))"

text \<open>\<open>delay\<close> and \<open>defer\<close>: a timer and the arguments it passes on.\<close>

definition us_delay :: "int \<Rightarrow> int \<Rightarrow> 'a list \<Rightarrow> int \<times> 'a list" where
  "us_delay now wait args = (now + wait, args)"

definition us_defer :: "int \<Rightarrow> 'a list \<Rightarrow> int \<times> 'a list" where
  "us_defer now args = us_delay now 1 args"

section \<open>Throttling\<close>

text \<open>The variables of \<open>throttle\<close> and the calls of the wrapped function, with their times.\<close>

record 'a throttle =
  t_previous :: int
  t_timeout :: "int option"
  t_args :: "'a option"
  t_log :: "(int \<times> 'a) list"

record t_options =
  leading :: bool
  trailing :: bool

definition throttle_init :: "'a throttle" where
  "throttle_init = \<lparr> t_previous = 0, t_timeout = None, t_args = None, t_log = [] \<rparr>"

text \<open>\<open>result = func.apply(context, args); if (!timeout) context = args = null;\<close>\<close>

definition throttle_apply :: "int \<Rightarrow> 'a throttle \<Rightarrow> 'a throttle" where
  "throttle_apply now st =
    (let st' = (case t_args st of Some a \<Rightarrow> st \<lparr> t_log := t_log st @ [(now, a)] \<rparr> | None \<Rightarrow> st)
     in if t_timeout st' = None then st' \<lparr> t_args := None \<rparr> else st')"

definition throttle_later :: "t_options \<Rightarrow> int \<Rightarrow> 'a throttle \<Rightarrow> 'a throttle" where
  "throttle_later opt now st =
    throttle_apply now (st \<lparr> t_previous := (if \<not> leading opt then 0 else now), t_timeout := None \<rparr>)"

definition throttled :: "int \<Rightarrow> t_options \<Rightarrow> int \<Rightarrow> 'a \<Rightarrow> 'a throttle \<Rightarrow> 'a throttle" where
  "throttled wait opt now args st =
    (let st = (if t_previous st = 0 \<and> \<not> leading opt then st \<lparr> t_previous := now \<rparr> else st);
         remaining = wait - (now - t_previous st);
         st = st \<lparr> t_args := Some args \<rparr>
     in if remaining \<le> 0 \<or> remaining > wait
        then throttle_apply now (st \<lparr> t_timeout := None, t_previous := now \<rparr>)
        else if t_timeout st = None \<and> trailing opt then st \<lparr> t_timeout := Some (now + remaining) \<rparr>
        else st)"

definition throttle_cancel :: "'a throttle \<Rightarrow> 'a throttle" where
  "throttle_cancel st = st \<lparr> t_previous := 0, t_timeout := None, t_args := None \<rparr>"

text \<open>Runs: calls and timers at times that do not decrease; a timer does not fire early.\<close>

inductive throttle_run :: "int \<Rightarrow> t_options \<Rightarrow> int \<Rightarrow> 'a throttle \<Rightarrow> bool" for wait opt where
  Start: "0 < now \<Longrightarrow> throttle_run wait opt now throttle_init"
| Call: "throttle_run wait opt t st \<Longrightarrow> t \<le> now \<Longrightarrow> throttle_run wait opt now (throttled wait opt now args st)"
| Fire: "throttle_run wait opt t st \<Longrightarrow> t \<le> now \<Longrightarrow> t_timeout st = Some due \<Longrightarrow> due \<le> now \<Longrightarrow>
    throttle_run wait opt now (throttle_later opt now st)"

section \<open>Debouncing\<close>

record 'a debounce =
  d_timeout :: "int option"
  d_previous :: int
  d_args :: "'a option"
  d_log :: "(int \<times> 'a) list"

definition debounce_init :: "'a debounce" where
  "debounce_init = \<lparr> d_timeout = None, d_previous = 0, d_args = None, d_log = [] \<rparr>"

definition debounce_apply :: "int \<Rightarrow> 'a debounce \<Rightarrow> 'a debounce" where
  "debounce_apply now st = (case d_args st of Some a \<Rightarrow> st \<lparr> d_log := d_log st @ [(now, a)] \<rparr> | None \<Rightarrow> st)"

definition debounce_later :: "int \<Rightarrow> bool \<Rightarrow> int \<Rightarrow> 'a debounce \<Rightarrow> 'a debounce" where
  "debounce_later wait immediate now st =
    (let passed = now - d_previous st
     in if wait > passed then st \<lparr> d_timeout := Some (now + (wait - passed)) \<rparr>
        else (let st = st \<lparr> d_timeout := None \<rparr>;
                  st = (if \<not> immediate then debounce_apply now st else st)
              in if d_timeout st = None then st \<lparr> d_args := None \<rparr> else st))"

definition debounced :: "int \<Rightarrow> bool \<Rightarrow> int \<Rightarrow> 'a \<Rightarrow> 'a debounce \<Rightarrow> 'a debounce" where
  "debounced wait immediate now args st =
    (let st = st \<lparr> d_args := Some args, d_previous := now \<rparr>
     in if d_timeout st = None
        then (let st = st \<lparr> d_timeout := Some (now + wait) \<rparr>
              in if immediate then debounce_apply now st else st)
        else st)"

definition debounce_cancel :: "'a debounce \<Rightarrow> 'a debounce" where
  "debounce_cancel st = st \<lparr> d_timeout := None, d_args := None \<rparr>"

text \<open>Runs, with the calls of the debounced function so far, the latest first.\<close>

inductive debounce_run :: "int \<Rightarrow> bool \<Rightarrow> int \<Rightarrow> (int \<times> 'a) list \<Rightarrow> 'a debounce \<Rightarrow> bool" for wait immediate where
  Start: "debounce_run wait immediate now [] debounce_init"
| Call: "debounce_run wait immediate t calls st \<Longrightarrow> t \<le> now \<Longrightarrow>
    debounce_run wait immediate now ((now, args) # calls) (debounced wait immediate now args st)"
| Fire: "debounce_run wait immediate t calls st \<Longrightarrow> t \<le> now \<Longrightarrow> d_timeout st = Some due \<Longrightarrow> due \<le> now \<Longrightarrow>
    debounce_run wait immediate now calls (debounce_later wait immediate now st)"

section \<open>Combinators\<close>

definition us_wrap :: "('f \<Rightarrow> 'a list \<Rightarrow> 'b) \<Rightarrow> 'f \<Rightarrow> 'a list \<Rightarrow> 'b" where
  "us_wrap wrapper func = wrapper func"

fun compose_loop :: "('a \<Rightarrow> 'a) list \<Rightarrow> 'a \<Rightarrow> 'a" where
  "compose_loop [] res = res"
| "compose_loop (f # fs) res = compose_loop fs (f res)"

text \<open>The last function gets the arguments of the call, the others the result so far.\<close>

definition us_compose :: "('a \<Rightarrow> 'a) list \<Rightarrow> ('b \<Rightarrow> 'a) \<Rightarrow> 'b \<Rightarrow> 'a" where
  "us_compose fs start args = compose_loop (rev fs) (start args)"

text \<open>\<open>after\<close> and \<open>before\<close>: the counter, the remembered result, and the calls let through.\<close>

definition us_after :: "int \<Rightarrow> int \<times> bool" where
  "us_after n = (let n = n - 1 in (n, n < 1))"

record ('a, 'b) before =
  b_times :: int
  b_func :: "('a \<Rightarrow> 'b) option"
  b_memo :: "'b option"
  b_calls :: "'a list"

definition before_init :: "int \<Rightarrow> ('a \<Rightarrow> 'b) \<Rightarrow> ('a, 'b) before" where
  "before_init n func = \<lparr> b_times = n, b_func = Some func, b_memo = None, b_calls = [] \<rparr>"

definition us_before :: "('a, 'b) before \<Rightarrow> 'a \<Rightarrow> ('a, 'b) before \<times> 'b option" where
  "us_before st args =
    (let st = st \<lparr> b_times := b_times st - 1 \<rparr>;
         st = (if b_times st > 0
               then (case b_func st of Some f \<Rightarrow> st \<lparr> b_memo := Some (f args), b_calls := b_calls st @ [args] \<rparr>
                     | None \<Rightarrow> st)
               else st);
         st = (if b_times st \<le> 1 then st \<lparr> b_func := None \<rparr> else st)
     in (st, b_memo st))"

definition once_init :: "('a \<Rightarrow> 'b) \<Rightarrow> ('a, 'b) before" where
  "once_init = before_init 2"

fun before_run :: "('a, 'b) before \<Rightarrow> 'a list \<Rightarrow> ('a, 'b) before \<times> 'b option list" where
  "before_run st [] = (st, [])"
| "before_run st (a # as) = (case us_before st a of (st', r) \<Rightarrow>
     (case before_run st' as of (st'', rs) \<Rightarrow> (st'', r # rs)))"

section \<open>Throttling: the window\<close>

definition throttle_inv :: "int \<Rightarrow> t_options \<Rightarrow> int \<Rightarrow> 'a throttle \<Rightarrow> bool" where
  "throttle_inv wait opt now st \<longleftrightarrow>
     0 < now \<and> t_previous st \<le> now \<and>
     sorted_wrt (\<lambda>a b. fst a + wait \<le> fst b) (t_log st) \<and>
     (trailing opt \<and> t_args st \<noteq> None \<longrightarrow> t_timeout st \<noteq> None) \<and>
     (t_timeout st \<noteq> None \<longrightarrow> t_args st \<noteq> None) \<and>
     (\<forall>e \<in> set (t_log st). fst e \<le> now) \<and>
     (t_log st \<noteq> [] \<longrightarrow>
        (if t_previous st = 0 then \<not> leading opt \<and> t_timeout st = None
         else (\<forall>e \<in> set (t_log st). fst e \<le> t_previous st) \<and>
           (\<forall>due. t_timeout st = Some due \<longrightarrow> t_previous st + wait \<le> due)))"

lemma sorted_wrt_snoc_log:
  "sorted_wrt (\<lambda>a b. fst a + wait \<le> fst b) es \<Longrightarrow> \<forall>e \<in> set es. fst e + wait \<le> (now :: int) \<Longrightarrow>
    sorted_wrt (\<lambda>a b. fst a + wait \<le> fst b) (es @ [(now, a)])"
  by (simp add: sorted_wrt_append)

lemma throttled_inv:
  assumes i: "throttle_inv wait opt t st" and t: "t \<le> now"
  shows "throttle_inv wait opt now (throttled wait opt now args st)"
proof -
  let ?p = "if t_previous st = 0 \<and> \<not> leading opt then now else t_previous st"
  let ?r = "wait - (now - ?p)"
  have now: "0 < now" using i t by (simp add: throttle_inv_def)
  have p: "?p \<le> now" using i t by (auto simp: throttle_inv_def)
  show ?thesis
  proof (cases "?r \<le> 0 \<or> ?r > wait")
    case True
    then have r: "?p + wait \<le> now" using p by auto
    have "throttled wait opt now args st =
        st \<lparr> t_previous := now, t_timeout := None, t_args := None, t_log := t_log st @ [(now, args)] \<rparr>"
      using True by (auto simp: throttled_def throttle_apply_def Let_def)
    moreover have "\<forall>e \<in> set (t_log st). fst e + wait \<le> now"
    proof
      fix e assume e: "e \<in> set (t_log st)"
      then have "t_log st \<noteq> []" by auto
      with i e r show "fst e + wait \<le> now" using now t
        by (cases "t_previous st = 0") (fastforce simp: throttle_inv_def split: if_splits)+
    qed
    ultimately show ?thesis using i t now by (auto simp: throttle_inv_def sorted_wrt_snoc_log)
  next
    case False
    have "throttled wait opt now args st = st \<lparr> t_previous := ?p, t_args := Some args,
        t_timeout := (if t_timeout st = None \<and> trailing opt then Some (now + ?r) else t_timeout st) \<rparr>"
      using False by (auto simp: throttled_def Let_def)
    moreover have "now + ?r = ?p + wait" by simp
    ultimately show ?thesis using i t now p by (auto simp: throttle_inv_def split: if_splits)
  qed
qed

lemma throttle_later_inv:
  assumes i: "throttle_inv wait opt t st" and t: "t \<le> now" and d: "t_timeout st = Some due" "due \<le> now"
  shows "throttle_inv wait opt now (throttle_later opt now st)"
proof -
  obtain a where a: "t_args st = Some a" using i d by (auto simp: throttle_inv_def)
  have l: "throttle_later opt now st = st \<lparr> t_previous := (if \<not> leading opt then 0 else now), t_timeout := None,
      t_args := None, t_log := t_log st @ [(now, a)] \<rparr>"
    using a by (simp add: throttle_later_def throttle_apply_def Let_def)
  have "\<forall>e \<in> set (t_log st). fst e + wait \<le> now"
  proof
    fix e assume e: "e \<in> set (t_log st)"
    then have "t_log st \<noteq> []" by auto
    with i e d show "fst e + wait \<le> now" by (fastforce simp: throttle_inv_def split: if_splits)
  qed
  then show ?thesis unfolding l using i t by (auto simp: throttle_inv_def sorted_wrt_snoc_log)
qed

text \<open>C20: As long as it is not cancelled, the calls a throttled function lets through are at least \<open>wait\<close> apart, whatever the
  options, and with the trailing edge enabled no arguments are dropped: while some are held back, a
  timer is set that will pass them on.\<close>

theorem throttle_window:
  assumes "throttle_run wait opt now st"
  shows "sorted_wrt (\<lambda>a b. fst a + wait \<le> fst b) (t_log st) \<and>
    (trailing opt \<and> t_args st \<noteq> None \<longrightarrow> t_timeout st \<noteq> None)"
proof -
  from assms have "throttle_inv wait opt now st"
  proof (induction rule: throttle_run.induct)
    case (Start now)
    then show ?case by (simp add: throttle_inv_def throttle_init_def)
  next
    case (Call t st now args)
    from throttled_inv [OF Call.IH Call.hyps(2)] show ?case .
  next
    case (Fire t st now due)
    from throttle_later_inv [OF Fire.IH Fire.hyps(2,3,4)] show ?case .
  qed
  then show ?thesis by (simp add: throttle_inv_def)
qed

theorem throttle_window_witness:
  "map fst (t_log (throttle_later \<lparr> leading = True, trailing = True \<rparr> 1100
     (throttled 100 \<lparr> leading = True, trailing = True \<rparr> 1050 (2 :: nat)
       (throttled 100 \<lparr> leading = True, trailing = True \<rparr> 1000 1 throttle_init)))) = [1000, 1100] \<and>
   sorted_wrt (\<lambda>a b. fst a + 100 \<le> fst b) (t_log (throttle_later \<lparr> leading = True, trailing = True \<rparr> 1100
     (throttled 100 \<lparr> leading = True, trailing = True \<rparr> 1050 (2 :: nat)
       (throttled 100 \<lparr> leading = True, trailing = True \<rparr> 1000 1 throttle_init))))"
proof -
  let ?o = "\<lparr> leading = True, trailing = True \<rparr>"
  let ?s = "throttled 100 ?o 1050 (2 :: nat) (throttled 100 ?o 1000 1 throttle_init)"
  have "throttle_run 100 ?o 1050 ?s"
    by (rule throttle_run.Call [where t = 1000], rule throttle_run.Call [where t = 1000], rule throttle_run.Start) simp_all
  moreover have "t_timeout ?s = Some 1100" by code_simp
  ultimately have "throttle_run 100 ?o 1100 (throttle_later ?o 1100 ?s)"
    using throttle_run.Fire [where t = 1050 and now = 1100 and st = ?s and due = 1100] by simp
  from throttle_window [OF this] have "sorted_wrt (\<lambda>a b. fst a + 100 \<le> fst b) (t_log (throttle_later ?o 1100 ?s))"
    by simp
  moreover have "map fst (t_log (throttle_later ?o 1100 ?s)) = [1000, 1100]" by code_simp
  ultimately show ?thesis by simp
qed

section \<open>Debouncing: the quiet period\<close>

definition debounce_inv :: "int \<Rightarrow> int \<Rightarrow> (int \<times> 'a) list \<Rightarrow> 'a debounce \<Rightarrow> bool" where
  "debounce_inv wait now calls st \<longleftrightarrow>
     sorted_wrt (\<lambda>a b. fst b \<le> fst a) calls \<and> (\<forall>c \<in> set calls. fst c \<le> now) \<and>
     (d_args st = None \<longleftrightarrow> d_timeout st = None) \<and>
     (d_args st \<noteq> None \<longrightarrow> calls \<noteq> [] \<and> hd calls = (d_previous st, the (d_args st))) \<and>
     (\<forall>due. d_timeout st = Some due \<longrightarrow> due \<le> d_previous st + wait) \<and>
     (\<forall>e \<in> set (d_log st). \<exists>t0 before later. calls = later @ (t0, snd e) # before \<and> t0 + wait \<le> fst e \<and>
        (\<forall>c \<in> set later. fst e \<le> fst c)) \<and>
     (\<forall>e \<in> set (d_log st). fst e \<le> now)"

lemma debounced_inv:
  assumes i: "debounce_inv wait t calls st" and t: "t \<le> now"
  shows "debounce_inv wait now ((now, a) # calls) (debounced wait False now a st)"
proof -
  have e: "debounced wait False now a st = st \<lparr> d_args := Some a, d_previous := now,
      d_timeout := (case d_timeout st of None \<Rightarrow> Some (now + wait) | Some d \<Rightarrow> Some d) \<rparr>"
    by (simp add: debounced_def Let_def split: option.split)
  have prev: "d_timeout st = Some due \<Longrightarrow> due \<le> now + wait" for due
  proof -
    assume d: "d_timeout st = Some due"
    then have "d_args st \<noteq> None" "due \<le> d_previous st + wait" using i by (auto simp: debounce_inv_def)
    moreover from this have "d_previous st \<le> t" using i by (cases calls) (auto simp: debounce_inv_def)
    ultimately show ?thesis using t by simp
  qed
  have "\<forall>e \<in> set (d_log st). \<exists>t0 before later. (now, a) # calls = later @ (t0, snd e) # before \<and>
      t0 + wait \<le> fst e \<and> (\<forall>c \<in> set later. fst e \<le> fst c)"
  proof
    fix e assume m: "e \<in> set (d_log st)"
    with i obtain t0 before later where o: "calls = later @ (t0, snd e) # before" "t0 + wait \<le> fst e"
        "\<forall>c \<in> set later. fst e \<le> fst c" and "fst e \<le> t"
      by (simp add: debounce_inv_def) blast
    with t have "(now, a) # calls = ((now, a) # later) @ (t0, snd e) # before \<and> t0 + wait \<le> fst e \<and>
        (\<forall>c \<in> set ((now, a) # later). fst e \<le> fst c)" by simp
    then show "\<exists>t0 before later. (now, a) # calls = later @ (t0, snd e) # before \<and>
      t0 + wait \<le> fst e \<and> (\<forall>c \<in> set later. fst e \<le> fst c)" by blast
  qed
  then show ?thesis unfolding e using i t prev
    by (auto simp: debounce_inv_def split: option.splits intro: order_trans)
qed

lemma debounce_later_inv:
  assumes i: "debounce_inv wait t calls st" and t: "t \<le> now" and d: "d_timeout st = Some due"
  shows "debounce_inv wait now calls (debounce_later wait False now st)"
proof -
  obtain a where a: "d_args st = Some a" using i d by (auto simp: debounce_inv_def)
  then obtain cs where cs: "calls = (d_previous st, a) # cs" using i by (cases calls) (auto simp: debounce_inv_def)
  show ?thesis
  proof (cases "wait > now - d_previous st")
    case True
    then have "debounce_later wait False now st = st \<lparr> d_timeout := Some (d_previous st + wait) \<rparr>"
      by (simp add: debounce_later_def Let_def)
    with i t a show ?thesis by (auto simp: debounce_inv_def)
  next
    case False
    then have e: "debounce_later wait False now st =
        st \<lparr> d_timeout := None, d_args := None, d_log := d_log st @ [(now, a)] \<rparr>"
      using a by (simp add: debounce_later_def debounce_apply_def Let_def)
    have "calls = [] @ (d_previous st, snd (now, a)) # cs \<and> d_previous st + wait \<le> fst (now, a) \<and>
        (\<forall>c \<in> set []. fst (now, a) \<le> fst c)"
      using cs False by simp
    then have "\<exists>t0 before later. calls = later @ (t0, snd (now, a)) # before \<and> t0 + wait \<le> fst (now, a) \<and>
        (\<forall>c \<in> set later. fst (now, a) \<le> fst c)" by blast
    then show ?thesis unfolding e using i t by (auto simp: debounce_inv_def)
  qed
qed

text \<open>C21: A debounced function is called only after a quiet period: when it runs at a time, the latest
  call before had its arguments and is at least \<open>wait\<close> back; and while a call is waiting, a timer is set.\<close>

theorem debounce_quiet:
  assumes "debounce_run wait False now calls st"
  shows "(\<forall>e \<in> set (d_log st). \<exists>t0 before later. calls = later @ (t0, snd e) # before \<and> t0 + wait \<le> fst e \<and>
        (\<forall>c \<in> set later. fst e \<le> fst c)) \<and>
    (d_args st \<noteq> None \<longrightarrow> d_timeout st \<noteq> None)"
proof -
  from assms have "debounce_inv wait now calls st"
  proof (induction rule: debounce_run.induct)
    case (Start now)
    then show ?case by (simp add: debounce_inv_def debounce_init_def)
  next
    case (Call t calls st now args)
    from debounced_inv [OF Call.IH Call.hyps(2)] show ?case .
  next
    case (Fire t calls st now due)
    from debounce_later_inv [OF Fire.IH Fire.hyps(2,3)] show ?case .
  qed
  then show ?thesis by (simp add: debounce_inv_def)
qed

theorem debounce_quiet_witness:
  "d_log (debounce_later 100 False 1150 (debounce_later 100 False 1100
     (debounced 100 False 1050 (2 :: nat) (debounced 100 False 1000 1 debounce_init)))) = [(1150, 2)] \<and>
   (\<exists>t0 before later. [(1050, 2), (1000, 1)] = later @ (t0, 2 :: nat) # before \<and> t0 + 100 \<le> (1150 :: int))"
proof -
  let ?s = "debounced 100 False 1050 (2 :: nat) (debounced 100 False 1000 1 debounce_init)"
  let ?s1 = "debounce_later 100 False 1100 ?s"
  let ?s2 = "debounce_later 100 False 1150 ?s1"
  have r: "debounce_run 100 False 1050 [(1050, 2), (1000, 1)] ?s"
    by (rule debounce_run.Call [where t = 1000], rule debounce_run.Call [where t = 1000], rule debounce_run.Start) simp_all
  have t: "d_timeout ?s = Some 1100" "d_timeout ?s1 = Some 1150" "d_log ?s2 = [(1150, 2)]" by code_simp+
  have r1: "debounce_run 100 False 1100 [(1050, 2), (1000, 1)] ?s1"
    by (rule debounce_run.Fire [OF r _ t(1)]) simp_all
  have "debounce_run 100 False 1150 [(1050, 2), (1000, 1)] ?s2"
    by (rule debounce_run.Fire [OF r1 _ t(2)]) simp_all
  from debounce_quiet [OF this] t(3) show ?thesis by auto
qed

section \<open>Calling once\<close>

lemma before_spent: "b_times st \<le> 1 \<Longrightarrow> b_memo (fst (us_before st a)) = b_memo st \<and>
    b_calls (fst (us_before st a)) = b_calls st \<and> b_times (fst (us_before st a)) \<le> 1 \<and>
    snd (us_before st a) = b_memo st"
  by (simp add: us_before_def Let_def)

lemma before_run_spent:
  "b_times st \<le> 1 \<Longrightarrow> b_calls (fst (before_run st as)) = b_calls st \<and>
     snd (before_run st as) = replicate (length as) (b_memo st)"
proof (induction "as" arbitrary: st)
  case (Cons a "as")
  from before_spent [OF Cons.prems, of a] Cons.IH [of "fst (us_before st a)"] show ?case
    by (simp add: case_prod_beta)
qed simp

text \<open>\<open>once\<close>: the function runs for the first call only, whose result every call returns.\<close>

lemma once_once:
  "b_calls (fst (before_run (once_init f) (a # as))) = [a] \<and>
   snd (before_run (once_init f) (a # as)) = replicate (Suc (length as)) (Some (f a))"
proof -
  let ?st = "fst (us_before (once_init f) a)"
  have "b_times ?st \<le> 1 \<and> b_memo ?st = Some (f a) \<and> b_calls ?st = [a] \<and> snd (us_before (once_init f) a) = Some (f a)"
    by (simp add: us_before_def once_init_def before_init_def Let_def)
  with before_run_spent [of ?st "as"] show ?thesis by (simp add: case_prod_beta)
qed

section \<open>Memoizing\<close>

fun memo_run :: "('a \<Rightarrow> 'b) \<Rightarrow> ('a \<Rightarrow> ustr) \<Rightarrow> ('a, 'b) memo \<Rightarrow> 'a list \<Rightarrow> ('a, 'b) memo \<times> 'b list" where
  "memo_run f hs st [] = (st, [])"
| "memo_run f hs st (a # as) = (case us_memoize f hs st a of (st', r) \<Rightarrow>
     (case memo_run f hs st' as of (st'', rs) \<Rightarrow> (st'', r # rs)))"

definition memo_ok :: "('a \<Rightarrow> 'b) \<Rightarrow> ('a \<Rightarrow> ustr) \<Rightarrow> ('a, 'b) memo \<Rightarrow> bool" where
  "memo_ok f hs st \<longleftrightarrow> distinct (map hs (m_calls st)) \<and>
     (\<forall>k. dget (m_cache st) k = map_of (map (\<lambda>a. (hs a, f a)) (m_calls st)) k)"

lemma memoize_ok:
  assumes "memo_ok f hs st"
  shows "memo_ok f hs (fst (us_memoize f hs st a))"
proof (cases "dget (m_cache st) (hs a)")
  case None
  have m: "\<And>k. dget (m_cache st) k = map_of (map (\<lambda>a. (hs a, f a)) (m_calls st)) k"
    and d: "distinct (map hs (m_calls st))" using assms by (simp_all add: memo_ok_def)
  have "map_of (map (\<lambda>a. (hs a, f a)) (m_calls st)) (hs a) = None" using None m by simp
  then have n: "hs a \<notin> hs ` set (m_calls st)" by (simp add: map_of_eq_None_iff image_image)
  have e: "fst (us_memoize f hs st a) =
      st \<lparr> m_cache := dput (hs a) (f a) (m_cache st), m_calls := m_calls st @ [a] \<rparr>"
    using None by (simp add: us_memoize_def Let_def)
  have "dget (dput (hs a) (f a) (m_cache st)) k = map_of (map (\<lambda>a. (hs a, f a)) (m_calls st @ [a])) k" for k
    using None m [of k] m [of "hs a"] by (auto simp: map_add_def split: option.split)
  with d n show ?thesis unfolding e memo_ok_def by simp
qed (use assms in \<open>simp add: us_memoize_def Let_def\<close>)

lemma memoize_value:
  assumes ok: "memo_ok f hs st" and f: "\<forall>x y. hs x = hs y \<longrightarrow> f x = f y"
  shows "snd (us_memoize f hs st a) = f a"
proof (cases "dget (m_cache st) (hs a)")
  case (Some v)
  then have "map_of (map (\<lambda>a. (hs a, f a)) (m_calls st)) (hs a) = Some v" using ok by (simp add: memo_ok_def)
  then obtain b where "hs b = hs a" "v = f b" by (auto dest!: map_of_SomeD)
  with f have "v = f a" by metis
  with Some show ?thesis by (simp add: us_memoize_def Let_def)
qed (simp add: us_memoize_def Let_def)

text \<open>When the hash separates the arguments the function distinguishes, a memoized function returns
  what the function returns, and calls it at most once for a hash.\<close>

theorem memoize_transparent:
  assumes "\<forall>x y. hs x = hs y \<longrightarrow> f x = f y"
  shows "snd (memo_run f hs \<lparr> m_cache = [], m_calls = [] \<rparr> as) = map f as \<and>
    distinct (map hs (m_calls (fst (memo_run f hs \<lparr> m_cache = [], m_calls = [] \<rparr> as))))"
proof -
  have "memo_ok f hs st \<Longrightarrow> snd (memo_run f hs st as) = map f as \<and> memo_ok f hs (fst (memo_run f hs st as))" for st
  proof (induction "as" arbitrary: st)
    case (Cons a "as")
    from Cons.IH [OF memoize_ok [OF Cons.prems]] memoize_value [OF Cons.prems assms] show ?case
      by (simp add: case_prod_beta)
  qed simp
  from this [of "\<lparr> m_cache = [], m_calls = [] \<rparr>"] show ?thesis by (simp add: memo_ok_def)
qed

theorem memoize_transparent_witness:
  "snd (memo_run (\<lambda>n. n * n) dec_nat \<lparr> m_cache = [], m_calls = [] \<rparr> [2, 3, 2]) = [4, 9, 4 :: nat]"
  using memoize_transparent [of dec_nat "\<lambda>n. n * n" "[2, 3, 2]"] by (simp add: dec_nat_inj)

end
