(* ===== verification/UsText.thy ===== *)
theory UsText
  imports UsObject JsRegExp
begin

text \<open>
  The text functions of Underscore (lines 806 to 930): HTML escaping and templates.  The pattern
  \<open>createEscaper\<close> builds is the alternation of the keys of its table, which hold no syntax
  characters of regular expressions.  The compiler of the language, \<open>new Function\<close>, is a parameter
  of \<open>template\<close>; a delimiter is a regular expression with one group, given the number of its group.
\<close>

section \<open>Escaping\<close>

definition createEscaper :: "ustr dict \<Rightarrow> ustr option \<Rightarrow> ustr" where
  "createEscaper m string =
    (let escaper = (\<lambda>c. case dget m (cap c 0) of Some v \<Rightarrow> v | None \<Rightarrow> u ''undefined'');
         source = alts (map fst m);
         s = (case string of None \<Rightarrow> [] | Some s \<Rightarrow> s)
     in if test source s then replace_all source escaper s else s)"

definition escapeMap :: "ustr dict" where
  "escapeMap = [(u ''&'', u ''&amp;''), (u ''<'', u ''&lt;''), (u ''>'', u ''&gt;''),
     ([34], u ''&quot;''), ([39], u ''&#x27;''), ([96], u ''&#x60;'')]"

definition us_escape :: "ustr option \<Rightarrow> ustr" where
  "us_escape = createEscaper escapeMap"

definition unescapeMap :: "ustr dict" where
  "unescapeMap = us_invert escapeMap"

definition us_unescape :: "ustr option \<Rightarrow> ustr" where
  "us_unescape = createEscaper unescapeMap"

section \<open>Templates\<close>

type_synonym delim = "nat \<Rightarrow> re"

text \<open>\<open>[\\s\\S]+?\<close> between an opening and a closing mark.\<close>

definition delim_of :: "ustr \<Rightarrow> delim" where
  "delim_of start n = seqs [lit start, Grp n (Plus False (Cls (\<lambda>_. True))), lit (u ''%>'')]"

text \<open>Settings: a missing entry is \<open>None\<close>, an entry without a pattern \<open>Some None\<close>; the empty name is no
  variable.\<close>

record tsettings =
  t_escape :: "delim option option"
  t_interpolate :: "delim option option"
  t_evaluate :: "delim option option"
  t_variable :: ustr

definition templateSettings :: tsettings where
  "templateSettings = \<lparr> t_escape = Some (Some (delim_of (u ''<%-''))),
     t_interpolate = Some (Some (delim_of (u ''<%=''))),
     t_evaluate = Some (Some (delim_of (u ''<%''))), t_variable = [] \<rparr>"

definition noMatch :: delim where
  "noMatch n = Seq (Grp n Dot) Bol"

definition default_settings :: "tsettings option \<Rightarrow> tsettings" where
  "default_settings settings = (case settings of None \<Rightarrow> templateSettings
     | Some s \<Rightarrow> \<lparr> t_escape = (if t_escape s = None then t_escape templateSettings else t_escape s),
         t_interpolate = (if t_interpolate s = None then t_interpolate templateSettings else t_interpolate s),
         t_evaluate = (if t_evaluate s = None then t_evaluate templateSettings else t_evaluate s),
         t_variable = t_variable s \<rparr>)"

definition delim_source :: "delim option option \<Rightarrow> delim" where
  "delim_source d = (case d of Some (Some r) \<Rightarrow> r | _ \<Rightarrow> noMatch)"

definition template_matcher :: "tsettings \<Rightarrow> re" where
  "template_matcher s = Alt (delim_source (t_escape s) 1)
     (Alt (delim_source (t_interpolate s) 2) (Alt (delim_source (t_evaluate s) 3) Eol))"

definition us_escapes :: "(int \<times> ustr) list" where
  "us_escapes = [(39, [39]), (92, [92]), (13, u ''r''), (10, u ''n''), (8232, u ''u2028''), (8233, u ''u2029'')]"

definition escapeChar :: "int \<Rightarrow> ustr" where
  "escapeChar c = (case dget us_escapes c of Some e \<Rightarrow> 92 # e | None \<Rightarrow> [c])"

definition escape_literal :: "ustr \<Rightarrow> ustr" where
  "escape_literal s = concat (map escapeChar s)"

text \<open>The source a match adds, and the loop over the matches of the template text.\<close>

definition nl :: ustr where "nl = [10]"
definition quote :: ustr where "quote = [39]"

definition match_source :: "caps \<Rightarrow> ustr" where
  "match_source c =
    (if cap c 1 \<noteq> [] then quote @ u ''+'' @ nl @ u ''((__t=('' @ cap c 1 @ u ''))==null?'' @ quote @ quote
         @ u '':_.escape(__t))+'' @ nl @ quote
     else if cap c 2 \<noteq> [] then quote @ u ''+'' @ nl @ u ''((__t=('' @ cap c 2 @ u ''))==null?'' @ quote @ quote
         @ u '':__t)+'' @ nl @ quote
     else if cap c 3 \<noteq> [] then quote @ u '';'' @ nl @ cap c 3 @ nl @ u ''__p+='' @ quote
     else [])"

fun template_body :: "ustr \<Rightarrow> nat \<Rightarrow> (nat \<times> nat \<times> caps) list \<Rightarrow> ustr" where
  "template_body text index [] = []"
| "template_body text index ((offset, stop, c) # ms) =
    escape_literal (slice text (int index) (int offset)) @ match_source c @ template_body text stop ms"

definition template_source :: "ustr \<Rightarrow> tsettings \<Rightarrow> ustr" where
  "template_source text settings =
    (let source = u ''__p+='' @ quote
           @ template_body text 0 (exec_all (Suc (length text)) (template_matcher settings) text 0)
           @ quote @ u '';'' @ nl;
         source = (if t_variable settings = [] then u ''with(obj||{}){'' @ nl @ source @ u ''}'' @ nl else source)
     in u ''var __t,__p='' @ quote @ quote @ u '',__j=Array.prototype.join,''
        @ u ''print=function(){__p+=__j.call(arguments,'' @ quote @ quote @ u '');};'' @ nl
        @ source @ u ''return __p;'' @ nl)"

text \<open>\<open>template\<close>: the compiled function and its source, or the compiler's error with the source.\<close>

definition us_template ::
  "(ustr \<Rightarrow> ustr \<Rightarrow> 'e + 'f) \<Rightarrow> ustr \<Rightarrow> tsettings option \<Rightarrow> tsettings option \<Rightarrow> ('e \<times> ustr) + ('f \<times> ustr)"
where
  "us_template new_function text settings oldSettings =
    (let settings = default_settings (if settings = None then oldSettings else settings);
         source = template_source text settings;
         argument = (if t_variable settings = [] then u ''obj'' else t_variable settings)
     in case new_function argument source of
          Inl e \<Rightarrow> Inl (e, source)
        | Inr render \<Rightarrow> Inr (render, u ''function('' @ argument @ u ''){'' @ nl @ source @ u ''}''))"

section \<open>Alternations of literals\<close>

definition first_key :: "ustr list \<Rightarrow> ustr \<Rightarrow> ustr option" where
  "first_key ws t = List.find (\<lambda>w. starts_with w t) ws"

text \<open>What a global replacement by an alternation of non-empty literals does, as a pass over the
  string.\<close>

fun rep_keys :: "ustr list \<Rightarrow> (ustr \<Rightarrow> ustr) \<Rightarrow> ustr \<Rightarrow> ustr" where
  "rep_keys ws f [] = []"
| "rep_keys ws f (c # t) = (case first_key ws (c # t) of
     Some w \<Rightarrow> f w @ rep_keys ws f (drop (length w - 1) t) | None \<Rightarrow> c # rep_keys ws f t)"

lemma rm_alts:
  assumes "i \<le> length s" "[] \<notin> set ws"
  shows "rm s (alts ws) (i, c) = map (\<lambda>w. (i + length w, c)) (filter (\<lambda>w. starts_with w (drop i s)) ws)"
  using assms(2) by (induction ws) (use assms(1) in \<open>auto simp: alts_def rm_lit\<close>)

lemma hd_filter_find: "List.find p ws = (case filter p ws of [] \<Rightarrow> None | w # _ \<Rightarrow> Some w)"
  by (induction ws) auto

lemma first_key_Some: "first_key ws t = Some w \<Longrightarrow> w \<in> set ws \<and> starts_with w t"
  by (auto simp: first_key_def find_Some_iff)

lemma exec_from_alts:
  assumes "i \<le> length s" "[] \<notin> set ws"
  shows "exec_from (Suc n) (alts ws) s i = (case first_key ws (drop i s) of
    Some w \<Rightarrow> Some (i, i + length w, no_caps(0 := Some w)) | None \<Rightarrow> exec_from n (alts ws) s (Suc i))"
proof -
  let ?p = "\<lambda>w. starts_with w (drop i s)"
  have r: "rm s (Grp 0 (alts ws)) (i, no_caps) =
      map (\<lambda>w. (i + length w, no_caps(0 := Some (substring s i (i + length w))))) (filter ?p ws)"
    by (simp add: rm_alts [OF assms])
  show ?thesis
  proof (cases "filter ?p ws")
    case Nil
    then have "first_key ws (drop i s) = None" by (simp add: first_key_def hd_filter_find)
    with r Nil show ?thesis by simp
  next
    case (Cons w rest)
    then have k: "first_key ws (drop i s) = Some w" by (simp add: first_key_def hd_filter_find)
    then have "substring s i (i + length w) = w"
      using first_key_Some [OF k] by (simp add: substring_def starts_with_def)
    with r Cons k show ?thesis by simp
  qed
qed

lemma weave_skip:
  assumes "i < length s" "\<forall>m \<in> set (take 1 ms). i < fst m"
  shows "weave s f i ms = s ! i # weave s f (Suc i) ms"
proof (cases ms)
  case Nil
  with assms(1) show ?thesis by (simp add: Cons_nth_drop_Suc)
next
  case (Cons m ms')
  obtain a b c where m: "m = (a, b, c)" by (cases m) auto
  then have a: "i < a" using assms(2) Cons by simp
  have "substring s i a = s ! i # substring s (Suc i) a"
  proof -
    have "take (a - i) (drop i s) = take (a - i) (s ! i # drop (Suc i) s)"
      using assms(1) by (simp add: Cons_nth_drop_Suc)
    moreover have "a - i = Suc (a - Suc i)" using a by simp
    ultimately show ?thesis by (simp add: substring_def)
  qed
  then show ?thesis by (simp add: Cons m)
qed

lemma exec_all_first: "\<forall>m \<in> set (take 1 (exec_all n r s i)). i \<le> fst m"
proof (cases n)
  case (Suc k)
  show ?thesis
  proof (cases "exec_from (Suc (length s) - i) r s i")
    case (Some m)
    obtain a b c where m: "m = (a, b, c)" by (cases m) auto
    with exec_from_Some [of _ r s i a b c] Some have "i \<le> a" by simp
    with Some m Suc show ?thesis by simp
  qed (simp add: Suc)
qed simp

lemma weave_alts:
  assumes ws: "[] \<notin> set ws" and f: "\<And>w. w \<in> set ws \<Longrightarrow> g (no_caps(0 := Some w)) = f w"
  shows "i \<le> length s \<Longrightarrow> length s - i < n \<Longrightarrow>
    weave s g i (exec_all n (alts ws) s i) = rep_keys ws f (drop i s)"
proof (induction "length s - i" arbitrary: i n rule: less_induct)
  case less
  obtain k where k: "n = Suc k" using less.prems by (cases n) auto
  have l: "Suc (length s) - i = Suc (length s - i)" using less.prems by simp
  note e = exec_from_alts [OF less.prems(1) ws, of "length s - i"]
  show ?case
  proof (cases "first_key ws (drop i s)")
    case (Some w)
    note w = first_key_Some [OF Some]
    have len: "0 < length w" using w ws by (cases w) auto
    have "length w \<le> length (drop i s)"
      using w by (simp only: starts_with_prefix) (rule prefix_length_le, simp)
    then have "length w \<le> length s - i" by simp
    with len less.prems(1) have i: "i + length w \<le> length s" "i < length s" by linarith+
    have x: "exec_from (Suc (length s) - i) (alts ws) s i = Some (i, i + length w, no_caps(0 := Some w))"
      unfolding l e using Some by simp
    have d: "drop i s = s ! i # drop (Suc i) s" using i(2) by (simp add: Cons_nth_drop_Suc)
    have "length w - 1 + Suc i = i + length w" using len by simp
    then have "drop (length w - 1) (drop (Suc i) s) = drop (i + length w) s" by (simp only: drop_drop)
    then have r: "rep_keys ws f (drop i s) = f w @ rep_keys ws f (drop (i + length w) s)"
      using Some unfolding d by (simp only: rep_keys.simps option.case)
    have "weave s g (i + length w) (exec_all k (alts ws) s (i + length w)) = rep_keys ws f (drop (i + length w) s)"
    proof (rule less.hyps)
      show "length s - (i + length w) < length s - i" using i(2) len by linarith
      show "length s - (i + length w) < k" using i(2) len less.prems(2) k by linarith
    qed (rule i(1))
    then show ?thesis using x len f w by (simp add: k r)
  next
    case None
    show ?thesis
    proof (cases "i = length s")
      case True
      then have "exec_from (Suc (length s) - i) (alts ws) s i = None"
        unfolding l e using None by simp
      with True show ?thesis by (simp add: k)
    next
      case False
      then have i: "i < length s" using less.prems by simp
      have "exec_from (Suc (length s) - i) (alts ws) s i = exec_from (Suc (length s) - Suc i) (alts ws) s (Suc i)"
        unfolding l e using None by simp
      then have a: "exec_all n (alts ws) s i = exec_all n (alts ws) s (Suc i)" by (simp add: k)
      have "\<forall>m \<in> set (take 1 (exec_all n (alts ws) s (Suc i))). i < fst m"
        using exec_all_first [of n "alts ws" s "Suc i"] by auto
      from weave_skip [OF i this, of g]
      have "weave s g i (exec_all n (alts ws) s i) = s ! i # weave s g (Suc i) (exec_all n (alts ws) s (Suc i))"
        by (simp only: a)
      also have "\<dots> = s ! i # rep_keys ws f (drop (Suc i) s)"
        using less.hyps [of "Suc i" n] i less.prems by simp
      finally show ?thesis using None i by (simp flip: Cons_nth_drop_Suc)
    qed
  qed
qed

lemma replace_alts:
  assumes "[] \<notin> set ws" "\<And>w. w \<in> set ws \<Longrightarrow> g (no_caps(0 := Some w)) = f w"
  shows "replace_all (alts ws) g s = rep_keys ws f s"
  unfolding replace_all_def using weave_alts [where ws = ws and g = g and f = f and i = 0 and s = s and n = "Suc (length s)"] assms
  by (simp del: exec_all.simps)

lemma createEscaper_eq:
  assumes "[] \<notin> fst ` set m"
  shows "createEscaper m (Some s) = rep_keys (map fst m) (\<lambda>w. the (dget m w)) s"
proof -
  have g: "(case dget m (cap (no_caps(0 := Some w)) 0) of Some v \<Rightarrow> v | None \<Rightarrow> u ''undefined'') = the (dget m w)"
    if w: "w \<in> set (map fst m)" for w
  proof -
    obtain v where "dget m w = Some v" using w by (metis domIff dom_map_of_conv_image_fst not_None_eq set_map)
    then show ?thesis by (simp add: cap_def)
  qed
  have "replace_all (alts (map fst m)) (\<lambda>c. case dget m (cap c 0) of Some v \<Rightarrow> v | None \<Rightarrow> u ''undefined'') s
      = rep_keys (map fst m) (\<lambda>w. the (dget m w)) s"
    by (rule replace_alts) (use assms g in auto)
  moreover have "replace_all r g s = s" if "\<not> test r s" for r g
    using that replace_all_none [of s r g] by (cases "exec_from (Suc (length s)) r s 0") (auto simp: test_def exec_def simp del: exec_from.simps)
  ultimately show ?thesis by (simp add: createEscaper_def Let_def) metis
qed


section \<open>Escaped text\<close>

definition esc :: "int \<Rightarrow> ustr" where
  "esc c = (case dget escapeMap [c] of Some e \<Rightarrow> e | None \<Rightarrow> [c])"

lemma escapeMap_keys: "fst ` set escapeMap = {[38], [60], [62], [34], [39], [96]}"
  by code_simp

lemma find_singles:
  "List.find (\<lambda>w. starts_with w (c # t)) (map (\<lambda>k. [k]) ks) = (if c \<in> set ks then Some [c] else None)"
  by (induction ks) (auto simp: starts_with_def)

lemma us_escape_eq: "us_escape (Some s) = concat (map esc s)"
proof -
  have k: "map fst escapeMap = map (\<lambda>k. [k]) [38, 60, 62, 34, 39, 96 :: int]" by code_simp
  have n: "[] \<notin> fst ` set escapeMap" by (simp add: escapeMap_keys)
  have "rep_keys (map fst escapeMap) (\<lambda>w. the (dget escapeMap w)) s = concat (map esc s)"
  proof (induction s)
    case (Cons c s)
    show ?case
    proof (cases "[c] \<in> fst ` set escapeMap")
      case True
      then obtain e where e: "dget escapeMap [c] = Some e"
        by (metis domIff dom_map_of_conv_image_fst not_None_eq)
      have "first_key (map fst escapeMap) (c # s) = Some [c]"
        unfolding first_key_def k find_singles using True by (auto simp: escapeMap_keys)
      with e Cons show ?thesis by (simp add: esc_def)
    next
      case False
      then have "first_key (map fst escapeMap) (c # s) = None"
        unfolding first_key_def k find_singles by (auto simp: escapeMap_keys)
      moreover have "dget escapeMap [c] = None" using False by (simp add: map_of_eq_None_iff)
      ultimately show ?thesis using Cons by (simp add: esc_def)
    qed
  qed simp
  then show ?thesis by (simp add: us_escape_def createEscaper_eq [OF n])
qed

lemma starts_with_append: "starts_with w (w @ t)"
  by (simp add: starts_with_def)

definition uks :: "ustr list" where
  "uks = map fst unescapeMap"

lemma uks_amp: "w \<in> set uks \<Longrightarrow> \<exists>v. w = 38 # v"
proof -
  have "list_all (\<lambda>w. take 1 w = [38]) uks" by code_simp
  then show "w \<in> set uks \<Longrightarrow> \<exists>v. w = 38 # v"
    by (cases w) (auto simp: list_all_iff)
qed

text \<open>No key of the table is a prefix of another, so an entity is recognised wherever it stands.\<close>

lemma uks_prefix_free: "v \<in> set uks \<Longrightarrow> w \<in> set uks \<Longrightarrow> starts_with v (w @ t) \<Longrightarrow> v = w"
proof -
  have "list_all (\<lambda>v. list_all (\<lambda>w. take (min (length v) (length w)) v = take (min (length v) (length w)) w \<longrightarrow> v = w) uks) uks"
    by code_simp
  then have *: "v \<in> set uks \<Longrightarrow> w \<in> set uks \<Longrightarrow>
      take (min (length v) (length w)) v = take (min (length v) (length w)) w \<Longrightarrow> v = w"
    by (auto simp: list_all_iff)
  assume a: "v \<in> set uks" "w \<in> set uks" and s: "starts_with v (w @ t)"
  from s have "take (length v) (w @ t) = v" by (simp add: starts_with_def)
  then have "take (min (length v) (length w)) v = take (min (length v) (length w)) (take (length v) (w @ t))" by simp
  also have "\<dots> = take (min (length v) (length w)) w" by (simp add: min_def)
  finally show "v = w" by (rule * [OF a])
qed

lemma first_key_uks: "w \<in> set uks \<Longrightarrow> first_key uks (w @ t) = Some w"
proof -
  assume w: "w \<in> set uks"
  then have "List.find (\<lambda>v. starts_with v (w @ t)) uks \<noteq> None"
    using starts_with_append by (auto simp: find_None_iff)
  then obtain v where v: "first_key uks (w @ t) = Some v" by (auto simp: first_key_def)
  from first_key_Some [OF v] uks_prefix_free [OF _ w] have "v = w" by blast
  with v show ?thesis by simp
qed

lemma rep_esc:
  "rep_keys uks (\<lambda>w. the (dget unescapeMap w)) (esc c @ t) = c # rep_keys uks (\<lambda>w. the (dget unescapeMap w)) t"
proof (cases "[c] \<in> fst ` set escapeMap")
  case True
  have l: "list_all (\<lambda>(k, e). e \<in> set uks \<and> dget unescapeMap e = Some k \<and> e \<noteq> []) escapeMap" by code_simp
  from True obtain e where e: "dget escapeMap [c] = Some e"
    by (metis domIff dom_map_of_conv_image_fst not_None_eq)
  then have "([c], e) \<in> set escapeMap" by (rule map_of_SomeD)
  with l have e': "e \<in> set uks" "dget unescapeMap e = Some [c]" "e \<noteq> []" by (auto simp: list_all_iff)
  obtain d v where d: "e = d # v" using e'(3) by (cases e) auto
  from first_key_uks [OF e'(1), of t] e e'(2) show ?thesis by (simp add: esc_def d)
next
  case False
  then have "c \<noteq> 38" by (auto simp: escapeMap_keys)
  then have "first_key uks (c # t) = None"
    by (auto simp: first_key_def find_None_iff starts_with_def dest: uks_amp)
  moreover have "dget escapeMap [c] = None" using False by (simp add: map_of_eq_None_iff)
  ultimately show ?thesis by (simp add: esc_def)
qed

text \<open>Unescaping what \<open>escape\<close> returns gives the text back, and escaped text has none of the
  characters that open a tag, end one or end an attribute value.\<close>

theorem escape_roundtrip:
  "us_unescape (Some (us_escape (Some s))) = s \<and> set (us_escape (Some s)) \<inter> {60, 62, 34, 39, 96} = {}"
proof
  have "[] \<notin> fst ` set unescapeMap" using uks_amp unfolding uks_def by force
  then have u: "us_unescape (Some t) = rep_keys uks (\<lambda>w. the (dget unescapeMap w)) t" for t
    by (simp add: us_unescape_def createEscaper_eq uks_def)
  have "rep_keys uks (\<lambda>w. the (dget unescapeMap w)) (concat (map esc s)) = s"
    by (induction s) (simp_all add: rep_esc)
  then show "us_unescape (Some (us_escape (Some s))) = s" by (simp add: u us_escape_eq)
  have l: "list_all (\<lambda>e. set e \<inter> {60, 62, 34, 39, 96} = {}) (map snd escapeMap)" by code_simp
  have "set (esc c) \<inter> {60, 62, 34, 39, 96} = {}" for c
  proof (cases "dget escapeMap [c]")
    case None
    then have "[c] \<notin> fst ` set escapeMap" by (simp add: map_of_eq_None_iff)
    with None show ?thesis by (auto simp: esc_def escapeMap_keys)
  next
    case (Some e)
    then have "([c], e) \<in> set escapeMap" by (rule map_of_SomeD)
    with l Some show ?thesis by (force simp: esc_def list_all_iff)
  qed
  then show "set (us_escape (Some s)) \<inter> {60, 62, 34, 39, 96} = {}" unfolding us_escape_eq by auto
qed

section \<open>Template literals\<close>

text \<open>A string literal of the language between single quotes, as far as the template compiler uses it:
  \<open>None\<close> where the literal would end or break.\<close>

fun read_literal :: "ustr \<Rightarrow> ustr option" where
  "read_literal [] = Some []"
| "read_literal (c # s) =
    (if c = 39 \<or> line_end c then None
     else if c \<noteq> 92 then map_option ((#) c) (read_literal s)
     else case s of
        d # t \<Rightarrow>
          if d = 39 \<or> d = 92 then map_option ((#) d) (read_literal t)
          else if d = 114 then map_option ((#) 13) (read_literal t)
          else if d = 110 then map_option ((#) 10) (read_literal t)
          else if d = 117 then
            (case t of
               a1 # a2 # a3 # a4 # t' \<Rightarrow>
                 if [a1, a2, a3, a4] = u ''2028'' then map_option ((#) 8232) (read_literal t')
                 else if [a1, a2, a3, a4] = u ''2029'' then map_option ((#) 8233) (read_literal t') else None
             | _ \<Rightarrow> None)
          else None
      | [] \<Rightarrow> None)"

text \<open>The text between the delimiters of a template is put into the compiled source as a string literal
  that reads back as the text: no character of it ends the literal.\<close>

theorem template_literal:
  "read_literal (escape_literal s) = Some s"
proof (induction s)
  case (Cons c s)
  have e: "escape_literal (c # s) = escapeChar c @ escape_literal s" by (simp add: escape_literal_def)
  have "read_literal (escapeChar c @ t) = map_option ((#) c) (read_literal t)" for t
    by (auto simp: escapeChar_def us_escapes_def ulit line_end_def)
  with Cons show ?case by (simp add: e)
qed (simp add: escape_literal_def)

end
