(* ===== verification/JqCallbacks.thy ===== *)
theory JqCallbacks
  imports JsPrelude
begin

text \<open>
  The callback lists of jQuery (\<open>jquery-3.5.1.js\<close>, lines 3418 to 3645).  A callback is an identity, the
  actions it performs and whether it returns \<open>false\<close>; its actions may add to, remove from, empty,
  lock, disable and fire any list, also the one that is firing it, so that the model is a machine
  with the stack of the activations that are under way: the outer loop of \<open>fire\<close> over the queue, its
  inner loop over the list, the rest of a callback, and the return to the loop.  A falsy \<open>memory\<close>
  and the empty string the code stores for a spent list are \<open>None\<close>.
\<close>

datatype act =
    Note nat
  | SetState nat
  | AddL nat "cbarg list"
  | RemoveL nat "cb list"
  | EmptyL nat
  | DisableL nat
  | LockL nat
  | FireL nat
  | FireWithL nat "int option"
and cb = Cb nat "act list" bool
and cbarg = Fn cb | Args "cbarg list" | Other

record options =
  o_once :: bool
  o_memory :: bool
  o_unique :: bool
  o_stopOnFalse :: bool

text \<open>\<open>createOptions\<close>: the flags named in a string, split at white space.\<close>

definition opt_space :: "int \<Rightarrow> bool" where
  "opt_space c \<longleftrightarrow> c = 32 \<or> c = 9 \<or> c = 13 \<or> c = 10 \<or> c = 12"

fun flags_loop :: "ustr \<Rightarrow> ustr \<Rightarrow> ustr list" where
  "flags_loop w [] = (if w = [] then [] else [w])"
| "flags_loop w (c # s) =
    (if opt_space c then (if w = [] then [] else [w]) @ flags_loop [] s else flags_loop (w @ [c]) s)"

definition createOptions :: "ustr \<Rightarrow> options" where
  "createOptions s = (let fs = flags_loop [] s in
     \<lparr> o_once = u ''once'' \<in> set fs, o_memory = u ''memory'' \<in> set fs,
       o_unique = u ''unique'' \<in> set fs, o_stopOnFalse = u ''stopOnFalse'' \<in> set fs \<rparr>)"

record cblist =
  opts :: options
  firing :: bool
  memory :: "int option option"
  fired :: bool
  locked :: bool
  cbs :: "cb list option"
  queue :: "int option list"
  firingIndex :: int

definition Callbacks :: "options \<Rightarrow> cblist" where
  "Callbacks options = \<lparr> opts = options, firing = False, memory = None, fired = False, locked = False,
     cbs = Some [], queue = [], firingIndex = -1 \<rparr>"

definition the_list :: "cblist \<Rightarrow> cb list" where
  "the_list l = (case cbs l of None \<Rightarrow> [] | Some xs \<Rightarrow> xs)"

text \<open>The machine: the lists, the state variable of a deferred (its assignments, oldest first), the
  notes of the callbacks with the value they got, and the activations, innermost first.\<close>

datatype frame = Outer nat | Inner nat | Acts "act list" "int option" | Ret nat bool

record world =
  lists :: "nat \<Rightarrow> cblist"
  states :: "nat list"
  notelog :: "(nat \<times> int option) list"
  stack :: "frame list"

definition upd :: "nat \<Rightarrow> (cblist \<Rightarrow> cblist) \<Rightarrow> world \<Rightarrow> world" where
  "upd k f w = w \<lparr> lists := (lists w)(k := f (lists w k)) \<rparr>"

section \<open>Operations\<close>

text \<open>The head of \<open>fire\<close>: \<open>locked = locked || options.once; fired = firing = true\<close>, then the loop.\<close>

definition start_fire :: "nat \<Rightarrow> world \<Rightarrow> world" where
  "start_fire k w = (upd k (\<lambda>l. l \<lparr> locked := locked l \<or> o_once (opts l), fired := True, firing := True \<rparr>) w)
     \<lparr> stack := Outer k # stack w \<rparr>"

definition finish_fire :: "cblist \<Rightarrow> cblist" where
  "finish_fire l =
    (let l = (if \<not> o_memory (opts l) then l \<lparr> memory := None \<rparr> else l);
         l = l \<lparr> firing := False \<rparr>
     in if locked l then (if memory l \<noteq> None then l \<lparr> cbs := Some [] \<rparr> else l \<lparr> cbs := None \<rparr>) else l)"

fun flat_cbs :: "cbarg \<Rightarrow> cb list" where
  "flat_cbs (Fn c) = [c]"
| "flat_cbs (Args as) = concat (map flat_cbs as)"
| "flat_cbs Other = []"

definition add_cbs :: "cb list \<Rightarrow> cblist \<Rightarrow> cblist" where
  "add_cbs cs l = fold (\<lambda>c l. if \<not> o_unique (opts l) \<or> c \<notin> set (the_list l)
     then l \<lparr> cbs := Some (the_list l @ [c]) \<rparr> else l) cs l"

definition add :: "nat \<Rightarrow> cbarg list \<Rightarrow> world \<Rightarrow> world" where
  "add k as w =
    (let l = lists w k; again = (memory l \<noteq> None \<and> \<not> firing l)
     in if cbs l = None then w
        else let w' = upd k (\<lambda>l. add_cbs (concat (map flat_cbs as))
                 (if again then l \<lparr> firingIndex := int (length (the_list l)) - 1,
                                    queue := queue l @ [the (memory l)] \<rparr> else l)) w
             in if again then start_fire k w' else w')"

lemma arr_index_less: "arr_index x xs = Some j \<Longrightarrow> j < length xs \<and> xs ! j = x"
  by (induction xs arbitrary: j) (auto split: if_splits)

text \<open>\<open>remove\<close>: the position found goes on from the last one.\<close>

function remove_loop :: "cb \<Rightarrow> nat \<Rightarrow> cblist \<Rightarrow> cblist" where
  "remove_loop c i l =
    (case arr_index c (drop i (the_list l)) of None \<Rightarrow> l
     | Some j \<Rightarrow> remove_loop c (i + j)
         (l \<lparr> cbs := Some (splice (i + j) 1 (the_list l)),
             firingIndex := (if int (i + j) \<le> firingIndex l then firingIndex l - 1 else firingIndex l) \<rparr>))"
  by pat_completeness auto

termination
proof (relation "measure (\<lambda>(c, i, l). length (the_list l))", simp)
  fix c i l j assume "arr_index c (drop i (the_list l)) = Some j"
  then show "((c, i + j, l \<lparr> cbs := Some (splice (i + j) 1 (the_list l)),
      firingIndex := (if int (i + j) \<le> firingIndex l then firingIndex l - 1 else firingIndex l) \<rparr>), c, i, l)
    \<in> measure (\<lambda>(c, i, l). length (the_list l))"
    by (auto simp: the_list_def splice_def dest!: arr_index_less)
qed

declare remove_loop.simps [simp del]

definition remove_cbs :: "cb list \<Rightarrow> cblist \<Rightarrow> cblist" where
  "remove_cbs cs l = fold (\<lambda>c. remove_loop c 0) cs l"

definition has_cb :: "cb option \<Rightarrow> cblist \<Rightarrow> bool" where
  "has_cb c l = (case c of Some c \<Rightarrow> arr_index c (the_list l) \<noteq> None | None \<Rightarrow> length (the_list l) > 0)"

definition empty_cbs :: "cblist \<Rightarrow> cblist" where
  "empty_cbs l = (if cbs l \<noteq> None then l \<lparr> cbs := Some [] \<rparr> else l)"

definition disable :: "cblist \<Rightarrow> cblist" where
  "disable l = l \<lparr> locked := True, queue := [], cbs := None, memory := None \<rparr>"

definition is_disabled :: "cblist \<Rightarrow> bool" where
  "is_disabled l \<longleftrightarrow> cbs l = None"

definition lock :: "cblist \<Rightarrow> cblist" where
  "lock l = (let l = l \<lparr> locked := True, queue := [] \<rparr>
     in if memory l = None \<and> \<not> firing l then l \<lparr> cbs := None, memory := None \<rparr> else l)"

definition fireWith :: "nat \<Rightarrow> int option \<Rightarrow> world \<Rightarrow> world" where
  "fireWith k v w =
    (if locked (lists w k) then w
     else let w' = upd k (\<lambda>l. l \<lparr> queue := queue l @ [v] \<rparr>) w
          in if \<not> firing (lists w k) then start_fire k w' else w')"

section \<open>The machine\<close>

text \<open>\<open>memory[0]\<close> and \<open>memory[1]\<close>: without memory, no arguments.\<close>

definition payload :: "cblist \<Rightarrow> int option" where
  "payload l = (case memory l of Some v \<Rightarrow> v | None \<Rightarrow> None)"

definition perform :: "act \<Rightarrow> int option \<Rightarrow> world \<Rightarrow> world" where
  "perform a v w = (case a of
     Note n \<Rightarrow> w \<lparr> notelog := notelog w @ [(n, v)] \<rparr>
   | SetState s \<Rightarrow> w \<lparr> states := states w @ [s] \<rparr>
   | AddL k as \<Rightarrow> add k as w
   | RemoveL k cs \<Rightarrow> upd k (remove_cbs cs) w
   | EmptyL k \<Rightarrow> upd k empty_cbs w
   | DisableL k \<Rightarrow> upd k disable w
   | LockL k \<Rightarrow> upd k lock w
   | FireL k \<Rightarrow> fireWith k v w
   | FireWithL k x \<Rightarrow> fireWith k x w)"

fun cb_acts :: "cb \<Rightarrow> act list" where "cb_acts (Cb i as r) = as"
fun cb_false :: "cb \<Rightarrow> bool" where "cb_false (Cb i as r) = r"

definition step :: "world \<Rightarrow> world" where
  "step w = (case stack w of
     [] \<Rightarrow> w
   | Outer k # st \<Rightarrow>
       (case queue (lists w k) of
          [] \<Rightarrow> (upd k finish_fire w) \<lparr> stack := st \<rparr>
        | q # qs \<Rightarrow> (upd k (\<lambda>l. l \<lparr> memory := Some q, queue := qs \<rparr>) w) \<lparr> stack := Inner k # st \<rparr>)
   | Inner k # st \<Rightarrow>
       (let l = lists w k; i = firingIndex l + 1 in
        if i < int (length (the_list l))
        then (upd k (\<lambda>l. l \<lparr> firingIndex := i \<rparr>) w)
               \<lparr> stack := Acts (cb_acts (the_list l ! nat i)) (payload l) # Ret k (cb_false (the_list l ! nat i)) # Inner k # st \<rparr>
        else (upd k (\<lambda>l. l \<lparr> firingIndex := -1 \<rparr>) w) \<lparr> stack := Outer k # st \<rparr>)
   | Acts [] v # st \<Rightarrow> w \<lparr> stack := st \<rparr>
   | Acts (a # as) v # st \<Rightarrow> perform a v (w \<lparr> stack := Acts as v # st \<rparr>)
   | Ret k r # st \<Rightarrow>
       (if r \<and> o_stopOnFalse (opts (lists w k))
        then upd k (\<lambda>l. l \<lparr> firingIndex := int (length (the_list l)), memory := None \<rparr>) w else w) \<lparr> stack := st \<rparr>)"

fun steps :: "nat \<Rightarrow> world \<Rightarrow> world" where
  "steps 0 w = w"
| "steps (Suc n) w = steps n (step w)"

lemma steps_add: "steps (m + n) w = steps n (steps m w)"
  by (induction m arbitrary: w) auto

section \<open>The order of the calls\<close>

lemma lists_upd: "lists (upd k f w) j = (if j = k then f (lists w k) else lists w j)"
  by (simp add: upd_def)

lemma upd_fields [simp]:
  "stack (upd k f w) = stack w" "states (upd k f w) = states w" "notelog (upd k f w) = notelog w"
  by (simp_all add: upd_def)

lemma upd_stack [simp]: "upd k f (w \<lparr> stack := st \<rparr>) = (upd k f w) \<lparr> stack := st \<rparr>"
  by (simp add: upd_def)

text \<open>Callbacks of the list \<open>k\<close> that note, set the state, and add to and remove from \<open>k\<close> itself; the
  callbacks they add are such callbacks again.\<close>

fun own_act :: "nat \<Rightarrow> act \<Rightarrow> bool" and own_cb :: "nat \<Rightarrow> cb \<Rightarrow> bool" and own_arg :: "nat \<Rightarrow> cbarg \<Rightarrow> bool" where
  "own_act k (Note n) = True"
| "own_act k (SetState n) = True"
| "own_act k (AddL j as) = (j = k \<and> (\<forall>a \<in> set as. own_arg k a))"
| "own_act k (RemoveL j cs) = (j = k)"
| "own_act k (EmptyL j) = False"
| "own_act k (DisableL j) = False"
| "own_act k (LockL j) = False"
| "own_act k (FireL j) = False"
| "own_act k (FireWithL j x) = False"
| "own_cb k (Cb i as r) = (\<forall>a \<in> set as. own_act k a)"
| "own_arg k (Fn c) = own_cb k c"
| "own_arg k (Args as) = (\<forall>a \<in> set as. own_arg k a)"
| "own_arg k Other = True"

lemma own_flat: "own_arg k a \<Longrightarrow> c \<in> set (flat_cbs a) \<Longrightarrow> own_cb k c"
  by (induction a rule: flat_cbs.induct) auto

text \<open>What actions note, and the states they set.\<close>

definition notes_in :: "act list \<Rightarrow> nat list" where
  "notes_in as = concat (map (\<lambda>a. case a of Note n \<Rightarrow> [n] | _ \<Rightarrow> []) as)"

definition states_in :: "act list \<Rightarrow> nat list" where
  "states_in as = concat (map (\<lambda>a. case a of SetState n \<Rightarrow> [n] | _ \<Rightarrow> []) as)"

text \<open>The reference: a list split into the callbacks that are done (the one being called is the last
  of them) and the ones that are pending. What is added becomes pending, behind the others; what is
  removed is taken from both parts.\<close>

definition snoc_new :: "bool \<Rightarrow> cb list \<Rightarrow> cb \<Rightarrow> cb list \<Rightarrow> cb list" where
  "snoc_new uq dn c pd = (if uq \<and> c \<in> set (dn @ pd) then pd else pd @ [c])"

fun act_eff :: "bool \<Rightarrow> act \<Rightarrow> cb list \<times> cb list \<Rightarrow> cb list \<times> cb list" where
  "act_eff uq (AddL j as) (dn, pd) =
     (dn, fold (snoc_new uq dn) (concat (map flat_cbs as)) pd)"
| "act_eff uq (RemoveL j cs) (dn, pd) = (filter (\<lambda>c. c \<notin> set cs) dn, filter (\<lambda>c. c \<notin> set cs) pd)"
| "act_eff uq a p = p"

lemma sum_snoc_le:
  "sum_list (map size (fold (snoc_new uq dn) cs pd))
     \<le> sum_list (map size pd) + sum_list (map size (cs :: cb list))"
proof (induction cs arbitrary: pd)
  case (Cons c cs)
  have "sum_list (map size (snoc_new uq dn c pd)) \<le> sum_list (map size pd) + size c" by (simp add: snoc_new_def)
  with Cons [of "snoc_new uq dn c pd"] show ?case by simp
qed simp

lemma flat_size: "sum_list (map size (flat_cbs a)) \<le> size a"
proof (induction a rule: flat_cbs.induct)
  case (2 as)
  have "sum_list (map size (concat (map flat_cbs as))) \<le> size_list size as"
    using 2 by (induction as) (simp, fastforce)
  then show ?case by simp
qed simp_all

lemma flats_size: "sum_list (map size (concat (map flat_cbs as))) \<le> size_list size as"
proof (induction as)
  case (Cons a as)
  then show ?case using flat_size [of a] by simp
qed simp

lemma filter_size: "sum_list (map size (filter P pd)) \<le> sum_list (map size (pd :: cb list))"
  by (induction pd) auto

lemma act_eff_size: "sum_list (map size (snd (act_eff uq a p))) \<le> sum_list (map size (snd p)) + size a"
proof -
  obtain dn pd where p: "p = (dn, pd)" by fastforce
  show ?thesis
  proof (cases a)
    case (AddL j as)
    show ?thesis
      using sum_snoc_le [of uq dn "concat (map flat_cbs as)" pd] flats_size [of as] by (simp add: AddL p)
  next
    case (RemoveL j cs)
    show ?thesis using filter_size [of "\<lambda>c. c \<notin> set cs" pd] by (simp add: RemoveL p)
  qed (simp_all add: p)
qed

lemma acts_eff_size:
  "sum_list (map size (snd (fold (act_eff uq) as p))) \<le> sum_list (map size (snd p)) + size_list size as"
proof (induction as arbitrary: p)
  case (Cons a as)
  show ?case using Cons [of "act_eff uq a p"] act_eff_size [of uq a p] by simp
qed simp

text \<open>The callbacks called, in order, and the list that is left: a callback that returns \<open>false\<close> ends
  the calls of a list with \<open>stopOnFalse\<close>.\<close>

function call_order :: "bool \<Rightarrow> bool \<Rightarrow> cb list \<Rightarrow> cb list \<Rightarrow> cb list \<times> cb list" where
  "call_order uq st dn [] = ([], dn)"
| "call_order uq st dn (c # pd) =
    (let (dn', pd') = fold (act_eff uq) (cb_acts c) (dn @ [c], pd)
     in if cb_false c \<and> st then ([c], dn' @ pd')
        else let (called, left) = call_order uq st dn' pd' in (c # called, left))"
  by pat_completeness auto

termination
proof (relation "measure (\<lambda>(uq, st, dn, pd). sum_list (map size pd))", simp)
  fix uq st :: bool and dn :: "cb list" and c pd x dn' pd'
  assume "x = fold (act_eff uq) (cb_acts c) (dn @ [c], pd)" and "(dn', pd') = x"
  moreover have "size_list size (cb_acts c) < size c" by (cases c) simp
  ultimately show "((uq, st, dn', pd'), uq, st, dn, c # pd) \<in> measure (\<lambda>(uq, st, dn, pd). sum_list (map size pd))"
    using acts_eff_size [of uq "cb_acts c" "(dn @ [c], pd)"] by (auto dest!: sym [of "(_, _)"])
qed

text \<open>Callbacks that leave the list alone are called one after the other, up to one that stops.\<close>

lemma call_order_plain:
  assumes "\<forall>c \<in> set pd. \<forall>a \<in> set (cb_acts c). \<forall>p. act_eff uq a p = p"
  shows "fst (call_order uq False dn pd) = pd"
  using assms
proof (induction pd arbitrary: dn)
  case (Cons c pd)
  have "fold (act_eff uq) as p = p" if "\<forall>a \<in> set as. \<forall>p. act_eff uq a p = p" for as p
    using that by (induction as) (simp_all del: split_paired_All)
  then have "fold (act_eff uq) (cb_acts c) (dn @ [c], pd) = (dn @ [c], pd)" using Cons.prems by simp
  with Cons show ?case by (simp add: case_prod_unfold Let_def)
qed simp

section \<open>One callback\<close>

text \<open>\<open>remove\<close> moves the index of the callback being called as the callbacks before it go.\<close>

lemma remove_loop_skip:
  assumes "the_list l = a @ b @ c" "x \<notin> set b"
  shows "remove_loop x (length a) l = remove_loop x (length a + length b) l"
proof -
  have "arr_index x (b @ c) = map_option ((+) (length b)) (arr_index x c)"
    using assms(2) by (cases "arr_index x c"; induction b) (auto simp del: arr_index_None)
  then have "arr_index x (drop (length a) (the_list l)) =
      map_option ((+) (length b)) (arr_index x (drop (length a + length b) (the_list l)))"
    using assms(1) by simp
  then show ?thesis by (subst (1 2) remove_loop.simps) (simp add: add.assoc del: arr_index_None split: option.split)
qed

lemma arr_index_split: "x \<notin> set p \<Longrightarrow> arr_index x (p @ x # q) = Some (length p)"
  by (induction p) auto

lemma remove_loop_hit:
  assumes "cbs l = Some (a @ p @ x # q)" "x \<notin> set p"
  shows "remove_loop x (length a) l = remove_loop x (length (a @ p)) (l \<lparr> cbs := Some ((a @ p) @ q),
      firingIndex := (if int (length (a @ p)) \<le> firingIndex l then firingIndex l - 1 else firingIndex l) \<rparr>)"
proof -
  have "the_list l = a @ p @ x # q" using assms(1) by (simp add: the_list_def)
  then show ?thesis
    by (subst remove_loop.simps) (simp add: arr_index_split [OF assms(2)] splice_def)
qed

lemma remove_loop_pending:
  assumes "cbs l = Some (a @ b)" "firingIndex l < int (length a)"
  shows "remove_loop x (length a) l = l \<lparr> cbs := Some (a @ filter (\<lambda>y. y \<noteq> x) b) \<rparr>"
  using assms
proof (induction "length b" arbitrary: a b l rule: less_induct)
  case less
  show ?case
  proof (cases "x \<in> set b")
    case False
    then have "arr_index x b = None" by simp
    moreover have "filter (\<lambda>y. y \<noteq> x) b = b" using False by (induction b) auto
    ultimately show ?thesis using less.prems by (subst remove_loop.simps) (simp add: the_list_def arr_index_None [THEN iffD2])
  next
    case True
    then obtain p q where b: "b = p @ x # q" "x \<notin> set p" by (meson split_list_first)
    then have p: "filter (\<lambda>y. y \<noteq> x) p = p" by (induction p arbitrary: b) auto
    let ?l = "l \<lparr> cbs := Some ((a @ p) @ q), firingIndex := firingIndex l \<rparr>"
    have "remove_loop x (length a) l = remove_loop x (length (a @ p)) ?l"
      using remove_loop_hit [of l a p x q] less.prems b by simp
    also have "\<dots> = ?l \<lparr> cbs := Some ((a @ p) @ filter (\<lambda>y. y \<noteq> x) q) \<rparr>"
      by (rule less.hyps) (use less.prems b in auto)
    also have "\<dots> = l \<lparr> cbs := Some (a @ filter (\<lambda>y. y \<noteq> x) b) \<rparr>" using b p by simp
    finally show ?thesis .
  qed
qed

lemma remove_loop_split:
  assumes "cbs l = Some (a @ dn @ pd)" "firingIndex l = int (length (a @ dn)) - 1"
  shows "remove_loop x (length a) l = l \<lparr> cbs := Some (a @ filter (\<lambda>y. y \<noteq> x) dn @ filter (\<lambda>y. y \<noteq> x) pd),
      firingIndex := int (length (a @ filter (\<lambda>y. y \<noteq> x) dn)) - 1 \<rparr>"
  using assms
proof (induction "length dn" arbitrary: a dn l rule: less_induct)
  case less
  show ?case
  proof (cases "x \<in> set dn")
    case False
    then have f: "filter (\<lambda>y. y \<noteq> x) dn = dn" by (induction dn) auto
    have "remove_loop x (length a) l = remove_loop x (length (a @ dn)) l"
      using remove_loop_skip [of l a dn pd x] less.prems False by (simp add: the_list_def)
    also have "\<dots> = l \<lparr> cbs := Some ((a @ dn) @ filter (\<lambda>y. y \<noteq> x) pd) \<rparr>"
      by (rule remove_loop_pending) (use less.prems in auto)
    finally show ?thesis using less.prems(2) by (simp add: f)
  next
    case True
    then obtain p q where b: "dn = p @ x # q" "x \<notin> set p" by (meson split_list_first)
    then have p: "filter (\<lambda>y. y \<noteq> x) p = p" by (induction p arbitrary: dn) auto
    let ?l = "l \<lparr> cbs := Some ((a @ p) @ q @ pd), firingIndex := firingIndex l - 1 \<rparr>"
    have "remove_loop x (length a) l = remove_loop x (length (a @ p)) ?l"
      using remove_loop_hit [of l a p x "q @ pd"] less.prems b by simp
    also have "\<dots> = ?l \<lparr> cbs := Some ((a @ p) @ filter (\<lambda>y. y \<noteq> x) q @ filter (\<lambda>y. y \<noteq> x) pd),
        firingIndex := int (length ((a @ p) @ filter (\<lambda>y. y \<noteq> x) q)) - 1 \<rparr>"
      by (rule less.hyps) (use less.prems b in auto)
    also have "\<dots> = l \<lparr> cbs := Some (a @ filter (\<lambda>y. y \<noteq> x) dn @ filter (\<lambda>y. y \<noteq> x) pd),
        firingIndex := int (length (a @ filter (\<lambda>y. y \<noteq> x) dn)) - 1 \<rparr>" using b p by simp
    finally show ?thesis .
  qed
qed

text \<open>The list \<open>l\<close> holds the callbacks done and pending, and its index is at the last one done.\<close>

definition at_split :: "cblist \<Rightarrow> cb list \<times> cb list \<Rightarrow> cblist" where
  "at_split l p = l \<lparr> cbs := Some (fst p @ snd p), firingIndex := int (length (fst p)) - 1 \<rparr>"

lemma at_split_fields [simp]:
  "the_list (at_split l p) = fst p @ snd p" "firingIndex (at_split l p) = int (length (fst p)) - 1"
  "opts (at_split l p) = opts l" "memory (at_split l p) = memory l" "firing (at_split l p) = firing l"
  "locked (at_split l p) = locked l" "queue (at_split l p) = queue l" "cbs (at_split l p) = Some (fst p @ snd p)"
  "payload (at_split l p) = payload l" "at_split (at_split l q) p = at_split l p"
  by (simp_all add: at_split_def the_list_def payload_def)

lemma remove_split: "remove_cbs cs (at_split l (dn, pd)) = at_split l (act_eff uq (RemoveL j cs) (dn, pd))"
proof (induction cs arbitrary: dn pd)
  case (Cons c cs)
  have "remove_loop c 0 (at_split l (dn, pd)) =
      at_split l (filter (\<lambda>y. y \<noteq> c) dn, filter (\<lambda>y. y \<noteq> c) pd)"
    using remove_loop_split [of "at_split l (dn, pd)" "[]" dn pd c] by (simp add: at_split_def)
  with Cons show ?case by (simp add: remove_cbs_def conj_commute)
qed (simp add: remove_cbs_def)

lemma add_split:
  "add_cbs cs (at_split l (dn, pd)) = at_split l (dn,
     fold (snoc_new (o_unique (opts l)) dn) cs pd)"
proof (induction cs arbitrary: pd)
  case (Cons c cs)
  have 1: "add_cbs [c] (at_split l (dn, pd)) = at_split l (dn, snoc_new (o_unique (opts l)) dn c pd)"
    by (simp add: add_cbs_def snoc_new_def at_split_def the_list_def)
  have 2: "add_cbs (c # cs) l' = add_cbs cs (add_cbs [c] l')" for l' by (simp add: add_cbs_def)
  from Cons show ?case by (subst 2) (simp add: 1)
qed (simp add: add_cbs_def)

text \<open>The actions of a callback, then the callback, then the loop.\<close>

lemma own_act_eff:
  assumes "own_act k a" "\<forall>c \<in> set (snd p). own_cb k c"
  shows "\<forall>c \<in> set (snd (act_eff uq a p)). own_cb k c"
proof -
  have "\<forall>c \<in> set (fold (snoc_new uq dn) cs pd). own_cb k c"
    if "\<forall>c \<in> set cs. own_cb k c" "\<forall>c \<in> set pd. own_cb k c" for cs dn pd
    using that
  proof (induction cs arbitrary: pd)
    case (Cons c cs)
    then have "\<forall>x \<in> set (snoc_new uq dn c pd). own_cb k x" by (simp add: snoc_new_def)
    with Cons show ?case by simp
  qed simp
  note added = this
  obtain dn pd where p: "p = (dn, pd)" by fastforce
  show ?thesis
  proof (cases a)
    case (AddL j as)
    then have "\<forall>c \<in> set (concat (map flat_cbs as)). own_cb k c" using assms(1) own_flat by fastforce
    moreover have "\<forall>c \<in> set pd. own_cb k c" using assms(2) p by simp
    ultimately show ?thesis unfolding AddL p act_eff.simps snd_conv by (rule added)
  qed (use assms in \<open>simp_all add: p\<close>)
qed

lemma perform_own:
  assumes "own_act k a" "lists w k = at_split l p" "firing l"
  shows "perform a v w = w \<lparr> lists := (lists w)(k := at_split l (act_eff (o_unique (opts l)) a p)),
      notelog := notelog w @ map (\<lambda>n. (n, v)) (notes_in [a]), states := states w @ states_in [a] \<rparr>"
proof -
  obtain dn pd where p: "p = (dn, pd)" by fastforce
  have "lists w = (lists w)(k := at_split l p)" using assms(2) by auto
  then have id: "w = w \<lparr> lists := (lists w)(k := at_split l p), notelog := notelog w, states := states w \<rparr>" by simp
  show ?thesis
  proof (cases a)
    case (AddL j as)
    then show ?thesis using assms
      by (simp add: perform_def add_def Let_def upd_def p add_split notes_in_def states_in_def)
  next
    case (RemoveL j cs)
    then show ?thesis using assms remove_split [of cs l dn pd "o_unique (opts l)" j]
      by (simp add: perform_def upd_def p notes_in_def states_in_def)
  qed (use assms id in \<open>simp_all add: perform_def notes_in_def states_in_def\<close>)
qed

lemma acts_run:
  assumes "\<forall>a \<in> set as. own_act k a" "stack w = Acts as v # st" "lists w k = at_split l p" "firing l"
  shows "steps (Suc (length as)) w = w \<lparr> lists := (lists w)(k := at_split l (fold (act_eff (o_unique (opts l))) as p)),
      notelog := notelog w @ map (\<lambda>n. (n, v)) (notes_in as), states := states w @ states_in as, stack := st \<rparr>"
  using assms
proof (induction as arbitrary: w p)
  case Nil
  then have "(lists w)(k := at_split l p) = lists w" by auto
  with Nil show ?case by (simp add: step_def notes_in_def states_in_def)
next
  case (Cons a as)
  let ?w = "w \<lparr> stack := Acts as v # st \<rparr>"
  have "step w = perform a v ?w" using Cons.prems(2) by (simp add: step_def)
  also have "\<dots> = ?w \<lparr> lists := (lists w)(k := at_split l (act_eff (o_unique (opts l)) a p)),
      notelog := notelog w @ map (\<lambda>n. (n, v)) (notes_in [a]), states := states w @ states_in [a] \<rparr>"
    using perform_own [of k a ?w l p v] Cons.prems by simp
  finally have s: "step w = ?w \<lparr> lists := (lists w)(k := at_split l (act_eff (o_unique (opts l)) a p)),
      notelog := notelog w @ map (\<lambda>n. (n, v)) (notes_in [a]), states := states w @ states_in [a] \<rparr>" .
  have "steps (Suc (length (a # as))) w = steps (Suc (length as)) (step w)" by simp
  also have "\<dots> = w \<lparr> lists := (lists w)(k := at_split l (fold (act_eff (o_unique (opts l))) (a # as) p)),
      notelog := notelog w @ map (\<lambda>n. (n, v)) (notes_in (a # as)), states := states w @ states_in (a # as), stack := st \<rparr>"
    by (subst Cons.IH [of "step w" "act_eff (o_unique (opts l)) a p"])
      (use Cons.prems s in \<open>simp_all add: notes_in_def states_in_def\<close>)
  finally show ?case .
qed


lemma inner_turn:
  assumes "stack w = Inner k # st" "lists w k = at_split l (dn, c # pd)" "firing l" "own_cb k c"
    and "(dn', pd') = fold (act_eff (o_unique (opts l))) (cb_acts c) (dn @ [c], pd)"
  shows "steps (length (cb_acts c) + 3) w = w \<lparr> lists := (lists w)(k :=
        if cb_false c \<and> o_stopOnFalse (opts l)
        then at_split l (dn', pd') \<lparr> firingIndex := int (length (dn' @ pd')), memory := None \<rparr> else at_split l (dn', pd')),
      notelog := notelog w @ map (\<lambda>n. (n, payload l)) (notes_in (cb_acts c)),
      states := states w @ states_in (cb_acts c), stack := Inner k # st \<rparr>"
proof -
  let ?as = "cb_acts c"
  have own: "\<forall>a \<in> set ?as. own_act k a" using assms(4) by (cases c) simp
  have 1: "step w = w \<lparr> lists := (lists w)(k := at_split l (dn @ [c], pd)),
      stack := Acts ?as (payload l) # Ret k (cb_false c) # Inner k # st \<rparr>"
    using assms(1,2) by (simp add: step_def Let_def upd_def nth_append) (simp add: at_split_def)
  let ?w2 = "w \<lparr> lists := (lists w)(k := at_split l (dn', pd')),
      notelog := notelog w @ map (\<lambda>n. (n, payload l)) (notes_in ?as), states := states w @ states_in ?as,
      stack := Ret k (cb_false c) # Inner k # st \<rparr>"
  have 2: "steps (Suc (length ?as)) (step w) = ?w2"
    unfolding 1 by (subst acts_run [OF own, of _ _ "Ret k (cb_false c) # Inner k # st" l "(dn @ [c], pd)"])
      (use assms(3) in \<open>simp_all add: assms(5) [symmetric]\<close>)
  have "steps (length ?as + 3) w = steps 1 (steps (Suc (length ?as)) (step w))"
    unfolding steps_add [symmetric] by (simp add: numeral_eq_Suc)
  then show ?thesis unfolding 2 by (simp add: step_def upd_def)
qed

text \<open>The loop, against the reference.\<close>

definition cut_off :: "bool \<Rightarrow> cb list \<Rightarrow> bool" where
  "cut_off st called \<longleftrightarrow> st \<and> (\<exists>c \<in> set called. cb_false c)"

lemma inner_loop:
  assumes "stack w = Inner k # rest" "lists w k = at_split l (dn, pd)" "firing l" "\<forall>c \<in> set pd. own_cb k c"
    and "call_order (o_unique (opts l)) (o_stopOnFalse (opts l)) dn pd = (called, left)"
  shows "\<exists>n. steps n w = w \<lparr> lists := (lists w)(k := l \<lparr> cbs := Some left, firingIndex := -1,
        memory := if cut_off (o_stopOnFalse (opts l)) called then None else memory l \<rparr>),
      notelog := notelog w @ map (\<lambda>n. (n, payload l)) (concat (map (notes_in \<circ> cb_acts) called)),
      states := states w @ concat (map (states_in \<circ> cb_acts) called), stack := Outer k # rest \<rparr>"
  using assms
proof (induction "o_unique (opts l)" "o_stopOnFalse (opts l)" dn pd arbitrary: w called left rule: call_order.induct)
  case (1 dn)
  then have "steps 1 w = w \<lparr> lists := (lists w)(k := l \<lparr> cbs := Some left, firingIndex := -1 \<rparr>),
      stack := Outer k # rest \<rparr>"
    by (simp add: step_def Let_def upd_def) (simp add: at_split_def)
  with 1 show ?case by (intro exI [of _ 1]) (simp add: cut_off_def)
next
  case (2 dn c pd)
  obtain dn' pd' where e: "(dn', pd') = fold (act_eff (o_unique (opts l))) (cb_acts c) (dn @ [c], pd)"
    by (metis surj_pair)
  have c: "own_cb k c" "\<forall>x \<in> set pd. own_cb k x" using 2(5) by simp_all
  note t = inner_turn [OF 2(2,3,4) c(1) e]
  show ?case
  proof (cases "cb_false c \<and> o_stopOnFalse (opts l)")
    case True
    then have r: "called = [c]" "left = dn' @ pd'" using 2(6) e [symmetric] by (simp_all add: Let_def)
    let ?w = "steps (length (cb_acts c) + 3) w"
    have "step ?w = w \<lparr> lists := (lists w)(k := l \<lparr> cbs := Some left, firingIndex := -1, memory := None \<rparr>),
      notelog := notelog w @ map (\<lambda>n. (n, payload l)) (notes_in (cb_acts c)),
      states := states w @ states_in (cb_acts c), stack := Outer k # rest \<rparr>"
      unfolding t using True by (cases l; cases w) (simp add: step_def Let_def upd_def r at_split_def the_list_def)
    then have "steps (length (cb_acts c) + 3 + 1) w = w \<lparr> lists := (lists w)(k :=
        l \<lparr> cbs := Some left, firingIndex := -1, memory := None \<rparr>),
      notelog := notelog w @ map (\<lambda>n. (n, payload l)) (notes_in (cb_acts c)),
      states := states w @ states_in (cb_acts c), stack := Outer k # rest \<rparr>"
      unfolding steps_add by simp
    then show ?thesis using True by (intro exI) (simp add: r cut_off_def)
  next
    case False
    obtain cs where r: "called = c # cs" "call_order (o_unique (opts l)) (o_stopOnFalse (opts l)) dn' pd' = (cs, left)"
      using 2(6) False e [symmetric] by (auto simp: Let_def split: prod.splits)
    have s: "cut_off (o_stopOnFalse (opts l)) (c # cs) = cut_off (o_stopOnFalse (opts l)) cs"
      using False by (auto simp: cut_off_def)
    define w2 where "w2 = steps (length (cb_acts c) + 3) w"
    have w: "w2 = w \<lparr> lists := (lists w)(k := at_split l (dn', pd')),
        notelog := notelog w @ map (\<lambda>n. (n, payload l)) (notes_in (cb_acts c)),
        states := states w @ states_in (cb_acts c), stack := Inner k # rest \<rparr>"
      using t False by (simp add: w2_def)
    have own: "\<forall>a \<in> set (cb_acts c). own_act k a" using c(1) by (cases c) simp
    have pd': "\<forall>x \<in> set pd'. own_cb k x"
    proof -
      have "\<forall>x \<in> set (snd (fold (act_eff uq) as p)). own_cb k x"
        if "\<forall>a \<in> set as. own_act k a" "\<forall>x \<in> set (snd p). own_cb k x" for uq as p
        using that
      proof (induction as arbitrary: p)
        case (Cons a as)
        then show ?case using own_act_eff [of k a p uq] by simp
      qed simp
      from this [OF own, of "(dn @ [c], pd)" "o_unique (opts l)"] c(2) show ?thesis by (simp add: e [symmetric])
    qed
    have "\<exists>n. steps n w2 = w2 \<lparr> lists := (lists w2)(k := l \<lparr> cbs := Some left, firingIndex := -1,
        memory := if cut_off (o_stopOnFalse (opts l)) cs then None else memory l \<rparr>),
      notelog := notelog w2 @ map (\<lambda>n. (n, payload l)) (concat (map (notes_in \<circ> cb_acts) cs)),
      states := states w2 @ concat (map (states_in \<circ> cb_acts) cs), stack := Outer k # rest \<rparr>"
      by (rule 2(1) [OF refl e False]) (use w 2(4) pd' r(2) in simp_all)
    then obtain n where "steps n w2 = w2 \<lparr> lists := (lists w2)(k := l \<lparr> cbs := Some left, firingIndex := -1,
        memory := if cut_off (o_stopOnFalse (opts l)) cs then None else memory l \<rparr>),
      notelog := notelog w2 @ map (\<lambda>n. (n, payload l)) (concat (map (notes_in \<circ> cb_acts) cs)),
      states := states w2 @ concat (map (states_in \<circ> cb_acts) cs), stack := Outer k # rest \<rparr>" by blast
    then have "steps (length (cb_acts c) + 3 + n) w = w \<lparr> lists := (lists w)(k := l \<lparr> cbs := Some left, firingIndex := -1,
        memory := if cut_off (o_stopOnFalse (opts l)) called then None else memory l \<rparr>),
      notelog := notelog w @ map (\<lambda>n. (n, payload l)) (concat (map (notes_in \<circ> cb_acts) called)),
      states := states w @ concat (map (states_in \<circ> cb_acts) called), stack := Outer k # rest \<rparr>"
      unfolding steps_add [of "length (cb_acts c) + 3" n] w2_def [symmetric] by (simp add: w r(1) s)
    then show ?thesis by blast
  qed
qed

section \<open>Firing a list\<close>

text \<open>C22: Firing a list that is not locked, and not being fired, comes to its end and returns: it calls
  exactly the callbacks of the reference, one after the other, with the value fired. Callbacks may take
  notes, set the state, and add callbacks to and remove callbacks from the list that is calling them
  (with \<open>unique\<close> what is there already is not added); a callback that returns \<open>false\<close> ends the calls of
  a list with \<open>stopOnFalse\<close>, which then forgets the value. Afterwards the list is what the reference
  leaves, or spent when it may fire only once, and no other list has changed. Callbacks that fire,
  empty, disable or lock a list are not covered by this theorem.\<close>

theorem fire_order:
  assumes "\<not> locked (lists w k)" "\<not> firing (lists w k)" "queue (lists w k) = []" "firingIndex (lists w k) = -1"
    and "cbs (lists w k) = Some xs" "\<forall>c \<in> set xs. own_cb k c"
    and "call_order (o_unique (opts (lists w k))) (o_stopOnFalse (opts (lists w k))) [] xs = (called, left)"
  shows "\<exists>n w'. w' = steps n (fireWith k v w) \<and> stack w' = stack w
    \<and> notelog w' = notelog w @ map (\<lambda>n. (n, v)) (concat (map (notes_in \<circ> cb_acts) called))
    \<and> states w' = states w @ concat (map (states_in \<circ> cb_acts) called)
    \<and> \<not> firing (lists w' k)
    \<and> memory (lists w' k) = (if o_memory (opts (lists w k)) \<and> \<not> cut_off (o_stopOnFalse (opts (lists w k))) called
          then Some v else None)
    \<and> cbs (lists w' k) = (if \<not> o_once (opts (lists w k)) then Some left
          else if memory (lists w' k) = None then None else Some [])
    \<and> (\<forall>j. j \<noteq> k \<longrightarrow> lists w' j = lists w j)"
proof -
  let ?w0 = "fireWith k v w" and ?o = "opts (lists w k)"
  define l where "l = lists (steps 1 ?w0) k"
  define w1 where "w1 = steps 1 ?w0"
  have w1: "stack w1 = Inner k # stack w" "lists w1 k = at_split l ([], xs)" "notelog w1 = notelog w"
    "states w1 = states w" "\<And>j. j \<noteq> k \<Longrightarrow> lists w1 j = lists w j"
    and l: "firing l" "opts l = ?o" "payload l = v" "memory l = Some v" "queue l = []" "locked l = o_once ?o"
    using assms(1-5) by (simp_all add: l_def w1_def fireWith_def start_fire_def step_def lists_upd at_split_def payload_def)
  from inner_loop [OF w1(1,2) l(1) assms(6)] assms(7) obtain n where n: "steps n w1 =
      w1 \<lparr> lists := (lists w1)(k := l \<lparr> cbs := Some left, firingIndex := -1,
        memory := if cut_off (o_stopOnFalse ?o) called then None else memory l \<rparr>),
      notelog := notelog w1 @ map (\<lambda>n. (n, payload l)) (concat (map (notes_in \<circ> cb_acts) called)),
      states := states w1 @ concat (map (states_in \<circ> cb_acts) called), stack := Outer k # stack w \<rparr>"
    by (auto simp: l(2))
  have "steps (1 + (n + 1)) ?w0 = step (steps n w1)" unfolding steps_add w1_def by simp
  then have s: "steps (1 + (n + 1)) ?w0 = step (w1 \<lparr> lists := (lists w1)(k := l \<lparr> cbs := Some left, firingIndex := -1,
        memory := if cut_off (o_stopOnFalse ?o) called then None else memory l \<rparr>),
      notelog := notelog w1 @ map (\<lambda>n. (n, payload l)) (concat (map (notes_in \<circ> cb_acts) called)),
      states := states w1 @ concat (map (states_in \<circ> cb_acts) called), stack := Outer k # stack w \<rparr>)"
    by (simp only: n)
  show ?thesis
    by (intro exI [of _ "1 + (n + 1)"] exI [of _ "steps (1 + (n + 1)) ?w0"], unfold s)
      (simp add: step_def lists_upd l w1(3-5) finish_fire_def Let_def)
qed

definition demo_lists :: "nat \<Rightarrow> cblist" where
  "demo_lists k = (Callbacks (createOptions (u ''memory stopOnFalse'')))
     \<lparr> cbs := Some [Cb 0 [Note 7, AddL 0 [Fn (Cb 3 [Note 9] True)]] False,
                    Cb 1 [RemoveL 0 [Cb 2 [Note 6] False]] False, Cb 2 [Note 6] False, Cb 4 [Note 8] False] \<rparr>"

theorem fire_order_witness:
  "\<exists>n. notelog (steps n (fireWith 0 (Some 5) \<lparr> lists = demo_lists, states = [], notelog = [], stack = [] \<rparr>))
     = [(7, Some 5), (8, Some 5), (9, Some 5)]"
proof -
  let ?w = "\<lparr> lists = demo_lists, states = [], notelog = [], stack = [] \<rparr>"
  let ?xs = "[Cb 0 [Note 7, AddL 0 [Fn (Cb 3 [Note 9] True)]] False,
                    Cb 1 [RemoveL 0 [Cb 2 [Note 6] False]] False, Cb 2 [Note 6] False, Cb 4 [Note 8] False]"
  have o: "o_unique (opts (lists ?w 0)) = False" "o_stopOnFalse (opts (lists ?w 0)) = True"
    by code_simp+
  have c: "call_order False True [] ?xs = ([Cb 0 [Note 7, AddL 0 [Fn (Cb 3 [Note 9] True)]] False,
      Cb 1 [RemoveL 0 [Cb 2 [Note 6] False]] False, Cb 4 [Note 8] False, Cb 3 [Note 9] True],
     [Cb 0 [Note 7, AddL 0 [Fn (Cb 3 [Note 9] True)]] False,
      Cb 1 [RemoveL 0 [Cb 2 [Note 6] False]] False, Cb 4 [Note 8] False, Cb 3 [Note 9] True])"
    by (simp add: snoc_new_def)
  show ?thesis
    using fire_order [of ?w 0 ?xs _ _ "Some 5", unfolded o, OF _ _ _ _ _ _ c]
    by (auto simp: demo_lists_def Callbacks_def notes_in_def)
qed

end
