(* ===== verification/JqDeferred.thy ===== *)
theory JqDeferred
  imports JqCallbacks
begin

text \<open>
  \<open>jQuery.Deferred\<close>, \<open>jQuery.when\<close> and the ready event (\<open>jquery-3.5.1.js\<close>, lines 3648 to 4110 and
  10780 to 10786).  A deferred is six callback lists of the machine of \<open>JqCallbacks\<close>, numbered from a
  base: the \<open>i\<close>-th tuple of the source has its callbacks at \<open>b + 2 * i\<close> and the handlers of \<open>then\<close> at
  \<open>b + 2 * i + 1\<close>, and its state is assigned as \<open>b + i\<close> (1 resolved, 2 rejected).  What a handler of
  \<open>then\<close> returned is classified by the program around it.
\<close>

section \<open>Construction\<close>

definition progress_opts :: options where
  "progress_opts = createOptions (u ''memory'')"

definition settle_opts :: options where
  "settle_opts = createOptions (u ''once memory'')"

text \<open>The callbacks the constructor adds to the lists of a final state: set the state, disable the
  lists of the other state, lock the lists of the progress.\<close>

definition settle_cbs :: "nat \<Rightarrow> nat \<Rightarrow> cb list" where
  "settle_cbs b i =
    [Cb 0 [SetState (b + i)] False, Cb 1 [DisableL (b + 2 * (3 - i))] False,
     Cb 2 [DisableL (b + 2 * (3 - i) + 1)] False, Cb 3 [LockL b] False, Cb 4 [LockL (b + 1)] False]"

definition tuple_init :: "nat \<Rightarrow> nat \<Rightarrow> world \<Rightarrow> world" where
  "tuple_init b i w =
    (let w = (if i = 0 then w else add (b + 2 * i) (map Fn (settle_cbs b i)) w)
     in add (b + 2 * i) [Fn (Cb 5 [FireL (b + 2 * i + 1)] False)] w)"

definition Deferred :: "nat \<Rightarrow> world \<Rightarrow> world" where
  "Deferred b w =
    (let w = w \<lparr> lists := (lists w)(b := Callbacks progress_opts, b + 1 := Callbacks progress_opts,
           b + 2 := Callbacks settle_opts, b + 3 := Callbacks settle_opts,
           b + 4 := Callbacks settle_opts, b + 5 := Callbacks settle_opts) \<rparr>
     in tuple_init b 2 (tuple_init b 1 (tuple_init b 0 w)))"

text \<open>The methods, as actions.\<close>

definition notifyWith :: "nat \<Rightarrow> int option \<Rightarrow> act" where "notifyWith b v = FireWithL b v"
definition resolveWith :: "nat \<Rightarrow> int option \<Rightarrow> act" where "resolveWith b v = FireWithL (b + 2) v"
definition rejectWith :: "nat \<Rightarrow> int option \<Rightarrow> act" where "rejectWith b v = FireWithL (b + 4) v"
definition progress :: "nat \<Rightarrow> cbarg list \<Rightarrow> act" where "progress b as = AddL b as"
definition done_cb :: "nat \<Rightarrow> cbarg list \<Rightarrow> act" where "done_cb b as = AddL (b + 2) as"
definition fail_cb :: "nat \<Rightarrow> cbarg list \<Rightarrow> act" where "fail_cb b as = AddL (b + 4) as"

definition always :: "nat \<Rightarrow> cbarg list \<Rightarrow> act list" where
  "always b as = [done_cb b [Args as], fail_cb b [Args as]]"

definition promise_state :: "nat \<Rightarrow> world \<Rightarrow> ustr" where
  "promise_state b w = (case filter (\<lambda>s. s = b + 1 \<or> s = b + 2) (rev (states w)) of
     [] \<Rightarrow> u ''pending'' | s # _ \<Rightarrow> if s = b + 1 then u ''resolved'' else u ''rejected'')"

text \<open>\<open>then\<close> adds one handler to each of the three lists of handlers.\<close>

definition then_handlers :: "nat \<Rightarrow> cb \<Rightarrow> cb \<Rightarrow> cb \<Rightarrow> act list" where
  "then_handlers b onProgress onFulfilled onRejected =
    [AddL (b + 1) [Fn onProgress], AddL (b + 3) [Fn onFulfilled], AddL (b + 5) [Fn onRejected]]"

section \<open>The resolution procedure of \<open>then\<close>\<close>

text \<open>What the handler did: it returned the promise of its own deferred, a thenable (whose \<open>then\<close> may
  throw when it is called), another value, or threw.\<close>

datatype ('v, 't) returned = RetSelf | RetThenable 't | RetThenableThrows 't 'v | RetValue 'v | RetThrow 'v

datatype handler = HUser | HIdentity | HThrower

text \<open>What the procedure does: nothing, call \<open>then\<close> with resolvers (depth, handler, special), pass on
  the arguments it got, or a value, to \<open>resolveWith\<close>, \<open>notifyWith\<close> or \<open>rejectWith\<close>, or let an
  exception through.\<close>

datatype 'v passed = SameArgs | Value 'v | TypeErr

datatype ('v, 't) effect =
    Ignore
  | CallThen 't "(nat \<times> handler \<times> bool) list"
  | ResolveWith "'v passed"
  | NotifyWith "'v passed"
  | RejectWith "'v passed"
  | Uncaught "'v passed"

definition then_caught :: "bool \<Rightarrow> nat \<Rightarrow> nat \<Rightarrow> handler \<Rightarrow> 'v passed \<Rightarrow> ('v, 't) effect" where
  "then_caught special depth maxDepth h e =
    (if special then Uncaught e
     else if depth + 1 \<ge> maxDepth then RejectWith (if h \<noteq> HThrower then e else SameArgs) else Ignore)"

definition then_process :: "bool \<Rightarrow> nat \<Rightarrow> nat \<Rightarrow> handler \<Rightarrow> ('v, 't) returned \<Rightarrow> nat \<times> ('v, 't) effect" where
  "then_process special depth maxDepth h r =
    (if depth < maxDepth then (maxDepth, Ignore)
     else case r of
       RetSelf \<Rightarrow> (maxDepth, then_caught special depth maxDepth h TypeErr)
     | RetThrow e \<Rightarrow> (maxDepth, then_caught special depth maxDepth h (Value e))
     | RetThenable t \<Rightarrow>
         if special then (maxDepth, CallThen t [(maxDepth, HIdentity, special), (maxDepth, HThrower, special)])
         else (maxDepth + 1, CallThen t [(maxDepth + 1, HIdentity, special), (maxDepth + 1, HThrower, special),
                (maxDepth + 1, HIdentity, True)])
     | RetThenableThrows t e \<Rightarrow>
         if special then (maxDepth, Uncaught (Value e))
         else (maxDepth + 1, then_caught special depth (maxDepth + 1) h (Value e))
     | RetValue v \<Rightarrow>
         (let p = (if h \<noteq> HIdentity then Value v else SameArgs)
          in (maxDepth, if special then NotifyWith p else ResolveWith p)))"

text \<open>A process of depth zero runs in its own task, the others at once.\<close>

definition then_deferred :: "nat \<Rightarrow> bool" where
  "then_deferred depth \<longleftrightarrow> depth = 0"

section \<open>Aggregation\<close>

datatype ('v, 't) adopted = IsPromise 't | IsThenable 't | IsPlain 'v | AdoptThrows 'v

datatype ('v, 't) adopt_effect = DoneFail 't | ThenCall 't | ResolveNow "'v list" | RejectNow 'v

definition adoptValue :: "('v, 't) adopted \<Rightarrow> bool \<Rightarrow> ('v, 't) adopt_effect" where
  "adoptValue value noValue = (case value of
     IsPromise t \<Rightarrow> DoneFail t | IsThenable t \<Rightarrow> ThenCall t
   | IsPlain v \<Rightarrow> ResolveNow (drop (if noValue then 1 else 0) [v])
   | AdoptThrows e \<Rightarrow> RejectNow e)"

text \<open>The variables of \<open>when\<close> for several arguments; the master is settled once, as a deferred is.\<close>

datatype 'v master = Pending | Resolved "'v list" | Rejected 'v

record 'v when_state =
  remaining :: nat
  resolveValues :: "'v list"
  master :: "'v master"

definition when_init :: "'v list \<Rightarrow> 'v when_state" where
  "when_init args = \<lparr> remaining = length args, resolveValues = args, master = Pending \<rparr>"

definition updateFunc :: "nat \<Rightarrow> 'v \<Rightarrow> 'v when_state \<Rightarrow> 'v when_state" where
  "updateFunc i value st =
    (let st = st \<lparr> resolveValues := (resolveValues st)[i := value], remaining := remaining st - 1 \<rparr>
     in if remaining st = 0 \<and> master st = Pending then st \<lparr> master := Resolved (resolveValues st) \<rparr> else st)"

definition when_reject :: "'v \<Rightarrow> 'v when_state \<Rightarrow> 'v when_state" where
  "when_reject e st = (if master st = Pending then st \<lparr> master := Rejected e \<rparr> else st)"

fun when_updates :: "(nat \<times> 'v) list \<Rightarrow> 'v when_state \<Rightarrow> 'v when_state" where
  "when_updates [] st = st"
| "when_updates ((i, v) # us) st = when_updates us (updateFunc i v st)"

section \<open>The ready event\<close>

record ready_state =
  isReady :: bool
  readyWait :: int
  readyList :: nat

definition ready_init :: ready_state where
  "ready_init = \<lparr> isReady = False, readyWait = 1, readyList = 0 \<rparr>"

text \<open>\<open>ready(wait)\<close>; \<open>readyList\<close> counts the calls of \<open>resolveWith\<close>.\<close>

definition ready :: "bool \<Rightarrow> ready_state \<Rightarrow> ready_state" where
  "ready wait st =
    (let st = (if wait then st \<lparr> readyWait := readyWait st - 1 \<rparr> else st)
     in if (if wait then readyWait st \<noteq> 0 else isReady st) then st
        else let st = st \<lparr> isReady := True \<rparr>;
                 st = (if \<not> wait then st \<lparr> readyWait := readyWait st - 1 \<rparr> else st)
             in if \<not> wait \<and> readyWait st > 0 then st else st \<lparr> readyList := readyList st + 1 \<rparr>)"

definition holdReady :: "bool \<Rightarrow> ready_state \<Rightarrow> ready_state" where
  "holdReady hold st = (if hold then st \<lparr> readyWait := readyWait st + 1 \<rparr> else ready True st)"

end
