(* ===== verification/JqSettle.thy ===== *)
theory JqSettle
  imports JqDeferred
begin

text \<open>
  A deferred settles once: whatever the callbacks of its lists do to it and to other lists, and in
  whatever order the program resolves, rejects and adds to it, it never is both resolved and
  rejected.  The proof is an invariant of the machine of \<open>JqCallbacks\<close>.
\<close>

section \<open>A deferred settles once\<close>

text \<open>What the program around a deferred may do: anything but assign its state or change its lists
  of final callbacks other than by adding to them and firing them.\<close>

fun user_act :: "nat \<Rightarrow> act \<Rightarrow> bool" and user_cb :: "nat \<Rightarrow> cb \<Rightarrow> bool" and user_arg :: "nat \<Rightarrow> cbarg \<Rightarrow> bool" where
  "user_act b (SetState s) \<longleftrightarrow> s \<noteq> b + 1 \<and> s \<noteq> b + 2"
| "user_act b (DisableL k) \<longleftrightarrow> k \<noteq> b + 2 \<and> k \<noteq> b + 4"
| "user_act b (LockL k) \<longleftrightarrow> k \<noteq> b + 2 \<and> k \<noteq> b + 4"
| "user_act b (EmptyL k) \<longleftrightarrow> k \<noteq> b + 2 \<and> k \<noteq> b + 4"
| "user_act b (RemoveL k cs) \<longleftrightarrow> k \<noteq> b + 2 \<and> k \<noteq> b + 4"
| "user_act b (AddL k as) \<longleftrightarrow> list_all (user_arg b) as"
| "user_act b _ \<longleftrightarrow> True"
| "user_cb b (Cb i as r) \<longleftrightarrow> list_all (user_act b) as"
| "user_arg b (Fn c) \<longleftrightarrow> user_cb b c"
| "user_arg b (Args as) \<longleftrightarrow> list_all (user_arg b) as"
| "user_arg b Other \<longleftrightarrow> True"

definition blank_world :: world where
  "blank_world = \<lparr> lists = (\<lambda>_. Callbacks progress_opts), states = [], notelog = [], stack = [] \<rparr>"

inductive deferred_run :: "nat \<Rightarrow> world \<Rightarrow> bool" for b where
  Create: "deferred_run b (Deferred b blank_world)"
| Call: "deferred_run b w \<Longrightarrow> stack w = [] \<Longrightarrow> list_all (user_act b) as \<Longrightarrow>
    deferred_run b (w \<lparr> stack := [Acts as v] \<rparr>)"
| Step: "deferred_run b w \<Longrightarrow> deferred_run b (step w)"


section \<open>A deferred settles once: the invariant\<close>

text \<open>List \<open>2 * i\<close> holds the callbacks of the final state \<open>i\<close>, list \<open>2 * (3 - i)\<close> those of the other
  state.  \<open>about_to_disable\<close>: the list is running its first two callbacks, after which the other list
  is disabled; nothing else runs in between.\<close>

definition settle_acts :: "nat \<Rightarrow> nat \<Rightarrow> act list" where
  "settle_acts b i = [SetState (b + i), DisableL (b + 2 * (3 - i)), DisableL (b + 2 * (3 - i) + 1), LockL b, LockL (b + 1)]"

definition about_to_disable :: "nat \<Rightarrow> nat \<Rightarrow> world \<Rightarrow> bool" where
  "about_to_disable b i w \<longleftrightarrow>
    (let x = b + 2 * i; l = lists w x in
     (\<exists>us. the_list l = settle_cbs b i @ us) \<and>
     ((\<exists>st. stack w = Outer x # st \<and> queue l \<noteq> [] \<and> firingIndex l = -1) \<or>
      (\<exists>st. stack w = Inner x # st \<and> (firingIndex l = -1 \<or> firingIndex l = 0)) \<or>
      (\<exists>v st. stack w = Acts [SetState (b + i)] v # Ret x False # Inner x # st \<and> firingIndex l = 0) \<or>
      (\<exists>v st. stack w = Acts [] v # Ret x False # Inner x # st \<and> firingIndex l = 0) \<or>
      (\<exists>v st. stack w = Acts [DisableL (b + 2 * (3 - i))] v # Ret x False # Inner x # st \<and> firingIndex l = 1) \<or>
      (\<exists>st. stack w = Ret x False # Inner x # st \<and> firingIndex l = 0)))"

definition loops :: "nat \<Rightarrow> frame list \<Rightarrow> nat" where
  "loops k st = length (filter (\<lambda>f. f = Outer k \<or> f = Inner k) st)"

lemma loops_simps [simp]:
  "loops k [] = 0" "loops k (Outer j # st) = (if j = k then Suc (loops k st) else loops k st)"
  "loops k (Inner j # st) = (if j = k then Suc (loops k st) else loops k st)"
  "loops k (Acts as v # st) = loops k st" "loops k (Ret j r # st) = loops k st"
  by (simp_all add: loops_def)

text \<open>A list of final callbacks, on its own.\<close>

definition list_ok :: "nat \<Rightarrow> nat \<Rightarrow> cblist \<Rightarrow> bool" where
  "list_ok b i l \<longleftrightarrow>
     opts l = settle_opts \<and>
     (\<exists>us. list_all (user_cb b) us \<and> (the_list l = settle_cbs b i @ us \<or> the_list l = us \<and> locked l)) \<and>
     (fired l \<longrightarrow> locked l) \<and> (firing l \<longrightarrow> fired l) \<and> (memory l \<noteq> None \<longrightarrow> fired l) \<and>
     (\<not> firing l \<longrightarrow> firingIndex l = -1)"

definition side_ok :: "nat \<Rightarrow> nat \<Rightarrow> world \<Rightarrow> bool" where
  "side_ok b i w \<longleftrightarrow>
    (let x = b + 2 * i; l = lists w x in
     list_ok b i l \<and>
     loops x (stack w) = (if firing l then 1 else 0) \<and>
     (\<forall>st. stack w = Outer x # st \<longrightarrow> queue l \<noteq> [] \<or> firingIndex l = -1) \<and>
     (fired l \<and> \<not> locked (lists w (b + 2 * (3 - i))) \<longrightarrow> about_to_disable b i w) \<and>
     (b + i \<in> set (states w) \<longrightarrow> fired l))"

definition frame_ok :: "nat \<Rightarrow> frame \<Rightarrow> bool" where
  "frame_ok b f \<longleftrightarrow> (case f of Acts as v \<Rightarrow> list_all (user_act b) as | _ \<Rightarrow> True)"

definition rest_ok :: "nat \<Rightarrow> frame list \<Rightarrow> bool" where
  "rest_ok b st \<longleftrightarrow> (\<forall>f \<in> set st. frame_ok b f \<and> (\<forall>k. f \<noteq> Outer k))"

definition top_ok :: "nat \<Rightarrow> world \<Rightarrow> bool" where
  "top_ok b w \<longleftrightarrow> (case stack w of [] \<Rightarrow> True
     | f # st \<Rightarrow> rest_ok b st \<and>
        (frame_ok b f \<or> (\<exists>i \<in> {1, 2}. \<exists>a v. f = Acts [a] v \<and> a \<in> set (settle_acts b i) \<and> fired (lists w (b + 2 * i)))))"

definition others_ok :: "nat \<Rightarrow> (nat \<Rightarrow> cblist) \<Rightarrow> bool" where
  "others_ok b ls \<longleftrightarrow>
     (\<forall>k. -1 \<le> firingIndex (ls k) \<and> (k \<noteq> b + 2 \<and> k \<noteq> b + 4 \<longrightarrow> list_all (user_cb b) (the_list (ls k)))) \<and>
     \<not> (fired (ls (b + 2)) \<and> fired (ls (b + 4)))"

definition settle_inv :: "nat \<Rightarrow> world \<Rightarrow> bool" where
  "settle_inv b w \<longleftrightarrow> side_ok b 1 w \<and> side_ok b 2 w \<and> top_ok b w \<and> others_ok b (lists w)"

lemma side_keep:
  assumes "side_ok b i w" and "lists w' (b + 2 * i) = lists w (b + 2 * i)"
    and "locked (lists w (b + 2 * (3 - i))) \<Longrightarrow> locked (lists w' (b + 2 * (3 - i)))"
    and "loops (b + 2 * i) (stack w') = loops (b + 2 * i) (stack w)"
    and "\<And>st. stack w' \<noteq> Outer (b + 2 * i) # st"
    and "b + i \<in> set (states w') \<Longrightarrow> b + i \<in> set (states w) \<or> fired (lists w (b + 2 * i))"
    and "about_to_disable b i w \<Longrightarrow> about_to_disable b i w' \<or> locked (lists w' (b + 2 * (3 - i)))"
  shows "side_ok b i w'"
  using assms(1) unfolding side_ok_def Let_def assms(2,4) using assms(3,5-7) by blast

lemma user_flat: "user_arg b a \<Longrightarrow> list_all (user_cb b) (flat_cbs a)"
  by (induction a rule: flat_cbs.induct) (auto simp: list_all_iff)

lemma user_flats: "list_all (user_arg b) as \<Longrightarrow> list_all (user_cb b) (concat (map flat_cbs as))"
  using user_flat by (induction "as") auto

lemma add_cbs_frame: "opts (add_cbs cs l) = opts l \<and> firing (add_cbs cs l) = firing l \<and>
    memory (add_cbs cs l) = memory l \<and> fired (add_cbs cs l) = fired l \<and> locked (add_cbs cs l) = locked l \<and>
    queue (add_cbs cs l) = queue l \<and> firingIndex (add_cbs cs l) = firingIndex l"
  by (induction cs arbitrary: l) (simp_all add: add_cbs_def)

lemma add_cbs_plain: "\<not> o_unique (opts l) \<Longrightarrow> the_list (add_cbs cs l) = the_list l @ cs"
  by (induction cs arbitrary: l) (simp_all add: add_cbs_def the_list_def)

lemma add_cbs_set: "set (the_list (add_cbs cs l)) \<subseteq> set (the_list l) \<union> set cs"
proof (induction cs arbitrary: l)
  case (Cons c cs)
  let ?l = "if \<not> o_unique (opts l) \<or> c \<notin> set (the_list l) then l \<lparr> cbs := Some (the_list l @ [c]) \<rparr> else l"
  have "set (the_list ?l) \<subseteq> set (the_list l) \<union> {c}" by (auto simp: the_list_def)
  moreover have "add_cbs (c # cs) l = add_cbs cs ?l" by (simp add: add_cbs_def)
  ultimately show ?case using Cons.IH [of ?l] by auto
qed (simp add: add_cbs_def)

lemma remove_loop_set:
  "set (the_list (remove_loop c i l)) \<subseteq> set (the_list l) \<and> (-1 \<le> firingIndex l \<longrightarrow> -1 \<le> firingIndex (remove_loop c i l))
    \<and> fired (remove_loop c i l) = fired l"
proof (induction c i l rule: remove_loop.induct)
  case (1 c i l)
  show ?case
  proof (cases "arr_index c (drop i (the_list l))")
    case None
    then have "remove_loop c i l = l" by (subst remove_loop.simps) (simp del: arr_index_None)
    then show ?thesis by simp
  next
    case (Some j)
    let ?l = "l \<lparr> cbs := Some (splice (i + j) 1 (the_list l)),
             firingIndex := (if int (i + j) \<le> firingIndex l then firingIndex l - 1 else firingIndex l) \<rparr>"
    have e: "remove_loop c i l = remove_loop c (i + j) ?l"
      using Some by (subst remove_loop.simps) simp
    have "set (the_list ?l) \<subseteq> set (the_list l)"
      by (auto simp: the_list_def splice_def dest: in_set_takeD in_set_dropD split: option.splits)
    moreover have "-1 \<le> firingIndex l \<longrightarrow> -1 \<le> firingIndex ?l" by simp
    moreover have "fired ?l = fired l" by simp
    ultimately show ?thesis unfolding e using 1 [OF Some] by blast
  qed
qed

lemma remove_cbs_set:
  "set (the_list (remove_cbs cs l)) \<subseteq> set (the_list l) \<and> (-1 \<le> firingIndex l \<longrightarrow> -1 \<le> firingIndex (remove_cbs cs l))
    \<and> fired (remove_cbs cs l) = fired l"
proof (induction cs arbitrary: l)
  case (Cons c cs)
  from Cons.IH [of "remove_loop c 0 l"] remove_loop_set [of c 0 l] show ?case
    by (auto simp: remove_cbs_def)
qed (simp add: remove_cbs_def)


text \<open>The steps, by the activation on top.\<close>

lemma finish_ok:
  assumes s: "side_ok b i w" and st: "stack w = Outer k # st" and q: "queue (lists w k) = []"
    and t: "rest_ok b st"
  shows "side_ok b i ((upd k finish_fire w) \<lparr> stack := st \<rparr>)"
proof -
  let ?x = "b + 2 * i" and ?w = "(upd k finish_fire w) \<lparr> stack := st \<rparr>"
  have no: "\<not> about_to_disable b i w" using st q by (auto simp: about_to_disable_def Let_def)
  have top: "st \<noteq> Outer ?x # st'" for st' using t by (auto simp: rest_ok_def)
  have lk: "locked (lists ?w j) = locked (lists w j)" for j
    by (simp add: lists_upd finish_fire_def Let_def)
  show ?thesis
  proof (cases "k = ?x")
    case False
    show ?thesis
      by (rule side_keep [OF s]) (use False st top no lk in \<open>auto simp: lists_upd\<close>)
  next
    case True
    let ?l = "lists w ?x"
    have f: "firing ?l" "loops ?x st = 0" using s st True by (auto simp: side_ok_def Let_def split: if_splits)
    have l: "list_ok b i ?l" using s by (simp add: side_ok_def Let_def)
    have x: "firingIndex ?l = -1" using s st q True by (auto simp: side_ok_def Let_def)
    have fd: "fired ?l" "locked ?l" using f l by (auto simp: list_ok_def)
    have u: "\<exists>us. list_all (user_cb b) us \<and> ([] = settle_cbs b i @ us \<or> [] = us)" by (rule exI [of _ "[]"]) simp
    have "list_ok b i (finish_fire ?l)"
      using l fd x u by (auto simp: list_ok_def finish_fire_def Let_def the_list_def split: if_splits)
    moreover have "\<not> firing (finish_fire ?l)" "fired (finish_fire ?l) = fired ?l"
      "locked (finish_fire ?l) = locked ?l" by (auto simp: finish_fire_def Let_def)
    moreover have "locked (lists w (b + 2 * (3 - i)))" using s fd no by (auto simp: side_ok_def Let_def)
    ultimately show ?thesis using True f top lk fd unfolding side_ok_def Let_def by (simp add: lists_upd)
  qed
qed

lemma shift_ok:
  assumes s: "side_ok b i w" and st: "stack w = Outer k # st" and q: "queue (lists w k) = v # vs"
    and t: "rest_ok b st"
  shows "side_ok b i ((upd k (\<lambda>l. l \<lparr> memory := Some v, queue := vs \<rparr>) w) \<lparr> stack := Inner k # st \<rparr>)"
proof (cases "k = b + 2 * i")
  case False
  then have no: "\<not> about_to_disable b i w" using st by (auto simp: about_to_disable_def Let_def)
  show ?thesis by (rule side_keep [OF s]) (use False st no in \<open>auto simp: lists_upd\<close>)
next
  case True
  have "about_to_disable b i w \<Longrightarrow>
      about_to_disable b i ((upd k (\<lambda>l. l \<lparr> memory := Some v, queue := vs \<rparr>) w) \<lparr> stack := Inner k # st \<rparr>)"
    using st True by (auto simp: about_to_disable_def Let_def lists_upd the_list_def)
  with s st True show ?thesis
    by (auto simp: side_ok_def Let_def list_ok_def lists_upd the_list_def split: if_splits)
qed

lemma inner_ok:
  assumes s: "side_ok b i w" and i: "i = 1 \<or> i = 2" and st: "stack w = Inner k # st"
    and x: "-1 \<le> firingIndex (lists w k)"
  shows "side_ok b i (step w)"
proof (cases "k = b + 2 * i")
  case False
  then have no: "\<not> about_to_disable b i w" using st by (auto simp: about_to_disable_def Let_def)
  have "states (step w) = states w" using st by (simp add: step_def Let_def)
  with False st no show ?thesis
    by (intro side_keep [OF s]) (auto simp: lists_upd step_def Let_def)
next
  case True
  let ?l = "lists w k"
  let ?n = "nat (firingIndex ?l + 1)"
  have f: "firing ?l" using s st True by (auto simp: side_ok_def Let_def split: if_splits)
  have ab: "about_to_disable b i (step w)" if a: "about_to_disable b i w"
  proof -
    from a st True obtain us where us: "the_list ?l = settle_cbs b i @ us"
      and fi: "firingIndex ?l = -1 \<or> firingIndex ?l = 0" by (auto simp: about_to_disable_def Let_def)
    then have len: "firingIndex ?l + 1 < int (length (the_list ?l))" by (auto simp: settle_cbs_def)
    with fi us show ?thesis using st True
      by (auto simp: about_to_disable_def Let_def step_def lists_upd the_list_def settle_cbs_def)
  qed
  have "side_ok b i (step w)"
  proof (cases "firingIndex ?l + 1 < int (length (the_list ?l))")
    case lt: True
    have e: "step w = (upd k (\<lambda>l. l \<lparr> firingIndex := firingIndex ?l + 1 \<rparr>) w)
        \<lparr> stack := Acts (cb_acts (the_list ?l ! ?n)) (payload ?l) # Ret k (cb_false (the_list ?l ! ?n)) # Inner k # st \<rparr>"
      using lt st by (simp add: step_def Let_def)
    show ?thesis using s st True f ab unfolding e
      by (auto simp: side_ok_def Let_def list_ok_def lists_upd the_list_def)
  next
    case ge: False
    have e: "step w = (upd k (\<lambda>l. l \<lparr> firingIndex := -1 \<rparr>) w) \<lparr> stack := Outer k # st \<rparr>"
      using ge st by (simp add: step_def Let_def)
    show ?thesis using s st True f ab unfolding e
      by (auto simp: side_ok_def Let_def list_ok_def lists_upd the_list_def)
  qed
  then show ?thesis .
qed


lemma pop_ok:
  assumes s: "side_ok b i w" and st: "stack w = Acts [] v # st" and t: "rest_ok b st"
  shows "side_ok b i (w \<lparr> stack := st \<rparr>)"
proof -
  have top: "st \<noteq> Outer x # st'" for x st' using t by (auto simp: rest_ok_def)
  have "about_to_disable b i w \<Longrightarrow> about_to_disable b i (w \<lparr> stack := st \<rparr>)"
    using st by (auto simp: about_to_disable_def Let_def)
  with st top show ?thesis by (intro side_keep [OF s]) auto
qed

lemma ret_ok:
  assumes s: "side_ok b i w" and st: "stack w = Ret k r # st" and t: "rest_ok b st"
  shows "side_ok b i (step w)"
proof -
  have top: "st \<noteq> Outer x # st'" for x st' using t by (auto simp: rest_ok_def)
  let ?f = "\<lambda>l. l \<lparr> firingIndex := int (length (the_list l)), memory := None \<rparr>"
  let ?c = "r \<and> o_stopOnFalse (opts (lists w k))"
  have e: "step w = (if ?c then upd k ?f w else w) \<lparr> stack := st \<rparr>" using st by (simp add: step_def)
  have o: "o_stopOnFalse settle_opts = False" by code_simp
  have "opts (lists w (b + 2 * i)) = settle_opts" using s by (simp add: side_ok_def list_ok_def Let_def)
  then have x: "lists (step w) (b + 2 * i) = lists w (b + 2 * i)"
    unfolding e by (cases "k = b + 2 * i") (simp_all add: lists_upd o)
  have lk: "locked (lists (step w) j) = locked (lists w j)" for j unfolding e by (simp add: lists_upd)
  have st': "stack (step w) = st" "states (step w) = states w" unfolding e by simp_all
  have "about_to_disable b i w \<Longrightarrow> about_to_disable b i (step w)"
    using st st' x by (auto simp: about_to_disable_def Let_def)
  with st st' top x lk show ?thesis by (intro side_keep [OF s]) auto
qed

text \<open>The built-in actions.\<close>

lemma builtin_ok:
  assumes s: "side_ok b i w" and i: "i = 1 \<or> i = 2" and j: "j = 1 \<or> j = 2"
    and st: "stack w = Acts [a] v # st" and a: "a \<in> set (settle_acts b j)" and f: "fired (lists w (b + 2 * j))"
    and o: "\<not> (fired (lists w (b + 2)) \<and> fired (lists w (b + 4)))"
  shows "side_ok b i (perform a v (w \<lparr> stack := Acts [] v # st \<rparr>))"
proof (cases "i = j")
  case True
  let ?w = "perform a v (w \<lparr> stack := Acts [] v # st \<rparr>)"
  have x: "lists ?w (b + 2 * i) = lists w (b + 2 * i)" using a i True
    by (auto simp: settle_acts_def perform_def lists_upd)
  have st2: "stack ?w = Acts [] v # st" using a by (auto simp: settle_acts_def perform_def)
  have ab: "about_to_disable b i ?w \<or> locked (lists ?w (b + 2 * (3 - i)))" if ad: "about_to_disable b i w"
  proof -
    from ad st have "a = SetState (b + i) \<and> (\<exists>st'. st = Ret (b + 2 * i) False # Inner (b + 2 * i) # st') \<and>
        firingIndex (lists w (b + 2 * i)) = 0 \<or> a = DisableL (b + 2 * (3 - i))"
      by (auto simp: about_to_disable_def Let_def)
    then show ?thesis
    proof
      assume "a = DisableL (b + 2 * (3 - i))"
      then show ?thesis by (simp add: perform_def lists_upd disable_def)
    next
      assume "a = SetState (b + i) \<and> (\<exists>st'. st = Ret (b + 2 * i) False # Inner (b + 2 * i) # st') \<and>
        firingIndex (lists w (b + 2 * i)) = 0"
      with ad st2 x show ?thesis by (auto simp: about_to_disable_def Let_def)
    qed
  qed
  have lk: "locked (lists w y) \<Longrightarrow> locked (lists ?w y)" for y using a
    by (auto simp: settle_acts_def perform_def lists_upd disable_def lock_def Let_def)
  have "stack ?w = Acts [] v # st" using a by (auto simp: settle_acts_def perform_def)
  moreover have "b + i \<in> set (states ?w) \<Longrightarrow> b + i \<in> set (states w) \<or> fired (lists w (b + 2 * i))"
    using f True by simp
  ultimately show ?thesis using st x lk ab by (intro side_keep [OF s]) auto
next
  case False
  let ?w = "perform a v (w \<lparr> stack := Acts [] v # st \<rparr>)"
  have ij: "b + 2 * (3 - i) = b + 2 * j" "b + 2 * (3 - j) = b + 2 * i" using i j False by auto
  have nf: "\<not> fired (lists w (b + 2 * i))" using o f i j False by auto
  then have l: "list_ok b i (lists w (b + 2 * i))" "\<not> firing (lists w (b + 2 * i))" "memory (lists w (b + 2 * i)) = None"
    using s by (auto simp: side_ok_def list_ok_def Let_def)
  have x: "lists ?w (b + 2 * i) = lists w (b + 2 * i) \<or> lists ?w (b + 2 * i) = disable (lists w (b + 2 * i))"
    using a i j False by (auto simp: settle_acts_def perform_def lists_upd)
  have d: "list_ok b i (disable (lists w (b + 2 * i)))"
    using l by (auto simp: list_ok_def disable_def the_list_def intro: exI [of _ "[]"])
  have st': "stack ?w = Acts [] v # st" using a by (auto simp: settle_acts_def perform_def)
  have ns: "b + i \<in> set (states ?w) \<Longrightarrow> b + i \<in> set (states w)" using a False
    by (auto simp: settle_acts_def perform_def)
  have x': "list_ok b i (lists ?w (b + 2 * i)) \<and> \<not> firing (lists ?w (b + 2 * i)) \<and> \<not> fired (lists ?w (b + 2 * i))"
    using x d l nf by (auto simp: disable_def)
  have "loops (b + 2 * i) st = 0" "b + i \<notin> set (states w)" using s st l nf by (auto simp: side_ok_def Let_def)
  with x' st' ns show ?thesis unfolding side_ok_def Let_def by auto
qed

text \<open>The actions of the program.\<close>

lemma start_fire_fields:
  "stack (start_fire k w) = Outer k # stack w" "states (start_fire k w) = states w"
  "lists (start_fire k w) j = (if j = k then (lists w k) \<lparr> locked := locked (lists w k) \<or> o_once (opts (lists w k)),
     fired := True, firing := True \<rparr> else lists w j)"
  by (simp_all add: start_fire_def lists_upd)

lemma the_list_fields [simp]:
  "the_list (l \<lparr> firingIndex := x \<rparr>) = the_list l" "the_list (l \<lparr> queue := q \<rparr>) = the_list l"
  "the_list (l \<lparr> firingIndex := x, queue := q \<rparr>) = the_list l"
  by (simp_all add: the_list_def)

text \<open>\<open>add\<close> with its cases apart.\<close>

definition refire :: "cblist \<Rightarrow> cblist" where
  "refire l = l \<lparr> firingIndex := int (length (the_list l)) - 1, queue := queue l @ [the (memory l)] \<rparr>"

lemma add_eq:
  "add k as w = (if cbs (lists w k) = None then w
     else if memory (lists w k) \<noteq> None \<and> \<not> firing (lists w k)
     then start_fire k (upd k (\<lambda>l. add_cbs (concat (map flat_cbs as)) (refire l)) w)
     else upd k (add_cbs (concat (map flat_cbs as))) w)"
  by (auto simp: add_def Let_def refire_def)

lemma settle_opts_once: "o_once settle_opts = True" "o_unique settle_opts = False"
  by code_simp+

lemma list_ok_add:
  assumes "list_ok b i l" "list_all (user_cb b) cs"
  shows "list_ok b i (add_cbs cs l)"
proof -
  from assms(1) have u: "\<not> o_unique (opts l)" by (simp add: list_ok_def settle_opts_once)
  from assms(1) obtain us where "list_all (user_cb b) us" "the_list l = settle_cbs b i @ us \<or> the_list l = us \<and> locked l"
    by (auto simp: list_ok_def)
  with assms(2) have "list_all (user_cb b) (us @ cs) \<and> (the_list l @ cs = settle_cbs b i @ us @ cs \<or> the_list l @ cs = us @ cs \<and> locked l)"
    by auto
  then have "\<exists>us'. list_all (user_cb b) us' \<and> (the_list l @ cs = settle_cbs b i @ us' \<or> the_list l @ cs = us' \<and> locked l)"
    by (metis append.assoc)
  then show ?thesis using assms(1) unfolding list_ok_def add_cbs_plain [OF u] by (simp add: add_cbs_frame)
qed

lemma add_ok:
  assumes s: "side_ok b i w" and u: "list_all (user_cb b) (concat (map flat_cbs as))"
    and st: "stack w = Acts bs v # st" and d: "fired (lists w (b + 2 * i)) \<Longrightarrow> locked (lists w (b + 2 * (3 - i)))"
  shows "side_ok b i (add k as w)"
proof -
  let ?x = "b + 2 * i"
  have lk: "locked (lists w y) \<Longrightarrow> locked (lists (add k as w) y)" for y
    by (auto simp: add_def Let_def lists_upd start_fire_fields add_cbs_frame)
  have so: "states (add k as w) = states w" by (simp add: add_def Let_def start_fire_fields)
  have dk: "fired (lists w ?x) \<Longrightarrow> locked (lists (add k as w) (b + 2 * (3 - i)))" using d lk by blast
  show ?thesis
  proof (cases "k = ?x")
    case False
    have "lists (add k as w) ?x = lists w ?x" using False by (simp add: add_def Let_def lists_upd start_fire_fields)
    moreover have "loops ?x (stack (add k as w)) = loops ?x (stack w)" "stack (add k as w) \<noteq> Outer ?x # st'" for st'
      using False st by (auto simp: add_def Let_def start_fire_fields)
    ultimately show ?thesis using lk so s d st
      by (auto simp: side_ok_def Let_def)
  next
    case True
    let ?l = "lists w ?x"
    show ?thesis
    proof (cases "cbs ?l = None")
      case None: True
      then have "add k as w = w" using True by (simp add: add_def)
      with s show ?thesis by simp
    next
      case some: False
      have lo: "list_ok b i ?l" using s by (simp add: side_ok_def Let_def)
      note la = list_ok_add [OF lo u]
      show ?thesis
      proof (cases "memory ?l \<noteq> None \<and> \<not> firing ?l")
        case False
        then have e: "add k as w = upd ?x (add_cbs (concat (map flat_cbs as))) w"
          using True some by (auto simp: add_def Let_def)
        have "lists (add k as w) ?x = add_cbs (concat (map flat_cbs as)) ?l" "stack (add k as w) = stack w"
          unfolding e by (simp_all add: lists_upd)
        then show ?thesis using s st dk la so unfolding side_ok_def Let_def by (auto simp: add_cbs_frame)
      next
        case again: True
        have e: "add k as w = start_fire ?x (upd ?x (\<lambda>l. add_cbs (concat (map flat_cbs as)) (refire l)) w)"
          using True some again by (simp add: add_eq del: not_None_eq)
        have fd: "fired ?l" "locked ?l" using lo again by (auto simp: list_ok_def)
        have "the_list (add_cbs (concat (map flat_cbs as)) (refire ?l)) = the_list (add_cbs (concat (map flat_cbs as)) ?l)"
          using lo by (simp add: add_cbs_plain list_ok_def settle_opts_once refire_def)
        then have "list_ok b i (lists (add k as w) ?x)"
          using la fd lo unfolding e
          by (simp add: list_ok_def lists_upd start_fire_fields add_cbs_frame settle_opts_once refire_def the_list_def)
        moreover have "queue (lists (add k as w) ?x) \<noteq> []" "firing (lists (add k as w) ?x)"
          "fired (lists (add k as w) ?x)" "stack (add k as w) = Outer ?x # stack w"
          unfolding e by (simp_all add: lists_upd start_fire_fields add_cbs_frame refire_def)
        moreover have "loops ?x (stack w) = 0" using s again by (simp add: side_ok_def Let_def)
        ultimately show ?thesis using dk fd so unfolding side_ok_def Let_def by simp
      qed
    qed
  qed
qed

lemma fireWith_ok:
  assumes s: "side_ok b i w" and st: "stack w = Acts bs v # st"
    and d: "fired (lists w (b + 2 * i)) \<Longrightarrow> locked (lists w (b + 2 * (3 - i)))"
    and x: "-1 \<le> firingIndex (lists w (b + 2 * i))"
  shows "side_ok b i (fireWith k p w)"
proof -
  let ?x = "b + 2 * i"
  have lk: "locked (lists w y) \<Longrightarrow> locked (lists (fireWith k p w) y)" for y
    by (auto simp: fireWith_def Let_def lists_upd start_fire_fields)
  have so: "states (fireWith k p w) = states w" by (simp add: fireWith_def Let_def start_fire_fields)
  show ?thesis
  proof (cases "k = ?x")
    case False
    have "lists (fireWith k p w) ?x = lists w ?x" using False by (simp add: fireWith_def Let_def lists_upd start_fire_fields)
    moreover have "loops ?x (stack (fireWith k p w)) = loops ?x (stack w)" "stack (fireWith k p w) \<noteq> Outer ?x # st'" for st'
      using False st by (auto simp: fireWith_def Let_def start_fire_fields)
    ultimately show ?thesis using lk so s d st by (auto simp: side_ok_def Let_def)
  next
    case True
    let ?l = "lists w ?x"
    show ?thesis
    proof (cases "locked ?l")
      case True
      then show ?thesis using s \<open>k = ?x\<close> by (simp add: fireWith_def)
    next
      case False
      have lo: "list_ok b i ?l" using s by (simp add: side_ok_def Let_def)
      then have nf: "\<not> fired ?l" "\<not> firing ?l" "firingIndex ?l = -1" "o_once (opts ?l)"
        using False by (auto simp: list_ok_def settle_opts_once)
      have e: "fireWith k p w = start_fire ?x (upd ?x (\<lambda>l. l \<lparr> queue := queue l @ [p] \<rparr>) w)"
        using True False nf by (simp add: fireWith_def Let_def)
      have f: "stack (fireWith k p w) = Outer ?x # stack w" "queue (lists (fireWith k p w) ?x) \<noteq> []"
        "firingIndex (lists (fireWith k p w) ?x) = -1" "firing (lists (fireWith k p w) ?x)"
        "fired (lists (fireWith k p w) ?x)" "the_list (lists (fireWith k p w) ?x) = the_list ?l"
        using nf unfolding e by (simp_all add: start_fire_fields lists_upd the_list_def)
      have "list_ok b i (lists (fireWith k p w) ?x)"
        using lo False nf f unfolding e by (simp add: start_fire_fields lists_upd list_ok_def) auto
      moreover have "about_to_disable b i (fireWith k p w)"
        using lo False f unfolding about_to_disable_def Let_def by (auto simp: list_ok_def)
      moreover have "loops ?x (stack w) = 0" using s nf by (simp add: side_ok_def Let_def)
      ultimately show ?thesis using f unfolding side_ok_def Let_def by simp
    qed
  qed
qed


lemma user_ok:
  assumes s: "side_ok b i w" and i: "i = 1 \<or> i = 2" and st: "stack w = Acts (a # as) v # st" and a: "user_act b a"
    and x: "\<forall>k. -1 \<le> firingIndex (lists w k)"
  shows "side_ok b i (perform a v (w \<lparr> stack := Acts as v # st \<rparr>))"
proof -
  let ?w = "w \<lparr> stack := Acts as v # st \<rparr>"
  have no: "\<not> about_to_disable b i w" using a st i by (auto simp: about_to_disable_def Let_def)
  then have d: "fired (lists w (b + 2 * i)) \<Longrightarrow> locked (lists w (b + 2 * (3 - i)))"
    using s by (auto simp: side_ok_def Let_def)
  have s': "side_ok b i ?w" by (rule side_keep [OF s]) (use st no in auto)
  have st': "stack ?w = Acts as v # st" by simp
  have k: "side_ok b i (upd k f ?w)" if "k \<noteq> b + 2" "k \<noteq> b + 4" for k f
  proof (rule side_keep [OF s])
    have "k \<noteq> b + 2 * i" "k \<noteq> b + 2 * (3 - i)" using that i by auto
    then show "lists (upd k f ?w) (b + 2 * i) = lists w (b + 2 * i)"
      "locked (lists w (b + 2 * (3 - i))) \<Longrightarrow> locked (lists (upd k f ?w) (b + 2 * (3 - i)))"
      by (simp_all add: lists_upd)
  qed (use st no in auto)
  show ?thesis
  proof (cases a)
    case (Note n)
    have "side_ok b i (?w \<lparr> notelog := notelog w @ [(n, v)] \<rparr>)" by (rule side_keep [OF s]) (use st no in auto)
    with Note show ?thesis by (simp add: perform_def)
  next
    case (SetState n)
    have "side_ok b i (?w \<lparr> states := states w @ [n] \<rparr>)"
      by (rule side_keep [OF s]) (use st no a i SetState in auto)
    with SetState show ?thesis by (simp add: perform_def)
  next
    case (AddL k bs)
    then have "list_all (user_cb b) (concat (map flat_cbs bs))" using a user_flats by simp
    from add_ok [OF s' this st'] d AddL show ?thesis by (simp add: perform_def)
  next
    case (FireL k)
    from fireWith_ok [OF s' st'] d x FireL show ?thesis by (simp add: perform_def)
  next
    case (FireWithL k p)
    from fireWith_ok [OF s' st'] d x FireWithL show ?thesis by (simp add: perform_def)
  qed (use a k in \<open>auto simp: perform_def\<close>)
qed

text \<open>The other lists, and the activations.\<close>

lemma others_upd:
  assumes "others_ok b (lists w)" "-1 \<le> firingIndex (f (lists w k))" "fired (f (lists w k)) = fired (lists w k)"
    and "k \<noteq> b + 2 \<Longrightarrow> k \<noteq> b + 4 \<Longrightarrow> set (the_list (f (lists w k))) \<subseteq> set (the_list (lists w k)) \<union> {c. user_cb b c}"
  shows "others_ok b (lists (upd k f w))"
proof -
  have l: "j \<noteq> b + 2 \<Longrightarrow> j \<noteq> b + 4 \<Longrightarrow> list_all (user_cb b) (the_list (lists (upd k f w) j))" for j
  proof (cases "j = k")
    case True
    assume "j \<noteq> b + 2" "j \<noteq> b + 4"
    with assms(1) assms(4) True have "list_all (user_cb b) (the_list (lists w k))"
      "set (the_list (f (lists w k))) \<subseteq> set (the_list (lists w k)) \<union> {c. user_cb b c}"
      by (auto simp: others_ok_def)
    then show ?thesis using True by (auto simp: lists_upd list_all_iff)
  qed (use assms(1) in \<open>simp add: others_ok_def lists_upd\<close>)
  moreover have "-1 \<le> firingIndex (lists (upd k f w) j)" "fired (lists (upd k f w) j) = fired (lists w j)" for j
    using assms(1-3) by (simp_all add: others_ok_def lists_upd)
  ultimately show ?thesis using assms(1) unfolding others_ok_def by simp
qed

lemma start_fire_the_list [simp]: "the_list (lists (start_fire k w) j) = the_list (lists w j)"
  "firingIndex (lists (start_fire k w) j) = firingIndex (lists w j)"
  by (simp_all add: start_fire_fields the_list_def)

lemma add_others:
  assumes o: "others_ok b (lists w)" and u: "list_all (user_cb b) (concat (map flat_cbs as))"
    and f: "\<And>k. memory (lists w k) \<noteq> None \<Longrightarrow> k = b + 2 \<or> k = b + 4 \<Longrightarrow> fired (lists w k)"
  shows "others_ok b (lists (add k as w))"
proof -
  have l: "set (the_list (lists (add k as w) j)) \<subseteq> set (the_list (lists w j)) \<union> {c. user_cb b c}" for j
  proof -
    have "set (the_list (add_cbs (concat (map flat_cbs as)) l)) \<subseteq> set (the_list l) \<union> {c. user_cb b c}" for l
      using add_cbs_set [of "concat (map flat_cbs as)" l] u by (auto simp: list_all_iff)
    from this [of "lists w k"] this [of "refire (lists w k)"] show ?thesis
      by (cases "j = k") (auto simp: add_eq lists_upd refire_def)
  qed
  have x: "-1 \<le> firingIndex (lists (add k as w) j)" for j
    using o by (simp add: add_eq lists_upd add_cbs_frame others_ok_def refire_def)
  have fd: "j = b + 2 \<or> j = b + 4 \<Longrightarrow> fired (lists (add k as w) j) = fired (lists w j)" for j
    using f [of j] by (auto simp: add_eq lists_upd add_cbs_frame start_fire_fields refire_def)
  show ?thesis using o l x fd unfolding others_ok_def list_all_iff by blast
qed

lemma fireWith_others:
  assumes o: "others_ok b (lists w)"
    and f: "k = b + 2 \<Longrightarrow> \<not> locked (lists w (b + 2)) \<Longrightarrow> \<not> fired (lists w (b + 4))"
      "k = b + 4 \<Longrightarrow> \<not> locked (lists w (b + 4)) \<Longrightarrow> \<not> fired (lists w (b + 2))"
  shows "others_ok b (lists (fireWith k p w))"
proof -
  have "the_list (lists (fireWith k p w) j) = the_list (lists w j) \<and>
      firingIndex (lists (fireWith k p w) j) = firingIndex (lists w j)" for j
    by (simp add: fireWith_def Let_def lists_upd)
  moreover have m: "fired (lists (fireWith k p w) j) \<longrightarrow> fired (lists w j) \<or> j = k \<and> \<not> locked (lists w k)" for j
    by (simp add: fireWith_def Let_def lists_upd start_fire_fields)
  have "\<not> (fired (lists w (b + 2)) \<and> fired (lists w (b + 4)))" using o by (simp add: others_ok_def)
  then have "\<not> (fired (lists (fireWith k p w) (b + 2)) \<and> fired (lists (fireWith k p w) (b + 4)))"
    using m [of "b + 2"] m [of "b + 4"] f by (metis add_left_cancel numeral_eq_iff semiring_norm(85,87,88))
  ultimately show ?thesis using o unfolding others_ok_def by simp
qed


lemma perform_user_others:
  assumes o: "others_ok b (lists w)" and a: "user_act b a"
    and l1: "list_ok b 1 (lists w (b + 2))" and l2: "list_ok b 2 (lists w (b + 4))"
    and d1: "fired (lists w (b + 2)) \<Longrightarrow> locked (lists w (b + 4))"
    and d2: "fired (lists w (b + 4)) \<Longrightarrow> locked (lists w (b + 2))"
  shows "others_ok b (lists (perform a v w))"
proof -
  have x: "-1 \<le> firingIndex (lists w k)" for k using o by (simp add: others_ok_def)
  show ?thesis
  proof (cases a)
    case (AddL k as)
    then have u: "list_all (user_cb b) (concat (map flat_cbs as))" using a user_flats by simp
    have "memory (lists w k) \<noteq> None \<Longrightarrow> k = b + 2 \<or> k = b + 4 \<Longrightarrow> fired (lists w k)" for k
      using l1 l2 by (auto simp: list_ok_def)
    from add_others [OF o u this] AddL show ?thesis by (simp add: perform_def)
  next
    case (RemoveL k cs)
    have "others_ok b (lists (upd k (remove_cbs cs) w))"
      by (rule others_upd [OF o]) (use remove_cbs_set [of cs "lists w k"] x in auto)
    with RemoveL show ?thesis by (simp add: perform_def)
  next
    case (EmptyL k)
    have "others_ok b (lists (upd k empty_cbs w))"
      by (rule others_upd [OF o]) (use x in \<open>auto simp: empty_cbs_def the_list_def\<close>)
    with EmptyL show ?thesis by (simp add: perform_def)
  next
    case (DisableL k)
    have "others_ok b (lists (upd k disable w))"
      by (rule others_upd [OF o]) (use x in \<open>auto simp: disable_def the_list_def\<close>)
    with DisableL show ?thesis by (simp add: perform_def)
  next
    case (LockL k)
    have "others_ok b (lists (upd k lock w))"
      by (rule others_upd [OF o]) (use x in \<open>auto simp: lock_def the_list_def Let_def\<close>)
    with LockL show ?thesis by (simp add: perform_def)
  next
    case (FireL k)
    have "others_ok b (lists (fireWith k v w))" by (rule fireWith_others [OF o]) (use d1 d2 in auto)
    with FireL show ?thesis by (simp add: perform_def)
  next
    case (FireWithL k p)
    have "others_ok b (lists (fireWith k p w))" by (rule fireWith_others [OF o]) (use d1 d2 in auto)
    with FireWithL show ?thesis by (simp add: perform_def)
  qed (use o in \<open>simp_all add: perform_def\<close>)
qed

lemma perform_builtin_others:
  assumes o: "others_ok b (lists w)" and a: "a \<in> set (settle_acts b i)" and i: "i = 1 \<or> i = 2"
  shows "others_ok b (lists (perform a v w))"
proof -
  have x: "-1 \<le> firingIndex (lists w k)" for k using o by (simp add: others_ok_def)
  have d: "others_ok b (lists (upd k disable w))" for k
    by (rule others_upd [OF o]) (use x in \<open>auto simp: disable_def the_list_def\<close>)
  have l: "others_ok b (lists (upd k lock w))" for k
    by (rule others_upd [OF o]) (use x in \<open>auto simp: lock_def the_list_def Let_def\<close>)
  from a show ?thesis using o d l by (auto simp: settle_acts_def perform_def)
qed

lemma perform_stack: "stack (perform a v w) = stack w \<or> (\<exists>k. stack (perform a v w) = Outer k # stack w)"
  by (auto simp: perform_def add_eq fireWith_def Let_def start_fire_fields split: act.split)

text \<open>Every step keeps the invariant.\<close>

lemma callback_frame:
  assumes c: "c \<in> set (the_list l)" and l: "list_ok b i l" and i: "i = 1 \<or> i = 2"
  shows "list_all (user_act b) (cb_acts c) \<or> (\<exists>a. cb_acts c = [a] \<and> a \<in> set (settle_acts b i))"
proof -
  from l obtain us where us: "list_all (user_cb b) us" "the_list l = settle_cbs b i @ us \<or> the_list l = us"
    by (auto simp: list_ok_def)
  with c consider "c \<in> set (settle_cbs b i)" | "user_cb b c" by (auto simp: list_all_iff)
  then show ?thesis
  proof cases
    case 1
    then show ?thesis by (auto simp: settle_cbs_def settle_acts_def)
  next
    case 2
    then show ?thesis by (cases c) simp
  qed
qed

lemma settle_inv_step:
  assumes inv: "settle_inv b w"
  shows "settle_inv b (step w)"
proof (cases "stack w")
  case Nil
  then show ?thesis using inv by (simp add: step_def)
next
  case (Cons f st)
  have s: "side_ok b i w" if "i = 1 \<or> i = 2" for i using inv that by (auto simp: settle_inv_def)
  have o: "others_ok b (lists w)" and t: "top_ok b w" using inv by (simp_all add: settle_inv_def)
  from t Cons have r: "rest_ok b st" by (simp add: top_ok_def)
  have tail: "case st of [] \<Rightarrow> True | g # st' \<Rightarrow> rest_ok b st' \<and> frame_ok b g"
    using r by (cases st) (auto simp: rest_ok_def)
  have x: "\<forall>k. -1 \<le> firingIndex (lists w k)" using o by (simp add: others_ok_def)
  have l: "list_ok b i (lists w (b + 2 * i))" if "i = 1 \<or> i = 2" for i using s [OF that] by (simp add: side_ok_def Let_def)
  show ?thesis
  proof (cases f)
    case (Outer k)
    show ?thesis
    proof (cases "queue (lists w k)")
      case Nil
      have e: "step w = (upd k finish_fire w) \<lparr> stack := st \<rparr>" using Cons Outer Nil by (simp add: step_def)
      have "others_ok b (lists (step w))" unfolding e
        using others_upd [OF o, of finish_fire k] x by (simp add: finish_fire_def Let_def the_list_def)
      moreover have "top_ok b (step w)" unfolding e top_ok_def using tail by (cases st) auto
      ultimately show ?thesis using finish_ok [OF s] Cons Outer Nil r unfolding settle_inv_def e by blast
    next
      case q: (Cons p ps)
      have e: "step w = (upd k (\<lambda>l. l \<lparr> memory := Some p, queue := ps \<rparr>) w) \<lparr> stack := Inner k # st \<rparr>"
        using Cons Outer q by (simp add: step_def)
      have "others_ok b (lists (step w))" unfolding e
        using others_upd [OF o, of "\<lambda>l. l \<lparr> memory := Some p, queue := ps \<rparr>" k] x by (simp add: the_list_def)
      moreover have "top_ok b (step w)" unfolding e top_ok_def using r by (simp add: frame_ok_def)
      ultimately show ?thesis using shift_ok [OF s] Cons Outer q r unfolding settle_inv_def e by blast
    qed
  next
    case (Inner k)
    note si = inner_ok [OF s _ Cons [unfolded Inner] x [rule_format]]
    let ?l = "lists w k"
    show ?thesis
    proof (cases "firingIndex ?l + 1 < int (length (the_list ?l))")
      case False
      have e: "step w = (upd k (\<lambda>l. l \<lparr> firingIndex := -1 \<rparr>) w) \<lparr> stack := Outer k # st \<rparr>"
        using False Cons Inner by (simp add: step_def Let_def)
      have "others_ok b (lists (step w))" unfolding e using others_upd [OF o, of "\<lambda>l. l \<lparr> firingIndex := -1 \<rparr>" k] by simp
      moreover have "top_ok b (step w)" unfolding e top_ok_def using r by (simp add: frame_ok_def)
      ultimately show ?thesis using si [of 1] si [of 2] unfolding settle_inv_def by simp
    next
      case True
      let ?c = "the_list ?l ! nat (firingIndex ?l + 1)"
      have e: "step w = (upd k (\<lambda>l. l \<lparr> firingIndex := firingIndex ?l + 1 \<rparr>) w)
          \<lparr> stack := Acts (cb_acts ?c) (payload ?l) # Ret k (cb_false ?c) # Inner k # st \<rparr>"
        using True Cons Inner by (simp add: step_def Let_def)
      have c: "?c \<in> set (the_list ?l)" using True x [rule_format, of k] by (intro nth_mem) linarith
      have "others_ok b (lists (step w))" unfolding e
        using others_upd [OF o, of "\<lambda>l. l \<lparr> firingIndex := firingIndex ?l + 1 \<rparr>" k] x [rule_format, of k] by simp
      moreover have "top_ok b (step w)"
      proof -
        have rr: "rest_ok b (Ret k (cb_false ?c) # Inner k # st)" using r by (simp add: rest_ok_def frame_ok_def)
        have "list_all (user_act b) (cb_acts ?c) \<or> (\<exists>i \<in> {1, 2}. \<exists>a. cb_acts ?c = [a] \<and> a \<in> set (settle_acts b i) \<and> fired (lists w (b + 2 * i)))"
        proof (cases "k = b + 2 \<or> k = b + 4")
          case False
          then have "list_all (user_cb b) (the_list ?l)" using o by (simp add: others_ok_def)
          then have "user_cb b ?c" using c by (simp add: list_all_iff)
          then show ?thesis by (cases ?c) simp
        next
          case True
          then obtain i where i: "i = 1 \<or> i = 2" "k = b + 2 * i" by fastforce
          have "firing ?l" using s [OF i(1)] Cons Inner i(2) by (auto simp: side_ok_def Let_def split: if_splits)
          then have "fired (lists w (b + 2 * i))" using l [OF i(1)] i(2) by (simp add: list_ok_def)
          moreover have "list_all (user_act b) (cb_acts ?c) \<or> (\<exists>a. cb_acts ?c = [a] \<and> a \<in> set (settle_acts b i))"
            using callback_frame [OF c _ i(1)] l [OF i(1)] i(2) by simp
          ultimately show ?thesis using i(1) by blast
        qed
        with rr show ?thesis unfolding e top_ok_def by (auto simp: frame_ok_def lists_upd)
      qed
      ultimately show ?thesis using si [of 1] si [of 2] unfolding settle_inv_def by simp
    qed
  next
    case (Ret k p)
    have sr: "side_ok b i (step w)" if "i = 1 \<or> i = 2" for i by (rule ret_ok [OF s [OF that] Cons [unfolded Ret] r])
    let ?f = "\<lambda>l. l \<lparr> firingIndex := int (length (the_list l)), memory := None \<rparr>"
    have e: "step w = (if p \<and> o_stopOnFalse (opts (lists w k)) then upd k ?f w else w) \<lparr> stack := st \<rparr>"
      using Cons Ret by (simp add: step_def)
    have "others_ok b (lists (step w))" unfolding e using o others_upd [OF o, of ?f k] by (simp add: the_list_def)
    moreover have "top_ok b (step w)" unfolding e top_ok_def using tail by (cases st) auto
    ultimately show ?thesis using sr by (simp add: settle_inv_def)
  next
    case (Acts as v)
    show ?thesis
    proof (cases as)
      case Nil
      have e: "step w = w \<lparr> stack := st \<rparr>" using Cons Acts Nil by (simp add: step_def)
      have "top_ok b (step w)" unfolding e top_ok_def using tail by (cases st) auto
      moreover have "side_ok b i (step w)" if "i = 1 \<or> i = 2" for i
        unfolding e by (rule pop_ok [OF s [OF that] Cons [unfolded Acts Nil] r])
      ultimately show ?thesis using o e by (simp add: settle_inv_def)
    next
      case as: (Cons a as')
      let ?w = "w \<lparr> stack := Acts as' v # st \<rparr>"
      have e: "step w = perform a v ?w" using Cons Acts as by (simp add: step_def)
      have stk: "stack w = Acts (a # as') v # st" using Cons Acts as by simp
      have rt: "top_ok b (step w)" if u: "list_all (user_act b) as'"
      proof -
        have "rest_ok b (Acts as' v # st)" using r u by (simp add: rest_ok_def frame_ok_def)
        then show ?thesis using perform_stack [of a v ?w] r u unfolding e top_ok_def
          by (auto simp: frame_ok_def)
      qed
      show ?thesis
      proof (cases "list_all (user_act b) (a # as')")
        case True
        have no: "\<not> about_to_disable b i w" if "i = 1 \<or> i = 2" for i
          using True stk that by (auto simp: about_to_disable_def Let_def)
        have d: "fired (lists w (b + 2 * i)) \<Longrightarrow> locked (lists w (b + 2 * (3 - i)))" if "i = 1 \<or> i = 2" for i
          using s [OF that] no [OF that] by (auto simp: side_ok_def Let_def)
        have "others_ok b (lists (step w))" unfolding e
          by (rule perform_user_others) (use o True l [of 1] l [of 2] d [of 1] d [of 2] in simp_all)
        moreover have "side_ok b i (step w)" if "i = 1 \<or> i = 2" for i
          unfolding e by (rule user_ok [OF s [OF that] that stk _ x]) (use True in simp)
        ultimately show ?thesis using rt True by (simp add: settle_inv_def)
      next
        case False
        then have "\<not> frame_ok b (Acts (a # as') v)" by (simp add: frame_ok_def)
        with t have "\<exists>i \<in> {1, 2}. \<exists>a'' v'. Acts (a # as') v = Acts [a''] v' \<and> a'' \<in> set (settle_acts b i) \<and> fired (lists w (b + 2 * i))"
          unfolding top_ok_def stk list.case by blast
        then obtain j where j: "j = 1 \<or> j = 2" "as' = []" "a \<in> set (settle_acts b j)" "fired (lists w (b + 2 * j))"
          by blast
        have "others_ok b (lists (step w))" unfolding e by (rule perform_builtin_others [OF _ j(3,1)]) (use o in simp)
        moreover have "side_ok b i (step w)" if "i = 1 \<or> i = 2" for i
          unfolding e j(2) by (rule builtin_ok [OF s [OF that] that j(1) _ j(3,4)]) (use stk j(2) o in \<open>simp_all add: others_ok_def\<close>)
        ultimately show ?thesis using rt j(2) by (simp add: settle_inv_def)
      qed
    qed
  qed
qed


section \<open>The property\<close>

lemma add_cbs_Callbacks:
  "\<not> o_unique (opts l) \<Longrightarrow> cbs l = Some xs \<Longrightarrow> add_cbs cs l = l \<lparr> cbs := Some (xs @ cs) \<rparr>"
proof (induction cs arbitrary: l xs)
  case (Cons c cs)
  have "add_cbs (c # cs) l = add_cbs cs (l \<lparr> cbs := Some (xs @ [c]) \<rparr>)"
    using Cons.prems by (simp add: add_cbs_def the_list_def)
  also have "\<dots> = l \<lparr> cbs := Some (xs @ c # cs) \<rparr>"
    using Cons.IH [of "l \<lparr> cbs := Some (xs @ [c]) \<rparr>" "xs @ [c]"] Cons.prems by simp
  finally show ?case .
qed (simp add: add_cbs_def)

lemma flat_Fn [simp]: "concat (map (flat_cbs \<circ> Fn) cs) = cs"
  by (induction cs) auto

lemma add_fresh:
  "cbs (lists w k) = Some xs \<Longrightarrow> memory (lists w k) = None \<Longrightarrow> \<not> o_unique (opts (lists w k)) \<Longrightarrow>
    add k as w = w \<lparr> lists := (lists w)(k := (lists w k) \<lparr> cbs := Some (xs @ concat (map flat_cbs as)) \<rparr>) \<rparr>"
  by (simp add: add_eq add_cbs_Callbacks) (simp add: upd_def add_cbs_Callbacks)

lemma settle_inv_create: "settle_inv b (Deferred b blank_world)"
proof -
  let ?w = "Deferred b blank_world"
  have o: "o_unique progress_opts = False" by code_simp
  note defs = Deferred_def tuple_init_def Let_def add_fresh blank_world_def Callbacks_def settle_opts_once o
  have st: "stack ?w = []" "states ?w = []" by (simp_all add: defs)
  have "lists ?w (b + 2) = (Callbacks settle_opts) \<lparr> cbs := Some (settle_cbs b 1 @ [Cb 5 [FireL (b + 3)] False]) \<rparr>"
    by (simp add: defs)
  moreover have "lists ?w (b + 4) = (Callbacks settle_opts) \<lparr> cbs := Some (settle_cbs b 2 @ [Cb 5 [FireL (b + 5)] False]) \<rparr>"
    by (simp add: defs)
  moreover have "-1 \<le> firingIndex (lists ?w k) \<and> (k \<noteq> b + 2 \<and> k \<noteq> b + 4 \<longrightarrow> list_all (user_cb b) (the_list (lists ?w k)))" for k
    by (simp add: defs the_list_def)
  ultimately show ?thesis using st
    by (auto simp: settle_inv_def side_ok_def Let_def top_ok_def others_ok_def list_ok_def Callbacks_def the_list_def)
qed

lemma settle_inv_run: "deferred_run b w \<Longrightarrow> settle_inv b w"
proof (induction rule: deferred_run.induct)
  case Create
  show ?case by (rule settle_inv_create)
next
  case (Call w as v)
  have s: "side_ok b i (w \<lparr> stack := [Acts as v] \<rparr>)" if "side_ok b i w" for i
    by (rule side_keep [OF that]) (use Call.hyps(2) in \<open>auto simp: about_to_disable_def Let_def\<close>)
  have "top_ok b (w \<lparr> stack := [Acts as v] \<rparr>)" using Call.hyps(3) by (simp add: top_ok_def rest_ok_def frame_ok_def)
  with s Call.IH show ?case by (simp add: settle_inv_def)
next
  case (Step w)
  from settle_inv_step [OF Step.IH] show ?case .
qed

text \<open>C23: A deferred settles once, whatever its callbacks and the program around it do with it, in any
  nesting of calls: it is never both resolved and rejected, and the callbacks of only one of the final
  states are ever fired.\<close>

theorem deferred_settles:
  assumes "deferred_run b w"
  shows "\<not> (b + 1 \<in> set (states w) \<and> b + 2 \<in> set (states w)) \<and>
    \<not> (fired (lists w (b + 2)) \<and> fired (lists w (b + 4))) \<and>
    (promise_state b w = u ''resolved'' \<longrightarrow> fired (lists w (b + 2)))"
proof -
  from settle_inv_run [OF assms] have s: "b + 1 \<in> set (states w) \<longrightarrow> fired (lists w (b + 2))"
    "b + 2 \<in> set (states w) \<longrightarrow> fired (lists w (b + 4))" "\<not> (fired (lists w (b + 2)) \<and> fired (lists w (b + 4)))"
    by (auto simp: settle_inv_def side_ok_def others_ok_def Let_def)
  have "promise_state b w = u ''resolved'' \<longrightarrow> b + 1 \<in> set (states w)"
  proof
    assume a: "promise_state b w = u ''resolved''"
    show "b + 1 \<in> set (states w)"
    proof (cases "filter (\<lambda>s. s = b + 1 \<or> s = b + 2) (rev (states w))")
      case (Cons s ss)
      then have "s \<in> set (filter (\<lambda>s. s = b + 1 \<or> s = b + 2) (rev (states w)))" by simp
      then show ?thesis using a Cons by (auto simp: promise_state_def split: if_splits)
    qed (use a in \<open>simp add: promise_state_def\<close>)
  qed
  with s show ?thesis by blast
qed

definition demo_world :: world where
  "demo_world = steps 60 ((Deferred 0 blank_world) \<lparr> stack :=
     [Acts [done_cb 0 [Fn (Cb 7 [Note 7, rejectWith 0 (Some 9)] False)], fail_cb 0 [Fn (Cb 8 [Note 8] False)],
        resolveWith 0 (Some 5), rejectWith 0 (Some 6)] None] \<rparr>)"

theorem deferred_settles_witness:
  "states demo_world = [1] \<and> notelog demo_world = [(7, Some 5)] \<and>
   \<not> (fired (lists demo_world 2) \<and> fired (lists demo_world 4))"
proof -
  have u: "list_all (user_act 0) [done_cb 0 [Fn (Cb 7 [Note 7, rejectWith 0 (Some 9)] False)],
      fail_cb 0 [Fn (Cb 8 [Note 8] False)], resolveWith 0 (Some 5), rejectWith 0 (Some 6)]" by code_simp
  have e: "stack (Deferred 0 blank_world) = []" by code_simp
  have st: "deferred_run 0 w \<Longrightarrow> deferred_run 0 (steps n w)" for n w
    by (induction n arbitrary: w) (auto intro: deferred_run.Step)
  have "deferred_run 0 demo_world" unfolding demo_world_def
    by (intro st deferred_run.Call [OF deferred_run.Create e u])
  from deferred_settles [OF this] have "\<not> (fired (lists demo_world 2) \<and> fired (lists demo_world 4))"
    unfolding add_0 by blast
  moreover have "(states demo_world, notelog demo_world) = ([1], [(7, Some 5)])" unfolding demo_world_def by code_simp
  ultimately show ?thesis by simp
qed

end
