(* ===== verification/JqCore.thy ===== *)
theory JqCore
  imports UsCollection
begin

text \<open>
  The core of jQuery (\<open>jquery-3.5.1.js\<close>, lines 133 to 517): types, sets of elements, the array
  utilities and \<open>extend\<close>.  Values and objects are those of \<open>UsObject\<close>; \<open>Function.prototype.toString\<close>
  of a function object is its primitive value.  A set keeps the set it came from.  A deep \<open>extend\<close>
  recurses into the values it copies, which may be cyclic, so it has fuel; \<open>None\<close> is running out of it.
\<close>

section \<open>Types\<close>

definition class2type :: "ustr \<Rightarrow> ustr option" where
  "class2type name = (if name \<in> set [u ''Boolean'', u ''Number'', u ''String'', u ''Function'', u ''Array'',
     u ''Date'', u ''RegExp'', u ''Object'', u ''Error'', u ''Symbol''] then Some (to_lower name) else None)"

definition toType :: "heap \<Rightarrow> val \<Rightarrow> ustr" where
  "toType h obj =
    (if obj = Undef then u ''undefined'' else if obj = Null then u ''null''
     else if typeof h obj = u ''object'' \<or> typeof h obj = u ''function''
     then (case class2type (toString_tag h obj) of Some t \<Rightarrow> t | None \<Rightarrow> u ''object'')
     else typeof h obj)"

definition jq_isFunction :: "heap \<Rightarrow> val \<Rightarrow> bool" where
  "jq_isFunction h obj \<longleftrightarrow> typeof h obj = u ''function'' \<and> typeof h (get_prop h obj (u ''nodeType'')) \<noteq> u ''number''"

definition jq_isWindow :: "heap \<Rightarrow> val \<Rightarrow> bool" where
  "jq_isWindow h obj \<longleftrightarrow> \<not> loose_null obj \<and> strict_eq obj (get_prop h obj (u ''window''))"

definition jq_isArrayLike :: "heap \<Rightarrow> val \<Rightarrow> bool" where
  "jq_isArrayLike h obj =
    (let len = (if truthy obj \<and> in_op h (u ''length'') obj then get_prop h obj (u ''length'') else Bool False);
         type = toType h obj
     in if jq_isFunction h obj \<or> jq_isWindow h obj then False
        else type = u ''array'' \<or> strict_eq len (Num (Fin 0)) \<or>
          (case len of Num (Fin n) \<Rightarrow> n > 0 \<and> in_op h (dec_int (n - 1)) obj | _ \<Rightarrow> False))"

text \<open>The source text of the constructor of plain objects.\<close>

definition ObjectFunctionString :: ustr where
  "ObjectFunctionString = u ''function Object() { [native code] }''"

definition isPlainObject :: "heap \<Rightarrow> val \<Rightarrow> bool" where
  "isPlainObject h obj =
    (if \<not> truthy obj \<or> toString_tag h obj \<noteq> u ''Object'' then False
     else case obj of
       Ref r \<Rightarrow>
         (case proto (obj_at h r) of None \<Rightarrow> True
          | Some p \<Rightarrow>
              (case own_get (obj_at h p) (u ''constructor'') of
                 Some (Ref f) \<Rightarrow> typeof h (Ref f) = u ''function'' \<and> prim (obj_at h f) = Str ObjectFunctionString
               | _ \<Rightarrow> False))
     | _ \<Rightarrow> False)"

definition isEmptyObject :: "heap \<Rightarrow> val \<Rightarrow> bool" where
  "isEmptyObject h obj \<longleftrightarrow> allKeys h obj = []"

section \<open>Array utilities\<close>

text \<open>\<open>jQuery.each\<close>: the callback gets the index and the value, changes a state, and stops the loop by
  returning \<open>false\<close>.\<close>

fun jq_each :: "(key \<Rightarrow> 'a \<Rightarrow> 's \<Rightarrow> 's \<times> bool) \<Rightarrow> (key \<times> 'a) list \<Rightarrow> 's \<Rightarrow> 's" where
  "jq_each callback [] s = s"
| "jq_each callback ((i, v) # rest) s =
    (case callback i v s of (s', go) \<Rightarrow> if \<not> go then s' else jq_each callback rest s')"

definition jq_merge :: "'a list \<Rightarrow> 'a list \<Rightarrow> 'a list" where
  "jq_merge first second = first @ second"

text \<open>The argument of \<open>makeArray\<close>: \<open>null\<close>, an array, or a single value (a string is one).\<close>

datatype 'a arrayish = ANull | AList "'a list" | AOne 'a

definition makeArray :: "'a arrayish \<Rightarrow> 'a list \<Rightarrow> 'a list" where
  "makeArray arr results = (case arr of ANull \<Rightarrow> results
     | AList xs \<Rightarrow> jq_merge results xs | AOne x \<Rightarrow> results @ [x])"

definition inArray :: "'a \<Rightarrow> 'a list option \<Rightarrow> nat \<Rightarrow> int" where
  "inArray elem arr i = (case arr of None \<Rightarrow> -1
     | Some xs \<Rightarrow> (case arr_index elem (drop i xs) of None \<Rightarrow> -1 | Some k \<Rightarrow> int (i + k)))"

fun grep_loop :: "('a \<Rightarrow> nat \<Rightarrow> bool) \<Rightarrow> bool \<Rightarrow> nat \<Rightarrow> 'a list \<Rightarrow> 'a list \<Rightarrow> 'a list" where
  "grep_loop callback callbackExpect i [] matches = matches"
| "grep_loop callback callbackExpect i (x # xs) matches =
    (let callbackInverse = (\<not> callback x i)
     in grep_loop callback callbackExpect (Suc i) xs
          (if callbackInverse \<noteq> callbackExpect then matches @ [x] else matches))"

definition jq_grep :: "'a list \<Rightarrow> ('a \<Rightarrow> nat \<Rightarrow> bool) \<Rightarrow> bool \<Rightarrow> 'a list" where
  "jq_grep xs callback invert = grep_loop callback (\<not> invert) 0 xs []"

text \<open>\<open>jQuery.map\<close>: a callback returns nothing, a value or an array, whose members are taken over.\<close>

datatype 'b mapped = MNull | MVal 'b | MArr "'b list"

fun map_loop :: "('a \<Rightarrow> key \<Rightarrow> 'b mapped) \<Rightarrow> (key \<times> 'a) list \<Rightarrow> 'b mapped list \<Rightarrow> 'b mapped list" where
  "map_loop callback [] ret = ret"
| "map_loop callback ((i, x) # xs) ret =
    (let value = callback x i in map_loop callback xs (if value \<noteq> MNull then ret @ [value] else ret))"

definition jq_flat :: "'b mapped list \<Rightarrow> 'b list" where
  "jq_flat ret = concat (map (\<lambda>m. case m of MNull \<Rightarrow> [] | MVal v \<Rightarrow> [v] | MArr vs \<Rightarrow> vs) ret)"

definition jq_map :: "(key \<times> 'a) list \<Rightarrow> ('a \<Rightarrow> key \<Rightarrow> 'b mapped) \<Rightarrow> 'b list" where
  "jq_map xs callback = jq_flat (map_loop callback xs [])"

definition indexed :: "'a list \<Rightarrow> (key \<times> 'a) list" where
  "indexed xs = zip (map KIdx [0..<length xs]) xs"

section \<open>Sets of elements\<close>

datatype 'a jq = JQ "'a list" "'a jq option"

fun jq_elems :: "'a jq \<Rightarrow> 'a list" where "jq_elems (JQ xs p) = xs"
fun prevObject :: "'a jq \<Rightarrow> 'a jq option" where "prevObject (JQ xs p) = p"

definition jq_toArray :: "'a jq \<Rightarrow> 'a list" where
  "jq_toArray self = jq_elems self"

definition jq_get :: "'a jq \<Rightarrow> int \<Rightarrow> 'a option" where
  "jq_get self num =
    (let i = (if num < 0 then num + int (length (jq_elems self)) else num)
     in if 0 \<le> i \<and> i < int (length (jq_elems self)) then Some (jq_elems self ! nat i) else None)"

definition pushStack :: "'a jq \<Rightarrow> 'a list \<Rightarrow> 'a jq" where
  "pushStack self xs = JQ (jq_merge [] xs) (Some self)"

definition jq_fn_map :: "'a jq \<Rightarrow> (nat \<Rightarrow> 'a \<Rightarrow> 'a mapped) \<Rightarrow> 'a jq" where
  "jq_fn_map self callback =
    pushStack self (jq_map (indexed (jq_elems self)) (\<lambda>elem i. case i of KIdx n \<Rightarrow> callback n elem | KName _ \<Rightarrow> MNull))"

definition jq_slice :: "'a jq \<Rightarrow> int \<Rightarrow> int \<Rightarrow> 'a jq" where
  "jq_slice self i j = pushStack self (slice (jq_elems self) i j)"

definition jq_eq :: "'a jq \<Rightarrow> int \<Rightarrow> 'a jq" where
  "jq_eq self i =
    (let len = int (length (jq_elems self)); j = i + (if i < 0 then len else 0)
     in pushStack self (if j \<ge> 0 \<and> j < len then [jq_elems self ! nat j] else []))"

definition jq_first :: "'a jq \<Rightarrow> 'a jq" where "jq_first self = jq_eq self 0"
definition jq_last :: "'a jq \<Rightarrow> 'a jq" where "jq_last self = jq_eq self (-1)"

definition jq_even :: "'a jq \<Rightarrow> 'a jq" where
  "jq_even self = pushStack self (jq_grep (jq_elems self) (\<lambda>_ i. (i + 1) mod 2 \<noteq> 0) False)"

definition jq_odd :: "'a jq \<Rightarrow> 'a jq" where
  "jq_odd self = pushStack self (jq_grep (jq_elems self) (\<lambda>_ i. i mod 2 \<noteq> 0) False)"

definition jq_end :: "'a jq \<Rightarrow> 'a jq" where
  "jq_end self = (case prevObject self of Some p \<Rightarrow> p | None \<Rightarrow> JQ [] None)"

section \<open>Extend\<close>

text \<open>A store to a property: an index of an array changes or extends its elements.\<close>

definition index_of_name :: "heap \<Rightarrow> nat \<Rightarrow> ustr \<Rightarrow> nat option" where
  "index_of_name h t name =
    (if has_elems (obj_at h t) \<and> name = dec_nat (undec name) then Some (undec name) else None)"

definition put_any :: "heap \<Rightarrow> nat \<Rightarrow> ustr \<Rightarrow> val \<Rightarrow> heap" where
  "put_any h t name v = (case index_of_name h t name of
     None \<Rightarrow> put_prop h t name v
   | Some i \<Rightarrow> h[t := (obj_at h t) \<lparr> elems :=
        (elems (obj_at h t) @ replicate (Suc i - length (elems (obj_at h t))) Undef)[i := v] \<rparr>])"

definition proto_name :: ustr where
  "proto_name = u ''__proto__''"

definition clone_for :: "heap \<Rightarrow> val \<Rightarrow> val \<Rightarrow> heap \<times> val" where
  "clone_for h src copy =
    (let copyIsArray = (\<not> isPlainObject h copy \<and> isArray h copy)
     in if copyIsArray \<and> \<not> isArray h src then alloc h (new_array [])
        else if \<not> copyIsArray \<and> \<not> isPlainObject h src then alloc h new_obj
        else (h, src))"

fun ext_names :: "nat \<Rightarrow> bool \<Rightarrow> heap \<Rightarrow> nat \<Rightarrow> val \<Rightarrow> ustr list \<Rightarrow> heap option" where
  "ext_names n deep h target options [] = Some h"
| "ext_names 0 deep h target options (name # names) = None"
| "ext_names (Suc n) deep h target options (name # names) =
    (let copy = get_prop h options name
     in if name = proto_name \<or> copy = Ref target then ext_names n deep h target options names
        else if deep \<and> truthy copy \<and> (isPlainObject h copy \<or> isArray h copy)
        then (case clone_for h (get_prop h (Ref target) name) copy of
                (h1, Ref c) \<Rightarrow>
                  (case ext_names n deep h1 c copy (allKeys h1 copy) of
                     None \<Rightarrow> None
                   | Some h2 \<Rightarrow> ext_names n deep (put_any h2 target name (Ref c)) target options names)
              | _ \<Rightarrow> None)
        else if copy \<noteq> Undef then ext_names n deep (put_any h target name copy) target options names
        else ext_names n deep h target options names)"

fun ext_args :: "nat \<Rightarrow> bool \<Rightarrow> heap \<Rightarrow> nat \<Rightarrow> val list \<Rightarrow> heap option" where
  "ext_args n deep h target [] = Some h"
| "ext_args n deep h target (options # rest) =
    (if loose_null options then ext_args n deep h target rest
     else case ext_names n deep h target options (allKeys h options) of
       None \<Rightarrow> None | Some h' \<Rightarrow> ext_args n deep h' target rest)"

text \<open>\<open>jQuery.extend\<close>: an optional flag, the target, the sources; \<open>this\<close> is the target when there is only
  one object.\<close>

definition jq_extend :: "nat \<Rightarrow> heap \<Rightarrow> val \<Rightarrow> val list \<Rightarrow> (heap \<times> val) option" where
  "jq_extend n h this args =
    (let deep = (args \<noteq> [] \<and> hd args = Bool True);
         rest = (if deep then tl args else args);
         target = (case rest of t # _ \<Rightarrow> t | [] \<Rightarrow> Undef);
         (h, target) = (if truthy target \<and> (typeof h target = u ''object'' \<or> jq_isFunction h target)
                        then (h, target) else alloc h new_obj);
         (target, sources) = (if length rest = 1 then (this, rest) else (target, tl rest))
     in case target of
          Ref t \<Rightarrow> map_option (\<lambda>h'. (h', target)) (ext_args n deep h t sources)
        | _ \<Rightarrow> None)"

section \<open>Lemmas\<close>

lemma grep_loop_eq:
  "grep_loop f e i xs ms = ms @ map fst (filter (\<lambda>(x, k). f x k = e) (zip xs [i..<i + length xs]))"
proof (induction f e i xs ms rule: grep_loop.induct)
  case (2 f e i x xs ms)
  have "[i..<i + length (x # xs)] = i # [Suc i..<Suc i + length xs]" by (simp del: upt_Suc add: upt_conv_Cons)
  with 2 show ?case by (auto simp: Let_def)
qed simp

text \<open>The elements at even and at odd positions are all elements.\<close>

lemma even_odd: "mset (jq_elems (jq_even s)) + mset (jq_elems (jq_odd s)) = mset (jq_elems s)"
proof -
  have p: "mset (filter (\<lambda>(x, k). Suc k mod 2 \<noteq> 0) ps) + mset (filter (\<lambda>(x, k). k mod 2 \<noteq> 0) ps) = mset ps"
    for ps :: "('a \<times> nat) list"
    by (induction ps) (auto simp: mod_Suc)
  let ?ps = "zip (jq_elems s) [0..<length (jq_elems s)]"
  have "jq_elems (jq_even s) = map fst (filter (\<lambda>(x, k). Suc k mod 2 \<noteq> 0) ?ps)"
    "jq_elems (jq_odd s) = map fst (filter (\<lambda>(x, k). k mod 2 \<noteq> 0) ?ps)"
    by (simp_all add: jq_even_def jq_odd_def pushStack_def jq_merge_def jq_grep_def grep_loop_eq)
  then have "mset (jq_elems (jq_even s)) + mset (jq_elems (jq_odd s)) =
      image_mset fst (mset (filter (\<lambda>(x, k). Suc k mod 2 \<noteq> 0) ?ps) + mset (filter (\<lambda>(x, k). k mod 2 \<noteq> 0) ?ps))"
    by (simp only: mset_map image_mset_union)
  also have "\<dots> = image_mset fst (mset ?ps)" by (simp only: p)
  also have "\<dots> = mset (jq_elems s)" by (simp flip: mset_map)
  finally show ?thesis .
qed

lemma end_pushStack [simp]: "jq_end (pushStack s xs) = s"
  by (simp add: jq_end_def pushStack_def)

section \<open>No prototype pollution\<close>

text \<open>\<open>same_protos\<close>: the objects that were there have what they had under the name \<open>__proto__\<close>, and the
  same prototype; new objects have neither.\<close>

definition same_protos :: "heap \<Rightarrow> heap \<Rightarrow> bool" where
  "same_protos h h' \<longleftrightarrow> length h \<le> length h' \<and>
     (\<forall>r < length h'. dget (props (obj_at h' r)) proto_name = dget (props (obj_at h r)) proto_name \<and>
        proto (obj_at h' r) = proto (obj_at h r))"

lemma same_protos_refl [simp]: "same_protos h h"
  by (simp add: same_protos_def)

lemma same_protos_trans: "same_protos h1 h2 \<Longrightarrow> same_protos h2 h3 \<Longrightarrow> same_protos h1 h3"
proof -
  assume a: "same_protos h1 h2" "same_protos h2 h3"
  have "dget (props (obj_at h2 r)) proto_name = dget (props (obj_at h1 r)) proto_name \<and>
      proto (obj_at h2 r) = proto (obj_at h1 r)" for r
    using a(1) by (cases "r < length h2") (auto simp: same_protos_def obj_at_def)
  with a show ?thesis by (auto simp: same_protos_def)
qed

lemma same_protos_put: "name \<noteq> proto_name \<Longrightarrow> same_protos h (put_any h t name v)"
  by (auto simp: same_protos_def put_any_def put_prop_def obj_at_def nth_list_update split: option.split)

lemma same_protos_clone: "clone_for h src copy = (h', v) \<Longrightarrow> same_protos h h'"
  by (auto simp: clone_for_def Let_def alloc_def same_protos_def obj_at_def nth_append new_array_def new_obj_def
      split: if_splits)

lemma ext_names_protos: "ext_names n deep h t options names = Some h' \<Longrightarrow> same_protos h h'"
proof (induction n deep h t options names arbitrary: h' rule: ext_names.induct)
  case (3 n deep h t options name names)
  let ?copy = "get_prop h options name"
  show ?case
  proof (cases "name = proto_name \<or> ?copy = Ref t")
    case True
    with 3(6) have e: "ext_names n deep h t options names = Some h'" by (simp only: ext_names.simps Let_def if_True)
    show ?thesis by (rule 3(1) [OF refl True e])
  next
    case no: False
    show ?thesis
    proof (cases "deep \<and> truthy ?copy \<and> (isPlainObject h ?copy \<or> isArray h ?copy)")
      case True
      obtain h1 v where c: "clone_for h (get_prop h (Ref t) name) ?copy = (h1, v)" by fastforce
      from 3(6) no True c obtain k h2 where v: "v = Ref k"
        and e1: "ext_names n deep h1 k ?copy (allKeys h1 ?copy) = Some h2"
        and e2: "ext_names n deep (put_any h2 t name (Ref k)) t options names = Some h'"
        by (auto simp: Let_def split: val.splits option.splits)
      have "same_protos h h1" by (rule same_protos_clone [OF c])
      moreover have "same_protos h1 h2" using 3(2) [OF refl no True c [symmetric, unfolded v] refl] e1 v by blast
      moreover have "same_protos h2 (put_any h2 t name (Ref k))" using no by (intro same_protos_put) simp
      moreover have "same_protos (put_any h2 t name (Ref k)) h'"
        using 3(3) [OF refl no True c [symmetric, unfolded v] refl e1 e2] .
      ultimately show ?thesis by (blast intro: same_protos_trans)
    next
      case nd: False
      show ?thesis
      proof (cases "?copy = Undef")
        case True
        with 3(6) no nd have e: "ext_names n deep h t options names = Some h'"
          by (simp only: ext_names.simps Let_def if_False simp_thms)
        from True have "\<not> ?copy \<noteq> Undef" by simp
        from 3(5) [OF refl no nd this e] show ?thesis .
      next
        case False
        then have u: "?copy \<noteq> Undef" .
        have e: "ext_names n deep (put_any h t name ?copy) t options names = Some h'"
          using 3(6) no nd u by (simp only: ext_names.simps Let_def if_False if_True simp_thms)
        have "same_protos (put_any h t name ?copy) h'" by (rule 3(4) [OF refl no nd u e])
        moreover have "same_protos h (put_any h t name ?copy)" using no by (intro same_protos_put) simp
        ultimately show ?thesis by (blast intro: same_protos_trans)
      qed
    qed
  qed
qed auto


lemma ext_args_protos: "ext_args n deep h t rest = Some h' \<Longrightarrow> same_protos h h'"
proof (induction n deep h t rest arbitrary: h' rule: ext_args.induct)
  case (2 n deep h t options rest)
  then show ?case
    by (auto split: if_splits option.splits intro: same_protos_trans ext_names_protos)
qed simp

text \<open>Whatever the sources hold, their own property \<open>__proto__\<close> included, \<open>extend\<close> changes the prototype of
  no object and stores nothing under that name, in the target and in the objects it merges into.\<close>

theorem extend_no_pollution:
  assumes "jq_extend n h this args = Some (h', v)" "r < length h"
  shows "dget (props (obj_at h' r)) (u ''__proto__'') = dget (props (obj_at h r)) (u ''__proto__'') \<and>
    proto (obj_at h' r) = proto (obj_at h r)"
proof -
  have a: "same_protos h (fst (alloc h new_obj))"
    by (auto simp: same_protos_def alloc_def obj_at_def nth_append new_obj_def)
  from assms(1) obtain h1 deep t sources where "ext_args n deep h1 t sources = Some h'" "h1 = h \<or> h1 = fst (alloc h new_obj)"
    by (auto simp: jq_extend_def Let_def split: if_splits val.splits prod.splits)
  with a have "same_protos h h'" by (metis ext_args_protos same_protos_refl same_protos_trans)
  with assms(2) show ?thesis by (simp add: same_protos_def proto_name_def)
qed

definition polluting_heap :: heap where
  "polluting_heap = [new_obj,
     new_obj \<lparr> props := [(u ''__proto__'', Ref 2), (u ''a'', Ref 3)] \<rparr>,
     new_obj \<lparr> props := [(u ''polluted'', Num (Fin 1))] \<rparr>,
     new_obj \<lparr> props := [(u ''__proto__'', Ref 2), (u ''b'', Num (Fin 2))] \<rparr>]"

theorem extend_no_pollution_witness:
  "map_option (\<lambda>(h, v). map (\<lambda>o'. (props o', proto o')) (drop 4 h)) (jq_extend 9 polluting_heap Undef [Bool True, Ref 0, Ref 1])
     = Some [([(u ''b'', Num (Fin 2))], None)] \<and>
   dget (props (obj_at (fst (the (jq_extend 9 polluting_heap Undef [Bool True, Ref 0, Ref 1]))) 0)) (u ''__proto__'') = None"
proof -
  have m: "map_option (\<lambda>(h, v). map (\<lambda>o'. (props o', proto o')) (drop 4 h)) (jq_extend 9 polluting_heap Undef [Bool True, Ref 0, Ref 1])
     = Some [([(u ''b'', Num (Fin 2))], None)]" by code_simp
  then obtain h v where e: "jq_extend 9 polluting_heap Undef [Bool True, Ref 0, Ref 1] = Some (h, v)"
    by (cases "jq_extend 9 polluting_heap Undef [Bool True, Ref 0, Ref 1]") auto
  have "0 < length polluting_heap" "dget (props (obj_at polluting_heap 0)) (u ''__proto__'') = None" by code_simp+
  with extend_no_pollution [OF e, of 0] m e show ?thesis by simp
qed

end
