(* ===== verification/JqData.thy ===== *)
theory JqData
  imports JqCallbacks
begin

text \<open>
  The data store of jQuery (\<open>jquery-3.5.1.js\<close>, lines 4204 to 4385): values kept with an element or
  another object under a property that belongs to the store.  An owner has a node type (0 when it
  is no node), its attributes, and the cache of each store; a cache maps keys to values, \<open>None\<close>
  being a stored \<open>undefined\<close>.  The names a cache inherits from \<open>Object.prototype\<close> are left out.
\<close>

section \<open>Keys in camel case\<close>

fun dash_alpha :: "ustr \<Rightarrow> ustr" where
  "dash_alpha (c # d # s) =
    (if c = 45 \<and> 97 \<le> d \<and> d \<le> 122 then to_upper_unit d # dash_alpha s else c # dash_alpha (d # s))"
| "dash_alpha s = s"

definition ms_prefix :: "ustr \<Rightarrow> ustr" where
  "ms_prefix s = (if starts_with (u ''-ms-'') s then u ''ms-'' @ drop 4 s else s)"

definition camelCase :: "ustr \<Rightarrow> ustr" where
  "camelCase s = dash_alpha (ms_prefix s)"

section \<open>The store\<close>

type_synonym 'v cache = "'v option dict"

record 'v owner =
  nodeType :: int
  attributes :: "ustr dict"
  caches :: "ustr \<Rightarrow> 'v cache option"

text \<open>Keys: nothing, a string, or an object of properties; to remove, nothing, a string, or an array.\<close>

datatype 'v dkey = KUndef | KStr ustr | KObj "'v cache"

datatype rkey = RAll | RStr ustr | RArr "ustr list"

datatype 'v dres = RUndef | RVal 'v | RCache "'v cache" | RKey "'v dkey"

definition acceptData :: "'v owner \<Rightarrow> bool" where
  "acceptData owner \<longleftrightarrow> nodeType owner = 1 \<or> nodeType owner = 9 \<or> nodeType owner = 0"

definition Data :: "ustr \<Rightarrow> nat \<Rightarrow> ustr \<times> nat" where
  "Data jq_expando uid = (jq_expando @ dec_nat uid, uid + 1)"

definition dataPriv :: "ustr \<Rightarrow> ustr" where
  "dataPriv jq_expando = fst (Data jq_expando 1)"

definition dataUser :: "ustr \<Rightarrow> ustr" where
  "dataUser jq_expando = fst (Data jq_expando (snd (Data jq_expando 1)))"

definition set_cache :: "ustr \<Rightarrow> 'v cache option \<Rightarrow> 'v owner \<Rightarrow> 'v owner" where
  "set_cache expando c owner = owner \<lparr> caches := (caches owner)(expando := c) \<rparr>"

text \<open>\<open>cache\<close> attaches a new cache only to an owner that takes data.\<close>

definition data_cache :: "ustr \<Rightarrow> 'v owner \<Rightarrow> 'v owner \<times> 'v cache" where
  "data_cache expando owner = (case caches owner expando of
     Some value \<Rightarrow> (owner, value)
   | None \<Rightarrow> (if acceptData owner then set_cache expando (Some []) owner else owner, []))"

text \<open>The result of \<open>set\<close> is the changed cache, which is the owner's when it is attached.\<close>

definition put_keys :: "'v dkey \<Rightarrow> 'v option \<Rightarrow> 'v cache \<Rightarrow> 'v cache" where
  "put_keys data value c = (case data of
     KStr k \<Rightarrow> dput (camelCase k) value c
   | KObj ps \<Rightarrow> fold (\<lambda>(prop, v). dput (camelCase prop) v) ps c
   | KUndef \<Rightarrow> c)"

definition data_set :: "ustr \<Rightarrow> 'v owner \<Rightarrow> 'v dkey \<Rightarrow> 'v option \<Rightarrow> 'v owner \<times> 'v cache" where
  "data_set expando owner data value =
    (case data_cache expando owner of (owner', c) \<Rightarrow>
       let c' = put_keys data value c
       in (if caches owner' expando = None then owner' else set_cache expando (Some c') owner', c'))"

definition data_get :: "ustr \<Rightarrow> 'v owner \<Rightarrow> ustr \<Rightarrow> 'v option" where
  "data_get expando owner key = (case caches owner expando of None \<Rightarrow> None
     | Some c \<Rightarrow> (case dget c (camelCase key) of Some (Some v) \<Rightarrow> Some v | _ \<Rightarrow> None))"

definition data_access :: "ustr \<Rightarrow> 'v owner \<Rightarrow> 'v dkey \<Rightarrow> 'v option \<Rightarrow> 'v owner \<times> 'v dres" where
  "data_access expando owner key value =
    (let of_val = (\<lambda>v. case v of None \<Rightarrow> RUndef | Some x \<Rightarrow> RVal x);
         write = (fst (data_set expando owner key value),
                  case value of Some v \<Rightarrow> RVal v | None \<Rightarrow> RKey key)
     in case key of
       KUndef \<Rightarrow> (case data_cache expando owner of (owner', c) \<Rightarrow> (owner', RCache c))
     | KStr k \<Rightarrow> if k \<noteq> [] \<and> value = None then (owner, of_val (data_get expando owner k)) else write
     | _ \<Rightarrow> write)"

text \<open>\<open>value.match(rnothtmlwhite) || []\<close>: the words of a text.\<close>

definition html_words :: "ustr \<Rightarrow> ustr list" where
  "html_words value = flags_loop [] value"

definition remove_keys :: "rkey \<Rightarrow> 'v cache \<Rightarrow> 'v cache" where
  "remove_keys key c = (case key of
     RArr ks \<Rightarrow> foldr ddel (map camelCase ks) c
   | RStr k \<Rightarrow> (let k' = camelCase k
       in foldr ddel (if dget c k' \<noteq> None then [k'] else html_words k') c)
   | RAll \<Rightarrow> c)"

definition data_remove :: "ustr \<Rightarrow> 'v owner \<Rightarrow> rkey \<Rightarrow> 'v owner" where
  "data_remove expando owner key = (case caches owner expando of
     None \<Rightarrow> owner
   | Some c \<Rightarrow> (let c' = remove_keys key c
       in set_cache expando (if key = RAll \<or> c' = [] then None else Some c') owner))"

definition data_hasData :: "ustr \<Rightarrow> 'v owner \<Rightarrow> bool" where
  "data_hasData expando owner = (case caches owner expando of None \<Rightarrow> False | Some c \<Rightarrow> c \<noteq> [])"

text \<open>The functions on \<open>jQuery\<close> itself.\<close>

definition jq_hasData :: "ustr \<Rightarrow> 'v owner \<Rightarrow> bool" where
  "jq_hasData x elem \<longleftrightarrow> data_hasData (dataUser x) elem \<or> data_hasData (dataPriv x) elem"

definition jq_data :: "ustr \<Rightarrow> 'v owner \<Rightarrow> 'v dkey \<Rightarrow> 'v option \<Rightarrow> 'v owner \<times> 'v dres" where
  "jq_data x elem name data = data_access (dataUser x) elem name data"

definition jq_removeData :: "ustr \<Rightarrow> 'v owner \<Rightarrow> rkey \<Rightarrow> 'v owner" where
  "jq_removeData x elem name = data_remove (dataUser x) elem name"

definition jq_priv_data :: "ustr \<Rightarrow> 'v owner \<Rightarrow> 'v dkey \<Rightarrow> 'v option \<Rightarrow> 'v owner \<times> 'v dres" where
  "jq_priv_data x elem name data = data_access (dataPriv x) elem name data"

definition jq_priv_removeData :: "ustr \<Rightarrow> 'v owner \<Rightarrow> rkey \<Rightarrow> 'v owner" where
  "jq_priv_removeData x elem name = data_remove (dataPriv x) elem name"

section \<open>Lemmas on keys\<close>

lemma dash_alpha_upper [simp]: "97 \<le> d \<Longrightarrow> d \<le> 122 \<Longrightarrow> to_upper_unit d = d - 32"
  by (simp add: to_upper_unit_def)

lemma dash_alpha_append:
  "s = [] \<or> last s \<noteq> 45 \<Longrightarrow> dash_alpha (s @ t) = dash_alpha s @ dash_alpha t"
proof (induction s rule: dash_alpha.induct, goal_cases)
  case (1 c d s)
  then show ?case by (cases s) auto
next
  case (3 c)
  then show ?case by (cases t) auto
qed auto

text \<open>A camel-cased text has no dash in front of a letter.\<close>

fun no_dash_alpha :: "ustr \<Rightarrow> bool" where
  "no_dash_alpha (c # d # s) \<longleftrightarrow> \<not> (c = 45 \<and> 97 \<le> d \<and> d \<le> 122) \<and> no_dash_alpha (d # s)"
| "no_dash_alpha s = True"

lemma no_dash_alpha_id: "no_dash_alpha s \<Longrightarrow> dash_alpha s = s"
  by (induction s rule: no_dash_alpha.induct) auto

lemma no_dash_alpha_Cons: "no_dash_alpha s \<Longrightarrow> c \<noteq> 45 \<or> s = [] \<or> \<not> (97 \<le> hd s \<and> hd s \<le> 122) \<Longrightarrow> no_dash_alpha (c # s)"
  by (cases s) auto

lemma dash_alpha_hd: "dash_alpha (d # s) \<noteq> [] \<and> (hd (dash_alpha (d # s)) = d \<or>
    (\<not> (97 \<le> hd (dash_alpha (d # s)) \<and> hd (dash_alpha (d # s)) \<le> 122)))"
  by (cases s) auto

lemma no_dash_alpha_dash_alpha: "no_dash_alpha (dash_alpha s)"
proof (induction s rule: dash_alpha.induct)
  case (1 c d s)
  show ?case
  proof (cases "c = 45 \<and> 97 \<le> d \<and> d \<le> 122")
    case True
    with 1(1) [OF True] show ?thesis by (auto intro!: no_dash_alpha_Cons)
  next
    case False
    with 1(2) [OF False] dash_alpha_hd [of d s] show ?thesis
      by (simp only: dash_alpha.simps if_False) (auto intro!: no_dash_alpha_Cons)
  qed
qed auto

lemma camelCase_idem [simp]: "camelCase (camelCase s) = camelCase s"
proof -
  have n: "no_dash_alpha (camelCase s)" by (simp add: camelCase_def no_dash_alpha_dash_alpha)
  then have "\<not> starts_with (u ''-ms-'') (camelCase s)"
    by (cases "camelCase s" rule: no_dash_alpha.cases) (auto simp: starts_with_def ulit)
  with n show ?thesis by (simp only: camelCase_def [of "camelCase s"] ms_prefix_def if_False no_dash_alpha_id)
qed

lemma dataPriv_User [simp]: "dataPriv x \<noteq> dataUser x"
  by (simp add: dataPriv_def dataUser_def Data_def dec_nat_inj)

section \<open>The contract of a store\<close>

text \<open>A store of values under keys, where keys with the same normal form are the same.\<close>

locale keyed_store =
  fixes get :: "'s \<Rightarrow> 'k \<Rightarrow> 'v option"
    and put :: "'s \<Rightarrow> 'k \<Rightarrow> 'v \<Rightarrow> 's"
    and norm :: "'k \<Rightarrow> 'n"
    and ok :: "'s \<Rightarrow> bool"
  assumes get_put: "ok s \<Longrightarrow> get (put s k v) j = (if norm j = norm k then Some v else get s j)"
    and ok_put: "ok s \<Longrightarrow> ok (put s k v)"
begin

lemma lookup_put_same: "ok s \<Longrightarrow> get (put s k v) k = Some v"
  by (simp add: get_put)

lemma lookup_put_commute: "ok s \<Longrightarrow> norm j \<noteq> norm k \<Longrightarrow> get (put (put s j v) k w) i = get (put (put s k w) j v) i"
  by (simp add: get_put ok_put)

lemma lookup_put_all:
  "ok s \<Longrightarrow> get (fold (\<lambda>(k, v) s. put s k v) kvs s) j =
     (case List.find (\<lambda>p. norm (fst p) = norm j) (rev kvs) of Some p \<Rightarrow> Some (snd p) | None \<Rightarrow> get s j)"
proof (induction kvs arbitrary: s)
  case (Cons p kvs)
  obtain k v where p: "p = (k, v)" by fastforce
  have f: "List.find P (xs @ [x]) = (case List.find P xs of Some y \<Rightarrow> Some y | None \<Rightarrow> if P x then Some x else None)"
    for P :: "'k \<times> 'v \<Rightarrow> bool" and xs x by (induction xs) auto
  from Cons show ?case by (auto simp: p f ok_put get_put split: option.split)
qed simp

end

lemma data_get_set_str:
  assumes "acceptData o' \<or> caches o' x \<noteq> None"
  shows "data_get x (fst (data_set x o' (KStr k) (Some v))) j =
    (if camelCase j = camelCase k then Some v else data_get x o' j)"
  using assms
  by (auto simp: data_get_def data_set_def data_cache_def put_keys_def set_cache_def Let_def split: option.split)

lemma acceptData_set [simp]: "acceptData (fst (data_set x o' k v)) = acceptData o'"
  by (auto simp: data_set_def data_cache_def set_cache_def acceptData_def Let_def split: option.split)

lemma nodeType_set [simp]: "nodeType (fst (data_set x o' k v)) = nodeType o'"
  by (auto simp: data_set_def data_cache_def set_cache_def Let_def split: option.split)

lemma attributes_set [simp]: "attributes (fst (data_set x o' k v)) = attributes o'"
  by (auto simp: data_set_def data_cache_def set_cache_def Let_def split: option.split)

lemma data_set_other [simp]: "y \<noteq> x \<Longrightarrow> caches (fst (data_set x o' k v)) y = caches o' y"
  by (auto simp: data_set_def data_cache_def set_cache_def Let_def split: option.split)

interpretation data: keyed_store "data_get x" "\<lambda>o' k v. fst (data_set x o' (KStr k) (Some v))" camelCase acceptData
  by unfold_locales (simp_all add: data_get_set_str)

text \<open>A value set under a key is what the store gives back for every spelling of the key that has the
  same camel case; other keys, the other store and the kind of the owner do not change.\<close>

theorem data_set_get:
  assumes "acceptData elem"
  shows "data_get (dataUser x) (fst (jq_data x elem (KStr k) (Some v))) j =
      (if camelCase j = camelCase k then Some v else data_get (dataUser x) elem j) \<and>
    data_get (dataPriv x) (fst (jq_data x elem (KStr k) (Some v))) j = data_get (dataPriv x) elem j \<and>
    jq_hasData x (fst (jq_data x elem (KStr k) (Some v)))"
proof -
  have e: "fst (jq_data x elem (KStr k) (Some v)) = fst (data_set (dataUser x) elem (KStr k) (Some v))"
    by (simp add: jq_data_def data_access_def Let_def)
  have n: "dput i w c \<noteq> []" for i :: ustr and w :: "'a option" and c by (induction i w c rule: dput.induct) auto
  from assms n have "data_hasData (dataUser x) (fst (data_set (dataUser x) elem (KStr k) (Some v)))"
    by (auto simp: data_hasData_def data_set_def data_cache_def set_cache_def put_keys_def Let_def split: option.split)
  moreover have "data_get (dataPriv x) (fst (data_set (dataUser x) elem (KStr k) (Some v))) j = data_get (dataPriv x) elem j"
    using data_set_other [OF dataPriv_User] by (simp add: data_get_def)
  ultimately show ?thesis using data.get_put [OF assms] by (simp add: e jq_hasData_def)
qed

definition plain_owner :: "nat owner" where
  "plain_owner = \<lparr> nodeType = 1, attributes = [], caches = (\<lambda>_. None) \<rparr>"

theorem data_set_get_witness:
  "data_get (dataUser (u ''jQuery7'')) (fst (jq_data (u ''jQuery7'') plain_owner (KStr (u ''data-key'')) (Some 5))) (u ''dataKey'') = Some 5"
proof -
  have "acceptData plain_owner" by code_simp
  from data_set_get [OF this, of "u ''jQuery7''" "u ''data-key''" 5 "u ''dataKey''"] show ?thesis
    by (simp, code_simp)
qed

end
