(* ===== verification/JqQueue.thy ===== *)
theory JqQueue
  imports JqData
begin

text \<open>
  The function queues of jQuery (\<open>jquery-3.5.1.js\<close>, lines 4557 to 4689).  A queue and its hooks are
  data of an element, in the private store.  A queued function is an identity and what it does
  when it runs: calling \<open>next\<close> or queueing more functions of the same type.  The hooks keep the functions to
  call when the queue is used up; the first of them, which removes the data, is part of \<open>fire_empty\<close>.
  The trace records what happens.
\<close>

datatype qact = QNext | QPush qfn
and qfn = QF nat "qact list"

datatype qitem = InProgress | Item qfn

datatype qval = VQueue "qitem list" | VHooks "nat option" "nat list"

datatype qdata = DataFn qfn | DataArr "qitem list"

datatype qevent = Queued nat | Started nat | NextCalled | EmptyFired | Resolved nat

type_synonym qelem = "qval owner"

fun qid :: "qfn \<Rightarrow> nat" where "qid (QF i as) = i"
fun qacts :: "qfn \<Rightarrow> qact list" where "qacts (QF i as) = as"

definition queue_key :: "ustr \<Rightarrow> ustr" where "queue_key type = type @ u ''queue''"
definition hooks_key :: "ustr \<Rightarrow> ustr" where "hooks_key type = type @ u ''queueHooks''"

definition queue_of :: "ustr \<Rightarrow> qelem \<Rightarrow> ustr \<Rightarrow> qitem list option" where
  "queue_of x elem type = (case data_get (dataPriv x) elem (queue_key type) of
     Some (VQueue q) \<Rightarrow> Some q | _ \<Rightarrow> None)"

definition hooks_of :: "ustr \<Rightarrow> qelem \<Rightarrow> ustr \<Rightarrow> (nat option \<times> nat list) option" where
  "hooks_of x elem type = (case data_get (dataPriv x) elem (hooks_key type) of
     Some (VHooks st rs) \<Rightarrow> Some (st, rs) | _ \<Rightarrow> None)"

definition put_queue :: "ustr \<Rightarrow> qelem \<Rightarrow> ustr \<Rightarrow> qitem list \<Rightarrow> qelem" where
  "put_queue x elem type q = fst (data_access (dataPriv x) elem (KStr (queue_key type)) (Some (VQueue q)))"

definition put_hooks :: "ustr \<Rightarrow> qelem \<Rightarrow> ustr \<Rightarrow> nat option \<times> nat list \<Rightarrow> qelem" where
  "put_hooks x elem type hk = fst (data_access (dataPriv x) elem (KStr (hooks_key type)) (Some (VHooks (fst hk) (snd hk))))"

definition items_of :: "qdata \<Rightarrow> qitem list" where
  "items_of d = (case d of DataFn f \<Rightarrow> [Item f] | DataArr q \<Rightarrow> q)"

definition fx_type :: "ustr \<Rightarrow> ustr" where
  "fx_type type = (if type = [] then u ''fx'' else type)"

text \<open>\<open>jQuery.queue\<close>; the array is shared, so pushing changes the stored one.\<close>

definition jq_queue :: "ustr \<Rightarrow> qelem \<Rightarrow> ustr \<Rightarrow> qdata option \<Rightarrow> qelem \<times> qitem list" where
  "jq_queue x elem type d =
    (let type = fx_type type; q = queue_of x elem type
     in case d of
       None \<Rightarrow> (elem, case q of None \<Rightarrow> [] | Some q \<Rightarrow> q)
     | Some d \<Rightarrow>
         (let q' = (case (q, d) of (Some q, DataFn f) \<Rightarrow> q @ [Item f] | _ \<Rightarrow> items_of d)
          in (put_queue x elem type q', q')))"

definition queueHooks :: "ustr \<Rightarrow> qelem \<Rightarrow> ustr \<Rightarrow> qelem \<times> (nat option \<times> nat list)" where
  "queueHooks x elem type = (case hooks_of x elem type of
     Some hk \<Rightarrow> (elem, hk)
   | None \<Rightarrow> (put_hooks x elem type (None, []), (None, [])))"

text \<open>\<open>hooks.empty.fire()\<close>: the data goes, then the waiting functions are called, once.\<close>

definition fire_empty :: "ustr \<Rightarrow> qelem \<Rightarrow> ustr \<Rightarrow> nat list \<Rightarrow> qelem \<times> qevent list" where
  "fire_empty x elem type rs =
    (data_remove (dataPriv x) elem (RArr [queue_key type, hooks_key type]), EmptyFired # map Resolved rs)"

text \<open>\<open>dequeue\<close> up to the call of the function it found, which is the last thing it does then.  A queue
  that is not stored is a fresh array, whose changes nobody sees.\<close>

definition shift_queue :: "qitem list \<Rightarrow> qitem option \<times> qitem list \<times> nat" where
  "shift_queue q =
    (let n = length q
     in case q of
       InProgress # f # r \<Rightarrow> (Some f, r, n - 1)
     | [InProgress] \<Rightarrow> (None, [], n - 1)
     | f # r \<Rightarrow> (Some f, r, n)
     | [] \<Rightarrow> (None, [], n))"

definition dequeue :: "ustr \<Rightarrow> qelem \<Rightarrow> ustr \<Rightarrow> qelem \<times> qfn option \<times> qevent list" where
  "dequeue x elem ty =
    (let type = fx_type ty;
         q = snd (jq_queue x elem type None);
         (elem, hk) = queueHooks x elem type;
         (fn, q', startLength) = shift_queue q;
         q'' = (if fn \<noteq> None \<and> type = u ''fx'' then InProgress # q' else q');
         elem = (if queue_of x elem type = None then elem else put_queue x elem type q'')
     in case fn of
          Some (Item f) \<Rightarrow> (put_hooks x elem type (None, snd hk), Some f, [Started (qid f)])
        | _ \<Rightarrow> (if startLength = 0
               then (case fire_empty x elem type (snd hk) of (elem, es) \<Rightarrow> (elem, None, es))
               else (elem, None, [])))"

text \<open>\<open>.queue(type, data)\<close> on one element, up to the call of a function it starts.\<close>

definition fn_queue :: "ustr \<Rightarrow> qelem \<Rightarrow> ustr \<Rightarrow> qdata \<Rightarrow> qelem \<times> qfn option \<times> qevent list" where
  "fn_queue x elem type d =
    (let (elem, q) = jq_queue x elem type (Some d);
         elem = fst (queueHooks x elem type)
     in if type = u ''fx'' \<and> (q = [] \<or> hd q \<noteq> InProgress) then dequeue x elem type
        else (elem, None, []))"

definition clearQueue :: "ustr \<Rightarrow> qelem \<Rightarrow> ustr \<Rightarrow> qelem \<times> qfn option \<times> qevent list" where
  "clearQueue x elem type = fn_queue x elem (fx_type type) (DataArr [])"

text \<open>\<open>promise\<close>: a function waits in the hooks of every element that has any; the promise is resolved
  when it has been called once for each of them and once at the end.\<close>

fun promise_loop :: "ustr \<Rightarrow> ustr \<Rightarrow> nat \<Rightarrow> qelem list \<Rightarrow> nat \<Rightarrow> qelem list \<times> nat" where
  "promise_loop x type resolve [] count' = ([], count')"
| "promise_loop x type resolve (e # es) count' =
    (case hooks_of x e type of
       None \<Rightarrow> (case promise_loop x type resolve es count' of (es', n) \<Rightarrow> (e # es', n))
     | Some (st, rs) \<Rightarrow>
         (case promise_loop x type resolve es (Suc count') of (es', n) \<Rightarrow>
            (put_hooks x e type (st, rs @ [resolve]) # es', n)))"

definition resolve_step :: "nat \<Rightarrow> nat \<times> bool" where
  "resolve_step count' = (count' - 1, count' - 1 = 0)"

definition jq_promise :: "ustr \<Rightarrow> ustr \<Rightarrow> nat \<Rightarrow> qelem list \<Rightarrow> qelem list \<times> nat \<times> bool" where
  "jq_promise x type resolve es =
    (case promise_loop x (fx_type type) resolve es 1 of (es', n) \<Rightarrow> (es', resolve_step n))"

section \<open>Running the functions\<close>

text \<open>The agenda holds what the functions under way have still to do; a function that \<open>next\<close> or \<open>.queue\<close>
  starts runs to its end before the one that called goes on.\<close>

type_synonym qstate = "qelem \<times> qevent list"

definition begin_fn :: "qelem \<times> qfn option \<times> qevent list \<Rightarrow> qevent list \<Rightarrow> qstate \<times> qact list" where
  "begin_fn r tr = (case r of (elem, f, es) \<Rightarrow>
     ((elem, tr @ es), case f of None \<Rightarrow> [] | Some f \<Rightarrow> qacts f))"

definition act_step :: "ustr \<Rightarrow> ustr \<Rightarrow> qact \<Rightarrow> qstate \<Rightarrow> qstate \<times> qact list" where
  "act_step x type a s = (case a of
     QNext \<Rightarrow> begin_fn (dequeue x (fst s) type) (snd s @ [NextCalled])
   | QPush f \<Rightarrow> begin_fn (fn_queue x (fst s) type (DataFn f)) (snd s @ [Queued (qid f)]))"

text \<open>The weight of what is queued and of what is on the agenda bounds the run.\<close>

primrec weight_act :: "qact \<Rightarrow> nat" and weight_fn :: "qfn \<Rightarrow> nat" where
  "weight_act QNext = 1"
| "weight_act (QPush f) = Suc (weight_fn f)"
| "weight_fn (QF i as) = Suc (sum_list (map weight_act as))"

definition weight_item :: "qitem \<Rightarrow> nat" where
  "weight_item i = (case i of InProgress \<Rightarrow> 0 | Item f \<Rightarrow> weight_fn f)"

definition weight_queue :: "ustr \<Rightarrow> ustr \<Rightarrow> qstate \<Rightarrow> nat" where
  "weight_queue x type s = (case queue_of x (fst s) (fx_type type) of None \<Rightarrow> 0 | Some q \<Rightarrow> sum_list (map weight_item q))"

definition weight_acts :: "qact list \<Rightarrow> nat" where
  "weight_acts as = sum_list (map weight_act as)"

section \<open>Lemmas on the stored queue\<close>

lemma camel_key: "s \<noteq> [] \<Longrightarrow> last s \<noteq> 45 \<Longrightarrow> 4 \<le> length s \<Longrightarrow> \<not> 45 \<in> set t \<Longrightarrow> camelCase (s @ t) = camelCase s @ t"
proof -
  assume a: "s \<noteq> []" "last s \<noteq> 45" "4 \<le> length s" "\<not> 45 \<in> set t"
  have t: "dash_alpha t = t" using a(4) by (induction t rule: dash_alpha.induct) auto
  have m: "ms_prefix (s @ t) = ms_prefix s @ t"
    using a(3) by (auto simp: ms_prefix_def starts_with_def)
  have "ms_prefix s = [] \<or> last (ms_prefix s) \<noteq> 45"
  proof (cases "drop 4 s")
    case Nil
    then show ?thesis using a(2) by (auto simp: ms_prefix_def ulit starts_with_def)
  next
    case (Cons c r)
    then have "last s = last (drop 4 s)" by (metis append_take_drop_id last_appendR list.distinct(1))
    with a Cons show ?thesis by (auto simp: ms_prefix_def)
  qed
  then have "dash_alpha (ms_prefix s @ t) = dash_alpha (ms_prefix s) @ dash_alpha t"
    by (rule dash_alpha_append)
  then show ?thesis unfolding camelCase_def m t .
qed

lemma keys_differ [simp]: "camelCase (hooks_key a) \<noteq> camelCase (queue_key b)"
proof -
  have "hooks_key a = queue_key a @ u ''Hooks''" "queue_key b = (b @ u ''que'') @ u ''ue''"
    by (simp_all add: hooks_key_def queue_key_def ulit)
  moreover have "camelCase (queue_key a @ u ''Hooks'') = camelCase (queue_key a) @ u ''Hooks''"
    by (rule camel_key) (simp_all add: queue_key_def ulit)
  moreover have "camelCase ((b @ u ''que'') @ u ''ue'') = camelCase (b @ u ''que'') @ u ''ue''" if "b \<noteq> []"
    using that by (intro camel_key) (simp_all add: ulit Suc_leI)
  moreover have "camelCase (queue_key []) = u ''queue''" by code_simp
  ultimately have "last (camelCase (hooks_key a)) = last (u ''Hooks'')"
      "last (camelCase (queue_key b)) = last (u ''ue'') \<or> last (camelCase (queue_key b)) = last (u ''queue'')"
    by (metis last_appendR u_eq u_Nil list.distinct(1), metis append_Nil last_appendR u_eq u_Nil list.distinct(1) queue_key_def)
  moreover have "last (u ''Hooks'') = 115" "last (u ''ue'') = 101" "last (u ''queue'') = 101" by (simp_all add: ulit)
  ultimately have "last (camelCase (hooks_key a)) \<noteq> last (camelCase (queue_key b))" by auto
  then show ?thesis by auto
qed

lemmas keys_differ' [simp] = keys_differ [THEN not_sym]

text \<open>An owner on which stores have an effect.\<close>

definition stores :: "ustr \<Rightarrow> qelem \<Rightarrow> bool" where
  "stores x elem \<longleftrightarrow> acceptData elem \<or> caches elem (dataPriv x) \<noteq> None"

lemma access_put: "fst (data_access x elem (KStr k) (Some v)) = fst (data_set x elem (KStr k) (Some v))"
  by (simp add: data_access_def Let_def)

lemma data_get_put: "data_get (dataPriv x) (fst (data_set (dataPriv x) elem (KStr k) (Some v))) j =
    (if camelCase j = camelCase k \<and> stores x elem then Some v else data_get (dataPriv x) elem j)"
proof (cases "stores x elem")
  case True
  then show ?thesis using data_get_set_str [of elem "dataPriv x" k v j] by (simp add: stores_def)
next
  case False
  then show ?thesis by (simp add: stores_def data_get_def data_set_def data_cache_def Let_def)
qed

lemma queue_put [simp]:
  "queue_of x (put_queue x elem type q) type = (if stores x elem then Some q else queue_of x elem type)"
  "hooks_of x (put_queue x elem type q) ty = hooks_of x elem ty"
  "queue_of x (put_hooks x elem type hk) ty = queue_of x elem ty"
  "hooks_of x (put_hooks x elem type hk) type = (if stores x elem then Some hk else hooks_of x elem type)"
  by (simp_all add: queue_of_def hooks_of_def put_queue_def put_hooks_def access_put data_get_put)

lemma stores_if_queue: "queue_of x elem type \<noteq> None \<Longrightarrow> stores x elem"
  by (auto simp: queue_of_def data_get_def stores_def)

lemma stores_put [simp]: "stores x (put_queue x elem type q) = stores x elem"
  "stores x (put_hooks x elem type hk) = stores x elem"
  by (auto simp: stores_def put_queue_def put_hooks_def access_put data_set_def data_cache_def set_cache_def
      acceptData_def Let_def split: option.split)

lemma accept_put [simp]: "acceptData (put_queue x elem type q) = acceptData elem"
  "acceptData (put_hooks x elem type hk) = acceptData elem"
  by (simp_all add: put_queue_def put_hooks_def access_put)

lemma accept_remove [simp]: "acceptData (data_remove x elem k) = acceptData elem"
  by (auto simp: data_remove_def set_cache_def acceptData_def Let_def split: option.split)

lemma accept_stores: "acceptData elem \<Longrightarrow> stores x elem"
  by (simp add: stores_def)

lemma data_get_remove: "data_get x (data_remove x elem (RArr ks)) j =
    (if camelCase j \<in> camelCase ` set ks then None else data_get x elem j)"
proof -
  have r: "dget (foldr ddel (map camelCase ks) c) j' = (if j' \<in> camelCase ` set ks then None else dget c j')"
    for c :: "'a cache" and j' by (induction ks) auto
  have e: "foldr ddel (map camelCase ks) c = [] \<Longrightarrow> camelCase j \<notin> camelCase ` set ks \<Longrightarrow> dget c (camelCase j) = None"
    for c :: "'a cache" using r [of c "camelCase j"] by simp
  show ?thesis
    by (auto simp: data_get_def data_remove_def remove_keys_def set_cache_def Let_def r e split: option.split)
qed

lemma queue_fire: "queue_of x (fst (fire_empty x elem type rs)) type = None"
  "hooks_of x (fst (fire_empty x elem type rs)) type = None"
  by (simp_all add: fire_empty_def queue_of_def hooks_of_def data_get_remove)

lemma accept_fire [simp]: "acceptData (fst (fire_empty x elem type rs)) = acceptData elem"
  by (simp add: fire_empty_def)

lemma queueHooks_queue [simp]:
  "acceptData (fst (queueHooks x elem type)) = acceptData elem"
  "stores x (fst (queueHooks x elem type)) = stores x elem"
  "queue_of x (fst (queueHooks x elem type)) ty = queue_of x elem ty"
  by (auto simp: queueHooks_def split: option.split)

lemma fx_type_idem [simp]: "fx_type (fx_type type) = fx_type type"
  by (simp add: fx_type_def)

text \<open>What \<open>dequeue\<close> does to the queue: it runs the first function, or it removes a used-up queue, or, for
  a queue with a second sentinel only, nothing.\<close>

lemma dequeue_some:
  assumes "queue_of x elem (fx_type type) = Some q" "shift_queue q = (fn, q', n)"
  shows "(\<exists>f e. fn = Some (Item f) \<and> dequeue x elem type = (e, Some f, [Started (qid f)]) \<and>
        queue_of x e (fx_type type) = Some (if fx_type type = u ''fx'' then InProgress # q' else q')) \<or>
     (\<exists>e es. (\<forall>f. fn \<noteq> Some (Item f)) \<and> n = 0 \<and> dequeue x elem type = (e, None, es) \<and> queue_of x e (fx_type type) = None \<and>
        es = EmptyFired # map Resolved (snd (snd (queueHooks x elem (fx_type type))))) \<or>
     (\<exists>e. (\<forall>f. fn \<noteq> Some (Item f)) \<and> n \<noteq> 0 \<and> dequeue x elem type = (e, None, []) \<and>
        queue_of x e (fx_type type) = Some (if fn \<noteq> None \<and> fx_type type = u ''fx'' then InProgress # q' else q'))"
proof -
  obtain e hk where hk: "queueHooks x elem (fx_type type) = (e, hk)" by (rule prod.exhaust)
  with queueHooks_queue(2,3) [of x elem "fx_type type"] assms(1) stores_if_queue [of x elem "fx_type type"]
  have e: "stores x e" "queue_of x e (fx_type type) = Some q" by (metis fst_conv not_None_eq)+
  show ?thesis
  proof (cases "\<exists>f. fn = Some (Item f)")
    case True
    then obtain f where f: "fn = Some (Item f)" by blast
    let ?q = "if fx_type type = u ''fx'' then InProgress # q' else q'"
    have "dequeue x elem type = (put_hooks x (put_queue x e (fx_type type) ?q) (fx_type type) (None, snd hk), Some f, [Started (qid f)])"
      using assms e hk f by (simp add: dequeue_def jq_queue_def Let_def)
    with f e show ?thesis by (intro disjI1) simp
  next
    case False
    let ?q = "if fn \<noteq> None \<and> fx_type type = u ''fx'' then InProgress # q' else q'"
    have fn: "fn = None \<or> fn = Some InProgress" using False by (metis option.exhaust qitem.exhaust)
    have d: "dequeue x elem type =
        (if n = 0 then (fst (fire_empty x (put_queue x e (fx_type type) ?q) (fx_type type) (snd hk)), None, EmptyFired # map Resolved (snd hk))
         else (put_queue x e (fx_type type) ?q, None, []))"
      using assms e(2) hk fn by (auto simp: dequeue_def jq_queue_def Let_def fire_empty_def)
    show ?thesis
    proof (cases "n = 0")
      case True
      with d False hk queue_fire(1) show ?thesis by (intro disjI2 disjI1) simp
    next
      case nz: False
      with d False hk e show ?thesis by (intro disjI2) simp
    qed
  qed
qed

lemma dequeue_none:
  assumes "queue_of x elem (fx_type type) = None"
  shows "\<exists>e es. dequeue x elem type = (e, None, es) \<and> queue_of x e (fx_type type) = None \<and>
    es = EmptyFired # map Resolved (snd (snd (queueHooks x elem (fx_type type))))"
proof -
  obtain e hk where hk: "queueHooks x elem (fx_type type) = (e, hk)" by (rule prod.exhaust)
  with queueHooks_queue(3) [of x elem "fx_type type"] assms have e: "queue_of x e (fx_type type) = None" by (metis fst_conv)
  obtain e2 es where fire: "fire_empty x e (fx_type type) (snd hk) = (e2, es)" by fastforce
  from queue_fire(1) [of x _ "fx_type type"] fire have "queue_of x e2 (fx_type type) = None" by (metis fst_conv)
  then show ?thesis using assms e hk fire
    by (auto simp: dequeue_def jq_queue_def shift_queue_def fire_empty_def)
qed

lemma shift_weight:
  "shift_queue q = (fn, q', n) \<Longrightarrow> (case fn of None \<Rightarrow> 0 | Some i \<Rightarrow> weight_item i) + sum_list (map weight_item q') = sum_list (map weight_item q)"
  by (auto simp: shift_queue_def Let_def weight_item_def split: list.splits qitem.splits)

lemma weight_qacts: "weight_fn f = Suc (weight_acts (qacts f))"
  by (cases f) (simp add: weight_acts_def)

lemma dequeue_weight:
  "dequeue x elem type = (e, f, es) \<Longrightarrow>
     weight_queue x type (e, tr) + (case f of None \<Rightarrow> 0 | Some f \<Rightarrow> weight_fn f) \<le> weight_queue x type (elem, tr')"
proof (cases "queue_of x elem (fx_type type)")
  case None
  assume "dequeue x elem type = (e, f, es)"
  with dequeue_none [OF None] None show ?thesis by (auto simp: weight_queue_def)
next
  case (Some q)
  assume d: "dequeue x elem type = (e, f, es)"
  obtain fn q' n where s: "shift_queue q = (fn, q', n)" by (cases "shift_queue q")
  from shift_weight [OF s] dequeue_some [OF Some s] d Some show ?thesis
    by (auto simp: weight_queue_def weight_item_def split: if_splits)
qed

lemma jq_queue_weight:
  "weight_queue x type (fst (jq_queue x elem type (Some (DataFn f))), tr) \<le> weight_queue x type (elem, tr') + weight_fn f"
  by (auto simp: weight_queue_def jq_queue_def items_of_def weight_item_def Let_def split: option.split)

lemma act_weight:
  assumes "act_step x type a s = (s', bs)"
  shows "weight_acts bs + weight_queue x type s' < weight_act a + weight_queue x type s"
proof (cases a)
  case QNext
  obtain e f es where d: "dequeue x (fst s) type = (e, f, es)" by (cases "dequeue x (fst s) type")
  with dequeue_weight [OF d, of "snd s'" "snd s"] assms QNext show ?thesis
    by (cases f) (auto simp: act_step_def begin_fn_def weight_qacts weight_acts_def)
next
  case (QPush g)
  obtain e1 q where j: "jq_queue x (fst s) type (Some (DataFn g)) = (e1, q)" by fastforce
  define e2 where "e2 = fst (queueHooks x e1 type)"
  have w: "weight_queue x type (e2, tr) \<le> weight_queue x type s + weight_fn g" for tr
    using jq_queue_weight [of x type "fst s" g tr "snd s"] j by (simp add: e2_def weight_queue_def)
  show ?thesis
  proof (cases "type = u ''fx'' \<and> (q = [] \<or> hd q \<noteq> InProgress)")
    case True
    obtain e f es where d: "dequeue x e2 type = (e, f, es)" by (cases "dequeue x e2 type")
    from True j d have "fn_queue x (fst s) type (DataFn g) = (e, f, es)"
      by (simp add: fn_queue_def e2_def)
    with dequeue_weight [OF d, of "snd s'" "[]"] w [of "[]"] assms QPush show ?thesis
      by (cases f) (auto simp: act_step_def begin_fn_def weight_qacts weight_acts_def)
  next
    case False
    with j have "fn_queue x (fst s) type (DataFn g) = (e2, None, [])"
      by (auto simp: fn_queue_def e2_def)
    with w [of "snd s'"] assms QPush show ?thesis by (auto simp: act_step_def begin_fn_def weight_acts_def)
  qed
qed

function run_acts :: "ustr \<Rightarrow> ustr \<Rightarrow> qact list \<Rightarrow> qstate \<Rightarrow> qstate" where
  "run_acts x type [] s = s"
| "run_acts x type (a # as) s = (case act_step x type a s of (s', bs) \<Rightarrow> run_acts x type (bs @ as) s')"
  by pat_completeness auto
termination
  by (relation "measure (\<lambda>(x, type, as, s). weight_acts as + weight_queue x type s)")
    (auto simp: weight_acts_def dest!: act_weight [OF sym])

section \<open>The order of the effects queue\<close>

definition queued :: "qevent list \<Rightarrow> nat list" where
  "queued tr = concat (map (\<lambda>e. case e of Queued i \<Rightarrow> [i] | _ \<Rightarrow> []) tr)"

definition started :: "qevent list \<Rightarrow> nat list" where
  "started tr = concat (map (\<lambda>e. case e of Started i \<Rightarrow> [i] | _ \<Rightarrow> []) tr)"

definition nexts :: "qevent list \<Rightarrow> nat" where
  "nexts tr = length (filter ((=) NextCalled) tr)"

definition waiting :: "ustr \<Rightarrow> qelem \<Rightarrow> nat list" where
  "waiting x elem = (case queue_of x elem (u ''fx'') of None \<Rightarrow> []
     | Some q \<Rightarrow> concat (map (\<lambda>i. case i of InProgress \<Rightarrow> [] | Item f \<Rightarrow> [qid f]) q))"

lemma trace_simps [simp]:
  "queued (a @ b) = queued a @ queued b" "started (a @ b) = started a @ started b" "nexts (a @ b) = nexts a + nexts b"
  "queued [] = []" "started [] = []" "nexts [] = 0"
  "queued (Started i # t) = queued t" "started (Started i # t) = i # started t" "nexts (Started i # t) = nexts t"
  "queued (Queued i # t) = i # queued t" "started (Queued i # t) = started t" "nexts (Queued i # t) = nexts t"
  "queued (NextCalled # t) = queued t" "started (NextCalled # t) = started t" "nexts (NextCalled # t) = Suc (nexts t)"
  "queued (EmptyFired # map Resolved rs) = []" "started (EmptyFired # map Resolved rs) = []" "nexts (EmptyFired # map Resolved rs) = 0"
  by (simp_all add: queued_def started_def nexts_def o_def)

text \<open>Between the steps the effects queue is absent, or it starts with the sentinel, which stands for the one
  function that is under way.\<close>

definition fx_inv :: "ustr \<Rightarrow> qstate \<Rightarrow> bool" where
  "fx_inv x s \<longleftrightarrow> stores x (fst s) \<and> acceptData (fst s) \<and>
     (queue_of x (fst s) (u ''fx'') = None \<and> queued (snd s) = started (snd s) \<and> length (started (snd s)) \<le> nexts (snd s) \<or>
      (\<exists>fs. queue_of x (fst s) (u ''fx'') = Some (InProgress # map Item fs) \<and>
         queued (snd s) = started (snd s) @ map qid fs \<and> length (started (snd s)) \<le> Suc (nexts (snd s))))"

lemma fx_type_fx [simp]: "fx_type (u ''fx'') = u ''fx''"
  by (simp add: fx_type_def)

lemma dequeue_accept: "dequeue x elem type = (e, f, es) \<Longrightarrow> acceptData e = acceptData elem"
proof -
  assume d: "dequeue x elem type = (e, f, es)"
  obtain e1 hk where hk: "queueHooks x elem (fx_type type) = (e1, hk)" by (rule prod.exhaust)
  with queueHooks_queue(1) [of x elem "fx_type type"] have "acceptData e1 = acceptData elem" by simp
  with d hk show ?thesis
    by (auto simp: dequeue_def jq_queue_def Let_def fire_empty_def split: prod.splits option.splits qitem.splits if_splits)
qed

lemma dequeue_fx:
  assumes "queue_of x elem (u ''fx'') = Some (pre @ map Item fs)" "pre = [] \<and> fs \<noteq> [] \<or> pre = [InProgress]"
    "dequeue x elem (u ''fx'') = (e, f, es)"
  shows "case fs of [] \<Rightarrow> queue_of x e (u ''fx'') = None \<and> f = None \<and> (\<exists>rs. es = EmptyFired # map Resolved rs)
     | g # gs \<Rightarrow> queue_of x e (u ''fx'') = Some (InProgress # map Item gs) \<and> f = Some g \<and> es = [Started (qid g)]"
proof -
  have s: "shift_queue (pre @ map Item fs) =
      (case fs of [] \<Rightarrow> (None, [], 0) | g # gs \<Rightarrow> (Some (Item g), map Item gs, length fs))"
    using assms(2) by (auto simp: shift_queue_def Let_def split: list.split)
  show ?thesis
  proof (cases fs)
    case Nil
    with s have "shift_queue (pre @ map Item fs) = (None, [], 0)" by simp
    from dequeue_some [of x elem "u ''fx''", unfolded fx_type_fx, OF assms(1) this] assms(3) Nil show ?thesis by auto
  next
    case (Cons g gs)
    with s have "shift_queue (pre @ map Item fs) = (Some (Item g), map Item gs, length fs)" by simp
    from dequeue_some [of x elem "u ''fx''", unfolded fx_type_fx, OF assms(1) this] assms(3) Cons show ?thesis by auto
  qed
qed

lemma fx_inv_next: "fx_inv x s \<Longrightarrow> act_step x (u ''fx'') QNext s = (s', bs) \<Longrightarrow> fx_inv x s'"
proof -
  assume i: "fx_inv x s" and a: "act_step x (u ''fx'') QNext s = (s', bs)"
  obtain e f es where d: "dequeue x (fst s) (u ''fx'') = (e, f, es)" by (rule prod_cases3)
  have acc: "acceptData e" "stores x e" using i dequeue_accept [OF d] by (simp_all add: fx_inv_def accept_stores)
  from a d have s': "s' = (e, snd s @ [NextCalled] @ es)" by (simp add: act_step_def begin_fn_def)
  show ?thesis
  proof (cases "queue_of x (fst s) (u ''fx'')")
    case None
    with dequeue_none [of x "fst s" "u ''fx''"] d obtain rs where "queue_of x e (u ''fx'') = None" "es = EmptyFired # map Resolved rs"
      by auto
    with i None acc s' show ?thesis by (simp add: fx_inv_def)
  next
    case (Some q)
    with i obtain fs where fs: "queue_of x (fst s) (u ''fx'') = Some ([InProgress] @ map Item fs)"
      "queued (snd s) = started (snd s) @ map qid fs" "length (started (snd s)) \<le> Suc (nexts (snd s))"
      by (auto simp: fx_inv_def)
    from dequeue_fx [OF fs(1) _ d] fs(2,3) acc s' show ?thesis by (cases fs) (auto simp: fx_inv_def)
  qed
qed

lemma fx_inv_push: "fx_inv x s \<Longrightarrow> act_step x (u ''fx'') (QPush g) s = (s', bs) \<Longrightarrow> fx_inv x s'"
proof -
  assume i: "fx_inv x s" and a: "act_step x (u ''fx'') (QPush g) s = (s', bs)"
  then have st: "stores x (fst s)" "acceptData (fst s)" by (simp_all add: fx_inv_def)
  obtain e1 q where j: "jq_queue x (fst s) (u ''fx'') (Some (DataFn g)) = (e1, q)" by fastforce
  define e2 where "e2 = fst (queueHooks x e1 (u ''fx''))"
  have q: "q = (case queue_of x (fst s) (u ''fx'') of None \<Rightarrow> [Item g] | Some q \<Rightarrow> q @ [Item g])"
    and e1: "acceptData e1" "queue_of x e1 (u ''fx'') = Some q"
    using j st by (auto simp: jq_queue_def items_of_def Let_def split: option.splits)
  then have e2: "acceptData e2" "queue_of x e2 (u ''fx'') = Some q" by (simp_all add: e2_def)
  show ?thesis
  proof (cases "queue_of x (fst s) (u ''fx'')")
    case None
    with q have q1: "q = [] @ map Item [g]" by simp
    obtain e f es where d: "dequeue x e2 (u ''fx'') = (e, f, es)" by (rule prod_cases3)
    from q1 j d have "fn_queue x (fst s) (u ''fx'') (DataFn g) = (e, f, es)" by (simp add: fn_queue_def e2_def)
    with a have s': "s' = (e, snd s @ [Queued (qid g)] @ es)" by (simp add: act_step_def begin_fn_def)
    have "acceptData e" using dequeue_accept [OF d] e2 by simp
    moreover have "queue_of x e (u ''fx'') = Some [InProgress] \<and> es = [Started (qid g)]"
      using dequeue_fx [OF e2(2) [unfolded q1] _ d] by simp
    ultimately show ?thesis using i None s' by (auto simp: fx_inv_def accept_stores)
  next
    case (Some q0)
    with i obtain fs where fs: "q0 = InProgress # map Item fs" "queued (snd s) = started (snd s) @ map qid fs"
      "length (started (snd s)) \<le> Suc (nexts (snd s))" by (auto simp: fx_inv_def)
    with q Some have q1: "q = InProgress # map Item (fs @ [g])" by simp
    with j have "fn_queue x (fst s) (u ''fx'') (DataFn g) = (e2, None, [])" by (simp add: fn_queue_def e2_def)
    with a have s': "s' = (e2, snd s @ [Queued (qid g)])" by (simp add: act_step_def begin_fn_def)
    show ?thesis unfolding fx_inv_def s'
      using e2 q1 fs by (intro conjI disjI2 exI [of _ "fs @ [g]"]) (auto simp: accept_stores)
  qed
qed

lemma fx_inv_run: "fx_inv x s \<Longrightarrow> fx_inv x (run_acts x (u ''fx'') as s)"
proof (induction x "u ''fx''" "as" s rule: run_acts.induct)
  case (2 x a "as" s)
  obtain s' bs where a: "act_step x (u ''fx'') a s = (s', bs)" by fastforce
  with 2(2) have "fx_inv x s'" by (cases a) (auto intro: fx_inv_next fx_inv_push)
  with 2(1) [OF a [symmetric]] a show ?case by simp
qed simp


definition queue_owner :: qelem where
  "queue_owner = \<lparr> nodeType = 1, attributes = [], caches = (\<lambda>_. None) \<rparr>"


end
