(* ===== verification/JqDataset.thy ===== *)
theory JqDataset
  imports JqData
begin

text \<open>
  The values of \<open>data-*\<close> attributes (\<open>jquery-3.5.1.js\<close>, lines 4398 to 4447 and 4473 to 4554): their conversion, how
  \<open>.data\<close> finds the attribute of a key and keeps what it read, and the methods on sets.  Values are a type of
  their own; how a text reads as a number and \<open>JSON.parse\<close> are parameters.  Keys are not
  names that every object inherits.
\<close>

record 'v data_conv =
  c_bool :: "bool \<Rightarrow> 'v"
  c_null :: 'v
  c_number :: "ustr \<Rightarrow> 'v option"
  c_json :: "ustr \<Rightarrow> 'v option"
  c_text :: "ustr \<Rightarrow> 'v"

text \<open>\<open>c_number\<close> has a value for the texts that are the text of a number; \<open>c_json\<close> has none where \<open>JSON.parse\<close>
  throws, and so has \<open>getData\<close>.\<close>

definition braced :: "ustr \<Rightarrow> bool" where
  "braced s \<longleftrightarrow> length s \<ge> 2 \<and> (hd s = 123 \<and> last s = 125 \<or> hd s = 91 \<and> last s = 93)"

definition getData :: "'v data_conv \<Rightarrow> ustr \<Rightarrow> 'v option" where
  "getData c data =
    (if data = u ''true'' then Some (c_bool c True)
     else if data = u ''false'' then Some (c_bool c False)
     else if data = u ''null'' then Some (c_null c)
     else case c_number c data of
       Some n \<Rightarrow> Some n
     | None \<Rightarrow> if braced data then c_json c data else Some (c_text c data))"

text \<open>\<open>key.replace( rmultiDash, "-$&" ).toLowerCase()\<close>\<close>

definition dashed :: "ustr \<Rightarrow> ustr" where
  "dashed key = to_lower (concat (map (\<lambda>c. if 65 \<le> c \<and> c \<le> 90 then [45, c] else [c]) key))"

definition kept_text :: "'v data_conv \<Rightarrow> ustr \<Rightarrow> 'v" where
  "kept_text c t = (case getData c t of Some v \<Rightarrow> v | None \<Rightarrow> c_text c t)"

definition dataAttr :: "'v data_conv \<Rightarrow> ustr \<Rightarrow> 'v owner \<Rightarrow> ustr \<Rightarrow> 'v option \<Rightarrow> 'v owner \<times> 'v option" where
  "dataAttr c x elem key data =
    (if data = None \<and> nodeType elem = 1
     then case dget (attributes elem) (u ''data-'' @ dashed key) of
            Some t \<Rightarrow> let data = kept_text c t in (fst (data_set (dataUser x) elem (KStr key) (Some data)), Some data)
          | None \<Rightarrow> (elem, None)
     else (elem, data))"

text \<open>The loop over the attributes, from the last to the first; \<open>data\<close> is the cache of the element.\<close>

definition cached :: "ustr \<Rightarrow> 'v owner \<Rightarrow> ustr \<Rightarrow> 'v option" where
  "cached x elem name = (case caches elem (dataUser x) of None \<Rightarrow> None | Some c \<Rightarrow> Option.bind (dget c name) id)"

fun attrs_loop :: "'v data_conv \<Rightarrow> ustr \<Rightarrow> ustr list \<Rightarrow> 'v owner \<Rightarrow> 'v owner" where
  "attrs_loop c x [] elem = elem"
| "attrs_loop c x (name # names) elem =
    attrs_loop c x names
      (if starts_with (u ''data-'') name
       then let name = camelCase (drop 5 name) in fst (dataAttr c x elem name (cached x elem name))
       else elem)"

definition all_data :: "'v data_conv \<Rightarrow> ustr \<Rightarrow> 'v owner \<Rightarrow> 'v owner \<times> 'v cache" where
  "all_data c x elem =
    (let elem = fst (data_cache (dataUser x) elem);
         elem = (if nodeType elem = 1 \<and> data_get (dataPriv x) elem (u ''hasDataAttrs'') = None
           then fst (data_set (dataPriv x) (attrs_loop c x (rev (map fst (attributes elem))) elem)
                  (KStr (u ''hasDataAttrs'')) (Some (c_bool c True)))
           else elem)
     in (elem, snd (data_cache (dataUser x) elem)))"

definition one_data :: "'v data_conv \<Rightarrow> ustr \<Rightarrow> 'v owner \<Rightarrow> ustr \<Rightarrow> 'v owner \<times> 'v option" where
  "one_data c x elem key = (case data_get (dataUser x) elem key of
     Some v \<Rightarrow> (elem, Some v)
   | None \<Rightarrow> dataAttr c x elem key None)"

text \<open>\<open>.data()\<close>, \<open>.data(key)\<close>, \<open>.data(object)\<close>, \<open>.data(key, value)\<close> and \<open>.removeData\<close> on a set.\<close>

definition fn_data_all :: "'v data_conv \<Rightarrow> ustr \<Rightarrow> 'v owner list \<Rightarrow> 'v owner list \<times> 'v cache option" where
  "fn_data_all c x self = (case self of [] \<Rightarrow> ([], None)
     | e # es \<Rightarrow> (case all_data c x e of (e, d) \<Rightarrow> (e # es, Some d)))"

definition fn_data_get :: "'v data_conv \<Rightarrow> ustr \<Rightarrow> ustr \<Rightarrow> 'v owner list \<Rightarrow> 'v owner list \<times> 'v option" where
  "fn_data_get c x key self = (case self of [] \<Rightarrow> ([], None)
     | e # es \<Rightarrow> (case one_data c x e key of (e, v) \<Rightarrow> (e # es, v)))"

definition fn_data_set :: "ustr \<Rightarrow> 'v dkey \<Rightarrow> 'v option \<Rightarrow> 'v owner list \<Rightarrow> 'v owner list" where
  "fn_data_set x key value self = (case key of
     KObj ps \<Rightarrow> map (\<lambda>e. fst (data_set (dataUser x) e key None)) self
   | _ \<Rightarrow> if value = None then self else map (\<lambda>e. fst (data_set (dataUser x) e key value)) self)"

definition fn_removeData :: "ustr \<Rightarrow> rkey \<Rightarrow> 'v owner list \<Rightarrow> 'v owner list" where
  "fn_removeData x key self = map (\<lambda>e. data_remove (dataUser x) e key) self"

section \<open>Which attribute a key names\<close>

lemma dashed_dash_alpha: "to_lower s = s \<Longrightarrow> dashed (dash_alpha s) = s"
proof (induction s rule: dash_alpha.induct)
  case (1 c d s)
  have low: "to_lower (d # s) = d # s" "to_lower s = s" "to_lower_unit c = c" "to_lower_unit d = d"
    using "1.prems" by (simp_all add: to_lower_def)
  have c: "\<not> (65 \<le> c \<and> c \<le> 90)" using low(3) by (auto simp: to_lower_unit_def split: if_splits)
  show ?case
  proof (cases "c = 45 \<and> 97 \<le> d \<and> d \<le> 122")
    case True
    then have "to_upper_unit d = d - 32" "65 \<le> d - 32 \<and> d - 32 \<le> 90" "to_lower_unit (d - 32) = d"
      by (auto simp: to_upper_unit_def to_lower_unit_def)
    with True "1.IH"(1) [OF True low(2)] show ?thesis by (simp add: dashed_def to_lower_def to_lower_unit_def)
  next
    case False
    then have "dash_alpha (c # d # s) = c # dash_alpha (d # s)" by auto
    with "1.IH"(2) [OF False low(1)] c low(3) show ?thesis by (simp add: dashed_def to_lower_def)
  qed
qed (auto simp: dashed_def to_lower_def to_lower_unit_def split: if_splits)

text \<open>The key that stands for the attribute \<open>data-s\<close> in the object of all values leads back to this attribute,
  except for names that start with \<open>-ms-\<close>.\<close>

lemma dashed_camelCase: "to_lower s = s \<Longrightarrow> \<not> starts_with (u ''-ms-'') s \<Longrightarrow> dashed (camelCase s) = s"
  by (simp add: camelCase_def ms_prefix_def dashed_dash_alpha)

lemma ms_key: "dashed (camelCase (u ''-ms-x'')) = u ''ms-x''"
  by code_simp

text \<open>Reading a key that is not stored gives the converted text of its attribute, and stores it: later
  reads under any spelling of the key give the same value, whatever happens to the attributes meanwhile.\<close>

theorem data_attribute_kept:
  assumes "nodeType e = 1" "data_get (dataUser x) e k = None" "dget (attributes e) (u ''data-'' @ dashed k) = Some t"
    "camelCase j = camelCase k"
  shows "snd (one_data c x e k) = Some (kept_text c t) \<and>
    one_data c x (fst (one_data c x e k) \<lparr> attributes := a \<rparr>) j =
      (fst (one_data c x e k) \<lparr> attributes := a \<rparr>, Some (kept_text c t))"
proof -
  let ?e = "fst (data_set (dataUser x) e (KStr k) (Some (kept_text c t)))"
  have o': "one_data c x e k = (?e, Some (kept_text c t))"
    using assms(1-3) by (simp add: one_data_def dataAttr_def Let_def)
  have "acceptData e" using assms(1) by (simp add: acceptData_def)
  from data.get_put [OF this, of "dataUser x" k "kept_text c t" j] assms(4)
  have "data_get (dataUser x) (?e \<lparr> attributes := a \<rparr>) j = Some (kept_text c t)"
    by (simp add: data_get_def)
  then show ?thesis unfolding o' by (simp add: one_data_def)
qed

definition sample_conv :: "ustr data_conv" where
  "sample_conv = \<lparr> c_bool = (\<lambda>b. if b then u ''yes'' else u ''no''), c_null = [], c_number = (\<lambda>t. None), c_json = (\<lambda>t. None), c_text = (\<lambda>t. t) \<rparr>"

definition sample_owner :: "ustr owner" where
  "sample_owner = \<lparr> nodeType = 1, attributes = [(u ''data-max-size'', u ''true'')], caches = (\<lambda>_. None) \<rparr>"

lemma data_attribute_kept_witness:
  "snd (one_data sample_conv (u ''jQ'') sample_owner (u ''maxSize'')) = Some (u ''yes'') \<and>
   snd (one_data sample_conv (u ''jQ'') (fst (one_data sample_conv (u ''jQ'') sample_owner (u ''maxSize'')) \<lparr> attributes := [] \<rparr>) (u ''max-size'')) =
     Some (u ''yes'')"
proof -
  have "nodeType sample_owner = 1" "data_get (dataUser (u ''jQ'')) sample_owner (u ''maxSize'') = None"
    "dget (attributes sample_owner) (u ''data-'' @ dashed (u ''maxSize'')) = Some (u ''true'')"
    "camelCase (u ''max-size'') = camelCase (u ''maxSize'')" "kept_text sample_conv (u ''true'') = u ''yes''"
    by code_simp+
  from data_attribute_kept [OF this(1-4), of sample_conv "[]"] this(5) show ?thesis by simp
qed

end
