(* ===== verification/JqClass.thy ===== *)
theory JqClass
  imports JqData
begin

text \<open>
  The class functions of jQuery (\<open>jquery-3.5.1.js\<close>, lines 8247 to 8426).  The elements of a set are
  owners of data; an element node has attributes, and the private store keeps the class text that
  \<open>toggleClass\<close> without a name saves.  A function argument gets the index and the class text.
\<close>

datatype cvalue = CUndef | CBool bool | CStr ustr | CArr "ustr list"

type_synonym elt = "ustr owner"

definition stripAndCollapse :: "ustr \<Rightarrow> ustr" where
  "stripAndCollapse value = join [32] (html_words value)"

definition getClass :: "elt \<Rightarrow> ustr" where
  "getClass elem = (if nodeType elem \<noteq> 1 then []
     else case dget (attributes elem) (u ''class'') of None \<Rightarrow> [] | Some c \<Rightarrow> c)"

definition setClass :: "ustr \<Rightarrow> elt \<Rightarrow> elt" where
  "setClass c elem = elem \<lparr> attributes := dput (u ''class'') c (attributes elem) \<rparr>"

definition classesToArray :: "cvalue \<Rightarrow> ustr list" where
  "classesToArray value = (case value of CArr cs \<Rightarrow> cs | CStr s \<Rightarrow> html_words s | _ \<Rightarrow> [])"

definition padded :: "ustr \<Rightarrow> ustr" where
  "padded c = [32] @ c @ [32]"

text \<open>The loops over the class names end at an empty one.\<close>

fun add_names :: "ustr list \<Rightarrow> ustr \<Rightarrow> ustr" where
  "add_names [] cur = cur"
| "add_names (clazz # classes) cur =
    (if clazz = [] then cur
     else add_names classes (if index_of cur (padded clazz) < 0 then cur @ clazz @ [32] else cur))"

definition add_class :: "ustr list \<Rightarrow> elt \<Rightarrow> elt" where
  "add_class classes elem =
    (let curValue = getClass elem
     in if nodeType elem \<noteq> 1 then elem
        else let finalValue = stripAndCollapse (add_names classes (padded (stripAndCollapse curValue)))
             in if curValue \<noteq> finalValue then setClass finalValue elem else elem)"

definition addClass :: "cvalue \<Rightarrow> elt list \<Rightarrow> elt list" where
  "addClass value self = (let classes = classesToArray value
     in if classes \<noteq> [] then map (add_class classes) self else self)"

definition addClass_fn :: "(nat \<Rightarrow> ustr \<Rightarrow> cvalue) \<Rightarrow> elt list \<Rightarrow> elt list" where
  "addClass_fn value self =
    concat (map (\<lambda>(j, elem). addClass (value j (getClass elem)) [elem]) (zip [0..<length self] self))"

text \<open>\<open>cur.replace(" " + clazz + " ", " ")\<close> until the name does not occur; every step makes the text shorter.\<close>

definition replace_name :: "ustr \<Rightarrow> ustr \<Rightarrow> ustr" where
  "replace_name clazz cur = (case find_str (padded clazz) cur of None \<Rightarrow> cur
     | Some i \<Rightarrow> take i cur @ [32] @ drop (i + length (padded clazz)) cur)"

lemma length_replace_name: "find_str (padded clazz) cur = Some i \<Longrightarrow> length (replace_name clazz cur) < length cur"
  using find_str_Some [of "padded clazz" cur i] by (auto simp: replace_name_def padded_def)

function remove_name :: "ustr \<Rightarrow> ustr \<Rightarrow> ustr" where
  "remove_name clazz cur =
    (if index_of cur (padded clazz) > -1 then remove_name clazz (replace_name clazz cur) else cur)"
  by pat_completeness auto
termination
  by (relation "measure (\<lambda>(clazz, cur). length cur)")
    (auto simp: index_of_def length_replace_name split: option.splits)

declare remove_name.simps [simp del]

fun remove_names :: "ustr list \<Rightarrow> ustr \<Rightarrow> ustr" where
  "remove_names [] cur = cur"
| "remove_names (clazz # classes) cur =
    (if clazz = [] then cur else remove_names classes (remove_name clazz cur))"

definition drop_classes :: "ustr list \<Rightarrow> elt \<Rightarrow> elt" where
  "drop_classes classes elem =
    (let curValue = getClass elem
     in if nodeType elem \<noteq> 1 then elem
        else let finalValue = stripAndCollapse (remove_names classes (padded (stripAndCollapse curValue)))
             in if curValue \<noteq> finalValue then setClass finalValue elem else elem)"

text \<open>Without an argument \<open>removeClass\<close> empties the attribute.\<close>

definition removeClass :: "cvalue option \<Rightarrow> elt list \<Rightarrow> elt list" where
  "removeClass value self = (case value of
     None \<Rightarrow> map (\<lambda>elem. if nodeType elem = 1 then setClass [] elem else elem) self
   | Some value \<Rightarrow> (let classes = classesToArray value
       in if classes \<noteq> [] then map (drop_classes classes) self else self))"

definition removeClass_fn :: "(nat \<Rightarrow> ustr \<Rightarrow> cvalue) \<Rightarrow> elt list \<Rightarrow> elt list" where
  "removeClass_fn value self =
    concat (map (\<lambda>(j, elem). removeClass (Some (value j (getClass elem))) [elem]) (zip [0..<length self] self))"

fun hasClass :: "ustr \<Rightarrow> elt list \<Rightarrow> bool" where
  "hasClass selector [] = False"
| "hasClass selector (elem # rest) =
    (if nodeType elem = 1 \<and> index_of (padded (stripAndCollapse (getClass elem))) (padded selector) > -1
     then True else hasClass selector rest)"

definition toggle_name :: "ustr \<Rightarrow> elt list \<Rightarrow> elt list" where
  "toggle_name className self =
    (if hasClass className self then removeClass (Some (CStr className)) self else addClass (CStr className) self)"

fun toggle_names :: "ustr list \<Rightarrow> elt list \<Rightarrow> elt list" where
  "toggle_names [] self = self"
| "toggle_names (className # names) self =
    (if className = [] then self else toggle_names names (toggle_name className self))"

text \<open>Without names the class text as a whole goes, or the one saved before comes back.\<close>

definition toggle_whole :: "ustr \<Rightarrow> cvalue \<Rightarrow> elt \<Rightarrow> elt" where
  "toggle_whole x value elem =
    (let className = getClass elem;
         saved = (if className \<noteq> [] then fst (data_set (dataPriv x) elem (KStr (u ''__className__'')) (Some className)) else elem)
     in if nodeType elem \<noteq> 1 then saved
        else setClass (if className \<noteq> [] \<or> value = CBool False then []
               else case data_get (dataPriv x) saved (u ''__className__'') of None \<Rightarrow> [] | Some c \<Rightarrow> c) saved)"

definition toggle_one :: "ustr \<Rightarrow> cvalue \<Rightarrow> elt \<Rightarrow> elt" where
  "toggle_one x value elem = (case value of
     CStr s \<Rightarrow> hd (toggle_names (classesToArray value) [elem])
   | CArr cs \<Rightarrow> hd (toggle_names (classesToArray value) [elem])
   | _ \<Rightarrow> toggle_whole x value elem)"

definition toggleClass :: "ustr \<Rightarrow> cvalue \<Rightarrow> bool option \<Rightarrow> elt list \<Rightarrow> elt list" where
  "toggleClass x value stateVal self =
    (case (stateVal, value) of
       (Some b, CStr s) \<Rightarrow> if b then addClass value self else removeClass (Some value) self
     | (Some b, CArr cs) \<Rightarrow> if b then addClass value self else removeClass (Some value) self
     | _ \<Rightarrow> map (toggle_one x value) self)"

definition toggleClass_fn :: "ustr \<Rightarrow> (nat \<Rightarrow> ustr \<Rightarrow> bool option \<Rightarrow> cvalue) \<Rightarrow> bool option \<Rightarrow> elt list \<Rightarrow> elt list" where
  "toggleClass_fn x value stateVal self =
    concat (map (\<lambda>(i, elem). toggleClass x (value i (getClass elem) stateVal) stateVal [elem]) (zip [0..<length self] self))"

section \<open>Words\<close>

definition word :: "ustr \<Rightarrow> bool" where
  "word w \<longleftrightarrow> w \<noteq> [] \<and> (\<forall>c \<in> set w. \<not> opt_space c)"

lemma opt_space_32 [simp]: "opt_space 32"
  by (simp add: opt_space_def)

lemma flags_loop_word: "\<forall>c \<in> set v. \<not> opt_space c \<Longrightarrow> flags_loop w (v @ s) = flags_loop (w @ v) s"
  by (induction v arbitrary: w) auto

lemma html_words_word: "ws = flags_loop w s \<Longrightarrow> \<forall>c \<in> set w. \<not> opt_space c \<Longrightarrow> list_all word ws"
  by (induction w s arbitrary: ws rule: flags_loop.induct) (auto simp: word_def)

lemma words_html_words [simp]: "list_all word (html_words s)"
  by (simp add: html_words_def html_words_word)

text \<open>Every word with a space behind it, and a space in front of the first.\<close>

definition spaced :: "ustr list \<Rightarrow> ustr" where
  "spaced ws = 32 # concat (map (\<lambda>w. w @ [32]) ws)"

lemma html_words_32 [simp]: "html_words (32 # s) = html_words s"
  by (simp add: html_words_def)

lemma html_words_spaced: "list_all word ws \<Longrightarrow> html_words (spaced ws) = ws"
proof (induction ws)
  case (Cons w ws)
  then have "html_words (w @ [32] @ concat (map (\<lambda>w. w @ [32]) ws)) = w # html_words (concat (map (\<lambda>w. w @ [32]) ws))"
    by (simp add: html_words_def word_def flags_loop_word)
  with Cons show ?case by (simp add: spaced_def)
qed (simp add: spaced_def html_words_def)

lemma join_spaced: "ws \<noteq> [] \<Longrightarrow> join [32] ws @ [32] = concat (map (\<lambda>w. w @ [32]) ws)"
proof (induction ws)
  case (Cons w ws)
  then show ?case by (cases ws) auto
qed simp

lemma html_words_append_32: "html_words (s @ [32]) = html_words s"
proof -
  have "flags_loop w (s @ [32]) = flags_loop w s" for w
    by (induction w s rule: flags_loop.induct) auto
  then show ?thesis by (simp add: html_words_def)
qed

lemma words_collapse [simp]: "html_words (stripAndCollapse s) = html_words s"
proof (cases "html_words s = []")
  case False
  have "html_words (stripAndCollapse s) = html_words (32 # stripAndCollapse s @ [32])"
    by (simp add: html_words_append_32)
  also have "\<dots> = html_words (spaced (html_words s))"
    using join_spaced [OF False] by (simp add: stripAndCollapse_def spaced_def)
  finally show ?thesis by (simp add: html_words_spaced)
qed (simp add: stripAndCollapse_def, simp add: html_words_def)

text \<open>The text the loops work on: a text of spaced words, with one more space when there was no word.\<close>

definition cur_text :: "bool \<Rightarrow> ustr list \<Rightarrow> ustr" where
  "cur_text extra ws = (if extra then 32 # spaced ws else spaced ws)"

lemma padded_collapse: "\<exists>extra. padded (stripAndCollapse s) = cur_text extra (html_words s)"
proof (cases "html_words s = []")
  case True
  then have "padded (stripAndCollapse s) = cur_text True (html_words s)"
    by (simp add: padded_def stripAndCollapse_def cur_text_def spaced_def)
  then show ?thesis ..
next
  case False
  then have "padded (stripAndCollapse s) = cur_text False (html_words s)"
    using join_spaced [OF False] by (simp add: padded_def stripAndCollapse_def cur_text_def spaced_def)
  then show ?thesis ..
qed

lemma words_cur_text: "list_all word ws \<Longrightarrow> html_words (cur_text extra ws) = ws"
  by (simp add: cur_text_def html_words_spaced)

lemma find_skip: "32 \<notin> set w \<Longrightarrow> t \<noteq> [] \<Longrightarrow>
    find_str (padded c) (w @ t) = map_option ((+) (length w)) (find_str (padded c) t)"
proof (induction w)
  case Nil
  then show ?case by (simp add: option.map_ident)
next
  case (Cons a w)
  then show ?case by (auto simp: padded_def starts_with_def option.map_comp o_def)
qed

lemma split_first: "a \<notin> set c \<Longrightarrow> a \<notin> set w \<Longrightarrow> c @ a # r = w @ a # t \<longleftrightarrow> c = w \<and> r = t"
proof (induction c arbitrary: w)
  case (Cons d c)
  then show ?case by (cases w) auto
qed (auto simp: Cons_eq_append_conv)

lemma starts_padded: "word c \<Longrightarrow> word w \<Longrightarrow> starts_with (padded c) (32 # w @ 32 # t) \<longleftrightarrow> c = w"
proof -
  assume "word c" "word w"
  then have "32 \<notin> set c" "32 \<notin> set w" by (auto simp: word_def)
  note s = split_first [OF this]
  have "starts_with (padded c) (32 # w @ 32 # t) \<longleftrightarrow> (\<exists>r. w @ 32 # t = c @ 32 # r)"
    by (simp add: starts_with_prefix padded_def prefix_def)
  also have "\<dots> \<longleftrightarrow> (\<exists>r. c @ 32 # r = w @ 32 # t)" by (simp only: eq_commute)
  finally show ?thesis by (simp add: s)
qed

fun name_pos :: "ustr \<Rightarrow> ustr list \<Rightarrow> nat" where
  "name_pos c [] = 0"
| "name_pos c (w # ws) = (if w = c then 0 else Suc (length w) + name_pos c ws)"

lemma spaced_Cons: "spaced (w # ws) = 32 # w @ spaced ws"
  by (simp add: spaced_def)

lemma find_spaced:
  "list_all word ws \<Longrightarrow> word c \<Longrightarrow>
     find_str (padded c) (spaced ws) = (if c \<in> set ws then Some (name_pos c ws) else None)"
proof (induction ws)
  case Nil
  then show ?case by (auto simp: spaced_def padded_def starts_with_def word_def)
next
  case (Cons w ws)
  have n: "32 \<notin> set w" "spaced ws \<noteq> []" using Cons.prems by (auto simp: word_def spaced_def)
  have "starts_with (padded c) (32 # w @ spaced ws) \<longleftrightarrow> c = w"
    using starts_padded [of c w] Cons.prems by (simp add: spaced_def)
  with Cons find_skip [OF n, of c] show ?case by (auto simp: spaced_Cons option.map_comp o_def)
qed

lemma find_cur_text:
  assumes "list_all word ws" "word c"
  shows "find_str (padded c) (cur_text extra ws) =
    (if c \<in> set ws then Some (name_pos c ws + (if extra then 1 else 0)) else None)"
proof -
  have "\<not> starts_with (padded c) (32 # spaced ws)"
    using assms(2) by (cases c) (auto simp: starts_with_def padded_def spaced_def word_def)
  then show ?thesis using find_spaced [OF assms] by (simp add: cur_text_def)
qed

lemma index_cur_text: "list_all word ws \<Longrightarrow> word c \<Longrightarrow> index_of (cur_text extra ws) (padded c) < 0 \<longleftrightarrow> c \<notin> set ws"
  "list_all word ws \<Longrightarrow> word c \<Longrightarrow> index_of (cur_text extra ws) (padded c) > -1 \<longleftrightarrow> c \<in> set ws"
  by (simp_all add: index_of_def find_cur_text)

lemma hasClass_iff:
  assumes "word c"
  shows "hasClass c [elem] \<longleftrightarrow> nodeType elem = 1 \<and> c \<in> set (html_words (getClass elem))"
proof -
  obtain extra where "padded (stripAndCollapse (getClass elem)) = cur_text extra (html_words (getClass elem))"
    using padded_collapse by blast
  with index_cur_text(2) [OF words_html_words assms] show ?thesis by simp
qed

section \<open>The loops on words\<close>

definition add_new :: "ustr \<Rightarrow> ustr list \<Rightarrow> ustr list" where
  "add_new c ws = (if c \<in> set ws then ws else ws @ [c])"

lemma cur_text_snoc: "cur_text extra ws @ c @ [32] = cur_text extra (ws @ [c])"
  by (simp add: cur_text_def spaced_def)

lemma add_names_words:
  "list_all word cs \<Longrightarrow> list_all word ws \<Longrightarrow>
     add_names cs (cur_text extra ws) = cur_text extra (fold add_new cs ws) \<and> list_all word (fold add_new cs ws)"
proof (induction cs arbitrary: ws)
  case (Cons c cs)
  have "c \<noteq> []" using Cons.prems by (simp add: word_def)
  moreover have "list_all word (add_new c ws)" using Cons.prems by (simp add: add_new_def)
  ultimately show ?case using Cons index_cur_text(1) [of ws c extra]
    by (simp add: add_new_def cur_text_snoc)
qed simp

lemma set_add_new: "set (fold add_new cs ws) = set ws \<union> set cs"
  by (induction cs arbitrary: ws) (auto simp: add_new_def)

lemma cut_name: "c \<in> set ws \<Longrightarrow>
    take (name_pos c ws) (spaced ws) @ 32 # drop (name_pos c ws + (length c + 2)) (spaced ws) = spaced (remove1 c ws)"
  by (induction ws) (auto simp: spaced_def)

lemma replace_name_words:
  assumes "list_all word ws" "word c" "c \<in> set ws"
  shows "replace_name c (cur_text extra ws) = cur_text extra (remove1 c ws)"
  using find_cur_text [OF assms(1,2), of extra] assms(3) cut_name [OF assms(3)]
  by (simp add: replace_name_def padded_def cur_text_def)

lemma remove_name_words:
  "list_all word ws \<Longrightarrow> word c \<Longrightarrow> remove_name c (cur_text extra ws) = cur_text extra (filter (\<lambda>w. w \<noteq> c) ws)"
proof (induction "length ws" arbitrary: ws)
  case 0
  then show ?case using index_cur_text(2) [of ws c extra] by (subst remove_name.simps) simp
next
  case (Suc n)
  show ?case
  proof (cases "c \<in> set ws")
    case True
    have "list_all word (remove1 c ws)" using Suc.prems(1) set_remove1_subset [of c ws] by (auto simp: list_all_iff)
    moreover have "n = length (remove1 c ws)" using True Suc.hyps(2) by (simp add: length_remove1)
    moreover have "filter (\<lambda>w. w \<noteq> c) (remove1 c ws) = filter (\<lambda>w. w \<noteq> c) ws" by (induction ws) auto
    ultimately show ?thesis
      using Suc.hyps(1) [of "remove1 c ws"] Suc.prems replace_name_words [OF Suc.prems True] True
        index_cur_text(2) [OF Suc.prems, of extra]
      by (subst remove_name.simps) simp
  next
    case False
    then have "filter (\<lambda>w. w \<noteq> c) ws = ws" by (induction ws) auto
    with False index_cur_text(2) [OF Suc.prems, of extra] show ?thesis by (subst remove_name.simps) simp
  qed
qed

lemma remove_names_words:
  "list_all word cs \<Longrightarrow> list_all word ws \<Longrightarrow>
     remove_names cs (cur_text extra ws) = cur_text extra (filter (\<lambda>w. w \<notin> set cs) ws)"
proof (induction cs arbitrary: ws)
  case (Cons c cs)
  have "c \<noteq> []" using Cons.prems by (simp add: word_def)
  moreover have "list_all word (filter (\<lambda>w. w \<noteq> c) ws)" using Cons.prems by (auto simp: list_all_iff)
  moreover have "filter (\<lambda>w. w \<notin> set cs) (filter (\<lambda>w. w \<noteq> c) ws) = filter (\<lambda>w. w \<notin> set (c # cs)) ws"
    by (induction ws) auto
  ultimately show ?case using Cons remove_name_words [of ws c extra] by simp
qed simp

section \<open>The class names of an element\<close>

definition class_names :: "elt \<Rightarrow> ustr list" where
  "class_names elem = html_words (getClass elem)"

lemma getClass_set [simp]: "nodeType elem = 1 \<Longrightarrow> getClass (setClass c elem) = c"
  by (simp add: getClass_def setClass_def)

lemma nodeType_setClass [simp]: "nodeType (setClass c elem) = nodeType elem"
  by (simp add: setClass_def)

lemma class_names_add:
  assumes "list_all word cs" "nodeType elem = 1"
  shows "class_names (add_class cs elem) = fold add_new cs (class_names elem) \<and> nodeType (add_class cs elem) = 1"
proof -
  obtain extra where e: "padded (stripAndCollapse (getClass elem)) = cur_text extra (class_names elem)"
    using padded_collapse unfolding class_names_def by blast
  have w: "list_all word (class_names elem)" by (simp add: class_names_def)
  define f where "f = stripAndCollapse (add_names cs (padded (stripAndCollapse (getClass elem))))"
  from add_names_words [OF assms(1) w, of extra] have "html_words f = fold add_new cs (class_names elem)"
    by (simp add: f_def e words_cur_text)
  moreover have "add_class cs elem = (if getClass elem \<noteq> f then setClass f elem else elem)"
    using assms(2) by (simp add: add_class_def Let_def f_def)
  ultimately show ?thesis using assms(2) by (cases "getClass elem = f") (simp_all add: class_names_def)
qed

lemma class_names_remove:
  assumes "list_all word cs" "nodeType elem = 1"
  shows "class_names (drop_classes cs elem) = filter (\<lambda>w. w \<notin> set cs) (class_names elem) \<and> nodeType (drop_classes cs elem) = 1"
proof -
  obtain extra where e: "padded (stripAndCollapse (getClass elem)) = cur_text extra (class_names elem)"
    using padded_collapse unfolding class_names_def by blast
  have w: "list_all word (class_names elem)" by (simp add: class_names_def)
  define f where "f = stripAndCollapse (remove_names cs (padded (stripAndCollapse (getClass elem))))"
  from w have "list_all word (filter (\<lambda>w. w \<notin> set cs) (class_names elem))" by (auto simp: list_all_iff)
  with remove_names_words [OF assms(1) w, of extra] have "html_words f = filter (\<lambda>w. w \<notin> set cs) (class_names elem)"
    by (simp add: f_def e words_cur_text)
  moreover have "drop_classes cs elem = (if getClass elem \<noteq> f then setClass f elem else elem)"
    using assms(2) by (simp add: drop_classes_def Let_def f_def)
  ultimately show ?thesis using assms(2) by (cases "getClass elem = f") (simp_all add: class_names_def)
qed

lemma hasClass_names: "word c \<Longrightarrow> nodeType elem = 1 \<Longrightarrow> hasClass c [elem] \<longleftrightarrow> c \<in> set (class_names elem)"
  using hasClass_iff [of c elem] by (simp only: class_names_def simp_thms)

lemma addClass_single:
  "nodeType elem = 1 \<Longrightarrow> \<exists>e. addClass (CStr s) [elem] = [e] \<and> nodeType e = 1 \<and> set (class_names e) = set (class_names elem) \<union> set (html_words s)"
  using class_names_add [OF words_html_words, of elem s] set_add_new by (auto simp: addClass_def classesToArray_def Let_def)

lemma removeClass_single:
  "nodeType elem = 1 \<Longrightarrow> \<exists>e. removeClass (Some (CStr s)) [elem] = [e] \<and> nodeType e = 1 \<and> set (class_names e) = set (class_names elem) - set (html_words s)"
  using class_names_remove [OF words_html_words, of elem s] by (auto simp: removeClass_def classesToArray_def Let_def)

lemma html_words_self: "word c \<Longrightarrow> html_words c = [c]"
  using flags_loop_word [of c "[]" "[]"] by (auto simp: html_words_def word_def)

lemma toggle_single:
  assumes "word n" "nodeType elem = 1"
  shows "\<exists>e. toggle_name n [elem] = [e] \<and> nodeType e = 1 \<and>
    (\<forall>c. c \<in> set (class_names e) \<longleftrightarrow> (c \<in> set (class_names elem)) \<noteq> (c = n))"
proof (cases "n \<in> set (class_names elem)")
  case True
  with removeClass_single [OF assms(2), of n] hasClass_names [OF assms] html_words_self [OF assms(1)]
  show ?thesis by (auto simp: toggle_name_def simp del: hasClass.simps)
next
  case False
  with addClass_single [OF assms(2), of n] hasClass_names [OF assms] html_words_self [OF assms(1)]
  show ?thesis by (auto simp: toggle_name_def simp del: hasClass.simps)
qed

lemma toggle_names_single:
  "list_all word ns \<Longrightarrow> nodeType elem = 1 \<Longrightarrow> \<exists>e. toggle_names ns [elem] = [e] \<and> nodeType e = 1 \<and>
    (\<forall>c. c \<in> set (class_names e) \<longleftrightarrow> (c \<in> set (class_names elem)) \<noteq> odd (length (filter ((=) c) ns)))"
proof (induction ns arbitrary: elem)
  case (Cons n ns)
  then have n: "word n" "n \<noteq> []" by (simp_all add: word_def)
  from toggle_single [OF n(1) Cons.prems(2)] obtain e1 where e1: "toggle_name n [elem] = [e1]" "nodeType e1 = 1"
    "\<And>c. c \<in> set (class_names e1) \<longleftrightarrow> (c \<in> set (class_names elem)) \<noteq> (c = n)" by blast
  from Cons.IH [OF _ e1(2)] Cons.prems(1) obtain e where "toggle_names ns [e1] = [e]" "nodeType e = 1"
    "\<And>c. c \<in> set (class_names e) \<longleftrightarrow> (c \<in> set (class_names e1)) \<noteq> odd (length (filter ((=) c) ns))" by auto
  with e1 n(2) show ?case by (auto simp: e1(3))
qed simp

text \<open>After \<open>addClass\<close> an element has the names it had and the given ones, after \<open>removeClass\<close> the names it had
  except the given ones, and after \<open>toggleClass\<close> exactly the names given an odd number of times have changed
  sides; this holds for every text of names and every class attribute, however they are spaced.\<close>

theorem class_functions:
  assumes "nodeType elem = 1" "word c"
  shows "(hasClass c (addClass (CStr s) [elem]) \<longleftrightarrow> hasClass c [elem] \<or> c \<in> set (html_words s)) \<and>
    (hasClass c (removeClass (Some (CStr s)) [elem]) \<longleftrightarrow> hasClass c [elem] \<and> c \<notin> set (html_words s)) \<and>
    (hasClass c (toggleClass x (CStr s) None [elem]) \<longleftrightarrow>
       hasClass c [elem] \<noteq> odd (length (filter ((=) c) (html_words s))))"
proof -
  obtain a where a: "addClass (CStr s) [elem] = [a]" "nodeType a = 1" "set (class_names a) = set (class_names elem) \<union> set (html_words s)"
    using addClass_single [OF assms(1)] by blast
  obtain r where r: "removeClass (Some (CStr s)) [elem] = [r]" "nodeType r = 1" "set (class_names r) = set (class_names elem) - set (html_words s)"
    using removeClass_single [OF assms(1)] by blast
  obtain t where t: "toggle_names (html_words s) [elem] = [t]" "nodeType t = 1"
    "\<And>c. c \<in> set (class_names t) \<longleftrightarrow> (c \<in> set (class_names elem)) \<noteq> odd (length (filter ((=) c) (html_words s)))"
    using toggle_names_single [OF words_html_words assms(1)] by blast
  have "toggleClass x (CStr s) None [elem] = [t]"
    by (simp add: toggleClass_def toggle_one_def classesToArray_def t(1))
  then show ?thesis
    by (simp only: a(1) r(1) a(3) r(3) t(3) hasClass_names [OF assms(2,1)] hasClass_names [OF assms(2) a(2)] hasClass_names [OF assms(2) r(2)]
        hasClass_names [OF assms(2) t(2)]) auto
qed

definition class_owner :: elt where
  "class_owner = \<lparr> nodeType = 1, attributes = [(u ''class'', u ''  nav   top'')], caches = (\<lambda>_. None) \<rparr>"

theorem class_functions_witness:
  "hasClass (u ''big'') (addClass (CStr (u ''big  nav'')) [class_owner]) \<and>
   \<not> hasClass (u ''big'') (removeClass (Some (CStr (u ''big  nav''))) [class_owner]) \<and>
   hasClass (u ''big'') (toggleClass (u ''j'') (CStr (u ''big  nav'')) None [class_owner])"
proof -
  have "nodeType class_owner = 1" "word (u ''big'')" "\<not> hasClass (u ''big'') [class_owner]"
    "html_words (u ''big  nav'') = [u ''big'', u ''nav'']" by code_simp+
  with class_functions [of class_owner "u ''big''" "u ''big  nav''" "u ''j''"] show ?thesis by simp
qed

end
