(* ===== verification/JqAttr.thy ===== *)
theory JqAttr
  imports JqClass
begin

text \<open>
  Attributes, properties and values of elements (\<open>jquery-3.5.1.js\<close>, lines 4159 to 4197, 1645 to 1670, 7978 to 8241
  and 8431 to 8608): \<open>access\<close>, which reads the first element of a set or writes all, \<open>attr\<close> and
  \<open>removeAttr\<close> with the hooks for \<open>type\<close> and for boolean attributes, \<open>prop\<close> with the names it fixes,
  and \<open>val\<close> with its hooks for options, selects, radio buttons and check boxes.  Reading and writing a
  property of an element and the quirks \<open>support\<close> finds are the browser's.  The hook for \<open>selected\<close> only
  makes old browsers refresh a property and is left out, as are the workarounds for attributes of IE 8.
\<close>

section \<open>Values and nodes\<close>

datatype aval = AUndef | ANull | ABool bool | ANum int | ANaN | AStr ustr | AArr "aval list"

text \<open>\<open>value + ""\<close>; in an array \<open>null\<close> and \<open>undefined\<close> are empty.\<close>

fun to_str :: "aval \<Rightarrow> ustr" where
  "to_str AUndef = u ''undefined''"
| "to_str ANull = u ''null''"
| "to_str (ABool b) = (if b then u ''true'' else u ''false'')"
| "to_str (ANum n) = dec_int n"
| "to_str ANaN = u ''NaN''"
| "to_str (AStr s) = s"
| "to_str (AArr vs) = join [44] (map (\<lambda>v. if v = AUndef \<or> v = ANull then [] else to_str v) vs)"

definition truthy :: "aval \<Rightarrow> bool" where
  "truthy v = (case v of AUndef \<Rightarrow> False | ANull \<Rightarrow> False | ABool b \<Rightarrow> b | ANum n \<Rightarrow> n \<noteq> 0 | ANaN \<Rightarrow> False | AStr s \<Rightarrow> s \<noteq> []
     | AArr vs \<Rightarrow> True)"

text \<open>A node; one without attributes has no \<open>getAttribute\<close>.\<close>

record anode =
  n_type :: nat
  n_name :: ustr
  n_xml :: bool
  n_attrs :: "ustr dict option"
  n_props :: "aval dict"

record browser =
  radioValue :: bool
  checkOn :: bool
  read_prop :: "anode \<Rightarrow> ustr \<Rightarrow> aval"
  write_prop :: "anode \<Rightarrow> ustr \<Rightarrow> aval \<Rightarrow> anode"

text \<open>The standard's \<open>getAttribute\<close>, \<open>setAttribute\<close> and \<open>removeAttribute\<close>: outside XML names are in lower case.\<close>

definition ascii_lower :: "ustr \<Rightarrow> ustr" where
  "ascii_lower s = map (\<lambda>c. if 65 \<le> c \<and> c \<le> 90 then c + 32 else c) s"

definition html_name :: "anode \<Rightarrow> ustr \<Rightarrow> ustr" where
  "html_name elem name = (if n_xml elem then name else ascii_lower name)"

definition getAttribute :: "anode \<Rightarrow> ustr \<Rightarrow> ustr option" where
  "getAttribute elem name = (case n_attrs elem of None \<Rightarrow> None | Some d \<Rightarrow> dget d (html_name elem name))"

definition setAttribute :: "ustr \<Rightarrow> ustr \<Rightarrow> anode \<Rightarrow> anode" where
  "setAttribute name v elem = elem \<lparr> n_attrs := map_option (dput (html_name elem name) v) (n_attrs elem) \<rparr>"

definition removeAttribute :: "ustr \<Rightarrow> anode \<Rightarrow> anode" where
  "removeAttribute name elem = elem \<lparr> n_attrs := map_option (ddel (html_name elem name)) (n_attrs elem) \<rparr>"

definition no_attr_node :: "anode \<Rightarrow> bool" where
  "no_attr_node elem \<longleftrightarrow> n_type elem = 3 \<or> n_type elem = 8 \<or> n_type elem = 2"

section \<open>Reading or writing a set\<close>

text \<open>A value to write; a function value comes with what it is as a value.  \<open>None\<close> as a result is \<open>undefined\<close>.\<close>

datatype ('r, 'v) aarg = Undefined | Plain 'v | Func "nat \<Rightarrow> 'r \<Rightarrow> 'v option" 'v

datatype ('r, 'v) akey = NoKey | Key ustr | Keys "(ustr \<times> ('r, 'v) aarg) list"

text \<open>What \<open>fn\<close> does with an element and a key, with a value or without, and with a whole set.\<close>

record ('e, 'r, 'v) accessor =
  get_one :: "'e \<Rightarrow> ustr \<Rightarrow> 'r"
  set_one :: "'e \<Rightarrow> ustr \<Rightarrow> 'v \<Rightarrow> 'e"
  get_set :: "'e list \<Rightarrow> 'r"
  set_set :: "'e list \<Rightarrow> 'v \<Rightarrow> 'e list"

datatype ('e, 'r) aresult = Elems "'e list" | Got 'r | Empty

definition each_indexed :: "(nat \<Rightarrow> 'e \<Rightarrow> 'e) \<Rightarrow> 'e list \<Rightarrow> 'e list" where
  "each_indexed f elems = map (\<lambda>(i, e). f i e) (zip [0..<length elems] elems)"

definition write_one :: "('e, 'r, 'v) accessor \<Rightarrow> ustr \<Rightarrow> 'v option \<Rightarrow> 'e \<Rightarrow> 'e" where
  "write_one fn key v e = (case v of None \<Rightarrow> e | Some v \<Rightarrow> set_one fn e key v)"

definition bulk_one :: "('e, 'r, 'v) accessor \<Rightarrow> 'v option \<Rightarrow> 'e \<Rightarrow> 'e" where
  "bulk_one fn v e = (case v of None \<Rightarrow> e | Some v \<Rightarrow> hd (set_set fn [e] v))"

definition access_value :: "('e, 'r, 'v) accessor \<Rightarrow> ustr option \<Rightarrow> ('r, 'v) aarg \<Rightarrow> bool \<Rightarrow> 'e list \<Rightarrow> 'e list" where
  "access_value fn key value raw elems =
    (case value of
       Undefined \<Rightarrow> elems
     | Plain v \<Rightarrow> (case key of None \<Rightarrow> set_set fn elems v | Some k \<Rightarrow> map (write_one fn k (Some v)) elems)
     | Func f v \<Rightarrow> (case key of
         None \<Rightarrow> if raw then set_set fn elems v else each_indexed (\<lambda>i e. bulk_one fn (f i (get_set fn [e])) e) elems
       | Some k \<Rightarrow> if raw then map (write_one fn k (Some v)) elems
           else each_indexed (\<lambda>i e. write_one fn k (f i (get_one fn e k)) e) elems))"

definition access :: "'e list \<Rightarrow> ('e, 'r, 'v) accessor \<Rightarrow> ('r, 'v) akey \<Rightarrow> ('r, 'v) aarg \<Rightarrow> bool \<Rightarrow> bool \<Rightarrow> ('e, 'r) aresult" where
  "access elems fn key value chainable raw =
    (case key of
       Keys ps \<Rightarrow> Elems (fold (\<lambda>(i, v). access_value fn (Some i) v raw) ps elems)
     | _ \<Rightarrow> if value \<noteq> Undefined \<or> chainable
         then Elems (access_value fn (case key of Key k \<Rightarrow> Some k | _ \<Rightarrow> None) value raw elems)
         else (case key of
           Key k \<Rightarrow> (case elems of [] \<Rightarrow> Empty | e # _ \<Rightarrow> Got (get_one fn e k))
         | _ \<Rightarrow> Got (get_set fn elems)))"

section \<open>Properties\<close>

definition propFix :: "ustr \<Rightarrow> ustr" where
  "propFix name =
    (if name = u ''for'' then u ''htmlFor'' else if name = u ''class'' then u ''className''
     else case find (\<lambda>p. to_lower p = name) (map u [''tabIndex'', ''readOnly'', ''maxLength'', ''cellSpacing'',
            ''cellPadding'', ''rowSpan'', ''colSpan'', ''useMap'', ''frameBorder'', ''contentEditable''])
          of Some p \<Rightarrow> p | None \<Rightarrow> name)"

definition fixed_name :: "anode \<Rightarrow> ustr \<Rightarrow> ustr" where
  "fixed_name elem name = (if n_type elem \<noteq> 1 \<or> \<not> n_xml elem then propFix name else name)"

definition bool_names :: "ustr list" where
  "bool_names = map u [''checked'', ''selected'', ''async'', ''autofocus'', ''autoplay'', ''controls'', ''defer'',
     ''disabled'', ''hidden'', ''ismap'', ''loop'', ''multiple'', ''open'', ''readonly'', ''required'', ''scoped'']"

text \<open>\<open>match.bool.test(name)\<close>, whatever the case.\<close>

definition bool_name :: "ustr \<Rightarrow> bool" where
  "bool_name name \<longleftrightarrow> ascii_lower name \<in> set bool_names"

text \<open>\<open>Sizzle.attr\<close>, with the handles of the boolean attributes.\<close>

definition find_attr :: "anode \<Rightarrow> ustr \<Rightarrow> ustr option" where
  "find_attr elem name =
    (if to_lower name \<in> set bool_names \<and> \<not> n_xml elem
     then (if getAttribute elem name \<noteq> None then Some (to_lower name) else None)
     else getAttribute elem name)"

text \<open>\<open>parseInt(s, 10)\<close> of a text; \<open>None\<close> is not a number.\<close>

definition digit :: "int \<Rightarrow> bool" where
  "digit c \<longleftrightarrow> 48 \<le> c \<and> c \<le> 57"

definition parse_int :: "ustr \<Rightarrow> int option" where
  "parse_int s =
    (let t = dropWhile (\<lambda>c. c \<in> {9, 10, 11, 12, 13, 32, 160, 65279}) s;
         neg = (t \<noteq> [] \<and> hd t = 45);
         t = (if t \<noteq> [] \<and> (hd t = 45 \<or> hd t = 43) then tl t else t);
         ds = takeWhile digit t
     in if ds = [] then None else Some (if neg then - int (undec ds) else int (undec ds)))"

text \<open>The hook for \<open>tabIndex\<close>; \<open>href\<close> is a property.\<close>

definition get_tabIndex :: "browser \<Rightarrow> anode \<Rightarrow> aval" where
  "get_tabIndex b elem =
    (let tabindex = find_attr elem (u ''tabindex'')
     in if tabindex \<noteq> None \<and> tabindex \<noteq> Some []
        then (case parse_int (the tabindex) of None \<Rightarrow> ANaN | Some n \<Rightarrow> ANum n)
        else if ascii_lower (n_name elem) \<in> set (map u [''input'', ''select'', ''textarea'', ''button'']) \<or>
                ascii_lower (n_name elem) \<in> set (map u [''a'', ''area'']) \<and> truthy (read_prop b elem (u ''href''))
        then ANum 0 else ANum (-1))"

definition prop_get :: "browser \<Rightarrow> anode \<Rightarrow> ustr \<Rightarrow> aval" where
  "prop_get b elem name =
    (if no_attr_node elem then AUndef
     else let name' = fixed_name elem name
          in if (n_type elem \<noteq> 1 \<or> \<not> n_xml elem) \<and> name' = u ''tabIndex'' then get_tabIndex b elem
             else read_prop b elem name')"

definition prop_set :: "browser \<Rightarrow> anode \<Rightarrow> ustr \<Rightarrow> aval \<Rightarrow> anode" where
  "prop_set b elem name v =
    (if no_attr_node elem then elem else write_prop b elem (fixed_name elem name) v)"

definition removeProp :: "ustr \<Rightarrow> anode \<Rightarrow> anode" where
  "removeProp name elem = elem \<lparr> n_props := ddel (propFix name) (n_props elem) \<rparr>"

section \<open>Attributes\<close>

definition jq_removeAttr :: "ustr \<Rightarrow> anode \<Rightarrow> anode" where
  "jq_removeAttr value elem = (if n_type elem = 1 then fold removeAttribute (html_words value) elem else elem)"

definition set_type :: "browser \<Rightarrow> aval \<Rightarrow> anode \<Rightarrow> anode option" where
  "set_type b value elem =
    (if \<not> radioValue b \<and> value = AStr (u ''radio'') \<and> to_lower (n_name elem) = u ''input''
     then let val = read_prop b elem (u ''value'');
              elem = setAttribute (u ''type'') (to_str value) elem
          in Some (if truthy val then write_prop b elem (u ''value'') val else elem)
     else None)"

definition set_bool :: "aval \<Rightarrow> ustr \<Rightarrow> anode \<Rightarrow> anode" where
  "set_bool value name elem = (if value = ABool False then jq_removeAttr name elem else setAttribute name name elem)"

definition attr_set :: "browser \<Rightarrow> anode \<Rightarrow> ustr \<Rightarrow> aval \<Rightarrow> anode" where
  "attr_set b elem name value =
    (if no_attr_node elem then elem
     else if n_attrs elem = None then prop_set b elem name value
     else if value = ANull then jq_removeAttr name elem
     else if \<not> (n_type elem \<noteq> 1 \<or> \<not> n_xml elem) then setAttribute name (to_str value) elem
     else if to_lower name = u ''type''
     then (case set_type b value elem of Some e \<Rightarrow> e | None \<Rightarrow> setAttribute name (to_str value) elem)
     else if bool_name name then set_bool value name elem
     else setAttribute name (to_str value) elem)"

definition attr_get :: "browser \<Rightarrow> anode \<Rightarrow> ustr \<Rightarrow> aval" where
  "attr_get b elem name =
    (if no_attr_node elem then AUndef
     else if n_attrs elem = None then prop_get b elem name
     else case find_attr elem name of None \<Rightarrow> AUndef | Some s \<Rightarrow> AStr s)"

text \<open>\<open>.attr\<close> and \<open>.prop\<close> with a name or an object of names; \<open>given\<close> tells whether there is a second argument.\<close>

definition named_accessor :: "(anode \<Rightarrow> ustr \<Rightarrow> aval) \<Rightarrow> (anode \<Rightarrow> ustr \<Rightarrow> aval \<Rightarrow> anode) \<Rightarrow> (anode, aval, aval) accessor" where
  "named_accessor g s = \<lparr> get_one = g, set_one = s, get_set = (\<lambda>es. AUndef), set_set = (\<lambda>es v. es) \<rparr>"

definition jq_attr :: "browser \<Rightarrow> anode list \<Rightarrow> ustr + (ustr \<times> (aval, aval) aarg) list \<Rightarrow> (aval, aval) aarg \<Rightarrow> bool \<Rightarrow>
    (anode, aval) aresult" where
  "jq_attr b self name value given =
    access self (named_accessor (attr_get b) (attr_set b)) (case name of Inl n \<Rightarrow> Key n | Inr ps \<Rightarrow> Keys ps) value given False"

definition jq_prop :: "browser \<Rightarrow> anode list \<Rightarrow> ustr + (ustr \<times> (aval, aval) aarg) list \<Rightarrow> (aval, aval) aarg \<Rightarrow> bool \<Rightarrow>
    (anode, aval) aresult" where
  "jq_prop b self name value given =
    access self (named_accessor (prop_get b) (prop_set b)) (case name of Inl n \<Rightarrow> Key n | Inr ps \<Rightarrow> Keys ps) value given False"

section \<open>Values of form controls\<close>

record opt =
  o_attr :: "ustr option"
  o_text :: ustr
  o_selected :: bool
  o_disabled :: bool
  o_group :: bool
  o_group_disabled :: bool

text \<open>A control: its \<open>type\<close> and name, its value attribute and property, and what its hook looks at.\<close>

record field =
  f_element :: bool
  f_type :: "ustr option"
  f_name :: ustr
  f_attr :: "ustr option"
  f_text :: ustr
  f_value :: aval
  f_checked :: bool
  f_options :: "opt list"

datatype hook = HOption | HSelect | HCheck

definition hook_named :: "ustr \<Rightarrow> hook option" where
  "hook_named s = (if s = u ''option'' then Some HOption else if s = u ''select'' then Some HSelect
     else if s = u ''radio'' \<or> s = u ''checkbox'' then Some HCheck else None)"

definition valHook :: "field \<Rightarrow> hook option" where
  "valHook f = (case Option.bind (f_type f) hook_named of Some h \<Rightarrow> Some h | None \<Rightarrow> hook_named (to_lower (f_name f)))"

definition option_value :: "ustr option \<Rightarrow> ustr \<Rightarrow> ustr" where
  "option_value attr txt = (case attr of Some v \<Rightarrow> v | None \<Rightarrow> stripAndCollapse txt)"

definition option_val :: "opt \<Rightarrow> ustr" where
  "option_val o' = option_value (o_attr o') (o_text o')"

definition enabled :: "opt \<Rightarrow> bool" where
  "enabled o' \<longleftrightarrow> \<not> o_disabled o' \<and> (\<not> o_group_disabled o' \<or> \<not> o_group o')"

definition select_one :: "field \<Rightarrow> bool" where
  "select_one f \<longleftrightarrow> f_type f = Some (u ''select-one'')"

text \<open>\<open>selectedIndex\<close>: the first selected option, or -1.\<close>

fun selectedIndex :: "opt list \<Rightarrow> int" where
  "selectedIndex [] = -1"
| "selectedIndex (x # xs) = (if o_selected x then 0 else let i = selectedIndex xs in if i < 0 then -1 else i + 1)"

text \<open>The loop over the options from \<open>i\<close> to before \<open>max\<close>; a single select returns at the first hit.\<close>

fun select_loop :: "bool \<Rightarrow> int \<Rightarrow> int \<Rightarrow> opt list \<Rightarrow> ustr list" where
  "select_loop one index i [] = []"
| "select_loop one index i (x # xs) =
    (if (o_selected x \<or> i = index) \<and> enabled x
     then option_val x # (if one then [] else select_loop one index (i + 1) xs)
     else select_loop one index (i + 1) xs)"

definition select_get :: "field \<Rightarrow> aval" where
  "select_get f =
    (let options = f_options f;
         index = selectedIndex options;
         one = select_one f;
         max = (if one then nat (index + 1) else length options);
         i = (if index < 0 then max else if one then nat index else 0);
         values = select_loop one index (int i) (drop i (take max options))
     in if one then (case values of [] \<Rightarrow> ANull | v # _ \<Rightarrow> AStr v) else AArr (map AStr values))"

text \<open>Assigning \<open>selected\<close> to an option of a select is the browser's: \<open>pick\<close> gives the options after it.\<close>

type_synonym picker = "opt list \<Rightarrow> nat \<Rightarrow> bool \<Rightarrow> opt list"

definition select_values :: "aval \<Rightarrow> aval list" where
  "select_values value = (case value of AArr vs \<Rightarrow> vs | ANull \<Rightarrow> [] | v \<Rightarrow> [v])"

fun select_set_loop :: "picker \<Rightarrow> aval list \<Rightarrow> nat \<Rightarrow> bool \<Rightarrow> opt list \<Rightarrow> bool \<times> opt list" where
  "select_set_loop pick values 0 optionSet options = (optionSet, options)"
| "select_set_loop pick values (Suc i) optionSet options =
    (let sel = AStr (option_val (options ! i)) \<in> set values
     in select_set_loop pick values i (optionSet \<or> sel) (pick options i sel))"

definition unselect :: "opt list \<Rightarrow> opt list" where
  "unselect options = map (\<lambda>x. x \<lparr> o_selected := False \<rparr>) options"

definition select_set :: "picker \<Rightarrow> aval \<Rightarrow> field \<Rightarrow> field" where
  "select_set pick value f =
    (case select_set_loop pick (select_values value) (length (f_options f)) False (f_options f) of
       (optionSet, options) \<Rightarrow> f \<lparr> f_options := if optionSet then options else unselect options \<rparr>)"

definition val_get :: "browser \<Rightarrow> field \<Rightarrow> aval" where
  "val_get b f =
    (let plain = (case f_value f of AStr s \<Rightarrow> AStr (filter (\<lambda>c. c \<noteq> 13) s) | ANull \<Rightarrow> AStr [] | AUndef \<Rightarrow> AStr [] | v \<Rightarrow> v)
     in case valHook f of
          Some HOption \<Rightarrow> AStr (option_value (f_attr f) (f_text f))
        | Some HSelect \<Rightarrow> select_get f
        | Some HCheck \<Rightarrow> if \<not> checkOn b then (if f_attr f = None then AStr (u ''on'') else f_value f) else plain
        | None \<Rightarrow> plain)"

text \<open>What the value is turned into before it is set.\<close>

definition set_text :: "aval \<Rightarrow> aval" where
  "set_text v = (case v of AUndef \<Rightarrow> AStr [] | ANull \<Rightarrow> AStr [] | ANum n \<Rightarrow> AStr (dec_int n) | ANaN \<Rightarrow> AStr (to_str ANaN)
     | AArr vs \<Rightarrow> AArr (map (\<lambda>x. if x = AUndef \<or> x = ANull then AStr [] else AStr (to_str x)) vs) | v \<Rightarrow> v)"

text \<open>\<open>store\<close> is what the property \<open>value\<close> of the element is after an assignment.\<close>

definition val_set :: "browser \<Rightarrow> picker \<Rightarrow> (field \<Rightarrow> aval \<Rightarrow> aval) \<Rightarrow> field \<Rightarrow> aval \<Rightarrow> field" where
  "val_set b pick store f value =
    (if \<not> f_element f then f
     else let val = set_text value
          in case valHook f of
               Some HSelect \<Rightarrow> select_set pick val f
             | Some HCheck \<Rightarrow> (case val of AArr vs \<Rightarrow> f \<lparr> f_checked := (val_get b f \<in> set vs) \<rparr>
                 | _ \<Rightarrow> f \<lparr> f_value := store f val \<rparr>)
             | _ \<Rightarrow> f \<lparr> f_value := store f val \<rparr>)"

datatype varg = VVal aval | VFun "nat \<Rightarrow> aval \<Rightarrow> aval"

definition jq_val_set :: "browser \<Rightarrow> picker \<Rightarrow> (field \<Rightarrow> aval \<Rightarrow> aval) \<Rightarrow> varg \<Rightarrow> field list \<Rightarrow> field list" where
  "jq_val_set b pick store value self = each_indexed (\<lambda>i f. if \<not> f_element f then f
     else val_set b pick store f (case value of VVal v \<Rightarrow> v | VFun g \<Rightarrow> g i (val_get b f))) self"

definition jq_val :: "browser \<Rightarrow> field list \<Rightarrow> aval" where
  "jq_val b self = (case self of [] \<Rightarrow> AUndef | f # _ \<Rightarrow> val_get b f)"

section \<open>Attributes read back\<close>

lemma ascii_lower_idem [simp]: "ascii_lower (ascii_lower s) = ascii_lower s"
  by (auto simp: ascii_lower_def)

lemma to_lower_ascii: "ascii_lower s = ascii_lower t \<Longrightarrow> to_lower s = to_lower t"
proof (induction s arbitrary: t)
  case (Cons c s)
  then obtain d t' where "t = d # t'" by (cases t) (auto simp: ascii_lower_def)
  with Cons show ?case by (auto simp: ascii_lower_def to_lower_def to_lower_unit_def split: if_splits)
qed (simp add: ascii_lower_def to_lower_def)

text \<open>The boolean names are plain words of small letters.\<close>

lemma bool_names_plain:
  "list_all (\<lambda>s. html_words s = [s] \<and> list_all (\<lambda>c. c < 128) s \<and> s \<noteq> u ''type'') bool_names"
  by code_simp

lemma bool_names_D: "s \<in> set bool_names \<Longrightarrow> html_words s = [s] \<and> (\<forall>c \<in> set s. c < 128) \<and> s \<noteq> u ''type''"
  using bool_names_plain by (auto simp: list_all_iff)

lemma small_lower: "(\<forall>c \<in> set (to_lower s). c < 128) \<or> (\<forall>c \<in> set (ascii_lower s). c < 128) \<Longrightarrow> to_lower s = ascii_lower s"
proof -
  assume a: "(\<forall>c \<in> set (to_lower s). c < 128) \<or> (\<forall>c \<in> set (ascii_lower s). c < 128)"
  have "to_lower_unit c = (if 65 \<le> c \<and> c \<le> 90 then c + 32 else c)" if "c \<in> set s" for c
  proof -
    from a that have "to_lower_unit c < 128 \<or> (if 65 \<le> c \<and> c \<le> 90 then c + 32 else c) < 128"
      unfolding to_lower_def ascii_lower_def set_map by blast
    then show ?thesis by (auto simp: to_lower_unit_def split: if_splits)
  qed
  then show ?thesis unfolding to_lower_def ascii_lower_def by simp
qed

lemma bool_name_lower: "bool_name s \<Longrightarrow> to_lower s = ascii_lower s"
  unfolding bool_name_def using bool_names_D small_lower by blast

lemma find_attr_html:
  assumes "\<not> n_xml e"
  shows "find_attr e k = (if bool_name k then (if getAttribute e k \<noteq> None then Some (ascii_lower k) else None) else getAttribute e k)"
proof (cases "to_lower k \<in> set bool_names")
  case True
  then have "to_lower k = ascii_lower k" using bool_names_D small_lower by blast
  with True assms show ?thesis by (simp add: find_attr_def bool_name_def)
next
  case False
  then have "\<not> bool_name k" using bool_name_lower by (auto simp: bool_name_def)
  with False show ?thesis by (simp add: find_attr_def)
qed

lemma flags_loop_lower: "flags_loop (ascii_lower w) (ascii_lower s) = map ascii_lower (flags_loop w s)"
proof (induction w s rule: flags_loop.induct)
  case (2 w c s)
  have c: "opt_space (if 65 \<le> c \<and> c \<le> 90 then c + 32 else c) = opt_space c" by (auto simp: opt_space_def)
  have w: "ascii_lower w @ [if 65 \<le> c \<and> c \<le> 90 then c + 32 else c] = ascii_lower (w @ [c])" by (simp add: ascii_lower_def)
  have s: "ascii_lower (c # s) = (if 65 \<le> c \<and> c \<le> 90 then c + 32 else c) # ascii_lower s" by (simp add: ascii_lower_def)
  have n: "(ascii_lower w = []) = (w = [])" "ascii_lower [] = []" by (simp_all add: ascii_lower_def)
  show ?case unfolding s flags_loop.simps(2) c w using 2 n by (simp del: flags_loop.simps)
qed (auto simp: ascii_lower_def)

lemma bool_name_words:
  assumes "bool_name s"
  shows "\<exists>w. html_words s = [w] \<and> ascii_lower w = ascii_lower s"
proof -
  have "map ascii_lower (html_words s) = [ascii_lower s]"
    using assms bool_names_D flags_loop_lower [of "[]" s] by (simp add: bool_name_def html_words_def ascii_lower_def)
  then show ?thesis by auto
qed

lemma getAttribute_set:
  "n_attrs e = Some d \<Longrightarrow> getAttribute (setAttribute name v e) k =
     (if html_name e k = html_name e name then Some v else getAttribute e k)"
  by (simp add: getAttribute_def setAttribute_def html_name_def)

lemma getAttribute_remove:
  "n_attrs e = Some d \<Longrightarrow> getAttribute (removeAttribute name e) k =
     (if html_name e k = html_name e name then None else getAttribute e k)"
  by (simp add: getAttribute_def removeAttribute_def html_name_def)

text \<open>An attribute that is set on an element of a page reads back, under every spelling of its name: as the text of
  the value, or, for a boolean attribute, as its name unless it was set to \<open>false\<close>, which removes it.
  Every other attribute reads as before.\<close>

theorem attr_read_back:
  assumes "n_type e = 1" "\<not> n_xml e" "n_attrs e = Some d" "v \<noteq> AUndef" "v \<noteq> ANull" "radioValue b"
  shows "attr_get b (attr_set b e name v) k =
    (if ascii_lower k \<noteq> ascii_lower name then attr_get b e k
     else if bool_name name then (if v = ABool False then AUndef else AStr (ascii_lower name))
     else AStr (to_str v))"
proof -
  let ?e = "attr_set b e name v"
  have bool: "bool_name k = bool_name name" if "ascii_lower k = ascii_lower name" using that by (simp add: bool_name_def)
  have notype: "to_lower name \<noteq> u ''type''" if "bool_name name"
    using that bool_names_D bool_name_lower by (auto simp: bool_name_def)
  have set: "getAttribute (setAttribute name t e) k = (if ascii_lower k = ascii_lower name then Some t else getAttribute e k)" for t
    using getAttribute_set [OF assms(3)] assms(2) by (simp add: html_name_def)
  have remove: "getAttribute (jq_removeAttr name e) k = (if ascii_lower k = ascii_lower name then None else getAttribute e k)"
    if "bool_name name"
    using bool_name_words [OF that] getAttribute_remove [OF assms(3)] assms(1,2) by (auto simp: jq_removeAttr_def html_name_def)
  have "getAttribute ?e k = (if ascii_lower k \<noteq> ascii_lower name then getAttribute e k
      else if bool_name name then (if v = ABool False then None else Some name) else Some (to_str v))"
    using assms set remove notype by (auto simp: attr_set_def no_attr_node_def set_type_def set_bool_def)
  moreover have "n_type ?e = 1" "\<not> n_xml ?e" "n_attrs ?e \<noteq> None"
    using assms by (auto simp: attr_set_def no_attr_node_def set_type_def set_bool_def setAttribute_def jq_removeAttr_def
      removeAttribute_def dest!: bool_name_words split: option.split)
  ultimately show ?thesis
    using assms bool by (auto simp: attr_get_def no_attr_node_def find_attr_html)
qed

definition sample_browser :: browser where
  "sample_browser = \<lparr> radioValue = True, checkOn = True, read_prop = (\<lambda>e n. case dget (n_props e) n of None \<Rightarrow> AUndef | Some v \<Rightarrow> v),
     write_prop = (\<lambda>e n v. e \<lparr> n_props := dput n v (n_props e) \<rparr>) \<rparr>"

definition sample_input :: anode where
  "sample_input = \<lparr> n_type = 1, n_name = u ''INPUT'', n_xml = False, n_attrs = Some [], n_props = [] \<rparr>"

lemma attr_read_back_witness:
  "attr_get sample_browser (attr_set sample_browser sample_input (u ''Checked'') (ABool True)) (u ''checked'') = AStr (u ''checked'') \<and>
   attr_get sample_browser (attr_set sample_browser sample_input (u ''data-n'') (ANum 12)) (u ''DATA-N'') = AStr (u ''12'')"
proof -
  have e: "n_type sample_input = 1" "\<not> n_xml sample_input" "n_attrs sample_input = Some []" "radioValue sample_browser"
    by (simp_all add: sample_input_def sample_browser_def)
  have "ascii_lower (u ''checked'') = ascii_lower (u ''Checked'')" "bool_name (u ''Checked'')" "ascii_lower (u ''Checked'') = u ''checked''"
    "ascii_lower (u ''DATA-N'') = ascii_lower (u ''data-n'')" "\<not> bool_name (u ''data-n'')" "to_str (ANum 12) = u ''12''"
    by code_simp+
  then show ?thesis
    using attr_read_back [OF e(1-3) _ _ e(4), of "ABool True" "u ''Checked''" "u ''checked''"]
      attr_read_back [OF e(1-3) _ _ e(4), of "ANum 12" "u ''data-n''" "u ''DATA-N''"] by simp
qed

section \<open>Selects\<close>

text \<open>Assigning \<open>selected\<close> in a select of several options changes that option alone.\<close>

definition pick_many :: picker where
  "pick_many options i b = options[i := (options ! i) \<lparr> o_selected := b \<rparr>]"

definition marked :: "aval list \<Rightarrow> opt \<Rightarrow> opt" where
  "marked values x = x \<lparr> o_selected := AStr (option_val x) \<in> set values \<rparr>"

lemma select_set_loop_many:
  "i \<le> length xs \<Longrightarrow> select_set_loop pick_many values i s xs =
     (s \<or> (\<exists>x \<in> set (take i xs). AStr (option_val x) \<in> set values), map (marked values) (take i xs) @ drop i xs)"
proof (induction i arbitrary: s xs)
  case (Suc i)
  have i: "i < length xs" using Suc.prems by simp
  let ?xs = "pick_many xs i (AStr (option_val (xs ! i)) \<in> set values)"
  have "take i ?xs = take i xs" "drop i ?xs = marked values (xs ! i) # drop (Suc i) xs" "length ?xs = length xs"
    using i by (auto simp: pick_many_def marked_def drop_update_swap Cons_nth_drop_Suc [symmetric])
  with Suc.IH [of ?xs] i show ?case
    by (auto simp: take_Suc_conv_app_nth)
qed simp

lemma select_loop_many:
  "index < 0 \<or> index < i \<or> (\<exists>j < length xs. index = i + int j \<and> o_selected (xs ! j)) \<Longrightarrow> 0 \<le> i \<Longrightarrow>
   select_loop False index i xs = map option_val (filter (\<lambda>x. o_selected x \<and> enabled x) xs)"
proof (induction xs arbitrary: i)
  case (Cons x xs)
  have hd: "o_selected x" if "i = index"
    using Cons.prems that by auto
  have "index < 0 \<or> index < i + 1 \<or> (\<exists>j < length xs. index = i + 1 + int j \<and> o_selected (xs ! j))"
    using Cons.prems(1)
  proof (elim disjE exE conjE)
    fix j assume "j < length (x # xs)" "index = i + int j" "o_selected ((x # xs) ! j)"
    then show ?thesis by (cases j) auto
  qed auto
  from Cons.IH [OF this] Cons.prems(2) hd show ?case by auto
qed simp

lemma selectedIndex_sel: "selectedIndex xs < 0 \<or> (\<exists>j < length xs. selectedIndex xs = int j \<and> o_selected (xs ! j))"
proof (induction xs)
  case (Cons x xs)
  then show ?case by (cases "o_selected x") (auto simp: Let_def intro: exI [of _ "Suc _"])
qed simp

lemma select_get_many:
  assumes "\<not> select_one f"
  shows "select_get f = AArr (map AStr (map option_val (filter (\<lambda>x. o_selected x \<and> enabled x) (f_options f))))"
proof (cases "selectedIndex (f_options f) < 0")
  case True
  have "\<forall>x \<in> set xs. \<not> o_selected x" if "selectedIndex xs < 0" for xs
    using that by (induction xs) (auto simp: Let_def split: if_splits)
  with True assms show ?thesis by (simp add: select_get_def Let_def filter_empty_conv)
next
  case False
  with assms select_loop_many [of "selectedIndex (f_options f)" 0 "f_options f"] selectedIndex_sel [of "f_options f"]
  show ?thesis by (simp add: select_get_def Let_def)
qed

text \<open>Setting the values of a select of several options selects exactly the options whose value is among them;
  reading them back gives those values, in the order of the options, without the disabled ones.\<close>

theorem select_read_back:
  assumes "f_type f = Some (u ''select-multiple'')" "f_name f = u ''SELECT''" "f_element f"
  shows "val_get b (val_set b pick_many store f (AArr (map AStr vs))) =
      AArr (map AStr (filter (\<lambda>v. v \<in> set vs) (map option_val (filter enabled (f_options f))))) \<and>
    map o_selected (f_options (val_set b pick_many store f (AArr (map AStr vs)))) =
      map (\<lambda>x. option_val x \<in> set vs) (f_options f)"
proof -
  have "to_lower (u ''SELECT'') = u ''select''" by code_simp
  then have h: "valHook f = Some HSelect" using assms by (simp add: valHook_def hook_named_def)
  have t: "set_text (AArr (map AStr vs)) = AArr (map AStr vs)" by (simp add: set_text_def comp_def)
  have un: "unselect (map (marked vs') xs) = map (marked vs') xs" if "\<forall>x \<in> set xs. AStr (option_val x) \<notin> set vs'" for vs' xs
    using that by (simp add: unselect_def marked_def)
  have s: "val_set b pick_many store f (AArr (map AStr vs)) = f \<lparr> f_options := map (marked (map AStr vs)) (f_options f) \<rparr>"
    using assms h t un [of "f_options f" "map AStr vs"] select_set_loop_many [of "length (f_options f)" "f_options f" "map AStr vs" False]
    by (auto simp: val_set_def select_set_def select_values_def)
  let ?f = "f \<lparr> f_options := map (marked (map AStr vs)) (f_options f) \<rparr>"
  have h': "valHook ?f = Some HSelect" "\<not> select_one ?f" using h assms by (simp_all add: valHook_def select_one_def split: option.splits)
  have "filter (\<lambda>x. o_selected x \<and> enabled x) (map (marked (map AStr vs)) xs) = map (marked (map AStr vs)) (filter (\<lambda>x. option_val x \<in> set vs \<and> enabled x) xs)" for xs
    by (induction xs) (auto simp: marked_def option_val_def enabled_def)
  moreover have "option_val (marked vs' x) = option_val x" for vs' x by (simp add: marked_def option_val_def)
  ultimately have "select_get ?f = AArr (map AStr (map option_val (filter (\<lambda>x. option_val x \<in> set vs \<and> enabled x) (f_options f))))"
    using select_get_many [OF h'(2)] by (simp add: comp_def)
  moreover have "map option_val (filter (\<lambda>x. option_val x \<in> set vs \<and> enabled x) xs) = filter (\<lambda>v. v \<in> set vs) (map option_val (filter enabled xs))" for xs
    by (induction xs) auto
  ultimately show ?thesis unfolding s using h' by (auto simp: val_get_def Let_def marked_def)
qed

definition sample_select :: field where
  "sample_select = \<lparr> f_element = True, f_type = Some (u ''select-multiple''), f_name = u ''SELECT'', f_attr = None, f_text = [],
     f_value = AUndef, f_checked = False, f_options =
       [\<lparr> o_attr = Some (u ''a''), o_text = [], o_selected = True, o_disabled = False, o_group = False, o_group_disabled = False \<rparr>,
        \<lparr> o_attr = None, o_text = u '' b c'', o_selected = False, o_disabled = False, o_group = False, o_group_disabled = False \<rparr>,
        \<lparr> o_attr = Some (u ''d''), o_text = [], o_selected = False, o_disabled = True, o_group = False, o_group_disabled = False \<rparr>] \<rparr>"

lemma select_read_back_witness:
  "val_get sample_browser (val_set sample_browser pick_many (\<lambda>f v. v) sample_select (AArr (map AStr [u ''d'', u ''b c'']))) =
     AArr [AStr (u ''b c'')]"
proof -
  have s: "f_type sample_select = Some (u ''select-multiple'')" "f_name sample_select = u ''SELECT''" "f_element sample_select"
    by (simp_all add: sample_select_def)
  have "filter (\<lambda>v. v \<in> set [u ''d'', u ''b c'']) (map option_val (filter enabled (f_options sample_select))) = [u ''b c'']"
    by code_simp
  then show ?thesis using select_read_back [OF s, of sample_browser "\<lambda>f v. v" "[u ''d'', u ''b c'']"] by simp
qed

end
