(* ===== verification/JqParam.thy ===== *)
theory JqParam
  imports JsDoctools
begin

text \<open>
  \<open>jQuery.param\<close> (\<open>jquery-3.5.1.js\<close>, lines 8885 to 8960): the query string of a form or of a nested
  object.  A parameter is \<open>null\<close>, a scalar with its text, a function with its source text and its
  result, an array, or an object.  \<open>None\<close> is the exception \<open>encodeURIComponent\<close> throws.  The last
  theorem ties it to the function of \<open>doctools.js\<close> that reads query strings.
\<close>

datatype pval = PNull | PScalar ustr | PFn ustr pval | PArr "pval list" | PObj "(ustr \<times> pval) list"

datatype parg = ArgNull | ArgForm "(ustr \<times> pval) list" | ArgObj "(ustr \<times> pval) list"

text \<open>\<open>String(v)\<close>: an array joins its members, \<open>null\<close> among them empty.\<close>

fun pval_text :: "pval \<Rightarrow> ustr" where
  "pval_text PNull = u ''null''"
| "pval_text (PScalar s) = s"
| "pval_text (PFn src r) = src"
| "pval_text (PArr vs) = join (u '','') (map (\<lambda>v. if v = PNull then [] else pval_text v) vs)"
| "pval_text (PObj ps) = u ''[object Object]''"

definition is_object :: "pval \<Rightarrow> bool" where
  "is_object v = (case v of PArr vs \<Rightarrow> True | PObj ps \<Rightarrow> True | _ \<Rightarrow> False)"

definition rbracket :: "ustr \<Rightarrow> bool" where
  "rbracket s \<longleftrightarrow> ends_with (u ''[]'') s"

definition bracket :: "ustr \<Rightarrow> ustr \<Rightarrow> ustr" where
  "bracket pre name = pre @ u ''['' @ name @ u '']''"

text \<open>The calls of \<open>add\<close> that \<open>buildParams\<close> makes, in their order.\<close>

fun buildParams :: "ustr \<Rightarrow> pval \<Rightarrow> bool \<Rightarrow> (ustr \<times> pval) list"
  and build_items :: "ustr \<Rightarrow> nat \<Rightarrow> pval list \<Rightarrow> bool \<Rightarrow> (ustr \<times> pval) list"
  and build_props :: "ustr \<Rightarrow> (ustr \<times> pval) list \<Rightarrow> bool \<Rightarrow> (ustr \<times> pval) list" where
  "buildParams pre (PArr vs) traditional = build_items pre 0 vs traditional"
| "buildParams pre (PObj ps) traditional = (if \<not> traditional then build_props pre ps traditional else [(pre, PObj ps)])"
| "buildParams pre v traditional = [(pre, v)]"
| "build_items pre i [] traditional = []"
| "build_items pre i (v # vs) traditional =
    (if traditional \<or> rbracket pre then [(pre, v)]
     else buildParams (bracket pre (if is_object v then dec_nat i else [])) v traditional)
    @ build_items pre (Suc i) vs traditional"
| "build_props pre [] traditional = []"
| "build_props pre ((name, v) # ps) traditional =
    buildParams (bracket pre name) v traditional @ build_props pre ps traditional"

definition param_add :: "ustr \<times> pval \<Rightarrow> ustr option" where
  "param_add kv = (case kv of (key, valueOrFunction) \<Rightarrow>
     (let value = (case valueOrFunction of PFn src r \<Rightarrow> r | v \<Rightarrow> v)
      in case (encodeURIComponent key, encodeURIComponent (if value = PNull then [] else pval_text value)) of
           (Some k, Some v) \<Rightarrow> Some (k @ u ''='' @ v)
         | _ \<Rightarrow> None))"

definition param_adds :: "parg \<Rightarrow> bool \<Rightarrow> (ustr \<times> pval) list" where
  "param_adds a traditional = (case a of
     ArgNull \<Rightarrow> []
   | ArgForm fs \<Rightarrow> fs
   | ArgObj ps \<Rightarrow> concat (map (\<lambda>(pre, v). buildParams pre v traditional) ps))"

definition jq_param :: "parg \<Rightarrow> bool \<Rightarrow> ustr option" where
  "jq_param a traditional = map_option (join (u ''&'')) (those (map param_add (param_adds a traditional)))"

section \<open>Form elements\<close>

text \<open>\<open>serializeArray\<close>: what a form control is and holds; \<open>elements\<close> are the controls of a form.\<close>

record control =
  c_name :: ustr
  c_type :: ustr
  c_nodeName :: ustr
  c_disabled :: bool
  c_checked :: bool
  c_val :: "ustr list + ustr option"

definition rsubmitterTypes :: re where
  "rsubmitterTypes = seqs [Bol, alts [u ''submit'', u ''button'', u ''image'', u ''reset'', u ''file''], Eol]"

definition rsubmittable :: re where
  "rsubmittable = seqs [Bol, alts [u ''input'', u ''select'', u ''textarea'', u ''keygen'']]"

definition rcheckableType :: re where
  "rcheckableType = seqs [Bol, alts [u ''checkbox'', u ''radio''], Eol]"

text \<open>\<open>replace(/\r?\n/g, "\r\n")\<close>.\<close>

fun rCRLF :: "ustr \<Rightarrow> ustr" where
  "rCRLF (c # d # s) = (if c = 13 \<and> d = 10 then 13 # 10 # rCRLF s
     else (if c = 10 then [13, 10] else [c]) @ rCRLF (d # s))"
| "rCRLF [c] = (if c = 10 then [13, 10] else [c])"
| "rCRLF [] = []"

definition submitted :: "control \<Rightarrow> bool" where
  "submitted c \<longleftrightarrow> c_name c \<noteq> [] \<and> \<not> c_disabled c \<and> test rsubmittable (to_lower (c_nodeName c)) \<and>
     \<not> test rsubmitterTypes (to_lower (c_type c)) \<and> (c_checked c \<or> \<not> test rcheckableType (to_lower (c_type c)))"

definition control_pairs :: "control \<Rightarrow> (ustr \<times> pval) list" where
  "control_pairs c = (case c_val c of
     Inl vs \<Rightarrow> map (\<lambda>v. (c_name c, PScalar (rCRLF v))) vs
   | Inr None \<Rightarrow> []
   | Inr (Some v) \<Rightarrow> [(c_name c, PScalar (rCRLF v))])"

definition serializeArray :: "control list \<Rightarrow> (ustr \<times> pval) list" where
  "serializeArray controls = concat (map control_pairs (filter submitted controls))"

definition jq_serialize :: "control list \<Rightarrow> ustr option" where
  "jq_serialize controls = jq_param (ArgForm (serializeArray controls)) False"

section \<open>Lemmas\<close>

definition valid_text :: "ustr \<Rightarrow> bool" where
  "valid_text s \<longleftrightarrow> (\<forall>c \<in> set s. 0 \<le> c \<and> c < 65536)"

text \<open>The values of each name, in their order.\<close>

definition group_step :: "ustr \<times> ustr \<Rightarrow> ustr option list dict \<Rightarrow> ustr option list dict" where
  "group_step kv r = (case kv of (k, v) \<Rightarrow>
     dput k ((case dget r k of None \<Rightarrow> [] | Some vs \<Rightarrow> vs) @ [Some v]) r)"

definition group_form :: "(ustr \<times> ustr) list \<Rightarrow> ustr option list dict" where
  "group_form fs = fold group_step fs []"

lemma encoded_clean:
  assumes "encodeURIComponent s = Some e" "valid_text s"
  shows "38 \<notin> set e \<and> 61 \<notin> set e \<and> urldecode (Some e) = Some (Some s)"
proof -
  have r: "\<forall>c \<in> set s. 0 \<le> c \<and> c < 65536" using assms(2) by (simp add: valid_text_def)
  have n: "38 \<notin> set e" "61 \<notin> set e" "43 \<notin> set e"
    using enc_units [OF assms(1) r, of 38] enc_units [OF assms(1) r, of 61] enc_units [OF assms(1) r, of 43]
    by (auto simp: uri_plain_def)
  moreover have "urldecode (Some e) = Some (Some s)"
    using decode_encode [OF assms(1) r] n(3)
    by (auto simp: urldecode_def replace_unit_none decodeURIComponent.simps [of "[]"])
  ultimately show ?thesis by blast
qed

lemma params_step:
  assumes "param_add (k, PScalar v) = Some part" "valid_text k" "valid_text v" "\<forall>n \<in> set inherited_names. dget r n = None"
  shows "params_loop (part # parts) r =
      (if k \<in> set inherited_names then None else params_loop parts (group_step (k, v) r)) \<and> 38 \<notin> set part"
proof -
  from assms(1) obtain a b where a: "encodeURIComponent k = Some a" and b: "encodeURIComponent v = Some b"
    and part: "part = a @ 61 # b" by (auto simp: param_add_def Let_def ulit split: option.splits)
  note ca = encoded_clean [OF a assms(2)] and cb = encoded_clean [OF b assms(3)]
  have "split_str (u ''='') part = [a, b]"
    using split_str_unit(2) [of 61 a b] split_str_unit(1) [of 61 b] ca cb by (simp add: part ulit)
  with ca cb assms(4) show ?thesis
    by (auto simp: group_step_def put_param_def part split: option.split)
qed

lemma split_join_amp:
  assumes "ps \<noteq> []" "\<forall>p \<in> set ps. 38 \<notin> set p"
  shows "split_str [38 :: int] (join [38] ps) = ps"
  using assms
proof (induction ps)
  case (Cons p ps)
  then show ?case by (cases "ps = []") (auto simp: join_Cons split_str_unit)
qed simp

lemma those_Some: "those xs = Some ys \<longleftrightarrow> xs = map Some ys"
  by (induction xs arbitrary: ys) (auto split: option.split)

lemma params_parts:
  assumes "map param_add (map (\<lambda>(k, v). (k, PScalar v)) fs) = map Some parts"
    and "\<forall>(k, v) \<in> set fs. valid_text k \<and> valid_text v" and "\<forall>n \<in> set inherited_names. dget r n = None"
  shows "params_loop parts r =
      (if \<exists>k \<in> fst ` set fs. k \<in> set inherited_names then None else Some (fold group_step fs r))
    \<and> (\<forall>p \<in> set parts. 38 \<notin> set p)"
  using assms
proof (induction fs arbitrary: parts r)
  case (Cons f fs)
  obtain k v where f: "f = (k, v)" by fastforce
  from Cons.prems(1) f obtain part ps where p: "parts = part # ps" "param_add (k, PScalar v) = Some part"
    "map param_add (map (\<lambda>(k, v). (k, PScalar v)) fs) = map Some ps" by (cases parts) auto
  have k: "valid_text k" "valid_text v" using Cons.prems(2) f by auto
  have r: "\<forall>n \<in> set inherited_names. dget (group_step (k, v) r) n = None" if "k \<notin> set inherited_names"
    using Cons.prems(3) that by (auto simp: group_step_def)
  from params_step [OF p(2) k Cons.prems(3)] Cons.IH [OF p(3) _ r] Cons.IH [OF p(3) _ Cons.prems(3)] Cons.prems(2) f p(1)
  show ?case by (cases "k \<in> set inherited_names") simp_all
qed simp

text \<open>C26: The query string \<open>param\<close> makes of a form, read back by \<open>getQueryParameters\<close>: for any names and
  values that can be encoded, repeated names, separators and spaces included, it is read back as the
  form's values, grouped by name in their order, unless a name is one that every object inherits
  (\<open>constructor\<close>, \<open>toString\<close> and the others of \<open>Object.prototype\<close>): for such a name \<open>key in result\<close> holds
  before any value is stored, and the reader throws.\<close>

theorem param_roundtrip:
  assumes "jq_param (ArgForm (map (\<lambda>(k, v). (k, PScalar v)) fs)) traditional = Some q" "fs \<noteq> []"
    and "list_all (\<lambda>(k, v). valid_text k \<and> valid_text v) fs"
  shows "getQueryParameters (u ''?'' @ q) =
    (if \<exists>k \<in> fst ` set fs. k \<in> set inherited_names then None else Some (group_form fs))"
proof -
  from assms(1) obtain parts where parts: "map param_add (map (\<lambda>(k, v). (k, PScalar v)) fs) = map Some parts"
    and q: "q = join [38] parts" by (auto simp: jq_param_def param_adds_def those_Some ulit)
  from assms(3) have "\<forall>(k, v) \<in> set fs. valid_text k \<and> valid_text v"
    by (simp add: list_all_iff)
  from params_parts [OF parts this, of "[]"] have pp: "params_loop parts [] =
      (if \<exists>k \<in> fst ` set fs. k \<in> set inherited_names then None else Some (fold group_step fs []))"
    "\<forall>p \<in> set parts. 38 \<notin> set p" by simp_all
  have "length parts = length fs" using parts by (metis length_map)
  with assms(2) have "parts \<noteq> []" by auto
  with pp split_join_amp have "split_str [38] q = parts" by (simp add: q)
  moreover have "index_of (u ''?'' @ q) (u ''?'') = 0" by (simp add: ulit index_of_def starts_with_def)
  ultimately show ?thesis using pp by (simp add: getQueryParameters_def group_form_def ulit)
qed

theorem param_roundtrip_witness:
  "getQueryParameters (u ''?'' @ u ''q=a%20%26b&n=1&q='') =
     Some [(u ''q'', [Some (u ''a &b''), Some []]), (u ''n'', [Some (u ''1'')])]
   \<and> getQueryParameters (u ''?'' @ u ''constructor=1'') = None"
proof
  let ?fs = "[(u ''q'', u ''a &b''), (u ''n'', u ''1''), (u ''q'', [])]"
  have "jq_param (ArgForm (map (\<lambda>(k, v). (k, PScalar v)) ?fs)) False = Some (u ''q=a%20%26b&n=1&q='')"
    "list_all (\<lambda>(k, v). valid_text k \<and> valid_text v) ?fs"
    "group_form ?fs = [(u ''q'', [Some (u ''a &b''), Some []]), (u ''n'', [Some (u ''1'')])]"
    "u ''q'' \<notin> set inherited_names" "u ''n'' \<notin> set inherited_names"
    by code_simp+
  with param_roundtrip [of ?fs False] show "getQueryParameters (u ''?'' @ u ''q=a%20%26b&n=1&q='') =
     Some [(u ''q'', [Some (u ''a &b''), Some []]), (u ''n'', [Some (u ''1'')])]" by simp
  let ?gs = "[(u ''constructor'', u ''1'')]"
  have "jq_param (ArgForm (map (\<lambda>(k, v). (k, PScalar v)) ?gs)) False = Some (u ''constructor=1'')"
    "list_all (\<lambda>(k, v). valid_text k \<and> valid_text v) ?gs" "u ''constructor'' \<in> set inherited_names"
    by code_simp+
  with param_roundtrip [of ?gs False] show "getQueryParameters (u ''?'' @ u ''constructor=1'') = None" by simp
qed

end
