(* ===== verification/JqConvert.thy ===== *)
theory JqConvert
  imports JqData
begin

text \<open>
  Prefilters, transports, and the conversion of responses (\<open>jquery-3.5.1.js\<close>, lines 9036 to 9275).  The
  settings of a request hold its data types, the tests of content types and the converters between
  data types.  A response is any value; a converter is \<open>true\<close> (nothing to do) or a function that
  returns a value or throws.  The conversion loop has fuel; \<open>None\<close> is running out of it.
\<close>

datatype 'r conv = CTrue | CFun "'r \<Rightarrow> 'r + ustr"

record 'r settings =
  dataTypes :: "ustr list"
  contents :: "(ustr \<times> (ustr \<Rightarrow> bool)) list"
  converters :: "'r conv dict"
  responseFields :: "ustr dict"
  mimeType :: ustr
  dataFilter :: "('r \<Rightarrow> 'r) option"
  throws :: bool

definition star :: ustr where "star = u ''*''"

section \<open>Default settings\<close>

text \<open>\<open>/\bw\b/\<close> and \<open>/\bw/\<close> for a word \<open>w\<close>.\<close>

definition word_unit :: "int \<Rightarrow> bool" where
  "word_unit c \<longleftrightarrow> 48 \<le> c \<and> c \<le> 57 \<or> 65 \<le> c \<and> c \<le> 90 \<or> 97 \<le> c \<and> c \<le> 122 \<or> c = 95"

definition word_at :: "ustr \<Rightarrow> bool \<Rightarrow> ustr \<Rightarrow> nat \<Rightarrow> bool" where
  "word_at w whole ct i \<longleftrightarrow> starts_with w (drop i ct) \<and> (i = 0 \<or> \<not> word_unit (ct ! (i - 1))) \<and>
     (\<not> whole \<or> i + length w \<ge> length ct \<or> \<not> word_unit (ct ! (i + length w)))"

definition word_test :: "ustr \<Rightarrow> bool \<Rightarrow> ustr \<Rightarrow> bool" where
  "word_test w whole ct \<longleftrightarrow> list_ex (word_at w whole ct) [0..<length ct]"

definition default_contents :: "(ustr \<times> (ustr \<Rightarrow> bool)) list" where
  "default_contents = [(u ''xml'', word_test (u ''xml'') True), (u ''html'', word_test (u ''html'') False),
     (u ''json'', word_test (u ''json'') True)]"

definition default_fields :: "ustr dict" where
  "default_fields = [(u ''xml'', u ''responseXML''), (u ''text'', u ''responseText''), (u ''json'', u ''responseJSON'')]"

definition default_converters :: "('r \<Rightarrow> 'r + ustr) \<Rightarrow> ('r \<Rightarrow> 'r + ustr) \<Rightarrow> ('r \<Rightarrow> 'r + ustr) \<Rightarrow> 'r conv dict" where
  "default_converters to_string json_parse parseXML = [(u ''* text'', CFun to_string), (u ''text html'', CTrue),
     (u ''text json'', CFun json_parse), (u ''text xml'', CFun parseXML)]"

section \<open>Prefilters and transports\<close>

text \<open>\<open>addToPrefiltersOrTransports\<close>: a leading \<open>+\<close> puts the function first.\<close>

fun add_to_types :: "'f \<Rightarrow> ustr list \<Rightarrow> 'f list dict \<Rightarrow> 'f list dict" where
  "add_to_types func [] bindings = bindings"
| "add_to_types func (dataType # types) bindings =
    (let old = (\<lambda>d. case dget bindings d of None \<Rightarrow> [] | Some fs \<Rightarrow> fs)
     in add_to_types func types
          (if hd dataType = 43
           then let d = (if tl dataType = [] then star else tl dataType) in dput d (func # old d) bindings
           else dput dataType (old dataType @ [func]) bindings))"

definition addToPrefiltersOrTransports :: "ustr option \<Rightarrow> 'f \<Rightarrow> 'f list dict \<Rightarrow> 'f list dict" where
  "addToPrefiltersOrTransports dataTypeExpression func bindings =
    add_to_types func (html_words (to_lower (case dataTypeExpression of None \<Rightarrow> star | Some e \<Rightarrow> e))) bindings"

text \<open>A prefilter or a factory of transports changes the request and returns nothing, a data type, or a
  transport.\<close>

datatype 't found = NoResult | AType ustr | ATransport 't

type_synonym ('s, 't) factory = "'s \<Rightarrow> 's \<times> 't found"

definition known_left :: "('s, 't) factory list dict \<Rightarrow> ustr list \<Rightarrow> nat" where
  "known_left bindings inspected = card (fst ` set bindings - set inspected)"

lemma known_left_less: "dget bindings d = Some gs \<Longrightarrow> d \<notin> set inspected \<Longrightarrow>
    known_left bindings (d # inspected) < known_left bindings inspected"
proof -
  assume "dget bindings d = Some gs" "d \<notin> set inspected"
  then have "d \<in> fst ` set bindings - set inspected" by (auto dest: map_of_SomeD intro: rev_image_eqI)
  then have "fst ` set bindings - set (d # inspected) \<subset> fst ` set bindings - set inspected" by auto
  then show ?thesis unfolding known_left_def by (intro psubset_card_mono) auto
qed

text \<open>\<open>inspect\<close> on the functions of one data type that are still to be called.\<close>

function inspect :: "bool \<Rightarrow> ('s, 't) factory list dict \<Rightarrow> (ustr \<Rightarrow> 's \<Rightarrow> 's) \<Rightarrow> ('s, 't) factory list \<Rightarrow> ustr list \<Rightarrow> 's
    \<Rightarrow> 's \<times> ustr list \<times> 't found" where
  "inspect seeking bindings unshift [] inspected s = (s, inspected, NoResult)"
| "inspect seeking bindings unshift (f # fs) inspected s =
    (case f s of (s', r) \<Rightarrow>
       if seeking then
         (if r \<noteq> NoResult \<and> r \<noteq> AType [] then (s', inspected, r) else inspect seeking bindings unshift fs inspected s')
       else (case r of
         AType d \<Rightarrow>
           if d \<in> set inspected then inspect seeking bindings unshift fs inspected s'
           else (case dget bindings d of
               None \<Rightarrow> (unshift d s', d # inspected, NoResult)
             | Some gs \<Rightarrow>
                 (case inspect seeking bindings unshift gs (d # inspected) (unshift d s') of
                    (s2, insp, _) \<Rightarrow> (s2, insp, NoResult)))
       | _ \<Rightarrow> inspect seeking bindings unshift fs inspected s'))"
  by pat_completeness auto
termination
  by (relation "measures [\<lambda>(seeking, bindings, unshift, fs, inspected, s). known_left bindings inspected,
      \<lambda>(seeking, bindings, unshift, fs, inspected, s). length fs]") (auto simp: known_left_less)

definition inspect_type :: "bool \<Rightarrow> ('s, 't) factory list dict \<Rightarrow> (ustr \<Rightarrow> 's \<Rightarrow> 's) \<Rightarrow> ustr \<Rightarrow> ustr list \<Rightarrow> 's
    \<Rightarrow> 's \<times> ustr list \<times> 't found" where
  "inspect_type seeking bindings unshift dataType inspected s =
    inspect seeking bindings unshift (case dget bindings dataType of None \<Rightarrow> [] | Some fs \<Rightarrow> fs) (dataType # inspected) s"

definition inspectPrefiltersOrTransports ::
  "bool \<Rightarrow> ('s, 't) factory list dict \<Rightarrow> (ustr \<Rightarrow> 's \<Rightarrow> 's) \<Rightarrow> ustr \<Rightarrow> 's \<Rightarrow> 's \<times> 't found" where
  "inspectPrefiltersOrTransports seeking bindings unshift firstType s =
    (case inspect_type seeking bindings unshift firstType [] s of (s1, inspected, sel) \<Rightarrow>
       if sel \<noteq> NoResult then (s1, sel)
       else if star \<in> set inspected then (s1, NoResult)
       else (case inspect_type seeking bindings unshift star inspected s1 of (s2, _, sel) \<Rightarrow> (s2, sel)))"

section \<open>Choosing the response\<close>

fun pick_response :: "'r settings \<Rightarrow> ustr \<Rightarrow> ustr list \<Rightarrow> ustr option \<Rightarrow> ustr option" where
  "pick_response s want [] first = first"
| "pick_response s want (type # types) first =
    (if want = [] \<or> dget (converters s) (type @ [32] @ want) \<noteq> None then Some type
     else pick_response s want types (case first of None \<Rightarrow> Some type | Some f \<Rightarrow> first))"

definition ajaxHandleResponses :: "'r settings \<Rightarrow> ustr option \<Rightarrow> (ustr \<times> 'r) list \<Rightarrow> 'r settings \<times> 'r option" where
  "ajaxHandleResponses s content_type responses =
    (let ct = (if dataTypes s = [] \<or> hd (dataTypes s) \<noteq> star then None
               else if mimeType s \<noteq> [] then Some (mimeType s) else content_type);
         types = dropWhile (\<lambda>t. t = star) (dataTypes s);
         types = (case ct of None \<Rightarrow> types
           | Some c \<Rightarrow> if c = [] then types
               else (case List.find (\<lambda>(type, tst). tst c) (contents s) of
                   None \<Rightarrow> types | Some (type, _) \<Rightarrow> type # types));
         want = (if types = [] then [] else hd types);
         final = (if types \<noteq> [] \<and> dget responses want \<noteq> None then Some want
                  else pick_response s want (map fst responses) None)
     in case final of
          None \<Rightarrow> (s \<lparr> dataTypes := types \<rparr>, None)
        | Some t \<Rightarrow> (s \<lparr> dataTypes := (if types \<noteq> [] \<and> t = want then types else t # types) \<rparr>, dget responses t))"

section \<open>Conversion\<close>

datatype 'r outcome = Success 'r | ParserError ustr | Uncaught ustr

definition lower_converters :: "'r settings \<Rightarrow> 'r conv dict" where
  "lower_converters s =
    (if length (dataTypes s) > 1 \<and> dataTypes s ! 1 \<noteq> []
     then fold (\<lambda>(conv, f) c. dput (to_lower conv) f c) (converters s) [] else [])"

text \<open>A direct converter, or one from any type.\<close>

definition direct_conv :: "'r conv dict \<Rightarrow> ustr \<Rightarrow> ustr \<Rightarrow> 'r conv option" where
  "direct_conv convs prev current = (case dget convs (prev @ [32] @ current) of
     Some c \<Rightarrow> Some c | None \<Rightarrow> dget convs (u ''* '' @ current))"

text \<open>A pair of converters: the one to apply, the type it gives, and whether that type is inserted.\<close>

fun pair_conv :: "'r conv dict \<Rightarrow> ustr \<Rightarrow> ustr \<Rightarrow> 'r conv dict \<Rightarrow> 'r conv option \<times> ustr \<times> bool" where
  "pair_conv convs prev current [] = (None, current, False)"
| "pair_conv convs prev current ((conv2, f) # rest) =
    (let tmp = split_str [32] conv2
     in if length tmp > 1 \<and> tmp ! 1 = current
        then (case direct_conv convs prev (tmp ! 0) of
               None \<Rightarrow> pair_conv convs prev current rest
             | Some CTrue \<Rightarrow> (Some f, current, False)
             | Some (CFun g) \<Rightarrow>
                 (case f of CTrue \<Rightarrow> (Some (CFun g), current, False)
                  | CFun _ \<Rightarrow> (Some (CFun g), tmp ! 0, True)))
        else pair_conv convs prev current rest)"

definition find_conv :: "'r conv dict \<Rightarrow> ustr \<Rightarrow> ustr \<Rightarrow> 'r conv option \<times> ustr \<times> bool" where
  "find_conv convs prev current = (case direct_conv convs prev current of
     Some c \<Rightarrow> (Some c, current, False) | None \<Rightarrow> pair_conv convs prev current convs)"

definition apply_conv :: "'r settings \<Rightarrow> 'r conv option \<Rightarrow> ustr \<Rightarrow> ustr \<Rightarrow> 'r \<Rightarrow> 'r outcome" where
  "apply_conv s conv prev current response = (case conv of
     Some CTrue \<Rightarrow> Success response
   | Some (CFun f) \<Rightarrow> (case f response of Inl r \<Rightarrow> Success r
       | Inr e \<Rightarrow> if throws s then Uncaught e else ParserError e)
   | None \<Rightarrow> ParserError (u ''No conversion from '' @ prev @ u '' to '' @ current))"

text \<open>One pass of the loop for the type \<open>current\<close>; the result also has the assigned set on the request.\<close>

fun convert_loop :: "nat \<Rightarrow> 'r settings \<Rightarrow> 'r conv dict \<Rightarrow> bool \<Rightarrow> bool \<Rightarrow> ustr \<Rightarrow> ustr list \<Rightarrow> 'r \<Rightarrow> (ustr \<times> 'r) list
    \<Rightarrow> ((ustr \<times> 'r) list \<times> 'r outcome) option" where
  "convert_loop 0 s convs isSuccess first current types response assigned = None"
| "convert_loop (Suc n) s convs isSuccess first current types response assigned =
    (if current = [] then Some (assigned, Success response)
     else
       let assigned = (case dget (responseFields s) current of None \<Rightarrow> assigned | Some f \<Rightarrow> assigned @ [(f, response)]);
           response = (if first \<and> isSuccess then (case dataFilter s of None \<Rightarrow> response | Some f \<Rightarrow> f response) else response);
           prev = current
       in case types of
            [] \<Rightarrow> Some (assigned, Success response)
          | t # types \<Rightarrow>
              if t = [] then Some (assigned, Success response)
              else if t = star then convert_loop n s convs isSuccess False prev types response assigned
              else if prev = star \<or> prev = t then convert_loop n s convs isSuccess False t types response assigned
              else (case find_conv convs prev t of (conv, current, ins) \<Rightarrow>
                (case apply_conv s conv prev current response of
                   Success r \<Rightarrow> convert_loop n s convs isSuccess False current (if ins then t # types else types) r assigned
                 | other \<Rightarrow> Some (assigned, other))))"

definition ajaxConvert :: "'r settings \<Rightarrow> 'r \<Rightarrow> bool \<Rightarrow> ((ustr \<times> 'r) list \<times> 'r outcome) option" where
  "ajaxConvert s response isSuccess = (case dataTypes s of
     [] \<Rightarrow> Some ([], Success response)
   | current # types \<Rightarrow>
       convert_loop (2 * length types + 2) s (lower_converters s) isSuccess True current types response [])"

section \<open>Lemmas on converters\<close>

definition plain :: "ustr \<Rightarrow> bool" where
  "plain t \<longleftrightarrow> t \<noteq> [] \<and> 32 \<notin> set t"

text \<open>Keys of converters are two names separated by one space, as the settings ask for.\<close>

definition wf_convs :: "'r conv dict \<Rightarrow> bool" where
  "wf_convs convs \<longleftrightarrow> (\<forall>(k, f) \<in> set convs. \<exists>a b. k = a @ [32] @ b \<and> plain a \<and> plain b)"

definition conv_typed :: "(ustr \<Rightarrow> 'r \<Rightarrow> bool) \<Rightarrow> ustr \<Rightarrow> ustr \<Rightarrow> 'r conv \<Rightarrow> bool" where
  "conv_typed ty a b f \<longleftrightarrow> (\<forall>r. a = star \<or> ty a r \<longrightarrow>
     (case f of CTrue \<Rightarrow> ty b r | CFun g \<Rightarrow> (\<forall>r'. g r = Inl r' \<longrightarrow> ty b r')))"

text \<open>A converter between two types takes a value of the first to a value of the second.\<close>

definition typed_convs :: "(ustr \<Rightarrow> 'r \<Rightarrow> bool) \<Rightarrow> 'r conv dict \<Rightarrow> bool" where
  "typed_convs ty convs \<longleftrightarrow> (\<forall>(k, f) \<in> set convs. \<forall>a b. k = a @ [32] @ b \<longrightarrow> plain a \<longrightarrow> plain b \<longrightarrow> conv_typed ty a b f)"

lemma split_key: "plain a \<Longrightarrow> plain b \<Longrightarrow> split_str [32] (a @ [32] @ b) = [a, b]"
  using split_str_unit(2) [of 32 a b] split_str_unit(1) [of 32 b] by (simp add: plain_def)

lemma plain_star [simp]: "plain star"
  by (simp add: plain_def star_def ulit)

lemma direct_typed:
  assumes "direct_conv convs a b = Some f" "typed_convs ty convs" "plain a" "plain b"
  shows "conv_typed ty a b f"
proof -
  have t: "(k, f) \<in> set convs \<Longrightarrow> k = a' @ [32] @ b \<Longrightarrow> plain a' \<Longrightarrow> conv_typed ty a' b f" for k a'
    using assms(2,4) unfolding typed_convs_def by blast
  from assms(1) consider "dget convs (a @ [32] @ b) = Some f" | "dget convs (star @ [32] @ b) = Some f"
    by (auto simp: direct_conv_def star_def ulit split: option.splits)
  then show ?thesis
  proof cases
    case 1
    then show ?thesis using t [OF map_of_SomeD refl] assms(3) by simp
  next
    case 2
    then have "conv_typed ty star b f" using t [OF map_of_SomeD refl] by simp
    then show ?thesis by (auto simp: conv_typed_def)
  qed
qed

lemma conv_typed_trans:
  "conv_typed ty a b CTrue \<Longrightarrow> conv_typed ty b c f \<Longrightarrow> conv_typed ty a c f"
  "conv_typed ty a b f \<Longrightarrow> conv_typed ty b c CTrue \<Longrightarrow> conv_typed ty a c f"
  by (auto simp: conv_typed_def split: conv.splits)

lemma pair_typed:
  assumes "wf_convs convs" "typed_convs ty convs" "plain prev" "plain t"
  shows "set cs \<subseteq> set convs \<Longrightarrow> pair_conv convs prev t cs = (conv, current, ins) \<Longrightarrow>
    (\<forall>f. conv = Some f \<longrightarrow> conv_typed ty prev current f) \<and> plain current \<and>
    (if ins then dget convs (current @ [32] @ t) \<noteq> None else current = t)"
proof (induction cs)
  case (Cons c cs)
  obtain k f where c: "c = (k, f)" by fastforce
  with Cons.prems(1) assms(1) obtain a b where k: "k = a @ [32] @ b" "plain a" "plain b" by (auto simp: wf_convs_def)
  note sp = split_key [OF k(2,3), folded k(1)]
  have kin: "(k, f) \<in> set convs" using Cons.prems(1) c by simp
  show ?case
  proof (cases "b = t \<and> direct_conv convs prev a \<noteq> None")
    case False
    then have "pair_conv convs prev t (c # cs) = pair_conv convs prev t cs"
      by (auto simp: c sp Let_def)
    with Cons.prems have "set cs \<subseteq> set convs" "pair_conv convs prev t cs = (conv, current, ins)" by simp_all
    then show ?thesis by (rule Cons.IH)
  next
    case True
    then obtain g where g: "direct_conv convs prev a = Some g" and b: "b = t" by blast
    have pa: "conv_typed ty prev a g" by (rule direct_typed [OF g assms(2,3) k(2)])
    have at: "conv_typed ty a t f" using assms(2) kin k b unfolding typed_convs_def by blast
    from kin have "dget convs (a @ [32] @ t) \<noteq> None" using k(1) b by (auto simp: map_of_eq_None_iff intro: rev_image_eqI)
    then have d: "\<exists>y. dget convs (a @ 32 # t) = Some y" by simp
    show ?thesis
    proof (cases g)
      case CTrue
      then have "pair_conv convs prev t (c # cs) = (Some f, t, False)" using g b by (simp add: c sp)
      with Cons.prems(2) have "conv = Some f" "current = t" "\<not> ins" by simp_all
      with conv_typed_trans(1) [OF pa [unfolded CTrue] at] assms(4) show ?thesis by auto
    next
      case g': (CFun h)
      show ?thesis
      proof (cases f)
        case CTrue
        then have "pair_conv convs prev t (c # cs) = (Some g, t, False)" using g b g' by (simp add: c sp)
        with Cons.prems(2) have "conv = Some g" "current = t" "\<not> ins" by simp_all
        with conv_typed_trans(2) [OF pa at [unfolded CTrue]] assms(4) show ?thesis by auto
      next
        case (CFun h2)
        then have "pair_conv convs prev t (c # cs) = (Some g, a, True)" using g b g' by (simp add: c sp)
        with Cons.prems(2) have "conv = Some g" "current = a" "ins" by simp_all
        with pa k(2) d show ?thesis by auto
      qed
    qed
  qed
qed (use assms(4) in simp)

lemma find_typed:
  assumes "wf_convs convs" "typed_convs ty convs" "plain prev" "plain t" "find_conv convs prev t = (conv, current, ins)"
  shows "(\<forall>f. conv = Some f \<longrightarrow> conv_typed ty prev current f) \<and> plain current \<and>
    (if ins then direct_conv convs prev t = None \<and> direct_conv convs current t \<noteq> None else current = t)"
proof (cases "direct_conv convs prev t")
  case None
  with pair_typed [OF assms(1-4) subset_refl, of conv current ins] assms(5) show ?thesis
    by (auto simp: find_conv_def direct_conv_def split: option.splits if_splits)
next
  case (Some f)
  with direct_typed [OF Some assms(2-4)] assms(4,5) show ?thesis by (auto simp: find_conv_def)
qed

lemma apply_typed:
  assumes "apply_conv s conv prev current r = Success r'" "\<forall>f. conv = Some f \<longrightarrow> conv_typed ty prev t f" "ty prev r"
  shows "ty t r'"
  using assms by (auto simp: apply_conv_def conv_typed_def split: option.splits conv.splits sum.splits if_splits)

text \<open>The type the result should have: the last one that is no star.\<close>

definition final_type :: "ustr \<Rightarrow> ustr list \<Rightarrow> ustr" where
  "final_type t types = foldl (\<lambda>p c. if c = star then p else c) t types"

definition passes :: "'r conv dict \<Rightarrow> ustr \<Rightarrow> ustr list \<Rightarrow> nat" where
  "passes convs current types = 2 * length types + 1 +
     (if types \<noteq> [] \<and> direct_conv convs current (hd types) = None then 1 else 0)"

lemma passes_le: "passes convs c types \<le> 2 * length types + 2"
  by (simp add: passes_def)

lemma convert_loop_sound:
  assumes "wf_convs convs" "typed_convs ty convs" "\<forall>f t r. dataFilter s = Some f \<longrightarrow> ty t r \<longrightarrow> ty t (f r)"
  shows "\<lbrakk>passes convs current types \<le> n; plain current; current \<noteq> star; list_all plain types; ty current response\<rbrakk> \<Longrightarrow>
    \<exists>assigned' out. convert_loop n s convs ok first current types response assigned = Some (assigned', out) \<and>
      (\<forall>r. out = Success r \<longrightarrow> ty (final_type current types) r) \<and> (\<forall>e. out = Uncaught e \<longrightarrow> throws s)"
proof (induction n arbitrary: first current types response assigned)
  case 0
  then show ?case by (simp add: passes_def)
next
  case (Suc n)
  define r1 where "r1 = (if first \<and> ok then (case dataFilter s of None \<Rightarrow> response | Some f \<Rightarrow> f response) else response)"
  have r1: "ty current r1" using Suc.prems(5) assms(3) by (auto simp: r1_def split: option.split)
  have ne: "current \<noteq> []" using Suc.prems(2) by (simp add: plain_def)
  show ?case
  proof (cases types)
    case Nil
    with r1 ne show ?thesis by (simp add: r1_def [symmetric] final_type_def)
  next
    case (Cons t ts)
    have t: "plain t" "t \<noteq> []" "list_all plain ts" using Suc.prems(4) Cons by (simp, simp add: plain_def, simp)
    have m: "passes convs c ts \<le> n" for c
      using Suc.prems(1) Cons passes_le [of convs c ts] by (simp add: passes_def)
    show ?thesis
    proof (cases "t = star \<or> t = current")
      case True
      with Suc.IH [OF m Suc.prems(2,3) t(3) r1] Suc.prems(3) ne t(2) Cons show ?thesis
        by (auto simp: r1_def [symmetric] final_type_def Let_def)
    next
      case False
      have nt: "current \<noteq> t" using False by auto
      obtain conv c ins where f: "find_conv convs current t = (conv, c, ins)" by (rule prod_cases3)
      note ft = find_typed [OF assms(1,2) Suc.prems(2) t(1) f]
      let ?a = "apply_conv s conv current c r1"
      let ?as = "case dget (responseFields s) current of None \<Rightarrow> assigned | Some f \<Rightarrow> assigned @ [(f, response)]"
      have step: "convert_loop (Suc n) s convs ok first current types response assigned =
        (case ?a of Success r \<Rightarrow> convert_loop n s convs ok False c (if ins then t # ts else ts) r ?as
          | other \<Rightarrow> Some (?as, other))"
        using False nt ne t(2) f Cons Suc.prems(3) by (simp add: r1_def [symmetric] Let_def)
      show ?thesis
      proof (cases ?a)
        case (Success r)
        have "\<forall>f. conv = Some f \<longrightarrow> conv_typed ty current c f" using ft by blast
        from apply_typed [OF Success this r1] have r: "ty c r" .
        have c: "plain c" using ft by blast
        have step': "convert_loop (Suc n) s convs ok first current types response assigned =
            convert_loop n s convs ok False c (if ins then t # ts else ts) r ?as"
          unfolding step by (simp add: Success)
        have star: "direct_conv convs star t \<noteq> None \<Longrightarrow> direct_conv convs current t \<noteq> None"
          by (auto simp: direct_conv_def star_def ulit split: option.splits)
        show ?thesis
        proof (cases ins)
          case True
          with ft star have cs: "c \<noteq> star" by auto
          have p: "passes convs c (t # ts) \<le> n" using Suc.prems(1) ft True Cons by (auto simp: passes_def split: if_splits)
          have l: "list_all plain (t # ts)" using t(1,3) by simp
          from Suc.IH [OF p c cs l r] True False Cons show ?thesis
            unfolding step' by (auto simp: final_type_def)
        next
          case nins: False
          with ft have ct: "c = t" by simp
          from Suc.IH [OF m c _ t(3) r] nins False Cons show ?thesis
            unfolding step' by (auto simp: final_type_def ct)
        qed
      next
        case (ParserError e)
        then show ?thesis unfolding step by simp
      next
        case (Uncaught e)
        then have "throws s" by (auto simp: apply_conv_def split: option.splits conv.splits sum.splits if_splits)
        with Uncaught show ?thesis unfolding step by simp
      qed
    qed
  qed
qed

lemma typed_convs_split:
  assumes "\<forall>(k, f) \<in> set convs. case split_str [32] k of [a, b] \<Rightarrow> conv_typed ty a b f | _ \<Rightarrow> True"
  shows "typed_convs ty convs"
  unfolding typed_convs_def
proof clarify
  fix f and a b :: ustr
  assume "(a @ [32] @ b, f) \<in> set convs" "plain a" "plain b"
  with bspec [OF assms this(1)] split_key [OF this(2,3)] show "conv_typed ty a b f" by simp
qed

text \<open>C25: Converting a response comes to an end, whatever the converters are, as long as their keys are two
  names; when every converter takes values of its first type to values of its second, a response of
  the first data type that converts successfully has the type asked for, through however many
  converters, equivalences and inserted types; an exception gets out only when the settings let it.\<close>

theorem ajaxConvert_typed:
  assumes "wf_convs (lower_converters s)" "typed_convs ty (lower_converters s)" "dataFilter s = None"
    and "dataTypes s = t # types" "plain t" "t \<noteq> u ''*''" "list_all plain types" "ty t response"
  shows "\<exists>assigned out. ajaxConvert s response ok = Some (assigned, out) \<and>
    (\<forall>r. out = Success r \<longrightarrow> ty (final_type t types) r) \<and> (\<forall>e. out = Uncaught e \<longrightarrow> throws s)"
proof -
  have "\<forall>f t r. dataFilter s = Some f \<longrightarrow> ty t r \<longrightarrow> ty t (f r)" using assms(3) by simp
  from convert_loop_sound [OF assms(1,2) this passes_le assms(5) _ assms(7,8)] assms(4,6) show ?thesis
    by (auto simp: ajaxConvert_def star_def)
qed

definition num_settings :: "(ustr \<times> nat) settings" where
  "num_settings = \<lparr> dataTypes = [u ''num'', u ''*'', u ''json''], contents = [],
     converters = [(u ''* Text'', CFun (\<lambda>r. Inl (u ''text'', snd r))), (u ''text json'', CFun (\<lambda>r. Inl (u ''json'', snd r + 1)))],
     responseFields = default_fields, mimeType = [], dataFilter = None, throws = False \<rparr>"

theorem ajaxConvert_typed_witness:
  "map_option snd (ajaxConvert num_settings (u ''num'', 4) True) = Some (Success (u ''json'', 5)) \<and>
   (case ajaxConvert num_settings (u ''num'', 4) True of Some (assigned, Success r) \<Rightarrow> fst r = u ''json'' | _ \<Rightarrow> False)"
proof -
  let ?c = "lower_converters num_settings" and ?ty = "\<lambda>t r. fst r = t"
  have c: "?c = [(u ''* text'', CFun (\<lambda>r. Inl (u ''text'', snd r))), (u ''text json'', CFun (\<lambda>r. Inl (u ''json'', snd r + 1)))]"
    by (simp add: num_settings_def lower_converters_def ulit to_lower_def to_lower_unit_def)
  have "split_str [32] (u ''* text'') = [u ''*'', u ''text'']" "split_str [32] (u ''text json'') = [u ''text'', u ''json'']"
    by code_simp+
  then have ty: "typed_convs ?ty ?c"
    by (intro typed_convs_split) (simp add: c conv_typed_def)
  have "u ''* text'' = u ''*'' @ [32] @ u ''text''" "u ''text json'' = u ''text'' @ [32] @ u ''json''"
    "plain (u ''*'')" "plain (u ''text'')" "plain (u ''json'')" by code_simp+
  then have wf: "wf_convs ?c" unfolding wf_convs_def c by (simp, blast)
  have p: "plain (u ''num'')" "u ''num'' \<noteq> u ''*''" "list_all plain [u ''*'', u ''json'']" by code_simp+
  have d: "dataFilter num_settings = None" "dataTypes num_settings = u ''num'' # [u ''*'', u ''json'']"
    by (simp_all add: num_settings_def)
  have t: "fst (u ''num'', 4 :: nat) = u ''num''" by simp
  from ajaxConvert_typed [where s = num_settings and ty = "\<lambda>t r. fst r = t" and t = "u ''num''"
      and types = "[u ''*'', u ''json'']" and response = "(u ''num'', 4)" and ok = True, OF wf ty d p t] obtain a r where
    e: "ajaxConvert num_settings (u ''num'', 4) True = Some (a, r)" and
    f: "\<forall>x. r = Success x \<longrightarrow> fst x = final_type (u ''num'') [u ''*'', u ''json'']" by blast
  have m: "map_option snd (ajaxConvert num_settings (u ''num'', 4) True) = Some (Success (u ''json'', 5))" by code_simp
  have j: "final_type (u ''num'') [u ''*'', u ''json''] = u ''json''" by code_simp
  from m e have "r = Success (u ''json'', 5)" by simp
  with e f m show ?thesis unfolding j by simp
qed

end
