(* ===== verification/JqAjax.thy ===== *)
theory JqAjax
  imports JqConvert
begin

text \<open>
  \<open>jQuery.ajax\<close> (\<open>jquery-3.5.1.js\<close>, lines 9349 to 9830): the URL that is requested, the headers, and the
  life of a request as a state machine.  The program around a request (prefilters, \<open>beforeSend\<close>, the
  transport, the user) appears as the inputs of the machine; the trace has what the request does to
  that program.  Response headers contain no Unicode line separators.
\<close>

section \<open>The URL\<close>

text \<open>\<open>url.replace(/#.*$/, "")\<close>, \<open>/\?/.test(url)\<close> and \<open>url.replace(/([?&])_=[^&]*/, "$1")\<close>.\<close>

definition line_stop :: "int \<Rightarrow> bool" where
  "line_stop c \<longleftrightarrow> c = 10 \<or> c = 13 \<or> c = 8232 \<or> c = 8233"

fun rhash :: "ustr \<Rightarrow> ustr" where
  "rhash [] = []"
| "rhash (c # s) = (if c = 35 \<and> list_all (\<lambda>d. \<not> line_stop d) s then [] else c # rhash s)"

definition rquery :: "ustr \<Rightarrow> bool" where
  "rquery s \<longleftrightarrow> 63 \<in> set s"

fun rantiCache :: "ustr \<Rightarrow> ustr" where
  "rantiCache [] = []"
| "rantiCache (c # s) = (if (c = 63 \<or> c = 38) \<and> starts_with (u ''_='') s
     then c # dropWhile (\<lambda>d. d \<noteq> 38) (drop 2 s) else c # rantiCache s)"

definition query_sep :: "ustr \<Rightarrow> ustr" where
  "query_sep url = (if rquery url then u ''&'' else u ''?'')"

definition rnoContent :: "ustr \<Rightarrow> bool" where
  "rnoContent type \<longleftrightarrow> type = u ''GET'' \<or> type = u ''HEAD''"

record url_opts =
  req_url :: ustr
  req_type :: ustr
  req_data :: "ustr option"
  no_cache :: bool
  processData :: bool
  contentType :: ustr

text \<open>\<open>/%20/g\<close> to plus signs, in the body of a form.\<close>

definition r20 :: "ustr \<Rightarrow> ustr" where
  "r20 s = join (u ''+'') (split_str (u ''%20'') s)"

text \<open>The URL to request, what remains of the data, and the URL without anti-cache parameter and hash.\<close>

definition request_url :: "nat \<Rightarrow> url_opts \<Rightarrow> ustr \<times> ustr option \<times> ustr" where
  "request_url nonce o' =
    (let cacheURL = rhash (req_url o');
         has_data = (req_data o' \<noteq> None \<and> req_data o' \<noteq> Some [])
     in if rnoContent (req_type o')
        then let uncached = drop (length cacheURL) (req_url o');
                 (cacheURL, data) = (if has_data then (cacheURL @ query_sep cacheURL @ the (req_data o'), None)
                                     else (cacheURL, req_data o'));
                 (cacheURL, uncached) = (if no_cache o'
                    then (let c = rantiCache cacheURL in (c, query_sep c @ u ''_='' @ dec_nat nonce @ uncached))
                    else (cacheURL, uncached))
             in (cacheURL @ uncached, data, cacheURL)
        else (req_url o',
              if has_data \<and> processData o' \<and> starts_with (u ''application/x-www-form-urlencoded'') (contentType o')
              then Some (r20 (the (req_data o'))) else req_data o',
              cacheURL))"

section \<open>Headers\<close>

text \<open>The first spelling of a request header's name is kept.\<close>

record headers =
  names :: "ustr dict"
  sent :: "ustr dict"

definition setRequestHeader :: "bool option \<Rightarrow> ustr \<Rightarrow> ustr \<Rightarrow> headers \<Rightarrow> headers" where
  "setRequestHeader completed name value hs =
    (if completed \<noteq> None then hs
     else let n = (case dget (names hs) (to_lower name) of Some m \<Rightarrow> if m = [] then name else m | None \<Rightarrow> name)
          in \<lparr> names = dput (to_lower name) n (names hs), sent = dput n value (sent hs) \<rparr>)"

definition accept_header :: "ustr list \<Rightarrow> ustr dict \<Rightarrow> ustr option" where
  "accept_header types accepts =
    (case (if types = [] \<or> hd types = [] then None else dget accepts (hd types)) of
       Some a \<Rightarrow> if a = [] then dget accepts star
                 else Some (a @ (if hd types \<noteq> star then u '', */*; q=0.01'' else []))
     | None \<Rightarrow> dget accepts star)"

text \<open>The headers the request sets itself: for a resource seen before, the content type, what is accepted,
  and those of the settings.\<close>

record header_opts =
  h_ifModified :: bool
  h_has_data :: bool
  h_contentType :: "ustr option"
  h_own_contentType :: bool
  h_types :: "ustr list"
  h_accepts :: "ustr dict"
  h_headers :: "ustr dict"

definition cached_header :: "ustr \<Rightarrow> ustr dict \<Rightarrow> ustr \<Rightarrow> headers \<Rightarrow> headers" where
  "cached_header name cache url hs = (case dget cache url of
     Some v \<Rightarrow> if v = [] then hs else setRequestHeader None name v hs | None \<Rightarrow> hs)"

definition request_headers :: "header_opts \<Rightarrow> ustr dict \<Rightarrow> ustr dict \<Rightarrow> ustr \<Rightarrow> headers" where
  "request_headers o' lastModified etag cacheURL =
    (let hs = \<lparr> names = [], sent = [] \<rparr>;
         hs = (if h_ifModified o'
               then cached_header (u ''If-None-Match'') etag cacheURL
                      (cached_header (u ''If-Modified-Since'') lastModified cacheURL hs)
               else hs);
         hs = (if h_has_data o' \<and> h_contentType o' \<noteq> None \<or> h_own_contentType o'
               then setRequestHeader None (u ''Content-Type'') (case h_contentType o' of Some c \<Rightarrow> c | None \<Rightarrow> u ''false'') hs
               else hs);
         hs = setRequestHeader None (u ''Accept'')
                (case accept_header (h_types o') (h_accepts o') of Some a \<Rightarrow> a | None \<Rightarrow> u ''undefined'') hs
     in fold (\<lambda>(i, v). setRequestHeader None i v) (h_headers o') hs)"

text \<open>The lines of \<open>rheaders\<close>: a name up to the first colon, a value behind blanks and tabs.\<close>

definition header_line :: "ustr \<Rightarrow> (ustr \<times> ustr) option" where
  "header_line line = (case find_str [58] line of None \<Rightarrow> None
     | Some i \<Rightarrow> Some (take i line, dropWhile (\<lambda>c. c = 32 \<or> c = 9) (drop (Suc i) line)))"

fun header_lines :: "ustr \<Rightarrow> ustr \<Rightarrow> ustr list" where
  "header_lines line [] = [line]"
| "header_lines line (c # s) = (if c = 10 \<or> c = 13 then line # header_lines [] s else header_lines (line @ [c]) s)"

definition response_headers :: "ustr \<Rightarrow> ustr list dict" where
  "response_headers text = fold (\<lambda>line hs. case header_line line of None \<Rightarrow> hs
     | Some (n, v) \<Rightarrow> (let k = to_lower n @ u '' '' in
         dput k ((case dget hs k of None \<Rightarrow> [] | Some vs \<Rightarrow> vs) @ [v]) hs)) (header_lines [] text) []"

definition getResponseHeader :: "bool \<Rightarrow> ustr \<Rightarrow> ustr \<Rightarrow> ustr option" where
  "getResponseHeader completed text key =
    (if \<not> completed then None
     else map_option (join (u '', '')) (dget (response_headers text) (to_lower key @ u '' '')))"

section \<open>The life of a request\<close>

datatype phase = InPrefilters | BeforeSend | FindTransport | InAjaxSend | Running | Over

datatype 'r aevent = Trigger ustr | Resolved "'r option" ustr | Rejected ustr ustr | StatusCode int | Completed ustr
  | TransportAbort ustr | SendCall

record 'r request =
  conv_settings :: "'r settings"
  global_events :: bool
  head_request :: bool
  if_modified :: bool
  cache_url :: ustr
  has_timeout :: bool
  before_send :: bool
  phase :: phase
  completed :: "bool option"
  readyState :: nat
  status :: int
  statusText :: ustr
  strAbort :: ustr
  transport :: bool
  timer :: bool
  fireGlobals :: bool
  headersString :: ustr
  raised :: "ustr option"
  trace :: "'r aevent list"
  active :: nat
  lastModified :: "ustr dict"
  etag :: "ustr dict"

definition emit :: "'r aevent list \<Rightarrow> 'r request \<Rightarrow> 'r request" where
  "emit es x = x \<lparr> trace := trace x @ es \<rparr>"

definition is_success :: "int \<Rightarrow> bool" where
  "is_success st \<longleftrightarrow> 200 \<le> st \<and> st < 300 \<or> st = 304"

text \<open>The settings with a converter that does nothing for a script that failed to load.\<close>

definition script_guard :: "'r \<Rightarrow> bool \<Rightarrow> 'r settings \<Rightarrow> 'r settings" where
  "script_guard undef ok s = (if \<not> ok \<and> u ''script'' \<in> set (dataTypes s)
     then s \<lparr> converters := dput (u ''text script'') (CFun (\<lambda>_. Inl undef)) (converters s) \<rparr> else s)"

definition note_modified :: "ustr \<Rightarrow> 'r request \<Rightarrow> 'r request" where
  "note_modified hdrs x =
    (if \<not> if_modified x then x
     else let x = (case getResponseHeader True hdrs (u ''Last-Modified'') of
                     Some m \<Rightarrow> if m = [] then x else x \<lparr> lastModified := dput (cache_url x) m (lastModified x) \<rparr>
                   | None \<Rightarrow> x)
          in case getResponseHeader True hdrs (u ''etag'') of
               Some m \<Rightarrow> if m = [] then x else x \<lparr> etag := dput (cache_url x) m (etag x) \<rparr>
             | None \<Rightarrow> x)"

text \<open>How a request ends: whether it succeeded, the data, the status, the status text and the error.\<close>

definition verdict :: "int \<Rightarrow> bool \<Rightarrow> ustr \<Rightarrow> 'r outcome \<Rightarrow> bool \<times> 'r option \<times> int \<times> ustr \<times> ustr" where
  "verdict st head native out =
    (if is_success st then
       (if st = 204 \<or> head then (True, None, st, u ''nocontent'', [])
        else if st = 304 then (True, None, st, u ''notmodified'', [])
        else (case out of
            Success r \<Rightarrow> (True, Some r, st, u ''success'', [])
          | ParserError e \<Rightarrow> (e = [], None, st, u ''parsererror'', e)
          | Uncaught e \<Rightarrow> (False, None, st, [], e)))
     else if st \<noteq> 0 \<or> native = [] then (False, None, if st < 0 then 0 else st, u ''error'', native)
     else (False, None, st, native, native))"

text \<open>The last part of \<open>done\<close>: settle, call the status callbacks, trigger the global events, complete.\<close>

definition settle :: "ustr \<Rightarrow> bool \<times> 'r option \<times> int \<times> ustr \<times> ustr \<Rightarrow> 'r request \<Rightarrow> 'r request" where
  "settle native v x = (case v of (ok, data, st, text, err) \<Rightarrow>
     (let x = x \<lparr> status := st, statusText := (if native \<noteq> [] then native else text) \<rparr>;
          x = emit [if ok then Resolved data text else Rejected text err, StatusCode st] x;
          x = (if fireGlobals x then emit [Trigger (if ok then u ''ajaxSuccess'' else u ''ajaxError'')] x else x);
          x = emit [Completed text] x
      in if fireGlobals x
         then let x = (emit [Trigger (u ''ajaxComplete'')] x) \<lparr> active := active x - 1 \<rparr>
              in if active x = 0 then emit [Trigger (u ''ajaxStop'')] x else x
         else x))"

definition ajax_done :: "'r \<Rightarrow> int \<Rightarrow> ustr \<Rightarrow> (ustr \<times> 'r) list option \<Rightarrow> ustr \<Rightarrow> 'r request \<Rightarrow> 'r request option" where
  "ajax_done undef st native responses hdrs x =
    (if completed x = Some True then Some x
     else
       let x = x \<lparr> completed := Some True, timer := False, transport := False, headersString := hdrs,
                   readyState := (if st > 0 then 4 else 0) \<rparr>;
           ok = is_success st;
           (s, response) = (case responses of
               None \<Rightarrow> (conv_settings x, undef)
             | Some rs \<Rightarrow> (case ajaxHandleResponses (conv_settings x) (getResponseHeader True hdrs (u ''Content-Type'')) rs of
                 (s, None) \<Rightarrow> (s, undef) | (s, Some r) \<Rightarrow> (s, r)))
       in case ajaxConvert (script_guard undef ok s) response ok of
            None \<Rightarrow> None
          | Some (assigned, Uncaught e) \<Rightarrow> Some (x \<lparr> raised := Some e \<rparr>)
          | Some (assigned, out) \<Rightarrow>
              Some (settle native (verdict st (head_request x) native out) (if ok then note_modified hdrs x else x)))"

definition ajax_abort :: "'r \<Rightarrow> ustr \<Rightarrow> 'r request \<Rightarrow> 'r request option" where
  "ajax_abort undef text x =
    (let finalText = (if text = [] then strAbort x else text);
         x = (if transport x then emit [TransportAbort finalText] x else x)
     in ajax_done undef 0 finalText None [] x)"

text \<open>\<open>Go\<close> is the main program going on to the next point where it calls other code; its flag is the result
  of \<open>beforeSend\<close>, and whether there is a transport.\<close>

datatype 'r input = Go bool | Abort ustr | Timeout | Throw ustr | Answer int ustr "(ustr \<times> 'r) list option" ustr

definition go_prefilters :: "'r request \<Rightarrow> 'r request" where
  "go_prefilters x =
    (if completed x = Some True then x \<lparr> phase := Over \<rparr>
     else let x = x \<lparr> fireGlobals := global_events x, phase := BeforeSend \<rparr>
          in if fireGlobals x
             then (if active x = 0 then emit [Trigger (u ''ajaxStart'')] x else x) \<lparr> active := active x + 1 \<rparr>
             else x)"

definition go_before_send :: "'r \<Rightarrow> bool \<Rightarrow> 'r request \<Rightarrow> 'r request option" where
  "go_before_send undef b x =
    (if before_send x \<and> (\<not> b \<or> completed x = Some True) then ajax_abort undef [] (x \<lparr> phase := Over \<rparr>)
     else Some (x \<lparr> strAbort := u ''abort'', phase := FindTransport \<rparr>))"

definition go_transport :: "'r \<Rightarrow> bool \<Rightarrow> 'r request \<Rightarrow> 'r request option" where
  "go_transport undef b x =
    (if \<not> b then ajax_done undef (-1) (u ''No Transport'') None [] (x \<lparr> phase := Over \<rparr>)
     else let x = x \<lparr> transport := True, readyState := 1, phase := InAjaxSend \<rparr>
          in Some (if fireGlobals x then emit [Trigger (u ''ajaxSend'')] x else x))"

definition go_send :: "'r request \<Rightarrow> 'r request" where
  "go_send x =
    (if completed x = Some True then x \<lparr> phase := Over \<rparr>
     else emit [SendCall] (x \<lparr> timer := has_timeout x, completed := Some False, phase := Running \<rparr>))"

definition ajax_go :: "'r \<Rightarrow> bool \<Rightarrow> 'r request \<Rightarrow> 'r request option" where
  "ajax_go undef b x = (case phase x of
     InPrefilters \<Rightarrow> Some (go_prefilters x)
   | BeforeSend \<Rightarrow> go_before_send undef b x
   | FindTransport \<Rightarrow> go_transport undef b x
   | InAjaxSend \<Rightarrow> Some (go_send x)
   | _ \<Rightarrow> Some x)"

lemmas go_defs = ajax_go_def go_prefilters_def go_before_send_def go_transport_def go_send_def

definition ajax_step :: "'r \<Rightarrow> 'r input \<Rightarrow> 'r request \<Rightarrow> 'r request option" where
  "ajax_step undef i x = (case i of
     Go b \<Rightarrow> ajax_go undef b x
   | Abort text \<Rightarrow> ajax_abort undef text x
   | Timeout \<Rightarrow> if timer x then ajax_abort undef (u ''timeout'') x else Some x
   | Throw e \<Rightarrow> if phase x \<noteq> Running then Some x
       else if completed x = Some True then Some (x \<lparr> raised := Some e \<rparr>)
       else ajax_done undef (-1) e None [] x
   | Answer st native responses hdrs \<Rightarrow>
       if phase x \<noteq> Running then Some x else ajax_done undef st native responses hdrs x)"

fun ajax_run :: "'r \<Rightarrow> 'r input list \<Rightarrow> 'r request \<Rightarrow> 'r request option" where
  "ajax_run undef [] x = Some x"
| "ajax_run undef (i # is) x = (case ajax_step undef i x of None \<Rightarrow> None | Some x' \<Rightarrow> ajax_run undef is x')"

section \<open>Conversions end\<close>

lemma pair_ins:
  "wf_convs convs \<Longrightarrow> set cs \<subseteq> set convs \<Longrightarrow> pair_conv convs prev t cs = (conv, c, True) \<Longrightarrow> dget convs (c @ [32] @ t) \<noteq> None"
proof (induction cs)
  case (Cons k cs)
  obtain k' f where k': "k = (k', f)" by fastforce
  with Cons.prems obtain a b where ab: "k' = a @ [32] @ b" "plain a" "plain b" by (auto simp: wf_convs_def)
  note sp = split_key [OF ab(2,3), folded ab(1)]
  have "(k', f) \<in> set convs" using Cons.prems(2) k' by simp
  then have "dget convs (a @ [32] @ b) \<noteq> None" using ab(1) by (auto simp: map_of_eq_None_iff intro: rev_image_eqI)
  with Cons k' sp show ?case by (auto simp: Let_def split: if_splits option.splits conv.splits)
qed simp

lemma convert_loop_total:
  assumes "wf_convs convs"
  shows "passes convs current types \<le> n \<Longrightarrow> convert_loop n s convs ok first current types r assigned \<noteq> None"
proof (induction n arbitrary: first current types r assigned)
  case 0
  then show ?case by (simp add: passes_def)
next
  case (Suc n)
  show ?case
  proof (cases types)
    case Nil
    then show ?thesis by (simp add: Let_def)
  next
    case (Cons t ts)
    have m: "passes convs c ts \<le> n" for c
      using Suc.prems Cons passes_le [of convs c ts] by (simp add: passes_def)
    obtain conv c ins where f: "find_conv convs current t = (conv, c, ins)" by (rule prod_cases3)
    have i: "passes convs c (t # ts) \<le> n" if "ins"
    proof -
      from f that have "direct_conv convs current t = None" "pair_conv convs current t convs = (conv, c, True)"
        by (auto simp: find_conv_def split: option.splits)
      with pair_ins [OF assms subset_refl, of current t conv c] have "direct_conv convs c t \<noteq> None"
        by (auto simp: direct_conv_def)
      with \<open>direct_conv convs current t = None\<close> Suc.prems Cons show ?thesis by (auto simp: passes_def)
    qed
    define r1 where "r1 = (if first \<and> ok then (case dataFilter s of None \<Rightarrow> r | Some f \<Rightarrow> f r) else r)"
    show ?thesis unfolding Cons
      using Suc.IH [OF m] Suc.IH [OF i]
      by (simp add: Let_def f r1_def [symmetric] split: outcome.split del: not_None_eq split_paired_Ex)
  qed
qed

lemma ajaxConvert_total: "wf_convs (lower_converters s) \<Longrightarrow> ajaxConvert s response ok \<noteq> None"
proof (cases "dataTypes s")
  case (Cons t ts)
  assume w: "wf_convs (lower_converters s)"
  from Cons have e: "ajaxConvert s response ok = convert_loop (2 * length ts + 2) s (lower_converters s) ok True t ts response []"
    by (simp only: ajaxConvert_def list.case)
  show ?thesis unfolding e by (rule convert_loop_total [OF w passes_le])
qed (simp add: ajaxConvert_def)

lemma set_dput: "(k, v) \<in> set (dput k' v' d) \<Longrightarrow> k = k' \<and> v = v' \<or> (k, v) \<in> set d"
  by (induction k' v' d rule: dput.induct) (auto split: if_splits)

lemma wf_dput: "wf_convs c \<Longrightarrow> \<exists>a b. k = a @ [32] @ b \<and> plain a \<and> plain b \<Longrightarrow> wf_convs (dput k f c)"
  unfolding wf_convs_def by (blast dest: set_dput)

lemma to_lower_plain: "plain a \<Longrightarrow> plain (to_lower a)"
  by (auto simp: plain_def to_lower_def to_lower_unit_def split: if_splits)

lemma wf_lower: "wf_convs (converters s) \<Longrightarrow> wf_convs (lower_converters s)"
proof -
  assume w: "wf_convs (converters s)"
  have "wf_convs cs \<Longrightarrow> wf_convs acc \<Longrightarrow> wf_convs (fold (\<lambda>(conv, f) c. dput (to_lower conv) f c) cs acc)" for cs acc :: "'a conv dict"
  proof (induction cs arbitrary: acc)
    case (Cons c cs)
    obtain k f where c: "c = (k, f)" by fastforce
    with Cons.prems(1) obtain a b where "k = a @ [32] @ b" "plain a" "plain b" by (auto simp: wf_convs_def)
    then have "\<exists>a b. to_lower k = a @ [32] @ b \<and> plain a \<and> plain b"
      by (intro exI [of _ "to_lower a"] exI [of _ "to_lower b"]) (simp add: to_lower_plain, simp add: to_lower_def to_lower_unit_def)
    from wf_dput [OF Cons.prems(2) this] have "wf_convs (dput (to_lower k) f acc)" .
    moreover have "wf_convs cs" using Cons.prems(1) by (simp add: wf_convs_def)
    ultimately show ?case using Cons.IH by (simp add: c)
  qed simp
  from this [OF w, of "[]"] show ?thesis by (simp add: lower_converters_def wf_convs_def)
qed

lemma converters_handle:
  "converters (fst (ajaxHandleResponses s ct rs)) = converters s" "throws (fst (ajaxHandleResponses s ct rs)) = throws s"
proof -
  have "converters (fst (case f of None \<Rightarrow> (s \<lparr> dataTypes := a \<rparr>, None) | Some t \<Rightarrow> (s \<lparr> dataTypes := b t \<rparr>, g t))) = converters s"
    "throws (fst (case f of None \<Rightarrow> (s \<lparr> dataTypes := a \<rparr>, None) | Some t \<Rightarrow> (s \<lparr> dataTypes := b t \<rparr>, g t))) = throws s"
    for f :: "ustr option" and a b and g :: "ustr \<Rightarrow> 'a option" by (cases f; simp)+
  then show "converters (fst (ajaxHandleResponses s ct rs)) = converters s"
    "throws (fst (ajaxHandleResponses s ct rs)) = throws s"
    unfolding ajaxHandleResponses_def Let_def by simp_all
qed

text \<open>With the setting \<open>throws\<close> off, no exception of a converter leaves the conversion.\<close>

lemma convert_loop_caught:
  "\<not> throws s \<Longrightarrow> convert_loop n s convs ok first current types r assigned = Some (as, out) \<Longrightarrow> out \<noteq> Uncaught e"
proof (induction n s convs ok first current types r assigned rule: convert_loop.induct)
  case (2 n s convs ok first current types r assigned)
  have "apply_conv s conv a b v \<noteq> Uncaught e" for conv a b v
    using 2(4) by (simp add: apply_conv_def split: option.split conv.split sum.split)
  with 2 show ?case
    by (auto simp: Let_def split: if_splits list.splits prod.splits outcome.splits)
qed simp

lemma ajaxConvert_caught: "\<not> throws s \<Longrightarrow> ajaxConvert s r ok = Some (as, out) \<Longrightarrow> out \<noteq> Uncaught e"
  unfolding ajaxConvert_def by (cases "dataTypes s") (auto dest: convert_loop_caught simp del: convert_loop.simps)

lemma throws_script [simp]: "throws (script_guard undef ok s) = throws s"
  by (simp add: script_guard_def)

lemma wf_script: "wf_convs (converters s) \<Longrightarrow> wf_convs (converters (script_guard undef ok s))"
proof -
  assume w: "wf_convs (converters s)"
  have "u ''text script'' = u ''text'' @ [32] @ u ''script''" "plain (u ''text'')" "plain (u ''script'')" by code_simp+
  with wf_dput [OF w] show ?thesis using w by (auto simp: script_guard_def)
qed

section \<open>The life of a request\<close>

definition settlements :: "'r aevent list \<Rightarrow> nat" where
  "settlements tr = length (filter (\<lambda>e. case e of Resolved d t \<Rightarrow> True | Rejected t e \<Rightarrow> True | _ \<Rightarrow> False) tr)"

definition completions :: "'r aevent list \<Rightarrow> nat" where
  "completions tr = length (filter (\<lambda>e. case e of Completed t \<Rightarrow> True | _ \<Rightarrow> False) tr)"

definition sends :: "'r aevent list \<Rightarrow> nat" where
  "sends tr = length (filter (\<lambda>e. case e of SendCall \<Rightarrow> True | _ \<Rightarrow> False) tr)"

lemmas counts = settlements_def completions_def sends_def

definition life_inv :: "nat \<Rightarrow> 'r request \<Rightarrow> bool" where
  "life_inv a x \<longleftrightarrow> wf_convs (converters (conv_settings x)) \<and> \<not> throws (conv_settings x) \<and>
     settlements (trace x) = (if completed x = Some True then 1 else 0) \<and>
     completions (trace x) = (if completed x = Some True then 1 else 0) \<and>
     sends (trace x) = (if phase x = Running then 1 else 0) \<and>
     active x = a + (if fireGlobals x \<and> completed x \<noteq> Some True then 1 else 0) \<and>
     (phase x = InPrefilters \<longrightarrow> \<not> fireGlobals x)"

lemma note_modified_simps [simp]:
  "trace (note_modified h x) = trace x" "completed (note_modified h x) = completed x" "active (note_modified h x) = active x"
  "fireGlobals (note_modified h x) = fireGlobals x" "phase (note_modified h x) = phase x" "raised (note_modified h x) = raised x"
  "conv_settings (note_modified h x) = conv_settings x"
  by (auto simp: note_modified_def Let_def split: option.split)

lemma settle_simps:
  "completed (settle native v x) = completed x" "fireGlobals (settle native v x) = fireGlobals x"
  "phase (settle native v x) = phase x" "raised (settle native v x) = raised x" "conv_settings (settle native v x) = conv_settings x"
  "active (settle native v x) = (if fireGlobals x then active x - 1 else active x)"
  "settlements (trace (settle native v x)) = settlements (trace x) + 1"
  "completions (trace (settle native v x)) = completions (trace x) + 1"
  "sends (trace (settle native v x)) = sends (trace x)"
  by (cases v; auto simp: settle_def emit_def Let_def counts)+

lemma done_inv:
  assumes "life_inv a x"
  shows "\<exists>x'. ajax_done undef st native rs hdrs x = Some x' \<and> life_inv a x' \<and> completed x' = Some True"
proof (cases "completed x = Some True")
  case True
  with assms show ?thesis by (simp add: ajax_done_def)
next
  case False
  define y where y: "y = x \<lparr> completed := Some True, timer := False, transport := False, headersString := hdrs,
                   readyState := (if st > 0 then 4 else 0) \<rparr>"
  obtain s r where sr: "(case rs of
               None \<Rightarrow> (conv_settings y, undef)
             | Some rs \<Rightarrow> (case ajaxHandleResponses (conv_settings y) (getResponseHeader True hdrs (u ''Content-Type'')) rs of
                 (s, None) \<Rightarrow> (s, undef) | (s, Some r) \<Rightarrow> (s, r))) = (s, r)" by fastforce
  then have cs: "converters s = converters (conv_settings x)" "throws s = throws (conv_settings x)"
    using converters_handle [of "conv_settings y" "getResponseHeader True hdrs (u ''Content-Type'')" "the rs"]
    by (cases rs; auto simp: y split: option.splits prod.splits)+
  with assms have wf: "wf_convs (converters s)" "\<not> throws s" by (simp_all add: life_inv_def)
  then have "ajaxConvert (script_guard undef (is_success st) s) r (is_success st) \<noteq> None"
    by (intro ajaxConvert_total wf_lower wf_script)
  then obtain as out where out: "ajaxConvert (script_guard undef (is_success st) s) r (is_success st) = Some (as, out)" by auto
  have "out \<noteq> Uncaught e" for e using ajaxConvert_caught [OF _ out] wf(2) by simp
  then have "ajax_done undef st native rs hdrs x =
      Some (settle native (verdict st (head_request y) native out) (if is_success st then note_modified hdrs y else y))"
    using False sr out unfolding ajax_done_def Let_def y [symmetric] by (simp split: outcome.split)
  moreover have "life_inv a (settle native v (if is_success st then note_modified hdrs y else y))"
    "completed (settle native v (if is_success st then note_modified hdrs y else y)) = Some True" for v
    using assms False by (auto simp: life_inv_def settle_simps y)
  ultimately show ?thesis by simp
qed

lemma abort_inv:
  assumes "life_inv a x"
  shows "\<exists>x'. ajax_abort undef text x = Some x' \<and> life_inv a x' \<and> completed x' = Some True"
proof -
  have "life_inv a (emit [TransportAbort t] x)" for t
    using assms by (simp add: life_inv_def emit_def counts)
  with assms show ?thesis by (simp add: ajax_abort_def Let_def done_inv)
qed

text \<open>Every step keeps the invariant, a completed request stays completed, and an abort completes it.\<close>

lemma step_inv:
  assumes "life_inv a x"
  shows "\<exists>x'. ajax_step undef i x = Some x' \<and> life_inv a x'
    \<and> (completed x = Some True \<or> (\<exists>t. i = Abort t) \<longrightarrow> completed x' = Some True)"
proof (cases i)
  case (Go b)
  have over: "life_inv a (x \<lparr> phase := Over \<rparr>)" if "phase x \<noteq> Running" using assms that by (auto simp: life_inv_def)
  show ?thesis
  proof (cases "phase x")
    case InPrefilters
    with Go assms over show ?thesis
      by (auto simp: ajax_step_def go_defs Let_def emit_def life_inv_def counts)
  next
    case BeforeSend
    with over have o': "life_inv a (x \<lparr> phase := Over \<rparr>)" by simp
    have "life_inv a (x \<lparr> strAbort := u ''abort'', phase := FindTransport \<rparr>)" using BeforeSend assms by (simp add: life_inv_def)
    moreover obtain x' where "ajax_abort undef [] (x \<lparr> phase := Over \<rparr>) = Some x'" "life_inv a x'" "completed x' = Some True"
      using abort_inv [OF o', of undef "[]"] by blast
    ultimately show ?thesis by (simp add: ajax_step_def ajax_go_def go_before_send_def Go BeforeSend)
  next
    case FindTransport
    with over have o': "life_inv a (x \<lparr> phase := Over \<rparr>)" by simp
    have y: "life_inv a (emit [Trigger (u ''ajaxSend'')] (x \<lparr> transport := True, readyState := 1, phase := InAjaxSend \<rparr>))"
      "life_inv a (x \<lparr> transport := True, readyState := 1, phase := InAjaxSend \<rparr>)"
      "completed (emit [Trigger (u ''ajaxSend'')] (x \<lparr> transport := True, readyState := 1, phase := InAjaxSend \<rparr>)) = completed x"
      using FindTransport assms by (simp_all add: life_inv_def emit_def counts)
    obtain x' where d: "ajax_done undef (-1) (u ''No Transport'') None [] (x \<lparr> phase := Over \<rparr>) = Some x'"
      "life_inv a x'" "completed x' = Some True"
      using done_inv [OF o', of undef "-1" "u ''No Transport''" None "[]"] by blast
    show ?thesis
    proof (cases b)
      case True
      then show ?thesis using y by (simp add: ajax_step_def ajax_go_def go_transport_def Let_def Go FindTransport)
    next
      case False
      then show ?thesis using d by (simp add: ajax_step_def ajax_go_def go_transport_def Go FindTransport)
    qed
  next
    case InAjaxSend
    with Go assms over show ?thesis by (auto simp: ajax_step_def go_defs emit_def life_inv_def counts)
  qed (use Go assms in \<open>simp_all add: ajax_step_def go_defs\<close>)
next
  case (Throw e)
  have "life_inv a (x \<lparr> raised := Some e \<rparr>)" using assms by (simp add: life_inv_def)
  with Throw assms done_inv [OF assms, of undef "-1" e None "[]"] show ?thesis by (auto simp: ajax_step_def)
next
  case (Answer st native rs hdrs)
  with done_inv [OF assms, of undef st native rs hdrs] assms show ?thesis by (auto simp: ajax_step_def)
next
  case (Abort t)
  with abort_inv [OF assms, of undef t] show ?thesis by (auto simp: ajax_step_def)
next
  case Timeout
  with abort_inv [OF assms, of undef "u ''timeout''"] assms show ?thesis by (auto simp: ajax_step_def)
qed

lemma run_inv:
  "life_inv a x \<Longrightarrow> \<exists>x'. ajax_run undef is x = Some x' \<and> life_inv a x'
     \<and> (completed x = Some True \<or> (\<exists>t. Abort t \<in> set is) \<longrightarrow> completed x' = Some True)"
proof (induction "is" arbitrary: x)
  case (Cons i "is")
  obtain x1 where s: "ajax_step undef i x = Some x1" "life_inv a x1"
    "completed x = Some True \<or> (\<exists>t. i = Abort t) \<longrightarrow> completed x1 = Some True"
    using step_inv [OF Cons.prems, of undef i] by (elim exE conjE) (rule that)
  obtain x2 where t: "ajax_run undef is x1 = Some x2" "life_inv a x2"
    "completed x1 = Some True \<or> (\<exists>t. Abort t \<in> set is) \<longrightarrow> completed x2 = Some True"
    using Cons.IH [OF s(2)] by (elim exE conjE) (rule that)
  have "completed x = Some True \<or> (\<exists>t. Abort t \<in> set (i # is)) \<longrightarrow> completed x2 = Some True"
  proof
    assume "completed x = Some True \<or> (\<exists>t. Abort t \<in> set (i # is))"
    then consider "completed x = Some True" | t where "i = Abort t" | t where "Abort t \<in> set is" by fastforce
    then show "completed x2 = Some True" using s(3) t(3) by cases blast+
  qed
  then show ?case using s(1) t(1,2) by (intro exI [of _ x2]) simp
qed simp

text \<open>C24: For every sequence of inputs (the program going on, aborts at any moment, a timeout, exceptions
  of the transport and answers, also repeated ones), with the setting \<open>throws\<close> off, as it is unless
  asked for, converters named by two types, and a data filter that returns: the request machine never gets stuck in a
  conversion and, whatever converters throw, the request is settled and completed exactly once if it is over,
  and not at all before; it is over once it has been aborted. The transport is asked to send at most once,
  and the counter of active requests is back at its value exactly when the request is over.\<close>

theorem request_settles_once:
  assumes "wf_convs (converters (conv_settings x))" "\<not> throws (conv_settings x)"
    and "trace x = []" "completed x = None" "phase x = InPrefilters" "\<not> fireGlobals x"
  shows "\<exists>x'. ajax_run undef is x = Some x' \<and>
    settlements (trace x') = (if completed x' = Some True then 1 else 0) \<and>
    completions (trace x') = settlements (trace x') \<and> sends (trace x') \<le> 1 \<and>
    active x' = active x + (if fireGlobals x' \<and> completed x' \<noteq> Some True then 1 else 0) \<and>
    ((\<exists>t. Abort t \<in> set is) \<longrightarrow> completed x' = Some True)"
proof -
  have "life_inv (active x) x" using assms by (simp add: life_inv_def counts)
  from run_inv [OF this, of undef "is"] obtain x' where "ajax_run undef is x = Some x'" "life_inv (active x) x'"
    "completed x = Some True \<or> (\<exists>t. Abort t \<in> set is) \<longrightarrow> completed x' = Some True"
    by (elim exE conjE) (rule that)
  then show ?thesis by (intro exI [of _ x']) (simp add: life_inv_def)
qed

definition fresh_request :: "nat request" where
  "fresh_request = \<lparr> conv_settings = \<lparr> dataTypes = [star], contents = default_contents, converters = [], responseFields = default_fields,
       mimeType = [], dataFilter = None, throws = False \<rparr>,
     global_events = True, head_request = False, if_modified = False, cache_url = u ''/a'', has_timeout = True, before_send = False,
     phase = InPrefilters, completed = None, readyState = 0, status = 0, statusText = [], strAbort = u ''canceled'',
     transport = False, timer = False, fireGlobals = False, headersString = [], raised = None, trace = [], active = 0,
     lastModified = [], etag = [] \<rparr>"

theorem request_settles_once_witness:
  "map_option trace (ajax_run 0 [Go True, Go True, Go True, Go True, Answer 200 (u ''OK'') (Some [(u ''text'', 7)]) [], Abort []] fresh_request) =
     Some [Trigger (u ''ajaxStart''), Trigger (u ''ajaxSend''), SendCall, Resolved (Some 7) (u ''success''), StatusCode 200,
       Trigger (u ''ajaxSuccess''), Completed (u ''success''), Trigger (u ''ajaxComplete''), Trigger (u ''ajaxStop'')] \<and>
   sends (trace (the (ajax_run 0 [Go True, Go True, Timeout, Go True] fresh_request))) \<le> 1"
proof
  show "map_option trace (ajax_run 0 [Go True, Go True, Go True, Go True, Answer 200 (u ''OK'') (Some [(u ''text'', 7)]) [], Abort []] fresh_request) =
     Some [Trigger (u ''ajaxStart''), Trigger (u ''ajaxSend''), SendCall, Resolved (Some 7) (u ''success''), StatusCode 200,
       Trigger (u ''ajaxSuccess''), Completed (u ''success''), Trigger (u ''ajaxComplete''), Trigger (u ''ajaxStop'')]"
    by code_simp
  have "wf_convs (converters (conv_settings fresh_request))" "\<not> throws (conv_settings fresh_request)" "trace fresh_request = []"
    "completed fresh_request = None" "phase fresh_request = InPrefilters" "\<not> fireGlobals fresh_request"
    by (simp_all add: fresh_request_def wf_convs_def)
  from request_settles_once [OF this, of 0 "[Go True, Go True, Timeout, Go True]"] have
    "\<exists>x'. ajax_run 0 [Go True, Go True, Timeout, Go True] fresh_request = Some x' \<and> sends (trace x') \<le> 1"
    by (rule ex_forward) blast
  then show "sends (trace (the (ajax_run 0 [Go True, Go True, Timeout, Go True] fresh_request))) \<le> 1" by auto
qed

section \<open>The requested URL\<close>

text \<open>Two spellings of a name are one header, under the first spelling, with the last value.\<close>

lemma header_spellings:
  "to_lower m = to_lower n \<Longrightarrow> n \<noteq> [] \<Longrightarrow>
     sent (setRequestHeader None m w (setRequestHeader None n v \<lparr> names = [], sent = [] \<rparr>)) = [(n, w)]"
  by (simp add: setRequestHeader_def Let_def)

lemma rhash_cut: "35 \<notin> set b \<Longrightarrow> list_all (\<lambda>d. \<not> line_stop d) h \<Longrightarrow> rhash (b @ 35 # h) = b"
  by (induction b) auto

lemma rhash_none: "35 \<notin> set b \<Longrightarrow> rhash b = b"
  by (induction b) auto

lemma rantiCache_none: "(\<forall>a c d. b \<noteq> a @ [c] @ u ''_='' @ d) \<Longrightarrow> rantiCache b = b"
proof (induction b rule: rantiCache.induct)
  case (2 c s)
  have "\<not> starts_with (u ''_='') s"
  proof
    assume "starts_with (u ''_='') s"
    then obtain d where "s = u ''_='' @ d" by (auto simp: starts_with_prefix prefix_def)
    then have "c # s = [] @ [c] @ u ''_='' @ d" by simp
    with 2(2) show False by blast
  qed
  moreover have "\<forall>a c' d. s \<noteq> a @ [c'] @ u ''_='' @ d"
  proof (intro allI notI)
    fix a c' d
    assume "s = a @ [c'] @ u ''_='' @ d"
    then have "c # s = (c # a) @ [c'] @ u ''_='' @ d" by simp
    with 2(2) show False by blast
  qed
  ultimately show ?case using 2(1) by simp
qed simp

text \<open>A request without content gets its data and the anti-cache parameter into the query, in this order,
  in front of the hash, which keeps its place; the data is used up, and the URL that names the
  resource for \<open>If-Modified-Since\<close> has the data but neither hash nor anti-cache parameter.\<close>

theorem request_url_parts:
  assumes "rnoContent (req_type o')" "req_url o' = b @ u ''#'' @ h" "35 \<notin> set b" "list_all (\<lambda>d. \<not> line_stop d) h"
    and "req_data o' = Some d" "d \<noteq> []" "no_cache o'" "rantiCache (b @ query_sep b @ d) = b @ query_sep b @ d"
  shows "request_url n o' = (b @ query_sep b @ d @ u ''&_='' @ dec_nat n @ u ''#'' @ h, None, b @ query_sep b @ d)"
proof -
  have r: "rhash (req_url o') = b" "drop (length b) (req_url o') = u ''#'' @ h"
    using assms(2-4) rhash_cut by (simp_all add: ulit)
  have "query_sep (b @ query_sep b @ d) = u ''&''" by (auto simp: query_sep_def rquery_def ulit)
  with assms r show ?thesis by (simp add: request_url_def Let_def ulit)
qed

theorem request_url_parts_witness:
  "request_url 9 \<lparr> req_url = u ''/s?a=1#top'', req_type = u ''GET'', req_data = Some (u ''q=x''), no_cache = True,
     processData = True, contentType = [] \<rparr> = (u ''/s?a=1&q=x&_=9#top'', None, u ''/s?a=1&q=x'')"
proof -
  let ?o = "\<lparr> req_url = u ''/s?a=1#top'', req_type = u ''GET'', req_data = Some (u ''q=x''), no_cache = True,
     processData = True, contentType = [] \<rparr>"
  have "rnoContent (req_type ?o)" "req_url ?o = u ''/s?a=1'' @ u ''#'' @ u ''top''" "35 \<notin> set (u ''/s?a=1'')"
    "list_all (\<lambda>d. \<not> line_stop d) (u ''top'')" "req_data ?o = Some (u ''q=x'')" "u ''q=x'' \<noteq> []" "no_cache ?o"
    "rantiCache (u ''/s?a=1'' @ query_sep (u ''/s?a=1'') @ u ''q=x'') = u ''/s?a=1'' @ query_sep (u ''/s?a=1'') @ u ''q=x''"
    by code_simp+
  from request_url_parts [OF this, of 9] show ?thesis
    by (rule trans) code_simp
qed

end
