(* ===== verification/JqXhr.thy ===== *)
theory JqXhr
  imports JqAjax
begin

text \<open>
  The transports (\<open>jquery-3.5.1.js\<close>, lines 9946 to 10275): the one over \<open>XMLHttpRequest\<close> as a machine fed with
  the events of the browser, which calls \<open>complete\<close> at most once, and the callbacks of JSONP requests,
  whose names are taken from a pool and live on the global object.
\<close>

section \<open>XMLHttpRequest\<close>

datatype 'r xbody = XText 'r | XBinary 'r

record 'r xresponse =
  x_status :: "int option"
  x_statusText :: ustr
  x_body :: "'r xbody"
  x_headers :: ustr

definition xhrSuccessStatus :: "int \<Rightarrow> int" where
  "xhrSuccessStatus st = (if st = 0 then 200 else if st = 1223 then 204 else st)"

datatype xkind = Load | Error | AbortCall

datatype 'r xout = Complete int ustr "(ustr \<times> 'r) list option" ustr | NativeAbort

record 'r xhr =
  callback :: bool
  out :: "'r xout list"

text \<open>\<open>callback(type)\<close>: the first of them that is called clears all of them.\<close>

definition xhr_callback :: "xkind \<Rightarrow> 'r xresponse \<Rightarrow> 'r xhr \<Rightarrow> 'r xhr" where
  "xhr_callback type resp x =
    (if \<not> callback x then x
     else x \<lparr> callback := False, out := out x @ [case type of
         AbortCall \<Rightarrow> NativeAbort
       | Error \<Rightarrow> (case x_status resp of None \<Rightarrow> Complete 0 (u ''error'') None []
           | Some st \<Rightarrow> Complete st (x_statusText resp) None [])
       | Load \<Rightarrow> Complete (xhrSuccessStatus (case x_status resp of Some st \<Rightarrow> st | None \<Rightarrow> 0)) (x_statusText resp)
           (Some [case x_body resp of XText r \<Rightarrow> (u ''text'', r) | XBinary r \<Rightarrow> (u ''binary'', r)]) (x_headers resp)] \<rparr>)"

text \<open>The events: load, error and timeout, a native abort, and the call of the transport's \<open>abort\<close>.\<close>

datatype 'r xevent = OnLoad "'r xresponse" | OnError "'r xresponse" | OnTimeout "'r xresponse" | OnAbort "'r xresponse" | TransportAborts "'r xresponse"

definition xhr_event :: "'r xevent \<Rightarrow> 'r xhr \<Rightarrow> 'r xhr" where
  "xhr_event e x = (case e of
     OnLoad r \<Rightarrow> xhr_callback Load r x
   | OnError r \<Rightarrow> xhr_callback Error r x
   | OnTimeout r \<Rightarrow> xhr_callback Error r x
   | OnAbort r \<Rightarrow> xhr_callback Error r x
   | TransportAborts r \<Rightarrow> xhr_callback AbortCall r x)"

text \<open>The headers of \<open>send\<close>, and whether an exception of \<open>xhr.send\<close> is passed on.\<close>

definition xhr_headers :: "bool \<Rightarrow> ustr dict \<Rightarrow> ustr dict" where
  "xhr_headers crossDomain headers =
    (if \<not> crossDomain \<and> (case dget headers (u ''X-Requested-With'') of None \<Rightarrow> True | Some v \<Rightarrow> v = [])
     then dput (u ''X-Requested-With'') (u ''XMLHttpRequest'') headers else headers)"

definition xhr_rethrow :: "'r xhr \<Rightarrow> bool" where
  "xhr_rethrow x = callback x"

text \<open>What the request machine gets from the transport.\<close>

definition xhr_inputs :: "'r xout list \<Rightarrow> 'r input list" where
  "xhr_inputs os = concat (map (\<lambda>o'. case o' of Complete st t rs h \<Rightarrow> [Answer st t rs h] | NativeAbort \<Rightarrow> []) os)"

definition started_xhr :: "'r xhr" where
  "started_xhr = \<lparr> callback = True, out = [] \<rparr>"

lemma xhr_event_outs:
  "callback x \<and> out x = [] \<or> \<not> callback x \<and> length (out x) = 1 \<Longrightarrow>
     \<not> callback (xhr_event e x) \<and> length (out (xhr_event e x)) = 1"
  by (cases e) (auto simp: xhr_event_def xhr_callback_def)

text \<open>Whatever events the browser reports, and however often, the transport answers with the first one only;
  when the first one is the transport's own abort, with none.\<close>

theorem xhr_answers_once:
  "out (fold xhr_event (e # es) started_xhr) = out (xhr_event e started_xhr) \<and>
   length (xhr_inputs (out (fold xhr_event (e # es) started_xhr))) = (case e of TransportAborts r \<Rightarrow> 0 | _ \<Rightarrow> 1)"
proof -
  have s: "\<not> callback x \<Longrightarrow> fold xhr_event es x = x" for x :: "'a xhr" and es
  proof (induction es)
    case (Cons e es)
    then show ?case by (cases e) (simp_all add: xhr_event_def xhr_callback_def)
  qed simp
  have "\<not> callback (xhr_event e started_xhr)" by (rule xhr_event_outs [THEN conjunct1]) (simp add: started_xhr_def)
  then have "fold xhr_event (e # es) started_xhr = xhr_event e started_xhr" using s by simp
  then show ?thesis
    by (cases e) (auto simp: xhr_event_def xhr_callback_def started_xhr_def xhr_inputs_def split: option.split)
qed

section \<open>JSONP\<close>

text \<open>\<open>url.replace(/(=)\?(?=&|$)|\?\?/, "$1" + name)\<close>, for a name without dollar signs.\<close>

definition jsonp_mark :: "ustr \<Rightarrow> nat" where
  "jsonp_mark s = (case s of
     c # d # r \<Rightarrow> if c = 61 \<and> d = 63 \<and> (r = [] \<or> hd r = 38) then 1 else if c = 63 \<and> d = 63 then 2 else 0
   | _ \<Rightarrow> 0)"

fun rjsonp :: "ustr \<Rightarrow> ustr \<Rightarrow> ustr option" where
  "rjsonp name [] = None"
| "rjsonp name (c # s) =
    (if jsonp_mark (c # s) = 1 then Some (c # name @ drop 1 s)
     else if jsonp_mark (c # s) = 2 then Some (name @ drop 1 s)
     else map_option ((#) c) (rjsonp name s))"

text \<open>The name goes into the URL or the form data, or behind the URL.\<close>

definition jsonp_place :: "ustr option \<Rightarrow> ustr \<Rightarrow> ustr \<Rightarrow> ustr option \<times> bool \<Rightarrow> ustr \<times> ustr option" where
  "jsonp_place jsonp name url data = (case data of (body, form) \<Rightarrow>
    (case jsonp of
      None \<Rightarrow> (url, body)
    | Some param \<Rightarrow>
       (case rjsonp name url of Some url' \<Rightarrow> (url', body)
        | None \<Rightarrow>
           (case (if form then Option.bind body (rjsonp name) else None) of
              Some body' \<Rightarrow> (url, Some body')
            | None \<Rightarrow> (url @ query_sep url @ param @ u ''='' @ name, body)))))"

text \<open>A pending request has its name and what it replaced on the global object, which maps names to values.\<close>

record 'v jsonp =
  oldCallbacks :: "ustr list"
  guid :: nat
  window :: "ustr \<Rightarrow> 'v option"
  pending :: "(ustr \<times> 'v option) list"

definition callback_name :: "ustr \<Rightarrow> nat \<Rightarrow> ustr" where
  "callback_name expando n = expando @ u ''_'' @ dec_nat n"

definition jsonpCallback :: "ustr \<Rightarrow> 'v jsonp \<Rightarrow> ustr \<times> 'v jsonp" where
  "jsonpCallback expando j =
    (if oldCallbacks j \<noteq> [] then (last (oldCallbacks j), j \<lparr> oldCallbacks := butlast (oldCallbacks j) \<rparr>)
     else (callback_name expando (guid j), j \<lparr> guid := guid j + 1 \<rparr>))"

definition jsonp_start :: "ustr \<Rightarrow> 'v \<Rightarrow> 'v jsonp \<Rightarrow> 'v jsonp" where
  "jsonp_start expando handler j =
    (case jsonpCallback expando j of (callbackName, j) \<Rightarrow>
       j \<lparr> pending := (callbackName, window j callbackName) # pending j,
           window := (window j)(callbackName := Some handler) \<rparr>)"

text \<open>The clean-up of the pending request with index \<open>i\<close>.\<close>

definition jsonp_finish :: "nat \<Rightarrow> 'v jsonp \<Rightarrow> 'v jsonp" where
  "jsonp_finish i j =
    (if i < length (pending j)
     then case pending j ! i of (callbackName, overwritten) \<Rightarrow>
       j \<lparr> window := (window j)(callbackName := overwritten), oldCallbacks := oldCallbacks j @ [callbackName],
           pending := take i (pending j) @ drop (Suc i) (pending j) \<rparr>
     else j)"

definition other_guid :: "'v jsonp \<Rightarrow> 'v jsonp" where
  "other_guid j = j \<lparr> guid := guid j + 1 \<rparr>"

datatype jstep = JStart | JFinish nat | JOther

definition jsonp_step :: "ustr \<Rightarrow> 'v \<Rightarrow> jstep \<Rightarrow> 'v jsonp \<Rightarrow> 'v jsonp" where
  "jsonp_step expando handler st j = (case st of
     JStart \<Rightarrow> jsonp_start expando handler j | JFinish i \<Rightarrow> jsonp_finish i j | JOther \<Rightarrow> other_guid j)"

text \<open>Names in the pool and names in use are all different and were made from smaller numbers; apart from
  the names in use the global object is as it was, and these have kept what was there.\<close>

definition jsonp_inv :: "ustr \<Rightarrow> (ustr \<Rightarrow> 'v option) \<Rightarrow> 'v jsonp \<Rightarrow> bool" where
  "jsonp_inv expando w j \<longleftrightarrow>
     distinct (oldCallbacks j @ map fst (pending j)) \<and>
     (\<forall>n \<in> set (oldCallbacks j @ map fst (pending j)). \<exists>m < guid j. n = callback_name expando m) \<and>
     (\<forall>n. window j n \<noteq> w n \<longrightarrow> n \<in> fst ` set (pending j)) \<and>
     (\<forall>(n, v) \<in> set (pending j). v = w n)"

lemma callback_name_inj [simp]: "callback_name e m = callback_name e n \<longleftrightarrow> m = n"
  by (simp add: callback_name_def dec_nat_inj)

lemma jsonp_inv_start:
  assumes "jsonp_inv expando w j"
  shows "jsonp_inv expando w (jsonp_start expando handler j)"
proof (cases "oldCallbacks j = []")
  case True
  have n: "callback_name expando (guid j) \<notin> fst ` set (pending j)"
    using assms True by (auto simp: jsonp_inv_def)
  then have "window j (callback_name expando (guid j)) = w (callback_name expando (guid j))"
    using assms by (auto simp: jsonp_inv_def)
  with assms True n show ?thesis
    by (auto simp: jsonp_inv_def jsonp_start_def jsonpCallback_def less_Suc_eq)
next
  case False
  let ?n = "last (oldCallbacks j)" and ?os = "butlast (oldCallbacks j)"
  have o': "oldCallbacks j = ?os @ [?n]" using False by simp
  from assms have d: "distinct ((?os @ [?n]) @ map fst (pending j))"
    "\<forall>n \<in> set ((?os @ [?n]) @ map fst (pending j)). \<exists>m < guid j. n = callback_name expando m"
    unfolding jsonp_inv_def o' [symmetric] by blast+
  then have n: "?n \<notin> fst ` set (pending j)" "?n \<notin> set ?os" by auto
  then have "window j ?n = w ?n" using assms by (auto simp: jsonp_inv_def)
  with assms d n False show ?thesis
    by (auto simp: jsonp_inv_def jsonp_start_def jsonpCallback_def distinct_butlast dest!: in_set_butlastD)
qed

lemma jsonp_inv_finish:
  assumes "jsonp_inv expando w j"
  shows "jsonp_inv expando w (jsonp_finish i j)"
proof (cases "i < length (pending j)")
  case True
  obtain n v where nv: "pending j ! i = (n, v)" by fastforce
  let ?a = "take i (pending j)" and ?b = "drop (Suc i) (pending j)"
  have p: "pending j = ?a @ (n, v) # ?b" using True nv by (metis id_take_nth_drop)
  from assms have d: "distinct (oldCallbacks j @ map fst (?a @ (n, v) # ?b))"
    "\<forall>k \<in> set (oldCallbacks j @ map fst (?a @ (n, v) # ?b)). \<exists>m < guid j. k = callback_name expando m"
    "\<forall>k. window j k \<noteq> w k \<longrightarrow> k \<in> fst ` set (?a @ (n, v) # ?b)" "\<forall>(k, y) \<in> set (?a @ (n, v) # ?b). y = w k"
    unfolding jsonp_inv_def p [symmetric] by blast+
  have f: "jsonp_finish i j = j \<lparr> window := (window j)(n := v), oldCallbacks := oldCallbacks j @ [n], pending := ?a @ ?b \<rparr>"
    using True nv by (simp add: jsonp_finish_def)
  show ?thesis unfolding f jsonp_inv_def
  proof (intro conjI)
    show "distinct (oldCallbacks (j \<lparr> window := (window j)(n := v), oldCallbacks := oldCallbacks j @ [n], pending := ?a @ ?b \<rparr>) @
      map fst (pending (j \<lparr> window := (window j)(n := v), oldCallbacks := oldCallbacks j @ [n], pending := ?a @ ?b \<rparr>)))"
      using d(1) by auto
  qed (use d(2-4) in \<open>auto\<close>)
next
  case False
  with assms show ?thesis by (simp add: jsonp_finish_def)
qed

lemma jsonp_inv_step: "jsonp_inv expando w j \<Longrightarrow> jsonp_inv expando w (jsonp_step expando handler st j)"
proof (cases st)
  case JOther
  assume "jsonp_inv expando w j"
  with JOther show ?thesis by (simp add: jsonp_inv_def jsonp_step_def other_guid_def) (meson less_SucI)
qed (simp_all add: jsonp_step_def jsonp_inv_start jsonp_inv_finish)

lemma jsonp_inv_steps: "jsonp_inv expando w j \<Longrightarrow> jsonp_inv expando w (fold (jsonp_step expando handler) sts j)"
  by (induction sts arbitrary: j) (simp_all add: jsonp_inv_step)

definition fresh_jsonp :: "nat \<Rightarrow> (ustr \<Rightarrow> 'v option) \<Rightarrow> 'v jsonp" where
  "fresh_jsonp g w = \<lparr> oldCallbacks = [], guid = g, window = w, pending = [] \<rparr>"

text \<open>However JSONP requests start and finish, in whatever order, no two pending requests share the name of
  their callback, no name in use is in the pool, and the global object has what it had before under
  every name that is not in use, in particular under all names once no request is pending.\<close>

theorem jsonp_names:
  "let j = fold (jsonp_step expando handler) sts (fresh_jsonp g w) in
     distinct (map fst (pending j)) \<and> set (oldCallbacks j) \<inter> fst ` set (pending j) = {} \<and>
     (n \<in> fst ` set (pending j) \<or> window j n = w n)"
proof -
  have "jsonp_inv expando w (fresh_jsonp g w)" by (simp add: jsonp_inv_def fresh_jsonp_def)
  from jsonp_inv_steps [OF this, of handler sts] show ?thesis by (auto simp: jsonp_inv_def Let_def)
qed

end
