(* ===== verification/JqSort.thy ===== *)
theory JqSort
  imports JsPrelude
begin

text \<open>
  Document order and the removal of duplicates in the selector engine (\<open>jquery-3.5.1.js\<close>, lines 971 to 991,
  1474 to 1595 and 1683 to 1711).  A node is the tree it is in and its path from the root: tree 0 is
  the document, whose root is the document node, the other trees are detached and owned by the
  document.  \<open>compareDocumentPosition\<close> is the function of the DOM standard.  The number of children
  of every node is a parameter; \<open>sourceIndex\<close>, an extension of an old browser, is left out.
\<close>

section \<open>Nodes\<close>

type_synonym path = "nat list"
type_synonym node = "nat \<times> path"

definition parentNode :: "node \<Rightarrow> node option" where
  "parentNode a = (if snd a = [] then None else Some (fst a, butlast (snd a)))"

definition following_siblings :: "(node \<Rightarrow> nat) \<Rightarrow> node \<Rightarrow> node list" where
  "following_siblings kids a = (case parentNode a of None \<Rightarrow> []
     | Some p \<Rightarrow> map (\<lambda>k. (fst a, snd p @ [k])) [Suc (last (snd a))..<kids p])"

text \<open>Document order on the paths of a tree: an ancestor comes first.\<close>

fun path_before :: "path \<Rightarrow> path \<Rightarrow> bool" where
  "path_before [] ys \<longleftrightarrow> ys \<noteq> []"
| "path_before (x # xs) [] \<longleftrightarrow> False"
| "path_before (x # xs) (y # ys) \<longleftrightarrow> x < y \<or> x = y \<and> path_before xs ys"

text \<open>\<open>a.compareDocumentPosition(b)\<close>: 1 disconnected, 2 preceding, 4 following, 8 contains, 16 contained
  by, 32 in an order the implementation chooses.\<close>

definition compareDocumentPosition :: "node \<Rightarrow> node \<Rightarrow> nat" where
  "compareDocumentPosition a b =
    (if fst a \<noteq> fst b then 1 + 32 + (if fst a < fst b then 4 else 2)
     else if snd a = snd b then 0
     else if strict_prefix (snd b) (snd a) then 8 + 2
     else if strict_prefix (snd a) (snd b) then 16 + 4
     else if path_before (snd b) (snd a) then 2 else 4)"

definition bit_set :: "nat \<Rightarrow> nat \<Rightarrow> bool" where
  "bit_set n k \<longleftrightarrow> odd (n div 2 ^ k)"

definition document :: node where
  "document = (0, [])"

section \<open>Comparing nodes\<close>

definition siblingCheck :: "(node \<Rightarrow> nat) \<Rightarrow> node option \<Rightarrow> node option \<Rightarrow> int" where
  "siblingCheck kids a b =
    (case (a, b) of
       (Some x, Some y) \<Rightarrow> if y \<in> set (following_siblings kids x) then -1 else 1
     | (Some x, None) \<Rightarrow> 1
     | (None, _) \<Rightarrow> -1)"

definition by_input :: "node list option \<Rightarrow> node \<Rightarrow> node \<Rightarrow> int" where
  "by_input sortInput a b = (case sortInput of None \<Rightarrow> 0
     | Some xs \<Rightarrow> (let ix = (\<lambda>e. case arr_index e xs of None \<Rightarrow> -1 | Some i \<Rightarrow> int i) in ix a - ix b))"

text \<open>With \<open>compareDocumentPosition\<close>.\<close>

definition sortOrder :: "bool \<Rightarrow> node list option \<Rightarrow> node \<Rightarrow> node \<Rightarrow> int" where
  "sortOrder sortDetached sortInput a b =
    (if a = b then 0
     else let compare = compareDocumentPosition a b
          in if bit_set compare 0 \<or> \<not> sortDetached \<and> compareDocumentPosition b a = compare
             then (if fst a = 0 then -1 else if fst b = 0 then 1 else by_input sortInput a b)
             else if bit_set compare 2 then -1 else 1)"

text \<open>Without it: the lists of ancestors, and the first place where they differ.\<close>

function ancestors :: "path \<Rightarrow> path list" where
  "ancestors p = (if p = [] then [[]] else ancestors (butlast p) @ [p])"
  by pat_completeness auto
termination
  by (relation "measure length") auto

declare ancestors.simps [simp del]

fun discrepancy :: "nat \<Rightarrow> node list \<Rightarrow> node list \<Rightarrow> nat \<times> node option \<times> node option" where
  "discrepancy i (x # xs) (y # ys) = (if x = y then discrepancy (Suc i) xs ys else (i, Some x, Some y))"
| "discrepancy i (x # xs) [] = (i, Some x, None)"
| "discrepancy i [] (y # ys) = (i, None, Some y)"
| "discrepancy i [] [] = (i, None, None)"

definition sortOrder_walk :: "(node \<Rightarrow> nat) \<Rightarrow> node list option \<Rightarrow> node \<Rightarrow> node \<Rightarrow> int" where
  "sortOrder_walk kids sortInput a b =
    (if a = b then 0
     else case (parentNode a, parentNode b) of
       (Some aup, Some bup) \<Rightarrow>
         (if aup = bup then siblingCheck kids (Some a) (Some b)
          else case discrepancy 0 (map (Pair (fst a)) (ancestors (snd a))) (map (Pair (fst b)) (ancestors (snd b))) of
            (i, x, y) \<Rightarrow>
              if i \<noteq> 0 then siblingCheck kids x y
              else if x = Some document then -1 else if y = Some document then 1 else 0)
     | (aup, bup) \<Rightarrow>
         (if a = document then -1 else if b = document then 1
          else if aup \<noteq> None then -1 else if bup \<noteq> None then 1 else by_input sortInput a b))"

section \<open>Removing duplicates\<close>

text \<open>The positions of the elements that equal the one before them.\<close>

fun duplicates_loop :: "nat \<Rightarrow> 'a list \<Rightarrow> nat list" where
  "duplicates_loop i (x # y # r) = (if x = y then [Suc i] else []) @ duplicates_loop (Suc i) (y # r)"
| "duplicates_loop i xs = []"

definition drop_duplicates :: "'a list \<Rightarrow> 'a list" where
  "drop_duplicates xs = foldr (\<lambda>k ys. JsPrelude.splice k 1 ys) (duplicates_loop 0 xs) xs"

text \<open>A sort that puts equal elements side by side has compared them, which sets \<open>hasDuplicate\<close>.\<close>

definition uniqueSort :: "('a \<Rightarrow> 'a \<Rightarrow> int) \<Rightarrow> bool \<Rightarrow> 'a list \<Rightarrow> 'a list" where
  "uniqueSort order detectDuplicates results =
    (let hasDuplicate = (\<not> detectDuplicates \<or> \<not> distinct results); sorted = sort_by order results
     in if hasDuplicate then drop_duplicates sorted else sorted)"

section \<open>Document order\<close>

lemma path_before_irrefl [simp]: "\<not> path_before p p"
  by (induction p) auto

lemma path_before_total: "p \<noteq> q \<Longrightarrow> path_before p q \<or> path_before q p"
proof (induction p q rule: path_before.induct)
  case (1 ys)
  then show ?case by (cases ys) auto
qed auto

lemma path_before_trans: "path_before p q \<Longrightarrow> path_before q r \<Longrightarrow> path_before p r"
proof (induction p q arbitrary: r rule: path_before.induct)
  case (1 ys)
  then show ?case by (cases ys; cases r) auto
next
  case (3 x xs y ys)
  then show ?case by (cases r) auto
qed auto

lemma path_before_prefix: "strict_prefix p q \<Longrightarrow> path_before p q"
  by (induction p q rule: path_before.induct) (auto simp: strict_prefix_def)

lemma path_before_asym: "path_before p q \<Longrightarrow> \<not> path_before q p"
  using path_before_trans path_before_irrefl by blast

lemma sortOrder_document:
  "sortOrder d s (0, p) (0, q) = (if p = q then 0 else if path_before p q then -1 else 1)"
proof (cases "p = q")
  case False
  have b: "bit_set 10 0 = False" "bit_set 20 0 = False" "bit_set 2 0 = False" "bit_set 4 0 = False"
    "bit_set 10 2 = False" "bit_set 20 2 = True" "bit_set 2 2 = False" "bit_set 4 2 = True"
    by (simp_all add: bit_set_def)
  consider "strict_prefix q p" | "strict_prefix p q" | "\<not> strict_prefix q p" "\<not> strict_prefix p q" "path_before q p"
    | "\<not> strict_prefix q p" "\<not> strict_prefix p q" "path_before p q"
    using path_before_total [OF False] by blast
  then show ?thesis
  proof cases
    case 1
    then have "\<not> strict_prefix p q" "\<not> path_before p q" using path_before_prefix path_before_asym by (auto simp: strict_prefix_def)
    with 1 False b show ?thesis by (simp add: sortOrder_def compareDocumentPosition_def Let_def)
  next
    case 2
    then have "\<not> strict_prefix q p" "path_before p q" using path_before_prefix by (auto simp: strict_prefix_def)
    with 2 False b show ?thesis by (simp add: sortOrder_def compareDocumentPosition_def Let_def)
  next
    case 3
    then have "\<not> path_before p q" by (auto dest: path_before_asym)
    with 3 False b show ?thesis by (simp add: sortOrder_def compareDocumentPosition_def Let_def)
  next
    case 4
    then have "\<not> path_before q p" by (auto dest: path_before_asym)
    with 4 False b show ?thesis by (simp add: sortOrder_def compareDocumentPosition_def Let_def)
  qed
qed (simp add: sortOrder_def)

text \<open>The same list of ancestors, from the top.\<close>

fun prefixes_from :: "path \<Rightarrow> path \<Rightarrow> path list" where
  "prefixes_from c [] = [c]"
| "prefixes_from c (x # xs) = c # prefixes_from (c @ [x]) xs"

lemma prefixes_snoc: "prefixes_from c (p @ [x]) = prefixes_from c p @ [c @ p @ [x]]"
  by (induction p arbitrary: c) auto

lemma ancestors_prefixes: "ancestors p = prefixes_from [] p"
proof (induction p rule: rev_induct)
  case Nil
  then show ?case by (subst ancestors.simps) simp
next
  case (snoc x p)
  then show ?case by (subst ancestors.simps) (simp add: prefixes_snoc)
qed

definition in_tree :: "(node \<Rightarrow> nat) \<Rightarrow> node \<Rightarrow> bool" where
  "in_tree kids a \<longleftrightarrow> (\<forall>i < length (snd a). snd a ! i < kids (fst a, take i (snd a)))"

lemma siblings_after: "x \<noteq> y \<Longrightarrow> y < kids (t, c) \<Longrightarrow>
    siblingCheck kids (Some (t, c @ [x])) (Some (t, c @ [y])) = (if x < y then -1 else 1)"
  by (auto simp: siblingCheck_def following_siblings_def parentNode_def)

lemma discrepancy_prefixes:
  assumes "p \<noteq> q" "in_tree kids (t, c @ q)"
  shows "case discrepancy i (map (Pair t) (prefixes_from c p)) (map (Pair t) (prefixes_from c q)) of
    (j, x, y) \<Rightarrow> j > i \<and> siblingCheck kids x y = (if path_before p q then -1 else 1)"
  using assms
proof (induction p arbitrary: q c i)
  case Nil
  then obtain y ys where "q = y # ys" by (cases q) auto
  then show ?case by (cases ys) (auto simp: siblingCheck_def)
next
  case (Cons x xs)
  show ?case
  proof (cases q)
    case Nil
    then show ?thesis by (cases xs) (auto simp: siblingCheck_def)
  next
    case (Cons y ys)
    show ?thesis
    proof (cases "x = y")
      case True
      with Cons.prems \<open>q = y # ys\<close> Cons.IH [of ys "c @ [x]" "Suc i"] show ?thesis by (auto split: prod.splits)
    next
      case False
      have "y < kids (t, c)" using Cons.prems(2) \<open>q = y # ys\<close> unfolding in_tree_def
        by (auto dest!: spec [of _ "length c"] simp: nth_append)
      note s = siblings_after [where kids = kids and t = t and c = c, OF False this]
      show ?thesis using False s \<open>q = y # ys\<close> by (cases xs; cases ys) auto
    qed
  qed
qed

lemma walk_document:
  assumes "in_tree kids (0, p)" "in_tree kids (0, q)"
  shows "sortOrder_walk kids s (0, p) (0, q) = (if p = q then 0 else if path_before p q then -1 else 1)"
proof (cases "p = [] \<or> q = [] \<or> p = q")
  case True
  then show ?thesis by (cases p; cases q) (auto simp: sortOrder_walk_def parentNode_def document_def)
next
  case False
  then have n: "p \<noteq> []" "q \<noteq> []" "p \<noteq> q" by auto
  show ?thesis
  proof (cases "butlast p = butlast q")
    case True
    then obtain c x y where p: "p = c @ [x]" and q: "q = c @ [y]" using n by (metis append_butlast_last_id)
    have y: "y < kids (0, c)" using assms(2) unfolding in_tree_def q by (auto dest!: spec [of _ "length c"])
    have pb: "path_before (c @ [x]) (c @ [y]) \<longleftrightarrow> x < y" by (induction c) auto
    from n(3) p q have "x \<noteq> y" by simp
    from siblings_after [of x y kids 0 c, OF this y] n p q pb show ?thesis
      by (simp add: sortOrder_walk_def parentNode_def)
  next
    case False
    obtain j x y where d: "discrepancy 0 (map (Pair 0) (prefixes_from [] p)) (map (Pair 0) (prefixes_from [] q)) = (j, x, y)"
      by (rule prod_cases3)
    from discrepancy_prefixes [of p q kids 0 "[]" 0] n assms(2) d
    have "j > 0" "siblingCheck kids x y = (if path_before p q then -1 else 1)" by simp_all
    with n False d show ?thesis by (simp add: sortOrder_walk_def parentNode_def ancestors_prefixes)
  qed
qed

section \<open>Sorting\<close>

lemma insert_by_cong: "\<forall>b \<in> set ys. c x b = c' x b \<Longrightarrow> insert_by c x ys = insert_by c' x ys"
  by (induction ys) auto

lemma sort_by_cong: "\<forall>a \<in> set xs. \<forall>b \<in> set xs. c a b = c' a b \<Longrightarrow> sort_by c xs = sort_by c' xs"
proof (induction xs)
  case (Cons x xs)
  then have "sort_by c xs = sort_by c' xs" by simp
  moreover have "set (sort_by c' xs) = set xs" using mset_sort_by [of c' xs] by (rule mset_eq_setD)
  ultimately show ?case using Cons.prems by (simp add: sort_by_def insert_by_cong)
qed (simp add: sort_by_def)

lemma drop_from:
  "foldr (\<lambda>k ys. JsPrelude.splice k 1 ys) (duplicates_loop (length pre) xs) (pre @ xs) = pre @ remdups_adj xs"
proof (induction xs arbitrary: pre rule: remdups_adj.induct)
  case (3 x y r)
  have i: "foldr (\<lambda>k ys. JsPrelude.splice k 1 ys) (duplicates_loop (Suc (length pre)) (y # r)) (pre @ x # y # r) =
      (pre @ [x]) @ remdups_adj (y # r)"
    using 3 [of "pre @ [x]"] by (cases "x = y") simp_all
  obtain t where t: "remdups_adj (y # r) = y # t" by (metis remdups_adj_Cons' )
  show ?case
  proof (cases "x = y")
    case True
    then show ?thesis using i t by (simp add: JsPrelude.splice_def)
  next
    case False
    then show ?thesis using i by simp
  qed
qed simp_all

lemma drop_duplicates_adj: "drop_duplicates xs = remdups_adj xs"
  using drop_from [of "[]" xs] by (simp add: drop_duplicates_def)

lemma distinct_remdups_adj_sorted:
  "sorted_wrt (\<lambda>a b. c a b \<le> 0) xs \<Longrightarrow> \<forall>a \<in> set xs. \<forall>b \<in> set xs. c a b \<le> (0::int) \<longrightarrow> c b a \<le> 0 \<longrightarrow> a = b \<Longrightarrow> distinct (remdups_adj xs)"
proof (induction xs rule: remdups_adj.induct)
  case (3 x y r)
  show ?case
  proof (cases "x = y")
    case False
    have "x \<notin> set r"
    proof
      assume "x \<in> set r"
      with 3(3) have "c y x \<le> 0" "c x y \<le> 0" by auto
      with bspec [OF bspec [OF 3(4)], of x y] False show False by simp
    qed
    moreover have "distinct (remdups_adj (y # r))" by (rule 3(2) [OF False]) (use 3(3) in simp, meson 3(4) list.set_intros(2))
    ultimately show ?thesis using False by simp
  next
    case True
    have "sorted_wrt (\<lambda>a b. c a b \<le> 0) (x # r)" using 3(3) by simp
    moreover have "\<forall>a \<in> set (x # r). \<forall>b \<in> set (x # r). c a b \<le> 0 \<longrightarrow> c b a \<le> 0 \<longrightarrow> a = b"
      by (rule ballI)+ (rule bspec [OF bspec [OF 3(4)]], auto)
    ultimately have "distinct (remdups_adj (x # r))" by (rule 3(1) [OF True])
    with True show ?thesis by simp
  qed
qed simp_all

lemma sorted_remdups_adj: "sorted_wrt R xs \<Longrightarrow> sorted_wrt R (remdups_adj xs)"
proof (induction xs)
  case (Cons x xs)
  then have s: "sorted_wrt R (remdups_adj xs)" "\<forall>y \<in> set xs. R x y" by simp_all
  show ?case
  proof (cases xs)
    case (Cons y r)
    show ?thesis
    proof (cases "x = y")
      case True
      with s(1) Cons show ?thesis by simp
    next
      case False
      then have "remdups_adj (x # xs) = x # remdups_adj xs" by (simp add: Cons)
      moreover have "\<forall>y \<in> set (remdups_adj xs). R x y" using s(2) by simp
      ultimately show ?thesis using s(1) by simp
    qed
  qed simp
qed simp

definition path_order :: "node \<Rightarrow> node \<Rightarrow> int" where
  "path_order a b = (if snd a = snd b then 0 else if path_before (snd a) (snd b) then -1 else 1)"

lemma path_order_le: "path_order a b \<le> 0 \<longleftrightarrow> snd a = snd b \<or> path_before (snd a) (snd b)"
  by (simp add: path_order_def)

lemma path_le_trans: "p = q \<or> path_before p q \<Longrightarrow> q = r \<or> path_before q r \<Longrightarrow> p = r \<or> path_before p r"
  by (auto intro: path_before_trans)

lemma cmp_ok_path: "cmp_ok path_order"
  unfolding cmp_ok_def path_order_le
proof (intro conjI allI impI)
  fix x y :: node
  show "(snd x = snd y \<or> path_before (snd x) (snd y)) \<or> snd y = snd x \<or> path_before (snd y) (snd x)"
    using path_before_total by blast
next
  fix x y z :: node
  assume "snd x = snd y \<or> path_before (snd x) (snd y)" "snd y = snd z \<or> path_before (snd y) (snd z)"
  then show "snd x = snd z \<or> path_before (snd x) (snd z)" by (rule path_le_trans)
qed

lemma sorted_wrt_distinct: "sorted_wrt R xs \<Longrightarrow> distinct xs \<Longrightarrow> sorted_wrt (\<lambda>a b. R a b \<and> a \<noteq> b) xs"
  by (induction xs) auto

text \<open>On nodes of the document the two comparison functions, the one that asks the browser and the one
  that walks the tree, agree: both give the order in which the nodes appear in the document.\<close>

theorem sort_orders_agree:
  assumes "in_tree kids a" "in_tree kids b" "fst a = 0" "fst b = 0"
  shows "sortOrder d s a b = sortOrder_walk kids s a b \<and>
    sortOrder d s a b = (if a = b then 0 else if path_before (snd a) (snd b) then -1 else 1)"
proof -
  obtain p q where "a = (0, p)" "b = (0, q)" using assms(3,4) by (metis prod.collapse)
  with assms(1,2) show ?thesis by (simp add: sortOrder_document walk_document)
qed

theorem sort_orders_agree_witness:
  "sortOrder True None (0, [0, 2]) (0, [0, 1, 3]) = sortOrder_walk (\<lambda>_. 4) None (0, [0, 2]) (0, [0, 1, 3]) \<and>
   sortOrder True None (0, [0, 2]) (0, [0, 1, 3]) = 1"
proof -
  have "in_tree (\<lambda>_. 4) (0, [0, 2])" "in_tree (\<lambda>_. 4) (0, [0, 1, 3])" by (auto simp: in_tree_def nth_Cons' )
  from sort_orders_agree [OF this, of True None] show ?thesis by simp
qed

lemma uniqueSort_document:
  assumes "list_all (\<lambda>a. fst a = 0) results"
  shows "set (uniqueSort (sortOrder d s) detect results) = set results \<and>
    sorted_wrt (\<lambda>a b. path_before (snd a) (snd b)) (uniqueSort (sortOrder d s) detect results)"
proof -
  let ?xs = "sort_by (sortOrder d s) results"
  have eq: "sortOrder d s a b = path_order a b" if "a \<in> set results" "b \<in> set results" for a b
    using assms that sortOrder_document [of d s "snd a" "snd b"]
    by (auto simp: list_all_iff path_order_def) (metis prod.collapse)+
  have xs: "?xs = sort_by path_order results" by (rule sort_by_cong) (use eq in blast)
  have set_xs: "set ?xs = set results" by (rule mset_eq_setD) (rule mset_sort_by)
  have sorted: "sorted_wrt (\<lambda>a b. path_order a b \<le> 0) ?xs" unfolding xs by (rule sorted_sort_by [OF cmp_ok_path])
  let ?u = "uniqueSort (sortOrder d s) detect results"
  have u: "?u = (if \<not> detect \<or> \<not> distinct results then remdups_adj ?xs else ?xs)"
    by (simp add: uniqueSort_def drop_duplicates_adj)
  have "set ?u = set results" by (simp add: u set_xs)
  moreover have "sorted_wrt (\<lambda>a b. path_order a b \<le> 0) ?u" using sorted sorted_remdups_adj by (auto simp: u)
  moreover have "distinct ?u"
  proof -
    have a: "a = b" if "a \<in> set ?xs" "b \<in> set ?xs" "path_order a b \<le> 0" "path_order b a \<le> 0" for a b
    proof -
      from that(3,4) have "snd a = snd b" unfolding path_order_le by (auto dest: path_before_asym)
      moreover have "fst a = 0" "fst b = 0" using that(1,2) assms by (simp_all add: set_xs list_all_iff)
      ultimately show ?thesis by (simp add: prod_eq_iff)
    qed
    have "distinct (remdups_adj ?xs)" by (rule distinct_remdups_adj_sorted [OF sorted]) (use a in blast)
    moreover have "distinct ?xs \<longleftrightarrow> distinct results" using mset_sort_by by (metis mset_eq_imp_distinct_iff)
    ultimately show ?thesis by (simp add: u)
  qed
  ultimately have s1: "sorted_wrt (\<lambda>a b. path_order a b \<le> 0 \<and> a \<noteq> b) ?u" and s2: "set ?u = set results"
    by (simp_all add: sorted_wrt_distinct)
  have "path_before (snd a) (snd b)" if "a \<in> set ?u" "b \<in> set ?u" "path_order a b \<le> 0 \<and> a \<noteq> b" for a b
    using that assms unfolding s2 path_order_le list_all_iff by (metis prod_eq_iff)
  with s1 have "sorted_wrt (\<lambda>a b. path_before (snd a) (snd b)) ?u"
    by (rule sorted_wrt_mono_rel [rotated])
  with s2 show ?thesis by blast
qed

text \<open>\<open>uniqueSort\<close> returns the nodes it is given, each once, in document order.\<close>

theorem uniqueSort_correct:
  assumes "list_all (\<lambda>a. fst a = 0) results"
  shows "set (uniqueSort (sortOrder d s) detect results) = set results \<and>
    sorted_wrt (\<lambda>a b. path_before (snd a) (snd b)) (uniqueSort (sortOrder d s) detect results)"
  using assms by (rule uniqueSort_document)

theorem uniqueSort_correct_witness:
  "uniqueSort (sortOrder True None) True [(0, [1]), (0, [0, 2]), (0, [1]), (0, [0])] = [(0, [0]), (0, [0, 2]), (0, [1])] \<and>
   sorted_wrt (\<lambda>a b. path_before (snd a) (snd b)) (uniqueSort (sortOrder True None) True [(0, [1]), (0, [0, 2]), (0, [1]), (0, [0])])"
proof
  have "list_all (\<lambda>a. fst a = 0) [(0, [1]), (0, [0, 2]), (0, [1]), (0, [0]) :: node]" by simp
  from uniqueSort_correct [OF this, of True None True]
  show "sorted_wrt (\<lambda>a b. path_before (snd a) (snd b)) (uniqueSort (sortOrder True None) True [(0, [1]), (0, [0, 2]), (0, [1]), (0, [0])])"
    by blast
qed code_simp

end
