(* ===== verification/JqTraverse.thy ===== *)
theory JqTraverse
  imports JqSort
begin

text \<open>
  Filtering and traversing (\<open>jquery-3.5.1.js\<close>, lines 2992 to 3018, 3035 to 3117 and 3239 to 3417): the sets of nodes
  that \<open>filter\<close>, \<open>not\<close>, \<open>is\<close>, \<open>find\<close>, \<open>has\<close>, \<open>closest\<close>, \<open>index\<close>, \<open>add\<close> and the methods that walk along
  parents, siblings and children return.  A set is the list of its nodes; what the selector engine finds for a
  selector is a parameter, as are the documents of frames and the contents of templates.
\<close>

section \<open>The tree and its walks\<close>

record host =
  kids :: "node \<Rightarrow> nat"
  ntype :: "node \<Rightarrow> nat"
  matchesSelector :: "node \<Rightarrow> ustr \<Rightarrow> bool"
  find_matches :: "ustr \<Rightarrow> node list \<Rightarrow> node list"
  find_in :: "ustr \<Rightarrow> node \<Rightarrow> node list"
  find_top :: "ustr \<Rightarrow> node list"
  find_under :: "ustr \<Rightarrow> node list \<Rightarrow> node list"
  needsContext :: "ustr \<Rightarrow> bool"
  contentDocument :: "node \<Rightarrow> node option"
  template_content :: "node \<Rightarrow> node option"
  sortDetached :: bool
  sortStable :: bool
  detectDuplicates :: bool

datatype way = WParent | WNext | WPrev

fun go :: "host \<Rightarrow> way \<Rightarrow> node \<Rightarrow> node option" where
  "go h WParent n = parentNode n"
| "go h WNext n = (if snd n = [] \<or> Suc (last (snd n)) \<ge> kids h (fst n, butlast (snd n)) then None
     else Some (fst n, butlast (snd n) @ [Suc (last (snd n))]))"
| "go h WPrev n = (if snd n = [] \<or> last (snd n) = 0 then None
     else Some (fst n, butlast (snd n) @ [last (snd n) - 1]))"

definition firstChild :: "host \<Rightarrow> node \<Rightarrow> node option" where
  "firstChild h n = (if kids h n = 0 then None else Some (fst n, snd n @ [0]))"

definition childNodes :: "host \<Rightarrow> node \<Rightarrow> node list" where
  "childNodes h n = map (\<lambda>k. (fst n, snd n @ [k])) [0..<kids h n]"

fun way_rank :: "host \<Rightarrow> way \<Rightarrow> node \<Rightarrow> nat" where
  "way_rank h WParent n = length (snd n)"
| "way_rank h WNext n = kids h (fst n, butlast (snd n)) - last (snd n)"
| "way_rank h WPrev n = last (snd n)"

lemma go_rank: "go h w n = Some m \<Longrightarrow> way_rank h w m < way_rank h w n"
  by (cases w) (auto simp: parentNode_def split: if_splits)

text \<open>The nodes of the loop \<open>while ( elem = elem[ dir ] )\<close>.\<close>

function beyond :: "host \<Rightarrow> way \<Rightarrow> node \<Rightarrow> node list" where
  "beyond h w n = (case go h w n of None \<Rightarrow> [] | Some m \<Rightarrow> m # beyond h w m)"
  by pat_completeness auto
termination
  by (relation "measure (\<lambda>(h, w, n). way_rank h w n)") (simp_all add: go_rank)

declare beyond.simps [simp del]

text \<open>\<open>jQuery.uniqueSort\<close>; the input is kept for the order of detached nodes when sorting is not stable.\<close>

definition sorted_unique :: "host \<Rightarrow> node list \<Rightarrow> node list" where
  "sorted_unique h xs =
    uniqueSort (sortOrder (sortDetached h) (if sortStable h then None else Some xs)) (detectDuplicates h) xs"

section \<open>Filtering\<close>

datatype qualifier = QFun "nat \<Rightarrow> node \<Rightarrow> bool" | QNode node | QList "node list" | QStr ustr

definition grep_indexed :: "(nat \<Rightarrow> node \<Rightarrow> bool) \<Rightarrow> node list \<Rightarrow> node list" where
  "grep_indexed p xs = map snd (filter (\<lambda>(i, x). p i x) (zip [0..<length xs] xs))"

definition jq_filter :: "host \<Rightarrow> ustr \<Rightarrow> node list \<Rightarrow> bool \<Rightarrow> node list" where
  "jq_filter h expr elems negate =
    (let expr = (if negate then u '':not('' @ expr @ u '')'' else expr)
     in case elems of
          [elem] \<Rightarrow> if ntype h elem = 1 then (if matchesSelector h elem expr then [elem] else [])
                    else find_matches h expr []
        | _ \<Rightarrow> find_matches h expr (filter (\<lambda>e. ntype h e = 1) elems))"

definition winnow :: "host \<Rightarrow> node list \<Rightarrow> qualifier \<Rightarrow> bool \<Rightarrow> node list" where
  "winnow h elements qualifier negate = (case qualifier of
     QFun p \<Rightarrow> grep_indexed (\<lambda>i e. p i e \<noteq> negate) elements
   | QNode n \<Rightarrow> grep_indexed (\<lambda>i e. (e = n) \<noteq> negate) elements
   | QList ns \<Rightarrow> grep_indexed (\<lambda>i e. (e \<in> set ns) \<noteq> negate) elements
   | QStr s \<Rightarrow> jq_filter h s elements negate)"

text \<open>\<open>selector || []\<close>\<close>

definition or_none :: "qualifier \<Rightarrow> qualifier" where
  "or_none q = (case q of QStr s \<Rightarrow> if s = [] then QList [] else q | _ \<Rightarrow> q)"

definition fn_filter :: "host \<Rightarrow> qualifier \<Rightarrow> node list \<Rightarrow> node list" where
  "fn_filter h q self = winnow h self (or_none q) False"

definition fn_not :: "host \<Rightarrow> qualifier \<Rightarrow> node list \<Rightarrow> node list" where
  "fn_not h q self = winnow h self (or_none q) True"

definition fn_is :: "host \<Rightarrow> qualifier \<Rightarrow> node list \<Rightarrow> bool" where
  "fn_is h q self = (winnow h self (case q of
       QStr s \<Rightarrow> if needsContext h s then QList (find_top h s) else or_none q
     | _ \<Rightarrow> q) False \<noteq> [])"

text \<open>\<open>jQuery.contains\<close>: a proper descendant.\<close>

definition inside :: "node \<Rightarrow> node \<Rightarrow> bool" where
  "inside a b \<longleftrightarrow> fst a = fst b \<and> strict_prefix (snd a) (snd b)"

definition as_set :: "host \<Rightarrow> ustr + node list \<Rightarrow> node list" where
  "as_set h s = (case s of Inl t \<Rightarrow> find_top h t | Inr ns \<Rightarrow> ns)"

definition fn_find :: "host \<Rightarrow> ustr + node list \<Rightarrow> node list \<Rightarrow> node list" where
  "fn_find h selector self = (case selector of
     Inr ns \<Rightarrow> filter (\<lambda>x. \<exists>c \<in> set self. inside c x) ns
   | Inl s \<Rightarrow> (let ret = concat (map (find_in h s) self) in if length self > 1 then sorted_unique h ret else ret))"

definition fn_has :: "host \<Rightarrow> ustr + node list \<Rightarrow> node list \<Rightarrow> node list" where
  "fn_has h target self = (let targets = (case target of Inl s \<Rightarrow> find_under h s self | Inr ns \<Rightarrow> ns)
     in filter (\<lambda>e. \<exists>t \<in> set targets. inside e t) self)"

section \<open>Walking\<close>

fun dir_loop :: "host \<Rightarrow> qualifier option \<Rightarrow> node list \<Rightarrow> node list" where
  "dir_loop h until [] = []"
| "dir_loop h until (x # xs) =
    (if ntype h x = 9 then []
     else if ntype h x = 1
     then (case until of
         Some q \<Rightarrow> if fn_is h q [x] then [] else x # dir_loop h until xs
       | None \<Rightarrow> x # dir_loop h until xs)
     else dir_loop h until xs)"

definition dir_walk :: "host \<Rightarrow> way \<Rightarrow> qualifier option \<Rightarrow> node \<Rightarrow> node list" where
  "dir_walk h w until elem = dir_loop h until (beyond h w elem)"

definition siblings_from :: "host \<Rightarrow> node option \<Rightarrow> node option \<Rightarrow> node list" where
  "siblings_from h n elem = (case n of None \<Rightarrow> []
     | Some x \<Rightarrow> filter (\<lambda>e. ntype h e = 1 \<and> Some e \<noteq> elem) (x # beyond h WNext x))"

definition sibling_elem :: "host \<Rightarrow> way \<Rightarrow> node \<Rightarrow> node option" where
  "sibling_elem h w cur = find (\<lambda>e. ntype h e = 1) (beyond h w cur)"

datatype traversal = Parent | Parents | ParentsUntil | Next | Prev | NextAll | PrevAll | NextUntil | PrevUntil
  | Siblings | Children | Contents

definition opt_list :: "node option \<Rightarrow> node list" where
  "opt_list x = (case x of None \<Rightarrow> [] | Some n \<Rightarrow> [n])"

fun walk_one :: "host \<Rightarrow> traversal \<Rightarrow> qualifier option \<Rightarrow> node \<Rightarrow> node list" where
  "walk_one h Parent until e = (case parentNode e of None \<Rightarrow> [] | Some p \<Rightarrow> if ntype h p \<noteq> 11 then [p] else [])"
| "walk_one h Parents until e = dir_walk h WParent None e"
| "walk_one h ParentsUntil until e = dir_walk h WParent until e"
| "walk_one h Next until e = opt_list (sibling_elem h WNext e)"
| "walk_one h Prev until e = opt_list (sibling_elem h WPrev e)"
| "walk_one h NextAll until e = dir_walk h WNext None e"
| "walk_one h PrevAll until e = dir_walk h WPrev None e"
| "walk_one h NextUntil until e = dir_walk h WNext until e"
| "walk_one h PrevUntil until e = dir_walk h WPrev until e"
| "walk_one h Siblings until e = siblings_from h (Option.bind (parentNode e) (firstChild h)) (Some e)"
| "walk_one h Children until e = siblings_from h (firstChild h e) None"
| "walk_one h Contents until e = (case contentDocument h e of Some d \<Rightarrow> [d]
     | None \<Rightarrow> childNodes h (case template_content h e of Some c \<Rightarrow> c | None \<Rightarrow> e))"

definition ends_until :: "traversal \<Rightarrow> bool" where
  "ends_until m \<longleftrightarrow> m \<in> {ParentsUntil, NextUntil, PrevUntil}"

definition guaranteedUnique :: "traversal \<Rightarrow> bool" where
  "guaranteedUnique m \<longleftrightarrow> m \<in> {Children, Contents, Next, Prev}"

definition rparentsprev :: "traversal \<Rightarrow> bool" where
  "rparentsprev m \<longleftrightarrow> m \<in> {Parents, ParentsUntil, PrevUntil, PrevAll}"

text \<open>A method with its arguments; the selector of a method without \<open>Until\<close> is its first argument.\<close>

definition walk_method :: "host \<Rightarrow> traversal \<Rightarrow> qualifier option \<Rightarrow> qualifier option \<Rightarrow> node list \<Rightarrow> node list" where
  "walk_method h m until selector self =
    (let matched = concat (map (walk_one h m until) self);
         selector = (if ends_until m then selector else until);
         matched = (case selector of Some (QStr s) \<Rightarrow> if s \<noteq> [] then jq_filter h s matched False else matched | _ \<Rightarrow> matched);
         sorted = (if guaranteedUnique m then matched else sorted_unique h matched);
         reversed = (if rparentsprev m then rev sorted else sorted)
     in if length self > 1 then reversed else matched)"

section \<open>Closest, index, add\<close>

fun closest_loop :: "host \<Rightarrow> (node \<Rightarrow> bool) \<Rightarrow> node option \<Rightarrow> node list \<Rightarrow> node option" where
  "closest_loop h ok context' [] = None"
| "closest_loop h ok context' (cur # up) =
    (if Some cur = context' then None
     else if ntype h cur < 11 \<and> ok cur then Some cur else closest_loop h ok context' up)"

definition fn_closest :: "host \<Rightarrow> ustr + node list \<Rightarrow> node option \<Rightarrow> node list \<Rightarrow> node list" where
  "fn_closest h selectors context' self =
    (let ok = (case selectors of Inr targets \<Rightarrow> (\<lambda>cur. cur \<in> set targets)
           | Inl s \<Rightarrow> (\<lambda>cur. ntype h cur = 1 \<and> matchesSelector h cur s));
         positional = (case selectors of Inl s \<Rightarrow> needsContext h s | Inr _ \<Rightarrow> False);
         matched = (if positional then []
           else concat (map (\<lambda>e. opt_list (closest_loop h ok context' (e # beyond h WParent e))) self))
     in if length matched > 1 then sorted_unique h matched else matched)"

definition index_in :: "node \<Rightarrow> node list \<Rightarrow> int" where
  "index_in x xs = (case arr_index x xs of None \<Rightarrow> -1 | Some i \<Rightarrow> int i)"

definition fn_index :: "host \<Rightarrow> (ustr + node) option \<Rightarrow> node list \<Rightarrow> int" where
  "fn_index h elem self = (case (if elem = Some (Inl []) then None else elem) of
     None \<Rightarrow> (case self of [] \<Rightarrow> -1
       | e # _ \<Rightarrow> if parentNode e = None then -1 else int (length (walk_method h PrevAll None None [e])))
   | Some (Inl s) \<Rightarrow> (case self of [] \<Rightarrow> -1 | e # _ \<Rightarrow> index_in e (find_top h s))
   | Some (Inr n) \<Rightarrow> index_in n self)"

definition fn_add :: "host \<Rightarrow> ustr + node list \<Rightarrow> node list \<Rightarrow> node list" where
  "fn_add h selector self = sorted_unique h (self @ as_set h selector)"

definition fn_addBack :: "host \<Rightarrow> ustr option \<Rightarrow> node list \<Rightarrow> node list \<Rightarrow> node list" where
  "fn_addBack h selector prevObject self =
    fn_add h (Inr (case selector of None \<Rightarrow> prevObject | Some s \<Rightarrow> fn_filter h (QStr s) prevObject)) self"

section \<open>What the walks return\<close>

lemma beyond_parent: "beyond h WParent (t, p) = map (\<lambda>i. (t, take i p)) (rev [0..<length p])"
proof (induction p rule: rev_induct)
  case (snoc x p)
  have "beyond h WParent (t, p @ [x]) = (t, p) # beyond h WParent (t, p)"
    by (subst beyond.simps) (simp add: parentNode_def)
  with snoc show ?case by simp
qed (subst beyond.simps, simp add: parentNode_def)

lemma beyond_prev: "beyond h WPrev (t, p @ [k]) = map (\<lambda>j. (t, p @ [j])) (rev [0..<k])"
  by (induction k) (subst beyond.simps, simp)+

lemma beyond_next: "beyond h WNext (t, p @ [k]) = map (\<lambda>j. (t, p @ [j])) [Suc k..<kids h (t, p)]"
proof (induction "kids h (t, p) - k" arbitrary: k)
  case 0
  then show ?case by (subst beyond.simps) simp
next
  case (Suc n)
  show ?case
  proof (cases "Suc k < kids h (t, p)")
    case True
    with Suc.hyps(1) [of "Suc k"] Suc.hyps(2) show ?thesis
      by (subst beyond.simps) (simp add: upt_conv_Cons)
  qed (subst beyond.simps, simp)
qed

definition element :: "host \<Rightarrow> node \<Rightarrow> bool" where
  "element h x \<longleftrightarrow> ntype h x = 1"

lemma element_eq: "element h = (\<lambda>x. ntype h x = 1)"
  by (simp add: element_def fun_eq_iff)

lemma dir_walk_sides:
  assumes "\<forall>x. ntype h x = 9 \<longrightarrow> snd x = []"
  shows "dir_walk h WPrev None (t, p @ [k]) = filter (element h) (map (\<lambda>j. (t, p @ [j])) (rev [0..<k]))"
    "dir_walk h WNext None (t, p @ [k]) = filter (element h) (map (\<lambda>j. (t, p @ [j])) [Suc k..<kids h (t, p)])"
proof -
  have "dir_loop h None xs = filter (element h) xs" if "\<forall>x \<in> set xs. snd x \<noteq> []" for xs
    using that assms unfolding element_eq by (induction xs) auto
  then show "dir_walk h WPrev None (t, p @ [k]) = filter (element h) (map (\<lambda>j. (t, p @ [j])) (rev [0..<k]))"
    "dir_walk h WNext None (t, p @ [k]) = filter (element h) (map (\<lambda>j. (t, p @ [j])) [Suc k..<kids h (t, p)])"
    by (simp_all add: dir_walk_def beyond_prev beyond_next)
qed

lemma dir_walk_parents:
  assumes "\<forall>x. ntype h x = 9 \<longrightarrow> snd x = []"
  shows "dir_walk h WParent None (t, p) = filter (element h) (map (\<lambda>i. (t, take i p)) (rev [0..<length p]))"
proof -
  have "dir_loop h None (xs @ [x]) = filter (element h) (xs @ [x])" if "\<forall>x \<in> set xs. snd x \<noteq> []" for xs x
    using that assms unfolding element_eq by (induction xs) auto
  moreover have "rev [0..<length p] = rev [1..<length p] @ [0]" if "p \<noteq> []"
    using that by (simp add: upt_conv_Cons)
  moreover have "\<forall>x \<in> set (map (\<lambda>i. (t, take i p)) (rev [1..<length p])). snd x \<noteq> []" by auto
  ultimately show ?thesis
    by (cases "p = []") (simp_all add: dir_walk_def beyond_parent)
qed

text \<open>From one node, \<open>parents\<close> returns its ancestor elements from the nearest on, \<open>prevAll\<close> the elements before it
  among its siblings from the nearest on, \<open>nextAll\<close> those after it, \<open>siblings\<close> both in document order, and
  \<open>children\<close> its child elements.\<close>

theorem walks_exact:
  assumes "\<forall>x. ntype h x = 9 \<longrightarrow> snd x = []" "k < kids h (t, p)"
  shows "walk_method h Parents None None [(t, p)] = filter (element h) (map (\<lambda>i. (t, take i p)) (rev [0..<length p])) \<and>
    walk_method h PrevAll None None [(t, p @ [k])] = filter (element h) (map (\<lambda>j. (t, p @ [j])) (rev [0..<k])) \<and>
    walk_method h NextAll None None [(t, p @ [k])] = filter (element h) (map (\<lambda>j. (t, p @ [j])) [Suc k..<kids h (t, p)]) \<and>
    walk_method h Siblings None None [(t, p @ [k])] = filter (\<lambda>x. element h x \<and> x \<noteq> (t, p @ [k])) (childNodes h (t, p)) \<and>
    walk_method h Children None None [(t, p)] = filter (element h) (childNodes h (t, p))"
proof -
  have kids: "(t, p @ [0]) # beyond h WNext (t, p @ [0]) = childNodes h (t, p)"
    using assms(2) by (simp add: beyond_next childNodes_def upt_conv_Cons)
  have "siblings_from h (firstChild h (t, p)) e = filter (\<lambda>x. element h x \<and> Some x \<noteq> e) (childNodes h (t, p))" for e
    using assms(2) kids by (simp add: siblings_from_def firstChild_def element_eq)
  moreover have "parentNode (t, p @ [k]) = Some (t, p)" by (simp add: parentNode_def)
  ultimately show ?thesis
    using dir_walk_parents [OF assms(1)] dir_walk_sides [OF assms(1)]
    by (simp add: walk_method_def Let_def ends_until_def element_eq)
qed

text \<open>Walks stay in the tree of the node.\<close>

lemma beyond_tree: "x \<in> set (beyond h w n) \<Longrightarrow> fst x = fst n"
proof (induction h w n rule: beyond.induct)
  case (1 h w n)
  have "fst m = fst n" if "go h w n = Some m" for m
    using that by (cases w) (auto simp: parentNode_def split: if_splits)
  moreover obtain m where "go h w n = Some m" "x = m \<or> x \<in> set (beyond h w m)"
    using "1.prems" by (cases "go h w n") (simp_all add: beyond.simps [of h w n])
  ultimately show ?case using "1.IH" by metis
qed

lemma dir_walk_tree: "x \<in> set (dir_walk h w until n) \<Longrightarrow> fst x = fst n"
proof -
  have "set (dir_loop h until xs) \<subseteq> set xs" for xs by (induction xs) (auto split: option.splits)
  then show "x \<in> set (dir_walk h w until n) \<Longrightarrow> fst x = fst n" using beyond_tree unfolding dir_walk_def by blast
qed

lemma siblings_from_tree: "x \<in> set (siblings_from h (Some c) e) \<Longrightarrow> fst x = fst c"
  by (auto simp: siblings_from_def dest: beyond_tree split: if_splits)

lemma walk_one_tree: "\<not> guaranteedUnique m \<Longrightarrow> x \<in> set (walk_one h m until e) \<Longrightarrow> fst x = fst e"
proof -
  assume m: "\<not> guaranteedUnique m" and x: "x \<in> set (walk_one h m until e)"
  have "m = Parent \<or> m = Siblings \<or> (\<exists>w q. walk_one h m until e = dir_walk h w q e)"
    using m by (cases m) (simp_all add: guaranteedUnique_def, blast+)
  then consider "m = Parent" | "m = Siblings" | w q where "walk_one h m until e = dir_walk h w q e" by blast
  then show ?thesis
  proof cases
    case 1
    with x show ?thesis by (auto simp: parentNode_def split: option.splits if_splits)
  next
    case 2
    with x have "x \<in> set (siblings_from h (Option.bind (parentNode e) (firstChild h)) (Some e))" by simp
    then obtain c where c: "Option.bind (parentNode e) (firstChild h) = Some c" "x \<in> set (siblings_from h (Some c) (Some e))"
      by (cases "Option.bind (parentNode e) (firstChild h)") (simp_all add: siblings_from_def)
    then have "fst c = fst e" by (auto simp: bind_eq_Some_conv parentNode_def firstChild_def split: if_splits)
    with siblings_from_tree [OF c(2)] show ?thesis by simp
  next
    case (3 w q)
    with x show ?thesis using dir_walk_tree by metis
  qed
qed

text \<open>From several nodes of the document a method returns every node it reaches from one of them, once, in document
  order, and in reverse document order for the methods that go up or back.\<close>

theorem walks_ordered:
  assumes "length self > 1" "list_all (\<lambda>e. fst e = 0) self" "\<not> guaranteedUnique m" "ends_until m \<or> until = None"
  shows "set (walk_method h m until None self) = (\<Union>e \<in> set self. set (walk_one h m until e)) \<and>
    sorted_wrt (\<lambda>a b. if rparentsprev m then path_before (snd b) (snd a) else path_before (snd a) (snd b))
      (walk_method h m until None self)"
proof -
  let ?xs = "concat (map (walk_one h m until) self)"
  have "list_all (\<lambda>a. fst a = 0) ?xs"
    using assms(2,3) walk_one_tree by (fastforce simp: list_all_iff)
  note u = uniqueSort_document [OF this, of "sortDetached h" "if sortStable h then None else Some ?xs" "detectDuplicates h"]
  have w: "walk_method h m until None self = (if rparentsprev m then rev (sorted_unique h ?xs) else sorted_unique h ?xs)"
    using assms(1,3,4) by (auto simp: walk_method_def Let_def)
  show ?thesis
    using u by (simp add: w sorted_unique_def sorted_wrt_rev)
qed

text \<open>A page of four elements below the document: a list with three items.\<close>

definition sample_host :: host where
  "sample_host = \<lparr> kids = (\<lambda>n. if n = document then 1 else if n = (0, [0]) then 3 else 0),
     ntype = (\<lambda>n. if n = document then 9 else 1), matchesSelector = (\<lambda>n s. True), find_matches = (\<lambda>s ns. ns),
     find_in = (\<lambda>s n. []), find_top = (\<lambda>s. []), find_under = (\<lambda>s ns. []), needsContext = (\<lambda>s. False),
     contentDocument = (\<lambda>n. None), template_content = (\<lambda>n. None), sortDetached = True, sortStable = True, detectDuplicates = True \<rparr>"

lemma walks_exact_witness:
  "walk_method sample_host PrevAll None None [(0, [0, 2])] = [(0, [0, 1]), (0, [0, 0])] \<and>
   walk_method sample_host Parents None None [(0, [0])] = []"
proof -
  have h: "\<forall>x. ntype sample_host x = 9 \<longrightarrow> snd x = []" "2 < kids sample_host (0, [0])"
    by (auto simp: sample_host_def document_def)
  have e: "element sample_host (0, [0, j])" "\<not> element sample_host (0, [])" for j
    by (simp_all add: element_def sample_host_def document_def)
  have "[0..<Suc (Suc 0)] = [0, Suc 0]" by simp
  then show ?thesis using walks_exact [OF h] e by (simp add: numeral_2_eq_2)
qed

lemma walks_ordered_witness:
  "sorted_wrt (\<lambda>a b. path_before (snd b) (snd a)) (walk_method sample_host PrevAll None None [(0, [0, 1]), (0, [0, 2])]) \<and>
   walk_method sample_host PrevAll None None [(0, [0, 1]), (0, [0, 2])] = [(0, [0, 1]), (0, [0, 0])]"
proof
  show "sorted_wrt (\<lambda>a b. path_before (snd b) (snd a)) (walk_method sample_host PrevAll None None [(0, [0, 1]), (0, [0, 2])])"
    using walks_ordered [of "[(0, [0, 1]), (0, [0, 2])]" PrevAll None sample_host]
    by (simp add: guaranteedUnique_def rparentsprev_def)
qed code_simp

end
