(* ===== verification/JqEffects.thy ===== *)
theory JqEffects
  imports JsPrelude
begin

text \<open>
  The clock of the animations (\<open>jquery-3.5.1.js\<close>, lines 7264 to 7287, 7533 to 7618, 7647 to 7655, 7698 to 7724, 7804 to
  7819 and 7889 to 7928): the list of timers, the tick of one animation, stopping, and the tick of all.  An
  animation is given by its start, its duration, the number of its tweens, its element and its queue; what a
  tween does to a style is the browser's and appears as an event.  The callbacks of a conclusion are a
  parameter: the animations they start, as the function that moves the element's queue on does.  Times are
  whole milliseconds, for which \<open>1 - remaining / duration < 1\<close> holds exactly when time remains.
\<close>

section \<open>State\<close>

datatype conclusion = Pending | Resolved | Rejected

record anim =
  an_elem :: nat
  an_queue :: "ustr option"
  startTime :: int
  duration :: int
  tweens :: nat
  stopped :: bool
  concl :: conclusion

datatype fx_event = Run nat nat int int | Progress nat int | Concluded nat bool

record fx_world =
  timers :: "nat list"
  anims :: "anim list"
  inProgress :: bool
  fx_trace :: "fx_event list"

text \<open>The animations started by a conclusion: element, queue, duration and number of tweens.\<close>

type_synonym starter = "nat \<Rightarrow> bool \<Rightarrow> (nat \<times> ustr option \<times> int \<times> nat) list"

section \<open>Operations\<close>

definition fx_emit :: "fx_event list \<Rightarrow> fx_world \<Rightarrow> fx_world" where
  "fx_emit es w = w \<lparr> fx_trace := fx_trace w @ es \<rparr>"

definition upd_anim :: "nat \<Rightarrow> (anim \<Rightarrow> anim) \<Rightarrow> fx_world \<Rightarrow> fx_world" where
  "upd_anim i f w = w \<lparr> anims := (anims w)[i := f (anims w ! i)] \<rparr>"

text \<open>\<open>Animation\<close> with \<open>jQuery.fx.timer\<close> while the clock runs, as it does during a tick and while there are timers.\<close>

definition start_animation :: "int \<Rightarrow> nat \<times> ustr option \<times> int \<times> nat \<Rightarrow> fx_world \<Rightarrow> fx_world" where
  "start_animation now p w = (case p of (elem, queue, dur, n) \<Rightarrow>
     w \<lparr> anims := anims w @ [\<lparr> an_elem = elem, an_queue = queue, startTime = now, duration = dur, tweens = n,
           stopped = False, concl = Pending \<rparr>],
         timers := timers w @ [length (anims w)], inProgress := True \<rparr>)"

text \<open>\<open>resolveWith\<close> or \<open>rejectWith\<close>: the first one counts.\<close>

definition conclude :: "starter \<Rightarrow> int \<Rightarrow> nat \<Rightarrow> bool \<Rightarrow> fx_world \<Rightarrow> fx_world" where
  "conclude starts now i ok w =
    (if concl (anims w ! i) = Pending
     then fold (start_animation now) (starts i ok)
            (fx_emit [Concluded i ok] (upd_anim i (\<lambda>a. a \<lparr> concl := if ok then Resolved else Rejected \<rparr>) w))
     else w)"

definition run_tweens :: "nat \<Rightarrow> int \<Rightarrow> int \<Rightarrow> fx_world \<Rightarrow> fx_world" where
  "run_tweens i remaining dur w = fx_emit (map (\<lambda>k. Run i k remaining dur) [0..<tweens (anims w ! i)]) w"

text \<open>\<open>notifyWith\<close> does nothing once the animation has concluded.\<close>

definition notify :: "nat \<Rightarrow> int \<Rightarrow> fx_world \<Rightarrow> fx_world" where
  "notify i remaining w = (if concl (anims w ! i) = Pending then fx_emit [Progress i remaining] w else w)"

text \<open>\<open>tick\<close>: whether the timer goes on.\<close>

definition anim_tick :: "starter \<Rightarrow> int \<Rightarrow> nat \<Rightarrow> fx_world \<Rightarrow> bool \<times> fx_world" where
  "anim_tick starts now i w =
    (let a = anims w ! i
     in if stopped a then (False, w)
        else let remaining = max 0 (startTime a + duration a - now);
                 w = notify i remaining (run_tweens i remaining (duration a) w)
             in if remaining > 0 \<and> tweens a \<noteq> 0 then (True, w)
                else let w = (if tweens a = 0 then notify i 0 w else w)
                     in (False, conclude starts now i True w))"

text \<open>\<open>animation.stop\<close>\<close>

definition anim_stop :: "starter \<Rightarrow> int \<Rightarrow> nat \<Rightarrow> bool \<Rightarrow> fx_world \<Rightarrow> fx_world" where
  "anim_stop starts now i gotoEnd w =
    (if stopped (anims w ! i) then w
     else let w = upd_anim i (\<lambda>a. a \<lparr> stopped := True \<rparr>) w
          in if gotoEnd then conclude starts now i True (notify i 0 (run_tweens i 0 (duration (anims w ! i)) w))
             else conclude starts now i False w)"

text \<open>The loops over the timers in \<open>.stop\<close> and \<open>.finish\<close>, from the last to the first; the first result tells
  whether none was stopped.  A conclusion deletes the timer's element, so that it is not found.\<close>

fun stop_timers :: "starter \<Rightarrow> int \<Rightarrow> nat \<Rightarrow> ustr option option \<Rightarrow> bool \<Rightarrow> nat \<Rightarrow> bool \<Rightarrow> fx_world \<Rightarrow> bool \<times> fx_world" where
  "stop_timers starts now elem type gotoEnd 0 none w = (none, w)"
| "stop_timers starts now elem type gotoEnd (Suc index) none w =
    (let i = timers w ! index
     in if concl (anims w ! i) = Pending \<and> an_elem (anims w ! i) = elem \<and> (type = None \<or> type = Some (an_queue (anims w ! i)))
        then let w = anim_stop starts now i gotoEnd w
             in stop_timers starts now elem type gotoEnd index False (w \<lparr> timers := splice index 1 (timers w) \<rparr>)
        else stop_timers starts now elem type gotoEnd index none w)"

definition fx_stop_elem :: "starter \<Rightarrow> int \<Rightarrow> nat \<Rightarrow> ustr option option \<Rightarrow> bool \<Rightarrow> fx_world \<Rightarrow> bool \<times> fx_world" where
  "fx_stop_elem starts now elem type gotoEnd w =
    (case stop_timers starts now elem type gotoEnd (length (timers w)) True w of
       (dequeue, w) \<Rightarrow> (dequeue \<or> \<not> gotoEnd, w))"

text \<open>\<open>jQuery.fx.tick\<close>; the loop reads the length of the list in every turn.\<close>

primrec fx_loop :: "nat \<Rightarrow> starter \<Rightarrow> int \<Rightarrow> nat \<Rightarrow> fx_world \<Rightarrow> fx_world option" where
  "fx_loop 0 starts now k w = None"
| "fx_loop (Suc n) starts now k w =
    (if k \<ge> length (timers w) then Some w
     else let i = timers w ! k
          in case anim_tick starts now i w of (goes_on, w) \<Rightarrow>
            if \<not> goes_on \<and> k < length (timers w) \<and> timers w ! k = i
            then fx_loop n starts now k (w \<lparr> timers := splice k 1 (timers w) \<rparr>)
            else fx_loop n starts now (Suc k) w)"

definition fx_tick :: "nat \<Rightarrow> starter \<Rightarrow> int \<Rightarrow> fx_world \<Rightarrow> fx_world option" where
  "fx_tick n starts now w = map_option (\<lambda>w. if timers w = [] then w \<lparr> inProgress := False \<rparr> else w) (fx_loop n starts now 0 w)"

text \<open>\<open>schedule\<close>: a frame of the browser.\<close>

definition schedule :: "nat \<Rightarrow> starter \<Rightarrow> int \<Rightarrow> fx_world \<Rightarrow> fx_world option" where
  "schedule n starts now w = (if inProgress w then fx_tick n starts now w else Some w)"

text \<open>\<open>Animation\<close> with \<open>jQuery.fx.timer\<close> at any time: starting the clock makes a tick at once.\<close>

definition begin_animation :: "nat \<Rightarrow> starter \<Rightarrow> int \<Rightarrow> nat \<times> ustr option \<times> int \<times> nat \<Rightarrow> fx_world \<Rightarrow> fx_world option" where
  "begin_animation n starts now p w =
    (if inProgress w then Some (start_animation now p w) else schedule n starts now (start_animation now p w))"

section \<open>Speeds\<close>

datatype speed_arg = SNum int | SName ustr | SNone

definition fx_duration :: "bool \<Rightarrow> speed_arg \<Rightarrow> int" where
  "fx_duration off s =
    (if off then 0 else case s of SNum n \<Rightarrow> n
      | SName t \<Rightarrow> if t = u ''slow'' then 600 else if t = u ''fast'' then 200 else 400
      | SNone \<Rightarrow> 400)"

datatype queue_arg = QNone | QBool bool | QName ustr

text \<open>\<open>opt.queue\<close>: without a queue, or with \<open>true\<close>, the queue of the effects; \<open>None\<close> is \<open>false\<close>.\<close>

definition fx_queue :: "queue_arg \<Rightarrow> ustr option" where
  "fx_queue q = (case q of QNone \<Rightarrow> Some (u ''fx'') | QBool b \<Rightarrow> if b then Some (u ''fx'') else None | QName t \<Rightarrow> Some t)"

section \<open>What a tick does\<close>

definition due :: "int \<Rightarrow> anim \<Rightarrow> bool" where
  "due now a \<longleftrightarrow> tweens a = 0 \<or> startTime a + duration a \<le> now"

text \<open>Between ticks: the timers are different animations that have not concluded.\<close>

definition timers_ok :: "fx_world \<Rightarrow> bool" where
  "timers_ok w \<longleftrightarrow> distinct (timers w) \<and>
    (\<forall>i \<in> set (timers w). i < length (anims w) \<and> \<not> stopped (anims w ! i) \<and> concl (anims w ! i) = Pending)"

text \<open>Starting takes time: no animation that a conclusion starts is over at once.\<close>

definition lasting :: "starter \<Rightarrow> bool" where
  "lasting starts \<longleftrightarrow> (\<forall>i ok. list_all (\<lambda>(e, q, d, n). 0 < d \<and> 0 < n) (starts i ok))"

lemma fx_emit_simps [simp]: "timers (fx_emit es w) = timers w" "anims (fx_emit es w) = anims w" "inProgress (fx_emit es w) = inProgress w"
  by (simp_all add: fx_emit_def)

lemma notify_simps [simp]: "timers (notify i r w) = timers w" "anims (notify i r w) = anims w" "inProgress (notify i r w) = inProgress w"
  by (simp_all add: notify_def)

lemma run_tweens_simps [simp]: "timers (run_tweens i r d w) = timers w" "anims (run_tweens i r d w) = anims w"
  "inProgress (run_tweens i r d w) = inProgress w"
  by (simp_all add: run_tweens_def)

definition fresh :: "int \<Rightarrow> nat \<times> ustr option \<times> int \<times> nat \<Rightarrow> anim" where
  "fresh now p = (case p of (elem, queue, dur, n) \<Rightarrow> \<lparr> an_elem = elem, an_queue = queue, startTime = now, duration = dur,
     tweens = n, stopped = False, concl = Pending \<rparr>)"

lemma start_all:
  "anims (fold (start_animation now) ps w) = anims w @ map (fresh now) ps \<and>
   timers (fold (start_animation now) ps w) = timers w @ [length (anims w)..<length (anims w) + length ps]"
proof (induction ps arbitrary: w)
  case (Cons p ps)
  obtain e q d n where p: "p = (e, q, d, n)" by (cases p)
  from Cons [of "start_animation now p w"] show ?case
    by (simp add: p start_animation_def fresh_def upt_conv_Cons del: upt_Suc)
qed simp

lemma anim_tick_live:
  assumes "\<not> stopped (anims w ! i)" "\<not> due now (anims w ! i)"
  shows "\<exists>w'. anim_tick starts now i w = (True, w') \<and> anims w' = anims w \<and> timers w' = timers w"
  using assms by (simp add: anim_tick_def due_def Let_def)

lemma anim_tick_due:
  assumes "\<not> stopped (anims w ! i)" "due now (anims w ! i)" "concl (anims w ! i) = Pending" "i < length (anims w)"
  shows "\<exists>w'. anim_tick starts now i w = (False, w') \<and>
    anims w' = (anims w)[i := (anims w ! i) \<lparr> concl := Resolved \<rparr>] @ map (fresh now) (starts i True) \<and>
    timers w' = timers w @ [length (anims w)..<length (anims w) + length (starts i True)]"
proof -
  have c: "anims (conclude starts now i True v) = (anims w)[i := (anims w ! i) \<lparr> concl := Resolved \<rparr>] @ map (fresh now) (starts i True) \<and>
     timers (conclude starts now i True v) = timers w @ [length (anims w)..<length (anims w) + length (starts i True)]"
    if "anims v = anims w" "timers v = timers w" for v
    using that assms start_all [of now "starts i True" "fx_emit [Concluded i True] (upd_anim i (\<lambda>a. a \<lparr> concl := Resolved \<rparr>) v)"]
    by (simp add: conclude_def upd_anim_def)
  have "\<not> (max 0 (startTime (anims w ! i) + duration (anims w ! i) - now) > 0 \<and> tweens (anims w ! i) \<noteq> 0)"
    using assms(2) by (auto simp: due_def)
  with assms(1) c show ?thesis by (simp add: anim_tick_def Let_def)
qed

text \<open>The rest of the list when all of it goes on.\<close>

lemma fx_loop_live:
  "timers w = kept @ news \<Longrightarrow> \<forall>i \<in> set news. \<not> stopped (anims w ! i) \<and> \<not> due now (anims w ! i) \<Longrightarrow> length news < n \<Longrightarrow>
   \<exists>w'. fx_loop n starts now (length kept) w = Some w' \<and> anims w' = anims w \<and> timers w' = timers w"
proof (induction news arbitrary: kept w n)
  case Nil
  then show ?case by (cases n) auto
next
  case (Cons i news)
  then obtain m where n: "n = Suc m" "length news < m" by (cases n) auto
  have k: "timers w ! length kept = i" "length kept < length (timers w)" using Cons.prems(1) by auto
  from anim_tick_live [of w i now starts] Cons.prems(2) obtain w1 where
    t: "anim_tick starts now i w = (True, w1)" "anims w1 = anims w" "timers w1 = timers w" by auto
  have "fx_loop n starts now (length kept) w = fx_loop m starts now (length (kept @ [i])) w1"
    using k t(1) by (simp add: n(1) Let_def)
  moreover have "\<exists>w'. fx_loop m starts now (length (kept @ [i])) w1 = Some w' \<and> anims w' = anims w1 \<and> timers w' = timers w1"
    using Cons.IH [of w1 "kept @ [i]" m] Cons.prems n(2) t by simp
  ultimately show ?case using t by simp
qed

lemma fx_loop_mono: "fx_loop n starts now k w = Some w' \<Longrightarrow> n \<le> m \<Longrightarrow> fx_loop m starts now k w = Some w'"
proof (induction n arbitrary: k w m)
  case (Suc n)
  from Suc.prems(2) obtain m' where m: "m = Suc m'" "n \<le> m'" by (cases m) auto
  show ?case using Suc.prems(1) Suc.IH [OF _ m(2)] by (auto simp: m(1) Let_def split: prod.splits if_splits)
qed simp

text \<open>What the loop leaves of the timers \<open>olds\<close> that it has not looked at, when those after them all go on.\<close>

definition after_olds :: "int \<Rightarrow> nat list \<Rightarrow> fx_world \<Rightarrow> fx_world \<Rightarrow> bool" where
  "after_olds now olds w w' \<longleftrightarrow> length (anims w) \<le> length (anims w') \<and>
     (\<forall>i < length (anims w). anims w' ! i = (if i \<in> set olds \<and> due now (anims w ! i)
         then (anims w ! i) \<lparr> concl := Resolved \<rparr> else anims w ! i)) \<and>
     (\<forall>i < length (anims w'). length (anims w) \<le> i \<longrightarrow> \<not> stopped (anims w' ! i) \<and> concl (anims w' ! i) = Pending \<and>
         startTime (anims w' ! i) = now)"

lemma upt_join: "i \<le> j \<Longrightarrow> j \<le> k \<Longrightarrow> [i..<j] @ [j..<k] = [i..<k]" for i j k :: nat
  using upt_add_eq_append [of i j "k - j"] by simp

lemma fx_loop_old:
  assumes l: "lasting starts"
  shows "timers w = kept @ olds @ news \<Longrightarrow> distinct olds \<Longrightarrow>
    \<forall>i \<in> set olds. i < length (anims w) \<and> \<not> stopped (anims w ! i) \<and> concl (anims w ! i) = Pending \<Longrightarrow>
    \<forall>i \<in> set news. i < length (anims w) \<and> i \<notin> set olds \<and> \<not> stopped (anims w ! i) \<and> \<not> due now (anims w ! i) \<Longrightarrow>
    \<exists>n w'. fx_loop n starts now (length kept) w = Some w' \<and> after_olds now olds w w' \<and>
      timers w' = kept @ filter (\<lambda>i. \<not> due now (anims w ! i)) olds @ news @ [length (anims w)..<length (anims w')]"
proof (induction olds arbitrary: kept news w)
  case Nil
  with fx_loop_live [of w kept news now "Suc (length news)" starts] obtain w' where
    "fx_loop (Suc (length news)) starts now (length kept) w = Some w'" "anims w' = anims w" "timers w' = timers w" by auto
  with Nil.prems(1) show ?case by (intro exI [of _ "Suc (length news)"] exI [of _ w']) (simp add: after_olds_def)
next
  case (Cons i olds)
  let ?a = "anims w ! i"
  have i: "i < length (anims w)" "\<not> stopped ?a" "concl ?a = Pending" "i \<notin> set olds" "distinct olds"
    using Cons.prems(2,3) by auto
  have k: "timers w ! length kept = i" "\<not> length kept \<ge> length (timers w)" using Cons.prems(1) by auto
  show ?case
  proof (cases "due now ?a")
    case False
    from anim_tick_live [OF i(2) False] obtain w1 where
      t: "anim_tick starts now i w = (True, w1)" "anims w1 = anims w" "timers w1 = timers w" by blast
    have "\<exists>n w'. fx_loop n starts now (length (kept @ [i])) w1 = Some w' \<and> after_olds now olds w1 w' \<and>
      timers w' = (kept @ [i]) @ filter (\<lambda>i. \<not> due now (anims w1 ! i)) olds @ news @ [length (anims w1)..<length (anims w')]"
      by (rule Cons.IH) (use Cons.prems t in auto)
    then obtain n w' where w': "fx_loop n starts now (length (kept @ [i])) w1 = Some w'" "after_olds now olds w1 w'"
      "timers w' = (kept @ [i]) @ filter (\<lambda>i. \<not> due now (anims w1 ! i)) olds @ news @ [length (anims w1)..<length (anims w')]" by blast
    have "fx_loop (Suc n) starts now (length kept) w = Some w'" using k t(1) w'(1) by (simp add: Let_def)
    moreover have "after_olds now (i # olds) w w'" using w'(2) False t(2) by (auto simp: after_olds_def)
    ultimately show ?thesis using w'(3) False t(2) by (intro exI [of _ "Suc n"] exI [of _ w']) simp
  next
    case True
    from anim_tick_due [OF i(2) True i(3,1), of starts] obtain w1 where
      t: "anim_tick starts now i w = (False, w1)" "anims w1 = (anims w)[i := ?a \<lparr> concl := Resolved \<rparr>] @ map (fresh now) (starts i True)"
      "timers w1 = timers w @ [length (anims w)..<length (anims w) + length (starts i True)]" by blast
    let ?news = "news @ [length (anims w)..<length (anims w1)]"
    let ?w2 = "w1 \<lparr> timers := splice (length kept) 1 (timers w1) \<rparr>"
    have len: "length (anims w1) = length (anims w) + length (starts i True)" by (simp add: t(2))
    have tm: "timers ?w2 = kept @ olds @ ?news" "timers w1 ! length kept = i" "length kept < length (timers w1)"
      using Cons.prems(1) by (simp_all add: t(3) splice_def len nth_append)
    have old: "anims ?w2 ! j = (if j = i then ?a \<lparr> concl := Resolved \<rparr> else anims w ! j)" if "j < length (anims w)" for j
      using that by (simp add: t(2) nth_append nth_list_update)
    have new: "\<exists>p \<in> set (starts i True). anims ?w2 ! j = fresh now p" if "length (anims w) \<le> j" "j < length (anims w1)" for j
      using that len by (intro bexI [of _ "starts i True ! (j - length (anims w))"]) (simp_all add: t(2) nth_append)
    have fresh: "\<not> due now (fresh now p) \<and> \<not> stopped (fresh now p) \<and> concl (fresh now p) = Pending \<and> startTime (fresh now p) = now"
      if "p \<in> set (starts i True)" for p
      using that l by (fastforce simp: lasting_def list_all_iff due_def fresh_def)
    have "\<exists>n w'. fx_loop n starts now (length kept) ?w2 = Some w' \<and> after_olds now olds ?w2 w' \<and>
      timers w' = kept @ filter (\<lambda>i. \<not> due now (anims ?w2 ! i)) olds @ ?news @ [length (anims ?w2)..<length (anims w')]"
    proof (rule Cons.IH [OF tm(1) i(5)])
      show "\<forall>j \<in> set olds. j < length (anims ?w2) \<and> \<not> stopped (anims ?w2 ! j) \<and> concl (anims ?w2 ! j) = Pending"
        using Cons.prems(3) i(4) old len by auto
      show "\<forall>j \<in> set ?news. j < length (anims ?w2) \<and> j \<notin> set olds \<and> \<not> stopped (anims ?w2 ! j) \<and> \<not> due now (anims ?w2 ! j)"
      proof
        fix j assume "j \<in> set ?news"
        then consider "j \<in> set news" | "length (anims w) \<le> j" "j < length (anims w1)" by auto
        then show "j < length (anims ?w2) \<and> j \<notin> set olds \<and> \<not> stopped (anims ?w2 ! j) \<and> \<not> due now (anims ?w2 ! j)"
        proof cases
          case 1
          then show ?thesis using Cons.prems(4) old len by auto
        next
          case 2
          with new fresh Cons.prems(3) show ?thesis by fastforce
        qed
      qed
    qed
    then obtain n w' where w': "fx_loop n starts now (length kept) ?w2 = Some w'" "after_olds now olds ?w2 w'"
      "timers w' = kept @ filter (\<lambda>i. \<not> due now (anims ?w2 ! i)) olds @ ?news @ [length (anims ?w2)..<length (anims w')]" by blast
    have "fx_loop (Suc n) starts now (length kept) w = Some w'" using k t(1) w'(1) tm by (simp add: Let_def)
    moreover have "after_olds now (i # olds) w w'"
      unfolding after_olds_def
    proof (intro conjI allI impI)
      show "length (anims w) \<le> length (anims w')" using w'(2) len by (simp add: after_olds_def)
    next
      fix j assume j: "j < length (anims w)"
      then show "anims w' ! j = (if j \<in> set (i # olds) \<and> due now (anims w ! j) then (anims w ! j) \<lparr> concl := Resolved \<rparr> else anims w ! j)"
        using w'(2) old [OF j] i(4) True len by (auto simp: after_olds_def)
    next
      fix j assume j: "j < length (anims w')" "length (anims w) \<le> j"
      have "\<not> stopped (anims w' ! j) \<and> concl (anims w' ! j) = Pending \<and> startTime (anims w' ! j) = now"
      proof (cases "j < length (anims w1)")
        case True
        from new [OF j(2) True] obtain p where p: "p \<in> set (starts i True)" "anims ?w2 ! j = fresh now p" by blast
        have "j \<notin> set olds" using Cons.prems(3) j(2) by auto
        then have "anims w' ! j = anims ?w2 ! j" using w'(2) True by (simp add: after_olds_def)
        with fresh [OF p(1)] p(2) show ?thesis by simp
      next
        case False
        then show ?thesis using w'(2) j by (simp add: after_olds_def)
      qed
      then show "\<not> stopped (anims w' ! j)" "concl (anims w' ! j) = Pending" "startTime (anims w' ! j) = now" by simp_all
    qed
    moreover have "timers w' = kept @ filter (\<lambda>i. \<not> due now (anims w ! i)) (i # olds) @ news @ [length (anims w)..<length (anims w')]"
    proof -
      have "filter (\<lambda>j. \<not> due now (anims ?w2 ! j)) olds = filter (\<lambda>j. \<not> due now (anims w ! j)) olds"
        by (rule filter_cong [OF refl]) (use Cons.prems(3) i(4) old in auto)
      moreover have "[length (anims w)..<length (anims w1)] @ [length (anims w1)..<length (anims w')] = [length (anims w)..<length (anims w')]"
        using w'(2) len by (simp add: upt_join after_olds_def)
      ultimately show ?thesis using w'(3) True by simp
    qed
    ultimately show ?thesis by blast
  qed
qed

lemma inProgress_conclude: "inProgress w \<Longrightarrow> inProgress (conclude starts now i ok w)"
proof -
  have f: "inProgress v \<Longrightarrow> inProgress (fold (start_animation now) ps v)" for ps v
    by (induction ps arbitrary: v) (auto simp: start_animation_def split: prod.split)
  show "inProgress w \<Longrightarrow> inProgress (conclude starts now i ok w)"
    by (auto simp: conclude_def upd_anim_def intro!: f)
qed

lemma inProgress_loop: "fx_loop n starts now k w = Some w' \<Longrightarrow> inProgress w \<Longrightarrow> inProgress w'"
proof (induction n arbitrary: k w)
  case (Suc n)
  obtain b w1 where t: "anim_tick starts now (timers w ! k) w = (b, w1)" by (rule prod.exhaust)
  have "inProgress w1" using t Suc.prems(2) by (auto simp: anim_tick_def Let_def inProgress_conclude split: if_splits)
  then show ?case using Suc.prems t Suc.IH [of k "w1 \<lparr> timers := splice k 1 (timers w1) \<rparr>"] Suc.IH [of "Suc k" w1]
    by (auto simp: Let_def split: if_splits)
qed simp


definition sample_fx :: fx_world where
  "sample_fx = fold (start_animation 0) [(1, Some (u ''fx''), 400, 2), (2, Some (u ''fx''), 200, 1)]
     \<lparr> timers = [], anims = [], inProgress = False, fx_trace = [] \<rparr>"

definition sample_starts :: starter where
  "sample_starts i ok = (if i = 1 then [(2, Some (u ''fx''), 600, 1)] else [])"


end
