(* ===== verification/JqManip.thy ===== *)
theory JqManip
  imports JsRegExp "HOL-Library.Multiset"
begin

text \<open>
  Changing the document (\<open>jquery-3.5.1.js\<close>, lines 4938 to 5098, 5976 to 6031, 6047 to 6239 and 6242 to 6379): content is
  collected in a fragment and put in front of, behind, into or in the place of every node of a set, as
  itself for the last and as a copy for the others; removed nodes lose their handlers and data.  The
  document and the detached nodes are a list of trees whose nodes have numbers.  Moving and copying nodes is what the
  DOM standard says; what the browser makes of a text of HTML is a parameter.  The workarounds for old
  browsers, functions as content and loading scripts are left out; running a script is an event.
\<close>

section \<open>Trees of nodes\<close>

record ('h, 'd) nodeinfo =
  i_id :: nat
  i_type :: nat
  i_name :: ustr
  i_text :: ustr
  i_script :: ustr
  i_events :: "'h list"
  i_user :: "'d option"
  i_eval :: bool

datatype ('h, 'd) dtree = Tree (nd: "('h, 'd) nodeinfo") (sub: "('h, 'd) dtree list")

record ('h, 'd) dworld =
  roots :: "('h, 'd) dtree list"
  next_id :: nat
  evaluated :: "nat list"

definition tid :: "('h, 'd) dtree \<Rightarrow> nat" where
  "tid t = i_id (nd t)"

fun infos :: "('h, 'd) dtree \<Rightarrow> ('h, 'd) nodeinfo list" where
  "infos (Tree x ts) = x # concat (map infos ts)"

definition ids :: "('h, 'd) dtree \<Rightarrow> nat list" where
  "ids t = map i_id (infos t)"

fun subtrees :: "('h, 'd) dtree \<Rightarrow> ('h, 'd) dtree list" where
  "subtrees (Tree x ts) = Tree x ts # concat (map subtrees ts)"

definition find_node :: "('h, 'd) dworld \<Rightarrow> nat \<Rightarrow> ('h, 'd) dtree option" where
  "find_node w i = find (\<lambda>t. tid t = i) (concat (map subtrees (roots w)))"

fun parent_in :: "nat \<Rightarrow> ('h, 'd) dtree \<Rightarrow> ('h, 'd) dtree option" where
  "parent_in i (Tree x ts) = (if i \<in> tid ` set ts then Some (Tree x ts)
     else (case filter (\<lambda>r. r \<noteq> None) (map (parent_in i) ts) of [] \<Rightarrow> None | r # _ \<Rightarrow> r))"

definition parent_node :: "('h, 'd) dworld \<Rightarrow> nat \<Rightarrow> ('h, 'd) dtree option" where
  "parent_node w i = (case filter (\<lambda>r. r \<noteq> None) (map (parent_in i) (roots w)) of [] \<Rightarrow> None | r # _ \<Rightarrow> r)"

fun cut :: "nat \<Rightarrow> ('h, 'd) dtree \<Rightarrow> ('h, 'd) dtree" where
  "cut i (Tree x ts) = Tree x (map (cut i) (filter (\<lambda>t. tid t \<noteq> i) ts))"

definition cut_all :: "nat \<Rightarrow> ('h, 'd) dtree list \<Rightarrow> ('h, 'd) dtree list" where
  "cut_all i ts = map (cut i) (filter (\<lambda>t. tid t \<noteq> i) ts)"

fun change_kids :: "nat \<Rightarrow> (('h, 'd) dtree list \<Rightarrow> ('h, 'd) dtree list) \<Rightarrow> ('h, 'd) dtree \<Rightarrow> ('h, 'd) dtree" where
  "change_kids p f (Tree x ts) = Tree x ((if i_id x = p then f else (\<lambda>ts. ts)) (map (change_kids p f) ts))"

fun map_info :: "(('h, 'd) nodeinfo \<Rightarrow> ('h, 'd) nodeinfo) \<Rightarrow> ('h, 'd) dtree \<Rightarrow> ('h, 'd) dtree" where
  "map_info f (Tree x ts) = Tree (f x) (map (map_info f) ts)"

definition upd_nodes :: "nat set \<Rightarrow> (('h, 'd) nodeinfo \<Rightarrow> ('h, 'd) nodeinfo) \<Rightarrow> ('h, 'd) dworld \<Rightarrow> ('h, 'd) dworld" where
  "upd_nodes S f w = w \<lparr> roots := map (map_info (\<lambda>x. if i_id x \<in> S then f x else x)) (roots w) \<rparr>"

section \<open>The DOM\<close>

text \<open>\<open>removeChild\<close>: the node becomes a root of its own.\<close>

definition detach :: "nat \<Rightarrow> ('h, 'd) dworld \<Rightarrow> ('h, 'd) dworld" where
  "detach i w = (case find_node w i of None \<Rightarrow> w | Some t \<Rightarrow> w \<lparr> roots := cut_all i (roots w) @ [t] \<rparr>)"

definition put_before :: "nat option \<Rightarrow> ('h, 'd) dtree list \<Rightarrow> ('h, 'd) dtree list \<Rightarrow> ('h, 'd) dtree list" where
  "put_before ref ns ts = takeWhile (\<lambda>t. Some (tid t) \<noteq> ref) ts @ ns @ dropWhile (\<lambda>t. Some (tid t) \<noteq> ref) ts"

fun next_after :: "nat \<Rightarrow> ('h, 'd) dtree list \<Rightarrow> nat option" where
  "next_after i (s # t # ts) = (if tid s = i then Some (tid t) else next_after i (t # ts))"
| "next_after i ts = None"

definition next_sibling :: "('h, 'd) dworld \<Rightarrow> nat \<Rightarrow> nat option" where
  "next_sibling w i = (case parent_node w i of None \<Rightarrow> None | Some p \<Rightarrow> next_after i (sub p))"

text \<open>\<open>insertBefore\<close>; \<open>None\<close> is the exception for a node that would become its own ancestor.  A fragment gives
  its children away and stays empty.\<close>

definition insert_node :: "nat \<Rightarrow> nat \<Rightarrow> nat option \<Rightarrow> ('h, 'd) dworld \<Rightarrow> ('h, 'd) dworld option" where
  "insert_node p i ref w = (case find_node w i of
     None \<Rightarrow> None
   | Some t \<Rightarrow>
       if p \<in> set (ids t) then None
       else let ref = (if ref = Some i then next_sibling w i else ref);
                ns = (if i_type (nd t) = 11 then sub t else [t]);
                rest = cut_all i (roots w) @ (if i_type (nd t) = 11 then [Tree (nd t) []] else [])
            in Some (w \<lparr> roots := map (change_kids p (put_before ref ns)) rest \<rparr>))"

definition first_child :: "('h, 'd) dworld \<Rightarrow> nat \<Rightarrow> nat option" where
  "first_child w i = (case find_node w i of None \<Rightarrow> None | Some t \<Rightarrow> (case sub t of [] \<Rightarrow> None | c # _ \<Rightarrow> Some (tid c)))"

text \<open>\<open>isAttached\<close>: in the tree of a document.\<close>

definition isAttached :: "('h, 'd) dworld \<Rightarrow> nat \<Rightarrow> bool" where
  "isAttached w i \<longleftrightarrow> (\<exists>r \<in> set (roots w). i_type (nd r) = 9 \<and> i \<in> set (ids r))"

section \<open>Data and copies\<close>

text \<open>\<open>getAll( context, tag )\<close>: without a tag the context is included, with \<open>false\<close> it is not.\<close>

datatype tag_arg = AnyTag | NoTag | Tag ustr

definition below :: "('h, 'd) dtree \<Rightarrow> ('h, 'd) nodeinfo list" where
  "below t = (if i_type (nd t) = 1 \<or> i_type (nd t) = 9 \<or> i_type (nd t) = 11
     then filter (\<lambda>x. i_type x = 1) (concat (map infos (sub t))) else [])"

definition getAll :: "('h, 'd) dtree \<Rightarrow> tag_arg \<Rightarrow> nat list" where
  "getAll t tag =
    (let ret = (case tag of Tag s \<Rightarrow> filter (\<lambda>x. to_lower (i_name x) = s) (below t) | _ \<Rightarrow> below t);
         own = (case tag of AnyTag \<Rightarrow> True | NoTag \<Rightarrow> False | Tag s \<Rightarrow> to_lower (i_name (nd t)) = s)
     in map i_id (if own then nd t # ret else ret))"

definition setGlobalEval :: "nat list \<Rightarrow> ('h, 'd) dworld \<Rightarrow> ('h, 'd) dworld" where
  "setGlobalEval elems w = upd_nodes (set elems) (\<lambda>x. x \<lparr> i_eval := True \<rparr>) w"

definition cleaned :: "('h, 'd) nodeinfo \<Rightarrow> ('h, 'd) nodeinfo" where
  "cleaned x = (if i_type x = 1 \<or> i_type x = 9 then x \<lparr> i_events := [], i_user := None, i_eval := False \<rparr> else x)"

definition cleanData :: "nat list \<Rightarrow> ('h, 'd) dworld \<Rightarrow> ('h, 'd) dworld" where
  "cleanData elems w = upd_nodes (set elems) cleaned w"

text \<open>\<open>jQuery.clone\<close>: new numbers, no handlers or data unless they are copied, and scripts that ran stay so.\<close>

datatype copying = CopyNothing | CopyOwn | CopyAll

definition copy_info :: "copying \<Rightarrow> bool \<Rightarrow> nat \<Rightarrow> nat \<Rightarrow> ('h, 'd) nodeinfo \<Rightarrow> ('h, 'd) nodeinfo" where
  "copy_info copy inPage n root x =
    (let data = (i_type x = 1 \<and> (copy = CopyAll \<or> copy = CopyOwn \<and> i_id x = root))
     in x \<lparr> i_id := n + i_id x, i_events := (if data then i_events x else []), i_user := (if data then i_user x else None),
            i_eval := (to_lower (i_name x) = u ''script'' \<and> (inPage \<or> i_eval x)) \<rparr>)"

definition jq_clone :: "copying \<Rightarrow> nat \<Rightarrow> ('h, 'd) dworld \<Rightarrow> nat \<times> ('h, 'd) dworld" where
  "jq_clone copy i w = (case find_node w i of
     None \<Rightarrow> (i, w)
   | Some t \<Rightarrow> (next_id w + i,
       w \<lparr> roots := roots w @ [map_info (copy_info copy (isAttached w i) (next_id w) i) t], next_id := 2 * next_id w \<rparr>))"

section \<open>Removing\<close>

definition remove_one :: "bool \<Rightarrow> nat \<Rightarrow> ('h, 'd) dworld \<Rightarrow> ('h, 'd) dworld" where
  "remove_one keepData i w = (case find_node w i of
     None \<Rightarrow> w
   | Some t \<Rightarrow>
       let w1 = (if \<not> keepData \<and> i_type (nd t) = 1 then cleanData (getAll t AnyTag) w else w)
       in if parent_node w i = None then w1
          else detach i (if keepData \<and> isAttached w1 i then setGlobalEval (getAll t (Tag (u ''script''))) w1 else w1))"

text \<open>The nodes that match the selector are given.\<close>

definition remove_nodes :: "bool \<Rightarrow> nat list \<Rightarrow> ('h, 'd) dworld \<Rightarrow> ('h, 'd) dworld" where
  "remove_nodes keepData nodes w = fold (remove_one keepData) nodes w"

text \<open>\<open>textContent = ""\<close>: the children become roots of their own.\<close>

definition clear_kids :: "nat \<Rightarrow> ('h, 'd) dworld \<Rightarrow> ('h, 'd) dworld" where
  "clear_kids i w = (case find_node w i of None \<Rightarrow> w
     | Some t \<Rightarrow> w \<lparr> roots := map (change_kids i (\<lambda>_. [])) (roots w) @ sub t \<rparr>)"

definition empty_one :: "nat \<Rightarrow> ('h, 'd) dworld \<Rightarrow> ('h, 'd) dworld" where
  "empty_one i w = (case find_node w i of None \<Rightarrow> w
     | Some t \<Rightarrow> if i_type (nd t) = 1 then clear_kids i (cleanData (getAll t NoTag) w) else w)"

definition fn_empty :: "nat list \<Rightarrow> ('h, 'd) dworld \<Rightarrow> ('h, 'd) dworld" where
  "fn_empty self w = fold empty_one self w"

section \<open>Content\<close>

datatype content = Nodes "nat list" | Text ustr

text \<open>\<open>rtagName\<close>: the first tag of a text.\<close>

definition tag_end :: "int \<Rightarrow> bool" where
  "tag_end c \<longleftrightarrow> c \<in> {47, 0, 62, 32, 9, 13, 10, 12}"

fun first_tag :: "ustr \<Rightarrow> ustr" where
  "first_tag (c # d # s) =
    (if c = 60 \<and> (97 \<le> d \<and> d \<le> 122 \<or> 65 \<le> d \<and> d \<le> 90) then to_lower (d # takeWhile (\<lambda>x. \<not> tag_end x) s)
     else first_tag (d # s))"
| "first_tag s = []"

definition wrapMap :: "ustr \<Rightarrow> nat \<times> ustr \<times> ustr" where
  "wrapMap tag =
    (if tag \<in> set (map u [''thead'', ''tbody'', ''tfoot'', ''colgroup'', ''caption'']) then (1, u ''<table>'', u ''</table>'')
     else if tag = u ''col'' then (2, u ''<table><colgroup>'', u ''</colgroup></table>'')
     else if tag = u ''tr'' then (2, u ''<table><tbody>'', u ''</tbody></table>'')
     else if tag = u ''td'' \<or> tag = u ''th'' then (3, u ''<table><tbody><tr>'', u ''</tr></tbody></table>'')
     else (0, [], []))"

text \<open>\<open>rhtml\<close>: a tag, or an entity.\<close>

definition rhtml :: re where
  "rhtml = Alt (lit (u ''<'')) (seqs [lit (u ''&''), Alt (lit (u ''#'')) Eps, Cls (\<lambda>c. 48 \<le> c \<and> c \<le> 57 \<or> 65 \<le> c \<and> c \<le> 90 \<or> c = 95 \<or> 97 \<le> c \<and> c \<le> 122),
     Star True (Cls (\<lambda>c. 48 \<le> c \<and> c \<le> 57 \<or> 65 \<le> c \<and> c \<le> 90 \<or> c = 95 \<or> 97 \<le> c \<and> c \<le> 122)), lit (u '';'')])"

fun descend :: "nat \<Rightarrow> ('h, 'd) dtree list \<Rightarrow> ('h, 'd) dtree list option" where
  "descend 0 ts = Some ts"
| "descend (Suc j) ts = (if ts = [] then None else descend j (sub (last ts)))"

definition plain_info :: "nat \<Rightarrow> nat \<Rightarrow> ustr \<Rightarrow> ('h, 'd) nodeinfo" where
  "plain_info i ty txt = \<lparr> i_id = i, i_type = ty, i_name = [], i_text = txt, i_script = [], i_events = [], i_user = None, i_eval = False \<rparr>"

text \<open>\<open>inner\<close> is what the browser makes of the text given to \<open>innerHTML\<close>, with numbers from 0.\<close>

definition adopt :: "('h, 'd) dtree list \<Rightarrow> ('h, 'd) dworld \<Rightarrow> nat list \<times> ('h, 'd) dworld" where
  "adopt ts w =
    (let ts' = map (map_info (\<lambda>x. x \<lparr> i_id := next_id w + i_id x \<rparr>)) ts
     in (map tid ts', w \<lparr> roots := roots w @ ts',
          next_id := next_id w + Suc (fold max (concat (map ids ts)) 0) \<rparr>))"

fun collect :: "(ustr \<Rightarrow> ('h, 'd) dtree list) \<Rightarrow> content list \<Rightarrow> ('h, 'd) dworld \<Rightarrow> (nat list \<times> ('h, 'd) dworld) option" where
  "collect inner [] w = Some ([], w)"
| "collect inner (Nodes ns # cs) w = map_option (\<lambda>(nodes, w). (ns @ nodes, w)) (collect inner cs w)"
| "collect inner (Text s # cs) w =
    (if s = [] then collect inner cs w
     else if \<not> test rhtml s
     then (case adopt [Tree (plain_info 0 3 s) []] w of (ns, w) \<Rightarrow> map_option (\<lambda>(nodes, w). (ns @ nodes, w)) (collect inner cs w))
     else (case wrapMap (first_tag s) of (j, pre, post) \<Rightarrow>
       (case descend j (inner (pre @ s @ post)) of
          None \<Rightarrow> None
        | Some ts \<Rightarrow> (case adopt ts w of (ns, w) \<Rightarrow> map_option (\<lambda>(nodes, w). (ns @ nodes, w)) (collect inner cs w)))))"

fun fill :: "nat \<Rightarrow> nat list \<Rightarrow> nat list \<Rightarrow> nat list \<Rightarrow> ('h, 'd) dworld \<Rightarrow> (nat list \<times> ('h, 'd) dworld) option" where
  "fill frag selection [] ignored w = Some (ignored, w)"
| "fill frag selection (i # is') ignored w =
    (if i \<in> set selection then fill frag selection is' (ignored @ [i]) w
     else (case insert_node frag i None w of
       None \<Rightarrow> None
     | Some w1 \<Rightarrow> fill frag selection is' ignored
         (case find_node w1 i of
            Some t \<Rightarrow> if isAttached w i then setGlobalEval (getAll t (Tag (u ''script''))) w1 else w1
          | None \<Rightarrow> w1)))"

definition buildFragment :: "(ustr \<Rightarrow> ('h, 'd) dtree list) \<Rightarrow> content list \<Rightarrow> nat list \<Rightarrow> ('h, 'd) dworld \<Rightarrow>
    (nat \<times> nat list \<times> ('h, 'd) dworld) option" where
  "buildFragment inner elems selection w = (case collect inner elems w of
     None \<Rightarrow> None
   | Some (nodes, w) \<Rightarrow> (case adopt [Tree (plain_info 0 11 []) []] w of (frag, w) \<Rightarrow>
       map_option (\<lambda>(ignored, w). (hd frag, ignored, w)) (fill (hd frag) selection nodes [] w)))"

section \<open>Placing content\<close>

datatype place = Append | Prepend | Before | After | Replace

definition is_named :: "ustr \<Rightarrow> ('h, 'd) dtree \<Rightarrow> bool" where
  "is_named s t \<longleftrightarrow> to_lower (i_name (nd t)) = s"

definition manipulationTarget :: "('h, 'd) dworld \<Rightarrow> ('h, 'd) dtree \<Rightarrow> ('h, 'd) dtree \<Rightarrow> nat" where
  "manipulationTarget w elem content =
    (if is_named (u ''table'') elem \<and>
        (if i_type (nd content) \<noteq> 11 then is_named (u ''tr'') content
         else sub content \<noteq> [] \<and> is_named (u ''tr'') (hd (sub content)))
     then (case filter (\<lambda>t. i_type (nd t) = 1 \<and> is_named (u ''tbody'') t) (sub elem) of b # _ \<Rightarrow> tid b | [] \<Rightarrow> tid elem)
     else tid elem)"

definition takes_kids :: "('h, 'd) dtree \<Rightarrow> bool" where
  "takes_kids t \<longleftrightarrow> i_type (nd t) = 1 \<or> i_type (nd t) = 11 \<or> i_type (nd t) = 9"

definition put_at :: "place \<Rightarrow> nat list \<Rightarrow> nat \<Rightarrow> nat \<Rightarrow> ('h, 'd) dworld \<Rightarrow> ('h, 'd) dworld option" where
  "put_at how ignored this node w = (case (find_node w this, find_node w node) of
     (Some t, Some content) \<Rightarrow>
       (case how of
          Append \<Rightarrow> if takes_kids t then insert_node (manipulationTarget w t content) node None w else Some w
        | Prepend \<Rightarrow> if takes_kids t
            then (let target = manipulationTarget w t content in insert_node target node (first_child w target) w) else Some w
        | Before \<Rightarrow> (case parent_node w this of None \<Rightarrow> Some w | Some p \<Rightarrow> insert_node (tid p) node (Some this) w)
        | After \<Rightarrow> (case parent_node w this of None \<Rightarrow> Some w | Some p \<Rightarrow> insert_node (tid p) node (next_sibling w this) w)
        | Replace \<Rightarrow> if this \<in> set ignored then Some w
            else let w1 = cleanData (getAll t AnyTag) w
                 in (case parent_node w this of None \<Rightarrow> Some w1
                    | Some p \<Rightarrow> map_option (detach this) (insert_node (tid p) node (Some this) w1)))
   | _ \<Rightarrow> None)"

text \<open>The original goes to the last node of the set, copies to the others.\<close>

fun place_loop :: "place \<Rightarrow> nat list \<Rightarrow> nat \<Rightarrow> nat list \<Rightarrow> ('h, 'd) dworld \<Rightarrow> ('h, 'd) dworld option" where
  "place_loop how ignored frag [] w = Some w"
| "place_loop how ignored frag [this] w = put_at how ignored this frag w"
| "place_loop how ignored frag (this # that # rest) w =
    (case jq_clone CopyAll frag w of (node, w1) \<Rightarrow>
       (case put_at how ignored this node w1 of None \<Rightarrow> None | Some w2 \<Rightarrow> place_loop how ignored frag (that # rest) w2))"

text \<open>The scripts that run: of a script type, not run before, and now in the document.\<close>

definition rscriptType :: "ustr \<Rightarrow> bool" where
  "rscriptType s \<longleftrightarrow> s = [] \<or> to_lower s = u ''module'' \<or> includes_str (to_lower s) (u ''/javascript'') \<or>
     includes_str (to_lower s) (u ''/ecmascript'')"

definition run_script :: "nat \<Rightarrow> ('h, 'd) dworld \<Rightarrow> ('h, 'd) dworld" where
  "run_script i w = (case find_node w i of
     None \<Rightarrow> w
   | Some t \<Rightarrow> if rscriptType (i_script (nd t)) \<and> \<not> i_eval (nd t) \<and> isAttached w i
       then w \<lparr> evaluated := evaluated w @ [i] \<rparr> else w)"

definition domManip :: "(ustr \<Rightarrow> ('h, 'd) dtree list) \<Rightarrow> place \<Rightarrow> nat list \<Rightarrow> content list \<Rightarrow> ('h, 'd) dworld \<Rightarrow>
    ('h, 'd) dworld option" where
  "domManip inner how collection args w =
    (if collection = [] then Some w
     else (case buildFragment inner args collection w of
       None \<Rightarrow> None
     | Some (frag, ignored, w) \<Rightarrow> (case find_node w frag of
         None \<Rightarrow> None
       | Some f \<Rightarrow>
           let content = (case sub f of [c] \<Rightarrow> c | _ \<Rightarrow> f);
               scripts = getAll content (Tag (u ''script''))
           in if sub f = [] \<and> how \<noteq> Replace then Some w
              else map_option (fold run_script scripts) (place_loop how ignored (tid content) collection w))))"

definition fn_append :: "(ustr \<Rightarrow> ('h, 'd) dtree list) \<Rightarrow> content list \<Rightarrow> nat list \<Rightarrow> ('h, 'd) dworld \<Rightarrow> ('h, 'd) dworld option" where
  "fn_append inner args self w = domManip inner Append self args w"

definition fn_prepend :: "(ustr \<Rightarrow> ('h, 'd) dtree list) \<Rightarrow> content list \<Rightarrow> nat list \<Rightarrow> ('h, 'd) dworld \<Rightarrow> ('h, 'd) dworld option" where
  "fn_prepend inner args self w = domManip inner Prepend self args w"

definition fn_before :: "(ustr \<Rightarrow> ('h, 'd) dtree list) \<Rightarrow> content list \<Rightarrow> nat list \<Rightarrow> ('h, 'd) dworld \<Rightarrow> ('h, 'd) dworld option" where
  "fn_before inner args self w = domManip inner Before self args w"

definition fn_after :: "(ustr \<Rightarrow> ('h, 'd) dtree list) \<Rightarrow> content list \<Rightarrow> nat list \<Rightarrow> ('h, 'd) dworld \<Rightarrow> ('h, 'd) dworld option" where
  "fn_after inner args self w = domManip inner After self args w"

definition fn_replaceWith :: "(ustr \<Rightarrow> ('h, 'd) dtree list) \<Rightarrow> content list \<Rightarrow> nat list \<Rightarrow> ('h, 'd) dworld \<Rightarrow> ('h, 'd) dworld option" where
  "fn_replaceWith inner args self w = domManip inner Replace self args w"

text \<open>\<open>.appendTo\<close> and its like: the set itself goes to the last target.\<close>

definition clone_set :: "nat list \<Rightarrow> ('h, 'd) dworld \<Rightarrow> nat list \<times> ('h, 'd) dworld" where
  "clone_set self w = fold (\<lambda>i (ns, w). case jq_clone CopyAll i w of (n, w) \<Rightarrow> (ns @ [n], w)) self ([], w)"

fun insert_into :: "(ustr \<Rightarrow> ('h, 'd) dtree list) \<Rightarrow> place \<Rightarrow> nat list \<Rightarrow> nat list \<Rightarrow> ('h, 'd) dworld \<Rightarrow> (nat list \<times> ('h, 'd) dworld) option" where
  "insert_into inner how self [] w = Some ([], w)"
| "insert_into inner how self [t] w = map_option (Pair self) (domManip inner how [t] [Nodes self] w)"
| "insert_into inner how self (t # t' # ts) w = (case clone_set self w of (elems, w) \<Rightarrow>
     (case domManip inner how [t] [Nodes elems] w of None \<Rightarrow> None
      | Some w \<Rightarrow> map_option (\<lambda>(ret, w). (elems @ ret, w)) (insert_into inner how self (t' # ts) w)))"

text \<open>\<open>.text( value )\<close>\<close>

definition text_one :: "ustr \<Rightarrow> nat \<Rightarrow> ('h, 'd) dworld \<Rightarrow> ('h, 'd) dworld" where
  "text_one value i w = (case find_node w i of None \<Rightarrow> w
     | Some t \<Rightarrow> if takes_kids t
         then (let w = clear_kids i w
               in if value = [] then w
                  else w \<lparr> roots := map (change_kids i (\<lambda>_. [Tree (plain_info (next_id w) 3 value) []])) (roots w),
                           next_id := Suc (next_id w) \<rparr>)
         else w)"

definition fn_text :: "ustr \<Rightarrow> nat list \<Rightarrow> ('h, 'd) dworld \<Rightarrow> ('h, 'd) dworld" where
  "fn_text value self w = fold (text_one value) self (fn_empty self w)"

section \<open>No node is lost or doubled\<close>

definition idl :: "('h, 'd) dtree list \<Rightarrow> nat list" where
  "idl ts = concat (map ids ts)"

lemma idl_simps [simp]: "idl [] = []" "idl (t # ts) = ids t @ idl ts" "idl (xs @ ys) = idl xs @ idl ys"
  by (simp_all add: idl_def)

lemma ids_Tree [simp]: "ids (Tree x ts) = i_id x # idl ts"
  by (simp add: ids_def [abs_def] idl_def map_concat comp_def)

lemma tid_Tree [simp]: "tid (Tree x ts) = i_id x"
  by (simp add: tid_def)

lemma tid_in_ids [simp]: "tid t \<in> set (ids t)"
  by (cases t) simp

lemma set_idl: "set (idl ts) = (\<Union>t \<in> set ts. set (ids t))"
  by (simp add: idl_def)

lemma ids_subtrees: "map tid (subtrees t) = ids t"
proof (induction t)
  case (Tree x ts)
  then have "map tid (concat (map subtrees ts)) = idl ts" by (induction ts) auto
  then show ?case by simp
qed

definition subl :: "('h, 'd) dtree list \<Rightarrow> ('h, 'd) dtree list" where
  "subl ts = concat (map subtrees ts)"

lemma idl_subl: "map tid (subl ts) = idl ts"
  by (induction ts) (simp_all add: subl_def ids_subtrees)

lemma subtrees_sub: "s \<in> set (subtrees t) \<Longrightarrow> set (ids s) \<subseteq> set (ids t)"
proof (induction t)
  case (Tree x ts)
  then show ?case by (fastforce simp: set_idl)
qed

lemma subl_sub: "s \<in> set (subl ts) \<Longrightarrow> set (ids s) \<subseteq> set (idl ts)"
  by (auto simp: subl_def set_idl dest: subtrees_sub)

lemma cut_Tree: "cut i (Tree x ts) = Tree x (cut_all i ts)"
  by (simp add: cut_all_def)

lemma cut_none: "i \<notin> set (ids t) \<Longrightarrow> cut i t = t"
proof (induction t)
  case (Tree x ts)
  have "tid t \<noteq> i" if "t \<in> set ts" for t using Tree.prems that by (auto simp: set_idl)
  then have "filter (\<lambda>t. tid t \<noteq> i) ts = ts" by (simp add: filter_id_conv)
  moreover have "map (cut i) ts = ts" by (rule map_idI) (use Tree in \<open>auto simp: set_idl\<close>)
  ultimately show ?case by simp
qed

lemma cut_all_none: "i \<notin> set (idl ts) \<Longrightarrow> cut_all i ts = ts"
  using cut_none [of i "Tree undefined ts"] cut_Tree by (induction ts) (auto simp: cut_all_def cut_none)

lemma unique_subtree:
  assumes "distinct (map tid xs)" "s \<in> set xs" "t \<in> set xs" "tid s = tid t"
  shows "s = t"
  using assms by (metis distinct_map inj_onD)

text \<open>Cutting a node out of a list of trees: what is left, and its subtree.\<close>

definition splits :: "('h, 'd) dtree list \<Rightarrow> nat \<Rightarrow> bool" where
  "splits ts i \<longleftrightarrow> (\<forall>s \<in> set (subl ts). tid s = i \<longrightarrow> distinct (idl ts) \<longrightarrow> mset (idl ts) = mset (idl (cut_all i ts)) + mset (ids s))"

lemma splits_list:
  assumes "\<forall>t \<in> set ts. \<forall>s \<in> set (subtrees t). tid s = i \<longrightarrow> tid t \<noteq> i \<longrightarrow> distinct (ids t) \<longrightarrow>
    mset (ids t) = mset (ids (cut i t)) + mset (ids s)"
  shows "splits ts i"
  using assms
proof (induction ts)
  case (Cons t ts)
  have IH: "splits ts i" by (rule Cons.IH) (use Cons.prems in auto)
  show ?case
    unfolding splits_def
  proof (intro ballI impI)
    fix s assume s: "s \<in> set (subl (t # ts))" "tid s = i" "distinct (idl (t # ts))"
    have i: "i \<in> set (ids s)" using s(2) tid_in_ids by metis
    show "mset (idl (t # ts)) = mset (idl (cut_all i (t # ts))) + mset (ids s)"
    proof (cases "s \<in> set (subtrees t)")
      case True
      then have "i \<in> set (ids t)" using i subtrees_sub by blast
      then have rest: "cut_all i ts = ts" using s(3) by (intro cut_all_none) auto
      show ?thesis
      proof (cases "tid t = i")
        case t: True
        have "t \<in> set (subtrees t)" by (cases t) simp
        with True t s(2,3) have "s = t" using unique_subtree [of "subtrees t" s t] by (simp add: ids_subtrees)
        with rest t show ?thesis by (simp add: cut_all_def)
      next
        case False
        with Cons.prems True s(2,3) rest show ?thesis by (auto simp: cut_all_def)
      qed
    next
      case False
      then have s': "s \<in> set (subl ts)" using s(1) by (simp add: subl_def)
      then have "i \<in> set (idl ts)" using i subl_sub by blast
      with s(3) have "i \<notin> set (ids t)" by auto
      then have "cut i t = t" "tid t \<noteq> i" using cut_none tid_in_ids by metis+
      moreover have "mset (idl ts) = mset (idl (cut_all i ts)) + mset (ids s)" using IH s' s(2,3) by (simp add: splits_def)
      ultimately show ?thesis by (simp add: cut_all_def)
    qed
  qed
qed (simp add: splits_def subl_def)

lemma cut_tree: "s \<in> set (subtrees t) \<Longrightarrow> tid s \<noteq> tid t \<Longrightarrow> distinct (ids t) \<Longrightarrow>
    mset (ids t) = mset (ids (cut (tid s) t)) + mset (ids s)"
proof (induction t arbitrary: s)
  case (Tree x ts)
  have "splits ts (tid s)" by (rule splits_list) (intro ballI impI, use Tree.IH in metis)
  moreover have "s \<in> set (subl ts)" using Tree.prems(1,2) by (auto simp: subl_def)
  ultimately show ?case using Tree.prems(3) by (simp add: splits_def cut_Tree del: cut.simps)
qed

lemma cut_all_mset: "s \<in> set (subl ts) \<Longrightarrow> distinct (idl ts) \<Longrightarrow> mset (idl ts) = mset (idl (cut_all (tid s) ts)) + mset (ids s)"
  using splits_list [of ts "tid s"] cut_tree by (metis splits_def)

lemma change_kids_none: "p \<notin> set (ids t) \<Longrightarrow> change_kids p f t = t"
proof (induction t)
  case (Tree x ts)
  then have "map (change_kids p f) ts = ts" by (intro map_idI) (auto simp: set_idl)
  with Tree.prems show ?case by simp
qed

lemma change_kids_mset:
  assumes f: "\<And>ts. mset (idl (f ts)) = mset (idl ts) + A"
  shows "distinct (ids t) \<Longrightarrow> mset (ids (change_kids p f t)) = mset (ids t) + (if p \<in> set (ids t) then A else {#})"
proof (induction t)
  case (Tree x ts)
  show ?case
  proof (cases "i_id x = p")
    case True
    then have "map (change_kids p f) ts = ts" using Tree.prems by (intro map_idI change_kids_none) (auto simp: set_idl)
    with True f show ?thesis by simp
  next
    case False
    have "mset (idl (map (change_kids p f) ts)) = mset (idl ts) + (if p \<in> set (idl ts) then A else {#})"
      using Tree by (induction ts) auto
    with False show ?thesis by simp
  qed
qed

lemma change_all_mset:
  assumes f: "\<And>ts. mset (idl (f ts)) = mset (idl ts) + A"
  shows "distinct (idl ts) \<Longrightarrow> mset (idl (map (change_kids p f) ts)) = mset (idl ts) + (if p \<in> set (idl ts) then A else {#})"
  using change_kids_mset [of f A, OF f] by (induction ts) auto

lemma put_before_mset: "mset (idl (put_before ref ns ts)) = mset (idl ts) + mset (idl ns)"
proof -
  let ?P = "\<lambda>t. Some (tid t) \<noteq> ref"
  have "mset (idl ts) = mset (idl (takeWhile ?P ts)) + mset (idl (dropWhile ?P ts))"
    by (metis idl_simps(3) mset_append takeWhile_dropWhile_id)
  then show ?thesis by (simp add: put_before_def)
qed

lemma ids_map_info: "ids (map_info f t) = map (\<lambda>x. i_id (f x)) (infos t)"
proof (induction t)
  case (Tree x ts)
  then have "idl (map (map_info f) ts) = map (\<lambda>x. i_id (f x)) (concat (map infos ts))" by (induction ts) auto
  then show ?case by simp
qed

definition all_ids :: "('h, 'd) dworld \<Rightarrow> nat list" where
  "all_ids w = idl (roots w)"

definition wf_world :: "('h, 'd) dworld \<Rightarrow> bool" where
  "wf_world w \<longleftrightarrow> distinct (all_ids w) \<and> (\<forall>i \<in> set (all_ids w). i < next_id w)"

text \<open>The nodes there were are still there, and every node is in one place.\<close>

definition keeps_nodes :: "('h, 'd) dworld \<Rightarrow> ('h, 'd) dworld \<Rightarrow> bool" where
  "keeps_nodes w w' \<longleftrightarrow> wf_world w' \<and> set (all_ids w) \<subseteq> set (all_ids w') \<and> next_id w \<le> next_id w'"

lemma keeps_refl: "wf_world w \<Longrightarrow> keeps_nodes w w"
  by (simp add: keeps_nodes_def)

lemma keeps_trans: "keeps_nodes a v \<Longrightarrow> keeps_nodes v w \<Longrightarrow> keeps_nodes a w"
  by (auto simp: keeps_nodes_def)

lemma keeps_wf: "keeps_nodes w w' \<Longrightarrow> wf_world w'"
  by (simp add: keeps_nodes_def)

lemma keeps_in: "keeps_nodes w w' \<Longrightarrow> i \<in> set (all_ids w) \<Longrightarrow> i \<in> set (all_ids w')"
  by (auto simp: keeps_nodes_def)

lemma keeps_mset:
  assumes "wf_world w" "mset (all_ids w') = mset (all_ids w)" "next_id w' = next_id w"
  shows "keeps_nodes w w'"
  using assms mset_eq_imp_distinct_iff [OF assms(2)] mset_eq_setD [OF assms(2)]
  by (simp add: keeps_nodes_def wf_world_def)

lemma find_Some: "find P xs = Some x \<Longrightarrow> x \<in> set xs \<and> P x"
  by (induction xs) (auto split: if_splits)

lemma find_node_Some: "find_node w i = Some t \<Longrightarrow> t \<in> set (subl (roots w)) \<and> tid t = i"
  unfolding find_node_def subl_def by (drule find_Some) simp

lemma find_node_in: "find_node w i = Some t \<Longrightarrow> i \<in> set (all_ids w) \<and> set (ids t) \<subseteq> set (all_ids w)"
  using find_node_Some [of w i t] subl_sub [of t "roots w"] tid_in_ids [of t] by (auto simp: all_ids_def)

lemma keeps_upd:
  assumes "wf_world w" "\<And>x. i_id (f x) = i_id x"
  shows "keeps_nodes w (upd_nodes S f w)"
proof -
  have "ids (map_info (\<lambda>x. if i_id x \<in> S then f x else x) t) = ids t" for t
    using assms(2) by (simp add: ids_map_info) (simp add: ids_def)
  then have "idl (map (map_info (\<lambda>x. if i_id x \<in> S then f x else x)) ts) = idl ts" for ts by (induction ts) auto
  then show ?thesis using assms(1) by (intro keeps_mset) (simp_all add: upd_nodes_def all_ids_def)
qed

lemma keeps_eval: "wf_world w \<Longrightarrow> keeps_nodes w (setGlobalEval S w)"
  unfolding setGlobalEval_def by (rule keeps_upd) simp_all

lemma keeps_clean: "wf_world w \<Longrightarrow> keeps_nodes w (cleanData S w)"
  unfolding cleanData_def by (rule keeps_upd) (simp_all add: cleaned_def)

lemma keeps_detach: "wf_world w \<Longrightarrow> keeps_nodes w (detach i w)"
proof (cases "find_node w i")
  case (Some t)
  assume w: "wf_world w"
  from find_node_Some [OF Some] have "t \<in> set (subl (roots w))" "tid t = i" by simp_all
  with w cut_all_mset [of t "roots w"] show ?thesis
    by (intro keeps_mset) (simp_all add: detach_def Some all_ids_def wf_world_def)
qed (simp add: detach_def keeps_refl)

lemma keeps_insert:
  assumes w: "wf_world w" and p: "p \<in> set (all_ids w)" and r: "insert_node p i ref w = Some w'"
  shows "keeps_nodes w w'"
proof -
  from r obtain t where t: "find_node w i = Some t" "p \<notin> set (ids t)"
    by (auto simp: insert_node_def split: option.splits if_splits)
  let ?ref = "if ref = Some i then next_sibling w i else ref"
  let ?ns = "if i_type (nd t) = 11 then sub t else [t]"
  let ?rest = "cut_all i (roots w) @ (if i_type (nd t) = 11 then [Tree (nd t) []] else [])"
  have w': "w' = w \<lparr> roots := map (change_kids p (put_before ?ref ?ns)) ?rest \<rparr>"
    using r t by (simp add: insert_node_def Let_def)
  from find_node_Some [OF t(1)] have s: "t \<in> set (subl (roots w))" "tid t = i" by simp_all
  have c: "mset (idl (roots w)) = mset (idl (cut_all i (roots w))) + mset (ids t)"
    using cut_all_mset [OF s(1)] w s(2) by (simp add: wf_world_def all_ids_def)
  have t': "ids t = i_id (nd t) # idl (sub t)" by (cases t) simp
  have all: "mset (idl ?rest) + mset (idl ?ns) = mset (idl (roots w))" using c by (simp add: t')
  have "distinct (idl ?rest)"
    using w by (metis (no_types) all distinct_append mset_append mset_eq_imp_distinct_iff wf_world_def all_ids_def)
  from change_all_mset [of "put_before ?ref ?ns" "mset (idl ?ns)", OF put_before_mset this, of p]
  have "mset (idl (roots w')) = mset (idl ?rest) + (if p \<in> set (idl ?rest) then mset (idl ?ns) else {#})"
    unfolding w' by simp
  moreover have "p \<in> set (idl ?rest)"
  proof -
    have "p \<in># mset (idl (roots w))" using p by (simp add: all_ids_def)
    then have "p \<in># mset (idl (cut_all i (roots w))) + mset (ids t)" using c by metis
    then show ?thesis using t(2) by auto
  qed
  ultimately show ?thesis using all w by (intro keeps_mset) (simp_all add: all_ids_def w')
qed

lemma parent_in_subtrees: "parent_in i t = Some p \<Longrightarrow> p \<in> set (subtrees t)"
proof (induction t)
  case (Tree x ts)
  show ?case
  proof (cases "i \<in> tid ` set ts")
    case False
    with Tree.prems obtain r rs where "filter (\<lambda>r. r \<noteq> None) (map (parent_in i) ts) = r # rs" "r = Some p"
      by (auto split: list.splits)
    then have "Some p \<in> set (map (parent_in i) ts)" by (metis filter_is_subset list.set_intros(1) subsetD)
    then obtain t where "t \<in> set ts" "parent_in i t = Some p" by auto
    with Tree.IH show ?thesis by auto
  qed (use Tree.prems in auto)
qed

lemma parent_node_in: "parent_node w i = Some p \<Longrightarrow> tid p \<in> set (all_ids w)"
proof -
  assume "parent_node w i = Some p"
  then have "Some p \<in> set (map (parent_in i) (roots w))"
    unfolding parent_node_def by (metis (no_types, lifting) filter_is_subset list.case_eq_if list.set_sel(1) option.distinct(1) subsetD)
  then obtain t where t: "t \<in> set (roots w)" "parent_in i t = Some p" by auto
  then have "p \<in> set (subl (roots w))" using parent_in_subtrees [OF t(2)] by (auto simp: subl_def)
  then show ?thesis using subl_sub tid_in_ids unfolding all_ids_def by blast
qed

lemma keeps_add:
  assumes "wf_world w" "distinct (idl ts)" "\<forall>i \<in> set (idl ts). next_id w \<le> i \<and> i < n"  "next_id w \<le> n"
  shows "keeps_nodes w (w \<lparr> roots := roots w @ ts, next_id := n \<rparr>)"
  using assms by (fastforce simp: keeps_nodes_def wf_world_def all_ids_def)

lemma idl_shift:
  assumes "\<And>x. i_id (f x) = n + i_id x"
  shows "idl (map (map_info f) ts) = map ((+) n) (idl ts)"
proof -
  have "ids (map_info f t) = map ((+) n) (ids t)" for t using assms by (simp add: ids_map_info) (simp add: ids_def)
  then show ?thesis by (induction ts) auto
qed

lemma keeps_clone: "wf_world w \<Longrightarrow> keeps_nodes w (snd (jq_clone c i w))"
proof (cases "find_node w i")
  case (Some t)
  assume w: "wf_world w"
  let ?f = "copy_info c (isAttached w i) (next_id w) i"
  have s: "idl (map (map_info ?f) [t]) = map ((+) (next_id w)) (idl [t])"
    by (rule idl_shift) (simp add: copy_info_def Let_def)
  have "mset (ids t) \<subseteq># mset (all_ids w)"
    using cut_all_mset [of t "roots w"] find_node_Some [OF Some] w by (simp add: all_ids_def wf_world_def)
  then have "distinct (ids t)" using w unfolding wf_world_def by (metis distinct_append mset_append mset_eq_imp_distinct_iff ex_mset subset_mset.le_iff_add)
  moreover have "\<forall>i \<in> set (ids t). i < next_id w" using w find_node_in [OF Some] by (auto simp: wf_world_def)
  ultimately show ?thesis
    using keeps_add [OF w, of "[map_info ?f t]" "2 * next_id w"] s by (simp add: jq_clone_def Some distinct_map)
qed (simp add: jq_clone_def keeps_refl)

lemma fold_max_le: "m \<le> fold max xs m \<and> (\<forall>i \<in> set xs. i \<le> fold max xs m)" for m :: nat
proof (induction xs arbitrary: m)
  case (Cons x xs)
  from Cons [of "max x m"] show ?case by auto
qed simp

lemma keeps_adopt: "wf_world w \<Longrightarrow> distinct (idl ts) \<Longrightarrow> keeps_nodes w (snd (adopt ts w))"
proof -
  assume w: "wf_world w" and d: "distinct (idl ts)"
  let ?f = "\<lambda>x :: ('a, 'b) nodeinfo. x \<lparr> i_id := next_id w + i_id x \<rparr>"
  have s: "idl (map (map_info ?f) ts) = map ((+) (next_id w)) (idl ts)" by (rule idl_shift) simp
  have "i \<le> fold max (idl ts) 0" if "i \<in> set (idl ts)" for i using fold_max_le that by blast
  then have "keeps_nodes w (w \<lparr> roots := roots w @ map (map_info ?f) ts, next_id := next_id w + Suc (fold max (idl ts) 0) \<rparr>)"
    by (intro keeps_add [OF w]) (use d in \<open>auto simp: s distinct_map less_Suc_eq_le\<close>)
  then show ?thesis by (simp add: adopt_def Let_def idl_def)
qed

section \<open>Every change keeps the nodes\<close>

lemma keeps_first: "keeps_nodes w w1 \<Longrightarrow> (wf_world w1 \<Longrightarrow> keeps_nodes w1 w2) \<Longrightarrow> keeps_nodes w w2"
  using keeps_trans keeps_wf by blast

lemma kid_in_ids: "b \<in> set (sub t) \<Longrightarrow> tid b \<in> set (ids t)"
  by (cases t) (simp add: set_idl, metis tid_in_ids)

lemma target_in: "find_node w i = Some t \<Longrightarrow> manipulationTarget w t c \<in> set (all_ids w)"
proof -
  assume t: "find_node w i = Some t"
  let ?bs = "filter (\<lambda>t. i_type (nd t) = 1 \<and> is_named (u ''tbody'') t) (sub t)"
  have "tid (hd ?bs) \<in> set (ids t)" if "?bs \<noteq> []"
    using kid_in_ids [of "hd ?bs" t] hd_in_set [OF that] by auto
  then have "manipulationTarget w t c \<in> set (ids t)"
    by (cases ?bs) (simp_all add: manipulationTarget_def)
  with find_node_in [OF t] show ?thesis by blast
qed

lemma keeps_put: "wf_world w \<Longrightarrow> put_at how ignored this node w = Some w' \<Longrightarrow> keeps_nodes w w'"
proof -
  assume w: "wf_world w" and r: "put_at how ignored this node w = Some w'"
  then obtain t c where t: "find_node w this = Some t" "find_node w node = Some c"
    by (auto simp: put_at_def split: option.splits)
  show ?thesis
  proof (cases how)
    case Replace
    show ?thesis
    proof (cases "this \<in> set ignored")
      case False
      let ?w = "cleanData (getAll t AnyTag) w"
      have k: "keeps_nodes w ?w" by (rule keeps_clean [OF w])
      show ?thesis
      proof (cases "parent_node w this")
        case (Some p)
        with r t False Replace obtain w2 where w2: "insert_node (tid p) node (Some this) ?w = Some w2" "w' = detach this w2"
          by (auto simp: put_at_def Let_def)
        have "keeps_nodes ?w w2" by (rule keeps_insert [OF keeps_wf [OF k] keeps_in [OF k parent_node_in [OF Some]] w2(1)])
        with k w2(2) keeps_detach show ?thesis by (metis keeps_first keeps_trans)
      qed (use r t False Replace k in \<open>auto simp: put_at_def Let_def\<close>)
    qed (use r t Replace w keeps_refl in \<open>auto simp: put_at_def\<close>)
  qed (use r t w in \<open>auto simp: put_at_def Let_def keeps_refl split: if_splits option.splits
      intro: keeps_insert target_in parent_node_in\<close>)
qed

lemma keeps_place: "wf_world w \<Longrightarrow> place_loop how ignored frag self w = Some w' \<Longrightarrow> keeps_nodes w w'"
proof (induction how ignored frag self w rule: place_loop.induct)
  case (3 how ignored frag this that rest w)
  obtain node w1 where c: "jq_clone CopyAll frag w = (node, w1)" by (rule prod.exhaust)
  with keeps_clone [OF "3.prems"(1), of CopyAll frag] have k1: "keeps_nodes w w1" by simp
  from "3.prems"(2) c obtain w2 where w2: "put_at how ignored this node w1 = Some w2"
    "place_loop how ignored frag (that # rest) w2 = Some w'" by (auto split: option.splits)
  have k2: "keeps_nodes w1 w2" by (rule keeps_put [OF keeps_wf [OF k1] w2(1)])
  from "3.IH" [OF c [symmetric] w2(1)] w2(2) k1 k2 show ?case by (metis keeps_trans keeps_wf)
qed (auto simp: keeps_refl dest: keeps_put)

lemma descend_distinct: "descend j ts = Some ts' \<Longrightarrow> distinct (idl ts) \<Longrightarrow> distinct (idl ts')"
proof (induction j ts rule: descend.induct)
  case (2 j ts)
  have "distinct (idl (sub (last ts)))" if "ts \<noteq> []"
  proof -
    have "idl ts = idl (butlast ts) @ ids (last ts)" using that by (metis append_butlast_last_id idl_simps append_Nil2)
    moreover have "ids (last ts) = i_id (nd (last ts)) # idl (sub (last ts))" by (cases "last ts") simp
    ultimately show ?thesis using 2(3) by simp
  qed
  with 2 show ?case by (auto split: if_splits)
qed simp

lemma keeps_collect:
  assumes inner: "\<And>s. distinct (idl (inner s))"
  shows "wf_world w \<Longrightarrow> collect inner cs w = Some (ns, w') \<Longrightarrow> keeps_nodes w w'"
proof (induction cs arbitrary: w ns)
  case (Cons c cs)
  have add: "keeps_nodes w w'" if "distinct (idl ts)"
    "(case adopt ts w of (ns, w) \<Rightarrow> map_option (\<lambda>(nodes, w). (ns @ nodes, w)) (collect inner cs w)) = Some (ns, w')" for ts
  proof -
    obtain ns1 w1 where a: "adopt ts w = (ns1, w1)" by (rule prod.exhaust)
    with that(2) obtain ns2 where "collect inner cs w1 = Some (ns2, w')" by auto
    moreover have "keeps_nodes w w1" using keeps_adopt [OF Cons.prems(1) that(1)] a by simp
    ultimately show ?thesis using Cons.IH keeps_first by blast
  qed
  show ?case
  proof (cases c)
    case (Nodes xs)
    with Cons show ?thesis by auto
  next
    case (Text s)
    obtain j pre post where m: "wrapMap (first_tag s) = (j, pre, post)" by (rule prod_cases3)
    consider "s = []" | "s \<noteq> []" "\<not> test rhtml s" | "s \<noteq> []" "test rhtml s" by blast
    then show ?thesis
    proof cases
      case 1
      with Cons Text show ?thesis by auto
    next
      case 2
      show ?thesis by (rule add [of "[Tree (plain_info 0 3 s) []]"]) (use 2 Text Cons.prems(2) in simp_all)
    next
      case 3
      then obtain ts where ts: "descend j (inner (pre @ s @ post)) = Some ts"
        using Text Cons.prems(2) m by (auto split: option.splits)
      show ?thesis by (rule add [of ts]) (use 3 Text Cons.prems(2) m ts descend_distinct [OF ts inner] in simp_all)
    qed
  qed
qed (simp add: keeps_refl)

lemma keeps_fill: "wf_world w \<Longrightarrow> frag \<in> set (all_ids w) \<Longrightarrow> fill frag selection is' ignored w = Some (ig, w') \<Longrightarrow> keeps_nodes w w'"
proof (induction frag selection is' ignored w rule: fill.induct)
  case (2 frag selection i is' ignored w)
  show ?case
  proof (cases "i \<in> set selection")
    case False
    with "2.prems"(3) obtain w1 where w1: "insert_node frag i None w = Some w1" by (auto split: option.splits)
    let ?w = "case find_node w1 i of Some t \<Rightarrow> if isAttached w i then setGlobalEval (getAll t (Tag (u ''script''))) w1 else w1 | None \<Rightarrow> w1"
    have k1: "keeps_nodes w w1" by (rule keeps_insert [OF "2.prems"(1,2) w1])
    have wf1: "wf_world w1" by (rule keeps_wf [OF k1])
    have "keeps_nodes w1 ?w" by (simp add: keeps_refl [OF wf1] keeps_eval [OF wf1] split: option.split)
    then have k: "keeps_nodes w ?w" by (rule keeps_trans [OF k1])
    from "2.IH"(2) [OF False w1 keeps_wf [OF k] keeps_in [OF k "2.prems"(2)]] "2.prems"(3) False w1
    have "keeps_nodes ?w w'" by simp
    with k show ?thesis by (rule keeps_trans)
  qed (use 2 in auto)
qed (auto simp: keeps_refl)

lemma keeps_scripts: "wf_world w \<Longrightarrow> keeps_nodes w (fold run_script ss w)"
proof (induction ss arbitrary: w)
  case (Cons i ss)
  have "keeps_nodes w (run_script i w)"
    using Cons.prems by (auto simp: run_script_def keeps_nodes_def wf_world_def all_ids_def split: option.split)
  with Cons.IH show ?case by (auto intro: keeps_first)
qed (simp add: keeps_refl)

lemma keeps_fragment:
  assumes inner: "\<And>s. distinct (idl (inner s))" and w: "wf_world w"
    and r: "buildFragment inner cs selection w = Some (frag, ignored, w')"
  shows "keeps_nodes w w'"
proof -
  from r obtain nodes w1 where c: "collect inner cs w = Some (nodes, w1)" by (auto simp: buildFragment_def split: option.splits)
  let ?t = "[Tree (plain_info 0 11 []) []]"
  obtain fr w2 where a: "adopt ?t w1 = (fr, w2)" by (rule prod.exhaust)
  from r c a obtain ig where f: "fill (hd fr) selection nodes [] w2 = Some (ig, w')" by (auto simp: buildFragment_def)
  have k1: "keeps_nodes w w1" by (rule keeps_collect [OF inner w c])
  have k2: "keeps_nodes w1 w2" using keeps_adopt [OF keeps_wf [OF k1], of ?t] a by simp
  have "hd fr \<in> set (all_ids w2)" using a by (auto simp: adopt_def Let_def all_ids_def plain_info_def)
  from keeps_fill [OF keeps_wf [OF k2] this f] k1 k2 show ?thesis by (metis keeps_trans)
qed


section \<open>Removed nodes are clean\<close>

lemma map_info_infos: "infos (map_info f t) = map f (infos t)"
proof (induction t)
  case (Tree x ts)
  then have "concat (map infos (map (map_info f) ts)) = map f (concat (map infos ts))" by (induction ts) auto
  then show ?case by simp
qed

lemma subtrees_map_info: "subtrees (map_info f t) = map (map_info f) (subtrees t)"
proof (induction t)
  case (Tree x ts)
  then have "concat (map subtrees (map (map_info f) ts)) = map (map_info f) (concat (map subtrees ts))" by (induction ts) auto
  then show ?case by simp
qed

lemma tid_map_info: "(\<And>x. i_id (f x) = i_id x) \<Longrightarrow> tid (map_info f t) = tid t"
  by (cases t) simp

lemma find_node_upd:
  assumes "\<And>x. i_id (f x) = i_id x"
  shows "find_node (upd_nodes S f w) i = map_option (map_info (\<lambda>x. if i_id x \<in> S then f x else x)) (find_node w i)"
proof -
  let ?g = "map_info (\<lambda>x. if i_id x \<in> S then f x else x)"
  have "find (\<lambda>t. tid t = i) (map ?g ts) = map_option ?g (find (\<lambda>t. tid t = i) ts)" for ts
    using tid_map_info [of "\<lambda>x. if i_id x \<in> S then f x else x"] assms by (induction ts) auto
  moreover have "concat (map subtrees (map ?g ts)) = map ?g (concat (map subtrees ts))" for ts
    by (induction ts) (simp_all add: subtrees_map_info)
  ultimately show ?thesis by (simp add: find_node_def upd_nodes_def)
qed

text \<open>Parents and places.\<close>

lemma sub_ids: "ids t = tid t # idl (sub t)"
  by (cases t) simp

lemma parent_in_below: "parent_in i t = Some p \<Longrightarrow> i \<in> tid ` set (sub p) \<and> i \<in> set (idl (sub t))"
proof (induction t)
  case (Tree x ts)
  show ?case
  proof (cases "i \<in> tid ` set ts")
    case True
    with Tree.prems show ?thesis by (auto simp: set_idl intro: tid_in_ids)
  next
    case False
    with Tree.prems obtain r rs where "filter (\<lambda>r. r \<noteq> None) (map (parent_in i) ts) = r # rs" "r = Some p"
      by (auto split: list.splits)
    then have "Some p \<in> set (map (parent_in i) ts)" by (metis filter_is_subset list.set_intros(1) subsetD)
    then obtain t where t: "t \<in> set ts" "parent_in i t = Some p" by auto
    from Tree.IH [OF this] have "i \<in> tid ` set (sub p)" "i \<in> set (ids t)" by (simp_all add: sub_ids)
    with t(1) show ?thesis by (auto simp: set_idl)
  qed
qed

lemma parent_in_None: "parent_in i t = None \<Longrightarrow> i \<notin> set (idl (sub t))"
proof (induction t)
  case (Tree x ts)
  then have n: "i \<notin> tid ` set ts" by (auto split: if_splits)
  with Tree.prems have "(case filter (\<lambda>r. r \<noteq> None) (map (parent_in i) ts) of [] \<Rightarrow> None | r # _ \<Rightarrow> r) = None" by simp
  then have "filter (\<lambda>r. r \<noteq> None) (map (parent_in i) ts) = []"
    by (cases "filter (\<lambda>r. r \<noteq> None) (map (parent_in i) ts)") (auto dest: filter_eq_ConsD)
  then have "parent_in i t = None" if "t \<in> set ts" for t using that by (auto simp: filter_empty_conv)
  with Tree.IH have "i \<notin> set (idl (sub t))" if "t \<in> set ts" for t using that by blast
  then have "i \<notin> set (ids t)" if "t \<in> set ts" for t using n that by (auto simp: sub_ids)
  then show ?case by (simp add: set_idl)
qed

lemma parent_node_Some: "parent_node w i = Some p \<Longrightarrow> \<exists>r \<in> set (roots w). parent_in i r = Some p"
proof -
  assume "parent_node w i = Some p"
  then have "Some p \<in> set (map (parent_in i) (roots w))"
    unfolding parent_node_def by (metis (no_types, lifting) filter_is_subset list.case_eq_if list.set_sel(1) option.distinct(1) subsetD)
  then show ?thesis by auto
qed

lemma parent_node_None: "parent_node w i = None \<longleftrightarrow> (\<forall>r \<in> set (roots w). i \<notin> set (idl (sub r)))"
proof
  assume "parent_node w i = None"
  then have "filter (\<lambda>r. r \<noteq> None) (map (parent_in i) (roots w)) = []" unfolding parent_node_def
    by (cases "filter (\<lambda>r. r \<noteq> None) (map (parent_in i) (roots w))") (auto dest: filter_eq_ConsD)
  then show "\<forall>r \<in> set (roots w). i \<notin> set (idl (sub r))" by (auto simp: filter_empty_conv parent_in_None)
next
  assume "\<forall>r \<in> set (roots w). i \<notin> set (idl (sub r))"
  then have "parent_node w i \<noteq> Some p" for p using parent_node_Some [of w i p] parent_in_below by blast
  then show "parent_node w i = None" by (cases "parent_node w i") auto
qed

text \<open>A node with a number of its own is in one tree only.\<close>

lemma one_root: "distinct (idl ts) \<Longrightarrow> s \<in> set ts \<Longrightarrow> t \<in> set ts \<Longrightarrow> i \<in> set (ids s) \<Longrightarrow> i \<in> set (ids t) \<Longrightarrow> s = t"
proof (induction ts)
  case (Cons r ts)
  then show ?case by (auto simp: set_idl)
qed simp

lemma root_alone:
  assumes "distinct (all_ids w)" "t \<in> set (roots w)" "tid t = i"
  shows "parent_node w i = None" and "i_type (nd t) \<noteq> 9 \<Longrightarrow> j \<in> set (ids t) \<Longrightarrow> \<not> isAttached w j"
proof -
  have "distinct (ids t)" using assms(1,2) by (auto simp: all_ids_def idl_def distinct_concat_iff)
  then have "i \<notin> set (idl (sub t))" using assms(3) by (simp add: sub_ids)
  moreover have "i \<notin> set (ids r)" if "r \<in> set (roots w)" "r \<noteq> t" for r
    using one_root [of "roots w" r t i] assms that tid_in_ids [of t] by (auto simp: all_ids_def)
  ultimately show "parent_node w i = None" by (auto simp: parent_node_None sub_ids)
  show "\<not> isAttached w j" if "i_type (nd t) \<noteq> 9" "j \<in> set (ids t)"
  proof
    assume "isAttached w j"
    then obtain r where r: "r \<in> set (roots w)" "i_type (nd r) = 9" "j \<in> set (ids r)" by (auto simp: isAttached_def)
    with one_root [of "roots w" r t j] assms(1,2) that(2) have "r = t" by (simp add: all_ids_def)
    with r(2) that(1) show False by simp
  qed
qed

lemma subtree_below: "s \<in> set (subtrees t) \<Longrightarrow> s = t \<or> tid s \<in> set (idl (sub t))"
proof (cases t)
  case (Tree x ts)
  assume "s \<in> set (subtrees t)"
  with Tree have "s = t \<or> s \<in> set (subl ts)" by (auto simp: subl_def)
  moreover have "tid s \<in> set (idl ts)" if "s \<in> set (subl ts)" using subl_sub [OF that] tid_in_ids by blast
  ultimately show ?thesis using Tree by auto
qed

lemma no_parent_root: "find_node w i = Some t \<Longrightarrow> parent_node w i = None \<Longrightarrow> t \<in> set (roots w)"
  using find_node_Some [of w i t] subtree_below by (fastforce simp: subl_def parent_node_None)

text \<open>C40: What removing does to an element of a world whose nodes have distinct numbers: it is a tree of its own
  afterwards, with the nodes it had; it has no parent, and neither it nor any node below it is in a
  document; neither it nor any element below it has handlers or data left; and no node is lost or new.\<close>

theorem removed_clean:
  assumes "distinct (all_ids w)" "\<forall>i \<in> set (all_ids w). i < next_id w" "find_node w i = Some t" "i_type (nd t) = 1"
  shows "\<exists>t'. t' \<in> set (roots (remove_one False i w)) \<and> tid t' = i \<and> ids t' = ids t
    \<and> (\<forall>x \<in> set (infos t'). i_type x = 1 \<longrightarrow> i_events x = [] \<and> i_user x = None)
    \<and> parent_node (remove_one False i w) i = None
    \<and> (\<forall>j \<in> set (ids t). \<not> isAttached (remove_one False i w) j)
    \<and> distinct (all_ids (remove_one False i w)) \<and> set (all_ids (remove_one False i w)) = set (all_ids w)"
proof -
  let ?S = "set (getAll t AnyTag)" and ?w1 = "cleanData (getAll t AnyTag) w" and ?w' = "remove_one False i w"
  let ?g = "\<lambda>x. if i_id x \<in> ?S then cleaned x else x"
  have g: "i_id (?g x) = i_id x" "i_type (?g x) = i_type x" for x by (simp_all add: cleaned_def)
  have f: "find_node ?w1 i = Some (map_info ?g t)"
    unfolding cleanData_def by (subst find_node_upd) (simp_all add: cleaned_def assms(3))
  have e: "ids (map_info ?g s) = ids s" for s by (simp only: ids_map_info g) (simp add: ids_def)
  have "idl (map (map_info ?g) ts) = idl ts" for ts by (induction ts) (simp_all only: list.map idl_simps e)
  then have a1: "all_ids ?w1 = all_ids w" by (simp add: cleanData_def upd_nodes_def all_ids_def)
  have wf1: "wf_world ?w1" using keeps_clean assms(1,2) by (metis keeps_wf wf_world_def)
  have w': "?w' = (if parent_node w i = None then ?w1 else detach i ?w1)"
    using assms(3,4) by (simp add: remove_one_def Let_def)
  have r: "map_info ?g t \<in> set (roots ?w')"
  proof (cases "parent_node w i = None")
    case True
    with no_parent_root [OF assms(3)] w' show ?thesis by (simp add: cleanData_def upd_nodes_def)
  next
    case False
    with f w' show ?thesis by (simp add: detach_def)
  qed
  have m: "mset (all_ids ?w') = mset (all_ids w)"
    using cut_all_mset [of "map_info ?g t" "roots ?w1"] find_node_Some [OF f] wf1 a1 f
    by (simp add: w' detach_def all_ids_def wf_world_def)
  then have d: "distinct (all_ids ?w')" "set (all_ids ?w') = set (all_ids w)"
    using assms(1) by (metis mset_eq_imp_distinct_iff, metis mset_eq_setD)
  have "i_id x \<in> ?S" if "x \<in> set (infos t)" "i_type x = 1" for x
    using that assms(4) by (cases t) (auto simp: getAll_def below_def)
  then have "\<forall>x \<in> set (infos (map_info ?g t)). i_type x = 1 \<longrightarrow> i_events x = [] \<and> i_user x = None"
    by (auto simp: map_info_infos cleaned_def)
  moreover have t: "tid (map_info ?g t) = i" using find_node_Some [OF assms(3)] tid_map_info [of ?g t, OF g(1)] by simp
  moreover have ids: "ids (map_info ?g t) = ids t" by (simp only: ids_map_info g) (simp add: ids_def)
  moreover have "i_type (nd (map_info ?g t)) \<noteq> 9" using assms(4) by (cases t) (simp add: cleaned_def)
  ultimately show ?thesis
    using r d root_alone [OF d(1) r t] by (intro exI [of _ "map_info ?g t"]) simp
qed

text \<open>A page: a list of two items, the second with a link that has a handler.\<close>

definition node_named :: "nat \<Rightarrow> string \<Rightarrow> nat list \<Rightarrow> (nat, nat) nodeinfo" where
  "node_named i s hs = \<lparr> i_id = i, i_type = 1, i_name = u s, i_text = [], i_script = [], i_events = hs, i_user = None, i_eval = False \<rparr>"

definition sample_page :: "(nat, nat) dworld" where
  "sample_page = \<lparr> roots = [Tree (plain_info 0 9 []) [Tree (node_named 1 ''UL'' [])
      [Tree (node_named 2 ''LI'' []) [], Tree (node_named 3 ''LI'' []) [Tree (node_named 4 ''A'' [7]) []]]]],
     next_id = 5, evaluated = [] \<rparr>"

lemma removed_clean_witness:
  "\<exists>t'. t' \<in> set (roots (remove_one False 3 sample_page)) \<and> tid t' = 3 \<and> ids t' = [3, 4] \<and>
     \<not> isAttached (remove_one False 3 sample_page) 4 \<and> isAttached sample_page 4"
proof -
  let ?t = "Tree (node_named 3 ''LI'' []) [Tree (node_named 4 ''A'' [7]) []]"
  have "distinct (all_ids sample_page)" "\<forall>i \<in> set (all_ids sample_page). i < next_id sample_page"
    "find_node sample_page 3 = Some ?t" "i_type (nd ?t) = 1" "ids ?t = [3, 4]"
    by (simp_all add: find_node_def all_ids_def sample_page_def node_named_def plain_info_def tid_def)
  moreover have "isAttached sample_page 4" by (simp add: isAttached_def sample_page_def node_named_def plain_info_def)
  ultimately show ?thesis using removed_clean [of sample_page 3 ?t] by auto
qed


end
