(* ===== verification/JqStyle.thy ===== *)
theory JqStyle
  imports JqData JsRegExp Complex_Main
begin

text \<open>
  Styles (\<open>jquery-3.5.1.js\<close>, lines 4690 to 4898, 6424 to 6442, 6571 to 6843 and 6864 to 7082): names and values of
  properties, showing and hiding, and the sizes of boxes.  What the browser computes for an inline style is a
  field of the element.  A value is a text, or a number with its unit, kept apart because the shortest text of a
  number is not needed; numbers are rationals, so rounding is left out.  The workarounds for old browsers are left out.
\<close>

section \<open>Numbers\<close>

datatype css = Txt ustr | Len rat ustr

definition css_digit :: "int \<Rightarrow> bool" where
  "css_digit c \<longleftrightarrow> 48 \<le> c \<and> c \<le> 57"

definition css_sign :: re where
  "css_sign = Opt (one_of (u ''+-''))"

definition exp_re :: re where
  "exp_re = Opt (seqs [one_of (u ''eE''), css_sign, Plus True (Cls css_digit)])"

definition pnum :: re where
  "pnum = seqs [css_sign, Alt (Seq (Star True (Cls css_digit)) (lit (u ''.''))) Eps, Plus True (Cls css_digit), exp_re]"

definition unit_char :: "int \<Rightarrow> bool" where
  "unit_char c \<longleftrightarrow> 97 \<le> c \<and> c \<le> 122 \<or> 65 \<le> c \<and> c \<le> 90 \<or> c = 37"

definition rcssNum :: re where
  "rcssNum = seqs [Bol, Alt (Seq (Grp 1 (one_of (u ''+-''))) (lit (u ''=''))) Eps, Grp 2 pnum, Grp 3 (Star True (Cls unit_char)), Eol]"

definition rnumnonpx :: re where
  "rnumnonpx = seqs [Bol, Grp 1 pnum, Look False (Seq (one_of (u ''pP'')) (one_of (u ''xX''))), Plus True (Cls unit_char), Eol]"

definition int_of :: "ustr \<Rightarrow> int" where
  "int_of s = (case s of [] \<Rightarrow> 0 | c # t \<Rightarrow> if c = 45 then - int (undec t) else if c = 43 then int (undec t) else int (undec s))"

text \<open>The number a decimal literal stands for.\<close>

definition num_of :: "ustr \<Rightarrow> rat" where
  "num_of s =
    (let neg = (s \<noteq> [] \<and> hd s = 45);
         t = (if s \<noteq> [] \<and> (hd s = 43 \<or> hd s = 45) then tl s else s);
         m = takeWhile (\<lambda>c. c \<noteq> 69 \<and> c \<noteq> 101) t;
         e = int_of (drop (length m + 1) t);
         i = takeWhile css_digit m;
         f = drop (length i + 1) m;
         q = (of_nat (undec i) + of_nat (undec f) / 10 ^ length f) * (if 0 \<le> e then 10 ^ nat e else 1 / 10 ^ nat (- e))
     in if neg then - q else q)"

text \<open>\<open>parseFloat\<close>; \<open>None\<close> is NaN, and \<open>Infinity\<close> does not occur.\<close>

definition float_re :: re where
  "float_re = seqs [Bol, Star True (Cls is_space), Grp 1 (seqs [css_sign,
     Alt (Seq (Plus True (Cls css_digit)) (Opt (Seq (lit (u ''.'')) (Star True (Cls css_digit))))) (Seq (lit (u ''.'')) (Plus True (Cls css_digit))), exp_re])]"

definition parseFloat :: "css \<Rightarrow> rat option" where
  "parseFloat v = (case v of Len q unit \<Rightarrow> Some q
     | Txt s \<Rightarrow> map_option (\<lambda>(i, j, c). num_of (cap c 1)) (exec float_re s))"

text \<open>\<open>rcssNum.exec( value )\<close>: the sign of a relative value, the number and the unit.\<close>

definition css_parts :: "css \<Rightarrow> (ustr \<times> rat \<times> ustr) option" where
  "css_parts v = (case v of Len q unit \<Rightarrow> Some ([], q, unit)
     | Txt s \<Rightarrow> map_option (\<lambda>(i, j, c). (cap c 1, num_of (cap c 2), cap c 3)) (exec rcssNum s))"

definition nonpx :: "css \<Rightarrow> bool" where
  "nonpx v \<longleftrightarrow> (case v of Len q unit \<Rightarrow> unit \<noteq> [] \<and> to_lower (take 2 unit) \<noteq> u ''px'' | Txt s \<Rightarrow> test rnumnonpx s)"

definition setPositiveNumber :: "css \<Rightarrow> rat \<Rightarrow> css" where
  "setPositiveNumber value subtract = (case css_parts value of
     Some (sign, q, unit) \<Rightarrow> Len (max 0 (q - subtract)) (if unit = [] then u ''px'' else unit)
   | None \<Rightarrow> value)"

section \<open>Names\<close>

definition cssNumber :: "ustr \<Rightarrow> bool" where
  "cssNumber name \<longleftrightarrow> name \<in> set (map u [''animationIterationCount'', ''columnCount'', ''fillOpacity'', ''flexGrow'', ''flexShrink'',
     ''fontWeight'', ''gridArea'', ''gridColumn'', ''gridColumnEnd'', ''gridColumnStart'', ''gridRow'', ''gridRowEnd'',
     ''gridRowStart'', ''lineHeight'', ''opacity'', ''order'', ''orphans'', ''widows'', ''zIndex'', ''zoom''])"

definition capitalized :: "ustr \<Rightarrow> ustr" where
  "capitalized s = (case s of [] \<Rightarrow> [] | c # t \<Rightarrow> to_upper_unit c # t)"

text \<open>The prefixes, from the last one; \<open>known\<close> tells the properties of the browser's style objects.\<close>

definition cssPrefixes :: "ustr list" where
  "cssPrefixes = map u [''Webkit'', ''Moz'', ''ms'']"

definition vendorPropName :: "(ustr \<Rightarrow> bool) \<Rightarrow> ustr \<Rightarrow> ustr option" where
  "vendorPropName known name = find known (map (\<lambda>p. p @ capitalized name) (rev cssPrefixes))"

definition finalPropName :: "(ustr \<Rightarrow> bool) \<Rightarrow> ustr dict \<Rightarrow> ustr dict \<Rightarrow> ustr \<Rightarrow> ustr \<times> ustr dict" where
  "finalPropName known cssProps vendorProps name =
    (let final = (case dget cssProps name of Some (c # s) \<Rightarrow> c # s | _ \<Rightarrow> (case dget vendorProps name of Some s \<Rightarrow> s | None \<Rightarrow> []))
     in if final \<noteq> [] then (final, vendorProps)
        else if known name then (name, vendorProps)
        else let v = (case vendorPropName known name of Some n \<Rightarrow> n | None \<Rightarrow> name) in (v, dput name v vendorProps))"

section \<open>Elements and their styles\<close>

record sty_elem =
  s_type :: nat
  s_name :: ustr
  s_style :: "(ustr \<Rightarrow> css) option"
  s_attached :: bool
  s_saved :: "ustr option"
  s_computed :: "(ustr \<Rightarrow> css) \<Rightarrow> ustr \<Rightarrow> css option"

text \<open>A hook for a property: its \<open>get\<close>, asked for the computed value or not, and its \<open>set\<close>.\<close>

record css_hook =
  h_get :: "(sty_elem \<Rightarrow> bool \<Rightarrow> css option) option"
  h_set :: "(sty_elem \<Rightarrow> css \<Rightarrow> css option) option"

record css_env =
  c_known :: "ustr \<Rightarrow> bool"
  c_props :: "ustr dict"
  c_hooks :: "ustr \<Rightarrow> css_hook option"

definition inline :: "sty_elem \<Rightarrow> ustr \<Rightarrow> css" where
  "inline e n = (case s_style e of None \<Rightarrow> Txt [] | Some f \<Rightarrow> f n)"

definition set_inline :: "ustr \<Rightarrow> css \<Rightarrow> sty_elem \<Rightarrow> sty_elem" where
  "set_inline n v e = e \<lparr> s_style := map_option (\<lambda>f. f(n := v)) (s_style e) \<rparr>"

definition is_custom :: "ustr \<Rightarrow> bool" where
  "is_custom name = starts_with (u ''--'') name"

definition prop_name :: "css_env \<Rightarrow> ustr \<Rightarrow> ustr" where
  "prop_name b name = (if is_custom name then name else fst (finalPropName (c_known b) (c_props b) [] (camelCase name)))"

definition hook_for :: "css_env \<Rightarrow> ustr \<Rightarrow> css_hook option" where
  "hook_for b name = (case c_hooks b (prop_name b name) of Some h \<Rightarrow> Some h | None \<Rightarrow> c_hooks b (camelCase name))"

definition hook_get :: "css_env \<Rightarrow> ustr \<Rightarrow> sty_elem \<Rightarrow> bool \<Rightarrow> css option" where
  "hook_get b name e computed = (case hook_for b name of Some h \<Rightarrow> (case h_get h of Some f \<Rightarrow> f e computed | None \<Rightarrow> None) | None \<Rightarrow> None)"

text \<open>\<open>jQuery.style\<close> without a value.\<close>

definition style_get :: "css_env \<Rightarrow> sty_elem \<Rightarrow> ustr \<Rightarrow> css option" where
  "style_get b e name =
    (if s_type e = 3 \<or> s_type e = 8 \<or> s_style e = None then None
     else (case hook_get b name e False of Some r \<Rightarrow> Some r | None \<Rightarrow> Some (inline e (prop_name b name))))"

definition curCSS :: "css_env \<Rightarrow> sty_elem \<Rightarrow> ustr \<Rightarrow> css option" where
  "curCSS b e name =
    (let ret = s_computed e (inline e) name
     in if ret = Some (Txt []) \<and> \<not> s_attached e then style_get b e name else ret)"

text \<open>The third argument of \<open>jQuery.css\<close>: none, \<open>true\<close>, or another text.\<close>

datatype want = AsIs | Number | IfNumber

definition cssNormalTransform :: "ustr \<Rightarrow> ustr option" where
  "cssNormalTransform name = (if name = u ''letterSpacing'' then Some (u ''0'') else if name = u ''fontWeight'' then Some (u ''400'') else None)"

definition jq_css :: "css_env \<Rightarrow> sty_elem \<Rightarrow> ustr \<Rightarrow> want \<Rightarrow> css option" where
  "jq_css b e name want =
    (let n = prop_name b name;
         val = (case hook_get b name e True of Some v \<Rightarrow> Some v | None \<Rightarrow> curCSS b e n);
         val = (case cssNormalTransform n of Some t \<Rightarrow> if val = Some (Txt (u ''normal'')) then Some (Txt t) else val | None \<Rightarrow> val);
         num = (case val of Some v \<Rightarrow> parseFloat v | None \<Rightarrow> None)
     in (case want of AsIs \<Rightarrow> val
         | Number \<Rightarrow> Some (Len (case num of Some q \<Rightarrow> q | None \<Rightarrow> 0) [])
         | IfNumber \<Rightarrow> (case num of Some q \<Rightarrow> Some (Len q []) | None \<Rightarrow> val)))"

text \<open>The end of \<open>jQuery.style\<close>: the hook, then the style object.\<close>

definition put_style :: "css_env \<Rightarrow> ustr \<Rightarrow> css \<Rightarrow> sty_elem \<Rightarrow> sty_elem" where
  "put_style b name value e =
    (case (case hook_for b name of Some h \<Rightarrow> h_set h | None \<Rightarrow> None) of
       None \<Rightarrow> set_inline (prop_name b name) value e
     | Some f \<Rightarrow> (case f e value of None \<Rightarrow> e | Some v \<Rightarrow> set_inline (prop_name b name) v e))"

text \<open>A value to set: \<open>null\<close> or NaN, a number, or a text.\<close>

datatype sval = VNothing | VNum rat | VText ustr

definition add_unit :: "ustr \<Rightarrow> rat \<Rightarrow> css" where
  "add_unit name q = Len q (if is_custom name \<or> cssNumber (camelCase name) then [] else u ''px'')"

text \<open>\<open>adjust\<close> is \<open>adjustCSS\<close>: the element it leaves, and the number for a relative value.\<close>

definition style_set :: "css_env \<Rightarrow> (sty_elem \<Rightarrow> ustr \<Rightarrow> ustr \<times> rat \<times> ustr \<Rightarrow> sty_elem \<times> rat option) \<Rightarrow> ustr \<Rightarrow> sval \<Rightarrow>
    sty_elem \<Rightarrow> sty_elem" where
  "style_set b adjust name value e =
    (if s_type e = 3 \<or> s_type e = 8 \<or> s_style e = None then e
     else (case value of
         VNothing \<Rightarrow> e
       | VNum q \<Rightarrow> put_style b name (add_unit name q) e
       | VText t \<Rightarrow> (case css_parts (Txt t) of
             Some (sign, q, unit) \<Rightarrow>
               if sign = [] then put_style b name (Txt t) e
               else (case adjust e (prop_name b name) (sign, q, unit) of
                   (e, None) \<Rightarrow> e
                 | (e, Some r) \<Rightarrow> put_style b name (if unit = [] \<or> is_custom name then add_unit name r else Len r unit) e)
           | None \<Rightarrow> put_style b name (Txt t) e)))"

section \<open>Showing and hiding\<close>

definition displayed :: "sty_elem \<Rightarrow> css" where
  "displayed e = inline e (u ''display'')"

definition isHiddenWithinTree :: "css_env \<Rightarrow> sty_elem \<Rightarrow> bool" where
  "isHiddenWithinTree b e \<longleftrightarrow> displayed e = Txt (u ''none'') \<or>
     displayed e = Txt [] \<and> s_attached e \<and> jq_css b e (u ''display'') AsIs = Some (Txt (u ''none''))"

text \<open>The elements of the page, the displays known by node name, and the display the browser gives a new element.\<close>

type_synonym page = "sty_elem list \<times> ustr dict"

definition getDefaultDisplay :: "(ustr \<Rightarrow> ustr) \<Rightarrow> sty_elem \<Rightarrow> ustr dict \<Rightarrow> ustr \<times> ustr dict" where
  "getDefaultDisplay new_display e defaults =
    (case dget defaults (s_name e) of
       Some (c # s) \<Rightarrow> (c # s, defaults)
     | _ \<Rightarrow> let d = new_display (s_name e); d = (if d = u ''none'' then u ''block'' else d) in (d, dput (s_name e) d defaults))"

definition show_value :: "css_env \<Rightarrow> (ustr \<Rightarrow> ustr) \<Rightarrow> nat \<Rightarrow> page \<Rightarrow> ustr option \<times> page" where
  "show_value b new_display i pg =
    (let e = fst pg ! i;
         value = (if displayed e = Txt (u ''none'') then (case s_saved e of Some (c # s) \<Rightarrow> Some (c # s) | _ \<Rightarrow> None) else None);
         e = (if displayed e = Txt (u ''none'') \<and> value = None then set_inline (u ''display'') (Txt []) e else e)
     in if displayed e = Txt [] \<and> isHiddenWithinTree b e
        then (case getDefaultDisplay new_display e (snd pg) of (d, defaults) \<Rightarrow> (Some d, ((fst pg)[i := e], defaults)))
        else (value, ((fst pg)[i := e], snd pg)))"

definition hide_value :: "nat \<Rightarrow> page \<Rightarrow> ustr option \<times> page" where
  "hide_value i pg =
    (let e = fst pg ! i
     in if displayed e \<noteq> Txt (u ''none'')
        then (Some (u ''none''), ((fst pg)[i := e \<lparr> s_saved := (case displayed e of Txt s \<Rightarrow> Some s | Len q un \<Rightarrow> None) \<rparr>], snd pg))
        else (None, pg))"

fun show_values :: "(nat \<Rightarrow> page \<Rightarrow> ustr option \<times> page) \<Rightarrow> nat list \<Rightarrow> page \<Rightarrow> (nat \<times> ustr) list \<times> page" where
  "show_values one [] pg = ([], pg)"
| "show_values one (i # is') pg =
    (if s_style (fst pg ! i) = None then show_values one is' pg
     else (case one i pg of (v, pg) \<Rightarrow> (case show_values one is' pg of (vs, pg) \<Rightarrow>
       (case v of Some d \<Rightarrow> (i, d) # vs | None \<Rightarrow> vs, pg))))"

definition set_displays :: "(nat \<times> ustr) list \<Rightarrow> sty_elem list \<Rightarrow> sty_elem list" where
  "set_displays vs es = fold (\<lambda>(i, d) es. es[i := set_inline (u ''display'') (Txt d) (es ! i)]) vs es"

definition showHide :: "css_env \<Rightarrow> (ustr \<Rightarrow> ustr) \<Rightarrow> bool \<Rightarrow> nat list \<Rightarrow> page \<Rightarrow> page" where
  "showHide b new_display shw elements pg =
    (case show_values (if shw then show_value b new_display else hide_value) elements pg of
       (vs, es, defaults) \<Rightarrow> (set_displays vs es, defaults))"

text \<open>\<open>.toggle\<close>, with a state or without.\<close>

definition fn_toggle :: "css_env \<Rightarrow> (ustr \<Rightarrow> ustr) \<Rightarrow> bool option \<Rightarrow> nat list \<Rightarrow> page \<Rightarrow> page" where
  "fn_toggle b new_display state self pg = (case state of
     Some s \<Rightarrow> showHide b new_display s self pg
   | None \<Rightarrow> fold (\<lambda>i pg. showHide b new_display (isHiddenWithinTree b (fst pg ! i)) [i] pg) self pg)"

section \<open>Sizes of boxes\<close>

datatype box = Content | Padding | Border | Margin

definition cssExpand :: "ustr list" where
  "cssExpand = map u [''Top'', ''Right'', ''Bottom'', ''Left'']"

definition sides :: "bool \<Rightarrow> ustr list" where
  "sides width = (if width then [cssExpand ! 1, cssExpand ! 3] else [cssExpand ! 0, cssExpand ! 2])"

text \<open>\<open>num\<close> is \<open>jQuery.css\<close> with the third argument \<open>true\<close>.\<close>

definition box_side :: "(ustr \<Rightarrow> rat) \<Rightarrow> box \<Rightarrow> bool \<Rightarrow> ustr \<Rightarrow> rat \<times> rat \<Rightarrow> rat \<times> rat" where
  "box_side num box isBorderBox side de =
    (let (delta, extra) = de;
         m = num (u ''margin'' @ side); p = num (u ''padding'' @ side); w = num (u ''border'' @ side @ u ''Width'');
         delta = (if box = Margin then delta + m else delta)
     in if \<not> isBorderBox
        then (let delta = delta + p in if box \<noteq> Padding then (delta + w, extra) else (delta, extra + w))
        else (let delta = (if box = Content then delta - p else delta)
              in (if box \<noteq> Margin then delta - w else delta, extra)))"

definition boxModelAdjustment :: "(ustr \<Rightarrow> rat) \<Rightarrow> rat option \<Rightarrow> bool \<Rightarrow> box \<Rightarrow> bool \<Rightarrow> rat option \<Rightarrow> rat" where
  "boxModelAdjustment num offset width box isBorderBox computedVal =
    (if box = (if isBorderBox then Border else Content) then 0
     else (case fold (box_side num box isBorderBox) (sides width) (0, 0) of
       (delta, extra) \<Rightarrow> (case computedVal of
           Some v \<Rightarrow> if \<not> isBorderBox \<and> v \<ge> 0
             then delta + (case offset of Some z \<Rightarrow> max 0 (of_int \<lceil>z - v - delta - extra - 1 / 2\<rceil>) | None \<Rightarrow> 0) else delta
         | None \<Rightarrow> delta)))"

text \<open>What \<open>getWidthOrHeight\<close> asks the browser about the element.\<close>

record measures =
  m_reliable :: bool
  m_reliable_tr :: bool
  m_border_box :: bool
  m_value :: css
  m_tr :: bool
  m_inline :: bool
  m_rects :: bool
  m_offset :: "rat option"
  m_num :: "ustr \<Rightarrow> rat"

definition getWidthOrHeight :: "measures \<Rightarrow> bool \<Rightarrow> box option \<Rightarrow> css" where
  "getWidthOrHeight m width extra =
    (let isBorderBox = ((\<not> m_reliable m \<or> extra \<noteq> None) \<and> m_border_box m);
         val = m_value m
     in if nonpx val \<and> extra = None then val
        else let val = (if nonpx val then Txt (u ''auto'') else val);
                 by_offset = ((\<not> m_reliable m \<and> isBorderBox \<or> \<not> m_reliable_tr m \<and> m_tr m \<or> val = Txt (u ''auto'') \<or>
                    (parseFloat val = None \<or> parseFloat val = Some 0) \<and> m_inline m) \<and> m_rects m);
                 isBorderBox' = (if by_offset then m_border_box m else isBorderBox);
                 valueIsBorderBox = (if by_offset then m_offset m \<noteq> None else isBorderBox);
                 q = (case (if by_offset then m_offset m else None) of Some z \<Rightarrow> z
                      | None \<Rightarrow> (case parseFloat val of Some z \<Rightarrow> z | None \<Rightarrow> 0))
             in Len (q + boxModelAdjustment (m_num m) (m_offset m) width
                  (case extra of Some x \<Rightarrow> x | None \<Rightarrow> if isBorderBox' then Border else Content) valueIsBorderBox (Some q)) (u ''px''))"

text \<open>The \<open>set\<close> hook of \<open>width\<close> and \<open>height\<close>; \<open>in_pixels\<close> is what the browser computes for a value in another unit.\<close>

definition dimension_set :: "measures \<Rightarrow> (css \<Rightarrow> css) \<Rightarrow> bool \<Rightarrow> css \<Rightarrow> box option \<Rightarrow> css" where
  "dimension_set m in_pixels width value extra =
    (let subtract = (case extra of Some x \<Rightarrow> boxModelAdjustment (m_num m) (m_offset m) width x (m_border_box m) None | None \<Rightarrow> 0);
         value = (case css_parts value of
             Some (sign, q, unit) \<Rightarrow> if subtract \<noteq> 0 \<and> unit \<noteq> [] \<and> unit \<noteq> u ''px'' then in_pixels value else value
           | None \<Rightarrow> value)
     in setPositiveNumber value subtract)"

text \<open>\<open>swap\<close>: the result under other inline styles, and the styles restored.\<close>

definition css_swap :: "(ustr \<times> css) list \<Rightarrow> (sty_elem \<Rightarrow> 'r) \<Rightarrow> sty_elem \<Rightarrow> 'r \<times> sty_elem" where
  "css_swap options callback e =
    (let old = map (\<lambda>(name, v). (name, inline e name)) options;
         ret = callback (fold (\<lambda>(name, v). set_inline name v) options e)
     in (ret, fold (\<lambda>(name, v). set_inline name v) old (fold (\<lambda>(name, v). set_inline name v) options e)))"

section \<open>What showing and hiding do\<close>

lemma length_show_values:
  assumes "\<And>i pg. length (fst (snd (one i pg))) = length (fst pg)"
  shows "length (fst (snd (show_values one is' pg))) = length (fst pg)"
proof (induction is' arbitrary: pg)
  case (Cons i is')
  obtain v pg1 where p: "one i pg = (v, pg1)" by (rule prod.exhaust)
  have "length (fst (snd (show_values one is' pg1))) = length (fst pg)" using Cons [of pg1] assms [of i pg] p by simp
  then show ?case using Cons p by (auto simp: split_beta)
qed simp

lemma length_set_displays [simp]: "length (set_displays vs es) = length es"
  unfolding set_displays_def by (induction vs arbitrary: es) auto

lemma style_set_inline [simp]: "s_style (set_inline n v e) = None \<longleftrightarrow> s_style e = None"
  by (simp add: set_inline_def)

lemma displayed_set [simp]: "s_style e \<noteq> None \<Longrightarrow> displayed (set_inline (u ''display'') v e) = v"
  by (auto simp: displayed_def inline_def set_inline_def)

lemma set_displays_snoc: "set_displays (vs @ [(i, d)]) es =
    (set_displays vs es)[i := set_inline (u ''display'') (Txt d) (set_displays vs es ! i)]"
  by (simp add: set_displays_def)

lemma set_displays_nth:
  assumes "j < length es" "s_style (es ! j) \<noteq> None"
  shows "s_style (set_displays vs es ! j) \<noteq> None \<and>
    (if j \<in> fst ` set vs then \<exists>d. (j, d) \<in> set vs \<and> set_displays vs es ! j = set_inline (u ''display'') (Txt d) (es ! j)
     else set_displays vs es ! j = es ! j)"
proof (induction vs rule: rev_induct)
  case Nil
  then show ?case using assms by (simp add: set_displays_def)
next
  case (snoc v vs)
  obtain i d where v: "v = (i, d)" by (cases v)
  have twice: "set_inline n a (set_inline n c e) = set_inline n a e" for n a c e
    by (simp add: set_inline_def option.map_comp comp_def)
  show ?case
  proof (cases "i = j")
    case True
    then show ?thesis using snoc assms
      by (cases "j \<in> fst ` set vs") (auto simp: v set_displays_snoc twice simp del: not_None_eq)
  next
    case False
    then show ?thesis using snoc by (cases "j \<in> fst ` set vs") (auto simp: v set_displays_snoc simp del: not_None_eq)
  qed
qed

text \<open>A display that is no text for hiding.\<close>

definition shown :: "ustr \<Rightarrow> bool" where
  "shown d \<longleftrightarrow> d \<noteq> [] \<and> d \<noteq> u ''none''"

lemma shown_visible: "s_style e \<noteq> None \<Longrightarrow> shown d \<Longrightarrow> \<not> isHiddenWithinTree b (set_inline (u ''display'') (Txt d) e)"
  by (simp add: isHiddenWithinTree_def shown_def)

definition defaults_ok :: "ustr dict \<Rightarrow> bool" where
  "defaults_ok defaults \<longleftrightarrow> (\<forall>n d. dget defaults n = Some d \<longrightarrow> d \<noteq> u ''none'')"

lemma defaults_ok_dput: "defaults_ok defaults \<Longrightarrow> d \<noteq> u ''none'' \<Longrightarrow> defaults_ok (dput n d defaults)"
  by (simp add: defaults_ok_def)

lemma getDefaultDisplay_ok:
  assumes "getDefaultDisplay nd e defaults = (d, defaults')" "defaults_ok defaults" "\<forall>n. nd n \<noteq> []"
  shows "shown d \<and> defaults_ok defaults'"
proof -
  let ?d = "if nd (s_name e) = u ''none'' then u ''block'' else nd (s_name e)"
  have new: "shown ?d" using assms(3) by (simp add: shown_def u_def)
  show ?thesis
  proof (cases "\<exists>c s. dget defaults (s_name e) = Some (c # s)")
    case True
    then obtain c s where c: "dget defaults (s_name e) = Some (c # s)" by blast
    then have "d = c # s" "defaults' = defaults" using assms(1) by (simp_all add: getDefaultDisplay_def)
    moreover have "c # s \<noteq> u ''none''" using c assms(2) unfolding defaults_ok_def by blast
    ultimately show ?thesis using assms(2) by (simp add: shown_def)
  next
    case False
    then have "d = ?d" "defaults' = dput (s_name e) ?d defaults"
      using assms(1) by (auto simp: getDefaultDisplay_def Let_def split: option.splits list.splits)
    then show ?thesis using new assms(2) by (simp add: defaults_ok_dput shown_def)
  qed
qed

abbreviation clear_display :: "sty_elem \<Rightarrow> sty_elem" where
  "clear_display e \<equiv> set_inline (u ''display'') (Txt []) e"

text \<open>What the first loop of \<open>showHide\<close> does to an element, \<open>ds\<close> being the displays it decides on.\<close>

definition show_post :: "css_env \<Rightarrow> bool \<Rightarrow> sty_elem \<Rightarrow> sty_elem \<Rightarrow> ustr set \<Rightarrow> bool" where
  "show_post b seen e e' ds \<longleftrightarrow>
    (e' = e \<or> displayed e = Txt (u ''none'') \<and> e' = clear_display e) \<and> (\<forall>d \<in> ds. shown d) \<and>
    (seen \<longrightarrow> ds \<noteq> {} \<or> \<not> isHiddenWithinTree b e') \<and> (\<not> isHiddenWithinTree b e \<or> \<not> seen \<longrightarrow> e' = e \<and> ds = {}) \<and>
    (displayed e = Txt (u ''none'') \<longrightarrow>
      (\<forall>s. s_saved e = Some s \<and> s \<noteq> [] \<longrightarrow> e' = e \<and> ds \<subseteq> {s}) \<and>
      (seen \<and> s_saved e = Some [] \<and> \<not> isHiddenWithinTree b (clear_display e) \<longrightarrow> e' = clear_display e \<and> ds = {}))"

lemma show_post_comp:
  assumes "s_style e \<noteq> None" "show_post b s1 e e1 d1" "show_post b s2 e1 e2 d2"
  shows "show_post b (s1 \<or> s2) e e2 (d1 \<union> d2)"
proof -
  have "[] \<noteq> u ''none''" by (simp add: u_def)
  with assms(1) have n: "displayed (clear_display e) \<noteq> Txt (u ''none'')" by simp
  show ?thesis
  proof (cases "e1 = e")
    case True
    note p1 = assms(2) [unfolded True] and p2 = assms(3) [unfolded True]
    show ?thesis unfolding show_post_def
    proof (intro conjI impI allI)
      show "e2 = e \<or> displayed e = Txt (u ''none'') \<and> e2 = clear_display e" using p2 by (simp add: show_post_def)
      show "\<forall>d \<in> d1 \<union> d2. shown d" using p1 p2 by (auto simp: show_post_def)
      show "d1 \<union> d2 \<noteq> {} \<or> \<not> isHiddenWithinTree b e2" if "s1 \<or> s2" using p1 p2 that by (auto simp: show_post_def)
      show "e2 = e" "d1 \<union> d2 = {}" if "\<not> isHiddenWithinTree b e \<or> \<not> (s1 \<or> s2)" using p1 p2 that by (auto simp: show_post_def)
    next
      fix s assume d: "displayed e = Txt (u ''none'')" and s: "s_saved e = Some s \<and> s \<noteq> []"
      then show "e2 = e" "d1 \<union> d2 \<subseteq> {s}" using p1 p2 by (auto simp: show_post_def)
    next
      assume d: "displayed e = Txt (u ''none'')"
        and c: "(s1 \<or> s2) \<and> s_saved e = Some [] \<and> \<not> isHiddenWithinTree b (clear_display e)"
      have "\<not> s1" using p1 d c n by (auto simp: show_post_def)
      then show "e2 = clear_display e" "d1 \<union> d2 = {}" using p1 p2 d c by (auto simp: show_post_def)
    qed
  next
    case False
    then have e1: "e1 = clear_display e" "displayed e = Txt (u ''none'')" "s1" using assms(2) unfolding show_post_def by blast+
    moreover have "e2 = e1" using assms(3) n e1 unfolding show_post_def by blast
    ultimately show ?thesis using assms(2,3) False unfolding show_post_def by blast
  qed
qed

lemma show_value_post:
  assumes "show_value b nd i (es, df) = (v, es', df')" "s_style (es ! i) \<noteq> None" "defaults_ok df" "\<forall>n. nd n \<noteq> []"
    "s_saved (es ! i) \<noteq> Some (u ''none'')"
  shows "\<exists>e'. es' = es[i := e'] \<and> show_post b True (es ! i) e' (set_option v) \<and> defaults_ok df'"
proof -
  let ?e = "es ! i"
  let ?saved = "\<exists>s. s_saved ?e = Some s \<and> s \<noteq> []"
  have none: "[] \<noteq> u ''none''" "u ''none'' \<noteq> []" by (simp_all add: u_def)
  have hid: "displayed ?e = Txt (u ''none'') \<Longrightarrow> isHiddenWithinTree b ?e" by (simp add: isHiddenWithinTree_def)
  consider (saved) s where "displayed ?e = Txt (u ''none'')" "s_saved ?e = Some s" "s \<noteq> []"
    | (other) e' where "\<not> (displayed ?e = Txt (u ''none'') \<and> ?saved)"
        "e' = (if displayed ?e = Txt (u ''none'') then clear_display ?e else ?e)" by blast
  then show ?thesis
  proof cases
    case saved
    then have "v = Some s" "es' = es[i := ?e]" "df' = df" using assms(1)
      by (auto simp: show_value_def Let_def none split: list.splits)
    then show ?thesis using saved assms(3,5) hid by (auto simp: show_post_def shown_def intro!: exI [of _ ?e])
  next
    case other
    have e': "displayed e' \<noteq> Txt (u ''none'')" using other(2) assms(2) none by auto
    have v: "show_value b nd i (es, df) =
      (if isHiddenWithinTree b e' then (case getDefaultDisplay nd e' df of (d, df) \<Rightarrow> (Some d, es[i := e'], df)) else (None, es[i := e'], df))"
      using other e' by (auto simp: show_value_def Let_def isHiddenWithinTree_def split: option.splits list.splits)
    obtain d df2 where g: "getDefaultDisplay nd e' df = (d, df2)" by (rule prod.exhaust)
    show ?thesis
    proof (cases "isHiddenWithinTree b e'")
      case True
      then have r: "v = Some d" "es' = es[i := e']" "df' = df2" using v g assms(1) by auto
      show ?thesis using True r getDefaultDisplay_ok [OF g assms(3,4)] other hid
        by (intro exI [of _ e']) (auto simp: show_post_def split: if_splits)
    next
      case False
      then have r: "v = None" "es' = es[i := e']" "df' = df" using v assms(1) by auto
      show ?thesis using False r other assms(3) hid by (intro exI [of _ e']) (auto simp: show_post_def split: if_splits)
    qed
  qed
qed

lemma show_values_post:
  assumes "show_values (show_value b nd) is' (es, df) = (vs, es', df')" "\<forall>i \<in> set is'. i < length es"
    "defaults_ok df" "\<forall>n. nd n \<noteq> []" "\<forall>e \<in> set es. s_saved e \<noteq> Some (u ''none'')"
  shows "length es' = length es \<and> defaults_ok df' \<and> (\<forall>j < length es.
    if s_style (es ! j) = None then es' ! j = es ! j else show_post b (j \<in> set is') (es ! j) (es' ! j) {d. (j, d) \<in> set vs})"
  using assms
proof (induction is' arbitrary: es df vs es' df')
  case Nil
  then show ?case by (auto simp: show_post_def)
next
  case (Cons i is')
  show ?case
  proof (cases "s_style (es ! i) = None")
    case True
    with Cons.prems have "show_values (show_value b nd) is' (es, df) = (vs, es', df')" by simp
    note IH = Cons.IH [OF this _ Cons.prems(3-5)]
    have "\<forall>i \<in> set is'. i < length es" using Cons.prems(2) by simp
    note IH = IH [OF this]
    have "s_style (es ! j) \<noteq> None \<Longrightarrow> j \<in> set (i # is') \<longleftrightarrow> j \<in> set is'" for j using True by auto
    with IH show ?thesis by (simp del: list.set)
  next
    case False
    obtain v es1 df1 where v: "show_value b nd i (es, df) = (v, es1, df1)" by (metis prod.exhaust)
    obtain vs2 where r: "show_values (show_value b nd) is' (es1, df1) = (vs2, es', df')"
      "vs = (case v of Some d \<Rightarrow> (i, d) # vs2 | None \<Rightarrow> vs2)"
      using Cons.prems(1) False v by (auto split: prod.splits)
    have i: "i < length es" using Cons.prems(2) by simp
    have saved: "s_saved (es ! i) \<noteq> Some (u ''none'')" using Cons.prems(5) i by simp
    from show_value_post [OF v False Cons.prems(3,4) saved] obtain e' where
      e': "es1 = es[i := e']" "show_post b True (es ! i) e' (set_option v)" "defaults_ok df1" by blast
    have keeps: "s_saved e' = s_saved (es ! i)" "s_style e' = None \<longleftrightarrow> s_style (es ! i) = None"
      using e'(2) by (auto simp: show_post_def set_inline_def)
    have "\<forall>e \<in> set es1. s_saved e \<noteq> Some (u ''none'')"
      using Cons.prems(5) saved keeps(1) set_update_subset_insert [of es i e'] by (auto simp: e'(1))
    note saved1 = this
    have l1: "length es1 = length es" by (simp add: e'(1))
    have "\<forall>i \<in> set is'. i < length es1" using Cons.prems(2) l1 by simp
    from Cons.IH [OF r(1) this e'(3) Cons.prems(4) saved1] have IH: "length es' = length es" "defaults_ok df'"
      "\<forall>j < length es. if s_style (es1 ! j) = None then es' ! j = es1 ! j
         else show_post b (j \<in> set is') (es1 ! j) (es' ! j) {d. (j, d) \<in> set vs2}" unfolding l1 by blast+
    have "if s_style (es ! j) = None then es' ! j = es ! j
        else show_post b (j \<in> set (i # is')) (es ! j) (es' ! j) {d. (j, d) \<in> set vs}" if j: "j < length es" for j
    proof (cases "j = i")
      case True
      have "{d. (i, d) \<in> set vs} = set_option v \<union> {d. (i, d) \<in> set vs2}" using r(2) by (auto split: option.splits)
      moreover have "show_post b (i \<in> set is') e' (es' ! i) {d. (i, d) \<in> set vs2}"
        using IH(3) [rule_format, OF i] i False keeps(2) by (simp add: e'(1) split: if_splits)
      ultimately show ?thesis using show_post_comp [OF False e'(2)] True False by auto
    next
      case neq: False
      have "{d. (j, d) \<in> set vs} = {d. (j, d) \<in> set vs2}" using r(2) neq by (auto split: option.splits)
      with IH(3) [rule_format, OF j] neq show ?thesis by (auto simp: e'(1))
    qed
    then show ?thesis using IH(1,2) by blast
  qed
qed

definition kept_display :: "sty_elem \<Rightarrow> sty_elem" where
  "kept_display e = e \<lparr> s_saved := (case displayed e of Txt s \<Rightarrow> Some s | Len q un \<Rightarrow> None) \<rparr>"

lemma kept_display_simps [simp]: "displayed (kept_display e) = displayed e" "s_style (kept_display e) = s_style e"
  "kept_display (kept_display e) = kept_display e"
  by (simp_all add: kept_display_def displayed_def inline_def)

lemma hide_value_simps:
  "displayed (es ! i) = Txt (u ''none'') \<Longrightarrow> hide_value i (es, df) = (None, (es, df))"
  "displayed (es ! i) \<noteq> Txt (u ''none'') \<Longrightarrow> hide_value i (es, df) = (Some (u ''none''), (es[i := kept_display (es ! i)], df))"
  by (simp_all add: hide_value_def kept_display_def Let_def)

lemma hide_values_post:
  assumes "show_values hide_value is' (es, df) = (vs, es', df')" "\<forall>i \<in> set is'. i < length es"
  shows "length es' = length es \<and> df' = df \<and> (\<forall>j < length es.
    if s_style (es ! j) = None \<or> displayed (es ! j) = Txt (u ''none'') \<or> j \<notin> set is' then es' ! j = es ! j \<and> j \<notin> fst ` set vs
    else es' ! j = kept_display (es ! j) \<and> j \<in> fst ` set vs) \<and> snd ` set vs \<subseteq> {u ''none''}"
  using assms
proof (induction is' arbitrary: es vs)
  case Nil
  then show ?case by auto
next
  case (Cons i is')
  have i: "i < length es" using Cons.prems(2) by simp
  show ?case
  proof (cases "s_style (es ! i) = None \<or> displayed (es ! i) = Txt (u ''none'')")
    case True
    with Cons.prems have "show_values hide_value is' (es, df) = (vs, es', df')"
      by (cases "s_style (es ! i) = None") (simp_all add: hide_value_simps(1) split_beta prod_eq_iff)
    from Cons.IH [OF this] Cons.prems(2) show ?thesis using True by auto
  next
    case False
    let ?es = "es[i := kept_display (es ! i)]"
    obtain vs2 where r: "show_values hide_value is' (?es, df) = (vs2, es', df')" "vs = (i, u ''none'') # vs2"
      using Cons.prems(1) False by (auto simp: hide_value_simps(2) split_beta prod_eq_iff)
    from Cons.IH [OF r(1)] Cons.prems(2) have IH: "length es' = length es" "df' = df" "snd ` set vs2 \<subseteq> {u ''none''}"
      "\<forall>j < length es. if s_style (?es ! j) = None \<or> displayed (?es ! j) = Txt (u ''none'') \<or> j \<notin> set is'
         then es' ! j = ?es ! j \<and> j \<notin> fst ` set vs2 else es' ! j = kept_display (?es ! j) \<and> j \<in> fst ` set vs2" by auto
    have main: "if s_style (es ! j) = None \<or> displayed (es ! j) = Txt (u ''none'') \<or> j \<notin> set (i # is') then es' ! j = es ! j \<and> j \<notin> fst ` set vs
      else es' ! j = kept_display (es ! j) \<and> j \<in> fst ` set vs" if j: "j < length es" for j
      using IH(4) j False i r(2) by (cases "j = i") (auto split: if_splits)
    show ?thesis
    proof (intro conjI allI impI)
      show "snd ` set vs \<subseteq> {u ''none''}" using IH(3) r(2) by simp
    qed (use IH(1,2) main in simp_all)
  qed
qed

lemma hidden_cong:
  assumes "hook_for b (u ''display'') = None" "s_style e = s_style e'" "s_attached e = s_attached e'" "s_computed e = s_computed e'"
  shows "isHiddenWithinTree b e = isHiddenWithinTree b e'"
proof -
  have i: "inline e = inline e'" using assms(2) by (simp add: inline_def [abs_def])
  have c: "s_attached x \<Longrightarrow> curCSS b x n = s_computed x (inline x) n" for x n by (simp add: curCSS_def)
  have "s_attached e \<Longrightarrow> jq_css b e (u ''display'') AsIs = jq_css b e' (u ''display'') AsIs"
    using assms(1,3,4) by (simp add: jq_css_def hook_get_def c i Let_def)
  then show ?thesis using i assms(3) by (auto simp: isHiddenWithinTree_def displayed_def)
qed

lemma set_displays_other: "j \<notin> fst ` set vs \<Longrightarrow> set_displays vs es ! j = es ! j"
  by (induction vs rule: rev_induct) (auto simp: set_displays_snoc, auto simp: set_displays_def)

lemma showHide_hide:
  assumes "\<forall>i \<in> set ids. i < length es" "j < length es"
  shows "snd (showHide b nd False ids (es, df)) = df \<and> length (fst (showHide b nd False ids (es, df))) = length es \<and>
    fst (showHide b nd False ids (es, df)) ! j =
      (if s_style (es ! j) = None \<or> displayed (es ! j) = Txt (u ''none'') \<or> j \<notin> set ids then es ! j
       else set_inline (u ''display'') (Txt (u ''none'')) (kept_display (es ! j)))"
proof -
  obtain vs es' df' where v: "show_values hide_value ids (es, df) = (vs, es', df')" by (metis prod.exhaust)
  note p = hide_values_post [OF v assms(1)]
  have l: "length es' = length es" "df' = df" "snd ` set vs \<subseteq> {u ''none''}" using p by simp_all
  have none: "d = u ''none''" if "(j, d) \<in> set vs" for d using l(3) that by force
  have e: "if s_style (es ! j) = None \<or> displayed (es ! j) = Txt (u ''none'') \<or> j \<notin> set ids then es' ! j = es ! j \<and> j \<notin> fst ` set vs
    else es' ! j = kept_display (es ! j) \<and> j \<in> fst ` set vs" using p assms(2) by blast
  have r: "showHide b nd False ids (es, df) = (set_displays vs es', df)" by (simp add: showHide_def v l(2))
  have "set_displays vs es' ! j = (if s_style (es ! j) = None \<or> displayed (es ! j) = Txt (u ''none'') \<or> j \<notin> set ids then es ! j
       else set_inline (u ''display'') (Txt (u ''none'')) (kept_display (es ! j)))"
  proof (cases "s_style (es ! j) = None \<or> displayed (es ! j) = Txt (u ''none'') \<or> j \<notin> set ids")
    case True
    then show ?thesis using e set_displays_other [of j vs es'] by simp
  next
    case False
    then have s: "j \<in> fst ` set vs" "es' ! j = kept_display (es ! j)" "s_style (es' ! j) \<noteq> None" using e by simp_all
    from set_displays_nth [OF _ s(3), of vs] l(1) assms(2) s(1)
    obtain d where "(j, d) \<in> set vs" "set_displays vs es' ! j = set_inline (u ''display'') (Txt d) (es' ! j)" by auto
    then show ?thesis using none s(2) False by auto
  qed
  then show ?thesis using r l(1) by simp
qed

lemma showHide_show:
  assumes "\<forall>i \<in> set ids. i < length es" "j < length es" "s_style (es ! j) \<noteq> None" "defaults_ok df" "\<forall>n. nd n \<noteq> []"
    "\<forall>e \<in> set es. s_saved e \<noteq> Some (u ''none'')"
  shows "\<exists>e' ds. show_post b (j \<in> set ids) (es ! j) e' ds \<and>
    (if ds = {} then fst (showHide b nd True ids (es, df)) ! j = e'
     else \<exists>d \<in> ds. fst (showHide b nd True ids (es, df)) ! j = set_inline (u ''display'') (Txt d) e')"
proof -
  obtain vs es' df' where v: "show_values (show_value b nd) ids (es, df) = (vs, es', df')" by (metis prod.exhaust)
  note p = show_values_post [OF v assms(1,4-6)]
  then have s: "show_post b (j \<in> set ids) (es ! j) (es' ! j) {d. (j, d) \<in> set vs}" using assms(2,3) by (auto split: if_splits)
  then have "s_style (es' ! j) \<noteq> None" using assms(3) by (auto simp: show_post_def)
  from set_displays_nth [OF _ this, of vs] p assms(2)
  have "if j \<in> fst ` set vs then \<exists>d. (j, d) \<in> set vs \<and> set_displays vs es' ! j = set_inline (u ''display'') (Txt d) (es' ! j)
     else set_displays vs es' ! j = es' ! j" by simp
  moreover have "j \<in> fst ` set vs \<longleftrightarrow> {d. (j, d) \<in> set vs} \<noteq> {}" by force
  ultimately show ?thesis using s by (auto simp: showHide_def v intro!: exI [of _ "es' ! j"] exI [of _ "{d. (j, d) \<in> set vs}"] split: if_splits)
qed

text \<open>C35: After \<open>.hide()\<close> every element of the set is hidden, after \<open>.show()\<close> none is, also when a style sheet hides it,
  and showing what was hidden gives every element that was visible its own inline style back.\<close>

theorem show_hide:
  assumes "\<forall>i \<in> set ids. i < length es" "j \<in> set ids" "s_style (es ! j) \<noteq> None" "defaults_ok df" "\<forall>n. nd n \<noteq> []"
    "\<forall>e \<in> set es. s_saved e \<noteq> Some (u ''none'')"
  shows "isHiddenWithinTree b (fst (showHide b nd False ids (es, df)) ! j) \<and>
    \<not> isHiddenWithinTree b (fst (showHide b nd True ids (es, df)) ! j) \<and>
    (hook_for b (u ''display'') = None \<and> \<not> isHiddenWithinTree b (es ! j) \<and> displayed (es ! j) = Txt s \<longrightarrow>
      inline (fst (showHide b nd True ids (showHide b nd False ids (es, df))) ! j) = inline (es ! j))"
proof (intro conjI impI)
  have j: "j < length es" using assms(1,2) by blast
  note h = showHide_hide [OF assms(1) j]
  show "isHiddenWithinTree b (fst (showHide b nd False ids (es, df)) ! j)"
    using h assms(2,3) by (auto simp: isHiddenWithinTree_def)
  from showHide_show [OF assms(1) j assms(3-6), of b] assms(2) obtain e' ds where e: "show_post b True (es ! j) e' ds"
    "if ds = {} then fst (showHide b nd True ids (es, df)) ! j = e'
     else \<exists>d \<in> ds. fst (showHide b nd True ids (es, df)) ! j = set_inline (u ''display'') (Txt d) e'" by auto
  have "s_style e' \<noteq> None" using e(1) assms(3) by (auto simp: show_post_def)
  then show "\<not> isHiddenWithinTree b (fst (showHide b nd True ids (es, df)) ! j)"
    using e shown_visible by (auto simp: show_post_def split: if_splits)
next
  assume a: "hook_for b (u ''display'') = None \<and> \<not> isHiddenWithinTree b (es ! j) \<and> displayed (es ! j) = Txt s"
  show "inline (fst (showHide b nd True ids (showHide b nd False ids (es, df))) ! j) = inline (es ! j)"
  proof -
    have j: "j < length es" using assms(1,2) by blast
    note h = showHide_hide [OF assms(1) j, of b nd df]
    let ?es = "fst (showHide b nd False ids (es, df))"
    let ?e = "es ! j" let ?c = "clear_display (?es ! j)"
    have p: "showHide b nd False ids (es, df) = (?es, df)" "length ?es = length es" using h by (simp_all add: prod_eq_iff)
    have d: "displayed ?e = Txt s" "s \<noteq> u ''none''" using a by (auto simp: isHiddenWithinTree_def)
    have e1: "?es ! j = set_inline (u ''display'') (Txt (u ''none'')) (?e \<lparr> s_saved := Some s \<rparr>)"
      using h assms(2,3) d by (auto simp: kept_display_def)
    then have st: "s_style (?es ! j) \<noteq> None" "displayed (?es ! j) = Txt (u ''none'')" "s_saved (?es ! j) = Some s"
      using assms(3) by (simp_all, simp add: set_inline_def)
    have "s_saved (?es ! k) \<noteq> Some (u ''none'')" if "k < length es" for k
      using showHide_hide [OF assms(1) that, of b nd df] assms(6) that nth_mem [OF that]
      by (auto simp: kept_display_def set_inline_def split: css.splits)
    then have saved: "\<forall>e \<in> set ?es. s_saved e \<noteq> Some (u ''none'')" by (auto simp: in_set_conv_nth p(2))
    have ids: "\<forall>i \<in> set ids. i < length ?es" using assms(1) p(2) by simp
    have j': "j < length ?es" using j p(2) by simp
    from showHide_show [OF ids j' st(1) assms(4,5) saved, of b] assms(2) obtain e' ds where
      e: "show_post b True (?es ! j) e' ds"
      "if ds = {} then fst (showHide b nd True ids (?es, df)) ! j = e'
       else \<exists>d \<in> ds. fst (showHide b nd True ids (?es, df)) ! j = set_inline (u ''display'') (Txt d) e'" by auto
    have same: "inline (set_inline (u ''display'') (Txt s) (?es ! j)) = inline ?e"
      using d assms(3) by (auto simp: e1 set_inline_def inline_def displayed_def)
    show ?thesis
    proof (cases "s = []")
      case True
      have "isHiddenWithinTree b ?c = isHiddenWithinTree b ?e"
      proof (rule hidden_cong)
        obtain f where f: "s_style ?e = Some f" using assms(3) by blast
        have "f (u ''display'') = Txt []" using d(1) True f by (simp add: displayed_def inline_def)
        then show "s_style ?c = s_style ?e" by (simp add: e1 set_inline_def f fun_upd_idem)
      qed (use a in \<open>simp_all add: e1 set_inline_def\<close>)
      then have "e' = ?c" "ds = {}" using e(1) st a True by (auto simp: show_post_def)
      then show ?thesis using e(2) same True by (subst p(1)) simp
    next
      case False
      then have "e' = ?es ! j" "ds \<subseteq> {s}" using e(1) st by (auto simp: show_post_def)
      moreover have "ds \<noteq> {}"
        using e(1) st(2) calculation(1) by (auto simp: show_post_def isHiddenWithinTree_def)
      ultimately have "fst (showHide b nd True ids (?es, df)) ! j = set_inline (u ''display'') (Txt s) (?es ! j)" using e(2) by auto
      then show ?thesis using same by (subst p(1)) simp
    qed
  qed
qed

text \<open>A page with a paragraph, and one that a style sheet hides.\<close>

definition sample_elem :: "ustr \<Rightarrow> ustr \<Rightarrow> sty_elem" where
  "sample_elem own sheet = \<lparr> s_type = 1, s_name = u ''P'', s_style = Some (\<lambda>n. Txt (if n = u ''display'' then own else [])),
     s_attached = True, s_saved = None,
     s_computed = (\<lambda>f n. if n = u ''display'' then Some (if f n = Txt [] then Txt sheet else f n) else None) \<rparr>"

definition plain_env :: css_env where
  "plain_env = \<lparr> c_known = (\<lambda>_. True), c_props = [], c_hooks = (\<lambda>_. None) \<rparr>"

lemma show_hide_witness:
  "isHiddenWithinTree plain_env (sample_elem [] (u ''none'')) \<and>
   \<not> isHiddenWithinTree plain_env (fst (showHide plain_env (\<lambda>_. u ''block'') True [0, 1]
       ([sample_elem (u ''inline'') (u ''block''), sample_elem [] (u ''none'')], [])) ! 1) \<and>
   inline (fst (showHide plain_env (\<lambda>_. u ''block'') True [0, 1] (showHide plain_env (\<lambda>_. u ''block'') False [0, 1]
       ([sample_elem (u ''inline'') (u ''block''), sample_elem [] (u ''none'')], []))) ! 0)
     = inline (sample_elem (u ''inline'') (u ''block''))"
proof -
  let ?es = "[sample_elem (u ''inline'') (u ''block''), sample_elem [] (u ''none'')]"
  have a: "\<forall>i \<in> set [0, 1 :: nat]. i < length ?es" "defaults_ok []" "\<forall>n. (\<lambda>_. u ''block'') (n :: ustr) \<noteq> []"
    "\<forall>e \<in> set ?es. s_saved e \<noteq> Some (u ''none'')" "s_style (?es ! 0) \<noteq> None" "s_style (?es ! 1) \<noteq> None"
    by (simp_all add: defaults_ok_def sample_elem_def u_def)
  have h: "isHiddenWithinTree plain_env (sample_elem [] (u ''none''))" by code_simp
  have v: "hook_for plain_env (u ''display'') = None" "\<not> isHiddenWithinTree plain_env (?es ! 0)" "displayed (?es ! 0) = Txt (u ''inline'')"
    by code_simp+
  show ?thesis
    using h show_hide [OF a(1) _ a(6) a(2-4), of plain_env] show_hide [OF a(1) _ a(5) a(2-4), of plain_env "u ''inline''"] v by simp
qed

section \<open>The sizes are those of the boxes\<close>

definition both :: "(ustr \<Rightarrow> rat) \<Rightarrow> bool \<Rightarrow> ustr \<Rightarrow> ustr \<Rightarrow> rat" where
  "both num width pre post = sum_list (map (\<lambda>s. num (pre @ s @ post)) (sides width))"

lemma fold_box_side:
  "fold (box_side num b bb) (sides width) (0, 0) =
    (let m = both num width (u ''margin'') []; p = both num width (u ''padding'') []; w = both num width (u ''border'') (u ''Width'')
     in if bb then (case b of Content \<Rightarrow> - p - w | Padding \<Rightarrow> - w | Border \<Rightarrow> - w | Margin \<Rightarrow> m, 0)
        else (case b of Content \<Rightarrow> p + w | Padding \<Rightarrow> p | Border \<Rightarrow> p + w | Margin \<Rightarrow> m + p + w, if b = Padding then w else 0))"
  by (cases b; cases bb; cases width) (simp_all add: sides_def both_def box_side_def Let_def)

text \<open>The box of an element: the content, the gutter of a scroll bar, paddings, borders, margins.\<close>

definition box_size :: "rat \<Rightarrow> rat \<Rightarrow> rat \<Rightarrow> rat \<Rightarrow> rat \<Rightarrow> box \<Rightarrow> rat" where
  "box_size c g p w m b = (case b of Content \<Rightarrow> c | Padding \<Rightarrow> c + g + p | Border \<Rightarrow> c + g + p + w | Margin \<Rightarrow> c + g + p + w + m)"

lemma gutter:
  fixes z s :: rat
  assumes "\<bar>z - (s + of_int g)\<bar> < 1 / 2"
  shows "\<lceil>z - s - 1 / 2\<rceil> = g"
proof (rule ceiling_unique)
  show "of_int g - 1 < z - s - 1 / 2" "z - s - 1 / 2 \<le> of_int g" using assms unfolding abs_less_iff by linarith+
qed

lemma adjusted_content_box:
  fixes g :: int and num :: "ustr \<Rightarrow> rat" and width :: bool
  defines "p \<equiv> both num width (u ''padding'') []" and "w \<equiv> both num width (u ''border'') (u ''Width'')"
    and "m \<equiv> both num width (u ''margin'') []"
  assumes "0 \<le> g" "0 \<le> c" "\<bar>z - (c + of_int g + p + w)\<bar> < 1 / 2" "b = Margin \<Longrightarrow> g = 0 \<and> 0 \<le> m"
  shows "c + boxModelAdjustment num (Some z) width b False (Some c) = box_size c (of_int g) p w m b"
proof -
  have g: "\<lceil>z - (c + (p + w)) - 1 / 2\<rceil> = g" by (rule gutter) (use assms(6) in \<open>simp add: algebra_simps\<close>)
  note f = fold_box_side [of num b False width, unfolded Let_def, folded p_def w_def m_def]
  show ?thesis
  proof (cases b)
    case Margin
    have "z - c - (m + p + w) - 1 / 2 \<le> of_int 0" using assms(6) assms(7) [OF Margin] unfolding abs_less_iff by simp
    then have "\<lceil>z - c - (m + p + w) - 1 / 2\<rceil> \<le> 0" by (simp only: ceiling_le_iff)
    then have "max 0 (rat_of_int \<lceil>z - c - (m + p + w) - 1 / 2\<rceil>) = 0" by (intro max_absorb1) (simp only: of_int_le_0_iff)
    then show ?thesis using Margin assms(5) assms(7) [OF Margin] f
      by (simp add: boxModelAdjustment_def box_size_def del: max.absorb_iff1 max.absorb_iff2)
  next
    case Padding
    have "\<lceil>z - c - p - w - 1 / 2\<rceil> = g" using g by (simp only: diff_diff_eq add.assoc)
    then show ?thesis using Padding assms(4,5) f g by (simp add: boxModelAdjustment_def box_size_def)
  next
    case Border
    have "\<lceil>z - c - (p + w) - 1 / 2\<rceil> = g" using g by (simp only: diff_diff_eq add.assoc)
    then show ?thesis using Border assms(4,5) f g by (simp add: boxModelAdjustment_def box_size_def)
  qed (simp add: boxModelAdjustment_def box_size_def)
qed

lemma adjusted_border_box:
  fixes num :: "ustr \<Rightarrow> rat" and width :: bool
  defines "p \<equiv> both num width (u ''padding'') []" and "w \<equiv> both num width (u ''border'') (u ''Width'')"
    and "m \<equiv> both num width (u ''margin'') []"
  shows "v + boxModelAdjustment num z width b True (Some v) = box_size (v - p - w) 0 p w m b"
  using fold_box_side [of num b True width, unfolded Let_def, folded p_def w_def m_def]
  by (cases b) (simp_all add: boxModelAdjustment_def box_size_def)


text \<open>A box of 100 with a scroll bar of 17, paddings of 5 and borders of 1.\<close>

definition sample_measures :: measures where
  "sample_measures = \<lparr> m_reliable = True, m_reliable_tr = True, m_border_box = False, m_value = Len 83 (u ''px''), m_tr = False,
     m_inline = False, m_rects = True, m_offset = Some 112,
     m_num = (\<lambda>n. if starts_with (u ''padding'') n then 5 else if starts_with (u ''border'') n then 1 else 20) \<rparr>"

lemma sample_both: "both (m_num sample_measures) True (u ''padding'') [] = 10"
  "both (m_num sample_measures) True (u ''border'') (u ''Width'') = 2" "both (m_num sample_measures) True (u ''margin'') [] = 40"
  by (simp_all add: both_def sides_def cssExpand_def sample_measures_def u_def starts_with_def)


text \<open>With margins at least as wide as the gutter, \<open>outerWidth( true )\<close> leaves the gutter out: it is 17 less than it should be.\<close>

lemma margin_gutter_lost:
  "getWidthOrHeight sample_measures True (Some Margin) = Len (box_size 83 17 10 2 40 Margin - 17) (u ''px'')"
  by code_simp

text \<open>\<open>swap\<close> leaves the inline styles as they were.\<close>

lemma fold_set_inline:
  "s_style e \<noteq> None \<Longrightarrow> inline (fold (\<lambda>(name, v). set_inline name v) ps e) k = (case map_of (rev ps) k of Some v \<Rightarrow> v | None \<Rightarrow> inline e k)"
proof (induction ps arbitrary: e)
  case (Cons p ps)
  obtain n v where p: "p = (n, v)" by (rule prod.exhaust)
  have "s_style (set_inline n v e) \<noteq> None" using Cons.prems by simp
  from Cons.IH [OF this] Cons.prems show ?case by (auto simp: p map_add_def inline_def set_inline_def split: option.splits)
qed simp

lemma swap_restores:
  assumes "s_style e \<noteq> None"
  shows "inline (snd (css_swap options callback e)) = inline e"
proof
  fix k
  let ?set = "fold (\<lambda>(name, v). set_inline name v)"
  let ?old = "map (\<lambda>(name, v). (name, inline e name)) options"
  have st: "s_style (?set ps e) \<noteq> None" for ps using assms by (induction ps arbitrary: e) (auto simp: split_beta simp del: not_None_eq)
  have o': "map_of (rev ?old) k = (if k \<in> fst ` set options then Some (inline e k) else None)"
    by (induction options rule: rev_induct) (auto simp: split_beta)
  have n: "map_of (rev options) k = None \<longleftrightarrow> k \<notin> fst ` set options" by (simp add: map_of_eq_None_iff)
  have "inline (?set ?old (?set options e)) k = (case map_of (rev ?old) k of Some v \<Rightarrow> v | None \<Rightarrow> inline (?set options e) k)"
    by (rule fold_set_inline [OF st])
  also have "\<dots> = inline e k" using fold_set_inline [OF assms, of options k] n by (auto simp: o')
  finally show "inline (snd (css_swap options callback e)) k = inline e k" by (simp add: css_swap_def Let_def)
qed

text \<open>A name that was looked up once is found in the cache.\<close>

lemma finalPropName_cached:
  assumes "finalPropName known cssProps vendorProps name = (n, vendorProps')" "name \<noteq> []"
  shows "finalPropName known cssProps vendorProps' name = (n, vendorProps')"
proof -
  have "vendorPropName known name \<noteq> Some []"
    by (auto simp: vendorPropName_def cssPrefixes_def u_def find_Some_iff nth_Cons' split: if_splits)
  then show ?thesis using assms
    by (auto simp: finalPropName_def Let_def split: if_splits option.splits list.splits)
qed

end
