(* ===== verification/JqTween.thy ===== *)
theory JqTween
  imports JqStyle
begin

text \<open>
  Tweens (\<open>jquery-3.5.1.js\<close>, lines 4738 to 4801, 7094 to 7112, 7153 to 7254, 7290 to 7322, 7359 to 7379, 7484 to 7533
  and 7660 to 7687): the value a property has at a point of its animation, the conversion of
  its start into the unit of its end,  properties given as shorthands, and the start and end of showing and hiding.
\<close>

section \<open>A tween\<close>

record 'a tween =
  tw_prop :: ustr
  tw_easing :: ustr
  tw_duration :: 'a
  tw_start :: 'a
  tw_now :: 'a
  tw_end :: 'a
  tw_unit :: ustr
  tw_pos :: 'a

definition linear :: "real \<Rightarrow> real" where
  "linear p = p"

definition swing :: "real \<Rightarrow> real" where
  "swing p = 1 / 2 - cos (p * pi) / 2"

definition easings :: "ustr \<Rightarrow> real \<Rightarrow> real" where
  "easings name = (if name = u ''linear'' then linear else swing)"

definition default_unit :: "ustr \<Rightarrow> ustr" where
  "default_unit prop = (if cssNumber prop then [] else u ''px'')"

text \<open>\<open>init\<close> without an easing takes \<open>swing\<close>.\<close>

definition tween_init :: "'a \<Rightarrow> ustr \<Rightarrow> 'a \<Rightarrow> 'a \<Rightarrow> ustr option \<Rightarrow> ustr \<Rightarrow> 'a \<Rightarrow> 'a tween" where
  "tween_init cur prop dur to easing unit p0 =
    \<lparr> tw_prop = prop, tw_easing = (case easing of Some e \<Rightarrow> e | None \<Rightarrow> u ''swing''), tw_duration = dur, tw_start = cur, tw_now = cur,
      tw_end = to, tw_unit = (if unit = [] then default_unit prop else unit), tw_pos = p0 \<rparr>"

definition tween_run :: "(ustr \<Rightarrow> 'a \<Rightarrow> 'a) \<Rightarrow> 'a \<Rightarrow> 'a::linordered_field tween \<Rightarrow> 'a tween" where
  "tween_run easing percent t =
    (let eased = (if tw_duration t \<noteq> 0 then easing (tw_easing t) percent else percent)
     in t \<lparr> tw_pos := eased, tw_now := (tw_end t - tw_start t) * eased + tw_start t \<rparr>)"

text \<open>The default hooks: the value read, from a plain property of the element or from its style, and where it is written.\<close>

definition tween_cur :: "css_env \<Rightarrow> (ustr \<Rightarrow> css option) \<Rightarrow> sty_elem \<Rightarrow> ustr \<Rightarrow> css option" where
  "tween_cur b plain e prop =
    (if s_type e \<noteq> 1 \<or> plain prop \<noteq> None \<and> \<not> c_known b prop then plain prop
     else (case jq_css b e prop IfNumber of
         None \<Rightarrow> Some (Len 0 [])
       | Some v \<Rightarrow> if v = Txt [] \<or> v = Txt (u ''auto'') then Some (Len 0 []) else Some v))"

definition tween_set :: "css_env \<Rightarrow> rat tween \<Rightarrow> sty_elem \<Rightarrow> sty_elem \<times> (ustr \<times> rat) option" where
  "tween_set b t e =
    (if s_type e = 1 \<and> (c_hooks b (tw_prop t) \<noteq> None \<or> c_known b (fst (finalPropName (c_known b) (c_props b) [] (tw_prop t))))
     then (put_style b (tw_prop t) (Len (tw_now t) (tw_unit t)) e, None) else (e, Some (tw_prop t, tw_now t)))"

section \<open>Units\<close>

text \<open>\<open>Number\<close> of a value; \<open>None\<close> is NaN.\<close>

definition to_number :: "css \<Rightarrow> rat option" where
  "to_number v = (case v of Len q unit \<Rightarrow> if unit = [] then Some q else None
     | Txt s \<Rightarrow> if s = [] then Some 0 else (case css_parts (Txt s) of Some ([], q, []) \<Rightarrow> Some q | _ \<Rightarrow> None))"

definition style_plain :: "css_env \<Rightarrow> ustr \<Rightarrow> ustr \<Rightarrow> rat \<Rightarrow> sty_elem \<Rightarrow> sty_elem" where
  "style_plain b prop unit x e = (if s_type e = 3 \<or> s_type e = 8 \<or> s_style e = None then e else put_style b prop (Len x unit) e)"

text \<open>The loop that looks for the start value in the new unit; \<open>initial\<close> is not 0.\<close>

fun approximate :: "nat \<Rightarrow> (rat \<Rightarrow> sty_elem \<Rightarrow> sty_elem) \<Rightarrow> (sty_elem \<Rightarrow> css option) \<Rightarrow> rat \<Rightarrow> rat option \<Rightarrow> rat \<Rightarrow> sty_elem \<Rightarrow> rat \<times> sty_elem" where
  "approximate 0 put cur initial scale x e = (x, e)"
| "approximate (Suc n) put cur initial scale x e =
    (let e = put x e;
         s = (case Option.bind (cur e) to_number of Some c \<Rightarrow> if c / initial = 0 then 1 / 2 else c / initial | None \<Rightarrow> 1 / 2);
         finished = (case scale of Some s0 \<Rightarrow> (1 - s0) * (1 - s) \<le> 0 | None \<Rightarrow> False)
     in if finished then (x / s, e) else approximate n put cur initial (Some s) (x / s) e)"

text \<open>\<open>adjustCSS\<close>: the start, the end if there is one, the unit, and the element; \<open>None\<close> when a start value of 0 or
  none has to be converted, where the code divides by it.\<close>

definition adjustCSS :: "css_env \<Rightarrow> (sty_elem \<Rightarrow> css option) \<Rightarrow> ustr \<Rightarrow> (ustr \<times> rat \<times> ustr) option \<Rightarrow> sty_elem \<Rightarrow>
    (rat \<times> rat option \<times> ustr \<times> sty_elem) option" where
  "adjustCSS b cur prop parts e =
    (let n = Option.bind (cur e) to_number;
         unit = (case parts of Some (sign, q, un) \<Rightarrow> if un = [] then default_unit prop else un | None \<Rightarrow> default_unit prop);
         inUnit = (if s_type e \<noteq> 0 \<and> (cssNumber prop \<or> unit \<noteq> u ''px'' \<and> n \<noteq> None \<and> n \<noteq> Some 0)
           then Option.bind (jq_css b e prop AsIs) css_parts else None);
         result = (\<lambda>start unit e. (start, map_option (\<lambda>(sign, q, un). if sign = [] then q
             else start + (if sign = u ''-'' then - 1 else 1) * q) parts, unit, e))
     in (case inUnit of
         Some (sign, q, un) \<Rightarrow>
           if un = unit then Some (result (case n of Some z \<Rightarrow> z | None \<Rightarrow> 0) unit e)
           else (case n of
               Some z \<Rightarrow> if z = 0 then None
                 else let unit = (if unit = [] then un else unit)
                      in (case approximate 20 (style_plain b prop unit) cur (z / 2) None (z / 2) e of
                        (x, e) \<Rightarrow> Some (result (2 * x) unit (style_plain b prop unit (2 * x) e)))
             | None \<Rightarrow> None)
       | None \<Rightarrow> Some (result (case n of Some z \<Rightarrow> z | None \<Rightarrow> 0) unit e)))"

text \<open>The function \<open>style_set\<close> takes for relative values.\<close>

definition adjust_relative :: "css_env \<Rightarrow> sty_elem \<Rightarrow> ustr \<Rightarrow> ustr \<times> rat \<times> ustr \<Rightarrow> sty_elem \<times> rat option" where
  "adjust_relative b e prop parts = (case adjustCSS b (\<lambda>e. jq_css b e prop IfNumber) prop (Some parts) e of
     None \<Rightarrow> (e, None) | Some (start, to, unit, e) \<Rightarrow> (e, to))"

definition jq_style :: "css_env \<Rightarrow> ustr \<Rightarrow> sval \<Rightarrow> sty_elem \<Rightarrow> sty_elem" where
  "jq_style b = style_set b (adjust_relative b)"

text \<open>The tweener for all properties.\<close>

definition default_tweener :: "css_env \<Rightarrow> (ustr \<Rightarrow> css option) \<Rightarrow> rat tween \<Rightarrow> css \<Rightarrow> sty_elem \<Rightarrow> (rat tween \<times> sty_elem) option" where
  "default_tweener b plain t value e =
    map_option (\<lambda>(start, to, unit, e). (case to of Some q \<Rightarrow> t \<lparr> tw_unit := unit, tw_start := start, tw_end := q \<rparr> | None \<Rightarrow> t, e))
      (adjustCSS b (\<lambda>e. tween_cur b plain e (tw_prop t)) (tw_prop t) (css_parts value) e)"

section \<open>Tweeners\<close>

definition tweeners_for :: "(ustr \<times> 'f list) list \<Rightarrow> ustr \<Rightarrow> 'f list" where
  "tweeners_for tweeners prop = (case dget tweeners prop of Some fs \<Rightarrow> fs | None \<Rightarrow> [])"

definition add_tweener :: "ustr list \<Rightarrow> 'f \<Rightarrow> (ustr \<times> 'f list) list \<Rightarrow> (ustr \<times> 'f list) list" where
  "add_tweener props callback tweeners = fold (\<lambda>prop ts. dput prop (callback # tweeners_for ts prop) ts) props tweeners"

fun first_tween :: "(ustr \<Rightarrow> css \<Rightarrow> 't option) list \<Rightarrow> ustr \<Rightarrow> css \<Rightarrow> 't option" where
  "first_tween [] prop value = None"
| "first_tween (f # fs) prop value = (case f prop value of Some t \<Rightarrow> Some t | None \<Rightarrow> first_tween fs prop value)"

definition createTween :: "(ustr \<times> (ustr \<Rightarrow> css \<Rightarrow> 't option) list) list \<Rightarrow> css \<Rightarrow> ustr \<Rightarrow> 't option" where
  "createTween tweeners value prop = first_tween (tweeners_for tweeners prop @ tweeners_for tweeners (u ''*'')) prop value"

section \<open>Properties\<close>

definition genFx :: "css \<Rightarrow> bool \<Rightarrow> css dict" where
  "genFx type includeWidth =
    (let sides = (if includeWidth then [0, 1, 2, 3] else [0, 2]);
         attrs = (u ''height'', type) # concat (map (\<lambda>i. [(u ''padding'' @ cssExpand ! i, type), (u ''margin'' @ cssExpand ! i, type)]) sides)
     in if includeWidth then attrs @ [(u ''width'', type), (u ''opacity'', type)] else attrs)"

text \<open>The hooks that expand shorthands.\<close>

definition shorthand :: "ustr \<Rightarrow> (ustr \<times> ustr) option" where
  "shorthand name = (if name = u ''margin'' then Some (u ''margin'', []) else if name = u ''padding'' then Some (u ''padding'', [])
     else if name = u ''borderWidth'' then Some (u ''border'', u ''Width'') else None)"

definition part :: "css list \<Rightarrow> nat \<Rightarrow> css option" where
  "part parts i = (if i < length parts \<and> parts ! i \<noteq> Txt [] \<and> parts ! i \<noteq> Len 0 [] then Some (parts ! i) else None)"

definition expand :: "ustr \<times> ustr \<Rightarrow> css \<Rightarrow> css dict" where
  "expand hook value = (case hook of (pre, suf) \<Rightarrow>
     let parts = (case value of Txt s \<Rightarrow> map Txt (split_str [32] s) | Len q unit \<Rightarrow> [value])
     in map (\<lambda>i. (pre @ cssExpand ! i @ suf,
          (case part parts i of Some v \<Rightarrow> v
           | None \<Rightarrow> (case (if i < 2 then None else part parts (i - 2)) of Some v \<Rightarrow> v | None \<Rightarrow> parts ! 0)))) [0..<4])"

text \<open>A property to animate: a value, or a value and its easing.\<close>

datatype animated = Value css | Eased css ustr

fun add_expanded :: "css dict \<Rightarrow> ustr option \<Rightarrow> animated dict \<times> ustr option dict \<Rightarrow> animated dict \<times> ustr option dict" where
  "add_expanded [] easing pe = pe"
| "add_expanded ((k, v) # kvs) easing (props, special) =
    add_expanded kvs easing
      (if dget props k = None then (dput k (Value v) props, dput k easing special) else (props, special))"

definition filter_prop :: "ustr \<Rightarrow> animated dict \<times> ustr option dict \<Rightarrow> animated dict \<times> ustr option dict" where
  "filter_prop index pe = (case pe of (props, special) \<Rightarrow>
    (case dget props index of
       None \<Rightarrow> (props, special)
     | Some pv \<Rightarrow>
         let name = camelCase index;
             easing = (case pv of Value v \<Rightarrow> (case dget special name of Some e \<Rightarrow> e | None \<Rightarrow> None) | Eased v e \<Rightarrow> Some e);
             value = (case pv of Value v \<Rightarrow> v | Eased v e \<Rightarrow> v);
             props = dput index (Value value) props;
             props = (if index \<noteq> name then ddel index (dput name (Value value) props) else props)
         in (case shorthand name of
               Some hook \<Rightarrow> add_expanded (expand hook value) easing (ddel name props, special)
             | None \<Rightarrow> (props, dput name easing special))))"

text \<open>\<open>propFilter\<close>: the keys at the start are visited, unless they are deleted meanwhile.\<close>

definition propFilter :: "animated dict \<Rightarrow> ustr option dict \<Rightarrow> animated dict \<times> ustr option dict" where
  "propFilter props special = fold filter_prop (map fst props) (props, special)"

section \<open>Showing and hiding\<close>

text \<open>\<open>defaultPrefilter\<close>: the properties to show or hide with the values to go back to, and whether the element counts as hidden.\<close>

definition shows_hides :: "css \<Rightarrow> bool" where
  "shows_hides v \<longleftrightarrow> v \<in> Txt ` set (map u [''toggle'', ''show'', ''hide''])"

definition detect :: "css dict \<Rightarrow> (ustr \<Rightarrow> css) \<Rightarrow> ustr \<times> css \<Rightarrow> css dict \<times> css dict \<times> bool \<times> bool \<Rightarrow> css dict \<times> css dict \<times> bool \<times> bool" where
  "detect dataShow styles pv st = (case pv of (prop, value) \<Rightarrow> (case st of (props, orig, toggle, hidden) \<Rightarrow>
    if \<not> shows_hides value then (props, orig, toggle, hidden)
    else let props = ddel prop props; toggle = (toggle \<or> value = Txt (u ''toggle''));
             noop = (value = Txt (if hidden then u ''hide'' else u ''show''));
             stopped = (value = Txt (u ''show'') \<and> dget dataShow prop \<noteq> None)
         in if noop \<and> \<not> stopped then (props, orig, toggle, hidden)
            else (props, dput prop (case dget dataShow prop of Some v \<Rightarrow> if v = Txt [] \<or> v = Len 0 [] then styles prop else v
                | None \<Rightarrow> styles prop) orig, toggle, hidden \<or> noop)))"

definition detect_all :: "css dict \<Rightarrow> (ustr \<Rightarrow> css) \<Rightarrow> bool \<Rightarrow> css dict \<Rightarrow> css dict \<times> css dict \<times> bool \<times> bool" where
  "detect_all dataShow styles hidden props = fold (detect dataShow styles) props (props, [], False, hidden)"

text \<open>The setup of one property: from nothing to the value when the element is hidden, otherwise to nothing.\<close>

definition setup_prop :: "bool \<Rightarrow> rat dict \<Rightarrow> rat tween \<Rightarrow> rat tween \<times> rat dict" where
  "setup_prop hidden dataShow t =
    (let t = t \<lparr> tw_end := (if hidden then (case dget dataShow (tw_prop t) of Some v \<Rightarrow> v | None \<Rightarrow> 0) else 0) \<rparr>
     in if dget dataShow (tw_prop t) = None
        then (if hidden then t \<lparr> tw_end := tw_start t, tw_start := 0 \<rparr> else t, dput (tw_prop t) (tw_start t) dataShow)
        else (t, dataShow))"

section \<open>Tweens run from their start to their end\<close>

lemma swing_bounds:
  assumes "0 \<le> p" "p \<le> q" "q \<le> 1"
  shows "0 \<le> swing p" "swing p \<le> swing q" "swing q \<le> 1" "swing 0 = 0" "swing 1 = 1"
proof -
  show "0 \<le> swing p" "swing q \<le> 1" using cos_le_one [of "p * pi"] cos_ge_minus_one [of "q * pi"] unfolding swing_def by linarith+
  have "cos (q * pi) \<le> cos (p * pi)"
    by (rule cos_monotone_0_pi_le) (use assms in \<open>auto intro: mult_right_mono\<close>)
  then show "swing p \<le> swing q" by (simp add: swing_def)
qed (simp_all add: swing_def)

lemma easings_bounds:
  assumes "0 \<le> p" "p \<le> q" "q \<le> 1"
  shows "0 \<le> easings n p \<and> easings n p \<le> easings n q \<and> easings n q \<le> 1 \<and> easings n 0 = 0 \<and> easings n 1 = 1"
  using assms swing_bounds [OF assms] by (simp add: easings_def linear_def)

text \<open>A tween starts at its start and ends at its end, never leaves what is between them, and never turns back.\<close>

theorem tween_between:
  assumes "0 \<le> p" "p \<le> q" "q \<le> 1"
  shows "tw_now (tween_run easings 0 t) = tw_start t \<and> tw_now (tween_run easings 1 t) = tw_end t \<and>
    min (tw_start t) (tw_end t) \<le> tw_now (tween_run easings p t) \<and> tw_now (tween_run easings p t) \<le> max (tw_start t) (tw_end t) \<and>
    \<bar>tw_now (tween_run easings p t) - tw_start t\<bar> \<le> \<bar>tw_now (tween_run easings q t) - tw_start t\<bar>"
proof -
  define e where "e = (\<lambda>x. if tw_duration t \<noteq> 0 then easings (tw_easing t) x else x)"
  have e: "0 \<le> e p" "e p \<le> e q" "e q \<le> 1" "e 0 = 0" "e 1 = 1"
    using easings_bounds [OF assms, of "tw_easing t"] assms by (simp_all add: e_def)
  have r: "tw_now (tween_run easings x t) = (tw_end t - tw_start t) * e x + tw_start t" for x
    by (simp add: tween_run_def e_def Let_def)
  let ?d = "tw_end t - tw_start t"
  have "min a c \<le> (c - a) * x + a \<and> (c - a) * x + a \<le> max a c" if "0 \<le> x" "x \<le> 1" for a c x :: real
  proof (cases "a \<le> c")
    case True
    then have "0 \<le> (c - a) * x" "(c - a) * x \<le> c - a" using that by (simp, simp add: mult_left_le)
    then show ?thesis using True by simp
  next
    case False
    define y where "y = (a - c) * x"
    have "0 \<le> y" "y \<le> a - c" using that False by (simp_all add: y_def mult_left_le)
    moreover have "(c - a) * x = - y" by (simp add: y_def algebra_simps)
    ultimately show ?thesis using False by simp
  qed
  from this [of "e p" "tw_start t" "tw_end t"] have "min (tw_start t) (tw_end t) \<le> ?d * e p + tw_start t \<and>
      ?d * e p + tw_start t \<le> max (tw_start t) (tw_end t)" using e by simp
  moreover have "\<bar>?d * e p\<bar> \<le> \<bar>?d * e q\<bar>" using e by (simp add: abs_mult mult_left_mono)
  ultimately show ?thesis using e(4,5) by (simp add: r)
qed

lemma tween_between_witness:
  "tw_now (tween_run easings (1 / 2) (tween_init 10 (u ''width'') 400 30 None [] 0)) \<le> 30 \<and> swing (1 / 2) = 1 / 2"
proof -
  have "tw_start (tween_init 10 (u ''width'') 400 30 None [] (0 :: real)) = 10" "tw_end (tween_init 10 (u ''width'') 400 30 None [] (0 :: real)) = 30"
    by (simp_all add: tween_init_def)
  with tween_between [of "1 / 2" 1 "tween_init 10 (u ''width'') 400 30 None [] 0"] show ?thesis by (simp add: swing_def)
qed

section \<open>Conversion of units\<close>

lemma approximate_linear:
  assumes "\<And>x e. styled e \<Longrightarrow> styled (put x e) \<and> Option.bind (cur (put x e)) to_number = Some (k * x)" "k \<noteq> 0" "i \<noteq> 0" "styled e"
  shows "approximate (Suc (Suc n)) put cur i None i e = (i / k, put (i / k) (put i e))"
proof -
  have "k * i / i = k" "k * (i / k) / i = 1" using assms(2,3) by simp_all
  then show ?thesis using assms by (simp add: Let_def)
qed

lemma style_plain_style: "s_style e \<noteq> None \<Longrightarrow> \<exists>f. style_plain b prop unit x e = e \<lparr> s_style := Some f \<rparr>"
proof -
  assume "s_style e \<noteq> None"
  then obtain f where f: "s_style e = Some f" by blast
  then have e: "\<exists>f. e = e \<lparr> s_style := Some f \<rparr>" by (intro exI [of _ f]) simp
  have "\<exists>f. set_inline n v e = e \<lparr> s_style := Some f \<rparr>" for n v using f by (auto simp: set_inline_def)
  with e show ?thesis by (simp add: style_plain_def put_style_def split: option.split)
qed

text \<open>C34: When a style has another unit than the value asked for, the start is found in the unit asked for: if a length in that unit has
  \<open>k\<close> pixels, whatever the inline style was, the start is the current number of pixels divided by \<open>k\<close>, the
  element looks as before, and a relative value counts from the start.\<close>

theorem adjust_converts:
  assumes "\<And>x f. Option.bind (cur (style_plain b prop unit x (e \<lparr> s_style := Some f \<rparr>))) to_number = Some (k * x)" "k \<noteq> 0"
    "Option.bind (cur e) to_number = Some z" "z \<noteq> 0" "s_type e \<noteq> 0" "s_style e \<noteq> None" "unit \<noteq> []" "unit \<noteq> u ''px''"
    "Option.bind (jq_css b e prop AsIs) css_parts = Some (s0, z0, u ''px'')"
  shows "\<exists>f. adjustCSS b cur prop (Some (sign, q, unit)) e =
      Some (z / k, Some (if sign = [] then q else z / k + (if sign = u ''-'' then - q else q)), unit, e \<lparr> s_style := Some f \<rparr>) \<and>
    Option.bind (cur (e \<lparr> s_style := Some f \<rparr>)) to_number = Some z"
proof -
  let ?put = "style_plain b prop unit"
  let ?styled = "\<lambda>e'. \<exists>f. e' = e \<lparr> s_style := Some f \<rparr>"
  have z: "z / 2 \<noteq> 0" using assms(4) by simp
  have e: "?styled e"
  proof -
    obtain f where "s_style e = Some f" using assms(6) by blast
    then have "e = e \<lparr> s_style := Some f \<rparr>" by simp
    then show ?thesis by blast
  qed
  have put: "?styled (?put x e') \<and> Option.bind (cur (?put x e')) to_number = Some (k * x)" if "?styled e'" for x e'
    using that style_plain_style [of e' b "prop" unit x] assms(1) by auto
  from approximate_linear [of ?styled ?put cur k, OF put assms(2) z e, of 18]
  have a: "approximate 20 ?put cur (z / 2) None (z / 2) e = (z / 2 / k, ?put (z / 2 / k) (?put (z / 2) e))" by simp
  let ?e = "?put (z / 2 / k) (?put (z / 2) e)"
  have r: "adjustCSS b cur prop (Some (sign, q, unit)) e =
      Some (z / k, Some (if sign = [] then q else z / k + (if sign = u ''-'' then - q else q)), unit, ?put (z / k) ?e)"
    using assms(3-9) by (simp add: adjustCSS_def Let_def a)
  have "?styled ?e" using put e by blast
  from put [OF this, of "z / k"] obtain f where "?put (z / k) ?e = e \<lparr> s_style := Some f \<rparr>"
    "Option.bind (cur (?put (z / k) ?e)) to_number = Some (k * (z / k))" by blast
  with r assms(2) show ?thesis by auto
qed

text \<open>A height of 50 pixels and an em of 10: in em it starts from 5.\<close>

definition em_elem :: sty_elem where
  "em_elem = \<lparr> s_type = 1, s_name = u ''P'', s_style = Some (\<lambda>n. if n = u ''height'' then Len 50 (u ''px'') else Txt []), s_attached = True,
     s_saved = None, s_computed = (\<lambda>f n. case f n of Len q unit \<Rightarrow> Some (Len (if unit = u ''em'' then 10 * q else q) (u ''px'')) | v \<Rightarrow> Some v) \<rparr>"

lemma adjust_converts_witness:
  "\<exists>f. adjustCSS plain_env (\<lambda>e. jq_css plain_env e (u ''height'') IfNumber) (u ''height'') (Some (u ''+'', 2, u ''em'')) em_elem =
     Some (5, Some 7, u ''em'', em_elem \<lparr> s_style := Some f \<rparr>)"
proof -
  let ?h = "u ''height''"
  have n: "prop_name plain_env ?h = ?h" "cssNormalTransform ?h = None" by code_simp+
  have hook: "hook_for plain_env p = None" for p by (simp add: hook_for_def plain_env_def)
  have css: "jq_css plain_env (em_elem \<lparr> s_style := Some f \<rparr>) ?h w = (case f ?h of
      Len q un \<Rightarrow> Some (Len (if un = u ''em'' then 10 * q else q) (if w = AsIs then u ''px'' else [])) | v \<Rightarrow>
        jq_css plain_env (em_elem \<lparr> s_style := Some f \<rparr>) ?h w)" for f w
    by (cases w) (simp_all add: jq_css_def n hook_get_def hook curCSS_def em_elem_def inline_def parseFloat_def split: css.split)
  have put: "style_plain plain_env ?h (u ''em'') x (em_elem \<lparr> s_style := Some f \<rparr>) = em_elem \<lparr> s_style := Some (f(?h := Len x (u ''em''))) \<rparr>" for x f
    by (simp add: style_plain_def put_style_def hook n set_inline_def) (simp add: em_elem_def)
  have e: "em_elem \<lparr> s_style := Some (\<lambda>n. if n = ?h then Len 50 (u ''px'') else Txt []) \<rparr> = em_elem" by (simp add: em_elem_def)
  have px: "u ''px'' \<noteq> u ''em''" by code_simp
  have cur: "jq_css plain_env em_elem ?h w = Some (Len 50 (if w = AsIs then u ''px'' else []))" for w
    using css [of "\<lambda>n. if n = ?h then Len 50 (u ''px'') else Txt []" w, unfolded e] px by simp
  have a: "Option.bind (jq_css plain_env (style_plain plain_env ?h (u ''em'') x (em_elem \<lparr> s_style := Some f \<rparr>)) ?h IfNumber) to_number = Some (10 * x)" for x f
    using css [of "f(?h := Len x (u ''em''))" IfNumber] by (simp add: put to_number_def)
  have b: "Option.bind (jq_css plain_env em_elem ?h IfNumber) to_number = Some 50"
    "Option.bind (jq_css plain_env em_elem ?h AsIs) css_parts = Some ([], 50, u ''px'')"
    by (simp_all add: cur to_number_def css_parts_def)
  have c: "s_type em_elem \<noteq> 0" "s_style em_elem \<noteq> None" "u ''em'' \<noteq> []" "u ''em'' \<noteq> u ''px''" "u ''+'' \<noteq> []" "u ''+'' \<noteq> u ''-''"
    by (simp_all add: em_elem_def u_def)
  from adjust_converts [where cur = "\<lambda>e. jq_css plain_env e ?h IfNumber" and k = 10 and sign = "u ''+''" and q = 2,
      OF a _ b(1) _ c(1-4) b(2)] c(5,6) show ?thesis by auto
qed

section \<open>Shorthands and names\<close>

definition good_key :: "ustr \<Rightarrow> bool" where
  "good_key k \<longleftrightarrow> camelCase k = k \<and> shorthand k = None"

definition filtered :: "ustr set \<Rightarrow> animated dict \<times> ustr option dict \<Rightarrow> bool" where
  "filtered K pe \<longleftrightarrow> (\<forall>k v. dget (fst pe) k = Some v \<longrightarrow>
     k \<in> K \<or> good_key k \<and> (\<exists>c. v = Value c) \<and> dget (snd pe) k \<noteq> None)"

lemma filtered_add:
  "filtered K pe \<Longrightarrow> \<forall>kv \<in> set kvs. good_key (fst kv) \<Longrightarrow> filtered K (add_expanded kvs easing pe)"
proof (induction kvs easing pe rule: add_expanded.induct)
  case (2 k v kvs easing props special)
  have "filtered K (if dget props k = None then (dput k (Value v) props, dput k easing special) else (props, special))"
    using "2.prems" by (auto simp: filtered_def)
  with "2.IH" "2.prems"(2) show ?case by simp
qed simp

lemma expand_good: "shorthand name = Some hook \<Longrightarrow> \<forall>kv \<in> set (expand hook value). good_key (fst kv)"
proof -
  have "good_key (pre @ cssExpand ! i @ suf)" if "(pre, suf) \<in> {(u ''margin'', []), (u ''padding'', []), (u ''border'', u ''Width'')}" "i \<in> {0, 1, 2, 3}"
    for pre suf i
  proof -
    have "list_all (\<lambda>(pre, suf). list_all (\<lambda>i. good_key (pre @ cssExpand ! i @ suf)) [0, 1, 2, 3])
        [(u ''margin'', []), (u ''padding'', []), (u ''border'', u ''Width'')]" by code_simp
    with that show ?thesis by (fastforce simp: list_all_iff)
  qed
  then show "shorthand name = Some hook \<Longrightarrow> \<forall>kv \<in> set (expand hook value). good_key (fst kv)"
    by (auto simp: shorthand_def expand_def Let_def atLeast0_lessThan_Suc numeral_eq_Suc split: if_splits)
qed

lemma filtered_step:
  assumes "filtered (insert index K) (props, special)"
  shows "filtered K (filter_prop index (props, special))"
proof (cases "dget props index")
  case None
  then show ?thesis using assms unfolding filter_prop_def filtered_def by fastforce
next
  case (Some pv)
  let ?name = "camelCase index"
  define v where "v = (case pv of Value v \<Rightarrow> v | Eased v e \<Rightarrow> v)"
  define easing where "easing = (case pv of Value v \<Rightarrow> (case dget special ?name of Some e \<Rightarrow> e | None \<Rightarrow> None) | Eased v e \<Rightarrow> Some e)"
  define ps where "ps = (if index \<noteq> ?name then ddel index (dput ?name (Value v) (dput index (Value v) props)) else dput index (Value v) props)"
  have r: "filter_prop index (props, special) = (case shorthand ?name of
      Some hook \<Rightarrow> add_expanded (expand hook v) easing (ddel ?name ps, special)
    | None \<Rightarrow> (ps, dput ?name easing special))"
    by (simp only: filter_prop_def prod.case Some option.case Let_def v_def easing_def ps_def)
  have d: "dget ps k = (if k = ?name then Some (Value v) else if k = index then None else dget props k)" for k
    by (simp add: ps_def)
  show ?thesis
  proof (cases "shorthand ?name")
    case None
    then show ?thesis using assms by (auto simp: r filtered_def d good_key_def)
  next
    case (Some hook)
    have "filtered K (ddel ?name ps, special)" using assms by (auto simp: filtered_def d)
    from filtered_add [OF this expand_good [OF Some]] show ?thesis by (simp add: r Some)
  qed
qed

text \<open>Whatever the properties and their easings are, \<open>propFilter\<close> leaves names in camel case, no shorthands, plain
  values, and an entry among the easings for every name.\<close>

theorem propFilter_normal:
  assumes "propFilter props special = (props', special')" "dget props' k = Some v"
  shows "camelCase k = k \<and> shorthand k = None \<and> (\<exists>c. v = Value c) \<and> dget special' k \<noteq> None"
proof -
  have "filtered K (fold filter_prop ks pe)" if "filtered (set ks \<union> K) pe" for ks K pe
    using that
  proof (induction ks arbitrary: pe)
    case (Cons k ks)
    then have "filtered (set ks \<union> K) (filter_prop k pe)" using filtered_step [of k "set ks \<union> K" "fst pe" "snd pe"] by simp
    from Cons.IH [OF this] show ?case by simp
  qed simp
  moreover have "filtered (set (map fst props) \<union> {}) (props, special)"
    by (force simp: filtered_def dest: map_of_SomeD)
  ultimately have "filtered {} (propFilter props special)" unfolding propFilter_def by blast
  then show ?thesis using assms by (auto simp: filtered_def good_key_def)
qed

lemma propFilter_normal_witness:
  "dget (fst (propFilter [(u ''margin'', Eased (Txt (u ''1px 2px'')) (u ''linear'')), (u ''line-height'', Value (Len 2 []))] [])) (u ''marginLeft'') =
     Some (Value (Txt (u ''2px''))) \<and> camelCase (u ''marginLeft'') = u ''marginLeft''"
proof -
  let ?r = "propFilter [(u ''margin'', Eased (Txt (u ''1px 2px'')) (u ''linear'')), (u ''line-height'', Value (Len 2 []))] []"
  have v: "dget (fst ?r) (u ''marginLeft'') = Some (Value (Txt (u ''2px'')))" by code_simp
  with propFilter_normal [of _ _ "fst ?r" "snd ?r"] show ?thesis by simp
qed

end
