(* ===== verification/JqFilter.thy ===== *)
theory JqFilter
  imports JqClass
begin

text \<open>
  Filters of the selector engine (\<open>jquery-3.5.1.js\<close>, lines 1075 to 1091, 1788 to 1819, 1883 to 1909, 1911 to
  2029 and 2246 to 2295): attributes, positions among siblings, positions in the set of elements.  The
  children of a parent are a list of nodes with type and lower-case name; the indices the filters
  keep on the nodes while they run are left out.  A positional filter moves elements from the seed,
  where \<open>None\<close> is \<open>false\<close>, to the matches.
\<close>

section \<open>Attributes\<close>

definition text_slice :: "ustr \<Rightarrow> nat \<Rightarrow> ustr" where
  "text_slice s n = (if n = 0 then s else drop (length s - n) s)"

definition spaces_to_one :: "ustr \<Rightarrow> ustr" where
  "spaces_to_one s = foldr (\<lambda>c r. if opt_space c then (if r \<noteq> [] \<and> hd r = 32 then r else 32 # r) else c # r) s []"

text \<open>\<open>Expr.filter.ATTR\<close>; the attribute is \<open>None\<close> when the element has none, the operator is empty when the
  selector has only a name.\<close>

definition attr_filter :: "ustr option \<Rightarrow> ustr \<Rightarrow> ustr \<Rightarrow> bool" where
  "attr_filter attr operator check = (case attr of
     None \<Rightarrow> operator = u ''!=''
   | Some result \<Rightarrow>
       if operator = [] then True
       else if operator = u ''='' then result = check
       else if operator = u ''!='' then result \<noteq> check
       else if operator = u ''^='' then check \<noteq> [] \<and> index_of result check = 0
       else if operator = u ''*='' then check \<noteq> [] \<and> index_of result check > -1
       else if operator = u ''$='' then check \<noteq> [] \<and> text_slice result (length check) = check
       else if operator = u ''~='' then index_of ([32] @ spaces_to_one result @ [32]) check > -1
       else if operator = u ''|='' then result = check \<or> take (length check + 1) result = check @ u ''-''
       else False)"

text \<open>The part of \<open>preFilter.ATTR\<close> that pads the word to look for.\<close>

definition attr_check :: "ustr \<Rightarrow> ustr \<Rightarrow> ustr" where
  "attr_check operator check = (if operator = u ''~='' then [32] @ check @ [32] else check)"

section \<open>Positions among siblings\<close>

record sibling =
  s_type :: nat
  s_name :: ustr

text \<open>The captures of a position, \<open>None\<close> for a group that took no part.\<close>

record nth_match =
  m_arg :: "ustr option"
  m_xn :: "ustr option"
  m_xsign :: "ustr option"
  m_x :: "ustr option"
  m_ysign :: "ustr option"
  m_y :: "ustr option"

definition some_text :: "ustr option \<Rightarrow> bool" where
  "some_text m \<longleftrightarrow> m \<noteq> None \<and> m \<noteq> Some []"

definition signed :: "ustr option \<Rightarrow> ustr \<Rightarrow> int" where
  "signed sign digits = (if sign = Some (u ''-'') then - int (undec digits) else int (undec digits))"

text \<open>\<open>preFilter.CHILD\<close>: the numbers of \<open>first * n + last\<close>; \<open>None\<close> is the error.\<close>

definition child_prefilter :: "ustr \<Rightarrow> nth_match \<Rightarrow> (int \<times> int) option option" where
  "child_prefilter type m =
    (if take 3 (to_lower type) = u ''nth'' then
       (if \<not> some_text (m_arg m) then None
        else Some (Some
          (if some_text (m_xn m) then signed (m_xsign m) (if some_text (m_x m) then the (m_x m) else u ''1'')
           else if m_arg m = Some (u ''even'') \<or> m_arg m = Some (u ''odd'') then 2 else 0,
           if m_y m \<noteq> None then signed (m_ysign m) (the (m_y m))
           else if m_arg m = Some (u ''odd'') then 1 else 0)))
     else if some_text (m_arg m) then None
     else Some None)"

definition counts_as :: "bool \<Rightarrow> ustr \<Rightarrow> sibling \<Rightarrow> bool" where
  "counts_as ofType name node \<longleftrightarrow> (if ofType then s_name node = name else s_type node = 1)"

text \<open>The loop of \<open>:first-\<close>, \<open>:last-\<close> and \<open>:only-\<close> in one direction, and the loop that counts up to the element.\<close>

fun none_counts :: "bool \<Rightarrow> ustr \<Rightarrow> sibling list \<Rightarrow> bool" where
  "none_counts ofType name [] = True"
| "none_counts ofType name (node # nodes) = (if counts_as ofType name node then False else none_counts ofType name nodes)"

fun count_loop :: "bool \<Rightarrow> ustr \<Rightarrow> nat \<Rightarrow> sibling list \<Rightarrow> int \<Rightarrow> int" where
  "count_loop ofType name i [] diff = diff"
| "count_loop ofType name i (node # nodes) diff =
    (let diff = (if counts_as ofType name node then diff + 1 else diff)
     in if counts_as ofType name node \<and> i = 0 then diff else count_loop ofType name (i - 1) nodes diff)"

text \<open>\<open>diff === first || ( diff % first === 0 && diff / first >= 0 )\<close>; a remainder by zero is \<open>NaN\<close>.\<close>

definition nth_test :: "int \<Rightarrow> int \<Rightarrow> int \<Rightarrow> bool" where
  "nth_test diff first last' =
    (let diff = diff - last' in diff = first \<or> first \<noteq> 0 \<and> first dvd diff \<and> diff div first \<ge> 0)"

text \<open>\<open>Expr.filter.CHILD\<close> for the \<open>k\<close>-th node of a list of siblings.\<close>

definition child_filter :: "ustr \<Rightarrow> bool \<Rightarrow> (int \<times> int) option \<Rightarrow> sibling list \<Rightarrow> nat \<Rightarrow> bool" where
  "child_filter type ofType numbers nodes k =
    (let name = s_name (nodes ! k);
         simple = (take 3 type \<noteq> u ''nth'');
         forward = (drop (length type - 4) type \<noteq> u ''last'')
     in case numbers of
          None \<Rightarrow>
            (if type = u ''only'' then none_counts ofType name (rev (take k nodes)) \<and> none_counts ofType name (drop (Suc k) nodes)
             else if forward then none_counts ofType name (rev (take k nodes))
             else none_counts ofType name (drop (Suc k) nodes))
        | Some (first, last') \<Rightarrow>
            if first = 1 \<and> last' = 0 then True
            else nth_test (if forward then count_loop ofType name k nodes 0
                           else count_loop ofType name (length nodes - Suc k) (rev nodes) 0) first last')"

section \<open>Positions in the set\<close>

datatype pos = PFirst | PLast | PEq | PEven | POdd | PLt | PGt

function push_up :: "int \<Rightarrow> int \<Rightarrow> int \<Rightarrow> int list" where
  "push_up i stride len = (if i < len \<and> 0 < stride then i # push_up (i + stride) stride len else [])"
  by pat_completeness auto
termination
  by (relation "measure (\<lambda>(i, stride, len). nat (len - i))") auto

function push_down :: "int \<Rightarrow> int list" where
  "push_down i = (if 0 \<le> i then i # push_down (i - 1) else [])"
  by pat_completeness auto
termination
  by (relation "measure (\<lambda>i. nat (i + 1))") auto

declare push_up.simps [simp del] push_down.simps [simp del]

definition match_indexes :: "pos \<Rightarrow> int \<Rightarrow> int \<Rightarrow> int list" where
  "match_indexes p len argument = (case p of
     PFirst \<Rightarrow> [0]
   | PLast \<Rightarrow> [len - 1]
   | PEq \<Rightarrow> [if argument < 0 then argument + len else argument]
   | PEven \<Rightarrow> push_up 0 2 len
   | POdd \<Rightarrow> push_up 1 2 len
   | PLt \<Rightarrow> push_down ((if argument < 0 then argument + len else if argument > len then len else argument) - 1)
   | PGt \<Rightarrow> push_up ((if argument < 0 then argument + len else argument) + 1) 1 len)"

fun move_matches :: "int list \<Rightarrow> 'a option list \<times> 'a option list \<Rightarrow> 'a option list \<times> 'a option list" where
  "move_matches [] sm = sm"
| "move_matches (j # js) (seed, ms) =
    move_matches js
      (if 0 \<le> j \<and> j < int (length seed) \<and> seed ! nat j \<noteq> None
       then (seed[nat j := None], ms[nat j := seed ! nat j]) else (seed, ms))"

definition createPositionalPseudo :: "pos \<Rightarrow> int \<Rightarrow> 'a option list \<times> 'a option list \<Rightarrow> 'a option list \<times> 'a option list" where
  "createPositionalPseudo p argument sm =
    move_matches (rev (match_indexes p (int (length (fst sm))) argument)) sm"

section \<open>Lemmas on positions among siblings\<close>

lemma none_counts_iff: "none_counts t n xs \<longleftrightarrow> \<not> list_ex (counts_as t n) xs"
  by (induction xs) auto

lemma count_loop_eq:
  "k < length nodes \<Longrightarrow> counts_as t n (nodes ! k) \<Longrightarrow>
     count_loop t n k nodes d = d + int (length (filter (counts_as t n) (take k nodes))) + 1"
proof (induction nodes arbitrary: k d)
  case (Cons x xs)
  then show ?case by (cases k) (auto simp: Let_def)
qed simp

lemma nth_test_spec: "nth_test d a b \<longleftrightarrow> (\<exists>n::nat. d = a * int n + b)"
proof
  assume "nth_test d a b"
  then consider "d - b = a" | "a \<noteq> 0" "a dvd d - b" "(d - b) div a \<ge> 0" by (auto simp: nth_test_def Let_def)
  then show "\<exists>n::nat. d = a * int n + b"
  proof cases
    case 1
    then have "d = a * int 1 + b" by simp
    then show ?thesis by blast
  next
    case 2
    then have "d = a * int (nat ((d - b) div a)) + b" by simp
    then show ?thesis by blast
  qed
next
  assume "\<exists>n::nat. d = a * int n + b"
  then obtain n :: nat where n: "d = a * int n + b" by blast
  then show "nth_test d a b" by (cases "a = 0") (auto simp: nth_test_def Let_def)
qed

text \<open>The position of a node among the siblings of its kind, counted from one, from either end.\<close>

definition position :: "bool \<Rightarrow> ustr \<Rightarrow> sibling list \<Rightarrow> nat \<Rightarrow> nat" where
  "position t n nodes k = length (filter (counts_as t n) (take k nodes)) + 1"

definition position_last :: "bool \<Rightarrow> ustr \<Rightarrow> sibling list \<Rightarrow> nat \<Rightarrow> nat" where
  "position_last t n nodes k = length (filter (counts_as t n) (drop (Suc k) nodes)) + 1"

lemma none_position: "none_counts t n (rev (take k nodes)) \<longleftrightarrow> position t n nodes k = 1"
  "none_counts t n (drop (Suc k) nodes) \<longleftrightarrow> position_last t n nodes k = 1"
  by (auto simp: none_counts_iff position_def position_last_def filter_empty_conv list_ex_iff)

lemma counts_positions:
  assumes "k < length nodes" "counts_as t n (nodes ! k)"
  shows "count_loop t n k nodes 0 = int (position t n nodes k)"
    "count_loop t n (length nodes - Suc k) (rev nodes) 0 = int (position_last t n nodes k)"
proof -
  show "count_loop t n k nodes 0 = int (position t n nodes k)"
    using count_loop_eq [OF assms] by (simp add: position_def)
  have r: "rev nodes ! (length nodes - Suc k) = nodes ! k" using assms(1) by (simp add: rev_nth)
  have "take (length nodes - Suc k) (rev nodes) = rev (drop (Suc k) nodes)" by (simp add: rev_drop)
  then show "count_loop t n (length nodes - Suc k) (rev nodes) 0 = int (position_last t n nodes k)"
    using count_loop_eq [of "length nodes - Suc k" "rev nodes" t n 0] assms r
    by (simp add: position_last_def rev_filter [symmetric])
qed

text \<open>The arithmetic of the position filters is that of CSS: an element matches \<open>an + b\<close> exactly if its position
  among its siblings (of its type), from the front or from the back, is \<open>a * n + b\<close> for some natural
  number \<open>n\<close>, and \<open>first\<close>, \<open>last\<close> and \<open>only\<close> are positions 1 from the front, from the back, and from both.\<close>

theorem child_filter_positions:
  assumes "k < length nodes" "s_type (nodes ! k) = 1"
  defines "n \<equiv> s_name (nodes ! k)"
  shows "(child_filter (u ''nth'') t (Some (a, b)) nodes k \<longleftrightarrow> (\<exists>i::nat. int (position t n nodes k) = a * int i + b)) \<and>
    (child_filter (u ''nth-last'') t (Some (a, b)) nodes k \<longleftrightarrow> (\<exists>i::nat. int (position_last t n nodes k) = a * int i + b)) \<and>
    (child_filter (u ''first'') t None nodes k \<longleftrightarrow> position t n nodes k = 1) \<and>
    (child_filter (u ''last'') t None nodes k \<longleftrightarrow> position_last t n nodes k = 1) \<and>
    (child_filter (u ''only'') t None nodes k \<longleftrightarrow> position t n nodes k = 1 \<and> position_last t n nodes k = 1)"
proof -
  have c: "counts_as t n (nodes ! k)" using assms(2) by (simp add: counts_as_def n_def)
  note p = counts_positions [OF assms(1) c, unfolded n_def]
  have one: "\<exists>i::nat. int m = 1 * int i + 0" for m by simp
  have d: "drop (length (u ''nth'') - 4) (u ''nth'') \<noteq> u ''last''" "drop (length (u ''nth-last'') - 4) (u ''nth-last'') = u ''last''"
    "drop (length (u ''first'') - 4) (u ''first'') \<noteq> u ''last''" "drop (length (u ''last'') - 4) (u ''last'') = u ''last''"
    "u ''first'' \<noteq> u ''only''" "u ''last'' \<noteq> u ''only''" by code_simp+
  have f: "child_filter (u ''nth'') t (Some (a, b)) nodes k \<longleftrightarrow> (\<exists>i::nat. int (position t n nodes k) = a * int i + b)"
    using one p d(1) by (auto simp: child_filter_def Let_def nth_test_spec n_def)
  have l: "child_filter (u ''nth-last'') t (Some (a, b)) nodes k \<longleftrightarrow> (\<exists>i::nat. int (position_last t n nodes k) = a * int i + b)"
    using one p d(2) by (auto simp: child_filter_def Let_def nth_test_spec n_def)
  show ?thesis using f l d(3-6)
    by (simp add: child_filter_def Let_def none_position n_def)
qed

theorem child_filter_positions_witness:
  "map (child_filter (u ''nth'') False (Some (2, 1)) [\<lparr> s_type = 1, s_name = u ''p'' \<rparr>, \<lparr> s_type = 3, s_name = u ''#text'' \<rparr>,
     \<lparr> s_type = 1, s_name = u ''p'' \<rparr>, \<lparr> s_type = 1, s_name = u ''b'' \<rparr>]) [0, 2, 3] = [True, False, True]"
proof -
  let ?ns = "[\<lparr> s_type = 1, s_name = u ''p'' \<rparr>, \<lparr> s_type = 3, s_name = u ''#text'' \<rparr>,
     \<lparr> s_type = 1, s_name = u ''p'' \<rparr>, \<lparr> s_type = 1, s_name = u ''b'' \<rparr>]"
  have p: "position False (u ''p'') ?ns 0 = 1" "position False (u ''p'') ?ns 2 = 2" "position False (u ''b'') ?ns 3 = 3"
    by (simp_all add: position_def counts_as_def)
  have e: "\<not> (\<exists>i::nat. (2::int) = 2 * int i + 1)" "\<exists>i::nat. (1::int) = 2 * int i + 1" "\<exists>i::nat. (3::int) = 2 * int i + 1"
    by (presburger, (rule exI [of _ 0], simp), (rule exI [of _ 1], simp))
  show ?thesis
    using child_filter_positions [of 0 ?ns False 2 1] child_filter_positions [of 2 ?ns False 2 1]
      child_filter_positions [of 3 ?ns False 2 1] p e by simp
qed

section \<open>Lemmas on positions in the set\<close>

lemma set_push_up: "set (push_up i 1 len) = {i..<len}"
proof (induction i "1 :: int" len rule: push_up.induct)
  case (1 i len)
  then show ?case by (subst push_up.simps) auto
qed

lemma set_push_up2: "set (push_up i 2 len) = {j. i \<le> j \<and> j < len \<and> even (j - i)}"
proof (induction i "2 :: int" len rule: push_up.induct)
  case (1 i len)
  show ?case
  proof (cases "i < len")
    case True
    have "i < len \<and> 0 < (2::int)" using True by simp
    with 1 have "set (push_up (i + 2) 2 len) = {j. i + 2 \<le> j \<and> j < len \<and> even (j - (i + 2))}" by simp
    moreover have "insert i {j. i + 2 \<le> j \<and> j < len \<and> even (j - (i + 2))} = {j. i \<le> j \<and> j < len \<and> even (j - i)}"
      by (rule set_eqI, unfold insert_iff mem_Collect_eq, use True in presburger)
    ultimately show ?thesis using True by (subst push_up.simps) simp
  qed (subst push_up.simps, auto)
qed

lemma set_push_down: "set (push_down i) = {0..i}"
proof (induction i rule: push_down.induct)
  case (1 i)
  then show ?case by (subst push_down.simps) auto
qed

lemma move_matches_at:
  "length ms = length seed \<Longrightarrow> k < length seed \<Longrightarrow> move_matches js (seed, ms) = (seed', ms') \<Longrightarrow>
     length seed' = length seed \<and> length ms' = length seed \<and>
     seed' ! k = (if int k \<in> set js then None else seed ! k) \<and>
     ms' ! k = (if int k \<in> set js \<and> seed ! k \<noteq> None then seed ! k else ms ! k)"
proof (induction js arbitrary: seed ms)
  case (Cons j js)
  show ?case
  proof (cases "0 \<le> j \<and> j < int (length seed) \<and> seed ! nat j \<noteq> None")
    case True
    with Cons.prems have m: "move_matches js (seed[nat j := None], ms[nat j := seed ! nat j]) = (seed', ms')" by simp
    have jk: "int k = j \<longleftrightarrow> nat j = k" using True by auto
    from Cons.IH [of "ms[nat j := seed ! nat j]" "seed[nat j := None]", OF _ _ m] Cons.prems(1,2) True jk
    show ?thesis by (auto simp: nth_list_update)
  next
    case False
    with Cons.prems have m: "move_matches js (seed, ms) = (seed', ms')" by auto
    have "int k = j \<Longrightarrow> seed ! k = None" using False Cons.prems(2) by auto
    with Cons.IH [OF Cons.prems(1,2) m] show ?thesis by auto
  qed
qed auto

text \<open>A positional filter moves exactly the elements at its positions from the seed to the matches; the
  positions before, at and behind an index, and the even and the odd ones, share out the set.\<close>

theorem positional_matches:
  assumes "length ms = length seed" "k < length seed" "0 \<le> arg" "arg < int (length seed)"
    and "createPositionalPseudo p arg (seed, ms) = (seed', ms')"
  shows "(ms' ! k = (if (case p of PFirst \<Rightarrow> k = 0 | PLast \<Rightarrow> Suc k = length seed | PEq \<Rightarrow> int k = arg | PEven \<Rightarrow> even k
      | POdd \<Rightarrow> odd k | PLt \<Rightarrow> int k < arg | PGt \<Rightarrow> int k > arg) \<and> seed ! k \<noteq> None then seed ! k else ms ! k)) \<and>
    (seed' ! k = (if (case p of PFirst \<Rightarrow> k = 0 | PLast \<Rightarrow> Suc k = length seed | PEq \<Rightarrow> int k = arg | PEven \<Rightarrow> even k
      | POdd \<Rightarrow> odd k | PLt \<Rightarrow> int k < arg | PGt \<Rightarrow> int k > arg) then None else seed ! k))"
proof -
  have s: "int k \<in> set (match_indexes p (int (length seed)) arg) \<longleftrightarrow> (case p of PFirst \<Rightarrow> k = 0 | PLast \<Rightarrow> Suc k = length seed
      | PEq \<Rightarrow> int k = arg | PEven \<Rightarrow> even k | POdd \<Rightarrow> odd k | PLt \<Rightarrow> int k < arg | PGt \<Rightarrow> int k > arg)"
    using assms(2-4) by (cases p) (auto simp: match_indexes_def set_push_up set_push_up2 set_push_down elim!: oddE)
  from assms(5) have "move_matches (rev (match_indexes p (int (length seed)) arg)) (seed, ms) = (seed', ms')"
    by (simp add: createPositionalPseudo_def)
  from move_matches_at [OF assms(1,2) this] s show ?thesis by simp
qed

theorem positional_matches_witness:
  "snd (createPositionalPseudo PLt 1 ([Some 5, Some 6, Some (7::nat)], [None, None, None])) ! 0 = Some 5"
proof -
  obtain s' m' where e: "createPositionalPseudo PLt 1 ([Some 5, Some 6, Some (7::nat)], [None, None, None]) = (s', m')" by fastforce
  from positional_matches [OF _ _ _ _ e, of 0] e show ?thesis by simp
qed

end
