(* ===== verification/JqSelector.thy ===== *)
theory JqSelector
  imports JqFilter
begin

text \<open>
  The texts of selectors (\<open>jquery-3.5.1.js\<close>, lines 668 to 706 and 903 to 917): the escapes of CSS, written
  and read, and the cache with a bounded number of entries that Sizzle keeps for its results.
\<close>

unbundle bit_operations_syntax

section \<open>Escapes\<close>

definition is_hex :: "int \<Rightarrow> bool" where
  "is_hex c \<longleftrightarrow> 48 \<le> c \<and> c \<le> 57 \<or> 65 \<le> c \<and> c \<le> 70 \<or> 97 \<le> c \<and> c \<le> 102"

definition hex_value :: "int \<Rightarrow> int" where
  "hex_value c = (if c \<le> 57 then c - 48 else if c \<le> 70 then c - 55 else c - 87)"

definition hex_digit :: "int \<Rightarrow> int" where
  "hex_digit d = (if d < 10 then 48 + d else 87 + d)"

text \<open>\<open>c.toString(16)\<close> for a code unit below 256.\<close>

definition hex_text :: "int \<Rightarrow> ustr" where
  "hex_text c = (if c < 16 then [hex_digit c] else [hex_digit (c div 16), hex_digit (c mod 16)])"

definition word_char :: "int \<Rightarrow> bool" where
  "word_char c \<longleftrightarrow> 48 \<le> c \<and> c \<le> 57 \<or> 65 \<le> c \<and> c \<le> 90 \<or> 97 \<le> c \<and> c \<le> 122 \<or> c = 95"

text \<open>\<open>funescape\<close> for hexadecimal digits: a code unit, or a pair of surrogates.\<close>

definition funescape :: "ustr \<Rightarrow> ustr" where
  "funescape digits =
    (let high = foldl (\<lambda>n c. 16 * n + hex_value c) 0 digits - 65536
     in if high < 0 then [high + 65536]
        else [high div 1024 mod 65536 OR 55296, high mod 1024 OR 56320])"

definition hex_run :: "ustr \<Rightarrow> ustr" where
  "hex_run s = takeWhile is_hex (take 6 s)"

function unescape_css :: "ustr \<Rightarrow> ustr" where
  "unescape_css [] = []"
| "unescape_css (c # s) =
    (if c \<noteq> 92 then c # unescape_css s
     else let digits = hex_run s; rest = drop (length digits) s
          in if digits \<noteq> []
             then funescape digits @ unescape_css (if rest \<noteq> [] \<and> opt_space (hd rest) then tl rest else rest)
             else case s of
                 [] \<Rightarrow> [92]
               | d # r \<Rightarrow> if d = 13 \<or> d = 10 \<or> d = 12 then 92 # unescape_css s else d # unescape_css r)"
  by pat_completeness auto
termination
  by (relation "measure length") auto

text \<open>\<open>fcssescape\<close>: a code point escape, or a backslash.\<close>

definition code_escape :: "int \<Rightarrow> ustr" where
  "code_escape c = (if c = 0 then [65533] else 92 # hex_text c @ [32])"

definition escape_unit :: "int \<Rightarrow> ustr" where
  "escape_unit c =
    (if 0 \<le> c \<and> c \<le> 31 \<or> c = 127 then code_escape c
     else if c < 127 \<and> \<not> word_char c \<and> c \<noteq> 45 then [92, c] else [c])"

definition is_digit :: "int \<Rightarrow> bool" where
  "is_digit c \<longleftrightarrow> 48 \<le> c \<and> c \<le> 57"

text \<open>\<open>Sizzle.escape\<close>: a leading digit, also behind a dash, and a lone dash are special.\<close>

definition escape_css :: "ustr \<Rightarrow> ustr" where
  "escape_css sel = (case sel of
     [] \<Rightarrow> []
   | c # s \<Rightarrow>
       if is_digit c then code_escape c @ concat (map escape_unit s)
       else if c = 45 \<and> s = [] then [92, 45]
       else if c = 45 \<and> is_digit (hd s) then 45 # code_escape (hd s) @ concat (map escape_unit (tl s))
       else concat (map escape_unit (c # s)))"

lemma hex_digit_hex [simp]: "0 \<le> d \<Longrightarrow> d < 16 \<Longrightarrow> is_hex (hex_digit d) \<and> hex_value (hex_digit d) = d"
  by (auto simp: hex_digit_def is_hex_def hex_value_def)

lemma hex_run_text: "0 \<le> c \<Longrightarrow> c < 256 \<Longrightarrow> hex_run (hex_text c @ 32 # t) = hex_text c"
  by (auto simp: hex_run_def hex_text_def is_hex_def [of 32])

lemma funescape_text: "0 \<le> c \<Longrightarrow> c < 256 \<Longrightarrow> funescape (hex_text c) = [c]"
  by (auto simp: funescape_def hex_text_def Let_def)

lemma unescape_code: "0 < c \<Longrightarrow> c < 256 \<Longrightarrow> unescape_css (code_escape c @ t) = c # unescape_css t"
  using hex_run_text [of c t] funescape_text [of c]
  by (simp add: code_escape_def Let_def hex_text_def)

lemma unescape_unit: "0 < c \<Longrightarrow> unescape_css (escape_unit c @ t) = c # unescape_css t"
proof -
  assume c: "0 < c"
  consider "c \<le> 31 \<or> c = 127" | "\<not> (c \<le> 31 \<or> c = 127)" "c < 127 \<and> \<not> word_char c \<and> c \<noteq> 45"
    | "\<not> (c \<le> 31 \<or> c = 127)" "\<not> (c < 127 \<and> \<not> word_char c \<and> c \<noteq> 45)" by blast
  then show ?thesis
  proof cases
    case 1
    with c unescape_code [of c t] show ?thesis by (auto simp: escape_unit_def)
  next
    case 2
    then have "hex_run (c # t) = []" by (auto simp: hex_run_def is_hex_def word_char_def)
    with 2 c show ?thesis by (auto simp: escape_unit_def Let_def)
  next
    case 3
    then have "c \<noteq> 92" by (auto simp: word_char_def)
    moreover have "escape_unit c = [c]" using 3 c by (auto simp: escape_unit_def)
    ultimately show ?thesis by simp
  qed
qed

lemma unescape_units: "\<forall>c \<in> set s. 0 < c \<Longrightarrow> unescape_css (concat (map escape_unit s)) = s"
  by (induction s) (simp_all add: unescape_unit)

text \<open>Unescaping an escaped text gives it back, for every text without the code unit 0, whatever
  selector syntax, control characters, leading digits or dashes it has.\<close>

theorem escape_css_roundtrip:
  assumes "list_all (\<lambda>c. 0 < c) s"
  shows "unescape_css (escape_css s) = s"
proof (cases s)
  case (Cons c t)
  have p: "0 < c" "\<forall>d \<in> set t. 0 < d" using assms Cons by (simp_all add: list_all_iff)
  show ?thesis
  proof (cases "is_digit c \<or> c = 45")
    case True
    have d: "is_digit e \<Longrightarrow> 0 < e \<and> e < 256" for e by (simp add: is_digit_def)
    show ?thesis
    proof (cases "is_digit c")
      case True
      then show ?thesis using Cons p d unescape_code [of c] unescape_units [of t] by (simp add: escape_css_def)
    next
      case False
      then have c: "c = 45" using \<open>is_digit c \<or> c = 45\<close> by simp
      show ?thesis
      proof (cases t)
        case Nil
        then show ?thesis using Cons c by (simp add: escape_css_def is_digit_def hex_run_def is_hex_def Let_def)
      next
        case t: (Cons e r)
        have "unescape_css (45 # x) = 45 # unescape_css x" for x by simp
        with c Cons t p d [of e] unescape_code [of e] unescape_units [of r] unescape_units [of "45 # e # r"] show ?thesis
          by (auto simp: escape_css_def is_digit_def)
      qed
    qed
  next
    case False
    then have "escape_css s = concat (map escape_unit s)" using Cons by (simp add: escape_css_def)
    with assms show ?thesis by (simp add: unescape_units list_all_iff)
  qed
qed (simp add: escape_css_def)

theorem escape_css_roundtrip_witness:
  "escape_css (u ''-1.a b'') = u ''-'' @ [92, 51, 49, 32, 92, 46, 97, 92, 32, 98] \<and>
   unescape_css (escape_css (u ''-1.a b'')) = u ''-1.a b''"
proof
  have "list_all (\<lambda>c. 0 < c) (u ''-1.a b'')" by code_simp
  then show "unescape_css (escape_css (u ''-1.a b'')) = u ''-1.a b''" by (rule escape_css_roundtrip)
qed code_simp

section \<open>The bounded cache\<close>

record 'v cache_store =
  cache_keys :: "ustr list"
  cache_entries :: "'v dict"

definition createCache :: "'v cache_store" where
  "createCache = \<lparr> cache_keys = [], cache_entries = [] \<rparr>"

definition cache_get :: "ustr \<Rightarrow> 'v cache_store \<Rightarrow> 'v option" where
  "cache_get key c = dget (cache_entries c) (key @ [32])"

definition cache_put :: "nat \<Rightarrow> ustr \<Rightarrow> 'v \<Rightarrow> 'v cache_store \<Rightarrow> 'v cache_store" where
  "cache_put cacheLength key value c =
    (let ks = cache_keys c @ [key @ [32]];
         (ks, es) = (if length ks > cacheLength then (tl ks, ddel (hd ks) (cache_entries c)) else (ks, cache_entries c))
     in \<lparr> cache_keys = ks, cache_entries = dput (key @ [32]) value es \<rparr>)"

definition cache_ok :: "nat \<Rightarrow> 'v cache_store \<Rightarrow> bool" where
  "cache_ok n c \<longleftrightarrow> length (cache_keys c) \<le> n \<and> distinct (map fst (cache_entries c)) \<and>
     fst ` set (cache_entries c) \<subseteq> set (cache_keys c)"

lemma distinct_ddel: "distinct (map fst d) \<Longrightarrow> distinct (map fst (ddel k d))"
  by (simp add: ddel_def distinct_map_filter)

lemma cache_ok_put: "0 < n \<Longrightarrow> cache_ok n c \<Longrightarrow> cache_ok n (cache_put n key v c)"
proof -
  assume n: "0 < n" and ok: "cache_ok n c"
  obtain ks es where c: "c = \<lparr> cache_keys = ks, cache_entries = es \<rparr>" by (cases c)
  show ?thesis
  proof (cases "length ks + 1 > n")
    case True
    with n obtain k ks' where k: "ks = k # ks'" by (cases ks) auto
    have "fst ` set (ddel k es) \<subseteq> set ks'" using ok k c by (auto simp: cache_ok_def ddel_def)
    moreover have "distinct (map fst (ddel k es))" using ok c by (simp add: cache_ok_def distinct_ddel)
    ultimately show ?thesis using ok c k True by (auto simp: cache_ok_def cache_put_def Let_def)
  next
    case False
    with ok c show ?thesis by (auto simp: cache_ok_def cache_put_def Let_def)
  qed
qed

text \<open>However often and with whatever keys a cache is written, it never has more entries than the limit, and it
  has the entry written last.\<close>

theorem cache_bounded:
  assumes "0 < n"
  shows "length (cache_entries (fold (\<lambda>(k, v). cache_put n k v) kvs createCache)) \<le> n \<and>
    cache_get k (cache_put n k v (fold (\<lambda>(k, v). cache_put n k v) kvs createCache)) = Some v"
proof -
  have ok: "cache_ok n c \<Longrightarrow> cache_ok n (fold (\<lambda>(k, v). cache_put n k v) kvs c)" for c
    by (induction kvs arbitrary: c) (auto simp: cache_ok_put [OF assms])
  have "cache_ok n (createCache :: 'a cache_store)" by (simp add: cache_ok_def createCache_def)
  from ok [OF this] have o': "cache_ok n (fold (\<lambda>(k, v). cache_put n k v) kvs createCache)" .
  have "length (cache_entries c) \<le> n" if "cache_ok n c" for c :: "'a cache_store"
  proof -
    have "length (cache_entries c) = card (fst ` set (cache_entries c))"
      using that by (metis cache_ok_def distinct_card length_map set_map)
    also have "\<dots> \<le> card (set (cache_keys c))" using that by (intro card_mono) (auto simp: cache_ok_def)
    also have "\<dots> \<le> n" using that card_length [of "cache_keys c"] by (auto simp: cache_ok_def)
    finally show ?thesis .
  qed
  with o' show ?thesis by (simp add: cache_get_def cache_put_def Let_def split: prod.split)
qed

theorem cache_bounded_witness:
  "length (cache_entries (fold (\<lambda>(k, v). cache_put 50 k v) [(u ''a'', 1), (u ''a'', 2), (u ''b'', 3 :: nat)] createCache)) \<le> 50"
  using cache_bounded [of 50 "[(u ''a'', 1), (u ''a'', 2), (u ''b'', 3 :: nat)]"] by simp

end
