(* ===== verification/JqToken.thy ===== *)
theory JqToken
  imports JqSelector JsRegExp
begin

text \<open>
  The tokenizer of selectors (\<open>jquery-3.5.1.js\<close>, lines 590 to 655, 1773 to 1855 and 2313 to 2391): the
  regular expressions, the prefilters and the loop.  The tokenizer calls itself on the argument of a
  pseudo-class and therefore has fuel, of which one more than the length of the text is enough; a text
  that is no selector makes it throw.  Capture groups inside a repeated part keep their last
  value here (the language resets them at each iteration); none of them is read.
\<close>

section \<open>The regular expressions\<close>

definition ws_re :: re where
  "ws_re = Cls opt_space"

definition ws_star :: re where
  "ws_star = Star True ws_re"

definition digit_re :: re where
  "digit_re = Cls is_digit"

definition hex_re :: re where
  "hex_re = (let h = Cls is_hex; more = (\<lambda>r. Opt (Seq h r))
     in Seq h (more (more (more (more (more Eps))))))"

definition ident_unit :: re where
  "ident_unit = Alt (Seq (lit [92]) (Seq hex_re (Opt ws_re)))
     (Alt (Seq (lit [92]) (none_of [13, 10, 12])) (Cls (\<lambda>c. word_char c \<or> c = 45 \<or> c > 127)))"

definition identifier_re :: re where
  "identifier_re = Plus True ident_unit"

definition quoted :: "int \<Rightarrow> nat \<Rightarrow> re" where
  "quoted q k = seqs [lit [q], Grp k (Star True (Alt (Seq (lit [92]) Dot) (none_of [92, q]))), lit [q]]"

text \<open>The groups of \<open>attributes\<close> are numbered from \<open>k\<close>, as it occurs inside \<open>pseudos\<close> as well.\<close>

definition attributes_re :: "nat \<Rightarrow> re" where
  "attributes_re k = seqs [lit (u ''[''), ws_star, Grp (k + 1) identifier_re,
     Alt (seqs [ws_star, Grp (k + 2) (Seq (Opt (one_of (u ''*^$|!~''))) (lit (u ''=''))), ws_star,
            Alt (quoted 39 (k + 3)) (Alt (quoted 34 (k + 4)) (Grp (k + 5) identifier_re))]) Eps,
     ws_star, lit (u '']'')]"

definition pseudo_arg :: re where
  "pseudo_arg = Alt (Grp 3 (Alt (quoted 39 4) (quoted 34 5)))
     (Alt (Grp 6 (Star True (Alt (Seq (lit [92]) Dot) (Alt (none_of [92, 40, 41, 91, 93]) (attributes_re 6)))))
        (Star True Dot))"

definition pseudos_tail :: re where
  "pseudos_tail = Seq (Grp 1 identifier_re) (Alt (seqs [lit (u ''(''), Grp 2 pseudo_arg, lit (u '')'')]) Eps)"

definition rpseudo :: re where
  "rpseudo = Seq (lit (u '':'')) pseudos_tail"

definition rcomma :: re where
  "rcomma = seqs [Bol, ws_star, lit (u '',''), ws_star]"

definition rcombinators :: re where
  "rcombinators = seqs [Bol, ws_star, Grp 1 (Alt (one_of (u ''>+~'')) ws_re), ws_star]"

text \<open>A literal without regard to case.\<close>

definition lit_i :: "ustr \<Rightarrow> re" where
  "lit_i w = foldr (\<lambda>c r. Seq (Cls (\<lambda>d. to_lower_unit d = c)) r) w Eps"

definition alts_i :: "ustr list \<Rightarrow> re" where
  "alts_i ws = foldr (\<lambda>w r. Alt (lit_i w) r) ws (Cls (\<lambda>_. False))"

definition sign_re :: re where
  "sign_re = Opt (one_of (u ''+-''))"

definition match_child :: re where
  "match_child = seqs [Bol, lit (u '':''), Grp 1 (alts_i [u ''only'', u ''first'', u ''last'', u ''nth'', u ''nth-last'']), lit (u ''-''),
     Grp 2 (alts_i [u ''child'', u ''of-type'']),
     Alt (seqs [lit (u ''(''), ws_star,
            Grp 3 (Alt (lit_i (u ''even'')) (Alt (lit_i (u ''odd''))
              (seqs [Grp 4 (Alt (seqs [Grp 5 sign_re, Grp 6 (Star True digit_re), lit_i (u ''n'')]) Eps), ws_star,
                 Alt (seqs [Grp 7 sign_re, ws_star, Grp 8 (Plus True digit_re)]) Eps]))),
            ws_star, lit (u '')'')]) Eps]"

datatype ftype = TAG | CLASS | ATTR | CHILD | PSEUDO | ID

definition matchExpr :: "ftype \<Rightarrow> re" where
  "matchExpr type = (case type of
     ID \<Rightarrow> seqs [Bol, lit (u ''#''), Grp 1 identifier_re]
   | CLASS \<Rightarrow> seqs [Bol, lit (u ''.''), Grp 1 identifier_re]
   | TAG \<Rightarrow> seqs [Bol, Grp 1 (Alt identifier_re (lit (u ''*'')))]
   | ATTR \<Rightarrow> Seq Bol (attributes_re 0)
   | PSEUDO \<Rightarrow> Seq Bol rpseudo
   | CHILD \<Rightarrow> match_child)"

section \<open>The tokenizer\<close>

datatype token = Comb ustr int | Tok ustr ftype "ustr option list" "(int \<times> int) option"

fun t_value :: "token \<Rightarrow> ustr" where
  "t_value (Comb v c) = v"
| "t_value (Tok v t ms ns) = v"

datatype 'a tres = TFuel | TThrow ustr | TOk 'a

definition toSelector :: "token list \<Rightarrow> ustr" where
  "toSelector tokens = concat (map t_value tokens)"

text \<open>The prefilters: the text to consume, and what the filter gets; nothing when there is no match.\<close>

definition pre_attr :: "caps \<Rightarrow> ustr option list" where
  "pre_attr c =
    (let value = unescape_css (if cap c 3 \<noteq> [] then cap c 3 else if cap c 4 \<noteq> [] then cap c 4 else cap c 5)
     in [Some (unescape_css (cap c 1)), c 2, Some (attr_check (cap c 2) value)])"

definition pre_child :: "caps \<Rightarrow> (ustr option list \<times> (int \<times> int) option) tres" where
  "pre_child c =
    (case child_prefilter (cap c 1) \<lparr> m_arg = c 3, m_xn = c 4, m_xsign = c 5, m_x = c 6, m_ysign = c 7, m_y = c 8 \<rparr> of
       None \<Rightarrow> TThrow (cap c 0)
     | Some numbers \<Rightarrow> TOk ([Some (to_lower (cap c 1)), c 2, c 3], numbers))"

definition index_from :: "ustr \<Rightarrow> int \<Rightarrow> nat \<Rightarrow> int" where
  "index_from s ch i = (case find_str [ch] (drop i s) of None \<Rightarrow> -1 | Some k \<Rightarrow> int (i + k))"

definition pre_pseudo :: "(ustr \<Rightarrow> nat tres) \<Rightarrow> caps \<Rightarrow> (ustr \<times> ustr option list) option tres" where
  "pre_pseudo tokenize_only c =
    (let unquoted = (if cap c 6 \<noteq> [] then [] else cap c 2)
     in if test match_child (cap c 0) then TOk None
        else if cap c 3 \<noteq> [] then TOk (Some (cap c 0, [c 1, Some (if cap c 4 \<noteq> [] then cap c 4 else cap c 5)]))
        else if unquoted \<noteq> [] \<and> test rpseudo unquoted
        then (case tokenize_only unquoted of
            TFuel \<Rightarrow> TFuel
          | TThrow e \<Rightarrow> TThrow e
          | TOk excess \<Rightarrow>
              (let cut = (if excess = 0 then 0 else index_from unquoted 41 (length unquoted - excess) - int (length unquoted))
               in if cut \<noteq> 0 then TOk (Some (slice (cap c 0) 0 cut, [c 1, Some (slice unquoted 0 cut)]))
                  else TOk (Some (cap c 0, [c 1, c 2]))))
        else TOk (Some (cap c 0, [c 1, c 2])))"

definition pre_filter :: "(ustr \<Rightarrow> nat tres) \<Rightarrow> ftype \<Rightarrow> caps \<Rightarrow> (ustr \<times> ustr option list \<times> (int \<times> int) option) option tres" where
  "pre_filter tokenize_only type c = (case type of
     ATTR \<Rightarrow> TOk (Some (cap c 0, pre_attr c, None))
   | CHILD \<Rightarrow> (case pre_child c of TFuel \<Rightarrow> TFuel | TThrow e \<Rightarrow> TThrow e | TOk (ms, ns) \<Rightarrow> TOk (Some (cap c 0, ms, ns)))
   | PSEUDO \<Rightarrow> (case pre_pseudo tokenize_only c of TFuel \<Rightarrow> TFuel | TThrow e \<Rightarrow> TThrow e
       | TOk None \<Rightarrow> TOk None | TOk (Some (v, ms)) \<Rightarrow> TOk (Some (v, ms, None)))
   | _ \<Rightarrow> TOk (Some (cap c 0, [c 1], None)))"

definition push_token :: "token \<Rightarrow> token list list \<Rightarrow> token list list" where
  "push_token t groups = butlast groups @ [last groups @ [t]]"

text \<open>The \<open>for\<close> loop over the filters.\<close>

fun filter_loop :: "(ustr \<Rightarrow> nat tres) \<Rightarrow> ftype list \<Rightarrow> ustr \<Rightarrow> ustr \<Rightarrow> token list list \<Rightarrow> (ustr \<times> ustr \<times> token list list) tres" where
  "filter_loop tk [] matched soFar groups = TOk (matched, soFar, groups)"
| "filter_loop tk (type # types) matched soFar groups =
    (case exec (matchExpr type) soFar of
       None \<Rightarrow> filter_loop tk types matched soFar groups
     | Some (a, b, c) \<Rightarrow>
         (case pre_filter tk type c of
            TFuel \<Rightarrow> TFuel
          | TThrow e \<Rightarrow> TThrow e
          | TOk None \<Rightarrow> filter_loop tk types matched soFar groups
          | TOk (Some (v, ms, ns)) \<Rightarrow>
              filter_loop tk types v (drop (length v) soFar) (push_token (Tok v type ms ns) groups)))"

definition filter_types :: "ftype list" where
  "filter_types = [TAG, CLASS, ATTR, CHILD, PSEUDO, ID]"

definition comma_step :: "bool \<Rightarrow> ustr \<Rightarrow> token list list \<Rightarrow> ustr \<times> token list list" where
  "comma_step first soFar groups =
    (if first then (soFar, groups @ [[]])
     else case exec rcomma soFar of
       None \<Rightarrow> (soFar, groups)
     | Some (a, b, c) \<Rightarrow> (if drop b soFar = [] then soFar else drop b soFar, groups @ [[]]))"

definition comb_step :: "ustr \<Rightarrow> token list list \<Rightarrow> ustr \<times> ustr \<times> token list list" where
  "comb_step soFar groups = (case exec rcombinators soFar of
     None \<Rightarrow> ([], soFar, groups)
   | Some (a, b, c) \<Rightarrow>
       (cap c 0, drop (length (cap c 0)) soFar,
        push_token (Comb (cap c 0) (if opt_space (hd (cap c 1)) then 32 else hd (cap c 1))) groups))"

fun tok_loop :: "nat \<Rightarrow> bool \<Rightarrow> ustr \<Rightarrow> token list list \<Rightarrow> (ustr \<times> token list list) tres" where
  "tok_loop 0 first soFar groups = TFuel"
| "tok_loop (Suc n) first soFar groups =
    (if soFar = [] then TOk (soFar, groups)
     else case comma_step first soFar groups of (soFar, groups) \<Rightarrow>
       (case comb_step soFar groups of (matched, soFar, groups) \<Rightarrow>
         (case filter_loop (\<lambda>s. case tok_loop n True s [] of TFuel \<Rightarrow> TFuel | TThrow e \<Rightarrow> TThrow e
               | TOk (rest, _) \<Rightarrow> TOk (length rest)) filter_types matched soFar groups of
            TFuel \<Rightarrow> TFuel
          | TThrow e \<Rightarrow> TThrow e
          | TOk (matched, soFar, groups) \<Rightarrow>
              if matched = [] then TOk (soFar, groups) else tok_loop n False soFar groups)))"

text \<open>\<open>tokenize\<close> without and with the parse-only flag; an incomplete parse is an error in the first case.\<close>

definition parse_excess :: "ustr \<Rightarrow> nat tres" where
  "parse_excess selector = (case tok_loop (Suc (length selector)) True selector [] of
     TFuel \<Rightarrow> TFuel | TThrow e \<Rightarrow> TThrow e | TOk (rest, groups) \<Rightarrow> TOk (length rest))"

definition tokenize :: "ustr \<Rightarrow> token list list tres" where
  "tokenize selector = (case tok_loop (Suc (length selector)) True selector [] of
     TFuel \<Rightarrow> TFuel | TThrow e \<Rightarrow> TThrow e
   | TOk (rest, groups) \<Rightarrow> if rest \<noteq> [] then TThrow selector else TOk groups)"

text \<open>With the cache.\<close>

definition tokenize_cached :: "ustr \<Rightarrow> token list list cache_store \<Rightarrow> token list list tres \<times> token list list cache_store" where
  "tokenize_cached selector c = (case cache_get selector c of
     Some groups \<Rightarrow> (TOk groups, c)
   | None \<Rightarrow> (case tokenize selector of
       TOk groups \<Rightarrow> (TOk groups, cache_put 50 selector groups c)
     | r \<Rightarrow> (r, c)))"

section \<open>What a match consumes\<close>

text \<open>The units a pattern can consume, the unit a match can start with, and whether it can be empty.\<close>

fun re_chars :: "re \<Rightarrow> int \<Rightarrow> bool" where
  "re_chars (Cls p) c = p c"
| "re_chars (Seq a b) c = (re_chars a c \<or> re_chars b c)"
| "re_chars (Alt a b) c = (re_chars a c \<or> re_chars b c)"
| "re_chars (Star g r) c = re_chars r c"
| "re_chars (Grp k r) c = re_chars r c"
| "re_chars (Bref k) c = True"
| "re_chars _ c = False"

fun re_empty :: "re \<Rightarrow> bool" where
  "re_empty (Cls p) = False"
| "re_empty (Seq a b) = (re_empty a \<and> re_empty b)"
| "re_empty (Alt a b) = (re_empty a \<or> re_empty b)"
| "re_empty (Grp k r) = re_empty r"
| "re_empty _ = True"

fun re_first :: "re \<Rightarrow> int \<Rightarrow> bool" where
  "re_first (Cls p) c = p c"
| "re_first (Seq a b) c = (re_first a c \<or> re_empty a \<and> re_first b c)"
| "re_first (Alt a b) c = (re_first a c \<or> re_first b c)"
| "re_first (Star g r) c = re_first r c"
| "re_first (Grp k r) c = re_first r c"
| "re_first (Bref k) c = True"
| "re_first _ c = False"

lemma rm_chars:
  "st' \<in> set (rm s r st) \<Longrightarrow> fst st \<le> length s \<Longrightarrow> fst st \<le> k \<Longrightarrow> k < fst st' \<Longrightarrow> re_chars r (s ! k)"
proof (induction s r st arbitrary: st' k rule: rm.induct)
  case (2 s p st)
  then show ?case by (auto split: if_splits simp: less_Suc_eq)
next
  case (3 s a b st)
  then obtain st'' where st'': "st'' \<in> set (rm s a st)" "st' \<in> set (rm s b st'')" by auto
  have "fst st'' \<le> length s" using rm_mono [OF st''(1)] 3 by simp
  then show ?case using 3(1) [OF st''(1)] 3(2) [OF st''] 3 by (cases "k < fst st''") auto
next
  case (5 s g r st)
  have "st' \<in> set (rep (length s - fst st) g (rm s r) st)" using 5(2) by simp
  then have "fst st' \<le> length s \<and> (\<forall>k. fst st \<le> k \<longrightarrow> k < fst st' \<longrightarrow> re_chars r (s ! k))"
  proof (rule rep_inv)
    show "\<forall>a b. fst a \<le> length s \<and> (\<forall>k. fst st \<le> k \<longrightarrow> k < fst a \<longrightarrow> re_chars r (s ! k)) \<longrightarrow> b \<in> set (rm s r a) \<longrightarrow>
        fst b \<le> length s \<and> (\<forall>k. fst st \<le> k \<longrightarrow> k < fst b \<longrightarrow> re_chars r (s ! k))"
    proof (intro allI impI, elim conjE, intro conjI allI impI)
      fix a b k assume a: "fst a \<le> length s" "\<forall>k. fst st \<le> k \<longrightarrow> k < fst a \<longrightarrow> re_chars r (s ! k)"
        and b: "b \<in> set (rm s r a)" and k: "fst st \<le> k" "k < fst b"
      then show "re_chars r (s ! k)" using 5(1) [OF b a(1) _ k(2)] by (cases "k < fst a") auto
    qed (use rm_mono in blast)
  qed (use 5(3) in simp)
  then show ?case using 5(4,5) by simp
qed (auto split: if_splits)

lemma rm_first:
  "st' \<in> set (rm s r st) \<Longrightarrow> fst st \<le> length s \<Longrightarrow>
   fst st' = fst st \<and> re_empty r \<or> fst st < fst st' \<and> re_first r (s ! fst st)"
proof (induction s r st arbitrary: st' rule: rm.induct)
  case (3 s a b st)
  then obtain st'' where st'': "st'' \<in> set (rm s a st)" "st' \<in> set (rm s b st'')" by auto
  have "fst st'' \<le> length s" using rm_mono [OF st''(1)] 3 by simp
  with 3(1) [OF st''(1) 3(4)] 3(2) [OF st'' this] rm_mono [OF st''(2) this] show ?case by auto
next
  case (5 s g r st)
  have "st' \<in> set (rep (length s - fst st) g (rm s r) st)" using 5(2) by simp
  then have "fst st' \<le> length s \<and> (fst st' = fst st \<or> fst st < fst st' \<and> re_first r (s ! fst st))"
  proof (rule rep_inv)
    show "\<forall>a b. fst a \<le> length s \<and> (fst a = fst st \<or> fst st < fst a \<and> re_first r (s ! fst st)) \<longrightarrow> b \<in> set (rm s r a) \<longrightarrow>
        fst b \<le> length s \<and> (fst b = fst st \<or> fst st < fst b \<and> re_first r (s ! fst st))"
    proof (intro allI impI, elim conjE)
      fix a b assume a: "fst a \<le> length s" "fst a = fst st \<or> fst st < fst a \<and> re_first r (s ! fst st)"
        and b: "b \<in> set (rm s r a)"
      from 5(1) [OF b a(1)] rm_mono [OF b a(1)] a
      show "fst b \<le> length s \<and> (fst b = fst st \<or> fst st < fst b \<and> re_first r (s ! fst st))" by auto
    qed
  qed (use 5(3) in simp)
  then show ?case by auto
next
  case (6 s k r st)
  then obtain st'' where "st'' \<in> set (rm s r st)" "fst st' = fst st''" by auto
  with 6 show ?case by simp
qed (auto split: if_splits option.splits)

lemma rm_cap_len:
  "st' \<in> set (rm s r st) \<Longrightarrow> i \<le> fst st \<Longrightarrow> fst st \<le> length s \<Longrightarrow> (\<And>k w. snd st k = Some w \<Longrightarrow> length w + i \<le> length s) \<Longrightarrow>
   snd st' k = Some w \<Longrightarrow> length w + i \<le> length s"
proof (induction s r st arbitrary: st' k w rule: rm.induct)
  case (3 s a b st)
  then obtain st'' where st'': "st'' \<in> set (rm s a st)" "st' \<in> set (rm s b st'')" by auto
  have "fst st \<le> fst st'' \<and> fst st'' \<le> length s" using rm_mono [OF st''(1)] 3 by simp
  with 3(1) [OF st''(1) 3(4,5,6)] 3(2) [OF st''] 3(4,7) show ?case by (meson order_trans)
next
  case (5 s g r st)
  have "st' \<in> set (rep (length s - fst st) g (rm s r) st)" using 5(2) by simp
  then have "i \<le> fst st' \<and> fst st' \<le> length s \<and> (\<forall>k w. snd st' k = Some w \<longrightarrow> length w + i \<le> length s)"
  proof (rule rep_inv)
    show "\<forall>a b. i \<le> fst a \<and> fst a \<le> length s \<and> (\<forall>k w. snd a k = Some w \<longrightarrow> length w + i \<le> length s) \<longrightarrow> b \<in> set (rm s r a) \<longrightarrow>
        i \<le> fst b \<and> fst b \<le> length s \<and> (\<forall>k w. snd b k = Some w \<longrightarrow> length w + i \<le> length s)"
    proof (intro allI impI, elim conjE, intro conjI allI impI)
      fix a b k w assume a: "i \<le> fst a" "fst a \<le> length s" "\<forall>k w. snd a k = Some w \<longrightarrow> length w + i \<le> length s"
        and b: "b \<in> set (rm s r a)"
      show "i \<le> fst b" "fst b \<le> length s" using rm_mono [OF b a(2)] a(1) by simp_all
      assume "snd b k = Some w"
      with 5(1) [OF b a(1,2)] a(3) show "length w + i \<le> length s" by blast
    qed
  qed (use 5(3,4,5) in auto)
  with 5(6) show ?case by blast
next
  case (6 s n r st)
  from 6(2) obtain st'' where st'': "st'' \<in> set (rm s r st)"
    "st' = (fst st'', (snd st'')(n := Some (substring s (fst st) (fst st''))))" by auto
  have m: "fst st \<le> fst st'' \<and> fst st'' \<le> length s" using rm_mono [OF st''(1)] 6 by simp
  show ?case
  proof (cases "w = substring s (fst st) (fst st'')")
    case True
    with m 6(3) show ?thesis by (auto simp: substring_def)
  next
    case False
    with 6 st'' show ?thesis by (auto split: if_splits)
  qed
qed (auto split: if_splits option.splits)

section \<open>The steps of the tokenizer\<close>

lemma re_empty_lit [simp]: "re_empty (lit w) \<longleftrightarrow> w = []"
  by (cases w) (simp_all add: lit_def)

lemma re_first_lit [simp]: "re_first (lit w) c \<longleftrightarrow> w \<noteq> [] \<and> hd w = c"
  by (cases w) (auto simp: lit_def)

lemma exec_bol:
  assumes "exec (Seq Bol r) s = Some (a, b, c)"
  obtains c' where "a = 0" "b \<le> length s" "cap c 0 = take b s" "(b, c') \<in> set (rm s r (0, no_caps))"
    "\<And>k. k \<noteq> 0 \<Longrightarrow> c k = c' k"
  using exec_Some [OF assms] that
  by (auto simp: cap_def substring_def split: if_splits)

lemma matchExpr_bol: "\<exists>r. matchExpr type = Seq Bol r \<and> \<not> re_empty r"
  by (cases type) (simp_all add: matchExpr_def seqs_def attributes_re_def rpseudo_def match_child_def identifier_re_def
      ident_unit_def Plus_def none_of_def u_def)

lemma take_substring: "\<exists>m. slice v 0 j = take m v"
  by (auto simp: slice_def slice_idx_def substring_def)

lemma pre_pseudo_prefix: "pre_pseudo tk c = TOk (Some (v, ms)) \<Longrightarrow> \<exists>m. v = take m (cap c 0)"
proof -
  have id: "\<exists>m. x = take m x" for x :: ustr by (metis order_refl take_all)
  assume "pre_pseudo tk c = TOk (Some (v, ms))"
  then have "v = cap c 0 \<or> (\<exists>j. v = slice (cap c 0) 0 j)"
    by (auto simp: pre_pseudo_def Let_def split: if_splits tres.splits)
  then show ?thesis using id [of "cap c 0"] take_substring [of "cap c 0"] by metis
qed

lemma pre_filter_prefix: "pre_filter tk type c = TOk (Some (v, ms, ns)) \<Longrightarrow> \<exists>m. v = take m (cap c 0)"
proof -
  have id: "\<exists>m. x = take m x" for x :: ustr by (metis order_refl take_all)
  assume a: "pre_filter tk type c = TOk (Some (v, ms, ns))"
  then consider "v = cap c 0" | ms where "pre_pseudo tk c = TOk (Some (v, ms))"
    by (cases type) (auto simp: pre_filter_def split: tres.splits option.splits)
  then show ?thesis by cases (use id pre_pseudo_prefix in auto)
qed

lemma filter_prefix:
  assumes "exec (matchExpr type) s = Some (a, b, c)" "pre_filter tk type c = TOk (Some (v, ms, ns))"
  shows "s = v @ drop (length v) s"
proof -
  obtain r where "matchExpr type = Seq Bol r" using matchExpr_bol by blast
  with assms(1) have "cap c 0 = take b s" by (metis exec_bol)
  with pre_filter_prefix [OF assms(2)] obtain m where "v = take (min m b) s" by (metis take_take)
  moreover have "take i s = take (length (take i s)) s" for i by (cases "i \<le> length s") simp_all
  ultimately show ?thesis by (metis append_take_drop_id)
qed

text \<open>A list of groups and a rest account for a text when it is the values of their tokens, with a separator
  in front of each group but the first, and the rest.\<close>

definition separator :: "ustr \<Rightarrow> bool" where
  "separator p \<longleftrightarrow> filter (\<lambda>c. \<not> opt_space c) p = [44]"

definition joined :: "ustr list \<Rightarrow> token list list \<Rightarrow> ustr" where
  "joined ps groups = concat (map2 (\<lambda>p g. p @ toSelector g) ps groups)"

definition accounts :: "ustr \<Rightarrow> token list list \<Rightarrow> ustr \<Rightarrow> bool" where
  "accounts s groups rest \<longleftrightarrow> groups \<noteq> [] \<and>
     (\<exists>ps. length ps + 1 = length groups \<and> list_all separator ps \<and> s = joined ([] # ps) groups @ rest)"

lemma accounts_first: "accounts s [[]] s"
  by (simp add: accounts_def joined_def toSelector_def)

lemma accounts_comma: "accounts s groups (p @ rest) \<Longrightarrow> separator p \<Longrightarrow> accounts s (groups @ [[]]) rest"
proof -
  assume "accounts s groups (p @ rest)" and p: "separator p"
  then obtain ps where ps: "length ps + 1 = length groups" "list_all separator ps" "s = joined ([] # ps) groups @ p @ rest"
    by (auto simp: accounts_def)
  have "zip (([] # ps) @ [p]) (groups @ [[]]) = zip ([] # ps) groups @ [(p, [])]" using ps(1) by (subst zip_append) auto
  then have "joined ([] # ps @ [p]) (groups @ [[]]) = joined ([] # ps) groups @ p"
    by (simp add: joined_def toSelector_def)
  with ps p have "length (ps @ [p]) + 1 = length (groups @ [[]]) \<and> list_all separator (ps @ [p]) \<and>
      s = joined ([] # ps @ [p]) (groups @ [[]]) @ rest" by simp
  then show ?thesis unfolding accounts_def by blast
qed

lemma accounts_push: "accounts s groups (t_value t @ rest) \<Longrightarrow> accounts s (push_token t groups) rest"
proof -
  assume a: "accounts s groups (t_value t @ rest)"
  then obtain gs g where g: "groups = gs @ [g]" by (metis accounts_def rev_exhaust)
  from a obtain ps where ps: "length ps + 1 = length groups" "list_all separator ps"
    "s = joined ([] # ps) groups @ t_value t @ rest"
    by (auto simp: accounts_def)
  obtain qs q where q: "[] # ps = qs @ [q]" by (metis list.distinct(1) rev_exhaust)
  have "length qs = length gs" using arg_cong [OF q, of length] ps(1) g by simp
  then have "joined (qs @ [q]) (gs @ [g @ [t]]) = joined (qs @ [q]) (gs @ [g]) @ t_value t"
    by (simp add: joined_def toSelector_def)
  with ps g q show ?thesis unfolding accounts_def push_token_def by (auto intro!: exI [of _ ps])
qed

text \<open>The loop over the filters: what it accounts for, and that it consumes when it matches.\<close>

definition consumed :: "ustr \<Rightarrow> ustr \<Rightarrow> ustr \<Rightarrow> ustr \<Rightarrow> bool" where
  "consumed m s m' s' \<longleftrightarrow> length s' \<le> length s \<and> (m' = m \<and> s' = s \<or> m' = [] \<or> length s' < length s)"

lemma filter_loop_accounts:
  "filter_loop tk types m s groups = TOk (m', s', groups') \<Longrightarrow> accounts t groups s \<Longrightarrow>
   accounts t groups' s' \<and> consumed m s m' s'"
proof (induction types arbitrary: m s groups)
  case (Cons type types)
  show ?case
  proof (cases "exec (matchExpr type) s")
    case (Some x)
    obtain a b c where x: "x = (a, b, c)" by (rule prod_cases3)
    consider "pre_filter tk type c = TOk None" | v ms ns where "pre_filter tk type c = TOk (Some (v, ms, ns))"
      using Cons.prems(1) Some x by (auto split: tres.splits option.splits)
    then show ?thesis
    proof cases
      case 2
      from filter_prefix [OF Some [unfolded x] 2] have v: "s = v @ drop (length v) s" .
      have "accounts t groups (t_value (Tok v type ms ns) @ drop (length v) s)"
        using Cons.prems(2) by (simp flip: v)
      from accounts_push [OF this] Cons.prems(1) Some x 2
        Cons.IH [of v "drop (length v) s" "push_token (Tok v type ms ns) groups"]
      have "accounts t groups' s' \<and> consumed v (drop (length v) s) m' s'" by simp
      moreover have "length v \<le> length s" using arg_cong [OF v, of length] by simp
      ultimately show ?thesis by (cases v) (auto simp: consumed_def)
    qed (use Cons Some x in simp)
  qed (use Cons in simp)
qed (simp add: consumed_def)

text \<open>A comma with white space around it.\<close>

lemma rm_star_class: "\<exists>sts. rm s (Star True (Cls p)) (i, c) = (i + length (takeWhile p (drop i s)), c) # sts"
proof -
  have "\<exists>sts. rep n True (rm s (Cls p)) (i, c) = (i + length (takeWhile p (drop i s)), c) # sts" if "length s - i \<le> n" for n
    using that
  proof (induction n arbitrary: i)
    case (Suc n)
    show ?case
    proof (cases "i < length s \<and> p (s ! i)")
      case True
      then have d: "drop i s = s ! i # drop (Suc i) s" by (simp add: Cons_nth_drop_Suc)
      have "length s - Suc i \<le> n" using Suc.prems by simp
      from Suc.IH [OF this]
      obtain sts where "rep n True (rm s (Cls p)) (Suc i, c) = (Suc i + length (takeWhile p (drop (Suc i) s)), c) # sts" by blast
      moreover have "rm s (Cls p) (i, c) = [(Suc i, c)]" using True by simp
      ultimately show ?thesis using True by (simp add: d del: rm.simps)
    next
      case False
      then have "takeWhile p (drop i s) = []" by (cases "i < length s") (auto simp flip: Cons_nth_drop_Suc)
      then show ?thesis using False by auto
    qed
  qed simp
  then show ?thesis by simp
qed

lemma separator_split:
  assumes "separator p"
  obtains v w where "p = v @ 44 # w" "list_all opt_space v" "list_all opt_space w"
proof -
  obtain v w where "p = v @ 44 # w" "\<forall>c \<in> set v. opt_space c" "filter (\<lambda>c. \<not> opt_space c) w = []"
    using assms unfolding separator_def filter_eq_Cons_iff by auto
  then show thesis using that by (simp add: list_all_iff filter_empty_conv)
qed

lemma exec_rcomma: "separator p \<Longrightarrow> \<exists>c. exec rcomma p = Some (0, length p, c)"
proof -
  assume "separator p"
  then obtain v w where p: "p = v @ 44 # w" "list_all opt_space v" "list_all opt_space w" by (rule separator_split)
  have n: "\<not> opt_space 44" by (simp add: opt_space_def)
  have v: "takeWhile opt_space p = v" using p n by (simp add: list_all_iff)
  obtain s1 where 1: "rm p ws_star (0, no_caps) = (length v, no_caps) # s1"
    using rm_star_class [of p opt_space 0 no_caps] v by (auto simp: ws_star_def ws_re_def)
  have 2: "rm p (lit [44]) (length v, no_caps) = [(Suc (length v), no_caps)]"
    by (simp add: rm_lit p starts_with_def)
  have t: "takeWhile opt_space w = w" using p(3) by (intro iffD2 [OF takeWhile_eq_all_conv]) (simp add: list_all_iff)
  have w: "drop (Suc (length v)) p = w" by (simp add: p(1))
  have l: "Suc (length v) + length (takeWhile opt_space w) = length p" unfolding t by (simp add: p(1))
  obtain s3 where 3: "rm p ws_star (Suc (length v), no_caps) = (length p, no_caps) # s3"
    using rm_star_class [of p opt_space "Suc (length v)" no_caps] unfolding ws_star_def ws_re_def w l by blast
  have "\<exists>sts. rm p rcomma (0, no_caps) = (length p, no_caps) # sts"
    by (simp add: rcomma_def u_def 1 2 3)
  then show ?thesis by (auto simp: exec_def)
qed

lemma rcomma_separator:
  assumes "exec rcomma s = Some (a, b, c)"
  shows "separator (take b s) \<and> b \<le> length s"
proof -
  have "exec (Seq Bol (seqs [ws_star, lit (u '',''), ws_star])) s = Some (a, b, c)"
    using assms by (simp add: rcomma_def seqs_def)
  then obtain c' where b: "b \<le> length s" and m: "(b, c') \<in> set (rm s (seqs [ws_star, lit [44], ws_star]) (0, no_caps))"
    by (rule exec_bol) (simp add: u_def)
  from m obtain x y where x: "x \<in> set (rm s ws_star (0, no_caps))" and y: "y \<in> set (rm s (lit [44]) x)"
    and z: "(b, c') \<in> set (rm s ws_star y)" by auto
  have xl: "fst x \<le> length s" using rm_mono [OF x] by simp
  have "fst x < length s \<and> s ! fst x = 44 \<and> y = (Suc (fst x), snd x)"
    using y xl by (cases "fst x < length s") (auto simp: lit_def)
  then have y': "y = (Suc (fst x), snd x)" "fst x < length s" "s ! fst x = 44" by simp_all
  have ws: "re_chars ws_star = opt_space" by (auto simp: ws_star_def ws_re_def)
  have 1: "opt_space (s ! k)" if "k < fst x" for k using rm_chars [OF x] that ws by simp
  have 2: "opt_space (s ! k)" if "Suc (fst x) \<le> k" "k < b" for k using rm_chars [OF z, of k] that ws y' by simp
  have "Suc (fst x) \<le> b" using rm_mono [OF z] y' by simp
  then have e: "take b s = take (fst x) s @ 44 # drop (Suc (fst x)) (take b s)"
    using y'(2,3) b id_take_nth_drop [of "fst x" "take b s"] by simp
  have f: "filter (\<lambda>c. \<not> opt_space c) (take (fst x) s) = []"
    using 1 by (auto simp: filter_empty_conv in_set_conv_nth)
  have "opt_space (drop (Suc (fst x)) (take b s) ! i)" if "i < b - Suc (fst x)" for i
    using 2 [of "Suc (fst x) + i"] that b y'(2) \<open>Suc (fst x) \<le> b\<close> by (simp add: nth_drop)
  then have g: "filter (\<lambda>c. \<not> opt_space c) (drop (Suc (fst x)) (take b s)) = []"
    using b by (auto simp: filter_empty_conv in_set_conv_nth)
  have "filter (\<lambda>c. \<not> opt_space c) (take b s) = [44]"
    by (subst e) (simp add: f g, simp add: opt_space_def)
  with b show ?thesis by (simp add: separator_def)
qed

lemma comma_accounts:
  assumes "comma_step first s groups = (s', groups')" "if first then groups = [] \<and> t = s else accounts t groups s"
  shows "accounts t groups' s' \<or> separator s" "length s' \<le> length s" "groups' \<noteq> []"
proof -
  have "(accounts t groups' s' \<or> separator s) \<and> length s' \<le> length s \<and> groups' \<noteq> []"
  proof (cases "first \<or> exec rcomma s = None")
    case True
    with assms accounts_first [of t] show ?thesis by (auto simp: comma_step_def accounts_def split: if_splits)
  next
    case False
    then obtain a b c where e: "exec rcomma s = Some (a, b, c)" "\<not> first" by auto
    from rcomma_separator [OF e(1)] have p: "separator (take b s)" "b \<le> length s" by simp_all
    from assms(2) e(2) have "accounts t groups (take b s @ drop b s)" by simp
    from accounts_comma [OF this p(1)] assms(1) e p show ?thesis by (auto simp: comma_step_def split: if_splits)
  qed
  then show "accounts t groups' s' \<or> separator s" "length s' \<le> length s" "groups' \<noteq> []" by simp_all
qed

lemma rcombinators_prefix:
  assumes "exec rcombinators s = Some (a, b, c)"
  obtains r c' where "rcombinators = Seq Bol r" "cap c 0 = take b s" "b \<le> length s" "(b, c') \<in> set (rm s r (0, no_caps))"
proof -
  have r: "rcombinators = Seq Bol (seqs [ws_star, Grp 1 (Alt (one_of (u ''>+~'')) ws_re), ws_star])"
    by (simp add: rcombinators_def seqs_def)
  from exec_bol [OF assms [unfolded r]] r that show thesis by metis
qed

lemma comb_accounts:
  assumes "comb_step s groups = (m, s', groups')"
  shows "s = m @ s'" "accounts t groups s \<Longrightarrow> accounts t groups' s'"
proof -
  have "s = m @ s' \<and> (accounts t groups s \<longrightarrow> accounts t groups' s')"
  proof (cases "exec rcombinators s")
    case (Some x)
    obtain a b c where x: "x = (a, b, c)" by (rule prod_cases3)
    obtain p where p: "cap c 0 = take b s" using Some x by (metis rcombinators_prefix)
    obtain k where k: "m = take b s" "s' = drop (length (take b s)) s" "groups' = push_token (Comb m k) groups"
      using assms Some x p by (auto simp: comb_step_def)
    then have "s = m @ s'" by (cases "b \<le> length s") auto
    moreover have "accounts t groups (t_value (Comb m k) @ s') \<longrightarrow> accounts t groups' s'"
      using accounts_push k(3) by blast
    ultimately show ?thesis by simp
  qed (use assms in \<open>simp add: comb_step_def\<close>)
  then show "s = m @ s'" "accounts t groups s \<Longrightarrow> accounts t groups' s'" by simp_all
qed

text \<open>A trailing comma is never consumed.\<close>

lemma comb_separator: "separator s \<Longrightarrow> comb_step s groups = (m, s', groups') \<Longrightarrow> separator s'"
proof (cases "exec rcombinators s")
  case (Some x)
  assume s: "separator s" and e: "comb_step s groups = (m, s', groups')"
  obtain a b c where x: "x = (a, b, c)" by (rule prod_cases3)
  obtain r c' where r: "rcombinators = Seq Bol r" "cap c 0 = take b s" "b \<le> length s" "(b, c') \<in> set (rm s r (0, no_caps))"
    using rcombinators_prefix [OF Some [unfolded x]] by blast
  have m: "m = take b s" using e Some x r(2) by (simp add: comb_step_def)
  have "re_chars r d \<Longrightarrow> d \<noteq> 44" for d
    using r(1) by (auto simp: rcombinators_def seqs_def ws_star_def ws_re_def one_of_def u_def opt_space_def)
  moreover have "d \<in> set m \<Longrightarrow> re_chars r d" for d
    using rm_chars [OF r(4)] r(3) by (auto simp: m in_set_conv_nth)
  ultimately have "44 \<notin> set m" by blast
  moreover have "filter (\<lambda>c. \<not> opt_space c) m @ filter (\<lambda>c. \<not> opt_space c) s' = [44]"
    using s comb_accounts(1) [OF e] by (simp add: separator_def flip: filter_append)
  moreover have "44 \<in> set m" if "filter (\<lambda>c. \<not> opt_space c) m = 44 # ds" for ds
    using arg_cong [OF that, of set] by auto
  ultimately show ?thesis by (auto simp: separator_def append_eq_Cons_conv)
qed (simp add: comb_step_def)

lemma matchExpr_first: "re_first (matchExpr type) c \<Longrightarrow> \<not> opt_space c \<and> c \<noteq> 44"
  by (cases type) (auto simp: matchExpr_def seqs_def attributes_re_def rpseudo_def match_child_def identifier_re_def
      ident_unit_def Plus_def none_of_def u_def opt_space_def word_char_def)

lemma filters_separator: "separator s \<Longrightarrow> exec (matchExpr type) s = None"
proof (rule ccontr)
  assume s: "separator s" and "exec (matchExpr type) s \<noteq> None"
  then obtain a b c where e: "exec (matchExpr type) s = Some (a, b, c)" by auto
  obtain r where r: "matchExpr type = Seq Bol r" "\<not> re_empty r" using matchExpr_bol by blast
  from exec_bol [OF e [unfolded r(1)]] obtain c' where "(b, c') \<in> set (rm s r (0, no_caps))" by blast
  from rm_first [OF this] r have "re_first (matchExpr type) (s ! 0)" by simp
  moreover have "opt_space (s ! 0) \<or> s ! 0 = 44"
    using s by (cases s) (auto simp: separator_def split: if_splits)
  ultimately show False using matchExpr_first by blast
qed

lemma filter_loop_separator: "separator s \<Longrightarrow> filter_loop tk types m s groups = TOk (m, s, groups)"
  by (induction types) (simp_all add: filters_separator)

lemma tok_loop_separator: "separator s \<Longrightarrow> tok_loop n first s groups = TOk (rest, groups') \<Longrightarrow> rest \<noteq> []"
proof (induction n arbitrary: first s groups)
  case (Suc n)
  obtain c where "exec rcomma s = Some (0, length s, c)" using exec_rcomma [OF Suc.prems(1)] by blast
  then obtain g1 where 1: "comma_step first s groups = (s, g1)" by (auto simp: comma_step_def)
  obtain m s' g2 where 2: "comb_step s g1 = (m, s', g2)" by (rule prod_cases3)
  from comb_separator [OF Suc.prems(1) 2] have s': "separator s'" .
  have ne: "s \<noteq> []" "s' \<noteq> []" using Suc.prems(1) s' by (auto simp: separator_def)
  show ?case
  proof (cases "m = []")
    case True
    with Suc.prems(2) ne 1 2 show ?thesis by (auto simp: filter_loop_separator [OF s'])
  next
    case False
    with Suc.prems(2) ne 1 2 have "tok_loop n False s' g2 = TOk (rest, groups')" by (simp add: filter_loop_separator [OF s'])
    with Suc.IH s' show ?thesis by blast
  qed
qed simp

section \<open>Termination\<close>

lemma pseudo_argument:
  assumes "exec (matchExpr PSEUDO) s = Some (a, b, c)" "cap c 2 \<noteq> []"
  shows "length (cap c 2) < length s"
proof -
  from assms(1) have "exec (Seq Bol rpseudo) s = Some (a, b, c)" by (simp add: matchExpr_def)
  from exec_bol [OF this] obtain c' where c: "(b, c') \<in> set (rm s rpseudo (0, no_caps))" "c 2 = c' 2"
    by (metis zero_neq_numeral)
  from c(1) obtain x where x: "x \<in> set (rm s (lit [58]) (0, no_caps))" "(b, c') \<in> set (rm s pseudos_tail x)"
    by (auto simp: rpseudo_def u_def)
  from in_rm_lit [OF x(1)] rm_mono [OF x(1)] have "x = (1, no_caps)" "1 \<le> length s" by auto
  with rm_cap_len [OF x(2), of 1 2] c(2) assms(2) show ?thesis
    by (auto simp: cap_def no_caps_def split: option.splits)
qed

lemma pre_filter_fuel:
  assumes "exec (matchExpr type) s = Some (a, b, c)" "\<And>w. length w < length s \<Longrightarrow> tk w \<noteq> TFuel"
  shows "pre_filter tk type c \<noteq> TFuel"
proof (cases type)
  case PSEUDO
  with assms pseudo_argument [of s a b c] show ?thesis
    by (auto simp: pre_filter_def pre_pseudo_def Let_def split: tres.splits option.splits if_splits)
next
  case CHILD
  then show ?thesis by (auto simp: pre_filter_def pre_child_def split: tres.splits option.splits)
qed (simp_all add: pre_filter_def)

lemma filter_loop_fuel:
  "(\<And>w. length w < length s \<Longrightarrow> tk w \<noteq> TFuel) \<Longrightarrow> filter_loop tk types m s groups \<noteq> TFuel"
proof (induction types arbitrary: m s groups)
  case (Cons type types)
  show ?case
  proof (cases "exec (matchExpr type) s")
    case (Some x)
    obtain a b c where x: "x = (a, b, c)" by (rule prod_cases3)
    have "filter_loop tk types v (drop i s) g \<noteq> TFuel" for v i g by (rule Cons.IH) (use Cons.prems in auto)
    then show ?thesis using Some x pre_filter_fuel [OF Some [unfolded x] Cons.prems] Cons.IH [OF Cons.prems]
      by (auto split: tres.split option.split)
  qed (use Cons in simp)
qed simp

lemma tok_loop_fuel: "length s < n \<Longrightarrow> (if first then groups = [] else groups \<noteq> []) \<Longrightarrow> tok_loop n first s groups \<noteq> TFuel"
proof (induction n arbitrary: first s groups)
  case (Suc n)
  obtain s1 g1 where 1: "comma_step first s groups = (s1, g1)" by (rule prod.exhaust)
  obtain m s2 g2 where 2: "comb_step s1 g1 = (m, s2, g2)" by (rule prod_cases3)
  have l1: "length s1 \<le> length s"
    using 1 by (auto simp: comma_step_def split: if_splits option.splits)
  have l2: "length s1 = length m + length s2" using comb_accounts(1) [OF 2] by simp
  define tk where "tk = (\<lambda>s. case tok_loop n True s [] of TFuel \<Rightarrow> TFuel | TThrow e \<Rightarrow> TThrow e | TOk (rest, _) \<Rightarrow> TOk (length rest))"
  have tk: "tk w \<noteq> TFuel" if "length w < n" for w
    using Suc.IH [OF that, of True "[]"] by (auto simp: tk_def split: tres.split)
  have f: "filter_loop tk filter_types m s2 g2 \<noteq> TFuel"
    by (rule filter_loop_fuel, rule tk) (use Suc.prems(1) l1 l2 in linarith)
  show ?case
  proof (cases "filter_loop tk filter_types m s2 g2")
    case (TOk x)
    obtain m' s' g' where x: "x = (m', s', g')" by (rule prod_cases3)
    have "g1 \<noteq> []" using 1 Suc.prems(2) by (auto simp: comma_step_def split: if_splits option.splits)
    then have "accounts (joined ([] # replicate (length g2 - 1) (u '','')) g2 @ s2) g2 s2"
      using 2 by (auto simp: accounts_def comb_step_def push_token_def u_def separator_def list_all_iff
          opt_space_def split: option.splits intro!: exI [of _ "replicate (length g2 - 1) [44]"])
    from filter_loop_accounts [OF TOk [unfolded x] this] have c: "g' \<noteq> []" "consumed m s2 m' s'"
      by (auto simp: accounts_def)
    have "m' \<noteq> [] \<Longrightarrow> length s' < n"
      using c(2) l1 l2 Suc.prems(1) by (cases m) (auto simp: consumed_def)
    with Suc.IH [of s' False g'] c(1) 1 2 TOk x show ?thesis
      by (simp flip: tk_def)
  qed (use 1 2 f in \<open>simp_all flip: tk_def\<close>)
qed simp

text \<open>C33: The tokenizer returns or throws on every text: the fuel is enough, for the parse-only calls on the
  arguments of pseudo-classes as well.\<close>

theorem tokenize_terminates: "tokenize s \<noteq> TFuel \<and> parse_excess s \<noteq> TFuel"
  using tok_loop_fuel [of s "Suc (length s)" True "[]"]
  by (auto simp: tokenize_def parse_excess_def simp del: tok_loop.simps split: tres.split)

section \<open>The tokens and the text\<close>

lemma tok_loop_accounts:
  "tok_loop n first s groups = TOk ([], groups') \<Longrightarrow> s \<noteq> [] \<or> \<not> first \<Longrightarrow>
   (if first then groups = [] \<and> t = s else accounts t groups s) \<Longrightarrow> accounts t groups' []"
proof (induction n arbitrary: first s groups)
  case (Suc n)
  show ?case
  proof (cases "s = [] \<or> separator s")
    case True
    with Suc.prems tok_loop_separator [OF _ Suc.prems(1)] show ?thesis by (auto split: if_splits)
  next
    case False
    obtain s1 g1 where 1: "comma_step first s groups = (s1, g1)" by (rule prod.exhaust)
    obtain m s2 g2 where 2: "comb_step s1 g1 = (m, s2, g2)" by (rule prod_cases3)
    have a: "accounts t g2 s2"
      using comma_accounts(1) [OF 1 Suc.prems(3)] comb_accounts(2) [OF 2] False by blast
    from Suc.prems(1) 1 2 False obtain tk m' s' g' where
      f: "filter_loop tk filter_types m s2 g2 = TOk (m', s', g')"
      and r: "if m' = [] then s' = [] \<and> g' = groups' else tok_loop n False s' g' = TOk ([], groups')"
      by (auto split: tres.splits if_splits)
    from filter_loop_accounts [OF f a] have "accounts t g' s'" by simp
    with r Suc.IH [of False s' g'] show ?thesis by (auto split: if_splits)
  qed
qed simp

text \<open>C32: The tokens lose nothing: when a text is accepted, it is the values of the tokens of its groups, with a
  comma and white space between two groups.\<close>

theorem tokenize_roundtrip:
  assumes "tokenize s = TOk groups"
  shows "\<exists>seps. length seps = length groups - 1 \<and> list_all separator seps \<and> s = joined ([] # seps) groups"
proof (cases "s = []")
  case True
  with assms show ?thesis by (auto simp: tokenize_def joined_def)
next
  case False
  from assms have "tok_loop (Suc (length s)) True s [] = TOk ([], groups)"
    by (auto simp: tokenize_def simp del: tok_loop.simps split: tres.splits if_splits)
  from tok_loop_accounts [OF this, of s] False have "accounts s groups []" by simp
  then obtain ps where "length ps + 1 = length groups" "list_all separator ps" "s = joined ([] # ps) groups"
    by (auto simp: accounts_def)
  then show ?thesis by (intro exI [of _ ps]) simp
qed

theorem tokenize_roundtrip_witness:
  "tokenize (u ''p , .b'') = TOk [[Tok (u ''p'') TAG [Some (u ''p'')] None], [Tok (u ''.b'') CLASS [Some (u ''b'')] None]] \<and>
   (\<exists>seps. length seps = 1 \<and> list_all separator seps \<and>
     u ''p , .b'' = joined ([] # seps) [[Tok (u ''p'') TAG [Some (u ''p'')] None], [Tok (u ''.b'') CLASS [Some (u ''b'')] None]])"
proof -
  have t: "tokenize (u ''p , .b'') = TOk [[Tok (u ''p'') TAG [Some (u ''p'')] None], [Tok (u ''.b'') CLASS [Some (u ''b'')] None]]"
    by code_simp
  from tokenize_roundtrip [OF t] t show ?thesis by simp
qed

section \<open>The cache of tokens\<close>

definition cache_sound :: "token list list cache_store \<Rightarrow> bool" where
  "cache_sound c \<longleftrightarrow> (\<forall>s groups. cache_get s c = Some groups \<longrightarrow> tokenize s = TOk groups)"

lemma cache_get_put:
  "cache_get s (cache_put n k v c) = Some w \<Longrightarrow> cache_get s c = Some w \<or> s = k \<and> w = v"
  by (auto simp: cache_get_def cache_put_def Let_def split: if_splits)

lemma cache_sound_step: "cache_sound c \<Longrightarrow> cache_sound (snd (tokenize_cached s c))"
  by (auto simp: tokenize_cached_def cache_sound_def dest: cache_get_put split: option.split tres.split)

text \<open>The cache of tokens is transparent: after any calls, a call returns what the tokenizer without a cache
  returns, and throws when that throws.\<close>

theorem tokenize_cached_transparent:
  "fst (tokenize_cached s (fold (\<lambda>s c. snd (tokenize_cached s c)) ss createCache)) = tokenize s"
proof -
  have "cache_sound c \<Longrightarrow> cache_sound (fold (\<lambda>s c. snd (tokenize_cached s c)) ss c)" for c
    by (induction ss arbitrary: c) (simp_all add: cache_sound_step)
  moreover have "cache_sound createCache" by (simp add: cache_sound_def createCache_def cache_get_def)
  ultimately have sound: "cache_sound (fold (\<lambda>s c. snd (tokenize_cached s c)) ss createCache)" (is "cache_sound ?c") .
  show ?thesis
  proof (cases "cache_get s ?c")
    case None
    then show ?thesis by (simp add: tokenize_cached_def split: tres.split)
  next
    case (Some groups)
    with sound have "tokenize s = TOk groups" unfolding cache_sound_def by blast
    with Some show ?thesis by (simp add: tokenize_cached_def)
  qed
qed

end
