(* ===== verification/JqMatch.thy ===== *)
theory JqMatch
  imports JqToken JqSort
begin

text \<open>
  Compiled selectors (\<open>jquery-3.5.1.js\<close>, lines 1766 to 1771, 2393 to 2472, 2604 to 2665 and 2667 to 2824): the
  combinators with the results they cache on the elements, matchers of compound selectors, the
  compiler from tokens to matchers, and the loop that filters elements.  A matcher is a function of its
  arguments that changes the caches.  What a simple selector tests (\<open>Expr.filter\<close>, modelled in part in
  \<open>JqFilter\<close>) is a parameter here; selectors with positions, which compile to \<open>setMatcher\<close>, are left out.
  The array a call of a combinator shares among the elements it visits is a cell with a number.
\<close>

section \<open>Walking the tree\<close>

datatype dir = ParentNode | PreviousSibling

fun step_dir :: "dir \<Rightarrow> node \<Rightarrow> node option" where
  "step_dir ParentNode n = parentNode n"
| "step_dir PreviousSibling n = (if snd n = [] \<or> last (snd n) = 0 then None
     else Some (fst n, butlast (snd n) @ [last (snd n) - 1]))"

fun dir_rank :: "dir \<Rightarrow> node \<Rightarrow> nat" where
  "dir_rank ParentNode n = length (snd n)"
| "dir_rank PreviousSibling n = (if snd n = [] then 0 else last (snd n))"

lemma step_rank: "step_dir d n = Some m \<Longrightarrow> dir_rank d m < dir_rank d n"
  by (cases d) (auto simp: parentNode_def split: if_splits)

text \<open>The nodes the loop \<open>while ( ( elem = elem[ dir ] ) )\<close> goes through.\<close>

function along :: "dir \<Rightarrow> node \<Rightarrow> node list" where
  "along d n = (case step_dir d n of None \<Rightarrow> [] | Some m \<Rightarrow> m # along d m)"
  by pat_completeness auto
termination
  by (relation "measure (\<lambda>(d, n). dir_rank d n)") (simp_all add: step_rank)

declare along.simps [simp del]

record doc =
  node_type :: "node \<Rightarrow> nat"
  node_name :: "node \<Rightarrow> ustr"

record combinator =
  c_dir :: dir
  c_first :: bool
  c_next :: "ustr option"

text \<open>\<open>Expr.relative\<close>.\<close>

definition relative :: "token \<Rightarrow> combinator option" where
  "relative t = (case t of
     Comb v c \<Rightarrow>
       if c = 62 then Some \<lparr> c_dir = ParentNode, c_first = True, c_next = None \<rparr>
       else if c = 32 then Some \<lparr> c_dir = ParentNode, c_first = False, c_next = None \<rparr>
       else if c = 43 then Some \<lparr> c_dir = PreviousSibling, c_first = True, c_next = None \<rparr>
       else if c = 126 then Some \<lparr> c_dir = PreviousSibling, c_first = False, c_next = None \<rparr>
       else None
   | _ \<Rightarrow> None)"

section \<open>Combinators and their caches\<close>

datatype context_arg = COne node | CMany "node list"

text \<open>\<open>outermostContext\<close>: unset, \<open>true\<close> for the document, or a context.\<close>

datatype outer = ONone | OTrue | OCtx context_arg

record margs =
  a_context :: context_arg
  a_xml :: bool
  a_outermost :: outer

type_synonym cell = "nat \<times> nat \<times> bool option"

record mstate =
  cells :: "cell list"
  node_caches :: "node \<Rightarrow> ustr \<Rightarrow> nat option"
  dirruns :: nat

type_synonym matcher = "margs \<Rightarrow> node \<Rightarrow> mstate \<Rightarrow> bool \<times> mstate"

definition dir_text :: "dir \<Rightarrow> ustr" where
  "dir_text d = (case d of ParentNode \<Rightarrow> u ''parentNode'' | PreviousSibling \<Rightarrow> u ''previousSibling'')"

definition comb_key :: "combinator \<Rightarrow> ustr" where
  "comb_key c = (case c_next c of None \<Rightarrow> dir_text (c_dir c) | Some s \<Rightarrow> s)"

definition visits :: "doc \<Rightarrow> bool \<Rightarrow> node \<Rightarrow> bool" where
  "visits D checkNonElements x \<longleftrightarrow> node_type D x = 1 \<or> checkNonElements"

fun first_walk :: "(node \<Rightarrow> bool) \<Rightarrow> (node \<Rightarrow> mstate \<Rightarrow> bool \<times> mstate) \<Rightarrow> node list \<Rightarrow> mstate \<Rightarrow> bool \<times> mstate" where
  "first_walk vis m [] st = (False, st)"
| "first_walk vis m (x # xs) st = (if vis x then m x st else first_walk vis m xs st)"

fun xml_walk :: "(node \<Rightarrow> bool) \<Rightarrow> (node \<Rightarrow> mstate \<Rightarrow> bool \<times> mstate) \<Rightarrow> node list \<Rightarrow> mstate \<Rightarrow> bool \<times> mstate" where
  "xml_walk vis m [] st = (False, st)"
| "xml_walk vis m (x # xs) st =
    (if vis x then (case m x st of (b, st) \<Rightarrow> if b then (True, st) else xml_walk vis m xs st) else xml_walk vis m xs st)"

definition old_result :: "mstate \<Rightarrow> nat \<Rightarrow> nat option \<Rightarrow> bool option option" where
  "old_result st name cid = (case cid of
     None \<Rightarrow> None
   | Some i \<Rightarrow> (case cells st ! i of (r, n, res) \<Rightarrow> if r = dirruns st \<and> n = name then Some res else None))"

definition set_result :: "nat \<Rightarrow> bool option \<Rightarrow> mstate \<Rightarrow> mstate" where
  "set_result i r st = st \<lparr> cells := (cells st)[i := (case cells st ! i of (run, name, _) \<Rightarrow> (run, name, r))] \<rparr>"

definition put_cache :: "node \<Rightarrow> ustr \<Rightarrow> nat \<Rightarrow> mstate \<Rightarrow> mstate" where
  "put_cache x key i st = st \<lparr> node_caches := (node_caches st)(x := (node_caches st x)(key := Some i)) \<rparr>"

text \<open>With the caches; a skipped element takes the next one with it.\<close>

fun cached_walk :: "(node \<Rightarrow> bool) \<Rightarrow> (node \<Rightarrow> bool) \<Rightarrow> ustr \<Rightarrow> nat \<Rightarrow> nat \<Rightarrow> (node \<Rightarrow> mstate \<Rightarrow> bool \<times> mstate) \<Rightarrow>
    node list \<Rightarrow> mstate \<Rightarrow> bool \<times> mstate" where
  "cached_walk vis skips key name cid m [] st = (False, st)"
| "cached_walk vis skips key name cid m (x # xs) st =
    (if \<not> vis x then cached_walk vis skips key name cid m xs st
     else if skips x then (case xs of [] \<Rightarrow> (False, st) | y # ys \<Rightarrow> cached_walk vis skips key name cid m ys st)
     else case old_result st name (node_caches st x key) of
       Some res \<Rightarrow> (res = Some True, set_result cid res st)
     | None \<Rightarrow> (case m x (put_cache x key cid st) of (b, st) \<Rightarrow>
         let st = set_result cid (Some b) st in if b then (True, st) else cached_walk vis skips key name cid m xs st))"

definition addCombinator :: "doc \<Rightarrow> matcher \<Rightarrow> combinator \<Rightarrow> bool \<Rightarrow> nat \<Rightarrow> matcher" where
  "addCombinator D m c base name args elem st =
    (let key = comb_key c;
         vis = visits D (base \<and> key = u ''parentNode'');
         skips = (\<lambda>x. c_next c = Some (to_lower (node_name D x)))
     in if c_first c then first_walk vis (m args) (along (c_dir c) elem) st
        else if a_xml args then xml_walk vis (m args) (along (c_dir c) elem) st
        else cached_walk vis skips key name (length (cells st)) (m args) (along (c_dir c) elem)
               (st \<lparr> cells := cells st @ [(dirruns st, name, None)] \<rparr>))"

text \<open>All of several matchers, the last one first.\<close>

fun all_matchers :: "matcher list \<Rightarrow> matcher" where
  "all_matchers [] args elem st = (True, st)"
| "all_matchers (m # ms) args elem st =
    (case m args elem st of (b, st) \<Rightarrow> if b then all_matchers ms args elem st else (False, st))"

definition elementMatcher :: "matcher list \<Rightarrow> matcher" where
  "elementMatcher ms = (if length ms > 1 then all_matchers (rev ms) else hd ms)"

section \<open>Compiling\<close>

definition pure_matcher :: "(margs \<Rightarrow> node \<Rightarrow> bool) \<Rightarrow> matcher" where
  "pure_matcher p args elem st = (p args elem, st)"

definition is_one :: "margs \<Rightarrow> bool" where
  "is_one args = (case a_context args of COne n \<Rightarrow> True | CMany ns \<Rightarrow> False)"

definition in_context :: "margs \<Rightarrow> node \<Rightarrow> bool" where
  "in_context args n = (case a_context args of COne m \<Rightarrow> n = m | CMany ms \<Rightarrow> n \<in> set ms)"

text \<open>The foundational matcher: the context is reached from the element.\<close>

definition base_matcher :: "bool \<Rightarrow> matcher \<Rightarrow> matcher \<Rightarrow> matcher" where
  "base_matcher leadingRelative matchContext matchAnyContext args elem st =
    (if \<not> leadingRelative \<and> (a_xml args \<or> OCtx (a_context args) \<noteq> a_outermost args) then (True, st)
     else if is_one args then matchContext args elem st else matchAnyContext args elem st)"

text \<open>The loop over the tokens; \<open>None\<close> stands for the selectors with positions.\<close>

fun tokens_loop :: "doc \<Rightarrow> (token \<Rightarrow> node \<Rightarrow> bool) \<Rightarrow> (token \<Rightarrow> bool) \<Rightarrow> token list \<Rightarrow> matcher list \<Rightarrow> nat \<Rightarrow> (matcher list \<times> nat) option" where
  "tokens_loop D filt positional [] ms done' = Some (ms, done')"
| "tokens_loop D filt positional (t # ts) ms done' = (case relative t of
     Some c \<Rightarrow> tokens_loop D filt positional ts [addCombinator D (elementMatcher ms) c False done'] (Suc done')
   | None \<Rightarrow> if positional t then None
       else tokens_loop D filt positional ts (ms @ [pure_matcher (\<lambda>args. filt t)]) done')"

definition descendant :: combinator where
  "descendant = \<lparr> c_dir = ParentNode, c_first = False, c_next = None \<rparr>"

text \<open>\<open>None\<close> for an empty array too: its first token cannot be read.\<close>

definition matcherFromTokens :: "doc \<Rightarrow> (token \<Rightarrow> node \<Rightarrow> bool) \<Rightarrow> (token \<Rightarrow> bool) \<Rightarrow> token list \<Rightarrow> nat \<Rightarrow> (matcher \<times> nat) option" where
  "matcherFromTokens D filt positional tokens done' = (if tokens = [] then None else
    (let leading = relative (hd tokens);
         implicit = (case leading of None \<Rightarrow> descendant | Some c \<Rightarrow> c);
         matchContext = addCombinator D (pure_matcher in_context) implicit True done';
         matchAnyContext = addCombinator D (pure_matcher in_context) implicit True (Suc done')
     in case tokens_loop D filt positional (if leading = None then tokens else tl tokens)
               [base_matcher (leading \<noteq> None) matchContext matchAnyContext] (done' + 2) of
          None \<Rightarrow> None
        | Some (ms, done') \<Rightarrow> Some (elementMatcher ms, done')))"

text \<open>\<open>compile\<close>: the groups from the last to the first.\<close>

fun compile_groups :: "doc \<Rightarrow> (token \<Rightarrow> node \<Rightarrow> bool) \<Rightarrow> (token \<Rightarrow> bool) \<Rightarrow> token list list \<Rightarrow> nat \<Rightarrow> (matcher list \<times> nat) option" where
  "compile_groups D filt positional [] done' = Some ([], done')"
| "compile_groups D filt positional (g # gs) done' = (case matcherFromTokens D filt positional g done' of
     None \<Rightarrow> None
   | Some (m, done') \<Rightarrow> map_option (\<lambda>(ms, d). (m # ms, d)) (compile_groups D filt positional gs done'))"

definition compile :: "doc \<Rightarrow> (token \<Rightarrow> node \<Rightarrow> bool) \<Rightarrow> (token \<Rightarrow> bool) \<Rightarrow> token list list \<Rightarrow> nat \<Rightarrow> (matcher list \<times> nat) option" where
  "compile D filt positional match done' = compile_groups D filt positional (rev match) done'"

section \<open>Filtering elements\<close>

fun any_matcher :: "matcher list \<Rightarrow> matcher" where
  "any_matcher [] args elem st = (False, st)"
| "any_matcher (m # ms) args elem st =
    (case m args elem st of (b, st) \<Rightarrow> if b then (True, st) else any_matcher ms args elem st)"

fun super_loop :: "matcher list \<Rightarrow> margs \<Rightarrow> node list \<Rightarrow> node list \<Rightarrow> mstate \<Rightarrow> node list \<times> mstate" where
  "super_loop ms args [] results st = (results, st)"
| "super_loop ms args (e # es) results st =
    (case any_matcher ms args e st of (b, st) \<Rightarrow> super_loop ms args es (if b then results @ [e] else results) st)"

text \<open>
  A run that is not inside another one: \<open>outermostContext\<close> is null before it, and \<open>dirruns\<close> moves on by one.  (A run
  that starts inside another, from \<open>:has\<close> or \<open>:not\<close>, draws its number with \<open>Math.random\<close> and is not modelled.)
\<close>

definition superMatcher :: "matcher list \<Rightarrow> node list option \<Rightarrow> node list \<Rightarrow> context_arg option \<Rightarrow> bool \<Rightarrow> node list \<Rightarrow> bool \<Rightarrow>
    mstate \<Rightarrow> node list \<times> mstate" where
  "superMatcher ms seed all context xml results outermost st =
    (let elems = (case seed of None \<Rightarrow> all | Some s \<Rightarrow> s);
         st = st \<lparr> dirruns := dirruns st + 1 \<rparr>;
         outermostContext = (if \<not> outermost then ONone
           else case context of None \<Rightarrow> OTrue | Some c \<Rightarrow> if c = COne document then OTrue else OCtx c);
         args = \<lparr> a_context = (case context of None \<Rightarrow> COne document | Some c \<Rightarrow> c), a_xml = xml, a_outermost = outermostContext \<rparr>
     in super_loop ms args elems results st)"

section \<open>What the caches hold\<close>

declare split_paired_All [simp del] split_paired_Ex [simp del]

text \<open>The entries of the current run whose combinator is in \<open>N\<close> hold what the combinator finds at the element or beyond.\<close>

definition entry :: "mstate \<Rightarrow> node \<Rightarrow> nat \<Rightarrow> bool" where
  "entry st x i \<longleftrightarrow> (\<exists>key. node_caches st x key = Some i)"

definition caches_ok :: "(nat \<Rightarrow> node \<Rightarrow> bool) \<Rightarrow> nat set \<Rightarrow> mstate \<Rightarrow> bool" where
  "caches_ok sem N st \<longleftrightarrow> (\<forall>x i. entry st x i \<longrightarrow> i < length (cells st) \<and>
     (fst (cells st ! i) = dirruns st \<longrightarrow> fst (snd (cells st ! i)) \<in> N \<longrightarrow>
        snd (snd (cells st ! i)) = Some (sem (fst (snd (cells st ! i))) x)))"

text \<open>A matcher whose combinators are in \<open>N\<close> adds cells and leaves the old ones alone.\<close>

definition grows :: "nat set \<Rightarrow> mstate \<Rightarrow> mstate \<Rightarrow> bool" where
  "grows N st st' \<longleftrightarrow> dirruns st' = dirruns st \<and> length (cells st) \<le> length (cells st') \<and>
     (\<forall>i < length (cells st). cells st' ! i = cells st ! i) \<and>
     (\<forall>i < length (cells st'). length (cells st) \<le> i \<longrightarrow> fst (snd (cells st' ! i)) \<in> N \<and> fst (cells st' ! i) = dirruns st) \<and>
     (\<forall>x i. entry st' x i \<longrightarrow> i < length (cells st) \<longrightarrow> entry st x i)"

definition computes :: "(nat \<Rightarrow> node \<Rightarrow> bool) \<Rightarrow> nat set \<Rightarrow> (node \<Rightarrow> mstate \<Rightarrow> bool \<times> mstate) \<Rightarrow> (node \<Rightarrow> bool) \<Rightarrow> bool" where
  "computes sem N m P \<longleftrightarrow> (\<forall>e st. caches_ok sem N st \<longrightarrow>
     fst (m e st) = P e \<and> caches_ok sem N (snd (m e st)) \<and> grows N st (snd (m e st)))"

lemma computesD:
  "computes sem N m P \<Longrightarrow> caches_ok sem N st \<Longrightarrow> m e st = (b, st') \<Longrightarrow> b = P e \<and> caches_ok sem N st' \<and> grows N st st'"
  by (metis computes_def fst_conv snd_conv)

lemma computesI:
  "(\<And>e st b st'. caches_ok sem N st \<Longrightarrow> m e st = (b, st') \<Longrightarrow> b = P e \<and> caches_ok sem N st' \<and> grows N st st') \<Longrightarrow> computes sem N m P"
  unfolding computes_def by (metis prod.collapse)

lemma grows_refl [simp]: "grows N st st"
  by (simp add: grows_def)

lemma grows_trans:
  assumes "grows N a b" "grows N b c"
  shows "grows N a c"
proof -
  have "fst (snd (cells c ! i)) \<in> N \<and> fst (cells c ! i) = dirruns a" if "i < length (cells c)" "length (cells a) \<le> i" for i
    using assms that unfolding grows_def by (cases "i < length (cells b)") auto
  moreover have "entry a x i" if "entry c x i" "i < length (cells a)" for x i
    using assms that unfolding grows_def by (meson less_le_trans)
  ultimately show ?thesis using assms unfolding grows_def by auto
qed

lemma grows_mono: "N \<subseteq> N' \<Longrightarrow> grows N a b \<Longrightarrow> grows N' a b"
  unfolding grows_def by blast

lemma caches_ok_mono: "N \<subseteq> N' \<Longrightarrow> caches_ok sem N' st \<Longrightarrow> caches_ok sem N st"
  unfolding caches_ok_def by blast

lemma caches_ok_grows:
  assumes "caches_ok sem N' st" "grows N st st'" "caches_ok sem N st'"
  shows "caches_ok sem N' st'"
  unfolding caches_ok_def
proof (intro allI impI)
  fix x i assume e: "entry st' x i"
  have l: "i < length (cells st')" using assms(3) e by (auto simp: caches_ok_def)
  show "i < length (cells st') \<and> (fst (cells st' ! i) = dirruns st' \<longrightarrow> fst (snd (cells st' ! i)) \<in> N' \<longrightarrow>
      snd (snd (cells st' ! i)) = Some (sem (fst (snd (cells st' ! i))) x))"
  proof (cases "i < length (cells st)")
    case True
    then have "cells st' ! i = cells st ! i" "entry st x i" "dirruns st' = dirruns st"
      using assms(2) e by (simp_all add: grows_def)
    with assms(1) l show ?thesis by (simp add: caches_ok_def)
  next
    case False
    then have "fst (snd (cells st' ! i)) \<in> N" using assms(2) l by (simp add: grows_def)
    with assms(3) e show ?thesis by (simp add: caches_ok_def)
  qed
qed

lemma computes_mono:
  assumes "computes sem N m P" "N \<subseteq> N'"
  shows "computes sem N' m P"
proof (rule computesI)
  fix e st b st' assume ok: "caches_ok sem N' st" and m: "m e st = (b, st')"
  from computesD [OF assms(1) caches_ok_mono [OF assms(2) ok] m]
  have r: "b = P e" "caches_ok sem N st'" "grows N st st'" by simp_all
  with caches_ok_grows [OF ok r(3,2)] grows_mono [OF assms(2) r(3)]
  show "b = P e \<and> caches_ok sem N' st' \<and> grows N' st st'" by simp
qed

section \<open>Walks compute\<close>

lemma first_walk_computes:
  "computes sem N m P \<Longrightarrow> caches_ok sem N st \<Longrightarrow> first_walk vis m xs st = (b, st') \<Longrightarrow>
   b = (case filter vis xs of [] \<Rightarrow> False | x # _ \<Rightarrow> P x) \<and> caches_ok sem N st' \<and> grows N st st'"
  by (induction xs) (auto split: if_splits dest: computesD)

lemma xml_walk_computes:
  "computes sem N m P \<Longrightarrow> caches_ok sem N st \<Longrightarrow> xml_walk vis m xs st = (b, st') \<Longrightarrow>
   b = (\<exists>x \<in> set (filter vis xs). P x) \<and> caches_ok sem N st' \<and> grows N st st'"
proof (induction xs arbitrary: st)
  case (Cons x xs)
  show ?case
  proof (cases "vis x")
    case True
    obtain b1 st1 where m: "m x st = (b1, st1)" by (rule prod.exhaust)
    from computesD [OF Cons.prems(1,2) m] have r: "b1 = P x" "caches_ok sem N st1" "grows N st st1" by simp_all
    show ?thesis
    proof (cases b1)
      case True
      with r m Cons.prems(3) \<open>vis x\<close> show ?thesis by auto
    next
      case False
      with m Cons.prems(3) \<open>vis x\<close> have "xml_walk vis m xs st1 = (b, st')" by simp
      from Cons.IH [OF Cons.prems(1) r(2) this] r False \<open>vis x\<close> show ?thesis by (auto dest: grows_trans)
    qed
  qed (use Cons in auto)
qed simp

text \<open>In the middle of a cached walk: the elements in \<open>V\<close> have been visited and share the cell \<open>cid\<close>.\<close>

definition walking :: "(nat \<Rightarrow> node \<Rightarrow> bool) \<Rightarrow> nat set \<Rightarrow> nat \<Rightarrow> nat \<Rightarrow> node set \<Rightarrow> mstate \<Rightarrow> bool" where
  "walking sem N name cid V st \<longleftrightarrow> caches_ok sem N st \<and> cid < length (cells st) \<and>
     fst (cells st ! cid) = dirruns st \<and> fst (snd (cells st ! cid)) = name \<and>
     (\<forall>x. entry st x cid \<longrightarrow> x \<in> V) \<and> (V \<noteq> {} \<longrightarrow> snd (snd (cells st ! cid)) = Some False) \<and>
     (\<forall>x i. entry st x i \<longrightarrow> i \<noteq> cid \<longrightarrow> fst (cells st ! i) = dirruns st \<longrightarrow> fst (snd (cells st ! i)) = name \<longrightarrow>
        snd (snd (cells st ! i)) = Some (sem name x))"

lemma entry_put: "entry (put_cache x key i st) y j \<Longrightarrow> entry st y j \<or> y = x \<and> j = i"
  by (auto simp: entry_def put_cache_def split: if_splits)

lemma put_cache_simps [simp]: "cells (put_cache x key i st) = cells st" "dirruns (put_cache x key i st) = dirruns st"
  by (simp_all add: put_cache_def)

lemma set_result_simps [simp]: "dirruns (set_result i r st) = dirruns st" "length (cells (set_result i r st)) = length (cells st)"
  "entry (set_result i r st) = entry st" "node_caches (set_result i r st) = node_caches st"
  by (simp_all add: set_result_def entry_def fun_eq_iff)

lemma set_result_twice: "i < length (cells st) \<Longrightarrow> set_result i r (set_result i r' st) = set_result i r st"
  by (simp add: set_result_def split: prod.split)

lemma set_result_nth:
  "j < length (cells st) \<Longrightarrow> cells (set_result i r st) ! j =
     (if j = i then (fst (cells st ! i), fst (snd (cells st ! i)), r) else cells st ! j)"
  by (auto simp: set_result_def nth_list_update split: prod.split)

text \<open>The end of a walk: the shared cell gets the result, which is right for all the visited elements.\<close>

lemma walking_end:
  assumes "walking sem N name cid V st" "name \<notin> N" "\<And>x. x \<in> V \<Longrightarrow> sem name x = b"
    "r = Some b"
  shows "caches_ok sem (insert name N) (set_result cid r st)"
  unfolding caches_ok_def
proof (intro allI impI)
  fix x i assume "entry (set_result cid r st) x i"
  then have e: "entry st x i" by simp
  with assms(1) have l: "i < length (cells st)" by (auto simp: walking_def caches_ok_def)
  show "i < length (cells (set_result cid r st)) \<and> (fst (cells (set_result cid r st) ! i) = dirruns (set_result cid r st) \<longrightarrow>
      fst (snd (cells (set_result cid r st) ! i)) \<in> insert name N \<longrightarrow>
      snd (snd (cells (set_result cid r st) ! i)) = Some (sem (fst (snd (cells (set_result cid r st) ! i))) x))"
    using assms e l by (cases "i = cid") (auto simp: set_result_nth walking_def caches_ok_def)
qed

definition grows_but :: "nat \<Rightarrow> nat set \<Rightarrow> mstate \<Rightarrow> mstate \<Rightarrow> bool" where
  "grows_but cid N st st' \<longleftrightarrow> dirruns st' = dirruns st \<and> length (cells st) \<le> length (cells st') \<and>
     (\<forall>i < length (cells st). i \<noteq> cid \<longrightarrow> cells st' ! i = cells st ! i) \<and>
     fst (snd (cells st' ! cid)) = fst (snd (cells st ! cid)) \<and> fst (cells st' ! cid) = fst (cells st ! cid) \<and>
     (\<forall>i < length (cells st'). length (cells st) \<le> i \<longrightarrow> fst (snd (cells st' ! i)) \<in> N \<and> fst (cells st' ! i) = dirruns st) \<and>
     (\<forall>x i. entry st' x i \<longrightarrow> i < length (cells st) \<longrightarrow> i \<noteq> cid \<longrightarrow> entry st x i)"

lemma grows_but_refl [simp]: "grows_but cid N st st"
  by (simp add: grows_but_def)

lemma grows_but_trans:
  assumes "grows_but cid N a b" "grows_but cid N b c"
  shows "grows_but cid N a c"
proof -
  have "fst (snd (cells c ! i)) \<in> N \<and> fst (cells c ! i) = dirruns a" if "i < length (cells c)" "length (cells a) \<le> i" for i
  proof (cases "i < length (cells b)")
    case True
    then have n: "fst (snd (cells b ! i)) \<in> N \<and> fst (cells b ! i) = dirruns a" using assms(1) that by (simp add: grows_but_def)
    show ?thesis
    proof (cases "i = cid")
      case True
      with n assms(2) show ?thesis by (simp add: grows_but_def)
    next
      case False
      with n assms(2) \<open>i < length (cells b)\<close> show ?thesis by (simp add: grows_but_def)
    qed
  qed (use assms that in \<open>simp add: grows_but_def\<close>)
  moreover have "entry a x i" if "entry c x i" "i < length (cells a)" "i \<noteq> cid" for x i
    using assms that unfolding grows_but_def by (meson less_le_trans)
  ultimately show ?thesis using assms unfolding grows_but_def by auto
qed

lemma grows_but_grows: "grows N a b \<Longrightarrow> cid < length (cells a) \<Longrightarrow> grows_but cid N a b"
  unfolding grows_def grows_but_def by auto

lemma grows_but_put: "grows_but cid N st (put_cache x key cid st)"
  using entry_put unfolding grows_but_def by fastforce

lemma grows_but_set: "cid < length (cells st) \<Longrightarrow> grows_but cid N st (set_result cid r st)"
  unfolding grows_but_def by (auto simp: set_result_nth)

lemma walking_step:
  assumes w: "walking sem N name cid V st" and m: "computes sem N m P" and n: "name \<notin> N"
    and r: "m x (put_cache x key cid st) = (b, st1)"
  shows "b = P x \<and> walking sem N name cid (insert x V) (set_result cid (Some False) st1) \<and>
    (\<forall>y. entry st1 y cid \<longrightarrow> y \<in> insert x V) \<and> grows_but cid N st st1 \<and> cid < length (cells st1) \<and>
    caches_ok sem N st1 \<and> fst (snd (cells st1 ! cid)) = name \<and> fst (cells st1 ! cid) = dirruns st1 \<and>
    (\<forall>y i. entry st1 y i \<longrightarrow> i \<noteq> cid \<longrightarrow> fst (cells st1 ! i) = dirruns st1 \<longrightarrow> fst (snd (cells st1 ! i)) = name \<longrightarrow>
        snd (snd (cells st1 ! i)) = Some (sem name y))"
proof -
  let ?st = "put_cache x key cid st"
  have c: "cid < length (cells st)" "fst (snd (cells st ! cid)) = name" using w by (simp_all add: walking_def)
  have "caches_ok sem N ?st"
    unfolding caches_ok_def
  proof (intro allI impI)
    fix y i assume "entry ?st y i"
    then consider "entry st y i" | "y = x" "i = cid" using entry_put by blast
    then show "i < length (cells ?st) \<and> (fst (cells ?st ! i) = dirruns ?st \<longrightarrow> fst (snd (cells ?st ! i)) \<in> N \<longrightarrow>
        snd (snd (cells ?st ! i)) = Some (sem (fst (snd (cells ?st ! i))) y))"
      by cases (use w n in \<open>auto simp: walking_def caches_ok_def\<close>)
  qed
  from computesD [OF m this r] have r': "b = P x" "caches_ok sem N st1" "grows N ?st st1" by simp_all
  have l: "length (cells st) \<le> length (cells st1)" "dirruns st1 = dirruns st" using r'(3) by (simp_all add: grows_def)
  have same: "cells st1 ! i = cells st ! i" if "i < length (cells st)" for i using r'(3) that by (simp add: grows_def)
  have cid: "y \<in> insert x V" if "entry st1 y cid" for y
  proof -
    from that r'(3) c have "entry ?st y cid" by (simp add: grows_def)
    from entry_put [OF this] w show ?thesis unfolding walking_def by blast
  qed
  have old: "snd (snd (cells st1 ! i)) = Some (sem name y)"
    if "entry st1 y i" "i \<noteq> cid" "fst (cells st1 ! i) = dirruns st1" "fst (snd (cells st1 ! i)) = name" for y i
  proof (cases "i < length (cells st)")
    case True
    then have "entry ?st y i" using r'(3) that(1) by (simp add: grows_def)
    then have "entry st y i" using entry_put that(2) by blast
    with w that True same l show ?thesis by (simp add: walking_def)
  next
    case False
    have "i < length (cells st1)" using r'(2) that(1) by (auto simp: caches_ok_def)
    with False r'(3) have "fst (snd (cells st1 ! i)) \<in> N" by (simp add: grows_def)
    with that(4) n show ?thesis by simp
  qed
  have gb: "grows_but cid N st st1"
    using grows_but_trans [OF grows_but_put grows_but_grows [OF r'(3)]] c by simp
  have "caches_ok sem N (set_result cid (Some False) st1)"
    unfolding caches_ok_def
  proof (intro allI impI)
    fix y i assume "entry (set_result cid (Some False) st1) y i"
    then have e: "entry st1 y i" by simp
    then have "i < length (cells st1)" using r'(2) by (auto simp: caches_ok_def)
    with e r'(2) n c same show "i < length (cells (set_result cid (Some False) st1)) \<and>
       (fst (cells (set_result cid (Some False) st1) ! i) = dirruns (set_result cid (Some False) st1) \<longrightarrow>
        fst (snd (cells (set_result cid (Some False) st1) ! i)) \<in> N \<longrightarrow>
        snd (snd (cells (set_result cid (Some False) st1) ! i)) = Some (sem (fst (snd (cells (set_result cid (Some False) st1) ! i))) y))"
      by (cases "i = cid") (auto simp: set_result_nth caches_ok_def)
  qed
  moreover have "cid < length (cells st1)" "cells st1 ! cid = cells st ! cid" using c l same by auto
  moreover have "fst (cells st ! cid) = dirruns st" using w by (simp add: walking_def)
  moreover have "snd (snd (cells (set_result cid (Some False) st1) ! i)) = Some (sem name y)"
    if "entry st1 y i" "i \<noteq> cid" "fst (cells (set_result cid (Some False) st1) ! i) = dirruns st1"
      "fst (snd (cells (set_result cid (Some False) st1) ! i)) = name" for y i
  proof -
    have "i < length (cells st1)" using r'(2) that(1) by (auto simp: caches_ok_def)
    with that old show ?thesis by (simp add: set_result_nth)
  qed
  ultimately show ?thesis
    using r' cid old gb c l by (auto simp: walking_def set_result_nth)
qed

lemma cached_walk_computes:
  assumes m: "computes sem N m P" and n: "name \<notin> N"
  shows "walking sem N name cid V st \<Longrightarrow> V \<inter> set xs = {} \<Longrightarrow> distinct xs \<Longrightarrow>
    (\<forall>ys x zs. xs = ys @ x # zs \<longrightarrow> vis x \<longrightarrow> sem name x = (\<exists>y \<in> set (x # zs). vis y \<and> P y)) \<Longrightarrow>
    (\<forall>x \<in> V. sem name x = (\<exists>y \<in> set xs. vis y \<and> P y)) \<Longrightarrow>
    cached_walk vis (\<lambda>_. False) key name cid m xs st = (b, st') \<Longrightarrow>
    b = (\<exists>y \<in> set xs. vis y \<and> P y) \<and> caches_ok sem (insert name N) st' \<and> grows_but cid N st st'"
proof (induction xs arbitrary: V st)
  case Nil
  have "caches_ok sem (insert name N) st"
    unfolding caches_ok_def
  proof (intro allI impI)
    fix x i assume e: "entry st x i"
    show "i < length (cells st) \<and> (fst (cells st ! i) = dirruns st \<longrightarrow> fst (snd (cells st ! i)) \<in> insert name N \<longrightarrow>
        snd (snd (cells st ! i)) = Some (sem (fst (snd (cells st ! i))) x))"
      using Nil e by (cases "i = cid") (auto simp: walking_def caches_ok_def)
  qed
  with Nil show ?case by simp
next
  case (Cons x xs)
  note w = Cons.prems(1)
  have c: "cid < length (cells st)" using w by (simp add: walking_def)
  have later: "\<forall>ys z zs. xs = ys @ z # zs \<longrightarrow> vis z \<longrightarrow> sem name z = (\<exists>y \<in> set (z # zs). vis y \<and> P y)"
    using Cons.prems(4) by (metis append_Cons)
  show ?case
  proof (cases "vis x")
    case False
    with Cons.prems later show ?thesis using Cons.IH [of V st] by simp
  next
    case vis: True
    have semx: "sem name x = (P x \<or> (\<exists>y \<in> set xs. vis y \<and> P y))" using Cons.prems(4) vis by (metis append_Nil list.set_intros(1) set_ConsD list.set_intros(2))
    have whole: "(\<exists>y \<in> set (x # xs). vis y \<and> P y) = sem name x" using vis semx by auto
    have inV: "sem name y = sem name x" if "y \<in> V" for y using Cons.prems(5) that whole by blast
    show ?thesis
    proof (cases "old_result st name (node_caches st x key)")
      case (Some res)
      then obtain i where i: "node_caches st x key = Some i" "fst (cells st ! i) = dirruns st" "fst (snd (cells st ! i)) = name"
        "res = snd (snd (cells st ! i))"
        by (auto simp: old_result_def split: option.splits prod.splits if_splits)
      then have e: "entry st x i" by (auto simp: entry_def)
      have "i \<noteq> cid" using w e Cons.prems(2) by (auto simp: walking_def)
      with w e i have r: "res = Some (sem name x)" by (simp add: walking_def)
      with Cons.prems(6) vis Some have b: "b = sem name x" "st' = set_result cid res st" by auto
      show ?thesis unfolding whole b using walking_end [OF w n inV r] grows_but_set [OF c] by simp
    next
      case None
      obtain b1 st1 where r: "m x (put_cache x key cid st) = (b1, st1)" by (rule prod.exhaust)
      note ws = walking_step [OF w m n r]
      have c1: "cid < length (cells st1)" using ws by blast
      have gb: "grows_but cid N st (set_result cid (Some b1) st1)"
        by (rule grows_but_trans [OF _ grows_but_set [OF c1]]) (use ws in blast)
      show ?thesis
      proof (cases b1)
        case True
        have px: "sem name x = True" using ws True semx by blast
        have "walking sem N name cid (insert x V) (set_result cid (Some False) st1)" using ws by blast
        moreover have "sem name y = True" if "y \<in> insert x V" for y using that inV [of y] px by (cases "y = x") simp_all
        ultimately have "caches_ok sem (insert name N) (set_result cid (Some True) (set_result cid (Some False) st1))"
          by (rule walking_end [OF _ n]) auto
        then have "caches_ok sem (insert name N) (set_result cid (Some True) st1)"
          by (simp add: set_result_twice c1)
        with Cons.prems(6) vis None r True gb px show ?thesis unfolding whole by simp
      next
        case False
        have np: "\<not> P x" using ws False by blast
        have st: "cached_walk vis (\<lambda>_. False) key name cid m xs (set_result cid (Some False) st1) = (b, st')"
          using Cons.prems(6) vis None r False by simp
        have w1: "walking sem N name cid (insert x V) (set_result cid (Some False) st1)" using ws by blast
        have "insert x V \<inter> set xs = {}" using Cons.prems(2,3) by auto
        moreover have "\<forall>y \<in> insert x V. sem name y = (\<exists>y \<in> set xs. vis y \<and> P y)" using inV semx np by auto
        ultimately have "b = (\<exists>y \<in> set xs. vis y \<and> P y) \<and> caches_ok sem (insert name N) st' \<and>
            grows_but cid N (set_result cid (Some False) st1) st'"
          using Cons.IH [OF w1 _ _ later _ st] Cons.prems(3) by simp
        with gb False np semx show ?thesis unfolding whole by (auto intro: grows_but_trans)
      qed
    qed
  qed
qed

section \<open>Matchers compute\<close>

lemma along_suffix: "along d e = pre @ x # zs \<Longrightarrow> along d x = zs"
proof (induction d e arbitrary: pre rule: along.induct)
  case (1 d n)
  from "1.prems" obtain m where m: "step_dir d n = Some m" "m # along d m = pre @ x # zs"
    by (cases "step_dir d n") (simp_all add: along.simps [of d n])
  then show ?case using "1.IH" by (cases pre) auto
qed

lemma along_rank: "x \<in> set (along d e) \<Longrightarrow> dir_rank d x < dir_rank d e"
proof (induction d e rule: along.induct)
  case (1 d n)
  from "1.prems" obtain m where m: "step_dir d n = Some m" "x = m \<or> x \<in> set (along d m)"
    by (cases "step_dir d n") (simp_all add: along.simps [of d n])
  then show ?case using "1.IH" step_rank [OF m(1)] by fastforce
qed

lemma along_distinct: "distinct (along d e)"
proof (induction d e rule: along.induct)
  case (1 d n)
  then show ?case by (subst along.simps) (auto split: option.split dest: along_rank)
qed

text \<open>What a combinator finds, without caches.\<close>

definition reach :: "doc \<Rightarrow> combinator \<Rightarrow> bool \<Rightarrow> (node \<Rightarrow> bool) \<Rightarrow> node \<Rightarrow> bool" where
  "reach D c base P e =
    (let vis = visits D (base \<and> comb_key c = u ''parentNode'');
         xs = filter vis (along (c_dir c) e)
     in if c_first c then (case xs of [] \<Rightarrow> False | x # _ \<Rightarrow> P x) else list_ex P xs)"

definition found_from :: "doc \<Rightarrow> combinator \<Rightarrow> bool \<Rightarrow> (node \<Rightarrow> bool) \<Rightarrow> node \<Rightarrow> bool" where
  "found_from D c base P x \<longleftrightarrow>
    (\<exists>y \<in> set (x # along (c_dir c) x). visits D (base \<and> comb_key c = u ''parentNode'') y \<and> P y)"

lemma start_walking:
  assumes "caches_ok sem (insert name N) st"
  shows "walking sem N name (length (cells st)) {} (st \<lparr> cells := cells st @ [(dirruns st, name, None)] \<rparr>)"
proof -
  have "i < length (cells st)" if "entry st x i" for x i using assms that by (simp add: caches_ok_def)
  then show ?thesis
    using assms by (fastforce simp: walking_def caches_ok_def entry_def nth_append)
qed

lemma grows_from_start:
  assumes "grows_but (length (cells st)) N (st \<lparr> cells := cells st @ [(dirruns st, name, r)] \<rparr>) st'"
  shows "grows (insert name N) st st'"
proof -
  have "fst (snd (cells st' ! i)) \<in> insert name N \<and> fst (cells st' ! i) = dirruns st"
    if "i < length (cells st')" "length (cells st) \<le> i" for i
    using assms that by (cases "i = length (cells st)") (auto simp: grows_but_def)
  moreover have "cells st' ! i = cells st ! i" if "i < length (cells st)" for i
    using assms that by (simp add: grows_but_def nth_append)
  ultimately show ?thesis
    using assms by (fastforce simp: grows_def grows_but_def entry_def)
qed

lemma addCombinator_computes:
  assumes m: "computes sem N (m args) P" and n: "name \<notin> N" and c: "c_next c = None"
    and s: "sem name = found_from D c base P"
  shows "computes sem (insert name N) (addCombinator D m c base name args) (reach D c base P)"
proof (rule computesI)
  fix e st b st'
  assume ok: "caches_ok sem (insert name N) st" and r: "addCombinator D m c base name args e st = (b, st')"
  let ?vis = "visits D (base \<and> comb_key c = u ''parentNode'')"
  let ?xs = "along (c_dir c) e"
  note m' = computes_mono [OF m subset_insertI [of N name]]
  show "b = reach D c base P e \<and> caches_ok sem (insert name N) st' \<and> grows (insert name N) st st'"
  proof (cases "c_first c")
    case True
    with r have "first_walk ?vis (m args) ?xs st = (b, st')" by (simp add: addCombinator_def)
    from first_walk_computes [OF m' ok this] True show ?thesis by (simp add: reach_def)
  next
    case nf: False
    have rr: "reach D c base P e = (\<exists>y \<in> set ?xs. ?vis y \<and> P y)"
      using nf by (auto simp: reach_def list_ex_iff)
    show ?thesis
    proof (cases "a_xml args")
      case True
      with r nf have "xml_walk ?vis (m args) ?xs st = (b, st')" by (simp add: addCombinator_def)
      from xml_walk_computes [OF m' ok this] rr show ?thesis by auto
    next
      case False
      let ?st = "st \<lparr> cells := cells st @ [(dirruns st, name, None)] \<rparr>"
      from r nf False c have w: "cached_walk ?vis (\<lambda>_. False) (comb_key c) name (length (cells st)) (m args) ?xs ?st = (b, st')"
        by (simp add: addCombinator_def Let_def)
      have "\<forall>ys x zs. ?xs = ys @ x # zs \<longrightarrow> ?vis x \<longrightarrow> sem name x = (\<exists>y \<in> set (x # zs). ?vis y \<and> P y)"
        using s by (auto simp: found_from_def dest!: along_suffix)
      from cached_walk_computes [OF m n start_walking [OF ok] _ along_distinct this _ w] rr
      show ?thesis using grows_from_start [of st N name None st'] by simp
    qed
  qed
qed

lemma caches_ok_cong: "\<forall>n \<in> N. sem' n = sem n \<Longrightarrow> caches_ok sem' N st = caches_ok sem N st"
  unfolding caches_ok_def by (intro iff_allI imp_cong conj_cong refl) (simp add: fun_eq_iff)

lemma computes_cong: "\<forall>n \<in> N. sem' n = sem n \<Longrightarrow> computes sem N m P \<Longrightarrow> computes sem' N m P"
  unfolding computes_def using caches_ok_cong [of N sem' sem] by blast

lemma pure_computes: "computes sem N (pure_matcher p args) (p args)"
  by (rule computesI) (simp add: pure_matcher_def)

lemma all_matchers_computes:
  "list_all2 (\<lambda>m P. computes sem N (m args) P) ms Ps \<Longrightarrow> computes sem N (all_matchers ms args) (\<lambda>e. list_all (\<lambda>P. P e) Ps)"
proof (induction ms Ps rule: list_all2_induct)
  case (Cons m ms P Ps)
  show ?case
  proof (rule computesI)
    fix e st b st' assume ok: "caches_ok sem N st" and r: "all_matchers (m # ms) args e st = (b, st')"
    obtain b1 st1 where m: "m args e st = (b1, st1)" by (rule prod.exhaust)
    from computesD [OF Cons.hyps(1) ok m] have h: "b1 = P e" "caches_ok sem N st1" "grows N st st1" by simp_all
    show "b = list_all (\<lambda>P. P e) (P # Ps) \<and> caches_ok sem N st' \<and> grows N st st'"
    proof (cases b1)
      case True
      with r m have "all_matchers ms args e st1 = (b, st')" by simp
      from computesD [OF Cons.IH h(2) this] h True show ?thesis by (auto intro: grows_trans)
    qed (use r m h in auto)
  qed
qed (rule computesI, simp)

lemma elementMatcher_computes:
  assumes "list_all2 (\<lambda>m P. computes sem N (m args) P) ms Ps" "ms \<noteq> []"
  shows "computes sem N (elementMatcher ms args) (\<lambda>e. list_all (\<lambda>P. P e) Ps)"
proof (cases "length ms > 1")
  case True
  from assms(1) have "list_all2 (\<lambda>m P. computes sem N (m args) P) (rev ms) (rev Ps)" by simp
  from all_matchers_computes [OF this] True show ?thesis by (simp add: elementMatcher_def)
next
  case False
  with assms obtain m P where "ms = [m]" "Ps = [P]" "computes sem N (m args) P"
    by (cases ms) (auto simp: list_all2_Cons1)
  then show ?thesis by (simp add: elementMatcher_def)
qed

section \<open>What a selector selects\<close>

text \<open>The tokens of a compound selector from the last to the first; \<open>base\<close> is the condition on the leftmost element.\<close>

fun sat :: "doc \<Rightarrow> (token \<Rightarrow> node \<Rightarrow> bool) \<Rightarrow> token list \<Rightarrow> (node \<Rightarrow> bool) \<Rightarrow> node \<Rightarrow> bool" where
  "sat D filt [] base e = base e"
| "sat D filt (t # ts) base e = (case relative t of
     Some c \<Rightarrow> reach D c False (sat D filt ts base) e
   | None \<Rightarrow> filt t e \<and> sat D filt ts base e)"

definition from_context :: "doc \<Rightarrow> margs \<Rightarrow> combinator option \<Rightarrow> node \<Rightarrow> bool" where
  "from_context D args leading e \<longleftrightarrow>
    leading = None \<and> (a_xml args \<or> OCtx (a_context args) \<noteq> a_outermost args) \<or>
    reach D (case leading of None \<Rightarrow> descendant | Some c \<Rightarrow> c) True (in_context args) e"

definition selects :: "doc \<Rightarrow> (token \<Rightarrow> node \<Rightarrow> bool) \<Rightarrow> margs \<Rightarrow> token list \<Rightarrow> node \<Rightarrow> bool" where
  "selects D filt args tokens =
    (let leading = relative (hd tokens)
     in sat D filt (rev (if leading = None then tokens else tl tokens)) (from_context D args leading))"

lemma sat_append: "sat D filt (xs @ ys) base = sat D filt xs (sat D filt ys base)"
proof (induction xs)
  case (Cons t xs)
  show ?case by (rule ext) (simp add: Cons.IH split: option.split)
qed (simp add: fun_eq_iff)

lemma relative_next: "relative t = Some c \<Longrightarrow> c_next c = None"
  by (auto simp: relative_def split: token.splits if_splits)

lemma tokens_loop_computes:
  "tokens_loop D filt positional ts ms d = Some (ms', d') \<Longrightarrow>
   list_all2 (\<lambda>m P. computes sem {..<d} (m args) P) ms Ps \<Longrightarrow> ms \<noteq> [] \<Longrightarrow>
   \<exists>sem'. (\<forall>n<d. sem' n = sem n) \<and> d \<le> d' \<and>
     computes sem' {..<d'} (elementMatcher ms' args) (sat D filt (rev ts) (\<lambda>e. list_all (\<lambda>P. P e) Ps))"
proof (induction ts arbitrary: ms Ps d sem)
  case Nil
  with elementMatcher_computes [OF Nil(2,3)] show ?case by (intro exI [of _ sem]) auto
next
  case (Cons t ts)
  show ?case
  proof (cases "relative t")
    case None
    with Cons.prems(1) have np: "\<not> positional t"
      and r: "tokens_loop D filt positional ts (ms @ [pure_matcher (\<lambda>args. filt t)]) d = Some (ms', d')"
      by (auto split: if_splits)
    have l: "list_all2 (\<lambda>m P. computes sem {..<d} (m args) P) (ms @ [pure_matcher (\<lambda>args. filt t)]) (Ps @ [filt t])"
      using Cons.prems(2) pure_computes [of sem "{..<d}" "\<lambda>args. filt t" args] by (simp add: list_all2_appendI)
    have "sat D filt [t] (\<lambda>e. list_all (\<lambda>P. P e) Ps) = (\<lambda>e. list_all (\<lambda>P. P e) (Ps @ [filt t]))"
      using None by (simp add: fun_eq_iff conj_commute)
    then show ?thesis using Cons.IH [OF r l] by (simp add: sat_append)
  next
    case (Some c)
    define P where "P = (\<lambda>e. list_all (\<lambda>P. P e) Ps)"
    define sem1 where "sem1 = sem (d := found_from D c False P)"
    from Some Cons.prems(1) have r: "tokens_loop D filt positional ts [addCombinator D (elementMatcher ms) c False d] (Suc d) = Some (ms', d')"
      by simp
    have "computes sem {..<d} (elementMatcher ms args) P"
      unfolding P_def by (rule elementMatcher_computes [OF Cons.prems(2,3)])
    then have "computes sem1 {..<d} (elementMatcher ms args) P"
      by (rule computes_cong [rotated]) (simp add: sem1_def)
    then have "computes sem1 (insert d {..<d}) (addCombinator D (elementMatcher ms) c False d args) (reach D c False P)"
      by (rule addCombinator_computes) (simp_all add: sem1_def relative_next [OF Some])
    then have "list_all2 (\<lambda>m P. computes sem1 {..<Suc d} (m args) P) [addCombinator D (elementMatcher ms) c False d] [reach D c False P]"
      by (simp add: lessThan_Suc)
    from Cons.IH [OF r this] obtain sem' where s: "\<forall>n<Suc d. sem' n = sem1 n" "Suc d \<le> d'"
      "computes sem' {..<d'} (elementMatcher ms' args) (sat D filt (rev ts) (\<lambda>e. list_all (\<lambda>P. P e) [reach D c False P]))"
      by auto
    have "sat D filt (rev (t # ts)) P = sat D filt (rev ts) (reach D c False P)"
      unfolding rev.simps sat_append by (rule arg_cong [where f = "sat D filt (rev ts)"]) (rule ext, simp add: Some, rule arg_cong [where f = "\<lambda>P. reach D c False P _"], simp add: fun_eq_iff)
    with s show ?thesis unfolding P_def by (intro exI [of _ sem']) (simp add: sem1_def)
  qed
qed

lemma base_computes:
  assumes "computes sem N (matchContext args) R" "computes sem N (matchAnyContext args) R"
  shows "computes sem N (base_matcher leadingRelative matchContext matchAnyContext args)
    (\<lambda>e. \<not> leadingRelative \<and> (a_xml args \<or> OCtx (a_context args) \<noteq> a_outermost args) \<or> R e)"
proof (rule computesI)
  fix e st b st'
  assume ok: "caches_ok sem N st" and r: "base_matcher leadingRelative matchContext matchAnyContext args e st = (b, st')"
  show "b = (\<not> leadingRelative \<and> (a_xml args \<or> OCtx (a_context args) \<noteq> a_outermost args) \<or> R e) \<and>
      caches_ok sem N st' \<and> grows N st st'"
  proof (cases "\<not> leadingRelative \<and> (a_xml args \<or> OCtx (a_context args) \<noteq> a_outermost args)")
    case False
    with r computesD [OF assms(1) ok] computesD [OF assms(2) ok] show ?thesis
      by (auto simp: base_matcher_def split: if_splits)
  qed (use ok r in \<open>auto simp: base_matcher_def\<close>)
qed

lemma matcherFromTokens_computes:
  assumes r: "matcherFromTokens D filt positional tokens d = Some (m, d')"
  shows "\<exists>sem'. (\<forall>n<d. sem' n = sem n) \<and> d \<le> d' \<and> computes sem' {..<d'} (m args) (selects D filt args tokens)"
proof -
  define leading where "leading = relative (hd tokens)"
  define c where "c = (case leading of None \<Rightarrow> descendant | Some c \<Rightarrow> c)"
  define ts where "ts = (if leading = None then tokens else tl tokens)"
  let ?mc = "\<lambda>d. addCombinator D (pure_matcher in_context) c True d"
  have next': "c_next c = None"
    by (auto simp: c_def leading_def descendant_def relative_next split: option.split)
  from r obtain ms where ms: "tokens_loop D filt positional ts [base_matcher (leading \<noteq> None) (?mc d) (?mc (Suc d))] (d + 2) = Some (ms, d')"
    "m = elementMatcher ms"
    by (auto simp: matcherFromTokens_def Let_def leading_def c_def ts_def split: option.splits if_splits)
  let ?R = "reach D c True (in_context args)"
  define sem1 where "sem1 = sem (d := found_from D c True (in_context args), Suc d := found_from D c True (in_context args))"
  have "computes sem1 (insert d {..<d}) (?mc d args) ?R"
    by (rule addCombinator_computes [OF pure_computes]) (simp_all add: next' sem1_def)
  then have 1: "computes sem1 {..<d + 2} (?mc d args) ?R" by (rule computes_mono) auto
  have "computes sem1 (insert (Suc d) {..<Suc d}) (?mc (Suc d) args) ?R"
    by (rule addCombinator_computes [OF pure_computes]) (simp_all add: next' sem1_def)
  then have 2: "computes sem1 {..<d + 2} (?mc (Suc d) args) ?R" by (rule computes_mono) auto
  have fc: "(\<lambda>e. \<not> leading \<noteq> None \<and> (a_xml args \<or> OCtx (a_context args) \<noteq> a_outermost args) \<or> ?R e) = from_context D args leading"
    by (simp add: from_context_def fun_eq_iff c_def)
  have "list_all2 (\<lambda>m P. computes sem1 {..<d + 2} (m args) P) [base_matcher (leading \<noteq> None) (?mc d) (?mc (Suc d))]
      [from_context D args leading]"
    using base_computes [where matchContext = "?mc d" and matchAnyContext = "?mc (Suc d)" and args = args, OF 1 2, of "leading \<noteq> None"]
    unfolding fc by simp
  from tokens_loop_computes [OF ms(1) this] obtain sem' where "\<forall>n<d + 2. sem' n = sem1 n" "d + 2 \<le> d'"
    "computes sem' {..<d'} (m args) (sat D filt (rev ts) (from_context D args leading))"
    by (auto simp: ms(2))
  moreover have "sat D filt (rev ts) (from_context D args leading) = selects D filt args tokens"
    by (simp add: selects_def Let_def ts_def leading_def)
  ultimately show ?thesis by (intro exI [of _ sem']) (simp add: sem1_def)
qed

lemma compile_groups_computes:
  "compile_groups D filt positional gs d = Some (ms, d') \<Longrightarrow>
   \<exists>sem'. (\<forall>n<d. sem' n = sem n) \<and> d \<le> d' \<and>
     list_all2 (\<lambda>m P. computes sem' {..<d'} (m args) P) ms (map (selects D filt args) gs)"
proof (induction gs arbitrary: d sem ms)
  case (Cons g gs)
  from Cons.prems obtain m d1 ms1 where r: "matcherFromTokens D filt positional g d = Some (m, d1)"
    "compile_groups D filt positional gs d1 = Some (ms1, d')" "ms = m # ms1"
    by (auto split: option.splits)
  from matcherFromTokens_computes [OF r(1), of sem args] obtain sem1 where
    1: "\<forall>n<d. sem1 n = sem n" "d \<le> d1" "computes sem1 {..<d1} (m args) (selects D filt args g)" by blast
  from Cons.IH [OF r(2), of sem1] obtain sem2 where
    2: "\<forall>n<d1. sem2 n = sem1 n" "d1 \<le> d'" "list_all2 (\<lambda>m P. computes sem2 {..<d'} (m args) P) ms1 (map (selects D filt args) gs)"
    by blast
  have "computes sem2 {..<d1} (m args) (selects D filt args g)"
    using 1(3) by (rule computes_cong [rotated]) (simp add: 2)
  then have "computes sem2 {..<d'} (m args) (selects D filt args g)"
    by (rule computes_mono) (use 2(2) in auto)
  with 1 2 r(3) show ?case by (intro exI [of _ sem2]) simp
qed (auto intro: exI [of _ sem])

section \<open>Filtering with a compiled selector\<close>

lemma any_matcher_computes:
  "list_all2 (\<lambda>m P. computes sem N (m args) P) ms Ps \<Longrightarrow> computes sem N (any_matcher ms args) (\<lambda>e. list_ex (\<lambda>P. P e) Ps)"
proof (induction ms Ps rule: list_all2_induct)
  case (Cons m ms P Ps)
  show ?case
  proof (rule computesI)
    fix e st b st' assume ok: "caches_ok sem N st" and r: "any_matcher (m # ms) args e st = (b, st')"
    obtain b1 st1 where m: "m args e st = (b1, st1)" by (rule prod.exhaust)
    from computesD [OF Cons.hyps(1) ok m] have h: "b1 = P e" "caches_ok sem N st1" "grows N st st1" by simp_all
    show "b = list_ex (\<lambda>P. P e) (P # Ps) \<and> caches_ok sem N st' \<and> grows N st st'"
    proof (cases b1)
      case False
      with r m have "any_matcher ms args e st1 = (b, st')" by simp
      from computesD [OF Cons.IH h(2) this] h False show ?thesis by (auto intro: grows_trans)
    qed (use r m h in auto)
  qed
qed (rule computesI, simp)

lemma super_loop_filters:
  assumes m: "computes sem N (any_matcher ms args) P"
  shows "caches_ok sem N st \<Longrightarrow> super_loop ms args es results st = (out, st') \<Longrightarrow>
    out = results @ filter P es \<and> caches_ok sem N st' \<and> grows N st st'"
proof (induction es arbitrary: results st)
  case (Cons e es)
  obtain b1 st1 where r: "any_matcher ms args e st = (b1, st1)" by (rule prod.exhaust)
  from computesD [OF m Cons.prems(1) r] have h: "b1 = P e" "caches_ok sem N st1" "grows N st st1" by simp_all
  from Cons.prems(2) r have "super_loop ms args es (if b1 then results @ [e] else results) st1 = (out, st')" by simp
  from Cons.IH [OF h(2) this] h show ?case by (auto intro: grows_trans)
qed simp

text \<open>Between runs: the entries point to cells, and no cell is of a run to come.\<close>

definition settled :: "mstate \<Rightarrow> bool" where
  "settled st \<longleftrightarrow> (\<forall>i < length (cells st). fst (cells st ! i) \<le> dirruns st) \<and> (\<forall>x i. entry st x i \<longrightarrow> i < length (cells st))"

lemma settled_starts: "settled st \<Longrightarrow> caches_ok sem N (st \<lparr> dirruns := dirruns st + 1 \<rparr>)"
  by (fastforce simp: settled_def caches_ok_def entry_def)

lemma settled_grows:
  assumes "settled st" "grows N (st \<lparr> dirruns := dirruns st + 1 \<rparr>) st'" "caches_ok sem N st'"
  shows "settled st'"
  unfolding settled_def
proof (intro conjI allI impI)
  fix i assume "i < length (cells st')"
  with assms show "fst (cells st' ! i) \<le> dirruns st'"
    by (cases "i < length (cells st)") (auto simp: settled_def grows_def)
qed (use assms in \<open>simp add: caches_ok_def\<close>)

definition outer_args :: "context_arg option \<Rightarrow> bool \<Rightarrow> bool \<Rightarrow> margs" where
  "outer_args context xml outermost =
    \<lparr> a_context = (case context of None \<Rightarrow> COne document | Some c \<Rightarrow> c), a_xml = xml,
      a_outermost = (if \<not> outermost then ONone
        else case context of None \<Rightarrow> OTrue | Some c \<Rightarrow> if c = COne document then OTrue else OCtx c) \<rparr>"

lemma compiled_run:
  assumes "compile D filt positional match d = Some (ms, d')" "settled st"
    "superMatcher ms seed all context xml results outermost st = (out, st')"
  shows "out = results @ filter (\<lambda>e. \<exists>g \<in> set match. selects D filt (outer_args context xml outermost) g e)
      (case seed of None \<Rightarrow> all | Some s \<Rightarrow> s) \<and> settled st'"
proof -
  let ?args = "outer_args context xml outermost"
  from compile_groups_computes [OF assms(1) [unfolded compile_def], of "\<lambda>_ _. False" ?args] obtain sem where
    "list_all2 (\<lambda>m P. computes sem {..<d'} (m ?args) P) ms (map (selects D filt ?args) (rev match))" by blast
  from any_matcher_computes [OF this]
  have m: "computes sem {..<d'} (any_matcher ms ?args) (\<lambda>e. \<exists>g \<in> set match. selects D filt ?args g e)"
    by (simp add: list_ex_iff)
  have "super_loop ms ?args (case seed of None \<Rightarrow> all | Some s \<Rightarrow> s) results (st \<lparr> dirruns := dirruns st + 1 \<rparr>) = (out, st')"
    using assms(3) by (simp add: superMatcher_def outer_args_def Let_def)
  from super_loop_filters [OF m settled_starts [OF assms(2)] this] settled_grows [OF assms(2)] show ?thesis by blast
qed

text \<open>C30: Running a compiled selector on a list of elements selects those that satisfy one of its
  groups, in their order, whatever earlier runs of other selectors left in the elements' caches, and leaves
  the caches fit for the next run.  What a group selects is read off its tokens without any cache.\<close>

theorem compiled_selects:
  assumes "compile D filt positional match d = Some (ms, d')" "settled st"
  shows "fst (superMatcher ms seed all context xml results outermost st) =
      results @ filter (\<lambda>e. \<exists>g \<in> set match. selects D filt (outer_args context xml outermost) g e)
        (case seed of None \<Rightarrow> all | Some s \<Rightarrow> s) \<and>
    settled (snd (superMatcher ms seed all context xml results outermost st))"
  using compiled_run [OF assms, of seed all "context" xml results outermost]
  by (cases "superMatcher ms seed all context xml results outermost st") simp

definition sample_doc :: doc where
  "sample_doc = \<lparr> node_type = (\<lambda>n. if n = document then 9 else 1), node_name = (\<lambda>n. u ''DIV'') \<rparr>"

text \<open>The tokens of \<open>.a .b\<close> and \<open>.a > .b\<close>; here the first child of the document has the class \<open>a\<close>, and all below it \<open>b\<close>.\<close>

definition sample_filt :: "token \<Rightarrow> node \<Rightarrow> bool" where
  "sample_filt t n = (case t of Comb v c \<Rightarrow> False
     | Tok v ty ms ns \<Rightarrow> if v = u ''.a'' then snd n = [0] else length (snd n) > 1)"

definition sample_tokens :: "int \<Rightarrow> token list" where
  "sample_tokens c = [Tok (u ''.a'') CLASS [] None, Comb [c] c, Tok (u ''.b'') CLASS [] None]"

lemma sample_along:
  "along ParentNode (0, []) = []" "along ParentNode (0, [a]) = [(0, [])]" "along ParentNode (0, [a, b]) = [(0, [a]), (0, [])]"
  "along ParentNode (0, [a, b, c]) = [(0, [a, b]), (0, [a]), (0, [])]"
proof -
  show 0: "along ParentNode (0, []) = []" by (subst along.simps) (simp add: parentNode_def)
  show 1: "along ParentNode (0, [a]) = [(0, [])]" for a by (subst along.simps) (simp add: parentNode_def 0)
  show 2: "along ParentNode (0, [a, b]) = [(0, [a]), (0, [])]" for a b by (subst along.simps) (simp add: parentNode_def 1)
  show "along ParentNode (0, [a, b, c]) = [(0, [a, b]), (0, [a]), (0, [])]" by (subst along.simps) (simp add: parentNode_def 2)
qed

lemma sample_selects:
  "selects sample_doc sample_filt (outer_args None False True) (sample_tokens 62) (0, [0]) = False"
  "selects sample_doc sample_filt (outer_args None False True) (sample_tokens 62) (0, [0, 2]) = True"
  "selects sample_doc sample_filt (outer_args None False True) (sample_tokens 62) (0, [0, 2, 2]) = False"
  by (simp_all add: selects_def sample_tokens_def relative_def reach_def sample_along visits_def
      sample_doc_def document_def sample_filt_def from_context_def outer_args_def u_def)

lemma compiled_selects_witness:
  "fst (superMatcher (fst (the (compile sample_doc sample_filt (\<lambda>t. False) [sample_tokens 62] 0)))
      (Some [(0, [0]), (0, [0, 2]), (0, [0, 2, 2])]) [] None False [] True
      \<lparr> cells = [], node_caches = (\<lambda>_ _. None), dirruns = 0 \<rparr>) = [(0, [0, 2])]"
proof -
  have s: "settled \<lparr> cells = [], node_caches = (\<lambda>_ _. None), dirruns = 0 \<rparr>" by (simp add: settled_def entry_def)
  let ?r = "the (compile sample_doc sample_filt (\<lambda>t. False) [sample_tokens 62] 0)"
  have c: "compile sample_doc sample_filt (\<lambda>t. False) [sample_tokens 62] 0 = Some (fst ?r, snd ?r)"
    by (simp add: compile_def matcherFromTokens_def sample_tokens_def relative_def)
  show ?thesis
    using compiled_selects [OF c s, of "Some [(0, [0]), (0, [0, 2]), (0, [0, 2, 2])]" "[]" None False "[]" True]
    by (simp add: sample_selects)
qed

end
