(* ===== verification/JqNamespace.thy ===== *)
theory JqNamespace
  imports JsRegExp "HOL-Library.Sublist"
begin

text \<open>
  Namespaces of events (\<open>jquery-3.5.1.js\<close>, lines 5244, 5327, 5340 and 8654): the sorted names of an event type,
  and the regular expression made of them, which looks for the names of an event among those of a
  handler.  On sorted names it tests for a subset.
\<close>

fun text_cmp :: "ustr \<Rightarrow> ustr \<Rightarrow> int" where
  "text_cmp [] [] = 0"
| "text_cmp [] (y # ys) = -1"
| "text_cmp (x # xs) [] = 1"
| "text_cmp (x # xs) (y # ys) = (if x < y then -1 else if y < x then 1 else text_cmp xs ys)"

definition namespaces_of :: "ustr \<Rightarrow> ustr list" where
  "namespaces_of s = sort_by text_cmp (split_str [46] s)"

fun names_re :: "ustr list \<Rightarrow> re" where
  "names_re [] = Eps"
| "names_re [w] = lit w"
| "names_re (w # ws) = Seq (lit w) (Seq (lit [46]) (Seq (Alt (Seq (Star True Dot) (lit [46])) Eps) (names_re ws)))"

definition ns_re :: "ustr list \<Rightarrow> re" where
  "ns_re ws = Seq (Grp 1 (Alt Bol (lit [46]))) (Seq (names_re ws) (Grp 2 (Alt (lit [46]) Eol)))"

section \<open>The order\<close>

lemma text_cmp_total: "text_cmp a b \<le> 0 \<or> text_cmp b a \<le> 0"
  by (induction a b rule: text_cmp.induct) auto

lemma text_cmp_antisym: "text_cmp a b \<le> 0 \<Longrightarrow> text_cmp b a \<le> 0 \<Longrightarrow> a = b"
  by (induction a b rule: text_cmp.induct) (auto split: if_splits)

lemma text_cmp_trans: "text_cmp a b \<le> 0 \<Longrightarrow> text_cmp b c \<le> 0 \<Longrightarrow> text_cmp a c \<le> 0"
proof (induction a c arbitrary: b rule: text_cmp.induct)
  case (3 x xs b)
  then show ?case by (cases b) auto
next
  case (4 x xs y ys b)
  then show ?case by (cases b) (auto split: if_splits)
qed auto

lemma cmp_ok_text: "cmp_ok text_cmp"
  unfolding cmp_ok_def using text_cmp_total text_cmp_trans by blast

abbreviation text_sorted :: "ustr list \<Rightarrow> bool" where
  "text_sorted \<equiv> sorted_wrt (\<lambda>a b. text_cmp a b \<le> 0)"

lemma subseq_subset: "text_sorted ns \<Longrightarrow> distinct ns \<Longrightarrow> text_sorted hs \<Longrightarrow> subseq ns hs \<longleftrightarrow> set ns \<subseteq> set hs"
proof (induction hs arbitrary: ns)
  case (Cons h hs)
  show ?case
  proof (cases ns)
    case (Cons n ms)
    show ?thesis
    proof (cases "n = h")
      case True
      with Cons Cons.prems Cons.IH [of ms] show ?thesis by auto
    next
      case False
      have "h \<notin> set ns" if "set ns \<subseteq> set (h # hs)"
      proof
        assume "h \<in> set ns"
        then have "text_cmp n h \<le> 0" using Cons Cons.prems(1) False by auto
        moreover have "text_cmp h n \<le> 0" using that Cons Cons.prems(3) False by auto
        ultimately show False using text_cmp_antisym False by blast
      qed
      with Cons False Cons.prems Cons.IH [of ns] show ?thesis by auto
    qed
  qed simp
qed auto

section \<open>The words of a joined text\<close>

lemma split_join: "hs \<noteq> [] \<Longrightarrow> list_all (\<lambda>h. c \<notin> set h) hs \<Longrightarrow> split_str [c] (join [c] hs) = hs"
proof (induction hs)
  case (Cons h hs)
  then show ?case by (cases hs) (simp_all add: split_str_unit join_Cons)
qed simp

lemma split_no_unit: "list_all (\<lambda>h. c \<notin> set h) (split_str [c] s)"
proof (induction "[c]" s rule: split_str.induct)
  case (1 s)
  show ?case
  proof (cases "find_str [c] s")
    case None
    then show ?thesis by (simp add: find_str_unit split_str_unit(1))
  next
    case (Some i)
    have e: "split_str [c] s = take i s # split_str [c] (drop (Suc i) s)" using Some by (subst split_str.simps) simp
    have "c \<notin> set (take i s)"
    proof
      assume "c \<in> set (take i s)"
      then obtain k where k: "k < i" "s ! k = c" "k < length s" by (auto simp: in_set_conv_nth)
      then obtain a b where s: "s = a @ c # b" "c \<notin> set a" by (metis split_list_first nth_mem)
      then have "i = length a" using Some by (simp add: find_str_unit_first)
      with k s show False by (auto simp: nth_append)
    qed
    with 1 Some show ?thesis by (simp add: e)
  qed
qed

text \<open>The places behind a dot, and the start, are where the words start.\<close>

lemma join_boundary:
  assumes "hs \<noteq> []" "list_all (\<lambda>h. 46 \<notin> set h) hs"
  shows "(\<exists>a. join [46] hs = a @ r \<and> (a = [] \<or> last a = 46)) \<longleftrightarrow> (\<exists>k < length hs. r = join [46] (drop k hs))"
  using assms
proof (induction hs)
  case (Cons h hs)
  show ?case
  proof (cases "hs = []")
    case True
    have "a = []" if "h = a @ r" "a = [] \<or> last a = 46" for a
      using that Cons.prems(2) True by (metis UnCI last_in_set list.pred_inject(2) set_append)
    then show ?thesis using True by (auto intro: exI [of _ "[]"])
  next
    case False
    have j: "join [46] (h # hs) = h @ 46 # join [46] hs" using False by (simp add: join_Cons)
    have IH: "(\<exists>a. join [46] hs = a @ r \<and> (a = [] \<or> last a = 46)) \<longleftrightarrow> (\<exists>k < length hs. r = join [46] (drop k hs))"
      using Cons False by simp
    have "(\<exists>a. h @ 46 # join [46] hs = a @ r \<and> (a = [] \<or> last a = 46)) \<longleftrightarrow>
        r = h @ 46 # join [46] hs \<or> (\<exists>a. join [46] hs = a @ r \<and> (a = [] \<or> last a = 46))" (is "?l \<longleftrightarrow> ?r")
    proof
      assume ?l
      then obtain a where a: "h @ 46 # join [46] hs = a @ r" "a = [] \<or> last a = 46" by blast
      show ?r
      proof (cases "a = []")
        case False
        with a(2) have "46 \<in> set a" by (metis last_in_set)
        moreover have "46 \<notin> set h" using Cons.prems(2) by simp
        ultimately obtain b where b: "a = h @ 46 # b" using a(1)
          by (auto simp: append_eq_append_conv2 append_eq_Cons_conv Cons_eq_append_conv)
        then have "join [46] hs = b @ r" using a(1) by simp
        moreover have "b = [] \<or> last b = 46" using a(2) b by (auto split: if_splits)
        ultimately show ?thesis by blast
      qed (use a in auto)
    next
      assume ?r
      then show ?l
      proof
        assume "\<exists>a. join [46] hs = a @ r \<and> (a = [] \<or> last a = 46)"
        then obtain a where "join [46] hs = a @ r" "a = [] \<or> last a = 46" by blast
        then show ?l by (intro exI [of _ "h @ 46 # a"]) auto
      qed (use exI [of _ "[]"] in auto)
    qed
    also have "\<dots> \<longleftrightarrow> (\<exists>k < length (h # hs). r = join [46] (drop k (h # hs)))"
      unfolding IH using j by (auto simp: less_Suc_eq_0_disj)
    finally show ?thesis using j by simp
  qed
qed simp

section \<open>What the expression matches\<close>

fun names_match :: "ustr list \<Rightarrow> ustr \<Rightarrow> ustr \<Rightarrow> bool" where
  "names_match [] t r \<longleftrightarrow> r = t"
| "names_match [w] t r \<longleftrightarrow> t = w @ r"
| "names_match (w # v # ws) t r \<longleftrightarrow> (\<exists>m t'. t = w @ 46 # m @ t' \<and>
     (m = [] \<or> (\<exists>x. m = x @ [46] \<and> list_all (\<lambda>c. \<not> line_end c) x)) \<and> names_match (v # ws) t' r)"

lemma in_lit:
  "i \<le> length s \<Longrightarrow> (e, c') \<in> set (rm s (lit w) (i, c)) \<longleftrightarrow> c' = c \<and> e \<le> length s \<and> drop i s = w @ drop e s"
proof -
  assume i: "i \<le> length s"
  have "(drop i s = w @ drop e s \<and> e \<le> length s) \<longleftrightarrow> starts_with w (drop i s) \<and> e = i + length w"
  proof
    assume a: "drop i s = w @ drop e s \<and> e \<le> length s"
    then have "length s - i = length w + (length s - e)" by (metis length_append length_drop)
    with a i have "e = i + length w" by linarith
    with a show "starts_with w (drop i s) \<and> e = i + length w" by (simp add: starts_with_def)
  next
    assume a: "starts_with w (drop i s) \<and> e = i + length w"
    then have "length w \<le> length s - i" by (metis length_drop prefix_length_le starts_with_prefix)
    moreover have "take (length w) (drop i s) = w" using a by (simp add: starts_with_def)
    ultimately show "drop i s = w @ drop e s \<and> e \<le> length s"
      using a i by (metis add.commute append_take_drop_id drop_drop le_diff_conv2)
  qed
  then show ?thesis using i by (auto simp: rm_lit starts_with_def split: if_splits)
qed

lemma in_star_class:
  "i \<le> length s \<Longrightarrow> (e, c') \<in> set (rm s (Star True (Cls p)) (i, c)) \<longleftrightarrow>
     c' = c \<and> e \<le> length s \<and> (\<exists>x. drop i s = x @ drop e s \<and> list_all p x)"
proof -
  have "(e, c') \<in> set (rep n True (rm s (Cls p)) (i, c)) \<longleftrightarrow>
      c' = c \<and> e \<le> length s \<and> (\<exists>x. drop i s = x @ drop e s \<and> list_all p x)" if "i \<le> length s" "length s - i \<le> n" for n
    using that
  proof (induction n arbitrary: i)
    case 0
    then have "i = length s" by simp
    then show ?case by auto
  next
    case (Suc n)
    have refl: "drop i s = x @ drop e s \<longleftrightarrow> (x = [] \<and> e = i) \<or> (i < length s \<and> x \<noteq> [] \<and> hd x = s ! i \<and> drop (Suc i) s = tl x @ drop e s)"
      if "e \<le> length s" for x
    proof (cases "i < length s")
      case True
      then have d: "drop i s = s ! i # drop (Suc i) s" by (simp add: Cons_nth_drop_Suc)
      show ?thesis
      proof (cases x)
        case Nil
        have "drop i s = drop e s \<longleftrightarrow> length s - i = length s - e"
          using that Suc.prems(1) by (metis diff_diff_cancel length_drop)
        with Nil that Suc.prems(1) show ?thesis by auto
      qed (use True in \<open>auto simp: d\<close>)
    next
      case False
      then have "i = length s" using Suc.prems by simp
      with that show ?thesis by auto
    qed
    show ?case
    proof (cases "i < length s \<and> p (s ! i)")
      case True
      then have "rm s (Cls p) (i, c) = [(Suc i, c)]" by simp
      then have "(e, c') \<in> set (rep (Suc n) True (rm s (Cls p)) (i, c)) \<longleftrightarrow>
          (e, c') \<in> set (rep n True (rm s (Cls p)) (Suc i, c)) \<or> (e, c') = (i, c)" by (auto simp del: rm.simps)
      also have "\<dots> \<longleftrightarrow> c' = c \<and> e \<le> length s \<and> ((\<exists>x. drop (Suc i) s = x @ drop e s \<and> list_all p x) \<or> e = i)"
        using Suc.IH [of "Suc i"] Suc.prems True by (auto simp del: rm.simps)
      also have "\<dots> \<longleftrightarrow> c' = c \<and> e \<le> length s \<and> (\<exists>x. drop i s = x @ drop e s \<and> list_all p x)"
      proof -
        have "(\<exists>x. drop i s = x @ drop e s \<and> list_all p x) \<longleftrightarrow> (\<exists>x. drop (Suc i) s = x @ drop e s \<and> list_all p x) \<or> e = i"
          if e: "e \<le> length s"
        proof
          assume "\<exists>x. drop i s = x @ drop e s \<and> list_all p x"
          then obtain x where x: "drop i s = x @ drop e s" "list_all p x" by blast
          then show "(\<exists>x. drop (Suc i) s = x @ drop e s \<and> list_all p x) \<or> e = i"
            using refl [OF e, of x] by (cases x) auto
        next
          assume "(\<exists>x. drop (Suc i) s = x @ drop e s \<and> list_all p x) \<or> e = i"
          then show "\<exists>x. drop i s = x @ drop e s \<and> list_all p x"
          proof
            assume "\<exists>x. drop (Suc i) s = x @ drop e s \<and> list_all p x"
            then obtain x where "drop (Suc i) s = x @ drop e s" "list_all p x" by blast
            then show ?thesis using refl [OF e, of "s ! i # x"] True by (intro exI [of _ "s ! i # x"]) simp
          qed (intro exI [of _ "[]"], simp)
        qed
        then show ?thesis by blast
      qed
      finally show ?thesis .
    next
      case False
      then have "rm s (Cls p) (i, c) = []" by auto
      then have "(e, c') \<in> set (rep (Suc n) True (rm s (Cls p)) (i, c)) \<longleftrightarrow> (e, c') = (i, c)" by (simp del: rm.simps)
      moreover have "(\<exists>x. drop i s = x @ drop e s \<and> list_all p x) \<longleftrightarrow> e = i" if e: "e \<le> length s"
      proof
        assume "\<exists>x. drop i s = x @ drop e s \<and> list_all p x"
        then obtain x where x: "drop i s = x @ drop e s" "list_all p x" by blast
        with refl [OF e, of x] False show "e = i" by (cases x) auto
      qed (intro exI [of _ "[]"], simp)
      ultimately show ?thesis using Suc.prems by (auto simp del: rm.simps)
    qed
  qed
  then show "i \<le> length s \<Longrightarrow> ?thesis" by simp
qed

lemma in_seq: "x \<in> set (rm s (Seq a b) st) \<longleftrightarrow> (\<exists>y. y \<in> set (rm s a st) \<and> x \<in> set (rm s b y))"
  by auto

lemma in_seq_span:
  assumes "\<And>k d. (k, d) \<in> set (rm s a st) \<longleftrightarrow> d = c \<and> k \<le> length s \<and> A k"
  shows "x \<in> set (rm s (Seq a b) st) \<longleftrightarrow> (\<exists>k. k \<le> length s \<and> A k \<and> x \<in> set (rm s b (k, c)))"
  unfolding in_seq split_paired_Ex by (simp only: assms) blast

lemma in_alt: "x \<in> set (rm s (Alt a b) st) \<longleftrightarrow> x \<in> set (rm s a st) \<or> x \<in> set (rm s b st)"
  by simp

lemma in_names:
  "i \<le> length s \<Longrightarrow> (e, c') \<in> set (rm s (names_re ns) (i, c)) \<longleftrightarrow>
     c' = c \<and> e \<le> length s \<and> names_match ns (drop i s) (drop e s)"
proof (induction ns arbitrary: i rule: names_re.induct)
  case 1
  have "drop e s = drop i s \<longleftrightarrow> length s - e = length s - i" if "e \<le> length s"
    using that 1 by (metis diff_diff_cancel length_drop)
  then have "drop e s = drop i s \<longleftrightarrow> e = i" if "e \<le> length s" using that 1 by (metis diff_diff_cancel)
  with 1 show ?case by auto
next
  case (2 w)
  then show ?case by (simp add: in_lit)
next
  case (3 w v ws)
  note i = 3(2)
  let ?mid = "Alt (Seq (Star True Dot) (lit [46])) Eps" and ?rest = "names_re (v # ws)"
  let ?M = "\<lambda>m. m = [] \<or> (\<exists>x. m = x @ [46] \<and> list_all (\<lambda>c. \<not> line_end c) x)"
  have mid: "(k, d) \<in> set (rm s ?mid (j, c)) \<longleftrightarrow> d = c \<and> k \<le> length s \<and> (\<exists>m. drop j s = m @ drop k s \<and> ?M m)"
    if j: "j \<le> length s" for j k d
  proof -
    have "(k, d) \<in> set (rm s (Seq (Star True Dot) (lit [46])) (j, c)) \<longleftrightarrow>
        (\<exists>l. (d = c \<and> k \<le> length s \<and> l \<le> length s \<and> drop l s = 46 # drop k s \<and> (\<exists>x. drop j s = x @ drop l s \<and> list_all (\<lambda>c. \<not> line_end c) x)))"
      unfolding in_seq Dot_def by (auto simp: in_star_class [OF j] in_lit simp del: rm.simps)
    also have "\<dots> \<longleftrightarrow> d = c \<and> k \<le> length s \<and> (\<exists>x. drop j s = x @ 46 # drop k s \<and> list_all (\<lambda>c. \<not> line_end c) x)"
    proof -
      have "\<exists>l \<le> length s. drop l s = r" if "drop j s = x @ r" for x r
        using that by (intro exI [of _ "j + length x"]) (metis add_le_cancel_left append_eq_conv_conj drop_drop add.commute
            le_add_diff_inverse j length_append length_drop le_add1)
      then show ?thesis by metis
    qed
    finally have "(k, d) \<in> set (rm s (Seq (Star True Dot) (lit [46])) (j, c)) \<longleftrightarrow>
      d = c \<and> k \<le> length s \<and> (\<exists>x. drop j s = x @ 46 # drop k s \<and> list_all (\<lambda>c. \<not> line_end c) x)" .
    moreover have "(k, d) = (j, c) \<longleftrightarrow> d = c \<and> k \<le> length s \<and> drop j s = drop k s"
      using j by (metis diff_diff_cancel length_drop prod.inject)
    ultimately show ?thesis unfolding in_alt by (auto simp del: rm.simps simp: rm.simps(1))
  qed
  have "(e, c') \<in> set (rm s (names_re (w # v # ws)) (i, c)) \<longleftrightarrow>
      (\<exists>j k l. j \<le> length s \<and> k \<le> length s \<and> l \<le> length s \<and> drop i s = w @ drop j s \<and> drop j s = [46] @ drop k s \<and>
        (\<exists>m. drop k s = m @ drop l s \<and> ?M m) \<and> c' = c \<and> e \<le> length s \<and> names_match (v # ws) (drop l s) (drop e s))"
  proof -
    have 4: "(e, c') \<in> set (rm s ?rest (l, c)) \<longleftrightarrow> c' = c \<and> e \<le> length s \<and> names_match (v # ws) (drop l s) (drop e s)"
      if "l \<le> length s" for l using 3(1) that .
    have 3: "(e, c') \<in> set (rm s (Seq ?mid ?rest) (k, c)) \<longleftrightarrow>
        (\<exists>l. l \<le> length s \<and> (\<exists>m. drop k s = m @ drop l s \<and> ?M m) \<and> (e, c') \<in> set (rm s ?rest (l, c)))"
      if "k \<le> length s" for k by (rule in_seq_span, rule mid, rule that)
    have 2: "(e, c') \<in> set (rm s (Seq (lit [46]) b) (j, c)) \<longleftrightarrow>
        (\<exists>k. k \<le> length s \<and> drop j s = [46] @ drop k s \<and> (e, c') \<in> set (rm s b (k, c)))"
      if "j \<le> length s" for j b by (rule in_seq_span, rule in_lit, rule that)
    have 1: "(e, c') \<in> set (rm s (Seq (lit w) b) (i, c)) \<longleftrightarrow>
        (\<exists>j. j \<le> length s \<and> drop i s = w @ drop j s \<and> (e, c') \<in> set (rm s b (j, c)))" for b
      by (rule in_seq_span, rule in_lit, rule i)
    show ?thesis unfolding names_re.simps 1 by (simp only: 2 3 4 cong: conj_cong) blast
  qed
  also have "\<dots> \<longleftrightarrow> c' = c \<and> e \<le> length s \<and> names_match (w # v # ws) (drop i s) (drop e s)"
  proof -
    have suf: "\<exists>l \<le> length s. drop l s = r" if "drop i s = x @ r" for x r
      using that 3(2) by (intro exI [of _ "i + length x"]) (metis add_le_cancel_left append_eq_conv_conj drop_drop add.commute
            le_add_diff_inverse length_append length_drop le_add1)
    show ?thesis (is "?l \<longleftrightarrow> ?r")
    proof
      assume ?l
      then show ?r unfolding names_match.simps by (elim exE conjE) (metis append_Cons append_Nil)
    next
      assume r: ?r
      then obtain m t' where t: "drop i s = w @ 46 # m @ t'" "?M m" "names_match (v # ws) t' (drop e s)"
        unfolding names_match.simps by blast
      obtain j where j: "j \<le> length s" "drop j s = 46 # m @ t'" using suf [of w] t(1) by blast
      obtain k where k: "k \<le> length s" "drop k s = m @ t'" using suf [of "w @ [46]" "m @ t'"] t(1) by auto
      obtain l where l: "l \<le> length s" "drop l s = t'" using suf [of "w @ 46 # m" t'] t(1) by auto
      show ?l
        by (intro exI [of _ j] exI [of _ k] exI [of _ l] conjI exI [of _ m]) (use j k l t r in simp_all)
    qed
  qed
  finally show ?case .
qed

lemma test_ns:
  "test (ns_re ns) s \<longleftrightarrow> (\<exists>a t r. s = a @ t \<and> (a = [] \<or> last a = 46) \<and> names_match ns t r \<and> (r = [] \<or> hd r = 46))"
proof -
  define stop where "stop e \<longleftrightarrow> drop e s = [] \<or> hd (drop e s) = 46" for e
  define names where "names i \<longleftrightarrow> (\<exists>e \<le> length s. names_match ns (drop i s) (drop e s) \<and> stop e)" for i
  have stop: "(\<exists>x. x \<in> set (rm s (Grp 2 (Alt (lit [46]) Eol)) (e, c))) \<longleftrightarrow> stop e" if "e \<le> length s" for e c
    using that by (cases "e < length s") (auto simp: lit_def stop_def hd_drop_conv_nth)
  have names: "(\<exists>x. x \<in> set (rm s (Seq (names_re ns) (Grp 2 (Alt (lit [46]) Eol))) (i, c))) \<longleftrightarrow> names i"
    if "i \<le> length s" for i c
  proof -
    have "(\<exists>x. x \<in> set (rm s (Seq (names_re ns) (Grp 2 (Alt (lit [46]) Eol))) (i, c))) \<longleftrightarrow>
        (\<exists>e. e \<le> length s \<and> names_match ns (drop i s) (drop e s) \<and> (\<exists>x. x \<in> set (rm s (Grp 2 (Alt (lit [46]) Eol)) (e, c))))"
      by (subst in_seq_span, rule in_names, rule that) blast
    then show ?thesis by (simp only: stop names_def cong: conj_cong)
  qed
  have start: "(\<exists>x. x \<in> set (rm s (ns_re ns) (k, c))) \<longleftrightarrow> k = 0 \<and> names 0 \<or> k < length s \<and> s ! k = 46 \<and> names (Suc k)"
    if "k \<le> length s" for k c
  proof -
    let ?g = "\<lambda>j. (j, c(1 := Some (substring s k j)))"
    have "rm s (Grp 1 (Alt Bol (lit [46]))) (k, c) =
        (if k = 0 then [?g 0] else []) @ (if k < length s \<and> s ! k = 46 then [?g (Suc k)] else [])" by (simp add: lit_def)
    then have y: "y \<in> set (rm s (Grp 1 (Alt Bol (lit [46]))) (k, c)) \<longleftrightarrow>
        k = 0 \<and> y = ?g 0 \<or> k < length s \<and> s ! k = 46 \<and> y = ?g (Suc k)" for y by (simp del: rm.simps) auto
    show ?thesis unfolding ns_re_def in_seq [of _ s "Grp 1 (Alt Bol (lit [46]))"] y
      using names that by (metis Suc_leI le0)
  qed
  have "test (ns_re ns) s \<longleftrightarrow> (\<exists>k \<le> length s. \<exists>x. x \<in> set (rm s (ns_re ns) (k, no_caps)))"
    unfolding test_def exec_None_iff ex_in_conv set_empty by simp
  also have "\<dots> \<longleftrightarrow> names 0 \<or> (\<exists>k < length s. s ! k = 46 \<and> names (Suc k))"
    using start by (metis le0 less_imp_le)
  also have "\<dots> \<longleftrightarrow> (\<exists>i \<le> length s. (i = 0 \<or> last (take i s) = 46) \<and> names i)"
  proof
    assume "names 0 \<or> (\<exists>k < length s. s ! k = 46 \<and> names (Suc k))"
    then show "\<exists>i \<le> length s. (i = 0 \<or> last (take i s) = 46) \<and> names i"
    proof (elim disjE exE conjE)
      fix k assume k: "k < length s" "s ! k = 46" "names (Suc k)"
      then have "last (take (Suc k) s) = 46" by (simp add: take_Suc_conv_app_nth)
      with k show ?thesis by (intro exI [of _ "Suc k"]) auto
    qed auto
  next
    assume "\<exists>i \<le> length s. (i = 0 \<or> last (take i s) = 46) \<and> names i"
    then obtain i where i: "i \<le> length s" "i = 0 \<or> last (take i s) = 46" "names i" by blast
    then show "names 0 \<or> (\<exists>k < length s. s ! k = 46 \<and> names (Suc k))"
      by (cases i) (auto simp: take_Suc_conv_app_nth)
  qed
  also have "\<dots> \<longleftrightarrow> (\<exists>a t r. s = a @ t \<and> (a = [] \<or> last a = 46) \<and> names_match ns t r \<and> (r = [] \<or> hd r = 46))"
    (is "?l \<longleftrightarrow> ?r")
  proof
    assume ?l
    then obtain i e where "i \<le> length s" "i = 0 \<or> last (take i s) = 46" "names_match ns (drop i s) (drop e s)" "stop e"
      unfolding names_def by blast
    then show ?r
      by (intro exI [of _ "take i s"] exI [of _ "drop i s"] exI [of _ "drop e s"]) (auto simp: stop_def)
  next
    assume ?r
    then obtain a t r where a: "s = a @ t" "a = [] \<or> last a = 46" "names_match ns t r" "r = [] \<or> hd r = 46" by blast
    have "\<exists>b. t = b @ r" using a(3)
    proof (induction ns t r rule: names_match.induct)
      case (3 w v ws t r)
      then obtain m t' where "t = w @ 46 # m @ t'" "names_match (v # ws) t' r" by auto
      with 3(1) show ?case by (metis append.assoc append_Cons)
    qed auto
    then obtain b where b: "t = b @ r" by blast
    have "names (length a)" unfolding names_def stop_def
      by (intro exI [of _ "length a + length b"]) (use a b in auto)
    with a show ?l by (intro exI [of _ "length a"]) auto
  qed
  finally show ?thesis .
qed

section \<open>Subsets of names\<close>

lemma subseq_at: "subseq (w # ws) hs \<longleftrightarrow> (\<exists>k < length hs. hs ! k = w \<and> subseq ws (drop (Suc k) hs))"
proof (induction hs)
  case (Cons h hs)
  have "subseq (w # ws) (h # hs) \<longleftrightarrow> h = w \<and> subseq ws hs \<or> subseq (w # ws) hs"
    by (auto simp: subseq_Cons')
  then show ?case unfolding Cons by (auto simp: less_Suc_eq_0_disj)
qed simp

lemma names_match_words:
  "ns \<noteq> [] \<Longrightarrow> hs \<noteq> [] \<Longrightarrow> list_all (\<lambda>h. 46 \<notin> set h) ns \<Longrightarrow> list_all (\<lambda>h. 46 \<notin> set h) hs \<Longrightarrow>
   list_all (\<lambda>c. \<not> line_end c) (join [46] hs) \<Longrightarrow>
   (\<exists>r. names_match ns (join [46] hs) r \<and> (r = [] \<or> hd r = 46)) \<longleftrightarrow> hd hs = hd ns \<and> subseq (tl ns) (tl hs)"
proof (induction ns arbitrary: hs rule: names_re.induct)
  case (2 w)
  obtain h hs' where hs: "hs = h # hs'" using 2(2) by (cases hs) auto
  show ?case
  proof (cases "hs' = []")
    case True
    have "r = []" if "h = w @ r" "r = [] \<or> hd r = 46" for r
      using that 2(4) hs by (cases r) auto
    with True hs show ?thesis by auto
  next
    case False
    have j: "join [46] hs = h @ 46 # join [46] hs'" using False hs by (simp add: join_Cons)
    have "h = w" if "h @ 46 # join [46] hs' = w @ r" "r = [] \<or> hd r = 46" for r
      using that 2(3,4) hs by (cases r) (auto simp: append_eq_append_conv2 append_eq_Cons_conv Cons_eq_append_conv)
    then have "(\<exists>r. names_match [w] (join [46] hs) r \<and> (r = [] \<or> hd r = 46)) \<longleftrightarrow> h = w"
      unfolding names_match.simps j by auto
    then show ?thesis using hs by simp
  qed
next
  case (3 w v ws)
  obtain h hs' where hs: "hs = h # hs'" using 3(3) by (cases hs) auto
  let ?M = "\<lambda>m. m = [] \<or> (\<exists>x. m = x @ [46] \<and> list_all (\<lambda>c. \<not> line_end c) x)"
  let ?N = "\<lambda>t. \<exists>r. names_match (v # ws) t r \<and> (r = [] \<or> hd r = 46)"
  show ?case
  proof (cases "hs' = []")
    case True
    with hs 3(5) show ?thesis by auto
  next
    case False
    let ?J = "join [46] hs'"
    have j: "join [46] hs = h @ 46 # ?J" using False hs by (simp add: join_Cons)
    have J: "list_all (\<lambda>c. \<not> line_end c) ?J" using 3(6) by (simp add: j)
    have w: "h @ 46 # ?J = w @ 46 # m @ t' \<longleftrightarrow> h = w \<and> ?J = m @ t'" for m t'
      using 3(4,5) hs by (auto simp: append_eq_append_conv2 append_eq_Cons_conv Cons_eq_append_conv)
    have M: "?J = m @ t' \<Longrightarrow> ?M m \<longleftrightarrow> m = [] \<or> last m = 46" for m t'
    proof -
      assume "?J = m @ t'"
      with J have "list_all (\<lambda>c. \<not> line_end c) m" by simp
      then show ?thesis by (cases m rule: rev_cases) auto
    qed
    have "(\<exists>r. names_match (w # v # ws) (join [46] hs) r \<and> (r = [] \<or> hd r = 46)) \<longleftrightarrow>
        h = w \<and> (\<exists>t'. (\<exists>m. ?J = m @ t' \<and> (m = [] \<or> last m = 46)) \<and> ?N t')"
      unfolding names_match.simps j w using M by blast
    also have "\<dots> \<longleftrightarrow> h = w \<and> (\<exists>k < length hs'. ?N (join [46] (drop k hs')))"
      using join_boundary [of hs'] False 3(5) hs by auto
    also have "\<dots> \<longleftrightarrow> h = w \<and> (\<exists>k < length hs'. hs' ! k = v \<and> subseq ws (drop (Suc k) hs'))"
    proof -
      have "?N (join [46] (drop k hs')) \<longleftrightarrow> hs' ! k = v \<and> subseq ws (drop (Suc k) hs')" if k: "k < length hs'" for k
      proof -
        have d: "drop k hs' = hs' ! k # drop (Suc k) hs'" using k by (simp add: Cons_nth_drop_Suc)
        have "\<exists>a. ?J = a @ join [46] (drop k hs') \<and> (a = [] \<or> last a = 46)"
          using join_boundary [of hs' "join [46] (drop k hs')"] False 3(5) hs k by auto
        then have "list_all (\<lambda>c. \<not> line_end c) (join [46] (drop k hs'))" using J by auto
        moreover have "list_all (\<lambda>h. 46 \<notin> set h) (drop k hs')" using 3(5) hs by (auto simp: list_all_iff dest: in_set_dropD)
        ultimately show ?thesis using 3(1) [of "drop k hs'"] 3(4) d by simp
      qed
      then show ?thesis by blast
    qed
    finally show ?thesis using hs by (simp add: subseq_at)
  qed
qed simp

lemma set_names [simp]: "set (namespaces_of s) = set (split_str [46] s)"
  unfolding namespaces_of_def by (rule mset_eq_setD) (rule mset_sort_by)

lemma names_sorted: "text_sorted (namespaces_of s)"
  by (simp add: namespaces_of_def sorted_sort_by [OF cmp_ok_text])

lemma names_no_dots: "list_all (\<lambda>h. 46 \<notin> set h) (namespaces_of s)"
  using split_no_unit [of 46 s] by (simp add: list_all_iff)

lemma names_not_Nil [simp]: "namespaces_of s \<noteq> []"
  by (metis set_empty set_names split_str_not_Nil)

lemma set_join: "c \<in> set (join [d] ws) \<Longrightarrow> c = d \<or> (\<exists>w \<in> set ws. c \<in> set w)"
  by (induction ws rule: induct_list012) (auto simp: join_Cons)

lemma set_join_sub: "w \<in> set ws \<Longrightarrow> set w \<subseteq> set (join d ws)"
  by (induction d ws rule: join.induct) auto

lemma names_line: "list_all (\<lambda>c. \<not> line_end c) s \<Longrightarrow> list_all (\<lambda>c. \<not> line_end c) (join [46] (namespaces_of s))"
proof -
  assume s: "list_all (\<lambda>c. \<not> line_end c) s"
  have "\<not> line_end c" if "c \<in> set w" "w \<in> set (split_str [46] s)" for c w
    using s set_join_sub [OF that(2), of "[46]"] that(1) by (auto simp: join_split list_all_iff)
  moreover have "\<not> line_end 46" by (simp add: line_end_def)
  ultimately show ?thesis by (auto simp: list_all_iff dest!: set_join)
qed

lemma names_test:
  assumes "text_sorted hs" "hs \<noteq> []" "list_all (\<lambda>h. 46 \<notin> set h) hs" "list_all (\<lambda>c. \<not> line_end c) (join [46] hs)"
    and "distinct (namespaces_of e)"
  shows "test (ns_re (namespaces_of e)) (join [46] hs) \<longleftrightarrow> set (split_str [46] e) \<subseteq> set hs"
proof -
  obtain n ns where ns: "namespaces_of e = n # ns" by (cases "namespaces_of e") auto
  have "test (ns_re (namespaces_of e)) (join [46] hs) \<longleftrightarrow>
      (\<exists>t. (\<exists>a. join [46] hs = a @ t \<and> (a = [] \<or> last a = 46)) \<and> (\<exists>r. names_match (n # ns) t r \<and> (r = [] \<or> hd r = 46)))"
    unfolding test_ns ns by blast
  also have "\<dots> \<longleftrightarrow> (\<exists>k < length hs. \<exists>r. names_match (n # ns) (join [46] (drop k hs)) r \<and> (r = [] \<or> hd r = 46))"
    unfolding join_boundary [OF assms(2,3)] by blast
  also have "\<dots> \<longleftrightarrow> (\<exists>k < length hs. hs ! k = n \<and> subseq ns (drop (Suc k) hs))"
  proof -
    have "(\<exists>r. names_match (n # ns) (join [46] (drop k hs)) r \<and> (r = [] \<or> hd r = 46)) \<longleftrightarrow>
        hs ! k = n \<and> subseq ns (drop (Suc k) hs)" if k: "k < length hs" for k
    proof -
      have d: "drop k hs = hs ! k # drop (Suc k) hs" using k by (simp add: Cons_nth_drop_Suc)
      obtain a where "join [46] hs = a @ join [46] (drop k hs)"
        using join_boundary [OF assms(2,3), of "join [46] (drop k hs)"] k by auto
      then have "list_all (\<lambda>c. \<not> line_end c) (join [46] (drop k hs))" using assms(4) by auto
      moreover have "list_all (\<lambda>h. 46 \<notin> set h) (drop k hs)" using assms(3) by (auto simp: list_all_iff dest: in_set_dropD)
      ultimately show ?thesis
        using names_match_words [of "n # ns" "drop k hs"] names_no_dots [of e] ns d by simp
    qed
    then show ?thesis by blast
  qed
  also have "\<dots> \<longleftrightarrow> subseq (n # ns) hs" by (simp add: subseq_at)
  also have "\<dots> \<longleftrightarrow> set (split_str [46] e) \<subseteq> set hs"
    using subseq_subset [OF names_sorted assms(5,1)] by (simp flip: ns)
  finally show ?thesis .
qed

text \<open>The regular expression made of an event's namespaces finds them in the namespaces of a handler exactly if the
  handler has them all, in whatever order both were written.\<close>

theorem namespace_test_subset:
  assumes "distinct (split_str [46] e)" "list_all (\<lambda>c. \<not> line_end c) h"
  shows "test (ns_re (namespaces_of e)) (join [46] (namespaces_of h)) \<longleftrightarrow> set (split_str [46] e) \<subseteq> set (split_str [46] h)"
proof -
  have "distinct (namespaces_of e)"
    using assms(1) mset_sort_by [of text_cmp "split_str [46] e"]
    by (metis mset_eq_imp_distinct_iff namespaces_of_def)
  from names_test [OF names_sorted names_not_Nil names_no_dots names_line [OF assms(2)] this] show ?thesis by simp
qed

theorem namespace_test_subset_witness:
  "test (ns_re (namespaces_of (u ''menu.app''))) (join [46] (namespaces_of (u ''page.app.menu''))) \<and>
   \<not> test (ns_re (namespaces_of (u ''menu.apps''))) (join [46] (namespaces_of (u ''page.app.menu'')))"
proof -
  have s: "split_str [46] (u ''menu.app'') = [u ''menu'', u ''app'']" "split_str [46] (u ''menu.apps'') = [u ''menu'', u ''apps'']"
    "split_str [46] (u ''page.app.menu'') = [u ''page'', u ''app'', u ''menu'']" by code_simp+
  have l: "list_all (\<lambda>c. \<not> line_end c) (u ''page.app.menu'')" by code_simp
  show ?thesis
    using namespace_test_subset [of "u ''menu.app''" "u ''page.app.menu''"] namespace_test_subset [of "u ''menu.apps''" "u ''page.app.menu''"] l
    by (simp add: s)
qed

end
