(* ===== verification/JqEvent.thy ===== *)
theory JqEvent
  imports JqClass JqSort JqNamespace
begin

text \<open>
  Events (\<open>jquery-3.5.1.js\<close>, lines 5109 to 5500, 5850 to 5960 and 8625 to 8780): the lists of handlers of an
  element, attaching and detaching with namespaces, the handlers an event reaches, and events the
  program triggers.  A function is named by the number jQuery gives it; its body is a list of actions
  on the event and on the lists and a result.  Elements are nodes of \<open>JqSort\<close>, and the window; whether
  a selector matches is a parameter.  Names of namespaces stand for themselves in the regular
  expressions made of them, that is, they have no characters with a meaning there.  What a native
  event or method does is the browser's and left out, with the handler \<open>leverageNative\<close> puts in front
  of the others only in its place.
\<close>

section \<open>The document and the lists\<close>

datatype etarget = Window | Node node

record dom =
  ntype :: "etarget \<Rightarrow> nat"
  disabled :: "etarget \<Rightarrow> bool"
  checkable :: "etarget \<Rightarrow> bool"
  selects :: "ustr \<Rightarrow> bool \<Rightarrow> etarget \<Rightarrow> etarget \<Rightarrow> bool"
  needs_context :: "ustr \<Rightarrow> bool"
  has_focusin :: bool

fun parent_of :: "etarget \<Rightarrow> etarget option" where
  "parent_of Window = None"
| "parent_of (Node n) = map_option Node (parentNode n)"

datatype func = Handler nat | ReturnTrue | ReturnFalse | Native nat | NoFunction

text \<open>An argument of \<open>on\<close>: \<open>undefined\<close> or \<open>null\<close>, a string, \<open>false\<close>, a function or another value.\<close>

datatype oarg = OUndef | OStr ustr | OFalse | OFun func | OVal nat

text \<open>\<open>handleObj\<close>; \<open>h_one\<close> tells the wrapper \<open>one\<close> makes, which has the number of the function it
  wraps, and \<open>None\<close> is the namespace \<open>false\<close>.\<close>

record handle_obj =
  h_type :: ustr
  h_origType :: ustr
  h_data :: "oarg option"
  h_handler :: func
  h_one :: bool
  h_selector :: "ustr option"
  h_needs :: bool
  h_namespace :: "ustr option"

record hlist =
  handlers :: "handle_obj list"
  delegateCount :: nat

record eworld =
  events_of :: "etarget \<Rightarrow> hlist dict option"
  listening :: "etarget \<Rightarrow> ustr list"
  attaches :: "ustr \<Rightarrow> nat"
  native_slots :: "(etarget \<times> ustr) list"
  next_guid :: nat
  invoked :: "(etarget \<times> func) list"

definition truthy_sel :: "ustr option \<Rightarrow> bool" where
  "truthy_sel s \<longleftrightarrow> s \<noteq> None \<and> s \<noteq> Some []"

text \<open>\<open>jQuery.event.special\<close>: the type under which handlers of a type are kept.\<close>

definition delegateType :: "ustr \<Rightarrow> ustr option" where
  "delegateType type =
    (if type = u ''focus'' then Some (u ''focusin'') else if type = u ''blur'' then Some (u ''focusout'')
     else dget [(u ''mouseenter'', u ''mouseover''), (u ''mouseleave'', u ''mouseout''),
                (u ''pointerenter'', u ''pointerover''), (u ''pointerleave'', u ''pointerout'')] type)"

definition bindType :: "ustr \<Rightarrow> ustr option" where
  "bindType type =
     dget [(u ''mouseenter'', u ''mouseover''), (u ''mouseleave'', u ''mouseout''),
           (u ''pointerenter'', u ''pointerover''), (u ''pointerleave'', u ''pointerout'')] type"

definition kept_type :: "ustr option \<Rightarrow> ustr \<Rightarrow> ustr" where
  "kept_type sel type = (case (if truthy_sel sel then delegateType type else bindType type) of None \<Rightarrow> type | Some t \<Rightarrow> t)"

definition leverages :: "dom \<Rightarrow> etarget \<Rightarrow> ustr \<Rightarrow> bool" where
  "leverages d elem type \<longleftrightarrow> type = u ''focus'' \<or> type = u ''blur'' \<or> type = u ''click'' \<and> checkable d elem"

definition own_setup :: "dom \<Rightarrow> ustr \<Rightarrow> bool" where
  "own_setup d type \<longleftrightarrow> \<not> has_focusin d \<and> (type = u ''focusin'' \<or> type = u ''focusout'')"

definition accepts :: "dom \<Rightarrow> etarget \<Rightarrow> bool" where
  "accepts d elem \<longleftrightarrow> ntype d elem = 1 \<or> ntype d elem = 9 \<or> ntype d elem = 0"

section \<open>Types and namespaces\<close>

text \<open>\<open>rtypenamespace\<close>.\<close>

definition parse_type :: "ustr \<Rightarrow> ustr \<times> ustr" where
  "parse_type s = (let t = takeWhile (\<lambda>c. c \<noteq> 46) s
     in (t, takeWhile (\<lambda>c. \<not> line_end c) (tl (drop (length t) s))))"

definition ns_text :: "ustr option \<Rightarrow> ustr" where
  "ns_text n = (case n of None \<Rightarrow> u ''false'' | Some w \<Rightarrow> w)"

definition type_words :: "ustr \<Rightarrow> ustr list" where
  "type_words types = (if html_words types = [] then [[]] else html_words types)"

section \<open>Attaching\<close>

definition add_handler :: "handle_obj \<Rightarrow> hlist \<Rightarrow> hlist" where
  "add_handler h l =
    (if truthy_sel (h_selector h)
     then \<lparr> handlers = take (delegateCount l) (handlers l) @ h # drop (delegateCount l) (handlers l),
            delegateCount = delegateCount l + 1 \<rparr>
     else l \<lparr> handlers := handlers l @ [h] \<rparr>)"

definition put_list :: "etarget \<Rightarrow> ustr \<Rightarrow> hlist \<Rightarrow> eworld \<Rightarrow> eworld" where
  "put_list elem type l w = w \<lparr> events_of := (events_of w)(elem :=
     Some (dput type l (case events_of w elem of None \<Rightarrow> [] | Some d \<Rightarrow> d))) \<rparr>"

definition get_list :: "etarget \<Rightarrow> ustr \<Rightarrow> eworld \<Rightarrow> hlist option" where
  "get_list elem type w = (case events_of w elem of None \<Rightarrow> None | Some d \<Rightarrow> dget d type)"

definition universal :: "ustr \<Rightarrow> nat \<Rightarrow> handle_obj" where
  "universal type g = \<lparr> h_type = type, h_origType = type, h_data = None, h_handler = Native g, h_one = False,
     h_selector = None, h_needs = False, h_namespace = None \<rparr>"

text \<open>The first handler of a type: an empty list, the set-up of special types, the native listener.\<close>

definition first_of_type :: "dom \<Rightarrow> etarget \<Rightarrow> ustr \<Rightarrow> eworld \<Rightarrow> eworld" where
  "first_of_type d elem type w =
    (let w = put_list elem type \<lparr> handlers = [], delegateCount = 0 \<rparr> w;
         w = (if leverages d elem type
              then put_list elem type (add_handler (universal type (next_guid w)) \<lparr> handlers = [], delegateCount = 0 \<rparr>)
                     (w \<lparr> native_slots := (elem, type) # native_slots w, next_guid := next_guid w + 1 \<rparr>)
              else w)
     in if own_setup d type then w \<lparr> attaches := (attaches w)(type := attaches w type + 1) \<rparr>
        else w \<lparr> listening := (listening w)(elem := listening w elem @ [type]) \<rparr>)"

definition add_type :: "dom \<Rightarrow> etarget \<Rightarrow> func \<Rightarrow> oarg option \<Rightarrow> ustr option \<Rightarrow> bool \<Rightarrow> ustr \<Rightarrow> eworld \<Rightarrow> eworld" where
  "add_type d elem fn data sel one wd w =
    (let (origType, ns) = parse_type wd; type = kept_type sel origType
     in if origType = [] then w
        else let h = \<lparr> h_type = type, h_origType = origType, h_data = data, h_handler = fn, h_one = one, h_selector = sel,
                    h_needs = (truthy_sel sel \<and> needs_context d (the sel)), h_namespace = Some (join [46] (namespaces_of ns)) \<rparr>;
                 w = (if get_list elem type w = None then first_of_type d elem type w else w)
             in put_list elem type (add_handler h (the (get_list elem type w))) w)"

definition event_add :: "dom \<Rightarrow> etarget \<Rightarrow> ustr \<Rightarrow> func \<Rightarrow> oarg option \<Rightarrow> ustr option \<Rightarrow> bool \<Rightarrow> eworld \<Rightarrow> eworld" where
  "event_add d elem types fn data sel one w =
    (if \<not> accepts d elem then w
     else fold (add_type d elem fn data sel one) (rev (type_words types))
       (if events_of w elem = None then w \<lparr> events_of := (events_of w)(elem := Some []) \<rparr> else w))"

section \<open>Detaching\<close>

definition removes :: "bool \<Rightarrow> ustr \<Rightarrow> func option \<Rightarrow> ustr list \<Rightarrow> ustr option \<Rightarrow> handle_obj \<Rightarrow> bool" where
  "removes mapped origType fn names sel h \<longleftrightarrow>
    (mapped \<or> origType = h_origType h) \<and> (fn = None \<or> fn = Some (h_handler h)) \<and>
    (names = [] \<or> test (ns_re names) (ns_text (h_namespace h))) \<and>
    (\<not> truthy_sel sel \<or> sel = h_selector h \<or> sel = Some (u ''**'') \<and> truthy_sel (h_selector h))"

text \<open>The loop goes through the list from its end.\<close>

fun detach_loop :: "(handle_obj \<Rightarrow> bool) \<Rightarrow> nat \<Rightarrow> hlist \<Rightarrow> hlist" where
  "detach_loop p 0 l = l"
| "detach_loop p (Suc j) l =
    detach_loop p j
      (if p (handlers l ! j)
       then \<lparr> handlers = JsPrelude.splice j 1 (handlers l),
              delegateCount = (if truthy_sel (h_selector (handlers l ! j)) then delegateCount l - 1 else delegateCount l) \<rparr>
       else l)"

text \<open>The last handler of a type is gone.\<close>

definition last_of_type :: "dom \<Rightarrow> etarget \<Rightarrow> ustr \<Rightarrow> eworld \<Rightarrow> eworld" where
  "last_of_type d elem type w =
    (let w = (if own_setup d type then w \<lparr> attaches := (attaches w)(type := attaches w type - 1) \<rparr>
              else w \<lparr> listening := (listening w)(elem := filter (\<lambda>t. t \<noteq> type) (listening w elem)) \<rparr>)
     in w \<lparr> events_of := (events_of w)(elem := map_option (ddel type) (events_of w elem)) \<rparr>)"

definition remove_type :: "dom \<Rightarrow> etarget \<Rightarrow> func option \<Rightarrow> ustr option \<Rightarrow> bool \<Rightarrow> ustr \<Rightarrow> eworld \<Rightarrow> eworld" where
  "remove_type d elem fn sel mapped wd w =
    (let (origType, ns) = parse_type wd; type = kept_type sel origType
     in case get_list elem type w of
          None \<Rightarrow> w
        | Some l \<Rightarrow>
            let l' = detach_loop (removes mapped origType fn (if ns = [] then [] else namespaces_of ns) sel) (length (handlers l)) l;
                w' = put_list elem type l' w
            in if handlers l \<noteq> [] \<and> handlers l' = [] then last_of_type d elem type w' else w')"

definition tidy :: "etarget \<Rightarrow> eworld \<Rightarrow> eworld" where
  "tidy elem w = (if events_of w elem = Some [] then w \<lparr> events_of := (events_of w)(elem := None) \<rparr> else w)"

text \<open>A word without a type stands for every type the element has handlers for.\<close>

definition remove_all_types :: "dom \<Rightarrow> etarget \<Rightarrow> func option \<Rightarrow> ustr option \<Rightarrow> ustr \<Rightarrow> eworld \<Rightarrow> eworld" where
  "remove_all_types d elem fn sel wd w =
    fold (\<lambda>type w. if events_of w elem = None then w
        else tidy elem (fold (remove_type d elem fn sel True) (rev (type_words (type @ wd))) w))
      (map fst (case events_of w elem of None \<Rightarrow> [] | Some d \<Rightarrow> d)) w"

definition event_remove :: "dom \<Rightarrow> etarget \<Rightarrow> ustr \<Rightarrow> func option \<Rightarrow> ustr option \<Rightarrow> eworld \<Rightarrow> eworld" where
  "event_remove d elem types fn sel w =
    (if events_of w elem = None then w
     else tidy elem (fold (\<lambda>wd. if fst (parse_type wd) = [] then remove_all_types d elem fn sel wd
                                  else remove_type d elem fn sel False wd)
            (rev (type_words types)) w))"

section \<open>on and off\<close>

text \<open>The arguments of \<open>on\<close> in their several orders: selector, data and function, or nothing when there is no function.\<close>

definition on_args :: "oarg \<Rightarrow> oarg \<Rightarrow> oarg \<Rightarrow> (ustr option \<times> oarg option \<times> func) option" where
  "on_args selector data fn =
    (let (selector, data, fn) =
           (if data = OUndef \<and> fn = OUndef then (OUndef, OUndef, selector)
            else if fn = OUndef then (case selector of OStr s \<Rightarrow> (selector, OUndef, data) | _ \<Rightarrow> (OUndef, selector, data))
            else (selector, data, fn));
         sel = (case selector of OStr s \<Rightarrow> Some s | _ \<Rightarrow> None);
         dat = (if data = OUndef then None else Some data)
     in case fn of
          OFalse \<Rightarrow> Some (sel, dat, ReturnFalse)
        | OUndef \<Rightarrow> None
        | OStr s \<Rightarrow> if s = [] then None else Some (sel, dat, NoFunction)
        | OVal n \<Rightarrow> if n = 0 then None else Some (sel, dat, NoFunction)
        | OFun f \<Rightarrow> Some (sel, dat, f))"

definition on_event :: "dom \<Rightarrow> etarget list \<Rightarrow> ustr \<Rightarrow> oarg \<Rightarrow> oarg \<Rightarrow> oarg \<Rightarrow> bool \<Rightarrow> eworld \<Rightarrow> eworld" where
  "on_event d elems types selector data fn one w = (case on_args selector data fn of
     None \<Rightarrow> w
   | Some (sel, dat, f) \<Rightarrow> fold (\<lambda>e. event_add d e types f dat sel one) elems w)"

text \<open>With a map from types to functions.\<close>

definition truthy_arg :: "oarg \<Rightarrow> bool" where
  "truthy_arg a \<longleftrightarrow> a \<noteq> OUndef \<and> a \<noteq> OFalse \<and> a \<noteq> OStr [] \<and> a \<noteq> OVal 0"

definition on_map :: "dom \<Rightarrow> etarget list \<Rightarrow> oarg dict \<Rightarrow> oarg \<Rightarrow> oarg \<Rightarrow> bool \<Rightarrow> eworld \<Rightarrow> eworld" where
  "on_map d elems types selector data one w =
    (let (selector, data) = (case selector of OStr s \<Rightarrow> (selector, data)
           | _ \<Rightarrow> (OUndef, if truthy_arg data then data else selector))
     in fold (\<lambda>(type, fn). on_event d elems type selector data fn one) types w)"

definition off_args :: "oarg \<Rightarrow> oarg \<Rightarrow> ustr option \<times> func option" where
  "off_args selector fn =
    (let (selector, fn) = (case selector of OFalse \<Rightarrow> (OUndef, selector) | OFun f \<Rightarrow> (OUndef, selector) | _ \<Rightarrow> (selector, fn))
     in (case selector of OStr s \<Rightarrow> Some s | _ \<Rightarrow> None,
         case fn of OFalse \<Rightarrow> Some ReturnFalse | OFun f \<Rightarrow> Some f | _ \<Rightarrow> None))"

definition off_elems :: "dom \<Rightarrow> etarget list \<Rightarrow> ustr \<Rightarrow> oarg \<Rightarrow> oarg \<Rightarrow> eworld \<Rightarrow> eworld" where
  "off_elems d elems types selector fn w =
    (case off_args selector fn of (sel, f) \<Rightarrow> fold (\<lambda>e. event_remove d e types f sel) elems w)"

lemma on_forms:
  "on_args (OFun f) OUndef OUndef = Some (None, None, f)"
  "on_args (OStr s) (OFun f) OUndef = Some (Some s, None, f)"
  "on_args (OVal v) (OFun f) OUndef = Some (None, Some (OVal v), f)"
  "on_args (OStr s) (OVal v) (OFun f) = Some (Some s, Some (OVal v), f)"
  "on_args (OStr s) OFalse OUndef = Some (Some s, None, ReturnFalse)"
  by (simp_all add: on_args_def)

section \<open>The lists stay in order\<close>

lemma get_put_list [simp]: "get_list e t (put_list e' t' l w) = (if e = e' \<and> t = t' then Some l else get_list e t w)"
  by (auto simp: get_list_def put_list_def split: option.split)

lemma put_list_others [simp]:
  "listening (put_list e t l w) = listening w" "attaches (put_list e t l w) = attaches w"
  "next_guid (put_list e t l w) = next_guid w" "native_slots (put_list e t l w) = native_slots w"
  by (simp_all add: put_list_def)

lemma get_list_others [simp]:
  "get_list e t (w \<lparr> attaches := a \<rparr>) = get_list e t w" "get_list e t (w \<lparr> listening := b \<rparr>) = get_list e t w"
  "get_list e t (w \<lparr> native_slots := c, next_guid := k \<rparr>) = get_list e t w" "get_list e t (w \<lparr> invoked := i \<rparr>) = get_list e t w"
  by (simp_all add: get_list_def)

text \<open>The text of a handler's namespaces is that of sorted names.\<close>

definition names_ok :: "handle_obj \<Rightarrow> bool" where
  "names_ok h \<longleftrightarrow> (\<exists>hs. hs \<noteq> [] \<and> text_sorted hs \<and> list_all (\<lambda>n. 46 \<notin> set n) hs \<and>
     ns_text (h_namespace h) = join [46] hs \<and> list_all (\<lambda>c. \<not> line_end c) (join [46] hs))"

text \<open>Delegated handlers come first, and \<open>delegateCount\<close> is their number.\<close>

definition delegates_first :: "hlist \<Rightarrow> bool" where
  "delegates_first l \<longleftrightarrow> delegateCount l \<le> length (handlers l) \<and>
     list_all (\<lambda>h. truthy_sel (h_selector h)) (take (delegateCount l) (handlers l)) \<and>
     list_all (\<lambda>h. \<not> truthy_sel (h_selector h)) (drop (delegateCount l) (handlers l))"

definition list_ok :: "hlist \<Rightarrow> bool" where
  "list_ok l \<longleftrightarrow> delegates_first l \<and> list_all names_ok (handlers l)"

definition world_ok :: "dom \<Rightarrow> eworld \<Rightarrow> bool" where
  "world_ok d w \<longleftrightarrow>
     (\<forall>e t l. get_list e t w = Some l \<longrightarrow> list_ok l \<and> handlers l \<noteq> []) \<and>
     (\<forall>e t. t \<in> set (listening w e) \<longleftrightarrow> get_list e t w \<noteq> None \<and> \<not> own_setup d t) \<and>
     (\<forall>t. own_setup d t \<longrightarrow> finite {e. get_list e t w \<noteq> None} \<and> attaches w t = card {e. get_list e t w \<noteq> None})"

lemma delegates_first_filter:
  "delegates_first l \<Longrightarrow> filter (\<lambda>h. truthy_sel (h_selector h)) (handlers l) = take (delegateCount l) (handlers l)"
proof -
  assume l: "delegates_first l"
  have "filter (\<lambda>h. truthy_sel (h_selector h)) (take (delegateCount l) (handlers l) @ drop (delegateCount l) (handlers l)) =
      take (delegateCount l) (handlers l)"
    using l unfolding delegates_first_def filter_append by (auto simp: list_all_iff filter_id_conv filter_empty_conv)
  then show ?thesis by simp
qed

lemma delegates_firstI:
  "handlers l = as @ bs \<Longrightarrow> delegateCount l = length as \<Longrightarrow> list_all (\<lambda>h. truthy_sel (h_selector h)) as \<Longrightarrow>
   list_all (\<lambda>h. \<not> truthy_sel (h_selector h)) bs \<Longrightarrow> delegates_first l"
  by (simp add: delegates_first_def)

lemma delegates_firstE:
  assumes "delegates_first l"
  obtains as bs where "handlers l = as @ bs" "delegateCount l = length as" "list_all (\<lambda>h. truthy_sel (h_selector h)) as"
    "list_all (\<lambda>h. \<not> truthy_sel (h_selector h)) bs"
  using assms that [of "take (delegateCount l) (handlers l)" "drop (delegateCount l) (handlers l)"]
  by (simp add: delegates_first_def)

lemma add_handler_ok: "list_ok l \<Longrightarrow> names_ok h \<Longrightarrow> list_ok (add_handler h l) \<and> handlers (add_handler h l) \<noteq> []"
proof -
  assume l: "list_ok l" and h: "names_ok h"
  then obtain as bs where ab: "handlers l = as @ bs" "delegateCount l = length as" "list_all (\<lambda>h. truthy_sel (h_selector h)) as"
    "list_all (\<lambda>h. \<not> truthy_sel (h_selector h)) bs" by (auto simp: list_ok_def elim: delegates_firstE)
  have "delegates_first (add_handler h l)"
  proof (cases "truthy_sel (h_selector h)")
    case True
    with ab show ?thesis by (intro delegates_firstI [of _ "as @ [h]" bs]) (simp_all add: add_handler_def)
  next
    case False
    with ab show ?thesis by (intro delegates_firstI [of _ as "bs @ [h]"]) (simp_all add: add_handler_def)
  qed
  with l h ab show ?thesis by (auto simp: list_ok_def add_handler_def list_all_iff)
qed

lemma empty_list_ok [simp]: "list_ok \<lparr> handlers = [], delegateCount = 0 \<rparr>"
  by (simp add: list_ok_def delegates_first_def)

lemma universal_ok [simp]: "names_ok (universal t g)"
  unfolding names_ok_def
  by (intro exI [of _ "[u ''false'']"]) (simp add: universal_def ns_text_def ulit line_end_def)

lemma parse_type_line: "parse_type wd = (t, ns) \<Longrightarrow> list_all (\<lambda>c. \<not> line_end c) ns"
  by (auto simp: parse_type_def Let_def list_all_iff dest: set_takeWhileD)

lemma names_okI: "list_all (\<lambda>c. \<not> line_end c) ns \<Longrightarrow> h_namespace h = Some (join [46] (namespaces_of ns)) \<Longrightarrow> names_ok h"
  unfolding names_ok_def using names_sorted names_no_dots names_line
  by (intro exI [of _ "namespaces_of ns"]) (simp add: ns_text_def)

text \<open>What attaching does to the lists.\<close>

lemma first_of_type_lists:
  "get_list e t (first_of_type d elem type w) = (if e = elem \<and> t = type
     then Some (if leverages d elem type then add_handler (universal type (next_guid w)) \<lparr> handlers = [], delegateCount = 0 \<rparr>
                else \<lparr> handlers = [], delegateCount = 0 \<rparr>)
     else get_list e t w)"
  by (simp add: first_of_type_def Let_def)

lemma world_ok_step:
  assumes w: "world_ok d w" and l: "list_ok l" "handlers l \<noteq> []"
    and g: "\<And>e t. get_list e t w' = (if e = elem \<and> t = type then Some l else get_list e t w)"
    and n: "listening w' = (if get_list elem type w = None \<and> \<not> own_setup d type
              then (listening w)(elem := listening w elem @ [type]) else listening w)"
    and a: "attaches w' = (if get_list elem type w = None \<and> own_setup d type
              then (attaches w)(type := attaches w type + 1) else attaches w)"
  shows "world_ok d w'"
  unfolding world_ok_def
proof (intro conjI allI impI)
  fix e t assume "own_setup d t"
  with w have f: "finite {e. get_list e t w \<noteq> None}" "attaches w t = card {e. get_list e t w \<noteq> None}"
    by (auto simp: world_ok_def)
  have "{e. get_list e t w' \<noteq> None} = (if t = type then insert elem {e. get_list e t w \<noteq> None} else {e. get_list e t w \<noteq> None})"
    by (auto simp: g)
  with f \<open>own_setup d t\<close> show "finite {e. get_list e t w' \<noteq> None}" "attaches w' t = card {e. get_list e t w' \<noteq> None}"
    by (auto simp: a insert_absorb)
qed (use w l in \<open>auto simp: world_ok_def g n split: if_splits\<close>)

lemma add_type_ok: "world_ok d w \<Longrightarrow> world_ok d (add_type d elem fn data sel one wd w)"
proof -
  assume w: "world_ok d w"
  obtain origType ns where p: "parse_type wd = (origType, ns)" by (rule prod.exhaust)
  show ?thesis
  proof (cases "origType = []")
    case True
    with w p show ?thesis by (simp add: add_type_def)
  next
    case False
    define type where "type = kept_type sel origType"
    define h where "h = \<lparr> h_type = type, h_origType = origType, h_data = data, h_handler = fn, h_one = one, h_selector = sel,
                    h_needs = (truthy_sel sel \<and> needs_context d (the sel)), h_namespace = Some (join [46] (namespaces_of ns)) \<rparr>"
    define w1 where "w1 = (if get_list elem type w = None then first_of_type d elem type w else w)"
    define l where "l = the (get_list elem type w1)"
    have e: "add_type d elem fn data sel one wd w = put_list elem type (add_handler h l) w1"
      using p False by (simp add: add_type_def Let_def h_def w1_def type_def l_def)
    have h: "names_ok h" by (rule names_okI [OF parse_type_line [OF p]]) (simp add: h_def)
    have "list_ok l"
      using w add_handler_ok [OF empty_list_ok universal_ok]
      by (cases "get_list elem type w") (auto simp: l_def w1_def first_of_type_lists world_ok_def)
    from add_handler_ok [OF this h] have l: "list_ok (add_handler h l)" "handlers (add_handler h l) \<noteq> []" by auto
    show ?thesis unfolding e
    proof (rule world_ok_step [OF w l])
      show "get_list e t (put_list elem type (add_handler h l) w1) = (if e = elem \<and> t = type then Some (add_handler h l) else get_list e t w)" for e t
        by (auto simp: w1_def first_of_type_lists)
    qed (auto simp: w1_def first_of_type_def Let_def)
  qed
qed

lemma event_add_ok: "world_ok d w \<Longrightarrow> world_ok d (event_add d elem types fn data sel one w)"
proof -
  assume w: "world_ok d w"
  have fold_ok: "world_ok d v \<Longrightarrow> world_ok d (fold (add_type d elem fn data sel one) ws v)" for ws v
    by (induction ws arbitrary: v) (simp_all add: add_type_ok)
  have "get_list e t (w \<lparr> events_of := (events_of w)(elem := Some []) \<rparr>) = get_list e t w" if "events_of w elem = None" for e t
    using that by (simp add: get_list_def)
  then have "world_ok d (if events_of w elem = None then w \<lparr> events_of := (events_of w)(elem := Some []) \<rparr> else w)"
    using w by (simp add: world_ok_def)
  from fold_ok [OF this] w show ?thesis by (simp add: event_add_def)
qed

section \<open>Detaching is filtering\<close>

lemma detach_loop_eq:
  "j \<le> length (handlers l) \<Longrightarrow>
     handlers (detach_loop p j l) = filter (\<lambda>h. \<not> p h) (take j (handlers l)) @ drop j (handlers l) \<and>
     delegateCount (detach_loop p j l) =
       delegateCount l - length (filter (\<lambda>h. p h \<and> truthy_sel (h_selector h)) (take j (handlers l)))"
proof (induction j arbitrary: l)
  case (Suc j)
  let ?hs = "handlers l"
  have d: "drop j ?hs = ?hs ! j # drop (Suc j) ?hs" using Suc.prems by (simp add: Cons_nth_drop_Suc)
  have t: "take (Suc j) ?hs = take j ?hs @ [?hs ! j]" using Suc.prems by (simp add: take_Suc_conv_app_nth)
  show ?case
  proof (cases "p (?hs ! j)")
    case True
    let ?l = "\<lparr> handlers = JsPrelude.splice j 1 ?hs,
      delegateCount = (if truthy_sel (h_selector (?hs ! j)) then delegateCount l - 1 else delegateCount l) \<rparr>"
    have "handlers ?l = take j ?hs @ drop (Suc j) ?hs" by (simp add: splice_def)
    with Suc.IH [of ?l] Suc.prems True t show ?thesis by auto
  next
    case False
    with Suc.IH [of l] Suc.prems t d show ?thesis by auto
  qed
qed simp

lemma detach_all:
  "handlers (detach_loop p (length (handlers l)) l) = filter (\<lambda>h. \<not> p h) (handlers l)"
  "delegateCount (detach_loop p (length (handlers l)) l) =
     delegateCount l - length (filter (\<lambda>h. p h \<and> truthy_sel (h_selector h)) (handlers l))"
  using detach_loop_eq [of "length (handlers l)" l p] by simp_all

lemma detach_ok: "list_ok l \<Longrightarrow> list_ok (detach_loop p (length (handlers l)) l)"
proof -
  assume l: "list_ok l"
  then obtain as bs where ab: "handlers l = as @ bs" "delegateCount l = length as" "list_all (\<lambda>h. truthy_sel (h_selector h)) as"
    "list_all (\<lambda>h. \<not> truthy_sel (h_selector h)) bs" by (auto simp: list_ok_def elim: delegates_firstE)
  have a: "filter (\<lambda>h. p h \<and> truthy_sel (h_selector h)) as = filter p as"
    using ab(3) by (intro filter_cong) (auto simp: list_all_iff)
  have b: "filter (\<lambda>h. p h \<and> truthy_sel (h_selector h)) bs = []"
    using ab(4) by (auto simp: filter_empty_conv list_all_iff)
  have "length (filter (\<lambda>h. \<not> p h) as) = length as - length (filter p as)"
    using sum_length_filter_compl [of p as] by simp
  then have "delegates_first (detach_loop p (length (handlers l)) l)"
    by (intro delegates_firstI [of _ "filter (\<lambda>h. \<not> p h) as" "filter (\<lambda>h. \<not> p h) bs"])
      (use detach_all [of p l] ab in \<open>auto simp: a b list_all_iff\<close>)
  with l show ?thesis by (auto simp: list_ok_def detach_all list_all_iff)
qed

text \<open>The list of a type after \<open>remove_type\<close>, and all the others.\<close>

definition kept_after :: "(handle_obj \<Rightarrow> bool) \<Rightarrow> hlist \<Rightarrow> hlist option" where
  "kept_after p l = (let l' = detach_loop p (length (handlers l)) l in if handlers l' = [] then None else Some l')"

lemma last_of_type_lists: "get_list e t (last_of_type d elem type v) = (if e = elem \<and> t = type then None else get_list e t v)"
  by (auto simp: last_of_type_def get_list_def Let_def map_option_case split: option.split)

lemma remove_type_lists:
  assumes "world_ok d w" "parse_type wd = (origType, ns)" "type = kept_type sel origType"
    "p = removes mapped origType fn (if ns = [] then [] else namespaces_of ns) sel"
  shows "get_list e t (remove_type d elem fn sel mapped wd w) =
    (if e = elem \<and> t = type then Option.bind (get_list elem type w) (kept_after p) else get_list e t w)"
proof (cases "get_list elem type w")
  case None
  with assms show ?thesis by (simp add: remove_type_def Let_def)
next
  case (Some l)
  then have l: "handlers l \<noteq> []" using assms(1) by (auto simp: world_ok_def)
  let ?l = "detach_loop p (length (handlers l)) l"
  have r: "remove_type d elem fn sel mapped wd w =
      (if handlers ?l = [] then last_of_type d elem type (put_list elem type ?l w) else put_list elem type ?l w)"
    using assms Some l by (simp add: remove_type_def Let_def)
  with Some show ?thesis by (simp add: kept_after_def Let_def last_of_type_lists)
qed

lemma remove_type_others:
  assumes "world_ok d w" "parse_type wd = (origType, ns)" "type = kept_type sel origType"
    "p = removes mapped origType fn (if ns = [] then [] else namespaces_of ns) sel"
  shows "gone = (get_list elem type w \<noteq> None \<and> Option.bind (get_list elem type w) (kept_after p) = None) \<Longrightarrow>
    listening (remove_type d elem fn sel mapped wd w) = (if gone \<and> \<not> own_setup d type
      then (listening w)(elem := filter (\<lambda>t. t \<noteq> type) (listening w elem)) else listening w) \<and>
    attaches (remove_type d elem fn sel mapped wd w) = (if gone \<and> own_setup d type
      then (attaches w)(type := attaches w type - 1) else attaches w)"
proof (cases "get_list elem type w")
  case None
  then show "gone = (get_list elem type w \<noteq> None \<and> Option.bind (get_list elem type w) (kept_after p) = None) \<Longrightarrow> ?thesis"
    using assms by (simp add: remove_type_def Let_def)
next
  case (Some l)
  then have l: "handlers l \<noteq> []" using assms(1) by (auto simp: world_ok_def)
  let ?l = "detach_loop p (length (handlers l)) l"
  have r: "remove_type d elem fn sel mapped wd w =
      (if handlers ?l = [] then last_of_type d elem type (put_list elem type ?l w) else put_list elem type ?l w)"
    using assms Some l by (simp add: remove_type_def Let_def)
  show "gone = (get_list elem type w \<noteq> None \<and> Option.bind (get_list elem type w) (kept_after p) = None) \<Longrightarrow> ?thesis"
    unfolding r using Some by (simp add: kept_after_def last_of_type_def Let_def)
qed

lemma kept_after_ok: "list_ok l \<Longrightarrow> kept_after p l = Some l' \<Longrightarrow> list_ok l' \<and> handlers l' \<noteq> []"
  by (auto simp: kept_after_def Let_def detach_ok split: if_splits)

lemma remove_type_ok: "world_ok d w \<Longrightarrow> world_ok d (remove_type d elem fn sel mapped wd w)"
proof -
  assume w: "world_ok d w"
  obtain origType ns where parse: "parse_type wd = (origType, ns)" by (rule prod.exhaust)
  define type where "type = kept_type sel origType"
  define p where "p = removes mapped origType fn (if ns = [] then [] else namespaces_of ns) sel"
  define gone where "gone = (get_list elem type w \<noteq> None \<and> Option.bind (get_list elem type w) (kept_after p) = None)"
  let ?w = "remove_type d elem fn sel mapped wd w"
  note lists = remove_type_lists [OF w parse type_def p_def]
  have others: "listening ?w = (if gone \<and> \<not> own_setup d type
      then (listening w)(elem := filter (\<lambda>t. t \<noteq> type) (listening w elem)) else listening w)"
    "attaches ?w = (if gone \<and> own_setup d type then (attaches w)(type := attaches w type - 1) else attaches w)"
    using remove_type_others [OF w parse type_def p_def gone_def] by simp_all
  have some: "get_list e t ?w \<noteq> None \<longleftrightarrow> get_list e t w \<noteq> None \<and> \<not> (gone \<and> e = elem \<and> t = type)" for e t
    unfolding lists gone_def by (cases "get_list elem type w") auto
  show ?thesis unfolding world_ok_def
  proof (intro conjI allI impI)
    fix e t l assume "get_list e t ?w = Some l"
    with w have "list_ok l \<and> handlers l \<noteq> []" unfolding lists
      by (cases "get_list elem type w") (auto simp: world_ok_def dest: kept_after_ok split: if_splits)
    then show "list_ok l" "handlers l \<noteq> []" by simp_all
  next
    fix e t
    show "t \<in> set (listening ?w e) \<longleftrightarrow> get_list e t ?w \<noteq> None \<and> \<not> own_setup d t"
      unfolding some others using w by (auto simp: world_ok_def)
  next
    fix t assume t: "own_setup d t"
    with w have f: "finite {e. get_list e t w \<noteq> None}" "attaches w t = card {e. get_list e t w \<noteq> None}"
      by (auto simp: world_ok_def)
    have "{e. get_list e t ?w \<noteq> None} = (if gone \<and> t = type then {e. get_list e t w \<noteq> None} - {elem} else {e. get_list e t w \<noteq> None})"
      unfolding some by auto
    moreover have "gone \<Longrightarrow> elem \<in> {e. get_list e type w \<noteq> None}" by (simp add: gone_def)
    ultimately show "finite {e. get_list e t ?w \<noteq> None}" "attaches ?w t = card {e. get_list e t ?w \<noteq> None}"
      unfolding others using f t by (auto simp: card_Diff_singleton)
  qed
qed

lemma get_list_tidy [simp]: "get_list e t (tidy elem w) = get_list e t w"
  by (simp add: tidy_def get_list_def)

lemma tidy_ok: "world_ok d w \<Longrightarrow> world_ok d (tidy elem w)"
proof -
  have "listening (tidy elem w) = listening w" "attaches (tidy elem w) = attaches w" by (simp_all add: tidy_def)
  then show "world_ok d w \<Longrightarrow> ?thesis" by (simp add: world_ok_def)
qed

lemma fold_ok: "(\<And>x v. world_ok d v \<Longrightarrow> world_ok d (f x v)) \<Longrightarrow> world_ok d w \<Longrightarrow> world_ok d (fold f xs w)"
  by (induction xs arbitrary: w) auto

lemma event_remove_ok: "world_ok d w \<Longrightarrow> world_ok d (event_remove d elem types fn sel w)"
  unfolding event_remove_def remove_all_types_def
  by (auto intro!: fold_ok tidy_ok remove_type_ok)

text \<open>Programs that attach and detach.\<close>

datatype event_call = OpAdd etarget ustr func "oarg option" "ustr option" bool | OpRemove etarget ustr "func option" "ustr option"

fun event_op :: "dom \<Rightarrow> event_call \<Rightarrow> eworld \<Rightarrow> eworld" where
  "event_op d (OpAdd e types fn data sel one) w = event_add d e types fn data sel one w"
| "event_op d (OpRemove e types fn sel) w = event_remove d e types fn sel w"

definition no_events :: eworld where
  "no_events = \<lparr> events_of = (\<lambda>_. None), listening = (\<lambda>_. []), attaches = (\<lambda>_. 0), native_slots = [], next_guid = 1, invoked = [] \<rparr>"

lemma event_ops_ok: "world_ok d (fold (event_op d) ops no_events)"
proof (rule fold_ok)
  show "world_ok d v \<Longrightarrow> world_ok d (event_op d x v)" for x v
    by (cases x) (simp_all add: event_add_ok event_remove_ok)
  show "world_ok d no_events" by (simp add: world_ok_def no_events_def get_list_def)
qed

text \<open>After any program of attaching and detaching, an element listens to a type exactly while it has handlers for
  it, its list is never empty, the delegated handlers come first and \<open>delegateCount\<close> is their number, and
  the document counts the elements with handlers for the types it listens to in their place.\<close>

theorem event_lists_invariant:
  "let w = fold (event_op d) ops no_events in
     (case get_list e t w of None \<Rightarrow> t \<notin> set (listening w e)
      | Some l \<Rightarrow> handlers l \<noteq> [] \<and> (t \<in> set (listening w e) \<longleftrightarrow> \<not> own_setup d t) \<and>
          filter (\<lambda>h. truthy_sel (h_selector h)) (handlers l) = take (delegateCount l) (handlers l)) \<and>
     (if own_setup d t then attaches w t = card {e. get_list e t w \<noteq> None} else True)"
  using event_ops_ok [of d ops]
  by (auto simp: Let_def world_ok_def list_ok_def delegates_first_filter split: option.split)

section \<open>What is detached\<close>

lemma html_words_single: "word wd \<Longrightarrow> html_words wd = [wd]"
  by (simp add: html_words_def word_def flags_loop_word [of wd "[]" "[]", simplified])

definition handlers_of :: "etarget \<Rightarrow> ustr \<Rightarrow> eworld \<Rightarrow> handle_obj list" where
  "handlers_of e t w = (case get_list e t w of None \<Rightarrow> [] | Some l \<Rightarrow> handlers l)"

lemma removes_iff:
  assumes "names_ok h" "ns = [] \<or> distinct (split_str [46] ns)"
  shows "removes mapped t fn (if ns = [] then [] else namespaces_of ns) sel h \<longleftrightarrow>
    (mapped \<or> t = h_origType h) \<and> (fn = None \<or> fn = Some (h_handler h)) \<and>
    (ns = [] \<or> set (split_str [46] ns) \<subseteq> set (split_str [46] (ns_text (h_namespace h)))) \<and>
    (\<not> truthy_sel sel \<or> sel = h_selector h \<or> sel = Some (u ''**'') \<and> truthy_sel (h_selector h))"
proof (cases "ns = []")
  case False
  from assms(1) obtain hs where hs: "hs \<noteq> []" "text_sorted hs" "list_all (\<lambda>n. 46 \<notin> set n) hs"
    "ns_text (h_namespace h) = join [46] hs" "list_all (\<lambda>c. \<not> line_end c) (join [46] hs)" by (auto simp: names_ok_def)
  have "distinct (namespaces_of ns)"
    using assms(2) False mset_sort_by [of text_cmp "split_str [46] ns"]
    by (metis mset_eq_imp_distinct_iff namespaces_of_def)
  from names_test [OF hs(2,1,3,5) this] split_join [OF hs(1,3)] False show ?thesis
    by (simp add: removes_def hs(4))
qed (simp add: removes_def)

text \<open>C31: Detaching a type, with or without namespaces, a function and a selector, takes away exactly the handlers that
  were attached for that type with all the namespaces given (and possibly others), with that function and that
  selector, and leaves the order of the others and every other list as they are.\<close>

theorem off_exact:
  assumes "w = fold (event_op d) ops no_events" "word wd" "parse_type wd = (t, ns)" "t \<noteq> []"
    "ns = [] \<or> distinct (split_str [46] ns)"
  shows "handlers_of e k (event_remove d elem wd fn sel w) =
    (if e = elem \<and> k = kept_type sel t
     then filter (\<lambda>h. \<not> (h_origType h = t \<and> (fn = None \<or> fn = Some (h_handler h)) \<and>
         (ns = [] \<or> set (split_str [46] ns) \<subseteq> set (split_str [46] (ns_text (h_namespace h)))) \<and>
         (\<not> truthy_sel sel \<or> sel = h_selector h \<or> sel = Some (u ''**'') \<and> truthy_sel (h_selector h)))) (handlers_of e k w)
     else handlers_of e k w)"
proof -
  have w: "world_ok d w" unfolding assms(1) by (rule event_ops_ok)
  have words: "type_words wd = [wd]" using html_words_single [OF assms(2)] by (simp add: type_words_def)
  have r: "event_remove d elem wd fn sel w = (if events_of w elem = None then w else tidy elem (remove_type d elem fn sel False wd w))"
    using assms(3,4) by (simp add: event_remove_def words)
  let ?p = "removes False t fn (if ns = [] then [] else namespaces_of ns) sel"
  note lists = remove_type_lists [OF w assms(3), where sel = sel and mapped = False and fn = fn, OF refl refl]
  have "get_list e k (event_remove d elem wd fn sel w) =
      (if e = elem \<and> k = kept_type sel t then Option.bind (get_list elem k w) (kept_after ?p) else get_list e k w)"
  proof (cases "events_of w elem = None")
    case True
    then have "get_list elem k w = None" by (simp add: get_list_def)
    with True show ?thesis by (auto simp: r)
  qed (simp add: r lists del: not_None_eq)
  then have "handlers_of e k (event_remove d elem wd fn sel w) =
      (if e = elem \<and> k = kept_type sel t then filter (\<lambda>h. \<not> ?p h) (handlers_of e k w) else handlers_of e k w)"
    by (cases "get_list e k w") (auto simp: handlers_of_def kept_after_def Let_def detach_all(1))
  moreover have "names_ok h" if h: "h \<in> set (handlers_of e k w)" for h
  proof -
    from h obtain l where l: "get_list e k w = Some l" "h \<in> set (handlers l)"
      by (cases "get_list e k w") (simp_all add: handlers_of_def)
    with w have "list_ok l" unfolding world_ok_def by blast
    with l(2) show ?thesis by (simp add: list_ok_def list_all_iff)
  qed
  ultimately show ?thesis
    using removes_iff [OF _ assms(5)] by (auto intro!: filter_cong)
qed

definition plain_dom :: dom where
  "plain_dom = \<lparr> ntype = (\<lambda>e. case e of Window \<Rightarrow> 0 | Node n \<Rightarrow> if snd n = [] then 9 else 1), disabled = (\<lambda>_. False),
     checkable = (\<lambda>_. False), selects = (\<lambda>sel needs this cur. True), needs_context = (\<lambda>_. False), has_focusin = True \<rparr>"

definition attach_ops :: "event_call list" where
  "attach_ops = [OpAdd (Node (0, [0])) (u ''click.menu.app'') (Handler 1) None None False,
     OpAdd (Node (0, [0])) (u ''click.menu'') (Handler 3) None (Some (u ''li'')) False]"

theorem off_exact_witness:
  "map h_handler (handlers_of (Node (0, [0])) (u ''click'')
     (event_remove plain_dom (Node (0, [0])) (u ''click.menu.app'') None None (fold (event_op plain_dom) attach_ops no_events))) = [Handler 3] \<and>
   map h_handler (handlers_of (Node (0, [0])) (u ''click'') (fold (event_op plain_dom) attach_ops no_events)) = [Handler 3, Handler 1]"
proof -
  let ?w = "fold (event_op plain_dom) attach_ops no_events"
  have l: "handlers_of (Node (0, [0])) (u ''click'') ?w =
     [\<lparr> h_type = u ''click'', h_origType = u ''click'', h_data = None, h_handler = Handler 3, h_one = False,
        h_selector = Some (u ''li''), h_needs = False, h_namespace = Some (u ''menu'') \<rparr>,
      \<lparr> h_type = u ''click'', h_origType = u ''click'', h_data = None, h_handler = Handler 1, h_one = False,
        h_selector = None, h_needs = False, h_namespace = Some (u ''app.menu'') \<rparr>]" by code_simp
  have p: "word (u ''click.menu.app'')" "parse_type (u ''click.menu.app'') = (u ''click'', u ''menu.app'')"
    "u ''click'' \<noteq> []" "kept_type None (u ''click'') = u ''click''" by code_simp+
  have n: "split_str [46] (u ''menu.app'') = [u ''menu'', u ''app'']" "split_str [46] (u ''menu'') = [u ''menu'']"
    "split_str [46] (u ''app.menu'') = [u ''app'', u ''menu'']" by code_simp+
  have e: "u ''menu.app'' \<noteq> []" by code_simp
  have "u ''menu.app'' = [] \<or> distinct (split_str [46] (u ''menu.app''))" by (simp add: n)
  from off_exact [OF refl p(1-3) this, of "Node (0, [0])" "u ''click''" plain_dom "Node (0, [0])" None None attach_ops]
  show ?thesis unfolding l by (simp add: p(4) n e ns_text_def truthy_sel_def)
qed

end
