(* ===== verification/JqDispatch.thy ===== *)
theory JqDispatch
  imports JqEvent
begin

text \<open>
  Delivering events (\<open>jquery-3.5.1.js\<close>, lines 5385 to 5500, 5688 to 5760, 5898 to 5914 and 8625 to 8790): the handlers
  an event reaches on an element, running them, the wrapper of \<open>one\<close>, and events the program triggers
  with the path they take to the window.  A handler may trigger events again, so \<open>trigger\<close> has fuel
  for the depth of nesting; a program that nests without end has no result.  Native handlers
  (\<open>onclick\<close> and the like) and the native method at the end of \<open>trigger\<close> are left out.
\<close>

section \<open>Events and bodies\<close>

datatype ret = RFalse | RVal nat

record evt =
  e_type :: ustr
  e_target :: etarget
  e_names :: "ustr list"
  e_stopped :: bool
  e_now :: bool
  e_prevented :: bool
  e_result :: "ret option"
  e_button :: bool
  e_related :: "etarget option"

datatype hact = AStop | AStopNow | APrevent | ACall event_call | ATrigger etarget ustr

record body =
  b_acts :: "hact list"
  b_ret :: "ret option"

type_synonym bodies = "func \<Rightarrow> body"

text \<open>\<open>new jQuery.Event( src )\<close> for a native event: a text node is no target.\<close>

definition jq_event :: "dom \<Rightarrow> ustr \<Rightarrow> etarget \<Rightarrow> bool \<Rightarrow> bool \<Rightarrow> etarget option \<Rightarrow> evt" where
  "jq_event d type target prevented button related =
    \<lparr> e_type = type,
      e_target = (if ntype d target = 3 then (case parent_of target of None \<Rightarrow> target | Some p \<Rightarrow> p) else target),
      e_names = [], e_stopped = False, e_now = False, e_prevented = prevented, e_result = None,
      e_button = button, e_related = related \<rparr>"

definition preventDefault :: "evt \<Rightarrow> evt" where
  "preventDefault ev = ev \<lparr> e_prevented := True \<rparr>"

definition stopPropagation :: "evt \<Rightarrow> evt" where
  "stopPropagation ev = ev \<lparr> e_stopped := True \<rparr>"

definition stopImmediatePropagation :: "evt \<Rightarrow> evt" where
  "stopImmediatePropagation ev = stopPropagation (ev \<lparr> e_now := True \<rparr>)"

section \<open>The handlers an event reaches\<close>

fun depth :: "etarget \<Rightarrow> nat" where
  "depth Window = 0"
| "depth (Node n) = length (snd n)"

lemma parent_depth: "parent_of t = Some p \<Longrightarrow> depth p < depth t"
  by (cases t) (auto simp: parentNode_def split: if_splits)

text \<open>From the target up to the element that has the handlers.\<close>

function chain :: "etarget \<Rightarrow> etarget \<Rightarrow> etarget list" where
  "chain this cur = (if cur = this then [] else cur # (case parent_of cur of None \<Rightarrow> [] | Some p \<Rightarrow> chain this p))"
  by pat_completeness auto
termination
  by (relation "measure (\<lambda>(this, cur). depth cur)") (simp_all add: parent_depth)

declare chain.simps [simp del]

text \<open>The delegated handlers whose selector matches, with the selectors tested once.\<close>

fun match_loop :: "(ustr \<Rightarrow> bool \<Rightarrow> bool) \<Rightarrow> bool dict \<Rightarrow> handle_obj list \<Rightarrow> handle_obj list" where
  "match_loop m seen [] = []"
| "match_loop m seen (h # hs) =
    (let sel = the (h_selector h) @ [32];
         found = (case dget seen sel of None \<Rightarrow> m sel (h_needs h) | Some b \<Rightarrow> b)
     in (if found then [h] else []) @ match_loop m (dput sel found seen) hs)"

definition eligible :: "dom \<Rightarrow> evt \<Rightarrow> etarget \<Rightarrow> bool" where
  "eligible d ev cur \<longleftrightarrow> ntype d cur = 1 \<and> \<not> (e_type ev = u ''click'' \<and> disabled d cur)"

definition handler_queue :: "dom \<Rightarrow> etarget \<Rightarrow> evt \<Rightarrow> hlist \<Rightarrow> (etarget \<times> handle_obj list) list" where
  "handler_queue d this ev l =
    (if delegateCount l \<noteq> 0 \<and> ntype d (e_target ev) \<noteq> 0 \<and> \<not> (e_type ev = u ''click'' \<and> e_button ev)
     then concat (map (\<lambda>cur. if eligible d ev cur
            then (let hs = match_loop (\<lambda>sel needs. selects d sel needs this cur) [] (take (delegateCount l) (handlers l))
                  in if hs = [] then [] else [(cur, hs)])
            else []) (chain this (e_target ev)))
     else []) @
    (if delegateCount l < length (handlers l) then [(this, drop (delegateCount l) (handlers l))] else [])"

section \<open>Running them\<close>

type_synonym trig = "etarget \<Rightarrow> ustr \<Rightarrow> eworld \<Rightarrow> eworld option"

fun run_act :: "dom \<Rightarrow> trig \<Rightarrow> hact \<Rightarrow> evt \<times> eworld \<Rightarrow> (evt \<times> eworld) option" where
  "run_act d trig AStop (ev, w) = Some (stopPropagation ev, w)"
| "run_act d trig AStopNow (ev, w) = Some (stopImmediatePropagation ev, w)"
| "run_act d trig APrevent (ev, w) = Some (preventDefault ev, w)"
| "run_act d trig (ACall c) (ev, w) = Some (ev, event_op d c w)"
| "run_act d trig (ATrigger e t) (ev, w) = map_option (Pair ev) (trig e t w)"

fun run_acts :: "dom \<Rightarrow> trig \<Rightarrow> hact list \<Rightarrow> evt \<times> eworld \<Rightarrow> (evt \<times> eworld) option" where
  "run_acts d trig [] s = Some s"
| "run_acts d trig (a # as) s = (case run_act d trig a s of None \<Rightarrow> None | Some s \<Rightarrow> run_acts d trig as s)"

text \<open>\<open>off\<close> with an event, as the wrapper of \<open>one\<close> calls it.\<close>

definition off_event :: "dom \<Rightarrow> etarget \<Rightarrow> handle_obj \<Rightarrow> eworld \<Rightarrow> eworld" where
  "off_event d this h w =
    event_remove d this
      (case h_namespace h of None \<Rightarrow> h_origType h | Some n \<Rightarrow> if n = [] then h_origType h else h_origType h @ [46] @ n)
      (Some (h_handler h)) (h_selector h) w"

definition contains :: "etarget \<Rightarrow> etarget \<Rightarrow> bool" where
  "contains a b = (case (a, b) of
     (Node (t, p), Node (s, q)) \<Rightarrow> t = s \<and> strict_prefix p q
   | _ \<Rightarrow> False)"

text \<open>The handler of \<open>mouseenter\<close> and its kin: only when the pointer comes from outside.\<close>

definition enter_leave :: "ustr \<Rightarrow> bool" where
  "enter_leave type \<longleftrightarrow> bindType type \<noteq> None"

definition from_outside :: "evt \<Rightarrow> etarget \<Rightarrow> bool" where
  "from_outside ev this = (case e_related ev of None \<Rightarrow> True | Some related \<Rightarrow> related \<noteq> this \<and> \<not> contains this related)"

definition take_result :: "ret option \<Rightarrow> evt \<Rightarrow> evt" where
  "take_result r ev = (case r of None \<Rightarrow> ev
     | Some v \<Rightarrow> let ev = ev \<lparr> e_result := Some v \<rparr> in if v = RFalse then stopPropagation (preventDefault ev) else ev)"

definition invoke :: "dom \<Rightarrow> bodies \<Rightarrow> trig \<Rightarrow> etarget \<Rightarrow> etarget \<Rightarrow> handle_obj \<Rightarrow> evt \<times> eworld \<Rightarrow> (evt \<times> eworld) option" where
  "invoke d b trig this cur h s =
    (case s of (ev, w) \<Rightarrow>
      if enter_leave (h_origType h) \<and> \<not> from_outside ev cur then Some (ev, w)
      else let w = (if h_one h then off_event d this h w else w);
               w = w \<lparr> invoked := invoked w @ [(cur, h_handler h)] \<rparr>
           in case run_acts d trig (b_acts (b (h_handler h))) (ev, w) of
                None \<Rightarrow> None
              | Some (ev, w) \<Rightarrow> Some (take_result (b_ret (b (h_handler h))) ev, w))"

definition in_namespace :: "evt \<Rightarrow> handle_obj \<Rightarrow> bool" where
  "in_namespace ev h \<longleftrightarrow> e_names ev = [] \<or> h_namespace h = None \<or> test (ns_re (e_names ev)) (ns_text (h_namespace h))"

fun run_handlers :: "dom \<Rightarrow> bodies \<Rightarrow> trig \<Rightarrow> etarget \<Rightarrow> etarget \<Rightarrow> handle_obj list \<Rightarrow> evt \<times> eworld \<Rightarrow> (evt \<times> eworld) option" where
  "run_handlers d b trig this cur [] s = Some s"
| "run_handlers d b trig this cur (h # hs) s =
    (if e_now (fst s) then Some s
     else if in_namespace (fst s) h
     then (case invoke d b trig this cur h s of None \<Rightarrow> None | Some s \<Rightarrow> run_handlers d b trig this cur hs s)
     else run_handlers d b trig this cur hs s)"

fun run_queue :: "dom \<Rightarrow> bodies \<Rightarrow> trig \<Rightarrow> etarget \<Rightarrow> (etarget \<times> handle_obj list) list \<Rightarrow> evt \<times> eworld \<Rightarrow> (evt \<times> eworld) option" where
  "run_queue d b trig this [] s = Some s"
| "run_queue d b trig this ((cur, hs) # q) s =
    (if e_stopped (fst s) then Some s
     else case run_handlers d b trig this cur hs s of None \<Rightarrow> None | Some s \<Rightarrow> run_queue d b trig this q s)"

definition dispatch :: "dom \<Rightarrow> bodies \<Rightarrow> trig \<Rightarrow> etarget \<Rightarrow> evt \<Rightarrow> eworld \<Rightarrow> (evt \<times> eworld) option" where
  "dispatch d b trig this ev w =
    (case get_list this (e_type ev) w of
       None \<Rightarrow> Some (ev, w)
     | Some l \<Rightarrow> run_queue d b trig this (handler_queue d this ev l) (ev, w))"

section \<open>Triggered events\<close>

function up_from :: "etarget \<Rightarrow> etarget list" where
  "up_from cur = cur # (case parent_of cur of None \<Rightarrow> [] | Some p \<Rightarrow> up_from p)"
  by pat_completeness auto
termination
  by (relation "measure depth") (simp_all add: parent_depth)

declare up_from.simps [simp del]

text \<open>The path: the element, its ancestors, and the window if the last of them is the document; an event of focus visits
  the element twice, the second time as the bubbling type.\<close>

definition event_path :: "bool \<Rightarrow> ustr \<Rightarrow> etarget \<Rightarrow> etarget list" where
  "event_path onlyHandlers type elem =
    (if onlyHandlers \<or> type = u ''load'' \<or> elem = Window then [elem]
     else let ups = (if type = u ''focus'' \<or> type = u ''blur'' then up_from elem else tl (up_from elem));
              top = (if ups = [] then elem else last ups)
          in elem # ups @ (if top = Node document then [Window] else []))"

fun fire_path :: "dom \<Rightarrow> bodies \<Rightarrow> trig \<Rightarrow> ustr \<Rightarrow> ustr \<Rightarrow> etarget list \<Rightarrow> evt \<times> eworld \<Rightarrow> (evt \<times> eworld) option" where
  "fire_path d b trig type bubbleType [] s = Some s"
| "fire_path d b trig type bubbleType (cur # path) (ev, w) =
    (if e_stopped ev then Some (ev, w)
     else case dispatch d b trig cur (ev \<lparr> e_type := type \<rparr>) w of
            None \<Rightarrow> None
          | Some s \<Rightarrow> fire_path d b trig bubbleType bubbleType path s)"

text \<open>Before an event that has a native method: its first handler makes room for it.\<close>

definition special_trigger :: "dom \<Rightarrow> etarget \<Rightarrow> ustr \<Rightarrow> eworld \<Rightarrow> eworld" where
  "special_trigger d elem type w =
    (if leverages d elem type \<and> (elem, type) \<notin> set (native_slots w)
     then event_add d elem type ReturnTrue None None False w else w)"

definition trigger_with :: "dom \<Rightarrow> bodies \<Rightarrow> trig \<Rightarrow> bool \<Rightarrow> etarget \<Rightarrow> ustr \<Rightarrow> eworld \<Rightarrow> (evt \<times> eworld) option" where
  "trigger_with d b trig onlyHandlers elem text w =
    (let parts = split_str [46] text; type = hd parts; names = sort_by text_cmp (tl parts);
         ev = \<lparr> e_type = type, e_target = elem, e_names = (if join [46] names = [] then [] else names),
                e_stopped = False, e_now = False, e_prevented = False, e_result = None, e_button = False, e_related = None \<rparr>
     in if ntype d elem = 3 \<or> ntype d elem = 8 then Some (ev, w)
        else case fire_path d b trig (case bindType type of None \<Rightarrow> type | Some t \<Rightarrow> t)
                    (case delegateType type of None \<Rightarrow> type | Some t \<Rightarrow> t) (event_path onlyHandlers type elem)
                    (ev, if onlyHandlers then w else special_trigger d elem type w) of
               None \<Rightarrow> None
             | Some (ev, w) \<Rightarrow> Some (ev \<lparr> e_type := type \<rparr>, w))"

fun trigger :: "nat \<Rightarrow> dom \<Rightarrow> bodies \<Rightarrow> bool \<Rightarrow> etarget \<Rightarrow> ustr \<Rightarrow> eworld \<Rightarrow> (evt \<times> eworld) option" where
  "trigger 0 d b onlyHandlers elem text w = None"
| "trigger (Suc n) d b onlyHandlers elem text w =
    trigger_with d b (\<lambda>e t w. map_option snd (trigger n d b False e t w)) onlyHandlers elem text w"

section \<open>What an event reaches\<close>

lemma match_loop_filter:
  "(\<And>h. h \<in> set hs \<Longrightarrow> h_needs h = nc (the (h_selector h) @ [32])) \<Longrightarrow>
   (\<And>sel found. dget seen sel = Some found \<Longrightarrow> found = m sel (nc sel)) \<Longrightarrow>
   match_loop m seen hs = filter (\<lambda>h. m (the (h_selector h) @ [32]) (h_needs h)) hs"
proof (induction hs arbitrary: seen)
  case (Cons h hs)
  let ?sel = "the (h_selector h) @ [32]"
  have n: "h_needs h = nc ?sel" using Cons.prems(1) by simp
  have f: "(case dget seen ?sel of None \<Rightarrow> m ?sel (h_needs h) | Some b \<Rightarrow> b) = m ?sel (h_needs h)"
    using Cons.prems(2) n by (auto split: option.split)
  have "match_loop m (dput ?sel (m ?sel (h_needs h)) seen) hs = filter (\<lambda>h. m (the (h_selector h) @ [32]) (h_needs h)) hs"
    by (rule Cons.IH) (use Cons.prems n in \<open>auto split: if_splits\<close>)
  with f show ?case by (simp add: Let_def)
qed simp

lemma concat_map_single: "concat (map (\<lambda>x. if f x = [] then [] else [(x, f x)]) xs) = filter (\<lambda>(x, ys). ys \<noteq> []) (map (\<lambda>x. (x, f x)) xs)"
  by (induction xs) auto

text \<open>The way up, by the positions of the nodes.\<close>

lemma chain_up:
  "n \<le> length q \<Longrightarrow> (\<And>i. n \<le> i \<Longrightarrow> i \<le> length q \<Longrightarrow> Node (t, take i q) \<noteq> this) \<Longrightarrow>
   (n = 0 \<or> this = Node (t, take (n - 1) q)) \<Longrightarrow>
   chain this (Node (t, q)) = map (\<lambda>i. Node (t, take i q)) (rev [n..<Suc (length q)])"
proof (induction q rule: rev_induct)
  case Nil
  from Nil.prems(2) [of 0] show ?case using Nil.prems(1) by (simp add: chain.simps parentNode_def)
next
  case (snoc x q)
  have x: "Node (t, q @ [x]) \<noteq> this" using snoc.prems(2) [of "length (q @ [x])"] snoc.prems(1) by simp
  then have c: "chain this (Node (t, q @ [x])) = Node (t, q @ [x]) # chain this (Node (t, q))"
    by (subst chain.simps) (simp add: parentNode_def)
  have m: "map (\<lambda>i. Node (t, take i (q @ [x]))) (rev [k..<Suc (length q)]) =
      map (\<lambda>i. Node (t, take i q)) (rev [k..<Suc (length q)])" for k
    by (rule map_cong) auto
  show ?case
  proof (cases "n \<le> length q")
    case True
    have "chain this (Node (t, q)) = map (\<lambda>i. Node (t, take i q)) (rev [n..<Suc (length q)])"
    proof (rule snoc.IH [OF True])
      show "Node (t, take i q) \<noteq> this" if "n \<le> i" "i \<le> length q" for i
        using snoc.prems(2) [of i] that by simp
      show "n = 0 \<or> this = Node (t, take (n - 1) q)"
        using snoc.prems(3) True by (cases n) auto
    qed
    moreover have "[n..<Suc (length (q @ [x]))] = [n..<Suc (length q)] @ [length (q @ [x])]" using True by simp
    ultimately show ?thesis using m [of n] by (simp add: c del: upt_Suc)
  next
    case False
    then have n: "n = Suc (length q)" using snoc.prems(1) by simp
    then have "this = Node (t, q)" using snoc.prems(3) by simp
    then have "chain this (Node (t, q)) = []" by (simp add: chain.simps)
    then show ?thesis by (simp add: c n)
  qed
qed

text \<open>C29: The handlers an event reaches on an element \<open>this\<close> (or the window), when its target is the node at
  position \<open>q\<close> of the tree, below \<open>this\<close> or \<open>this\<close> itself: for the target, then its parent, and so on
  up to the child of \<open>this\<close> (the root for the window), leaving out what is no element and, for a click,
  what is disabled, the delegated handlers whose selector matches there, in the order they were attached;
  and last the handlers attached to \<open>this\<close> itself. A click of another button reaches no delegated handler.\<close>

theorem handlers_reached:
  assumes "list_all (\<lambda>h. h_needs h = needs_context d (the (h_selector h))) (take (delegateCount l) (handlers l))"
    and "e_target ev = Node (t, q)" and "this = Window \<and> k = 0 \<or> this = Node (t, p) \<and> prefix p q \<and> k = Suc (length p)"
  shows "concat (map (\<lambda>(cur, hs). map (Pair cur) hs) (handler_queue d this ev l)) =
    (if ntype d (Node (t, q)) = 0 \<or> e_type ev = u ''click'' \<and> e_button ev then []
     else concat (map (\<lambda>cur. map (Pair cur) (filter (\<lambda>h. selects d (the (h_selector h) @ [32]) (h_needs h) this cur)
            (take (delegateCount l) (handlers l))))
          (filter (\<lambda>cur. ntype d cur = 1 \<and> (e_type ev = u ''click'' \<longrightarrow> \<not> disabled d cur))
            (map (\<lambda>i. Node (t, take i q)) (rev [k..<Suc (length q)]))))) @
    map (Pair this) (drop (delegateCount l) (handlers l))"
proof -
  let ?ds = "take (delegateCount l) (handlers l)"
  let ?f = "\<lambda>cur. filter (\<lambda>h. selects d (the (h_selector h) @ [32]) (h_needs h) this cur) ?ds"
  have m: "match_loop (\<lambda>sel needs. selects d sel needs this cur) [] ?ds = ?f cur" for cur
    by (rule match_loop_filter [where nc = "\<lambda>sel. needs_context d (butlast sel)"])
      (use assms(1) in \<open>auto simp: list_all_iff\<close>)
  have "concat (map (\<lambda>(cur, hs). map (Pair cur) hs)
      (concat (map (\<lambda>cur. if eligible d ev cur then (if ?f cur = [] then [] else [(cur, ?f cur)]) else []) cs))) =
      concat (map (\<lambda>cur. map (Pair cur) (?f cur)) (filter (eligible d ev) cs))" for cs
    by (induction cs) auto
  moreover have "?ds = [] \<Longrightarrow> concat (map (\<lambda>cur. map (Pair cur) (?f cur)) cs) = []" for cs
    by (induction cs) auto
  ultimately have q: "concat (map (\<lambda>(cur, hs). map (Pair cur) hs) (handler_queue d this ev l)) =
    (if ntype d (e_target ev) = 0 \<or> e_type ev = u ''click'' \<and> e_button ev then []
     else concat (map (\<lambda>cur. map (Pair cur) (?f cur)) (filter (eligible d ev) (chain this (e_target ev))))) @
    map (Pair this) (drop (delegateCount l) (handlers l))"
    unfolding handler_queue_def Let_def m by (auto simp del: take_eq_Nil take_all take_all_iff)
  have up: "chain this (Node (t, q)) = map (\<lambda>i. Node (t, take i q)) (rev [k..<Suc (length q)])"
  proof (cases "this = Node (t, q)")
    case True
    with assms(3) have "k = Suc (length q)" by simp
    then show ?thesis by (simp add: True chain.simps)
  next
    case False
    have "k \<le> length q" using assms(3) False by (auto simp: prefix_def Suc_le_eq)
    moreover have "Node (t, take i q) \<noteq> this" if "k \<le> i" "i \<le> length q" for i
      using assms(3) that by auto
    moreover have "k = 0 \<or> this = Node (t, take (k - 1) q)" using assms(3) by (auto simp: prefix_def)
    ultimately show ?thesis by (intro chain_up)
  qed
  have "eligible d ev = (\<lambda>cur. ntype d cur = 1 \<and> (e_type ev = u ''click'' \<longrightarrow> \<not> disabled d cur))"
    by (auto simp: eligible_def)
  with q up show ?thesis unfolding assms(2) by simp
qed

section \<open>Handlers that change the lists\<close>

lemma invoked_put [simp]: "invoked (put_list e t l w) = invoked w"
  by (simp add: put_list_def)

lemma invoked_add [simp]: "invoked (event_add d e types fn data sel one w) = invoked w"
proof -
  have "invoked (add_type d e fn data sel one wd v) = invoked v" for wd v
    by (simp add: add_type_def first_of_type_def Let_def split: prod.split)
  then have "invoked (fold (add_type d e fn data sel one) ws v) = invoked v" for ws v
    by (induction ws arbitrary: v) simp_all
  then show ?thesis by (simp add: event_add_def)
qed

lemma invoked_remove [simp]: "invoked (event_remove d e types fn sel w) = invoked w"
proof -
  have t: "invoked (tidy e v) = invoked v" for v by (simp add: tidy_def)
  have r: "invoked (remove_type d e fn sel mapped wd v) = invoked v" for mapped wd v
    by (simp add: remove_type_def last_of_type_def Let_def split: prod.split option.split)
  have f: "(\<And>x v. invoked (g x v) = invoked v) \<Longrightarrow> invoked (fold g xs v) = invoked v" for xs v and g :: "ustr \<Rightarrow> eworld \<Rightarrow> eworld"
    by (induction xs arbitrary: v) simp_all
  have a: "invoked (remove_all_types d e fn sel wd v) = invoked v" for wd v
    unfolding remove_all_types_def by (rule f) (simp add: t f r)
  show ?thesis by (simp add: event_remove_def t f r a)
qed

lemma invoked_op [simp]: "invoked (event_op d c w) = invoked w"
  by (cases c) simp_all

text \<open>What happens to the event, without the lists.\<close>

fun plan_act :: "hact \<Rightarrow> evt \<Rightarrow> evt" where
  "plan_act AStop ev = stopPropagation ev"
| "plan_act AStopNow ev = stopImmediatePropagation ev"
| "plan_act APrevent ev = preventDefault ev"
| "plan_act (ACall c) ev = ev"
| "plan_act (ATrigger e t) ev = ev"

definition runs :: "etarget \<Rightarrow> handle_obj \<Rightarrow> evt \<Rightarrow> bool" where
  "runs cur h ev \<longleftrightarrow> \<not> (enter_leave (h_origType h) \<and> \<not> from_outside ev cur)"

fun plan_handlers :: "bodies \<Rightarrow> etarget \<Rightarrow> handle_obj list \<Rightarrow> evt \<Rightarrow> evt \<times> (etarget \<times> func) list" where
  "plan_handlers b cur [] ev = (ev, [])"
| "plan_handlers b cur (h # hs) ev =
    (if e_now ev then (ev, [])
     else if in_namespace ev h \<and> runs cur h ev
     then (case plan_handlers b cur hs (take_result (b_ret (b (h_handler h))) (fold plan_act (b_acts (b (h_handler h))) ev)) of
        (ev, calls) \<Rightarrow> (ev, (cur, h_handler h) # calls))
     else plan_handlers b cur hs ev)"

fun plan_queue :: "bodies \<Rightarrow> (etarget \<times> handle_obj list) list \<Rightarrow> evt \<Rightarrow> evt \<times> (etarget \<times> func) list" where
  "plan_queue b [] ev = (ev, [])"
| "plan_queue b ((cur, hs) # q) ev =
    (if e_stopped ev then (ev, [])
     else case plan_handlers b cur hs ev of (ev, calls) \<Rightarrow> (case plan_queue b q ev of (ev, calls') \<Rightarrow> (ev, calls @ calls')))"

fun no_trigger :: "hact \<Rightarrow> bool" where
  "no_trigger (ATrigger e t) = False"
| "no_trigger a = True"

lemma run_acts_plan:
  "list_all no_trigger as \<Longrightarrow> \<exists>w'. run_acts d trig as (ev, w) = Some (fold plan_act as ev, w') \<and> invoked w' = invoked w"
proof (induction "as" arbitrary: ev w)
  case (Cons a "as")
  obtain w1 where "run_act d trig a (ev, w) = Some (plan_act a ev, w1)" "invoked w1 = invoked w"
    using Cons.prems by (cases a) auto
  with Cons.IH [of "plan_act a ev" w1] Cons.prems show ?case by auto
qed simp

lemma invoke_plan:
  assumes "list_all no_trigger (b_acts (b (h_handler h)))" "runs cur h ev"
  shows "\<exists>w'. invoke d b trig this cur h (ev, w) =
      Some (take_result (b_ret (b (h_handler h))) (fold plan_act (b_acts (b (h_handler h))) ev), w') \<and>
      invoked w' = invoked w @ [(cur, h_handler h)]"
proof -
  let ?w = "(if h_one h then off_event d this h w else w)
    \<lparr> invoked := invoked (if h_one h then off_event d this h w else w) @ [(cur, h_handler h)] \<rparr>"
  have "invoked ?w = invoked w @ [(cur, h_handler h)]" by (simp add: off_event_def)
  with run_acts_plan [OF assms(1), of d trig ev ?w] assms(2) show ?thesis
    by (auto simp: invoke_def runs_def Let_def)
qed

lemma run_handlers_plan:
  assumes "\<And>f. list_all no_trigger (b_acts (b f))"
  shows "\<exists>w'. run_handlers d b trig this cur hs (ev, w) = Some (fst (plan_handlers b cur hs ev), w') \<and>
    invoked w' = invoked w @ snd (plan_handlers b cur hs ev)"
proof (induction hs arbitrary: ev w)
  case (Cons h hs)
  show ?case
  proof (cases "\<not> e_now ev \<and> in_namespace ev h")
    case True
    show ?thesis
    proof (cases "runs cur h ev")
      case r: True
      obtain w1 where w1: "invoke d b trig this cur h (ev, w) =
          Some (take_result (b_ret (b (h_handler h))) (fold plan_act (b_acts (b (h_handler h))) ev), w1)"
        "invoked w1 = invoked w @ [(cur, h_handler h)]"
        using invoke_plan [where b = b, OF assms r] by blast
      from Cons.IH [of "take_result (b_ret (b (h_handler h))) (fold plan_act (b_acts (b (h_handler h))) ev)" w1] True r w1
      show ?thesis by (auto split: prod.split)
    next
      case False
      then have "invoke d b trig this cur h (ev, w) = Some (ev, w)" by (simp add: invoke_def runs_def)
      with Cons.IH [of ev w] True False show ?thesis by simp
    qed
  qed (use Cons.IH [of ev w] in auto)
qed simp

lemma run_queue_plan:
  assumes "\<And>f. list_all no_trigger (b_acts (b f))"
  shows "\<exists>w'. run_queue d b trig this q (ev, w) = Some (fst (plan_queue b q ev), w') \<and>
    invoked w' = invoked w @ snd (plan_queue b q ev)"
proof (induction q arbitrary: ev w)
  case (Cons x q)
  obtain cur hs where x: "x = (cur, hs)" by (rule prod.exhaust)
  obtain ev1 calls where p: "plan_handlers b cur hs ev = (ev1, calls)" by (rule prod.exhaust)
  obtain w1 where "run_handlers d b trig this cur hs (ev, w) = Some (ev1, w1)" "invoked w1 = invoked w @ calls"
    using run_handlers_plan [where b = b, OF assms, of d trig this cur hs ev w] p by auto
  with Cons.IH [of ev1 w1] p x show ?case by (auto split: prod.split)
qed simp

text \<open>C27: Which handlers run is settled when an event arrives: whatever the handlers attach and detach while it is
  delivered, and with whatever order and namespaces, the same handlers run in the same order as if the lists did
  not change, and stopping, cancelling and results act alike.\<close>

theorem dispatch_settled:
  assumes "list_all no_trigger (concat (map (\<lambda>f. b_acts (b f)) fs))" "\<And>f. f \<notin> set fs \<Longrightarrow> b_acts (b f) = []"
    "get_list this (e_type ev) w = Some l"
  shows "\<exists>w'. dispatch d b trig this ev w = Some (fst (plan_queue b (handler_queue d this ev l) ev), w') \<and>
    invoked w' = invoked w @ snd (plan_queue b (handler_queue d this ev l) ev)"
proof -
  have "list_all no_trigger (b_acts (b f))" for f
    using assms(1,2) by (cases "f \<in> set fs") (auto simp: list_all_iff)
  from run_queue_plan [where b = b, OF this] assms(3) show ?thesis by (simp add: dispatch_def)
qed

section \<open>Triggering inside handlers\<close>

lemma world_ok_invoked [simp]: "world_ok d (w \<lparr> invoked := i \<rparr>) \<longleftrightarrow> world_ok d w"
  by (simp add: world_ok_def)

lemma event_op_ok: "world_ok d w \<Longrightarrow> world_ok d (event_op d c w)"
  by (cases c) (simp_all add: event_add_ok event_remove_ok)

definition keeps :: "dom \<Rightarrow> trig \<Rightarrow> bool" where
  "keeps d trig \<longleftrightarrow> (\<forall>e t w w'. trig e t w = Some w' \<longrightarrow> world_ok d w \<longrightarrow> world_ok d w')"

lemma run_acts_ok: "keeps d trig \<Longrightarrow> run_acts d trig as s = Some s' \<Longrightarrow> world_ok d (snd s) \<Longrightarrow> world_ok d (snd s')"
proof (induction "as" arbitrary: s)
  case (Cons a "as")
  obtain ev w where s: "s = (ev, w)" by (rule prod.exhaust)
  from Cons.prems(2) obtain s1 where s1: "run_act d trig a s = Some s1" "run_acts d trig as s1 = Some s'"
    by (auto split: option.splits)
  have "world_ok d (snd s1)"
    using s1(1) Cons.prems(1,3) s by (cases a) (auto simp: event_op_ok keeps_def)
  with Cons.IH [OF Cons.prems(1) s1(2)] show ?case by blast
qed simp

lemma invoke_ok: "keeps d trig \<Longrightarrow> invoke d b trig this cur h s = Some s' \<Longrightarrow> world_ok d (snd s) \<Longrightarrow> world_ok d (snd s')"
proof -
  assume k: "keeps d trig" and i: "invoke d b trig this cur h s = Some s'" and w: "world_ok d (snd s)"
  obtain ev v where s: "s = (ev, v)" by (rule prod.exhaust)
  have "world_ok d (off_event d this h v)" using w s by (simp add: off_event_def event_remove_ok)
  then have "world_ok d ((if h_one h then off_event d this h v else v) \<lparr> invoked := i \<rparr>)" for i
    using w s by simp
  with i s run_acts_ok [OF k] w show ?thesis
    by (fastforce simp: invoke_def Let_def split: if_splits option.splits)
qed

lemma run_handlers_ok: "keeps d trig \<Longrightarrow> run_handlers d b trig this cur hs s = Some s' \<Longrightarrow> world_ok d (snd s) \<Longrightarrow> world_ok d (snd s')"
  by (induction hs arbitrary: s) (auto split: if_splits option.splits dest: invoke_ok)

lemma run_queue_ok: "keeps d trig \<Longrightarrow> run_queue d b trig this q s = Some s' \<Longrightarrow> world_ok d (snd s) \<Longrightarrow> world_ok d (snd s')"
proof (induction q arbitrary: s)
  case (Cons x q)
  obtain cur hs where x: "x = (cur, hs)" by (rule prod.exhaust)
  show ?case
  proof (cases "e_stopped (fst s)")
    case False
    with Cons.prems(2) x obtain s1 where "run_handlers d b trig this cur hs s = Some s1" "run_queue d b trig this q s1 = Some s'"
      by (auto split: option.splits)
    with Cons run_handlers_ok show ?thesis by blast
  qed (use Cons.prems x in auto)
qed simp

lemma dispatch_ok: "keeps d trig \<Longrightarrow> dispatch d b trig this ev w = Some s \<Longrightarrow> world_ok d w \<Longrightarrow> world_ok d (snd s)"
  by (auto simp: dispatch_def split: option.splits dest: run_queue_ok)

lemma fire_path_ok: "keeps d trig \<Longrightarrow> fire_path d b trig type bubbleType path s = Some s' \<Longrightarrow> world_ok d (snd s) \<Longrightarrow> world_ok d (snd s')"
proof (induction path arbitrary: type s)
  case (Cons cur path)
  obtain ev w where s: "s = (ev, w)" by (rule prod.exhaust)
  show ?case
  proof (cases "e_stopped ev")
    case False
    with Cons.prems(2) s obtain s1 where s1: "dispatch d b trig cur (ev \<lparr> e_type := type \<rparr>) w = Some s1"
      "fire_path d b trig bubbleType bubbleType path s1 = Some s'" by (auto split: option.splits)
    with dispatch_ok [OF Cons.prems(1) s1(1)] Cons.IH [OF Cons.prems(1) s1(2)] Cons.prems(3) s show ?thesis by simp
  qed (use Cons.prems s in auto)
qed simp

lemma trigger_ok: "trigger n d b only elem ty w = Some (ev, w') \<Longrightarrow> world_ok d w \<Longrightarrow> world_ok d w'"
proof (induction n arbitrary: only elem ty w ev w')
  case (Suc n)
  have "keeps d (\<lambda>e t w. map_option snd (trigger n d b False e t w))"
    using Suc.IH by (auto simp: keeps_def)
  from fire_path_ok [OF this] Suc.prems show ?case
    by (fastforce simp: trigger_with_def Let_def special_trigger_def event_add_ok split: if_splits option.splits)
qed simp

section \<open>Nesting that ends\<close>

text \<open>The two types under which a triggered text is delivered: on the element and on the way up.\<close>

definition first_type :: "ustr \<Rightarrow> ustr" where
  "first_type text = (let type = hd (split_str [46] text) in case bindType type of None \<Rightarrow> type | Some t \<Rightarrow> t)"

definition bubble_type :: "ustr \<Rightarrow> ustr" where
  "bubble_type text = (let type = hd (split_str [46] text) in case delegateType type of None \<Rightarrow> type | Some t \<Rightarrow> t)"

text \<open>A rank of the types bounds the nesting: a handler of a list triggers types of a lower rank only.\<close>

definition rank_of :: "(ustr \<Rightarrow> nat) \<Rightarrow> ustr \<Rightarrow> nat" where
  "rank_of r text = max (r (first_type text)) (r (bubble_type text))"

definition lower :: "(ustr \<Rightarrow> nat) \<Rightarrow> bodies \<Rightarrow> nat \<Rightarrow> func \<Rightarrow> bool" where
  "lower r b n f \<longleftrightarrow> list_all (\<lambda>a. case a of ATrigger e t \<Rightarrow> rank_of r t < n | _ \<Rightarrow> True) (b_acts (b f))"

fun ranked_op :: "(ustr \<Rightarrow> nat) \<Rightarrow> bodies \<Rightarrow> event_call \<Rightarrow> bool" where
  "ranked_op r b (OpAdd e types fn data sel one) =
     list_all (\<lambda>wd. lower r b (r (kept_type sel (fst (parse_type wd)))) fn) (type_words types)"
| "ranked_op r b (OpRemove e types fn sel) = True"

text \<open>What a program attaches, at the start and in its handlers, is ranked, and jQuery's own handlers trigger nothing.\<close>

definition ranked_bodies :: "(ustr \<Rightarrow> nat) \<Rightarrow> bodies \<Rightarrow> bool" where
  "ranked_bodies r b \<longleftrightarrow>
     (\<forall>f c. ACall c \<in> set (b_acts (b f)) \<longrightarrow> ranked_op r b c) \<and>
     (\<forall>f. (\<forall>k. f \<noteq> Handler k) \<longrightarrow> list_all no_trigger (b_acts (b f)))"

definition ranked_world :: "(ustr \<Rightarrow> nat) \<Rightarrow> bodies \<Rightarrow> eworld \<Rightarrow> bool" where
  "ranked_world r b w \<longleftrightarrow>
     (\<forall>e t l h. get_list e t w = Some l \<longrightarrow> h \<in> set (handlers l) \<longrightarrow> lower r b (r t) (h_handler h))"

lemma ranked_lists:
  "ranked_world r b w \<Longrightarrow> (\<And>e t. get_list e t w' = get_list e t w) \<Longrightarrow> ranked_world r b w'"
  by (simp add: ranked_world_def)

lemma ranked_put:
  "ranked_world r b w \<Longrightarrow> (\<And>h. h \<in> set (handlers l) \<Longrightarrow> lower r b (r t) (h_handler h)) \<Longrightarrow> ranked_world r b (put_list e t l w)"
  by (auto simp: ranked_world_def)

lemma own_lower: "ranked_bodies r b \<Longrightarrow> (\<And>k. f \<noteq> Handler k) \<Longrightarrow> lower r b n f"
proof -
  assume "ranked_bodies r b" "\<And>k. f \<noteq> Handler k"
  then have "list_all no_trigger (b_acts (b f))" by (simp add: ranked_bodies_def)
  then show ?thesis unfolding lower_def list_all_iff by (auto split: hact.split)
qed

lemma set_add_handler: "set (handlers (add_handler h l)) = insert h (set (handlers l))"
proof -
  have "set (handlers l) = set (take (delegateCount l) (handlers l)) \<union> set (drop (delegateCount l) (handlers l))"
    by (metis append_take_drop_id set_append)
  then show ?thesis by (auto simp: add_handler_def)
qed

lemma ranked_first:
  "ranked_bodies r b \<Longrightarrow> ranked_world r b w \<Longrightarrow> ranked_world r b (first_of_type d elem type w)"
  by (auto simp: ranked_world_def first_of_type_lists set_add_handler universal_def own_lower split: if_splits)

lemma ranked_add_type:
  assumes "ranked_bodies r b" "ranked_world r b w" "lower r b (r (kept_type sel (fst (parse_type wd)))) fn"
  shows "ranked_world r b (add_type d elem fn data sel one wd w)"
proof -
  obtain origType ns where p: "parse_type wd = (origType, ns)" by (rule prod.exhaust)
  define type where "type = kept_type sel origType"
  define w1 where "w1 = (if get_list elem type w = None then first_of_type d elem type w else w)"
  have w1: "ranked_world r b w1" using assms(1,2) by (simp add: w1_def ranked_first)
  obtain l where l: "get_list elem type w1 = Some l" by (cases "get_list elem type w") (auto simp: w1_def first_of_type_lists)
  obtain h where h: "h_handler h = fn"
    "add_type d elem fn data sel one wd w = (if origType = [] then w else put_list elem type (add_handler h l) w1)"
  proof
    let ?h = "\<lparr> h_type = type, h_origType = origType, h_data = data, h_handler = fn, h_one = one, h_selector = sel,
                    h_needs = (truthy_sel sel \<and> needs_context d (the sel)), h_namespace = Some (join [46] (namespaces_of ns)) \<rparr>"
    show "h_handler ?h = fn" by simp
    show "add_type d elem fn data sel one wd w = (if origType = [] then w else put_list elem type (add_handler ?h l) w1)"
      using l unfolding add_type_def p Let_def w1_def type_def by simp
  qed
  have "lower r b (r type) (h_handler g)" if "g \<in> set (handlers (add_handler h l))" for g
    using that w1 l h(1) assms(3) unfolding set_add_handler ranked_world_def by (auto simp: type_def p)
  with ranked_put [OF w1] assms(2) show ?thesis unfolding h(2) by simp
qed

lemma ranked_fold: "(\<And>x v. x \<in> set xs \<Longrightarrow> ranked_world r b v \<Longrightarrow> ranked_world r b (f x v)) \<Longrightarrow>
    ranked_world r b w \<Longrightarrow> ranked_world r b (fold f xs w)"
  by (induction xs arbitrary: w) auto

lemma ranked_event_add:
  assumes "ranked_bodies r b" "ranked_world r b w"
    and "list_all (\<lambda>wd. lower r b (r (kept_type sel (fst (parse_type wd)))) fn) (type_words types)"
  shows "ranked_world r b (event_add d elem types fn data sel one w)"
proof -
  have "ranked_world r b (if events_of w elem = None then w \<lparr> events_of := (events_of w)(elem := Some []) \<rparr> else w)"
    by (rule ranked_lists [OF assms(2)]) (simp add: get_list_def)
  then show ?thesis using assms
    unfolding event_add_def by (auto intro!: ranked_fold ranked_add_type simp: list_all_iff)
qed

lemma ranked_remove_type:
  assumes "ranked_world r b w"
  shows "ranked_world r b (remove_type d elem fn sel mapped wd w)"
proof -
  have "ranked_world r b (last_of_type d elem t v)" if "ranked_world r b v" for t v
    using that by (simp add: ranked_world_def last_of_type_lists)
  moreover have "ranked_world r b (put_list elem t (detach_loop p (length (handlers l)) l) w)" if "get_list elem t w = Some l" for t p l
    using assms that by (intro ranked_put) (auto simp: detach_all(1) ranked_world_def)
  moreover have "ranked_world r b (put_list elem t l w)" if "get_list elem t w = Some l" for t l
    using assms that by (intro ranked_put) (auto simp: ranked_world_def)
  ultimately show ?thesis using assms by (simp add: remove_type_def Let_def split: prod.split option.split)
qed

lemma ranked_tidy: "ranked_world r b v \<Longrightarrow> ranked_world r b (tidy elem v)"
  by (erule ranked_lists) simp

lemma ranked_event_remove: "ranked_world r b w \<Longrightarrow> ranked_world r b (event_remove d elem types fn sel w)"
  unfolding event_remove_def remove_all_types_def
  by (auto intro!: ranked_fold ranked_tidy ranked_remove_type)

lemma ranked_event_op: "ranked_bodies r b \<Longrightarrow> ranked_world r b w \<Longrightarrow> ranked_op r b c \<Longrightarrow> ranked_world r b (event_op d c w)"
  by (cases c) (simp_all add: ranked_event_add ranked_event_remove)

text \<open>A run of acts, handlers and queues ends when the events they trigger are served.\<close>

definition serves :: "(ustr \<Rightarrow> nat) \<Rightarrow> bodies \<Rightarrow> nat \<Rightarrow> trig \<Rightarrow> bool" where
  "serves r b n trig \<longleftrightarrow> (\<forall>e t w. ranked_world r b w \<longrightarrow> rank_of r t < n \<longrightarrow> (\<exists>w'. trig e t w = Some w' \<and> ranked_world r b w'))"

lemma run_acts_total:
  assumes "ranked_bodies r b" "serves r b n trig"
  shows "list_all (\<lambda>a. case a of ATrigger e t \<Rightarrow> rank_of r t < n | ACall c \<Rightarrow> ranked_op r b c | _ \<Rightarrow> True) as \<Longrightarrow>
    ranked_world r b w \<Longrightarrow> \<exists>ev' w'. run_acts d trig as (ev, w) = Some (ev', w') \<and> ranked_world r b w'"
proof (induction "as" arbitrary: ev w)
  case (Cons a "as")
  have "\<exists>ev1 w1. run_act d trig a (ev, w) = Some (ev1, w1) \<and> ranked_world r b w1"
  proof (cases a)
    case (ATrigger e t)
    with Cons.prems(1) have "rank_of r t < n" by simp
    with Cons.prems(2) obtain w1 where "trig e t w = Some w1" "ranked_world r b w1"
      using assms(2) unfolding serves_def by blast
    then show ?thesis by (simp add: ATrigger)
  qed (use Cons.prems ranked_event_op [OF assms(1)] in auto)
  then obtain ev1 w1 where "run_act d trig a (ev, w) = Some (ev1, w1)" "ranked_world r b w1" by blast
  with Cons.IH [of w1 ev1] Cons.prems(1) show ?case by simp
qed simp

lemma invoke_total:
  assumes "ranked_bodies r b" "serves r b n trig" "lower r b n (h_handler h)" "ranked_world r b w"
  shows "\<exists>ev' w'. invoke d b trig this cur h (ev, w) = Some (ev', w') \<and> ranked_world r b w'"
proof -
  let ?as = "b_acts (b (h_handler h))"
  have as: "list_all (\<lambda>a. case a of ATrigger e t \<Rightarrow> rank_of r t < n | ACall c \<Rightarrow> ranked_op r b c | _ \<Rightarrow> True) ?as"
    using assms(1,3) unfolding lower_def ranked_bodies_def list_all_iff by (auto split: hact.splits)
  let ?w = "(if h_one h then off_event d this h w else w)
    \<lparr> invoked := invoked (if h_one h then off_event d this h w else w) @ [(cur, h_handler h)] \<rparr>"
  have "ranked_world r b (if h_one h then off_event d this h w else w)"
    using assms(4) by (simp add: off_event_def ranked_event_remove)
  then have "ranked_world r b ?w" by (rule ranked_lists) simp
  from run_acts_total [OF assms(1,2) as this, of d ev] assms(4) show ?thesis
    by (auto simp: invoke_def Let_def)
qed

lemma run_handlers_total:
  assumes "ranked_bodies r b" "serves r b n trig"
  shows "\<forall>h \<in> set hs. lower r b n (h_handler h) \<Longrightarrow> ranked_world r b w \<Longrightarrow>
    \<exists>ev' w'. run_handlers d b trig this cur hs (ev, w) = Some (ev', w') \<and> ranked_world r b w'"
proof (induction hs arbitrary: ev w)
  case (Cons h hs)
  obtain ev1 w1 where "invoke d b trig this cur h (ev, w) = Some (ev1, w1)" "ranked_world r b w1"
    using invoke_total [OF assms, of h w d this cur ev] Cons.prems by auto
  with Cons.IH [of w1 ev1] Cons.IH [of w ev] Cons.prems show ?case by simp
qed simp

lemma run_queue_total:
  assumes "ranked_bodies r b" "serves r b n trig"
  shows "\<forall>(cur, hs) \<in> set q. \<forall>h \<in> set hs. lower r b n (h_handler h) \<Longrightarrow> ranked_world r b w \<Longrightarrow>
    \<exists>ev' w'. run_queue d b trig this q (ev, w) = Some (ev', w') \<and> ranked_world r b w'"
proof (induction q arbitrary: ev w)
  case (Cons x q)
  obtain cur hs where x: "x = (cur, hs)" by (rule prod.exhaust)
  obtain ev1 w1 where "run_handlers d b trig this cur hs (ev, w) = Some (ev1, w1)" "ranked_world r b w1"
    using run_handlers_total [OF assms, of hs w d this cur ev] Cons.prems x by auto
  with Cons.IH [of w1 ev1] Cons.prems x show ?case by simp
qed simp

lemma set_match_loop: "set (match_loop m seen hs) \<subseteq> set hs"
  by (induction hs arbitrary: seen) (auto simp: Let_def split: if_splits)

lemma queue_from_list: "(cur, hs) \<in> set (handler_queue d this ev l) \<Longrightarrow> set hs \<subseteq> set (handlers l)"
  using set_match_loop set_take_subset set_drop_subset
  by (fastforce simp: handler_queue_def Let_def split: if_splits)

lemma dispatch_total:
  assumes "ranked_bodies r b" "serves r b n trig" "ranked_world r b w" "r (e_type ev) \<le> n"
  shows "\<exists>ev' w'. dispatch d b trig this ev w = Some (ev', w') \<and> ranked_world r b w'"
proof (cases "get_list this (e_type ev) w")
  case (Some l)
  have "lower r b n (h_handler h)" if "(cur, hs) \<in> set (handler_queue d this ev l)" "h \<in> set hs" for cur hs h
  proof -
    have "lower r b (r (e_type ev)) (h_handler h)"
      using assms(3) Some queue_from_list [OF that(1)] that(2) unfolding ranked_world_def by blast
    then show ?thesis using assms(4) unfolding lower_def list_all_iff by (fastforce split: hact.splits)
  qed
  then show ?thesis using run_queue_total [OF assms(1,2) _ assms(3), of "handler_queue d this ev l" d this ev] Some
    by (fastforce simp: dispatch_def)
qed (use assms(3) in \<open>simp add: dispatch_def\<close>)

lemma fire_path_total:
  assumes "ranked_bodies r b" "serves r b n trig" "r bubbleType \<le> n"
  shows "r type \<le> n \<Longrightarrow> ranked_world r b w \<Longrightarrow>
    \<exists>ev' w'. fire_path d b trig type bubbleType path (ev, w) = Some (ev', w') \<and> ranked_world r b w'"
proof (induction path arbitrary: type ev w)
  case (Cons cur path)
  obtain ev1 w1 where "dispatch d b trig cur (ev \<lparr> e_type := type \<rparr>) w = Some (ev1, w1)" "ranked_world r b w1"
    using dispatch_total [OF assms(1,2) Cons.prems(2), of "ev \<lparr> e_type := type \<rparr>" d cur] Cons.prems(1) by auto
  with Cons.IH [OF assms(3), of w1 ev1] Cons.prems(2) show ?case by simp
qed simp

lemma trigger_total:
  assumes "ranked_bodies r b"
  shows "ranked_world r b w \<Longrightarrow> rank_of r text < n \<Longrightarrow>
    \<exists>ev' w'. trigger n d b only elem text w = Some (ev', w') \<and> ranked_world r b w'"
proof (induction n arbitrary: only elem "text" w)
  case (Suc n)
  let ?trig = "\<lambda>e t w. map_option snd (trigger n d b False e t w)"
  have sv: "serves r b n ?trig" unfolding serves_def
  proof (intro allI impI)
    fix e t w assume "ranked_world r b w" "rank_of r t < n"
    from Suc.IH [OF this, of False e] show "\<exists>w'. ?trig e t w = Some w' \<and> ranked_world r b w'" by auto
  qed
  have "ranked_world r b (special_trigger d elem type w)" for type
    using ranked_event_add [OF assms Suc.prems(1), of None ReturnTrue type d elem None False] own_lower [OF assms] Suc.prems(1)
    by (simp add: special_trigger_def list_all_iff)
  then have w: "ranked_world r b (if only then w else special_trigger d elem type w)" for type
    using Suc.prems(1) by simp
  have t: "r (first_type text) \<le> n" "r (bubble_type text) \<le> n" using Suc.prems(2) by (auto simp: rank_of_def)
  let ?type = "hd (split_str [46] text)"
  define ev0 where "ev0 = (let names = sort_by text_cmp (tl (split_str [46] text)) in
     \<lparr> e_type = ?type, e_target = elem, e_names = (if join [46] names = [] then [] else names),
       e_stopped = False, e_now = False, e_prevented = False, e_result = None, e_button = False, e_related = None \<rparr>)"
  obtain ev' w' where f: "fire_path d b ?trig (first_type text) (bubble_type text) (event_path only ?type elem)
      (ev0, if only then w else special_trigger d elem ?type w) = Some (ev', w')" "ranked_world r b w'"
    using fire_path_total [OF assms sv t(2,1) w] by blast
  have "trigger (Suc n) d b only elem text w =
      (if ntype d elem = 3 \<or> ntype d elem = 8 then Some (ev0, w) else Some (ev' \<lparr> e_type := ?type \<rparr>, w'))"
    using f(1) unfolding trigger.simps trigger_with_def Let_def first_type_def bubble_type_def ev0_def by simp
  then show ?case using f(2) Suc.prems(1) by auto
qed simp

text \<open>C28: The lists stay in order when handlers attach, detach and trigger further events, in any nesting: when the
  triggering has come to its end, an element listens to a type exactly while it has handlers for it, no
  list is empty, and the delegated handlers are the first \<open>delegateCount\<close> of their list. And it does come
  to its end, with any fuel above the rank of the type, when the types have ranks so that the handlers that are ever
  attached for a type trigger types of lower ranks only; handlers that trigger each other in a circle may nest
  for ever, and nothing is claimed of them then.\<close>

theorem trigger_lists_invariant:
  shows "(trigger n d b onlyHandlers elem text (fold (event_op d) ops no_events) = Some (ev, w) \<longrightarrow>
      (case get_list e t w of None \<Rightarrow> t \<notin> set (listening w e)
       | Some l \<Rightarrow> handlers l \<noteq> [] \<and> (t \<in> set (listening w e) \<longleftrightarrow> \<not> own_setup d t) \<and>
           filter (\<lambda>h. truthy_sel (h_selector h)) (handlers l) = take (delegateCount l) (handlers l)))
    \<and> (ranked_bodies r b \<and> list_all (ranked_op r b) ops \<and> rank_of r text < n \<longrightarrow>
        trigger n d b onlyHandlers elem text (fold (event_op d) ops no_events) \<noteq> None)"
proof (intro conjI impI)
  assume "trigger n d b onlyHandlers elem text (fold (event_op d) ops no_events) = Some (ev, w)"
  from trigger_ok [OF this event_ops_ok]
  show "case get_list e t w of None \<Rightarrow> t \<notin> set (listening w e)
       | Some l \<Rightarrow> handlers l \<noteq> [] \<and> (t \<in> set (listening w e) \<longleftrightarrow> \<not> own_setup d t) \<and>
           filter (\<lambda>h. truthy_sel (h_selector h)) (handlers l) = take (delegateCount l) (handlers l)"
    by (auto simp: world_ok_def list_ok_def delegates_first_filter split: option.split)
next
  assume a: "ranked_bodies r b \<and> list_all (ranked_op r b) ops \<and> rank_of r text < n"
  have "ranked_world r b (fold (event_op d) ops no_events)"
  proof (rule ranked_fold)
    show "ranked_world r b (event_op d x v)" if "x \<in> set ops" "ranked_world r b v" for x v
      using ranked_event_op [OF _ that(2)] a that(1) by (simp add: list_all_iff)
    show "ranked_world r b no_events" by (simp add: ranked_world_def no_events_def get_list_def)
  qed
  from trigger_total [OF _ this] a show "trigger n d b onlyHandlers elem text (fold (event_op d) ops no_events) \<noteq> None"
    by fastforce
qed

definition item :: etarget where
  "item = Node (0, [0, 1])"

definition menu :: etarget where
  "menu = Node (0, [0])"

definition demo_bodies :: bodies where
  "demo_bodies f = (if f = Handler 1 then \<lparr> b_acts = [ACall (OpRemove menu (u ''click'') (Some (Handler 2)) None)], b_ret = None \<rparr>
     else \<lparr> b_acts = [], b_ret = None \<rparr>)"

definition demo_ops :: "event_call list" where
  "demo_ops = [OpAdd menu (u ''click'') (Handler 1) None (Some (u ''li'')) False, OpAdd menu (u ''click'') (Handler 2) None None False]"

theorem trigger_lists_invariant_witness:
  "\<exists>ev w l. trigger 1 plain_dom demo_bodies False item (u ''click'') (fold (event_op plain_dom) demo_ops no_events) = Some (ev, w)
     \<and> get_list menu (u ''click'') w = Some l \<and> map h_handler (handlers l) = [Handler 1] \<and> delegateCount l = 1
     \<and> filter (\<lambda>h. truthy_sel (h_selector h)) (handlers l) = take (delegateCount l) (handlers l)"
proof -
  have "ranked_bodies (\<lambda>_. 0) demo_bodies" by (auto simp: ranked_bodies_def demo_bodies_def)
  moreover have "list_all (ranked_op (\<lambda>_. 0) demo_bodies) demo_ops"
    by (simp add: demo_ops_def lower_def demo_bodies_def list_all_iff)
  moreover have "rank_of (\<lambda>_. 0) (u ''click'') < 1" by (simp add: rank_of_def)
  ultimately have "trigger 1 plain_dom demo_bodies False item (u ''click'') (fold (event_op plain_dom) demo_ops no_events) \<noteq> None"
    using trigger_lists_invariant [of 1 plain_dom demo_bodies False item "u ''click''" demo_ops undefined undefined "u ''click''" menu
        "\<lambda>_. 0"] by blast
  then obtain ev w where
    t: "trigger 1 plain_dom demo_bodies False item (u ''click'') (fold (event_op plain_dom) demo_ops no_events) = Some (ev, w)"
    by (metis option.exhaust surj_pair)
  have e: "map_option (\<lambda>(ev, w). map_option (\<lambda>l. (map h_handler (handlers l), delegateCount l)) (get_list menu (u ''click'') w))
      (trigger 1 plain_dom demo_bodies False item (u ''click'') (fold (event_op plain_dom) demo_ops no_events)) =
      Some (Some ([Handler 1], 1))" by code_simp
  then obtain l where l: "get_list menu (u ''click'') w = Some l" "map h_handler (handlers l) = [Handler 1]" "delegateCount l = 1"
    unfolding t by auto
  with trigger_lists_invariant [of 1 plain_dom demo_bodies False item "u ''click''" demo_ops ev w "u ''click''" menu] t
  have "case get_list menu (u ''click'') w of None \<Rightarrow> u ''click'' \<notin> set (listening w menu)
       | Some l \<Rightarrow> handlers l \<noteq> [] \<and> (u ''click'' \<in> set (listening w menu) \<longleftrightarrow> \<not> own_setup plain_dom (u ''click'')) \<and>
           filter (\<lambda>h. truthy_sel (h_selector h)) (handlers l) = take (delegateCount l) (handlers l)" by blast
  with l t show ?thesis by (intro exI [of _ ev] exI [of _ w] exI [of _ l]) simp
qed

definition click_event :: evt where
  "click_event = jq_event plain_dom (u ''click'') item False False None"

theorem dispatch_settled_witness:
  "map_option (\<lambda>(ev, w). invoked w)
     (dispatch plain_dom demo_bodies (\<lambda>e t w. None) menu click_event (fold (event_op plain_dom) demo_ops no_events)) =
   Some [(item, Handler 1), (menu, Handler 2)]"
proof -
  let ?w = "fold (event_op plain_dom) demo_ops no_events"
  have g: "map_option (\<lambda>l. snd (plan_queue demo_bodies (handler_queue plain_dom menu click_event l) click_event))
      (get_list menu (e_type click_event) ?w) = Some [(item, Handler 1), (menu, Handler 2)]" by code_simp
  then obtain l where l: "get_list menu (e_type click_event) ?w = Some l"
    "snd (plan_queue demo_bodies (handler_queue plain_dom menu click_event l) click_event) = [(item, Handler 1), (menu, Handler 2)]"
    by auto
  have b: "list_all no_trigger (concat (map (\<lambda>f. b_acts (demo_bodies f)) [Handler 1]))" by (simp add: demo_bodies_def)
  have c: "b_acts (demo_bodies f) = []" if "f \<notin> set [Handler 1]" for f using that by (simp add: demo_bodies_def)
  have i: "invoked ?w = []" by code_simp
  from dispatch_settled [OF b c l(1), of plain_dom "\<lambda>e t w. None"] l(2) i show ?thesis by auto
qed

theorem handlers_reached_witness:
  "concat (map (\<lambda>(cur, hs). map (\<lambda>h. (cur, h_handler h)) hs)
     (handler_queue plain_dom menu click_event (the (get_list menu (u ''click'') (fold (event_op plain_dom) demo_ops no_events))))) =
   [(item, Handler 1), (menu, Handler 2)]"
proof -
  have "\<exists>l. get_list menu (u ''click'') (fold (event_op plain_dom) demo_ops no_events) = Some l \<and>
      handlers l = [\<lparr> h_type = u ''click'', h_origType = u ''click'', h_data = None, h_handler = Handler 1, h_one = False,
          h_selector = Some (u ''li''), h_needs = False, h_namespace = Some [] \<rparr>,
        \<lparr> h_type = u ''click'', h_origType = u ''click'', h_data = None, h_handler = Handler 2, h_one = False,
          h_selector = None, h_needs = False, h_namespace = Some [] \<rparr>] \<and> delegateCount l = 1"
  proof -
    have "map_option (\<lambda>l. (handlers l, delegateCount l)) (get_list menu (u ''click'') (fold (event_op plain_dom) demo_ops no_events)) =
      Some ([\<lparr> h_type = u ''click'', h_origType = u ''click'', h_data = None, h_handler = Handler 1, h_one = False,
          h_selector = Some (u ''li''), h_needs = False, h_namespace = Some [] \<rparr>,
        \<lparr> h_type = u ''click'', h_origType = u ''click'', h_data = None, h_handler = Handler 2, h_one = False,
          h_selector = None, h_needs = False, h_namespace = Some [] \<rparr>], 1)" by code_simp
    then show ?thesis by auto
  qed
  then obtain l where l: "get_list menu (u ''click'') (fold (event_op plain_dom) demo_ops no_events) = Some l"
    "handlers l = [\<lparr> h_type = u ''click'', h_origType = u ''click'', h_data = None, h_handler = Handler 1, h_one = False,
          h_selector = Some (u ''li''), h_needs = False, h_namespace = Some [] \<rparr>,
        \<lparr> h_type = u ''click'', h_origType = u ''click'', h_data = None, h_handler = Handler 2, h_one = False,
          h_selector = None, h_needs = False, h_namespace = Some [] \<rparr>]" "delegateCount l = 1" by blast
  have n: "list_all (\<lambda>h. h_needs h = needs_context plain_dom (the (h_selector h))) (take (delegateCount l) (handlers l))"
    by (simp add: l plain_dom_def)
  have c: "ntype plain_dom (Node (0, [0, 1])) = 1" "disabled plain_dom (Node (0, [0, 1])) = False"
    "e_button click_event = False" "e_target click_event = Node (0, [0, 1])" by code_simp+
  have d: "selects plain_dom s f menu item" for s f
    by (simp add: plain_dom_def)
  have "concat (map (\<lambda>(cur, hs). map (\<lambda>h. (cur, h_handler h)) hs) q) =
      map (\<lambda>(cur, h). (cur, h_handler h)) (concat (map (\<lambda>(cur, hs). map (Pair cur) hs) q))" for q :: "(etarget \<times> handle_obj list) list"
    by (induction q) auto
  note split = this
  have r: "rev [2..<Suc (length [0 :: nat, 1])] = [2]" by (simp add: upt_rec)
  have m: "menu = Window \<and> (2 :: nat) = 0 \<or> menu = Node (0, [0]) \<and> prefix [0] [0, 1] \<and> 2 = Suc (length [0 :: nat])"
    by (simp add: menu_def)
  have "concat (map (\<lambda>(cur, hs). map (Pair cur) hs) (handler_queue plain_dom menu click_event l)) =
      [(item, hd (handlers l)), (menu, last (handlers l))]"
    unfolding handlers_reached [OF n c(4) m] r using c(1-3) d [unfolded item_def]
    by (simp add: l item_def take_Cons' drop_Cons' del: One_nat_def)
  then show ?thesis unfolding split by (simp add: l)
qed

text \<open>A handler attached with \<open>one\<close> can run twice: the wrapper detaches it when it runs, but a delivery under way has its
  own copy of the list.  Here the first handler triggers the event again.\<close>

definition nested_bodies :: bodies where
  "nested_bodies f = (if f = Handler 1 then \<lparr> b_acts = [ATrigger menu (u ''click'')], b_ret = None \<rparr>
     else \<lparr> b_acts = [], b_ret = None \<rparr>)"

lemma one_runs_twice:
  "map_option (\<lambda>(ev, w). (invoked w, handlers_of menu (u ''click'') w))
     (trigger 3 plain_dom nested_bodies False menu (u ''click'')
       (fold (event_op plain_dom) [OpAdd menu (u ''click'') (Handler 1) None None True,
          OpAdd menu (u ''click'') (Handler 2) None None True] no_events)) =
   Some ([(menu, Handler 1), (menu, Handler 2), (menu, Handler 2)], [])"
  by code_simp

end
