(* ===== verification/Spec2Isabelle.thy ===== *)
theory Spec2Isabelle
  imports AsgReplicate AsgSample JsSearch JsUri UsEqual UsFunction UsText JqSettle JqCore JqQueue JqDataset JqAttr JqParam JqXhr JqTraverse JqEffects JqManip JqTween JqMatch JqDispatch
begin

text \<open>
  \<^bold>\<open>ASGARD: the replicated log of the kernel module, and the scripts of its documentation.\<close>

  The repository holds a Linux kernel module (\<open>src/core\<close>, \<open>src/lkm\<close>) that runs a pacemaker, a leader
  election and a replicated command log below the network stack, a user space runner of the same core, and
  the generated documentation with the scripts its pages run (\<open>docs/_static\<close>).  The theories
  \<open>Asg*\<close> model the core of the module, \<open>Js*\<close>, \<open>Us*\<close> and \<open>Jq*\<close> the scripts.  The two halves
  share no state; within each half the theories import each other the way the files call each other.

  \<^bold>\<open>1. The module.\<close>  A node is the record \<open>asgard_device\<close> of \<open>AsgDevice\<close>; C integers are \<open>int\<close>
  narrowed by \<open>to_u16\<close>, \<open>to_u32\<close>, \<open>to_s32\<close> where the code narrows them, and packets are byte
  memories (\<open>AsgPrelude\<close>).

  \<^item> \<open>AsgQueue\<close> states the contract of a FIFO container as a locale; \<open>AsgRing\<close>
    (\<open>core/ringbuffer.c\<close>) and \<open>AsgPktQueue\<close> (\<open>core/pktqueue.c\<close>) interpret it, and so do the lists of
    retransmission requests in \<open>AsgCommit\<close>.
  \<^item> \<open>AsgLogger\<close>, \<open>AsgKVStore\<close>, \<open>AsgWire\<close>, \<open>AsgPayload\<close>: \<open>core/logger.c\<close>, \<open>core/kvstore.c\<close>
    (append, stable index, apply, commit), \<open>core/payload.h\<close> and \<open>core/payload.c\<close>.
  \<^item> \<open>AsgMembership\<close>, \<open>AsgProto\<close>, \<open>AsgPingPong\<close>, \<open>AsgHeartbeat\<close>, \<open>AsgPacemaker\<close>: registration of
    peers and protocol instances, the ping-pong protocol, the heartbeat and the failure detector.
  \<^item> \<open>AsgConsensus\<close>, \<open>AsgRoles\<close>, \<open>AsgReplication\<close>, \<open>AsgPktHandler\<close>: \<open>core/consensus.c\<close>,
    \<open>core/leader.c\<close>, \<open>core/candidate.c\<close>, \<open>core/follower.c\<close>, \<open>core/replication.c\<close> and
    \<open>core/pkthandler.c\<close>, every handler as a function from device to device.
  \<^item> \<open>AsgInvariant\<close> and \<open>AsgNode\<close>: the node as a transition system of frames, work items, pacemaker
    turns and time, with the invariant every step keeps.
  \<^item> \<open>AsgAppend\<close>, \<open>AsgCommit\<close>, \<open>AsgElection\<close>, \<open>AsgReplicate\<close>: the properties of appending,
    committing and voting, and of replication from end to end: what a leader queues, handled by a follower,
    makes the follower's log a copy, and the answer moves the leader's commit index.
  \<^item> \<open>AsgSample\<close>: states the program reaches after start-up, for the witnesses.

  \<^bold>\<open>2. The scripts.\<close>  A string is a list of UTF-16 units (\<open>ustr\<close>), an object used as a dictionary
  an association list in insertion order (\<open>JsPrelude\<close>), and a regular expression a term interpreted by the
  backtracking matcher of ECMAScript (\<open>JsRegExp\<close>).

  \<^item> \<open>JsDoctools\<close>, \<open>JsSearch\<close>, \<open>JsStemmer\<close>, \<open>JsUri\<close>: \<open>doctools.js\<close>, \<open>searchtools.js\<close>,
    \<open>language_data.js\<close>, and the two library functions on URIs they use.
  \<^item> \<open>UsObject\<close>, \<open>UsCollection\<close>, \<open>UsArray\<close>, \<open>UsEqual\<close>, \<open>UsFunction\<close>, \<open>UsText\<close>: Underscore, on a
    heap of objects where the code compares or changes them.
  \<^item> \<open>JqCore\<close>, \<open>JqData\<close>, \<open>JqDataset\<close>, \<open>JqQueue\<close>, \<open>JqClass\<close>, \<open>JqAttr\<close>, \<open>JqParam\<close>: types and \<open>extend\<close>, the data
    store, the function queues, classes, attributes, properties and values, and \<open>param\<close> of jQuery.
  \<^item> \<open>JqCallbacks\<close>, \<open>JqDeferred\<close>, \<open>JqSettle\<close>: callback lists as a machine with an explicit stack, for a
    callback may fire, add to, lock and empty the list that runs it; deferreds built from six such lists;
    and the invariant by which a deferred settles once.
  \<^item> \<open>JqConvert\<close>, \<open>JqAjax\<close>, \<open>JqXhr\<close>: conversion of responses, the life of a request as a machine
    fed with aborts, timeouts and answers, the transport.
  \<^item> \<open>JqSelector\<close>, \<open>JqToken\<close>, \<open>JqFilter\<close>, \<open>JqSort\<close>, \<open>JqMatch\<close>: the selector engine: escapes,
    tokenizer, filters, document order, and compiled matchers with the results they cache on elements.
  \<^item> \<open>JqNamespace\<close>, \<open>JqEvent\<close>, \<open>JqDispatch\<close>: events: namespaces, the lists of handlers, delivery and
    triggering with handlers that themselves attach, detach and trigger.
  \<^item> \<open>JqTraverse\<close>, \<open>JqManip\<close>, \<open>JqEffects\<close>: walking from nodes to nodes, changing the document (trees
    whose nodes have numbers, with insertion and removal as the DOM standard has them), and the clock of the
    animations with the list it ticks through while animations start and stop.
  \<^item> \<open>JqStyle\<close>, \<open>JqTween\<close>: values of styles, showing and hiding, sizes of boxes; the tweens that the animations run,
    and the loop that converts the unit of a start value.

  \<^bold>\<open>3. What the lemmas show.\<close>  Each theory has the behaviour of its operations on every branch, then
  the invariant or the reference definition they meet.  The properties of the manifest, C1 to C40, stand
  right after their statement in natural language; each with a hypothesis is applied to a concrete input by
  the lemma with its name and the ending \<open>_witness\<close>.  C1 to C14 are about the module: replication as a
  refinement, the node's invariant, the safety of appending, committing and voting, crash detection, the
  containers; three of them state what goes wrong: a node may vote twice in a term, a silent peer blocks the
  commit index, the ring buffers are given their size in bytes.  C15 to C40 are about the scripts.

  \<^bold>\<open>4. Fuel and bounds.\<close>  Most loops are structural recursions or have a measure.  Fuel is used
  where a recursion follows data that may be cyclic or code given by the caller, and is shown to be enough:
  \<open>isEqual\<close> gets one more than the number of pairs of objects, and never runs out (C15); the tokenizer one
  more than the length of the text (C33); the conversion of responses two steps per data type and two more
  (C25); highlighting the depth of the tree and two more; the scan for retransmissions the number of indices
  left.  \<open>extend\<close> may recurse for ever on cyclic values, as in the code, and \<open>trigger\<close> for ever
  when handlers trigger their own event: there \<open>None\<close> is running out of fuel and the properties speak of
  calls that return.  The callback machine is run for a number of steps that C22 shows to exist.

  \<^bold>\<open>5. Parameters.\<close>  What is not under \<open>src\<close> is an argument of the definitions that use it: network
  transmission and clocks of the kernel, the handlers, callbacks, iteratees and converters of callers, the
  browser's answers, nodes and \<open>Function\<close> constructor, and in \<open>JqMatch\<close> the test of a simple selector.

  \<^bold>\<open>6. Not modelled.\<close>  Of the module: loading, character devices and proc files, construction of
  socket buffers, locks (each operation is an atomic step), the user space runner's sockets and configuration
  files.  Of Underscore: branches for engines without the standard's functions, \<open>invoke\<close>, tests of
  \<open>Map\<close> and \<open>Set\<close>.  Of jQuery: \<open>html()\<close>, wrapping, offsets and scrolling,
  selectors with positions (\<open>setMatcher\<close>) and the browser's own selector search, runs of a selector inside
  another run, native event methods, the script transport, \<open>ajaxExtend\<close>; they consist of calls into the
  browser or of workarounds for particular browsers.  The minified files repeat the others.
\<close>

end
